(* ===== verification/Prelude.thy ===== *)
theory Prelude
  imports Main "HOL-Library.Word"
begin

text \<open>
  Shared vocabulary of the development: the result type of code that can throw or run into
  undefined behaviour, checked array accesses, C integer ranges, pointers into an explicit store,
  and the lemmas on ring windows that every circular buffer of the repository relies on.
\<close>

section \<open>Named theorem collections\<close>

named_theorems res_simps \<open>evaluation of the result monad and of checked accesses\<close>
named_theorems window_simps \<open>rewriting of ring windows\<close>

section \<open>Results\<close>

text \<open>
  \<open>Throw\<close> is a C++ exception with its message. The other constructors are the undefined behaviours
  the source can run into: they are values of the model, so that their absence is a theorem.
\<close>

datatype err =
    Throw string
  | OutOfBounds
  | NullDeref
  | DanglingPtr
  | IntOverflow
  | DivByZero

type_synonym 'a res = "err + 'a"

fun rbind :: "'a res \<Rightarrow> ('a \<Rightarrow> 'b res) \<Rightarrow> 'b res" where
  "rbind (Inl e) f = Inl e"
| "rbind (Inr x) f = f x"

declare rbind.simps [res_simps]

lemma rbind_cong [fundef_cong]:
  "m = n \<Longrightarrow> (\<And>x. n = Inr x \<Longrightarrow> f x = g x) \<Longrightarrow> rbind m f = rbind n g"
  by (cases n) auto

lemma rbind_assoc [res_simps]: "rbind (rbind m f) g = rbind m (\<lambda>x. rbind (f x) g)"
  by (cases m) auto

lemma rbind_eq_Inr [simp]: "rbind m f = Inr y \<longleftrightarrow> (\<exists>x. m = Inr x \<and> f x = Inr y)"
  by (cases m) auto

lemma rbind_eq_Inl: "rbind m f = Inl e \<longleftrightarrow> m = Inl e \<or> (\<exists>x. m = Inr x \<and> f x = Inl e)"
  by (cases m) auto

definition is_ok :: "'a res \<Rightarrow> bool" where
  "is_ok r = (case r of Inl _ \<Rightarrow> False | Inr _ \<Rightarrow> True)"

lemma is_ok_simps [simp, res_simps]: "is_ok (Inr x)" "\<not> is_ok (Inl e)"
  by (simp_all add: is_ok_def)

lemma is_ok_iff: "is_ok r \<longleftrightarrow> (\<exists>x. r = Inr x)"
  by (cases r) auto

definition ok_of :: "'a res \<Rightarrow> 'a option" where
  "ok_of r = (case r of Inl _ \<Rightarrow> None | Inr x \<Rightarrow> Some x)"

lemma ok_of_simps [simp, res_simps]: "ok_of (Inr x) = Some x" "ok_of (Inl e) = None"
  by (simp_all add: ok_of_def)

text \<open>Sequencing of code whose loops may not return.\<close>

definition obind :: "'a res option \<Rightarrow> ('a \<Rightarrow> 'b res option) \<Rightarrow> 'b res option" where
  "obind r f = (case r of None \<Rightarrow> None | Some (Inl e) \<Rightarrow> Some (Inl e) | Some (Inr x) \<Rightarrow> f x)"

lemma obind_simps [simp, res_simps]:
  "obind None f = None" "obind (Some (Inl e)) f = Some (Inl e)" "obind (Some (Inr x)) f = f x"
  by (simp_all add: obind_def)

lemma obind_cong [fundef_cong]:
  "r = r' \<Longrightarrow> (\<And>x. r' = Some (Inr x) \<Longrightarrow> f x = g x) \<Longrightarrow> obind r f = obind r' g"
  by (auto simp: obind_def split: option.splits sum.splits)

lemma obind_bind: "obind r f = Option.bind r (\<lambda>x. case x of Inl e \<Rightarrow> Some (Inl e) | Inr y \<Rightarrow> f y)"
  by (simp add: obind_def Option.bind_def split: option.splits sum.splits)

lemma obind_mono [partial_function_mono]:
  assumes "mono_option B" "\<And>y. mono_option (C y)"
  shows "mono_option (\<lambda>f. obind (B f) (\<lambda>y. C y f))"
  unfolding obind_bind
proof (rule bind_mono [OF assms(1)])
  fix y show "mono_option (\<lambda>f. case y of Inl e \<Rightarrow> Some (Inl e) | Inr y \<Rightarrow> C y f)"
    using assms(2) by (cases y) (auto intro: option.const_mono)
qed

text \<open>A \<open>while\<close> loop whose body may fail; \<open>None\<close> when it runs forever.\<close>

partial_function (option) res_while :: "('s \<Rightarrow> bool) \<Rightarrow> ('s \<Rightarrow> 's res) \<Rightarrow> 's \<Rightarrow> 's res option" where
  "res_while b f s = (if b s then (case f s of Inl e \<Rightarrow> Some (Inl e) | Inr s' \<Rightarrow> res_while b f s') else Some (Inr s))"

declare res_while.simps [code]

text \<open>The rule for a loop that runs \<open>n\<close> times: total correctness from an invariant indexed by the number of rounds.\<close>

lemma res_while_counted:
  assumes "\<And>k s. k < n \<Longrightarrow> Inv k s \<Longrightarrow> b s \<and> (\<exists>s'. f s = Inr s' \<and> Inv (Suc k) s')" "\<And>s. Inv n s \<Longrightarrow> \<not> b s" "Inv k s" "k \<le> n"
  shows "\<exists>s'. res_while b f s = Some (Inr s') \<and> Inv n s'"
  using assms(3,4)
proof (induction "n - k" arbitrary: k s)
  case 0
  then have "k = n" by simp
  then show ?case using 0 assms(2) by (subst res_while.simps) simp
next
  case (Suc m)
  then have "k < n" by simp
  then obtain s' where s': "b s" "f s = Inr s'" "Inv (Suc k) s'" using assms(1) Suc.prems by blast
  have "\<exists>s''. res_while b f s' = Some (Inr s'') \<and> Inv n s''" using Suc s'(3) by (intro Suc.hyps(1) [of "Suc k"]) auto
  then show ?case using s' by (subst res_while.simps) simp
qed

section \<open>Checked accesses\<close>

definition arr_get :: "'a list \<Rightarrow> nat \<Rightarrow> 'a res" where
  "arr_get xs i = (if i < length xs then Inr (xs ! i) else Inl OutOfBounds)"

definition arr_set :: "'a list \<Rightarrow> nat \<Rightarrow> 'a \<Rightarrow> 'a list res" where
  "arr_set xs i v = (if i < length xs then Inr (xs[i := v]) else Inl OutOfBounds)"

lemma arr_get_ok [simp, res_simps]: "i < length xs \<Longrightarrow> arr_get xs i = Inr (xs ! i)"
  by (simp add: arr_get_def)

lemma arr_get_bad [simp, res_simps]: "length xs \<le> i \<Longrightarrow> arr_get xs i = Inl OutOfBounds"
  by (simp add: arr_get_def)

lemma arr_set_ok [simp, res_simps]: "i < length xs \<Longrightarrow> arr_set xs i v = Inr (xs[i := v])"
  by (simp add: arr_set_def)

lemma arr_set_bad [simp, res_simps]: "length xs \<le> i \<Longrightarrow> arr_set xs i v = Inl OutOfBounds"
  by (simp add: arr_set_def)

text \<open>An index computed as a C \<open>int\<close> may be negative.\<close>

definition arr_geti :: "'a list \<Rightarrow> int \<Rightarrow> 'a res" where
  "arr_geti xs i = (if 0 \<le> i then arr_get xs (nat i) else Inl OutOfBounds)"

definition arr_seti :: "'a list \<Rightarrow> int \<Rightarrow> 'a \<Rightarrow> 'a list res" where
  "arr_seti xs i v = (if 0 \<le> i then arr_set xs (nat i) v else Inl OutOfBounds)"

lemma arr_geti_ok [simp, res_simps]:
  "0 \<le> i \<Longrightarrow> i < int (length xs) \<Longrightarrow> arr_geti xs i = Inr (xs ! nat i)"
  by (simp add: arr_geti_def arr_get_def)

lemma arr_seti_ok [simp, res_simps]:
  "0 \<le> i \<Longrightarrow> i < int (length xs) \<Longrightarrow> arr_seti xs i v = Inr (xs[nat i := v])"
  by (simp add: arr_seti_def arr_set_def)

text \<open>The remainder of unsigned numbers; a zero divisor is undefined behaviour.\<close>

definition umod :: "nat \<Rightarrow> nat \<Rightarrow> nat res" where
  "umod a b = (if b = 0 then Inl DivByZero else Inr (a mod b))"

lemma umod_ok [simp, res_simps]: "0 < b \<Longrightarrow> umod a b = Inr (a mod b)"
  by (simp add: umod_def)

section \<open>C integers\<close>

abbreviation INT_MAX :: int where "INT_MAX \<equiv> 2 ^ 31 - 1"
abbreviation INT_MIN :: int where "INT_MIN \<equiv> - (2 ^ 31)"
abbreviation LLONG_MAX :: int where "LLONG_MAX \<equiv> 2 ^ 63 - 1"
abbreviation LLONG_MIN :: int where "LLONG_MIN \<equiv> - (2 ^ 63)"

text \<open>Signed arithmetic outside its range is undefined behaviour.\<close>

definition chk32 :: "int \<Rightarrow> int res" where
  "chk32 z = (if INT_MIN \<le> z \<and> z \<le> INT_MAX then Inr z else Inl IntOverflow)"

definition chk64 :: "int \<Rightarrow> int res" where
  "chk64 z = (if LLONG_MIN \<le> z \<and> z \<le> LLONG_MAX then Inr z else Inl IntOverflow)"

lemma chk32_ok [simp, res_simps]: "INT_MIN \<le> z \<Longrightarrow> z \<le> INT_MAX \<Longrightarrow> chk32 z = Inr z"
  by (simp add: chk32_def)

lemma chk64_ok [simp, res_simps]: "LLONG_MIN \<le> z \<Longrightarrow> z \<le> LLONG_MAX \<Longrightarrow> chk64 z = Inr z"
  by (simp add: chk64_def)

section \<open>Pointers\<close>

text \<open>
  An address is a natural number, a pointer is an address or null, and a store maps the allocated
  addresses to their objects. Reading through null or through an address that is not allocated is
  an error value.
\<close>

type_synonym addr = nat
type_synonym ptr = "addr option"

definition deref :: "(addr \<Rightarrow> 'o option) \<Rightarrow> ptr \<Rightarrow> 'o res" where
  "deref h p = (case p of None \<Rightarrow> Inl NullDeref
     | Some a \<Rightarrow> (case h a of None \<Rightarrow> Inl DanglingPtr | Some obj \<Rightarrow> Inr obj))"

lemma deref_simps [simp, res_simps]:
  "deref h None = Inl NullDeref"
  "h a = None \<Longrightarrow> deref h (Some a) = Inl DanglingPtr"
  "h a = Some obj \<Longrightarrow> deref h (Some a) = Inr obj"
  by (simp_all add: deref_def)

lemma deref_eq_Inr: "deref h p = Inr obj \<longleftrightarrow> (\<exists>a. p = Some a \<and> h a = Some obj)"
  by (cases p) (auto simp: deref_def split: option.splits)

section \<open>Counting\<close>

lemma upto_snoc: "0 \<le> n \<Longrightarrow> [1..n + 1] = [1..n] @ [n + 1 :: int]"
  by (simp add: upto_rec2)

lemma sum_list_update_nat: "i < length xs \<Longrightarrow> sum_list (map f (xs[i := x])) + f (xs ! i) = sum_list (map f xs) + (f x :: nat)"
proof (induction xs arbitrary: i)
  case (Cons y xs)
  then show ?case by (cases i) auto
qed simp

section \<open>Ring windows\<close>

text \<open>\<open>window buf t n\<close>: the \<open>n\<close> elements of the ring \<open>buf\<close> from index \<open>t\<close> on, wrapping around.\<close>

definition window :: "'a list \<Rightarrow> nat \<Rightarrow> nat \<Rightarrow> 'a list" where
  "window buf t n = map (\<lambda>i. buf ! ((t + i) mod length buf)) [0..<n]"

lemma length_window [simp]: "length (window buf t n) = n"
  by (simp add: window_def)

lemma window_0 [simp, window_simps]: "window buf t 0 = []"
  by (simp add: window_def)

lemma window_eq_Nil [simp]: "window buf t n = [] \<longleftrightarrow> n = 0"
  by (simp add: window_def)

lemma nth_window [simp]: "i < n \<Longrightarrow> window buf t n ! i = buf ! ((t + i) mod length buf)"
  by (simp add: window_def)

lemma window_Suc: "window buf t (Suc n) = window buf t n @ [buf ! ((t + n) mod length buf)]"
  by (simp add: window_def)

lemma window_Cons: "window buf t (Suc n) = buf ! (t mod length buf) # window buf (Suc t) n"
  by (rule nth_equalityI) (auto simp: nth_Cons split: nat.splits)

lemma window_mod [simp, window_simps]: "window buf (t mod length buf) n = window buf t n"
  by (simp add: window_def mod_add_left_eq)

lemma ring_index_neq:
  assumes "i < n" "n < (N::nat)"
  shows "(t + i) mod N \<noteq> (t + n) mod N"
proof
  assume "(t + i) mod N = (t + n) mod N"
  then have "(t + n - (t + i)) mod N = 0"
    using assms by (metis add_le_cancel_left less_imp_le_nat mod_eq_dvd_iff_nat
        dvd_eq_mod_eq_0)
  then show False using assms by simp
qed

lemma ring_index_less [simp]: "n < length buf \<Longrightarrow> k mod length buf < length buf"
  by (rule mod_less_divisor) linarith

lemma window_update_end:
  "n < length buf \<Longrightarrow> window (buf[(t + n) mod length buf := x]) t n = window buf t n"
  by (rule nth_equalityI) (auto simp: nth_list_update ring_index_neq [symmetric])

lemma window_push:
  "n < length buf \<Longrightarrow>
     window (buf[(t + n) mod length buf := x]) t (Suc n) = window buf t n @ [x]"
  using mod_less_divisor [of "length buf" "t + n"] by (simp add: window_Suc window_update_end)

text \<open>Overwriting the oldest element of a full ring drops it and appends the new one.\<close>

lemma window_overwrite:
  assumes "t < length buf"
  shows "window (buf[t := x]) (Suc t) (length buf) = tl (window buf t (length buf)) @ [x]"
proof -
  obtain n where n: "length buf = Suc n" using assms by (cases "length buf") auto
  have idx: "(Suc t + n) mod length buf = t" using assms n
    by (metis add_Suc add_Suc_right mod_add_self2 mod_less)
  have "window (buf[t := x]) (Suc t) (Suc n) = window buf (Suc t) n @ [x]"
    using window_push [of n buf "Suc t" x] idx n by simp
  then show ?thesis by (simp add: n window_Cons)
qed

lemma window_hd: "0 < n \<Longrightarrow> hd (window buf t n) = buf ! (t mod length buf)"
  by (cases n) (simp_all add: window_Cons)

lemma window_tl: "tl (window buf t n) = window buf (Suc t) (n - 1)"
  by (cases n) (simp_all add: window_Cons)

end
