(* ===== verification/Queue_Interfaces.thy ===== *)
theory Queue_Interfaces
  imports Prelude
begin

text \<open>
  The contracts that the repository's queues, stacks and overwriting rings promise, as locales, and
  what a client may conclude from them. Every implementation theory interprets the locale it
  satisfies on its own operations.
\<close>

section \<open>Runs of operations\<close>

datatype 'a qop = Push 'a | Pop

datatype 'a qout = Accepted | Rejected | Got 'a | Nothing

fun run_ops ::
  "('s \<Rightarrow> 'a \<Rightarrow> 's option) \<Rightarrow> ('s \<Rightarrow> ('a \<times> 's) option) \<Rightarrow> 'a qop list \<Rightarrow> 's \<Rightarrow> 'a qout list \<times> 's"
where
  "run_ops push pop [] s = ([], s)"
| "run_ops push pop (Push x # ops) s =
     (case push s x of
        None \<Rightarrow> apfst ((#) Rejected) (run_ops push pop ops s)
      | Some s' \<Rightarrow> apfst ((#) Accepted) (run_ops push pop ops s'))"
| "run_ops push pop (Pop # ops) s =
     (case pop s of
        None \<Rightarrow> apfst ((#) Nothing) (run_ops push pop ops s)
      | Some (x, s') \<Rightarrow> apfst ((#) (Got x)) (run_ops push pop ops s'))"

text \<open>The values a run accepted, in order.\<close>

fun accepted :: "'a qop list \<Rightarrow> 'a qout list \<Rightarrow> 'a list" where
  "accepted (Push x # ops) (Accepted # outs) = x # accepted ops outs"
| "accepted (_ # ops) (_ # outs) = accepted ops outs"
| "accepted _ _ = []"

text \<open>The values a run tries to store.\<close>

fun pushed_vals :: "'a qop list \<Rightarrow> 'a list" where
  "pushed_vals [] = []"
| "pushed_vals (Push x # ops) = x # pushed_vals ops"
| "pushed_vals (Pop # ops) = pushed_vals ops"

text \<open>
  The values that the pops of a run took out of a container that held \<open>n\<close> values: the answers of the pops that found something. What a pop of an empty
  container answers is not among them, even where the code answers with a value such as \<open>-1\<close>.
\<close>

fun served :: "nat \<Rightarrow> 'a qop list \<Rightarrow> 'a qout list \<Rightarrow> 'a list" where
  "served n (Push x # ops) (Accepted # outs) = served (Suc n) ops outs"
| "served (Suc n) (Pop # ops) (Got x # outs) = x # served n ops outs"
| "served n (_ # ops) (_ # outs) = served n ops outs"
| "served n _ _ = []"

text \<open>The largest number of values that are stored at one time when the calls run on an unbounded container that holds \<open>n\<close> values.\<close>

fun most_stored :: "nat \<Rightarrow> 'a qop list \<Rightarrow> nat" where
  "most_stored n [] = n"
| "most_stored n (Push x # ops) = max n (most_stored (Suc n) ops)"
| "most_stored n (Pop # ops) = max n (most_stored (n - 1) ops)"

lemma most_stored_ge: "n \<le> most_stored n ops"
  by (induction n ops rule: most_stored.induct) auto

section \<open>The list specifications\<close>

definition has_room :: "nat option \<Rightarrow> nat \<Rightarrow> bool" where
  "has_room cap n = (case cap of None \<Rightarrow> True | Some c \<Rightarrow> n < c)"

definition list_enq :: "nat option \<Rightarrow> 'a list \<Rightarrow> 'a \<Rightarrow> 'a list option" where
  "list_enq cap xs x = (if has_room cap (length xs) then Some (xs @ [x]) else None)"

fun list_take :: "'a list \<Rightarrow> ('a \<times> 'a list) option" where
  "list_take [] = None"
| "list_take (x # xs) = Some (x, xs)"

text \<open>
  A pop of a container whose pop of an empty one answers \<open>none\<close>: it refuses (\<open>None\<close>), or it returns a fixed value and changes nothing. The second gives the
  answers of the first with that value for \<open>Nothing\<close>.
\<close>

fun list_pop :: "'a option \<Rightarrow> 'a list \<Rightarrow> ('a \<times> 'a list) option" where
  "list_pop none [] = map_option (\<lambda>d. (d, [])) none"
| "list_pop none (x # xs) = Some (x, xs)"

lemma list_pop_None [simp]: "list_pop None = list_take"
proof
  show "list_pop None xs = list_take xs" for xs :: "'a list" by (cases xs) simp_all
qed

fun or_answer :: "'a \<Rightarrow> 'a qout \<Rightarrow> 'a qout" where
  "or_answer d Nothing = Got d"
| "or_answer d out = out"

definition list_cons :: "'a list \<Rightarrow> 'a \<Rightarrow> 'a list option" where
  "list_cons xs x = Some (x # xs)"

text \<open>Capacities that \<open>n\<close> stored values do not exceed.\<close>

definition within :: "nat option \<Rightarrow> nat \<Rightarrow> bool" where
  "within cap n = (case cap of None \<Rightarrow> True | Some c \<Rightarrow> n \<le> c)"

lemma within_le: "within cap n \<Longrightarrow> m \<le> n \<Longrightarrow> within cap m"
  by (auto simp: within_def split: option.splits)

lemma within_room: "within cap (most_stored (Suc n) ops) \<Longrightarrow> has_room cap n"
  using most_stored_ge [of "Suc n" ops] by (auto simp: within_def has_room_def split: option.splits)

lemma run_or_answer:
  "fst (run_ops push (list_pop (Some d)) ops xs) = map (or_answer d) (fst (run_ops push list_take ops xs))" for xs :: "'a list"
proof (induction push "list_take :: 'a list \<Rightarrow> _" ops xs rule: run_ops.induct)
  case (3 push ops xs)
  then show ?case by (cases xs) simp_all
qed (simp_all split: option.splits)

lemma run_within_capacity:
  "within cap (most_stored (length xs) ops) \<Longrightarrow>
    run_ops (list_enq cap) (list_pop none) ops xs = run_ops (list_enq None) (list_pop none) ops xs"
proof (induction "length xs" ops arbitrary: xs rule: most_stored.induct)
  case (2 x ops)
  have w: "within cap (most_stored (Suc (length xs)) ops)" using 2(2) within_le [of cap "most_stored (length xs) (Push x # ops)"] by auto
  with within_room [OF w] 2(1) [of "xs @ [x]"] show ?case by (simp add: list_enq_def has_room_def)
next
  case (3 ops)
  have w: "within cap (most_stored (length xs - 1) ops)" using 3(2) within_le [of cap "most_stored (length xs) (Pop # ops)"] by auto
  show ?case
  proof (cases xs)
    case Nil
    with 3(1) [of xs] w show ?thesis by (cases none) simp_all
  next
    case (Cons y ys)
    with 3(1) [of ys] w show ?thesis by simp
  qed
qed simp

definition keep_last :: "nat \<Rightarrow> 'a list \<Rightarrow> 'a list" where
  "keep_last n xs = drop (length xs - n) xs"

definition list_ring :: "nat \<Rightarrow> 'a list \<Rightarrow> 'a \<Rightarrow> 'a list option" where
  "list_ring cap xs x = Some (keep_last cap (xs @ [x]))"

lemma length_keep_last [simp]: "length (keep_last n xs) = min n (length xs)"
  by (simp add: keep_last_def)

lemma keep_last_id [simp]: "length xs \<le> n \<Longrightarrow> keep_last n xs = xs"
  by (simp add: keep_last_def)

lemma keep_last_full: "length xs = n \<Longrightarrow> 0 < n \<Longrightarrow> keep_last n (xs @ [x]) = tl xs @ [x]"
  by (cases xs) (auto simp: keep_last_def)

lemma keep_last_append: "keep_last n (keep_last n xs @ [x]) = keep_last n (xs @ [x])"
  by (cases "length xs < n") (auto simp: keep_last_def Suc_diff_le)

lemma foldl_keep_last:
  "foldl (\<lambda>ys x. keep_last n (ys @ [x])) (keep_last n ys) xs = keep_last n (ys @ xs)"
proof (induction xs arbitrary: ys)
  case (Cons x xs)
  show ?case using Cons.IH [of "ys @ [x]"] by (simp add: keep_last_append)
qed simp

section \<open>First in, first out\<close>

text \<open>\<open>none\<close> is what a pop of the empty queue answers.\<close>

locale fifo =
  fixes push :: "'s \<Rightarrow> 'a \<Rightarrow> 's option"
    and pop :: "'s \<Rightarrow> ('a \<times> 's) option"
    and contents :: "'s \<Rightarrow> 'a list"
    and inv :: "'s \<Rightarrow> bool"
    and room :: "'s \<Rightarrow> bool"
    and none :: "'a option"
  assumes push_room: "inv s \<Longrightarrow> room s \<Longrightarrow>
      \<exists>s'. push s x = Some s' \<and> inv s' \<and> contents s' = contents s @ [x]"
    and push_full: "inv s \<Longrightarrow> \<not> room s \<Longrightarrow> push s x = None"
    and pop_empty: "inv s \<Longrightarrow> contents s = [] \<Longrightarrow> pop s = map_option (\<lambda>d. (d, s)) none"
    and pop_front: "inv s \<Longrightarrow> contents s = x # xs \<Longrightarrow>
      \<exists>s'. pop s = Some (x, s') \<and> inv s' \<and> contents s' = xs"
begin

lemma push_cases:
  assumes "inv s"
  obtains (Room) s' where "room s" "push s x = Some s'" "inv s'" "contents s' = contents s @ [x]"
    | (Full) "\<not> room s" "push s x = None"
  using push_room [OF assms, of x] push_full [OF assms, of x] by (cases "room s") auto

lemma pop_cases:
  assumes "inv s"
  obtains (Refused) "contents s = []" "none = None" "pop s = None"
    | (Answered) d where "contents s = []" "none = Some d" "pop s = Some (d, s)"
    | (Front) x s' where "contents s = x # contents s'" "pop s = Some (x, s')" "inv s'"
  using pop_empty [OF assms] pop_front [OF assms] by (cases none; cases "contents s") fastforce+

text \<open>Nothing is lost, duplicated or reordered, whatever the operations are.\<close>

lemma conservation:
  assumes "inv s" and "run_ops push pop ops s = (outs, s')"
  shows "inv s' \<and> contents s @ accepted ops outs = served (length (contents s)) ops outs @ contents s'"
  using assms
proof (induction ops arbitrary: s outs)
  case (Cons a ops)
  show ?case
  proof (cases a)
    case (Push x)
    from Cons.prems(1) show ?thesis
    proof (cases rule: push_cases [where x = x])
      case (Room t)
      with Cons.prems Push show ?thesis
        by (auto simp: apfst_def map_prod_def split: prod.splits dest!: Cons.IH [OF Room(3)])
    next
      case Full
      with Cons.prems Push show ?thesis
        by (auto simp: apfst_def map_prod_def split: prod.splits dest: Cons.IH [OF Cons.prems(1)])
    qed
  next
    case Pop
    from Cons.prems(1) show ?thesis
    proof (cases rule: pop_cases)
      case Refused
      with Cons.prems Pop show ?thesis
        by (auto simp: apfst_def map_prod_def split: prod.splits dest: Cons.IH [OF Cons.prems(1)])
    next
      case (Answered d)
      with Cons.prems Pop show ?thesis
        by (auto simp: apfst_def map_prod_def split: prod.splits dest: Cons.IH [OF Cons.prems(1)])
    next
      case (Front x t)
      with Cons.prems Pop show ?thesis
        by (auto simp: apfst_def map_prod_def split: prod.splits dest!: Cons.IH [OF Front(3)])
    qed
  qed
qed simp

end

text \<open>A queue whose room depends on the number of stored values only is the bounded list queue.\<close>

locale list_fifo = fifo +
  fixes cap :: "nat option"
  assumes room_iff: "inv s \<Longrightarrow> room s \<longleftrightarrow> has_room cap (length (contents s))"
begin

lemma refines_list:
  assumes "inv s"
  shows "run_ops (list_enq cap) (list_pop none) ops (contents s) =
    apsnd contents (run_ops push pop ops s)"
  using assms
proof (induction ops arbitrary: s)
  case (Cons a ops)
  show ?case
  proof (cases a)
    case (Push x)
    from Cons.prems show ?thesis
    proof (cases rule: push_cases [where x = x])
      case (Room t)
      with Cons.IH [OF Room(3)] Cons.prems Push show ?thesis
        by (simp add: list_enq_def room_iff apfst_def apsnd_def map_prod_def split: prod.splits)
    next
      case Full
      with Cons.IH [OF Cons.prems] Cons.prems Push show ?thesis
        by (simp add: list_enq_def room_iff apfst_def apsnd_def map_prod_def split: prod.splits)
    qed
  next
    case Pop
    from Cons.prems show ?thesis
    proof (cases rule: pop_cases)
      case Refused
      with Cons.IH [OF Cons.prems] Pop show ?thesis
        by (simp add: apfst_def apsnd_def map_prod_def split: prod.splits)
    next
      case (Answered d)
      with Cons.IH [OF Cons.prems] Pop show ?thesis
        by (simp add: apfst_def apsnd_def map_prod_def split: prod.splits)
    next
      case (Front x t)
      with Cons.IH [OF Front(3)] Pop show ?thesis
        by (simp add: apfst_def apsnd_def map_prod_def split: prod.splits)
    qed
  qed
qed simp

end

text \<open>
  A queue that has space for some number of further values, whatever is taken out meanwhile, serves that many pushes as an
  unbounded list queue does.
\<close>

locale spacious_fifo = fifo +
  fixes space :: "'a \<Rightarrow> nat"
  assumes space_room: "inv s \<Longrightarrow> 0 < space s \<Longrightarrow> room s"
    and push_space: "inv s \<Longrightarrow> push s x = Some s' \<Longrightarrow> space s \<le> Suc (space s')"
    and pop_space: "inv s \<Longrightarrow> pop s = Some (x, s') \<Longrightarrow> space s \<le> space s'"
begin

lemma refines_unbounded:
  assumes "inv s" and "length (pushed_vals ops) \<le> space s"
  shows "run_ops (list_enq None) (list_pop none) ops (contents s) = apsnd contents (run_ops push pop ops s)"
  using assms
proof (induction ops arbitrary: s rule: pushed_vals.induct)
  case (2 x ops)
  from "2.prems" have "room s" by (intro space_room) auto
  with "2.prems" obtain t where t: "push s x = Some t" "inv t" "contents t = contents s @ [x]"
    using push_room by blast
  with "2.IH" [OF t(2)] "2.prems" push_space [OF "2.prems"(1) t(1)] show ?case
    by (simp add: list_enq_def has_room_def apfst_def apsnd_def map_prod_def split: prod.splits)
next
  case (3 ops)
  from "3.prems"(1) show ?case
  proof (cases rule: pop_cases)
    case Refused
    with "3.IH" [OF "3.prems"(1)] "3.prems" show ?thesis
      by (simp add: apfst_def apsnd_def map_prod_def split: prod.splits)
  next
    case (Answered d)
    with "3.IH" [OF "3.prems"(1)] "3.prems" show ?thesis
      by (simp add: apfst_def apsnd_def map_prod_def split: prod.splits)
  next
    case (Front x t)
    with "3.IH" [OF Front(3)] "3.prems" pop_space [OF "3.prems"(1) Front(2)] show ?thesis
      by (simp add: apfst_def apsnd_def map_prod_def split: prod.splits)
  qed
qed simp

end

section \<open>Last in, first out\<close>

text \<open>A stack that is good for \<open>cap\<close> values; \<open>none\<close> is what a pop of the empty stack answers.\<close>

locale lifo =
  fixes push :: "'s \<Rightarrow> 'a \<Rightarrow> 's option"
    and pop :: "'s \<Rightarrow> ('a \<times> 's) option"
    and contents :: "'s \<Rightarrow> 'a list"
    and inv :: "'s \<Rightarrow> bool"
    and none :: "'a option"
    and cap :: "nat option"
  assumes push_top: "inv s \<Longrightarrow> has_room cap (length (contents s)) \<Longrightarrow> \<exists>s'. push s x = Some s' \<and> inv s' \<and> contents s' = x # contents s"
    and pop_none: "inv s \<Longrightarrow> contents s = [] \<Longrightarrow> pop s = map_option (\<lambda>d. (d, s)) none"
    and pop_top: "inv s \<Longrightarrow> contents s = x # xs \<Longrightarrow>
      \<exists>s'. pop s = Some (x, s') \<and> inv s' \<and> contents s' = xs"
begin

lemma stack_refines_list:
  assumes "inv s" and "within cap (most_stored (length (contents s)) ops)"
  shows "run_ops list_cons (list_pop none) ops (contents s) = apsnd contents (run_ops push pop ops s)"
  using assms
proof (induction ops arbitrary: s)
  case (Cons a ops)
  let ?n = "length (contents s)"
  show ?case
  proof (cases a)
    case (Push x)
    have w: "within cap (most_stored (Suc ?n) ops)" using Cons.prems(2) Push within_le [of cap "most_stored ?n (a # ops)"] by auto
    from push_top [OF Cons.prems(1) within_room [OF w], of x] obtain t
      where "push s x = Some t" "inv t" "contents t = x # contents s" by blast
    with Cons.IH [of t] w Push show ?thesis
      by (simp add: list_cons_def apfst_def apsnd_def map_prod_def split: prod.splits)
  next
    case Pop
    have w: "within cap (most_stored (?n - 1) ops)" using Cons.prems(2) Pop within_le [of cap "most_stored ?n (a # ops)"] by auto
    show ?thesis
    proof (cases "contents s")
      case Nil
      with pop_none [OF Cons.prems(1)] Cons.IH [OF Cons.prems(1)] w Pop show ?thesis
        by (cases none) (simp_all add: apfst_def apsnd_def map_prod_def split: prod.splits)
    next
      case (Cons x xs)
      from pop_top [OF Cons.prems(1) this] obtain t
        where "pop s = Some (x, t)" "inv t" "contents t = xs" by blast
      with Cons.IH [of t] Cons w Pop show ?thesis
        by (simp add: apfst_def apsnd_def map_prod_def split: prod.splits)
    qed
  qed
qed simp

end

section \<open>Rings that overwrite their oldest element\<close>

locale overwrite_ring =
  fixes enq :: "'s \<Rightarrow> 'a \<Rightarrow> 's option"
    and deq :: "'s \<Rightarrow> ('a \<times> 's) option"
    and contents :: "'s \<Rightarrow> 'a list"
    and inv :: "'s \<Rightarrow> bool"
    and cap :: nat
    and valid :: "'a \<Rightarrow> bool"
  assumes enq_keeps: "inv s \<Longrightarrow> valid x \<Longrightarrow>
      \<exists>s'. enq s x = Some s' \<and> inv s' \<and> contents s' = keep_last cap (contents s @ [x])"
    and deq_none: "inv s \<Longrightarrow> contents s = [] \<Longrightarrow> deq s = None"
    and deq_front: "inv s \<Longrightarrow> contents s = x # xs \<Longrightarrow>
      \<exists>s'. deq s = Some (x, s') \<and> inv s' \<and> contents s' = xs"
    and within_cap: "inv s \<Longrightarrow> length (contents s) \<le> cap"
begin

text \<open>After any number of insertions the ring holds the most recent ones, oldest first.\<close>

lemma enq_all:
  assumes "inv s" and "list_all valid xs"
  shows "\<exists>s'. run_ops enq deq (map Push xs) s = (replicate (length xs) Accepted, s') \<and> inv s' \<and>
    contents s' = keep_last cap (contents s @ xs)"
  using assms
proof (induction xs arbitrary: s)
  case Nil
  then show ?case using within_cap by simp
next
  case (Cons x xs)
  from Cons.prems enq_keeps [of s x] obtain t
    where t: "enq s x = Some t" "inv t" "contents t = keep_last cap (contents s @ [x])" by auto
  from Cons.IH [OF t(2)] Cons.prems(2) obtain s' where
    s': "run_ops enq deq (map Push xs) t = (replicate (length xs) Accepted, s')" "inv s'"
      "contents s' = keep_last cap (contents t @ xs)" by auto
  have "keep_last cap (keep_last cap (contents s @ [x]) @ xs) = keep_last cap (contents s @ x # xs)"
    using foldl_keep_last [of cap "contents s @ [x]" xs]
      foldl_keep_last [of cap "keep_last cap (contents s @ [x])" xs] by simp
  with t s' show ?case by simp
qed

text \<open>Draining the ring hands the stored values out in order.\<close>

lemma deq_all:
  assumes "inv s" and "length (contents s) = n"
  shows "\<exists>s'. run_ops enq deq (replicate n Pop) s = (map Got (contents s), s') \<and> inv s' \<and>
    contents s' = []"
  using assms
proof (induction n arbitrary: s)
  case (Suc n)
  then obtain x xs where xs: "contents s = x # xs" by (cases "contents s") auto
  from deq_front [OF Suc.prems(1) xs] obtain t
    where t: "deq s = Some (x, t)" "inv t" "contents t = xs" by blast
  from Suc.IH [OF t(2)] Suc.prems(2) xs t show ?case by auto
qed simp

text \<open>Whatever the operations are, the ring answers them as the list that drops its oldest element.\<close>

lemma refines_list_ring:
  assumes "inv s" and "list_all valid (pushed_vals ops)"
  shows "run_ops (list_ring cap) list_take ops (contents s) = apsnd contents (run_ops enq deq ops s)"
  using assms
proof (induction ops arbitrary: s rule: pushed_vals.induct)
  case (2 x ops)
  from "2.prems" enq_keeps [of s x] obtain t
    where t: "enq s x = Some t" "inv t" "contents t = keep_last cap (contents s @ [x])" by auto
  with "2.IH" [OF t(2)] "2.prems" show ?case
    by (simp add: list_ring_def apfst_def apsnd_def map_prod_def split: prod.splits)
next
  case (3 ops)
  show ?case
  proof (cases "contents s")
    case Nil
    with deq_none [OF "3.prems"(1)] "3.IH" [OF "3.prems"(1)] "3.prems" show ?thesis
      by (simp add: apfst_def apsnd_def map_prod_def split: prod.splits)
  next
    case (Cons x xs)
    from deq_front [OF "3.prems"(1) this] obtain t where t: "deq s = Some (x, t)" "inv t" "contents t = xs" by blast
    with "3.IH" [OF t(2)] "3.prems" Cons show ?thesis
      by (simp add: apfst_def apsnd_def map_prod_def split: prod.splits)
  qed
qed simp

end

end
