(* ===== verification/Circular_Buffer.thy ===== *)
theory Circular_Buffer
  imports Queue_Interfaces
begin

text \<open>
  The bounded circular buffer of \<open>circularQueue/circularBufferStatic.cpp\<close>: its five fields, its
  operations with the exceptions they throw, and its \<open>main\<close>. The buffer is proved to be a bounded
  list queue through the locale \<open>list_fifo\<close>.
\<close>

section \<open>The class and its operations\<close>

record 'a CircularBuffer =
  m_buffer :: "'a list"
  m_capacity :: nat
  m_head :: nat
  m_tail :: nat
  m_size :: nat

text \<open>\<open>dflt\<close> is the value-initialised element of \<open>vector<T>(capacity)\<close>.\<close>

definition CircularBuffer_new :: "'a \<Rightarrow> nat \<Rightarrow> 'a CircularBuffer" where
  "CircularBuffer_new dflt capacity =
     \<lparr>m_buffer = replicate capacity dflt, m_capacity = capacity, m_head = 0, m_tail = 0, m_size = 0\<rparr>"

definition CircularBuffer_empty :: "('a, 'b) CircularBuffer_scheme \<Rightarrow> bool" where
  "CircularBuffer_empty cb = (m_size cb = 0)"

definition CircularBuffer_full :: "('a, 'b) CircularBuffer_scheme \<Rightarrow> bool" where
  "CircularBuffer_full cb = (m_size cb = m_capacity cb)"

definition CircularBuffer_size :: "('a, 'b) CircularBuffer_scheme \<Rightarrow> nat" where
  "CircularBuffer_size cb = m_size cb"

definition CircularBuffer_push :: "'a CircularBuffer \<Rightarrow> 'a \<Rightarrow> 'a CircularBuffer res" where
  "CircularBuffer_push cb value =
     (if CircularBuffer_full cb then Inl (Throw ''Buffer is full'')
      else rbind (arr_set (m_buffer cb) (m_head cb) value) (\<lambda>b.
           rbind (umod (m_head cb + 1) (m_capacity cb)) (\<lambda>h.
           Inr (cb\<lparr>m_buffer := b, m_head := h, m_size := m_size cb + 1\<rparr>))))"

definition CircularBuffer_pop :: "'a CircularBuffer \<Rightarrow> ('a \<times> 'a CircularBuffer) res" where
  "CircularBuffer_pop cb =
     (if CircularBuffer_empty cb then Inl (Throw ''Buffer is empty'')
      else rbind (arr_get (m_buffer cb) (m_tail cb)) (\<lambda>value.
           rbind (umod (m_tail cb + 1) (m_capacity cb)) (\<lambda>t.
           Inr (value, cb\<lparr>m_tail := t, m_size := m_size cb - 1\<rparr>))))"

text \<open>The loop \<open>while (!cb.empty()) cout << cb.pop()\<close>; it stops because \<open>pop\<close> decreases \<open>m_size\<close>.\<close>

function CircularBuffer_drain :: "'a CircularBuffer \<Rightarrow> ('a list \<times> 'a CircularBuffer) res" where
  "CircularBuffer_drain cb =
     (if CircularBuffer_empty cb then Inr ([], cb)
      else rbind (CircularBuffer_pop cb) (\<lambda>(v, cb').
           rbind (CircularBuffer_drain cb') (\<lambda>(vs, cb''). Inr (v # vs, cb''))))"
  by pat_completeness auto
termination
  by (relation "measure m_size")
    (auto simp: CircularBuffer_pop_def CircularBuffer_empty_def split: if_splits)

declare CircularBuffer_drain.simps [simp del]

text \<open>\<open>main\<close>, as the list of values it prints after \<open>Popping\<close>.\<close>

definition circularBufferStatic_main :: "int list res" where
  "circularBufferStatic_main =
     rbind (CircularBuffer_push (CircularBuffer_new 0 3) 1) (\<lambda>cb.
     rbind (CircularBuffer_push cb 2) (\<lambda>cb.
     rbind (CircularBuffer_push cb 3) (\<lambda>cb.
     rbind (CircularBuffer_pop cb) (\<lambda>(v, cb).
     rbind (CircularBuffer_push cb 4) (\<lambda>cb.
     rbind (CircularBuffer_drain cb) (\<lambda>(vs, cb). Inr (v # vs)))))))"

section \<open>Invariant and contents\<close>

definition ring_inv :: "('a, 'b) CircularBuffer_scheme \<Rightarrow> bool" where
  "ring_inv cb \<longleftrightarrow> length (m_buffer cb) = m_capacity cb \<and> m_size cb \<le> m_capacity cb \<and>
     (0 < m_capacity cb \<longrightarrow> m_tail cb < m_capacity cb) \<and>
     m_head cb = (m_tail cb + m_size cb) mod m_capacity cb"

definition ring_contents :: "('a, 'b) CircularBuffer_scheme \<Rightarrow> 'a list" where
  "ring_contents cb = window (m_buffer cb) (m_tail cb) (m_size cb)"

lemma length_ring_contents [simp]: "length (ring_contents cb) = m_size cb"
  by (simp add: ring_contents_def)

lemma ring_contents_eq_Nil: "ring_contents cb = [] \<longleftrightarrow> m_size cb = 0"
  by (simp add: ring_contents_def)

text \<open>What storing at \<open>m_head\<close> and advancing, and what advancing \<open>m_tail\<close>, do to any such ring.\<close>

lemma ring_store:
  assumes "ring_inv cb" and "m_size cb < m_capacity cb"
    and "m_buffer cb' = (m_buffer cb)[m_head cb := x]" "m_capacity cb' = m_capacity cb"
      "m_head cb' = Suc (m_head cb) mod m_capacity cb" "m_tail cb' = m_tail cb"
      "m_size cb' = Suc (m_size cb)"
  shows "ring_inv cb'" and "ring_contents cb' = ring_contents cb @ [x]"
proof -
  from assms(1) have h: "m_head cb = (m_tail cb + m_size cb) mod length (m_buffer cb)"
    and l: "length (m_buffer cb) = m_capacity cb" by (auto simp: ring_inv_def)
  show "ring_inv cb'" using assms by (auto simp: ring_inv_def mod_Suc_eq)
  show "ring_contents cb' = ring_contents cb @ [x]"
    using assms(2-) window_push [of "m_size cb" "m_buffer cb" "m_tail cb" x] h l
    by (simp add: ring_contents_def)
qed

lemma ring_advance:
  assumes "ring_inv cb" and "ring_contents cb = x # xs"
    and "m_buffer cb' = m_buffer cb" "m_capacity cb' = m_capacity cb" "m_head cb' = m_head cb"
      "m_tail cb' = Suc (m_tail cb) mod m_capacity cb" "m_size cb' = m_size cb - 1"
  shows "ring_inv cb'" and "ring_contents cb' = xs" and "m_buffer cb ! m_tail cb = x"
proof -
  from assms(2) obtain n where n: "m_size cb = Suc n" by (cases "m_size cb") (auto simp: ring_contents_def)
  have l: "length (m_buffer cb) = m_capacity cb" and t: "m_tail cb < m_capacity cb"
    using assms(1) n by (auto simp: ring_inv_def)
  show "ring_inv cb'" using assms n by (auto simp: ring_inv_def mod_simps)
  show "ring_contents cb' = xs"
    using assms(2-) n l window_mod [of "m_buffer cb" "Suc (m_tail cb)" n]
    by (simp add: ring_contents_def window_Cons)
  show "m_buffer cb ! m_tail cb = x" using assms(2) n l t by (simp add: ring_contents_def window_Cons)
qed

lemma ring_indices:
  "ring_inv cb \<Longrightarrow> m_size cb < m_capacity cb \<Longrightarrow> m_head cb < length (m_buffer cb)"
  "ring_inv cb \<Longrightarrow> 0 < m_size cb \<Longrightarrow> m_tail cb < length (m_buffer cb)"
  "ring_inv cb \<Longrightarrow> 0 < m_size cb \<Longrightarrow> 0 < m_capacity cb"
  by (auto simp: ring_inv_def)

section \<open>Behaviour of the operations\<close>

lemma CircularBuffer_new_inv: "ring_inv (CircularBuffer_new d c)"
  by (simp add: ring_inv_def CircularBuffer_new_def)

lemma CircularBuffer_new_capacity [simp]: "m_capacity (CircularBuffer_new d c) = c"
  by (simp add: CircularBuffer_new_def)

lemma CircularBuffer_new_contents [simp]: "ring_contents (CircularBuffer_new d c) = []"
  by (simp add: CircularBuffer_new_def ring_contents_def)

lemma CircularBuffer_push_full:
  "ring_inv cb \<Longrightarrow> m_size cb = m_capacity cb \<Longrightarrow>
     CircularBuffer_push cb x = Inl (Throw ''Buffer is full'')"
  by (simp add: CircularBuffer_push_def CircularBuffer_full_def)

lemma CircularBuffer_push_room:
  assumes "ring_inv cb" and "m_size cb < m_capacity cb"
  shows "\<exists>cb'. CircularBuffer_push cb x = Inr cb' \<and> ring_inv cb' \<and> m_capacity cb' = m_capacity cb \<and>
    ring_contents cb' = ring_contents cb @ [x]"
proof -
  let ?cb' = "cb\<lparr>m_buffer := (m_buffer cb)[m_head cb := x],
    m_head := Suc (m_head cb) mod m_capacity cb, m_size := Suc (m_size cb)\<rparr>"
  have "CircularBuffer_push cb x = Inr ?cb'"
    using assms by (simp add: CircularBuffer_push_def CircularBuffer_full_def ring_indices)
  moreover from assms have "ring_inv ?cb' \<and> ring_contents ?cb' = ring_contents cb @ [x]"
    using ring_store [of cb ?cb' x] by simp
  ultimately show ?thesis by simp
qed

lemma CircularBuffer_pop_empty:
  "m_size cb = 0 \<Longrightarrow> CircularBuffer_pop cb = Inl (Throw ''Buffer is empty'')"
  by (simp add: CircularBuffer_pop_def CircularBuffer_empty_def)

lemma CircularBuffer_pop_front:
  assumes "ring_inv cb" and c: "ring_contents cb = x # xs"
  shows "\<exists>cb'. CircularBuffer_pop cb = Inr (x, cb') \<and> ring_inv cb' \<and>
    m_capacity cb' = m_capacity cb \<and> ring_contents cb' = xs"
proof -
  let ?cb' = "cb\<lparr>m_tail := Suc (m_tail cb) mod m_capacity cb, m_size := m_size cb - 1\<rparr>"
  have sz: "0 < m_size cb" using c by (metis gr0I list.discI ring_contents_eq_Nil)
  have adv: "ring_inv ?cb'" "ring_contents ?cb' = xs" "m_buffer cb ! m_tail cb = x"
    using ring_advance [OF assms, of ?cb'] by simp_all
  have "CircularBuffer_pop cb = Inr (x, ?cb')"
    using assms(1) sz adv(3)
    by (simp add: CircularBuffer_pop_def CircularBuffer_empty_def ring_indices)
  with adv show ?thesis by simp
qed

text \<open>The buffer is a bounded list queue, for every capacity.\<close>

interpretation static_ring: list_fifo
  "\<lambda>cb x. ok_of (CircularBuffer_push cb x)" "\<lambda>cb. ok_of (CircularBuffer_pop cb)" ring_contents
  "\<lambda>cb. ring_inv cb \<and> m_capacity cb = c" "\<lambda>cb. \<not> CircularBuffer_full cb" None "Some c" for c
proof (unfold_locales, goal_cases)
  case (1 s x)
  then show ?case using CircularBuffer_push_room [of s x]
    by (auto simp: CircularBuffer_full_def ring_inv_def)
next
  case (2 s x)
  then show ?case by (simp add: CircularBuffer_full_def CircularBuffer_push_full)
next
  case (3 s)
  then show ?case by (simp add: CircularBuffer_pop_empty ring_contents_eq_Nil)
next
  case (4 s x xs)
  then show ?case using CircularBuffer_pop_front [of s x xs] by auto
next
  case (5 s)
  then show ?case by (auto simp: CircularBuffer_full_def has_room_def ring_inv_def)
qed

lemma CircularBuffer_drain_contents:
  "ring_inv cb \<Longrightarrow> \<exists>cb'. CircularBuffer_drain cb = Inr (ring_contents cb, cb') \<and> m_size cb' = 0"
proof (induction "ring_contents cb" arbitrary: cb)
  case Nil
  then have "m_size cb = 0" by (metis ring_contents_eq_Nil)
  then show ?case
    by (simp add: CircularBuffer_drain.simps CircularBuffer_empty_def ring_contents_def)
next
  case (Cons x xs)
  from CircularBuffer_pop_front [OF Cons.prems Cons.hyps(2) [symmetric]] obtain cb'
    where cb': "CircularBuffer_pop cb = Inr (x, cb')" "ring_inv cb'" "ring_contents cb' = xs"
    by blast
  have "\<not> CircularBuffer_empty cb"
    using cb'(1) by (auto simp: CircularBuffer_pop_def)
  with Cons.hyps(1) [OF cb'(3) [symmetric] cb'(2)] cb' Cons.hyps(2) show ?case
    by (auto simp: CircularBuffer_drain.simps [of cb])
qed

lemma circularBufferStatic_main_prints: "circularBufferStatic_main = Inr [1, 2, 3, 4]"
  by code_simp

section \<open>Properties\<close>

text \<open>
  Claim C1. Whatever sequence of pushes and pops a client performs, the circular buffer answers
  each of them, rejections and empty pops included, as the list queue bounded by its capacity does,
  and ends holding the same values in the same order.
\<close>

theorem CircularBuffer_refines_bounded_queue:
  assumes "ring_inv cb"
  shows "run_ops (list_enq (Some (m_capacity cb))) list_take ops (ring_contents cb) =
    apsnd ring_contents
      (run_ops (\<lambda>b x. ok_of (CircularBuffer_push b x)) (\<lambda>b. ok_of (CircularBuffer_pop b)) ops cb)"
  using static_ring.refines_list [of cb "m_capacity cb" ops] assms by simp

theorem CircularBuffer_refines_bounded_queue_witness:
  "ring_inv (CircularBuffer_new (0::int) 1) \<and>
   fst (run_ops (\<lambda>b x. ok_of (CircularBuffer_push b x)) (\<lambda>b. ok_of (CircularBuffer_pop b))
     [Push 7, Push 8, Pop, Pop] (CircularBuffer_new (0::int) 1)) =
   [Accepted, Rejected, Got 7, Nothing]"
proof -
  have inv: "ring_inv (CircularBuffer_new (0::int) 1)" by (rule CircularBuffer_new_inv)
  show ?thesis
    using arg_cong [OF CircularBuffer_refines_bounded_queue [OF inv,
        of "[Push 7, Push 8, Pop, Pop]"], of fst] inv
    by (simp add: list_enq_def has_room_def)
qed

text \<open>
  Claim C39. On a well-formed buffer the only failures are the two documented exceptions, raised
  exactly when the buffer is full or empty: no index leaves the vector and no remainder by zero is
  taken, whatever the capacity, zero included.
\<close>

theorem CircularBuffer_failures:
  assumes "ring_inv cb"
  shows "(CircularBuffer_push cb x = Inl e \<longleftrightarrow>
      e = Throw ''Buffer is full'' \<and> length (ring_contents cb) = m_capacity cb) \<and>
    (CircularBuffer_pop cb = Inl e \<longleftrightarrow> e = Throw ''Buffer is empty'' \<and> ring_contents cb = [])"
proof (rule conjI)
  have "m_size cb \<le> m_capacity cb" using assms by (simp add: ring_inv_def)
  then show "CircularBuffer_push cb x = Inl e \<longleftrightarrow>
      e = Throw ''Buffer is full'' \<and> length (ring_contents cb) = m_capacity cb"
    using CircularBuffer_push_room [OF assms, of x] CircularBuffer_push_full [OF assms, of x]
    by (cases "m_size cb = m_capacity cb") auto
  show "CircularBuffer_pop cb = Inl e \<longleftrightarrow> e = Throw ''Buffer is empty'' \<and> ring_contents cb = []"
    using CircularBuffer_pop_front [OF assms] CircularBuffer_pop_empty [of cb]
    by (cases "ring_contents cb") (auto simp: ring_contents_eq_Nil)
qed

theorem CircularBuffer_failures_witness:
  "CircularBuffer_push (CircularBuffer_new (0::int) 0) 5 = Inl (Throw ''Buffer is full'')"
  using CircularBuffer_failures [OF CircularBuffer_new_inv [of "0::int" 0], of 5] by simp

end
