(* ===== verification/Producer_Consumer.thy ===== *)
theory Producer_Consumer
  imports Circular_Buffer
begin

text \<open>
  The blocking circular buffer of \<open>circularQueue/circularBufferStaticProdCons.cpp\<close> with its producer,
  its consumer and the \<open>main\<close> that stops them. A member function runs under the mutex, so a call that
  need not wait is one atomic step. A call whose predicate is false is \<open>None\<close>: its thread goes to sleep on the condition variable and tests the predicate again after a
  notification or a spurious wake-up. The threads interleave freely in the step relation \<open>pc_step\<close>.
\<close>

section \<open>The monitor\<close>

record 'a MonitorBuffer = "'a CircularBuffer" +
  m_running :: bool

definition MonitorBuffer_new :: "'a \<Rightarrow> nat \<Rightarrow> 'a MonitorBuffer" where
  "MonitorBuffer_new dflt capacity =
     \<lparr>m_buffer = replicate capacity dflt, m_capacity = capacity, m_head = 0, m_tail = 0, m_size = 0,
      m_running = True\<rparr>"

definition MonitorBuffer_push ::
  "'a MonitorBuffer \<Rightarrow> 'a \<Rightarrow> (bool \<times> 'a MonitorBuffer) res option" where
  "MonitorBuffer_push cb item =
     (if \<not> (m_size cb < m_capacity cb \<or> \<not> m_running cb) then None
      else Some (if \<not> m_running cb then Inr (False, cb)
        else rbind (arr_set (m_buffer cb) (m_head cb) item) (\<lambda>b.
             rbind (umod (m_head cb + 1) (m_capacity cb)) (\<lambda>h.
             Inr (True, cb\<lparr>m_buffer := b, m_head := h, m_size := m_size cb + 1\<rparr>)))))"

text \<open>\<open>pop\<close> fills its reference argument and returns true: \<open>Some v\<close>; or returns false: \<open>None\<close>.\<close>

definition MonitorBuffer_pop ::
  "'a MonitorBuffer \<Rightarrow> ('a option \<times> 'a MonitorBuffer) res option" where
  "MonitorBuffer_pop cb =
     (if \<not> (m_size cb > 0 \<or> \<not> m_running cb) then None
      else Some (if m_size cb = 0 \<and> \<not> m_running cb then Inr (None, cb)
        else rbind (arr_get (m_buffer cb) (m_tail cb)) (\<lambda>v.
             rbind (umod (m_tail cb + 1) (m_capacity cb)) (\<lambda>t.
             Inr (Some v, cb\<lparr>m_tail := t, m_size := m_size cb - 1\<rparr>)))))"

definition MonitorBuffer_stop :: "'a MonitorBuffer \<Rightarrow> 'a MonitorBuffer" where
  "MonitorBuffer_stop cb = cb\<lparr>m_running := False\<rparr>"

section \<open>The threads\<close>

text \<open>
  \<open>prod_i\<close> is the producer's counter, \<open>cons_out\<close> the values the consumer has printed; a thread that left
  its loop is no longer alive. The counter is incremented before each call of \<open>push\<close>; incrementing
  it past \<open>INT_MAX\<close> is undefined, so the producer takes no step there. \<open>prod_asleep\<close> and \<open>cons_asleep\<close>: the thread sleeps on \<open>not_full_\<close> or \<open>not_empty_\<close>.
\<close>

record pc_sys =
  g_cb :: "int MonitorBuffer"
  prod_i :: int
  prod_alive :: bool
  prod_asleep :: bool
  cons_out :: "int list"
  cons_alive :: bool
  cons_asleep :: bool

datatype actor = Producer | Consumer | Main | Spuriously

definition pc_init :: pc_sys where
  "pc_init = \<lparr>g_cb = MonitorBuffer_new 0 5, prod_i = 0, prod_alive = True, prod_asleep = False, cons_out = [],
     cons_alive = True, cons_asleep = False\<rparr>"

text \<open>A successful \<open>push\<close> notifies \<open>not_empty_\<close>, a successful \<open>pop\<close> \<open>not_full_\<close>, and \<open>stop\<close> both; a notification that finds nobody asleep is lost.\<close>

inductive pc_step :: "actor \<Rightarrow> pc_sys \<Rightarrow> pc_sys \<Rightarrow> bool" where
  produce: "prod_alive s \<Longrightarrow> \<not> prod_asleep s \<Longrightarrow> prod_i s < INT_MAX \<Longrightarrow>
     MonitorBuffer_push (g_cb s) (prod_i s + 1) = Some (Inr (True, b)) \<Longrightarrow>
     pc_step Producer s (s\<lparr>g_cb := b, prod_i := prod_i s + 1, cons_asleep := False\<rparr>)"
| produce_stopped: "prod_alive s \<Longrightarrow> \<not> prod_asleep s \<Longrightarrow> prod_i s < INT_MAX \<Longrightarrow>
     MonitorBuffer_push (g_cb s) (prod_i s + 1) = Some (Inr (False, b)) \<Longrightarrow>
     pc_step Producer s (s\<lparr>g_cb := b, prod_i := prod_i s + 1, prod_alive := False\<rparr>)"
| produce_waits: "prod_alive s \<Longrightarrow> \<not> prod_asleep s \<Longrightarrow> prod_i s < INT_MAX \<Longrightarrow>
     MonitorBuffer_push (g_cb s) (prod_i s + 1) = None \<Longrightarrow> pc_step Producer s (s\<lparr>prod_asleep := True\<rparr>)"
| consume: "cons_alive s \<Longrightarrow> \<not> cons_asleep s \<Longrightarrow> MonitorBuffer_pop (g_cb s) = Some (Inr (Some v, b)) \<Longrightarrow>
     pc_step Consumer s (s\<lparr>g_cb := b, cons_out := cons_out s @ [v], prod_asleep := False\<rparr>)"
| consume_stopped: "cons_alive s \<Longrightarrow> \<not> cons_asleep s \<Longrightarrow> MonitorBuffer_pop (g_cb s) = Some (Inr (None, b)) \<Longrightarrow>
     pc_step Consumer s (s\<lparr>g_cb := b, cons_alive := False\<rparr>)"
| consume_waits: "cons_alive s \<Longrightarrow> \<not> cons_asleep s \<Longrightarrow> MonitorBuffer_pop (g_cb s) = None \<Longrightarrow>
     pc_step Consumer s (s\<lparr>cons_asleep := True\<rparr>)"
| stop: "pc_step Main s (s\<lparr>g_cb := MonitorBuffer_stop (g_cb s), prod_asleep := False, cons_asleep := False\<rparr>)"
| wake_producer: "prod_asleep s \<Longrightarrow> pc_step Spuriously s (s\<lparr>prod_asleep := False\<rparr>)"
| wake_consumer: "cons_asleep s \<Longrightarrow> pc_step Spuriously s (s\<lparr>cons_asleep := False\<rparr>)"

inductive pc_reachable :: "pc_sys \<Rightarrow> bool" where
  init: "pc_reachable pc_init"
| step: "pc_reachable s \<Longrightarrow> pc_step a s t \<Longrightarrow> pc_reachable t"

section \<open>The monitor's calls\<close>

lemma MonitorBuffer_push_blocks:
  "ring_inv cb \<Longrightarrow> MonitorBuffer_push cb x = None \<longleftrightarrow> m_running cb \<and> m_size cb = m_capacity cb"
  by (auto simp: MonitorBuffer_push_def ring_inv_def)

lemma MonitorBuffer_pop_blocks:
  "MonitorBuffer_pop cb = None \<longleftrightarrow> m_running cb \<and> ring_contents cb = []"
  by (auto simp: MonitorBuffer_pop_def ring_contents_eq_Nil)

lemma MonitorBuffer_push_returns:
  assumes "ring_inv cb" and "MonitorBuffer_push cb x = Some r"
  obtains (Stopped) "\<not> m_running cb" "r = Inr (False, cb)"
    | (Stored) cb' where "m_running cb" "r = Inr (True, cb')" "ring_inv cb'" "m_running cb'"
        "m_capacity cb' = m_capacity cb" "ring_contents cb' = ring_contents cb @ [x]"
proof (cases "m_running cb")
  case True
  let ?cb' = "cb\<lparr>m_buffer := (m_buffer cb)[m_head cb := x],
    m_head := Suc (m_head cb) mod m_capacity cb, m_size := Suc (m_size cb)\<rparr>"
  from True assms(2) have room: "m_size cb < m_capacity cb"
    by (auto simp: MonitorBuffer_push_def split: if_splits)
  with True assms have "r = Inr (True, ?cb')"
    by (simp add: MonitorBuffer_push_def ring_indices)
  moreover have "ring_inv ?cb'" "ring_contents ?cb' = ring_contents cb @ [x]"
    using ring_store [OF assms(1) room, of ?cb' x] by simp_all
  ultimately show thesis using Stored [of ?cb'] True by simp
qed (use assms Stopped in \<open>auto simp: MonitorBuffer_push_def split: if_splits\<close>)

lemma MonitorBuffer_pop_returns:
  assumes "ring_inv cb" and "MonitorBuffer_pop cb = Some r"
  obtains (Stopped) "\<not> m_running cb" "r = Inr (None, cb)" "ring_contents cb = []"
    | (Taken) v cb' where "r = Inr (Some v, cb')" "ring_inv cb'" "m_running cb' = m_running cb"
        "m_capacity cb' = m_capacity cb" "ring_contents cb = v # ring_contents cb'"
proof (cases "ring_contents cb")
  case Nil
  with assms(2) Stopped show thesis
    by (auto simp: MonitorBuffer_pop_def ring_contents_eq_Nil split: if_splits)
next
  case (Cons v vs)
  let ?cb' = "cb\<lparr>m_tail := Suc (m_tail cb) mod m_capacity cb, m_size := m_size cb - 1\<rparr>"
  have sz: "0 < m_size cb" using Cons by (metis gr0I list.discI ring_contents_eq_Nil)
  have adv: "ring_inv ?cb'" "ring_contents ?cb' = vs" "m_buffer cb ! m_tail cb = v"
    using ring_advance [OF assms(1) Cons, of ?cb'] by simp_all
  have "r = Inr (Some v, ?cb')"
    using assms sz adv(3) by (auto simp: MonitorBuffer_pop_def ring_indices split: if_splits)
  with adv Cons Taken [of v ?cb'] show thesis by simp
qed

section \<open>The invariant of the system\<close>

definition pc_sent :: "pc_sys \<Rightarrow> int" where
  "pc_sent s = (if prod_alive s then prod_i s else prod_i s - 1)"

definition pc_inv :: "pc_sys \<Rightarrow> bool" where
  "pc_inv s \<longleftrightarrow> ring_inv (g_cb s) \<and> m_capacity (g_cb s) = 5 \<and> 0 \<le> pc_sent s \<and>
     cons_out s @ ring_contents (g_cb s) = [1..pc_sent s] \<and>
     (\<not> prod_alive s \<longrightarrow> \<not> m_running (g_cb s)) \<and>
     (\<not> cons_alive s \<longrightarrow> \<not> m_running (g_cb s) \<and> ring_contents (g_cb s) = []) \<and>
     (prod_asleep s \<longrightarrow> m_running (g_cb s) \<and> m_size (g_cb s) = 5) \<and>
     (cons_asleep s \<longrightarrow> m_running (g_cb s) \<and> ring_contents (g_cb s) = [])"

lemma pc_inv_init: "pc_inv pc_init"
  by (simp add: pc_inv_def pc_init_def MonitorBuffer_new_def ring_inv_def ring_contents_def
      pc_sent_def)

lemma ring_stop [simp]:
  "ring_inv (MonitorBuffer_stop cb) = ring_inv cb"
  "ring_contents (MonitorBuffer_stop cb) = ring_contents cb"
  "m_capacity (MonitorBuffer_stop cb) = m_capacity cb"
  "\<not> m_running (MonitorBuffer_stop cb)"
  by (simp_all add: MonitorBuffer_stop_def ring_inv_def ring_contents_def)

lemma m_size_contents: "length (ring_contents cb) = m_size cb"
  by (simp add: ring_contents_def)

lemma pc_step_inv: "pc_step a s t \<Longrightarrow> pc_inv s \<Longrightarrow> pc_inv t"
proof (induction rule: pc_step.induct)
  case (produce s b)
  then have "ring_inv (g_cb s)" by (simp add: pc_inv_def)
  from this produce(4) show ?case
    by (cases rule: MonitorBuffer_push_returns)
      (use produce in \<open>auto simp: pc_inv_def pc_sent_def upto_snoc append_assoc [symmetric]
        simp del: append_assoc\<close>)
next
  case (produce_stopped s b)
  then have "ring_inv (g_cb s)" by (simp add: pc_inv_def)
  from this produce_stopped(4) show ?case
    by (cases rule: MonitorBuffer_push_returns)
      (use produce_stopped in \<open>auto simp: pc_inv_def pc_sent_def\<close>)
next
  case (produce_waits s)
  then show ?case using MonitorBuffer_push_blocks [of "g_cb s" "prod_i s + 1"] by (auto simp: pc_inv_def pc_sent_def)
next
  case (consume s v b)
  then have "ring_inv (g_cb s)" by (simp add: pc_inv_def)
  from this consume(3) show ?case
    by (cases rule: MonitorBuffer_pop_returns)
      (use consume in \<open>auto simp: pc_inv_def pc_sent_def\<close>)
next
  case (consume_stopped s b)
  then have "ring_inv (g_cb s)" by (simp add: pc_inv_def)
  from this consume_stopped(3) show ?case
    by (cases rule: MonitorBuffer_pop_returns)
      (use consume_stopped in \<open>auto simp: pc_inv_def pc_sent_def\<close>)
next
  case (consume_waits s)
  then show ?case by (auto simp: pc_inv_def pc_sent_def MonitorBuffer_pop_blocks)
next
  case (stop s)
  then show ?case by (auto simp: pc_inv_def pc_sent_def)
qed (auto simp: pc_inv_def pc_sent_def)

lemma pc_reachable_inv: "pc_reachable s \<Longrightarrow> pc_inv s"
  by (induction rule: pc_reachable.induct) (auto intro: pc_inv_init pc_step_inv)

section \<open>Properties\<close>

text \<open>
  Claim C2. In every interleaving of the producer, the consumer and the stop request, what the
  consumer has received followed by what the buffer still holds is 1, 2, ..., n for the n values the
  producer has sent: nothing is lost, repeated or reordered, and at most five values are in flight.
\<close>

theorem pc_no_loss:
  assumes "pc_reachable s"
  shows "cons_out s @ ring_contents (g_cb s) = [1..pc_sent s] \<and> length (ring_contents (g_cb s)) \<le> 5"
  using pc_reachable_inv [OF assms] by (auto simp: pc_inv_def ring_inv_def)

text \<open>A run: two values are pushed, one of them is popped.\<close>

definition pc_buffer :: "int list \<Rightarrow> nat \<Rightarrow> nat \<Rightarrow> nat \<Rightarrow> int MonitorBuffer" where
  "pc_buffer b h t n = \<lparr>m_buffer = b, m_capacity = 5, m_head = h, m_tail = t, m_size = n, m_running = True\<rparr>"

definition pc_short_run :: pc_sys where
  "pc_short_run = pc_init\<lparr>g_cb := pc_buffer [1, 2, 0, 0, 0] 2 1 1, prod_i := 2, cons_out := [1]\<rparr>"

lemma pc_short_run_reachable: "pc_reachable pc_short_run"
proof -
  let ?s0 = "pc_init\<lparr>g_cb := pc_buffer [0, 0, 0, 0, 0] 0 0 0\<rparr>"
  let ?s1 = "pc_init\<lparr>g_cb := pc_buffer [1, 0, 0, 0, 0] 1 0 1, prod_i := 1\<rparr>"
  let ?s2 = "pc_init\<lparr>g_cb := pc_buffer [1, 2, 0, 0, 0] 2 0 2, prod_i := 2\<rparr>"
  have calls: "MonitorBuffer_new 0 5 = pc_buffer [0, 0, 0, 0, 0] 0 0 0"
      "MonitorBuffer_push (pc_buffer [0, 0, 0, 0, 0] 0 0 0) 1 = Some (Inr (True, pc_buffer [1, 0, 0, 0, 0] 1 0 1))"
      "MonitorBuffer_push (pc_buffer [1, 0, 0, 0, 0] 1 0 1) 2 = Some (Inr (True, pc_buffer [1, 2, 0, 0, 0] 2 0 2))"
      "MonitorBuffer_pop (pc_buffer [1, 2, 0, 0, 0] 2 0 2) = Some (Inr (Some 1, pc_buffer [1, 2, 0, 0, 0] 2 1 1))"
    by code_simp+
  have "pc_init = ?s0" by (simp add: pc_init_def calls)
  moreover have "pc_step Producer ?s0 ?s1"
    using pc_step.produce [of ?s0 "pc_buffer [1, 0, 0, 0, 0] 1 0 1"] calls(2) by (simp add: pc_init_def)
  moreover have "pc_step Producer ?s1 ?s2"
    using pc_step.produce [of ?s1 "pc_buffer [1, 2, 0, 0, 0] 2 0 2"] calls(3) by (simp add: pc_init_def)
  moreover have "pc_step Consumer ?s2 pc_short_run"
    using pc_step.consume [of ?s2 1 "pc_buffer [1, 2, 0, 0, 0] 2 1 1"] calls(4) by (simp add: pc_init_def pc_short_run_def)
  ultimately have "pc_reachable ?s0" "pc_step Producer ?s0 ?s1" "pc_step Producer ?s1 ?s2" "pc_step Consumer ?s2 pc_short_run"
    using pc_reachable.init by simp_all
  then show ?thesis by (blast intro: pc_reachable.step)
qed

theorem pc_no_loss_witness:
  "cons_out pc_short_run = [1] \<and> ring_contents (g_cb pc_short_run) = [2] \<and>
   cons_out pc_short_run @ ring_contents (g_cb pc_short_run) = [1..pc_sent pc_short_run]"
proof -
  have "cons_out pc_short_run @ ring_contents (g_cb pc_short_run) = [1..pc_sent pc_short_run]"
    using pc_no_loss [OF pc_short_run_reachable] by blast
  moreover have "cons_out pc_short_run = [1]" "ring_contents (g_cb pc_short_run) = [2]"
    by (simp_all add: pc_short_run_def pc_buffer_def ring_contents_def window_Suc)
  ultimately show ?thesis by simp
qed

text \<open>
  Shutdown drains the buffer: once both threads have left their loops, the consumer has
  received every value for which \<open>push\<close> returned true.
\<close>

theorem pc_shutdown_drains:
  assumes "pc_reachable s" and "\<not> prod_alive s" and "\<not> cons_alive s"
  shows "cons_out s = [1..prod_i s - 1]"
  using pc_reachable_inv [OF assms(1)] assms(2,3) by (auto simp: pc_inv_def pc_sent_def)

definition pc_stopped_run :: pc_sys where
  "pc_stopped_run = pc_init\<lparr>g_cb := MonitorBuffer_stop (g_cb pc_init), prod_i := 1,
     prod_alive := False, cons_alive := False\<rparr>"

lemma pc_stopped_run_reachable: "pc_reachable pc_stopped_run"
proof -
  let ?s1 = "pc_init\<lparr>g_cb := MonitorBuffer_stop (g_cb pc_init)\<rparr>"
  let ?s2 = "?s1\<lparr>g_cb := g_cb ?s1, prod_i := prod_i ?s1 + 1, prod_alive := False\<rparr>"
  let ?s3 = "?s2\<lparr>g_cb := g_cb ?s2, cons_alive := False\<rparr>"
  have "pc_step Main pc_init ?s1" using pc_step.stop [of pc_init] by (simp add: pc_init_def)
  moreover have "pc_step Producer ?s1 ?s2"
    by (rule pc_step.produce_stopped)
      (simp_all add: pc_init_def MonitorBuffer_new_def MonitorBuffer_stop_def MonitorBuffer_push_def)
  moreover have "pc_step Consumer ?s2 ?s3"
    by (rule pc_step.consume_stopped)
      (simp_all add: pc_init_def MonitorBuffer_new_def MonitorBuffer_stop_def MonitorBuffer_pop_def)
  ultimately have "pc_reachable ?s3"
    by (blast intro: pc_reachable.intros pc_step.stop)
  then show ?thesis by (simp add: pc_stopped_run_def pc_init_def)
qed

theorem pc_shutdown_drains_witness: "cons_out pc_stopped_run = [1..prod_i pc_stopped_run - 1]"
  by (rule pc_shutdown_drains [OF pc_stopped_run_reachable]) (simp_all add: pc_stopped_run_def)

section \<open>Progress\<close>

text \<open>What is left to do once \<open>stop\<close> has been called: the values in the buffer, and for each thread to leave its loop.\<close>

definition pc_work :: "pc_sys \<Rightarrow> nat" where
  "pc_work s = m_size (g_cb s) + (if prod_alive s then 1 else 0) + (if cons_alive s then 1 else 0)"

lemma pc_stopped_work:
  assumes "pc_step a s t" "pc_inv s" "\<not> m_running (g_cb s)" "a \<in> {Producer, Consumer}"
  shows "pc_work t < pc_work s \<and> \<not> m_running (g_cb t)"
proof -
  have inv: "ring_inv (g_cb s)" using assms(2) by (simp add: pc_inv_def)
  from assms(1) show ?thesis
  proof cases
    case (produce b)
    from inv produce(6) show ?thesis by (cases rule: MonitorBuffer_push_returns) (use assms(3) in auto)
  next
    case (produce_stopped b)
    from inv produce_stopped(6) show ?thesis
      by (cases rule: MonitorBuffer_push_returns) (use produce_stopped assms(3) in \<open>auto simp: pc_work_def\<close>)
  next
    case produce_waits
    then show ?thesis using assms(3) MonitorBuffer_push_blocks [OF inv, of "prod_i s + 1"] by simp
  next
    case (consume v b)
    from inv consume(5) show ?thesis
    proof (cases rule: MonitorBuffer_pop_returns)
      case (Taken w cb')
      then have "m_size (g_cb s) = Suc (m_size cb')" using m_size_contents [of "g_cb s"] m_size_contents [of cb'] by simp
      then show ?thesis using Taken consume assms(3) by (simp add: pc_work_def)
    qed (use consume in auto)
  next
    case (consume_stopped b)
    from inv consume_stopped(5) show ?thesis
      by (cases rule: MonitorBuffer_pop_returns) (use consume_stopped assms(3) in \<open>auto simp: pc_work_def\<close>)
  next
    case consume_waits
    then show ?thesis using assms(3) by (simp add: MonitorBuffer_pop_blocks)
  qed (use assms(4) in auto)
qed

text \<open>
  Claim C10. No wake-up is lost and the program ends: as long as one of the threads is in its loop and the counter has not reached \<open>INT_MAX\<close>, the producer or
  the consumer can take a step, without a stop request and without a spurious wake-up; once \<open>stop\<close> has been called, every step of a thread takes away from a finite amount of
  work; and when both have left, the consumer has received every value for which \<open>push\<close> returned true.
\<close>

theorem pc_progress:
  assumes "pc_reachable s"
  shows "((prod_alive s \<or> cons_alive s) \<and> prod_i s < INT_MAX \<longrightarrow> (\<exists>t. pc_step Producer s t \<or> pc_step Consumer s t)) \<and>
    (\<forall>a t. \<not> m_running (g_cb s) \<and> pc_step a s t \<and> a \<in> {Producer, Consumer} \<longrightarrow> pc_work t < pc_work s \<and> \<not> m_running (g_cb t)) \<and>
    (\<not> prod_alive s \<and> \<not> cons_alive s \<longrightarrow> cons_out s = [1..prod_i s - 1])"
proof (intro conjI impI allI)
  have pinv: "pc_inv s" by (rule pc_reachable_inv [OF assms])
  then have inv: "ring_inv (g_cb s)" "m_capacity (g_cb s) = 5"
      "\<not> prod_alive s \<longrightarrow> \<not> m_running (g_cb s)" "\<not> cons_alive s \<longrightarrow> \<not> m_running (g_cb s)"
      "prod_asleep s \<longrightarrow> m_running (g_cb s) \<and> m_size (g_cb s) = 5" "cons_asleep s \<longrightarrow> m_running (g_cb s) \<and> m_size (g_cb s) = 0"
    by (auto simp: pc_inv_def ring_contents_eq_Nil)
  show "\<exists>t. pc_step Producer s t \<or> pc_step Consumer s t" if alive: "(prod_alive s \<or> cons_alive s) \<and> prod_i s < INT_MAX"
  proof -
    have push: "\<exists>t. pc_step Producer s t" if "prod_alive s" "\<not> prod_asleep s"
    proof (cases "MonitorBuffer_push (g_cb s) (prod_i s + 1)")
      case None
      then show ?thesis using pc_step.produce_waits [OF that] alive by blast
    next
      case (Some r)
      from inv(1) Some show ?thesis
        by (cases rule: MonitorBuffer_push_returns) (use that alive Some in \<open>blast intro: pc_step.produce pc_step.produce_stopped\<close>)+
    qed
    have pop: "\<exists>t. pc_step Consumer s t" if "cons_alive s" "\<not> cons_asleep s"
    proof (cases "MonitorBuffer_pop (g_cb s)")
      case None
      then show ?thesis using pc_step.consume_waits [OF that] by blast
    next
      case (Some r)
      from inv(1) Some show ?thesis
        by (cases rule: MonitorBuffer_pop_returns) (use that Some in \<open>blast intro: pc_step.consume pc_step.consume_stopped\<close>)+
    qed
    have "prod_alive s \<and> \<not> prod_asleep s \<or> cons_alive s \<and> \<not> cons_asleep s" using alive inv(3-6) by auto
    with push pop show ?thesis by blast
  qed
  show "pc_work t < pc_work s" "\<not> m_running (g_cb t)" if "\<not> m_running (g_cb s) \<and> pc_step a s t \<and> a \<in> {Producer, Consumer}" for a t
    using pc_stopped_work [OF _ pinv] that by blast+
  show "cons_out s = [1..prod_i s - 1]" if "\<not> prod_alive s \<and> \<not> cons_alive s" using pinv that by (auto simp: pc_inv_def pc_sent_def)
qed

theorem pc_progress_witness: "\<exists>t. pc_step Producer pc_init t \<or> pc_step Consumer pc_init t"
  using pc_progress [OF pc_reachable.init] by (auto simp: pc_init_def)

end
