(* ===== verification/Packet_Ring.thy ===== *)
theory Packet_Ring
  imports Queue_Interfaces "HOL-Library.Multiset"
begin

text \<open>
  The three packet rings of \<open>circularQueue/\<close> that overwrite their oldest packet when full:
  \<open>cQueuePacketsDynamic.cpp\<close> (\<open>PB_*\<close>), \<open>cQueuePacketsDynamic.c\<close> (\<open>DB_*\<close>) and
  \<open>cQueuePacketsStatic.c\<close> (\<open>SB_*\<close>). All three keep two indices and a full flag, so the
  arithmetic of the number of stored packets is shared. A clock reading is an argument. The two
  dynamic rings own their packets through pointers: a slot is \<open>None\<close> for null and \<open>Some\<close> packet
  for the packet it owns.
\<close>

section \<open>Indices and full flag\<close>

definition ring_count :: "nat \<Rightarrow> nat \<Rightarrow> nat \<Rightarrow> bool \<Rightarrow> nat" where
  "ring_count cap h t full = (if full then cap else (h + cap - t) mod cap)"

definition idx_inv :: "nat \<Rightarrow> nat \<Rightarrow> nat \<Rightarrow> bool \<Rightarrow> bool" where
  "idx_inv cap h t full \<longleftrightarrow> h < cap \<and> t < cap \<and> (full \<longrightarrow> h = t)"

lemma ring_count_head:
  assumes "idx_inv cap h t full"
  shows "(t + ring_count cap h t full) mod cap = h"
  using assms by (auto simp: ring_count_def idx_inv_def mod_add_right_eq)

lemma ring_count_le: "idx_inv cap h t full \<Longrightarrow> ring_count cap h t full \<le> cap"
  by (auto simp: ring_count_def idx_inv_def less_imp_le)

lemma ring_count_less: "idx_inv cap h t False \<Longrightarrow> ring_count cap h t False < cap"
  by (auto simp: ring_count_def idx_inv_def)

lemma ring_count_cases:
  assumes "idx_inv cap h t full"
  shows "ring_count cap h t full = (if full then cap else if t \<le> h then h - t else h + cap - t)"
  using assms by (auto simp: ring_count_def idx_inv_def le_mod_geq)

lemma ring_count_0: "idx_inv cap h t full \<Longrightarrow> ring_count cap h t full = 0 \<longleftrightarrow> h = t \<and> \<not> full"
  by (auto simp: ring_count_cases idx_inv_def)

lemma Suc_mod_cases: "k < cap \<Longrightarrow> Suc k mod cap = (if Suc k = cap then 0 else Suc k)"
  by auto

lemma idx_inv_push:
  "idx_inv cap h t False \<Longrightarrow> idx_inv cap (Suc h mod cap) t (Suc h mod cap = t)"
  by (auto simp: idx_inv_def)

lemma ring_count_push:
  assumes "idx_inv cap h t False"
  shows "ring_count cap (Suc h mod cap) t (Suc h mod cap = t) = Suc (ring_count cap h t False)"
  using assms by (subst (1 2) ring_count_cases)
    (auto simp: idx_inv_push idx_inv_def Suc_mod_cases split: if_splits)

lemma idx_inv_pop: "idx_inv cap h t full \<Longrightarrow> idx_inv cap h (Suc t mod cap) False"
  by (auto simp: idx_inv_def)

lemma ring_count_pop:
  assumes "idx_inv cap h t full" and "ring_count cap h t full = Suc n"
  shows "ring_count cap h (Suc t mod cap) False = n"
  using assms unfolding ring_count_cases [OF assms(1)] ring_count_cases [OF idx_inv_pop [OF assms(1)]]
  by (auto simp: idx_inv_def Suc_mod_cases split: if_splits)

lemma idx_inv_overwrite:
  "idx_inv cap h t True \<Longrightarrow> idx_inv cap (Suc h mod cap) (Suc t mod cap) (Suc h mod cap = Suc t mod cap)"
  by (auto simp: idx_inv_def)

section \<open>Slots that own packets\<close>

lemma window_update:
  assumes "n < length buf"
  shows "window (buf[(t + n) mod length buf := x]) t (length buf) = (window buf t (length buf))[n := x]"
proof (rule nth_equalityI)
  fix i assume "i < length (window (buf[(t + n) mod length buf := x]) t (length buf))"
  then have i: "i < length buf" by simp
  have "(t + i) mod length buf = (t + n) mod length buf \<longleftrightarrow> i = n"
    using assms i ring_index_neq [of i n "length buf" t] ring_index_neq [of n i "length buf" t]
    by (metis linorder_neqE_nat)
  with assms i show "window (buf[(t + n) mod length buf := x]) t (length buf) ! i =
      (window buf t (length buf))[n := x] ! i"
    by (auto simp: nth_list_update)
qed simp

text \<open>
  \<open>slots_hold buf t ps\<close>: reading the ring once around from \<open>t\<close> gives the packets \<open>ps\<close> and then null
  pointers only, so every allocated packet is reachable from exactly one slot.
\<close>

definition slots_hold :: "'p option list \<Rightarrow> nat \<Rightarrow> 'p list \<Rightarrow> bool" where
  "slots_hold buf t ps \<longleftrightarrow>
     window buf t (length buf) = map Some ps @ replicate (length buf - length ps) None"

lemma slots_hold_length: "slots_hold buf t ps \<Longrightarrow> length ps \<le> length buf"
proof -
  assume "slots_hold buf t ps"
  then have "length (window buf t (length buf)) =
      length (map Some ps @ replicate (length buf - length ps) (None :: 'a option))"
    by (simp add: slots_hold_def)
  then show ?thesis by simp
qed

lemma slots_store:
  assumes "slots_hold buf t ps" and "length ps < length buf"
  shows "slots_hold (buf[(t + length ps) mod length buf := Some p]) t (ps @ [p])"
proof -
  obtain k where k: "length buf - length ps = Suc k" using assms(2) by (metis Suc_diff_Suc)
  then have "length buf - Suc (length ps) = k" by simp
  with k assms show ?thesis
    by (simp add: slots_hold_def window_update list_update_append)
qed

lemma slots_overwrite:
  assumes "slots_hold buf t ps" and "length ps = length buf" and "t < length buf"
  shows "slots_hold (buf[t := Some p]) (Suc t mod length buf) (tl ps @ [p])"
proof -
  have "ps \<noteq> []" using assms by auto
  then show ?thesis
    using assms window_overwrite [OF assms(3), of "Some p"]
      window_mod [of "buf[t := Some p]" "Suc t" "length buf"]
    by (simp add: slots_hold_def map_tl)
qed

lemma slots_take:
  assumes "slots_hold buf t (p # ps)" and "t < length buf"
  shows "slots_hold (buf[t := None]) (Suc t mod length buf) ps" and "buf ! t = Some p"
proof -
  let ?n = "length buf"
  have le: "Suc (length ps) \<le> ?n" using slots_hold_length [OF assms(1)] by simp
  have "replicate (?n - length ps) (None :: 'a option) = replicate (?n - Suc (length ps)) None @ [None]"
    using le by (metis Suc_diff_Suc Suc_le_eq replicate_Suc replicate_append_same)
  then show "slots_hold (buf[t := None]) (Suc t mod ?n) ps"
    using assms window_overwrite [OF assms(2), of None]
      window_mod [of "buf[t := None]" "Suc t" ?n]
    by (simp add: slots_hold_def)
  have "window buf t ?n ! 0 = Some p" using assms(1) by (simp add: slots_hold_def)
  moreover have "window buf t ?n ! 0 = buf ! t" using assms(2) by (subst nth_window) auto
  ultimately show "buf ! t = Some p" by simp
qed

lemma slots_contents:
  assumes "slots_hold buf t ps"
  shows "map the (window buf t (length ps)) = ps"
proof (rule nth_equalityI)
  fix i assume "i < length (map the (window buf t (length ps)))"
  then have i: "i < length ps" by simp
  then have "window buf t (length buf) ! i = Some (ps ! i)"
    using assms by (simp add: slots_hold_def nth_append)
  then show "map the (window buf t (length ps)) ! i = ps ! i"
    using i slots_hold_length [OF assms] by simp
qed simp

text \<open>A full turn of the window is a permutation of the ring.\<close>

lemma mset_window_full:
  assumes "t < length buf"
  shows "mset (window buf t (length buf)) = mset buf"
proof -
  have "window buf t (length buf) = rotate t buf"
    by (rule nth_equalityI) (simp_all add: nth_rotate add.commute)
  then show ?thesis by (metis append_take_drop_id mset_append rotate_drop_take union_commute)
qed

lemma slots_mset:
  assumes "slots_hold buf t ps" and "t < length buf"
  shows "mset (map the (filter (\<lambda>p. p \<noteq> None) buf)) = mset ps"
proof -
  have "mset (filter (\<lambda>p. p \<noteq> None) buf) = mset (filter (\<lambda>p. p \<noteq> None) (window buf t (length buf)))"
    by (simp only: mset_filter mset_window_full [OF assms(2)])
  also have "filter (\<lambda>p. p \<noteq> None) (window buf t (length buf)) = map Some ps"
    using assms(1) by (simp add: slots_hold_def filter_map comp_def)
  finally have "image_mset the (mset (filter (\<lambda>p. p \<noteq> None) buf)) = mset ps"
    by (simp add: multiset.map_comp comp_def)
  then show ?thesis by (simp only: mset_map)
qed

section \<open>The C++ ring\<close>

type_synonym byte = "8 word"

record packet =
  p_data :: "byte list"
  p_timestamp :: nat

record PacketBuffer =
  pb_buffer :: "packet option list"
  pb_head :: nat
  pb_tail :: nat
  pb_capacity :: nat
  pb_isFull :: bool

definition Packet_new :: "byte list \<Rightarrow> nat \<Rightarrow> packet" where
  "Packet_new d now = \<lparr>p_data = d, p_timestamp = now\<rparr>"

lemma Packet_new_eta [simp]: "Packet_new (p_data p) (p_timestamp p) = p"
  by (cases p) (simp add: Packet_new_def)

definition PB_new :: "nat \<Rightarrow> PacketBuffer" where
  "PB_new n = \<lparr>pb_buffer = replicate n None, pb_head = 0, pb_tail = 0, pb_capacity = n,
     pb_isFull = False\<rparr>"

text \<open>The destructor, with the packets it deletes.\<close>

definition PB_destroy :: "PacketBuffer \<Rightarrow> packet list \<times> PacketBuffer" where
  "PB_destroy b = (map the (filter (\<lambda>p. p \<noteq> None) (pb_buffer b)),
     b\<lparr>pb_buffer := [], pb_head := 0, pb_tail := 0, pb_isFull := False\<rparr>)"

definition PB_isEmpty :: "PacketBuffer \<Rightarrow> bool" where
  "PB_isEmpty b = (\<not> pb_isFull b \<and> pb_head b = pb_tail b)"

definition PB_size :: "PacketBuffer \<Rightarrow> nat" where
  "PB_size b = (if pb_isFull b then pb_capacity b
     else if pb_tail b \<le> pb_head b then pb_head b - pb_tail b
     else pb_capacity b - pb_tail b + pb_head b)"

definition PB_enqueue :: "PacketBuffer \<Rightarrow> byte list \<Rightarrow> nat \<Rightarrow> PacketBuffer res" where
  "PB_enqueue b data now =
     (if pb_isFull b then
        rbind (arr_get (pb_buffer b) (pb_tail b)) (\<lambda>deleted.
        rbind (arr_set (pb_buffer b) (pb_tail b) (Some (Packet_new data now))) (\<lambda>buf.
        rbind (umod (pb_tail b + 1) (pb_capacity b)) (\<lambda>t.
        Inr (b\<lparr>pb_buffer := buf, pb_tail := t, pb_head := t\<rparr>))))
      else
        rbind (arr_set (pb_buffer b) (pb_head b) (Some (Packet_new data now))) (\<lambda>buf.
        rbind (umod (pb_head b + 1) (pb_capacity b)) (\<lambda>h.
        Inr (b\<lparr>pb_buffer := buf, pb_head := h, pb_isFull := (if h = pb_tail b then True else pb_isFull b)\<rparr>))))"

text \<open>The result is the pointer that is returned; \<open>None\<close> outside when the call waits.\<close>

definition PB_dequeue :: "PacketBuffer \<Rightarrow> (packet option \<times> PacketBuffer) res option" where
  "PB_dequeue b =
     (if PB_isEmpty b then None
      else Some (rbind (arr_get (pb_buffer b) (pb_tail b)) (\<lambda>pkt.
                 rbind (arr_set (pb_buffer b) (pb_tail b) None) (\<lambda>buf.
                 rbind (umod (pb_tail b + 1) (pb_capacity b)) (\<lambda>t.
                 Inr (pkt, b\<lparr>pb_buffer := buf, pb_tail := t, pb_isFull := False\<rparr>))))))"

definition PB_count :: "PacketBuffer \<Rightarrow> nat" where
  "PB_count b = ring_count (pb_capacity b) (pb_head b) (pb_tail b) (pb_isFull b)"

definition PB_contents :: "PacketBuffer \<Rightarrow> packet list" where
  "PB_contents b = map the (window (pb_buffer b) (pb_tail b) (PB_count b))"

definition PB_inv :: "PacketBuffer \<Rightarrow> bool" where
  "PB_inv b \<longleftrightarrow> length (pb_buffer b) = pb_capacity b \<and>
     idx_inv (pb_capacity b) (pb_head b) (pb_tail b) (pb_isFull b) \<and>
     slots_hold (pb_buffer b) (pb_tail b) (PB_contents b)"

lemma length_PB_contents [simp]: "length (PB_contents b) = PB_count b"
  by (simp add: PB_contents_def)

lemma PB_invI:
  assumes "length (pb_buffer b) = pb_capacity b"
    and "idx_inv (pb_capacity b) (pb_head b) (pb_tail b) (pb_isFull b)"
    and "slots_hold (pb_buffer b) (pb_tail b) ps" and "PB_count b = length ps"
  shows "PB_inv b \<and> PB_contents b = ps"
  using assms slots_contents [OF assms(3)] by (simp add: PB_inv_def PB_contents_def)

lemma PB_new_inv: "0 < c \<Longrightarrow> PB_inv (PB_new c) \<and> PB_contents (PB_new c) = []"
  by (rule PB_invI)
    (simp_all add: PB_new_def idx_inv_def PB_count_def ring_count_def slots_hold_def window_def
      nth_equalityI map_replicate_const)

lemma PB_enqueue_keeps:
  assumes "PB_inv b"
  shows "\<exists>b'. PB_enqueue b d now = Inr b' \<and> PB_inv b' \<and> pb_capacity b' = pb_capacity b \<and>
    PB_contents b' = keep_last (pb_capacity b) (PB_contents b @ [Packet_new d now])"
proof (cases "pb_isFull b")
  case True
  let ?t = "Suc (pb_tail b) mod pb_capacity b"
  let ?b' = "b\<lparr>pb_buffer := (pb_buffer b)[pb_tail b := Some (Packet_new d now)], pb_tail := ?t,
    pb_head := ?t\<rparr>"
  from assms True have idx: "pb_tail b < pb_capacity b" "length (pb_buffer b) = pb_capacity b"
    and cnt: "PB_count b = pb_capacity b"
    by (auto simp: PB_inv_def idx_inv_def PB_count_def ring_count_def)
  have "PB_enqueue b d now = Inr ?b'" using True idx by (simp add: PB_enqueue_def)
  moreover have "PB_inv ?b' \<and> PB_contents ?b' = tl (PB_contents b) @ [Packet_new d now]"
    using assms True idx cnt slots_overwrite [of "pb_buffer b" "pb_tail b" "PB_contents b"]
    by (intro PB_invI) (auto simp: PB_inv_def idx_inv_def PB_count_def ring_count_def)
  ultimately show ?thesis using idx cnt by (simp add: keep_last_full)
next
  case False
  let ?h = "Suc (pb_head b) mod pb_capacity b"
  let ?b' = "b\<lparr>pb_buffer := (pb_buffer b)[pb_head b := Some (Packet_new d now)], pb_head := ?h,
    pb_isFull := (?h = pb_tail b)\<rparr>"
  from assms False have inv: "idx_inv (pb_capacity b) (pb_head b) (pb_tail b) False"
    and len: "length (pb_buffer b) = pb_capacity b"
    and hold: "slots_hold (pb_buffer b) (pb_tail b) (PB_contents b)" by (auto simp: PB_inv_def)
  have cnt: "PB_count b < pb_capacity b"
    and h: "(pb_tail b + PB_count b) mod pb_capacity b = pb_head b"
    using inv False by (simp_all add: PB_count_def ring_count_less ring_count_head)
  have "PB_enqueue b d now = Inr ?b'" using False inv len by (auto simp: PB_enqueue_def idx_inv_def)
  moreover have "PB_inv ?b' \<and> PB_contents ?b' = PB_contents b @ [Packet_new d now]"
    using hold len cnt h slots_store [OF hold, of "Packet_new d now"] ring_count_push [OF inv]
      idx_inv_push [OF inv] False
    by (intro PB_invI) (simp_all add: PB_count_def)
  ultimately show ?thesis using cnt by simp
qed

lemma PB_dequeue_empty: "PB_inv b \<Longrightarrow> PB_contents b = [] \<Longrightarrow> PB_dequeue b = None"
  using ring_count_0 [of "pb_capacity b" "pb_head b" "pb_tail b" "pb_isFull b"]
  by (auto simp: PB_inv_def PB_dequeue_def PB_isEmpty_def PB_contents_def PB_count_def)

lemma PB_dequeue_front:
  assumes "PB_inv b" and c: "PB_contents b = p # ps"
  shows "\<exists>b'. PB_dequeue b = Some (Inr (Some p, b')) \<and> PB_inv b' \<and>
    pb_capacity b' = pb_capacity b \<and> PB_contents b' = ps"
proof -
  let ?t = "Suc (pb_tail b) mod pb_capacity b"
  let ?b' = "b\<lparr>pb_buffer := (pb_buffer b)[pb_tail b := None], pb_tail := ?t, pb_isFull := False\<rparr>"
  from assms have inv: "idx_inv (pb_capacity b) (pb_head b) (pb_tail b) (pb_isFull b)"
    and len: "length (pb_buffer b) = pb_capacity b"
    and hold: "slots_hold (pb_buffer b) (pb_tail b) (p # ps)" by (auto simp: PB_inv_def)
  have cnt: "PB_count b = Suc (length ps)" using c by (metis length_Cons length_PB_contents)
  have t: "pb_tail b < length (pb_buffer b)" using inv len by (simp add: idx_inv_def)
  have "\<not> PB_isEmpty b"
    using ring_count_0 [OF inv] cnt by (auto simp: PB_isEmpty_def PB_count_def)
  then have "PB_dequeue b = Some (Inr (Some p, ?b'))"
    using t len slots_take(2) [OF hold t] by (simp add: PB_dequeue_def)
  moreover have "PB_inv ?b' \<and> PB_contents ?b' = ps"
    using slots_take(1) [OF hold t] len inv cnt ring_count_pop [OF inv] idx_inv_pop [OF inv]
    by (intro PB_invI) (simp_all add: PB_count_def)
  ultimately show ?thesis by simp
qed

definition PB_enq :: "PacketBuffer \<Rightarrow> packet \<Rightarrow> PacketBuffer option" where
  "PB_enq b p = ok_of (PB_enqueue b (p_data p) (p_timestamp p))"

definition PB_deq :: "PacketBuffer \<Rightarrow> (packet \<times> PacketBuffer) option" where
  "PB_deq b = (case PB_dequeue b of Some (Inr (Some p, b')) \<Rightarrow> Some (p, b') | _ \<Rightarrow> None)"

interpretation pb_ring: overwrite_ring PB_enq PB_deq PB_contents
  "\<lambda>b. PB_inv b \<and> pb_capacity b = c" c "\<lambda>_. True" for c
proof (unfold_locales, goal_cases)
  case (1 s x)
  then show ?case using PB_enqueue_keeps [of s "p_data x" "p_timestamp x"]
    by (auto simp: PB_enq_def)
next
  case (2 s)
  then show ?case by (simp add: PB_deq_def PB_dequeue_empty)
next
  case (3 s x xs)
  then show ?case using PB_dequeue_front [of s x xs] by (auto simp: PB_deq_def)
next
  case (4 s)
  then show ?case by (auto simp: PB_inv_def PB_count_def ring_count_le)
qed

lemma PB_size_count: "PB_inv b \<Longrightarrow> PB_size b = length (PB_contents b)"
  using ring_count_cases [of "pb_capacity b" "pb_head b" "pb_tail b" "pb_isFull b"]
  by (auto simp: PB_inv_def PB_size_def PB_count_def idx_inv_def)

section \<open>Properties\<close>

text \<open>
  Claim C4. Storing any sequence of packets in a fresh ring of positive capacity succeeds every
  time, leaves the most recent packets, as many as the capacity, and draining the ring then hands
  them out oldest first; \<open>size()\<close> is their number.
\<close>

theorem PB_keeps_latest:
  assumes "0 < c"
  shows "\<exists>b. run_ops PB_enq PB_deq (map Push ps) (PB_new c) = (replicate (length ps) Accepted, b) \<and>
    PB_size b = min c (length ps) \<and>
    fst (run_ops PB_enq PB_deq (replicate (PB_size b) Pop) b) = map Got (keep_last c ps)"
proof -
  have new: "PB_inv (PB_new c) \<and> pb_capacity (PB_new c) = c" "PB_contents (PB_new c) = []"
    using PB_new_inv [OF assms] by (simp_all add: PB_new_def)
  have "list_all (\<lambda>_. True) ps" by (simp add: list_all_iff)
  from pb_ring.enq_all [OF new(1) this] new(2) obtain b where
    b: "run_ops PB_enq PB_deq (map Push ps) (PB_new c) = (replicate (length ps) Accepted, b)"
      "PB_inv b \<and> pb_capacity b = c" "PB_contents b = keep_last c ps" by auto
  have sz: "PB_size b = length (PB_contents b)" using b(2) by (simp add: PB_size_count)
  from pb_ring.deq_all [OF b(2), of "PB_size b"] sz b(3)
  have "fst (run_ops PB_enq PB_deq (replicate (PB_size b) Pop) b) = map Got (keep_last c ps)" by auto
  with b sz show ?thesis by (metis length_keep_last)
qed

theorem PB_keeps_latest_witness:
  "\<exists>b. run_ops PB_enq PB_deq (map Push [Packet_new [1] 10, Packet_new [2] 20]) (PB_new 1) =
     ([Accepted, Accepted], b) \<and> PB_size b = 1 \<and>
     fst (run_ops PB_enq PB_deq (replicate (PB_size b) Pop) b) = [Got (Packet_new [2] 20)]"
  using PB_keeps_latest [of 1 "[Packet_new [1] 10, Packet_new [2] 20]"]
  by (simp add: keep_last_def numeral_2_eq_2)

text \<open>
  The ring never loses track of a packet it owns: from every well-formed ring, enqueueing
  and dequeueing lead to a well-formed ring in which exactly the stored packets are reachable from
  slots, a dequeued pointer is never null, and the destructor deletes exactly the packets that were
  neither dequeued nor overwritten.
\<close>

theorem PB_ownership:
  assumes "PB_inv b"
  shows "(\<exists>b'. PB_enqueue b d now = Inr b' \<and> PB_inv b') \<and>
    (PB_dequeue b = None \<longleftrightarrow> PB_contents b = []) \<and>
    (\<forall>r. PB_dequeue b = Some r \<longrightarrow> (\<exists>p b'. r = Inr (Some p, b') \<and> PB_inv b' \<and>
        PB_contents b = p # PB_contents b')) \<and>
    mset (fst (PB_destroy b)) = mset (PB_contents b)"
proof (intro conjI)
  show "\<exists>b'. PB_enqueue b d now = Inr b' \<and> PB_inv b'" using PB_enqueue_keeps [OF assms] by blast
  show "PB_dequeue b = None \<longleftrightarrow> PB_contents b = []"
    using PB_dequeue_empty [OF assms] PB_dequeue_front [OF assms] by (cases "PB_contents b") auto
  show "\<forall>r. PB_dequeue b = Some r \<longrightarrow> (\<exists>p b'. r = Inr (Some p, b') \<and> PB_inv b' \<and>
        PB_contents b = p # PB_contents b')"
    using PB_dequeue_empty [OF assms] PB_dequeue_front [OF assms] by (cases "PB_contents b") auto
  show "mset (fst (PB_destroy b)) = mset (PB_contents b)"
    using assms slots_mset [of "pb_buffer b" "pb_tail b" "PB_contents b"]
    by (simp add: PB_inv_def PB_destroy_def idx_inv_def del: mset_map mset_filter)
qed

theorem PB_ownership_witness:
  "\<exists>b'. PB_enqueue (PB_new 2) [1] 7 = Inr b' \<and> PB_inv b'"
  using PB_ownership [OF conjunct1 [OF PB_new_inv [of 2]], of "[1]" 7] by simp

end
