(* ===== verification/Packet_Ring_C.thy ===== *)
theory Packet_Ring_C
  imports Packet_Ring
begin

text \<open>
  The two C packet rings: \<open>cQueuePacketsDynamic.c\<close> (\<open>DB_*\<close>), with heap packets, and
  \<open>cQueuePacketsStatic.c\<close> (\<open>SB_*\<close>), with packets of fixed size in place.
\<close>

section \<open>The dynamic ring in C\<close>

record DynBuffer =
  db_buffer :: "packet option list"
  db_capacity :: nat
  db_head :: nat
  db_tail :: nat
  db_is_full :: bool
  db_running :: bool

definition create_buffer :: "nat \<Rightarrow> DynBuffer" where
  "create_buffer capacity = \<lparr>db_buffer = replicate capacity None, db_capacity = capacity,
     db_head = 0, db_tail = 0, db_is_full = False, db_running = True\<rparr>"

text \<open>\<open>destroy_buffer\<close>, as the packets it frees.\<close>

definition destroy_buffer :: "DynBuffer \<Rightarrow> packet list" where
  "destroy_buffer buf = map the (filter (\<lambda>p. p \<noteq> None) (take (db_capacity buf) (db_buffer buf)))"

text \<open>\<open>mem\<close> says whether the two calls of \<open>malloc\<close> succeed; the code uses their results unchecked.\<close>

definition DB_enqueue :: "bool \<Rightarrow> DynBuffer \<Rightarrow> byte list \<Rightarrow> nat \<Rightarrow> nat \<Rightarrow> DynBuffer res" where
  "DB_enqueue mem buf data sz now =
     rbind (if db_is_full buf then
              rbind (arr_get (db_buffer buf) (db_tail buf)) (\<lambda>oldest.
              (case oldest of None \<Rightarrow> Inl NullDeref
               | Some freed \<Rightarrow> rbind (umod (db_tail buf + 1) (db_capacity buf)) (\<lambda>t.
                   Inr (buf\<lparr>db_tail := t\<rparr>))))
            else Inr buf) (\<lambda>buf.
     if \<not> mem then Inl NullDeref
     else if length data < sz then Inl OutOfBounds
     else
       rbind (arr_set (db_buffer buf) (db_head buf)
                (Some \<lparr>p_data = take sz data, p_timestamp = now\<rparr>)) (\<lambda>b.
       rbind (umod (db_head buf + 1) (db_capacity buf)) (\<lambda>h.
       Inr (buf\<lparr>db_buffer := b, db_head := h, db_is_full := (h = db_tail buf)\<rparr>))))"

definition DB_dequeue :: "DynBuffer \<Rightarrow> (packet option \<times> DynBuffer) res option" where
  "DB_dequeue buf =
     (if db_head buf = db_tail buf \<and> \<not> db_is_full buf \<and> db_running buf then None
      else Some (if \<not> db_running buf then Inr (None, buf)
        else rbind (arr_get (db_buffer buf) (db_tail buf)) (\<lambda>pkt.
             rbind (arr_set (db_buffer buf) (db_tail buf) None) (\<lambda>b.
             rbind (umod (db_tail buf + 1) (db_capacity buf)) (\<lambda>t.
             Inr (pkt, buf\<lparr>db_buffer := b, db_tail := t, db_is_full := False\<rparr>))))))"

definition DB_shutdown :: "DynBuffer \<Rightarrow> DynBuffer" where
  "DB_shutdown buf = buf\<lparr>db_running := False\<rparr>"

text \<open>
  A C ring and a C++ ring in the same state. The C code advances the tail of a full ring before
  it stores, the C++ code afterwards; both end in the same state.
\<close>

definition DB_rel :: "DynBuffer \<Rightarrow> PacketBuffer \<Rightarrow> bool" where
  "DB_rel c b \<longleftrightarrow> db_running c \<and> b = \<lparr>pb_buffer = db_buffer c, pb_head = db_head c,
     pb_tail = db_tail c, pb_capacity = db_capacity c, pb_isFull = db_is_full c\<rparr>"

lemma DB_rel_create: "DB_rel (create_buffer n) (PB_new n)"
  by (simp add: DB_rel_def create_buffer_def PB_new_def)

lemma DB_rel_enqueue:
  assumes "DB_rel c b" and "PB_inv b"
  shows "\<exists>c' b'. DB_enqueue True c d (length d) now = Inr c' \<and> PB_enqueue b d now = Inr b' \<and>
    DB_rel c' b' \<and> PB_inv b'"
proof -
  from PB_enqueue_keeps [OF assms(2), of d now] obtain b'
    where b': "PB_enqueue b d now = Inr b'" "PB_inv b'" by blast
  have len: "length (db_buffer c) = db_capacity c"
    and idx: "idx_inv (db_capacity c) (db_head c) (db_tail c) (db_is_full c)"
    and hold: "slots_hold (db_buffer c) (db_tail c) (PB_contents b)"
    using assms by (auto simp: DB_rel_def PB_inv_def)
  show ?thesis
  proof (cases "db_is_full c")
    case True
    then have cnt: "PB_count b = length (db_buffer c)" and ht: "db_head c = db_tail c"
      using assms idx len by (auto simp: DB_rel_def PB_count_def ring_count_def idx_inv_def)
    from True idx len have t: "db_tail c < length (db_buffer c)" by (simp add: idx_inv_def)
    obtain p ps where ps: "PB_contents b = p # ps"
      using cnt t length_PB_contents [of b] by (cases "PB_contents b") auto
    have "db_buffer c ! db_tail c = Some p" using slots_take(2) [OF hold [unfolded ps] t] .
    with True t len ht b' assms(1) show ?thesis
      by (auto simp: DB_enqueue_def PB_enqueue_def DB_rel_def Packet_new_def)
  next
    case False
    with idx len b' assms(1) show ?thesis
      by (auto simp: DB_enqueue_def PB_enqueue_def DB_rel_def Packet_new_def idx_inv_def)
  qed
qed

lemma DB_rel_dequeue:
  assumes "DB_rel c b"
  shows "(case PB_dequeue b of None \<Rightarrow> DB_dequeue c = None
    | Some (Inl e) \<Rightarrow> DB_dequeue c = Some (Inl e)
    | Some (Inr (p, b')) \<Rightarrow> \<exists>c'. DB_dequeue c = Some (Inr (p, c')) \<and> DB_rel c' b')"
  using assms
  by (cases "arr_get (db_buffer c) (db_tail c)"; cases "arr_set (db_buffer c) (db_tail c) None";
      cases "umod (Suc (db_tail c)) (db_capacity c)")
    (auto simp: PB_dequeue_def DB_dequeue_def DB_rel_def PB_isEmpty_def)

definition DB_enq :: "DynBuffer \<Rightarrow> packet \<Rightarrow> DynBuffer option" where
  "DB_enq b p = ok_of (DB_enqueue True b (p_data p) (length (p_data p)) (p_timestamp p))"

definition DB_deq :: "DynBuffer \<Rightarrow> (packet \<times> DynBuffer) option" where
  "DB_deq b = (case DB_dequeue b of Some (Inr (Some p, b')) \<Rightarrow> Some (p, b') | _ \<Rightarrow> None)"

lemma DB_run_agrees:
  assumes "DB_rel c b" and "PB_inv b"
  shows "fst (run_ops DB_enq DB_deq ops c) = fst (run_ops PB_enq PB_deq ops b)"
  using assms
proof (induction ops arbitrary: c b)
  case (Cons a ops)
  show ?case
  proof (cases a)
    case (Push p)
    from DB_rel_enqueue [OF Cons.prems, of "p_data p" "p_timestamp p"] obtain c' b' where
      "DB_enq c p = Some c'" "PB_enq b p = Some b'" "DB_rel c' b'" "PB_inv b'"
      by (auto simp: DB_enq_def PB_enq_def)
    with Cons.IH [of c' b'] Push show ?thesis by simp
  next
    case Pop
    show ?thesis
    proof (cases "PB_contents b")
      case Nil
      then have "PB_dequeue b = None" using PB_dequeue_empty [OF Cons.prems(2)] by simp
      moreover have "DB_dequeue c = None"
        using DB_rel_dequeue [OF Cons.prems(1)] calculation by simp
      ultimately show ?thesis using Cons.IH [OF Cons.prems] Pop by (simp add: DB_deq_def PB_deq_def)
    next
      case (Cons p ps)
      from PB_dequeue_front [OF Cons.prems(2) this] obtain b' where
        b': "PB_dequeue b = Some (Inr (Some p, b'))" "PB_inv b'" by blast
      with DB_rel_dequeue [OF Cons.prems(1)] obtain c' where
        "DB_dequeue c = Some (Inr (Some p, c'))" "DB_rel c' b'" by auto
      with b' Cons.IH [of c' b'] Pop show ?thesis by (simp add: DB_deq_def PB_deq_def)
    qed
  qed
qed simp

section \<open>The static ring in C\<close>

abbreviation MAX_PACKET_SIZE :: nat where "MAX_PACKET_SIZE \<equiv> 1024"
abbreviation BUFFER_CAPACITY :: nat where "BUFFER_CAPACITY \<equiv> 8"

record static_packet =
  sp_data :: "byte list"
  sp_size :: nat
  sp_timestamp :: nat

record StaticBuffer =
  sb_buffer :: "static_packet list"
  sb_head :: nat
  sb_tail :: nat
  sb_is_full :: bool

text \<open>\<open>packet_buffer_init\<close> leaves the array as it is: the static storage \<open>raw\<close>.\<close>

definition packet_buffer_init :: "static_packet list \<Rightarrow> StaticBuffer" where
  "packet_buffer_init raw = \<lparr>sb_buffer = raw, sb_head = 0, sb_tail = 0, sb_is_full = False\<rparr>"

definition packet_buffer_push ::
  "StaticBuffer \<Rightarrow> byte list \<Rightarrow> nat \<Rightarrow> nat \<Rightarrow> (int \<times> StaticBuffer) res" where
  "packet_buffer_push pb data sz now =
     (if sz > MAX_PACKET_SIZE then Inr (-1, pb)
      else if length data < sz then Inl OutOfBounds
      else
        rbind (arr_get (sb_buffer pb) (sb_head pb)) (\<lambda>pkt.
        rbind (arr_set (sb_buffer pb) (sb_head pb)
                 (pkt\<lparr>sp_data := take sz data @ drop sz (sp_data pkt), sp_size := sz,
                     sp_timestamp := now\<rparr>)) (\<lambda>b.
        let h = (sb_head pb + 1) mod BUFFER_CAPACITY;
            t = (if sb_is_full pb then (sb_tail pb + 1) mod BUFFER_CAPACITY else sb_tail pb)
        in Inr (0, pb\<lparr>sb_buffer := b, sb_head := h, sb_tail := t, sb_is_full := (h = t)\<rparr>))))"

definition packet_buffer_pop ::
  "bool \<Rightarrow> StaticBuffer \<Rightarrow> (static_packet option \<times> StaticBuffer) res option" where
  "packet_buffer_pop g_running pb =
     (if sb_head pb = sb_tail pb \<and> \<not> sb_is_full pb \<and> g_running then None
      else Some (if \<not> g_running then Inr (None, pb)
        else rbind (arr_get (sb_buffer pb) (sb_tail pb)) (\<lambda>pkt.
             Inr (Some pkt, pb\<lparr>sb_tail := (sb_tail pb + 1) mod BUFFER_CAPACITY,
               sb_is_full := False\<rparr>))))"

definition sp_packet :: "static_packet \<Rightarrow> packet" where
  "sp_packet p = \<lparr>p_data = take (sp_size p) (sp_data p), p_timestamp = sp_timestamp p\<rparr>"

definition SB_count :: "StaticBuffer \<Rightarrow> nat" where
  "SB_count b = ring_count BUFFER_CAPACITY (sb_head b) (sb_tail b) (sb_is_full b)"

definition SB_contents :: "StaticBuffer \<Rightarrow> packet list" where
  "SB_contents b = map sp_packet (window (sb_buffer b) (sb_tail b) (SB_count b))"

definition SB_inv :: "StaticBuffer \<Rightarrow> bool" where
  "SB_inv b \<longleftrightarrow> length (sb_buffer b) = BUFFER_CAPACITY \<and>
     list_all (\<lambda>p. length (sp_data p) = MAX_PACKET_SIZE) (sb_buffer b) \<and>
     idx_inv BUFFER_CAPACITY (sb_head b) (sb_tail b) (sb_is_full b)"

lemma length_SB_contents [simp]: "length (SB_contents b) = SB_count b"
  by (simp add: SB_contents_def)

lemma packet_buffer_push_ok:
  assumes inv: "SB_inv b" and len: "length d \<le> MAX_PACKET_SIZE"
  shows "\<exists>b'. packet_buffer_push b d (length d) now = Inr (0, b') \<and> SB_inv b' \<and>
    SB_contents b' = keep_last BUFFER_CAPACITY (SB_contents b @ [\<lparr>p_data = d, p_timestamp = now\<rparr>])"
proof -
  let ?h = "Suc (sb_head b) mod BUFFER_CAPACITY"
  let ?t = "if sb_is_full b then Suc (sb_tail b) mod BUFFER_CAPACITY else sb_tail b"
  let ?old = "sb_buffer b ! sb_head b"
  let ?p = "?old\<lparr>sp_data := d @ drop (length d) (sp_data ?old), sp_size := length d, sp_timestamp := now\<rparr>"
  let ?b' = "b\<lparr>sb_buffer := (sb_buffer b)[sb_head b := ?p], sb_head := ?h, sb_tail := ?t,
    sb_is_full := (?h = ?t)\<rparr>"
  have idx: "idx_inv BUFFER_CAPACITY (sb_head b) (sb_tail b) (sb_is_full b)"
    and l: "length (sb_buffer b) = BUFFER_CAPACITY" using inv by (simp_all add: SB_inv_def)
  have h: "sb_head b < BUFFER_CAPACITY" "sb_tail b < BUFFER_CAPACITY"
    using idx by (simp_all add: idx_inv_def)
  have ret: "packet_buffer_push b d (length d) now = Inr (0, ?b')"
    using len h l by (simp add: packet_buffer_push_def Let_def)
  have "length (sp_data ?old) = MAX_PACKET_SIZE"
    using inv h l by (auto simp: SB_inv_def list_all_length)
  then have inv': "SB_inv ?b'"
    using inv h l len idx_inv_push idx_inv_overwrite idx
    by (cases "sb_is_full b") (auto simp: SB_inv_def list_all_length nth_list_update)
  have sp: "sp_packet ?p = \<lparr>p_data = d, p_timestamp = now\<rparr>" by (simp add: sp_packet_def)
  have "SB_contents ?b' = keep_last BUFFER_CAPACITY (SB_contents b @ [sp_packet ?p])"
  proof (cases "sb_is_full b")
    case True
    then have ht: "sb_head b = sb_tail b" and c: "SB_count b = BUFFER_CAPACITY"
      and c': "SB_count ?b' = BUFFER_CAPACITY"
      using idx by (simp_all add: idx_inv_def SB_count_def ring_count_def)
    then show ?thesis
      using True l h window_overwrite [of "sb_tail b" "sb_buffer b" ?p]
        window_mod [of "(sb_buffer b)[sb_tail b := ?p]" "Suc (sb_tail b)" BUFFER_CAPACITY]
      by (simp add: SB_contents_def keep_last_full map_tl)
  next
    case False
    then have i: "idx_inv BUFFER_CAPACITY (sb_head b) (sb_tail b) False" using idx by simp
    have c: "SB_count b < BUFFER_CAPACITY" and hd: "(sb_tail b + SB_count b) mod BUFFER_CAPACITY = sb_head b"
      and c': "SB_count ?b' = Suc (SB_count b)"
      using ring_count_less [OF i] ring_count_head [OF i] ring_count_push [OF i] False
      by (simp_all add: SB_count_def)
    then show ?thesis
      using False l window_push [of "SB_count b" "sb_buffer b" "sb_tail b" ?p]
      by (simp add: SB_contents_def)
  qed
  with ret inv' sp show ?thesis by auto
qed

lemma packet_buffer_push_too_large:
  "MAX_PACKET_SIZE < sz \<Longrightarrow> packet_buffer_push b d sz now = Inr (-1, b)"
  by (simp add: packet_buffer_push_def)

lemma packet_buffer_pop_empty:
  "SB_inv b \<Longrightarrow> packet_buffer_pop True b = None \<longleftrightarrow> SB_contents b = []"
  using ring_count_0 [of BUFFER_CAPACITY "sb_head b" "sb_tail b" "sb_is_full b"]
  by (auto simp: SB_inv_def packet_buffer_pop_def SB_contents_def SB_count_def)

lemma packet_buffer_pop_front:
  assumes inv: "SB_inv b" and c: "SB_contents b = p # ps"
  shows "\<exists>q b'. packet_buffer_pop True b = Some (Inr (Some q, b')) \<and> sp_packet q = p \<and> SB_inv b' \<and>
    SB_contents b' = ps"
proof -
  let ?b' = "b\<lparr>sb_tail := Suc (sb_tail b) mod BUFFER_CAPACITY, sb_is_full := False\<rparr>"
  have idx: "idx_inv BUFFER_CAPACITY (sb_head b) (sb_tail b) (sb_is_full b)"
    and l: "length (sb_buffer b) = BUFFER_CAPACITY" using inv by (simp_all add: SB_inv_def)
  have t: "sb_tail b < BUFFER_CAPACITY" using idx by (simp add: idx_inv_def)
  have cnt: "SB_count b = Suc (length ps)" using c by (metis length_Cons length_SB_contents)
  have "packet_buffer_pop True b = Some (Inr (Some (sb_buffer b ! sb_tail b), ?b'))"
    using ring_count_0 [OF idx] cnt t l by (auto simp: packet_buffer_pop_def SB_count_def)
  moreover have "SB_count ?b' = length ps"
    using ring_count_pop [OF idx] cnt by (simp add: SB_count_def)
  then have "SB_contents ?b' = ps" "sp_packet (sb_buffer b ! sb_tail b) = p"
    using c cnt l t window_mod [of "sb_buffer b" "Suc (sb_tail b)" "length ps"]
    by (simp_all add: SB_contents_def window_Cons)
  moreover have "SB_inv ?b'" using inv idx_inv_pop [OF idx] by (simp add: SB_inv_def)
  ultimately show ?thesis by blast
qed

definition SB_enq :: "StaticBuffer \<Rightarrow> packet \<Rightarrow> StaticBuffer option" where
  "SB_enq b p = (case packet_buffer_push b (p_data p) (length (p_data p)) (p_timestamp p) of
     Inr (r, b') \<Rightarrow> if r = 0 then Some b' else None | Inl _ \<Rightarrow> None)"

definition SB_deq :: "StaticBuffer \<Rightarrow> (packet \<times> StaticBuffer) option" where
  "SB_deq b = (case packet_buffer_pop True b of Some (Inr (Some q, b')) \<Rightarrow> Some (sp_packet q, b')
     | _ \<Rightarrow> None)"

interpretation sb_ring: overwrite_ring SB_enq SB_deq SB_contents SB_inv BUFFER_CAPACITY
  "\<lambda>p. length (p_data p) \<le> MAX_PACKET_SIZE"
proof (unfold_locales, goal_cases)
  case (1 s x)
  then show ?case using packet_buffer_push_ok [of s "p_data x" "p_timestamp x"]
    by (cases x) (auto simp: SB_enq_def)
next
  case (2 s)
  then show ?case using packet_buffer_pop_empty [of s] by (simp add: SB_deq_def)
next
  case (3 s x xs)
  then show ?case using packet_buffer_pop_front [of s x xs] by (auto simp: SB_deq_def)
next
  case (4 s)
  then show ?case using ring_count_le [of BUFFER_CAPACITY "sb_head s" "sb_tail s" "sb_is_full s"]
    by (simp add: SB_inv_def SB_count_def)
qed

section \<open>Properties\<close>

text \<open>
  The C and the C++ dynamic packet ring are interchangeable: on fresh rings of the same
  positive capacity, any sequence of enqueues and dequeues gives the same results, although the
  two update a full ring in a different order.
\<close>

theorem DB_equivalent_to_PB:
  assumes "0 < c"
  shows "fst (run_ops DB_enq DB_deq ops (create_buffer c)) = fst (run_ops PB_enq PB_deq ops (PB_new c))"
  using DB_run_agrees [OF DB_rel_create] PB_new_inv [OF assms] by blast

theorem DB_equivalent_to_PB_witness:
  "fst (run_ops DB_enq DB_deq [Push (Packet_new [1] 0), Push (Packet_new [2] 1), Pop] (create_buffer 1)) =
   fst (run_ops PB_enq PB_deq [Push (Packet_new [1] 0), Push (Packet_new [2] 1), Pop] (PB_new 1))"
  by (rule DB_equivalent_to_PB) simp

text \<open>
  The static ring of eight packets accepts every payload of at most 1024 bytes, overwriting
  the oldest packet when it is full, and keeps the most recent eight; a larger payload is refused with
  -1 and changes nothing.
\<close>

theorem packet_buffer_keeps_latest:
  assumes "SB_inv b" and "list_all (\<lambda>p. length (p_data p) \<le> MAX_PACKET_SIZE) ps"
  shows "\<exists>b'. run_ops SB_enq SB_deq (map Push ps) b = (replicate (length ps) Accepted, b') \<and>
    SB_contents b' = keep_last 8 (SB_contents b @ ps) \<and>
    fst (run_ops SB_enq SB_deq (replicate (length (SB_contents b')) Pop) b') =
      map Got (keep_last 8 (SB_contents b @ ps)) \<and>
    (\<forall>d sz now. MAX_PACKET_SIZE < sz \<longrightarrow> packet_buffer_push b' d sz now = Inr (-1, b'))"
proof -
  from sb_ring.enq_all [OF assms] obtain b' where
    b': "run_ops SB_enq SB_deq (map Push ps) b = (replicate (length ps) Accepted, b')" "SB_inv b'"
      "SB_contents b' = keep_last 8 (SB_contents b @ ps)" by auto
  from sb_ring.deq_all [OF b'(2) refl] b' show ?thesis
    by (auto simp: packet_buffer_push_too_large simp del: length_SB_contents)
qed

definition zero_packets :: "static_packet list" where
  "zero_packets = replicate 8 \<lparr>sp_data = replicate 1024 0, sp_size = 0, sp_timestamp = 0\<rparr>"

lemma packet_buffer_init_inv: "SB_inv (packet_buffer_init zero_packets)"
  by (simp add: SB_inv_def packet_buffer_init_def zero_packets_def idx_inv_def list_all_length)

theorem packet_buffer_keeps_latest_witness:
  "\<exists>b'. run_ops SB_enq SB_deq [Push (Packet_new [1] 0)] (packet_buffer_init zero_packets) =
    ([Accepted], b') \<and> SB_contents b' = [Packet_new [1] 0]"
  using packet_buffer_keeps_latest [OF packet_buffer_init_inv, of "[Packet_new [1] 0]"]
  by (auto simp: Packet_new_def SB_contents_def SB_count_def ring_count_def packet_buffer_init_def
      keep_last_def)

end
