(* ===== verification/Lockfree_Ring.thy ===== *)
theory Lockfree_Ring
  imports Prelude
begin

text \<open>
  The broadcast ring of \<open>amazon/emergingDevices/producerConsumer.cpp\<close>: one producer, two consumers with
  a read index each, 64-bit indices that are never reduced, and a buffer of 1024 samples addressed
  by the low ten bits of an index. \<open>produce\<close> is split where the code publishes the new write
  index, so that a consumer can be interleaved between the store and the publication.
\<close>

unbundle bit_operations_syntax

section \<open>The class\<close>

abbreviation BUFFER_SIZE :: nat where "BUFFER_SIZE \<equiv> 1024"
abbreviation NUM_CONSUMERS :: nat where "NUM_CONSUMERS \<equiv> 2"

text \<open>\<open>'f\<close> stands for the values of type \<open>float\<close>.\<close>

record 'f Sample =
  timestamp :: "64 word"
  val :: 'f

record 'f RingBuffer =
  rb_buffer :: "'f Sample list"
  writeIndex :: "64 word"
  readIndex :: "64 word list"

definition RingBuffer_new :: "'f Sample \<Rightarrow> 'f RingBuffer" where
  "RingBuffer_new dflt = \<lparr>rb_buffer = replicate BUFFER_SIZE dflt, writeIndex = 0,
     readIndex = replicate NUM_CONSUMERS 0\<rparr>"

definition slot_of :: "64 word \<Rightarrow> nat" where
  "slot_of idx = unat (idx AND (1024 - 1))"

definition produce_store :: "'f Sample \<Rightarrow> 'f RingBuffer \<Rightarrow> 'f RingBuffer res" where
  "produce_store s rb =
     rbind (arr_set (rb_buffer rb) (slot_of (writeIndex rb)) s) (\<lambda>b. Inr (rb\<lparr>rb_buffer := b\<rparr>))"

definition produce_publish :: "'f RingBuffer \<Rightarrow> 'f RingBuffer" where
  "produce_publish rb = rb\<lparr>writeIndex := writeIndex rb + 1\<rparr>"

definition produce :: "'f Sample \<Rightarrow> 'f RingBuffer \<Rightarrow> 'f RingBuffer res" where
  "produce s rb = rbind (produce_store s rb) (\<lambda>rb. Inr (produce_publish rb))"

text \<open>\<open>consume\<close> returns false (\<open>None\<close>) or true with the sample stored through its reference.\<close>

definition consume :: "nat \<Rightarrow> 'f RingBuffer \<Rightarrow> ('f Sample option \<times> 'f RingBuffer) res" where
  "consume consumerId rb =
     rbind (arr_get (readIndex rb) consumerId) (\<lambda>r.
     let w = writeIndex rb in
     if w \<le> r then Inr (None, rb)
     else
       let r = (if 1024 < w - r then w - 1024 else r) in
       rbind (arr_get (rb_buffer rb) (slot_of r)) (\<lambda>out.
       rbind (arr_set (readIndex rb) consumerId (r + 1)) (\<lambda>ri.
       Inr (Some out, rb\<lparr>readIndex := ri\<rparr>))))"

section \<open>The ring and the history of samples\<close>

lemma unat_of_nat_64: "n < 2 ^ 64 \<Longrightarrow> unat (of_nat n :: 64 word) = n"
  by (simp add: unat_of_nat)

lemma slot_of_mod: "slot_of w = unat w mod BUFFER_SIZE"
proof -
  have "(1024 - 1 :: 64 word) = mask 10" by (simp add: mask_eq_exp_minus_1)
  then have "w AND (1024 - 1) = take_bit 10 w" by (simp only: take_bit_eq_mask)
  then show ?thesis by (simp add: slot_of_def take_bit_eq_mod unat_mod_distrib)
qed

lemma slot_of_less [simp]: "slot_of w < BUFFER_SIZE"
  by (simp add: slot_of_mod)

text \<open>
  \<open>rb_rep rb h\<close>: the ring has been given the samples \<open>h\<close>, in order; the last 1024 of them are in their
  slots.
\<close>

definition rb_rep :: "'f RingBuffer \<Rightarrow> 'f Sample list \<Rightarrow> bool" where
  "rb_rep rb h \<longleftrightarrow> length (rb_buffer rb) = BUFFER_SIZE \<and> length (readIndex rb) = NUM_CONSUMERS \<and>
     unat (writeIndex rb) = length h \<and>
     (\<forall>i < length h. length h \<le> i + BUFFER_SIZE \<longrightarrow> rb_buffer rb ! (i mod BUFFER_SIZE) = h ! i)"

lemma rb_rep_new: "rb_rep (RingBuffer_new d) []"
  by (simp add: rb_rep_def RingBuffer_new_def)

lemma rb_rep_produce:
  assumes "rb_rep rb h" and "Suc (length h) < 2 ^ 64"
  shows "\<exists>rb'. produce s rb = Inr rb' \<and> rb_rep rb' (h @ [s]) \<and> readIndex rb' = readIndex rb"
proof -
  let ?n = "length h"
  let ?rb' = "rb\<lparr>rb_buffer := (rb_buffer rb)[?n mod BUFFER_SIZE := s], writeIndex := writeIndex rb + 1\<rparr>"
  have w: "unat (writeIndex rb) = ?n" and lb: "length (rb_buffer rb) = BUFFER_SIZE"
    using assms(1) by (simp_all add: rb_rep_def)
  have w': "unat (writeIndex rb + 1) = Suc ?n" using w assms(2) by (simp add: unat_word_ariths)
  have ne: "i mod BUFFER_SIZE \<noteq> ?n mod BUFFER_SIZE" if "i < ?n" "Suc ?n \<le> i + BUFFER_SIZE" for i
    using that ring_index_neq [of 0 "?n - i" BUFFER_SIZE i] by simp
  have "rb_rep ?rb' (h @ [s])"
    unfolding rb_rep_def
  proof (intro conjI allI impI)
    fix i assume i: "i < length (h @ [s])" "length (h @ [s]) \<le> i + BUFFER_SIZE"
    show "rb_buffer ?rb' ! (i mod BUFFER_SIZE) = (h @ [s]) ! i"
    proof (cases "i = ?n")
      case False
      with i have "rb_buffer rb ! (i mod BUFFER_SIZE) = h ! i"
        using assms(1) by (simp add: rb_rep_def)
      with False i ne [of i] show ?thesis by (simp add: nth_append nth_list_update lb)
    qed (simp add: lb)
  qed (use assms w w' in \<open>simp_all add: rb_rep_def\<close>)
  moreover have "produce s rb = Inr ?rb'"
    using w lb by (simp add: produce_def produce_store_def produce_publish_def slot_of_mod)
  ultimately show ?thesis by auto
qed

text \<open>Where \<open>consume\<close> reads, in a ring whose write index is \<open>n\<close>.\<close>

definition read_pos :: "nat \<Rightarrow> nat \<Rightarrow> nat" where
  "read_pos n r = (if BUFFER_SIZE < n - r then n - BUFFER_SIZE else r)"

lemma consume_reads:
  assumes lb: "length (rb_buffer rb) = BUFFER_SIZE" and lr: "cid < length (readIndex rb)"
    and n: "unat (writeIndex rb) = n" and r: "unat (readIndex rb ! cid) = r"
  shows "consume cid rb =
    (if n \<le> r then Inr (None, rb)
     else Inr (Some (rb_buffer rb ! (read_pos n r mod BUFFER_SIZE)),
       rb\<lparr>readIndex := (readIndex rb)[cid := of_nat (Suc (read_pos n r))]\<rparr>))"
proof (cases "n \<le> r")
  case True
  then show ?thesis using lr n r by (simp add: consume_def word_le_nat_alt)
next
  case False
  let ?w = "writeIndex rb" and ?r = "readIndex rb ! cid"
  let ?k = "if 1024 < ?w - ?r then ?w - 1024 else ?r"
  have lt: "?r \<le> ?w" using False n r by (simp add: word_le_nat_alt)
  have "unat (?w - ?r) = n - r" using unat_sub [OF lt] n r by simp
  then have big: "1024 < ?w - ?r \<longleftrightarrow> BUFFER_SIZE < n - r" by (simp add: word_less_nat_alt)
  have k: "unat ?k = read_pos n r"
  proof (cases "BUFFER_SIZE < n - r")
    case True
    then have "(1024 :: 64 word) \<le> ?w" using n by (simp add: word_le_nat_alt)
    then show ?thesis using True big n by (simp add: unat_sub read_pos_def)
  qed (use big r in \<open>simp add: read_pos_def\<close>)
  have "?k + 1 = of_nat (Suc (read_pos n r))" 
    using k by (metis of_nat_Suc add.commute ucast_id of_nat_unat)
  with False k lt lr lb n r show ?thesis
    by (simp add: consume_def word_le_nat_alt slot_of_mod Let_def add.commute)
qed

section \<open>Properties\<close>

text \<open>
  While calls do not overlap, a consumer receives exactly the sample its read index asks
  for, or, if it has fallen more than 1024 samples behind, the oldest sample that is still in the ring;
  its read index moves just past that sample, the other consumer's index and the ring are
  untouched, and a consumer that has read everything gets false. No access leaves the arrays.
\<close>

theorem consume_returns_history:
  assumes "rb_rep rb h" and "length h < 2 ^ 64" and "cid < NUM_CONSUMERS"
    and "r = unat (readIndex rb ! cid)"
  shows "(length h \<le> r \<longrightarrow> consume cid rb = Inr (None, rb)) \<and>
    (r < length h \<longrightarrow> (\<exists>rb'. consume cid rb = Inr (Some (h ! max r (length h - BUFFER_SIZE)), rb') \<and>
       rb_rep rb' h \<and> unat (readIndex rb' ! cid) = Suc (max r (length h - BUFFER_SIZE)) \<and>
       (\<forall>j. j \<noteq> cid \<longrightarrow> readIndex rb' ! j = readIndex rb ! j)))"
proof -
  let ?n = "length h" and ?k = "max r (length h - BUFFER_SIZE)"
  have base: "length (rb_buffer rb) = BUFFER_SIZE" "cid < length (readIndex rb)"
      "unat (writeIndex rb) = ?n"
    using assms(1,3) by (simp_all add: rb_rep_def)
  have pos: "read_pos ?n r = ?k" if "r < ?n" using that by (auto simp: read_pos_def max_def)
  have val: "rb_buffer rb ! (?k mod BUFFER_SIZE) = h ! ?k" if "r < ?n"
    using assms(1) that by (simp add: rb_rep_def max_def)
  have "unat (of_nat (Suc ?k) :: 64 word) = Suc ?k" if "r < ?n"
    using that assms(2) by (intro unat_of_nat_64) (auto simp: max_def)
  with base pos val assms(1) show ?thesis
    using consume_reads [OF base assms(4) [symmetric]]
    by (auto simp: rb_rep_def nth_list_update)
qed

theorem consume_returns_history_witness:
  "\<exists>rb'. consume 0 \<lparr>rb_buffer = replicate 1024 \<lparr>timestamp = 7, val = ()\<rparr>, writeIndex = 2000,
      readIndex = [0, 5]\<rparr> = Inr (Some \<lparr>timestamp = 7, val = ()\<rparr>, rb') \<and>
    unat (readIndex rb' ! 0) = 977 \<and> readIndex rb' ! 1 = 5"
proof -
  let ?s = "\<lparr>timestamp = 7, val = ()\<rparr>"
  let ?rb = "\<lparr>rb_buffer = replicate 1024 ?s, writeIndex = 2000, readIndex = [0, 5]\<rparr>"
  have "rb_rep ?rb (replicate 2000 ?s)" by (simp add: rb_rep_def)
  from consume_returns_history [OF this, of 0 0] show ?thesis by auto
qed

text \<open>
  The overrun race: between the producer's store of sample number \<open>n\<close> and the
  publication of its index, a consumer that is 1024 or more samples behind passes the overrun test
  and is handed the unpublished sample, not the sample of the index it asks for. The next samples it
  reads are older again, so it sees time run backwards.
\<close>

theorem consume_overrun_race:
  assumes "rb_rep rb h" and "length h < 2 ^ 64" and "cid < NUM_CONSUMERS"
    and "unat (readIndex rb ! cid) + BUFFER_SIZE \<le> length h"
  shows "\<exists>rb1 rb2. produce_store s rb = Inr rb1 \<and> consume cid rb1 = Inr (Some s, rb2) \<and>
    unat (readIndex rb2 ! cid) = Suc (length h - BUFFER_SIZE)"
proof -
  let ?n = "length h" and ?r = "unat (readIndex rb ! cid)"
  let ?rb1 = "rb\<lparr>rb_buffer := (rb_buffer rb)[?n mod BUFFER_SIZE := s]\<rparr>"
  have base: "length (rb_buffer rb) = BUFFER_SIZE" "cid < length (readIndex rb)"
      "unat (writeIndex rb) = ?n"
    using assms(1,3) by (simp_all add: rb_rep_def)
  have store: "produce_store s rb = Inr ?rb1"
    using base by (simp add: produce_store_def slot_of_mod)
  have pos: "read_pos ?n ?r = ?n - BUFFER_SIZE" using assms(4) by (auto simp: read_pos_def)
  have slot: "(?n - BUFFER_SIZE) mod BUFFER_SIZE = ?n mod BUFFER_SIZE"
    using assms(4) by (simp add: le_mod_geq)
  have idx: "unat (of_nat (Suc (?n - BUFFER_SIZE)) :: 64 word) = Suc (?n - BUFFER_SIZE)"
    using assms(2,4) by (intro unat_of_nat_64) simp
  have "consume cid ?rb1 = Inr (Some s,
      ?rb1\<lparr>readIndex := (readIndex ?rb1)[cid := of_nat (Suc (?n - BUFFER_SIZE))]\<rparr>)"
    using consume_reads [of ?rb1 cid ?n ?r] base pos slot assms(4) by simp
  with store idx base(2) show ?thesis by auto
qed

theorem consume_overrun_race_witness:
  "\<exists>rb rb1 rb2. rb_rep rb (replicate 1024 \<lparr>timestamp = 0, val = False\<rparr>) \<and>
    produce_store \<lparr>timestamp = 1024, val = True\<rparr> rb = Inr rb1 \<and>
    consume 0 rb1 = Inr (Some \<lparr>timestamp = 1024, val = True\<rparr>, rb2)"
proof -
  let ?s = "\<lparr>timestamp = 0, val = False\<rparr>"
  let ?rb = "\<lparr>rb_buffer = replicate 1024 ?s, writeIndex = 1024, readIndex = replicate 2 0\<rparr>"
  have "rb_rep ?rb (replicate 1024 ?s)" by (simp add: rb_rep_def)
  with consume_overrun_race [of ?rb "replicate 1024 ?s" 0 "\<lparr>timestamp = 1024, val = True\<rparr>"]
  show ?thesis by auto
qed

end
