(* ===== verification/Array_Containers.thy ===== *)
theory Array_Containers
  imports Queue_Interfaces
begin

text \<open>
  The array containers: the linear queue of \<open>queue/queue.c\<close>, the vector stack of
  \<open>stack/stack.cpp\<close> and the fixed array stack of \<open>stack/stack.c\<close>. C arrays are lists whose accesses
  are checked; what \<open>malloc\<close> leaves in a fresh array is the argument \<open>junk\<close>. An \<open>int\<close> index is an
  \<open>int\<close>, with \<open>-1\<close> for an empty container, as in the code.
\<close>

section \<open>The linear queue (\<open>queue/queue.c\<close>)\<close>

record queue_t =
  q_queue :: "int list"
  q_front :: int
  q_rear :: int
  q_capacity :: int

definition queue_front :: "queue_t \<Rightarrow> int res" where
  "queue_front q = (if q_front q = -1 then Inr (-1) else arr_geti (q_queue q) (q_front q))"

definition queue_rear :: "queue_t \<Rightarrow> int res" where
  "queue_rear q = (if q_rear q = -1 then Inr (-1) else arr_geti (q_queue q) (q_rear q))"

definition queue_isFull :: "queue_t \<Rightarrow> bool" where
  "queue_isFull q \<longleftrightarrow> q_capacity q = q_rear q + 1"

definition queue_isEmpty :: "queue_t \<Rightarrow> bool" where
  "queue_isEmpty q \<longleftrightarrow> q_front q = -1"

definition queueInit :: "int list \<Rightarrow> queue_t" where
  "queueInit junk = \<lparr>q_queue = junk, q_front = -1, q_rear = -1, q_capacity = int (length junk)\<rparr>"

text \<open>The result is the code's return value and the queue it leaves.\<close>

definition queue_enqueue :: "queue_t \<Rightarrow> int \<Rightarrow> (int \<times> queue_t) res" where
  "queue_enqueue q val =
     (if queue_isFull q then Inr (-1, q)
      else
        let q = (if q_front q = -1 then q\<lparr>q_front := 0\<rparr> else q);
            q = q\<lparr>q_rear := q_rear q + 1\<rparr> in
        rbind (arr_seti (q_queue q) (q_rear q) val) (\<lambda>a. Inr (0, q\<lparr>q_queue := a\<rparr>)))"

definition queue_dequeue :: "queue_t \<Rightarrow> (int \<times> queue_t) res" where
  "queue_dequeue q =
     (if queue_isEmpty q then Inr (-1, q)
      else rbind (arr_geti (q_queue q) (q_front q)) (\<lambda>v.
        Inr (v, if q_front q = q_rear q then q\<lparr>q_front := -1, q_rear := -1\<rparr>
                else q\<lparr>q_front := q_front q + 1\<rparr>)))"

fun queue_enqueue_all :: "queue_t \<Rightarrow> int list \<Rightarrow> queue_t res" where
  "queue_enqueue_all q [] = Inr q"
| "queue_enqueue_all q (v # vs) = rbind (queue_enqueue q v) (\<lambda>(_, q). queue_enqueue_all q vs)"

fun queue_dequeue_n :: "nat \<Rightarrow> queue_t \<Rightarrow> int list res" where
  "queue_dequeue_n 0 q = Inr []"
| "queue_dequeue_n (Suc n) q = rbind (queue_dequeue q) (\<lambda>(v, q).
     rbind (queue_dequeue_n n q) (\<lambda>vs. Inr (v # vs)))"

text \<open>\<open>main\<close>: the numbers it prints.\<close>

definition queue_main :: "int list \<Rightarrow> int list res" where
  "queue_main junk = rbind (queue_enqueue_all (queueInit junk) [1, 2, 3, 4, 5]) (queue_dequeue_n 5)"

text \<open>The invariant, and the values in the queue from front to rear.\<close>

definition queue_inv :: "queue_t \<Rightarrow> bool" where
  "queue_inv q \<longleftrightarrow> q_capacity q = int (length (q_queue q)) \<and>
     (q_front q = -1 \<and> q_rear q = -1 \<or>
      0 \<le> q_front q \<and> q_front q \<le> q_rear q \<and> q_rear q < q_capacity q)"

definition queue_contents :: "queue_t \<Rightarrow> int list" where
  "queue_contents q = (if q_front q = -1 then []
     else take (nat (q_rear q - q_front q + 1)) (drop (nat (q_front q)) (q_queue q)))"

definition queue_room :: "queue_t \<Rightarrow> bool" where
  "queue_room q \<longleftrightarrow> q_rear q + 1 < q_capacity q"

lemma queueInit_inv: "queue_inv (queueInit junk)" "queue_contents (queueInit junk) = []"
  by (simp_all add: queueInit_def queue_inv_def queue_contents_def)

lemma take_Suc_update:
  assumes "n < length xs"
  shows "take (Suc n) (xs[n := v]) = take n xs @ [v]"
  using assms by (simp add: take_Suc_conv_app_nth)

lemma queue_enqueue_room:
  assumes inv: "queue_inv q" and room: "queue_room q"
  shows "\<exists>q'. queue_enqueue q v = Inr (0, q') \<and> queue_inv q' \<and>
    queue_contents q' = queue_contents q @ [v]"
proof (cases "q_front q = -1")
  case True
  with inv room show ?thesis
    by (auto simp: queue_inv_def queue_room_def queue_enqueue_def queue_isFull_def queue_contents_def
        take_Suc_conv_app_nth)
next
  case False
  define f r where "f = nat (q_front q)" and "r = nat (q_rear q)"
  have fr: "q_front q = int f" "q_rear q = int r" "f \<le> r" "Suc r < length (q_queue q)"
    using inv room False by (auto simp: queue_inv_def queue_room_def f_def r_def)
  let ?q' = "q\<lparr>q_rear := int (Suc r), q_queue := (q_queue q)[Suc r := v]\<rparr>"
  have "take (Suc (Suc r - f)) (drop f ((q_queue q)[Suc r := v])) =
      take (Suc r - f) (drop f (q_queue q)) @ [v]"
    using fr take_Suc_update [of "Suc r - f" "drop f (q_queue q)" v]
    by (simp add: drop_update_swap)
  moreover have "nat (int (Suc r) - int f + 1) = Suc (Suc r - f)" "nat (int r - int f + 1) = Suc r - f"
    using fr by auto
  ultimately have "queue_contents ?q' = queue_contents q @ [v]"
    using fr by (simp add: queue_contents_def)
  moreover have "queue_enqueue q v = Inr (0, ?q')"
    using inv fr by (simp add: queue_enqueue_def queue_isFull_def queue_inv_def Let_def add.commute
        nat_add_distrib arr_seti_def)
  moreover have "queue_inv ?q'" using inv fr by (simp add: queue_inv_def)
  ultimately show ?thesis by blast
qed

lemma queue_enqueue_full:
  assumes "queue_inv q" and "\<not> queue_room q"
  shows "queue_enqueue q v = Inr (-1, q)"
  using assms by (auto simp: queue_inv_def queue_room_def queue_enqueue_def queue_isFull_def)

lemma queue_contents_empty_iff: "queue_inv q \<Longrightarrow> queue_contents q = [] \<longleftrightarrow> q_front q = -1"
  by (auto simp: queue_inv_def queue_contents_def)

lemma queue_dequeue_empty:
  assumes "queue_inv q" and "queue_contents q = []"
  shows "queue_dequeue q = Inr (-1, q)"
  using assms by (simp add: queue_dequeue_def queue_isEmpty_def queue_contents_empty_iff)

lemma queue_dequeue_front:
  assumes inv: "queue_inv q" and c: "queue_contents q = x # xs"
  shows "\<exists>q'. queue_dequeue q = Inr (x, q') \<and> queue_inv q' \<and> queue_contents q' = xs"
proof -
  define f r where "f = nat (q_front q)" and "r = nat (q_rear q)"
  have ne: "q_front q \<noteq> -1" using c queue_contents_empty_iff [OF inv] by auto
  then have fr: "q_front q = int f" "q_rear q = int r" "f \<le> r" "r < length (q_queue q)"
    using inv by (auto simp: queue_inv_def f_def r_def)
  have "nat (int r - int f + 1) = Suc (r - f)" using fr by auto
  moreover have "drop f (q_queue q) = q_queue q ! f # drop (Suc f) (q_queue q)"
    using fr by (simp add: Cons_nth_drop_Suc)
  ultimately have xs: "x = q_queue q ! f" "xs = take (r - f) (drop (Suc f) (q_queue q))"
    using c ne fr by (auto simp: queue_contents_def)
  let ?q' = "if f = r then q\<lparr>q_front := -1, q_rear := -1\<rparr> else q\<lparr>q_front := int f + 1\<rparr>"
  have "queue_dequeue q = Inr (x, ?q')"
    using ne fr xs by (simp add: queue_dequeue_def queue_isEmpty_def)
  moreover have "queue_inv ?q'" using inv fr by (simp add: queue_inv_def)
  moreover have "queue_contents ?q' = xs"
    using fr xs by (auto simp: queue_contents_def nat_add_distrib nat_diff_distrib Suc_diff_Suc)
  ultimately show ?thesis by blast
qed

lemmas queue_laws = queue_enqueue_room queue_enqueue_full queue_dequeue_empty queue_dequeue_front

text \<open>An enqueue that reports \<open>-1\<close> refuses the value; a dequeue of the empty queue answers \<open>-1\<close>.\<close>

definition queue_push :: "queue_t \<Rightarrow> int \<Rightarrow> queue_t option" where
  "queue_push q v = (case queue_enqueue q v of Inr (r, q') \<Rightarrow> if r = 0 then Some q' else None | _ \<Rightarrow> None)"

definition queue_pop :: "queue_t \<Rightarrow> (int \<times> queue_t) option" where
  "queue_pop q = ok_of (queue_dequeue q)"

interpretation linear_queue: fifo queue_push queue_pop queue_contents queue_inv queue_room "Some (-1)"
proof unfold_locales
  show "queue_inv s \<Longrightarrow> queue_room s \<Longrightarrow>
      \<exists>s'. queue_push s x = Some s' \<and> queue_inv s' \<and> queue_contents s' = queue_contents s @ [x]" for s x
    using queue_enqueue_room [of s x] by (auto simp: queue_push_def)
  show "queue_inv s \<Longrightarrow> \<not> queue_room s \<Longrightarrow> queue_push s x = None" for s x
    using queue_enqueue_full [of s x] by (simp add: queue_push_def)
  show "queue_inv s \<Longrightarrow> queue_contents s = [] \<Longrightarrow> queue_pop s = map_option (\<lambda>d. (d, s)) (Some (-1))" for s
    by (simp add: queue_pop_def queue_dequeue_empty)
  show "queue_inv s \<Longrightarrow> queue_contents s = x # xs \<Longrightarrow>
      \<exists>s'. queue_pop s = Some (x, s') \<and> queue_inv s' \<and> queue_contents s' = xs" for s x xs
    using queue_dequeue_front [of s x xs] by (auto simp: queue_pop_def)
qed

section \<open>The vector stack (\<open>stack/stack.cpp\<close>)\<close>

record Stack =
  st_stack :: "int list"
  st_top :: int

definition Stack_new :: Stack where
  "Stack_new = \<lparr>st_stack = [], st_top = -1\<rparr>"

definition Stack_isEmpty :: "Stack \<Rightarrow> bool" where
  "Stack_isEmpty s \<longleftrightarrow> st_top s = -1"

definition Stack_push :: "Stack \<Rightarrow> int \<Rightarrow> Stack res" where
  "Stack_push s val = rbind (chk32 (st_top s + 1)) (\<lambda>top. Inr (s\<lparr>st_stack := st_stack s @ [val], st_top := top\<rparr>))"

text \<open>\<open>pop_back\<close> on an empty vector is undefined; \<open>butlast\<close> is only reached after the checked access.\<close>

definition Stack_pop :: "Stack \<Rightarrow> (int \<times> Stack) res" where
  "Stack_pop s =
     (if Stack_isEmpty s then Inr (-1, s)
      else rbind (arr_geti (st_stack s) (st_top s)) (\<lambda>val.
        Inr (val, s\<lparr>st_top := st_top s - 1, st_stack := butlast (st_stack s)\<rparr>)))"

fun Stack_pop_n :: "nat \<Rightarrow> Stack \<Rightarrow> int list res" where
  "Stack_pop_n 0 s = Inr []"
| "Stack_pop_n (Suc n) s = rbind (Stack_pop s) (\<lambda>(v, s).
     rbind (Stack_pop_n n s) (\<lambda>vs. Inr (v # vs)))"

definition stack_cpp_main :: "int list res" where
  "stack_cpp_main = rbind (Stack_push Stack_new 10) (\<lambda>s. rbind (Stack_push s 20) (\<lambda>s. rbind (Stack_push s 30) (Stack_pop_n 4)))"

definition Stack_inv :: "Stack \<Rightarrow> bool" where
  "Stack_inv s \<longleftrightarrow> st_top s = int (length (st_stack s)) - 1"

definition Stack_contents :: "Stack \<Rightarrow> int list" where
  "Stack_contents s = rev (st_stack s)"

definition Stack_push_op :: "Stack \<Rightarrow> int \<Rightarrow> Stack option" where
  "Stack_push_op s v = ok_of (Stack_push s v)"

definition Stack_pop_op :: "Stack \<Rightarrow> (int \<times> Stack) option" where
  "Stack_pop_op s = ok_of (Stack_pop s)"

lemma Stack_pop_top:
  assumes "Stack_inv s" and "Stack_contents s = x # xs"
  shows "\<exists>s'. Stack_pop s = Inr (x, s') \<and> Stack_inv s' \<and> Stack_contents s' = xs"
proof -
  from assms(2) have "st_stack s = rev xs @ [x]" by (simp add: Stack_contents_def rev_eq_Cons_iff)
  with assms(1) show ?thesis
    by (simp add: Stack_inv_def Stack_contents_def Stack_pop_def Stack_isEmpty_def arr_geti_def nth_append)
qed

text \<open>The index of the top is an \<open>int\<close>, so the stack is good for \<open>2 ^ 31\<close> values.\<close>

interpretation vector_stack: lifo Stack_push_op Stack_pop_op Stack_contents Stack_inv "Some (-1)" "Some (2 ^ 31)"
proof unfold_locales
  show "Stack_inv s \<Longrightarrow> has_room (Some (2 ^ 31)) (length (Stack_contents s)) \<Longrightarrow> \<exists>s'. Stack_push_op s x = Some s' \<and> Stack_inv s' \<and>
      Stack_contents s' = x # Stack_contents s" for s x
    by (simp add: Stack_push_op_def Stack_push_def Stack_inv_def Stack_contents_def has_room_def)
  show "Stack_inv s \<Longrightarrow> Stack_contents s = [] \<Longrightarrow> Stack_pop_op s = map_option (\<lambda>d. (d, s)) (Some (-1))" for s
    by (simp add: Stack_pop_op_def Stack_pop_def Stack_isEmpty_def Stack_inv_def Stack_contents_def)
  show "Stack_inv s \<Longrightarrow> Stack_contents s = x # xs \<Longrightarrow>
      \<exists>s'. Stack_pop_op s = Some (x, s') \<and> Stack_inv s' \<and> Stack_contents s' = xs" for s x xs
    using Stack_pop_top [of s x xs] by (auto simp: Stack_pop_op_def)
qed

section \<open>The array stack (\<open>stack/stack.c\<close>)\<close>

record stack_t =
  sc_stack :: "int list"
  sc_top :: int
  sc_capacity :: int

definition stackInit :: "int list \<Rightarrow> stack_t" where
  "stackInit junk = \<lparr>sc_stack = junk, sc_top = -1, sc_capacity = int (length junk)\<rparr>"

definition stack_isFull :: "stack_t \<Rightarrow> bool" where
  "stack_isFull s \<longleftrightarrow> sc_capacity s = sc_top s"

definition stack_push :: "stack_t \<Rightarrow> int \<Rightarrow> (int \<times> stack_t) res" where
  "stack_push s val =
     (if stack_isFull s then Inr (-1, s)
      else
        rbind (chk32 (sc_top s + 1)) (\<lambda>top. let s = s\<lparr>sc_top := top\<rparr> in
        rbind (arr_seti (sc_stack s) (sc_top s) val) (\<lambda>a.
        rbind (chk32 (sc_capacity s + 1)) (\<lambda>capacity.
        Inr (0, s\<lparr>sc_stack := a, sc_capacity := capacity\<rparr>)))))"

definition stack_isEmpty :: "stack_t \<Rightarrow> bool" where
  "stack_isEmpty s \<longleftrightarrow> sc_top s = -1"

definition stack_pop :: "stack_t \<Rightarrow> (int \<times> stack_t) res" where
  "stack_pop s =
     (if stack_isEmpty s then Inr (-1, s)
      else rbind (arr_geti (sc_stack s) (sc_top s)) (\<lambda>v.
        rbind (chk32 (sc_top s - 1)) (\<lambda>top.
        rbind (chk32 (sc_capacity s - 1)) (\<lambda>capacity.
        Inr (v, s\<lparr>sc_top := top, sc_capacity := capacity\<rparr>)))))"

fun stack_push_all :: "stack_t \<Rightarrow> int list \<Rightarrow> stack_t res" where
  "stack_push_all s [] = Inr s"
| "stack_push_all s (v # vs) = rbind (stack_push s v) (\<lambda>(_, s). stack_push_all s vs)"

fun stack_pop_n :: "nat \<Rightarrow> stack_t \<Rightarrow> int list res" where
  "stack_pop_n 0 s = Inr []"
| "stack_pop_n (Suc n) s = rbind (stack_pop s) (\<lambda>(v, s).
     rbind (stack_pop_n n s) (\<lambda>vs. Inr (v # vs)))"

definition stack_c_main :: "int list \<Rightarrow> int list res" where
  "stack_c_main junk = rbind (stack_push_all (stackInit junk) [1, 2, 3, 4, 5]) (stack_pop_n 6)"

text \<open>
  The capacity field moves with the top, so their distance never changes; the array itself has
  room for \<open>n\<close> values. The capacity of a stack that holds \<open>n\<close> values has been raised to \<open>2 * n\<close>, which has to be an \<open>int\<close>.
\<close>

definition stack_rep :: "nat \<Rightarrow> stack_t \<Rightarrow> int list \<Rightarrow> bool" where
  "stack_rep n s vs \<longleftrightarrow> 2 * int n \<le> INT_MAX \<and> length (sc_stack s) = n \<and> length vs \<le> n \<and>
     sc_top s = int (length vs) - 1 \<and> sc_capacity s = int n + int (length vs) \<and>
     take (length vs) (sc_stack s) = rev vs"

lemma stack_rep_init: "2 * int (length junk) \<le> INT_MAX \<Longrightarrow> stack_rep (length junk) (stackInit junk) []"
  by (simp add: stack_rep_def stackInit_def)

lemma stack_rep_push:
  assumes "stack_rep n s vs"
  shows "stack_push s v = (if length vs < n then Inr (0, s\<lparr>sc_top := sc_top s + 1,
      sc_stack := (sc_stack s)[length vs := v], sc_capacity := sc_capacity s + 1\<rparr>) else Inl OutOfBounds)"
  using assms by (auto simp: stack_rep_def stack_push_def stack_isFull_def arr_seti_def Let_def)

lemma stack_rep_pushed:
  assumes "stack_rep n s vs" and "length vs < n"
  shows "\<exists>s'. stack_push s v = Inr (0, s') \<and> stack_rep n s' (v # vs)"
  using stack_rep_push [OF assms(1), of v] assms
  by (auto simp: stack_rep_def take_Suc_update)

lemma stack_rep_pop:
  assumes "stack_rep n s (v # vs)"
  shows "\<exists>s'. stack_pop s = Inr (v, s') \<and> stack_rep n s' vs"
proof -
  from assms have len: "length vs < length (sc_stack s)" by (simp add: stack_rep_def)
  with assms have "take (length vs) (sc_stack s) = rev vs" "sc_stack s ! length vs = v"
    by (auto simp: stack_rep_def take_Suc_conv_app_nth)
  with assms len show ?thesis
    by (auto simp: stack_rep_def stack_pop_def stack_isEmpty_def arr_geti_def)
qed

lemma stack_rep_push_all:
  assumes "stack_rep n s vs" and "length vs + length ws \<le> n"
  shows "\<exists>s'. stack_push_all s ws = Inr s' \<and> stack_rep n s' (rev ws @ vs)"
  using assms
proof (induction ws arbitrary: s vs)
  case (Cons w ws)
  then obtain t where t: "stack_push s w = Inr (0, t)" "stack_rep n t (w # vs)"
    using stack_rep_pushed [of n s vs w] by auto
  with Cons.IH [OF t(2)] Cons.prems(2) show ?case by auto
qed simp

lemma stack_rep_pop_n:
  assumes "stack_rep n s vs"
  shows "stack_pop_n (Suc (length vs)) s = Inr (vs @ [-1])"
  using assms
proof (induction vs arbitrary: s)
  case Nil
  then show ?case by (simp add: stack_rep_def stack_pop_def stack_isEmpty_def)
next
  case (Cons v vs)
  from stack_rep_pop [OF Cons.prems] obtain t where "stack_pop s = Inr (v, t)" "stack_rep n t vs" by blast
  with Cons.IH [of t] show ?case by simp
qed

definition sc_contents :: "stack_t \<Rightarrow> int list" where
  "sc_contents s = rev (take (nat (sc_top s + 1)) (sc_stack s))"

definition stack_push_op :: "stack_t \<Rightarrow> int \<Rightarrow> stack_t option" where
  "stack_push_op s v = (case stack_push s v of Inr (r, s') \<Rightarrow> if r = 0 then Some s' else None | Inl _ \<Rightarrow> None)"

definition stack_pop_op :: "stack_t \<Rightarrow> (int \<times> stack_t) option" where
  "stack_pop_op s = ok_of (stack_pop s)"

lemma stack_rep_contents: "stack_rep n s vs \<Longrightarrow> sc_contents s = vs"
  by (simp add: stack_rep_def sc_contents_def)

interpretation array_stack: lifo stack_push_op stack_pop_op sc_contents "\<lambda>s. stack_rep n s (sc_contents s)" "Some (-1)" "Some n" for n
proof unfold_locales
  show "\<exists>s'. stack_push_op s x = Some s' \<and> stack_rep n s' (sc_contents s') \<and> sc_contents s' = x # sc_contents s"
    if "stack_rep n s (sc_contents s)" "has_room (Some n) (length (sc_contents s))" for s x
  proof -
    from stack_rep_pushed [OF that(1), of x] that(2) obtain t where
      t: "stack_push s x = Inr (0, t)" "stack_rep n t (x # sc_contents s)" by (auto simp: has_room_def)
    then show ?thesis using stack_rep_contents [OF t(2)] by (simp add: stack_push_op_def)
  qed
  show "stack_pop_op s = map_option (\<lambda>d. (d, s)) (Some (-1))" if "stack_rep n s (sc_contents s)" "sc_contents s = []" for s
    using that by (simp add: stack_pop_op_def stack_pop_def stack_isEmpty_def stack_rep_def)
  show "\<exists>s'. stack_pop_op s = Some (x, s') \<and> stack_rep n s' (sc_contents s') \<and> sc_contents s' = xs"
    if "stack_rep n s (sc_contents s)" "sc_contents s = x # xs" for s x xs
  proof -
    from stack_rep_pop [of n s x xs] that obtain t where t: "stack_pop s = Inr (x, t)" "stack_rep n t xs" by auto
    then show ?thesis using stack_rep_contents [OF t(2)] by (simp add: stack_pop_op_def)
  qed
qed

section \<open>Properties\<close>

text \<open>
  Whatever calls are made on a fresh linear queue, the values whose enqueue succeeded
  are dequeued in that order, none lost or invented, and no call leaves the array.
\<close>

theorem linear_queue_fifo:
  assumes "run_ops queue_push queue_pop ops (queueInit junk) = (outs, q)"
  shows "accepted ops outs = served 0 ops outs @ queue_contents q \<and> is_ok (queue_enqueue q v) \<and>
    is_ok (queue_dequeue q) \<and> is_ok (queue_front q) \<and> is_ok (queue_rear q)"
proof -
  have q: "queue_inv q" "accepted ops outs = served 0 ops outs @ queue_contents q"
    using linear_queue.conservation [OF queueInit_inv(1) assms] queueInit_inv(2) by simp_all
  have "is_ok (queue_enqueue q v)" using q(1) queue_enqueue_room queue_enqueue_full by (metis is_ok_iff)
  moreover have "is_ok (queue_dequeue q)"
    using q(1) queue_dequeue_empty queue_dequeue_front by (metis is_ok_iff neq_Nil_conv)
  moreover have "is_ok (queue_front q)" "is_ok (queue_rear q)"
    using q(1) by (auto simp: queue_front_def queue_rear_def queue_inv_def)
  ultimately show ?thesis using q(2) by simp
qed

theorem linear_queue_fifo_witness:
  "accepted [Push 7, Push 8, Push 9, Pop, Push 5, Pop, Pop, Push 6]
     [Accepted, Accepted, Rejected, Got 7, Rejected, Got 8, Got (-1), Accepted] = [7, 8, 6 :: int]"
  using linear_queue_fifo [of "[Push 7, Push 8, Push 9, Pop, Push 5, Pop, Pop, Push 6]" "[0, 0]"
      "[Accepted, Accepted, Rejected, Got 7, Rejected, Got 8, Got (-1), Accepted]"
      "\<lparr>q_queue = [6, 8], q_front = 0, q_rear = 0, q_capacity = 2\<rparr>" 0]
  by (simp add: queue_push_def queue_pop_def queue_isEmpty_def queue_enqueue_def queue_dequeue_def
      queue_isFull_def queueInit_def queue_contents_def arr_seti_def arr_geti_def)

text \<open>The vector stack answers every sequence of calls that stores at most \<open>2 ^ 31\<close> values at a time as a list used as a stack does.\<close>

theorem Stack_refines_list:
  assumes "most_stored 0 ops \<le> 2 ^ 31"
  shows "fst (run_ops Stack_push_op Stack_pop_op ops Stack_new) = fst (run_ops list_cons (list_pop (Some (-1))) ops [])"
  using vector_stack.stack_refines_list [of Stack_new ops] assms unfolding within_def
  by (simp add: Stack_inv_def Stack_contents_def Stack_new_def apsnd_def)

text \<open>
  Claim C38. The array stack, whose capacity \<open>n\<close> is such that \<open>2 * n\<close> is an \<open>int\<close>, returns \<open>n\<close> pushed values in reverse order and then answers
  \<open>-1\<close>, but its fullness test never fires, because \<open>push\<close> raises the capacity together with the top: one
  more push writes past the end of the array.
\<close>

theorem stack_c_overflow:
  assumes "length vs = length junk" and "2 * int (length junk) \<le> INT_MAX"
  shows "\<exists>s. stack_push_all (stackInit junk) vs = Inr s \<and> stack_pop_n (Suc (length vs)) s = Inr (rev vs @ [-1]) \<and>
    \<not> stack_isFull s \<and> stack_push s v = Inl OutOfBounds"
proof -
  from stack_rep_push_all [OF stack_rep_init [OF assms(2)], of vs] assms obtain s where
    s: "stack_push_all (stackInit junk) vs = Inr s" "stack_rep (length junk) s (rev vs)" by auto
  from stack_rep_pop_n [OF s(2)] stack_rep_push [OF s(2), of v] s assms show ?thesis
    by (auto simp: stack_rep_def stack_isFull_def)
qed

theorem stack_c_overflow_witness:
  "\<exists>s. stack_push_all (stackInit [0, 0]) [1, 2] = Inr s \<and> stack_pop_n 3 s = Inr [2, 1, -1] \<and> stack_push s 3 = Inl OutOfBounds"
  using stack_c_overflow [of "[1, 2]" "[0, 0]" 3] by (auto simp: numeral_3_eq_3)

lemma array_mains:
  "queue_main [0, 0, 0, 0] = Inr [1, 2, 3, 4, -1]"
  "stack_cpp_main = Inr [30, 20, 10, -1]"
  "stack_c_main [0, 0, 0, 0, 0, 0, 0, 0, 0, 0] = Inr [5, 4, 3, 2, 1, -1]"
  by code_simp+

end
