(* ===== verification/Linked_Heap.thy ===== *)
theory Linked_Heap
  imports Prelude
begin

text \<open>
  The store of the linked structures: allocated cells by address, \<open>new\<close> and \<open>delete\<close>, the node of the
  singly linked lists and paths of nodes through the store. \<open>new\<close> hands out an address that was never
  used before; reading, writing or freeing through a null or freed pointer is an error value.
\<close>

section \<open>Cells\<close>

record 'o heap =
  cells :: "addr \<Rightarrow> 'o option"
  brk :: addr

definition empty_heap :: "'o heap" where
  "empty_heap = \<lparr>cells = (\<lambda>_. None), brk = 0\<rparr>"

definition heap_ok :: "'o heap \<Rightarrow> bool" where
  "heap_ok h \<longleftrightarrow> (\<forall>a. brk h \<le> a \<longrightarrow> cells h a = None)"

definition new_obj :: "'o \<Rightarrow> 'o heap \<Rightarrow> addr \<times> 'o heap" where
  "new_obj obj h = (brk h, h\<lparr>cells := (cells h)(brk h \<mapsto> obj), brk := Suc (brk h)\<rparr>)"

definition load_obj :: "'o heap \<Rightarrow> ptr \<Rightarrow> 'o res" where
  "load_obj h p = deref (cells h) p"

definition store_obj :: "'o heap \<Rightarrow> ptr \<Rightarrow> 'o \<Rightarrow> 'o heap res" where
  "store_obj h p obj = rbind (deref (cells h) p) (\<lambda>_. Inr (h\<lparr>cells := (cells h)(the p \<mapsto> obj)\<rparr>))"

definition delete_obj :: "'o heap \<Rightarrow> ptr \<Rightarrow> 'o heap res" where
  "delete_obj h p = (case p of None \<Rightarrow> Inr h
     | Some a \<Rightarrow> (if cells h a = None then Inl DanglingPtr else Inr (h\<lparr>cells := (cells h)(a := None)\<rparr>)))"

lemma heap_ok_empty [simp]: "heap_ok empty_heap"
  by (simp add: heap_ok_def empty_heap_def)

lemma heap_ok_fresh [simp]: "heap_ok h \<Longrightarrow> cells h (brk h) = None"
  by (simp add: heap_ok_def)

lemma heap_ok_less: "heap_ok h \<Longrightarrow> cells h a = Some obj \<Longrightarrow> a < brk h"
  by (metis heap_ok_def not_le option.distinct(1))

lemma heap_ok_new [simp]:
  "heap_ok h \<Longrightarrow> heap_ok \<lparr>cells = (cells h)(brk h \<mapsto> obj), brk = Suc (brk h)\<rparr>"
  by (simp add: heap_ok_def)

lemma heap_ok_new_upd [simp]:
  "heap_ok h \<Longrightarrow> heap_ok (h\<lparr>cells := (cells h)(brk h \<mapsto> obj), brk := Suc (brk h)\<rparr>)"
  by (simp add: heap_ok_def)

lemma heap_ok_upd:
  "heap_ok h \<Longrightarrow> a < brk h \<Longrightarrow> heap_ok (h\<lparr>cells := (cells h)(a \<mapsto> obj)\<rparr>)"
  by (auto simp: heap_ok_def)

lemma heap_ok_del [simp]: "heap_ok h \<Longrightarrow> heap_ok (h\<lparr>cells := (cells h)(a := None)\<rparr>)"
  by (simp add: heap_ok_def)

lemma load_obj_ok [simp, res_simps]: "cells h a = Some obj \<Longrightarrow> load_obj h (Some a) = Inr obj"
  by (simp add: load_obj_def)

lemma load_obj_null [simp, res_simps]: "load_obj h None = Inl NullDeref"
  by (simp add: load_obj_def)

lemma store_obj_ok [simp, res_simps]:
  "cells h a = Some ob' \<Longrightarrow> store_obj h (Some a) obj = Inr (h\<lparr>cells := (cells h)(a \<mapsto> obj)\<rparr>)"
  by (simp add: store_obj_def)

lemma delete_obj_ok [simp, res_simps]:
  "cells h a = Some obj \<Longrightarrow> delete_obj h (Some a) = Inr (h\<lparr>cells := (cells h)(a := None)\<rparr>)"
  by (simp add: delete_obj_def)

section \<open>Nodes of singly linked lists\<close>

record lnode =
  node_val :: int
  node_next :: ptr

type_synonym lcells = "addr \<Rightarrow> lnode option"
type_synonym lheap = "lnode heap"

definition new_node :: "int \<Rightarrow> lheap \<Rightarrow> addr \<times> lheap" where
  "new_node v h = new_obj \<lparr>node_val = v, node_next = None\<rparr> h"

definition get_val :: "lheap \<Rightarrow> ptr \<Rightarrow> int res" where
  "get_val h p = rbind (load_obj h p) (\<lambda>nd. Inr (node_val nd))"

definition get_next :: "lheap \<Rightarrow> ptr \<Rightarrow> ptr res" where
  "get_next h p = rbind (load_obj h p) (\<lambda>nd. Inr (node_next nd))"

definition set_next :: "lheap \<Rightarrow> ptr \<Rightarrow> ptr \<Rightarrow> lheap res" where
  "set_next h p q = rbind (load_obj h p) (\<lambda>nd. store_obj h p (nd\<lparr>node_next := q\<rparr>))"

definition set_val :: "lheap \<Rightarrow> ptr \<Rightarrow> int \<Rightarrow> lheap res" where
  "set_val h p v = rbind (load_obj h p) (\<lambda>nd. store_obj h p (nd\<lparr>node_val := v\<rparr>))"

lemma node_access [simp, res_simps]:
  assumes "cells h a = Some nd"
  shows "get_val h (Some a) = Inr (node_val nd)"
    and "get_next h (Some a) = Inr (node_next nd)"
    and "set_next h (Some a) q = Inr (h\<lparr>cells := (cells h)(a \<mapsto> nd\<lparr>node_next := q\<rparr>)\<rparr>)"
    and "set_val h (Some a) v = Inr (h\<lparr>cells := (cells h)(a \<mapsto> nd\<lparr>node_val := v\<rparr>)\<rparr>)"
  using assms by (simp_all add: get_val_def get_next_def set_next_def set_val_def)

lemma node_access_null [simp, res_simps]:
  "get_val h None = Inl NullDeref" "get_next h None = Inl NullDeref"
  "set_next h None q = Inl NullDeref" "set_val h None v = Inl NullDeref"
  by (simp_all add: get_val_def get_next_def set_next_def set_val_def)

section \<open>Paths\<close>

text \<open>\<open>lpath c p as q\<close>: following \<open>next\<close> from \<open>p\<close> visits exactly the nodes \<open>as\<close> and ends in \<open>q\<close>.\<close>

fun lpath :: "lcells \<Rightarrow> ptr \<Rightarrow> addr list \<Rightarrow> ptr \<Rightarrow> bool" where
  "lpath c p [] q \<longleftrightarrow> p = q"
| "lpath c p (a # as) q \<longleftrightarrow> p = Some a \<and>
     (case c a of None \<Rightarrow> False | Some nd \<Rightarrow> lpath c (node_next nd) as q)"

definition vals :: "lcells \<Rightarrow> addr list \<Rightarrow> int list" where
  "vals c as = map (\<lambda>a. node_val (the (c a))) as"

lemma vals_simps [simp]:
  "vals c [] = []" "vals c (a # as) = node_val (the (c a)) # vals c as"
  "vals c (as @ bs) = vals c as @ vals c bs" "length (vals c as) = length as"
  by (simp_all add: vals_def)

lemma vals_upd_notin [simp]: "a \<notin> set as \<Longrightarrow> vals (c(a := x)) as = vals c as"
  by (auto simp: vals_def)

lemma vals_upd_same:
  "node_val nd = node_val (the (c a)) \<Longrightarrow> vals (c(a \<mapsto> nd)) as = vals c as"
  by (auto simp: vals_def)

lemma lpath_append [simp]: "lpath c p (as @ bs) q \<longleftrightarrow> (\<exists>r. lpath c p as r \<and> lpath c r bs q)"
  by (induction as arbitrary: p) (auto split: option.splits)

lemma lpath_upd_notin [simp]: "a \<notin> set as \<Longrightarrow> lpath (c(a := x)) p as q = lpath c p as q"
  by (induction as arbitrary: p) (auto split: option.splits)

lemma lpath_cong: "(\<And>a. a \<in> set as \<Longrightarrow> c a = c' a) \<Longrightarrow> lpath c p as q = lpath c' p as q"
  by (induction as arbitrary: p) (auto split: option.splits)

lemma lpath_None [simp]: "lpath c None as q \<longleftrightarrow> as = [] \<and> q = None"
  by (cases as) auto

lemma lpath_allocated: "lpath c p as q \<Longrightarrow> a \<in> set as \<Longrightarrow> c a \<noteq> None"
  by (induction as arbitrary: p) (auto split: option.splits)

lemma lpath_unique: "lpath c p as None \<Longrightarrow> lpath c p bs None \<Longrightarrow> as = bs"
proof (induction as arbitrary: p bs)
  case (Cons a as)
  then show ?case by (cases bs) (auto split: option.splits)
qed auto

lemma lpath_ends_distinct: "lpath c p as None \<Longrightarrow> distinct as"
proof (induction as arbitrary: p)
  case (Cons a as)
  have "a \<notin> set as"
  proof
    assume "a \<in> set as"
    then obtain us vs where as: "as = us @ a # vs" by (meson split_list)
    with Cons.prems have "lpath c (Some a) (a # vs) None" "lpath c (Some a) (a # us @ a # vs) None"
      by (auto split: option.splits)
    from lpath_unique [OF this] show False by (auto dest: arg_cong [where f = length])
  qed
  moreover have "distinct as" using Cons by (auto split: option.splits)
  ultimately show ?case by simp
qed simp

lemma lpath_length_brk:
  assumes "heap_ok h" and "lpath (cells h) p as None"
  shows "length as \<le> brk h"
proof -
  have "set as \<subseteq> {..<brk h}"
    using lpath_allocated [OF assms(2)] heap_ok_less [OF assms(1)] by auto
  then have "card (set as) \<le> brk h" using card_mono [of "{..<brk h}" "set as"] by simp
  then show ?thesis by (simp add: distinct_card lpath_ends_distinct [OF assms(2)])
qed

lemma lpath_fresh_notin: "heap_ok h \<Longrightarrow> lpath (cells h) p as q \<Longrightarrow> brk h \<notin> set as"
  using lpath_allocated heap_ok_fresh by blast

text \<open>Linking the last node of a path to another pointer.\<close>

lemma lpath_snoc_relink:
  assumes "lpath c p (as @ [b]) q" and "distinct (as @ [b])" and "c b = Some nd"
  shows "lpath (c(b \<mapsto> nd\<lparr>node_next := r\<rparr>)) p (as @ [b]) r"
  using assms by auto

text \<open>The pointer to the node at position \<open>k\<close> of a path, null behind its end.\<close>

definition ptr_at :: "addr list \<Rightarrow> nat \<Rightarrow> ptr" where
  "ptr_at as k = (if k < length as then Some (as ! k) else None)"

lemma ptr_at_simps [simp]: "ptr_at (a # as) (Suc k) = ptr_at as k" "ptr_at (a # as) 0 = Some a" "ptr_at [] k = None"
  by (simp_all add: ptr_at_def)

text \<open>The nodes met by following \<open>next\<close>, at most \<open>n\<close> of them.\<close>

fun follow :: "nat \<Rightarrow> lcells \<Rightarrow> ptr \<Rightarrow> addr list" where
  "follow (Suc n) c (Some a) = (case c a of None \<Rightarrow> [] | Some nd \<Rightarrow> a # follow n c (node_next nd))"
| "follow _ _ _ = []"

lemma follow_path: "lpath c p as None \<Longrightarrow> length as \<le> n \<Longrightarrow> follow n c p = as"
proof (induction as arbitrary: p n)
  case (Cons a as)
  then show ?case by (cases n) (auto split: option.splits)
qed simp

definition list_of :: "lheap \<Rightarrow> ptr \<Rightarrow> addr list" where
  "list_of h p = follow (brk h) (cells h) p"

lemma list_of_path: "heap_ok h \<Longrightarrow> lpath (cells h) p as None \<Longrightarrow> list_of h p = as"
  by (simp add: list_of_def follow_path lpath_length_brk)

end
