(* ===== verification/Linked_Queues.thy ===== *)
theory Linked_Queues
  imports Linked_Heap Queue_Interfaces
begin

text \<open>
  The linked queues and stacks: \<open>queue/queueUsingLinkedList.c\<close>, \<open>threadPool/threadSafeQueue.cpp\<close> and
  \<open>threadPool/threadPoolStack.cpp\<close>. The mutex of the thread-safe classes is held from the first access
  of the shared fields to the return, so a concurrent execution is a sequence of whole calls.
\<close>

section \<open>The linked queue (\<open>queue/queueUsingLinkedList.c\<close>)\<close>

record Queue =
  lq_heap :: lheap
  lq_front :: ptr
  lq_rear :: ptr

definition createQueue :: "lheap \<Rightarrow> Queue" where
  "createQueue h = \<lparr>lq_heap = h, lq_front = None, lq_rear = None\<rparr>"

definition LQ_enqueue :: "Queue \<Rightarrow> int \<Rightarrow> Queue res" where
  "LQ_enqueue q d =
     (let (newNode, h) = new_node d (lq_heap q) in
      if lq_rear q = None then Inr (q\<lparr>lq_heap := h, lq_front := Some newNode, lq_rear := Some newNode\<rparr>)
      else rbind (set_next h (lq_rear q) (Some newNode)) (\<lambda>h.
        Inr (q\<lparr>lq_heap := h, lq_rear := Some newNode\<rparr>)))"

definition LQ_isEmpty :: "Queue \<Rightarrow> bool" where
  "LQ_isEmpty q \<longleftrightarrow> lq_front q = None"

definition LQ_dequeue :: "Queue \<Rightarrow> (int \<times> Queue) res" where
  "LQ_dequeue q =
     (if LQ_isEmpty q then Inr (-1, q)
      else
        let temp = lq_front q; h = lq_heap q in
        rbind (get_val h temp) (\<lambda>d.
        rbind (get_next h temp) (\<lambda>nx.
        let q = q\<lparr>lq_front := nx\<rparr>;
            q = (if lq_front q = None then q\<lparr>lq_rear := None\<rparr> else q) in
        rbind (delete_obj h temp) (\<lambda>h. Inr (d, q\<lparr>lq_heap := h\<rparr>)))))"

definition LQ_front :: "Queue \<Rightarrow> int res" where
  "LQ_front q = (if LQ_isEmpty q then Inr (-1) else get_val (lq_heap q) (lq_front q))"

definition LQ_rear :: "Queue \<Rightarrow> int res" where
  "LQ_rear q = (if LQ_isEmpty q then Inr (-1) else get_val (lq_heap q) (lq_rear q))"

fun LQ_dequeue_n :: "nat \<Rightarrow> Queue \<Rightarrow> int list res" where
  "LQ_dequeue_n 0 q = Inr []"
| "LQ_dequeue_n (Suc n) q = rbind (LQ_dequeue q) (\<lambda>(v, q).
     rbind (LQ_dequeue_n n q) (\<lambda>vs. Inr (v # vs)))"

definition linked_queue_main :: "int list res" where
  "linked_queue_main =
     rbind (LQ_enqueue (createQueue empty_heap) 10) (\<lambda>q.
     rbind (LQ_enqueue q 20) (\<lambda>q.
     rbind (LQ_enqueue q 30) (LQ_dequeue_n 4)))"

definition LQ_nodes :: "Queue \<Rightarrow> addr list" where
  "LQ_nodes q = list_of (lq_heap q) (lq_front q)"

definition LQ_contents :: "Queue \<Rightarrow> int list" where
  "LQ_contents q = vals (cells (lq_heap q)) (LQ_nodes q)"

definition LQ_rep :: "Queue \<Rightarrow> addr list \<Rightarrow> bool" where
  "LQ_rep q as \<longleftrightarrow> heap_ok (lq_heap q) \<and> lpath (cells (lq_heap q)) (lq_front q) as None \<and>
     lq_rear q = (if as = [] then None else Some (last as))"

definition LQ_inv :: "Queue \<Rightarrow> bool" where
  "LQ_inv q \<longleftrightarrow> LQ_rep q (LQ_nodes q)"

lemma LQ_rep_nodes: "LQ_rep q as \<Longrightarrow> LQ_nodes q = as"
  by (simp add: LQ_rep_def LQ_nodes_def list_of_path)

lemma LQ_repI: "LQ_rep q as \<Longrightarrow> LQ_inv q \<and> LQ_contents q = vals (cells (lq_heap q)) as"
  by (simp add: LQ_inv_def LQ_contents_def LQ_rep_nodes)

lemma createQueue_inv: "heap_ok h \<Longrightarrow> LQ_inv (createQueue h) \<and> LQ_contents (createQueue h) = []"
  using LQ_repI [of "createQueue h" "[]"] by (simp add: LQ_rep_def createQueue_def)

lemma LQ_enqueue_appends:
  assumes "LQ_inv q"
  shows "\<exists>q'. LQ_enqueue q v = Inr q' \<and> LQ_inv q' \<and> LQ_contents q' = LQ_contents q @ [v]"
proof -
  define as where "as = LQ_nodes q"
  have rep: "LQ_rep q as" using assms by (simp add: LQ_inv_def as_def)
  let ?h = "lq_heap q"
  let ?n = "brk ?h" and ?nd = "\<lparr>node_val = v, node_next = None\<rparr>"
  have path: "lpath (cells ?h) (lq_front q) as None" and ok: "heap_ok ?h" using rep by (simp_all add: LQ_rep_def)
  have fresh: "?n \<notin> set as" using lpath_fresh_notin [OF ok path] .
  show ?thesis
  proof (cases as rule: rev_cases)
    case Nil
    let ?q' = "q\<lparr>lq_heap := ?h\<lparr>cells := (cells ?h)(?n \<mapsto> ?nd), brk := Suc ?n\<rparr>,
      lq_front := Some ?n, lq_rear := Some ?n\<rparr>"
    have "LQ_enqueue q v = Inr ?q'" using rep Nil by (simp add: LQ_enqueue_def LQ_rep_def new_node_def new_obj_def)
    moreover have "LQ_rep ?q' [?n]" using ok by (simp add: LQ_rep_def)
    ultimately show ?thesis using LQ_repI [of ?q' "[?n]"] LQ_repI [OF rep] Nil by simp
  next
    case (snoc bs b)
    obtain nd where b: "cells ?h b = Some nd" using lpath_allocated [OF path, of b] snoc by auto
    have dist: "distinct (bs @ [b])" using lpath_ends_distinct [OF path] snoc by simp
    let ?c = "(cells ?h)(?n \<mapsto> ?nd, b \<mapsto> nd\<lparr>node_next := Some ?n\<rparr>)"
    let ?q' = "q\<lparr>lq_heap := ?h\<lparr>cells := ?c, brk := Suc ?n\<rparr>, lq_rear := Some ?n\<rparr>"
    have nb: "b \<noteq> ?n" using fresh snoc by auto
    have "LQ_enqueue q v = Inr ?q'"
      using rep snoc b nb by (simp add: LQ_enqueue_def LQ_rep_def new_node_def new_obj_def)
    moreover have "lpath ?c (lq_front q) (bs @ [b]) (Some ?n)"
      using path snoc dist b fresh by auto
    then have "LQ_rep ?q' (as @ [?n])"
      using ok heap_ok_less [OF ok b] snoc nb by (auto simp: LQ_rep_def heap_ok_def)
    moreover have "vals ?c as = vals (cells ?h) as" using b fresh nb by (auto simp: vals_def)
    ultimately show ?thesis using LQ_repI [of ?q' "as @ [?n]"] LQ_repI [OF rep] nb by simp
  qed
qed

lemma LQ_contents_empty: "LQ_inv q \<Longrightarrow> LQ_contents q = [] \<longleftrightarrow> lq_front q = None"
  by (auto simp: LQ_inv_def LQ_rep_def LQ_contents_def vals_def)

lemma LQ_dequeue_empty: "LQ_inv q \<Longrightarrow> LQ_contents q = [] \<Longrightarrow> LQ_dequeue q = Inr (-1, q)"
  by (simp add: LQ_contents_empty LQ_dequeue_def LQ_isEmpty_def)

text \<open>A dequeue takes the front value out, and frees exactly the node that held it.\<close>

lemma LQ_dequeue_front:
  assumes "LQ_inv q" and "LQ_contents q = x # xs"
  shows "\<exists>q'. LQ_dequeue q = Inr (x, q') \<and> LQ_inv q' \<and> LQ_contents q' = xs \<and>
    dom (cells (lq_heap q')) = dom (cells (lq_heap q)) - {hd (LQ_nodes q)}"
proof -
  let ?h = "lq_heap q"
  obtain a as where as: "LQ_nodes q = a # as" using assms by (cases "LQ_nodes q") (auto simp: LQ_contents_def)
  have rep: "LQ_rep q (a # as)" using assms as by (simp add: LQ_inv_def)
  then obtain nd where nd: "lq_front q = Some a" "cells ?h a = Some nd"
    "lpath (cells ?h) (node_next nd) as None" by (auto simp: LQ_rep_def split: option.splits)
  have x: "x = node_val nd" "xs = vals (cells ?h) as" using assms as nd by (simp_all add: LQ_contents_def)
  have na: "a \<notin> set as" using rep lpath_ends_distinct [of "cells ?h" "lq_front q" "a # as"] by (simp add: LQ_rep_def)
  let ?q' = "q\<lparr>lq_front := node_next nd, lq_rear := if node_next nd = None then None else lq_rear q,
    lq_heap := ?h\<lparr>cells := (cells ?h)(a := None)\<rparr>\<rparr>"
  have "LQ_dequeue q = Inr (x, ?q')" using nd x by (simp add: LQ_dequeue_def LQ_isEmpty_def Let_def)
  moreover have "as = [] \<longleftrightarrow> node_next nd = None" using nd(3) by (cases as) auto
  then have "LQ_rep ?q' as" using rep nd na by (auto simp: LQ_rep_def)
  ultimately show ?thesis using LQ_repI [of ?q' as] x na as by auto
qed

definition LQ_push :: "Queue \<Rightarrow> int \<Rightarrow> Queue option" where
  "LQ_push q v = ok_of (LQ_enqueue q v)"

definition LQ_pop :: "Queue \<Rightarrow> (int \<times> Queue) option" where
  "LQ_pop q = ok_of (LQ_dequeue q)"

interpretation linked_queue: list_fifo LQ_push LQ_pop LQ_contents LQ_inv "\<lambda>_. True" "Some (-1)" None
proof unfold_locales
  show "LQ_inv s \<Longrightarrow> True \<Longrightarrow>
      \<exists>s'. LQ_push s x = Some s' \<and> LQ_inv s' \<and> LQ_contents s' = LQ_contents s @ [x]" for s x
    using LQ_enqueue_appends [of s x] by (auto simp: LQ_push_def)
  show "LQ_inv s \<Longrightarrow> LQ_contents s = [] \<Longrightarrow> LQ_pop s = map_option (\<lambda>d. (d, s)) (Some (-1))" for s
    by (simp add: LQ_pop_def LQ_dequeue_empty)
  show "LQ_inv s \<Longrightarrow> LQ_contents s = x # xs \<Longrightarrow>
      \<exists>s'. LQ_pop s = Some (x, s') \<and> LQ_inv s' \<and> LQ_contents s' = xs" for s x xs
    using LQ_dequeue_front [of s x xs] by (auto simp: LQ_pop_def)
qed (simp_all add: has_room_def)

section \<open>The thread-safe queue (\<open>threadPool/threadSafeQueue.cpp\<close>)\<close>

record ThreadSafeQueue =
  tq_heap :: lheap
  tq_head :: ptr
  tq_tail :: ptr

definition ThreadSafeQueue_new :: "lheap \<Rightarrow> ThreadSafeQueue" where
  "ThreadSafeQueue_new h = \<lparr>tq_heap = h, tq_head = None, tq_tail = None\<rparr>"

definition TSQ_push :: "ThreadSafeQueue \<Rightarrow> int \<Rightarrow> ThreadSafeQueue res" where
  "TSQ_push q value =
     (let (newNode, h) = new_node value (tq_heap q) in
      case tq_tail q of
        None \<Rightarrow> Inr (q\<lparr>tq_heap := h, tq_head := Some newNode, tq_tail := Some newNode\<rparr>)
      | Some t \<Rightarrow> rbind (set_next h (Some t) (Some newNode)) (\<lambda>h.
          Inr (q\<lparr>tq_heap := h, tq_tail := Some newNode\<rparr>)))"

definition TSQ_pop :: "ThreadSafeQueue \<Rightarrow> (int \<times> ThreadSafeQueue) res" where
  "TSQ_pop q =
     (if tq_head q = None then Inr (-1, q)
      else
        let oldHead = tq_head q; h = tq_heap q in
        rbind (get_val h oldHead) (\<lambda>value.
        rbind (get_next h (tq_head q)) (\<lambda>nx.
        let q = q\<lparr>tq_head := nx\<rparr>;
            q = (if tq_head q = None then q\<lparr>tq_tail := None\<rparr> else q) in
        rbind (delete_obj h oldHead) (\<lambda>h. Inr (value, q\<lparr>tq_heap := h\<rparr>)))))"

fun TSQ_push_all :: "ThreadSafeQueue \<Rightarrow> int list \<Rightarrow> ThreadSafeQueue res" where
  "TSQ_push_all q [] = Inr q"
| "TSQ_push_all q (v # vs) = rbind (TSQ_push q v) (\<lambda>q. TSQ_push_all q vs)"

text \<open>The loop of \<open>main\<close> that pops until it sees \<open>-1\<close>; \<open>None\<close> when the fuel runs out first.\<close>

fun TSQ_drain :: "nat \<Rightarrow> ThreadSafeQueue \<Rightarrow> int list res option" where
  "TSQ_drain 0 q = None"
| "TSQ_drain (Suc n) q = (case TSQ_pop q of
       Inl e \<Rightarrow> Some (Inl e)
     | Inr (v, q) \<Rightarrow> if v = -1 then Some (Inr [])
         else map_option (\<lambda>r. rbind r (\<lambda>vs. Inr (v # vs))) (TSQ_drain n q))"

text \<open>\<open>main\<close>, with the order \<open>sched\<close> in which its ten threads got the lock.\<close>

definition threadSafeQueue_main :: "nat \<Rightarrow> int list \<Rightarrow> int list res option" where
  "threadSafeQueue_main fuel sched =
     (case TSQ_push_all (ThreadSafeQueue_new empty_heap) sched of
        Inl e \<Rightarrow> Some (Inl e) | Inr q \<Rightarrow> TSQ_drain fuel q)"

text \<open>The two linked queues are the same queue under this correspondence of their fields.\<close>

definition lq_of :: "ThreadSafeQueue \<Rightarrow> Queue" where
  "lq_of q = \<lparr>lq_heap = tq_heap q, lq_front = tq_head q, lq_rear = tq_tail q\<rparr>"

definition tq_of :: "Queue \<Rightarrow> ThreadSafeQueue" where
  "tq_of q = \<lparr>tq_heap = lq_heap q, tq_head = lq_front q, tq_tail = lq_rear q\<rparr>"

lemma lq_tq [simp]: "lq_of (tq_of q) = q" "tq_of (lq_of t) = t"
  by (simp_all add: lq_of_def tq_of_def)

lemma TSQ_push_eq: "TSQ_push t v = rbind (LQ_enqueue (lq_of t) v) (\<lambda>q. Inr (tq_of q))"
  by (cases "set_next (snd (new_node v (tq_heap t))) (tq_tail t) (Some (fst (new_node v (tq_heap t))))")
    (auto simp: TSQ_push_def LQ_enqueue_def lq_of_def tq_of_def split: option.splits prod.splits)

lemma TSQ_pop_eq: "TSQ_pop t = rbind (LQ_dequeue (lq_of t)) (\<lambda>(v, q). Inr (v, tq_of q))"
  unfolding TSQ_pop_def LQ_dequeue_def
  by (cases "get_val (tq_heap t) (tq_head t)"; cases "get_next (tq_heap t) (tq_head t)";
      cases "delete_obj (tq_heap t) (tq_head t)")
    (auto simp: LQ_isEmpty_def lq_of_def tq_of_def Let_def)

definition TSQ_contents :: "ThreadSafeQueue \<Rightarrow> int list" where
  "TSQ_contents t = LQ_contents (lq_of t)"

definition TSQ_inv :: "ThreadSafeQueue \<Rightarrow> bool" where
  "TSQ_inv t \<longleftrightarrow> LQ_inv (lq_of t)"

lemma TSQ_new_inv: "TSQ_inv (ThreadSafeQueue_new empty_heap)" "TSQ_contents (ThreadSafeQueue_new empty_heap) = []"
  using createQueue_inv [of empty_heap]
  by (simp_all add: TSQ_inv_def TSQ_contents_def lq_of_def ThreadSafeQueue_new_def createQueue_def)

lemma TSQ_push_appends:
  "TSQ_inv t \<Longrightarrow> \<exists>t'. TSQ_push t v = Inr t' \<and> TSQ_inv t' \<and> TSQ_contents t' = TSQ_contents t @ [v]"
  using LQ_enqueue_appends [of "lq_of t" v] by (auto simp: TSQ_inv_def TSQ_contents_def TSQ_push_eq)

lemma TSQ_pop_front:
  "TSQ_inv t \<Longrightarrow> TSQ_contents t = x # xs \<Longrightarrow>
    \<exists>t'. TSQ_pop t = Inr (x, t') \<and> TSQ_inv t' \<and> TSQ_contents t' = xs"
  using LQ_dequeue_front [of "lq_of t" x xs] by (auto simp: TSQ_inv_def TSQ_contents_def TSQ_pop_eq)

lemma TSQ_pop_empty: "TSQ_inv t \<Longrightarrow> TSQ_contents t = [] \<Longrightarrow> TSQ_pop t = Inr (-1, t)"
  using LQ_dequeue_empty [of "lq_of t"] by (auto simp: TSQ_inv_def TSQ_contents_def TSQ_pop_eq)

definition TSQ_push_op :: "ThreadSafeQueue \<Rightarrow> int \<Rightarrow> ThreadSafeQueue option" where
  "TSQ_push_op q v = ok_of (TSQ_push q v)"

definition TSQ_pop_op :: "ThreadSafeQueue \<Rightarrow> (int \<times> ThreadSafeQueue) option" where
  "TSQ_pop_op q = ok_of (TSQ_pop q)"

interpretation thread_safe_queue: list_fifo TSQ_push_op TSQ_pop_op TSQ_contents TSQ_inv "\<lambda>_. True" "Some (-1)" None
proof unfold_locales
  show "TSQ_inv s \<Longrightarrow> True \<Longrightarrow>
      \<exists>s'. TSQ_push_op s x = Some s' \<and> TSQ_inv s' \<and> TSQ_contents s' = TSQ_contents s @ [x]" for s x
    using TSQ_push_appends [of s x] by (auto simp: TSQ_push_op_def)
  show "TSQ_inv s \<Longrightarrow> TSQ_contents s = [] \<Longrightarrow> TSQ_pop_op s = map_option (\<lambda>d. (d, s)) (Some (-1))" for s
    by (simp add: TSQ_pop_op_def TSQ_pop_empty)
  show "TSQ_inv s \<Longrightarrow> TSQ_contents s = x # xs \<Longrightarrow>
      \<exists>s'. TSQ_pop_op s = Some (x, s') \<and> TSQ_inv s' \<and> TSQ_contents s' = xs" for s x xs
    using TSQ_pop_front [of s x xs] by (auto simp: TSQ_pop_op_def)
qed (simp_all add: has_room_def)

lemma TSQ_push_all_appends:
  "TSQ_inv t \<Longrightarrow> \<exists>t'. TSQ_push_all t vs = Inr t' \<and> TSQ_inv t' \<and> TSQ_contents t' = TSQ_contents t @ vs"
proof (induction vs arbitrary: t)
  case (Cons v vs)
  from TSQ_push_appends [OF Cons.prems, of v] obtain u
    where "TSQ_push t v = Inr u" "TSQ_inv u" "TSQ_contents u = TSQ_contents t @ [v]" by blast
  with Cons.IH [of u] show ?case by auto
qed simp

lemma TSQ_drain_takeWhile:
  assumes "TSQ_inv t" and "length (TSQ_contents t) < fuel"
  shows "TSQ_drain fuel t = Some (Inr (takeWhile (\<lambda>v. v \<noteq> -1) (TSQ_contents t)))"
  using assms
proof (induction fuel arbitrary: t)
  case (Suc n)
  show ?case
  proof (cases "TSQ_contents t")
    case Nil
    with TSQ_pop_empty [OF Suc.prems(1)] show ?thesis by simp
  next
    case (Cons x xs)
    from TSQ_pop_front [OF Suc.prems(1) this] obtain u
      where u: "TSQ_pop t = Inr (x, u)" "TSQ_inv u" "TSQ_contents u = xs" by blast
    with Suc.IH [of u] Suc.prems(2) Cons show ?thesis by simp
  qed
qed simp

section \<open>The thread-safe stack (\<open>threadPool/threadPoolStack.cpp\<close>)\<close>

record ThreadSafeStack =
  ts_heap :: lheap
  ts_head :: ptr

definition ThreadSafeStack_new :: "lheap \<Rightarrow> ThreadSafeStack" where
  "ThreadSafeStack_new h = \<lparr>ts_heap = h, ts_head = None\<rparr>"

definition TSS_push :: "ThreadSafeStack \<Rightarrow> int \<Rightarrow> ThreadSafeStack res" where
  "TSS_push s value =
     (let (newNode, h) = new_node value (ts_heap s) in
      rbind (set_next h (Some newNode) (ts_head s)) (\<lambda>h.
      Inr (s\<lparr>ts_heap := h, ts_head := Some newNode\<rparr>)))"

definition TSS_pop :: "ThreadSafeStack \<Rightarrow> (int \<times> ThreadSafeStack) res" where
  "TSS_pop s =
     (if ts_head s = None then Inr (-1, s)
      else
        let oldHead = ts_head s; h = ts_heap s in
        rbind (get_val h oldHead) (\<lambda>value.
        rbind (get_next h oldHead) (\<lambda>nx.
        rbind (delete_obj h oldHead) (\<lambda>h. Inr (value, s\<lparr>ts_heap := h, ts_head := nx\<rparr>)))))"

fun TSS_push_all :: "ThreadSafeStack \<Rightarrow> int list \<Rightarrow> ThreadSafeStack res" where
  "TSS_push_all s [] = Inr s"
| "TSS_push_all s (v # vs) = rbind (TSS_push s v) (\<lambda>s. TSS_push_all s vs)"

fun TSS_drain :: "nat \<Rightarrow> ThreadSafeStack \<Rightarrow> int list res option" where
  "TSS_drain 0 s = None"
| "TSS_drain (Suc n) s = (case TSS_pop s of
       Inl e \<Rightarrow> Some (Inl e)
     | Inr (v, s) \<Rightarrow> if v = -1 then Some (Inr [])
         else map_option (\<lambda>r. rbind r (\<lambda>vs. Inr (v # vs))) (TSS_drain n s))"

definition threadPoolStack_main :: "nat \<Rightarrow> int list \<Rightarrow> int list res option" where
  "threadPoolStack_main fuel sched =
     (case TSS_push_all (ThreadSafeStack_new empty_heap) sched of
        Inl e \<Rightarrow> Some (Inl e) | Inr s \<Rightarrow> TSS_drain fuel s)"

definition TSS_nodes :: "ThreadSafeStack \<Rightarrow> addr list" where
  "TSS_nodes s = list_of (ts_heap s) (ts_head s)"

definition TSS_contents :: "ThreadSafeStack \<Rightarrow> int list" where
  "TSS_contents s = vals (cells (ts_heap s)) (TSS_nodes s)"

definition TSS_inv :: "ThreadSafeStack \<Rightarrow> bool" where
  "TSS_inv s \<longleftrightarrow> heap_ok (ts_heap s) \<and> lpath (cells (ts_heap s)) (ts_head s) (TSS_nodes s) None"

lemma TSS_invI:
  assumes "heap_ok (ts_heap s)" and "lpath (cells (ts_heap s)) (ts_head s) as None"
  shows "TSS_inv s \<and> TSS_contents s = vals (cells (ts_heap s)) as"
  using assms list_of_path [OF assms] by (simp add: TSS_inv_def TSS_contents_def TSS_nodes_def)

lemma TSS_new_inv: "TSS_inv (ThreadSafeStack_new empty_heap) \<and> TSS_contents (ThreadSafeStack_new empty_heap) = []"
  using TSS_invI [of "ThreadSafeStack_new empty_heap" "[]"] by (simp add: ThreadSafeStack_new_def)

lemma TSS_push_top:
  assumes "TSS_inv s"
  shows "\<exists>s'. TSS_push s v = Inr s' \<and> TSS_inv s' \<and> TSS_contents s' = v # TSS_contents s"
proof -
  let ?h = "ts_heap s" and ?n = "brk (ts_heap s)"
  let ?s' = "s\<lparr>ts_heap := ?h\<lparr>cells := (cells ?h)(?n \<mapsto> \<lparr>node_val = v, node_next = ts_head s\<rparr>),
    brk := Suc ?n\<rparr>, ts_head := Some ?n\<rparr>"
  have inv: "heap_ok ?h" "lpath (cells ?h) (ts_head s) (TSS_nodes s) None"
    using assms by (simp_all add: TSS_inv_def)
  note fresh = lpath_fresh_notin [OF inv]
  have "TSS_push s v = Inr ?s'" by (simp add: TSS_push_def new_node_def new_obj_def)
  moreover have "TSS_inv ?s' \<and> TSS_contents ?s' = v # TSS_contents s"
    using TSS_invI [of ?s' "?n # TSS_nodes s"] inv fresh by (simp add: TSS_contents_def)
  ultimately show ?thesis by blast
qed

lemma TSS_contents_empty: "TSS_inv s \<Longrightarrow> TSS_contents s = [] \<longleftrightarrow> ts_head s = None"
  by (auto simp: TSS_inv_def TSS_contents_def vals_def)

lemma TSS_pop_empty: "TSS_inv s \<Longrightarrow> TSS_contents s = [] \<Longrightarrow> TSS_pop s = Inr (-1, s)"
  by (simp add: TSS_contents_empty TSS_pop_def)

lemma TSS_pop_top:
  assumes "TSS_inv s" and "TSS_contents s = x # xs"
  shows "\<exists>s'. TSS_pop s = Inr (x, s') \<and> TSS_inv s' \<and> TSS_contents s' = xs"
proof -
  let ?h = "ts_heap s"
  obtain a as where as: "TSS_nodes s = a # as" using assms by (cases "TSS_nodes s") (auto simp: TSS_contents_def)
  have inv: "heap_ok ?h" "lpath (cells ?h) (ts_head s) (a # as) None" using assms as by (simp_all add: TSS_inv_def)
  then obtain nd where nd: "ts_head s = Some a" "cells ?h a = Some nd" "lpath (cells ?h) (node_next nd) as None"
    by (auto split: option.splits)
  have x: "x = node_val nd" "xs = vals (cells ?h) as" using assms as nd by (simp_all add: TSS_contents_def)
  have na: "a \<notin> set as" using lpath_ends_distinct [OF inv(2)] by simp
  let ?s' = "s\<lparr>ts_heap := ?h\<lparr>cells := (cells ?h)(a := None)\<rparr>, ts_head := node_next nd\<rparr>"
  have "TSS_pop s = Inr (x, ?s')" using nd x by (simp add: TSS_pop_def Let_def)
  moreover have "TSS_inv ?s' \<and> TSS_contents ?s' = xs" using TSS_invI [of ?s' as] inv nd na x by simp
  ultimately show ?thesis by blast
qed

definition TSS_push_op :: "ThreadSafeStack \<Rightarrow> int \<Rightarrow> ThreadSafeStack option" where
  "TSS_push_op s v = ok_of (TSS_push s v)"

definition TSS_pop_op :: "ThreadSafeStack \<Rightarrow> (int \<times> ThreadSafeStack) option" where
  "TSS_pop_op s = ok_of (TSS_pop s)"

interpretation linked_stack: lifo TSS_push_op TSS_pop_op TSS_contents TSS_inv "Some (-1)" None
proof unfold_locales
  show "TSS_inv s \<Longrightarrow> has_room None (length (TSS_contents s)) \<Longrightarrow> \<exists>s'. TSS_push_op s x = Some s' \<and> TSS_inv s' \<and>
      TSS_contents s' = x # TSS_contents s" for s x
    using TSS_push_top [of s x] by (auto simp: TSS_push_op_def)
  show "TSS_inv s \<Longrightarrow> TSS_contents s = [] \<Longrightarrow> TSS_pop_op s = map_option (\<lambda>d. (d, s)) (Some (-1))" for s
    by (simp add: TSS_pop_op_def TSS_pop_empty)
  show "TSS_inv s \<Longrightarrow> TSS_contents s = x # xs \<Longrightarrow>
      \<exists>s'. TSS_pop_op s = Some (x, s') \<and> TSS_inv s' \<and> TSS_contents s' = xs" for s x xs
    using TSS_pop_top [of s x xs] by (auto simp: TSS_pop_op_def)
qed

lemma TSS_push_all_rev:
  "TSS_inv s \<Longrightarrow> \<exists>s'. TSS_push_all s vs = Inr s' \<and> TSS_inv s' \<and> TSS_contents s' = rev vs @ TSS_contents s"
proof (induction vs arbitrary: s)
  case (Cons v vs)
  from TSS_push_top [OF Cons.prems, of v] obtain u
    where "TSS_push s v = Inr u" "TSS_inv u" "TSS_contents u = v # TSS_contents s" by blast
  with Cons.IH [of u] show ?case by auto
qed simp

lemma TSS_drain_takeWhile:
  assumes "TSS_inv s" and "length (TSS_contents s) < fuel"
  shows "TSS_drain fuel s = Some (Inr (takeWhile (\<lambda>v. v \<noteq> -1) (TSS_contents s)))"
  using assms
proof (induction fuel arbitrary: s)
  case (Suc n)
  show ?case
  proof (cases "TSS_contents s")
    case Nil
    with TSS_pop_empty [OF Suc.prems(1)] show ?thesis by simp
  next
    case (Cons x xs)
    from TSS_pop_top [OF Suc.prems(1) this] obtain u
      where u: "TSS_pop s = Inr (x, u)" "TSS_inv u" "TSS_contents u = xs" by blast
    with Suc.IH [of u] Suc.prems(2) Cons show ?thesis by simp
  qed
qed simp

section \<open>Properties\<close>

text \<open>
  The linked queue answers every sequence of calls as an unbounded list queue does, starting
  from any heap, with \<open>-1\<close> for a dequeue of the empty queue and no access through a null or freed pointer; and the mutex-protected C++
  queue is the same queue under the correspondence of their fields.
\<close>

theorem linked_queue_refines_list:
  assumes "heap_ok h"
  shows "fst (run_ops LQ_push LQ_pop ops (createQueue h)) = fst (run_ops (list_enq None) (list_pop (Some (-1))) ops []) \<and>
    TSQ_push t v = rbind (LQ_enqueue (lq_of t) v) (\<lambda>q. Inr (tq_of q)) \<and>
    TSQ_pop t = rbind (LQ_dequeue (lq_of t)) (\<lambda>(v, q). Inr (v, tq_of q))"
  using linked_queue.refines_list [of "createQueue h" ops] createQueue_inv [OF assms]
    TSQ_push_eq [of t v] TSQ_pop_eq [of t]
  by (simp add: apsnd_def)

theorem linked_queue_refines_list_witness:
  "fst (run_ops LQ_push LQ_pop [Push 1, Push 2, Pop, Pop, Pop] (createQueue empty_heap)) =
     [Accepted, Accepted, Got 1, Got 2, Got (-1)]"
  using linked_queue_refines_list [OF heap_ok_empty, of "[Push 1, Push 2, Pop, Pop, Pop]"]
  by (simp add: list_enq_def has_room_def)

text \<open>
  In whatever order the pushing threads get the lock, the pop loop of \<open>main\<close> ends and
  prints the pushed values: in lock order for the queue, in reverse lock order for the stack. (A pushed
  \<open>-1\<close> would be taken for emptiness, so none may be pushed.)
\<close>

theorem thread_safe_mains:
  assumes "-1 \<notin> set sched" and "length sched < fuel"
  shows "threadSafeQueue_main fuel sched = Some (Inr sched) \<and>
    threadPoolStack_main fuel sched = Some (Inr (rev sched))"
proof -
  have tw: "takeWhile (\<lambda>v. v \<noteq> -1) sched = sched" "takeWhile (\<lambda>v. v \<noteq> -1) (rev sched) = rev sched"
    using assms(1) by (auto simp: takeWhile_eq_all_conv)
  from TSQ_push_all_appends [OF TSQ_new_inv(1), of sched] TSQ_new_inv(2) obtain t where
    t: "TSQ_push_all (ThreadSafeQueue_new empty_heap) sched = Inr t" "TSQ_inv t" "TSQ_contents t = sched"
    by auto
  from TSS_push_all_rev [of "ThreadSafeStack_new empty_heap" sched] TSS_new_inv obtain s where
    s: "TSS_push_all (ThreadSafeStack_new empty_heap) sched = Inr s" "TSS_inv s" "TSS_contents s = rev sched"
    by auto
  show ?thesis
    using t s tw assms(2) TSQ_drain_takeWhile [of t fuel] TSS_drain_takeWhile [of s fuel]
    by (simp add: threadSafeQueue_main_def threadPoolStack_main_def)
qed

theorem thread_safe_mains_witness:
  "threadSafeQueue_main 5 [2, 0, 1] = Some (Inr [2, 0, 1]) \<and>
   threadPoolStack_main 5 [2, 0, 1] = Some (Inr [1, 0, 2])"
  using thread_safe_mains [of "[2, 0, 1]" 5] by simp

lemma linked_queue_main_prints: "linked_queue_main = Inr [10, 20, 30, -1]"
  by code_simp

end
