(* ===== verification/Lockfree_Stack.thy ===== *)
theory Lockfree_Stack
  imports Linked_Heap
begin

text \<open>
  The lock-free stack of \<open>threadPool/lockFreeStack.cpp\<close> as a step relation: every load, read through
  a node and compare-exchange of \<open>push\<close> and \<open>pop\<close> is one step, and the threads interleave at those
  steps. \<open>new\<close> may return any address that is not allocated, so an address can be used again after
  its node was deleted. A compare-exchange may fail spuriously, as \<open>compare_exchange_weak\<close> may.
\<close>

section \<open>Threads and the stack\<close>

text \<open>
  Where a thread is: outside both calls; in the loop of \<open>push\<close> with its \<open>newNode\<close>; in \<open>pop\<close> with
  \<open>oldHead\<close> loaded; in \<open>pop\<close> with \<open>oldHead->next\<close> read too; in \<open>pop\<close> after its successful exchange.
\<close>

datatype lf_pc = Outside | PushLoop addr | PopLoaded addr | PopExchange addr ptr | PopTaken addr

record lf_sys =
  lf_cells :: lcells
  lf_head :: ptr
  lf_thread :: "nat \<Rightarrow> lf_pc"
  lf_pushed :: "int list"
  lf_popped :: "int list"

definition lf_init :: lf_sys where
  "lf_init = \<lparr>lf_cells = (\<lambda>_. None), lf_head = None, lf_thread = (\<lambda>_. Outside), lf_pushed = [], lf_popped = []\<rparr>"

abbreviation goto :: "nat \<Rightarrow> lf_pc \<Rightarrow> lf_sys \<Rightarrow> lf_sys" where
  "goto i pc s \<equiv> s\<lparr>lf_thread := (lf_thread s)(i := pc)\<rparr>"

text \<open>Where \<open>pop\<close> goes once \<open>oldHead\<close> holds \<open>p\<close>: it returns \<open>-1\<close> on null, or enters its loop.\<close>

definition lf_pop_enter :: "ptr \<Rightarrow> lf_pc" where
  "lf_pop_enter p = (case p of None \<Rightarrow> Outside | Some a \<Rightarrow> PopLoaded a)"

text \<open>
  The steps of \<open>push\<close>. \<open>lf_pushed\<close> records the values in the order of the successful exchanges.
\<close>

inductive lf_push_step :: "nat \<Rightarrow> lf_sys \<Rightarrow> lf_sys \<Rightarrow> bool" where
  push_begin: "lf_thread s i = Outside \<Longrightarrow> lf_cells s a = None \<Longrightarrow>
    lf_push_step i s (goto i (PushLoop a)
      (s\<lparr>lf_cells := (lf_cells s)(a \<mapsto> \<lparr>node_val = v, node_next = lf_head s\<rparr>)\<rparr>))"
| push_cas: "lf_thread s i = PushLoop a \<Longrightarrow> lf_cells s a = Some nd \<Longrightarrow> lf_head s = node_next nd \<Longrightarrow>
    lf_push_step i s (goto i Outside (s\<lparr>lf_head := Some a, lf_pushed := lf_pushed s @ [node_val nd]\<rparr>))"
| push_retry: "lf_thread s i = PushLoop a \<Longrightarrow> lf_cells s a = Some nd \<Longrightarrow>
    lf_push_step i s (s\<lparr>lf_cells := (lf_cells s)(a \<mapsto> nd\<lparr>node_next := lf_head s\<rparr>)\<rparr>)"

text \<open>
  The steps of \<open>pop\<close>; \<open>lf_popped\<close> records the values returned. A step that reads through a deleted
  node has the result \<open>Inl DanglingPtr\<close>.
\<close>

inductive lf_pop_step :: "nat \<Rightarrow> lf_sys \<Rightarrow> lf_sys res \<Rightarrow> bool" where
  pop_load: "lf_thread s i = Outside \<Longrightarrow> lf_pop_step i s (Inr (goto i (lf_pop_enter (lf_head s)) s))"
| pop_next: "lf_thread s i = PopLoaded a \<Longrightarrow>
    lf_pop_step i s (rbind (deref (lf_cells s) (Some a)) (\<lambda>nd. Inr (goto i (PopExchange a (node_next nd)) s)))"
| pop_cas: "lf_thread s i = PopExchange a nx \<Longrightarrow> lf_head s = Some a \<Longrightarrow>
    lf_pop_step i s (Inr (goto i (PopTaken a) (s\<lparr>lf_head := nx\<rparr>)))"
| pop_retry: "lf_thread s i = PopExchange a nx \<Longrightarrow>
    lf_pop_step i s (Inr (goto i (lf_pop_enter (lf_head s)) s))"
| pop_return: "lf_thread s i = PopTaken a \<Longrightarrow>
    lf_pop_step i s (rbind (deref (lf_cells s) (Some a)) (\<lambda>nd.
      Inr (goto i Outside (s\<lparr>lf_cells := (lf_cells s)(a := None), lf_popped := lf_popped s @ [node_val nd]\<rparr>))))"

inductive lf_reachable :: "lf_sys \<Rightarrow> bool" where
  lf_start: "lf_reachable lf_init"
| lf_push: "lf_reachable s \<Longrightarrow> lf_push_step i s s' \<Longrightarrow> lf_reachable s'"
| lf_pop: "lf_reachable s \<Longrightarrow> lf_pop_step i s (Inr s') \<Longrightarrow> lf_reachable s'"

text \<open>
  The program of \<open>main\<close>: ten threads push and are joined, and only then one thread pops. \<open>lf_filling\<close>
  are the states of the first phase, \<open>lf_draining\<close> those of the second, in which thread \<open>0\<close> is
  \<open>main\<close> and all the others have ended.
\<close>

inductive lf_filling :: "lf_sys \<Rightarrow> bool" where
  fill_start: "lf_filling lf_init"
| fill_step: "lf_filling s \<Longrightarrow> lf_push_step i s s' \<Longrightarrow> lf_filling s'"

inductive lf_draining :: "lf_sys \<Rightarrow> bool" where
  drain_start: "lf_filling s \<Longrightarrow> \<forall>i. lf_thread s i = Outside \<Longrightarrow> lf_draining s"
| drain_step: "lf_draining s \<Longrightarrow> lf_pop_step 0 s (Inr s') \<Longrightarrow> lf_draining s'"

section \<open>The filling phase\<close>

text \<open>
  The nodes of the stack hold the pushed values, last one first; the node of a thread in \<open>push\<close> is
  its own and not in the stack.
\<close>

definition lf_fill_inv :: "lf_sys \<Rightarrow> bool" where
  "lf_fill_inv s \<longleftrightarrow> lf_popped s = [] \<and>
     (\<exists>as. lpath (lf_cells s) (lf_head s) as None \<and> vals (lf_cells s) as = rev (lf_pushed s) \<and>
       (\<forall>i a. lf_thread s i = PushLoop a \<longrightarrow> a \<notin> set as \<and> lf_cells s a \<noteq> None)) \<and>
     (\<forall>i j a. lf_thread s i = PushLoop a \<and> lf_thread s j = PushLoop a \<longrightarrow> i = j) \<and>
     (\<forall>i. lf_thread s i = Outside \<or> (\<exists>a. lf_thread s i = PushLoop a))"

lemma lf_fill_inv_init: "lf_fill_inv lf_init"
  by (auto simp: lf_fill_inv_def lf_init_def intro: exI [where x = "[]"])

lemma lf_fill_inv_step:
  assumes "lf_push_step i s s'" and "lf_fill_inv s"
  shows "lf_fill_inv s'"
proof -
  from assms(2) obtain as where
    as: "lpath (lf_cells s) (lf_head s) as None" "vals (lf_cells s) as = rev (lf_pushed s)"
      "\<And>i a. lf_thread s i = PushLoop a \<Longrightarrow> a \<notin> set as \<and> lf_cells s a \<noteq> None"
    and uniq: "\<And>i j a. lf_thread s i = PushLoop a \<Longrightarrow> lf_thread s j = PushLoop a \<Longrightarrow> i = j"
    and pcs: "\<And>i. lf_thread s i = Outside \<or> (\<exists>a. lf_thread s i = PushLoop a)"
    and popped: "lf_popped s = []"
    unfolding lf_fill_inv_def by blast
  from assms(1) show ?thesis
  proof (cases rule: lf_push_step.cases)
    case (push_begin a v)
    then have "a \<notin> set as" using lpath_allocated [OF as(1)] by blast
    moreover have "lf_thread s j \<noteq> PushLoop a" for j using as(3) [of j a] push_begin by auto
    ultimately show ?thesis
      using push_begin as pcs popped uniq
      unfolding lf_fill_inv_def by (intro conjI exI [where x = as]) auto
  next
    case (push_cas a nd)
    have "a \<notin> set as" using as(3) push_cas by blast
    then have "lpath (lf_cells s) (Some a) (a # as) None" "vals (lf_cells s) (a # as) = rev (lf_pushed s @ [node_val nd])"
      using as push_cas by simp_all
    with push_cas as pcs popped uniq show ?thesis
      unfolding lf_fill_inv_def by (intro conjI exI [where x = "a # as"]) auto
  next
    case (push_retry a nd)
    have "a \<notin> set as" using as(3) push_retry by blast
    with push_retry as pcs popped uniq show ?thesis
      unfolding lf_fill_inv_def by (intro conjI exI [where x = as]) auto
  qed
qed

lemma lf_filling_inv: "lf_filling s \<Longrightarrow> lf_fill_inv s"
  by (induction rule: lf_filling.induct) (simp_all add: lf_fill_inv_init lf_fill_inv_step)

section \<open>The draining phase\<close>

text \<open>
  \<open>main\<close>'s place in \<open>pop\<close> fits the stack, and what was popped, what \<open>main\<close> has taken out but not yet
  returned and what is in the stack are together the pushed values, last one first.
\<close>

fun lf_main_at :: "lf_pc \<Rightarrow> lf_sys \<Rightarrow> addr list \<Rightarrow> int list \<Rightarrow> bool" where
  "lf_main_at Outside s as taken \<longleftrightarrow> taken = []"
| "lf_main_at (PopLoaded a) s as taken \<longleftrightarrow> taken = [] \<and> lf_head s = Some a"
| "lf_main_at (PopExchange a nx) s as taken \<longleftrightarrow> taken = [] \<and> lf_head s = Some a \<and>
     (\<exists>nd. lf_cells s a = Some nd \<and> nx = node_next nd)"
| "lf_main_at (PopTaken a) s as taken \<longleftrightarrow> a \<notin> set as \<and>
     (\<exists>nd. lf_cells s a = Some nd \<and> taken = [node_val nd])"
| "lf_main_at (PushLoop a) s as taken \<longleftrightarrow> False"

definition lf_drain_inv :: "lf_sys \<Rightarrow> bool" where
  "lf_drain_inv s \<longleftrightarrow> (\<exists>as taken. lpath (lf_cells s) (lf_head s) as None \<and>
     lf_main_at (lf_thread s 0) s as taken \<and>
     lf_popped s @ taken @ vals (lf_cells s) as = rev (lf_pushed s))"

lemma lf_drain_invI:
  "lpath (lf_cells s) (lf_head s) as None \<Longrightarrow> lf_main_at (lf_thread s 0) s as taken \<Longrightarrow>
    lf_popped s @ taken @ vals (lf_cells s) as = rev (lf_pushed s) \<Longrightarrow> lf_drain_inv s"
  by (auto simp: lf_drain_inv_def)

lemma lf_drain_inv_step:
  assumes "lf_pop_step 0 s r" and "lf_drain_inv s"
  shows "\<exists>s'. r = Inr s' \<and> lf_drain_inv s'"
proof -
  from assms(2) obtain as taken where as: "lpath (lf_cells s) (lf_head s) as None"
    "lf_main_at (lf_thread s 0) s as taken" "lf_popped s @ taken @ vals (lf_cells s) as = rev (lf_pushed s)"
    unfolding lf_drain_inv_def by blast
  have enter: "lf_drain_inv (goto 0 (lf_pop_enter (lf_head s)) s)" if "taken = []"
    using as that by (intro lf_drain_invI [where as = as and taken = "[]"])
      (simp_all add: lf_pop_enter_def split: option.splits)
  from assms(1) show ?thesis
  proof (cases rule: lf_pop_step.cases)
    case pop_load
    with as enter show ?thesis by simp
  next
    case (pop_next a)
    with as obtain nd bs where "lf_cells s a = Some nd" "as = a # bs" "taken = []" "lf_head s = Some a"
      by (cases as) (auto split: option.splits)
    with pop_next as show ?thesis
      by (auto intro!: lf_drain_invI [where as = as and taken = "[]"])
  next
    case (pop_cas a nx)
    then obtain nd where "lf_cells s a = Some nd" "taken = []" "nx = node_next nd" using as(2) by auto
    moreover obtain bs where "as = a # bs" using as(1) pop_cas(3) by (cases as) auto
    ultimately have nd: "lf_cells s a = Some nd" "as = a # bs" "taken = []" "nx = node_next nd" by simp_all
    with as have "a \<notin> set bs" using lpath_ends_distinct [OF as(1)] by simp
    then have "lf_drain_inv (goto 0 (PopTaken a) (s\<lparr>lf_head := nx\<rparr>))"
      using as nd pop_cas by (intro lf_drain_invI [where as = bs and taken = "[node_val nd]"]) simp_all
    with pop_cas show ?thesis by simp
  next
    case (pop_retry a nx)
    with as enter show ?thesis by simp
  next
    case (pop_return a)
    with as obtain nd where nd: "lf_cells s a = Some nd" "a \<notin> set as" "taken = [node_val nd]" by auto
    with pop_return as show ?thesis
      by (auto intro!: lf_drain_invI [where as = as and taken = "[]"])
  qed
qed

lemma lf_drain_inv_start:
  assumes "lf_filling s" and "\<forall>i. lf_thread s i = Outside"
  shows "lf_drain_inv s"
  using lf_filling_inv [OF assms(1)] assms(2) by (auto simp: lf_fill_inv_def lf_drain_inv_def)

lemma lf_draining_inv: "lf_draining s \<Longrightarrow> lf_drain_inv s"
proof (induction rule: lf_draining.induct)
  case (drain_step s s')
  with lf_drain_inv_step [OF drain_step.hyps(2)] show ?case by auto
qed (rule lf_drain_inv_start)

section \<open>Properties\<close>

text \<open>
  Claim C6. However the pushing threads interleave, nothing is lost: at every moment the stack is a
  list of nodes that holds exactly the values whose exchange has succeeded, the last one on top, and
  no two threads work on the same node.
\<close>

theorem lf_push_phase:
  assumes "lf_filling s"
  shows "(\<exists>as. lpath (lf_cells s) (lf_head s) as None \<and> vals (lf_cells s) as = rev (lf_pushed s)) \<and>
    (\<forall>i j a. lf_thread s i = PushLoop a \<and> lf_thread s j = PushLoop a \<longrightarrow> i = j)"
  using lf_filling_inv [OF assms] by (auto simp: lf_fill_inv_def)

lemma lf_one_pushing:
  "lf_filling (lf_init\<lparr>lf_cells := [5 \<mapsto> \<lparr>node_val = 7, node_next = None\<rparr>],
     lf_thread := (\<lambda>_. Outside)(0 := PushLoop 5)\<rparr>)"
  using fill_step [OF fill_start push_begin [of lf_init 0 5 7]] by (simp add: lf_init_def)

lemma lf_one_pushed:
  "lf_filling (lf_init\<lparr>lf_cells := [5 \<mapsto> \<lparr>node_val = 7, node_next = None\<rparr>], lf_head := Some 5, lf_pushed := [7]\<rparr>)"
  using fill_step [OF lf_one_pushing push_cas [of _ 0 5]] by (simp add: lf_init_def fun_upd_idem)

theorem lf_push_phase_witness:
  "\<exists>s as. lf_filling s \<and> lpath (lf_cells s) (lf_head s) as None \<and> vals (lf_cells s) as = [7]"
proof -
  let ?s = "lf_init\<lparr>lf_cells := [5 \<mapsto> \<lparr>node_val = 7, node_next = None\<rparr>], lf_head := Some 5, lf_pushed := [7]\<rparr>"
  from lf_push_phase [OF lf_one_pushed] obtain as
    where "lpath (lf_cells ?s) (lf_head ?s) as None" "vals (lf_cells ?s) as = [7]" by auto
  with lf_one_pushed show ?thesis by blast
qed

text \<open>
  Once the pushing threads have been joined, the pops of \<open>main\<close> never read a deleted
  node, return the pushed values in reverse order of their exchanges, and have returned them all when
  a pop finds the stack empty.
\<close>

theorem lf_drain_phase:
  assumes "lf_draining s"
  shows "\<not> lf_pop_step 0 s (Inl e) \<and>
    (\<exists>rest. rev (lf_pushed s) = lf_popped s @ rest \<and>
      (lf_thread s 0 = Outside \<and> lf_head s = None \<longrightarrow> rest = []))"
proof -
  have inv: "lf_drain_inv s" by (rule lf_draining_inv [OF assms])
  then have "\<not> lf_pop_step 0 s (Inl e)" using lf_drain_inv_step by blast
  moreover from inv obtain as taken where as: "lpath (lf_cells s) (lf_head s) as None"
    "lf_main_at (lf_thread s 0) s as taken" "lf_popped s @ taken @ vals (lf_cells s) as = rev (lf_pushed s)"
    unfolding lf_drain_inv_def by blast
  then have "rev (lf_pushed s) = lf_popped s @ (taken @ vals (lf_cells s) as) \<and>
    (lf_thread s 0 = Outside \<and> lf_head s = None \<longrightarrow> taken @ vals (lf_cells s) as = [])"
    by auto
  ultimately show ?thesis by blast
qed

theorem lf_drain_phase_witness:
  "\<exists>s. lf_draining s \<and> \<not> lf_pop_step 0 s (Inl DanglingPtr) \<and> lf_pushed s = [7]"
proof -
  let ?s = "lf_init\<lparr>lf_cells := [5 \<mapsto> \<lparr>node_val = 7, node_next = None\<rparr>], lf_head := Some 5, lf_pushed := [7]\<rparr>"
  have "lf_draining ?s" by (rule drain_start [OF lf_one_pushed]) (simp add: lf_init_def)
  with lf_drain_phase [OF this, of DanglingPtr] show ?thesis by (intro exI [of _ ?s]) simp
qed

lemma lf_stale_pop:
  "lf_reachable (lf_init\<lparr>lf_pushed := [7], lf_popped := [7], lf_thread := (\<lambda>_. Outside)(1 := PopLoaded 5)\<rparr>)"
proof -
  let ?c = "[5 \<mapsto> \<lparr>node_val = 7, node_next = None\<rparr>]"
  let ?s = "lf_init\<lparr>lf_cells := ?c, lf_head := Some 5, lf_pushed := [7]\<rparr>"
  let ?t = "\<lambda>pc. (\<lambda>_. Outside)(1 := PopLoaded 5, 0 := pc)"
  have fill: "lf_filling s \<Longrightarrow> lf_reachable s" for s
    by (induction rule: lf_filling.induct) (auto intro: lf_reachable.intros)
  have "lf_reachable ?s" by (rule fill [OF lf_one_pushed])
  from lf_pop [OF this pop_load [of _ 1]]
  have "lf_reachable (?s\<lparr>lf_thread := ?t Outside\<rparr>)" by (simp add: lf_init_def lf_pop_enter_def fun_upd_idem fun_upd_twist)
  from lf_pop [OF this pop_load [of _ 0]]
  have "lf_reachable (?s\<lparr>lf_thread := ?t (PopLoaded 5)\<rparr>)" by (simp add: lf_init_def lf_pop_enter_def)
  from lf_pop [OF this, of 0] pop_next [of "?s\<lparr>lf_thread := ?t (PopLoaded 5)\<rparr>" 0 5]
  have "lf_reachable (?s\<lparr>lf_thread := ?t (PopExchange 5 None)\<rparr>)" by (simp add: lf_init_def)
  from lf_pop [OF this pop_cas [of _ 0 5 None]]
  have "lf_reachable (?s\<lparr>lf_head := None, lf_thread := ?t (PopTaken 5)\<rparr>)" by (simp add: lf_init_def)
  from lf_pop [OF this, of 0] pop_return [of "?s\<lparr>lf_head := None, lf_thread := ?t (PopTaken 5)\<rparr>" 0 5]
  show ?thesis by (simp add: lf_init_def fun_upd_idem fun_upd_twist)
qed

text \<open>
  Two pops that overlap can read a deleted node: a state is reachable in which a thread has
  loaded the head while another has popped and deleted that node, and its next step, the read of
  \<open>oldHead->next\<close>, goes through the freed pointer.
\<close>

theorem lf_pop_use_after_free: "\<exists>s i. lf_reachable s \<and> lf_pop_step i s (Inl DanglingPtr)"
proof -
  let ?s = "lf_init\<lparr>lf_pushed := [7], lf_popped := [7], lf_thread := (\<lambda>_. Outside)(1 := PopLoaded 5)\<rparr>"
  have "lf_pop_step 1 ?s (Inl DanglingPtr)" using pop_next [of ?s 1 5] by (simp add: lf_init_def)
  then show ?thesis using lf_stale_pop by blast
qed

end
