(* ===== verification/Linked_Lists.thy ===== *)
theory Linked_Lists
  imports Linked_Heap "HOL-Library.Multiset"
begin

text \<open>
  The algorithms on singly linked lists: \<open>arista/deleteNode.cpp\<close>, \<open>pureStorage/mergeLinkedList.cpp\<close>,
  \<open>pureStorage/middleNodeLinkedList.cpp\<close> and \<open>packetHandler/intersectionOfLinkedLists.cpp\<close>. A loop over
  a list need not end (the list may be cyclic), so the loops are partial functions into \<open>option\<close> whose value
  \<open>None\<close> means that the loop does not return; the results inside are error values or values.
\<close>

section \<open>A list class (\<open>arista/deleteNode.cpp\<close>)\<close>

record SingleLinkedList =
  sl_heap :: lheap
  sl_head :: ptr

definition SingleLinkedList_new :: "lheap \<Rightarrow> SingleLinkedList" where
  "SingleLinkedList_new h = \<lparr>sl_heap = h, sl_head = None\<rparr>"

partial_function (option) destroy_loop :: "lheap \<Rightarrow> ptr \<Rightarrow> lheap res option" where
  "destroy_loop h current =
     (if current = None then Some (Inr h)
      else case get_next h current of Inl e \<Rightarrow> Some (Inl e) | Inr nx \<Rightarrow>
        (case delete_obj h current of Inl e \<Rightarrow> Some (Inl e) | Inr h \<Rightarrow> destroy_loop h nx))"

definition SLL_destroy :: "SingleLinkedList \<Rightarrow> lheap res option" where
  "SLL_destroy l = destroy_loop (sl_heap l) (sl_head l)"

partial_function (option) last_loop :: "lheap \<Rightarrow> ptr \<Rightarrow> ptr res option" where
  "last_loop h cur =
     (case get_next h cur of Inl e \<Rightarrow> Some (Inl e)
      | Inr nx \<Rightarrow> if nx = None then Some (Inr cur) else last_loop h nx)"

definition SLL_insert :: "SingleLinkedList \<Rightarrow> int \<Rightarrow> SingleLinkedList res option" where
  "SLL_insert l v =
     (let (n, h) = new_node v (sl_heap l) in
      if sl_head l = None then Some (Inr (l\<lparr>sl_heap := h, sl_head := Some n\<rparr>))
      else case last_loop h (sl_head l) of None \<Rightarrow> None | Some (Inl e) \<Rightarrow> Some (Inl e)
        | Some (Inr cur) \<Rightarrow> Some (rbind (set_next h cur (Some n)) (\<lambda>h. Inr (l\<lparr>sl_heap := h\<rparr>))))"

partial_function (option) print_loop :: "lheap \<Rightarrow> ptr \<Rightarrow> int list \<Rightarrow> int list res option" where
  "print_loop h cur out =
     (if cur = None then Some (Inr out)
      else case get_val h cur of Inl e \<Rightarrow> Some (Inl e) | Inr v \<Rightarrow>
        (case get_next h cur of Inl e \<Rightarrow> Some (Inl e) | Inr nx \<Rightarrow> print_loop h nx (out @ [v])))"

definition SLL_printList :: "SingleLinkedList \<Rightarrow> int list res option" where
  "SLL_printList l = print_loop (sl_heap l) (sl_head l) []"

definition SLL_getHead :: "SingleLinkedList \<Rightarrow> ptr" where
  "SLL_getHead l = sl_head l"

definition SLL_deleteNode :: "SingleLinkedList \<Rightarrow> ptr \<Rightarrow> SingleLinkedList res" where
  "SLL_deleteNode l node =
     (if node = None then Inr l
      else
        let h = sl_heap l in
        rbind (get_next h node) (\<lambda>nx.
        rbind (get_val h nx) (\<lambda>v.
        rbind (set_val h node v) (\<lambda>h.
        rbind (get_next h nx) (\<lambda>nxx.
        rbind (set_next h node nxx) (\<lambda>h.
        rbind (delete_obj h nx) (\<lambda>h. Inr (l\<lparr>sl_heap := h\<rparr>))))))))"

fun SLL_insert_all :: "SingleLinkedList \<Rightarrow> int list \<Rightarrow> SingleLinkedList res option" where
  "SLL_insert_all l [] = Some (Inr l)"
| "SLL_insert_all l (v # vs) = (case SLL_insert l v of None \<Rightarrow> None | Some (Inl e) \<Rightarrow> Some (Inl e)
     | Some (Inr l) \<Rightarrow> SLL_insert_all l vs)"

text \<open>\<open>main\<close>: the two lists it prints.\<close>

definition deleteNode_main :: "(int list \<times> int list) option" where
  "deleteNode_main =
     (case SLL_insert_all (SingleLinkedList_new empty_heap) [1, 2, 3, 4] of Some (Inr l) \<Rightarrow>
        (case (SLL_printList l, rbind (get_next (sl_heap l) (SLL_getHead l)) (SLL_deleteNode l)) of
           (Some (Inr before), Inr l') \<Rightarrow>
             (case SLL_printList l' of Some (Inr after) \<Rightarrow> Some (before, after) | _ \<Rightarrow> None)
         | _ \<Rightarrow> None)
      | _ \<Rightarrow> None)"

declare destroy_loop.simps [code] last_loop.simps [code] print_loop.simps [code]

definition SLL_rep :: "SingleLinkedList \<Rightarrow> addr list \<Rightarrow> bool" where
  "SLL_rep l as \<longleftrightarrow> heap_ok (sl_heap l) \<and> lpath (cells (sl_heap l)) (sl_head l) as None"

definition SLL_vals :: "SingleLinkedList \<Rightarrow> addr list \<Rightarrow> int list" where
  "SLL_vals l as = vals (cells (sl_heap l)) as"

lemma last_loop_path:
  "lpath (cells h) p as None \<Longrightarrow> as \<noteq> [] \<Longrightarrow> last_loop h p = Some (Inr (Some (last as)))"
proof (induction as arbitrary: p)
  case (Cons a as)
  then obtain nd where "p = Some a" "cells h a = Some nd" "lpath (cells h) (node_next nd) as None"
    by (auto split: option.splits)
  with Cons.IH show ?case by (cases as) (auto simp: last_loop.simps)
qed simp

lemma print_loop_path:
  "lpath (cells h) p as None \<Longrightarrow> print_loop h p out = Some (Inr (out @ vals (cells h) as))"
proof (induction as arbitrary: p out)
  case (Cons a as)
  then obtain nd where "p = Some a" "cells h a = Some nd" "lpath (cells h) (node_next nd) as None"
    by (auto split: option.splits)
  with Cons.IH [of "node_next nd"] show ?case by (simp add: print_loop.simps)
qed (simp add: print_loop.simps)

lemma destroy_loop_path:
  "lpath (cells h) p as None \<Longrightarrow>
    destroy_loop h p = Some (Inr (h\<lparr>cells := (\<lambda>a. if a \<in> set as then None else cells h a)\<rparr>))"
proof (induction as arbitrary: h p)
  case (Cons a as)
  then obtain nd where nd: "p = Some a" "cells h a = Some nd" "lpath (cells h) (node_next nd) as None"
    by (auto split: option.splits)
  have na: "a \<notin> set as" using lpath_ends_distinct [OF Cons.prems] by simp
  let ?h = "h\<lparr>cells := (cells h)(a := None)\<rparr>"
  have "lpath (cells ?h) (node_next nd) as None" using nd na by simp
  from Cons.IH [OF this] have "destroy_loop ?h (node_next nd) =
      Some (Inr (h\<lparr>cells := (\<lambda>x. if x \<in> set (a # as) then None else cells h x)\<rparr>))"
    by (auto simp: fun_eq_iff intro!: arg_cong [where f = "\<lambda>c. h\<lparr>cells := c\<rparr>"])
  with nd show ?case by (simp add: destroy_loop.simps)
qed (simp add: destroy_loop.simps)

lemma SLL_insert_appends:
  assumes "SLL_rep l as"
  shows "\<exists>l' n. SLL_insert l v = Some (Inr l') \<and> SLL_rep l' (as @ [n]) \<and>
    SLL_vals l' (as @ [n]) = SLL_vals l as @ [v]"
proof -
  let ?h = "sl_heap l"
  let ?n = "brk ?h" and ?nd = "\<lparr>node_val = v, node_next = None\<rparr>"
  let ?h1 = "?h\<lparr>cells := (cells ?h)(?n \<mapsto> ?nd), brk := Suc ?n\<rparr>"
  have ok: "heap_ok ?h" and path: "lpath (cells ?h) (sl_head l) as None" using assms by (simp_all add: SLL_rep_def)
  note fresh = lpath_fresh_notin [OF ok path]
  show ?thesis
  proof (cases as rule: rev_cases)
    case Nil
    then show ?thesis using path ok
      by (auto simp: SLL_insert_def new_node_def new_obj_def SLL_rep_def SLL_vals_def intro!: exI [of _ ?n])
  next
    case (snoc bs b)
    obtain nd where b: "cells ?h b = Some nd" using lpath_allocated [OF path, of b] snoc by auto
    have dist: "distinct (bs @ [b])" using lpath_ends_distinct [OF path] snoc by simp
    have nb: "b \<noteq> ?n" using fresh snoc by auto
    have "lpath (cells ?h1) (sl_head l) as None" using path fresh by simp
    from last_loop_path [OF this] snoc have last: "last_loop ?h1 (sl_head l) = Some (Inr (Some b))" by simp
    let ?c = "(cells ?h)(?n \<mapsto> ?nd, b \<mapsto> nd\<lparr>node_next := Some ?n\<rparr>)"
    let ?l' = "l\<lparr>sl_heap := ?h\<lparr>cells := ?c, brk := Suc ?n\<rparr>\<rparr>"
    have "sl_head l \<noteq> None" using path snoc by (metis append_is_Nil_conv list.distinct(1) lpath_None)
    then have "SLL_insert l v = Some (Inr ?l')"
      using last b nb by (auto simp: SLL_insert_def new_node_def new_obj_def)
    moreover have "lpath ?c (sl_head l) (bs @ [b]) (Some ?n)" using path snoc dist b fresh by auto
    then have "SLL_rep ?l' (as @ [?n])"
      using ok heap_ok_less [OF ok b] snoc nb by (auto simp: SLL_rep_def heap_ok_def)
    moreover have "vals ?c as = vals (cells ?h) as" using b fresh nb by (auto simp: vals_def)
    then have "SLL_vals ?l' (as @ [?n]) = SLL_vals l as @ [v]" using nb by (simp add: SLL_vals_def)
    ultimately show ?thesis by blast
  qed
qed

lemma SLL_delete_inner:
  assumes rep: "SLL_rep l (us @ a # b # ws)"
  shows "\<exists>l'. SLL_deleteNode l (Some a) = Inr l' \<and> SLL_rep l' (us @ a # ws) \<and>
    SLL_vals l' (us @ a # ws) = SLL_vals l us @ SLL_vals l (b # ws) \<and>
    cells (sl_heap l') b = None \<and> (\<forall>x. x \<notin> {a, b} \<longrightarrow> cells (sl_heap l') x = cells (sl_heap l) x)"
proof -
  let ?h = "sl_heap l"
  have ok: "heap_ok ?h" and path: "lpath (cells ?h) (sl_head l) (us @ a # b # ws) None"
    using rep by (simp_all add: SLL_rep_def)
  from path obtain na nb where n: "lpath (cells ?h) (sl_head l) us (Some a)" "cells ?h a = Some na"
    "node_next na = Some b" "cells ?h b = Some nb" "lpath (cells ?h) (node_next nb) ws None"
    by (auto split: option.splits)
  have dist: "distinct (us @ a # b # ws)" by (rule lpath_ends_distinct [OF path])
  let ?na = "na\<lparr>node_val := node_val nb, node_next := node_next nb\<rparr>"
  let ?l' = "l\<lparr>sl_heap := ?h\<lparr>cells := (cells ?h)(a \<mapsto> ?na, b := None)\<rparr>\<rparr>"
  have "SLL_deleteNode l (Some a) = Inr ?l'" using n dist by (simp add: SLL_deleteNode_def Let_def)
  moreover have "SLL_rep ?l' (us @ a # ws)"
    using n dist ok heap_ok_less [OF ok n(2)] by (auto simp: SLL_rep_def heap_ok_def)
  moreover have "SLL_vals ?l' (us @ a # ws) = SLL_vals l us @ SLL_vals l (b # ws)"
    using n dist by (simp add: SLL_vals_def)
  ultimately show ?thesis using dist by auto
qed

section \<open>Merging sorted lists (\<open>pureStorage/mergeLinkedList.cpp\<close>)\<close>

partial_function (option) mergeTwoListsRecursive :: "lheap \<Rightarrow> ptr \<Rightarrow> ptr \<Rightarrow> (ptr \<times> lheap) res option" where
  "mergeTwoListsRecursive h l1 l2 =
     (if l1 = None then Some (Inr (l2, h))
      else if l2 = None then Some (Inr (l1, h))
      else case (load_obj h l1, load_obj h l2) of
        (Inr n1, Inr n2) \<Rightarrow>
          if node_val n1 < node_val n2
          then Option.bind (mergeTwoListsRecursive h (node_next n1) l2) (\<lambda>r.
            Some (rbind r (\<lambda>(m, h). rbind (set_next h l1 m) (\<lambda>h. Inr (l1, h)))))
          else Option.bind (mergeTwoListsRecursive h l1 (node_next n2)) (\<lambda>r.
            Some (rbind r (\<lambda>(m, h). rbind (set_next h l2 m) (\<lambda>h. Inr (l2, h)))))
      | (Inl e, _) \<Rightarrow> Some (Inl e)
      | (_, Inl e) \<Rightarrow> Some (Inl e))"

text \<open>The loop of the iterative version; \<open>nx\<close> is its local \<open>next\<close>, the last node linked so far.\<close>

partial_function (option) merge_loop :: "lheap \<Rightarrow> ptr \<Rightarrow> ptr \<Rightarrow> ptr \<Rightarrow> (ptr \<times> ptr \<times> ptr \<times> lheap) res option" where
  "merge_loop h l1 l2 nx =
     (if l1 = None \<or> l2 = None then Some (Inr (l1, l2, nx, h))
      else case (load_obj h l1, load_obj h l2) of
        (Inr n1, Inr n2) \<Rightarrow>
          if node_val n1 < node_val n2
          then (case set_next h nx l1 of Inl e \<Rightarrow> Some (Inl e) | Inr h \<Rightarrow> merge_loop h (node_next n1) l2 l1)
          else (case set_next h nx l2 of Inl e \<Rightarrow> Some (Inl e) | Inr h \<Rightarrow> merge_loop h l1 (node_next n2) l2)
      | (Inl e, _) \<Rightarrow> Some (Inl e)
      | (_, Inl e) \<Rightarrow> Some (Inl e))"

text \<open>\<open>dummy\<close> is a local object: it gets an address, and its storage ends with the call.\<close>

definition mergeTwoLists :: "lheap \<Rightarrow> ptr \<Rightarrow> ptr \<Rightarrow> (ptr \<times> lheap) res option" where
  "mergeTwoLists h l1 l2 =
     (let (dummy, h) = new_node 0 h in
      Option.bind (merge_loop h l1 l2 (Some dummy)) (\<lambda>r.
      Some (rbind r (\<lambda>(l1, l2, nx, h).
        rbind (set_next h nx (if l1 \<noteq> None then l1 else l2)) (\<lambda>h.
        rbind (get_next h (Some dummy)) (\<lambda>res.
        rbind (delete_obj h (Some dummy)) (\<lambda>h. Inr (res, h))))))))"

text \<open>The merge of two lists, taking from the second on equal keys as the code does.\<close>

fun merge_by :: "('a \<Rightarrow> int) \<Rightarrow> 'a list \<Rightarrow> 'a list \<Rightarrow> 'a list" where
  "merge_by f [] ys = ys"
| "merge_by f (x # xs) [] = x # xs"
| "merge_by f (x # xs) (y # ys) =
     (if f x < f y then x # merge_by f xs (y # ys) else y # merge_by f (x # xs) ys)"

lemma merge_by_Nil2 [simp]: "merge_by f xs [] = xs"
  by (cases xs) auto

lemma merge_by_set [simp]: "set (merge_by f xs ys) = set xs \<union> set ys"
  by (induction f xs ys rule: merge_by.induct) auto

lemma merge_by_mset: "mset (merge_by f xs ys) = mset xs + mset ys"
  by (induction f xs ys rule: merge_by.induct) auto

lemma merge_by_sorted: "sorted (map f xs) \<Longrightarrow> sorted (map f ys) \<Longrightarrow> sorted (map f (merge_by f xs ys))"
  by (induction f xs ys rule: merge_by.induct) (auto simp: order.strict_iff_order intro: order_trans)

lemma merge_by_cong:
  "(\<And>x. x \<in> set xs \<union> set ys \<Longrightarrow> f x = g x) \<Longrightarrow> merge_by f xs ys = merge_by g xs ys"
  by (induction f xs ys rule: merge_by.induct) auto

abbreviation cell_key :: "lcells \<Rightarrow> addr \<Rightarrow> int" where
  "cell_key c \<equiv> (\<lambda>a. node_val (the (c a)))"

text \<open>Only \<open>next\<close> fields of the two lists change.\<close>

definition relinked :: "addr set \<Rightarrow> lcells \<Rightarrow> lcells \<Rightarrow> bool" where
  "relinked A c c' \<longleftrightarrow> (\<forall>a. a \<notin> A \<longrightarrow> c' a = c a) \<and>
     (\<forall>a\<in>A. \<exists>nd p. c a = Some nd \<and> c' a = Some (nd\<lparr>node_next := p\<rparr>))"

lemma relinked_key:
  assumes "relinked A c c'"
  shows "cell_key c' a = cell_key c a"
proof (cases "a \<in> A")
  case True
  with assms obtain nd p where "c a = Some nd" "c' a = Some (nd\<lparr>node_next := p\<rparr>)" by (auto simp: relinked_def)
  then show ?thesis by simp
qed (use assms in \<open>simp add: relinked_def\<close>)

lemma relinked_upd:
  assumes "relinked A c c'" and "c' a = Some nd" "c a \<noteq> None"
  shows "relinked (insert a A) c (c'(a \<mapsto> nd\<lparr>node_next := p\<rparr>))"
proof (cases "a \<in> A")
  case True
  with assms(1) obtain nd' q where "c a = Some nd'" "c' a = Some (nd'\<lparr>node_next := q\<rparr>)"
    by (auto simp: relinked_def)
  with assms True show ?thesis by (auto simp: relinked_def)
next
  case False
  with assms show ?thesis by (auto simp: relinked_def)
qed

lemma relinked_refl: "(\<And>a. a \<in> B \<Longrightarrow> c a \<noteq> None) \<Longrightarrow> relinked B c c"
  by (auto simp: relinked_def) (metis lnode.surjective lnode.update_convs(2) not_None_eq)

lemma relinked_mono:
  assumes "relinked A c c'" and "A \<subseteq> B" and "\<And>a. a \<in> B \<Longrightarrow> c a \<noteq> None"
  shows "relinked B c c'"
  using assms relinked_refl [of B c] unfolding relinked_def by (metis subset_iff)

lemma mergeTwoListsRecursive_correct:
  assumes "lpath (cells h) l1 xs None" and "lpath (cells h) l2 ys None" and "set xs \<inter> set ys = {}"
  shows "\<exists>p h'. mergeTwoListsRecursive h l1 l2 = Some (Inr (p, h')) \<and> brk h' = brk h \<and>
    lpath (cells h') p (merge_by (cell_key (cells h)) xs ys) None \<and>
    relinked (set xs \<union> set ys) (cells h) (cells h')"
  using assms
proof (induction "length xs + length ys" arbitrary: xs ys l1 l2)
  case 0
  then show ?case by (auto simp: mergeTwoListsRecursive.simps relinked_def)
next
  case (Suc n)
  have alloc: "cells h a \<noteq> None" if "a \<in> set xs \<union> set ys" for a
    using that Suc.prems lpath_allocated by blast
  have refl: "relinked A (cells h) (cells h)" if "A \<subseteq> set xs \<union> set ys" for A
    using that alloc by (intro relinked_refl) auto
  show ?case
  proof (cases xs)
    case Nil
    with Suc.prems refl [of "set ys"] show ?thesis by (simp add: mergeTwoListsRecursive.simps)
  next
    case (Cons x xs')
    note xs = Cons
    show ?thesis
    proof (cases ys)
      case Nil
      with xs Suc.prems refl [of "set xs"] show ?thesis by (simp add: mergeTwoListsRecursive.simps)
    next
      case (Cons y ys')
      with xs Suc.prems obtain n1 n2 where n: "l1 = Some x" "cells h x = Some n1" "lpath (cells h) (node_next n1) xs' None"
        "l2 = Some y" "cells h y = Some n2" "lpath (cells h) (node_next n2) ys' None"
        by (auto split: option.splits)
      let ?m1 = "merge_by (cell_key (cells h)) xs' ys" and ?m2 = "merge_by (cell_key (cells h)) xs ys'"
      have dist: "x \<notin> set xs'" "y \<notin> set ys'"
        using lpath_ends_distinct [OF Suc.prems(1)] lpath_ends_distinct [OF Suc.prems(2)] xs Cons by simp_all
      show ?thesis
      proof (cases "node_val n1 < node_val n2")
        case True
        have "\<exists>p h'. mergeTwoListsRecursive h (node_next n1) l2 = Some (Inr (p, h')) \<and> brk h' = brk h \<and>
            lpath (cells h') p ?m1 None \<and> relinked (set xs' \<union> set ys) (cells h) (cells h')"
          by (rule Suc.hyps(1)) (use Suc.hyps(2) Suc.prems xs Cons n in auto)
        then obtain p h' where r: "mergeTwoListsRecursive h (node_next n1) l2 = Some (Inr (p, h'))"
          "brk h' = brk h" "lpath (cells h') p ?m1 None" "relinked (set xs' \<union> set ys) (cells h) (cells h')" by blast
        have x': "cells h' x = Some n1" "x \<notin> set ?m1"
          using r(4) n dist xs Cons Suc.prems(3) by (auto simp: relinked_def)
        have "relinked (set xs \<union> set ys) (cells h) ((cells h')(x \<mapsto> n1\<lparr>node_next := p\<rparr>))"
          using relinked_upd [OF r(4) x'(1)] n xs by simp
        with r x' n True xs Cons show ?thesis by (simp add: mergeTwoListsRecursive.simps [of h "Some x" "Some y"])
      next
        case False
        have "\<exists>p h'. mergeTwoListsRecursive h l1 (node_next n2) = Some (Inr (p, h')) \<and> brk h' = brk h \<and>
            lpath (cells h') p ?m2 None \<and> relinked (set xs \<union> set ys') (cells h) (cells h')"
          by (rule Suc.hyps(1)) (use Suc.hyps(2) Suc.prems xs Cons n in auto)
        then obtain p h' where r: "mergeTwoListsRecursive h l1 (node_next n2) = Some (Inr (p, h'))"
          "brk h' = brk h" "lpath (cells h') p ?m2 None" "relinked (set xs \<union> set ys') (cells h) (cells h')" by blast
        have y': "cells h' y = Some n2" "y \<notin> set ?m2"
          using r(4) n dist xs Cons Suc.prems(3) by (auto simp: relinked_def)
        have "relinked (set xs \<union> set ys) (cells h) ((cells h')(y \<mapsto> n2\<lparr>node_next := p\<rparr>))"
          using relinked_upd [OF r(4) y'(1)] n Cons by simp
        with r y' n False xs Cons show ?thesis by (simp add: mergeTwoListsRecursive.simps [of h "Some x" "Some y"])
      qed
    qed
  qed
qed

lemma relinked_trans:
  assumes "relinked A c c1" and "relinked B c1 c2"
  shows "relinked (A \<union> B) c c2"
  unfolding relinked_def
proof (intro conjI allI ballI impI)
  show "a \<notin> A \<union> B \<Longrightarrow> c2 a = c a" for a using assms by (simp add: relinked_def)
  show "\<exists>nd p. c a = Some nd \<and> c2 a = Some (nd\<lparr>node_next := p\<rparr>)" if "a \<in> A \<union> B" for a
  proof -
    have 1: "\<exists>nd p. c a = Some nd \<and> c1 a = Some (nd\<lparr>node_next := p\<rparr>)" if "a \<in> A"
      using assms(1) that by (simp add: relinked_def)
    have 2: "\<exists>nd p. c1 a = Some nd \<and> c2 a = Some (nd\<lparr>node_next := p\<rparr>)" if "a \<in> B"
      using assms(2) that by (simp add: relinked_def)
    have "c1 a = c a" if "a \<notin> A" using assms(1) that by (simp add: relinked_def)
    moreover have "c2 a = c1 a" if "a \<notin> B" using assms(2) that by (simp add: relinked_def)
    ultimately show ?thesis using that 1 2 by (cases "a \<in> A"; cases "a \<in> B") auto
  qed
qed

lemma relinked_upd_same: "c a = Some nd \<Longrightarrow> relinked {a} c (c(a \<mapsto> nd\<lparr>node_next := p\<rparr>))"
  by (auto simp: relinked_def)

lemma merge_by_relinked: "relinked A c c' \<Longrightarrow> merge_by (cell_key c') xs ys = merge_by (cell_key c) xs ys"
  by (rule merge_by_cong) (simp add: relinked_key)

text \<open>
  The state of the iterative merge: \<open>zs\<close> are the nodes linked so far, \<open>z\<close> the last one. What the loop and the
  final link after it make of it.
\<close>

definition merge_done :: "lheap \<Rightarrow> (ptr \<times> ptr \<times> ptr \<times> lheap) res option \<Rightarrow> addr set \<Rightarrow> ptr \<Rightarrow> addr list \<Rightarrow> bool" where
  "merge_done h r A p ms \<longleftrightarrow> (\<exists>l1 l2 nx h1 h'. r = Some (Inr (l1, l2, nx, h1)) \<and>
     set_next h1 nx (if l1 \<noteq> None then l1 else l2) = Inr h' \<and> brk h' = brk h \<and>
     lpath (cells h') p ms None \<and> relinked A (cells h) (cells h'))"

lemma merge_done_trans:
  assumes "merge_done h1 r A p ms" and "relinked B (cells h) (cells h1)" and "brk h1 = brk h"
  shows "merge_done h r (B \<union> A) p ms"
  using assms relinked_trans [OF assms(2)] unfolding merge_done_def by fastforce

lemma merge_loop_end:
  assumes "lpath (cells h) l ws None" and "lpath (cells h) p (zs @ [z]) q" and "distinct (zs @ z # ws)"
    and "l1 = None \<or> l2 = None" and "l = (if l1 \<noteq> None then l1 else l2)" and "set ws \<subseteq> A"
    and "\<And>a. a \<in> A \<Longrightarrow> cells h a \<noteq> None"
  shows "merge_done h (merge_loop h l1 l2 (Some z)) (insert z A) p (zs @ z # ws)"
proof -
  from assms(2) obtain nd where nd: "cells h z = Some nd" by (auto split: option.splits)
  let ?c = "(cells h)(z \<mapsto> nd\<lparr>node_next := l\<rparr>)"
  have "lpath ?c p (zs @ z # ws) None" using assms(1-3) nd by auto
  moreover have "relinked (insert z A) (cells h) ?c"
    by (rule relinked_mono [OF relinked_upd_same [of "cells h", OF nd]]) (use assms(7) nd in auto)
  ultimately show ?thesis
    using nd assms(4,5) by (auto simp: merge_done_def merge_loop.simps [of h l1 l2])
qed

lemma merge_loop_correct:
  assumes "lpath (cells h) l1 xs None" and "lpath (cells h) l2 ys None"
    and "lpath (cells h) p (zs @ [z]) q" and "distinct (zs @ z # xs @ ys)"
  shows "merge_done h (merge_loop h l1 l2 (Some z)) (insert z (set xs \<union> set ys)) p
    (zs @ z # merge_by (cell_key (cells h)) xs ys)"
  using assms
proof (induction n \<equiv> "length xs + length ys" arbitrary: h xs ys l1 l2 zs z q)
  case 0
  then show ?case using merge_loop_end [of h l1 "[]" p zs z q l1 l2 "{}"] by simp
next
  case (Suc n)
  have alloc: "cells h a \<noteq> None" if "a \<in> set xs \<union> set ys" for a
    using that Suc.prems lpath_allocated by blast
  from Suc.prems(3) obtain nz where nz: "cells h z = Some nz" "lpath (cells h) p zs (Some z)"
    by (auto split: option.splits)
  show ?case
  proof (cases "xs = [] \<or> ys = []")
    case True
    then show ?thesis
      using merge_loop_end [of h l1 xs p zs z q l1 l2 "set xs \<union> set ys"] alloc Suc.prems
        merge_loop_end [of h l2 ys p zs z q l1 l2 "set xs \<union> set ys"] by (cases xs; cases ys) auto
  next
    case False
    then obtain x xs' y ys' where xy: "xs = x # xs'" "ys = y # ys'" by (meson neq_Nil_conv)
    with Suc.prems obtain n1 n2 where n: "l1 = Some x" "cells h x = Some n1" "lpath (cells h) (node_next n1) xs' None"
      "l2 = Some y" "cells h y = Some n2" "lpath (cells h) (node_next n2) ys' None"
      by (auto split: option.splits)
    define h1 where "h1 = (\<lambda>t. h\<lparr>cells := (cells h)(z \<mapsto> nz\<lparr>node_next := Some t\<rparr>)\<rparr>)"
    have rel: "relinked {z} (cells h) (cells (h1 t))" "brk (h1 t) = brk h" for t
      using relinked_upd_same [of "cells h", OF nz(1)] by (simp_all add: h1_def)
    note key = merge_by_relinked [OF rel(1)]
    have zn: "z \<notin> set zs" "z \<noteq> x" "z \<noteq> y" "z \<notin> set xs'" "z \<notin> set ys'" using Suc.prems(4) xy by auto
    show ?thesis
    proof (cases "node_val n1 < node_val n2")
      case True
      have "merge_done (h1 x) (merge_loop (h1 x) (node_next n1) l2 (Some x)) (insert x (set xs' \<union> set ys)) p
          ((zs @ [z]) @ x # merge_by (cell_key (cells (h1 x))) xs' ys)"
        by (rule Suc.hyps(1)) (use Suc.hyps(2) Suc.prems xy n nz zn in \<open>auto simp: h1_def\<close>)
      from merge_done_trans [OF this rel] True xy n nz zn key [of x xs' ys] show ?thesis
        by (simp add: merge_loop.simps [of h "Some x" "Some y"] h1_def insert_commute)
    next
      case False
      have "merge_done (h1 y) (merge_loop (h1 y) l1 (node_next n2) (Some y)) (insert y (set xs \<union> set ys')) p
          ((zs @ [z]) @ y # merge_by (cell_key (cells (h1 y))) xs ys')"
        by (rule Suc.hyps(1)) (use Suc.hyps(2) Suc.prems xy n nz zn in \<open>auto simp: h1_def\<close>)
      from merge_done_trans [OF this rel] False xy n nz zn key [of y xs ys'] show ?thesis
        by (simp add: merge_loop.simps [of h "Some x" "Some y"] h1_def insert_commute)
    qed
  qed
qed

lemma relinked_local:
  assumes "relinked (insert d A) (c(d \<mapsto> nd)) c'" and "d \<notin> A" and "c d = None"
  shows "relinked A c (c'(d := None))"
  unfolding relinked_def
proof (intro conjI allI ballI impI)
  show "a \<notin> A \<Longrightarrow> (c'(d := None)) a = c a" for a using assms by (simp add: relinked_def)
  show "\<exists>nd p. c a = Some nd \<and> (c'(d := None)) a = Some (nd\<lparr>node_next := p\<rparr>)" if "a \<in> A" for a
  proof -
    from that assms(2) have "a \<noteq> d" by blast
    moreover from assms(1) that have "\<exists>n p. (c(d \<mapsto> nd)) a = Some n \<and> c' a = Some (n\<lparr>node_next := p\<rparr>)"
      by (simp add: relinked_def)
    ultimately show ?thesis by simp
  qed
qed

lemma mergeTwoLists_correct:
  assumes ok: "heap_ok h" and p1: "lpath (cells h) l1 xs None" and p2: "lpath (cells h) l2 ys None"
    and disj: "set xs \<inter> set ys = {}"
  shows "\<exists>p h'. mergeTwoLists h l1 l2 = Some (Inr (p, h')) \<and>
    lpath (cells h') p (merge_by (cell_key (cells h)) xs ys) None \<and>
    relinked (set xs \<union> set ys) (cells h) (cells h')"
proof -
  let ?d = "brk h"
  let ?h = "h\<lparr>cells := (cells h)(?d \<mapsto> \<lparr>node_val = 0, node_next = None\<rparr>), brk := Suc ?d\<rparr>"
  let ?m = "merge_by (cell_key (cells h)) xs ys"
  have nd: "?d \<notin> set xs" "?d \<notin> set ys" using lpath_fresh_notin [OF ok] p1 p2 by auto
  have loop: "merge_done ?h (merge_loop ?h l1 l2 (Some ?d)) (insert ?d (set xs \<union> set ys)) (Some ?d)
      ([] @ ?d # merge_by (cell_key (cells ?h)) xs ys)"
    by (rule merge_loop_correct [where q = None])
      (use p1 p2 nd disj lpath_ends_distinct in \<open>auto dest: lpath_ends_distinct\<close>)
  have "merge_by (cell_key (cells ?h)) xs ys = ?m" by (rule merge_by_cong) (use nd in auto)
  then have "merge_done ?h (merge_loop ?h l1 l2 (Some ?d)) (insert ?d (set xs \<union> set ys)) (Some ?d) (?d # ?m)"
    using loop by (simp only: append_Nil)
  then obtain l1' l2' nx h1 h' where r: "merge_loop ?h l1 l2 (Some ?d) = Some (Inr (l1', l2', nx, h1))"
    "set_next h1 nx (if l1' \<noteq> None then l1' else l2') = Inr h'" "lpath (cells h') (Some ?d) (?d # ?m) None"
    "relinked (insert ?d (set xs \<union> set ys)) (cells ?h) (cells h')"
    unfolding merge_done_def by blast
  from r(3) obtain nh where nh: "cells h' ?d = Some nh" "lpath (cells h') (node_next nh) ?m None"
    by (auto split: option.splits)
  let ?h2 = "h'\<lparr>cells := (cells h')(?d := None)\<rparr>"
  have "mergeTwoLists h l1 l2 = Some (Inr (node_next nh, ?h2))"
    using r(1,2) nh by (simp add: mergeTwoLists_def new_node_def new_obj_def)
  moreover have "lpath (cells ?h2) (node_next nh) ?m None" using nh nd by simp
  moreover have "relinked (set xs \<union> set ys) (cells h) (cells ?h2)"
    using relinked_local [of ?d "set xs \<union> set ys" "cells h"] r(4) nd ok by simp
  ultimately show ?thesis by blast
qed

section \<open>The middle node (\<open>pureStorage/middleNodeLinkedList.cpp\<close>)\<close>

partial_function (option) middle_loop :: "lheap \<Rightarrow> ptr \<Rightarrow> ptr \<Rightarrow> ptr res option" where
  "middle_loop h slow fast =
     (if fast = None then Some (Inr slow)
      else case get_next h fast of Inl e \<Rightarrow> Some (Inl e) | Inr f1 \<Rightarrow>
        if f1 = None then Some (Inr slow)
        else (case get_next h slow of Inl e \<Rightarrow> Some (Inl e) | Inr s1 \<Rightarrow>
          (case get_next h f1 of Inl e \<Rightarrow> Some (Inl e) | Inr f2 \<Rightarrow> middle_loop h s1 f2)))"

definition middleNode :: "lheap \<Rightarrow> ptr \<Rightarrow> ptr res option" where
  "middleNode h head = middle_loop h head head"

lemma lpath_ptr_at0: "lpath c p as None \<Longrightarrow> p = ptr_at as 0"
  by (cases as) (auto simp: ptr_at_def)

lemma middle_loop_path:
  assumes "lpath (cells h) slow as None" and "lpath (cells h) fast cs None" and "length cs \<le> length as"
  shows "middle_loop h slow fast = Some (Inr (ptr_at as (length cs div 2)))"
  using assms
proof (induction "length cs" arbitrary: slow fast as cs rule: less_induct)
  case less
  show ?case
  proof (cases cs)
    case Nil
    with less.prems lpath_ptr_at0 show ?thesis by (auto simp: middle_loop.simps)
  next
    case (Cons c1 cs1)
    then obtain n1 where n1: "fast = Some c1" "cells h c1 = Some n1" "lpath (cells h) (node_next n1) cs1 None"
      using less.prems by (auto split: option.splits)
    show ?thesis
    proof (cases cs1)
      case Nil
      with n1 Cons less.prems lpath_ptr_at0 [OF less.prems(1)] show ?thesis by (simp add: middle_loop.simps)
    next
      case (Cons c2 cs2)
      then obtain n2 where n2: "node_next n1 = Some c2" "cells h c2 = Some n2" "lpath (cells h) (node_next n2) cs2 None"
        using n1 by (auto split: option.splits)
      from less.prems Cons \<open>cs = c1 # cs1\<close> obtain a as' where a: "as = a # as'" by (cases as) auto
      with less.prems obtain na where na: "slow = Some a" "cells h a = Some na" "lpath (cells h) (node_next na) as' None"
        by (auto split: option.splits)
      have "middle_loop h (node_next na) (node_next n2) = Some (Inr (ptr_at as' (length cs2 div 2)))"
        by (rule less.hyps) (use Cons \<open>cs = c1 # cs1\<close> less.prems a na n2 in auto)
      with n1 n2 na a Cons \<open>cs = c1 # cs1\<close> show ?thesis by (simp add: middle_loop.simps [of h "Some a"])
    qed
  qed
qed

section \<open>Properties\<close>

text \<open>
  \<open>insert\<close> appends to the list; \<open>deleteNode\<close> on a node that has a successor removes that node's
  value from the list, frees exactly one node and changes no other node; on the last node of a list it
  reads through the null successor; and the destructor frees every node of the list and nothing else.
\<close>

theorem SingleLinkedList_correct:
  assumes "SLL_rep l as"
  shows "(\<exists>l' n. SLL_insert l v = Some (Inr l') \<and> SLL_rep l' (as @ [n]) \<and>
      SLL_printList l' = Some (Inr (SLL_vals l as @ [v]))) \<and>
    (\<forall>us a b ws. as = us @ a # b # ws \<longrightarrow> (\<exists>l'. SLL_deleteNode l (Some a) = Inr l' \<and>
      SLL_rep l' (us @ a # ws) \<and> SLL_printList l' = Some (Inr (SLL_vals l (us @ b # ws))) \<and>
      cells (sl_heap l') b = None \<and> (\<forall>x. x \<notin> {a, b} \<longrightarrow> cells (sl_heap l') x = cells (sl_heap l) x))) \<and>
    (as \<noteq> [] \<longrightarrow> SLL_deleteNode l (Some (last as)) = Inl NullDeref) \<and>
    SLL_destroy l = Some (Inr ((sl_heap l)\<lparr>cells := (\<lambda>a. if a \<in> set as then None else cells (sl_heap l) a)\<rparr>))"
proof (intro conjI allI impI)
  have print: "SLL_printList l = Some (Inr (SLL_vals l as))" if "SLL_rep l as" for l as
    using that print_loop_path [of "sl_heap l" "sl_head l" as "[]"]
    by (simp add: SLL_rep_def SLL_printList_def SLL_vals_def)
  show "\<exists>l' n. SLL_insert l v = Some (Inr l') \<and> SLL_rep l' (as @ [n]) \<and>
      SLL_printList l' = Some (Inr (SLL_vals l as @ [v]))"
    using SLL_insert_appends [OF assms, of v] print by metis
  show "\<exists>l'. SLL_deleteNode l (Some a) = Inr l' \<and> SLL_rep l' (us @ a # ws) \<and>
      SLL_printList l' = Some (Inr (SLL_vals l (us @ b # ws))) \<and> cells (sl_heap l') b = None \<and>
      (\<forall>x. x \<notin> {a, b} \<longrightarrow> cells (sl_heap l') x = cells (sl_heap l) x)" if "as = us @ a # b # ws" for us a b ws
    using SLL_delete_inner [of l us a b ws] assms that print by (metis SLL_vals_def vals_simps(3))
  show "SLL_deleteNode l (Some (last as)) = Inl NullDeref" if "as \<noteq> []"
  proof -
    from that obtain bs b where "as = bs @ [b]" by (cases as rule: rev_cases) auto
    with assms obtain nd where "cells (sl_heap l) b = Some nd" "node_next nd = None" "last as = b"
      by (auto simp: SLL_rep_def split: option.splits)
    then show ?thesis by (simp add: SLL_deleteNode_def)
  qed
  show "SLL_destroy l = Some (Inr ((sl_heap l)\<lparr>cells := (\<lambda>a. if a \<in> set as then None else cells (sl_heap l) a)\<rparr>))"
    using assms by (simp add: SLL_rep_def SLL_destroy_def destroy_loop_path)
qed

theorem SingleLinkedList_correct_witness:
  "SLL_deleteNode \<lparr>sl_heap = \<lparr>cells = [0 \<mapsto> \<lparr>node_val = 8, node_next = None\<rparr>], brk = 1\<rparr>, sl_head = Some 0\<rparr> (Some 0) =
     Inl NullDeref"
  using SingleLinkedList_correct [of "\<lparr>sl_heap = \<lparr>cells = [0 \<mapsto> \<lparr>node_val = 8, node_next = None\<rparr>], brk = 1\<rparr>, sl_head = Some 0\<rparr>" "[0]"]
  by (simp add: SLL_rep_def heap_ok_def)

lemma deleteNode_main_prints: "deleteNode_main = Some ([1, 2, 3, 4], [1, 3, 4])"
  by code_simp

text \<open>
  Claim C12. Both merges of two disjoint sorted lists end with a list of the same nodes whose values are sorted and are
  the values of the two lists; they relink the nodes in place, change no value and touch no other node, and the
  two versions produce the same order of nodes.
\<close>

theorem merge_versions_correct:
  assumes "heap_ok h" and "lpath (cells h) l1 xs None" and "lpath (cells h) l2 ys None" and "set xs \<inter> set ys = {}"
    and "sorted (vals (cells h) xs)" and "sorted (vals (cells h) ys)"
  shows "\<exists>p q h' h'' ms. mergeTwoLists h l1 l2 = Some (Inr (p, h')) \<and>
    mergeTwoListsRecursive h l1 l2 = Some (Inr (q, h'')) \<and>
    lpath (cells h') p ms None \<and> lpath (cells h'') q ms None \<and> mset ms = mset xs + mset ys \<and>
    sorted (vals (cells h') ms) \<and> vals (cells h') ms = vals (cells h) ms \<and> vals (cells h'') ms = vals (cells h) ms \<and>
    (\<forall>a. a \<notin> set xs \<union> set ys \<longrightarrow> cells h' a = cells h a \<and> cells h'' a = cells h a)"
proof -
  let ?ms = "merge_by (cell_key (cells h)) xs ys"
  from mergeTwoLists_correct [OF assms(1-4)] obtain p h' where
    1: "mergeTwoLists h l1 l2 = Some (Inr (p, h'))" "lpath (cells h') p ?ms None"
      "relinked (set xs \<union> set ys) (cells h) (cells h')" by blast
  from mergeTwoListsRecursive_correct [OF assms(2-4)] obtain q h'' where
    2: "mergeTwoListsRecursive h l1 l2 = Some (Inr (q, h''))" "lpath (cells h'') q ?ms None"
      "relinked (set xs \<union> set ys) (cells h) (cells h'')" by blast
  have v: "vals (cells h') as = vals (cells h) as" "vals (cells h'') as = vals (cells h) as" for as
    using relinked_key [OF 1(3)] relinked_key [OF 2(3)] by (simp_all add: vals_def)
  have "sorted (vals (cells h) ?ms)"
    using merge_by_sorted [of "cell_key (cells h)" xs ys] assms(5,6) by (simp add: vals_def)
  then show ?thesis
    using 1 2 v by (intro exI [of _ p] exI [of _ q] exI [of _ h'] exI [of _ h''] exI [of _ ?ms])
      (auto simp: merge_by_mset relinked_def)
qed

definition two_lists :: lheap where
  "two_lists = \<lparr>cells = [0 \<mapsto> \<lparr>node_val = 1, node_next = Some 1\<rparr>, 1 \<mapsto> \<lparr>node_val = 3, node_next = None\<rparr>,
     2 \<mapsto> \<lparr>node_val = 2, node_next = None\<rparr>], brk = 3\<rparr>"

lemma two_lists_paths:
  "heap_ok two_lists" "lpath (cells two_lists) (Some 0) [0, 1] None" "lpath (cells two_lists) (Some 2) [2] None"
  by (simp_all add: two_lists_def heap_ok_def)

theorem merge_versions_correct_witness:
  "\<exists>p h' ms. mergeTwoLists two_lists (Some 0) (Some 2) = Some (Inr (p, h')) \<and> lpath (cells h') p ms None \<and>
    mset ms = {#0, 1, 2#} \<and> sorted (vals (cells h') ms)"
proof -
  have "sorted (vals (cells two_lists) [0, 1])" "sorted (vals (cells two_lists) [2])"
    by (simp_all add: two_lists_def)
  from merge_versions_correct [OF two_lists_paths _ this] obtain p h' ms where
    "mergeTwoLists two_lists (Some 0) (Some 2) = Some (Inr (p, h'))" "lpath (cells h') p ms None"
    "mset ms = mset [0, 1] + mset [2]" "sorted (vals (cells h') ms)" by auto
  then show ?thesis by (intro exI [of _ p] exI [of _ h'] exI [of _ ms]) (simp add: add_mset_commute)
qed

text \<open>\<open>middleNode\<close> ends on every list and returns the node at half its length, null for the empty list.\<close>

theorem middleNode_correct:
  assumes "lpath (cells h) head as None"
  shows "middleNode h head = Some (Inr (if as = [] then None else Some (as ! (length as div 2))))"
  using middle_loop_path [OF assms assms] by (auto simp: middleNode_def ptr_at_def)

theorem middleNode_correct_witness: "middleNode two_lists (Some 0) = Some (Inr (Some 1))"
  using middleNode_correct [OF two_lists_paths(2)] by simp

end
