(* ===== verification/List_Intersection.thy ===== *)
theory List_Intersection
  imports Linked_Lists
begin

text \<open>
  \<open>packetHandler/intersectionOfLinkedLists.cpp\<close>: the four searches for the first node that two linked lists share,
  and that they agree on every pair of lists that end.
\<close>

section \<open>The intersection of two lists (\<open>packetHandler/intersectionOfLinkedLists.cpp\<close>)\<close>

partial_function (option) intersection_loop :: "lheap \<Rightarrow> ptr \<Rightarrow> ptr \<Rightarrow> ptr \<Rightarrow> ptr \<Rightarrow> ptr res option" where
  "intersection_loop h headA headB ptrA ptrB =
     (if ptrA = ptrB then Some (Inr ptrA)
      else case (if ptrA \<noteq> None then get_next h ptrA else Inr headB) of Inl e \<Rightarrow> Some (Inl e) | Inr a \<Rightarrow>
        (case (if ptrB \<noteq> None then get_next h ptrB else Inr headA) of Inl e \<Rightarrow> Some (Inl e) | Inr b \<Rightarrow>
          intersection_loop h headA headB a b))"

definition getIntersectionNode :: "lheap \<Rightarrow> ptr \<Rightarrow> ptr \<Rightarrow> ptr res option" where
  "getIntersectionNode h headA headB =
     (if headA = None \<or> headB = None then Some (Inr None) else intersection_loop h headA headB headA headB)"

text \<open>The inner loop of the brute force search: whether \<open>currA\<close> occurs from \<open>currB\<close> on.\<close>

partial_function (option) brute_inner :: "lheap \<Rightarrow> ptr \<Rightarrow> ptr \<Rightarrow> bool res option" where
  "brute_inner h currA currB =
     (if currB = None then Some (Inr False)
      else if currA = currB then Some (Inr True)
      else case get_next h currB of Inl e \<Rightarrow> Some (Inl e) | Inr b \<Rightarrow> brute_inner h currA b)"

partial_function (option) brute_outer :: "lheap \<Rightarrow> ptr \<Rightarrow> ptr \<Rightarrow> ptr res option" where
  "brute_outer h currA headB =
     (if currA = None then Some (Inr None)
      else Option.bind (brute_inner h currA headB) (\<lambda>found.
        case found of Inl e \<Rightarrow> Some (Inl e)
        | Inr f \<Rightarrow> if f then Some (Inr currA)
            else (case get_next h currA of Inl e \<Rightarrow> Some (Inl e) | Inr a \<Rightarrow> brute_outer h a headB)))"

definition getIntersectionNodeBruteForce :: "lheap \<Rightarrow> ptr \<Rightarrow> ptr \<Rightarrow> ptr res option" where
  "getIntersectionNodeBruteForce h headA headB = brute_outer h headA headB"

partial_function (option) collect_nodes :: "lheap \<Rightarrow> ptr \<Rightarrow> addr list \<Rightarrow> addr list res option" where
  "collect_nodes h currB nodesInB =
     (case currB of None \<Rightarrow> Some (Inr nodesInB)
      | Some b \<Rightarrow> (case get_next h currB of Inl e \<Rightarrow> Some (Inl e)
          | Inr nx \<Rightarrow> collect_nodes h nx (List.insert b nodesInB)))"

partial_function (option) hash_search :: "lheap \<Rightarrow> addr list \<Rightarrow> ptr \<Rightarrow> ptr res option" where
  "hash_search h nodesInB currA =
     (case currA of None \<Rightarrow> Some (Inr None)
      | Some a \<Rightarrow> if a \<in> set nodesInB then Some (Inr currA)
          else (case get_next h currA of Inl e \<Rightarrow> Some (Inl e) | Inr nx \<Rightarrow> hash_search h nodesInB nx))"

text \<open>The \<open>unordered_set\<close> of the nodes of B is the list of its elements, each once.\<close>

definition getIntersectionNodeUsingHashing :: "lheap \<Rightarrow> ptr \<Rightarrow> ptr \<Rightarrow> ptr res option" where
  "getIntersectionNodeUsingHashing h headA headB =
     Option.bind (collect_nodes h headB []) (\<lambda>r. case r of Inl e \<Rightarrow> Some (Inl e)
       | Inr nodesInB \<Rightarrow> hash_search h nodesInB headA)"

text \<open>\<open>lenA++\<close> overflows on a list of more than \<open>INT_MAX\<close> nodes.\<close>

partial_function (option) length_loop :: "lheap \<Rightarrow> ptr \<Rightarrow> int \<Rightarrow> int res option" where
  "length_loop h cur len =
     (if cur = None then Some (Inr len)
      else case chk32 (len + 1) of Inl e \<Rightarrow> Some (Inl e) | Inr len \<Rightarrow>
        (case get_next h cur of Inl e \<Rightarrow> Some (Inl e) | Inr nx \<Rightarrow> length_loop h nx len))"

fun advance :: "lheap \<Rightarrow> nat \<Rightarrow> ptr \<Rightarrow> ptr res" where
  "advance h 0 p = Inr p"
| "advance h (Suc n) p = rbind (get_next h p) (advance h n)"

partial_function (option) lockstep_loop :: "lheap \<Rightarrow> ptr \<Rightarrow> ptr \<Rightarrow> ptr res option" where
  "lockstep_loop h currA currB =
     (if currA = None \<or> currB = None then Some (Inr None)
      else if currA = currB then Some (Inr currA)
      else case (get_next h currA, get_next h currB) of
        (Inr a, Inr b) \<Rightarrow> lockstep_loop h a b
      | (Inl e, _) \<Rightarrow> Some (Inl e)
      | (_, Inl e) \<Rightarrow> Some (Inl e))"

definition getIntersectionNodeUsingLengthDifference :: "lheap \<Rightarrow> ptr \<Rightarrow> ptr \<Rightarrow> ptr res option" where
  "getIntersectionNodeUsingLengthDifference h headA headB =
     Option.bind (length_loop h headA 0) (\<lambda>ra. case ra of Inl e \<Rightarrow> Some (Inl e) | Inr lenA \<Rightarrow>
     Option.bind (length_loop h headB 0) (\<lambda>rb. case rb of Inl e \<Rightarrow> Some (Inl e) | Inr lenB \<Rightarrow>
       (case (if lenA > lenB then rbind (advance h (nat (lenA - lenB)) headA) (\<lambda>a. Inr (a, headB))
              else rbind (advance h (nat (lenB - lenA)) headB) (\<lambda>b. Inr (headA, b))) of
          Inl e \<Rightarrow> Some (Inl e) | Inr (currA, currB) \<Rightarrow> lockstep_loop h currA currB)))"

section \<open>Two lists share a suffix\<close>

lemma lpath_common_suffix:
  assumes "lpath c p xs None" and "lpath c q ys None"
  obtains as bs cs where "xs = as @ cs" "ys = bs @ cs" "set as \<inter> set ys = {}" "set bs \<inter> set xs = {}"
proof (cases "\<exists>a \<in> set xs. a \<in> set ys")
  case False
  then show thesis using that [of xs "[]" ys] by auto
next
  case True
  from split_list_first_prop [OF this] obtain as a us
    where xs: "xs = as @ a # us" and a: "a \<in> set ys" and fst: "\<forall>x\<in>set as. x \<notin> set ys" by blast
  from a obtain bs vs where ys: "ys = bs @ a # vs" by (meson split_list)
  have "lpath c (Some a) (a # us) None" "lpath c (Some a) (a # vs) None"
    using assms xs ys by (auto split: option.splits)
  from lpath_unique [OF this] have "us = vs" by simp
  moreover have "set bs \<inter> set xs = {}"
    using lpath_ends_distinct [OF assms(2)] xs ys fst \<open>us = vs\<close> by auto
  ultimately show thesis using that [of as "a # us" bs] xs ys fst by auto
qed

text \<open>The specification: the first node of A that is a node of B.\<close>

definition first_common :: "addr list \<Rightarrow> addr list \<Rightarrow> ptr" where
  "first_common xs ys = find (\<lambda>a. a \<in> set ys) xs"

lemma first_common_suffix:
  "set as \<inter> set (bs @ cs) = {} \<Longrightarrow> first_common (as @ cs) (bs @ cs) = ptr_at cs 0"
  by (induction as) (cases cs, auto simp: first_common_def)

section \<open>The searches\<close>

lemma brute_inner_path: "lpath (cells h) q ys None \<Longrightarrow> brute_inner h (Some a) q = Some (Inr (a \<in> set ys))"
proof (induction ys arbitrary: q)
  case (Cons y ys)
  then show ?case by (auto simp: brute_inner.simps [of h _ "Some y"] split: option.splits)
qed (simp add: brute_inner.simps)

lemma brute_outer_path:
  assumes "lpath (cells h) q ys None"
  shows "lpath (cells h) p xs None \<Longrightarrow> brute_outer h p q = Some (Inr (first_common xs ys))"
proof (induction xs arbitrary: p)
  case (Cons x xs)
  then show ?case using brute_inner_path [OF assms, of x]
    by (auto simp: brute_outer.simps [of h "Some x"] first_common_def split: option.splits)
qed (simp add: brute_outer.simps first_common_def)

lemma collect_nodes_path:
  "lpath (cells h) q ys None \<Longrightarrow> \<exists>S. collect_nodes h q acc = Some (Inr S) \<and> set S = set acc \<union> set ys"
proof (induction ys arbitrary: q acc)
  case (Cons y ys)
  then obtain nd where nd: "q = Some y" "cells h y = Some nd" "lpath (cells h) (node_next nd) ys None"
    by (auto split: option.splits)
  from Cons.IH [OF nd(3), of "List.insert y acc"] nd show ?case
    by (auto simp: collect_nodes.simps [of h "Some y"])
qed (simp add: collect_nodes.simps)

lemma hash_search_path:
  "lpath (cells h) p xs None \<Longrightarrow> set S = set ys \<Longrightarrow> hash_search h S p = Some (Inr (first_common xs ys))"
proof (induction xs arbitrary: p)
  case (Cons x xs)
  then show ?case
    by (auto simp: hash_search.simps [of h _ "Some x"] first_common_def split: option.splits)
qed (simp add: hash_search.simps first_common_def)

lemma length_loop_path:
  "lpath (cells h) p xs None \<Longrightarrow> 0 \<le> n \<Longrightarrow> n + int (length xs) \<le> INT_MAX \<Longrightarrow> length_loop h p n = Some (Inr (n + int (length xs)))"
proof (induction xs arbitrary: p n)
  case (Cons x xs)
  then show ?case by (auto simp: length_loop.simps [of h "Some x"] add.assoc split: option.splits)
qed (simp add: length_loop.simps)

lemma advance_path:
  "lpath (cells h) p xs None \<Longrightarrow> n \<le> length xs \<Longrightarrow>
    \<exists>p'. advance h n p = Inr p' \<and> lpath (cells h) p' (drop n xs) None"
proof (induction n arbitrary: p xs)
  case (Suc n)
  then show ?case by (cases xs) (auto split: option.splits)
qed simp

lemma lockstep_path:
  assumes "length as = length bs" and "lpath (cells h) p (as @ cs) None" and "lpath (cells h) q (bs @ cs) None"
    and "set as \<inter> set (bs @ cs) = {}"
  shows "lockstep_loop h p q = Some (Inr (ptr_at cs 0))"
  using assms
proof (induction as bs arbitrary: p q rule: list_induct2)
  case Nil
  then show ?case by (cases cs) (auto simp: lockstep_loop.simps)
next
  case (Cons a as b bs)
  then obtain na nb where n: "p = Some a" "cells h a = Some na" "lpath (cells h) (node_next na) (as @ cs) None"
    "q = Some b" "cells h b = Some nb" "lpath (cells h) (node_next nb) (bs @ cs) None"
    by (auto split: option.splits)
  with Cons.IH [OF n(3) n(6)] Cons.prems show ?case by (auto simp: lockstep_loop.simps [of h "Some a"])
qed

lemma length_difference_path:
  assumes p: "lpath (cells h) p (as @ cs) None" and q: "lpath (cells h) q (bs @ cs) None"
    and disj: "set as \<inter> set (bs @ cs) = {}"
    and len: "int (length (as @ cs)) \<le> INT_MAX" "int (length (bs @ cs)) \<le> INT_MAX"
  shows "getIntersectionNodeUsingLengthDifference h p q = Some (Inr (ptr_at cs 0))"
proof (cases "length as > length bs")
  case True
  let ?n = "length as - length bs"
  have "?n \<le> length (as @ cs)" "drop ?n (as @ cs) = drop ?n as @ cs" using True by auto
  with advance_path [OF p, of ?n] obtain p' where
    p': "advance h ?n p = Inr p'" "lpath (cells h) p' (drop ?n as @ cs) None" by metis
  have "lockstep_loop h p' q = Some (Inr (ptr_at cs 0))"
    by (rule lockstep_path [OF _ p'(2) q]) (use True disj set_drop_subset in \<open>force\<close>)+
  moreover have "nat (int (length (as @ cs)) - int (length (bs @ cs))) = ?n" by simp
  ultimately show ?thesis
    using length_loop_path [OF p, of 0] length_loop_path [OF q, of 0] len p' True
    by (simp add: getIntersectionNodeUsingLengthDifference_def)
next
  case False
  let ?n = "length bs - length as"
  have "?n \<le> length (bs @ cs)" "drop ?n (bs @ cs) = drop ?n bs @ cs" using False by auto
  with advance_path [OF q, of ?n] obtain q' where
    q': "advance h ?n q = Inr q'" "lpath (cells h) q' (drop ?n bs @ cs) None" by metis
  have "lockstep_loop h p q' = Some (Inr (ptr_at cs 0))"
    by (rule lockstep_path [OF _ p q'(2)]) (use False disj in \<open>auto dest: in_set_dropD\<close>)
  moreover have "nat (int (length (bs @ cs)) - int (length (as @ cs))) = ?n" by simp
  ultimately show ?thesis
    using length_loop_path [OF p, of 0] length_loop_path [OF q, of 0] len q' False
    by (simp add: getIntersectionNodeUsingLengthDifference_def)
qed

section \<open>The two-pointer search\<close>

text \<open>A pointer that runs through \<open>xs\<close>, the null behind it, \<open>ys\<close>, and the null behind that.\<close>

definition lap :: "addr list \<Rightarrow> addr list \<Rightarrow> nat \<Rightarrow> ptr" where
  "lap xs ys i = (if i \<le> length xs then ptr_at xs i else ptr_at ys (i - length xs - 1))"

lemma lpath_next_at:
  "lpath (cells h) p xs None \<Longrightarrow> i < length xs \<Longrightarrow> get_next h (ptr_at xs i) = Inr (ptr_at xs (Suc i))"
proof (induction xs arbitrary: p i)
  case (Cons x xs)
  then obtain nd where nd: "cells h x = Some nd" "lpath (cells h) (node_next nd) xs None"
    by (auto split: option.splits)
  with Cons lpath_ptr_at0 [OF nd(2)] show ?case by (cases i) auto
qed simp

lemma lap_next:
  assumes "lpath (cells h) p xs None" and "lpath (cells h) q ys None" and "i \<le> length xs + length ys"
  shows "(if lap xs ys i \<noteq> None then get_next h (lap xs ys i) else Inr q) = Inr (lap xs ys (Suc i))"
proof -
  consider "i < length xs" | "i = length xs" | "length xs < i" by linarith
  then show ?thesis
  proof cases
    case 1
    then show ?thesis using lpath_next_at [OF assms(1) 1] by (auto simp: lap_def ptr_at_def)
  next
    case 2
    then show ?thesis using lpath_ptr_at0 [OF assms(2)] by (simp add: lap_def ptr_at_def)
  next
    case 3
    then have "i - length xs - 1 < length ys" "Suc (i - length xs - 1) = Suc i - length xs - 1"
      using assms(3) by auto
    with 3 lpath_next_at [OF assms(2), of "i - length xs - 1"] show ?thesis
      by (auto simp: lap_def ptr_at_def)
  qed
qed

lemma intersection_loop_first:
  assumes "lpath (cells h) p xs None" and "lpath (cells h) q ys None"
    and "i \<le> k" and "k \<le> length xs + length ys + 1" and "lap xs ys k = lap ys xs k"
    and "\<And>j. i \<le> j \<Longrightarrow> j < k \<Longrightarrow> lap xs ys j \<noteq> lap ys xs j"
  shows "intersection_loop h p q (lap xs ys i) (lap ys xs i) = Some (Inr (lap xs ys k))"
  using assms(3-)
proof (induction "k - i" arbitrary: i)
  case 0
  then show ?case by (simp add: intersection_loop.simps)
next
  case (Suc n)
  have "intersection_loop h p q (lap xs ys (Suc i)) (lap ys xs (Suc i)) = Some (Inr (lap xs ys k))"
    by (rule Suc.hyps(1)) (use Suc.hyps(2) Suc.prems in auto)
  moreover have "i \<le> length xs + length ys" "lap xs ys i \<noteq> lap ys xs i" using Suc.hyps(2) Suc.prems by auto
  ultimately show ?case
    using lap_next [OF assms(1,2), of i] lap_next [OF assms(2,1), of i]
    by (subst intersection_loop.simps) simp
qed

lemma ptr_at_meet:
  assumes "distinct (as @ cs)" and "distinct (bs @ cs)" and "set as \<inter> set (bs @ cs) = {}" and "set bs \<inter> set (as @ cs) = {}"
    and "ptr_at (as @ cs) i = ptr_at (bs @ cs) k" and "i \<le> length (as @ cs)" and "k \<le> length (bs @ cs)"
  shows "\<exists>j. i = length as + j \<and> k = length bs + j"
proof (cases "i < length (as @ cs)")
  case False
  with assms(5-7) show ?thesis by (auto simp: ptr_at_def split: if_splits)
next
  case True
  with assms(5) have k: "k < length (bs @ cs)" "(as @ cs) ! i = (bs @ cs) ! k"
    by (auto simp: ptr_at_def split: if_splits)
  then have both: "(as @ cs) ! i \<in> set (bs @ cs)" "(bs @ cs) ! k \<in> set (as @ cs)" using True by (metis nth_mem)+
  have "\<not> i < length as" using both(1) assms(3) by (metis disjoint_iff nth_append nth_mem)
  moreover have "\<not> k < length bs" using both(2) assms(4) by (metis disjoint_iff nth_append nth_mem)
  ultimately have "cs ! (i - length as) = cs ! (k - length bs)" "i - length as < length cs" "k - length bs < length cs"
    using k True by (auto simp: nth_append)
  then have "i - length as = k - length bs" using assms(1) by (simp add: nth_eq_iff_index_eq)
  with \<open>\<not> i < length as\<close> \<open>\<not> k < length bs\<close> show ?thesis by (intro exI [of _ "i - length as"]) auto
qed

lemma ptr_at_inj: "distinct xs \<Longrightarrow> ptr_at xs i = ptr_at xs k \<Longrightarrow> i \<le> length xs \<Longrightarrow> k \<le> length xs \<Longrightarrow> i = k"
  by (auto simp: ptr_at_def nth_eq_iff_index_eq split: if_splits)

lemma ptr_at_suffix: "ptr_at (as @ cs) (length as + j) = ptr_at cs j"
  by (simp add: ptr_at_def nth_append)

lemma lap_first_meet:
  assumes dist: "distinct (as @ cs)" "distinct (bs @ cs)" and disj: "set as \<inter> set (bs @ cs) = {}" "set bs \<inter> set (as @ cs) = {}"
    and xy: "xs = as @ cs" "ys = bs @ cs" and k: "k \<le> length xs + length ys + 1"
    and meet: "lap xs ys k = lap ys xs k" and first: "\<And>j. j < k \<Longrightarrow> lap xs ys j \<noteq> lap ys xs j"
  shows "lap xs ys k = ptr_at cs 0"
proof -
  consider (both1) "k \<le> length xs" "k \<le> length ys" | (mixed1) "k \<le> length xs" "\<not> k \<le> length ys"
    | (mixed2) "\<not> k \<le> length xs" "k \<le> length ys" | (both2) "\<not> k \<le> length xs" "\<not> k \<le> length ys" by blast
  then show ?thesis
  proof cases
    case both1
    with meet obtain j where j: "k = length as + j" "k = length bs + j"
      using ptr_at_meet [OF dist disj, of k k] xy by (auto simp: lap_def)
    have "j = 0"
    proof (rule ccontr)
      assume "j \<noteq> 0"
      then have "lap xs ys (k - 1) = lap ys xs (k - 1)"
        using both1 j ptr_at_suffix [of as cs "j - 1"] ptr_at_suffix [of bs cs "j - 1"]
        by (simp add: lap_def xy)
      with first [of "k - 1"] j \<open>j \<noteq> 0\<close> show False by simp
    qed
    with both1 j xy ptr_at_suffix [of as cs 0] show ?thesis by (simp add: lap_def)
  next
    case mixed1
    then have "k = k - length ys - 1"
      using meet k dist xy by (intro ptr_at_inj [of xs]) (auto simp: lap_def)
    with mixed1 show ?thesis by simp
  next
    case mixed2
    then have "k = k - length xs - 1"
      using meet k dist xy by (intro ptr_at_inj [of ys]) (auto simp: lap_def)
    with mixed2 show ?thesis by simp
  next
    case both2
    then have "ptr_at xs (k - length ys - 1) = ptr_at ys (k - length xs - 1)"
      "k - length ys - 1 \<le> length xs" "k - length xs - 1 \<le> length ys"
      using meet k by (auto simp: lap_def)
    then obtain j where j: "k - length ys - 1 = length as + j" "k - length xs - 1 = length bs + j"
      using ptr_at_meet [OF dist disj] xy by blast
    have "j = 0"
    proof (rule ccontr)
      assume "j \<noteq> 0"
      then have "\<not> k - 1 \<le> length xs" "\<not> k - 1 \<le> length ys" "k - 1 - length ys - 1 = length as + (j - 1)"
        "k - 1 - length xs - 1 = length bs + (j - 1)" using j both2 by auto
      then have "lap xs ys (k - 1) = lap ys xs (k - 1)"
        using ptr_at_suffix [of as cs "j - 1"] ptr_at_suffix [of bs cs "j - 1"] by (simp add: lap_def xy)
      with first [of "k - 1"] both2 show False by simp
    qed
    with both2 j xy ptr_at_suffix [of bs cs 0] show ?thesis by (simp add: lap_def)
  qed
qed

lemma two_pointer_path:
  assumes p: "lpath (cells h) p (as @ cs) None" and q: "lpath (cells h) q (bs @ cs) None"
    and disj: "set as \<inter> set (bs @ cs) = {}" "set bs \<inter> set (as @ cs) = {}"
  shows "getIntersectionNode h p q = Some (Inr (ptr_at cs 0))"
proof (cases "p = None \<or> q = None")
  case True
  with p q have "cs = []" by auto
  with True show ?thesis by (auto simp: getIntersectionNode_def)
next
  case False
  let ?xs = "as @ cs" and ?ys = "bs @ cs"
  let ?P = "\<lambda>k. lap ?xs ?ys k = lap ?ys ?xs k"
  define k where "k = (LEAST k. ?P k)"
  have last: "?P (length ?xs + length ?ys + 1)" by (simp add: lap_def ptr_at_def)
  have k: "?P k" "k \<le> length ?xs + length ?ys + 1" "\<And>j. j < k \<Longrightarrow> \<not> ?P j"
    unfolding k_def by (rule LeastI [of ?P, OF last], rule Least_le [of ?P, OF last])
      (rule not_less_Least [of _ ?P])
  have start: "p = lap ?xs ?ys 0" "q = lap ?ys ?xs 0"
    using lpath_ptr_at0 [OF p] lpath_ptr_at0 [OF q] by (simp_all add: lap_def)
  have "intersection_loop h p q (lap ?xs ?ys 0) (lap ?ys ?xs 0) = Some (Inr (lap ?xs ?ys k))"
    by (rule intersection_loop_first [OF p q]) (use k in auto)
  also have "lap ?xs ?ys k = ptr_at cs 0"
    by (rule lap_first_meet [OF lpath_ends_distinct [OF p] lpath_ends_distinct [OF q] disj refl refl k(2,1)])
      (use k(3) in blast)
  finally show ?thesis using False start by (auto simp: getIntersectionNode_def)
qed

section \<open>Properties\<close>

lemma searches_first_common:
  assumes "lpath (cells h) headA xs None" and "lpath (cells h) headB ys None"
  shows "getIntersectionNode h headA headB = Some (Inr (first_common xs ys)) \<and>
    getIntersectionNodeBruteForce h headA headB = Some (Inr (first_common xs ys)) \<and>
    getIntersectionNodeUsingHashing h headA headB = Some (Inr (first_common xs ys)) \<and>
    (int (length xs) \<le> INT_MAX \<and> int (length ys) \<le> INT_MAX \<longrightarrow>
      getIntersectionNodeUsingLengthDifference h headA headB = Some (Inr (first_common xs ys)))"
proof -
  obtain as bs cs where s: "xs = as @ cs" "ys = bs @ cs" "set as \<inter> set ys = {}" "set bs \<inter> set xs = {}"
    using lpath_common_suffix [OF assms] by metis
  then have fc: "first_common xs ys = ptr_at cs 0" by (simp add: first_common_suffix)
  from collect_nodes_path [OF assms(2), of "[]"] obtain S where
    "collect_nodes h headB [] = Some (Inr S)" "set S = set ys" by auto
  then have "getIntersectionNodeUsingHashing h headA headB = Some (Inr (first_common xs ys))"
    using hash_search_path [OF assms(1)] by (simp add: getIntersectionNodeUsingHashing_def)
  moreover have "getIntersectionNodeBruteForce h headA headB = Some (Inr (first_common xs ys))"
    using brute_outer_path [OF assms(2,1)] by (simp add: getIntersectionNodeBruteForce_def)
  moreover have "getIntersectionNode h headA headB = Some (Inr (ptr_at cs 0))"
    using assms s by (intro two_pointer_path [where as = as and bs = bs]) auto
  moreover have "getIntersectionNodeUsingLengthDifference h headA headB = Some (Inr (ptr_at cs 0))"
    if "int (length xs) \<le> INT_MAX \<and> int (length ys) \<le> INT_MAX"
    using assms s that by (intro length_difference_path [where as = as and bs = bs]) auto
  ultimately show ?thesis using fc by simp
qed

text \<open>
  Claim C14. On any two lists that end, sharing nodes or not, the two-pointer, the brute-force and the hashing search return, without a bad access, and return
  the same pointer: the first node of list A that is also a node of list B, or null when they share none. So does the search by the difference of the lengths, which it
  counts in an \<open>int\<close>, on lists of at most \<open>INT_MAX\<close> nodes.
\<close>

theorem intersections_agree:
  assumes "lpath (cells h) headA xs None" and "lpath (cells h) headB ys None"
  shows "getIntersectionNode h headA headB = Some (Inr (first_common xs ys)) \<and>
    getIntersectionNodeBruteForce h headA headB = Some (Inr (first_common xs ys)) \<and>
    getIntersectionNodeUsingHashing h headA headB = Some (Inr (first_common xs ys)) \<and>
    (int (length xs) \<le> INT_MAX \<and> int (length ys) \<le> INT_MAX \<longrightarrow>
      getIntersectionNodeUsingLengthDifference h headA headB = Some (Inr (first_common xs ys)))"
  using assms by (rule searches_first_common)

text \<open>The two lists that \<open>main\<close> builds: 4, 1, 2 and 5, 0, 1, joined before 8, 4, 5.\<close>

definition intersection_lists :: lheap where
  "intersection_lists = \<lparr>cells = [0 \<mapsto> \<lparr>node_val = 8, node_next = Some 1\<rparr>, 1 \<mapsto> \<lparr>node_val = 4, node_next = Some 2\<rparr>,
     2 \<mapsto> \<lparr>node_val = 5, node_next = None\<rparr>, 3 \<mapsto> \<lparr>node_val = 4, node_next = Some 4\<rparr>,
     4 \<mapsto> \<lparr>node_val = 1, node_next = Some 5\<rparr>, 5 \<mapsto> \<lparr>node_val = 2, node_next = Some 0\<rparr>,
     6 \<mapsto> \<lparr>node_val = 5, node_next = Some 7\<rparr>, 7 \<mapsto> \<lparr>node_val = 0, node_next = Some 8\<rparr>,
     8 \<mapsto> \<lparr>node_val = 1, node_next = Some 0\<rparr>], brk = 9\<rparr>"

theorem intersections_agree_witness:
  "getIntersectionNode intersection_lists (Some 3) (Some 6) = Some (Inr (Some 0)) \<and>
   getIntersectionNodeUsingLengthDifference intersection_lists (Some 3) (Some 6) = Some (Inr (Some 0))"
proof -
  have "lpath (cells intersection_lists) (Some 3) [3, 4, 5, 0, 1, 2] None"
    "lpath (cells intersection_lists) (Some 6) [6, 7, 8, 0, 1, 2] None"
    by (simp_all add: intersection_lists_def)
  from intersections_agree [OF this] show ?thesis by (simp add: first_common_def)
qed

end
