(* ===== verification/List_Loops.thy ===== *)
theory List_Loops
  imports List_Intersection
begin

text \<open>
  \<open>pureStorage/detectLoopLinkedList.cpp\<close>: Floyd's cycle detection, the start of the cycle, and its
  removal. The three functions repeat the same first loop, which is \<open>floyd_loop\<close> here; it returns its two
  pointers and whether it was left by the test \<open>slow == fast\<close>.
\<close>

section \<open>The functions\<close>

partial_function (option) floyd_loop :: "lheap \<Rightarrow> ptr \<Rightarrow> ptr \<Rightarrow> (ptr \<times> ptr \<times> bool) res option" where
  "floyd_loop h slow fast =
     (if fast = None then Some (Inr (slow, fast, False))
      else case get_next h fast of Inl e \<Rightarrow> Some (Inl e) | Inr f1 \<Rightarrow>
        if f1 = None then Some (Inr (slow, fast, False))
        else (case get_next h slow of Inl e \<Rightarrow> Some (Inl e) | Inr slow \<Rightarrow>
          (case get_next h f1 of Inl e \<Rightarrow> Some (Inl e) | Inr fast \<Rightarrow>
            if slow = fast then Some (Inr (slow, fast, True)) else floyd_loop h slow fast)))"

definition detectLoop :: "lheap \<Rightarrow> ptr \<Rightarrow> bool res option" where
  "detectLoop h head = Option.bind (floyd_loop h head head) (\<lambda>r. Some (rbind r (\<lambda>(_, _, met). Inr met)))"

partial_function (option) meet_loop :: "lheap \<Rightarrow> ptr \<Rightarrow> ptr \<Rightarrow> ptr res option" where
  "meet_loop h slow fast =
     (if slow = fast then Some (Inr slow)
      else case get_next h slow of Inl e \<Rightarrow> Some (Inl e) | Inr s \<Rightarrow>
        (case get_next h fast of Inl e \<Rightarrow> Some (Inl e) | Inr f \<Rightarrow> meet_loop h s f))"

definition startOfLoop :: "lheap \<Rightarrow> ptr \<Rightarrow> ptr res option" where
  "startOfLoop h head = Option.bind (floyd_loop h head head) (\<lambda>r. case r of Inl e \<Rightarrow> Some (Inl e)
     | Inr (slow, fast, _) \<Rightarrow>
         if fast = None then Some (Inr None)
         else (case get_next h fast of Inl e \<Rightarrow> Some (Inl e)
           | Inr f1 \<Rightarrow> if f1 = None then Some (Inr None) else meet_loop h head fast))"

partial_function (option) fix_loop :: "lheap \<Rightarrow> ptr \<Rightarrow> ptr \<Rightarrow> ptr res option" where
  "fix_loop h slow fast =
     (case get_next h slow of Inl e \<Rightarrow> Some (Inl e) | Inr s \<Rightarrow>
       (case get_next h fast of Inl e \<Rightarrow> Some (Inl e) | Inr f \<Rightarrow>
         if s = f then Some (Inr fast) else fix_loop h s f))"

definition fixLoop :: "lheap \<Rightarrow> ptr \<Rightarrow> (bool \<times> lheap) res option" where
  "fixLoop h head = Option.bind (floyd_loop h head head) (\<lambda>r. case r of Inl e \<Rightarrow> Some (Inl e)
     | Inr (slow, fast, _) \<Rightarrow>
         if slow = fast
         then Option.bind (fix_loop h head fast) (\<lambda>r. Some (rbind r (\<lambda>fast.
                rbind (set_next h fast None) (\<lambda>h. Inr (True, h)))))
         else Some (Inr (False, h)))"

declare floyd_loop.simps [code] meet_loop.simps [code] fix_loop.simps [code]

section \<open>Lists that run into a cycle\<close>

text \<open>\<open>rho c p as bs\<close>: from \<open>p\<close> the list runs through \<open>as\<close> into the cycle \<open>bs\<close>.\<close>

definition rho :: "lcells \<Rightarrow> ptr \<Rightarrow> addr list \<Rightarrow> addr list \<Rightarrow> bool" where
  "rho c p as bs \<longleftrightarrow> bs \<noteq> [] \<and> distinct (as @ bs) \<and> lpath c p (as @ bs) (Some (hd bs))"

definition rho_idx :: "nat \<Rightarrow> nat \<Rightarrow> nat \<Rightarrow> nat" where
  "rho_idx mu lam k = (if k < mu then k else mu + (k - mu) mod lam)"

definition rho_at :: "addr list \<Rightarrow> addr list \<Rightarrow> nat \<Rightarrow> addr" where
  "rho_at as bs k = (as @ bs) ! rho_idx (length as) (length bs) k"

lemma rho_idx_less: "0 < lam \<Longrightarrow> rho_idx mu lam k < mu + lam"
  by (simp add: rho_idx_def)

lemma rho_idx_Suc:
  assumes "0 < lam"
  shows "rho_idx mu lam (Suc k) = (if Suc (rho_idx mu lam k) < mu + lam then Suc (rho_idx mu lam k) else mu)"
proof -
  consider "Suc k < mu" | "Suc k = mu" | "mu \<le> k" by linarith
  then show ?thesis
    by cases (use assms mod_less_divisor [OF assms, of "k - mu"] in \<open>auto simp: rho_idx_def Suc_diff_le mod_Suc\<close>)
qed

lemma lpath_next_nth:
  "lpath (cells h) p xs q \<Longrightarrow> i < length xs \<Longrightarrow>
    get_next h (Some (xs ! i)) = Inr (if Suc i < length xs then Some (xs ! Suc i) else q)"
proof (induction xs arbitrary: p i)
  case (Cons x xs)
  then obtain nd where nd: "cells h x = Some nd" "lpath (cells h) (node_next nd) xs q"
    by (auto split: option.splits)
  with Cons show ?case by (cases i; cases xs) auto
qed simp

lemma rho_next:
  assumes "rho (cells h) p as bs"
  shows "get_next h (Some (rho_at as bs k)) = Inr (Some (rho_at as bs (Suc k)))"
proof -
  have "(as @ bs) ! length as = hd bs" using assms by (simp add: rho_def hd_conv_nth nth_append)
  then show ?thesis
    using assms lpath_next_nth [of h p "as @ bs" "Some (hd bs)" "rho_idx (length as) (length bs) k"]
    by (simp add: rho_def rho_at_def rho_idx_Suc rho_idx_less)
qed

lemma rho_start: "rho c p as bs \<Longrightarrow> p = Some (rho_at as bs 0)"
  by (cases as; cases bs) (auto simp: rho_def rho_at_def rho_idx_def)

lemma rho_at_eq:
  assumes "rho c p as bs"
  shows "rho_at as bs i = rho_at as bs j \<longleftrightarrow> rho_idx (length as) (length bs) i = rho_idx (length as) (length bs) j"
  using assms rho_idx_less [of "length bs" "length as"]
  by (simp add: rho_def rho_at_def nth_eq_iff_index_eq del: distinct_append)

text \<open>Two positions \<open>m\<close> apart are the same node from the cycle's start on, and only there.\<close>

lemma rho_idx_shift:
  assumes "0 < lam" and "lam dvd m" and "mu \<le> m"
  shows "rho_idx mu lam j = rho_idx mu lam (m + j) \<longleftrightarrow> mu \<le> j"
proof (cases "mu \<le> j")
  case True
  then have "m + j - mu = (j - mu) + m" by simp
  moreover from assms(2) obtain t where "m = lam * t" by (rule dvdE)
  ultimately have "(m + j - mu) mod lam = (j - mu) mod lam" by (simp only: mod_mult_self2)
  with True show ?thesis by (simp add: rho_idx_def)
qed (use assms in \<open>auto simp: rho_idx_def\<close>)

lemma rho_idx_double:
  assumes "0 < lam" and "0 < k"
  shows "rho_idx mu lam k = rho_idx mu lam (2 * k) \<longleftrightarrow> mu \<le> k \<and> lam dvd k"
proof (cases "mu \<le> k")
  case True
  then have d: "2 * k - mu = (k - mu) + k" by simp
  have "(k - mu) mod lam = ((k - mu) + k) mod lam \<longleftrightarrow> lam dvd k"
    by (metis add_diff_cancel_left' mod_eq_dvd_iff_nat le_add1)
  with True d show ?thesis by (simp add: rho_idx_def)
qed (use assms in \<open>auto simp: rho_idx_def\<close>)

lemma floyd_loop_rho:
  assumes rho: "rho (cells h) p as bs" and "k < K" and "length as \<le> K" and "length bs dvd K"
  shows "\<exists>m>0. length as \<le> m \<and> length bs dvd m \<and>
    floyd_loop h (Some (rho_at as bs k)) (Some (rho_at as bs (2 * k))) =
      Some (Inr (Some (rho_at as bs m), Some (rho_at as bs m), True))"
  using assms(2)
proof (induction "K - k" arbitrary: k)
  case (Suc n)
  have lam: "0 < length bs" using rho by (simp add: rho_def)
  note nx = rho_next [OF rho]
  have step: "floyd_loop h (Some (rho_at as bs k)) (Some (rho_at as bs (2 * k))) =
      (if rho_at as bs (Suc k) = rho_at as bs (2 * Suc k)
       then Some (Inr (Some (rho_at as bs (Suc k)), Some (rho_at as bs (2 * Suc k)), True))
       else floyd_loop h (Some (rho_at as bs (Suc k))) (Some (rho_at as bs (2 * Suc k))))"
    by (subst floyd_loop.simps) (simp add: nx)
  show ?case
  proof (cases "rho_at as bs (Suc k) = rho_at as bs (2 * Suc k)")
    case True
    then have "length as \<le> Suc k \<and> length bs dvd Suc k"
      using rho_idx_double [OF lam, of "Suc k"] by (simp add: rho_at_eq [OF rho])
    with step True show ?thesis by (intro exI [of _ "Suc k"]) simp
  next
    case False
    have "Suc k \<noteq> K"
      using False assms(3,4) rho_idx_double [OF lam, of "Suc k" "length as"] by (auto simp: rho_at_eq [OF rho])
    then have "Suc k < K" "n = K - Suc k" using Suc.prems Suc.hyps(2) by auto
    from Suc.hyps(1) [OF this(2,1)] step False show ?thesis by simp
  qed
qed simp

lemma floyd_meets:
  assumes "rho (cells h) p as bs"
  obtains m where "0 < m" "length as \<le> m" "length bs dvd m"
    "floyd_loop h p p = Some (Inr (Some (rho_at as bs m), Some (rho_at as bs m), True))"
proof -
  have lam: "0 < length bs" using assms by (simp add: rho_def)
  then have "1 * Suc (length as) \<le> length bs * Suc (length as)" by (intro mult_le_mono1) linarith
  then have "length as \<le> length bs * Suc (length as)" by (simp only: nat_mult_1 Suc_leD)
  moreover have "0 < length bs * Suc (length as)" using lam by simp
  ultimately show thesis
    using floyd_loop_rho [OF assms, of 0 "length bs * Suc (length as)"] rho_start [OF assms] that by auto
qed

lemma floyd_loop_ends:
  assumes "lpath (cells h) p as None" and "2 * k \<le> length as"
  shows "\<exists>s f. floyd_loop h (ptr_at as k) (ptr_at as (2 * k)) = Some (Inr (s, f, False)) \<and>
    (f = None \<or> get_next h f = Inr None) \<and> (s = f \<longrightarrow> length as \<le> 1)"
  using assms(2)
proof (induction "length as - 2 * k" arbitrary: k rule: less_induct)
  case less
  note nx = lpath_next_at [OF assms(1)]
  consider (End) "2 * k = length as" | (One) "Suc (2 * k) = length as" | (More) "2 * Suc k \<le> length as"
    using less.prems by atomize_elim arith
  then show ?case
  proof cases
    case End
    then show ?thesis by (auto simp: floyd_loop.simps ptr_at_def)
  next
    case One
    then have nk: "get_next h (ptr_at as (2 * k)) = Inr None" "ptr_at as (2 * k) \<noteq> None"
      using nx [of "2 * k"] by (auto simp: ptr_at_def)
    then have "floyd_loop h (ptr_at as k) (ptr_at as (2 * k)) = Some (Inr (ptr_at as k, ptr_at as (2 * k), False))"
      by (subst floyd_loop.simps) simp
    moreover have "length as \<le> 1" if "ptr_at as k = ptr_at as (2 * k)"
      using ptr_at_inj [OF lpath_ends_distinct [OF assms(1)] that] One by simp
    ultimately show ?thesis using nk(1) by blast
  next
    case More
    have ne: "ptr_at as (Suc k) \<noteq> ptr_at as (2 * Suc k)"
      using ptr_at_inj [OF lpath_ends_distinct [OF assms(1)], of "Suc k" "2 * Suc k"] More by auto
    have "floyd_loop h (ptr_at as k) (ptr_at as (2 * k)) = floyd_loop h (ptr_at as (Suc k)) (ptr_at as (2 * Suc k))"
      using More ne nx [of k] nx [of "2 * k"] nx [of "Suc (2 * k)"]
      by (subst floyd_loop.simps) (auto simp: ptr_at_def)
    with less.hyps [of "Suc k"] More show ?thesis by simp
  qed
qed

lemma meet_loop_rho:
  assumes rho: "rho (cells h) p as bs" and m: "length as \<le> m" "length bs dvd m" and "j \<le> length as"
  shows "meet_loop h (Some (rho_at as bs j)) (Some (rho_at as bs (m + j))) = Some (Inr (Some (hd bs)))"
  using assms(4)
proof (induction "length as - j" arbitrary: j)
  case 0
  have lam: "0 < length bs" using rho by (simp add: rho_def)
  have "rho_at as bs (length as) = hd bs" using rho by (simp add: rho_def rho_at_def rho_idx_def hd_conv_nth nth_append)
  moreover have "rho_at as bs j = rho_at as bs (m + j)"
    using 0 rho_idx_shift [OF lam m(2,1), of j] by (simp add: rho_at_eq [OF rho])
  ultimately show ?case using 0 by (simp add: meet_loop.simps)
next
  case (Suc n)
  have lam: "0 < length bs" using rho by (simp add: rho_def)
  have "rho_at as bs j \<noteq> rho_at as bs (m + j)"
    using rho_idx_shift [OF lam m(2,1), of j] Suc.hyps(2) by (simp add: rho_at_eq [OF rho])
  moreover have "meet_loop h (Some (rho_at as bs (Suc j))) (Some (rho_at as bs (m + Suc j))) = Some (Inr (Some (hd bs)))"
    by (rule Suc.hyps(1)) (use Suc.hyps(2) in auto)
  ultimately show ?case by (subst meet_loop.simps) (simp add: rho_next [OF rho])
qed

lemma fix_loop_rho:
  assumes rho: "rho (cells h) p as bs" and m: "0 < m" "length as \<le> m" "length bs dvd m" and "j < length as"
  shows "fix_loop h (Some (rho_at as bs j)) (Some (rho_at as bs (m + j))) = Some (Inr (Some (last bs)))"
  using assms(5)
proof (induction "length as - Suc j" arbitrary: j)
  have lam: "0 < length bs" using rho by (simp add: rho_def)
  case 0
  then have j: "Suc j = length as" by simp
  obtain t where t: "m = length bs * Suc t" using m by (metis dvdE mult_0_right neq0_conv old.nat.exhaust)
  have "m + j - length as = (length bs - 1) + length bs * t" using lam t j by (cases "length bs") (auto simp: algebra_simps)
  then have "(m + j - length as) mod length bs = (length bs - 1) mod length bs" by (simp only: mod_mult_self2)
  then have "(m + j - length as) mod length bs = length bs - 1" using lam by simp
  moreover have "\<not> m + j < length as" using j m(1) by simp
  ultimately have "rho_at as bs (m + j) = last bs"
    using lam by (simp add: rho_at_def rho_idx_def nth_append last_conv_nth)
  moreover have "rho_at as bs (Suc j) = rho_at as bs (Suc (m + j))"
    using rho_idx_shift [OF lam m(3,2), of "Suc j"] j by (metis add_Suc_right order_refl rho_at_eq [OF rho])
  ultimately show ?case
    using rho_next [OF rho, of "m + j"] by (subst fix_loop.simps) (simp add: rho_next [OF rho])
next
  case (Suc n)
  have lam: "0 < length bs" using rho by (simp add: rho_def)
  have "rho_at as bs (Suc j) \<noteq> rho_at as bs (Suc (m + j))"
    using rho_idx_shift [OF lam m(3,2), of "Suc j"] Suc.hyps(2) by (simp add: rho_at_eq [OF rho])
  moreover have "fix_loop h (Some (rho_at as bs (Suc j))) (Some (rho_at as bs (m + Suc j))) = Some (Inr (Some (last bs)))"
    by (rule Suc.hyps(1)) (use Suc.hyps(2) in auto)
  ultimately show ?case by (subst fix_loop.simps) (simp add: rho_next [OF rho])
qed

section \<open>Properties\<close>

text \<open>
  Claim C18. Floyd's algorithm ends on every list: it answers false on a list that ends and true on a list that
  runs into a cycle, and \<open>startOfLoop\<close> returns null on the first kind and the first node of the cycle on the second.
\<close>

theorem detectLoop_correct:
  "(lpath (cells h) head as None \<longrightarrow> detectLoop h head = Some (Inr False) \<and> startOfLoop h head = Some (Inr None)) \<and>
   (rho (cells h) head as bs \<longrightarrow> detectLoop h head = Some (Inr True) \<and> startOfLoop h head = Some (Inr (Some (hd bs))))"
proof (intro conjI impI)
  assume path: "lpath (cells h) head as None"
  from floyd_loop_ends [OF path, of 0] lpath_ptr_at0 [OF path] obtain s f where
    "floyd_loop h head head = Some (Inr (s, f, False))" "f = None \<or> get_next h f = Inr None" by auto
  then show "detectLoop h head = Some (Inr False)" "startOfLoop h head = Some (Inr None)"
    by (auto simp: detectLoop_def startOfLoop_def)
next
  assume rho: "rho (cells h) head as bs"
  obtain m where m: "0 < m" "length as \<le> m" "length bs dvd m"
    "floyd_loop h head head = Some (Inr (Some (rho_at as bs m), Some (rho_at as bs m), True))"
    using floyd_meets [OF rho] by blast
  then show "detectLoop h head = Some (Inr True)" by (simp add: detectLoop_def)
  show "startOfLoop h head = Some (Inr (Some (hd bs)))"
    using m rho_next [OF rho, of m] meet_loop_rho [OF rho m(2,3), of 0] rho_start [OF rho]
    by (simp add: startOfLoop_def)
qed

text \<open>The list of \<open>main\<close>: 1, 2, 3, 4 and back to 2.\<close>

definition loop_list :: lheap where
  "loop_list = \<lparr>cells = [0 \<mapsto> \<lparr>node_val = 1, node_next = Some 1\<rparr>, 1 \<mapsto> \<lparr>node_val = 2, node_next = Some 2\<rparr>,
     2 \<mapsto> \<lparr>node_val = 3, node_next = Some 3\<rparr>, 3 \<mapsto> \<lparr>node_val = 4, node_next = Some 1\<rparr>], brk = 4\<rparr>"

lemma loop_list_rho: "rho (cells loop_list) (Some 0) [0] [1, 2, 3]"
  by (simp add: rho_def loop_list_def)

theorem detectLoop_correct_witness:
  "detectLoop loop_list (Some 0) = Some (Inr True) \<and> startOfLoop loop_list (Some 0) = Some (Inr (Some 1))"
  using detectLoop_correct [of loop_list "Some 0" "[0]" "[1, 2, 3]"] loop_list_rho by simp

text \<open>
  \<open>fixLoop\<close> cuts a cycle that starts behind the head at its last node, so that the list ends and keeps every
  node; but a cycle that starts at the head is cut behind the head, which drops every other node from the list; and on
  a list without a cycle it reads through null when the list is empty and reports success when it has one node.
\<close>

theorem fixLoop_cases:
  "(rho (cells h) head as bs \<longrightarrow> (\<exists>h'. fixLoop h head = Some (Inr (True, h')) \<and>
      lpath (cells h') head (if as = [] then [hd bs] else as @ bs) None)) \<and>
   (lpath (cells h) head as None \<longrightarrow> fixLoop h head =
      (if as = [] then Some (Inl NullDeref) else if length as = 1 then Some (Inr (True, h)) else Some (Inr (False, h))))"
proof (intro conjI impI)
  assume rho: "rho (cells h) head as bs"
  obtain m where m: "0 < m" "length as \<le> m" "length bs dvd m"
    "floyd_loop h head head = Some (Inr (Some (rho_at as bs m), Some (rho_at as bs m), True))"
    using floyd_meets [OF rho] by blast
  have lam: "0 < length bs" and dist: "distinct (as @ bs)" and path: "lpath (cells h) head (as @ bs) (Some (hd bs))"
    using rho by (simp_all add: rho_def)
  show "\<exists>h'. fixLoop h head = Some (Inr (True, h')) \<and> lpath (cells h') head (if as = [] then [hd bs] else as @ bs) None"
  proof (cases as)
    case Nil
    have "rho_idx 0 (length bs) m = 0" using m(3) by (simp add: rho_idx_def)
    then have at: "rho_at as bs m = hd bs" "head = Some (hd bs)"
      using Nil lam rho_start [OF rho] by (simp_all add: rho_at_def rho_idx_def hd_conv_nth)
    have nx: "get_next h (Some (hd bs)) = Inr (Some (rho_at as bs (Suc m)))" using rho_next [OF rho, of m] at by simp
    then obtain nd where nd: "cells h (hd bs) = Some nd"
      by (auto simp: get_next_def load_obj_def deref_eq_Inr)
    have "fix_loop h head (Some (hd bs)) = Some (Inr (Some (hd bs)))" using at nx by (simp add: fix_loop.simps)
    with m(4) at nd Nil show ?thesis by (simp add: fixLoop_def)
  next
    case (Cons a as')
    from lpath_allocated [OF path, of "last bs"] lam obtain nd where nd: "cells h (last bs) = Some nd" by auto
    have split: "as @ bs = (as @ butlast bs) @ [last bs]" using lam by simp
    have "lpath ((cells h)(last bs \<mapsto> nd\<lparr>node_next := None\<rparr>)) head ((as @ butlast bs) @ [last bs]) None"
      by (rule lpath_snoc_relink [of "cells h" _ _ _ "Some (hd bs)"]) (use path dist nd split in metis)+
    then have path': "lpath ((cells h)(last bs \<mapsto> nd\<lparr>node_next := None\<rparr>)) head (as @ bs) None" using split by metis
    let ?h' = "h\<lparr>cells := (cells h)(last bs \<mapsto> nd\<lparr>node_next := None\<rparr>)\<rparr>"
    have "fixLoop h head = Some (Inr (True, ?h'))"
      using m(4) fix_loop_rho [OF rho m(1-3), of 0] rho_start [OF rho] Cons nd by (simp add: fixLoop_def)
    moreover have "cells ?h' = (cells h)(last bs \<mapsto> nd\<lparr>node_next := None\<rparr>)" by simp
    ultimately have "fixLoop h head = Some (Inr (True, ?h')) \<and> lpath (cells ?h') head (as @ bs) None"
      using path' by (simp only: simp_thms)
    moreover have "(if as = [] then [hd bs] else as @ bs) = as @ bs" using Cons by simp
    ultimately show ?thesis by (intro exI [of _ ?h']) (simp only: simp_thms)
  qed
next
  assume path: "lpath (cells h) head as None"
  show "fixLoop h head = (if as = [] then Some (Inl NullDeref) else if length as = 1 then Some (Inr (True, h))
      else Some (Inr (False, h)))"
  proof (cases "length as \<le> 1")
    case True
    then consider "as = []" | a where "as = [a]" by (cases as) auto
    then show ?thesis
    proof cases
      case 2
      with path obtain nd where "head = Some a" "cells h a = Some nd" "node_next nd = None"
        by (auto split: option.splits)
      then show ?thesis using 2
        by (auto simp: fixLoop_def floyd_loop.simps fix_loop.simps intro!: heap.equality)
    qed (use path in \<open>simp add: fixLoop_def floyd_loop.simps fix_loop.simps\<close>)
  next
    case False
    from floyd_loop_ends [OF path, of 0] lpath_ptr_at0 [OF path] False obtain s f where
      "floyd_loop h head head = Some (Inr (s, f, False))" "s \<noteq> f" by auto
    with False show ?thesis by (auto simp: fixLoop_def)
  qed
qed

theorem fixLoop_cases_witness:
  "(\<exists>h'. fixLoop loop_list (Some 0) = Some (Inr (True, h')) \<and> lpath (cells h') (Some 0) [0, 1, 2, 3] None) \<and>
   (\<exists>h'. fixLoop loop_list (Some 1) = Some (Inr (True, h')) \<and> lpath (cells h') (Some 1) [1] None)"
proof -
  have "rho (cells loop_list) (Some 1) [] [1, 2, 3]" by (simp add: rho_def loop_list_def)
  then show ?thesis
    using fixLoop_cases [of loop_list "Some 0" "[0]" "[1, 2, 3]"] fixLoop_cases [of loop_list "Some 1" "[]" "[1, 2, 3]"]
      loop_list_rho by simp
qed

end
