(* ===== verification/Pool_Spec.thy ===== *)
theory Pool_Spec
  imports Prelude
begin

text \<open>
  What a memory pool is: a list of blocks that tile the pool, each with a header of \<open>H\<close> bytes in front of
  its payload. The abstract operations on block lists, the blocks a client owns, and the contract of a pool
  allocator as a locale with what its clients may conclude.
\<close>

section \<open>Block lists\<close>

text \<open>A block is its payload size and whether it is free; its address is where the blocks before it end.\<close>

type_synonym block = "nat \<times> bool"

fun span :: "nat \<Rightarrow> block list \<Rightarrow> nat" where
  "span H [] = 0"
| "span H ((s, f) # bs) = H + s + span H bs"

text \<open>The first free block that is large enough; \<open>splits s n\<close> decides whether the rest becomes a block.\<close>

fun first_fit :: "nat \<Rightarrow> (nat \<Rightarrow> nat \<Rightarrow> bool) \<Rightarrow> nat \<Rightarrow> block list \<Rightarrow> (nat \<times> block list) option" where
  "first_fit H splits n [] = None"
| "first_fit H splits n ((s, f) # bs) =
     (if f \<and> n \<le> s
      then Some (0, if splits s n then (n, False) # (s - n - H, True) # bs else (s, False) # bs)
      else map_option (\<lambda>(off, bs'). (H + s + off, (s, f) # bs')) (first_fit H splits n bs))"

text \<open>Marking the block whose header is at offset \<open>off\<close> as free.\<close>

fun free_at :: "nat \<Rightarrow> nat \<Rightarrow> block list \<Rightarrow> block list option" where
  "free_at H off [] = None"
| "free_at H off ((s, f) # bs) =
     (if off = 0 then Some ((s, True) # bs)
      else if off < H + s then None
      else map_option ((#) (s, f)) (free_at H (off - H - s) bs))"

text \<open>Merging every run of neighbouring free blocks.\<close>

fun coalesce :: "nat \<Rightarrow> block list \<Rightarrow> block list" where
  "coalesce H ((s, True) # (t, True) # bs) = coalesce H ((s + H + t, True) # bs)"
| "coalesce H (b # bs) = b # coalesce H bs"
| "coalesce H [] = []"

fun no_adjacent_free :: "block list \<Rightarrow> bool" where
  "no_adjacent_free ((s, True) # (t, True) # bs) \<longleftrightarrow> False"
| "no_adjacent_free (b # bs) \<longleftrightarrow> no_adjacent_free bs"
| "no_adjacent_free [] \<longleftrightarrow> True"

text \<open>The payloads in use: address and size, for a block list that starts at address \<open>a\<close>.\<close>

fun used :: "nat \<Rightarrow> nat \<Rightarrow> block list \<Rightarrow> (nat \<times> nat) list" where
  "used H a [] = []"
| "used H a ((s, f) # bs) = (if f then [] else [(a + H, s)]) @ used H (a + H + s) bs"

lemma used_append: "used H a (bs @ cs) = used H a bs @ used H (a + span H bs) cs"
  by (induction bs arbitrary: a) (auto simp: add.assoc)

lemma used_bounds: "(p, s) \<in> set (used H a bs) \<Longrightarrow> a + H \<le> p \<and> p + s \<le> a + span H bs"
  by (induction H a bs rule: used.induct) (auto split: if_splits)

lemma used_disjoint:
  "0 < H \<Longrightarrow> (p, k) \<in> set (used H a bs) \<Longrightarrow> (q, l) \<in> set (used H a bs) \<Longrightarrow>
    (p, k) = (q, l) \<or> p + k < q \<or> q + l < p"
proof (induction bs arbitrary: a)
  case (Cons b bs)
  obtain s f where b: "b = (s, f)" by (cases b)
  let ?U = "set (used H (a + H + s) bs)"
  have first: "a + H + s < q" if "(q, l) \<in> ?U" for q l
    using used_bounds [OF that] Cons.prems(1) by linarith
  from Cons.prems(2,3) b consider "(p, k) \<in> ?U" "(q, l) \<in> ?U" | "(p, k) = (a + H, s)" "(q, l) \<in> ?U"
    | "(p, k) \<in> ?U" "(q, l) = (a + H, s)" | "(p, k) = (a + H, s)" "(q, l) = (a + H, s)"
    by (auto split: if_splits)
  then show ?case
  proof cases
    case 1
    then show ?thesis using Cons.IH Cons.prems(1) by blast
  qed (use first in auto)
qed simp

lemma used_not_first: "0 < H \<Longrightarrow> (a + H, k) \<notin> set (used H (a + H + s) bs)"
  by (auto dest!: used_bounds)

lemma distinct_used: "0 < H \<Longrightarrow> distinct (map fst (used H a bs))"
proof (induction bs arbitrary: a)
  case (Cons b bs)
  then show ?case by (cases b) (use used_not_first in auto)
qed simp

lemma coalesce_Nil_iff [simp]: "coalesce H bs = [] \<longleftrightarrow> bs = []"
  by (induction H bs rule: coalesce.induct) auto

lemma span_coalesce [simp]: "span H (coalesce H bs) = span H bs"
  by (induction H bs rule: coalesce.induct) auto

lemma used_coalesce [simp]: "used H a (coalesce H bs) = used H a bs"
  by (induction H bs arbitrary: a rule: coalesce.induct) (auto simp: add.assoc, metis add.assoc)

lemma no_adjacent_free_Cons_used [simp]: "no_adjacent_free ((s, False) # bs) = no_adjacent_free bs"
  by (cases bs) auto

lemma no_adjacent_free_Cons:
  "no_adjacent_free ((s, f) # bs) \<longleftrightarrow> no_adjacent_free bs \<and> (f \<longrightarrow> bs = [] \<or> \<not> snd (hd bs))"
  by (cases f; cases bs; cases "snd (hd bs)") auto

lemma coalesce_no_adjacent [simp]: "no_adjacent_free (coalesce H bs)"
  by (induction H bs rule: coalesce.induct) (auto simp: no_adjacent_free_Cons split: prod.splits)

lemma coalesce_id: "no_adjacent_free bs \<Longrightarrow> coalesce H bs = bs"
  by (induction H bs rule: coalesce.induct) (auto simp: no_adjacent_free_Cons)

lemma first_fit_Cons_cases:
  assumes "first_fit H splits n ((s, f) # bs) = Some (off, bs')"
  obtains (Here) f "n \<le> s" "off = 0"
      "bs' = (if splits s n then (n, False) # (s - n - H, True) # bs else (s, False) # bs)"
    | (Later) off1 bs1 where "first_fit H splits n bs = Some (off1, bs1)" "off = H + s + off1" "bs' = (s, f) # bs1"
  using assms by (auto split: if_splits)

definition split_ok :: "nat \<Rightarrow> (nat \<Rightarrow> nat \<Rightarrow> bool) \<Rightarrow> bool" where
  "split_ok H splits \<longleftrightarrow> 0 < H \<and> (\<forall>s n. splits s n \<longrightarrow> n + H \<le> s)"

lemma first_fit_span:
  assumes "split_ok H splits"
  shows "first_fit H splits n bs = Some (off, bs') \<Longrightarrow> span H bs' = span H bs \<and> bs' \<noteq> []"
proof (induction bs arbitrary: off bs')
  case (Cons b bs)
  obtain s f where b: "b = (s, f)" by (cases b)
  from Cons.prems [unfolded b] show ?case
  proof (cases rule: first_fit_Cons_cases)
    case Here
    with assms b show ?thesis by (auto simp: split_ok_def)
  next
    case Later
    with Cons.IH b show ?thesis by auto
  qed
qed simp

text \<open>An allocation adds one payload, of at least the requested size, and changes no other.\<close>

lemma first_fit_used:
  assumes ok: "split_ok H splits"
  shows "first_fit H splits n bs = Some (off, bs') \<Longrightarrow>
    \<exists>k\<ge>n. set (used H a bs') = insert (a + off + H, k) (set (used H a bs)) \<and>
      (a + off + H, k) \<notin> set (used H a bs)"
proof (induction bs arbitrary: off bs' a)
  case (Cons b bs)
  obtain s f where b: "b = (s, f)" by (cases b)
  have H: "0 < H" using ok by (simp add: split_ok_def)
  from Cons.prems [unfolded b] show ?case
  proof (cases rule: first_fit_Cons_cases)
    case Here
    have "a + H + n + H + (s - n - H) = a + H + s" if "splits s n" using ok that by (auto simp: split_ok_def)
    then have "set (used H a bs') = insert (a + H, if splits s n then n else s) (set (used H (a + H + s) bs))"
      using Here by (auto simp: add.assoc)
    with Here b used_not_first [OF H] show ?thesis
      by (intro exI [of _ "if splits s n then n else s"]) simp
  next
    case (Later off1 bs1)
    from Cons.IH [OF Later(1), of "a + H + s"] obtain k where k: "k \<ge> n"
      "set (used H (a + H + s) bs1) = insert (a + off + H, k) (set (used H (a + H + s) bs))"
      "(a + off + H, k) \<notin> set (used H (a + H + s) bs)" using Later(2) by (auto simp: ac_simps)
    have "(a + off + H, k) \<noteq> (a + H, s)" using Later(2) H by simp
    with k Later b show ?thesis by (intro exI [of _ k]) auto
  qed
qed simp

lemma first_fit_no_adjacent:
  "first_fit H splits n bs = Some (off, bs') \<Longrightarrow> no_adjacent_free bs \<Longrightarrow> no_adjacent_free bs' \<and>
    (bs \<noteq> [] \<longrightarrow> \<not> snd (hd bs) \<longrightarrow> \<not> snd (hd bs'))"
proof (induction H splits n bs arbitrary: off bs' rule: first_fit.induct)
  case (2 H splits n s f bs)
  then show ?case by (cases bs) (auto simp: no_adjacent_free_Cons split: if_splits)
qed simp

lemma first_fit_None: "first_fit H splits n bs = None \<longleftrightarrow> (\<forall>(s, f) \<in> set bs. f \<longrightarrow> s < n)"
  by (induction H splits n bs rule: first_fit.induct) auto

lemma free_at_used:
  assumes "(a + off + H, k) \<in> set (used H a bs)" and H: "0 < H"
  shows "\<exists>bs'. free_at H off bs = Some bs' \<and> set (used H a bs') = set (used H a bs) - {(a + off + H, k)} \<and>
    span H bs' = span H bs \<and> bs' \<noteq> []"
  using assms(1)
proof (induction bs arbitrary: a off)
  case (Cons b bs)
  obtain s f where b: "b = (s, f)" by (cases b)
  show ?case
  proof (cases "off = 0")
    case True
    with Cons.prems b used_not_first [OF H, of a k s bs] have "\<not> f" "k = s" by (simp_all split: if_splits)
    with True b used_not_first [OF H, of a s s bs] show ?thesis by simp
  next
    case False
    with Cons.prems b have t: "(a + off + H, k) \<in> set (used H (a + H + s) bs)" by (auto split: if_splits)
    from used_bounds [OF t] have o: "H + s \<le> off" by simp
    then have eq: "a + H + s + (off - H - s) + H = a + off + H" by simp
    from Cons.IH [of "a + H + s" "off - H - s", unfolded eq, OF t] obtain bs1 where 1: "free_at H (off - H - s) bs = Some bs1"
      "set (used H (a + H + s) bs1) = set (used H (a + H + s) bs) - {(a + off + H, k)}" "span H bs1 = span H bs"
      by blast
    have "free_at H off (b # bs) = Some ((s, f) # bs1)" using 1(1) False o b by simp
    moreover have "set (used H a ((s, f) # bs1)) = set (used H a (b # bs)) - {(a + off + H, k)}"
      unfolding b used.simps set_append 1(2) using False by (cases f) (simp_all add: insert_Diff_if)
    ultimately show ?thesis using 1(3) b by simp
  qed
qed simp

text \<open>When nothing is in use, merging leaves one block.\<close>

lemma coalesce_all_free:
  assumes "used H a bs = []" and "bs \<noteq> []" and "no_adjacent_free bs"
  shows "bs = [(span H bs - H, True)]"
proof -
  from assms(2) obtain s f cs where bs: "bs = (s, f) # cs" by (cases bs) auto
  with assms have f: f and cs: "cs = [] \<or> \<not> snd (hd cs)" by (auto simp: no_adjacent_free_Cons split: if_splits)
  have "cs = []"
  proof (cases cs)
    case (Cons c cs')
    with cs bs assms(1) f show ?thesis by (cases c) auto
  qed simp
  with bs f show ?thesis by simp
qed

section \<open>The contract\<close>

text \<open>
  \<open>live s\<close> are the payloads (address, size) handed out and not yet freed; \<open>cap\<close> is the largest request that an
  unused pool can serve, among the requests that are \<open>valid\<close>.
\<close>

fun dealloc_all :: "('s \<Rightarrow> nat \<Rightarrow> 's option) \<Rightarrow> 's \<Rightarrow> nat list \<Rightarrow> 's option" where
  "dealloc_all dealloc s [] = Some s"
| "dealloc_all dealloc s (p # ps) = (case dealloc s p of None \<Rightarrow> None | Some s' \<Rightarrow> dealloc_all dealloc s' ps)"

locale pool_allocator =
  fixes alloc :: "'s \<Rightarrow> nat \<Rightarrow> (nat \<times> 's) option"
    and dealloc :: "'s \<Rightarrow> nat \<Rightarrow> 's option"
    and live :: "'s \<Rightarrow> (nat \<times> nat) set"
    and inv :: "'s \<Rightarrow> bool"
    and limit :: "'s \<Rightarrow> nat"
    and cap :: "'s \<Rightarrow> nat"
    and valid :: "nat \<Rightarrow> bool"
  assumes alloc_live: "inv s \<Longrightarrow> valid n \<Longrightarrow> alloc s n = Some (p, s') \<Longrightarrow> inv s' \<and> limit s' = limit s \<and> cap s' = cap s \<and>
      (\<exists>k\<ge>n. live s' = insert (p, k) (live s) \<and> (p, k) \<notin> live s)"
    and dealloc_live: "inv s \<Longrightarrow> (p, k) \<in> live s \<Longrightarrow>
      \<exists>s'. dealloc s p = Some s' \<and> inv s' \<and> limit s' = limit s \<and> cap s' = cap s \<and> live s' = live s - {(p, k)}"
    and live_within: "inv s \<Longrightarrow> (p, k) \<in> live s \<Longrightarrow> p + k \<le> limit s"
    and live_disjoint: "inv s \<Longrightarrow> (p, k) \<in> live s \<Longrightarrow> (q, l) \<in> live s \<Longrightarrow> (p, k) \<noteq> (q, l) \<Longrightarrow>
      p + k < q \<or> q + l < p"
    and idle_alloc: "inv s \<Longrightarrow> valid n \<Longrightarrow> live s = {} \<Longrightarrow> alloc s n \<noteq> None \<longleftrightarrow> n \<le> cap s"
begin

text \<open>Freeing every payload, in any order, is possible and makes the whole pool available again.\<close>

lemma free_everything:
  assumes "inv s" and "live s = set bl" and "distinct (map fst bl)"
  shows "\<exists>s'. dealloc_all dealloc s (map fst bl) = Some s' \<and> inv s' \<and> live s' = {} \<and>
    (\<forall>n. valid n \<longrightarrow> alloc s' n \<noteq> None \<longleftrightarrow> n \<le> cap s)"
  using assms
proof (induction bl arbitrary: s)
  case Nil
  then show ?case using idle_alloc by simp
next
  case (Cons b bl)
  obtain p k where b: "b = (p, k)" by (cases b)
  from dealloc_live [of s p k] Cons.prems b obtain t where
    t: "dealloc s p = Some t" "inv t" "cap t = cap s" "live t = live s - {(p, k)}" by auto
  have "live t = set bl" using t(4) Cons.prems b by force
  from Cons.IH [OF t(2) this] Cons.prems t b show ?case by auto
qed

end

end
