(* ===== verification/Memory_Pool.thy ===== *)
theory Memory_Pool
  imports Pool_Spec
begin

text \<open>
  The memory pools with a singly linked block list: \<open>memorypool/memorypool.c\<close>,
  \<open>memorypool/memorypoolSLL.c\<close> and \<open>memorypool/memorypoolSLL.cpp\<close>. An address is an offset into the pool; the
  memory maps the offsets at which a header was written to that header. A header that is written so
  that it does not fit into the pool is out of bounds. Sizes are \<open>size_t\<close>; they stay below the pool size,
  except in \<open>ALIGN4\<close>, where the wrap-around is written out. Headers have 24 bytes (64-bit pointers).
\<close>

section \<open>Headers and the block list\<close>

abbreviation HDR :: nat where "HDR \<equiv> 24"
abbreviation POOL_SIZE :: nat where "POOL_SIZE \<equiv> 1024"

record mem_block =
  mb_size :: nat
  mb_free :: bool
  mb_next :: ptr

record mempool =
  mp_mem :: "addr \<Rightarrow> mem_block option"
  mp_size :: nat
  mp_head :: ptr

definition put_block :: "mempool \<Rightarrow> addr \<Rightarrow> mem_block \<Rightarrow> mempool res" where
  "put_block mp a b = (if a + HDR \<le> mp_size mp then Inr (mp\<lparr>mp_mem := (mp_mem mp)(a \<mapsto> b)\<rparr>) else Inl OutOfBounds)"

definition get_block :: "mempool \<Rightarrow> ptr \<Rightarrow> mem_block res" where
  "get_block mp p = deref (mp_mem mp) p"

section \<open>Shared code\<close>

text \<open>
  The body of the allocation loop once a block fits: \<open>splits\<close> is the test for splitting it, which differs
  between the versions. The result is the payload's address.
\<close>

definition take_block :: "(nat \<Rightarrow> nat \<Rightarrow> bool) \<Rightarrow> mempool \<Rightarrow> addr \<Rightarrow> mem_block \<Rightarrow> nat \<Rightarrow> (ptr \<times> mempool) res" where
  "take_block splits mp current b sz =
     (if splits (mb_size b) sz
      then
        let new_block = current + HDR + sz in
        rbind (put_block mp new_block
          \<lparr>mb_size = mb_size b - sz - HDR, mb_free = True, mb_next = mb_next b\<rparr>) (\<lambda>mp.
        rbind (put_block mp current \<lparr>mb_size = sz, mb_free = False, mb_next = Some new_block\<rparr>) (\<lambda>mp.
        Inr (Some (current + HDR), mp)))
      else rbind (put_block mp current (b\<lparr>mb_free := False\<rparr>)) (\<lambda>mp. Inr (Some (current + HDR), mp)))"

partial_function (option) alloc_loop ::
  "(nat \<Rightarrow> nat \<Rightarrow> bool) \<Rightarrow> mempool \<Rightarrow> nat \<Rightarrow> ptr \<Rightarrow> (ptr \<times> mempool) res option" where
  "alloc_loop splits mp sz current =
     (case current of None \<Rightarrow> Some (Inr (None, mp))
      | Some a \<Rightarrow> (case get_block mp current of Inl e \<Rightarrow> Some (Inl e)
          | Inr b \<Rightarrow> if mb_free b \<and> sz \<le> mb_size b then Some (take_block splits mp a b sz)
              else alloc_loop splits mp sz (mb_next b)))"

text \<open>\<open>current->size += ...; current->next = current->next->next\<close>\<close>

definition merge_next :: "mempool \<Rightarrow> addr \<Rightarrow> mem_block \<Rightarrow> mem_block \<Rightarrow> mempool res" where
  "merge_next mp current b nb =
     put_block mp current (b\<lparr>mb_size := mb_size b + HDR + mb_size nb, mb_next := mb_next nb\<rparr>)"

text \<open>Marking the block in front of the payload \<open>ptr\<close> as free.\<close>

definition mark_free :: "mempool \<Rightarrow> addr \<Rightarrow> mempool res" where
  "mark_free mp ptr =
     (if ptr < HDR then Inl OutOfBounds
      else rbind (get_block mp (Some (ptr - HDR))) (\<lambda>b. put_block mp (ptr - HDR) (b\<lparr>mb_free := True\<rparr>)))"

section \<open>The pool of \<open>memorypool.c\<close>\<close>

definition ALIGN4 :: "nat \<Rightarrow> nat" where
  "ALIGN4 x = ((x + 3) mod 2 ^ 64) div 4 * 4"

definition mempool_init :: mempool where
  "mempool_init = \<lparr>mp_mem = [0 \<mapsto> \<lparr>mb_size = POOL_SIZE - HDR, mb_free = True, mb_next = None\<rparr>],
     mp_size = POOL_SIZE, mp_head = Some 0\<rparr>"

definition splits4 :: "nat \<Rightarrow> nat \<Rightarrow> bool" where
  "splits4 s n \<longleftrightarrow> n + HDR + 4 \<le> s"

definition mempool_alloc :: "mempool \<Rightarrow> nat \<Rightarrow> (ptr \<times> mempool) res option" where
  "mempool_alloc mp req_size = alloc_loop splits4 mp (ALIGN4 req_size) (mp_head mp)"

partial_function (option) coalesce_loop :: "mempool \<Rightarrow> ptr \<Rightarrow> mempool res option" where
  "coalesce_loop mp current =
     (case current of None \<Rightarrow> Some (Inr mp)
      | Some a \<Rightarrow> (case get_block mp current of Inl e \<Rightarrow> Some (Inl e)
          | Inr b \<Rightarrow>
              if mb_next b = None then Some (Inr mp)
              else (case get_block mp (mb_next b) of Inl e \<Rightarrow> Some (Inl e)
                | Inr nb \<Rightarrow>
                    if mb_free b \<and> mb_free nb
                    then (case merge_next mp a b nb of Inl e \<Rightarrow> Some (Inl e) | Inr mp \<Rightarrow> coalesce_loop mp current)
                    else coalesce_loop mp (mb_next b))))"

definition mempool_free :: "mempool \<Rightarrow> ptr \<Rightarrow> mempool res option" where
  "mempool_free mp ptr =
     (case ptr of None \<Rightarrow> Some (Inr mp)
      | Some p \<Rightarrow> (case mark_free mp p of Inl e \<Rightarrow> Some (Inl e) | Inr mp \<Rightarrow> coalesce_loop mp (mp_head mp)))"

text \<open>What \<open>visualize_memory_pool\<close> prints of every block: address, size, free and next.\<close>

partial_function (option) visualize_loop ::
  "mempool \<Rightarrow> ptr \<Rightarrow> (addr \<times> nat \<times> bool \<times> ptr) list \<Rightarrow> (addr \<times> nat \<times> bool \<times> ptr) list res option" where
  "visualize_loop mp current out =
     (case current of None \<Rightarrow> Some (Inr out)
      | Some a \<Rightarrow> (case get_block mp current of Inl e \<Rightarrow> Some (Inl e)
          | Inr b \<Rightarrow> visualize_loop mp (mb_next b) (out @ [(a, mb_size b, mb_free b, mb_next b)])))"

definition visualize_memory_pool :: "mempool \<Rightarrow> (addr \<times> nat \<times> bool \<times> ptr) list res option" where
  "visualize_memory_pool mp = visualize_loop mp (mp_head mp) []"

section \<open>The pool of \<open>memorypoolSLL.c\<close>\<close>

text \<open>A request to initialise with a size that cannot hold a header, or whose \<open>malloc\<close> fails, leaves no pool.\<close>

definition mempoolSLL_init :: "nat \<Rightarrow> bool \<Rightarrow> mempool" where
  "mempoolSLL_init sz malloc_ok =
     (if sz \<le> HDR \<or> \<not> malloc_ok then \<lparr>mp_mem = (\<lambda>_. None), mp_size = 0, mp_head = None\<rparr>
      else \<lparr>mp_mem = [0 \<mapsto> \<lparr>mb_size = sz - HDR, mb_free = True, mb_next = None\<rparr>],
        mp_size = sz, mp_head = Some 0\<rparr>)"

definition mempoolSLL_destroy :: "mempool \<Rightarrow> mempool" where
  "mempoolSLL_destroy mp = \<lparr>mp_mem = (\<lambda>_. None), mp_size = 0, mp_head = None\<rparr>"

definition splits_gt :: "nat \<Rightarrow> nat \<Rightarrow> bool" where
  "splits_gt s n \<longleftrightarrow> n + HDR < s"

definition mempoolSLL_alloc :: "mempool \<Rightarrow> nat \<Rightarrow> (ptr \<times> mempool) res option" where
  "mempoolSLL_alloc mp sz =
     (if mp_head mp = None then Some (Inr (None, mp)) else alloc_loop splits_gt mp sz (mp_head mp))"

partial_function (option) coalesceSLL_loop :: "mempool \<Rightarrow> ptr \<Rightarrow> mempool res option" where
  "coalesceSLL_loop mp current =
     (case current of None \<Rightarrow> Some (Inr mp)
      | Some a \<Rightarrow> (case get_block mp current of Inl e \<Rightarrow> Some (Inl e)
          | Inr b \<Rightarrow>
              if mb_free b \<and> mb_next b \<noteq> None
              then (case get_block mp (mb_next b) of Inl e \<Rightarrow> Some (Inl e)
                | Inr nb \<Rightarrow>
                    if mb_free nb
                    then (case merge_next mp a b nb of Inl e \<Rightarrow> Some (Inl e) | Inr mp \<Rightarrow> coalesceSLL_loop mp current)
                    else coalesceSLL_loop mp (mb_next b))
              else coalesceSLL_loop mp (mb_next b)))"

definition mempoolSLL_free :: "mempool \<Rightarrow> ptr \<Rightarrow> mempool res option" where
  "mempoolSLL_free mp ptr =
     (case ptr of None \<Rightarrow> Some (Inr mp)
      | Some p \<Rightarrow>
          if mp_head mp = None then Some (Inr mp)
          else (case mark_free mp p of Inl e \<Rightarrow> Some (Inl e) | Inr mp \<Rightarrow> coalesceSLL_loop mp (mp_head mp)))"

definition mempoolSLL_visualize :: "mempool \<Rightarrow> (addr \<times> nat \<times> bool \<times> ptr) list res option" where
  "mempoolSLL_visualize mp = visualize_loop mp (mp_head mp) []"

section \<open>The pool of \<open>memorypoolSLL.cpp\<close>\<close>

text \<open>The constructor writes the first header without looking at the size.\<close>

definition MemPool_new :: "nat \<Rightarrow> mempool res" where
  "MemPool_new sz =
     (if sz < HDR then Inl OutOfBounds
      else Inr \<lparr>mp_mem = [0 \<mapsto> \<lparr>mb_size = sz - HDR, mb_free = True, mb_next = None\<rparr>],
        mp_size = sz, mp_head = Some 0\<rparr>)"

text \<open>The destructor releases the array; no header can be reached through \<open>head\<close> any more.\<close>

definition MemPool_destroy :: "mempool \<Rightarrow> mempool" where
  "MemPool_destroy mp = mp\<lparr>mp_mem := (\<lambda>_. None)\<rparr>"

definition MemPool_alloc :: "mempool \<Rightarrow> nat \<Rightarrow> (ptr \<times> mempool) res option" where
  "MemPool_alloc mp sz = alloc_loop splits_gt mp sz (mp_head mp)"

partial_function (option) coalesce_once_loop :: "mempool \<Rightarrow> ptr \<Rightarrow> mempool res option" where
  "coalesce_once_loop mp current =
     (case current of None \<Rightarrow> Some (Inr mp)
      | Some a \<Rightarrow> (case get_block mp current of Inl e \<Rightarrow> Some (Inl e)
          | Inr b \<Rightarrow>
              if mb_free b \<and> mb_next b \<noteq> None
              then (case get_block mp (mb_next b) of Inl e \<Rightarrow> Some (Inl e)
                | Inr nb \<Rightarrow>
                    if mb_free nb
                    then (case merge_next mp a b nb of Inl e \<Rightarrow> Some (Inl e)
                      | Inr mp \<Rightarrow> coalesce_once_loop mp (mb_next nb))
                    else coalesce_once_loop mp (mb_next b))
              else coalesce_once_loop mp (mb_next b)))"

text \<open>A null pointer is not tested: the header before it lies outside the pool.\<close>

definition MemPool_free :: "mempool \<Rightarrow> ptr \<Rightarrow> mempool res option" where
  "MemPool_free mp ptr =
     (case ptr of None \<Rightarrow> Some (Inl OutOfBounds)
      | Some p \<Rightarrow> (case mark_free mp p of Inl e \<Rightarrow> Some (Inl e) | Inr mp \<Rightarrow> coalesce_once_loop mp (mp_head mp)))"

partial_function (option) MemPool_visualize_loop :: "mempool \<Rightarrow> ptr \<Rightarrow> (nat \<times> bool) list \<Rightarrow> (nat \<times> bool) list res option" where
  "MemPool_visualize_loop mp current out =
     (case current of None \<Rightarrow> Some (Inr out)
      | Some a \<Rightarrow> (case get_block mp current of Inl e \<Rightarrow> Some (Inl e)
          | Inr b \<Rightarrow> MemPool_visualize_loop mp (mb_next b) (out @ [(mb_size b, mb_free b)])))"

definition MemPool_visualize :: "mempool \<Rightarrow> (nat \<times> bool) list res option" where
  "MemPool_visualize mp = MemPool_visualize_loop mp (mp_head mp) []"

declare alloc_loop.simps [code] coalesce_loop.simps [code] coalesceSLL_loop.simps [code]
  coalesce_once_loop.simps [code] visualize_loop.simps [code] MemPool_visualize_loop.simps [code]

text \<open>The \<open>main\<close> functions, as what they print of the pool at each step.\<close>

definition memorypool_main :: "(addr \<times> nat \<times> bool \<times> ptr) list list res option" where
  "memorypool_main =
     obind (mempool_alloc mempool_init 100) (\<lambda>(ptr1, mp).
     obind (mempool_alloc mp 200) (\<lambda>(ptr2, mp).
     obind (mempool_alloc mp 300) (\<lambda>(ptr3, mp).
     obind (visualize_memory_pool mp) (\<lambda>out1.
     obind (mempool_free mp ptr3) (\<lambda>mp.
     obind (visualize_memory_pool mp) (\<lambda>out2. Some (Inr [out1, out2])))))))"

definition memorypoolSLL_c_main :: "(addr \<times> nat \<times> bool \<times> ptr) list list res option" where
  "memorypoolSLL_c_main =
     obind (mempoolSLL_visualize (mempoolSLL_init 1024 True)) (\<lambda>out0.
     obind (mempoolSLL_alloc (mempoolSLL_init 1024 True) 100) (\<lambda>(p1, mp).
     obind (mempoolSLL_alloc mp 200) (\<lambda>(p2, mp).
     obind (mempoolSLL_alloc mp 300) (\<lambda>(p3, mp).
     obind (mempoolSLL_visualize mp) (\<lambda>out1.
     obind (mempoolSLL_free mp p2) (\<lambda>mp.
     obind (mempoolSLL_visualize mp) (\<lambda>out2.
     obind (mempoolSLL_free mp p3) (\<lambda>mp.
     obind (mempoolSLL_visualize mp) (\<lambda>out3.
     obind (mempoolSLL_free mp p1) (\<lambda>mp.
     obind (mempoolSLL_visualize mp) (\<lambda>out4. Some (Inr [out0, out1, out2, out3, out4]))))))))))))"

definition memorypoolSLL_cpp_main :: "(nat \<times> bool) list list res option" where
  "memorypoolSLL_cpp_main =
     obind (Some (MemPool_new 1024)) (\<lambda>mp.
     obind (MemPool_alloc mp 100) (\<lambda>(ptr1, mp).
     obind (MemPool_alloc mp 200) (\<lambda>(ptr2, mp).
     obind (MemPool_alloc mp 300) (\<lambda>(ptr3, mp).
     obind (MemPool_visualize mp) (\<lambda>out1.
     obind (MemPool_free mp ptr3) (\<lambda>mp.
     obind (MemPool_visualize mp) (\<lambda>out2. Some (Inr [out1, out2]))))))))"

section \<open>The block list in memory\<close>

text \<open>\<open>chain m p a bs\<close>: from \<open>p\<close> on the headers describe the blocks \<open>bs\<close>, which tile the memory from \<open>a\<close> on.\<close>

fun chain :: "(addr \<Rightarrow> mem_block option) \<Rightarrow> ptr \<Rightarrow> addr \<Rightarrow> block list \<Rightarrow> bool" where
  "chain m p a [] \<longleftrightarrow> p = None"
| "chain m p a ((s, f) # bs) \<longleftrightarrow> p = Some a \<and> (case m a of None \<Rightarrow> False
     | Some b \<Rightarrow> mb_size b = s \<and> mb_free b = f \<and> chain m (mb_next b) (a + HDR + s) bs)"

lemma chain_cong: "(\<And>x. a \<le> x \<Longrightarrow> m x = m' x) \<Longrightarrow> chain m p a bs = chain m' p a bs"
proof (induction bs arbitrary: p a)
  case (Cons b bs)
  obtain s f where b: "b = (s, f)" by (cases b)
  have "chain m q (a + HDR + s) bs = chain m' q (a + HDR + s) bs" for q
    by (rule Cons.IH) (use Cons.prems in auto)
  with b Cons.prems [of a] show ?case by (auto split: option.splits)
qed simp

lemma chain_upd_below: "x < a \<Longrightarrow> chain (m(x := y)) p a bs = chain m p a bs"
  by (rule chain_cong) auto

lemma chain_Cons_cases:
  assumes "chain m p a ((s, f) # bs)"
  obtains nx where "p = Some a" "m a = Some \<lparr>mb_size = s, mb_free = f, mb_next = nx\<rparr>" "chain m nx (a + HDR + s) bs"
proof -
  from assms obtain b where "p = Some a" "m a = Some b" "mb_size b = s" "mb_free b = f"
    "chain m (mb_next b) (a + HDR + s) bs" by (auto split: option.splits)
  then show thesis using that [of "mb_next b"] by (cases b) simp
qed

lemma chain_ConsI:
  "m a = Some \<lparr>mb_size = s, mb_free = f, mb_next = nx\<rparr> \<Longrightarrow> chain m nx (a + HDR + s) bs \<Longrightarrow>
    chain m (Some a) a ((s, f) # bs)"
  by simp

lemma chain_None: "chain m None a bs \<longleftrightarrow> bs = []"
  by (cases bs) auto

text \<open>What a step does to memory from \<open>a\<close> on, with the memory before \<open>a\<close> untouched.\<close>

definition chain_to :: "mempool \<Rightarrow> mempool \<Rightarrow> ptr \<Rightarrow> addr \<Rightarrow> block list \<Rightarrow> bool" where
  "chain_to mp mp' p a bs \<longleftrightarrow> mp_size mp' = mp_size mp \<and> mp_head mp' = mp_head mp \<and>
     (\<forall>x<a. mp_mem mp' x = mp_mem mp x) \<and> chain (mp_mem mp') p a bs"

lemma chain_to_Cons:
  assumes "chain_to mp mp' nx (a + HDR + s) bs'"
    and "mp_mem mp a = Some \<lparr>mb_size = s, mb_free = f, mb_next = nx\<rparr>"
  shows "chain_to mp mp' (Some a) a ((s, f) # bs')"
  using assms by (simp add: chain_to_def)

lemma take_block_chain:
  assumes ok: "split_ok HDR splits"
    and m: "mp_mem mp a = Some \<lparr>mb_size = s, mb_free = True, mb_next = nx\<rparr>"
    and ch: "chain (mp_mem mp) nx (a + HDR + s) bs" and fit: "n \<le> s" and room: "a + HDR + s \<le> mp_size mp"
  shows "\<exists>mp'. take_block splits mp a \<lparr>mb_size = s, mb_free = True, mb_next = nx\<rparr> n = Inr (Some (a + HDR), mp') \<and>
    chain_to mp mp' (Some a) a (if splits s n then (n, False) # (s - n - HDR, True) # bs else (s, False) # bs)"
proof (cases "splits s n")
  case True
  then have sz: "n + HDR \<le> s" using ok by (simp add: split_ok_def)
  let ?nb = "a + HDR + n"
  let ?m = "(mp_mem mp)(?nb \<mapsto> \<lparr>mb_size = s - n - HDR, mb_free = True, mb_next = nx\<rparr>,
    a \<mapsto> \<lparr>mb_size = n, mb_free = False, mb_next = Some ?nb\<rparr>)"
  have e: "?nb + HDR + (s - n - HDR) = a + HDR + s" using sz by simp
  have "chain ?m nx (?nb + HDR + (s - n - HDR)) bs" using ch sz unfolding e by (simp add: chain_upd_below)
  then have "chain ?m (Some a) a ((n, False) # (s - n - HDR, True) # bs)" by simp
  moreover have "take_block splits mp a \<lparr>mb_size = s, mb_free = True, mb_next = nx\<rparr> n =
      Inr (Some (a + HDR), mp\<lparr>mp_mem := ?m\<rparr>)"
    using True sz room by (simp add: take_block_def put_block_def Let_def)
  ultimately show ?thesis using True by (auto simp: chain_to_def)
next
  case False
  let ?m = "(mp_mem mp)(a \<mapsto> \<lparr>mb_size = s, mb_free = False, mb_next = nx\<rparr>)"
  have "chain ?m (Some a) a ((s, False) # bs)" using ch by (simp add: chain_upd_below)
  with False room show ?thesis by (auto simp: take_block_def put_block_def chain_to_def)
qed

lemma alloc_loop_chain:
  assumes ok: "split_ok HDR splits" and "chain (mp_mem mp) p a bs" and "a + span HDR bs \<le> mp_size mp"
  shows "case first_fit HDR splits n bs of
      None \<Rightarrow> alloc_loop splits mp n p = Some (Inr (None, mp))
    | Some (off, bs') \<Rightarrow> \<exists>mp'. alloc_loop splits mp n p = Some (Inr (Some (a + off + HDR), mp')) \<and>
        chain_to mp mp' p a bs'"
  using assms(2,3)
proof (induction bs arbitrary: p a)
  case Nil
  then show ?case by (simp add: alloc_loop.simps)
next
  case (Cons b bs)
  obtain s f where b: "b = (s, f)" by (cases b)
  from Cons.prems(1) [unfolded b] obtain nx where p: "p = Some a"
    and m: "mp_mem mp a = Some \<lparr>mb_size = s, mb_free = f, mb_next = nx\<rparr>"
    and ch: "chain (mp_mem mp) nx (a + HDR + s) bs" by (rule chain_Cons_cases)
  show ?case
  proof (cases "f \<and> n \<le> s")
    case True
    with m take_block_chain [OF ok _ ch, of n] Cons.prems(2) b
    obtain mp' where "take_block splits mp a \<lparr>mb_size = s, mb_free = True, mb_next = nx\<rparr> n = Inr (Some (a + HDR), mp')"
      "chain_to mp mp' (Some a) a (if splits s n then (n, False) # (s - n - HDR, True) # bs else (s, False) # bs)"
      by auto
    with True b p m show ?thesis by (simp add: alloc_loop.simps get_block_def)
  next
    case False
    then have step: "alloc_loop splits mp n p = alloc_loop splits mp n nx"
      using p m by (subst alloc_loop.simps) (auto simp: get_block_def)
    have "a + HDR + s + span HDR bs \<le> mp_size mp" using Cons.prems(2) b by simp
    note IH = Cons.IH [OF ch this]
    show ?thesis
    proof (cases "first_fit HDR splits n bs")
      case None
      with IH step False b show ?thesis by auto
    next
      case (Some r)
      obtain off bs' where r: "r = (off, bs')" by (cases r)
      with IH Some obtain mp' where "alloc_loop splits mp n nx = Some (Inr (Some (a + HDR + s + off + HDR), mp'))"
        "chain_to mp mp' nx (a + HDR + s) bs'" by auto
      with step chain_to_Cons [OF _ m] Some r False b p show ?thesis by (auto simp: add.assoc)
    qed
  qed
qed

lemma chain_to_merge:
  assumes "mp_mem mp a = Some \<lparr>mb_size = s, mb_free = True, mb_next = Some (a + HDR + s)\<rparr>"
    and "mp_mem mp (a + HDR + s) = Some \<lparr>mb_size = t, mb_free = True, mb_next = nx\<rparr>"
    and "chain (mp_mem mp) nx (a + HDR + s + HDR + t) bs" and "a + HDR \<le> mp_size mp"
  shows "\<exists>mp'. merge_next mp a \<lparr>mb_size = s, mb_free = True, mb_next = Some (a + HDR + s)\<rparr>
      \<lparr>mb_size = t, mb_free = True, mb_next = nx\<rparr> = Inr mp' \<and> chain_to mp mp' (Some a) a ((s + HDR + t, True) # bs)"
  using assms by (auto simp: merge_next_def put_block_def chain_to_def chain_upd_below add.assoc)

lemma chain_to_trans: "chain_to mp mp1 p a bs \<Longrightarrow> chain_to mp1 mp2 q a cs \<Longrightarrow> chain_to mp mp2 q a cs"
  by (simp add: chain_to_def)

lemma chain_to_refl: "chain (mp_mem mp) p a bs \<Longrightarrow> chain_to mp mp p a bs"
  by (simp add: chain_to_def)

lemma coalesce_loop_chain:
  assumes "chain (mp_mem mp) p a bs" and "a + span HDR bs \<le> mp_size mp"
  shows "\<exists>mp'. coalesce_loop mp p = Some (Inr mp') \<and> coalesceSLL_loop mp p = Some (Inr mp') \<and>
    chain_to mp mp' p a (coalesce HDR bs)"
  using assms
proof (induction "length bs" arbitrary: mp p a bs rule: less_induct)
  case less
  show ?case
  proof (cases bs)
    case Nil
    with less.prems show ?thesis by (auto simp: coalesce_loop.simps coalesceSLL_loop.simps chain_to_def)
  next
    case (Cons b cs)
    obtain s f where b: "b = (s, f)" by (cases b)
    from less.prems(1) obtain nx where p: "p = Some a" "mp_mem mp a = Some \<lparr>mb_size = s, mb_free = f, mb_next = nx\<rparr>"
      "chain (mp_mem mp) nx (a + HDR + s) cs" unfolding Cons b by (rule chain_Cons_cases)
    show ?thesis
    proof (cases cs)
      case Nil
      with p Cons b show ?thesis
        by (auto simp: coalesce_loop.simps coalesceSLL_loop.simps [of mp "Some a"] coalesceSLL_loop.simps [of mp None]
            get_block_def chain_to_def)
    next
      case (Cons c ds)
      obtain t g where c: "c = (t, g)" by (cases c)
      from p(3) obtain nx' where n: "nx = Some (a + HDR + s)"
        "mp_mem mp (a + HDR + s) = Some \<lparr>mb_size = t, mb_free = g, mb_next = nx'\<rparr>"
        "chain (mp_mem mp) nx' (a + HDR + s + HDR + t) ds" unfolding Cons c by (rule chain_Cons_cases)
      show ?thesis
      proof (cases "f \<and> g")
        case True
        with chain_to_merge [of mp a s t nx' ds] p n less.prems(2) \<open>bs = b # cs\<close> b obtain mp1 where
          m1: "merge_next mp a \<lparr>mb_size = s, mb_free = True, mb_next = Some (a + HDR + s)\<rparr>
            \<lparr>mb_size = t, mb_free = True, mb_next = nx'\<rparr> = Inr mp1" "chain_to mp mp1 (Some a) a ((s + HDR + t, True) # ds)"
          by auto
        then have ch1: "chain (mp_mem mp1) (Some a) a ((s + HDR + t, True) # ds)" and sz: "mp_size mp1 = mp_size mp"
          by (simp_all add: chain_to_def)
        have "\<exists>mp'. coalesce_loop mp1 (Some a) = Some (Inr mp') \<and> coalesceSLL_loop mp1 (Some a) = Some (Inr mp') \<and>
            chain_to mp1 mp' (Some a) a (coalesce HDR ((s + HDR + t, True) # ds))"
          by (rule less.hyps [OF _ ch1]) (use less.prems(2) \<open>bs = b # cs\<close> Cons b c sz in simp_all)
        moreover have "coalesce_loop mp p = coalesce_loop mp1 (Some a)" "coalesceSLL_loop mp p = coalesceSLL_loop mp1 (Some a)"
          using p n m1(1) True by (subst coalesce_loop.simps coalesceSLL_loop.simps; simp add: get_block_def)+
        ultimately show ?thesis
          using chain_to_trans [OF m1(2)] True p(1) \<open>bs = b # cs\<close> Cons b c by auto
      next
        case False
        have "\<exists>mp'. coalesce_loop mp nx = Some (Inr mp') \<and> coalesceSLL_loop mp nx = Some (Inr mp') \<and>
            chain_to mp mp' nx (a + HDR + s) (coalesce HDR cs)"
          by (rule less.hyps [OF _ p(3)]) (use less.prems(2) \<open>bs = b # cs\<close> b in simp_all)
        moreover have "coalesce_loop mp p = coalesce_loop mp nx" "coalesceSLL_loop mp p = coalesceSLL_loop mp nx"
          using p n False by (subst coalesce_loop.simps coalesceSLL_loop.simps; auto simp: get_block_def)+
        moreover have "coalesce HDR bs = (s, f) # coalesce HDR cs"
          using False \<open>bs = b # cs\<close> Cons b c by (cases f; cases g) auto
        ultimately show ?thesis using chain_to_Cons [OF _ p(2)] p(1) by auto
      qed
    qed
  qed
qed

section \<open>The pool as a state\<close>

definition pool_rep :: "mempool \<Rightarrow> block list \<Rightarrow> bool" where
  "pool_rep mp bs \<longleftrightarrow> mp_head mp = Some 0 \<and> chain (mp_mem mp) (Some 0) 0 bs \<and> span HDR bs = mp_size mp"

fun walk :: "nat \<Rightarrow> (addr \<Rightarrow> mem_block option) \<Rightarrow> ptr \<Rightarrow> block list" where
  "walk (Suc n) m (Some a) = (case m a of None \<Rightarrow> [] | Some b \<Rightarrow> (mb_size b, mb_free b) # walk n m (mb_next b))"
| "walk _ _ _ = []"

definition blocks_of :: "mempool \<Rightarrow> block list" where
  "blocks_of mp = walk (mp_size mp) (mp_mem mp) (mp_head mp)"

lemma walk_chain: "chain m p a bs \<Longrightarrow> length bs \<le> n \<Longrightarrow> walk n m p = bs"
proof (induction bs arbitrary: p a n)
  case Nil
  then show ?case by (cases n) auto
next
  case (Cons b bs)
  then show ?case by (cases n; cases b) (auto split: option.splits)
qed

lemma length_le_span: "length bs \<le> span HDR bs"
  by (induction bs) (auto simp: trans_le_add1)

lemma pool_rep_blocks: "pool_rep mp bs \<Longrightarrow> blocks_of mp = bs"
  unfolding pool_rep_def blocks_of_def using walk_chain length_le_span by metis

lemma pool_rep_not_Nil: "pool_rep mp bs \<Longrightarrow> bs \<noteq> []"
  by (auto simp: pool_rep_def)

lemma split_ok_versions: "split_ok HDR splits4" "split_ok HDR splits_gt"
  by (simp_all add: split_ok_def splits4_def splits_gt_def)

lemma alloc_loop_rep:
  assumes "split_ok HDR splits" and "pool_rep mp bs"
  shows "case first_fit HDR splits n bs of
      None \<Rightarrow> alloc_loop splits mp n (mp_head mp) = Some (Inr (None, mp))
    | Some (off, bs') \<Rightarrow> \<exists>mp'. alloc_loop splits mp n (mp_head mp) = Some (Inr (Some (off + HDR), mp')) \<and>
        pool_rep mp' bs' \<and> mp_size mp' = mp_size mp"
  using alloc_loop_chain [OF assms(1), of mp "Some 0" 0 bs n] assms(2) first_fit_span [OF assms(1), of n bs]
  by (auto simp: pool_rep_def chain_to_def split: option.splits)

lemma free_at_chain:
  assumes "chain m p a bs" and "free_at HDR off bs = Some bs'"
  shows "\<exists>b. m (a + off) = Some b \<and> chain (m(a + off \<mapsto> b\<lparr>mb_free := True\<rparr>)) p a bs'"
  using assms
proof (induction bs arbitrary: p a off bs')
  case (Cons c cs)
  obtain s f where c: "c = (s, f)" by (cases c)
  from Cons.prems(1) [unfolded c] obtain nx where p: "p = Some a" "m a = Some \<lparr>mb_size = s, mb_free = f, mb_next = nx\<rparr>"
    "chain m nx (a + HDR + s) cs" by (rule chain_Cons_cases)
  show ?case
  proof (cases "off = 0")
    case True
    have "chain (m(a \<mapsto> \<lparr>mb_size = s, mb_free = True, mb_next = nx\<rparr>)) nx (a + HDR + s) cs"
      using p(3) by (simp add: chain_upd_below)
    moreover have "bs' = (s, True) # cs" using True Cons.prems(2) c by simp
    ultimately have "chain (m(a + off \<mapsto> \<lparr>mb_size = s, mb_free = f, mb_next = nx\<rparr>\<lparr>mb_free := True\<rparr>)) p a bs'"
      using True p(1) by simp
    moreover have "m (a + off) = Some \<lparr>mb_size = s, mb_free = f, mb_next = nx\<rparr>" using True p(2) by simp
    ultimately show ?thesis by blast
  next
    case False
    with Cons.prems(2) c obtain cs' where cs': "free_at HDR (off - HDR - s) cs = Some cs'" "bs' = (s, f) # cs'" "HDR + s \<le> off"
      by (auto split: if_splits)
    then have e: "a + HDR + s + (off - HDR - s) = a + off" by simp
    from Cons.IH [OF p(3) cs'(1)] obtain b where
      b: "m (a + off) = Some b" "chain (m(a + off \<mapsto> b\<lparr>mb_free := True\<rparr>)) nx (a + HDR + s) cs'" unfolding e by blast
    have "chain (m(a + off \<mapsto> b\<lparr>mb_free := True\<rparr>)) (Some a) a ((s, f) # cs')"
      by (rule chain_ConsI [OF _ b(2)]) (use p False in simp)
    with b(1) p(1) cs'(2) show ?thesis by blast
  qed
qed simp

lemma free_rep:
  assumes rep: "pool_rep mp bs" and fr: "free_at HDR off bs = Some bs1" and sp: "span HDR bs1 = span HDR bs"
    and room: "off + HDR \<le> mp_size mp"
  shows "\<exists>mp'. mempool_free mp (Some (off + HDR)) = Some (Inr mp') \<and> mempoolSLL_free mp (Some (off + HDR)) = Some (Inr mp') \<and>
    pool_rep mp' (coalesce HDR bs1) \<and> mp_size mp' = mp_size mp"
proof -
  have ch: "chain (mp_mem mp) (Some 0) 0 bs" using rep by (simp add: pool_rep_def)
  from free_at_chain [OF ch fr] obtain b where
    b: "mp_mem mp off = Some b" "chain ((mp_mem mp)(off \<mapsto> b\<lparr>mb_free := True\<rparr>)) (Some 0) 0 bs1" by auto
  let ?mp = "mp\<lparr>mp_mem := (mp_mem mp)(off \<mapsto> b\<lparr>mb_free := True\<rparr>)\<rparr>"
  have "mark_free mp (off + HDR) = Inr ?mp" using b room by (simp add: mark_free_def get_block_def put_block_def)
  moreover from coalesce_loop_chain [of ?mp "Some 0" 0 bs1] b sp rep obtain mp' where
    "coalesce_loop ?mp (Some 0) = Some (Inr mp')" "coalesceSLL_loop ?mp (Some 0) = Some (Inr mp')"
    "chain_to ?mp mp' (Some 0) 0 (coalesce HDR bs1)" by (auto simp: pool_rep_def)
  ultimately show ?thesis
    using rep sp by (auto simp: mempool_free_def mempoolSLL_free_def pool_rep_def chain_to_def)
qed

definition pool_inv :: "mempool \<Rightarrow> bool" where
  "pool_inv mp \<longleftrightarrow> pool_rep mp (blocks_of mp) \<and> no_adjacent_free (blocks_of mp)"

definition pool_live :: "mempool \<Rightarrow> (nat \<times> nat) set" where
  "pool_live mp = set (used HDR 0 (blocks_of mp))"

lemma pool_invI: "pool_rep mp bs \<Longrightarrow> no_adjacent_free bs \<Longrightarrow> pool_inv mp \<and> pool_live mp = set (used HDR 0 bs)"
  by (simp add: pool_inv_def pool_live_def pool_rep_blocks)

lemma pool_init_inv: "HDR \<le> sz \<Longrightarrow>
  pool_rep \<lparr>mp_mem = [0 \<mapsto> \<lparr>mb_size = sz - HDR, mb_free = True, mb_next = None\<rparr>], mp_size = sz, mp_head = Some 0\<rparr> [(sz - HDR, True)]"
  by (simp add: pool_rep_def)

text \<open>The two allocators as partial operations that yield a payload address.\<close>

definition served :: "(ptr \<times> mempool) res option \<Rightarrow> (nat \<times> mempool) option" where
  "served r = (case r of Some (Inr (Some p, mp)) \<Rightarrow> Some (p, mp) | _ \<Rightarrow> None)"

definition returned :: "mempool res option \<Rightarrow> mempool option" where
  "returned r = (case r of Some (Inr mp) \<Rightarrow> Some mp | _ \<Rightarrow> None)"

definition mempool_alloc_op :: "mempool \<Rightarrow> nat \<Rightarrow> (nat \<times> mempool) option" where
  "mempool_alloc_op mp n = served (mempool_alloc mp n)"

definition mempool_free_op :: "mempool \<Rightarrow> nat \<Rightarrow> mempool option" where
  "mempool_free_op mp p = returned (mempool_free mp (Some p))"

definition mempoolSLL_alloc_op :: "mempool \<Rightarrow> nat \<Rightarrow> (nat \<times> mempool) option" where
  "mempoolSLL_alloc_op mp n = served (mempoolSLL_alloc mp n)"

definition mempoolSLL_free_op :: "mempool \<Rightarrow> nat \<Rightarrow> mempool option" where
  "mempoolSLL_free_op mp p = returned (mempoolSLL_free mp (Some p))"

lemma served_alloc:
  assumes ok: "split_ok HDR splits" and inv: "pool_inv mp" and r: "served (alloc_loop splits mp n (mp_head mp)) = Some (p, mp')"
  shows "pool_inv mp' \<and> mp_size mp' = mp_size mp \<and>
    (\<exists>k\<ge>n. pool_live mp' = insert (p, k) (pool_live mp) \<and> (p, k) \<notin> pool_live mp)"
proof -
  let ?bs = "blocks_of mp"
  have rep: "pool_rep mp ?bs" "no_adjacent_free ?bs" using inv by (simp_all add: pool_inv_def)
  from alloc_loop_rep [OF ok rep(1), of n] r obtain off bs' where ff: "first_fit HDR splits n ?bs = Some (off, bs')"
    and 1: "p = off + HDR" "pool_rep mp' bs'" "mp_size mp' = mp_size mp"
    by (auto simp: served_def split: option.splits)
  from pool_invI [OF 1(2)] first_fit_no_adjacent [OF ff rep(2)]
  have "pool_inv mp'" "pool_live mp' = set (used HDR 0 bs')" by simp_all
  with first_fit_used [OF ok ff, of 0] 1 show ?thesis by (simp add: pool_live_def)
qed

lemma alloc_idle:
  assumes ok: "split_ok HDR splits" and inv: "pool_inv mp" and idle: "pool_live mp = {}"
  shows "served (alloc_loop splits mp n (mp_head mp)) \<noteq> None \<longleftrightarrow> n \<le> mp_size mp - HDR"
proof -
  let ?bs = "blocks_of mp"
  have rep: "pool_rep mp ?bs" "no_adjacent_free ?bs" using inv by (simp_all add: pool_inv_def)
  have "?bs = [(mp_size mp - HDR, True)]"
    using coalesce_all_free [of HDR 0 ?bs] rep idle pool_rep_not_Nil [OF rep(1)] by (simp add: pool_live_def pool_rep_def)
  with alloc_loop_rep [OF ok rep(1), of n] show ?thesis
    by (auto simp: served_def split: if_splits)
qed

lemma free_live:
  assumes inv: "pool_inv mp" and l: "(p, k) \<in> pool_live mp"
  shows "\<exists>mp'. mempool_free mp (Some p) = Some (Inr mp') \<and> mempoolSLL_free mp (Some p) = Some (Inr mp') \<and>
    pool_inv mp' \<and> mp_size mp' = mp_size mp \<and> pool_live mp' = pool_live mp - {(p, k)}"
proof -
  let ?bs = "blocks_of mp"
  have rep: "pool_rep mp ?bs" using inv by (simp add: pool_inv_def)
  from l used_bounds [of p k HDR 0 ?bs] have b: "HDR \<le> p" "p \<le> span HDR ?bs" by (simp_all add: pool_live_def)
  then have e: "0 + (p - HDR) + HDR = p" by simp
  from free_at_used [of 0 "p - HDR" HDR k ?bs, unfolded e] l obtain bs1 where
    1: "free_at HDR (p - HDR) ?bs = Some bs1" "set (used HDR 0 bs1) = set (used HDR 0 ?bs) - {(p, k)}" "span HDR bs1 = span HDR ?bs"
    by (auto simp: pool_live_def)
  have "p - HDR + HDR \<le> mp_size mp" using b rep by (simp add: pool_rep_def)
  from free_rep [OF rep 1(1,3) this] b obtain mp' where
    2: "mempool_free mp (Some p) = Some (Inr mp')" "mempoolSLL_free mp (Some p) = Some (Inr mp')"
      "pool_rep mp' (coalesce HDR bs1)" "mp_size mp' = mp_size mp" by auto
  from pool_invI [OF 2(3)] 1(2) 2 show ?thesis by (simp add: pool_live_def)
qed

lemma live_within_pool: "pool_inv mp \<Longrightarrow> (p, k) \<in> pool_live mp \<Longrightarrow> p + k \<le> mp_size mp"
  using used_bounds [of p k HDR 0 "blocks_of mp"] by (simp add: pool_live_def pool_inv_def pool_rep_def)

lemma live_disjoint_pool:
  "(p, k) \<in> pool_live mp \<Longrightarrow> (q, l) \<in> pool_live mp \<Longrightarrow> (p, k) \<noteq> (q, l) \<Longrightarrow> p + k < q \<or> q + l < p"
  using used_disjoint [of HDR p k 0 "blocks_of mp" q l] by (auto simp: pool_live_def)

lemma ALIGN4_props:
  assumes "n + 3 < 2 ^ 64"
  shows "n \<le> ALIGN4 n" and "ALIGN4 n \<le> 4 * c \<longleftrightarrow> n \<le> 4 * c"
proof -
  have e: "ALIGN4 n = (n + 3) div 4 * 4" using assms by (simp add: ALIGN4_def)
  show "n \<le> ALIGN4 n" unfolding e by presburger
  show "ALIGN4 n \<le> 4 * c \<longleftrightarrow> n \<le> 4 * c" unfolding e by presburger
qed

definition mempool_inv :: "mempool \<Rightarrow> bool" where
  "mempool_inv mp \<longleftrightarrow> pool_inv mp \<and> mp_size mp = POOL_SIZE"

interpretation c_pool: pool_allocator mempool_alloc_op mempool_free_op pool_live mempool_inv mp_size
  "\<lambda>_. POOL_SIZE - HDR" "\<lambda>n. n + 3 < 2 ^ 64"
proof unfold_locales
  fix s n p s' k q l
  show "mempool_inv s \<Longrightarrow> n + 3 < 2 ^ 64 \<Longrightarrow> mempool_alloc_op s n = Some (p, s') \<Longrightarrow>
      mempool_inv s' \<and> mp_size s' = mp_size s \<and> POOL_SIZE - HDR = POOL_SIZE - HDR \<and>
      (\<exists>k\<ge>n. pool_live s' = insert (p, k) (pool_live s) \<and> (p, k) \<notin> pool_live s)"
    using served_alloc [OF split_ok_versions(1), of s "ALIGN4 n" p s'] ALIGN4_props(1) [of n]
    by (auto simp: mempool_inv_def mempool_alloc_op_def mempool_alloc_def intro: order_trans)
  show "mempool_inv s \<Longrightarrow> (p, k) \<in> pool_live s \<Longrightarrow> \<exists>s'. mempool_free_op s p = Some s' \<and> mempool_inv s' \<and>
      mp_size s' = mp_size s \<and> POOL_SIZE - HDR = POOL_SIZE - HDR \<and> pool_live s' = pool_live s - {(p, k)}"
    using free_live [of s p k] by (auto simp: mempool_inv_def mempool_free_op_def returned_def)
  show "mempool_inv s \<Longrightarrow> (p, k) \<in> pool_live s \<Longrightarrow> p + k \<le> mp_size s"
    using live_within_pool [of s p k] by (simp add: mempool_inv_def)
  show "mempool_inv s \<Longrightarrow> (p, k) \<in> pool_live s \<Longrightarrow> (q, l) \<in> pool_live s \<Longrightarrow> (p, k) \<noteq> (q, l) \<Longrightarrow> p + k < q \<or> q + l < p"
    by (rule live_disjoint_pool)
  show "mempool_inv s \<Longrightarrow> n + 3 < 2 ^ 64 \<Longrightarrow> pool_live s = {} \<Longrightarrow>
      mempool_alloc_op s n \<noteq> None \<longleftrightarrow> n \<le> POOL_SIZE - HDR"
    using alloc_idle [OF split_ok_versions(1), of s "ALIGN4 n"] ALIGN4_props(2) [of n 250]
    by (simp add: mempool_inv_def mempool_alloc_op_def mempool_alloc_def)
qed

interpretation sll_pool: pool_allocator mempoolSLL_alloc_op mempoolSLL_free_op pool_live pool_inv mp_size
  "\<lambda>mp. mp_size mp - HDR" "\<lambda>_. True"
proof unfold_locales
  fix s n p s' k q l
  have hd: "pool_inv s \<Longrightarrow> mp_head s \<noteq> None" by (simp add: pool_inv_def pool_rep_def)
  show "pool_inv s \<Longrightarrow> True \<Longrightarrow> mempoolSLL_alloc_op s n = Some (p, s') \<Longrightarrow>
      pool_inv s' \<and> mp_size s' = mp_size s \<and> mp_size s' - HDR = mp_size s - HDR \<and>
      (\<exists>k\<ge>n. pool_live s' = insert (p, k) (pool_live s) \<and> (p, k) \<notin> pool_live s)"
    using served_alloc [OF split_ok_versions(2), of s n p s'] hd
    by (simp add: mempoolSLL_alloc_op_def mempoolSLL_alloc_def)
  show "pool_inv s \<Longrightarrow> (p, k) \<in> pool_live s \<Longrightarrow> \<exists>s'. mempoolSLL_free_op s p = Some s' \<and> pool_inv s' \<and>
      mp_size s' = mp_size s \<and> mp_size s' - HDR = mp_size s - HDR \<and> pool_live s' = pool_live s - {(p, k)}"
    using free_live [of s p k] by (auto simp: mempoolSLL_free_op_def returned_def)
  show "pool_inv s \<Longrightarrow> (p, k) \<in> pool_live s \<Longrightarrow> p + k \<le> mp_size s" by (rule live_within_pool)
  show "pool_inv s \<Longrightarrow> (p, k) \<in> pool_live s \<Longrightarrow> (q, l) \<in> pool_live s \<Longrightarrow> (p, k) \<noteq> (q, l) \<Longrightarrow> p + k < q \<or> q + l < p"
    by (rule live_disjoint_pool)
  show "pool_inv s \<Longrightarrow> True \<Longrightarrow> pool_live s = {} \<Longrightarrow> mempoolSLL_alloc_op s n \<noteq> None \<longleftrightarrow> n \<le> mp_size s - HDR"
    using alloc_idle [OF split_ok_versions(2), of s n] hd
    by (auto simp: mempoolSLL_alloc_op_def mempoolSLL_alloc_def)
qed

lemma mempool_init_inv: "mempool_inv mempool_init" "pool_live mempool_init = {}"
  using pool_invI [OF pool_init_inv [of POOL_SIZE]] by (simp_all add: mempool_inv_def mempool_init_def)

section \<open>Properties\<close>

text \<open>
  Claim C7. An allocation of fewer than SIZE_MAX - 2 bytes from the pool (\<open>n + 3 < 2 ^ 64\<close>: above, \<open>ALIGN4\<close> wraps around) ends without leaving the pool's memory: it either changes nothing and returns null,
  which happens only when no free block is large enough, or it hands out a payload of at least the requested size that
  lies in the pool and overlaps no other payload in use, and keeps every other payload as it is.
\<close>

theorem mempool_alloc_safe:
  assumes "mempool_inv mp" and "n + 3 < 2 ^ 64"
  shows "(mempool_alloc mp n = Some (Inr (None, mp)) \<and> (\<forall>(s, f) \<in> set (blocks_of mp). f \<longrightarrow> s < ALIGN4 n)) \<or>
    (\<exists>p mp' k. mempool_alloc mp n = Some (Inr (Some p, mp')) \<and> mempool_inv mp' \<and> n \<le> k \<and>
       pool_live mp' = insert (p, k) (pool_live mp) \<and> p + k \<le> POOL_SIZE \<and>
       (\<forall>(q, l) \<in> pool_live mp. p + k < q \<or> q + l < p))"
proof -
  have rep: "pool_rep mp (blocks_of mp)" using assms(1) by (simp add: mempool_inv_def pool_inv_def)
  show ?thesis
  proof (cases "first_fit HDR splits4 (ALIGN4 n) (blocks_of mp)")
    case None
    then show ?thesis
      using alloc_loop_rep [OF split_ok_versions(1) rep, of "ALIGN4 n"] first_fit_None [of HDR splits4 "ALIGN4 n" "blocks_of mp"]
      by (simp add: mempool_alloc_def)
  next
    case (Some r)
    with alloc_loop_rep [OF split_ok_versions(1) rep, of "ALIGN4 n"] obtain p mp' where
      r: "mempool_alloc mp n = Some (Inr (Some p, mp'))" by (cases r) (auto simp: mempool_alloc_def)
    then have "mempool_alloc_op mp n = Some (p, mp')" by (simp add: mempool_alloc_op_def served_def)
    from c_pool.alloc_live [OF assms this] obtain k where k: "mempool_inv mp'" "n \<le> k"
      "pool_live mp' = insert (p, k) (pool_live mp)" "(p, k) \<notin> pool_live mp" by blast
    have "p + k \<le> POOL_SIZE" using c_pool.live_within [of mp' p k] k by (simp add: mempool_inv_def)
    moreover have "\<forall>(q, l) \<in> pool_live mp. p + k < q \<or> q + l < p"
      using c_pool.live_disjoint [of mp' p k] k by auto
    ultimately show ?thesis using r k by blast
  qed
qed

theorem mempool_alloc_safe_witness:
  "\<exists>p mp' k. mempool_alloc mempool_init 100 = Some (Inr (Some p, mp')) \<and> 100 \<le> k \<and> p + k \<le> POOL_SIZE"
proof -
  have "\<not> (\<forall>(s, f) \<in> set (blocks_of mempool_init). f \<longrightarrow> s < ALIGN4 100)"
    using pool_rep_blocks [OF pool_init_inv [of POOL_SIZE]] by (simp add: mempool_init_def ALIGN4_def)
  with mempool_alloc_safe [OF mempool_init_inv(1), of 100] show ?thesis by auto
qed

text \<open>
  Whatever was allocated from a pool, freeing all of it in any order succeeds and makes the whole pool available
  again: afterwards a request is served exactly when it fits beside one header. This holds of the pool of \<open>memorypool.c\<close>
  and of the one of \<open>memorypoolSLL.c\<close>.
\<close>

theorem pool_free_everything:
  assumes "set bl = pool_live mp" and "distinct (map fst bl)"
  shows "(mempool_inv mp \<longrightarrow> (\<exists>mp'. dealloc_all mempool_free_op mp (map fst bl) = Some mp' \<and> pool_live mp' = {} \<and>
      (\<forall>n. n + 3 < 2 ^ 64 \<longrightarrow> mempool_alloc_op mp' n \<noteq> None \<longleftrightarrow> n \<le> POOL_SIZE - HDR))) \<and>
    (pool_inv mp \<longrightarrow> (\<exists>mp'. dealloc_all mempoolSLL_free_op mp (map fst bl) = Some mp' \<and> pool_live mp' = {} \<and>
      (\<forall>n. mempoolSLL_alloc_op mp' n \<noteq> None \<longleftrightarrow> n \<le> mp_size mp - HDR)))"
  using c_pool.free_everything [of mp bl] sll_pool.free_everything [of mp bl] assms by auto

theorem pool_free_everything_witness:
  "\<exists>mp'. dealloc_all mempool_free_op mempool_init [] = Some mp' \<and> pool_live mp' = {}"
  using pool_free_everything [of "[]" mempool_init] mempool_init_inv by auto

text \<open>
  The free of \<open>memorypoolSLL.cpp\<close> moves on after a merge, so it does not merge a freed block with free blocks on
  both sides: the pool keeps two neighbouring free blocks where \<open>memorypoolSLL.c\<close> gets one.
\<close>

theorem MemPool_free_leaves_neighbours:
  assumes "pool_rep mp [(s, True), (t, False), (u, True)]"
  shows "\<exists>mp' mp''. MemPool_free mp (Some (2 * HDR + s)) = Some (Inr mp') \<and>
    pool_rep mp' [(s + HDR + t, True), (u, True)] \<and>
    mempoolSLL_free mp (Some (2 * HDR + s)) = Some (Inr mp'') \<and> pool_rep mp'' [(s + HDR + t + HDR + u, True)]"
proof -
  define b c where "b = HDR + s" and "c = b + HDR + t"
  then have bc: "0 < b" "b < c" "0 + HDR + s = b" "0 + HDR + (s + HDR + t) = c" "b + HDR + t = c" "2 * HDR + s - HDR = b"
    by simp_all
  have mem: "mp_mem mp 0 = Some \<lparr>mb_size = s, mb_free = True, mb_next = Some b\<rparr>"
    "mp_mem mp b = Some \<lparr>mb_size = t, mb_free = False, mb_next = Some c\<rparr>"
    "mp_mem mp c = Some \<lparr>mb_size = u, mb_free = True, mb_next = None\<rparr>"
    and hd: "mp_head mp = Some 0" and sz: "mp_size mp = c + HDR + u"
    using assms by (auto simp: pool_rep_def b_def c_def split: option.splits)
  let ?m1 = "(mp_mem mp)(b \<mapsto> \<lparr>mb_size = t, mb_free = True, mb_next = Some c\<rparr>)"
  let ?m = "?m1(0 \<mapsto> \<lparr>mb_size = s + HDR + t, mb_free = True, mb_next = Some c\<rparr>)"
  let ?mp = "mp\<lparr>mp_mem := ?m\<rparr>"
  have "mark_free mp (2 * HDR + s) = Inr (mp\<lparr>mp_mem := ?m1\<rparr>)"
    unfolding mark_free_def bc(6) using mem sz bc by (simp add: get_block_def put_block_def)
  moreover have "coalesce_once_loop (mp\<lparr>mp_mem := ?m1\<rparr>) (Some 0) = Some (Inr ?mp)"
    using mem bc sz by (simp add: coalesce_once_loop.simps get_block_def put_block_def merge_next_def)
  ultimately have "MemPool_free mp (Some (2 * HDR + s)) = Some (Inr ?mp)" using hd by (simp add: MemPool_free_def)
  moreover have "chain ?m (Some c) c [(u, True)]" using mem bc by simp
  then have "chain ?m (Some 0) 0 [(s + HDR + t, True), (u, True)]"
    by (intro chain_ConsI [where nx = "Some c"]) (use bc(4) in simp_all)
  then have "pool_rep ?mp [(s + HDR + t, True), (u, True)]" using hd sz by (simp add: pool_rep_def b_def c_def)
  moreover have "free_at HDR b [(s, True), (t, False), (u, True)] = Some [(s, True), (t, True), (u, True)]"
    by (simp add: b_def)
  from free_rep [OF assms this] sz have
    "\<exists>mp''. mempoolSLL_free mp (Some (2 * HDR + s)) = Some (Inr mp'') \<and> pool_rep mp'' [(s + HDR + t + HDR + u, True)]"
    by (auto simp: b_def c_def algebra_simps)
  ultimately show ?thesis by blast
qed

theorem MemPool_free_leaves_neighbours_witness:
  "\<exists>mp'. MemPool_free \<lparr>mp_mem = [0 \<mapsto> \<lparr>mb_size = 8, mb_free = True, mb_next = Some 32\<rparr>,
      32 \<mapsto> \<lparr>mb_size = 16, mb_free = False, mb_next = Some 72\<rparr>, 72 \<mapsto> \<lparr>mb_size = 4, mb_free = True, mb_next = None\<rparr>],
      mp_size = 100, mp_head = Some 0\<rparr> (Some 56) = Some (Inr mp') \<and> pool_rep mp' [(48, True), (4, True)]"
  using MemPool_free_leaves_neighbours [of "\<lparr>mp_mem = [0 \<mapsto> \<lparr>mb_size = 8, mb_free = True, mb_next = Some 32\<rparr>,
      32 \<mapsto> \<lparr>mb_size = 16, mb_free = False, mb_next = Some 72\<rparr>, 72 \<mapsto> \<lparr>mb_size = 4, mb_free = True, mb_next = None\<rparr>],
      mp_size = 100, mp_head = Some 0\<rparr>" 8 16 4]
  by (auto simp: pool_rep_def)

lemma mempool_alloc_wraps:
  "\<exists>mp'. mempool_alloc mempool_init (2 ^ 64 - 1) = Some (Inr (Some 24, mp')) \<and> pool_live mp' = {(24, 0)}"
proof -
  have rep: "pool_rep mempool_init [(1000, True)]" using pool_init_inv [of POOL_SIZE] by (simp add: mempool_init_def)
  have "ALIGN4 (2 ^ 64 - 1) = 0" by (simp add: ALIGN4_def)
  with alloc_loop_rep [OF split_ok_versions(1) rep, of 0] obtain mp' where
    "mempool_alloc mempool_init (2 ^ 64 - 1) = Some (Inr (Some 24, mp'))" "pool_rep mp' [(0, False), (976, True)]"
    by (auto simp: mempool_alloc_def splits4_def)
  then show ?thesis using pool_invI [of mp'] by auto
qed

lemmas pool_exec = obind_def mempool_init_def mempool_alloc_def mempool_free_def visualize_memory_pool_def
  MemPool_new_def MemPool_alloc_def MemPool_free_def MemPool_visualize_def alloc_loop.simps coalesce_loop.simps
  coalesce_once_loop.simps visualize_loop.simps MemPool_visualize_loop.simps get_block_def put_block_def
  take_block_def merge_next_def mark_free_def ALIGN4_def splits4_def splits_gt_def Let_def

lemma memorypool_main_prints:
  "memorypool_main = Some (Inr [[(0, 100, False, Some 124), (124, 200, False, Some 348), (348, 300, False, Some 672),
     (672, 328, True, None)], [(0, 100, False, Some 124), (124, 200, False, Some 348), (348, 652, True, None)]])"
  by (simp add: memorypool_main_def pool_exec)

lemma memorypoolSLL_cpp_main_prints:
  "memorypoolSLL_cpp_main = Some (Inr [[(100, False), (200, False), (300, False), (328, True)],
     [(100, False), (200, False), (652, True)]])"
  by (simp add: memorypoolSLL_cpp_main_def pool_exec)

text \<open>A pool that is used after its destructor follows a dangling pointer, in \<open>alloc\<close> and in \<open>free\<close>.\<close>

lemma destroyed_pool_dangles:
  assumes "mp_head mp = Some a"
  shows "\<exists>e. MemPool_alloc (MemPool_destroy mp) n = Some (Inl e)" "\<exists>e. MemPool_free (MemPool_destroy mp) (Some p) = Some (Inl e)"
  using assms by (auto simp: MemPool_alloc_def MemPool_free_def MemPool_destroy_def alloc_loop.simps mark_free_def get_block_def deref_def)

end
