(* ===== verification/Memory_Pool_DLL.thy ===== *)
theory Memory_Pool_DLL
  imports Pool_Spec
begin

text \<open>
  The memory pools with a doubly linked block list, \<open>memorypool/memorypoolDLL.c\<close> and
  \<open>memorypool/memorypoolDLL.cpp\<close>, which merge a freed block with its two neighbours in constant time. As for the
  singly linked pools an address is an offset into the pool; headers have 32 bytes.
\<close>

section \<open>Headers\<close>

abbreviation DHDR :: nat where "DHDR \<equiv> 32"

record dmem_block =
  db_size :: nat
  db_next :: ptr
  db_prev :: ptr
  db_free :: bool

record dpool =
  dp_mem :: "addr \<Rightarrow> dmem_block option"
  dp_size :: nat
  dp_head :: ptr

definition dput :: "dpool \<Rightarrow> addr \<Rightarrow> dmem_block \<Rightarrow> dpool res" where
  "dput mp a b = (if a + DHDR \<le> dp_size mp then Inr (mp\<lparr>dp_mem := (dp_mem mp)(a \<mapsto> b)\<rparr>) else Inl OutOfBounds)"

definition dget :: "dpool \<Rightarrow> ptr \<Rightarrow> dmem_block res" where
  "dget mp p = deref (dp_mem mp) p"

text \<open>\<open>if (p) p->prev = q\<close>\<close>

definition set_prev :: "dpool \<Rightarrow> ptr \<Rightarrow> ptr \<Rightarrow> dpool res" where
  "set_prev mp p q = (case p of None \<Rightarrow> Inr mp | Some x \<Rightarrow> rbind (dget mp p) (\<lambda>h. dput mp x (h\<lparr>db_prev := q\<rparr>)))"

section \<open>The operations\<close>

definition dll_take :: "dpool \<Rightarrow> addr \<Rightarrow> dmem_block \<Rightarrow> nat \<Rightarrow> (ptr \<times> dpool) res" where
  "dll_take mp current b sz =
     (if db_size b > sz + DHDR
      then
        let newBlock = current + DHDR + sz in
        rbind (dput mp newBlock
          \<lparr>db_size = db_size b - sz - DHDR, db_next = db_next b, db_prev = Some current, db_free = True\<rparr>) (\<lambda>mp.
        rbind (set_prev mp (db_next b) (Some newBlock)) (\<lambda>mp.
        rbind (dput mp current (b\<lparr>db_next := Some newBlock, db_size := sz, db_free := False\<rparr>)) (\<lambda>mp.
        Inr (Some (current + DHDR), mp))))
      else rbind (dput mp current (b\<lparr>db_free := False\<rparr>)) (\<lambda>mp. Inr (Some (current + DHDR), mp)))"

partial_function (option) dll_alloc_loop :: "dpool \<Rightarrow> nat \<Rightarrow> ptr \<Rightarrow> (ptr \<times> dpool) res option" where
  "dll_alloc_loop mp sz current =
     (case current of None \<Rightarrow> Some (Inr (None, mp))
      | Some a \<Rightarrow> (case dget mp current of Inl e \<Rightarrow> Some (Inl e)
          | Inr b \<Rightarrow> if db_free b \<and> sz \<le> db_size b then Some (dll_take mp a b sz)
              else dll_alloc_loop mp sz (db_next b)))"

text \<open>Block \<open>a\<close> with header \<open>b\<close> absorbs the block behind it, whose header is \<open>nb\<close>.\<close>

definition dll_absorb :: "dpool \<Rightarrow> addr \<Rightarrow> dmem_block \<Rightarrow> dmem_block \<Rightarrow> dpool res" where
  "dll_absorb mp a b nb =
     rbind (dput mp a (b\<lparr>db_size := db_size b + DHDR + db_size nb, db_next := db_next nb\<rparr>)) (\<lambda>mp.
     set_prev mp (db_next nb) (Some a))"

definition dll_merge_next :: "dpool \<Rightarrow> addr \<Rightarrow> dpool res" where
  "dll_merge_next mp a = rbind (dget mp (Some a)) (\<lambda>b.
     if db_next b = None then Inr mp
     else rbind (dget mp (db_next b)) (\<lambda>nb. if db_free nb then dll_absorb mp a b nb else Inr mp))"

definition dll_merge_prev :: "dpool \<Rightarrow> addr \<Rightarrow> dpool res" where
  "dll_merge_prev mp a = rbind (dget mp (Some a)) (\<lambda>b.
     case db_prev b of None \<Rightarrow> Inr mp
     | Some q \<Rightarrow> rbind (dget mp (Some q)) (\<lambda>pb. if db_free pb then dll_absorb mp q pb b else Inr mp))"

definition dll_free_block :: "dpool \<Rightarrow> addr \<Rightarrow> dpool res" where
  "dll_free_block mp ptr =
     (if ptr < DHDR then Inl OutOfBounds
      else
        let block = ptr - DHDR in
        rbind (dget mp (Some block)) (\<lambda>b.
        rbind (dput mp block (b\<lparr>db_free := True\<rparr>)) (\<lambda>mp.
        rbind (dll_merge_next mp block) (\<lambda>mp.
        dll_merge_prev mp block))))"

text \<open>\<open>memorypoolDLL.c\<close>\<close>

definition mempoolDLL_init :: "nat \<Rightarrow> bool \<Rightarrow> dpool" where
  "mempoolDLL_init sz malloc_ok =
     (if sz \<le> DHDR \<or> \<not> malloc_ok then \<lparr>dp_mem = (\<lambda>_. None), dp_size = 0, dp_head = None\<rparr>
      else \<lparr>dp_mem = [0 \<mapsto> \<lparr>db_size = sz - DHDR, db_next = None, db_prev = None, db_free = True\<rparr>],
        dp_size = sz, dp_head = Some 0\<rparr>)"

definition mempoolDLL_destroy :: "dpool \<Rightarrow> dpool" where
  "mempoolDLL_destroy mp = \<lparr>dp_mem = (\<lambda>_. None), dp_size = 0, dp_head = None\<rparr>"

definition mempoolDLL_alloc :: "dpool \<Rightarrow> nat \<Rightarrow> (ptr \<times> dpool) res option" where
  "mempoolDLL_alloc mp sz = (if dp_head mp = None then Some (Inr (None, mp)) else dll_alloc_loop mp sz (dp_head mp))"

definition mempoolDLL_free :: "dpool \<Rightarrow> ptr \<Rightarrow> dpool res" where
  "mempoolDLL_free mp ptr = (case ptr of None \<Rightarrow> Inr mp | Some p \<Rightarrow> dll_free_block mp p)"

text \<open>What \<open>mempool_visualize\<close> prints of every block: address, size, free, prev and next.\<close>

partial_function (option) dll_visualize_loop ::
  "dpool \<Rightarrow> ptr \<Rightarrow> (addr \<times> nat \<times> bool \<times> ptr \<times> ptr) list \<Rightarrow> (addr \<times> nat \<times> bool \<times> ptr \<times> ptr) list res option" where
  "dll_visualize_loop mp current out =
     (case current of None \<Rightarrow> Some (Inr out)
      | Some a \<Rightarrow> (case dget mp current of Inl e \<Rightarrow> Some (Inl e)
          | Inr b \<Rightarrow> dll_visualize_loop mp (db_next b) (out @ [(a, db_size b, db_free b, db_prev b, db_next b)])))"

definition mempoolDLL_visualize :: "dpool \<Rightarrow> (addr \<times> nat \<times> bool \<times> ptr \<times> ptr) list res option" where
  "mempoolDLL_visualize mp = dll_visualize_loop mp (dp_head mp) []"

definition memorypoolDLL_c_main :: "(addr \<times> nat \<times> bool \<times> ptr \<times> ptr) list list res option" where
  "memorypoolDLL_c_main =
     obind (mempoolDLL_visualize (mempoolDLL_init 1024 True)) (\<lambda>out0.
     obind (mempoolDLL_alloc (mempoolDLL_init 1024 True) 100) (\<lambda>(p1, mp).
     obind (mempoolDLL_alloc mp 200) (\<lambda>(p2, mp).
     obind (mempoolDLL_alloc mp 300) (\<lambda>(p3, mp).
     obind (mempoolDLL_visualize mp) (\<lambda>out1.
     obind (Some (mempoolDLL_free mp p2)) (\<lambda>mp.
     obind (mempoolDLL_visualize mp) (\<lambda>out2.
     obind (Some (mempoolDLL_free mp p3)) (\<lambda>mp.
     obind (mempoolDLL_visualize mp) (\<lambda>out3.
     obind (Some (mempoolDLL_free mp p1)) (\<lambda>mp.
     obind (mempoolDLL_visualize mp) (\<lambda>out4. Some (Inr [out0, out1, out2, out3, out4]))))))))))))"

text \<open>\<open>memorypoolDLL.cpp\<close>\<close>

definition DMemPool_new :: "nat \<Rightarrow> dpool res" where
  "DMemPool_new sz =
     (if sz < DHDR then Inl OutOfBounds
      else Inr \<lparr>dp_mem = [0 \<mapsto> \<lparr>db_size = sz - DHDR, db_next = None, db_prev = None, db_free = True\<rparr>],
        dp_size = sz, dp_head = Some 0\<rparr>)"

text \<open>The destructor releases the array; \<open>head\<close> is left as it is.\<close>

definition DMemPool_destroy :: "dpool \<Rightarrow> dpool" where
  "DMemPool_destroy mp = mp\<lparr>dp_mem := (\<lambda>_. None)\<rparr>"

definition DMemPool_alloc :: "dpool \<Rightarrow> nat \<Rightarrow> (ptr \<times> dpool) res option" where
  "DMemPool_alloc mp sz = dll_alloc_loop mp sz (dp_head mp)"

definition DMemPool_free :: "dpool \<Rightarrow> ptr \<Rightarrow> dpool res" where
  "DMemPool_free mp ptr = (case ptr of None \<Rightarrow> Inr mp | Some p \<Rightarrow> dll_free_block mp p)"

definition DMemPool_visualize :: "dpool \<Rightarrow> (addr \<times> nat \<times> bool \<times> ptr \<times> ptr) list res option" where
  "DMemPool_visualize mp = dll_visualize_loop mp (dp_head mp) []"

definition memorypoolDLL_cpp_main :: "(addr \<times> nat \<times> bool \<times> ptr \<times> ptr) list list res option" where
  "memorypoolDLL_cpp_main =
     obind (Some (DMemPool_new 1024)) (\<lambda>mp.
     obind (DMemPool_visualize mp) (\<lambda>out0.
     obind (DMemPool_alloc mp 100) (\<lambda>(p1, mp).
     obind (DMemPool_alloc mp 200) (\<lambda>(p2, mp).
     obind (DMemPool_alloc mp 300) (\<lambda>(p3, mp).
     obind (DMemPool_visualize mp) (\<lambda>out1.
     obind (Some (DMemPool_free mp p2)) (\<lambda>mp.
     obind (DMemPool_visualize mp) (\<lambda>out2.
     obind (Some (DMemPool_free mp p3)) (\<lambda>mp.
     obind (DMemPool_visualize mp) (\<lambda>out3.
     obind (Some (DMemPool_free mp p1)) (\<lambda>mp.
     obind (DMemPool_visualize mp) (\<lambda>out4. Some (Inr [out0, out1, out2, out3, out4])))))))))))))"

section \<open>Block lists in memory\<close>

text \<open>
  \<open>dseg m p v a bs q w\<close>: from \<open>p\<close> on the headers describe the blocks \<open>bs\<close> tiling the memory from \<open>a\<close>; the first one's
  \<open>prev\<close> is \<open>v\<close>, the last one's \<open>next\<close> is \<open>q\<close>, and \<open>w\<close> is the last one's address (or \<open>v\<close>).
\<close>

fun dseg :: "(addr \<Rightarrow> dmem_block option) \<Rightarrow> ptr \<Rightarrow> ptr \<Rightarrow> addr \<Rightarrow> block list \<Rightarrow> ptr \<Rightarrow> ptr \<Rightarrow> bool" where
  "dseg m p v a [] q w \<longleftrightarrow> p = q \<and> v = w"
| "dseg m p v a ((s, f) # bs) q w \<longleftrightarrow> p = Some a \<and> (\<exists>nx. m a = Some \<lparr>db_size = s, db_next = nx, db_prev = v, db_free = f\<rparr> \<and>
     dseg m nx (Some a) (a + DHDR + s) bs q w)"

lemma dseg_append:
  "dseg m p v a (xs @ ys) q w \<longleftrightarrow> (\<exists>r u. dseg m p v a xs r u \<and> dseg m r u (a + span DHDR xs) ys q w)"
proof (induction xs arbitrary: p v a)
  case (Cons x xs)
  then show ?case by (cases x) (auto simp: add.assoc)
qed simp

lemma dseg_cong:
  "(\<And>x. a \<le> x \<Longrightarrow> x < a + span DHDR bs \<Longrightarrow> m x = m' x) \<Longrightarrow> dseg m p v a bs q w = dseg m' p v a bs q w"
proof (induction bs arbitrary: p v a)
  case (Cons b bs)
  obtain s f where b: "b = (s, f)" by (cases b)
  have "m a = m' a" by (rule Cons.prems) (simp_all add: b)
  moreover have "dseg m q' v' (a + DHDR + s) bs q w = dseg m' q' v' (a + DHDR + s) bs q w" for q' v'
    by (rule Cons.IH) (use Cons.prems b in auto)
  ultimately show ?case by (simp add: b)
qed simp

lemma dseg_upd_out:
  "x < a \<or> a + span DHDR bs \<le> x \<Longrightarrow> dseg (m(x := y)) p v a bs q w = dseg m p v a bs q w"
  by (rule dseg_cong) auto

text \<open>Changing the \<open>prev\<close> of the first block.\<close>

lemma dseg_set_prev:
  assumes "dseg (dp_mem mp) p v a bs None w" and "a + span DHDR bs \<le> dp_size mp"
  shows "\<exists>mp' w'. set_prev mp p u = Inr mp' \<and> dseg (dp_mem mp') p u a bs None w' \<and>
    (\<forall>x. x \<noteq> a \<longrightarrow> dp_mem mp' x = dp_mem mp x) \<and> dp_size mp' = dp_size mp \<and> dp_head mp' = dp_head mp \<and>
    (bs = [] \<longrightarrow> mp' = mp)"
proof (cases bs)
  case Nil
  with assms show ?thesis by (auto simp: set_prev_def)
next
  case (Cons b bs')
  obtain s f where b: "b = (s, f)" by (cases b)
  with assms Cons obtain nx where m: "p = Some a" "dp_mem mp a = Some \<lparr>db_size = s, db_next = nx, db_prev = v, db_free = f\<rparr>"
    "dseg (dp_mem mp) nx (Some a) (a + DHDR + s) bs' None w" by auto
  let ?mp = "mp\<lparr>dp_mem := (dp_mem mp)(a \<mapsto> \<lparr>db_size = s, db_next = nx, db_prev = u, db_free = f\<rparr>)\<rparr>"
  have "set_prev mp p u = Inr ?mp" using m assms(2) Cons b by (simp add: set_prev_def dget_def dput_def)
  moreover have "dseg (dp_mem ?mp) p u a bs None w" using m Cons b by (simp add: dseg_upd_out)
  ultimately show ?thesis using Cons by (intro exI [of _ ?mp] exI [of _ w]) simp
qed

definition dpool_rep :: "dpool \<Rightarrow> block list \<Rightarrow> bool" where
  "dpool_rep mp bs \<longleftrightarrow> dp_head mp = Some 0 \<and> span DHDR bs = dp_size mp \<and> (\<exists>w. dseg (dp_mem mp) (Some 0) None 0 bs None w)"

text \<open>A change of the blocks from offset \<open>span DHDR xs\<close> on is a change of the pool.\<close>

lemma dpool_rep_replace:
  assumes "dp_head mp = Some 0" and "dseg (dp_mem mp) (Some 0) None 0 xs r u"
    and "dseg (dp_mem mp') r u (span DHDR xs) ys None w" and "\<And>x. x < span DHDR xs \<Longrightarrow> dp_mem mp' x = dp_mem mp x"
    and "dp_head mp' = dp_head mp" and "span DHDR (xs @ ys) = dp_size mp'"
  shows "dpool_rep mp' (xs @ ys)"
proof -
  have "dseg (dp_mem mp') (Some 0) None 0 xs r u"
    using assms(2) dseg_cong [of 0 xs "dp_mem mp'" "dp_mem mp"] assms(4) by simp
  with assms show ?thesis unfolding dpool_rep_def dseg_append by auto
qed

lemma span_append [simp]: "span H (xs @ ys) = span H xs + span H ys"
  by (induction xs) auto

lemma dpool_rep_at:
  assumes "dpool_rep mp (xs @ (s, f) # ys)"
  obtains u nx w where "dseg (dp_mem mp) (Some 0) None 0 xs (Some (span DHDR xs)) u"
    "dp_mem mp (span DHDR xs) = Some \<lparr>db_size = s, db_next = nx, db_prev = u, db_free = f\<rparr>"
    "dseg (dp_mem mp) nx (Some (span DHDR xs)) (span DHDR xs + DHDR + s) ys None w"
    "span DHDR xs + DHDR + s + span DHDR ys = dp_size mp" "dp_head mp = Some 0"
  using assms by (auto simp: dpool_rep_def dseg_append)

lemma dll_absorb_rep:
  assumes rep: "dpool_rep mp (xs @ (s, f) # (t, g) # ys)"
    and b: "dp_mem mp (span DHDR xs) = Some b" and nb: "dp_mem mp (span DHDR xs + DHDR + s) = Some nb"
  shows "\<exists>mp'. dll_absorb mp (span DHDR xs) b nb = Inr mp' \<and> dpool_rep mp' (xs @ (s + DHDR + t, f) # ys) \<and>
    dp_size mp' = dp_size mp"
proof -
  let ?a = "span DHDR xs"
  obtain u nx w where d: "dseg (dp_mem mp) (Some 0) None 0 xs (Some ?a) u"
    "dp_mem mp ?a = Some \<lparr>db_size = s, db_next = nx, db_prev = u, db_free = f\<rparr>"
    "dseg (dp_mem mp) nx (Some ?a) (?a + DHDR + s) ((t, g) # ys) None w"
    "?a + DHDR + s + span DHDR ((t, g) # ys) = dp_size mp" "dp_head mp = Some 0"
    by (rule dpool_rep_at [OF rep])
  from d(3) obtain nx2 where n: "dp_mem mp (?a + DHDR + s) = Some \<lparr>db_size = t, db_next = nx2, db_prev = Some ?a, db_free = g\<rparr>"
    "dseg (dp_mem mp) nx2 (Some (?a + DHDR + s)) (?a + DHDR + s + DHDR + t) ys None w" by auto
  let ?mp1 = "mp\<lparr>dp_mem := (dp_mem mp)(?a \<mapsto> \<lparr>db_size = s + DHDR + t, db_next = nx2, db_prev = u, db_free = f\<rparr>)\<rparr>"
  have "dseg (dp_mem ?mp1) nx2 (Some (?a + DHDR + s)) (?a + DHDR + s + DHDR + t) ys None w"
    using n(2) by (simp add: dseg_upd_out)
  from dseg_set_prev [OF this, of "Some ?a"] d(4) obtain mp' w' where
    sp: "set_prev ?mp1 nx2 (Some ?a) = Inr mp'" "dseg (dp_mem mp') nx2 (Some ?a) (?a + DHDR + s + DHDR + t) ys None w'"
      "\<forall>x. x \<noteq> ?a + DHDR + s + DHDR + t \<longrightarrow> dp_mem mp' x = dp_mem ?mp1 x" "dp_size mp' = dp_size mp" "dp_head mp' = dp_head mp"
    by auto
  have hb: "b = \<lparr>db_size = s, db_next = nx, db_prev = u, db_free = f\<rparr>" using b d(2) by simp
  have hnb: "nb = \<lparr>db_size = t, db_next = nx2, db_prev = Some ?a, db_free = g\<rparr>" using nb n(1) by simp
  have "?a + DHDR \<le> dp_size mp" using d(4) by simp
  then have "dll_absorb mp ?a b nb = Inr mp'" using sp(1) by (simp add: hb hnb dll_absorb_def dput_def)
  moreover have "dseg (dp_mem mp') (Some ?a) u ?a ((s + DHDR + t, f) # ys) None w'"
    using sp by (simp add: add.assoc)
  then have "dpool_rep mp' (xs @ (s + DHDR + t, f) # ys)"
    by (rule dpool_rep_replace [OF d(5) d(1)]) (use sp d in auto)
  ultimately show ?thesis using sp(4) by blast
qed

section \<open>Allocation\<close>

definition splits_dll :: "nat \<Rightarrow> nat \<Rightarrow> bool" where
  "splits_dll s n \<longleftrightarrow> n + DHDR < s"

lemma split_ok_dll: "split_ok DHDR splits_dll"
  by (simp add: split_ok_def splits_dll_def)

lemma dll_take_rep:
  assumes rep: "dpool_rep mp (xs @ (s, True) # ys)" and b: "dp_mem mp (span DHDR xs) = Some b" and fit: "n \<le> s"
  shows "\<exists>mp'. dll_take mp (span DHDR xs) b n = Inr (Some (span DHDR xs + DHDR), mp') \<and> dp_size mp' = dp_size mp \<and>
    dpool_rep mp' (xs @ (if splits_dll s n then (n, False) # (s - n - DHDR, True) # ys else (s, False) # ys))"
proof -
  let ?a = "span DHDR xs"
  obtain u nx w where d: "dseg (dp_mem mp) (Some 0) None 0 xs (Some ?a) u"
    "dp_mem mp ?a = Some \<lparr>db_size = s, db_next = nx, db_prev = u, db_free = True\<rparr>"
    "dseg (dp_mem mp) nx (Some ?a) (?a + DHDR + s) ys None w"
    "?a + DHDR + s + span DHDR ys = dp_size mp" "dp_head mp = Some 0" by (rule dpool_rep_at [OF rep])
  have hb: "b = \<lparr>db_size = s, db_next = nx, db_prev = u, db_free = True\<rparr>" using b d(2) by simp
  show ?thesis
  proof (cases "splits_dll s n")
    case False
    let ?mp = "mp\<lparr>dp_mem := (dp_mem mp)(?a \<mapsto> \<lparr>db_size = s, db_next = nx, db_prev = u, db_free = False\<rparr>)\<rparr>"
    have "dseg (dp_mem ?mp) (Some ?a) u ?a ((s, False) # ys) None w" using d(3) by (simp add: dseg_upd_out)
    then have "dpool_rep ?mp (xs @ (s, False) # ys)"
      by (rule dpool_rep_replace [OF d(5,1)]) (use d in auto)
    then show ?thesis using False d(4) by (auto simp: hb dll_take_def dput_def splits_dll_def)
  next
    case True
    let ?nb = "?a + DHDR + n" and ?e = "?a + DHDR + s"
    have sz: "n + DHDR < s" using True by (simp add: splits_dll_def)
    let ?mp1 = "mp\<lparr>dp_mem := (dp_mem mp)(?nb \<mapsto> \<lparr>db_size = s - n - DHDR, db_next = nx, db_prev = Some ?a, db_free = True\<rparr>)\<rparr>"
    have "dseg (dp_mem ?mp1) nx (Some ?a) ?e ys None w" using d(3) sz by (simp add: dseg_upd_out)
    from dseg_set_prev [OF this, of "Some ?nb"] d(4) obtain mp2 w' where
      sp: "set_prev ?mp1 nx (Some ?nb) = Inr mp2" "dseg (dp_mem mp2) nx (Some ?nb) ?e ys None w'"
        "\<forall>x. x \<noteq> ?e \<longrightarrow> dp_mem mp2 x = dp_mem ?mp1 x" "dp_size mp2 = dp_size mp" "dp_head mp2 = dp_head mp" by auto
    let ?mp3 = "mp2\<lparr>dp_mem := (dp_mem mp2)(?a \<mapsto> \<lparr>db_size = n, db_next = Some ?nb, db_prev = u, db_free = False\<rparr>)\<rparr>"
    have e: "?nb + DHDR + (s - n - DHDR) = ?e" using sz by simp
    have "dp_mem ?mp3 ?nb = Some \<lparr>db_size = s - n - DHDR, db_next = nx, db_prev = Some ?a, db_free = True\<rparr>"
      using sp(3) sz by simp
    moreover have "dseg (dp_mem ?mp3) nx (Some ?nb) (?nb + DHDR + (s - n - DHDR)) ys None w'"
      unfolding e using sp(2) by (simp add: dseg_upd_out)
    ultimately have "dseg (dp_mem ?mp3) (Some ?a) u ?a ((n, False) # (s - n - DHDR, True) # ys) None w'" by simp
    then have "dpool_rep ?mp3 (xs @ (n, False) # (s - n - DHDR, True) # ys)"
      by (rule dpool_rep_replace [OF d(5,1)]) (use sp d sz in auto)
    moreover have "dll_take mp ?a b n = Inr (Some (?a + DHDR), ?mp3)"
      using sz d(4) sp by (simp add: hb dll_take_def dput_def Let_def)
    ultimately show ?thesis using True sp(4) by auto
  qed
qed

lemma dll_alloc_loop_rep:
  assumes "dpool_rep mp (xs @ ys)" and "p = (if ys = [] then None else Some (span DHDR xs))"
  shows "case first_fit DHDR splits_dll n ys of
      None \<Rightarrow> dll_alloc_loop mp n p = Some (Inr (None, mp))
    | Some (off, ys') \<Rightarrow> \<exists>mp'. dll_alloc_loop mp n p = Some (Inr (Some (span DHDR xs + off + DHDR), mp')) \<and>
        dpool_rep mp' (xs @ ys') \<and> dp_size mp' = dp_size mp"
  using assms
proof (induction ys arbitrary: xs p)
  case Nil
  then show ?case by (simp add: dll_alloc_loop.simps)
next
  case (Cons y ys)
  obtain s f where y: "y = (s, f)" by (cases y)
  let ?a = "span DHDR xs"
  obtain u nx w where d: "dp_mem mp ?a = Some \<lparr>db_size = s, db_next = nx, db_prev = u, db_free = f\<rparr>"
    "dseg (dp_mem mp) nx (Some ?a) (?a + DHDR + s) ys None w"
    using dpool_rep_at [of mp xs s f ys] Cons.prems(1) y by metis
  have p: "p = Some ?a" using Cons.prems(2) by simp
  show ?case
  proof (cases "f \<and> n \<le> s")
    case True
    with dll_take_rep [of mp xs s ys _ n] Cons.prems(1) y d obtain mp' where
      "dll_take mp ?a \<lparr>db_size = s, db_next = nx, db_prev = u, db_free = True\<rparr> n = Inr (Some (?a + DHDR), mp')"
      "dp_size mp' = dp_size mp"
      "dpool_rep mp' (xs @ (if splits_dll s n then (n, False) # (s - n - DHDR, True) # ys else (s, False) # ys))" by auto
    with True y p d show ?thesis by (simp add: dll_alloc_loop.simps dget_def)
  next
    case False
    then have step: "dll_alloc_loop mp n p = dll_alloc_loop mp n nx"
      using p d(1) by (subst dll_alloc_loop.simps) (auto simp: dget_def)
    have "nx = (if ys = [] then None else Some (span DHDR (xs @ [y])))"
      using d(2) y by (cases ys) (auto simp: add.assoc)
    from Cons.IH [of "xs @ [y]", OF _ this] Cons.prems(1)
    have IH: "case first_fit DHDR splits_dll n ys of None \<Rightarrow> dll_alloc_loop mp n nx = Some (Inr (None, mp))
      | Some (off, ys') \<Rightarrow> \<exists>mp'. dll_alloc_loop mp n nx = Some (Inr (Some (span DHDR (xs @ [y]) + off + DHDR), mp')) \<and>
          dpool_rep mp' ((xs @ [y]) @ ys') \<and> dp_size mp' = dp_size mp" by simp
    show ?thesis
    proof (cases "first_fit DHDR splits_dll n ys")
      case None
      with IH step False y show ?thesis by auto
    next
      case (Some r)
      with IH step False y show ?thesis by (cases r) (auto simp: add.assoc)
    qed
  qed
qed

section \<open>Freeing\<close>

text \<open>The two constant-time merges, on the block list: with the block behind, then with the block before.\<close>

fun merge_front :: "nat \<Rightarrow> block list \<Rightarrow> block list" where
  "merge_front H ((s, True) # (t, True) # bs) = (s + H + t, True) # bs"
| "merge_front H bs = bs"

lemma dll_merge_next_rep:
  assumes rep: "dpool_rep mp (xs @ (s, True) # ys)"
  shows "\<exists>mp'. dll_merge_next mp (span DHDR xs) = Inr mp' \<and> dpool_rep mp' (xs @ merge_front DHDR ((s, True) # ys)) \<and>
    dp_size mp' = dp_size mp"
proof -
  let ?a = "span DHDR xs"
  obtain u nx w where d: "dp_mem mp ?a = Some \<lparr>db_size = s, db_next = nx, db_prev = u, db_free = True\<rparr>"
    "dseg (dp_mem mp) nx (Some ?a) (?a + DHDR + s) ys None w" using dpool_rep_at [OF rep] by metis
  show ?thesis
  proof (cases ys)
    case Nil
    then have "dll_merge_next mp ?a = Inr mp" using d by (auto simp: dll_merge_next_def dget_def)
    with Nil rep show ?thesis by simp
  next
    case (Cons y zs)
    obtain t g where y: "y = (t, g)" by (cases y)
    from d(2) Cons y obtain nx2 where n: "nx = Some (?a + DHDR + s)"
      "dp_mem mp (?a + DHDR + s) = Some \<lparr>db_size = t, db_next = nx2, db_prev = Some ?a, db_free = g\<rparr>" by auto
    show ?thesis
    proof (cases g)
      case True
      with dll_absorb_rep [of mp xs s True t g zs] rep d n Cons y show ?thesis
        by (simp add: dll_merge_next_def dget_def)
    next
      case False
      with d n Cons y rep show ?thesis by (simp add: dll_merge_next_def dget_def)
    qed
  qed
qed

lemma dll_merge_prev_rep:
  assumes rep: "dpool_rep mp (xs @ (s, True) # ys)"
  shows "\<exists>mp' cs. dll_merge_prev mp (span DHDR xs) = Inr mp' \<and> dpool_rep mp' cs \<and> dp_size mp' = dp_size mp \<and>
    (if xs \<noteq> [] \<and> snd (last xs) then cs = butlast xs @ (fst (last xs) + DHDR + s, True) # ys else cs = xs @ (s, True) # ys)"
proof -
  let ?a = "span DHDR xs"
  obtain u nx w where d: "dseg (dp_mem mp) (Some 0) None 0 xs (Some ?a) u"
    "dp_mem mp ?a = Some \<lparr>db_size = s, db_next = nx, db_prev = u, db_free = True\<rparr>"
    using dpool_rep_at [OF rep] by metis
  show ?thesis
  proof (cases xs rule: rev_cases)
    case Nil
    with d rep show ?thesis by (auto simp: dll_merge_prev_def dget_def)
  next
    case (snoc ws x)
    obtain t g where x: "x = (t, g)" by (cases x)
    from d(1) snoc x obtain v where q: "u = Some (span DHDR ws)"
      "dp_mem mp (span DHDR ws) = Some \<lparr>db_size = t, db_next = Some ?a, db_prev = v, db_free = g\<rparr>"
      by (auto simp: dseg_append add.assoc)
    have a: "?a = span DHDR ws + DHDR + t" using snoc x by simp
    show ?thesis
    proof (cases g)
      case True
      with rep snoc x have rep': "dpool_rep mp (ws @ (t, True) # (s, True) # ys)" by simp
      let ?b = "\<lparr>db_size = s, db_next = nx, db_prev = u, db_free = True\<rparr>"
      let ?pb = "\<lparr>db_size = t, db_next = Some ?a, db_prev = v, db_free = True\<rparr>"
      have "dp_mem mp (span DHDR ws) = Some ?pb" "dp_mem mp (span DHDR ws + DHDR + t) = Some ?b"
        using q(2) d(2) a True by simp_all
      from dll_absorb_rep [OF rep' this] obtain mp' where
        "dll_absorb mp (span DHDR ws) ?pb ?b = Inr mp'" "dpool_rep mp' (ws @ (t + DHDR + s, True) # ys)" "dp_size mp' = dp_size mp"
        by blast
      moreover have "dll_merge_prev mp ?a = dll_absorb mp (span DHDR ws) ?pb ?b"
        using d(2) q True by (simp add: dll_merge_prev_def dget_def)
      ultimately show ?thesis using snoc x True by auto
    next
      case False
      with d(2) q rep snoc x show ?thesis by (auto simp: dll_merge_prev_def dget_def)
    qed
  qed
qed

lemma free_at_split:
  "free_at H off bs = Some bs' \<Longrightarrow> \<exists>xs s f ys. bs = xs @ (s, f) # ys \<and> off = span H xs \<and> bs' = xs @ (s, True) # ys"
proof (induction bs arbitrary: off bs')
  case (Cons b bs)
  obtain s f where b: "b = (s, f)" by (cases b)
  show ?case
  proof (cases "off = 0")
    case True
    with Cons.prems b show ?thesis by (intro exI [of _ "[]"]) auto
  next
    case False
    with Cons.prems b obtain cs where c: "free_at H (off - H - s) bs = Some cs" "bs' = b # cs" "H + s \<le> off"
      by (auto split: if_splits)
    from Cons.IH [OF c(1)] obtain xs t g ys where
      "bs = xs @ (t, g) # ys" "off - H - s = span H xs" "cs = xs @ (t, True) # ys" by blast
    with c b show ?thesis by (intro exI [of _ "b # xs"]) auto
  qed
qed simp

lemma no_adjacent_free_append:
  "no_adjacent_free (xs @ ys) \<longleftrightarrow> no_adjacent_free xs \<and> no_adjacent_free ys \<and>
    (xs \<noteq> [] \<and> ys \<noteq> [] \<longrightarrow> \<not> (snd (last xs) \<and> snd (hd ys)))"
proof (induction xs)
  case (Cons x xs)
  obtain s f where x: "x = (s, f)" by (cases x)
  show ?case using Cons.IH unfolding x by (cases xs) (auto simp: no_adjacent_free_Cons)
qed simp

text \<open>Merging all neighbours changes nothing before the freed block but the block just before it.\<close>

lemma coalesce_Cons: "f \<longrightarrow> bs = [] \<or> \<not> snd (hd bs) \<Longrightarrow> coalesce H ((s, f) # bs) = (s, f) # coalesce H bs"
proof (cases bs)
  case (Cons c cs)
  assume "f \<longrightarrow> bs = [] \<or> \<not> snd (hd bs)"
  with Cons show ?thesis by (cases c; cases f; cases "snd c") auto
qed simp

lemma coalesce_append:
  "no_adjacent_free xs \<Longrightarrow> xs = [] \<or> ys = [] \<or> \<not> snd (last xs) \<or> \<not> snd (hd ys) \<Longrightarrow>
    coalesce H (xs @ ys) = xs @ coalesce H ys"
proof (induction xs)
  case (Cons x xs)
  obtain s f where x: "x = (s, f)" by (cases x)
  have IH: "coalesce H (xs @ ys) = xs @ coalesce H ys"
    using Cons x by (cases xs) (auto simp: no_adjacent_free_Cons)
  have "f \<longrightarrow> xs @ ys = [] \<or> \<not> snd (hd (xs @ ys))"
    using Cons.prems x by (cases xs) (auto simp: no_adjacent_free_Cons)
  then have "coalesce H ((s, f) # xs @ ys) = (s, f) # coalesce H (xs @ ys)"
    by (rule coalesce_Cons)
  with IH x show ?case by simp
qed simp

lemma coalesce_front:
  "no_adjacent_free ys \<Longrightarrow> coalesce H ((s, True) # ys) = merge_front H ((s, True) # ys)"
proof (cases ys)
  case (Cons y zs)
  assume na: "no_adjacent_free ys"
  obtain t g where y: "y = (t, g)" by (cases y)
  show ?thesis
  proof (cases g)
    case True
    with na Cons y have "no_adjacent_free ((s + H + t, True) # zs)" by (auto simp: no_adjacent_free_Cons)
    with True Cons y show ?thesis by (simp add: coalesce_id)
  next
    case False
    with na Cons y show ?thesis by (simp add: coalesce_id)
  qed
qed simp

lemma merge_front_shape:
  "merge_front H ((s, True) # ys) = (fst (hd (merge_front H ((s, True) # ys))), True) # tl (merge_front H ((s, True) # ys)) \<and>
   merge_front H ((t + H + s, True) # ys) = (t + H + fst (hd (merge_front H ((s, True) # ys))), True) # tl (merge_front H ((s, True) # ys))"
proof (cases ys)
  case (Cons y zs)
  then show ?thesis by (cases y; cases "snd y") auto
qed simp

lemma coalesce_freed:
  assumes na: "no_adjacent_free (xs @ (s, f) # ys)"
  shows "coalesce H (xs @ (s, True) # ys) =
    (let zs = merge_front H ((s, True) # ys) in
     if xs \<noteq> [] \<and> snd (last xs) then butlast xs @ (fst (last xs) + H + fst (hd zs), True) # tl zs else xs @ zs)"
proof -
  have nx: "no_adjacent_free xs" "no_adjacent_free ys"
    using na by (simp_all add: no_adjacent_free_append no_adjacent_free_Cons)
  show ?thesis
  proof (cases "xs \<noteq> [] \<and> snd (last xs)")
    case False
    then show ?thesis using coalesce_append [OF nx(1), of "(s, True) # ys" H] coalesce_front [OF nx(2), of H s] by auto
  next
    case True
    then obtain ws t where xs: "xs = ws @ [(t, True)]" by (cases xs rule: rev_cases) auto
    with nx(1) have "no_adjacent_free ws" "ws = [] \<or> \<not> snd (last ws)" by (auto simp: no_adjacent_free_append)
    then have "coalesce H (ws @ (t, True) # (s, True) # ys) = ws @ coalesce H ((t, True) # (s, True) # ys)"
      by (intro coalesce_append) auto
    also have "coalesce H ((t, True) # (s, True) # ys) = merge_front H ((t + H + s, True) # ys)"
      using coalesce_front [OF nx(2), of H "t + H + s"] by simp
    finally show ?thesis using xs merge_front_shape [where H = H and t = t and s = s and ys = ys] by (simp add: Let_def)
  qed
qed

lemma dll_free_rep:
  assumes rep: "dpool_rep mp bs" and na: "no_adjacent_free bs" and fr: "free_at DHDR off bs = Some bs1"
  shows "\<exists>mp'. dll_free_block mp (off + DHDR) = Inr mp' \<and> dpool_rep mp' (coalesce DHDR bs1) \<and> dp_size mp' = dp_size mp"
proof -
  from free_at_split [OF fr] obtain xs s f ys where
    bs: "bs = xs @ (s, f) # ys" "off = span DHDR xs" "bs1 = xs @ (s, True) # ys" by blast
  obtain u nx w where d: "dseg (dp_mem mp) (Some 0) None 0 xs (Some off) u"
    "dp_mem mp off = Some \<lparr>db_size = s, db_next = nx, db_prev = u, db_free = f\<rparr>"
    "dseg (dp_mem mp) nx (Some off) (off + DHDR + s) ys None w" "off + DHDR + s + span DHDR ys = dp_size mp" "dp_head mp = Some 0"
    using dpool_rep_at [of mp xs s f ys] rep bs by metis
  let ?mp = "mp\<lparr>dp_mem := (dp_mem mp)(off \<mapsto> \<lparr>db_size = s, db_next = nx, db_prev = u, db_free = True\<rparr>)\<rparr>"
  have "dseg (dp_mem ?mp) (Some off) u (span DHDR xs) ((s, True) # ys) None w" using d(3) bs(2) by (simp add: dseg_upd_out)
  then have "dpool_rep ?mp (xs @ (s, True) # ys)"
    by (rule dpool_rep_replace [OF d(5,1)]) (use d bs in auto)
  from dll_merge_next_rep [OF this] bs(2) obtain mp1 where m1: "dll_merge_next ?mp off = Inr mp1"
    "dpool_rep mp1 (xs @ merge_front DHDR ((s, True) # ys))" "dp_size mp1 = dp_size mp" by auto
  define s' zs where "s' = fst (hd (merge_front DHDR ((s, True) # ys)))" and "zs = tl (merge_front DHDR ((s, True) # ys))"
  have mf: "merge_front DHDR ((s, True) # ys) = (s', True) # zs"
    using merge_front_shape [where H = DHDR and s = s and ys = ys] by (simp only: s'_def zs_def)
  from dll_merge_prev_rep [of mp1 xs s' zs] m1 mf bs(2) obtain mp2 cs where m2: "dll_merge_prev mp1 off = Inr mp2"
    "dpool_rep mp2 cs" "dp_size mp2 = dp_size mp"
    "if xs \<noteq> [] \<and> snd (last xs) then cs = butlast xs @ (fst (last xs) + DHDR + s', True) # zs else cs = xs @ (s', True) # zs" by auto
  have "cs = coalesce DHDR bs1"
    using coalesce_freed [of xs s f ys DHDR] na bs(1,3) mf m2(4) by (auto simp: Let_def split: if_splits)
  moreover have "dll_free_block mp (off + DHDR) = Inr mp2"
    using d m1(1) m2(1) by (simp add: dll_free_block_def dget_def dput_def Let_def)
  ultimately show ?thesis using m2 by blast
qed

section \<open>The pool as a state\<close>

fun dwalk :: "nat \<Rightarrow> (addr \<Rightarrow> dmem_block option) \<Rightarrow> ptr \<Rightarrow> block list" where
  "dwalk (Suc n) m (Some a) = (case m a of None \<Rightarrow> [] | Some b \<Rightarrow> (db_size b, db_free b) # dwalk n m (db_next b))"
| "dwalk _ _ _ = []"

definition dblocks_of :: "dpool \<Rightarrow> block list" where
  "dblocks_of mp = dwalk (dp_size mp) (dp_mem mp) (dp_head mp)"

lemma dwalk_dseg: "dseg m p v a bs None w \<Longrightarrow> length bs \<le> n \<Longrightarrow> dwalk n m p = bs"
proof (induction bs arbitrary: p v a n)
  case Nil
  then show ?case by (cases n) auto
next
  case (Cons b bs)
  then show ?case by (cases n; cases b) auto
qed

lemma length_le_dspan: "length bs \<le> span DHDR bs"
  by (induction bs) (auto simp: trans_le_add1)

lemma dpool_rep_blocks: "dpool_rep mp bs \<Longrightarrow> dblocks_of mp = bs"
  unfolding dpool_rep_def dblocks_of_def using dwalk_dseg length_le_dspan by metis

lemma dpool_rep_not_Nil: "dpool_rep mp bs \<Longrightarrow> bs \<noteq> []"
  by (auto simp: dpool_rep_def)

definition dpool_inv :: "dpool \<Rightarrow> bool" where
  "dpool_inv mp \<longleftrightarrow> dpool_rep mp (dblocks_of mp) \<and> no_adjacent_free (dblocks_of mp)"

definition dpool_live :: "dpool \<Rightarrow> (nat \<times> nat) set" where
  "dpool_live mp = set (used DHDR 0 (dblocks_of mp))"

lemma dpool_invI: "dpool_rep mp bs \<Longrightarrow> no_adjacent_free bs \<Longrightarrow> dpool_inv mp \<and> dpool_live mp = set (used DHDR 0 bs)"
  by (simp add: dpool_inv_def dpool_live_def dpool_rep_blocks)

lemma dpool_alloc_rep:
  assumes "dpool_rep mp bs"
  shows "case first_fit DHDR splits_dll n bs of
      None \<Rightarrow> dll_alloc_loop mp n (dp_head mp) = Some (Inr (None, mp))
    | Some (off, bs') \<Rightarrow> \<exists>mp'. dll_alloc_loop mp n (dp_head mp) = Some (Inr (Some (off + DHDR), mp')) \<and>
        dpool_rep mp' bs' \<and> dp_size mp' = dp_size mp"
  using dll_alloc_loop_rep [of mp "[]" bs "dp_head mp" n] assms dpool_rep_not_Nil [OF assms]
  by (auto simp: dpool_rep_def split: option.splits)

definition dll_alloc_op :: "dpool \<Rightarrow> nat \<Rightarrow> (nat \<times> dpool) option" where
  "dll_alloc_op mp n = (case mempoolDLL_alloc mp n of Some (Inr (Some p, mp')) \<Rightarrow> Some (p, mp') | _ \<Rightarrow> None)"

definition dll_free_op :: "dpool \<Rightarrow> nat \<Rightarrow> dpool option" where
  "dll_free_op mp p = ok_of (mempoolDLL_free mp (Some p))"

lemma dll_alloc_eq: "dpool_inv mp \<Longrightarrow> mempoolDLL_alloc mp n = dll_alloc_loop mp n (dp_head mp)"
  by (simp add: mempoolDLL_alloc_def dpool_inv_def dpool_rep_def)

lemma dll_free_live:
  assumes inv: "dpool_inv mp" and l: "(p, k) \<in> dpool_live mp"
  shows "\<exists>mp' bs1. mempoolDLL_free mp (Some p) = Inr mp' \<and> dpool_inv mp' \<and> dp_size mp' = dp_size mp \<and>
    free_at DHDR (p - DHDR) (dblocks_of mp) = Some bs1 \<and> dblocks_of mp' = coalesce DHDR bs1 \<and>
    dpool_live mp' = dpool_live mp - {(p, k)}"
proof -
  let ?bs = "dblocks_of mp"
  have rep: "dpool_rep mp ?bs" "no_adjacent_free ?bs" using inv by (simp_all add: dpool_inv_def)
  from l used_bounds [of p k DHDR 0 ?bs] have b: "DHDR \<le> p" by (simp add: dpool_live_def)
  then have e: "0 + (p - DHDR) + DHDR = p" by simp
  from free_at_used [of 0 "p - DHDR" DHDR k ?bs, unfolded e] l obtain bs1 where
    1: "free_at DHDR (p - DHDR) ?bs = Some bs1" "set (used DHDR 0 bs1) = set (used DHDR 0 ?bs) - {(p, k)}"
    by (auto simp: dpool_live_def)
  from dll_free_rep [OF rep 1(1)] b obtain mp' where
    2: "dll_free_block mp p = Inr mp'" "dpool_rep mp' (coalesce DHDR bs1)" "dp_size mp' = dp_size mp" by auto
  from dpool_invI [OF 2(2)] dpool_rep_blocks [OF 2(2)] 1 2 show ?thesis
    by (simp add: dpool_live_def mempoolDLL_free_def)
qed

interpretation dll_pool: pool_allocator dll_alloc_op dll_free_op dpool_live dpool_inv dp_size "\<lambda>mp. dp_size mp - DHDR" "\<lambda>_. True"
proof unfold_locales
  fix s n p s' k q l
  show "dpool_inv s' \<and> dp_size s' = dp_size s \<and> dp_size s' - DHDR = dp_size s - DHDR \<and>
      (\<exists>k\<ge>n. dpool_live s' = insert (p, k) (dpool_live s) \<and> (p, k) \<notin> dpool_live s)"
    if inv: "dpool_inv s" and r: "dll_alloc_op s n = Some (p, s')"
  proof -
    let ?bs = "dblocks_of s"
    have rep: "dpool_rep s ?bs" "no_adjacent_free ?bs" using inv by (simp_all add: dpool_inv_def)
    from dpool_alloc_rep [OF rep(1), of n] r obtain off bs' where ff: "first_fit DHDR splits_dll n ?bs = Some (off, bs')"
      and 1: "p = off + DHDR" "dpool_rep s' bs'" "dp_size s' = dp_size s"
      by (auto simp: dll_alloc_op_def dll_alloc_eq [OF inv] split: option.splits)
    from dpool_invI [OF 1(2)] first_fit_no_adjacent [OF ff rep(2)]
    have "dpool_inv s'" "dpool_live s' = set (used DHDR 0 bs')" by simp_all
    with first_fit_used [OF split_ok_dll ff, of 0] 1 show ?thesis by (simp add: dpool_live_def)
  qed
  show "dpool_inv s \<Longrightarrow> (p, k) \<in> dpool_live s \<Longrightarrow> \<exists>s'. dll_free_op s p = Some s' \<and> dpool_inv s' \<and>
      dp_size s' = dp_size s \<and> dp_size s' - DHDR = dp_size s - DHDR \<and> dpool_live s' = dpool_live s - {(p, k)}"
    using dll_free_live [of s p k] by (auto simp: dll_free_op_def)
  show "dpool_inv s \<Longrightarrow> (p, k) \<in> dpool_live s \<Longrightarrow> p + k \<le> dp_size s"
    using used_bounds [of p k DHDR 0 "dblocks_of s"] by (simp add: dpool_live_def dpool_inv_def dpool_rep_def)
  show "dpool_inv s \<Longrightarrow> (p, k) \<in> dpool_live s \<Longrightarrow> (q, l) \<in> dpool_live s \<Longrightarrow> (p, k) \<noteq> (q, l) \<Longrightarrow> p + k < q \<or> q + l < p"
    using used_disjoint [of DHDR p k 0 "dblocks_of s" q l] by (auto simp: dpool_live_def)
  show "dll_alloc_op s n \<noteq> None \<longleftrightarrow> n \<le> dp_size s - DHDR" if inv: "dpool_inv s" and idle: "dpool_live s = {}"
  proof -
    let ?bs = "dblocks_of s"
    have rep: "dpool_rep s ?bs" "no_adjacent_free ?bs" using inv by (simp_all add: dpool_inv_def)
    have "?bs = [(dp_size s - DHDR, True)]"
      using coalesce_all_free [of DHDR 0 ?bs] rep idle dpool_rep_not_Nil [OF rep(1)] by (simp add: dpool_live_def dpool_rep_def)
    with dpool_alloc_rep [OF rep(1), of n] show ?thesis
      by (auto simp: dll_alloc_op_def dll_alloc_eq [OF inv] split: if_splits)
  qed
qed

section \<open>Properties\<close>

text \<open>
  Claim C13. Freeing a payload of the doubly linked pool merges it, in constant time, into the same block list as marking it
  free and merging every run of neighbouring free blocks would; no two free blocks are ever neighbours, and the other
  payloads stay as they are. The C++ version is the same function.
\<close>

theorem dll_free_is_full_coalesce:
  assumes "dpool_inv mp" and "(p, k) \<in> dpool_live mp"
  shows "\<exists>mp' bs1. mempoolDLL_free mp (Some p) = Inr mp' \<and> DMemPool_free mp (Some p) = Inr mp' \<and>
    free_at DHDR (p - DHDR) (dblocks_of mp) = Some bs1 \<and> dblocks_of mp' = coalesce DHDR bs1 \<and>
    no_adjacent_free (dblocks_of mp') \<and> dpool_live mp' = dpool_live mp - {(p, k)}"
  using dll_free_live [OF assms] by (auto simp: mempoolDLL_free_def DMemPool_free_def dpool_inv_def)

definition small_dpool :: dpool where
  "small_dpool = \<lparr>dp_mem = [0 \<mapsto> \<lparr>db_size = 8, db_next = Some 40, db_prev = None, db_free = True\<rparr>,
     40 \<mapsto> \<lparr>db_size = 16, db_next = Some 88, db_prev = Some 0, db_free = False\<rparr>,
     88 \<mapsto> \<lparr>db_size = 4, db_next = None, db_prev = Some 40, db_free = True\<rparr>], dp_size = 124, dp_head = Some 0\<rparr>"

lemma small_dpool_rep: "dpool_rep small_dpool [(8, True), (16, False), (4, True)]"
  by (simp add: small_dpool_def dpool_rep_def)

theorem dll_free_is_full_coalesce_witness:
  "\<exists>mp'. mempoolDLL_free small_dpool (Some 72) = Inr mp' \<and> dblocks_of mp' = [(92, True)]"
  using dll_free_is_full_coalesce [of small_dpool 72 16] dpool_invI [OF small_dpool_rep] dpool_rep_blocks [OF small_dpool_rep]
  by auto

text \<open>
  The doubly linked pool never hands out memory twice: from a fresh pool, any payloads in use lie inside the pool
  and do not overlap, and freeing them all, in any order, makes the whole pool available again.
\<close>

theorem dll_pool_contract:
  assumes "dpool_inv mp" and "set bl = dpool_live mp" and "distinct (map fst bl)"
  shows "(\<forall>(p, k) \<in> set bl. p + k \<le> dp_size mp) \<and>
    (\<forall>(p, k) \<in> set bl. \<forall>(q, l) \<in> set bl. (p, k) = (q, l) \<or> p + k < q \<or> q + l < p) \<and>
    (\<exists>mp'. dealloc_all dll_free_op mp (map fst bl) = Some mp' \<and> dpool_live mp' = {} \<and>
      (\<forall>n. dll_alloc_op mp' n \<noteq> None \<longleftrightarrow> n \<le> dp_size mp - DHDR))"
proof (intro conjI)
  show "\<forall>(p, k) \<in> set bl. p + k \<le> dp_size mp" using dll_pool.live_within [OF assms(1)] assms(2) by auto
  show "\<forall>(p, k) \<in> set bl. \<forall>(q, l) \<in> set bl. (p, k) = (q, l) \<or> p + k < q \<or> q + l < p"
    using dll_pool.live_disjoint [OF assms(1)] assms(2) by auto
  show "\<exists>mp'. dealloc_all dll_free_op mp (map fst bl) = Some mp' \<and> dpool_live mp' = {} \<and>
      (\<forall>n. dll_alloc_op mp' n \<noteq> None \<longleftrightarrow> n \<le> dp_size mp - DHDR)"
    using dll_pool.free_everything [OF assms(1) _ assms(3)] assms(2) by auto
qed

theorem dll_pool_contract_witness:
  "\<exists>mp'. dealloc_all dll_free_op small_dpool [72] = Some mp' \<and> dll_alloc_op mp' 92 \<noteq> None"
  using dll_pool_contract [of small_dpool "[(72, 16)]"] dpool_invI [OF small_dpool_rep] by (auto simp: small_dpool_def)

section \<open>Every reachable pool is well-formed\<close>

text \<open>The pools a program can get: a fresh one, and what allocations and the release of payloads in use make of it.\<close>

inductive dll_states :: "nat \<Rightarrow> dpool \<Rightarrow> bool" where
  init: "DHDR < sz \<Longrightarrow> dll_states sz (mempoolDLL_init sz True)"
| alloc: "dll_states sz mp \<Longrightarrow> mempoolDLL_alloc mp n = Some (Inr (p, mp')) \<Longrightarrow> dll_states sz mp'"
| release: "dll_states sz mp \<Longrightarrow> (p, k) \<in> dpool_live mp \<Longrightarrow> mempoolDLL_free mp (Some p) = Inr mp' \<Longrightarrow> dll_states sz mp'"

lemma dll_init_rep: "DHDR < sz \<Longrightarrow> dpool_rep (mempoolDLL_init sz True) [(sz - DHDR, True)]"
  by (simp add: mempoolDLL_init_def dpool_rep_def)

lemma dll_alloc_preserves:
  assumes "dpool_inv mp"
  shows "\<exists>p mp'. mempoolDLL_alloc mp n = Some (Inr (p, mp')) \<and> dpool_inv mp' \<and> dp_size mp' = dp_size mp"
proof (cases "dll_alloc_op mp n")
  case None
  have "dpool_rep mp (dblocks_of mp)" using assms by (simp add: dpool_inv_def)
  from dpool_alloc_rep [OF this, of n] have "mempoolDLL_alloc mp n = Some (Inr (None, mp))"
    using None by (auto simp: dll_alloc_op_def dll_alloc_eq [OF assms] split: option.splits)
  then show ?thesis using assms by blast
next
  case (Some r)
  then obtain p mp' where "mempoolDLL_alloc mp n = Some (Inr (Some p, mp'))" "dll_alloc_op mp n = Some (p, mp')"
    by (auto simp: dll_alloc_op_def split: option.splits sum.splits prod.splits)
  then show ?thesis using dll_pool.alloc_live [OF assms, of n p mp'] by blast
qed

text \<open>
  Claim C33. The doubly linked pool has the type its code assumes. In every pool that allocations and releases can make of a fresh one, the blocks tile the pool,
  are linked in both directions, and no two neighbours are free; and there every allocation returns and every release of a payload in use succeeds, without touching
  anything that is not a block.
\<close>

theorem dll_states_well_formed:
  assumes "dll_states sz mp"
  shows "dpool_inv mp \<and> dp_size mp = sz \<and> (\<exists>p mp'. mempoolDLL_alloc mp n = Some (Inr (p, mp'))) \<and>
    (\<forall>(p, k) \<in> dpool_live mp. \<exists>mp'. mempoolDLL_free mp (Some p) = Inr mp')"
proof -
  have "dpool_inv mp \<and> dp_size mp = sz" using assms
  proof induction
    case (init sz)
    then show ?case using dpool_invI [OF dll_init_rep [OF init]] by (simp add: mempoolDLL_init_def)
  next
    case (alloc sz mp n p mp')
    then show ?case using dll_alloc_preserves [of mp n] by auto
  next
    case (release sz mp p k mp')
    then show ?case using dll_free_live [of mp p k] by auto
  qed
  then show ?thesis using dll_alloc_preserves [of mp n] dll_free_live [of mp] by fast
qed

theorem dll_states_well_formed_witness:
  "dpool_inv (mempoolDLL_init 100 True) \<and> (\<exists>p mp'. mempoolDLL_alloc (mempoolDLL_init 100 True) 8 = Some (Inr (p, mp')))"
  using dll_states_well_formed [OF dll_states.init [of 100], of 8] by simp

text \<open>A C++ pool that is used after its destructor follows a dangling pointer, in \<open>alloc\<close> and in \<open>free\<close>.\<close>

lemma destroyed_dpool_dangles:
  assumes "dp_head mp = Some a"
  shows "\<exists>e. DMemPool_alloc (DMemPool_destroy mp) n = Some (Inl e)" "\<exists>e. DMemPool_free (DMemPool_destroy mp) (Some p) = Inl e"
  using assms by (auto simp: DMemPool_alloc_def DMemPool_free_def DMemPool_destroy_def dll_alloc_loop.simps dll_free_block_def dget_def deref_def)

end
