(* ===== verification/Randomized_Set.thy ===== *)
theory Randomized_Set
  imports Prelude
begin

text \<open>
  \<open>pureStorage/getRandom.cpp\<close>: a hash table with separate chaining, and the set with constant-time random
  choice that is built on it. A chain of nodes is owned by its bucket alone, so it is a list of (key, value)
  pairs here. \<open>abs\<close> of the smallest \<open>int\<close> overflows; the hash of that key is an error value.
\<close>

section \<open>The hash table\<close>

abbreviation CAPACITY :: nat where "CAPACITY \<equiv> 100"

record CustomHashTable =
  buckets :: "(int \<times> int) list list"

definition CHT_hash :: "int \<Rightarrow> nat res" where
  "CHT_hash key = rbind (chk32 \<bar>key\<bar>) (\<lambda>a. Inr (nat (a mod int CAPACITY)))"

definition CHT_new :: CustomHashTable where
  "CHT_new = \<lparr>buckets = replicate CAPACITY []\<rparr>"

text \<open>The first loop of \<open>insert\<close>: the chain with the value of \<open>key\<close> updated, if it is there.\<close>

fun chain_update :: "int \<Rightarrow> int \<Rightarrow> (int \<times> int) list \<Rightarrow> (int \<times> int) list option" where
  "chain_update key v [] = None"
| "chain_update key v ((k, w) # cs) =
     (if k = key then Some ((k, v) # cs) else map_option ((#) (k, w)) (chain_update key v cs))"

definition CHT_insert :: "CustomHashTable \<Rightarrow> int \<Rightarrow> int \<Rightarrow> CustomHashTable res" where
  "CHT_insert t key v =
     rbind (CHT_hash key) (\<lambda>index.
     rbind (arr_get (buckets t) index) (\<lambda>chain.
     let chain' = (case chain_update key v chain of Some c \<Rightarrow> c | None \<Rightarrow> (key, v) # chain) in
     rbind (arr_set (buckets t) index chain') (\<lambda>b. Inr (t\<lparr>buckets := b\<rparr>))))"

fun chain_find :: "int \<Rightarrow> (int \<times> int) list \<Rightarrow> int option" where
  "chain_find key [] = None"
| "chain_find key ((k, v) # cs) = (if k = key then Some v else chain_find key cs)"

definition CHT_find :: "CustomHashTable \<Rightarrow> int \<Rightarrow> int option res" where
  "CHT_find t key = rbind (CHT_hash key) (\<lambda>index. rbind (arr_get (buckets t) index) (\<lambda>chain. Inr (chain_find key chain)))"

fun chain_erase :: "int \<Rightarrow> (int \<times> int) list \<Rightarrow> (int \<times> int) list option" where
  "chain_erase key [] = None"
| "chain_erase key ((k, v) # cs) = (if k = key then Some cs else map_option ((#) (k, v)) (chain_erase key cs))"

definition CHT_erase :: "CustomHashTable \<Rightarrow> int \<Rightarrow> (bool \<times> CustomHashTable) res" where
  "CHT_erase t key =
     rbind (CHT_hash key) (\<lambda>index.
     rbind (arr_get (buckets t) index) (\<lambda>chain.
     case chain_erase key chain of None \<Rightarrow> Inr (False, t)
     | Some chain' \<Rightarrow> rbind (arr_set (buckets t) index chain') (\<lambda>b. Inr (True, t\<lparr>buckets := b\<rparr>))))"

text \<open>The destructor: the nodes it deletes, in order.\<close>

definition CHT_destroy :: "CustomHashTable \<Rightarrow> (int \<times> int) list" where
  "CHT_destroy t = concat (buckets t)"

section \<open>The set\<close>

text \<open>A \<open>size_t\<close> that is passed as an \<open>int\<close> keeps its low 32 bits.\<close>

definition as_int :: "int \<Rightarrow> int" where
  "as_int n = (n + 2 ^ 31) mod 2 ^ 32 - 2 ^ 31"

lemma as_int_id: "INT_MIN \<le> n \<Longrightarrow> n \<le> INT_MAX \<Longrightarrow> as_int n = n"
  by (simp add: as_int_def)

record RandomizedSet =
  rs_list :: "int list"
  rs_indexMap :: CustomHashTable

definition RandomizedSet_new :: RandomizedSet where
  "RandomizedSet_new = \<lparr>rs_list = [], rs_indexMap = CHT_new\<rparr>"

definition RS_insert :: "RandomizedSet \<Rightarrow> int \<Rightarrow> (bool \<times> RandomizedSet) res" where
  "RS_insert rs v =
     rbind (CHT_find (rs_indexMap rs) v) (\<lambda>found.
     if found \<noteq> None then Inr (False, rs)
     else rbind (CHT_insert (rs_indexMap rs) v (as_int (int (length (rs_list rs))))) (\<lambda>m.
       Inr (True, rs\<lparr>rs_indexMap := m, rs_list := rs_list rs @ [v]\<rparr>)))"

definition RS_remove :: "RandomizedSet \<Rightarrow> int \<Rightarrow> (bool \<times> RandomizedSet) res" where
  "RS_remove rs v =
     rbind (CHT_find (rs_indexMap rs) v) (\<lambda>found.
     case found of None \<Rightarrow> Inr (False, rs)
     | Some index \<Rightarrow>
         rbind (arr_geti (rs_list rs) (int (length (rs_list rs)) - 1)) (\<lambda>lastVal.
         rbind (arr_seti (rs_list rs) index lastVal) (\<lambda>l.
         rbind (CHT_insert (rs_indexMap rs) lastVal index) (\<lambda>m.
         rbind (CHT_erase m v) (\<lambda>(_, m).
         Inr (True, rs\<lparr>rs_list := butlast l, rs_indexMap := m\<rparr>))))))"

text \<open>
  \<open>dis lo hi\<close> is the draw of the uniform distribution. The difference \<open>list.size() - 1\<close> is computed in a \<open>size_t\<close> and passed as an \<open>int\<close>, which gives -1 for the empty list;
  an empty range is undefined.
\<close>

definition RS_getRandom :: "(int \<Rightarrow> int \<Rightarrow> int) \<Rightarrow> RandomizedSet \<Rightarrow> int res" where
  "RS_getRandom dis rs =
     (let hi = as_int ((int (length (rs_list rs)) - 1) mod 2 ^ 64) in
      if hi < 0 then Inl OutOfBounds else arr_geti (rs_list rs) (dis 0 hi))"

section \<open>The contract of the table\<close>

text \<open>A table that stores \<open>int\<close>s under the keys that satisfy \<open>key_ok\<close>, with the map \<open>tab\<close> as its contents.\<close>

locale int_table =
  fixes ins :: "'t \<Rightarrow> int \<Rightarrow> int \<Rightarrow> 't res"
    and fnd :: "'t \<Rightarrow> int \<Rightarrow> int option res"
    and del :: "'t \<Rightarrow> int \<Rightarrow> (bool \<times> 't) res"
    and tab :: "'t \<Rightarrow> int \<Rightarrow> int option"
    and inv :: "'t \<Rightarrow> bool"
    and key_ok :: "int \<Rightarrow> bool"
  assumes ins_ok: "inv t \<Longrightarrow> key_ok k \<Longrightarrow> \<exists>t'. ins t k v = Inr t' \<and> inv t' \<and> tab t' = (tab t)(k \<mapsto> v)"
    and fnd_ok: "inv t \<Longrightarrow> key_ok k \<Longrightarrow> fnd t k = Inr (tab t k)"
    and del_ok: "inv t \<Longrightarrow> key_ok k \<Longrightarrow>
      \<exists>t'. del t k = Inr (tab t k \<noteq> None, t') \<and> inv t' \<and> tab t' = (tab t)(k := None)"

text \<open>The table indexes a list: every element is stored under itself with its position.\<close>

definition indexes :: "(int \<Rightarrow> int option) \<Rightarrow> int list \<Rightarrow> bool" where
  "indexes m l \<longleftrightarrow> distinct l \<and> (\<forall>j < length l. m (l ! j) = Some (int j)) \<and> (\<forall>v. v \<notin> set l \<longrightarrow> m v = None)"

lemma indexes_Nil: "indexes (\<lambda>_. None) []"
  by (simp add: indexes_def)

lemma indexes_mem: "indexes m l \<Longrightarrow> m v \<noteq> None \<longleftrightarrow> v \<in> set l"
  by (metis in_set_conv_nth indexes_def option.distinct(1))

lemma indexes_nth:
  assumes "indexes m l" and "m v = Some i"
  shows "\<exists>j < length l. i = int j \<and> l ! j = v"
proof -
  from assms indexes_mem [OF assms(1), of v] have "v \<in> set l" by simp
  then obtain j where "j < length l" "l ! j = v" by (auto simp: in_set_conv_nth)
  with assms show ?thesis by (auto simp: indexes_def)
qed

lemma indexes_at: "indexes m l \<Longrightarrow> j < length l \<Longrightarrow> m (l ! j) = Some (int j)"
  by (simp add: indexes_def)

lemma indexes_snoc: "indexes m l \<Longrightarrow> v \<notin> set l \<Longrightarrow> indexes (m(v \<mapsto> int (length l))) (l @ [v])"
  by (auto simp: indexes_def nth_append less_Suc_eq)

lemma indexes_swap_remove:
  assumes idx: "indexes m l" and v: "l ! j = v" "j < length l"
  shows "indexes ((m(last l \<mapsto> int j))(v := None)) (butlast (l[j := last l])) \<and>
    set (butlast (l[j := last l])) = set l - {v}"
proof -
  from v obtain bs x where l: "l = bs @ [x]" by (cases l rule: rev_cases) auto
  have dist: "distinct bs" "x \<notin> set bs" using idx l by (simp_all add: indexes_def)
  show ?thesis
  proof (cases "j = length bs")
    case True
    with l v have "v = x" by simp
    moreover have "m (bs ! k) = Some (int k)" if "k < length bs" for k
      using indexes_at [OF idx, of k] l that by (simp add: nth_append)
    ultimately show ?thesis using True l idx dist by (auto simp: indexes_def)
  next
    case False
    with l v have j: "j < length bs" "v = bs ! j" by (auto simp: nth_append)
    have m: "m (bs ! k) = Some (int k)" if "k < length bs" for k
      using indexes_at [OF idx, of k] l that by (simp add: nth_append)
    have s: "set (bs[j := x]) = insert x (set bs - {v})" using dist j by (simp add: set_update_distinct)
    have "indexes ((m(x \<mapsto> int j))(v := None)) (bs[j := x])"
      unfolding indexes_def
    proof (intro conjI allI impI)
      show "distinct (bs[j := x])" using dist by (simp add: distinct_list_update)
      show "((m(x \<mapsto> int j))(v := None)) (bs[j := x] ! k) = Some (int k)" if "k < length (bs[j := x])" for k
      proof (cases "k = j")
        case True
        with j dist show ?thesis by (auto simp: in_set_conv_nth)
      next
        case False
        with that j dist have "bs ! k \<noteq> v" "bs ! k \<noteq> x" by (auto simp: nth_eq_iff_index_eq in_set_conv_nth)
        with False that m [of k] show ?thesis by simp
      qed
      show "w \<notin> set (bs[j := x]) \<Longrightarrow> ((m(x \<mapsto> int j))(v := None)) w = None" for w
        using s idx l by (auto simp: indexes_def)
    qed
    with s l j dist show ?thesis by (auto simp: list_update_append butlast_append)
  qed
qed

context int_table
begin

text \<open>The two updates that a client which keeps its elements in an indexed list performs.\<close>

lemma index_push:
  assumes "inv t" and "indexes (tab t) l" and "key_ok v" and "v \<notin> set l"
  shows "\<exists>t'. ins t v (int (length l)) = Inr t' \<and> inv t' \<and> indexes (tab t') (l @ [v])"
  using ins_ok [OF assms(1,3), of "int (length l)"] indexes_snoc [OF assms(2,4)] by auto

lemma index_swap_remove:
  assumes "inv t" and "indexes (tab t) l" and "key_ok v" "key_ok (last l)" and "j < length l" "l ! j = v"
  shows "\<exists>t' t'' b. ins t (last l) (int j) = Inr t' \<and> del t' v = Inr (b, t'') \<and> inv t'' \<and>
    indexes (tab t'') (butlast (l[j := last l]))"
proof -
  from ins_ok [OF assms(1,4), of "int j"] obtain t' where
    t': "ins t (last l) (int j) = Inr t'" "inv t'" "tab t' = (tab t)(last l \<mapsto> int j)" by blast
  from del_ok [OF t'(2) assms(3)] obtain t'' where "del t' v = Inr (tab t' v \<noteq> None, t'')" "inv t''"
    "tab t'' = (tab t')(v := None)" by blast
  with t' indexes_swap_remove [OF assms(2,6,5)] show ?thesis by auto
qed

end

section \<open>The hash table keeps the contract\<close>

definition CHT_key_ok :: "int \<Rightarrow> bool" where
  "CHT_key_ok k \<longleftrightarrow> INT_MIN < k \<and> k \<le> INT_MAX"

definition CHT_idx :: "int \<Rightarrow> nat" where
  "CHT_idx k = nat (\<bar>k\<bar> mod int CAPACITY)"

definition CHT_inv :: "CustomHashTable \<Rightarrow> bool" where
  "CHT_inv t \<longleftrightarrow> length (buckets t) = CAPACITY \<and> (\<forall>c \<in> set (buckets t). distinct (map fst c))"

definition CHT_tab :: "CustomHashTable \<Rightarrow> int \<Rightarrow> int option" where
  "CHT_tab t k = chain_find k (buckets t ! CHT_idx k)"

lemma CHT_idx_less [simp]: "CHT_idx k < CAPACITY"
  by (simp add: CHT_idx_def nat_less_iff)

lemma CHT_hash_ok: "CHT_key_ok k \<Longrightarrow> CHT_hash k = Inr (CHT_idx k)"
  by (auto simp: CHT_hash_def CHT_key_ok_def CHT_idx_def chk32_def abs_if)

lemma chain_find_None: "chain_find k c = None \<longleftrightarrow> k \<notin> fst ` set c"
  by (induction c) (auto split: if_splits)

lemma chain_update_find:
  "chain_update k v c = Some c' \<Longrightarrow> chain_find x c' = (if x = k then Some v else chain_find x c)"
  by (induction c arbitrary: c') (auto split: if_splits)

lemma chain_update_keys: "chain_update k v c = Some c' \<Longrightarrow> map fst c' = map fst c"
  by (induction c arbitrary: c') (auto split: if_splits)

lemma chain_update_None: "chain_update k v c = None \<Longrightarrow> k \<notin> set (map fst c)"
  by (induction c) (auto split: if_splits simp del: set_map)

lemma chain_erase_keys:
  "chain_erase k c = Some c' \<Longrightarrow> distinct (map fst c) \<Longrightarrow> distinct (map fst c') \<and> set (map fst c') \<subseteq> set (map fst c) - {k} \<and>
    k \<in> set (map fst c)"
proof (induction c arbitrary: c')
  case (Cons x c)
  obtain a b where x: "x = (a, b)" by (cases x)
  show ?case
  proof (cases "a = k")
    case True
    with Cons.prems x show ?thesis by auto
  next
    case False
    with Cons.prems x obtain d where d: "chain_erase k c = Some d" "c' = (a, b) # d" by auto
    from Cons.IH [OF d(1)] Cons.prems(2) x d False show ?thesis by (auto simp del: set_map)
  qed
qed simp

lemma chain_erase_find:
  assumes "chain_erase k c = Some c'" and "distinct (map fst c)"
  shows "chain_find x c' = (if x = k then None else chain_find x c)"
proof (cases "x = k")
  case True
  with chain_erase_keys [OF assms] show ?thesis by (auto simp: chain_find_None)
next
  case False
  with assms(1) show ?thesis by (induction c arbitrary: c') (auto split: if_splits)
qed

lemma chain_erase_None: "chain_erase k c = None \<Longrightarrow> chain_find k c = None"
  by (induction c) (auto split: if_splits)

text \<open>Replacing the chain of the bucket of \<open>k\<close> by one that differs at \<open>k\<close> only.\<close>

lemma CHT_tab_update:
  assumes inv: "CHT_inv t" and c: "\<forall>x. chain_find x c = (if x = k then y else chain_find x (buckets t ! CHT_idx k))" and d: "distinct (map fst c)"
  shows "CHT_inv (t\<lparr>buckets := (buckets t)[CHT_idx k := c]\<rparr>) \<and>
    CHT_tab (t\<lparr>buckets := (buckets t)[CHT_idx k := c]\<rparr>) = (CHT_tab t)(k := y)"
proof -
  have "CHT_tab (t\<lparr>buckets := (buckets t)[CHT_idx k := c]\<rparr>) k' = ((CHT_tab t)(k := y)) k'" for k'
    using inv c by (cases "k' = k"; cases "CHT_idx k' = CHT_idx k") (auto simp: CHT_tab_def CHT_inv_def)
  moreover have "CHT_inv (t\<lparr>buckets := (buckets t)[CHT_idx k := c]\<rparr>)"
    using inv d set_update_subset_insert [of "buckets t" "CHT_idx k" c] by (auto simp: CHT_inv_def)
  ultimately show ?thesis by blast
qed

interpretation cht: int_table CHT_insert CHT_find CHT_erase CHT_tab CHT_inv CHT_key_ok
proof unfold_locales
  fix t k v assume inv: "CHT_inv t" and ok: "CHT_key_ok k"
  let ?c = "buckets t ! CHT_idx k"
  have len: "CHT_idx k < length (buckets t)" and d: "distinct (map fst ?c)" using inv by (simp_all add: CHT_inv_def)
  note upd = CHT_tab_update [OF inv]
  show "CHT_find t k = Inr (CHT_tab t k)"
    using len by (simp add: CHT_find_def CHT_hash_ok [OF ok] CHT_tab_def)
  show "\<exists>t'. CHT_insert t k v = Inr t' \<and> CHT_inv t' \<and> CHT_tab t' = (CHT_tab t)(k \<mapsto> v)"
  proof (cases "chain_update k v ?c")
    case None
    with upd [where c = "(k, v) # ?c" and k = k and y = "Some v"] d len chain_update_None [OF None] show ?thesis
      by (simp add: CHT_insert_def CHT_hash_ok [OF ok])
  next
    case (Some c')
    with upd [where c = c' and k = k and y = "Some v"] d len chain_update_find [OF Some] chain_update_keys [OF Some]
    show ?thesis by (simp add: CHT_insert_def CHT_hash_ok [OF ok])
  qed
  show "\<exists>t'. CHT_erase t k = Inr (CHT_tab t k \<noteq> None, t') \<and> CHT_inv t' \<and> CHT_tab t' = (CHT_tab t)(k := None)"
  proof (cases "chain_erase k ?c")
    case None
    with chain_erase_None [OF None] have "CHT_tab t k = None" by (simp add: CHT_tab_def)
    with None len inv show ?thesis by (auto simp: CHT_erase_def CHT_hash_ok [OF ok])
  next
    case (Some c')
    let ?t = "t\<lparr>buckets := (buckets t)[CHT_idx k := c']\<rparr>"
    have "CHT_inv ?t \<and> CHT_tab ?t = (CHT_tab t)(k := None)"
      by (rule upd) (use chain_erase_find [OF Some d] chain_erase_keys [OF Some d] in auto)
    moreover have "CHT_tab t k \<noteq> None" using chain_erase_keys [OF Some d] by (auto simp: CHT_tab_def chain_find_None)
    ultimately show ?thesis using Some len by (simp add: CHT_erase_def CHT_hash_ok [OF ok])
  qed
qed

section \<open>Properties\<close>

definition RS_inv :: "RandomizedSet \<Rightarrow> bool" where
  "RS_inv rs \<longleftrightarrow> CHT_inv (rs_indexMap rs) \<and> indexes (CHT_tab (rs_indexMap rs)) (rs_list rs) \<and> list_all CHT_key_ok (rs_list rs)"

lemma RS_new_inv: "RS_inv RandomizedSet_new"
proof -
  have "CHT_tab CHT_new = (\<lambda>_. None)" by (rule ext) (simp add: CHT_tab_def CHT_new_def nth_replicate)
  then show ?thesis by (simp add: RS_inv_def RandomizedSet_new_def indexes_Nil) (simp add: CHT_inv_def CHT_new_def)
qed

lemma RS_getRandom_draws:
  assumes "rs_list rs \<noteq> []" "int (length (rs_list rs)) \<le> INT_MAX"
  shows "RS_getRandom dis rs = arr_geti (rs_list rs) (dis 0 (int (length (rs_list rs)) - 1))"
proof -
  have "0 < length (rs_list rs)" using assms(1) by simp
  then show ?thesis using assms(2) as_int_id [of "int (length (rs_list rs)) - 1"] by (simp add: RS_getRandom_def mod_pos_pos_trivial)
qed

text \<open>
  Claim C27. A randomized set of at most \<open>INT_MAX\<close> elements behaves as a set of numbers: \<open>insert\<close> and \<open>remove\<close> report whether the element was new or
  present and add or remove exactly it, never leaving an array. Whatever the distribution draws from the range it is given, \<open>getRandom\<close> returns an
  element of a set that is not empty; the range is that of the positions, each element has exactly one, and it is returned when that one is drawn. On the empty set the
  range is empty, which is undefined. The smallest \<open>int\<close>, whose absolute value overflows, is excluded.
\<close>

theorem RandomizedSet_refines_set:
  assumes "RS_inv rs" and "CHT_key_ok v" and "int (length (rs_list rs)) \<le> INT_MAX"
  shows "(\<exists>rs'. RS_insert rs v = Inr (v \<notin> set (rs_list rs), rs') \<and> RS_inv rs' \<and> set (rs_list rs') = insert v (set (rs_list rs))) \<and>
    (\<exists>rs'. RS_remove rs v = Inr (v \<in> set (rs_list rs), rs') \<and> RS_inv rs' \<and> set (rs_list rs') = set (rs_list rs) - {v}) \<and>
    (\<forall>dis. rs_list rs \<noteq> [] \<and> (\<forall>a b. a \<le> b \<longrightarrow> a \<le> dis a b \<and> dis a b \<le> b) \<longrightarrow> (\<exists>x \<in> set (rs_list rs). RS_getRandom dis rs = Inr x)) \<and>
    (\<forall>x \<in> set (rs_list rs). \<exists>!i. 0 \<le> i \<and> i < int (length (rs_list rs)) \<and>
       (\<forall>dis. dis 0 (int (length (rs_list rs)) - 1) = i \<longrightarrow> RS_getRandom dis rs = Inr x)) \<and>
    (rs_list rs = [] \<longrightarrow> RS_getRandom dis rs = Inl OutOfBounds)"
proof (intro conjI)
  let ?l = "rs_list rs" and ?m = "rs_indexMap rs"
  have inv: "CHT_inv ?m" and idx: "indexes (CHT_tab ?m) ?l" and keys: "list_all CHT_key_ok ?l"
    using assms(1) by (simp_all add: RS_inv_def)
  note found = cht.fnd_ok [OF inv assms(2)]
  show "\<exists>rs'. RS_insert rs v = Inr (v \<notin> set ?l, rs') \<and> RS_inv rs' \<and> set (rs_list rs') = insert v (set ?l)"
  proof (cases "v \<in> set ?l")
    case True
    with indexes_mem [OF idx, of v] assms(1) show ?thesis by (auto simp: RS_insert_def found)
  next
    case False
    have "as_int (int (length ?l)) = int (length ?l)" using assms(3) by (intro as_int_id) simp_all
    with False indexes_mem [OF idx, of v] cht.index_push [OF inv idx assms(2)] keys assms(2) show ?thesis
      by (auto simp: RS_insert_def found RS_inv_def)
  qed
  show "\<exists>rs'. RS_remove rs v = Inr (v \<in> set ?l, rs') \<and> RS_inv rs' \<and> set (rs_list rs') = set ?l - {v}"
  proof (cases "CHT_tab ?m v")
    case None
    with indexes_mem [OF idx, of v] assms(1) show ?thesis by (auto simp: RS_remove_def found)
  next
    case (Some i)
    from indexes_nth [OF idx Some] obtain j where j: "j < length ?l" "i = int j" "?l ! j = v" by blast
    then have ne: "?l \<noteq> []" "?l ! nat (int (length ?l) - 1) = last ?l" by (auto simp: nat_diff_distrib) (metis One_nat_def last_conv_nth length_0_conv less_zeroE)
    have "CHT_key_ok (last ?l)" using keys ne by (simp add: list_all_iff)
    from cht.index_swap_remove [OF inv idx assms(2) this j(1,3)] obtain t' t'' b where
      t: "CHT_insert ?m (last ?l) (int j) = Inr t'" "CHT_erase t' v = Inr (b, t'')" "CHT_inv t''"
        "indexes (CHT_tab t'') (butlast (?l[j := last ?l]))" by blast
    have s: "set (butlast (?l[j := last ?l])) = set ?l - {v}" using indexes_swap_remove [OF idx j(3,1)] by simp
    have "RS_remove rs v = Inr (True, rs\<lparr>rs_list := butlast (?l[j := last ?l]), rs_indexMap := t''\<rparr>)"
      using Some j ne t by (simp add: RS_remove_def found arr_geti_def)
    moreover have "v \<in> set ?l" using j by auto
    moreover have "list_all CHT_key_ok (butlast (?l[j := last ?l]))" using s keys by (auto simp: list_all_iff)
    ultimately show ?thesis using t s by (auto simp: RS_inv_def)
  qed
  note draw = RS_getRandom_draws [OF _ assms(3)]
  show "\<forall>dis. ?l \<noteq> [] \<and> (\<forall>a b. a \<le> b \<longrightarrow> a \<le> dis a b \<and> dis a b \<le> b) \<longrightarrow> (\<exists>x \<in> set ?l. RS_getRandom dis rs = Inr x)"
  proof (intro allI impI, elim conjE)
    fix dis :: "int \<Rightarrow> int \<Rightarrow> int" assume ne: "?l \<noteq> []" and d: "\<forall>a b. a \<le> b \<longrightarrow> a \<le> dis a b \<and> dis a b \<le> b"
    have "0 \<le> int (length ?l) - 1" using ne by (cases ?l) auto
    with d have "0 \<le> dis 0 (int (length ?l) - 1)" "dis 0 (int (length ?l) - 1) \<le> int (length ?l) - 1" by blast+
    then show "\<exists>x \<in> set ?l. RS_getRandom dis rs = Inr x" using draw [OF ne, of dis] by (auto simp: arr_geti_def)
  qed
  show "\<forall>x \<in> set ?l. \<exists>!i. 0 \<le> i \<and> i < int (length ?l) \<and> (\<forall>dis. dis 0 (int (length ?l) - 1) = i \<longrightarrow> RS_getRandom dis rs = Inr x)"
  proof
    fix x assume "x \<in> set ?l"
    then obtain j where j: "j < length ?l" "?l ! j = x" by (auto simp: in_set_conv_nth)
    have dist: "distinct ?l" using idx by (simp add: indexes_def)
    have ne: "?l \<noteq> []" using j by auto
    have "i = int j" if "0 \<le> i" "i < int (length ?l)" "\<forall>dis. dis 0 (int (length ?l) - 1) = i \<longrightarrow> RS_getRandom dis rs = Inr x" for i
      using that(1,2) that(3) [rule_format, of "\<lambda>_ _. i"] j dist draw [OF ne, of "\<lambda>_ _. i"] by (auto simp: nth_eq_iff_index_eq)
    with j draw [OF ne] show "\<exists>!i. 0 \<le> i \<and> i < int (length ?l) \<and> (\<forall>dis. dis 0 (int (length ?l) - 1) = i \<longrightarrow> RS_getRandom dis rs = Inr x)"
      by (intro ex1I [of _ "int j"]) auto
  qed
  show "?l = [] \<longrightarrow> RS_getRandom dis rs = Inl OutOfBounds" by (simp add: RS_getRandom_def as_int_def)
qed

theorem RandomizedSet_refines_set_witness:
  "\<exists>rs'. RS_insert RandomizedSet_new 42 = Inr (True, rs') \<and> set (rs_list rs') = {42} \<and> RS_getRandom (\<lambda>a b. b) rs' = Inr 42"
proof -
  have k: "CHT_key_ok 42" by (simp add: CHT_key_ok_def)
  obtain rs' where rs': "RS_insert RandomizedSet_new 42 = Inr (True, rs')" "RS_inv rs'" "set (rs_list rs') = {42}"
    using RandomizedSet_refines_set [OF RS_new_inv k] by (auto simp: RandomizedSet_new_def)
  have "distinct (rs_list rs')" using rs'(2) by (simp add: RS_inv_def indexes_def)
  then have "length (rs_list rs') = 1" using distinct_card rs'(3) by fastforce
  then have "int (length (rs_list rs')) \<le> INT_MAX" "rs_list rs' \<noteq> []" by auto
  with conjunct1 [OF conjunct2 [OF conjunct2 [OF RandomizedSet_refines_set [OF rs'(2) k]]], rule_format, of "\<lambda>a b. b"] rs'
  have "RS_getRandom (\<lambda>a b. b) rs' = Inr 42" by auto
  then show ?thesis using rs' by blast
qed

lemma RS_insert_INT_MIN: "RS_insert rs INT_MIN = Inl IntOverflow"
  by (simp add: RS_insert_def CHT_find_def CHT_hash_def chk32_def)

section \<open>The example\<close>

text \<open>\<open>main\<close>: what it prints; \<open>dis1\<close> and \<open>dis2\<close> are the draws of its two calls of \<open>getRandom\<close>.\<close>

fun RS_insert_all :: "RandomizedSet \<Rightarrow> int list \<Rightarrow> (bool list \<times> RandomizedSet) res" where
  "RS_insert_all rs [] = Inr ([], rs)"
| "RS_insert_all rs (v # vs) = rbind (RS_insert rs v) (\<lambda>(b, rs). rbind (RS_insert_all rs vs) (\<lambda>(bs, rs). Inr (b # bs, rs)))"

definition RS_main :: "(int \<Rightarrow> int \<Rightarrow> int) \<Rightarrow> (int \<Rightarrow> int \<Rightarrow> int) \<Rightarrow> (bool list \<times> int \<times> bool \<times> bool \<times> int) res" where
  "RS_main dis1 dis2 =
     rbind (RS_insert_all RandomizedSet_new [1, 2, 3, 1]) (\<lambda>(inserted, rs).
     rbind (RS_getRandom dis1 rs) (\<lambda>r1.
     rbind (RS_remove rs 1) (\<lambda>(removed, rs).
     rbind (RS_insert rs 4) (\<lambda>(added, rs).
     rbind (RS_getRandom dis2 rs) (\<lambda>r2. Inr (inserted, r1, removed, added, r2))))))"

lemma RS_main_first: "rbind (RS_insert_all RandomizedSet_new [1, 2, 3, 1]) (\<lambda>(bs, rs). Inr (bs, rs_list rs)) = Inr ([True, True, True, False], [1, 2, 3])"
  by code_simp

lemma RS_main_second:
  "rbind (RS_insert_all RandomizedSet_new [1, 2, 3, 1]) (\<lambda>(_, rs). rbind (RS_remove rs 1) (\<lambda>(removed, rs).
     rbind (RS_insert rs 4) (\<lambda>(added, rs). Inr (removed, added, rs_list rs)))) = Inr (True, True, [3, 2, 4])"
  by code_simp

text \<open>As the comments of \<open>main\<close> say: the draws return one of 1, 2, 3 and then one of 2, 3, 4.\<close>

lemma RS_main_prints:
  assumes "0 \<le> dis1 0 2" "dis1 0 2 \<le> 2" "0 \<le> dis2 0 2" "dis2 0 2 \<le> 2"
  shows "\<exists>r1 \<in> {1, 2, 3}. \<exists>r2 \<in> {2, 3, 4}. RS_main dis1 dis2 = Inr ([True, True, True, False], r1, True, True, r2)"
proof -
  obtain rs where rs: "RS_insert_all RandomizedSet_new [1, 2, 3, 1] = Inr ([True, True, True, False], rs)" "rs_list rs = [1, 2, 3]"
    using RS_main_first by (auto simp del: RS_insert_all.simps)
  obtain rs1 rs2 where rs2: "RS_remove rs 1 = Inr (True, rs1)" "RS_insert rs1 4 = Inr (True, rs2)" "rs_list rs2 = [3, 2, 4]"
    using RS_main_second unfolding rs(1) by auto
  have "dis1 0 2 \<in> {0, 1, 2}" "dis2 0 2 \<in> {0, 1, 2}" using assms by auto
  then have "\<exists>r1 \<in> {1, 2, 3}. RS_getRandom dis1 rs = Inr r1" "\<exists>r2 \<in> {2, 3, 4}. RS_getRandom dis2 rs2 = Inr r2"
    using rs(2) rs2(3) by (auto simp: RS_getRandom_draws arr_geti_def)
  then show ?thesis using rs2(1,2) unfolding RS_main_def rs(1) by auto
qed

end
