(* ===== verification/Tries.thy ===== *)
theory Tries
  imports Prelude
begin

text \<open>
  String maps: the tries of \<open>trie/trie.cpp\<close> and \<open>dnsCache/dnsCacheTrie.cpp\<close>, and \<open>routingTable.cpp\<close>. A trie node owns
  its children, so it is a tree here: a payload and the array of children, with null children as \<open>None\<close>. An
  index outside the array of children is an error value. A C string is the list of its characters.
\<close>

section \<open>Trie nodes\<close>

datatype 'p tnode = TNode (payload: 'p) (children: "'p tnode option list")

definition new_tnode :: "nat \<Rightarrow> 'p \<Rightarrow> 'p tnode" where
  "new_tnode n p = TNode p (replicate n None)"

text \<open>
  The loop of both \<open>insert\<close>s, over the child indices of the word: it creates the missing nodes (with payload \<open>d\<close> and \<open>n\<close>
  children) and changes the payload of the last one by \<open>f\<close>.
\<close>

fun tnode_insert :: "nat \<Rightarrow> 'p \<Rightarrow> ('p \<Rightarrow> 'p) \<Rightarrow> int list \<Rightarrow> 'p tnode \<Rightarrow> 'p tnode res" where
  "tnode_insert n d f [] t = Inr (TNode (f (payload t)) (children t))"
| "tnode_insert n d f (i # is) t =
     rbind (arr_geti (children t) i) (\<lambda>c.
     rbind (tnode_insert n d f is (case c of None \<Rightarrow> new_tnode n d | Some c \<Rightarrow> c)) (\<lambda>c'.
     rbind (arr_seti (children t) i (Some c')) (\<lambda>cs. Inr (TNode (payload t) cs))))"

text \<open>The loop of both searches: the payload of the node reached, or \<open>None\<close> when a child is missing.\<close>

fun tnode_find :: "int list \<Rightarrow> 'p tnode \<Rightarrow> 'p option res" where
  "tnode_find [] t = Inr (Some (payload t))"
| "tnode_find (i # is) t =
     rbind (arr_geti (children t) i) (\<lambda>c. case c of None \<Rightarrow> Inr None | Some c \<Rightarrow> tnode_find is c)"

section \<open>\<open>trie/trie.cpp\<close>\<close>

text \<open>\<open>c - 'a'\<close>\<close>

definition letter :: "char \<Rightarrow> int" where
  "letter c = of_char c - 97"

definition Trie_new :: "bool tnode" where
  "Trie_new = new_tnode 26 False"

definition Trie_insert :: "bool tnode \<Rightarrow> string \<Rightarrow> bool tnode res" where
  "Trie_insert root word = tnode_insert 26 False (\<lambda>_. True) (map letter word) root"

definition Trie_search :: "bool tnode \<Rightarrow> string \<Rightarrow> bool res" where
  "Trie_search root word = rbind (tnode_find (map letter word) root) (\<lambda>r. Inr (case r of None \<Rightarrow> False | Some e \<Rightarrow> e))"

definition trie_main :: "bool list res" where
  "trie_main =
     rbind (Trie_insert Trie_new ''apple'') (\<lambda>t.
     rbind (Trie_insert t ''app'') (\<lambda>t.
     rbind (Trie_insert t ''banana'') (\<lambda>t.
     rbind (Trie_search t ''apple'') (\<lambda>r1.
     rbind (Trie_search t ''app'') (\<lambda>r2.
     rbind (Trie_search t ''banana'') (\<lambda>r3.
     rbind (Trie_search t ''orange'') (\<lambda>r4.
     rbind (Trie_search t ''a'') (\<lambda>r5. Inr [r1, r2, r3, r4, r5]))))))))"

section \<open>\<open>dnsCache/dnsCacheTrie.cpp\<close>\<close>

abbreviation CHARS :: nat where "CHARS \<equiv> 27"

definition getIndex :: "char \<Rightarrow> int" where
  "getIndex c = (if c = CHR ''.'' then 26 else of_char c - 97)"

definition getCharFromIndex :: "int \<Rightarrow> char" where
  "getCharFromIndex i = (if i = 26 then CHR ''.'' else char_of (97 + i))"

record DnsLeaf =
  isLeaf :: bool
  ipAdd :: "string option"

definition newTrieNode :: "DnsLeaf tnode" where
  "newTrieNode = new_tnode CHARS \<lparr>isLeaf = False, ipAdd = None\<rparr>"

definition DnsTrie_insert :: "DnsLeaf tnode \<Rightarrow> string \<Rightarrow> string \<Rightarrow> DnsLeaf tnode res" where
  "DnsTrie_insert root URL ip =
     tnode_insert CHARS \<lparr>isLeaf = False, ipAdd = None\<rparr> (\<lambda>_. \<lparr>isLeaf = True, ipAdd = Some ip\<rparr>) (map getIndex URL) root"

definition searchDNSCache :: "DnsLeaf tnode \<Rightarrow> string \<Rightarrow> string option res" where
  "searchDNSCache root URL = rbind (tnode_find (map getIndex URL) root) (\<lambda>r.
     Inr (case r of None \<Rightarrow> None | Some n \<Rightarrow> if isLeaf n then ipAdd n else None))"

definition dnsCacheTrie_main :: "string option res" where
  "dnsCacheTrie_main =
     rbind (DnsTrie_insert newTrieNode ''www.samsung.com'' ''107.108.11.123'') (\<lambda>root.
     rbind (DnsTrie_insert root ''www.samsung.net'' ''107.109.123.255'') (\<lambda>root.
     rbind (DnsTrie_insert root ''www.google.in'' ''74.125.200.106'') (\<lambda>root.
     searchDNSCache root ''www.samsung.com'')))"

section \<open>\<open>routingTable.cpp\<close>\<close>

record RoutingTable =
  rt_table :: "string \<Rightarrow> string option"

definition RT_insert :: "RoutingTable \<Rightarrow> string \<Rightarrow> string \<Rightarrow> RoutingTable" where
  "RT_insert rt destination nextHop = rt\<lparr>rt_table := (rt_table rt)(destination \<mapsto> nextHop)\<rparr>"

definition RT_remove :: "RoutingTable \<Rightarrow> string \<Rightarrow> RoutingTable" where
  "RT_remove rt destination = rt\<lparr>rt_table := (rt_table rt)(destination := None)\<rparr>"

definition RT_forward :: "RoutingTable \<Rightarrow> string \<Rightarrow> string" where
  "RT_forward rt destination = (case rt_table rt destination of Some h \<Rightarrow> h | None \<Rightarrow> ''No route found'')"

section \<open>The contract of a string map\<close>

text \<open>Keys that satisfy \<open>key_ok\<close> can be stored and looked up; nothing else changes a lookup.\<close>

locale string_map =
  fixes upd :: "'t \<Rightarrow> string \<Rightarrow> 'v \<Rightarrow> 't res"
    and lookup :: "'t \<Rightarrow> string \<Rightarrow> 'v option res"
    and inv :: "'t \<Rightarrow> bool"
    and empty :: 't
    and key_ok :: "string \<Rightarrow> bool"
  assumes empty_inv: "inv empty"
    and empty_lookup: "key_ok k \<Longrightarrow> lookup empty k = Inr None"
    and lookup_ok: "inv t \<Longrightarrow> key_ok k \<Longrightarrow> is_ok (lookup t k)"
    and upd_ok: "inv t \<Longrightarrow> key_ok k \<Longrightarrow> \<exists>t'. upd t k v = Inr t' \<and> inv t' \<and>
      (\<forall>k'. key_ok k' \<longrightarrow> lookup t' k' = (if k' = k then Inr (Some v) else lookup t k'))"

fun upd_all :: "('t \<Rightarrow> string \<Rightarrow> 'v \<Rightarrow> 't res) \<Rightarrow> 't \<Rightarrow> (string \<times> 'v) list \<Rightarrow> 't res" where
  "upd_all upd t [] = Inr t"
| "upd_all upd t ((k, v) # kvs) = rbind (upd t k v) (\<lambda>t. upd_all upd t kvs)"

text \<open>What a lookup finds after the updates \<open>kvs\<close>: the last value stored under the key.\<close>

definition last_value :: "(string \<times> 'v) list \<Rightarrow> string \<Rightarrow> 'v option" where
  "last_value kvs k = (case filter (\<lambda>kv. fst kv = k) (rev kvs) of [] \<Rightarrow> None | kv # _ \<Rightarrow> Some (snd kv))"

lemma last_value_snoc: "last_value (kvs @ [(k', v)]) k = (if k = k' then Some v else last_value kvs k)"
  by (simp add: last_value_def)

context string_map
begin

lemma lookup_after:
  assumes "inv t" and "\<And>k. key_ok k \<Longrightarrow> lookup t k = Inr (last_value old k)" and "\<forall>(k, v) \<in> set kvs. key_ok k"
  shows "\<exists>t'. upd_all upd t kvs = Inr t' \<and> inv t' \<and> (\<forall>k. key_ok k \<longrightarrow> lookup t' k = Inr (last_value (old @ kvs) k))"
  using assms
proof (induction kvs arbitrary: t old)
  case (Cons x kvs)
  obtain k v where x: "x = (k, v)" by (cases x)
  with Cons.prems have ok: "key_ok k" by simp
  from upd_ok [OF Cons.prems(1) ok, of v] obtain t1 where t1: "upd t k v = Inr t1" "inv t1"
    "\<And>k'. key_ok k' \<Longrightarrow> lookup t1 k' = (if k' = k then Inr (Some v) else lookup t k')" by blast
  have "\<exists>t'. upd_all upd t1 kvs = Inr t' \<and> inv t' \<and> (\<forall>k'. key_ok k' \<longrightarrow> lookup t' k' = Inr (last_value ((old @ [x]) @ kvs) k'))"
    by (rule Cons.IH [OF t1(2)]) (use t1(3) Cons.prems x in \<open>auto simp: last_value_snoc\<close>)
  with t1(1) x show ?case by simp
qed auto

lemma lookup_from_empty:
  assumes "\<forall>(k, v) \<in> set kvs. key_ok k"
  shows "\<exists>t'. upd_all upd empty kvs = Inr t' \<and> inv t' \<and> (\<forall>k. key_ok k \<longrightarrow> lookup t' k = Inr (last_value kvs k))"
  using lookup_after [OF empty_inv, of "[]" kvs] assms empty_lookup by (simp add: last_value_def)

end

section \<open>The tries keep the contract\<close>

fun tnode_ok :: "nat \<Rightarrow> 'p tnode \<Rightarrow> bool" where
  "tnode_ok n (TNode p cs) \<longleftrightarrow> length cs = n \<and> list_all (\<lambda>c. case c of None \<Rightarrow> True | Some t \<Rightarrow> tnode_ok n t) cs"

definition idx_ok :: "nat \<Rightarrow> int list \<Rightarrow> bool" where
  "idx_ok n is \<longleftrightarrow> list_all (\<lambda>i. 0 \<le> i \<and> i < int n) is"

lemma idx_ok_simps [simp]: "idx_ok n []" "idx_ok n (i # is) \<longleftrightarrow> 0 \<le> i \<and> i < int n \<and> idx_ok n is"
  by (simp_all add: idx_ok_def)

lemma new_tnode_ok [simp]: "tnode_ok n (new_tnode n p)"
  by (simp add: new_tnode_def list_all_iff)

lemma tnode_ok_child:
  assumes "tnode_ok n t" and "i < n" and "children t ! i = Some c"
  shows "tnode_ok n c"
proof -
  obtain p cs where t: "t = TNode p cs" by (cases t)
  with assms have "i < length cs" "cs ! i = Some c" by auto
  then have "Some c \<in> set cs" by (metis nth_mem)
  with assms t show ?thesis by (auto simp: list_all_iff split: option.splits)
qed

lemma tnode_ok_length: "tnode_ok n t \<Longrightarrow> length (children t) = n"
  by (cases t) simp

text \<open>The payload at a path, a missing node having the payload \<open>d\<close> of a fresh node.\<close>

definition pay :: "'p \<Rightarrow> int list \<Rightarrow> 'p tnode \<Rightarrow> 'p" where
  "pay d is t = (case tnode_find is t of Inr (Some p) \<Rightarrow> p | _ \<Rightarrow> d)"

lemma pay_simps [simp]:
  "pay d [] t = payload t"
  "length (children t) = n \<Longrightarrow> 0 \<le> i \<Longrightarrow> i < int n \<Longrightarrow>
    pay d (i # is) t = (case children t ! nat i of None \<Rightarrow> d | Some c \<Rightarrow> pay d is c)"
  by (simp_all add: pay_def split: option.splits)

lemma pay_new: "idx_ok n is \<Longrightarrow> pay d is (new_tnode n d) = d"
  by (cases "is") (simp_all add: new_tnode_def nat_less_iff pay_def)

lemma tnode_find_ok: "tnode_ok n t \<Longrightarrow> idx_ok n is \<Longrightarrow> is_ok (tnode_find is t)"
proof (induction "is" arbitrary: t)
  case (Cons i "is")
  have len: "length (children t) = n" by (rule tnode_ok_length [OF Cons.prems(1)])
  show ?case
  proof (cases "children t ! nat i")
    case (Some c)
    with Cons len tnode_ok_child [OF Cons.prems(1), of "nat i" c] show ?thesis by (simp add: nat_less_iff)
  qed (use Cons.prems len in simp)
qed simp

lemma tnode_insert_ok:
  assumes "tnode_ok n t" and "idx_ok n is"
  shows "\<exists>t'. tnode_insert n d f is t = Inr t' \<and> tnode_ok n t' \<and>
    (\<forall>js. idx_ok n js \<longrightarrow> pay d js t' = (if js = is then f (pay d is t) else pay d js t))"
  using assms
proof (induction "is" arbitrary: t)
  case Nil
  obtain p cs where t: "t = TNode p cs" by (cases t)
  have "pay d js (TNode (f p) cs) = (if js = [] then f p else pay d js (TNode p cs))" for js
    by (cases js) (simp_all add: pay_def)
  with Nil t show ?case by auto
next
  case (Cons i "is")
  obtain p cs where t: "t = TNode p cs" by (cases t)
  have i: "0 \<le> i" "i < int n" "nat i < length cs" and iss: "idx_ok n is" and len: "length cs = n"
    using Cons.prems t by (auto simp: nat_less_iff)
  define c where "c = (case cs ! nat i of None \<Rightarrow> new_tnode n d | Some c \<Rightarrow> c)"
  have c: "tnode_ok n c"
    using tnode_ok_child [OF Cons.prems(1), of "nat i"] i len t by (cases "cs ! nat i") (auto simp: c_def)
  have pc: "pay d ks c = pay d (i # ks) t" if "idx_ok n ks" for ks
    using t i len that by (cases "cs ! nat i") (auto simp: c_def pay_new)
  from Cons.IH [OF c iss] obtain c' where c': "tnode_insert n d f is c = Inr c'" "tnode_ok n c'"
    "\<And>ks. idx_ok n ks \<Longrightarrow> pay d ks c' = (if ks = is then f (pay d is c) else pay d ks c)" by blast
  let ?t = "TNode p (cs[nat i := Some c'])"
  have "tnode_insert n d f (i # is) t = Inr ?t" using t i len c'(1) by (simp add: c_def)
  moreover have "tnode_ok n ?t"
    using Cons.prems(1) t len c'(2) set_update_subset_insert [of cs "nat i" "Some c'"]
    by (auto simp: list_all_iff dest!: subsetD)
  moreover have "pay d js ?t = (if js = i # is then f (pay d (i # is) t) else pay d js t)" if js: "idx_ok n js" for js
  proof (cases js)
    case (Cons j ks)
    with js have j: "0 \<le> j" "j < int n" "idx_ok n ks" by auto
    show ?thesis
    proof (cases "j = i")
      case True
      with Cons j i len t c'(3) [of ks] pc [of ks] pc [OF iss] show ?thesis by simp
    next
      case False
      then have "nat j \<noteq> nat i" using i j by simp
      with False Cons j len t show ?thesis by simp
    qed
  qed (use t in simp)
  ultimately show ?case by blast
qed

text \<open>Words over the letters of each trie.\<close>

definition word_ok :: "string \<Rightarrow> bool" where
  "word_ok w \<longleftrightarrow> list_all (\<lambda>c. 97 \<le> (of_char c :: int) \<and> (of_char c :: int) < 123) w"

definition url_ok :: "string \<Rightarrow> bool" where
  "url_ok w \<longleftrightarrow> list_all (\<lambda>c. c = CHR ''.'' \<or> 97 \<le> (of_char c :: int) \<and> (of_char c :: int) < 123) w"

lemma word_idx: "word_ok w \<Longrightarrow> idx_ok 26 (map letter w)"
  by (induction w) (auto simp: word_ok_def letter_def)

lemma url_idx: "url_ok w \<Longrightarrow> idx_ok CHARS (map getIndex w)"
  by (induction w) (auto simp: url_ok_def getIndex_def)

lemma of_char_inj: "(of_char c :: int) = of_char c' \<Longrightarrow> c = c'"
  by simp

lemma letter_inj: "map letter w = map letter w' \<Longrightarrow> w = w'"
  by (induction w arbitrary: w') (auto simp: letter_def dest!: of_char_inj)

lemma getIndex_inj: "url_ok w \<Longrightarrow> url_ok w' \<Longrightarrow> map getIndex w = map getIndex w' \<Longrightarrow> w = w'"
proof (induction w arbitrary: w')
  case (Cons c w)
  then obtain c' v where w': "w' = c' # v" by auto
  with Cons.prems have "c = c'" by (auto simp: getIndex_def url_ok_def split: if_splits dest: of_char_inj)
  with Cons w' show ?case by (auto simp: url_ok_def)
qed simp

definition Trie_upd :: "bool tnode \<Rightarrow> string \<Rightarrow> unit \<Rightarrow> bool tnode res" where
  "Trie_upd t w u = Trie_insert t w"

definition Trie_lookup :: "bool tnode \<Rightarrow> string \<Rightarrow> unit option res" where
  "Trie_lookup t w = rbind (Trie_search t w) (\<lambda>b. Inr (if b then Some () else None))"

lemma Trie_search_pay:
  assumes "tnode_ok 26 t" and "word_ok w"
  shows "Trie_search t w = Inr (pay False (map letter w) t)"
proof -
  from tnode_find_ok [OF assms(1) word_idx [OF assms(2)]] obtain r where "tnode_find (map letter w) t = Inr r"
    by (auto simp: is_ok_iff)
  then show ?thesis by (cases r) (simp_all add: Trie_search_def pay_def)
qed

lemma searchDNS_pay:
  assumes "tnode_ok CHARS t" and "url_ok w"
  shows "searchDNSCache t w = Inr (let n = pay \<lparr>isLeaf = False, ipAdd = None\<rparr> (map getIndex w) t in if isLeaf n then ipAdd n else None)"
proof -
  from tnode_find_ok [OF assms(1) url_idx [OF assms(2)]] obtain r where "tnode_find (map getIndex w) t = Inr r"
    by (auto simp: is_ok_iff)
  then show ?thesis by (cases r) (simp_all add: searchDNSCache_def pay_def)
qed

interpretation word_trie: string_map Trie_upd Trie_lookup "tnode_ok 26" Trie_new word_ok
proof unfold_locales
  show "tnode_ok 26 Trie_new" by (simp add: Trie_new_def)
  show "word_ok k \<Longrightarrow> Trie_lookup Trie_new k = Inr None" for k
    using pay_new [OF word_idx, of k False] by (simp add: Trie_lookup_def Trie_search_pay Trie_new_def)
  show "tnode_ok 26 t \<Longrightarrow> word_ok k \<Longrightarrow> is_ok (Trie_lookup t k)" for t k
    by (simp add: Trie_lookup_def Trie_search_pay)
  fix t :: "bool tnode" and k v assume t: "tnode_ok 26 t" and k: "word_ok k"
  from tnode_insert_ok [OF t word_idx [OF k], of False "\<lambda>_. True"] obtain t' where
    t': "Trie_insert t k = Inr t'" "tnode_ok 26 t'"
      "\<And>js. idx_ok 26 js \<Longrightarrow> pay False js t' = (if js = map letter k then True else pay False js t)"
    by (auto simp: Trie_insert_def)
  have "Trie_lookup t' k' = (if k' = k then Inr (Some v) else Trie_lookup t k')" if "word_ok k'" for k'
    using t'(3) [OF word_idx [OF that]] t t'(2) that letter_inj [of k' k] by (auto simp: Trie_lookup_def Trie_search_pay)
  with t' show "\<exists>t'. Trie_upd t k v = Inr t' \<and> tnode_ok 26 t' \<and>
      (\<forall>k'. word_ok k' \<longrightarrow> Trie_lookup t' k' = (if k' = k then Inr (Some v) else Trie_lookup t k'))"
    by (auto simp: Trie_upd_def)
qed

interpretation dns_trie: string_map DnsTrie_insert searchDNSCache "tnode_ok CHARS" newTrieNode url_ok
proof unfold_locales
  let ?d = "\<lparr>isLeaf = False, ipAdd = None\<rparr>"
  show "tnode_ok CHARS newTrieNode" by (simp add: newTrieNode_def)
  show "url_ok k \<Longrightarrow> searchDNSCache newTrieNode k = Inr None" for k
    using pay_new [OF url_idx, of k ?d] by (simp add: searchDNS_pay newTrieNode_def)
  show "tnode_ok CHARS t \<Longrightarrow> url_ok k \<Longrightarrow> is_ok (searchDNSCache t k)" for t k by (simp add: searchDNS_pay)
  fix t :: "DnsLeaf tnode" and k v assume t: "tnode_ok CHARS t" and k: "url_ok k"
  from tnode_insert_ok [OF t url_idx [OF k], of ?d "\<lambda>_. \<lparr>isLeaf = True, ipAdd = Some v\<rparr>"] obtain t' where
    t': "DnsTrie_insert t k v = Inr t'" "tnode_ok CHARS t'"
      "\<And>js. idx_ok CHARS js \<Longrightarrow> pay ?d js t' = (if js = map getIndex k then \<lparr>isLeaf = True, ipAdd = Some v\<rparr> else pay ?d js t)"
    by (auto simp: DnsTrie_insert_def)
  have "searchDNSCache t' k' = (if k' = k then Inr (Some v) else searchDNSCache t k')" if "url_ok k'" for k'
    using t'(3) [OF url_idx [OF that]] t t'(2) that k getIndex_inj [of k' k] by (auto simp: searchDNS_pay)
  with t' show "\<exists>t'. DnsTrie_insert t k v = Inr t' \<and> tnode_ok CHARS t' \<and>
      (\<forall>k'. url_ok k' \<longrightarrow> searchDNSCache t' k' = (if k' = k then Inr (Some v) else searchDNSCache t k'))"
    by blast
qed

definition RT_upd :: "RoutingTable \<Rightarrow> string \<Rightarrow> string \<Rightarrow> RoutingTable res" where
  "RT_upd rt k v = Inr (RT_insert rt k v)"

definition RT_lookup :: "RoutingTable \<Rightarrow> string \<Rightarrow> string option res" where
  "RT_lookup rt k = Inr (rt_table rt k)"

interpretation routes: string_map RT_upd RT_lookup "\<lambda>_. True" "\<lparr>rt_table = \<lambda>_. None\<rparr>" "\<lambda>_. True"
  by unfold_locales (simp_all add: RT_upd_def RT_lookup_def RT_insert_def)

section \<open>Properties\<close>

text \<open>
  After any words over a to z have been inserted, without leaving an array, \<open>search\<close> answers true for exactly
  those words: a prefix of a word is not found unless it was inserted itself.
\<close>

theorem trie_is_a_set:
  assumes "list_all word_ok ws"
  shows "\<exists>t. upd_all Trie_upd Trie_new (map (\<lambda>w. (w, ())) ws) = Inr t \<and>
    (\<forall>w. word_ok w \<longrightarrow> Trie_search t w = Inr (w \<in> set ws))"
proof -
  let ?kvs = "map (\<lambda>w. (w, ())) ws"
  from word_trie.lookup_from_empty [of ?kvs] assms obtain t where
    t: "upd_all Trie_upd Trie_new ?kvs = Inr t" "tnode_ok 26 t" "\<And>w. word_ok w \<Longrightarrow> Trie_lookup t w = Inr (last_value ?kvs w)"
    by (auto simp: list_all_iff)
  have last: "last_value ?kvs w \<noteq> None \<longleftrightarrow> w \<in> set ws" for w
    by (induction ws rule: rev_induct) (auto simp: last_value_snoc last_value_def)
  have "Trie_search t w = Inr (w \<in> set ws)" if "word_ok w" for w
    using t(3) [OF that] last [of w] Trie_search_pay [OF t(2) that] by (auto simp: Trie_lookup_def split: if_splits)
  with t(1) show ?thesis by blast
qed

theorem trie_is_a_set_witness:
  "\<exists>t. upd_all Trie_upd Trie_new [(''app'', ()), (''b'', ())] = Inr t \<and> Trie_search t ''ap'' = Inr False"
proof -
  have "word_ok ''ap''" by code_simp
  with trie_is_a_set [of "[''app'', ''b'']"] show ?thesis by (auto simp: word_ok_def)
qed

text \<open>
  Claim C40: the DNS trie is a map from URLs (letters a to z and dots) to addresses: after any insertions a lookup returns the
  address stored last for exactly that URL, and null for every URL that was not stored; no access leaves a node.
\<close>

theorem dns_trie_is_a_map:
  assumes "\<forall>(url, ip) \<in> set entries. url_ok url"
  shows "\<exists>t. upd_all DnsTrie_insert newTrieNode entries = Inr t \<and>
    (\<forall>url. url_ok url \<longrightarrow> searchDNSCache t url = Inr (last_value entries url))"
  using dns_trie.lookup_from_empty [OF assms] by blast

theorem dns_trie_is_a_map_witness:
  "\<exists>t. upd_all DnsTrie_insert newTrieNode [(''a.b'', ''1''), (''a'', ''2''), (''a.b'', ''3'')] = Inr t \<and>
    searchDNSCache t ''a.b'' = Inr (Some ''3'')"
proof -
  have "url_ok ''a.b''" "url_ok ''a''" by code_simp+
  with dns_trie_is_a_map [of "[(''a.b'', ''1''), (''a'', ''2''), (''a.b'', ''3'')]"] show ?thesis
    by (auto simp: last_value_def)
qed

lemma route_forwarding:
  "RT_forward (RT_insert rt d h) d' = (if d' = d then h else RT_forward rt d')"
  "RT_forward (RT_remove rt d) d' = (if d' = d then ''No route found'' else RT_forward rt d')"
  by (simp_all add: RT_forward_def RT_insert_def RT_remove_def)

lemma getCharFromIndex_getIndex: "url_ok [c] \<Longrightarrow> getCharFromIndex (getIndex c) = c"
  by (auto simp: url_ok_def getIndex_def getCharFromIndex_def)

lemma trie_mains:
  "trie_main = Inr [True, True, True, False, False]"
  "dnsCacheTrie_main = Inr (Some ''107.108.11.123'')"
  by code_simp+

end
