(* ===== verification/Max_Xor.thy ===== *)
theory Max_Xor
  imports Prelude "HOL-Library.Word"
begin

text \<open>
  \<open>maxXOR/main.cpp\<close>: the largest exclusive or of two numbers, by a binary trie over the 32 bits of an \<open>int\<close>. A node owns its
  two children. In \<open>insertAndGetMaxXOR\<close> two pointers walk the same tree while it grows; the query pointer is \<open>None\<close> here as
  long as it is the insertion pointer, and \<open>Some p\<close> once it has left the insertion path.
\<close>

unbundle bit_operations_syntax

section \<open>The trie\<close>

datatype bnode = BNode (child0: "bnode option") (child1: "bnode option")

definition child :: "bool \<Rightarrow> bnode \<Rightarrow> bnode option" where
  "child b n = (if b then child1 n else child0 n)"

definition set_child :: "bool \<Rightarrow> bnode \<Rightarrow> bnode \<Rightarrow> bnode" where
  "set_child b c n = (if b then BNode (child0 n) (Some c) else BNode (Some c) (child1 n))"

definition new_bnode :: bnode where
  "new_bnode = BNode None None"

text \<open>The loops count \<open>i\<close> down from 31; the functions handle bit \<open>i\<close> at \<open>Suc i\<close>.\<close>

fun bt_insert :: "nat \<Rightarrow> 32 word \<Rightarrow> bnode \<Rightarrow> bnode" where
  "bt_insert 0 num node = node"
| "bt_insert (Suc i) num node =
     (let b = bit num i;
          c = (case child b node of None \<Rightarrow> new_bnode | Some c \<Rightarrow> c)
      in set_child b (bt_insert i num c) node)"

fun getMaxXOR_loop :: "nat \<Rightarrow> 32 word \<Rightarrow> bnode option \<Rightarrow> 32 word \<Rightarrow> 32 word res" where
  "getMaxXOR_loop 0 num node maxXor = Inr maxXor"
| "getMaxXOR_loop (Suc i) num None maxXor = Inl NullDeref"
| "getMaxXOR_loop (Suc i) num (Some n) maxXor =
     (let b = bit num i in
      case child (\<not> b) n of
        Some c \<Rightarrow> getMaxXOR_loop i num (Some c) (maxXor OR push_bit i 1)
      | None \<Rightarrow> getMaxXOR_loop i num (child b n) maxXor)"

definition Trie_getMaxXOR :: "bnode \<Rightarrow> 32 word \<Rightarrow> 32 word res" where
  "Trie_getMaxXOR root num = getMaxXOR_loop 32 num (Some root) 0"

fun insertAndGet_loop :: "nat \<Rightarrow> 32 word \<Rightarrow> bnode \<Rightarrow> bnode option option \<Rightarrow> 32 word \<Rightarrow> (bnode \<times> 32 word) res" where
  "insertAndGet_loop 0 num ins qry maxXor = Inr (ins, maxXor)"
| "insertAndGet_loop (Suc i) num ins qry maxXor =
     (let b = bit num i;
          c = (case child b ins of None \<Rightarrow> new_bnode | Some c \<Rightarrow> c)
      in case qry of
        None \<Rightarrow>
          (case child (\<not> b) ins of
             Some d \<Rightarrow> rbind (insertAndGet_loop i num c (Some (Some d)) (maxXor OR push_bit i 1)) (\<lambda>(c', r). Inr (set_child b c' ins, r))
           | None \<Rightarrow> rbind (insertAndGet_loop i num c None maxXor) (\<lambda>(c', r). Inr (set_child b c' ins, r)))
      | Some None \<Rightarrow> Inl NullDeref
      | Some (Some q) \<Rightarrow>
          (case child (\<not> b) q of
             Some d \<Rightarrow> rbind (insertAndGet_loop i num c (Some (Some d)) (maxXor OR push_bit i 1)) (\<lambda>(c', r). Inr (set_child b c' ins, r))
           | None \<Rightarrow> rbind (insertAndGet_loop i num c (Some (child b q)) maxXor) (\<lambda>(c', r). Inr (set_child b c' ins, r))))"

definition insertAndGetMaxXOR :: "bnode \<Rightarrow> 32 word \<Rightarrow> (bnode \<times> 32 word) res" where
  "insertAndGetMaxXOR root num = insertAndGet_loop 32 num root None 0"

fun findMaximumXOR_loop :: "32 word list \<Rightarrow> bnode \<Rightarrow> int \<Rightarrow> int res" where
  "findMaximumXOR_loop [] trie maxResult = Inr maxResult"
| "findMaximumXOR_loop (num # nums) trie maxResult =
     rbind (insertAndGetMaxXOR trie num) (\<lambda>(trie, r). findMaximumXOR_loop nums trie (max maxResult (sint r)))"

definition findMaximumXOR :: "32 word list \<Rightarrow> int res" where
  "findMaximumXOR nums = findMaximumXOR_loop nums new_bnode 0"

definition maxXOR_main :: "int res" where
  "maxXOR_main = findMaximumXOR [3, 10, 5, 25, 2, 8]"

section \<open>What a trie holds\<close>

lemma child_set_child [simp]: "child b' (set_child b c n) = (if b' = b then Some c else child b' n)"
  by (auto simp: child_def set_child_def)

lemma child_new [simp]: "child b new_bnode = None"
  by (simp add: child_def new_bnode_def)

text \<open>Whether the low \<open>i\<close> bits of \<open>x\<close> are a path of the tree.\<close>

fun has :: "nat \<Rightarrow> bnode \<Rightarrow> 32 word \<Rightarrow> bool" where
  "has 0 n x \<longleftrightarrow> True"
| "has (Suc i) n x \<longleftrightarrow> (case child (bit x i) n of None \<Rightarrow> False | Some c \<Rightarrow> has i c x)"

text \<open>Every node below the root can be extended to a full path.\<close>

fun full :: "nat \<Rightarrow> bnode \<Rightarrow> bool" where
  "full 0 n \<longleftrightarrow> True"
| "full (Suc i) n \<longleftrightarrow> (\<exists>b. child b n \<noteq> None) \<and> (\<forall>b c. child b n = Some c \<longrightarrow> full i c)"

definition rooted :: "nat \<Rightarrow> bnode \<Rightarrow> bool" where
  "rooted i n \<longleftrightarrow> n = new_bnode \<or> full i n"

lemma has_cong: "(\<And>j. j < i \<Longrightarrow> bit x j = bit y j) \<Longrightarrow> has i n x = has i n y"
  by (induction i arbitrary: n) (auto split: option.splits)

lemma full_insert: "rooted i n \<Longrightarrow> full i (bt_insert i num n)"
proof (induction i arbitrary: n)
  case (Suc i)
  let ?b = "bit num i"
  define c where "c = (case child ?b n of None \<Rightarrow> new_bnode | Some c \<Rightarrow> c)"
  have "rooted i c" using Suc.prems by (auto simp: c_def rooted_def split: option.splits)
  from Suc.IH [OF this] Suc.prems show ?case by (auto simp: Let_def c_def [symmetric] rooted_def)
qed simp

lemma has_insert:
  "rooted i n \<Longrightarrow> has i (bt_insert i num n) x \<longleftrightarrow> (\<forall>j<i. bit x j = bit num j) \<or> has i n x"
proof (induction i arbitrary: n)
  case (Suc i)
  let ?b = "bit num i"
  define c where "c = (case child ?b n of None \<Rightarrow> new_bnode | Some c \<Rightarrow> c)"
  have "rooted i c" using Suc.prems by (auto simp: c_def rooted_def split: option.splits)
  note IH = Suc.IH [OF this]
  have ins: "child (bit x i) (bt_insert (Suc i) num n) = (if bit x i = ?b then Some (bt_insert i num c) else child (bit x i) n)"
    by (simp add: Let_def c_def)
  show ?case
  proof (cases "bit x i = ?b")
    case False
    then show ?thesis using ins by (auto simp del: bt_insert.simps)
  next
    case True
    have "has i new_bnode x \<longleftrightarrow> i = 0" by (cases i) simp_all
    then have "(\<forall>j<i. bit x j = bit num j) \<or> has i c x \<longleftrightarrow> (\<forall>j<i. bit x j = bit num j) \<or> has (Suc i) n x"
      using True by (cases "child ?b n") (auto simp: c_def)
    moreover have "has (Suc i) (bt_insert (Suc i) num n) x \<longleftrightarrow> has i (bt_insert i num c) x"
      using True ins by (simp del: bt_insert.simps)
    moreover have "(\<forall>j<Suc i. bit x j = bit num j) \<longleftrightarrow> (\<forall>j<i. bit x j = bit num j)"
      using True by (auto simp: less_Suc_eq)
    ultimately show ?thesis using IH by blast
  qed
qed simp

text \<open>The combined walk inserts and then queries.\<close>

lemma insertAndGet_diverged:
  "insertAndGet_loop i num ins (Some q) acc =
     rbind (getMaxXOR_loop i num q acc) (\<lambda>r. Inr (bt_insert i num ins, r))"
proof (induction i arbitrary: ins q acc)
  case (Suc i)
  show ?case
  proof (cases q)
    case (Some n)
    then show ?thesis
      by (cases "child (\<not> bit num i) n") (auto simp: Suc.IH Let_def rbind_assoc)
  qed simp
qed simp

lemma insertAndGet_together:
  "insertAndGet_loop i num n None acc =
     rbind (getMaxXOR_loop i num (Some (bt_insert i num n)) acc) (\<lambda>r. Inr (bt_insert i num n, r))"
proof (induction i arbitrary: n acc)
  case (Suc i)
  show ?case
    by (cases "child (\<not> bit num i) n") (auto simp: Suc.IH insertAndGet_diverged Let_def rbind_assoc)
qed simp

section \<open>The query finds the largest exclusive or\<close>

lemma take_bit_step_bits: "take_bit (Suc i) (w :: 32 word) = (if bit w i then push_bit i 1 else 0) OR take_bit i w"
  by (rule bit_eqI) (auto simp: bit_simps less_Suc_eq)

lemma uint_take_bit_step: "uint (take_bit (Suc i) (w :: 32 word)) = 2 ^ i * of_bool (bit w i) + uint (take_bit i w)"
  by (simp add: unsigned_take_bit_eq take_bit_Suc_from_most bit_uint_iff) (auto dest: bit_imp_le_length)

lemma uint_take_bit_less: "uint (take_bit i (w :: 32 word)) < 2 ^ i"
  by (simp add: unsigned_take_bit_eq)

lemma take_bit_less_top:
  fixes v w :: "32 word"
  assumes "bit w i" "\<not> bit v i"
  shows "take_bit (Suc i) v \<le> take_bit (Suc i) w"
proof -
  have "uint (take_bit i v) \<le> 2 ^ i + uint (take_bit i w)"
    using uint_take_bit_less [of i v] uint_ge_0 [of "take_bit i w"] by linarith
  with assms show ?thesis by (simp add: word_le_def uint_take_bit_step)
qed

lemma take_bit_le_same_top:
  fixes v w :: "32 word"
  assumes "bit w i = bit v i" "take_bit i v \<le> take_bit i w"
  shows "take_bit (Suc i) v \<le> take_bit (Suc i) w"
  using assms by (simp add: word_le_def uint_take_bit_step)

definition best :: "nat \<Rightarrow> bnode \<Rightarrow> 32 word \<Rightarrow> 32 word \<Rightarrow> bool" where
  "best i n num x \<longleftrightarrow> has i n x \<and> (\<forall>y. has i n y \<longrightarrow> take_bit i (y XOR num) \<le> take_bit i (x XOR num))"

text \<open>A word with the given bits below \<open>i\<close> and a chosen bit \<open>i\<close>.\<close>

lemma word_with_top:
  fixes x :: "32 word"
  assumes "i < 32"
  shows "\<exists>x' :: 32 word. bit x' i = b \<and> (\<forall>j<i. bit x' j = bit x j)"
  using assms by (intro exI [of _ "if b then set_bit i x else unset_bit i x"]) (auto simp: bit_simps)

lemma take_bit_xor_cong:
  "(\<And>j. j < i \<Longrightarrow> bit x' j = bit x j) \<Longrightarrow> take_bit i (x' XOR num) = take_bit i (x XOR (num :: 32 word))"
  by (rule bit_eqI) (auto simp: bit_simps)

text \<open>A best word below a child, preferred by the query, is a best word of the node.\<close>

lemma best_child:
  assumes "i < 32" and c: "child b n = Some c" and best: "best i c num x"
    and pref: "b = (\<not> bit num i) \<or> child (\<not> bit num i) n = None"
  obtains x' where "best (Suc i) n num x'"
    "take_bit (Suc i) (x' XOR num) = (if b = bit num i then 0 else push_bit i 1) OR take_bit i (x XOR num)"
proof -
  obtain x' :: "32 word" where x0: "bit x' i = b" "\<forall>j<i. bit x' j = bit x j"
    using word_with_top [OF \<open>i < 32\<close>, of b x] by blast
  have x': "bit x' i = b" "\<And>j. j < i \<Longrightarrow> bit x' j = bit x j" using x0 by auto
  have low: "take_bit i (x' XOR num) = take_bit i (x XOR num)" using x'(2) by (rule take_bit_xor_cong)
  have "has i c x'" using best has_cong [of i x' x c] x'(2) by (simp add: best_def)
  then have has: "has (Suc i) n x'" using c x'(1) by simp
  have "take_bit (Suc i) (y XOR num) \<le> take_bit (Suc i) (x' XOR num)" if y: "has (Suc i) n y" for y
  proof (cases "bit y i = b")
    case True
    then have "has i c y" using y c by simp
    then have "take_bit i (y XOR num) \<le> take_bit i (x' XOR num)" using best low by (simp add: best_def)
    then show ?thesis using True x'(1) by (intro take_bit_le_same_top) (simp_all add: bit_simps)
  next
    case False
    then have "b = (\<not> bit num i)" using pref y by (auto split: option.splits)
    then show ?thesis using False x'(1) by (intro take_bit_less_top) (auto simp: bit_simps)
  qed
  with has have "best (Suc i) n num x'" by (simp add: best_def)
  moreover have "take_bit (Suc i) (x' XOR num) = (if b = bit num i then 0 else push_bit i 1) OR take_bit i (x XOR num)"
    unfolding take_bit_step_bits low using x'(1) by (auto simp: bit_xor_iff)
  ultimately show thesis by (rule that)
qed

lemma getMaxXOR_loop_best:
  assumes "full i n" "i \<le> 32"
  shows "\<exists>x. best i n num x \<and> getMaxXOR_loop i num (Some n) acc = Inr (acc OR take_bit i (x XOR num))"
  using assms
proof (induction i arbitrary: n acc)
  case 0
  show ?case by (simp add: best_def)
next
  case (Suc i)
  show ?case
  proof (cases "child (\<not> bit num i) n")
    case (Some c)
    then have "full i c" using Suc.prems by auto
    then obtain x where x: "best i c num x"
      "getMaxXOR_loop i num (Some c) (acc OR push_bit i 1) = Inr ((acc OR push_bit i 1) OR take_bit i (x XOR num))"
      using Suc by force
    obtain x' where "best (Suc i) n num x'"
      "take_bit (Suc i) (x' XOR num) = push_bit i 1 OR take_bit i (x XOR num)"
      using best_child [OF _ Some x(1)] Suc.prems by auto
    with x(2) Some show ?thesis by (intro exI [of _ x']) (simp add: Let_def or.assoc)
  next
    case None
    then obtain c where c: "child (bit num i) n = Some c" using Suc.prems by (cases "bit num i") (auto simp: ex_bool_eq)
    then have "full i c" using Suc.prems by auto
    then obtain x where x: "best i c num x"
      "getMaxXOR_loop i num (Some c) acc = Inr (acc OR take_bit i (x XOR num))"
      using Suc by force
    obtain x' where "best (Suc i) n num x'" "take_bit (Suc i) (x' XOR num) = take_bit i (x XOR num)"
      using best_child [OF _ c x(1)] Suc.prems None by auto
    with x(2) c None show ?thesis by (intro exI [of _ x']) (simp add: Let_def)
  qed
qed

lemma take_bit_32 [simp]: "take_bit 32 (w :: 32 word) = w"
  by (rule bit_eqI) (auto simp: bit_simps dest: bit_imp_le_length)

lemma insertAndGetMaxXOR_best:
  assumes "rooted 32 n"
  obtains n' x where "insertAndGetMaxXOR n num = Inr (n', x XOR num)" "full 32 n'" "best 32 n' num x"
    "\<And>y. has 32 n' y \<longleftrightarrow> y = num \<or> has 32 n y"
proof -
  have f: "full 32 (bt_insert 32 num n)" using full_insert [OF assms] .
  obtain x where "best 32 (bt_insert 32 num n) num x" "getMaxXOR_loop 32 num (Some (bt_insert 32 num n)) 0 = Inr (x XOR num)"
    using getMaxXOR_loop_best [OF f, of num 0] by auto
  moreover have "has 32 (bt_insert 32 num n) y \<longleftrightarrow> y = num \<or> has 32 n y" for y
  proof -
    have "(\<forall>j<32. bit y j = bit num j) \<longleftrightarrow> y = num" by (auto intro!: bit_eqI dest: bit_imp_le_length)
    with has_insert [OF assms, of num y] show ?thesis by simp
  qed
  ultimately show thesis using f that unfolding insertAndGetMaxXOR_def insertAndGet_together by auto
qed

section \<open>Numbers of one sign\<close>

lemma sint_one_sign:
  fixes x y :: "32 word"
  assumes "bit x 31 = bit y 31"
  shows "sint (x XOR y) = uint (x XOR y)"
proof -
  have "\<not> bit (x XOR y) 31" using assms by (simp add: bit_xor_iff)
  then have "0 \<le> sint (x XOR y)" using bit_last_iff [of "x XOR y"] by simp
  moreover have "uint (x XOR y) = sint (x XOR y) mod 2 ^ 32" by (simp add: uint_sint take_bit_eq_mod)
  moreover have "sint (x XOR y) < 2 ^ 32" using sint_lt [of "x XOR y"] by simp
  ultimately show ?thesis by simp
qed

text \<open>\<open>m\<close> is the largest exclusive or of two numbers of \<open>S\<close>, or 0 when \<open>S\<close> is empty.\<close>

definition max_xor_of :: "32 word set \<Rightarrow> int \<Rightarrow> bool" where
  "max_xor_of S m \<longleftrightarrow> (\<forall>x\<in>S. \<forall>y\<in>S. uint (x XOR y) \<le> m) \<and> (if S = {} then m = 0 else \<exists>x\<in>S. \<exists>y\<in>S. uint (x XOR y) = m)"

lemma max_xor_of_insert:
  assumes m: "max_xor_of S m" and x: "x \<in> insert a S" and best: "\<And>y. y \<in> insert a S \<Longrightarrow> uint (y XOR a) \<le> uint (x XOR a)"
  shows "max_xor_of (insert a S) (max m (uint (x XOR a)))"
proof -
  have "uint (y XOR z) \<le> max m (uint (x XOR a))" if "y \<in> insert a S" "z \<in> insert a S" for y z
    using that m best [of y] best [of z] by (auto simp: max_xor_of_def xor.commute le_max_iff_disj)
  moreover have "\<exists>y\<in>insert a S. \<exists>z\<in>insert a S. uint (y XOR z) = max m (uint (x XOR a))"
  proof (cases "m \<le> uint (x XOR a)")
    case True
    then show ?thesis using x by (intro bexI [of _ x] bexI [of _ a]) (auto simp: max_def)
  next
    case False
    then have "S \<noteq> {}" using m uint_ge_0 [of "x XOR a"] by (auto simp: max_xor_of_def)
    then obtain y z where "y \<in> S" "z \<in> S" "uint (y XOR z) = m" using m by (auto simp: max_xor_of_def)
    then show ?thesis using False by (intro bexI [of _ y] bexI [of _ z]) auto
  qed
  ultimately show ?thesis by (simp add: max_xor_of_def)
qed

lemma findMaximumXOR_loop_correct:
  assumes "rooted 32 t" "\<And>y. has 32 t y \<longleftrightarrow> y \<in> S" "max_xor_of S m" "\<And>x. x \<in> S \<union> set nums \<Longrightarrow> bit x 31 = s"
  shows "\<exists>r. findMaximumXOR_loop nums t m = Inr r \<and> max_xor_of (S \<union> set nums) r"
  using assms
proof (induction nums arbitrary: t S m)
  case (Cons a nums)
  obtain t' x where t': "insertAndGetMaxXOR t a = Inr (t', x XOR a)" "full 32 t'" "best 32 t' a x"
    "\<And>y. has 32 t' y \<longleftrightarrow> y = a \<or> has 32 t y"
    using insertAndGetMaxXOR_best [OF Cons.prems(1)] by blast
  have mem: "has 32 t' y \<longleftrightarrow> y \<in> insert a S" for y using t'(4) Cons.prems(2) by simp
  then have x: "x \<in> insert a S" "\<And>y. y \<in> insert a S \<Longrightarrow> uint (y XOR a) \<le> uint (x XOR a)"
    using t'(3) by (auto simp: best_def word_le_def)
  have "bit x 31 = bit a 31" using x(1) Cons.prems(4) by auto
  then have s: "sint (x XOR a) = uint (x XOR a)" by (rule sint_one_sign)
  have "\<exists>r. findMaximumXOR_loop nums t' (max m (uint (x XOR a))) = Inr r \<and> max_xor_of (insert a S \<union> set nums) r"
    by (rule Cons.IH) (use t'(2) mem max_xor_of_insert [OF Cons.prems(3) x] Cons.prems(4) in \<open>auto simp: rooted_def\<close>)
  then show ?case by (simp add: t'(1) s del: rbind_eq_Inr)
qed simp

text \<open>
  Claim C32: on numbers of one sign \<open>findMaximumXOR\<close> never follows a null pointer and returns the largest exclusive or of two of them
  (a number may be paired with itself), and 0 for the empty vector.
\<close>

theorem findMaximumXOR_correct:
  assumes "\<And>x y. x \<in> set nums \<Longrightarrow> y \<in> set nums \<Longrightarrow> bit x 31 = bit y 31"
  shows "\<exists>r. findMaximumXOR nums = Inr r \<and> max_xor_of (set nums) r"
proof -
  have s: "bit x 31 = bit (hd nums) 31" if "x \<in> set nums" for x
  proof (rule assms [OF that])
    show "hd nums \<in> set nums" using that by (cases nums) simp_all
  qed
  have "\<not> has 32 new_bnode y" for y
    by (cases "32 :: nat") (use has.simps(2) [of 31 new_bnode y] in simp_all)
  then show ?thesis
    using findMaximumXOR_loop_correct [of new_bnode "{}" 0 nums "bit (hd nums) 31"] s
    by (simp add: findMaximumXOR_def rooted_def max_xor_of_def)
qed

theorem findMaximumXOR_correct_witness: "\<exists>r. findMaximumXOR [3, 10, 5, 25, 2, 8] = Inr r \<and> max_xor_of (set [3, 10, 5, 25, 2, 8]) r"
  by (rule findMaximumXOR_correct) (auto simp: bit_numeral_word_iff bit_simps)

text \<open>With a negative number among them the signs decide: bit 31 of the exclusive or is set, so the result of the walk is negative.\<close>

lemma findMaximumXOR_mixed_signs: "findMaximumXOR [-1, 0, 1] = Inr 0"
  by code_simp

lemma maxXOR_main_value: "maxXOR_main = Inr 28"
  by code_simp

end
