(* ===== verification/Dns_Cache.thy ===== *)
theory Dns_Cache
  imports Linked_Heap
begin

text \<open>
  \<open>dnsCache/dnsCacheHashMap.cpp\<close>: a DNS cache as a hash table of record chains, with A records, CNAME records and a lookup that
  follows CNAMEs up to a fixed depth. The records are cells of a heap, linked by \<open>next\<close>; \<open>cleanup\<close> frees them and leaves the table as
  it is, so that a later lookup reads freed memory. The clock is a parameter: \<open>now\<close> is the time the insertion reads, \<open>now d\<close> the time
  \<open>resolve\<close> reads at depth \<open>d\<close>. \<open>mem\<close> says whether \<open>malloc\<close> succeeds. Strings are the characters before the terminating NUL. Times
  stay far below the range of \<open>time_t\<close>, so the sum of the time and the lifetime is exact.
\<close>

section \<open>Records and table\<close>

definition TABLE_SIZE :: nat where "TABLE_SIZE = 128"
definition MAX_IPS :: nat where "MAX_IPS = 5"
definition MAX_DOMAIN_LEN :: nat where "MAX_DOMAIN_LEN = 256"
definition MAX_CNAME_DEPTH :: nat where "MAX_CNAME_DEPTH = 5"

datatype record_type = RECORD_A | RECORD_CNAME

record dns_record =
  domain :: string
  rtype :: record_type
  ips :: "string list"
  ip_count :: int
  cname :: string
  expiry :: int
  next_rec :: ptr

record dns_cache =
  dns_table :: "ptr list"
  dns_heap :: "dns_record heap"

definition dns_table_init :: dns_cache where
  "dns_table_init = \<lparr>dns_table = replicate TABLE_SIZE None, dns_heap = empty_heap\<rparr>"

definition schar :: "char \<Rightarrow> int" where
  "schar c = (let z = of_char c in if z < 128 then z else z - 256)"

fun hash_loop :: "string \<Rightarrow> int \<Rightarrow> int" where
  "hash_loop [] h = h"
| "hash_loop (c # str) h = hash_loop str ((h * 31 + schar c) mod 2 ^ 32)"

definition dns_hash :: "string \<Rightarrow> nat" where
  "dns_hash str = nat (hash_loop str 0 mod int TABLE_SIZE)"

text \<open>\<open>strncpy\<close> of \<open>n\<close> characters into a zeroed array that is longer than \<open>n\<close>.\<close>

definition strncpy :: "nat \<Rightarrow> string \<Rightarrow> string" where
  "strncpy n src = take n src"

definition empty_record :: dns_record where
  "empty_record = \<lparr>domain = [], rtype = RECORD_A, ips = replicate MAX_IPS [], ip_count = 0, cname = [], expiry = 0, next_rec = None\<rparr>"

fun copy_ips :: "nat \<Rightarrow> nat \<Rightarrow> string list \<Rightarrow> string list \<Rightarrow> string list res" where
  "copy_ips i 0 src dst = Inr dst"
| "copy_ips i (Suc n) src dst =
     rbind (arr_get src i) (\<lambda>ip. rbind (arr_set dst i (strncpy 15 ip)) (\<lambda>dst. copy_ips (Suc i) n src dst))"

definition push_record :: "dns_cache \<Rightarrow> nat \<Rightarrow> ptr \<Rightarrow> dns_cache res" where
  "push_record d index rec =
     rbind (arr_get (dns_table d) index) (\<lambda>next. rbind (load_obj (dns_heap d) rec) (\<lambda>r.
     rbind (store_obj (dns_heap d) rec (r\<lparr>next_rec := next\<rparr>)) (\<lambda>h.
     rbind (arr_set (dns_table d) index rec) (\<lambda>t. Inr \<lparr>dns_table = t, dns_heap = h\<rparr>))))"

text \<open>The record is allocated and zeroed, its fields are set, and it becomes the head of its chain.\<close>

definition insert_a_record :: "bool \<Rightarrow> int \<Rightarrow> dns_cache \<Rightarrow> string \<Rightarrow> string list \<Rightarrow> int \<Rightarrow> int \<Rightarrow> dns_cache res" where
  "insert_a_record mem now d host src count ttl_seconds =
     (let index = dns_hash host in
      if \<not> mem then Inr d
      else let (rec, h) = new_obj empty_record (dns_heap d); n = (if count > int MAX_IPS then int MAX_IPS else count) in
        rbind (copy_ips 0 (nat n) src (ips empty_record)) (\<lambda>copied.
        rbind (store_obj h (Some rec) (empty_record\<lparr>domain := strncpy (MAX_DOMAIN_LEN - 1) host, rtype := RECORD_A, ip_count := n,
          ips := copied, expiry := now + ttl_seconds\<rparr>)) (\<lambda>h.
        push_record (d\<lparr>dns_heap := h\<rparr>) index (Some rec))))"

definition insert_cname_record :: "bool \<Rightarrow> int \<Rightarrow> dns_cache \<Rightarrow> string \<Rightarrow> string \<Rightarrow> int \<Rightarrow> dns_cache res" where
  "insert_cname_record mem now d host target ttl_seconds =
     (let index = dns_hash host in
      if \<not> mem then Inr d
      else let (rec, h) = new_obj empty_record (dns_heap d) in
        rbind (store_obj h (Some rec) (empty_record\<lparr>domain := strncpy (MAX_DOMAIN_LEN - 1) host, rtype := RECORD_CNAME,
          cname := strncpy (MAX_DOMAIN_LEN - 1) target, expiry := now + ttl_seconds\<rparr>)) (\<lambda>h.
        push_record (d\<lparr>dns_heap := h\<rparr>) index (Some rec)))"

partial_function (option) find_chain :: "dns_record heap \<Rightarrow> string \<Rightarrow> ptr \<Rightarrow> ptr res option" where
  "find_chain h host cur =
     (if cur = None then Some (Inr None)
      else case load_obj h cur of Inl e \<Rightarrow> Some (Inl e)
        | Inr rec \<Rightarrow> if domain rec = host then Some (Inr cur) else find_chain h host (next_rec rec))"

definition find_record :: "dns_cache \<Rightarrow> string \<Rightarrow> ptr res option" where
  "find_record d host = obind (Some (arr_get (dns_table d) (dns_hash host))) (find_chain (dns_heap d) host)"

section \<open>Resolution\<close>

datatype dns_line =
    LoopDetected
  | NoRecord string
  | RecordExpired string
  | ARecordFor string
  | Ip string
  | CnameFor string string

fun print_ips :: "nat \<Rightarrow> nat \<Rightarrow> string list \<Rightarrow> dns_line list res" where
  "print_ips i 0 xs = Inr []"
| "print_ips i (Suc n) xs = rbind (arr_get xs i) (\<lambda>ip. rbind (print_ips (Suc i) n xs) (\<lambda>out. Inr (Ip ip # out)))"

function dns_resolve :: "(nat \<Rightarrow> int) \<Rightarrow> dns_cache \<Rightarrow> string \<Rightarrow> nat \<Rightarrow> (int \<times> dns_line list) res option" where
  "dns_resolve now d host depth =
     (if depth > MAX_CNAME_DEPTH then Some (Inr (0, [LoopDetected]))
      else obind (find_record d host) (\<lambda>p.
        if p = None then Some (Inr (0, [NoRecord host]))
        else obind (Some (load_obj (dns_heap d) p)) (\<lambda>rec.
            if now depth > expiry rec then Some (Inr (0, [RecordExpired host]))
            else if rtype rec = RECORD_A then
              obind (Some (print_ips 0 (nat (ip_count rec)) (ips rec))) (\<lambda>out. Some (Inr (1, ARecordFor host # out)))
            else obind (dns_resolve now d (cname rec) (depth + 1)) (\<lambda>(r, out). Some (Inr (r, CnameFor host (cname rec) # out))))))"
  by pat_completeness auto
termination
  by (relation "measure (\<lambda>(now, d, host, depth). Suc MAX_CNAME_DEPTH - depth)") auto

text \<open>\<open>cleanup\<close>: the record is freed once its \<open>next\<close> has been read.\<close>

partial_function (option) free_chain :: "dns_record heap \<Rightarrow> ptr \<Rightarrow> dns_record heap res option" where
  "free_chain h cur =
     (if cur = None then Some (Inr h)
      else case load_obj h cur of Inl e \<Rightarrow> Some (Inl e)
        | Inr rec \<Rightarrow> (case delete_obj h cur of Inl e \<Rightarrow> Some (Inl e) | Inr h \<Rightarrow> free_chain h (next_rec rec)))"

fun dns_cleanup_loop :: "ptr list \<Rightarrow> nat \<Rightarrow> nat \<Rightarrow> dns_record heap \<Rightarrow> dns_record heap res option" where
  "dns_cleanup_loop t i 0 h = Some (Inr h)"
| "dns_cleanup_loop t i (Suc n) h =
     obind (Some (arr_get t i)) (\<lambda>cur. obind (free_chain h cur) (\<lambda>h. dns_cleanup_loop t (Suc i) n h))"

definition dns_cleanup :: "dns_cache \<Rightarrow> dns_cache res option" where
  "dns_cleanup d = obind (dns_cleanup_loop (dns_table d) 0 TABLE_SIZE (dns_heap d)) (\<lambda>h. Some (Inr (d\<lparr>dns_heap := h\<rparr>)))"

declare find_chain.simps [code] free_chain.simps [code]

definition dnsCacheHashMap_main :: "int \<Rightarrow> (nat \<Rightarrow> int) \<Rightarrow> (dns_line list \<times> dns_cache) res option" where
  "dnsCacheHashMap_main now0 now =
     obind (Some (insert_a_record True now0 dns_table_init ''server.com'' [''1.1.1.1'', ''1.1.1.2''] 2 60)) (\<lambda>d.
     obind (Some (insert_cname_record True now0 d ''www.server.com'' ''server.com'' 60)) (\<lambda>d.
     obind (dns_resolve now d ''www.server.com'' 0) (\<lambda>(r, out).
     obind (dns_cleanup d) (\<lambda>d. Some (Inr (out, d))))))"

section \<open>Chains of records\<close>

text \<open>\<open>dpath c p as\<close>: following \<open>next\<close> from \<open>p\<close> visits the records \<open>as\<close> and ends in null.\<close>

fun dpath :: "(addr \<Rightarrow> dns_record option) \<Rightarrow> ptr \<Rightarrow> addr list \<Rightarrow> bool" where
  "dpath c p [] \<longleftrightarrow> p = None"
| "dpath c p (a # as) \<longleftrightarrow> p = Some a \<and> (case c a of None \<Rightarrow> False | Some r \<Rightarrow> dpath c (next_rec r) as)"

lemma dpath_cong: "(\<And>a. a \<in> set as \<Longrightarrow> c a = c' a) \<Longrightarrow> dpath c p as = dpath c' p as"
  by (induction as arbitrary: p) (auto split: option.splits)

lemma dpath_upd [simp]: "a \<notin> set as \<Longrightarrow> dpath (c(a := x)) p as = dpath c p as"
  by (rule dpath_cong) auto

lemma dpath_restrict: "set as \<inter> A = {} \<Longrightarrow> dpath (c |` (- A)) p as = dpath c p as"
  by (rule dpath_cong) (auto simp: restrict_map_def)

lemma find_chain_path:
  "dpath (cells h) p as \<Longrightarrow> find_chain h host p = Some (Inr (List.find (\<lambda>a. domain (the (cells h a)) = host) as))"
  by (induction as arbitrary: p) (auto simp: find_chain.simps split: option.splits)

lemma free_chain_path:
  "dpath (cells h) p as \<Longrightarrow> distinct as \<Longrightarrow> free_chain h p = Some (Inr (h\<lparr>cells := cells h |` (- set as)\<rparr>))"
proof (induction as arbitrary: p h)
  case Nil
  then show ?case by (simp add: free_chain.simps)
next
  case (Cons a as)
  then obtain r where r: "p = Some a" "cells h a = Some r" "dpath (cells h) (next_rec r) as" by (auto split: option.splits)
  let ?h = "h\<lparr>cells := (cells h)(a := None)\<rparr>"
  have cells: "cells ?h = (cells h)(a := None)" by simp
  have "dpath (cells ?h) (next_rec r) as" unfolding cells using r(3) Cons.prems(2) by simp
  then have "free_chain ?h (next_rec r) = Some (Inr (?h\<lparr>cells := cells ?h |` (- set as)\<rparr>))"
    by (rule Cons.IH) (use Cons.prems(2) in simp)
  moreover have "cells ?h |` (- set as) = cells h |` (- set (a # as))" by (auto simp: restrict_map_def fun_eq_iff)
  moreover have "free_chain h p = free_chain ?h (next_rec r)" using r by (simp add: free_chain.simps [of h])
  ultimately show ?case by simp
qed

lemma dns_cleanup_loop_path:
  assumes "\<forall>j. i \<le> j \<and> j < i + n \<longrightarrow> dpath (cells h) (t ! j) (chs j) \<and> distinct (chs j)" "i + n \<le> length t"
    "\<forall>j k. j < i + n \<and> k < i + n \<and> j \<noteq> k \<longrightarrow> set (chs j) \<inter> set (chs k) = {}"
  shows "dns_cleanup_loop t i n h = Some (Inr (h\<lparr>cells := cells h |` (- (\<Union>j\<in>{i..<i + n}. set (chs j)))\<rparr>))"
  using assms
proof (induction n arbitrary: i h)
  case 0
  then show ?case by simp
next
  case (Suc n)
  let ?h = "h\<lparr>cells := cells h |` (- set (chs i))\<rparr>"
  have "dpath (cells ?h) (t ! j) (chs j)" if "Suc i \<le> j" "j < Suc i + n" for j
  proof -
    have "set (chs j) \<inter> set (chs i) = {}" using Suc.prems(3) that by auto
    then show ?thesis using Suc.prems(1) that by (simp add: dpath_restrict)
  qed
  then have "dns_cleanup_loop t (Suc i) n ?h = Some (Inr (?h\<lparr>cells := cells ?h |` (- (\<Union>j\<in>{Suc i..<Suc i + n}. set (chs j)))\<rparr>))"
    using Suc.prems by (intro Suc.IH) auto
  moreover have "free_chain h (t ! i) = Some (Inr ?h)" using Suc.prems(1) by (intro free_chain_path) auto
  moreover have "{i..<i + Suc n} = insert i {Suc i..<Suc i + n}" by auto
  ultimately show ?case using Suc.prems(2) by (simp add: Int_commute)
qed

section \<open>The table is a map of the latest records\<close>

definition dns_rep :: "dns_cache \<Rightarrow> (nat \<Rightarrow> addr list) \<Rightarrow> bool" where
  "dns_rep d chs \<longleftrightarrow> length (dns_table d) = TABLE_SIZE \<and> heap_ok (dns_heap d) \<and>
     (\<forall>i<TABLE_SIZE. dpath (cells (dns_heap d)) (dns_table d ! i) (chs i) \<and> distinct (chs i)) \<and>
     (\<forall>i<TABLE_SIZE. \<forall>j<TABLE_SIZE. i \<noteq> j \<longrightarrow> set (chs i) \<inter> set (chs j) = {}) \<and>
     dom (cells (dns_heap d)) = (\<Union>i\<in>{0..<TABLE_SIZE}. set (chs i)) \<and>
     (\<forall>a r. cells (dns_heap d) a = Some r \<longrightarrow> length (domain r) < MAX_DOMAIN_LEN \<and> length (ips r) = MAX_IPS \<and> ip_count r \<le> int MAX_IPS)"

definition dns_inv :: "dns_cache \<Rightarrow> bool" where
  "dns_inv d \<longleftrightarrow> (\<exists>chs. dns_rep d chs)"

text \<open>The record that a lookup returns, without its \<open>next\<close> pointer.\<close>

definition bare :: "dns_record \<Rightarrow> dns_record" where
  "bare r = r\<lparr>next_rec := None\<rparr>"

definition found :: "dns_cache \<Rightarrow> string \<Rightarrow> dns_record option res option" where
  "found d host = obind (find_record d host) (\<lambda>p.
     if p = None then Some (Inr None) else obind (Some (load_obj (dns_heap d) p)) (\<lambda>r. Some (Inr (Some (bare r)))))"

lemma bare_fields [simp]:
  "domain (bare r) = domain r" "rtype (bare r) = rtype r" "ips (bare r) = ips r" "ip_count (bare r) = ip_count r"
  "cname (bare r) = cname r" "expiry (bare r) = expiry r"
  by (simp_all add: bare_def)

lemma dns_hash_less [simp]: "dns_hash host < TABLE_SIZE"
  by (simp add: dns_hash_def TABLE_SIZE_def)

lemma dns_inv_init [simp]: "dns_inv dns_table_init"
  unfolding dns_inv_def by (rule exI [of _ "\<lambda>_. []"]) (simp add: dns_rep_def dns_table_init_def, simp add: empty_heap_def)

lemma find_record_rep:
  assumes "dns_rep d chs"
  shows "find_record d host = Some (Inr (List.find (\<lambda>a. domain (the (cells (dns_heap d) a)) = host) (chs (dns_hash host))))"
proof -
  have "dpath (cells (dns_heap d)) (dns_table d ! dns_hash host) (chs (dns_hash host))" using assms by (simp add: dns_rep_def)
  from find_chain_path [OF this] show ?thesis using assms by (simp add: find_record_def dns_rep_def)
qed

lemma dns_rep_dom: "dns_rep d chs \<Longrightarrow> a \<in> set (chs (dns_hash host)) \<Longrightarrow> a \<in> dom (cells (dns_heap d))"
  by (auto simp: dns_rep_def intro!: bexI [of _ "dns_hash host"])

lemma find_record_ok:
  assumes "dns_inv d"
  obtains (none) "find_record d host = Some (Inr None)" "found d host = Some (Inr None)"
  | (rec) a r where "find_record d host = Some (Inr (Some a))" "load_obj (dns_heap d) (Some a) = Inr r" "found d host = Some (Inr (Some (bare r)))"
    "domain r = host" "length host < MAX_DOMAIN_LEN" "length (ips r) = MAX_IPS" "ip_count r \<le> int MAX_IPS"
proof -
  obtain chs where rep: "dns_rep d chs" using assms by (auto simp: dns_inv_def)
  let ?P = "\<lambda>a. domain (the (cells (dns_heap d) a)) = host"
  show thesis
  proof (cases "List.find ?P (chs (dns_hash host))")
    case None
    then show thesis using none find_record_rep [OF rep, of host] by (simp add: found_def)
  next
    case (Some a)
    then have a: "a \<in> set (chs (dns_hash host))" "?P a" by (auto simp: find_Some_iff)
    from dns_rep_dom [OF rep a(1)] obtain r where r: "cells (dns_heap d) a = Some r" by auto
    have "length (domain r) < MAX_DOMAIN_LEN \<and> length (ips r) = MAX_IPS \<and> ip_count r \<le> int MAX_IPS"
      using rep r unfolding dns_rep_def by blast
    then show thesis using rec [of a r] a(2) r Some find_record_rep [OF rep, of host] by (simp add: found_def)
  qed
qed

text \<open>The cache after a new record \<open>r\<close> has become the head of its chain.\<close>

definition pushed :: "dns_cache \<Rightarrow> nat \<Rightarrow> dns_record \<Rightarrow> dns_cache" where
  "pushed d i r = (let h = dns_heap d in
     \<lparr>dns_table = (dns_table d)[i := Some (brk h)],
      dns_heap = h\<lparr>cells := (cells h)(brk h \<mapsto> r\<lparr>next_rec := dns_table d ! i\<rparr>), brk := Suc (brk h)\<rparr>\<rparr>)"

lemma new_record_pushed:
  assumes "length (dns_table d) = TABLE_SIZE" "i < TABLE_SIZE" "new_obj empty_record (dns_heap d) = (a, h)"
  shows "rbind (store_obj h (Some a) r) (\<lambda>h. push_record (d\<lparr>dns_heap := h\<rparr>) i (Some a)) = Inr (pushed d i r)"
  using assms by (auto simp: new_obj_def push_record_def pushed_def Let_def)

lemma pushed_rep:
  assumes rep: "dns_rep d chs" and i: "i < TABLE_SIZE"
    and r: "length (domain r) < MAX_DOMAIN_LEN" "length (ips r) = MAX_IPS" "ip_count r \<le> int MAX_IPS"
  shows "dns_rep (pushed d i r) (chs(i := brk (dns_heap d) # chs i))"
proof -
  let ?a = "brk (dns_heap d)" and ?c = "cells (dns_heap d)" and ?r = "r\<lparr>next_rec := dns_table d ! i\<rparr>"
  have fresh: "?a \<notin> set (chs j)" if "j < TABLE_SIZE" for j
  proof
    assume "?a \<in> set (chs j)"
    then have "?a \<in> dom ?c" using rep that unfolding dns_rep_def by auto
    then show False using rep by (simp add: dns_rep_def domIff)
  qed
  have path: "dpath (?c(?a \<mapsto> ?r)) (dns_table d ! j) (chs j)" if "j < TABLE_SIZE" for j
    using rep that fresh [OF that] by (simp add: dns_rep_def)
  have len: "length (dns_table d) = TABLE_SIZE" and dom: "dom ?c = (\<Union>i\<in>{0..<TABLE_SIZE}. set (chs i))" and ok: "heap_ok (dns_heap d)"
    using rep by (simp_all add: dns_rep_def)
  have "dom (?c(?a \<mapsto> ?r)) = (\<Union>j\<in>{0..<TABLE_SIZE}. set ((chs(i := ?a # chs i)) j))"
    using i by (auto simp: dom split: if_splits)
  moreover have "\<forall>j<TABLE_SIZE. \<forall>k<TABLE_SIZE. j \<noteq> k \<longrightarrow> set ((chs(i := ?a # chs i)) j) \<inter> set ((chs(i := ?a # chs i)) k) = {}"
    using rep fresh by (auto simp: dns_rep_def)
  moreover have "\<forall>j<TABLE_SIZE. dpath (?c(?a \<mapsto> ?r)) ((dns_table d)[i := Some ?a] ! j) ((chs(i := ?a # chs i)) j) \<and> distinct ((chs(i := ?a # chs i)) j)"
    using rep fresh path i len by (auto simp: dns_rep_def nth_list_update)
  moreover have "\<forall>a r'. (?c(?a \<mapsto> ?r)) a = Some r' \<longrightarrow> length (domain r') < MAX_DOMAIN_LEN \<and> length (ips r') = MAX_IPS \<and> ip_count r' \<le> int MAX_IPS"
    using rep r by (auto simp: dns_rep_def)
  ultimately show ?thesis using len ok unfolding dns_rep_def pushed_def Let_def by simp
qed

lemma found_pushed:
  assumes rep: "dns_rep d chs"
    and r: "length (domain r) < MAX_DOMAIN_LEN" "length (ips r) = MAX_IPS" "ip_count r \<le> int MAX_IPS" "domain r = host"
  shows "found (pushed d (dns_hash host) r) host' = (if host' = host then Some (Inr (Some (bare r))) else found d host')"
proof -
  let ?i = "dns_hash host" and ?a = "brk (dns_heap d)" and ?c = "cells (dns_heap d)" and ?r = "r\<lparr>next_rec := dns_table d ! dns_hash host\<rparr>"
  have old: "?a \<notin> set (chs (dns_hash host'))"
  proof
    assume "?a \<in> set (chs (dns_hash host'))"
    from dns_rep_dom [OF rep this] show False using rep by (simp add: dns_rep_def domIff)
  qed
  have cells: "cells (dns_heap (pushed d ?i r)) = ?c(?a \<mapsto> ?r)" by (simp add: pushed_def Let_def)
  have same: "List.find (\<lambda>b. domain (the ((?c(?a \<mapsto> ?r)) b)) = host') (chs (dns_hash host')) = List.find (\<lambda>b. domain (the (?c b)) = host') (chs (dns_hash host'))"
    using old by (intro find_cong) auto
  note find = find_record_rep [OF pushed_rep [OF rep dns_hash_less r(1-3)], of host host', unfolded cells]
  show ?thesis
  proof (cases "host' = host")
    case True
    then show ?thesis using find r(4) by (simp add: found_def cells load_obj_def bare_def)
  next
    case False
    let ?P = "\<lambda>b. domain (the ((?c(?a \<mapsto> ?r)) b)) = host'"
    from False have "List.find ?P ((chs(?i := ?a # chs ?i)) (dns_hash host')) = List.find ?P (chs (dns_hash host'))" using r(4) by simp
    then have "find_record (pushed d ?i r) host' = find_record d host'"
      unfolding find find_record_rep [OF rep] same by (simp only:)
    moreover have "load_obj (dns_heap (pushed d ?i r)) (Some b) = load_obj (dns_heap d) (Some b)" if "find_record d host' = Some (Inr (Some b))" for b
    proof -
      have "b \<in> set (chs (dns_hash host'))" using that find_record_rep [OF rep, of host'] by (auto simp: find_Some_iff)
      then have "b \<noteq> ?a" using old by auto
      then show ?thesis by (simp add: load_obj_def cells deref_def)
    qed
    ultimately show ?thesis using False find_record_rep [OF rep, of host']
      by (cases "List.find (\<lambda>b. domain (the (?c b)) = host') (chs (dns_hash host'))") (simp_all add: found_def)
  qed
qed

lemma copy_ips_ok:
  assumes "i + n \<le> length src" "i + n \<le> length dst"
  shows "copy_ips i n src dst = Inr (take i dst @ map (strncpy 15) (take n (drop i src)) @ drop (i + n) dst)"
  using assms
proof (induction n arbitrary: i dst)
  case (Suc n)
  have "take (Suc i) (dst[i := x]) = take i dst @ [x]" for x using Suc.prems by (simp add: take_Suc_conv_app_nth)
  moreover have "take (Suc n) (drop i src) = src ! i # take n (drop (Suc i) src)"
    using Suc.prems by (simp add: Cons_nth_drop_Suc [symmetric])
  ultimately show ?case using Suc.prems Suc.IH [of "Suc i" "dst[i := strncpy 15 (src ! i)]"] by simp
qed simp

definition a_record :: "string \<Rightarrow> string list \<Rightarrow> int \<Rightarrow> dns_record" where
  "a_record host src deadline = \<lparr>domain = host, rtype = RECORD_A,
     ips = map (take 15) (take MAX_IPS src) @ replicate (MAX_IPS - length src) [], ip_count = int (min MAX_IPS (length src)),
     cname = [], expiry = deadline, next_rec = None\<rparr>"

definition cname_record :: "string \<Rightarrow> string \<Rightarrow> int \<Rightarrow> dns_record" where
  "cname_record host target deadline = \<lparr>domain = host, rtype = RECORD_CNAME, ips = replicate MAX_IPS [], ip_count = 0,
     cname = take (MAX_DOMAIN_LEN - 1) target, expiry = deadline, next_rec = None\<rparr>"

lemma insert_pushed:
  assumes "dns_inv d" "ins = Inr (pushed d (dns_hash host) r)" "domain r = host" "length host < MAX_DOMAIN_LEN" "length (ips r) = MAX_IPS"
    "ip_count r \<le> int MAX_IPS" "bare r = r"
  obtains d' where "ins = Inr d'" "dns_inv d'"
    "\<And>host'. found d' host' = (if host' = host then Some (Inr (Some r)) else found d host')"
proof -
  obtain chs where rep: "dns_rep d chs" using assms(1) by (auto simp: dns_inv_def)
  have "dns_inv (pushed d (dns_hash host) r)"
    using pushed_rep [OF rep dns_hash_less] assms(3-6) unfolding dns_inv_def by blast
  then show thesis using that [OF assms(2)] found_pushed [OF rep] assms(3-7) by simp
qed

lemma insert_a_record_ok:
  assumes "dns_inv d" "length host < MAX_DOMAIN_LEN"
  obtains d' where "insert_a_record True now d host src (int (length src)) ttl = Inr d'" "dns_inv d'"
    "\<And>host'. found d' host' = (if host' = host then Some (Inr (Some (a_record host src (now + ttl)))) else found d host')"
proof -
  let ?rec = "a_record host src (now + ttl)" and ?n = "min MAX_IPS (length src)"
  have n: "(if int (length src) > int MAX_IPS then int MAX_IPS else int (length src)) = int ?n" by auto
  have copied: "copy_ips 0 ?n src (ips empty_record) = Inr (ips ?rec)"
    by (subst copy_ips_ok) (auto simp: a_record_def empty_record_def strncpy_def [abs_def] min_def)
  have cp: "strncpy (MAX_DOMAIN_LEN - 1) host = host" using assms(2) by (simp add: strncpy_def MAX_DOMAIN_LEN_def)
  have fields: "empty_record\<lparr>domain := host, rtype := RECORD_A, ip_count := int ?n, ips := ips ?rec, expiry := now + ttl\<rparr> = ?rec"
    by (simp add: empty_record_def a_record_def)
  have len: "length (dns_table d) = TABLE_SIZE" using assms(1) by (auto simp: dns_inv_def dns_rep_def)
  obtain a h where new: "new_obj empty_record (dns_heap d) = (a, h)" by (cases "new_obj empty_record (dns_heap d)")
  have "insert_a_record True now d host src (int (length src)) ttl = Inr (pushed d (dns_hash host) ?rec)"
    unfolding insert_a_record_def Let_def n using copied cp fields new_record_pushed [OF len dns_hash_less [of host] new, of ?rec] new by simp
  moreover have "domain ?rec = host" "length (ips ?rec) = MAX_IPS" "ip_count ?rec \<le> int MAX_IPS" "bare ?rec = ?rec"
    by (auto simp: a_record_def bare_def)
  ultimately show thesis using insert_pushed [OF assms(1) _ _ assms(2), of _ ?rec] that by blast
qed

lemma insert_cname_record_ok:
  assumes "dns_inv d" "length host < MAX_DOMAIN_LEN"
  obtains d' where "insert_cname_record True now d host target ttl = Inr d'" "dns_inv d'"
    "\<And>host'. found d' host' = (if host' = host then Some (Inr (Some (cname_record host target (now + ttl)))) else found d host')"
proof -
  let ?rec = "cname_record host target (now + ttl)"
  have cp: "strncpy (MAX_DOMAIN_LEN - 1) host = host" using assms(2) by (simp add: strncpy_def MAX_DOMAIN_LEN_def)
  have fields: "empty_record\<lparr>domain := host, rtype := RECORD_CNAME, cname := strncpy (MAX_DOMAIN_LEN - 1) target, expiry := now + ttl\<rparr> = ?rec"
    by (simp add: empty_record_def cname_record_def strncpy_def)
  have len: "length (dns_table d) = TABLE_SIZE" using assms(1) by (auto simp: dns_inv_def dns_rep_def)
  obtain a h where new: "new_obj empty_record (dns_heap d) = (a, h)" by (cases "new_obj empty_record (dns_heap d)")
  have "insert_cname_record True now d host target ttl = Inr (pushed d (dns_hash host) ?rec)"
    unfolding insert_cname_record_def using cp fields new_record_pushed [OF len dns_hash_less [of host] new, of ?rec] new by simp
  moreover have "domain ?rec = host" "length (ips ?rec) = MAX_IPS" "ip_count ?rec \<le> int MAX_IPS" "bare ?rec = ?rec"
    by (auto simp: cname_record_def bare_def)
  ultimately show thesis using insert_pushed [OF assms(1) _ _ assms(2), of _ ?rec] that by blast
qed

section \<open>What a resolution finds\<close>

text \<open>\<open>leads_to now m k host n rec\<close>: with the records \<open>m\<close>, from \<open>host\<close>, looked up at depth \<open>k\<close>, \<open>n\<close> live CNAMEs lead to the live A record \<open>rec\<close>.\<close>

inductive leads_to :: "(nat \<Rightarrow> int) \<Rightarrow> (string \<Rightarrow> dns_record option) \<Rightarrow> nat \<Rightarrow> string \<Rightarrow> nat \<Rightarrow> dns_record \<Rightarrow> bool" for now m where
  leads_A: "m host = Some rec \<Longrightarrow> now k \<le> expiry rec \<Longrightarrow> rtype rec = RECORD_A \<Longrightarrow> leads_to now m k host 0 rec"
| leads_CNAME: "m host = Some rec \<Longrightarrow> now k \<le> expiry rec \<Longrightarrow> rtype rec = RECORD_CNAME \<Longrightarrow>
     leads_to now m (Suc k) (cname rec) n rec' \<Longrightarrow> leads_to now m k host (Suc n) rec'"

inductive_cases leads_to_A [elim!]: "leads_to now m k host 0 rec"
inductive_cases leads_to_CNAME [elim!]: "leads_to now m k host (Suc n) rec"

lemma print_ips_ok: "i + n \<le> length xs \<Longrightarrow> print_ips i n xs = Inr (map Ip (take n (drop i xs)))"
  by (induction n arbitrary: i) (simp_all add: Cons_nth_drop_Suc [symmetric])

declare dns_resolve.simps [simp del]

text \<open>The answer 0 or 1 of \<open>resolve\<close> with the lines it prints, as the records determine it.\<close>

definition resolved :: "(nat \<Rightarrow> int) \<Rightarrow> (string \<Rightarrow> dns_record option) \<Rightarrow> nat \<Rightarrow> string \<Rightarrow> int \<Rightarrow> dns_line list \<Rightarrow> bool" where
  "resolved now m k host r out \<longleftrightarrow>
     (r = 0 \<and> (\<forall>n rec. leads_to now m k host n rec \<longrightarrow> MAX_CNAME_DEPTH < k + n)) \<or>
     (\<exists>n rec pre. r = 1 \<and> leads_to now m k host n rec \<and> k + n \<le> MAX_CNAME_DEPTH \<and>
        out = pre @ ARecordFor (domain rec) # map Ip (take (nat (ip_count rec)) (ips rec)))"

lemma resolved_CNAME:
  assumes "resolved now m (Suc k) (cname rec) r out" "m host = Some rec" "now k \<le> expiry rec" "rtype rec = RECORD_CNAME"
  shows "resolved now m k host r (l # out)"
proof -
  have lead: "leads_to now m k host (Suc n) rec' \<longleftrightarrow> leads_to now m (Suc k) (cname rec) n rec'" for n rec'
    using assms(2-4) by (auto intro: leads_CNAME)
  have no: "\<not> leads_to now m k host 0 rec'" for rec' using assms(2-4) by auto
  from assms(1) consider "r = 0" "\<forall>n rec'. leads_to now m (Suc k) (cname rec) n rec' \<longrightarrow> MAX_CNAME_DEPTH < Suc k + n"
    | n rec' pre where "r = 1" "leads_to now m (Suc k) (cname rec) n rec'" "Suc k + n \<le> MAX_CNAME_DEPTH"
      "out = pre @ ARecordFor (domain rec') # map Ip (take (nat (ip_count rec')) (ips rec'))"
    unfolding resolved_def by blast
  then show ?thesis
  proof cases
    case 1
    have "MAX_CNAME_DEPTH < k + n" if "leads_to now m k host n rec'" for n rec'
      using that 1 no lead by (cases n) auto
    then show ?thesis using 1(1) by (simp add: resolved_def)
  next
    case 2
    then have "leads_to now m k host (Suc n) rec'" "k + Suc n \<le> MAX_CNAME_DEPTH"
      "l # out = (l # pre) @ ARecordFor (domain rec') # map Ip (take (nat (ip_count rec')) (ips rec'))" using lead by auto
    then show ?thesis unfolding resolved_def using 2(1) by metis
  qed
qed

lemma dns_resolve_result:
  assumes "dns_inv d" "\<And>host. found d host = Some (Inr (m host))"
  shows "\<exists>r out. dns_resolve now d host k = Some (Inr (r, out)) \<and> resolved now m k host r out"
  using assms
proof (induction now d host k rule: dns_resolve.induct)
  case (1 now d host k)
  show ?case
  proof (cases "MAX_CNAME_DEPTH < k")
    case True
    then show ?thesis by (simp add: dns_resolve.simps [of now d host k] resolved_def)
  next
    case depth: False
    from 1(2) show ?thesis
    proof (cases rule: find_record_ok [where host = host])
      case none
      then have "m host = None" using 1(3) by simp
      then have "\<not> leads_to now m k host n rec" for n rec by (auto elim: leads_to.cases)
      then show ?thesis using none depth by (simp add: dns_resolve.simps [of now d host k] resolved_def)
    next
      case (rec a r)
      then have m: "m host = Some (bare r)" using 1(3) [of host] by simp
      consider "now k > expiry r" | "now k \<le> expiry r" "rtype r = RECORD_A" | "now k \<le> expiry r" "rtype r = RECORD_CNAME"
        by (cases "rtype r") force+
      then show ?thesis
      proof cases
        case 1
        then have "\<not> leads_to now m k host n rec" for n rec using m by (auto elim: leads_to.cases)
        then show ?thesis using rec depth 1 by (simp add: dns_resolve.simps [of now d host k] resolved_def)
      next
        case 2
        have "print_ips 0 (nat (ip_count r)) (ips r) = Inr (map Ip (take (nat (ip_count r)) (ips r)))"
          using rec(6,7) by (subst print_ips_ok) auto
        then have "dns_resolve now d host k = Some (Inr (1, ARecordFor host # map Ip (take (nat (ip_count r)) (ips r))))"
          using rec depth 2 by (simp add: dns_resolve.simps [of now d host k])
        moreover have "leads_to now m k host 0 (bare r)" using m 2 by (auto intro: leads_A)
        ultimately show ?thesis using rec(4) depth unfolding resolved_def
          by (intro exI [of _ 1] exI [of _ "ARecordFor host # map Ip (take (nat (ip_count r)) (ips r))"] conjI disjI2
              exI [of _ 0] exI [of _ "bare r"] exI [of _ "[]"]) simp_all
      next
        case 3
        have "Some a \<noteq> None" "Some (load_obj (dns_heap d) (Some a)) = Some (Inr r)" "\<not> expiry r < now k" "rtype r \<noteq> RECORD_A" using rec 3 by auto
        from "1.IH" [OF depth rec(1) this(1,2,3,4) "1.prems"] obtain s out
          where s: "dns_resolve now d (cname r) (k + 1) = Some (Inr (s, out))" "resolved now m (k + 1) (cname r) s out" by blast
        then have "dns_resolve now d host k = Some (Inr (s, CnameFor host (cname r) # out))"
          using rec depth 3 by (simp add: dns_resolve.simps [of now d host k])
        moreover have "resolved now m k host s (CnameFor host (cname r) # out)"
          using s(2) m 3 by (intro resolved_CNAME [of now m k "bare r"]) simp_all
        ultimately show ?thesis by blast
      qed
    qed
  qed
qed

lemma leads_to_unique:
  "leads_to now m k host n rec \<Longrightarrow> leads_to now m k host n' rec' \<Longrightarrow> n' = n \<and> rec' = rec"
proof (induction arbitrary: n' rec' rule: leads_to.induct)
  case (leads_A host rec k)
  from leads_A(4) show ?case by cases (use leads_A(1-3) in auto)
next
  case (leads_CNAME host rec k n rec1)
  then obtain n1 where n1: "n' = Suc n1" "leads_to now m (Suc k) (cname rec) n1 rec'"
    by (cases n') auto
  with leads_CNAME(5) [OF n1(2)] show ?case by simp
qed

section \<open>Sequences of insertions\<close>

datatype dns_insertion = InsertA int string "string list" int | InsertCname int string string int

fun dns_insert :: "dns_insertion \<Rightarrow> dns_cache \<Rightarrow> dns_cache res" where
  "dns_insert (InsertA now host src ttl) d = insert_a_record True now d host src (int (length src)) ttl"
| "dns_insert (InsertCname now host target ttl) d = insert_cname_record True now d host target ttl"

fun dns_insert_all :: "dns_insertion list \<Rightarrow> dns_cache \<Rightarrow> dns_cache res" where
  "dns_insert_all [] d = Inr d"
| "dns_insert_all (x # xs) d = rbind (dns_insert x d) (dns_insert_all xs)"

fun ins_host :: "dns_insertion \<Rightarrow> string" where
  "ins_host (InsertA now host src ttl) = host"
| "ins_host (InsertCname now host target ttl) = host"

fun ins_record :: "dns_insertion \<Rightarrow> dns_record" where
  "ins_record (InsertA now host src ttl) = a_record host src (now + ttl)"
| "ins_record (InsertCname now host target ttl) = cname_record host target (now + ttl)"

fun latest :: "dns_insertion list \<Rightarrow> string \<Rightarrow> dns_record option" where
  "latest [] host = None"
| "latest (x # xs) host =
     (case latest xs host of Some r \<Rightarrow> Some r | None \<Rightarrow> if host = ins_host x then Some (ins_record x) else None)"

lemma dns_insert_ok:
  assumes "dns_inv d" "length (ins_host x) < MAX_DOMAIN_LEN"
  obtains d' where "dns_insert x d = Inr d'" "dns_inv d'"
    "\<And>host. found d' host = (if host = ins_host x then Some (Inr (Some (ins_record x))) else found d host)"
proof (cases x)
  case (InsertA now host src ttl)
  show thesis
  proof (rule insert_a_record_ok [of d host now src ttl])
    fix d' assume "insert_a_record True now d host src (int (length src)) ttl = Inr d'" "dns_inv d'"
      "\<And>hosd'. found d' hosd' = (if hosd' = host then Some (Inr (Some (a_record host src (now + ttl)))) else found d hosd')"
    then show thesis using that [of d'] InsertA by simp
  qed (use assms InsertA in simp_all)
next
  case (InsertCname now host target ttl)
  show thesis
  proof (rule insert_cname_record_ok [of d host now target ttl])
    fix d' assume "insert_cname_record True now d host target ttl = Inr d'" "dns_inv d'"
      "\<And>hosd'. found d' hosd' = (if hosd' = host then Some (Inr (Some (cname_record host target (now + ttl)))) else found d hosd')"
    then show thesis using that [of d'] InsertCname by simp
  qed (use assms InsertCname in simp_all)
qed

lemma dns_insert_all_ok:
  assumes "dns_inv d" "\<forall>x\<in>set xs. length (ins_host x) < MAX_DOMAIN_LEN"
  shows "\<exists>d'. dns_insert_all xs d = Inr d' \<and> dns_inv d' \<and>
    (\<forall>host. found d' host = (case latest xs host of None \<Rightarrow> found d host | Some r \<Rightarrow> Some (Inr (Some r))))"
  using assms
proof (induction xs arbitrary: d)
  case Nil
  then show ?case by simp
next
  case (Cons x xs)
  obtain d1 where d1: "dns_insert x d = Inr d1" "dns_inv d1"
    "\<And>host. found d1 host = (if host = ins_host x then Some (Inr (Some (ins_record x))) else found d host)"
    using dns_insert_ok [OF Cons.prems(1)] Cons.prems(2) by (metis list.set_intros(1))
  obtain d2 where "dns_insert_all xs d1 = Inr d2" "dns_inv d2"
    "\<forall>host. found d2 host = (case latest xs host of None \<Rightarrow> found d1 host | Some r \<Rightarrow> Some (Inr (Some r)))"
    using Cons.IH [OF d1(2)] Cons.prems(2) by auto
  with d1 show ?case by (intro exI [of _ d2]) (auto split: option.splits)
qed

lemma dns_cleanup_ok:
  assumes "dns_inv d"
  obtains d' where "dns_cleanup d = Some (Inr d')" "cells (dns_heap d') = Map.empty"
proof -
  obtain chs where rep: "dns_rep d chs" using assms by (auto simp: dns_inv_def)
  let ?h = "dns_heap d"
  have "dns_cleanup_loop (dns_table d) 0 TABLE_SIZE ?h = Some (Inr (?h\<lparr>cells := cells ?h |` (- (\<Union>j\<in>{0..<0 + TABLE_SIZE}. set (chs j)))\<rparr>))"
    using rep unfolding dns_rep_def by (intro dns_cleanup_loop_path) auto
  moreover have "cells ?h |` (- (\<Union>j\<in>{0..<TABLE_SIZE}. set (chs j))) = cells ?h |` (- dom (cells ?h))"
    using rep by (simp add: dns_rep_def)
  moreover have "cells ?h |` (- dom (cells ?h)) = Map.empty" by (auto simp: restrict_map_def fun_eq_iff)
  ultimately show thesis using that [of "d\<lparr>dns_heap := ?h\<lparr>cells := Map.empty\<rparr>\<rparr>"] by (simp add: dns_cleanup_def)
qed

lemma found_init [simp]: "found dns_table_init host = Some (Inr None)"
  by (simp add: found_def find_record_def dns_table_init_def find_chain.simps)

lemma resolved_iff:
  assumes "resolved now m 0 host r out"
  shows "r = 1 \<longleftrightarrow> (\<exists>n\<le>MAX_CNAME_DEPTH. \<exists>rec. leads_to now m 0 host n rec)"
    and "r \<noteq> 1 \<Longrightarrow> r = 0"
    and "r = 1 \<Longrightarrow> leads_to now m 0 host n rec \<Longrightarrow> \<exists>pre. out = pre @ ARecordFor (domain rec) # map Ip (take (nat (ip_count rec)) (ips rec))"
proof -
  from assms consider "r = 0" "\<forall>n rec. leads_to now m 0 host n rec \<longrightarrow> MAX_CNAME_DEPTH < n"
    | n rec pre where "r = 1" "leads_to now m 0 host n rec" "n \<le> MAX_CNAME_DEPTH"
      "out = pre @ ARecordFor (domain rec) # map Ip (take (nat (ip_count rec)) (ips rec))"
    unfolding resolved_def add_0 by blast
  note split = this
  show "r = 1 \<longleftrightarrow> (\<exists>n\<le>MAX_CNAME_DEPTH. \<exists>rec. leads_to now m 0 host n rec)"
  proof (cases rule: split)
    case 1
    then show ?thesis by (metis not_le zero_neq_one)
  qed metis
  show "r \<noteq> 1 \<Longrightarrow> r = 0" by (cases rule: split) simp_all
  show "\<exists>pre. out = pre @ ARecordFor (domain rec) # map Ip (take (nat (ip_count rec)) (ips rec))" if "r = 1" "leads_to now m 0 host n rec"
  proof (cases rule: split)
    case 1
    then show ?thesis using that(1) by simp
  next
    case (2 n' rec' pre)
    from leads_to_unique [OF that(2) 2(2)] 2(4) show ?thesis by metis
  qed
qed

text \<open>
  Claim C19: after any insertions of records for names of at most 255 characters, a lookup finds the record inserted last for exactly
  that name; \<open>resolve\<close> always returns, and it returns 1 exactly when at most five unexpired CNAMEs lead from the name to an unexpired
  A record, and then it prints the addresses of that record last; \<open>cleanup\<close> returns and leaves no record allocated, without freeing
  one twice or reading a freed one.
\<close>

theorem dns_cache_correct:
  assumes "\<forall>x\<in>set xs. length (ins_host x) < MAX_DOMAIN_LEN"
  shows "\<exists>d. dns_insert_all xs dns_table_init = Inr d \<and> (\<forall>host. found d host = Some (Inr (latest xs host))) \<and>
    (\<forall>now host. \<exists>r out. dns_resolve now d host 0 = Some (Inr (r, out)) \<and> r \<in> {0, 1} \<and>
       (r = 1 \<longleftrightarrow> (\<exists>n\<le>MAX_CNAME_DEPTH. \<exists>rec. leads_to now (latest xs) 0 host n rec)) \<and>
       (\<forall>n rec. r = 1 \<and> leads_to now (latest xs) 0 host n rec \<longrightarrow>
          (\<exists>pre. out = pre @ ARecordFor (domain rec) # map Ip (take (nat (ip_count rec)) (ips rec))))) \<and>
    (\<exists>d'. dns_cleanup d = Some (Inr d') \<and> cells (dns_heap d') = Map.empty)"
proof -
  have opt: "(case latest xs host of None \<Rightarrow> found dns_table_init host | Some r \<Rightarrow> Some (Inr (Some r))) = Some (Inr (latest xs host))" for host
    by (cases "latest xs host") simp_all
  obtain d where d: "dns_insert_all xs dns_table_init = Inr d" "dns_inv d" "\<forall>host. found d host = Some (Inr (latest xs host))"
    using dns_insert_all_ok [OF dns_inv_init assms] unfolding opt by blast
  have "\<exists>r out. dns_resolve now d host 0 = Some (Inr (r, out)) \<and> r \<in> {0, 1} \<and>
       (r = 1 \<longleftrightarrow> (\<exists>n\<le>MAX_CNAME_DEPTH. \<exists>rec. leads_to now (latest xs) 0 host n rec)) \<and>
       (\<forall>n rec. r = 1 \<and> leads_to now (latest xs) 0 host n rec \<longrightarrow>
          (\<exists>pre. out = pre @ ARecordFor (domain rec) # map Ip (take (nat (ip_count rec)) (ips rec))))" for now host
  proof -
    obtain r out where r: "dns_resolve now d host 0 = Some (Inr (r, out))" "resolved now (latest xs) 0 host r out"
      using dns_resolve_result [OF d(2)] d(3) by blast
    from resolved_iff [OF r(2)] show ?thesis using r(1) by blast
  qed
  moreover obtain d' where "dns_cleanup d = Some (Inr d')" "cells (dns_heap d') = Map.empty" using dns_cleanup_ok [OF d(2)] .
  ultimately show ?thesis using d(1,3) by blast
qed

theorem dns_cache_correct_witness:
  "\<exists>d d'. dns_insert_all [InsertA 0 ''b'' [''1.1.1.1''] 60, InsertCname 0 ''a'' ''b'' 60] dns_table_init = Inr d \<and>
    found d ''a'' = Some (Inr (Some (cname_record ''a'' ''b'' 60))) \<and> dns_cleanup d = Some (Inr d') \<and> cells (dns_heap d') = Map.empty"
  using dns_cache_correct [of "[InsertA 0 ''b'' [''1.1.1.1''] 60, InsertCname 0 ''a'' ''b'' 60]"]
  by (auto simp: MAX_DOMAIN_LEN_def)

text \<open>A chain of six CNAMEs that ends in an A record is reported as a loop.\<close>

lemma six_cnames_reported_as_loop:
  "(case dns_insert_all [InsertCname 0 ''a'' ''b'' 9, InsertCname 0 ''b'' ''c'' 9, InsertCname 0 ''c'' ''d'' 9, InsertCname 0 ''d'' ''e'' 9,
        InsertCname 0 ''e'' ''f'' 9, InsertCname 0 ''f'' ''g'' 9, InsertA 0 ''g'' [''1.1.1.1''] 9] dns_table_init of
      Inl e \<Rightarrow> None
    | Inr d \<Rightarrow> map_option (map_sum id (\<lambda>(r, out). (r, last out))) (dns_resolve (\<lambda>_. 0) d ''a'' 0)) =
   Some (Inr (0, LoopDetected))"
  by code_simp

text \<open>A name of 256 characters is stored under its first 255 and never found again.\<close>

lemma long_name_not_found:
  assumes "dns_inv d" "MAX_DOMAIN_LEN \<le> length host"
  shows "find_record d host = Some (Inr None)"
  using assms(1) by (cases rule: find_record_ok [where host = host]) (use assms(2) in auto)

lemma dnsCacheHashMap_main_output:
  "map_option (map_sum id fst) (dnsCacheHashMap_main 0 (\<lambda>_. 1)) =
     Some (Inr [CnameFor ''www.server.com'' ''server.com'', ARecordFor ''server.com'', Ip ''1.1.1.1'', Ip ''1.1.1.2''])"
  by code_simp

end
