(* ===== verification/Uuid.thy ===== *)
theory Uuid
  imports Prelude
begin

text \<open>
  The UUID parsers \<open>convertUUIDStrtoInt.cpp\<close> (two 64-bit halves) and \<open>convertUUIDStrtoInt.c\<close> (one 128-bit integer), with their
  printers. Strings are the characters before the terminating NUL; the C parser takes its string and its output as pointers, here
  an option and a flag.
\<close>

unbundle bit_operations_syntax

section \<open>Hexadecimal digits\<close>

definition isxdigit :: "char \<Rightarrow> bool" where
  "isxdigit c \<longleftrightarrow> c \<in> set ''0123456789abcdefABCDEF''"

definition between :: "char \<Rightarrow> char \<Rightarrow> char \<Rightarrow> bool" where
  "between lo hi c \<longleftrightarrow> (of_char lo :: nat) \<le> of_char c \<and> of_char c \<le> (of_char hi :: nat)"

definition hexNibble :: "char \<Rightarrow> nat res" where
  "hexNibble c =
     (if between CHR ''0'' CHR ''9'' c then Inr (of_char c - of_char (CHR ''0''))
      else if between CHR ''a'' CHR ''f'' c then Inr (of_char c - of_char (CHR ''a'') + 10)
      else if between CHR ''A'' CHR ''F'' c then Inr (of_char c - of_char (CHR ''A'') + 10)
      else Inl (Throw ''Invalid hex character in UUID''))"

definition hex_nibble :: "char \<Rightarrow> nat" where
  "hex_nibble c =
     (if between CHR ''0'' CHR ''9'' c then of_char c - of_char (CHR ''0'')
      else if between CHR ''a'' CHR ''f'' c then of_char c - of_char (CHR ''a'') + 10
      else if between CHR ''A'' CHR ''F'' c then of_char c - of_char (CHR ''A'') + 10
      else 0xFF)"

definition digits :: string where
  "digits = ''0123456789abcdef''"

section \<open>The C++ parser\<close>

record UUID128 =
  hi :: "64 word"
  lo :: "64 word"

fun nibble_loop :: "string \<Rightarrow> 64 word \<Rightarrow> 64 word res" where
  "nibble_loop [] v = Inr v"
| "nibble_loop (c # hex) v = rbind (hexNibble c) (\<lambda>n. nibble_loop hex (push_bit 4 v OR of_nat n))"

text \<open>The result is the value left in \<open>out\<close>, or \<open>None\<close> when the parser returns false; \<open>catch (...)\<close> turns a throw into false.\<close>

definition parseUUID128 :: "string \<Rightarrow> UUID128 option" where
  "parseUUID128 input =
     (let hex = filter isxdigit input in
      if length hex \<noteq> 32 then None
      else ok_of (rbind (nibble_loop (take 16 hex) 0) (\<lambda>h.
                  rbind (nibble_loop (drop 16 hex) 0) (\<lambda>l. Inr \<lparr>hi = h, lo = l\<rparr>))))"

text \<open>\<open>operator<<\<close> of an unsigned number in base 16, lowercase, and the padding of \<open>setw\<close> with \<open>setfill('0')\<close>.\<close>

fun hex_str :: "nat \<Rightarrow> string" where
  "hex_str n = (if n < 16 then [digits ! n] else hex_str (n div 16) @ [digits ! (n mod 16)])"

declare hex_str.simps [simp del]

definition setw :: "nat \<Rightarrow> string \<Rightarrow> string" where
  "setw w s = replicate (w - length s) CHR ''0'' @ s"

definition uuidToString :: "UUID128 \<Rightarrow> string" where
  "uuidToString u = setw 16 (hex_str (unat (hi u))) @ setw 16 (hex_str (unat (lo u)))"

definition uuid_equal :: "UUID128 \<Rightarrow> UUID128 \<Rightarrow> bool" where
  "uuid_equal a b \<longleftrightarrow> hi a = hi b \<and> lo a = lo b"

definition uuid_differs :: "UUID128 \<Rightarrow> UUID128 \<Rightarrow> bool" where
  "uuid_differs a b \<longleftrightarrow> \<not> uuid_equal a b"

definition uuid_tests :: "string list" where
  "uuid_tests = [''550e8400-e29b-41d4-a716-446655440000'', ''0000180d-0000-1000-8000-00805f9b34fb'',
     ''550e8400e29b41d4a716446655440000'', ''180D'', ''12345678'']"

definition uuid_cpp_main :: "string option list \<times> bool option" where
  "uuid_cpp_main = (map (\<lambda>s. map_option uuidToString (parseUUID128 s)) uuid_tests,
     (case (parseUUID128 ''550e8400-e29b-41d4-a716-446655440000'', parseUUID128 ''550e8400e29b41d4a716446655440000'') of
        (Some a, Some b) \<Rightarrow> Some (uuid_equal a b) | _ \<Rightarrow> None))"

section \<open>The C parser\<close>

fun collect_hex :: "string \<Rightarrow> string \<Rightarrow> string" where
  "collect_hex [] hex = hex"
| "collect_hex (c # p) hex =
     (if length hex < 32 then collect_hex p (if isxdigit c then hex @ [c] else hex) else hex)"

fun value_loop :: "string \<Rightarrow> 128 word \<Rightarrow> int \<times> 128 word" where
  "value_loop [] v = (0, v)"
| "value_loop (c # hex) v =
     (let nib = hex_nibble c in if nib = 0xFF then (-1, v) else value_loop hex (push_bit 4 v OR of_nat nib))"

text \<open>The return code and what was written to \<open>*out\<close>, if anything.\<close>

definition parse_uuid128 :: "string option \<Rightarrow> bool \<Rightarrow> int \<times> 128 word option" where
  "parse_uuid128 str out =
     (case str of None \<Rightarrow> (-1, None)
      | Some s \<Rightarrow>
          if \<not> out then (-1, None)
          else let hex = collect_hex s [] in
            if length hex \<noteq> 32 then (-1, None)
            else case value_loop hex 0 of (r, v) \<Rightarrow> (r, Some v))"

text \<open>The loop fills \<open>bytes\<close> from the last index down; the list holds the part filled so far.\<close>

fun bytes_loop :: "nat \<Rightarrow> 128 word \<Rightarrow> 8 word list \<Rightarrow> 8 word list" where
  "bytes_loop 0 temp bytes = bytes"
| "bytes_loop (Suc i) temp bytes = bytes_loop i (drop_bit 8 temp) (ucast (temp AND 0xFF) # bytes)"

definition put_byte :: "8 word \<Rightarrow> string" where
  "put_byte b = [digits ! unat (drop_bit 4 b AND 0xF), digits ! unat (b AND 0xF)]"

definition print_uuid128 :: "128 word option \<Rightarrow> string" where
  "print_uuid128 u = (case u of None \<Rightarrow> [] | Some w \<Rightarrow> concat (map put_byte (bytes_loop 16 w [])))"

definition uuid_c_main :: "string option list" where
  "uuid_c_main = map (\<lambda>s. case parse_uuid128 (Some s) True of (r, v) \<Rightarrow> if r = 0 then Some (print_uuid128 v) else None)
     [''550e8400-e29b-41d4-a716-446655440000'', ''12345678-1234-5678-9abc-def012345678'', ''00000000-0000-1000-8000-00805f9b34fb'',
      '' 550e8400 - e29b - 41d4 - a716 - 446655440000 '', ''180D'', ''12345678'']"

section \<open>Values of digit strings\<close>

lemma hexNibble_xdigit: "isxdigit c \<Longrightarrow> hexNibble c = Inr (hex_nibble c) \<and> hex_nibble c < 16"
  by (auto simp: isxdigit_def hexNibble_def hex_nibble_def between_def)

definition hexval :: "string \<Rightarrow> nat" where
  "hexval s = foldl (\<lambda>v c. 16 * v + hex_nibble c) 0 s"

lemma hexval_snoc [simp]: "hexval (s @ [c]) = 16 * hexval s + hex_nibble c" "hexval [] = 0"
  by (simp_all add: hexval_def)

lemma foldl_hexval: "foldl (\<lambda>v c. 16 * v + hex_nibble c) v s = v * 16 ^ length s + hexval s"
  by (induction s rule: rev_induct) (simp_all add: algebra_simps)

lemma hexval_append: "hexval (s @ t) = hexval s * 16 ^ length t + hexval t"
  using foldl_hexval [of "hexval s" t] by (simp add: hexval_def)

lemma hexval_zeros [simp]: "hexval (replicate n CHR ''0'') = 0"
proof (induction n)
  case (Suc n)
  have "hexval [CHR ''0''] = 0" by (simp add: hexval_def hex_nibble_def between_def)
  with Suc hexval_append [of "[CHR ''0'']" "replicate n CHR ''0''"] show ?case by simp
qed simp

lemma hexval_less: "\<forall>c\<in>set s. isxdigit c \<Longrightarrow> hexval s < 16 ^ length s"
proof (induction s rule: rev_induct)
  case (snoc c s)
  then show ?case using hexNibble_xdigit [of c] by simp
qed simp

lemma push_nibble: "n < 16 \<Longrightarrow> push_bit 4 v OR of_nat n = 16 * v + of_nat n" for v :: "'a :: len word"
proof -
  assume "n < 16"
  then have "n = take_bit 4 n" by (simp add: take_bit_eq_mod)
  then have n: "(of_nat n :: 'a word) = take_bit 4 (of_nat n)" by (metis of_nat_take_bit)
  have "push_bit 4 v AND of_nat n = 0" by (subst n) (auto intro!: bit_eqI simp: bit_simps)
  from disjunctive_add_eq_or [OF this] show ?thesis by (simp add: push_bit_eq_mult mult.commute)
qed

lemma nibble_loop_value:
  "\<forall>c\<in>set s. isxdigit c \<Longrightarrow> nibble_loop s (of_nat v) = Inr (of_nat (foldl (\<lambda>v c. 16 * v + hex_nibble c) v s))"
proof (induction s arbitrary: v)
  case (Cons c s)
  then show ?case using hexNibble_xdigit [of c] Cons.IH [of "16 * v + hex_nibble c"] by (simp add: push_nibble del: rbind_eq_Inr)
qed simp

lemma value_loop_value:
  "\<forall>c\<in>set s. isxdigit c \<Longrightarrow> value_loop s (of_nat v) = (0, of_nat (foldl (\<lambda>v c. 16 * v + hex_nibble c) v s))"
proof (induction s arbitrary: v)
  case (Cons c s)
  then show ?case using hexNibble_xdigit [of c] Cons.IH [of "16 * v + hex_nibble c"] by (simp add: push_nibble Let_def)
qed simp

lemma collect_hex_eq: "length hex \<le> 32 \<Longrightarrow> collect_hex s hex = take 32 (hex @ filter isxdigit s)"
proof (induction s arbitrary: hex)
  case (Cons c s)
  have "take (32 - length hex) (c # xs) = c # take (31 - length hex) xs" if "length hex < 32" for xs
    using that by (simp add: take_Cons')
  with Cons show ?case by auto
qed simp

lemma digits_nth: "n < 16 \<Longrightarrow> isxdigit (digits ! n) \<and> hex_nibble (digits ! n) = n"
proof -
  have "\<forall>n\<in>set [0..<16]. isxdigit (digits ! n) \<and> hex_nibble (digits ! n) = n" by code_simp
  then show "n < 16 \<Longrightarrow> ?thesis" by simp
qed

lemma hex_str_ok: "hexval (hex_str n) = n \<and> (\<forall>c\<in>set (hex_str n). isxdigit c)"
proof (induction n rule: hex_str.induct)
  case (1 n)
  then show ?case using hexval_snoc(1) [of "[]"] digits_nth [of n] digits_nth [of "n mod 16"]
    by (subst (1 2) hex_str.simps) (auto simp del: One_nat_def)
qed

lemma length_hex_str: "n < 16 ^ Suc k \<Longrightarrow> length (hex_str n) \<le> Suc k"
proof (induction k arbitrary: n)
  case 0
  then show ?case by (subst hex_str.simps) simp
next
  case (Suc k)
  have "n div 16 < 16 ^ Suc k" using Suc.prems by (simp add: less_mult_imp_div_less)
  from Suc.IH [OF this] show ?case by (subst hex_str.simps) simp
qed

lemma setw_hex_str:
  assumes "n < 16 ^ 16"
  shows "length (setw 16 (hex_str n)) = 16 \<and> hexval (setw 16 (hex_str n)) = n \<and> (\<forall>c\<in>set (setw 16 (hex_str n)). isxdigit c)"
proof -
  have "length (hex_str n) \<le> 16" using assms length_hex_str [of n 15] by simp
  moreover have "isxdigit CHR ''0''" by (simp add: isxdigit_def)
  ultimately show ?thesis using hex_str_ok [of n] by (auto simp: setw_def hexval_append)
qed

lemma uuidToString_ok:
  "length (uuidToString u) = 32" "\<forall>c\<in>set (uuidToString u). isxdigit c"
  "hexval (take 16 (uuidToString u)) = unat (hi u)" "hexval (drop 16 (uuidToString u)) = unat (lo u)"
proof -
  have less: "unat w < 16 ^ 16" for w :: "64 word" using unsigned_less [of w] by simp
  note h = setw_hex_str [OF less, of "hi u"] and l = setw_hex_str [OF less, of "lo u"]
  show "length (uuidToString u) = 32" "\<forall>c\<in>set (uuidToString u). isxdigit c"
    "hexval (take 16 (uuidToString u)) = unat (hi u)" "hexval (drop 16 (uuidToString u)) = unat (lo u)"
    using h l by (auto simp: uuidToString_def)
qed

lemma nibble_loop_hexval: "\<forall>c\<in>set s. isxdigit c \<Longrightarrow> nibble_loop s 0 = Inr (of_nat (hexval s))"
  using nibble_loop_value [of s 0] by (simp add: hexval_def)

lemma value_loop_hexval: "\<forall>c\<in>set s. isxdigit c \<Longrightarrow> value_loop s 0 = (0, of_nat (hexval s))"
  using value_loop_value [of s 0] by (simp add: hexval_def)

lemma parseUUID128_eq:
  "parseUUID128 s = (let hex = filter isxdigit s in
     if length hex = 32 then Some \<lparr>hi = of_nat (hexval (take 16 hex)), lo = of_nat (hexval (drop 16 hex))\<rparr> else None)"
proof -
  have "\<forall>c\<in>set (take 16 (filter isxdigit s)). isxdigit c" "\<forall>c\<in>set (drop 16 (filter isxdigit s)). isxdigit c"
    by (auto dest: in_set_takeD in_set_dropD)
  from this [THEN nibble_loop_hexval] show ?thesis by (simp add: parseUUID128_def Let_def)
qed

lemma parse_uuid128_eq:
  "parse_uuid128 (Some s) True = (let hex = take 32 (filter isxdigit s) in
     if length hex = 32 then (0, Some (of_nat (hexval hex))) else (-1, None))"
proof -
  have "\<forall>c\<in>set (take 32 (filter isxdigit s)). isxdigit c" by (auto dest: in_set_takeD)
  from value_loop_hexval [OF this] show ?thesis by (simp add: parse_uuid128_def Let_def collect_hex_eq)
qed

text \<open>The value of 32 digits is the first 16 in the high half and the last 16 in the low half.\<close>

lemma ucast_of_nat_small: "n < 16 ^ 16 \<Longrightarrow> (ucast (of_nat n :: 64 word) :: 128 word) = of_nat n"
  by (simp add: unsigned_of_nat take_bit_nat_eq_self)

lemma halves_word:
  assumes "length hex = 32" "\<forall>c\<in>set hex. isxdigit c"
  shows "(of_nat (hexval hex) :: 128 word) =
    push_bit 64 (ucast (of_nat (hexval (take 16 hex)) :: 64 word)) OR ucast (of_nat (hexval (drop 16 hex)) :: 64 word)"
proof -
  have "hexval (take 16 hex) < 16 ^ 16" "hexval (drop 16 hex) < 16 ^ 16"
    using hexval_less [of "take 16 hex"] hexval_less [of "drop 16 hex"] assms by (auto dest: in_set_takeD in_set_dropD)
  note small = this [THEN ucast_of_nat_small]
  have "push_bit 64 h AND ucast (l :: 64 word) = 0" for h :: "128 word" and l
    by (rule bit_eqI) (auto simp: bit_simps dest: bit_imp_le_length)
  note add = disjunctive_add_eq_or [OF this]
  have "hexval hex = 2 ^ 64 * hexval (take 16 hex) + hexval (drop 16 hex)"
    using hexval_append [of "take 16 hex" "drop 16 hex"] assms by simp
  then have "(of_nat (hexval hex) :: 128 word) = push_bit 64 (of_nat (hexval (take 16 hex))) + of_nat (hexval (drop 16 hex))"
    by (simp add: push_bit_eq_mult mult.commute)
  then show ?thesis unfolding add [symmetric] unfolding small .
qed

section \<open>Round trips\<close>

lemma unat_low_byte: "unat (temp AND 0xFF :: 128 word) = unat temp mod 256"
  using take_bit_eq_mask [of 8 temp] unsigned_take_bit_eq [of 8 temp] by (simp add: mask_eq_exp_minus_1 take_bit_eq_mod)

lemma unat_nibbles: "unat (drop_bit 4 b AND 0xF :: 8 word) = unat b div 16 \<and> unat (b AND 0xF) = unat b mod 16" for b :: "8 word"
proof -
  have low: "unat (x AND 0xF) = unat x mod 16" for x :: "8 word"
    using take_bit_eq_mask [of 4 x] unsigned_take_bit_eq [of 4 x] by (simp add: mask_eq_exp_minus_1 take_bit_eq_mod)
  have "unat (drop_bit 4 b) = unat b div 16" by (simp only: unat_drop_bit_eq) (simp add: drop_bit_eq_div)
  moreover have "unat b < 256" using unsigned_less [of b] by simp
  ultimately show ?thesis using low by simp
qed

lemma put_byte_ok: "hexval (put_byte b) = unat b \<and> (\<forall>c\<in>set (put_byte b). isxdigit c) \<and> length (put_byte b) = 2"
proof -
  have "unat b < 256" using unsigned_less [of b] by simp
  then have "unat b div 16 < 16" "unat b mod 16 < 16" by auto
  moreover have "put_byte b = [digits ! (unat b div 16), digits ! (unat b mod 16)]" unfolding put_byte_def unat_nibbles [of b, THEN conjunct1] unat_nibbles [of b, THEN conjunct2] ..
  ultimately show ?thesis by (auto simp: digits_nth hexval_def)
qed

definition bytes_str :: "8 word list \<Rightarrow> string" where
  "bytes_str bs = concat (map put_byte bs)"

lemma length_bytes_loop [simp]: "length (bytes_loop n w bs) = n + length bs"
  by (induction n arbitrary: w bs) simp_all

lemma bytes_str_ok: "length (bytes_str bs) = 2 * length bs \<and> (\<forall>c\<in>set (bytes_str bs). isxdigit c)"
  by (induction bs) (use put_byte_ok in \<open>auto simp: bytes_str_def\<close>)

lemma bytes_str_Cons: "hexval (bytes_str (b # bs)) = unat b * 256 ^ length bs + hexval (bytes_str bs)"
  using bytes_str_ok [of bs] put_byte_ok [of b] hexval_append [of "put_byte b" "bytes_str bs"]
  by (simp add: bytes_str_def power_mult)

lemma hexval_bytes_loop:
  "hexval (bytes_str (bytes_loop n w bs)) = (unat w mod 256 ^ n) * 256 ^ length bs + hexval (bytes_str bs)"
proof (induction n arbitrary: w bs)
  case (Suc n)
  have "unat (ucast (w AND 0xFF) :: 8 word) = unat w mod 256" by (simp only: unsigned_ucast_eq unat_low_byte) (simp add: take_bit_eq_mod)
  moreover have "unat (drop_bit 8 w) = unat w div 256" by (simp only: unat_drop_bit_eq) (simp add: drop_bit_eq_div)
  moreover have "unat w mod 256 ^ Suc n = 256 * (unat w div 256 mod 256 ^ n) + unat w mod 256" by (simp add: mod_mult2_eq)
  ultimately show ?case by (simp add: Suc.IH bytes_str_Cons algebra_simps)
qed simp

lemma print_uuid128_ok:
  "length (print_uuid128 (Some w)) = 32" "\<forall>c\<in>set (print_uuid128 (Some w)). isxdigit c" "hexval (print_uuid128 (Some w)) = unat w"
proof -
  have p: "print_uuid128 (Some w) = bytes_str (bytes_loop 16 w [])" by (simp add: print_uuid128_def bytes_str_def)
  have "unat w < 256 ^ 16" using unsigned_less [of w] by simp
  then show "length (print_uuid128 (Some w)) = 32" "\<forall>c\<in>set (print_uuid128 (Some w)). isxdigit c" "hexval (print_uuid128 (Some w)) = unat w"
    unfolding p using bytes_str_ok [of "bytes_loop 16 w []"] hexval_bytes_loop [of 16 w "[]"] by (auto simp: bytes_str_def [of "[]"])
qed

lemma filter_all: "\<forall>c\<in>set s. isxdigit c \<Longrightarrow> filter isxdigit s = s"
  by simp

text \<open>The two parsers on a string with exactly 32 digits.\<close>

lemma parsers_agree:
  assumes "length (filter isxdigit s) = 32"
  obtains v where "parseUUID128 s = Some v" "parse_uuid128 (Some s) True = (0, Some (push_bit 64 (ucast (hi v)) OR ucast (lo v)))"
proof
  let ?hex = "filter isxdigit s"
  let ?v = "\<lparr>hi = of_nat (hexval (take 16 ?hex)), lo = of_nat (hexval (drop 16 ?hex))\<rparr>"
  show "parseUUID128 s = Some ?v" using assms by (simp add: parseUUID128_eq Let_def)
  have all: "\<forall>c\<in>set ?hex. isxdigit c" by simp
  have "take 32 ?hex = ?hex" using assms by simp
  then have "parse_uuid128 (Some s) True = (0, Some (of_nat (hexval ?hex)))" using assms by (simp add: parse_uuid128_eq Let_def)
  then show "parse_uuid128 (Some s) True = (0, Some (push_bit 64 (ucast (hi ?v)) OR ucast (lo ?v)))"
    unfolding UUID128.simps halves_word [OF assms all, symmetric] .
qed

text \<open>
  Claim C24: printing and parsing are inverse in both programs, for every 128-bit value; a text of hexadecimal digits, dashes and spaces with exactly 32 digits is
  accepted by both parsers with the same value, in two halves and in one number; one with fewer digits is rejected by both, and one with more by the
  C++ parser.
\<close>

theorem uuid_round_trip:
  "parseUUID128 (uuidToString u) = Some u \<and> parse_uuid128 (Some (print_uuid128 (Some w))) True = (0, Some w) \<and>
   ((\<forall>c\<in>set s. isxdigit c \<or> c \<in> {CHR ''-'', CHR '' ''}) \<longrightarrow>
     (length (filter isxdigit s) = 32 \<longrightarrow>
       (\<exists>v. parseUUID128 s = Some v \<and> parse_uuid128 (Some s) True = (0, Some (push_bit 64 (ucast (hi v)) OR ucast (lo v))))) \<and>
     (length (filter isxdigit s) \<noteq> 32 \<longrightarrow> parseUUID128 s = None) \<and>
     (length (filter isxdigit s) < 32 \<longrightarrow> parse_uuid128 (Some s) True = (-1, None)))"
proof (intro conjI impI)
  show "parseUUID128 (uuidToString u) = Some u"
    using uuidToString_ok [of u] filter_all [OF uuidToString_ok(2)] by (simp add: parseUUID128_eq Let_def)
  show "parse_uuid128 (Some (print_uuid128 (Some w))) True = (0, Some w)"
    using print_uuid128_ok [of w] filter_all [OF print_uuid128_ok(2)] by (simp add: parse_uuid128_eq Let_def)
  show "\<exists>v. parseUUID128 s = Some v \<and> parse_uuid128 (Some s) True = (0, Some (push_bit 64 (ucast (hi v)) OR ucast (lo v)))"
    if "length (filter isxdigit s) = 32"
    using parsers_agree [OF that] by blast
  show "parseUUID128 s = None" if "length (filter isxdigit s) \<noteq> 32" using that by (simp add: parseUUID128_eq Let_def)
  show "parse_uuid128 (Some s) True = (-1, None)" if "length (filter isxdigit s) < 32" using that by (simp add: parse_uuid128_eq Let_def)
qed

theorem uuid_round_trip_witness:
  "parseUUID128 (uuidToString \<lparr>hi = 1, lo = 2\<rparr>) = Some \<lparr>hi = 1, lo = 2\<rparr> \<and>
   (\<exists>v. parseUUID128 ''550e8400-e29b-41d4-a716-446655440000'' = Some v \<and>
     parse_uuid128 (Some ''550e8400-e29b-41d4-a716-446655440000'') True = (0, Some (push_bit 64 (ucast (hi v)) OR ucast (lo v))))"
proof -
  note rt = uuid_round_trip [of "\<lparr>hi = 1, lo = 2\<rparr>" 0 "''550e8400-e29b-41d4-a716-446655440000''"]
  have "\<forall>c\<in>set ''550e8400-e29b-41d4-a716-446655440000''. isxdigit c \<or> c \<in> {CHR ''-'', CHR '' ''}"
    "length (filter isxdigit ''550e8400-e29b-41d4-a716-446655440000'') = 32" by code_simp+
  with rt show ?thesis by blast
qed

text \<open>More than 32 digits are no 128-bit UUID, yet the C parser accepts them.\<close>

lemma parse_uuid128_too_long:
  assumes "32 < n"
  shows "fst (parse_uuid128 (Some (replicate n CHR ''f'')) True) = 0 \<and> parseUUID128 (replicate n CHR ''f'') = None"
proof -
  have "filter isxdigit (replicate n CHR ''f'') = replicate n CHR ''f''" by (rule filter_all) (simp add: isxdigit_def)
  then show ?thesis using assms by (simp add: parse_uuid128_eq parseUUID128_eq)
qed

end
