(* ===== verification/Fragmentation.thy ===== *)
theory Fragmentation
  imports Prelude "HOL-Library.AList"
begin

text \<open>
  \<open>arista/interview1/packetFragmentation.cpp\<close>: a message is cut into packets of at most eight payload bytes behind a header of twelve
  bytes, and a reassembler puts the packets of each message together again, in whatever order they arrive, and drops messages that
  stay incomplete. The header is copied by \<open>memcpy\<close>: it is little endian and has no padding, as on the usual targets. The unordered
  map is an association list, whose order stands for the unspecified order of iteration. Times are nanoseconds of the steady clock.
\<close>

section \<open>Packets\<close>

type_synonym byte = "8 word"

definition MAX_PAYLOAD :: nat where "MAX_PAYLOAD = 8"

record FragmentHeader =
  message_id :: "32 word"
  fragment_id :: "16 word"
  total_fragments :: "16 word"
  payload_size :: "32 word"

definition sizeof_hdr :: nat where "sizeof_hdr = 12"

fun le_bytes :: "nat \<Rightarrow> nat \<Rightarrow> byte list" where
  "le_bytes 0 n = []"
| "le_bytes (Suc k) n = of_nat n # le_bytes k (n div 256)"

fun le_value :: "byte list \<Rightarrow> nat" where
  "le_value [] = 0"
| "le_value (b # bs) = unat b + 256 * le_value bs"

definition hdr_bytes :: "FragmentHeader \<Rightarrow> byte list" where
  "hdr_bytes h = le_bytes 4 (unat (message_id h)) @ le_bytes 2 (unat (fragment_id h)) @
     le_bytes 2 (unat (total_fragments h)) @ le_bytes 4 (unat (payload_size h))"

definition hdr_of_bytes :: "byte list \<Rightarrow> FragmentHeader res" where
  "hdr_of_bytes p =
     (if length p < sizeof_hdr then Inl OutOfBounds
      else Inr \<lparr>message_id = of_nat (le_value (take 4 p)), fragment_id = of_nat (le_value (take 2 (drop 4 p))),
                total_fragments = of_nat (le_value (take 2 (drop 6 p))), payload_size = of_nat (le_value (take 4 (drop 8 p)))\<rparr>)"

section \<open>The fragmenter\<close>

definition fragment_count :: "byte list \<Rightarrow> nat" where
  "fragment_count message = (length message + MAX_PAYLOAD - 1) div MAX_PAYLOAD"

definition fragment_packet :: "byte list \<Rightarrow> 32 word \<Rightarrow> nat \<Rightarrow> nat \<Rightarrow> byte list" where
  "fragment_packet message mid count i =
     (let offset = i * MAX_PAYLOAD;
          len = min MAX_PAYLOAD (length message - offset);
          hdr = \<lparr>message_id = mid, fragment_id = of_nat i, total_fragments = of_nat count, payload_size = of_nat len\<rparr>
      in hdr_bytes hdr @ take len (drop offset message))"

definition fragment :: "byte list \<Rightarrow> 32 word \<Rightarrow> byte list list" where
  "fragment message mid = (let count = fragment_count message in map (fragment_packet message mid count) [0..<count])"

section \<open>The reassembler\<close>

record ReassemblyBuffer =
  rb_total :: "16 word"
  rb_fragments :: "byte list list"
  rb_received :: "bool list"
  rb_count :: nat
  rb_first :: int

definition empty_buffer :: ReassemblyBuffer where
  "empty_buffer = \<lparr>rb_total = 0, rb_fragments = [], rb_received = [], rb_count = 0, rb_first = 0\<rparr>"

record Reassembler =
  reassembly_map :: "(32 word \<times> ReassemblyBuffer) list"
  timeout_seconds :: int

definition Reassembler_new :: "int \<Rightarrow> Reassembler" where
  "Reassembler_new secs = \<lparr>reassembly_map = [], timeout_seconds = secs\<rparr>"

datatype frag_event = ReceivedFragment "16 word" | ReassembledMessage "byte list" | DiscardedMessage "32 word"

definition buffer_at :: "Reassembler \<Rightarrow> 32 word \<Rightarrow> ReassemblyBuffer" where
  "buffer_at r mid = (case map_of (reassembly_map r) mid of None \<Rightarrow> empty_buffer | Some b \<Rightarrow> b)"

definition put_buffer :: "Reassembler \<Rightarrow> 32 word \<Rightarrow> ReassemblyBuffer \<Rightarrow> Reassembler" where
  "put_buffer r mid b = r\<lparr>reassembly_map := AList.update mid b (reassembly_map r)\<rparr>"

definition start_buffer :: "int \<Rightarrow> FragmentHeader \<Rightarrow> ReassemblyBuffer \<Rightarrow> ReassemblyBuffer" where
  "start_buffer now hdr b =
     (if rb_fragments b = [] then
        b\<lparr>rb_total := total_fragments hdr, rb_fragments := replicate (unat (total_fragments hdr)) [],
          rb_received := take (unat (total_fragments hdr)) (rb_received b @ replicate (unat (total_fragments hdr) - length (rb_received b)) False),
          rb_count := 0, rb_first := now\<rparr>
      else b)"

definition store_fragment :: "FragmentHeader \<Rightarrow> byte list \<Rightarrow> ReassemblyBuffer \<Rightarrow> (ReassemblyBuffer \<times> frag_event list) res" where
  "store_fragment hdr packet b =
     rbind (arr_get (rb_received b) (unat (fragment_id hdr))) (\<lambda>seen.
     if seen then Inr (b, [])
     else rbind (arr_set (rb_fragments b) (unat (fragment_id hdr)) (drop sizeof_hdr packet)) (\<lambda>fs.
          rbind (arr_set (rb_received b) (unat (fragment_id hdr)) True) (\<lambda>rs.
          Inr (b\<lparr>rb_fragments := fs, rb_received := rs, rb_count := rb_count b + 1\<rparr>, [ReceivedFragment (fragment_id hdr)]))))"

fun assemble_loop :: "byte list list \<Rightarrow> nat \<Rightarrow> nat \<Rightarrow> byte list res" where
  "assemble_loop fs i 0 = Inr []"
| "assemble_loop fs i (Suc n) = rbind (arr_get fs i) (\<lambda>f. rbind (assemble_loop fs (Suc i) n) (\<lambda>full. Inr (f @ full)))"

definition assemble :: "Reassembler \<Rightarrow> 32 word \<Rightarrow> (Reassembler \<times> frag_event list) res" where
  "assemble r mid =
     (let buffer = buffer_at r mid in
      rbind (assemble_loop (rb_fragments buffer) 0 (unat (rb_total buffer))) (\<lambda>full.
      Inr (r\<lparr>reassembly_map := AList.delete mid (reassembly_map r)\<rparr>, [ReassembledMessage full])))"

definition processFragment :: "int \<Rightarrow> Reassembler \<Rightarrow> byte list \<Rightarrow> (Reassembler \<times> frag_event list) res" where
  "processFragment now r packet =
     rbind (hdr_of_bytes packet) (\<lambda>hdr.
     rbind (store_fragment hdr packet (start_buffer now hdr (buffer_at r (message_id hdr)))) (\<lambda>(buffer, out).
     let r = put_buffer r (message_id hdr) buffer in
     if rb_count buffer = unat (rb_total buffer)
     then rbind (assemble r (message_id hdr)) (\<lambda>(r, out'). Inr (r, out @ out'))
     else Inr (r, out)))"

definition elapsed_seconds :: "int \<Rightarrow> int \<Rightarrow> int" where
  "elapsed_seconds now t = (if t \<le> now then (now - t) div 10 ^ 9 else - ((t - now) div 10 ^ 9))"

fun cleanup_loop :: "int \<Rightarrow> int \<Rightarrow> (32 word \<times> ReassemblyBuffer) list \<Rightarrow> (32 word \<times> ReassemblyBuffer) list \<times> frag_event list" where
  "cleanup_loop now secs [] = ([], [])"
| "cleanup_loop now secs ((mid, b) # es) =
     (case cleanup_loop now secs es of (kept, out) \<Rightarrow>
        if elapsed_seconds now (rb_first b) > secs then (kept, DiscardedMessage mid # out) else ((mid, b) # kept, out))"

definition cleanupExpired :: "int \<Rightarrow> Reassembler \<Rightarrow> Reassembler \<times> frag_event list" where
  "cleanupExpired now r = (case cleanup_loop now (timeout_seconds r) (reassembly_map r) of
     (kept, out) \<Rightarrow> (r\<lparr>reassembly_map := kept\<rparr>, out))"

text \<open>A stream of packets, each with its arrival time.\<close>

fun process_all :: "Reassembler \<Rightarrow> (int \<times> byte list) list \<Rightarrow> (Reassembler \<times> frag_event list) res" where
  "process_all r [] = Inr (r, [])"
| "process_all r ((now, p) # ps) =
     rbind (processFragment now r p) (\<lambda>(r, out). rbind (process_all r ps) (\<lambda>(r, out'). Inr (r, out @ out')))"

fun lose_fragment :: "byte list list \<Rightarrow> byte list list res" where
  "lose_fragment [] = Inr []"
| "lose_fragment (p # ps) = rbind (hdr_of_bytes p) (\<lambda>hdr. rbind (lose_fragment ps) (\<lambda>ps'.
     Inr (if fragment_id hdr = 1 then ps' else p # ps')))"

definition demo_message :: "byte list" where
  "demo_message = map (\<lambda>c. of_nat (of_char c)) ''FragmentationDemoExample''"

definition packetFragmentation_main :: "frag_event list res" where
  "packetFragmentation_main =
     rbind (process_all (Reassembler_new 3) (map (Pair 0) (fragment demo_message 1))) (\<lambda>(r, out1).
     rbind (process_all r (map (Pair 0) (rev (fragment demo_message 2)))) (\<lambda>(r, out2).
     rbind (lose_fragment (fragment demo_message 3)) (\<lambda>ps.
     rbind (process_all r (map (Pair 0) ps)) (\<lambda>(r, out3).
     case cleanupExpired (4 * 10 ^ 9) r of (r, out4) \<Rightarrow> Inr (out1 @ out2 @ out3 @ out4)))))"

section \<open>Headers survive the wire\<close>

lemma length_le_bytes [simp]: "length (le_bytes k n) = k"
  by (induction k arbitrary: n) simp_all

lemma le_value_bytes: "le_value (le_bytes k n) = n mod 256 ^ k"
proof (induction k arbitrary: n)
  case (Suc k)
  then show ?case by (simp add: unat_of_nat mod_mult2_eq)
qed simp

lemma length_hdr_bytes [simp]: "length (hdr_bytes h) = sizeof_hdr"
  by (simp add: hdr_bytes_def sizeof_hdr_def)

lemma hdr_round_trip [simp]: "hdr_of_bytes (hdr_bytes h @ payload) = Inr h"
proof -
  have "unat (message_id h) < 2 ^ 32" "unat (payload_size h) < 2 ^ 32" "unat (fragment_id h) < 2 ^ 16" "unat (total_fragments h) < 2 ^ 16"
    using unsigned_less [of "message_id h"] unsigned_less [of "payload_size h"] unsigned_less [of "fragment_id h"]
      unsigned_less [of "total_fragments h"] by simp_all
  then show ?thesis by (simp add: hdr_of_bytes_def sizeof_hdr_def) (simp add: hdr_bytes_def le_value_bytes)
qed

lemma drop_hdr_bytes [simp]: "drop sizeof_hdr (hdr_bytes h @ payload) = payload"
  by simp

section \<open>Any order of arrival gives the message back\<close>

definition chunk :: "byte list \<Rightarrow> nat \<Rightarrow> byte list" where
  "chunk m i = take MAX_PAYLOAD (drop (i * MAX_PAYLOAD) m)"

lemma take_min_chunk: "take (min MAX_PAYLOAD (length m - i * MAX_PAYLOAD)) (drop (i * MAX_PAYLOAD) m) = chunk m i"
  unfolding chunk_def by (cases "MAX_PAYLOAD \<le> length m - i * MAX_PAYLOAD") simp_all

lemma concat_chunks: "concat (map (chunk m) [0..<k]) = take (k * MAX_PAYLOAD) m"
proof (induction k)
  case (Suc k)
  then show ?case using take_add [of "k * MAX_PAYLOAD" MAX_PAYLOAD m] by (simp add: chunk_def add.commute)
qed simp

lemma fragment_count_covers: "length m \<le> fragment_count m * MAX_PAYLOAD"
  by (simp add: fragment_count_def MAX_PAYLOAD_def)

lemma fragment_nth:
  assumes "i < fragment_count m"
  shows "fragment m mid ! i = hdr_bytes \<lparr>message_id = mid, fragment_id = of_nat i, total_fragments = of_nat (fragment_count m),
     payload_size = of_nat (min MAX_PAYLOAD (length m - i * MAX_PAYLOAD))\<rparr> @ chunk m i"
  using assms by (simp add: fragment_def fragment_packet_def Let_def take_min_chunk)

text \<open>A buffer that has received the chunks \<open>S\<close> of \<open>m\<close>.\<close>

definition buf_for :: "byte list \<Rightarrow> nat set \<Rightarrow> ReassemblyBuffer \<Rightarrow> bool" where
  "buf_for m S b \<longleftrightarrow> unat (rb_total b) = fragment_count m \<and> length (rb_fragments b) = fragment_count m
     \<and> length (rb_received b) = fragment_count m \<and> S \<subseteq> {..<fragment_count m} \<and> rb_count b = card S
     \<and> (\<forall>i<fragment_count m. rb_received b ! i = (i \<in> S)) \<and> (\<forall>i\<in>S. rb_fragments b ! i = chunk m i)"

definition short_message :: "byte list \<Rightarrow> bool" where
  "short_message m \<longleftrightarrow> 0 < fragment_count m \<and> fragment_count m < 2 ^ 16"

lemma start_buffer_empty:
  assumes "short_message m" "total_fragments hdr = of_nat (fragment_count m)"
  shows "buf_for m {} (start_buffer now hdr empty_buffer)"
  using assms by (auto simp: short_message_def buf_for_def start_buffer_def empty_buffer_def unat_of_nat)

lemma start_buffer_kept:
  assumes "short_message m" "buf_for m S b"
  shows "start_buffer now hdr b = b"
  using assms by (auto simp: short_message_def buf_for_def start_buffer_def)

lemma store_fragment_ok:
  assumes "short_message m" "buf_for m S b" "i < fragment_count m" "fragment_id hdr = of_nat i" "drop sizeof_hdr packet = chunk m i"
  obtains b' out where "store_fragment hdr packet b = Inr (b', out)" "buf_for m (insert i S) b'"
    "\<And>x. x \<in> set out \<Longrightarrow> \<exists>j. x = ReceivedFragment j"
proof (cases "i \<in> S")
  case True
  have "unat (fragment_id hdr) = i" using assms(1,3,4) by (simp add: short_message_def unat_of_nat)
  then have "store_fragment hdr packet b = Inr (b, [])" using assms True by (simp add: store_fragment_def buf_for_def)
  then show thesis using that [of b "[]"] assms(2) True by (simp add: insert_absorb)
next
  case False
  have id: "unat (fragment_id hdr) = i" using assms(1,3,4) by (simp add: short_message_def unat_of_nat)
  let ?b = "b\<lparr>rb_fragments := (rb_fragments b)[i := chunk m i], rb_received := (rb_received b)[i := True], rb_count := rb_count b + 1\<rparr>"
  have "store_fragment hdr packet b = Inr (?b, [ReceivedFragment (fragment_id hdr)])"
    using assms False id by (simp add: store_fragment_def buf_for_def)
  moreover have "finite S" using assms(2) finite_subset by (fastforce simp: buf_for_def)
  then have "buf_for m (insert i S) ?b" using assms False by (auto simp: buf_for_def nth_list_update)
  ultimately show thesis using that by auto
qed

lemma assemble_loop_ok: "i + n \<le> length fs \<Longrightarrow> assemble_loop fs i n = Inr (concat (take n (drop i fs)))"
  by (induction n arbitrary: i) (simp_all add: Cons_nth_drop_Suc [symmetric])

lemma assemble_complete:
  assumes "map_of (reassembly_map r) mid = Some b" "buf_for m {..<fragment_count m} b"
  shows "assemble r mid = Inr (r\<lparr>reassembly_map := AList.delete mid (reassembly_map r)\<rparr>, [ReassembledMessage m])"
proof -
  have "rb_fragments b = map (chunk m) [0..<fragment_count m]" using assms(2) by (intro nth_equalityI) (auto simp: buf_for_def)
  then have "concat (rb_fragments b) = m" using fragment_count_covers [of m] by (simp add: concat_chunks)
  moreover have "length (rb_fragments b) = unat (rb_total b)" using assms(2) by (simp add: buf_for_def)
  ultimately show ?thesis using assms by (simp add: assemble_def buffer_at_def assemble_loop_ok)
qed

definition buffers :: "Reassembler \<Rightarrow> 32 word \<Rightarrow> ReassemblyBuffer option" where
  "buffers r = map_of (reassembly_map r)"

text \<open>What the reassembler holds for message \<open>mid\<close> after the chunks \<open>S\<close> of it.\<close>

definition holds :: "byte list \<Rightarrow> nat set \<Rightarrow> ReassemblyBuffer option \<Rightarrow> bool" where
  "holds m S ob \<longleftrightarrow> (case ob of None \<Rightarrow> S = {} | Some b \<Rightarrow> buf_for m S b)"

lemma processFragment_step:
  assumes m: "short_message m" and i: "i < fragment_count m" and h: "holds m S (buffers r mid)"
  obtains r' out where "processFragment now r (fragment m mid ! i) = Inr (r', out)"
    "insert i S \<noteq> {..<fragment_count m} \<Longrightarrow> holds m (insert i S) (buffers r' mid) \<and> (\<forall>x\<in>set out. \<exists>j. x = ReceivedFragment j)"
    "insert i S = {..<fragment_count m} \<Longrightarrow> buffers r' mid = None \<and>
        (\<exists>pre. out = pre @ [ReassembledMessage m] \<and> (\<forall>x\<in>set pre. \<exists>j. x = ReceivedFragment j))"
    "\<And>mid'. mid' \<noteq> mid \<Longrightarrow> buffers r' mid' = buffers r mid'" "timeout_seconds r' = timeout_seconds r"
proof -
  let ?hdr = "\<lparr>message_id = mid, fragment_id = of_nat i, total_fragments = of_nat (fragment_count m),
     payload_size = of_nat (min MAX_PAYLOAD (length m - i * MAX_PAYLOAD))\<rparr>"
  let ?b0 = "start_buffer now ?hdr (buffer_at r mid)"
  have b0: "buf_for m S ?b0"
    using h start_buffer_empty [OF m, of ?hdr now] start_buffer_kept [OF m, of S]
    by (auto simp: holds_def buffers_def buffer_at_def split: option.splits)
  obtain b out where st: "store_fragment ?hdr (fragment m mid ! i) ?b0 = Inr (b, out)" "buf_for m (insert i S) b"
    "\<And>x. x \<in> set out \<Longrightarrow> \<exists>j. x = ReceivedFragment j"
    by (rule store_fragment_ok [OF m b0 i, of ?hdr "fragment m mid ! i"]) (simp_all add: fragment_nth [OF i])
  let ?r = "put_buffer r mid b"
  have r: "buffers ?r mid = Some b" "\<And>mid'. mid' \<noteq> mid \<Longrightarrow> buffers ?r mid' = buffers r mid'"
    by (simp_all add: buffers_def put_buffer_def update_conv')
  have count: "rb_count b = unat (rb_total b) \<longleftrightarrow> insert i S = {..<fragment_count m}"
    using st(2) card_subset_eq [of "{..<fragment_count m}" "insert i S"] by (auto simp: buf_for_def)
  have eq: "processFragment now r (fragment m mid ! i) =
    (if insert i S = {..<fragment_count m} then rbind (assemble ?r mid) (\<lambda>(r, out'). Inr (r, out @ out')) else Inr (?r, out))"
    using st(1) count by (simp add: processFragment_def fragment_nth [OF i])
  show thesis
  proof (cases "insert i S = {..<fragment_count m}")
    case True
    have "assemble ?r mid = Inr (?r\<lparr>reassembly_map := AList.delete mid (reassembly_map ?r)\<rparr>, [ReassembledMessage m])"
      using assemble_complete [of ?r mid b m] r(1) st(2) True by (simp add: buffers_def)
    with eq True r st(3) show thesis
      by (intro that [of "?r\<lparr>reassembly_map := AList.delete mid (reassembly_map ?r)\<rparr>" "out @ [ReassembledMessage m]"])
        (auto simp: buffers_def put_buffer_def delete_conv')
  next
    case False
    with eq r st(2,3) show thesis by (intro that [of ?r out]) (auto simp: holds_def put_buffer_def)
  qed
qed

definition deliver :: "byte list \<Rightarrow> 32 word \<Rightarrow> (int \<times> nat) list \<Rightarrow> (int \<times> byte list) list" where
  "deliver m mid ds = map (\<lambda>(now, i). (now, fragment m mid ! i)) ds"

lemma process_incomplete:
  assumes "short_message m" "holds m S (buffers r mid)" "S \<union> snd ` set ds \<subset> {..<fragment_count m}"
  shows "\<exists>r' out. process_all r (deliver m mid ds) = Inr (r', out) \<and> holds m (S \<union> snd ` set ds) (buffers r' mid)
     \<and> (\<forall>x\<in>set out. \<exists>j. x = ReceivedFragment j) \<and> (\<forall>mid'. mid' \<noteq> mid \<longrightarrow> buffers r' mid' = buffers r mid')"
  using assms(2,3)
proof (induction ds arbitrary: r S)
  case Nil
  then show ?case by (simp add: deliver_def)
next
  case (Cons d ds)
  obtain now i where d: "d = (now, i)" by (cases d)
  have i: "i < fragment_count m" "insert i S \<noteq> {..<fragment_count m}" using Cons.prems(2) by (auto simp: d)
  obtain r1 out1 where 1: "processFragment now r (fragment m mid ! i) = Inr (r1, out1)"
    "holds m (insert i S) (buffers r1 mid)" "\<forall>x\<in>set out1. \<exists>j. x = ReceivedFragment j"
    "\<forall>mid'. mid' \<noteq> mid \<longrightarrow> buffers r1 mid' = buffers r mid'"
    using processFragment_step [OF assms(1) i(1) Cons.prems(1), of now] i(2) by (smt (verit))
  have "insert i S \<union> snd ` set ds \<subset> {..<fragment_count m}" using Cons.prems(2) by (simp add: d)
  from Cons.IH [OF 1(2) this] obtain r2 out2 where 2: "process_all r1 (deliver m mid ds) = Inr (r2, out2)"
    "holds m (insert i S \<union> snd ` set ds) (buffers r2 mid)" "\<forall>x\<in>set out2. \<exists>j. x = ReceivedFragment j"
    "\<forall>mid'. mid' \<noteq> mid \<longrightarrow> buffers r2 mid' = buffers r1 mid'" by auto
  have "process_all r (deliver m mid (d # ds)) = Inr (r2, out1 @ out2)" using 1(1) 2(1) by (simp add: deliver_def d)
  then show ?case using 1(3,4) 2(2-4) by (intro exI [of _ r2] exI [of _ "out1 @ out2"]) (auto simp: d)
qed

lemma process_all_snoc:
  assumes "process_all r ps = Inr (r1, out1)" "processFragment now r1 p = Inr (r2, out2)"
  shows "process_all r (ps @ [(now, p)]) = Inr (r2, out1 @ out2)"
  using assms
proof (induction ps arbitrary: r out1)
  case (Cons q ps)
  then show ?case by (cases q) fastforce
qed simp

text \<open>
  Claim C8: the packets of a message of 1 to 65535 fragments give the message back in whatever order they arrive, with repetitions:
  nothing is reported as reassembled until every fragment has arrived, and the packet that completes the set yields exactly the
  bytes of the message, frees its buffer and leaves the buffers of other messages alone.
\<close>

theorem reassembly_any_order:
  assumes "0 < length m" "length m \<le> 65535 * MAX_PAYLOAD" "buffers r mid = None"
    "k < length (fragment m mid)" "snd ` set ds = {..<length (fragment m mid)} - {k}"
  shows "\<exists>r' pre. process_all r (deliver m mid (ds @ [(now, k)])) = Inr (r', pre @ [ReassembledMessage m]) \<and>
    (\<forall>x\<in>set pre. \<exists>j. x = ReceivedFragment j) \<and> buffers r' = buffers r"
proof -
  have n: "length (fragment m mid) = fragment_count m" by (simp add: fragment_def Let_def)
  have "0 < (7 + length m) div 8" using assms(1) by (simp add: div_greater_zero_iff Suc_le_eq)
  then have m: "short_message m" using assms(2) by (auto simp: short_message_def fragment_count_def MAX_PAYLOAD_def add.commute)
  have part: "{} \<union> snd ` set ds \<subset> {..<fragment_count m}" using assms(4,5) n by auto
  have "holds m {} (buffers r mid)" using assms(3) by (simp add: holds_def)
  from process_incomplete [OF m this part] obtain r1 out1 where 1: "process_all r (deliver m mid ds) = Inr (r1, out1)"
    "holds m (snd ` set ds) (buffers r1 mid)" "\<forall>x\<in>set out1. \<exists>j. x = ReceivedFragment j"
    "\<forall>mid'. mid' \<noteq> mid \<longrightarrow> buffers r1 mid' = buffers r mid'" unfolding Un_empty_left by blast
  have "insert k (snd ` set ds) = {..<fragment_count m}" using assms(4,5) n by auto
  then obtain r2 pre where 2: "processFragment now r1 (fragment m mid ! k) = Inr (r2, pre @ [ReassembledMessage m])"
    "buffers r2 mid = None" "\<forall>x\<in>set pre. \<exists>j. x = ReceivedFragment j" "\<forall>mid'. mid' \<noteq> mid \<longrightarrow> buffers r2 mid' = buffers r1 mid'"
    using processFragment_step [OF m _ 1(2), of k now] assms(4) n by (smt (verit))
  have "process_all r (deliver m mid (ds @ [(now, k)])) = Inr (r2, (out1 @ pre) @ [ReassembledMessage m])"
    using process_all_snoc [OF 1(1) 2(1)] by (simp add: deliver_def)
  moreover have "buffers r2 = buffers r" using 1(4) 2(2,4) assms(3) by (intro ext) metis
  ultimately show ?thesis using 1(3) 2(3) by (intro exI [of _ r2] exI [of _ "out1 @ pre"]) auto
qed

theorem reassembly_any_order_witness:
  "\<exists>r' pre. process_all (Reassembler_new 3) (deliver (replicate 17 65) 7 ([(0, 2), (1, 0), (2, 2)] @ [(3, 1)])) =
     Inr (r', pre @ [ReassembledMessage (replicate 17 65)]) \<and>
    (\<forall>x\<in>set pre. \<exists>j. x = ReceivedFragment j) \<and> buffers r' = buffers (Reassembler_new 3)"
proof (rule reassembly_any_order)
  have n: "length (fragment (replicate 17 65) 7) = 3"
    by (simp add: fragment_def Let_def fragment_count_def MAX_PAYLOAD_def)
  show "1 < length (fragment (replicate 17 65) 7)" by (simp only: n)
  show "snd ` set [(0 :: int, 2 :: nat), (1, 0), (2, 2)] = {..<length (fragment (replicate 17 65) 7)} - {1}" by (simp only: n) auto
qed (simp_all add: MAX_PAYLOAD_def buffers_def Reassembler_new_def)

section \<open>Expiry\<close>

lemma cleanup_loop_eq:
  "cleanup_loop now secs es = (filter (\<lambda>(mid, b). elapsed_seconds now (rb_first b) \<le> secs) es,
     map (\<lambda>(mid, b). DiscardedMessage mid) (filter (\<lambda>(mid, b). elapsed_seconds now (rb_first b) > secs) es))"
  by (induction es) (auto split: prod.splits)

lemma map_of_filter_values: "distinct (map fst es) \<Longrightarrow>
  map_of (filter (\<lambda>(k, v). P v) es) k = (case map_of es k of None \<Rightarrow> None | Some v \<Rightarrow> if P v then Some v else None)"
  by (induction es) (auto split: option.splits simp: map_of_eq_None_iff rev_image_eqI dest: map_of_SomeD)

lemma distinct_keys_processFragment:
  assumes "distinct (map fst (reassembly_map r))" "processFragment now r p = Inr (r', out)"
  shows "distinct (map fst (reassembly_map r'))"
  using assms
  by (auto simp: processFragment_def assemble_def put_buffer_def Let_def distinct_update distinct_delete split: if_splits prod.splits)

lemma cleanupExpired_spec:
  assumes "distinct (map fst (reassembly_map r))"
  shows "buffers (fst (cleanupExpired now r)) mid =
    (case buffers r mid of None \<Rightarrow> None | Some b \<Rightarrow> if elapsed_seconds now (rb_first b) \<le> timeout_seconds r then Some b else None)"
  using map_of_filter_values [OF assms, of "\<lambda>b. elapsed_seconds now (rb_first b) \<le> timeout_seconds r" mid]
  by (simp add: cleanupExpired_def cleanup_loop_eq buffers_def)

lemma word_arith_wrap: "(of_nat 65536 :: 16 word) = 0"
  by simp

text \<open>A message of 65536 fragments is announced with 0 fragments, and its first packet is handled out of bounds.\<close>

lemma too_many_fragments:
  assumes "fragment_count m = 65536" "buffers r mid = None"
  shows "processFragment now r (fragment m mid ! 0) = Inl OutOfBounds"
proof -
  have "fragment m mid ! 0 = hdr_bytes \<lparr>message_id = mid, fragment_id = 0, total_fragments = 0,
     payload_size = of_nat (min MAX_PAYLOAD (length m - 0 * MAX_PAYLOAD))\<rparr> @ chunk m 0"
    using fragment_nth [of 0 m mid] assms(1) word_arith_wrap by (simp only: of_nat_0 zero_less_numeral refl) simp
  then show ?thesis using assms(2)
    by (simp add: processFragment_def store_fragment_def start_buffer_def buffer_at_def buffers_def empty_buffer_def)
qed

lemma packetFragmentation_main_events:
  "packetFragmentation_main = Inr ([ReceivedFragment 0, ReceivedFragment 1, ReceivedFragment 2, ReassembledMessage demo_message] @
     [ReceivedFragment 2, ReceivedFragment 1, ReceivedFragment 0, ReassembledMessage demo_message] @
     [ReceivedFragment 0, ReceivedFragment 2, DiscardedMessage 3])"
  by code_simp

end
