(* ===== verification/Linear_Probing.thy ===== *)
theory Linear_Probing
  imports Prelude
begin

text \<open>
  Open addressing with linear probing, as the two LRU caches in C use it (\<open>lruCache/simple/lruCacheWithHashing.c\<close> and
  \<open>lruCache/packet/hash.c\<close>): a table of node indices, -1 for an empty slot. The loops are shared by both files; they take the slot of a
  probe and the successor of a slot as functions, since one file masks and the other takes remainders. Deletion empties a slot and
  inserts the entries of the cluster behind it again.
\<close>

section \<open>The loops\<close>

fun probe_find :: "(nat \<Rightarrow> nat) \<Rightarrow> int list \<Rightarrow> (int \<Rightarrow> bool res) \<Rightarrow> nat \<Rightarrow> nat \<Rightarrow> int res" where
  "probe_find slot t matches probe 0 = Inr (-1)"
| "probe_find slot t matches probe (Suc n) =
     rbind (arr_get t (slot probe)) (\<lambda>s.
     if s = -1 then Inr (-1)
     else rbind (matches s) (\<lambda>b. if b then Inr s else probe_find slot t matches (Suc probe) n))"

fun probe_insert :: "(nat \<Rightarrow> nat) \<Rightarrow> int list \<Rightarrow> int \<Rightarrow> nat \<Rightarrow> nat \<Rightarrow> (bool \<times> int list) res" where
  "probe_insert slot t idx probe 0 = Inr (False, t)"
| "probe_insert slot t idx probe (Suc n) =
     rbind (arr_get t (slot probe)) (\<lambda>s.
     if s = -1 then rbind (arr_set t (slot probe) idx) (\<lambda>t. Inr (True, t))
     else probe_insert slot t idx (Suc probe) n)"

text \<open>The loop over the cluster behind a removed entry; \<open>ins\<close> puts a node index back into the table.\<close>

partial_function (option) reinsert_cluster :: "(nat \<Rightarrow> nat) \<Rightarrow> (int list \<Rightarrow> int \<Rightarrow> (bool \<times> int list) res) \<Rightarrow> int list \<Rightarrow> nat \<Rightarrow> int list res option" where
  "reinsert_cluster next ins t j =
     (case arr_get t j of Inl e \<Rightarrow> Some (Inl e)
      | Inr re_idx \<Rightarrow>
          if re_idx = -1 then Some (Inr t)
          else case arr_set t j (-1) of Inl e \<Rightarrow> Some (Inl e)
            | Inr t \<Rightarrow> (case ins t re_idx of Inl e \<Rightarrow> Some (Inl e)
               | Inr (b, t) \<Rightarrow> reinsert_cluster next ins t (next j)))"

declare reinsert_cluster.simps [code]

fun probe_remove :: "(nat \<Rightarrow> nat) \<Rightarrow> (nat \<Rightarrow> nat) \<Rightarrow> (int list \<Rightarrow> int \<Rightarrow> (bool \<times> int list) res) \<Rightarrow> int list \<Rightarrow> (int \<Rightarrow> bool res) \<Rightarrow> nat \<Rightarrow> nat
    \<Rightarrow> (bool \<times> int list) res option" where
  "probe_remove slot next ins t matches probe 0 = Some (Inr (False, t))"
| "probe_remove slot next ins t matches probe (Suc n) =
     obind (Some (arr_get t (slot probe))) (\<lambda>s.
     if s = -1 then Some (Inr (False, t))
     else obind (Some (matches s)) (\<lambda>b.
       if b then obind (Some (arr_set t (slot probe) (-1))) (\<lambda>t.
         obind (reinsert_cluster next ins t (next (slot probe))) (\<lambda>t. Some (Inr (True, t))))
       else probe_remove slot next ins t matches (Suc probe) n))"

text \<open>
  The operations of the caches on these loops. \<open>rd\<close> reads the flag and the key of a node; \<open>slot k\<close> is the probe sequence of key \<open>k\<close>.
\<close>

definition node_matches :: "(int \<Rightarrow> (bool \<times> 'k) res) \<Rightarrow> 'k \<Rightarrow> int \<Rightarrow> bool res" where
  "node_matches rd key s = rbind (rd s) (\<lambda>(used, k). Inr (used \<and> k = key))"

definition index_find :: "('k \<Rightarrow> nat \<Rightarrow> nat) \<Rightarrow> nat \<Rightarrow> (int \<Rightarrow> (bool \<times> 'k) res) \<Rightarrow> int list \<Rightarrow> 'k \<Rightarrow> int res" where
  "index_find slot N rd t key = probe_find (slot key) t (node_matches rd key) 0 N"

definition index_insert :: "('k \<Rightarrow> nat \<Rightarrow> nat) \<Rightarrow> nat \<Rightarrow> int list \<Rightarrow> 'k \<Rightarrow> int \<Rightarrow> (bool \<times> int list) res" where
  "index_insert slot N t key idx = probe_insert (slot key) t idx 0 N"

definition index_remove :: "('k \<Rightarrow> nat \<Rightarrow> nat) \<Rightarrow> (nat \<Rightarrow> nat) \<Rightarrow> nat \<Rightarrow> (int \<Rightarrow> (bool \<times> 'k) res) \<Rightarrow> int list \<Rightarrow> 'k \<Rightarrow> (bool \<times> int list) res option" where
  "index_remove slot next N rd t key =
     probe_remove (slot key) next (\<lambda>t re. rbind (rd re) (\<lambda>(used, k). index_insert slot N t k re)) t (node_matches rd key) 0 N"

section \<open>Reachable entries\<close>

text \<open>\<open>path t h i\<close>: slot \<open>i\<close> is found from the home slot \<open>h\<close> without passing an empty slot.\<close>

definition path_len :: "int list \<Rightarrow> nat \<Rightarrow> nat \<Rightarrow> nat \<Rightarrow> bool" where
  "path_len t h i p \<longleftrightarrow> p < length t \<and> i = (h + p) mod length t \<and> (\<forall>q<p. t ! ((h + q) mod length t) \<noteq> -1)"

definition entries :: "int list \<Rightarrow> int set" where
  "entries t = set t - {-1}"

text \<open>No node is in two slots.\<close>

definition single :: "int list \<Rightarrow> bool" where
  "single t \<longleftrightarrow> (\<forall>i<length t. \<forall>j<length t. t ! i = t ! j \<longrightarrow> t ! i \<noteq> -1 \<longrightarrow> i = j)"

definition probing :: "(int \<Rightarrow> nat) \<Rightarrow> int list \<Rightarrow> bool" where
  "probing home t \<longleftrightarrow> single t \<and> -1 \<in> set t \<and> (\<forall>i<length t. t ! i \<noteq> -1 \<longrightarrow> (\<exists>p. path_len t (home (t ! i)) i p))"

lemma entries_iff: "s \<in> entries t \<longleftrightarrow> s \<noteq> -1 \<and> (\<exists>i<length t. t ! i = s)"
  by (auto simp: entries_def in_set_conv_nth)

lemma nth_upd: "xs[i := x] ! j = (if i = j \<and> j < length xs then x else xs ! j)"
  by (cases "i < length xs") (auto simp: nth_list_update list_update_beyond)

lemma nth_in_entries: "t ! (k mod length t) \<noteq> -1 \<Longrightarrow> 0 < length t \<Longrightarrow> t ! (k mod length t) \<in> entries t"
  by (simp add: entries_def)

lemma mod_shift: "((h + q) mod N + m) mod N = (h + (q + m)) mod (N::nat)"
  by (simp add: mod_add_left_eq add.assoc)

text \<open>A path that passes slot \<open>x\<close> ends before the next empty slot behind \<open>x\<close>.\<close>

lemma path_ends_before_empty:
  assumes p: "path_len t h i p" and i: "t ! i \<noteq> -1" and q: "q < p" "x = (h + q) mod length t"
    and e: "t ! ((x + k) mod length t) = -1" "0 < k"
  shows "\<exists>d. 0 < d \<and> d < k \<and> i = (x + d) mod length t"
proof (intro exI conjI)
  show "0 < p - q" using q by simp
  show "i = (x + (p - q)) mod length t" using p q mod_shift [of h q "length t" "p - q"] by (simp add: path_len_def)
  show "p - q < k"
  proof (rule ccontr)
    assume "\<not> p - q < k"
    then have "q + k < p \<or> q + k = p" using q by linarith
    then show False using p i q e by (auto simp: path_len_def mod_shift)
  qed
qed

section \<open>Lookup\<close>

lemma slot_less: "0 < N \<Longrightarrow> k mod N < (N :: nat)" by simp

lemma probe_find_hits:
  assumes path: "path_len t h i p" "t ! i = s" "s \<noteq> -1" and slot: "\<And>q. slot q = (h + q) mod length t"
    and match: "matches s = Inr True" "\<And>s'. s' \<in> entries t \<Longrightarrow> s' \<noteq> s \<Longrightarrow> matches s' = Inr False"
  shows "q \<le> p \<Longrightarrow> p < q + n \<Longrightarrow> probe_find slot t matches q n = Inr s"
proof (induction n arbitrary: q)
  case (Suc n)
  have N: "0 < length t" using path(1) by (auto simp: path_len_def)
  show ?case
  proof (cases "q = p")
    case True
    then show ?thesis using path match N by (simp add: slot path_len_def)
  next
    case False
    then have q: "q < p" using Suc.prems by simp
    let ?s = "t ! ((h + q) mod length t)"
    have occ: "?s \<noteq> -1" using path(1) q by (simp add: path_len_def)
    then have "?s \<in> entries t" using N by (rule nth_in_entries)
    then show ?thesis using q occ match N Suc.IH [of "Suc q"] Suc.prems by (cases "?s = s") (simp_all add: slot)
  qed
qed simp

lemma probe_find_misses:
  assumes "0 < length t" and slot: "\<And>q. slot q = (h + q) mod length t" and match: "\<And>s. s \<in> entries t \<Longrightarrow> matches s = Inr False"
  shows "probe_find slot t matches q n = Inr (-1)"
proof (induction n arbitrary: q)
  case (Suc n)
  let ?s = "t ! ((h + q) mod length t)"
  have "?s = -1 \<or> ?s \<in> entries t" using assms(1) nth_in_entries by blast
  then show ?case using Suc assms(1) match by (auto simp: slot)
qed simp

section \<open>Insertion\<close>

lemma probe_insert_at:
  assumes p: "path_len t h i p" and e: "t ! i = -1" and slot: "\<And>q. slot q = (h + q) mod length t"
  shows "q \<le> p \<Longrightarrow> p < q + n \<Longrightarrow> probe_insert slot t s q n = Inr (True, t[i := s])"
proof (induction n arbitrary: q)
  case (Suc n)
  have N: "0 < length t" using p by (auto simp: path_len_def)
  show ?case
  proof (cases "q = p")
    case True
    then show ?thesis using p e N by (simp add: slot path_len_def)
  next
    case False
    then have "q < p" using Suc.prems by simp
    then show ?thesis using p N Suc by (auto simp: slot path_len_def)
  qed
qed simp

text \<open>From every home slot the first empty slot is reached.\<close>

lemma first_empty:
  assumes "i < length t" "t ! i = -1" "h < length t"
  obtains j p where "path_len t h j p" "t ! j = -1" "\<And>p'. p' < length t \<Longrightarrow> t ! ((h + p') mod length t) = -1 \<Longrightarrow> p \<le> p'"
proof -
  let ?P = "\<lambda>p. p < length t \<and> t ! ((h + p) mod length t) = -1"
  have "?P ((i + length t - h) mod length t)" using assms by (auto simp: mod_add_right_eq)
  then have "?P (LEAST p. ?P p)" by (rule LeastI)
  moreover have "\<And>p'. ?P p' \<Longrightarrow> (LEAST p. ?P p) \<le> p'" by (rule Least_le)
  ultimately show thesis
    using not_less_Least [of _ ?P] by (intro that [of "(h + (LEAST p. ?P p)) mod length t" "LEAST p. ?P p"]) (auto simp: path_len_def)
qed

lemma path_len_update:
  assumes "path_len t h i p" "s \<noteq> -1"
  shows "path_len (t[j := s]) h i p"
  using assms by (auto simp: path_len_def nth_upd)

lemma entries_insert: "i < length t \<Longrightarrow> t ! i = -1 \<Longrightarrow> s \<noteq> -1 \<Longrightarrow> entries (t[i := s]) = insert s (entries t)"
  by (auto simp: entries_iff nth_upd) (metis (full_types))+

lemma entries_remove: "i < length t \<Longrightarrow> single t \<Longrightarrow> t ! i \<noteq> -1 \<Longrightarrow> entries (t[i := -1]) = entries t - {t ! i}"
  by (auto simp: entries_iff nth_upd single_def split: if_splits)

lemma single_insert: "single t \<Longrightarrow> s \<notin> entries t \<Longrightarrow> single (t[i := s])"
  by (auto simp: single_def entries_iff nth_upd split: if_splits)

lemma single_remove: "single t \<Longrightarrow> single (t[i := -1])"
  by (auto simp: single_def nth_upd)

lemma probing_insert:
  assumes inv: "probing home t" and s: "s \<notin> entries t" "s \<noteq> -1" "home s < length t"
    and slot: "\<And>q. slot q = (home s + q) mod length t"
  obtains t' where "probe_insert slot t s 0 (length t) = Inr (True, t')" "entries t' = insert s (entries t)" "length t' = length t"
    "2 \<le> card {i. i < length t \<and> t ! i = -1} \<Longrightarrow> probing home t'"
proof -
  obtain i where i: "i < length t" "t ! i = -1" using inv by (auto simp: probing_def in_set_conv_nth)
  obtain j p where p: "path_len t (home s) j p" "t ! j = -1" using first_empty [OF i s(3)] by metis
  have j: "j < length t" using p(1) by (auto simp: path_len_def)
  show thesis
  proof
    show "probe_insert slot t s 0 (length t) = Inr (True, t[j := s])"
      using probe_insert_at [OF p slot, of 0 "length t"] p(1) by (simp add: path_len_def)
    show "entries (t[j := s]) = insert s (entries t)" using entries_insert [OF j p(2) s(2)] .
    show "probing home (t[j := s])" if two: "2 \<le> card {i. i < length t \<and> t ! i = -1}"
    proof -
      have "{i. i < length t \<and> t ! i = -1} \<noteq> {j}" using two by (metis card_1_singleton_iff One_nat_def Suc_1 not_less_eq_eq order_refl)
      then obtain k where "k < length t" "t ! k = -1" "k \<noteq> j" using j p(2) by blast
      then have "-1 \<in> set (t[j := s])" using nth_mem [of k "t[j := s]"] by (simp add: nth_upd)
      moreover have "\<exists>p. path_len (t[j := s]) (home (t[j := s] ! i)) i p" if i': "i < length t" "t[j := s] ! i \<noteq> -1" for i
      proof (cases "i = j")
        case True
        then show ?thesis using path_len_update [OF p(1) s(2), of j] i' by (auto simp: nth_upd)
      next
        case False
        then obtain p' where "path_len t (home (t ! i)) i p'" using inv i' by (auto simp: probing_def nth_upd)
        then show ?thesis using path_len_update [OF _ s(2), of t "home (t ! i)" i p' j] False by (auto simp: nth_upd)
      qed
      ultimately show ?thesis using inv single_insert [OF _ s(1)] by (simp add: probing_def)
    qed
  qed simp
qed

section \<open>Deletion\<close>

text \<open>
  While the cluster is inserted again: the \<open>k\<close> slots from \<open>j\<close> on still wait, the slot behind them is empty, every other entry is
  reachable, and the way from the home slot of a waiting entry does not pass that empty slot.
\<close>

definition waiting :: "int list \<Rightarrow> nat \<Rightarrow> nat \<Rightarrow> nat set" where
  "waiting t j k = (\<lambda>d. (j + d) mod length t) ` {..<k}"

definition reinserting :: "(int \<Rightarrow> nat) \<Rightarrow> int list \<Rightarrow> nat \<Rightarrow> nat \<Rightarrow> bool" where
  "reinserting home t j k \<longleftrightarrow> single t \<and> j < length t \<and> k < length t \<and> t ! ((j + k) mod length t) = -1
     \<and> (\<forall>d<k. t ! ((j + d) mod length t) \<noteq> -1)
     \<and> (\<forall>i<length t. i \<notin> waiting t j k \<longrightarrow> t ! i \<noteq> -1 \<longrightarrow> (\<exists>p. path_len t (home (t ! i)) i p))
     \<and> (\<forall>i\<in>waiting t j k. \<exists>p<length t. i = (home (t ! i) + p) mod length t \<and> (\<forall>q\<le>p. (home (t ! i) + q) mod length t \<noteq> (j + k) mod length t))"

lemma waiting_length: "length t' = length t \<Longrightarrow> waiting t' j k = waiting t j k"
  by (simp add: waiting_def)

lemma waiting_Suc: "waiting t j (Suc k) = insert (j mod length t) (waiting t (Suc j mod length t) k)"
proof -
  have "{..<Suc k} = insert 0 (Suc ` {..<k})" by (auto simp: image_iff less_Suc_eq_0_disj)
  then show ?thesis by (simp add: waiting_def image_image mod_add_left_eq)
qed

text \<open>Emptying a slot in front of the waiting ones does not cut off an entry that does not wait.\<close>

lemma path_survives:
  assumes p: "path_len t h i p" and i: "t ! i \<noteq> -1" "i \<noteq> x" "x < length t"
    and e: "t ! ((x + Suc k) mod length t) = -1" and w: "i \<notin> waiting t (Suc x mod length t) k"
  shows "path_len (t[x := -1]) h i p"
proof -
  have "(h + q) mod length t \<noteq> x" if q: "q < p" for q
  proof
    assume x: "(h + q) mod length t = x"
    obtain d where "0 < d" "d < Suc k" "i = (x + d) mod length t"
      using path_ends_before_empty [OF p i(1) q x [symmetric] e] by auto
    then obtain d' where "d = Suc d'" by (cases d) auto
    with \<open>d < Suc k\<close> \<open>i = _\<close> have "i = (Suc x mod length t + d') mod length t" "d' < k" by (simp_all add: mod_add_left_eq)
    then show False using w by (auto simp: waiting_def)
  qed
  then show ?thesis using p by (auto simp: path_len_def nth_upd)
qed

lemma waiting_keeps:
  assumes "reinserting home t j (Suc k)" "i \<in> waiting t (Suc j mod length t) k"
  shows "i \<noteq> j" "i < length t" "t ! i \<noteq> -1"
proof -
  from assms(2) obtain d where d: "d < k" "i = (j + Suc d) mod length t" by (auto simp: waiting_def mod_add_left_eq)
  have N: "j < length t" "Suc k < length t" using assms(1) by (auto simp: reinserting_def)
  show "t ! i \<noteq> -1" using assms(1) d by (auto simp: reinserting_def)
  show "i < length t" using d(2) N by simp
  show "i \<noteq> j" using ring_index_neq [of 0 "Suc d" "length t" j] d N by auto
qed

lemma reinsert_step:
  assumes inv: "reinserting home t j (Suc k)" and home: "\<And>s. s \<in> entries t \<Longrightarrow> home s < length t"
  obtains t' where "probe_insert (\<lambda>q. (home (t ! j) + q) mod length t) (t[j := -1]) (t ! j) 0 (length t) = Inr (True, t')"
    "reinserting home t' (Suc j mod length t) k" "entries t' = entries t" "length t' = length t"
proof -
  let ?N = "length t" and ?s = "t ! j" and ?t = "t[j := -1]"
  have N: "j < ?N" "Suc k < ?N" using inv by (auto simp: reinserting_def)
  have e: "t ! ((j + Suc k) mod ?N) = -1" and single: "single t" using inv by (auto simp: reinserting_def)
  have occ: "?s \<noteq> -1" using inv N by (auto simp: reinserting_def dest: spec [of _ 0])
  have s: "?s \<in> entries t" using occ N by (auto simp: entries_def)
  have "j \<in> waiting t j (Suc k)" using N by (simp add: waiting_Suc)
  then obtain p where p: "p < ?N" "j = (home ?s + p) mod ?N" "\<forall>q\<le>p. (home ?s + q) mod ?N \<noteq> (j + Suc k) mod ?N"
    using inv unfolding reinserting_def by blast
  obtain l q where l: "path_len ?t (home ?s) l q" "?t ! l = -1"
    and least: "\<And>p'. p' < ?N \<Longrightarrow> ?t ! ((home ?s + p') mod ?N) = -1 \<Longrightarrow> q \<le> p'"
    using first_empty [of j ?t "home ?s"] N home [OF s] by auto
  have "q \<le> p" using least [of p] p N by (simp add: nth_upd)
  then have le: "l \<noteq> (j + Suc k) mod ?N" using l(1) p(3) by (auto simp: path_len_def)
  have lN: "l < ?N" using l(1) N by (auto simp: path_len_def)
  let ?t' = "?t[l := ?s]"
  have wl: "l \<notin> waiting t (Suc j mod ?N) k" 
  proof
    assume "l \<in> waiting t (Suc j mod ?N) k"
    from waiting_keeps [OF inv this] l(2) show False by (simp add: nth_upd)
  qed
  have ent: "entries ?t = entries t - {?s}" using entries_remove [OF N(1) single occ] .
  have "single ?t'" using single_insert [OF single_remove [OF single], of ?s j l] ent by simp
  moreover have "?t' ! ((Suc j mod ?N + k) mod ?N) = -1" using e le N by (simp add: nth_upd mod_add_left_eq)
  moreover have "?t' ! ((Suc j mod ?N + d) mod ?N) \<noteq> -1" if "d < k" for d
  proof -
    have "(Suc j mod ?N + d) mod ?N \<in> waiting t (Suc j mod ?N) k" using that by (auto simp: waiting_def)
    with waiting_keeps [OF inv this] wl show ?thesis by (auto simp: nth_upd)
  qed
  moreover have "\<exists>p. path_len ?t' (home (?t' ! i)) i p" if i: "i < ?N" "i \<notin> waiting t (Suc j mod ?N) k" "?t' ! i \<noteq> -1" for i
  proof (cases "i = l")
    case True
    then show ?thesis using path_len_update [OF l(1) occ, of l] lN by (auto simp: nth_upd)
  next
    case False
    then have ij: "i \<noteq> j" "t ! i \<noteq> -1" using i(1,3) by (auto simp: nth_upd split: if_splits)
    then have "i \<notin> waiting t j (Suc k)" using i(2) N by (simp add: waiting_Suc)
    then obtain p' where "path_len t (home (t ! i)) i p'" using inv i(1) ij(2) by (auto simp: reinserting_def)
    from path_survives [OF this ij(2,1) N(1) e i(2)] have "path_len ?t (home (t ! i)) i p'" .
    then show ?thesis using path_len_update [OF _ occ, of ?t "home (t ! i)" i p' l] False ij by (auto simp: nth_upd)
  qed
  moreover have "\<exists>p<?N. i = (home (?t' ! i) + p) mod ?N \<and> (\<forall>q\<le>p. (home (?t' ! i) + q) mod ?N \<noteq> (Suc j mod ?N + k) mod ?N)"
    if i: "i \<in> waiting t (Suc j mod ?N) k" for i
  proof -
    have "?t' ! i = t ! i" using waiting_keeps [OF inv i] i wl by (auto simp: nth_upd)
    moreover have "i \<in> waiting t j (Suc k)" using i by (simp add: waiting_Suc)
    then have "\<exists>p<?N. i = (home (t ! i) + p) mod ?N \<and> (\<forall>q\<le>p. (home (t ! i) + q) mod ?N \<noteq> (j + Suc k) mod ?N)"
      using inv unfolding reinserting_def by blast
    ultimately show ?thesis by (simp add: mod_add_left_eq)
  qed
  ultimately have "reinserting home ?t' (Suc j mod ?N) k"
    using N by (simp add: reinserting_def waiting_length [of ?t' t])
  moreover have "probe_insert (\<lambda>q. (home ?s + q) mod ?N) ?t ?s 0 ?N = Inr (True, ?t')"
    using probe_insert_at [OF l, of "\<lambda>q. (home ?s + q) mod ?N" 0 ?N ?s] l(1) by (simp add: path_len_def)
  moreover have "entries ?t' = entries t" using entries_insert [of l ?t ?s] lN l(2) occ ent s by auto
  ultimately show thesis using that by simp
qed

text \<open>The loop ends, with every entry reachable and none lost.\<close>

lemma reinsert_cluster_ok:
  assumes inv: "reinserting home t j k" and home: "\<And>s. s \<in> entries t \<Longrightarrow> home s < length t"
    and nxt: "\<And>i. i < length t \<Longrightarrow> next i = Suc i mod length t"
    and ins: "\<And>t' s. length t' = length t \<Longrightarrow> s \<in> entries t \<Longrightarrow> ins t' s = probe_insert (\<lambda>q. (home s + q) mod length t) t' s 0 (length t)"
  shows "\<exists>t'. reinsert_cluster next ins t j = Some (Inr t') \<and> probing home t' \<and> entries t' = entries t \<and> length t' = length t"
  using assms
proof (induction k arbitrary: t j)
  case 0
  have j: "j < length t" "t ! j = -1" using 0(1) by (auto simp: reinserting_def)
  have "waiting t j 0 = {}" by (simp add: waiting_def)
  then have "probing home t" using 0(1) j nth_mem [of j t] by (auto simp: reinserting_def probing_def)
  then show ?case using j by (subst reinsert_cluster.simps) simp
next
  case (Suc k)
  have j: "j < length t" "t ! j \<noteq> -1" using Suc.prems(1) by (auto simp: reinserting_def dest: spec [of _ 0])
  obtain t' where t': "probe_insert (\<lambda>q. (home (t ! j) + q) mod length t) (t[j := -1]) (t ! j) 0 (length t) = Inr (True, t')"
    "reinserting home t' (Suc j mod length t) k" "entries t' = entries t" "length t' = length t"
    using reinsert_step [OF Suc.prems(1,2)] by blast
  have "t ! j \<in> entries t" using j by (auto simp: entries_def)
  then have "reinsert_cluster next ins t j = reinsert_cluster next ins t' (Suc j mod length t)"
    using j t'(1) Suc.prems(3,4) by (subst reinsert_cluster.simps) simp
  moreover have "\<exists>t''. reinsert_cluster next ins t' (Suc j mod length t) = Some (Inr t'') \<and> probing home t'' \<and> entries t'' = entries t' \<and> length t'' = length t'"
    using Suc.prems t' by (intro Suc.IH) auto
  ultimately show ?case using t' by auto
qed

lemma reinserting_start:
  assumes inv: "probing home t" and x: "x < length t" "t ! x \<noteq> -1"
  obtains k where "reinserting home (t[x := -1]) (Suc x mod length t) k"
proof -
  let ?N = "length t" and ?j = "Suc x mod length t" and ?t = "t[x := -1]"
  obtain i where i: "i < ?N" "t ! i = -1" using inv by (auto simp: probing_def in_set_conv_nth)
  have N: "0 < ?N" using x by linarith
  obtain e k where k: "path_len t ?j e k" "t ! e = -1"
    using first_empty [OF i, of ?j] N by (metis mod_less_divisor)
  have e: "e = (?j + k) mod ?N" "k < ?N" using k(1) by (auto simp: path_len_def)
  have ex: "e \<noteq> x" using k(2) x by auto
  have kN: "Suc k < ?N"
  proof (rule ccontr)
    assume "\<not> Suc k < ?N"
    then have "Suc k = ?N" using e(2) by simp
    then have "(?j + k) mod ?N = x" using x by (metis add_Suc_right add_Suc_shift mod_add_left_eq mod_add_self2 mod_less)
    with ex e show False by simp
  qed
  have e': "t ! ((x + Suc k) mod ?N) = -1" using k(2) e by (simp add: mod_add_left_eq)
  have w: "i \<noteq> x \<and> i < ?N \<and> t ! i \<noteq> -1" if "i \<in> waiting t ?j k" for i
  proof -
    from that obtain d where d: "d < k" "i = (?j + d) mod ?N" by (auto simp: waiting_def)
    then have "i = (x + Suc d) mod ?N" by (simp add: mod_add_left_eq)
    then have "i \<noteq> x" using ring_index_neq [of 0 "Suc d" ?N x] d kN x by auto
    then show ?thesis using k(1) d N by (auto simp: path_len_def)
  qed
  have "reinserting home ?t ?j k"
    unfolding reinserting_def
  proof (intro conjI allI impI ballI)
    show "single ?t" using inv single_remove by (auto simp: probing_def)
    show "?t ! ((?j + k) mod length ?t) = -1" using e k(2) by (simp add: nth_upd)
    show "?t ! ((?j + d) mod length ?t) \<noteq> -1" if "d < k" for d
      using w [of "(?j + d) mod ?N"] that by (auto simp: waiting_def nth_upd)
    show "\<exists>p. path_len ?t (home (?t ! i)) i p" if "i < length ?t" "i \<notin> waiting ?t ?j k" "?t ! i \<noteq> -1" for i
    proof -
      have i: "i \<noteq> x" "t ! i \<noteq> -1" "i < ?N" "i \<notin> waiting t ?j k"
        using that waiting_length [of ?t t] by (auto simp: nth_upd split: if_splits)
      then obtain p where "path_len t (home (t ! i)) i p" using inv by (auto simp: probing_def)
      from path_survives [OF this i(2,1) x(1) e' i(4)] show ?thesis using i by (auto simp: nth_upd)
    qed
    show "\<exists>p<length ?t. i = (home (?t ! i) + p) mod length ?t \<and> (\<forall>q\<le>p. (home (?t ! i) + q) mod length ?t \<noteq> (?j + k) mod length ?t)"
      if "i \<in> waiting ?t ?j k" for i
    proof -
      have i: "i \<noteq> x" "i < ?N" "t ! i \<noteq> -1" using w that waiting_length [of ?t t] by auto
      then obtain p where p: "path_len t (home (t ! i)) i p" using inv by (auto simp: probing_def)
      have "(home (t ! i) + q) mod ?N \<noteq> e" if "q \<le> p" for q
        using that p i k(2) by (cases "q = p") (auto simp: path_len_def)
      with p i e show ?thesis by (intro exI [of _ p]) (auto simp: path_len_def nth_upd)
    qed
  qed (use N kN in auto)
  then show thesis by (rule that)
qed

lemma probe_remove_hits:
  assumes path: "path_len t h i p" "t ! i = s" "s \<noteq> -1" and slot: "\<And>q. slot q = (h + q) mod length t"
    and match: "matches s = Inr True" "\<And>s'. s' \<in> entries t \<Longrightarrow> s' \<noteq> s \<Longrightarrow> matches s' = Inr False"
    and single: "single t"
  shows "q \<le> p \<Longrightarrow> p < q + n \<Longrightarrow> probe_remove slot next ins t matches q n =
    obind (reinsert_cluster next ins (t[i := -1]) (next i)) (\<lambda>t. Some (Inr (True, t)))"
proof (induction n arbitrary: q)
  case (Suc n)
  have N: "0 < length t" using path(1) by (auto simp: path_len_def)
  show ?case
  proof (cases "q = p")
    case True
    then show ?thesis using path match N by (simp add: slot path_len_def)
  next
    case False
    then have q: "q < p" using Suc.prems by simp
    let ?s = "t ! ((h + q) mod length t)"
    have occ: "?s \<noteq> -1" using path(1) q by (simp add: path_len_def)
    have "?s \<noteq> s"
    proof
      assume "?s = s"
      then have "(h + q) mod length t = i" using single path N occ by (auto simp: single_def path_len_def)
      with ring_index_neq [OF q, of "length t" h] path(1) show False by (simp add: path_len_def)
    qed
    moreover have "?s \<in> entries t" using occ N by (rule nth_in_entries)
    ultimately show ?thesis using q occ match N Suc.IH [of "Suc q"] Suc.prems by (simp add: slot)
  qed
qed simp

lemma card_empty_slots:
  assumes "single t"
  shows "card {i. i < length t \<and> t ! i = -1} + card (entries t) = length t"
proof -
  let ?O = "{i. i < length t \<and> t ! i \<noteq> -1}" and ?E = "{i. i < length t \<and> t ! i = -1}"
  have "entries t = (!) t ` ?O" by (auto simp: entries_iff)
  moreover have "inj_on ((!) t) ?O" using assms by (auto simp: inj_on_def single_def)
  ultimately have "card (entries t) = card ?O" by (simp add: card_image)
  moreover have "?E \<union> ?O = {..<length t}" by auto
  with card_Un_disjoint [of ?E ?O] have "card ?E + card ?O = length t" by (simp add: disjoint_iff)
  ultimately show ?thesis by simp
qed

section \<open>The interface of the caches\<close>

text \<open>
  What a cache relies on: a probe sequence that starts at a home slot and runs through the table. \<open>kf\<close> gives the keys of the nodes
  that are in the table.
\<close>

locale probe_sequence =
  fixes N :: nat
    and home :: "'k \<Rightarrow> nat"
    and slot :: "'k \<Rightarrow> nat \<Rightarrow> nat"
    and succ :: "nat \<Rightarrow> nat"
  assumes home_less: "home k < N"
    and slot_eq: "slot k q = (home k + q) mod N"
    and succ_eq: "i < N \<Longrightarrow> succ i = Suc i mod N"
begin

definition index_inv :: "(int \<Rightarrow> 'k) \<Rightarrow> int list \<Rightarrow> bool" where
  "index_inv kf t \<longleftrightarrow> length t = N \<and> probing (\<lambda>s. home (kf s)) t \<and> inj_on kf (entries t)"

lemma index_inv_path:
  assumes "index_inv kf t" "s \<in> entries t"
  obtains i p where "path_len t (home (kf s)) i p" "t ! i = s" "s \<noteq> -1" "i < N"
  using assms by (auto simp: index_inv_def probing_def entries_iff)

lemma index_inv_cong:
  assumes inv: "index_inv kf t" and eq: "\<And>s. s \<in> entries t \<Longrightarrow> kf' s = kf s"
  shows "index_inv kf' t"
proof -
  have "kf' (t ! i) = kf (t ! i)" if "i < length t" "t ! i \<noteq> -1" for i
    using that eq by (simp add: entries_def)
  then have "probing (\<lambda>s. home (kf' s)) t" using inv by (auto simp: index_inv_def probing_def)
  moreover have "inj_on kf' (entries t)" using inv eq by (simp add: index_inv_def inj_on_def)
  ultimately show ?thesis using inv by (simp add: index_inv_def)
qed

lemma index_inv_empty: "index_inv kf (replicate N (-1))"
proof -
  have "N > 0" using home_less [of undefined] by simp
  then show ?thesis by (auto simp: index_inv_def probing_def single_def entries_def)
qed

lemma index_find_hit:
  assumes inv: "index_inv kf t" and s: "s \<in> entries t" and rd: "\<And>s. s \<in> entries t \<Longrightarrow> rd s = Inr (True, kf s)"
  shows "index_find slot N rd t (kf s) = Inr s"
proof -
  obtain i p where p: "path_len t (home (kf s)) i p" "t ! i = s" "s \<noteq> -1" using index_inv_path [OF inv s] .
  have N: "length t = N" using inv by (simp add: index_inv_def)
  have "node_matches rd (kf s) s' = Inr False" if "s' \<in> entries t" "s' \<noteq> s" for s'
    using inv s that rd by (auto simp: node_matches_def index_inv_def inj_on_def)
  with probe_find_hits [OF p, of "slot (kf s)" "node_matches rd (kf s)" 0 N] p(1) rd [OF s] N show ?thesis
    by (simp add: index_find_def node_matches_def slot_eq path_len_def)
qed

lemma index_find_miss:
  assumes inv: "index_inv kf t" and k: "k \<notin> kf ` entries t" and rd: "\<And>s. s \<in> entries t \<Longrightarrow> rd s = Inr (True, kf s)"
  shows "index_find slot N rd t k = Inr (-1)"
proof -
  have N: "length t = N" using inv by (simp add: index_inv_def)
  have "node_matches rd k s = Inr False" if "s \<in> entries t" for s
    using k that rd by (auto simp: node_matches_def)
  then show ?thesis unfolding index_find_def
    by (intro probe_find_misses [of t _ "home k"]) (use N home_less [of k] in \<open>auto simp: slot_eq\<close>)
qed

lemma index_insert_ok:
  assumes inv: "index_inv kf t" and s: "s \<notin> entries t" "s \<noteq> -1" "kf s \<notin> kf ` entries t" and room: "card (entries t) + 2 \<le> N"
  obtains t' where "index_insert slot N t (kf s) s = Inr (True, t')" "entries t' = insert s (entries t)" "index_inv kf t'"
proof -
  have N: "length t = N" and pr: "probing (\<lambda>s. home (kf s)) t" using inv by (auto simp: index_inv_def)
  have "2 \<le> card {i. i < length t \<and> t ! i = -1}" using card_empty_slots [of t] pr room N by (auto simp: probing_def)
  with probing_insert [OF pr s(1,2), of "slot (kf s)"] obtain t' where
    "probe_insert (slot (kf s)) t s 0 (length t) = Inr (True, t')" "entries t' = insert s (entries t)" "length t' = length t"
    "probing (\<lambda>s. home (kf s)) t'" using home_less N by (auto simp: slot_eq)
  then show thesis using that [of t'] inv s(3) N by (auto simp: index_insert_def index_inv_def)
qed

lemma index_remove_hit:
  assumes inv: "index_inv kf t" and s: "s \<in> entries t" and rd: "\<And>s. s \<in> entries t \<Longrightarrow> rd s = Inr (True, kf s)"
  obtains t' where "index_remove slot succ N rd t (kf s) = Some (Inr (True, t'))" "entries t' = entries t - {s}" "index_inv kf t'"
proof -
  obtain i p where p: "path_len t (home (kf s)) i p" "t ! i = s" "s \<noteq> -1" "i < N" using index_inv_path [OF inv s] .
  have N: "length t = N" and pr: "probing (\<lambda>s. home (kf s)) t" and single: "single t"
    using inv by (auto simp: index_inv_def probing_def)
  let ?ins = "\<lambda>t re. rbind (rd re) (\<lambda>(used, k). index_insert slot N t k re)" and ?t = "t[i := -1]"
  have "node_matches rd (kf s) s' = Inr False" if "s' \<in> entries t" "s' \<noteq> s" for s'
    using inv s that rd by (auto simp: node_matches_def index_inv_def inj_on_def)
  with probe_remove_hits [OF p(1-3), of "slot (kf s)" "node_matches rd (kf s)" 0 N succ ?ins] p(1) rd [OF s] N single
  have rem: "index_remove slot succ N rd t (kf s) = obind (reinsert_cluster succ ?ins ?t (succ i)) (\<lambda>t. Some (Inr (True, t)))"
    by (simp add: index_remove_def node_matches_def slot_eq path_len_def)
  have ent: "entries ?t = entries t - {s}" using entries_remove [of i t] single p N by simp
  obtain k where k: "reinserting (\<lambda>s. home (kf s)) ?t (Suc i mod length t) k" using reinserting_start [OF pr, of i] p N by auto
  have "\<exists>t'. reinsert_cluster succ ?ins ?t (Suc i mod length t) = Some (Inr t') \<and> probing (\<lambda>s. home (kf s)) t' \<and> entries t' = entries ?t \<and> length t' = length ?t"
    by (rule reinsert_cluster_ok [OF k]) (use N ent rd home_less in \<open>auto simp: succ_eq index_insert_def slot_eq [abs_def]\<close>)
  then show thesis using that rem ent inv N p(4) succ_eq [of i] by (auto simp: index_inv_def inj_on_def)
qed

end

end
