(* ===== verification/Index_List.thy ===== *)
theory Index_List
  imports Prelude
begin

text \<open>
  Doubly linked lists threaded through an array by indices, -1 for none, as both LRU caches in C keep them. \<open>pv\<close> and \<open>nx\<close> are the link
  fields read as functions of the index; unlinking a node and pushing one to the front are the two updates every cache operation
  is made of.
\<close>

section \<open>Fields of nodes in an array\<close>

definition node_upd :: "'n list \<Rightarrow> int \<Rightarrow> ('n \<Rightarrow> 'n) \<Rightarrow> 'n list res" where
  "node_upd ns i g = rbind (arr_geti ns i) (\<lambda>n. arr_seti ns i (g n))"

definition fld :: "('n \<Rightarrow> 'a) \<Rightarrow> 'a \<Rightarrow> 'n list \<Rightarrow> int \<Rightarrow> 'a" where
  "fld f d ns i = (if 0 \<le> i \<and> i < int (length ns) then f (ns ! nat i) else d)"

definition nset :: "'n list \<Rightarrow> int \<Rightarrow> ('n \<Rightarrow> 'n) \<Rightarrow> 'n list" where
  "nset ns i g = ns[nat i := g (ns ! nat i)]"

lemma node_upd_ok [simp]: "0 \<le> i \<Longrightarrow> i < int (length ns) \<Longrightarrow> node_upd ns i g = Inr (nset ns i g)"
  by (simp add: node_upd_def nset_def)

lemma length_nset [simp]: "length (nset ns i g) = length ns"
  by (simp add: nset_def)

lemma fld_nset:
  assumes "0 \<le> i" "i < int (length ns)"
  shows "fld f d (nset ns i g) = (fld f d ns)(i := f (g (ns ! nat i)))"
proof
  fix j
  show "fld f d (nset ns i g) j = ((fld f d ns)(i := f (g (ns ! nat i)))) j"
    using assms by (cases "j = i") (auto simp: fld_def nset_def nth_list_update nat_eq_iff)
qed

lemma fld_nset_same:
  assumes "0 \<le> i" "i < int (length ns)" "\<And>n. f (g n) = f n"
  shows "fld f d (nset ns i g) = fld f d ns"
  unfolding fld_nset [OF assms(1,2)] using assms by (auto simp: fld_def)

lemma fld_nset_const:
  assumes "0 \<le> i" "i < int (length ns)" "\<And>n. f (g n) = c"
  shows "fld f d (nset ns i g) = (fld f d ns)(i := c)"
  using assms by (simp add: fld_nset)

lemma arr_geti_fld: "0 \<le> i \<Longrightarrow> i < int (length ns) \<Longrightarrow> f (ns ! nat i) = fld f d ns i"
  by (simp add: fld_def)

section \<open>Segments\<close>

definition first_of :: "'a list \<Rightarrow> 'a \<Rightarrow> 'a" where
  "first_of xs q = (case xs of [] \<Rightarrow> q | x # _ \<Rightarrow> x)"

definition last_of :: "'a \<Rightarrow> 'a list \<Rightarrow> 'a" where
  "last_of p xs = (if xs = [] then p else last xs)"

lemma first_of_simps [simp]: "first_of [] q = q" "first_of (x # xs) q = x"
  by (simp_all add: first_of_def)

lemma last_of_simps [simp]: "last_of p [] = p" "last_of p (x # xs) = last_of x xs" "last_of p (xs @ [x]) = x"
  by (simp_all add: last_of_def)

lemma first_of_append: "first_of (xs @ ys) q = first_of xs (first_of ys q)"
  by (cases xs) simp_all

lemma last_of_append: "last_of p (xs @ ys) = last_of (last_of p xs) ys"
  by (simp add: last_of_def)

lemma last_of_in: "xs \<noteq> [] \<Longrightarrow> last_of p xs \<in> set xs"
  by (simp add: last_of_def)

lemma first_of_in: "xs \<noteq> [] \<Longrightarrow> first_of xs q \<in> set xs"
  by (cases xs) simp_all

fun iseg :: "(int \<Rightarrow> int) \<Rightarrow> (int \<Rightarrow> int) \<Rightarrow> int \<Rightarrow> int list \<Rightarrow> int \<Rightarrow> bool" where
  "iseg pv nx p [] q \<longleftrightarrow> True"
| "iseg pv nx p (x # xs) q \<longleftrightarrow> pv x = p \<and> nx x = first_of xs q \<and> iseg pv nx x xs q"

lemma iseg_append: "iseg pv nx p (xs @ ys) q \<longleftrightarrow> iseg pv nx p xs (first_of ys q) \<and> iseg pv nx (last_of p xs) ys q"
  by (induction xs arbitrary: p) (auto simp: first_of_append)

lemma iseg_cong:
  "iseg pv nx p xs q \<Longrightarrow> (\<And>x. x \<in> set xs \<Longrightarrow> pv' x = pv x) \<Longrightarrow> (\<And>x. x \<in> set xs \<Longrightarrow> nx' x = nx x) \<Longrightarrow> iseg pv' nx' p xs q"
  by (induction xs arbitrary: p) auto

lemma iseg_relink_end:
  assumes "iseg pv nx p xs q" "distinct xs" "xs \<noteq> []"
  shows "iseg pv (nx(last xs := q')) p xs q'"
proof -
  obtain ys y where xs: "xs = ys @ [y]" using assms(3) by (cases xs rule: rev_cases) auto
  with assms show ?thesis by (auto simp: iseg_append intro: iseg_cong)
qed

lemma iseg_relink_start:
  assumes "iseg pv nx p xs q" "distinct xs" "xs \<noteq> []"
  shows "iseg (pv(hd xs := p')) nx p' xs q"
  using assms by (cases xs) (auto intro: iseg_cong)

section \<open>Whole lists\<close>

definition ilist :: "(int \<Rightarrow> int) \<Rightarrow> (int \<Rightarrow> int) \<Rightarrow> int \<Rightarrow> int \<Rightarrow> int list \<Rightarrow> bool" where
  "ilist pv nx h t xs \<longleftrightarrow> iseg pv nx (-1) xs (-1) \<and> h = first_of xs (-1) \<and> t = last_of (-1) xs \<and> distinct xs \<and> -1 \<notin> set xs"

lemma ilist_empty_iff: "ilist pv nx h t xs \<Longrightarrow> (h = -1 \<longleftrightarrow> xs = []) \<and> (t = -1 \<longleftrightarrow> xs = [])"
  using first_of_in [of xs "-1"] last_of_in [of xs "-1"] by (cases xs) (auto simp: ilist_def)

lemma ilist_cong:
  "ilist pv nx h t xs \<Longrightarrow> (\<And>x. x \<in> set xs \<Longrightarrow> pv' x = pv x) \<Longrightarrow> (\<And>x. x \<in> set xs \<Longrightarrow> nx' x = nx x) \<Longrightarrow> ilist pv' nx' h t xs"
  unfolding ilist_def using iseg_cong by metis

lemma ilist_ends_in: "ilist pv nx h t xs \<Longrightarrow> (h = -1 \<or> h \<in> set xs) \<and> (t = -1 \<or> t \<in> set xs)"
  using first_of_in [of xs "-1"] last_of_in [of xs "-1"] by (cases xs) (auto simp: ilist_def)

lemma ilist_neighbours:
  assumes "ilist pv nx h t (ys @ x # zs)"
  shows "pv x = last_of (-1) ys" "nx x = first_of zs (-1)" "h = x \<longleftrightarrow> ys = []" "t = x \<longleftrightarrow> zs = []"
    "last_of (-1) ys = -1 \<longleftrightarrow> ys = []" "first_of zs (-1) = -1 \<longleftrightarrow> zs = []"
proof -
  have d: "x \<notin> set ys" "x \<notin> set zs" "-1 \<notin> set ys" "-1 \<notin> set zs" using assms by (auto simp: ilist_def)
  show "pv x = last_of (-1) ys" "nx x = first_of zs (-1)" using assms by (auto simp: ilist_def iseg_append)
  show "h = x \<longleftrightarrow> ys = []" using assms d(1) first_of_in [of ys x] by (cases ys) (auto simp: ilist_def)
  show "t = x \<longleftrightarrow> zs = []" using assms d(2) last_of_in [of zs x] by (cases zs) (auto simp: ilist_def last_of_append)
  show "last_of (-1) ys = -1 \<longleftrightarrow> ys = []" using d(3) last_of_in [of ys "-1"] by (cases ys) auto
  show "first_of zs (-1) = -1 \<longleftrightarrow> zs = []" using d(4) first_of_in [of zs "-1"] by (cases zs) auto
qed

text \<open>Unlinking, as the code writes it: the neighbours that exist are linked to each other.\<close>

lemma ilist_unlink:
  assumes l: "ilist pv nx h t (ys @ x # zs)"
    and p: "p = pv x" and n: "n = nx x"
    and nx': "\<And>s. s \<in> set (ys @ zs) \<Longrightarrow> nx' s = (if p \<noteq> -1 \<and> s = p then n else nx s)"
    and pv': "\<And>s. s \<in> set (ys @ zs) \<Longrightarrow> pv' s = (if n \<noteq> -1 \<and> s = n then p else pv s)"
  shows "ilist pv' nx' (if h = x then n else h) (if t = x then p else t) (ys @ zs)"
proof -
  note nb = ilist_neighbours [OF l]
  have d: "distinct (ys @ zs)" "-1 \<notin> set (ys @ zs)" using l by (auto simp: ilist_def)
  have segs: "iseg pv nx (-1) ys x" "iseg pv nx x zs (-1)" using l by (auto simp: ilist_def iseg_append)
  have "iseg pv' nx' (-1) ys (first_of zs (-1))"
  proof (cases "ys = []")
    case False
    have "iseg pv (nx(last ys := n)) (-1) ys n" using iseg_relink_end [OF segs(1) _ False] d by simp
    moreover have "nx' s = (nx(last ys := n)) s \<and> pv' s = pv s" if "s \<in> set ys" for s
      using that nx' [of s] pv' [of s] p n nb d False first_of_in [of zs "-1"] by (auto simp: last_of_def)
    ultimately show ?thesis using n nb(2) iseg_cong by metis
  qed simp
  moreover have "iseg pv' nx' (last_of (-1) ys) zs (-1)"
  proof (cases "zs = []")
    case False
    have "iseg (pv(hd zs := p)) nx p zs (-1)" using iseg_relink_start [OF segs(2) _ False] d by simp
    moreover have "pv' s = (pv(hd zs := p)) s \<and> nx' s = nx s" if "s \<in> set zs" for s
      using that nx' [of s] pv' [of s] p n nb d False last_of_in [of ys "-1"] by (cases zs) auto
    ultimately show ?thesis using p nb(1) iseg_cong by metis
  qed simp
  moreover have "(if h = x then n else h) = first_of (ys @ zs) (-1)" "(if t = x then p else t) = last_of (-1) (ys @ zs)"
    using l nb p n by (auto simp: ilist_def first_of_append last_of_append last_of_def neq_Nil_conv)
  ultimately show ?thesis using d by (simp add: ilist_def iseg_append)
qed

lemma ilist_push:
  assumes l: "ilist pv nx h t xs" and x: "x \<notin> set xs" "x \<noteq> -1"
    and nx': "nx' x = h" "\<And>s. s \<in> set xs \<Longrightarrow> nx' s = nx s"
    and pv': "pv' x = -1" "\<And>s. s \<in> set xs \<Longrightarrow> pv' s = (if s = h then x else pv s)"
  shows "ilist pv' nx' x (if t = -1 then x else t) (x # xs)"
proof (cases xs)
  case Nil
  then show ?thesis using assms by (simp add: ilist_def)
next
  case (Cons y ys)
  have "iseg pv' nx' x xs (-1)"
    using l Cons pv'(2) nx'(2) by (auto simp: ilist_def intro: iseg_cong [of pv nx])
  then show ?thesis using l x nx'(1) pv'(1) Cons ilist_empty_iff [OF l] by (auto simp: ilist_def)
qed

section \<open>Walking a list\<close>

fun index_walk :: "(int \<Rightarrow> int) \<Rightarrow> nat \<Rightarrow> int \<Rightarrow> int list" where
  "index_walk nx 0 i = []"
| "index_walk nx (Suc n) i = (if i = -1 then [] else i # index_walk nx n (nx i))"

text \<open>A chain of next links, as the free list uses it.\<close>

fun nseg :: "(int \<Rightarrow> int) \<Rightarrow> int list \<Rightarrow> bool" where
  "nseg nx [] \<longleftrightarrow> True"
| "nseg nx (x # xs) \<longleftrightarrow> nx x = first_of xs (-1) \<and> nseg nx xs"

lemma nseg_cong: "nseg nx xs \<Longrightarrow> (\<And>x. x \<in> set xs \<Longrightarrow> nx' x = nx x) \<Longrightarrow> nseg nx' xs"
  by (induction xs) auto

lemma nseg_walk: "nseg nx xs \<Longrightarrow> -1 \<notin> set xs \<Longrightarrow> length xs \<le> n \<Longrightarrow> index_walk nx n (first_of xs (-1)) = xs"
proof (induction xs arbitrary: n)
  case Nil
  then show ?case by (cases n) simp_all
next
  case (Cons x xs)
  then show ?case by (cases n) auto
qed

lemma iseg_nseg: "iseg pv nx p xs (-1) \<Longrightarrow> nseg nx xs"
  by (induction xs arbitrary: p) auto

lemma ilist_walk: "ilist pv nx h t xs \<Longrightarrow> length xs \<le> n \<Longrightarrow> index_walk nx n h = xs"
  using iseg_nseg nseg_walk by (auto simp: ilist_def)

section \<open>Link updates of the caches\<close>

text \<open>\<open>sp\<close> and \<open>sn\<close> set the previous and the next index of a node.\<close>

definition unlink_nodes :: "(int \<Rightarrow> 'n \<Rightarrow> 'n) \<Rightarrow> (int \<Rightarrow> 'n \<Rightarrow> 'n) \<Rightarrow> 'n list \<Rightarrow> int \<Rightarrow> int \<Rightarrow> 'n list res" where
  "unlink_nodes sp sn ns p n =
     rbind (if p \<noteq> -1 then node_upd ns p (sn n) else Inr ns) (\<lambda>ns.
     if n \<noteq> -1 then node_upd ns n (sp p) else Inr ns)"

definition push_front_nodes :: "(int \<Rightarrow> 'n \<Rightarrow> 'n) \<Rightarrow> (int \<Rightarrow> 'n \<Rightarrow> 'n) \<Rightarrow> 'n list \<Rightarrow> int \<Rightarrow> int \<Rightarrow> 'n list res" where
  "push_front_nodes sp sn ns i h =
     rbind (node_upd ns i (\<lambda>n. sn h (sp (-1) n))) (\<lambda>ns.
     if h \<noteq> -1 then node_upd ns h (sp i) else Inr ns)"

text \<open>Their results, as functions of the array.\<close>

definition unlinked :: "(int \<Rightarrow> 'n \<Rightarrow> 'n) \<Rightarrow> (int \<Rightarrow> 'n \<Rightarrow> 'n) \<Rightarrow> 'n list \<Rightarrow> int \<Rightarrow> int \<Rightarrow> 'n list" where
  "unlinked sp sn ns p n = (let ns = (if p \<noteq> -1 then nset ns p (sn n) else ns) in if n \<noteq> -1 then nset ns n (sp p) else ns)"

definition pushed :: "(int \<Rightarrow> 'n \<Rightarrow> 'n) \<Rightarrow> (int \<Rightarrow> 'n \<Rightarrow> 'n) \<Rightarrow> 'n list \<Rightarrow> int \<Rightarrow> int \<Rightarrow> 'n list" where
  "pushed sp sn ns i h = (let ns = nset ns i (\<lambda>n. sn h (sp (-1) n)) in if h \<noteq> -1 then nset ns h (sp i) else ns)"

definition idx_ok :: "'n list \<Rightarrow> int \<Rightarrow> bool" where
  "idx_ok ns i \<longleftrightarrow> 0 \<le> i \<and> i < int (length ns)"

lemma idx_ok_nset [simp]: "idx_ok (nset ns i g) j = idx_ok ns j"
  by (simp add: idx_ok_def)

lemma node_upd_idx: "idx_ok ns i \<Longrightarrow> node_upd ns i g = Inr (nset ns i g)"
  by (simp add: idx_ok_def)

lemma unlink_nodes_ok: "p = -1 \<or> idx_ok ns p \<Longrightarrow> n = -1 \<or> idx_ok ns n \<Longrightarrow> unlink_nodes sp sn ns p n = Inr (unlinked sp sn ns p n)"
  by (auto simp: unlink_nodes_def unlinked_def node_upd_idx Let_def simp del: rbind_eq_Inr)

lemma push_front_nodes_ok: "idx_ok ns i \<Longrightarrow> h = -1 \<or> idx_ok ns h \<Longrightarrow> push_front_nodes sp sn ns i h = Inr (pushed sp sn ns i h)"
  by (auto simp: push_front_nodes_def pushed_def node_upd_idx Let_def simp del: rbind_eq_Inr)

lemma length_unlinked [simp]: "length (unlinked sp sn ns p n) = length ns"
  by (simp add: unlinked_def Let_def)

lemma length_pushed [simp]: "length (pushed sp sn ns i h) = length ns"
  by (simp add: pushed_def Let_def)

lemma idx_ok_links [simp]: "idx_ok (unlinked sp sn ns p n) j = idx_ok ns j" "idx_ok (pushed sp sn ns i h) j = idx_ok ns j"
  by (simp_all add: idx_ok_def)

lemma fld_unlinked:
  assumes "\<And>v n. f (sp v n) = f n" "\<And>v n. f (sn v n) = f n" "p = -1 \<or> idx_ok ns p" "n = -1 \<or> idx_ok ns n"
  shows "fld f d (unlinked sp sn ns p n) = fld f d ns"
  using assms by (auto simp: unlinked_def Let_def fld_nset_same idx_ok_def)

lemma fld_pushed:
  assumes "\<And>v n. f (sp v n) = f n" "\<And>v n. f (sn v n) = f n" "idx_ok ns i" "h = -1 \<or> idx_ok ns h"
  shows "fld f d (pushed sp sn ns i h) = fld f d ns"
  using assms by (auto simp: pushed_def Let_def fld_nset_same idx_ok_def)

locale link_fields =
  fixes gp gn :: "'n \<Rightarrow> int" and sp sn :: "int \<Rightarrow> 'n \<Rightarrow> 'n"
  assumes get_set: "gp (sp v n) = v" "gn (sp v n) = gn n" "gn (sn v n) = v" "gp (sn v n) = gp n"
begin

abbreviation pvs :: "'n list \<Rightarrow> int \<Rightarrow> int" where "pvs ns \<equiv> fld gp (-1) ns"
abbreviation nxs :: "'n list \<Rightarrow> int \<Rightarrow> int" where "nxs ns \<equiv> fld gn (-1) ns"

lemma links_unlinked:
  assumes "p = -1 \<or> idx_ok ns p" "n = -1 \<or> idx_ok ns n"
  shows "nxs (unlinked sp sn ns p n) s = (if p \<noteq> -1 \<and> s = p then n else nxs ns s)"
    "pvs (unlinked sp sn ns p n) s = (if n \<noteq> -1 \<and> s = n then p else pvs ns s)"
  using assms by (auto simp: unlinked_def Let_def fld_nset_same fld_nset_const idx_ok_def get_set)

lemma links_pushed:
  assumes "idx_ok ns i" "h = -1 \<or> idx_ok ns h" "i \<noteq> h"
  shows "nxs (pushed sp sn ns i h) s = (if s = i then h else nxs ns s)"
    "pvs (pushed sp sn ns i h) s = (if s = i then -1 else if h \<noteq> -1 \<and> s = h then i else pvs ns s)"
  using assms by (auto simp: pushed_def Let_def fld_nset_same fld_nset_const idx_ok_def get_set)

lemma list_indices:
  assumes "ilist (pvs ns) (nxs ns) h t (ys @ x # zs)" "\<forall>s\<in>set (ys @ x # zs). idx_ok ns s"
  shows "pvs ns x = -1 \<or> idx_ok ns (pvs ns x)" "nxs ns x = -1 \<or> idx_ok ns (nxs ns x)"
proof -
  note nb = ilist_neighbours(1,2) [OF assms(1)]
  show "pvs ns x = -1 \<or> idx_ok ns (pvs ns x)" using assms(2) last_of_in [of ys "-1"] unfolding nb by (cases "ys = []") auto
  show "nxs ns x = -1 \<or> idx_ok ns (nxs ns x)" using assms(2) first_of_in [of zs "-1"] unfolding nb by (cases "zs = []") auto
qed

lemma unlink_list:
  assumes "ilist (pvs ns) (nxs ns) h t (ys @ x # zs)" "\<forall>s\<in>set (ys @ x # zs). idx_ok ns s"
  shows "ilist (pvs (unlinked sp sn ns (pvs ns x) (nxs ns x))) (nxs (unlinked sp sn ns (pvs ns x) (nxs ns x)))
     (if h = x then nxs ns x else h) (if t = x then pvs ns x else t) (ys @ zs)"
  using links_unlinked [OF list_indices [OF assms]] by (intro ilist_unlink [OF assms(1) refl refl]) auto

lemma push_list:
  assumes l: "ilist (pvs ns) (nxs ns) h t xs" and ok: "\<forall>s\<in>set xs. idx_ok ns s" and i: "idx_ok ns i" "i \<notin> set xs"
  shows "ilist (pvs (pushed sp sn ns i h)) (nxs (pushed sp sn ns i h)) i (if t = -1 then i else t) (i # xs)"
proof -
  have h: "h = -1 \<or> idx_ok ns h" "i \<noteq> h" "h = -1 \<longleftrightarrow> xs = []"
    using l ok i ilist_empty_iff [OF l] first_of_in [of xs "-1"] by (auto simp: ilist_def idx_ok_def)
  show ?thesis using links_pushed [OF i(1) h(1,2)] l i h(3) by (intro ilist_push [OF l]) (auto simp: idx_ok_def)
qed

end

end
