(* ===== verification/Lru_Spec.thy ===== *)
theory Lru_Spec
  imports Prelude
begin

text \<open>
  What an LRU cache promises: a list of at most \<open>cap\<close> entries with distinct keys, most recently used first. The caches in C implement
  the interface below; what follows from it for every cache is proved here once.
\<close>

section \<open>The list of recently used entries\<close>

definition without :: "'k \<Rightarrow> ('k \<times> 'v) list \<Rightarrow> ('k \<times> 'v) list" where
  "without k es = filter (\<lambda>e. fst e \<noteq> k) es"

definition touch :: "'k \<Rightarrow> ('k \<times> 'v) list \<Rightarrow> ('k \<times> 'v) list" where
  "touch k es = (case map_of es k of None \<Rightarrow> es | Some v \<Rightarrow> (k, v) # without k es)"

definition use :: "nat \<Rightarrow> 'k \<Rightarrow> 'v \<Rightarrow> ('k \<times> 'v) list \<Rightarrow> ('k \<times> 'v) list" where
  "use cap k v es = (k, v) # take (cap - 1) (without k es)"

text \<open>All entries ever put, most recent first, as a cache of unbounded size would keep them.\<close>

definition recent :: "('k \<times> 'v) list \<Rightarrow> ('k \<times> 'v) list" where
  "recent kvs = foldl (\<lambda>es (k, v). (k, v) # without k es) [] kvs"

lemma map_of_without: "map_of (without k es) k' = (if k' = k then None else map_of es k')"
  by (induction es) (auto simp: without_def)

lemma without_absent: "k \<notin> fst ` set es \<Longrightarrow> without k es = es"
  unfolding without_def by (rule filter_True) force

lemma without_append [simp]: "without k (xs @ ys) = without k xs @ without k ys" "without k [] = []"
  "without k (e # es) = (if fst e = k then without k es else e # without k es)"
  by (simp_all add: without_def)

lemma keys_without [simp]: "fst ` set (without k es) = fst ` set es - {k}"
  by (auto simp: without_def)

lemma distinct_without: "distinct (map fst es) \<Longrightarrow> distinct (map fst (without k es))"
  by (simp add: without_def distinct_map_filter)

text \<open>An entry in the middle of the list.\<close>

lemma without_split: "distinct (map fst (ys @ (k, v) # zs)) \<Longrightarrow> without k (ys @ (k, v) # zs) = ys @ zs"
  using without_absent [of k ys] without_absent [of k zs] by (auto simp: image_iff)

lemma map_of_split: "distinct (map fst (ys @ (k, v) # zs)) \<Longrightarrow> map_of (ys @ (k, v) # zs) k = Some v"
  using map_of_eq_None_iff [of ys k] by (simp add: map_add_def)

lemma length_without:
  assumes "distinct (map fst es)" "k \<in> fst ` set es"
  shows "length (without k es) = length es - 1"
proof -
  obtain xs v ys where "es = xs @ (k, v) # ys" using assms(2) by (auto simp: in_set_conv_decomp)
  then show ?thesis using without_split [of xs k v ys] assms(1) by simp
qed

lemma distinct_keys_take: "distinct (map fst es) \<Longrightarrow> distinct (map fst (take n es))"
  by (metis distinct_take take_map)

lemma recent_snoc [simp]: "recent [] = []" "recent (kvs @ [(k, v)]) = (k, v) # without k (recent kvs)"
  by (simp_all add: recent_def)

lemma recent_distinct: "distinct (map fst (recent kvs))"
proof (induction kvs rule: rev_induct)
  case (snoc kv kvs)
  then show ?case by (cases kv) (simp add: distinct_without)
qed simp

lemma map_of_recent: "map_of (recent kvs) k = map_of (rev kvs) k"
proof (induction kvs rule: rev_induct)
  case (snoc kv kvs)
  then show ?case by (cases kv) (simp add: map_of_without)
qed simp

text \<open>Cutting after using a key is using it in the cut list.\<close>

lemma take_without_take: "take (cap - 1) (without k (take cap es)) = take (cap - 1) (without k es)" if "distinct (map fst es)"
proof (cases "k \<in> fst ` set (take cap es)")
  case True
  have "without k (drop cap es) = drop cap es"
  proof (rule without_absent)
    have "distinct (map fst (take cap es @ drop cap es))" using that by simp
    with True show "k \<notin> fst ` set (drop cap es)" by (auto simp del: append_take_drop_id)
  qed
  moreover have "without k es = without k (take cap es) @ without k (drop cap es)" by (metis append_take_drop_id without_append(1))
  moreover have "length (without k (take cap es)) = cap - 1 \<or> drop cap es = []"
  proof (cases "cap \<le> length es")
    case c: True
    have "length (without k (take cap es)) = length (take cap es) - 1"
      using length_without [OF distinct_keys_take [OF that] True] .
    with c show ?thesis by simp
  qed simp
  ultimately show ?thesis by auto
next
  case False
  then have "without k (take cap es) = take cap es" by (rule without_absent)
  moreover have "take (cap - 1) (without k es) = take (cap - 1) (take cap es)"
  proof -
    have "without k es = take cap es @ without k (drop cap es)"
      using False by (metis append_take_drop_id without_append(1) without_absent)
    then show ?thesis by (cases "cap \<le> length es") auto
  qed
  ultimately show ?thesis by simp
qed

lemma map_of_touch: "map_of (touch k es) = map_of es"
  by (auto simp: touch_def map_of_without fun_eq_iff split: option.splits)

lemma keys_touch: "fst ` set (touch k es) = fst ` set es"
  by (force simp: touch_def split: option.splits dest: map_of_SomeD)

text \<open>A list whose keys are among at most \<open>cap\<close> keys has room for each of them.\<close>

lemma use_fits:
  assumes "distinct (map fst es)" "fst ` set es \<subseteq> S" "k \<in> S" "finite S" "card S \<le> cap"
  shows "use cap k v es = (k, v) # without k es"
proof -
  have "length (without k es) = card (fst ` set es - {k})"
    using distinct_without [OF assms(1), of k] distinct_card [of "map fst (without k es)"] by simp
  also have "\<dots> \<le> card (S - {k})" using assms by (intro card_mono) auto
  also have "\<dots> \<le> cap - 1" using assms by (simp add: card_Diff_singleton)
  finally show ?thesis by (simp add: use_def)
qed

section \<open>Runs of a cache\<close>

datatype ('k, 'v) cache_op = Get 'k | Put 'k 'v

fun op_key :: "('k, 'v) cache_op \<Rightarrow> 'k" where
  "op_key (Get k) = k"
| "op_key (Put k v) = k"

fun op_vals :: "('k, 'v) cache_op \<Rightarrow> 'v set" where
  "op_vals (Get k) = {}"
| "op_vals (Put k v) = {v}"

text \<open>What the lookups of a run answer, from a cache and from a map that never forgets.\<close>

fun cache_run ::
  "('s \<Rightarrow> 'k \<Rightarrow> ('r \<times> 's) res option) \<Rightarrow> ('s \<Rightarrow> 'k \<Rightarrow> 'v \<Rightarrow> (bool \<times> 's) res option) \<Rightarrow>
    ('k, 'v) cache_op list \<Rightarrow> 's \<Rightarrow> 'r list res option"
where
  "cache_run get put [] s = Some (Inr [])"
| "cache_run get put (Get k # ops) s = obind (get s k) (\<lambda>(v, s). obind (cache_run get put ops s) (\<lambda>vs. Some (Inr (v # vs))))"
| "cache_run get put (Put k v # ops) s = obind (put s k v) (\<lambda>(_, s). cache_run get put ops s)"

fun map_run :: "('k, 'v) cache_op list \<Rightarrow> ('k \<rightharpoonup> 'v) \<Rightarrow> 'v option list" where
  "map_run [] m = []"
| "map_run (Get k # ops) m = m k # map_run ops m"
| "map_run (Put k v # ops) m = map_run ops (m(k \<mapsto> v))"

section \<open>The interface\<close>

text \<open>\<open>reply\<close> is what the code returns for a hit with a value and for a miss.\<close>

locale lru_cache =
  fixes get :: "'s \<Rightarrow> 'k \<Rightarrow> ('r \<times> 's) res option"
    and put :: "'s \<Rightarrow> 'k \<Rightarrow> 'v \<Rightarrow> (bool \<times> 's) res option"
    and inv :: "'s \<Rightarrow> bool"
    and items :: "'s \<Rightarrow> ('k \<times> 'v) list"
    and cap :: nat
    and fits :: "'v \<Rightarrow> bool"
    and key_ok :: "'k \<Rightarrow> bool"
    and reply :: "'v option \<Rightarrow> 'r"
  assumes cap_pos: "0 < cap"
    and items_distinct: "inv s \<Longrightarrow> distinct (map fst (items s)) \<and> length (items s) \<le> cap"
    and get_touches: "inv s \<Longrightarrow> key_ok k \<Longrightarrow> \<exists>s'. get s k = Some (Inr (reply (map_of (items s) k), s')) \<and> inv s' \<and> items s' = touch k (items s)"
    and put_uses: "inv s \<Longrightarrow> key_ok k \<Longrightarrow> fits v \<Longrightarrow> \<exists>s'. put s k v = Some (Inr (True, s')) \<and> inv s' \<and> items s' = use cap k v (items s)"
begin

fun put_all :: "'s \<Rightarrow> ('k \<times> 'v) list \<Rightarrow> 's res option" where
  "put_all s [] = Some (Inr s)"
| "put_all s ((k, v) # kvs) = obind (put s k v) (\<lambda>(b, s). put_all s kvs)"

lemma put_all_recent:
  assumes "inv s" "items s = take cap (recent old)" "\<forall>(k, v) \<in> set kvs. key_ok k \<and> fits v"
  shows "\<exists>s'. put_all s kvs = Some (Inr s') \<and> inv s' \<and> items s' = take cap (recent (old @ kvs))"
  using assms
proof (induction kvs arbitrary: s old)
  case (Cons kv kvs)
  obtain k v where kv: "kv = (k, v)" by (cases kv)
  obtain s1 where s1: "put s k v = Some (Inr (True, s1))" "inv s1" "items s1 = use cap k v (items s)"
    using put_uses [OF Cons.prems(1), of k v] Cons.prems(3) kv by auto
  have "items s1 = take cap (recent (old @ [(k, v)]))"
    using s1(3) Cons.prems(2) take_without_take [OF recent_distinct, of cap k old] cap_pos
    by (cases cap) (simp_all add: use_def)
  with Cons.IH [OF s1(2) this] Cons.prems(3) s1(1) show ?case by (auto simp: kv)
qed simp

text \<open>A cache holds exactly the values put last for the \<open>cap\<close> most recently used keys.\<close>

lemma puts_then_get:
  assumes "inv s" "items s = []" "\<forall>(k, v) \<in> set kvs. key_ok k \<and> fits v" "key_ok k"
  shows "\<exists>s' s''. put_all s kvs = Some (Inr s') \<and> inv s' \<and> inv s'' \<and>
    get s' k = Some (Inr (reply (if k \<in> fst ` set (take cap (recent kvs)) then map_of (rev kvs) k else None), s''))"
proof -
  obtain s' where s': "put_all s kvs = Some (Inr s')" "inv s'" "items s' = take cap (recent kvs)"
    using put_all_recent [of s "[]" kvs] assms by auto
  obtain s'' where s'': "get s' k = Some (Inr (reply (map_of (items s') k), s''))" "inv s''" using get_touches [OF s'(2) assms(4)] by blast
  have "map_of (take cap (recent kvs)) k = (if k \<in> fst ` set (take cap (recent kvs)) then map_of (rev kvs) k else None)"
  proof (cases "k \<in> fst ` set (take cap (recent kvs))")
    case True
    then obtain v where "map_of (take cap (recent kvs)) k = Some v" by (metis map_of_eq_None_iff not_None_eq)
    moreover have "map_of (recent kvs) k = Some v"
      using calculation map_of_SomeD in_set_takeD map_of_eq_Some_iff [OF recent_distinct] by metis
    ultimately show ?thesis using True by (simp add: map_of_recent)
  qed (simp add: map_of_eq_None_iff)
  then show ?thesis using s' s'' by auto
qed

text \<open>As long as the keys in use fit into the cache, it never misses: it answers as a map that never forgets.\<close>

lemma few_keys_is_map:
  assumes "inv s" "fst ` set (items s) \<subseteq> S" "finite S" "card S \<le> cap"
    and "\<forall>a \<in> set ops. op_key a \<in> S \<and> key_ok (op_key a) \<and> (\<forall>v \<in> op_vals a. fits v)"
  shows "cache_run get put ops s = Some (Inr (map reply (map_run ops (map_of (items s)))))"
  using assms
proof (induction ops arbitrary: s)
  case (Cons a ops)
  show ?case
  proof (cases a)
    case (Get k)
    with get_touches [OF Cons.prems(1), of k] Cons.prems(5) obtain t where
      t: "get s k = Some (Inr (reply (map_of (items s) k), t))" "inv t" "items t = touch k (items s)" by auto
    with Cons.IH [of t] Cons.prems Get show ?thesis by (simp add: map_of_touch keys_touch)
  next
    case (Put k v)
    with put_uses [OF Cons.prems(1), of k v] Cons.prems(5) obtain t where
      t: "put s k v = Some (Inr (True, t))" "inv t" "items t = use cap k v (items s)" by auto
    have u: "items t = (k, v) # without k (items s)"
      using t(3) use_fits [of "items s" S k cap v] items_distinct [OF Cons.prems(1)] Cons.prems Put by simp
    have "map_of (items t) = (map_of (items s))(k \<mapsto> v)" unfolding u by (simp add: fun_eq_iff map_of_without)
    moreover have "fst ` set (items t) \<subseteq> S" unfolding u using Cons.prems Put by auto
    then have "cache_run get put ops t = Some (Inr (map reply (map_run ops (map_of (items t)))))"
      using Cons.prems t(2) by (intro Cons.IH) simp_all
    ultimately show ?thesis using Put t(1) by simp
  qed
qed simp

lemma working_set_fits:
  assumes "inv s" "items s = []" "card (op_key ` set ops) \<le> cap"
    and "\<forall>a \<in> set ops. key_ok (op_key a) \<and> (\<forall>v \<in> op_vals a. fits v)"
  shows "cache_run get put ops s = Some (Inr (map reply (map_run ops (\<lambda>_. None))))"
  using few_keys_is_map [of s "op_key ` set ops" ops] assms by simp

end

text \<open>A cache whose entries can also be removed.\<close>

locale removable_lru_cache = lru_cache get put inv items cap fits key_ok reply
  for get :: "'s \<Rightarrow> 'k \<Rightarrow> ('r \<times> 's) res option" and put :: "'s \<Rightarrow> 'k \<Rightarrow> 'v \<Rightarrow> (bool \<times> 's) res option" and inv items cap fits key_ok reply +
  fixes del :: "'s \<Rightarrow> 'k \<Rightarrow> (bool \<times> 's) res option"
  assumes del_removes: "inv s \<Longrightarrow> \<exists>s'. del s k = Some (Inr (k \<in> fst ` set (items s), s')) \<and> inv s' \<and> items s' = without k (items s)"
begin

lemma removed_is_gone:
  assumes "inv s" "key_ok k"
  shows "\<exists>s' s''. del s k = Some (Inr (k \<in> fst ` set (items s), s')) \<and> get s' k = Some (Inr (reply None, s'')) \<and> inv s''"
  using del_removes [OF assms(1), of k] get_touches [OF _ assms(2)] map_of_without by metis

end

end
