(* ===== verification/Lru_Embedded.thy ===== *)
theory Lru_Embedded
  imports Linear_Probing Index_List Lru_Spec
begin

text \<open>
  \<open>lruCache/simple/lruCacheWithHashing.c\<close>: a fixed-size LRU cache in one struct, with an open-addressing hash table of node indices and a
  doubly linked list through the nodes. \<open>int16_t\<close> indices are integers here: they stay between -1 and 15, which the invariant shows.
\<close>

unbundle bit_operations_syntax

section \<open>The cache\<close>

definition CAPACITY :: nat where "CAPACITY = 16"
definition HT_SIZE :: nat where "HT_SIZE = 32"

record node_t =
  n_key :: "32 word"
  n_value :: "32 word"
  n_prev :: int
  n_next :: int
  n_used :: bool

record lru_cache_t =
  e_nodes :: "node_t list"
  e_head :: int
  e_tail :: int
  e_free_head :: int
  e_size :: int
  e_ht :: "int list"

definition ht_mask :: "32 word" where
  "ht_mask = of_nat HT_SIZE - 1"

definition hash32 :: "32 word \<Rightarrow> 32 word" where
  "hash32 x =
     (let x = x XOR drop_bit 16 x;
          x = x * 0x7feb352d;
          x = x XOR drop_bit 15 x;
          x = x * 0x846ca68b
      in x XOR drop_bit 16 x)"

definition lru_init :: lru_cache_t where
  "lru_init = \<lparr>
     e_nodes = map (\<lambda>i. \<lparr>n_key = 0, n_value = 0, n_prev = (if i = 0 then -1 else int i - 1),
       n_next = (if i = CAPACITY - 1 then -1 else int i + 1), n_used = False\<rparr>) [0..<CAPACITY],
     e_head = -1, e_tail = -1, e_free_head = 0, e_size = 0, e_ht = replicate HT_SIZE (-1)\<rparr>"

definition alloc_node :: "lru_cache_t \<Rightarrow> (int \<times> lru_cache_t) res" where
  "alloc_node c =
     (if e_free_head c = -1 then Inr (-1, c)
      else let i = e_free_head c in
        rbind (arr_geti (e_nodes c) i) (\<lambda>n.
        rbind (node_upd (e_nodes c) i (\<lambda>n. n\<lparr>n_prev := -1, n_next := -1, n_used := True\<rparr>)) (\<lambda>ns.
        Inr (i, c\<lparr>e_free_head := n_next n, e_nodes := ns\<rparr>))))"

definition free_node :: "lru_cache_t \<Rightarrow> int \<Rightarrow> lru_cache_t res" where
  "free_node c i =
     rbind (node_upd (e_nodes c) i (\<lambda>n. n\<lparr>n_used := False, n_next := e_free_head c, n_prev := -1\<rparr>)) (\<lambda>ns.
     Inr (c\<lparr>e_nodes := ns, e_free_head := i\<rparr>))"

section \<open>Its hash table\<close>

definition ht_slot :: "32 word \<Rightarrow> nat \<Rightarrow> nat" where
  "ht_slot key probe = unat (((hash32 key AND ht_mask) + of_nat probe) AND ht_mask)"

definition ht_next :: "nat \<Rightarrow> nat" where
  "ht_next j = unat ((of_nat j + 1) AND ht_mask)"

definition read_node :: "node_t list \<Rightarrow> int \<Rightarrow> (bool \<times> 32 word) res" where
  "read_node ns s = rbind (arr_geti ns s) (\<lambda>n. Inr (n_used n, n_key n))"

definition ht_find :: "lru_cache_t \<Rightarrow> 32 word \<Rightarrow> int res" where
  "ht_find c key = index_find ht_slot HT_SIZE (read_node (e_nodes c)) (e_ht c) key"

definition ht_insert :: "lru_cache_t \<Rightarrow> 32 word \<Rightarrow> int \<Rightarrow> (bool \<times> lru_cache_t) res" where
  "ht_insert c key node_idx =
     rbind (index_insert ht_slot HT_SIZE (e_ht c) key node_idx) (\<lambda>(b, t). Inr (b, c\<lparr>e_ht := t\<rparr>))"

definition ht_remove :: "lru_cache_t \<Rightarrow> 32 word \<Rightarrow> lru_cache_t res option" where
  "ht_remove c key =
     obind (index_remove ht_slot ht_next HT_SIZE (read_node (e_nodes c)) (e_ht c) key) (\<lambda>(b, t). Some (Inr (c\<lparr>e_ht := t\<rparr>)))"

section \<open>Its list\<close>

definition set_prev_idx :: "int \<Rightarrow> node_t \<Rightarrow> node_t" where "set_prev_idx v n = n\<lparr>n_prev := v\<rparr>"
definition set_next_idx :: "int \<Rightarrow> node_t \<Rightarrow> node_t" where "set_next_idx v n = n\<lparr>n_next := v\<rparr>"

definition move_to_head :: "lru_cache_t \<Rightarrow> int \<Rightarrow> lru_cache_t res" where
  "move_to_head c i =
     (if e_head c = i then Inr c
      else rbind (arr_geti (e_nodes c) i) (\<lambda>n.
        rbind (unlink_nodes set_prev_idx set_next_idx (e_nodes c) (n_prev n) (n_next n)) (\<lambda>ns.
        let t = (if e_tail c = i then n_prev n else e_tail c) in
        rbind (push_front_nodes set_prev_idx set_next_idx ns i (e_head c)) (\<lambda>ns.
        Inr (c\<lparr>e_nodes := ns, e_head := i, e_tail := (if t = -1 then i else t)\<rparr>)))))"

definition remove_tail :: "lru_cache_t \<Rightarrow> (int \<times> lru_cache_t) res" where
  "remove_tail c =
     (let t = e_tail c in
      if t = -1 then Inr (-1, c)
      else rbind (arr_geti (e_nodes c) t) (\<lambda>n.
        let p = n_prev n in
        rbind (if p \<noteq> -1 then node_upd (e_nodes c) p (set_next_idx (-1)) else Inr (e_nodes c)) (\<lambda>ns.
        rbind (node_upd ns t (\<lambda>n. n\<lparr>n_prev := -1, n_next := -1\<rparr>)) (\<lambda>ns.
        Inr (t, c\<lparr>e_nodes := ns, e_tail := p, e_head := (if p = -1 then -1 else e_head c)\<rparr>)))))"

section \<open>Its operations\<close>

definition lru_get :: "lru_cache_t \<Rightarrow> 32 word \<Rightarrow> (32 word option \<times> lru_cache_t) res" where
  "lru_get c key =
     rbind (ht_find c key) (\<lambda>idx.
     if idx = -1 then Inr (None, c)
     else rbind (move_to_head c idx) (\<lambda>c. rbind (arr_geti (e_nodes c) idx) (\<lambda>n. Inr (Some (n_value n), c))))"

definition evict_or_alloc :: "lru_cache_t \<Rightarrow> (int \<times> lru_cache_t) res option" where
  "evict_or_alloc c =
     (if e_size c \<ge> int CAPACITY then
        obind (Some (remove_tail c)) (\<lambda>(ev, c).
        if ev = -1 then Some (Inr (-1, c))
        else obind (Some (arr_geti (e_nodes c) ev)) (\<lambda>n.
             obind (ht_remove c (n_key n)) (\<lambda>c. Some (Inr (ev, c)))))
      else
        obind (Some (alloc_node c)) (\<lambda>(i, c).
        if i = -1 then Some (Inr (-1, c)) else Some (Inr (i, c\<lparr>e_size := e_size c + 1\<rparr>))))"

definition fill_and_push :: "lru_cache_t \<Rightarrow> int \<Rightarrow> 32 word \<Rightarrow> 32 word \<Rightarrow> (bool \<times> lru_cache_t) res" where
  "fill_and_push c idx key value =
     rbind (node_upd (e_nodes c) idx (\<lambda>n. n\<lparr>n_key := key, n_value := value, n_prev := -1, n_next := -1\<rparr>)) (\<lambda>ns.
     rbind (ht_insert (c\<lparr>e_nodes := ns\<rparr>) key idx) (\<lambda>(b, c).
     if \<not> b then rbind (free_node c idx) (\<lambda>c. Inr (False, c\<lparr>e_size := e_size c - 1\<rparr>))
     else rbind (if e_head c \<noteq> -1 then
                   rbind (node_upd (e_nodes c) idx (set_next_idx (e_head c))) (\<lambda>ns. node_upd ns (e_head c) (set_prev_idx idx))
                 else Inr (e_nodes c)) (\<lambda>ns.
          Inr (True, c\<lparr>e_nodes := ns, e_head := idx, e_tail := (if e_tail c = -1 then idx else e_tail c)\<rparr>))))"

definition lru_put :: "lru_cache_t \<Rightarrow> 32 word \<Rightarrow> 32 word \<Rightarrow> (bool \<times> lru_cache_t) res option" where
  "lru_put c key value =
     obind (Some (ht_find c key)) (\<lambda>idx.
     if idx \<noteq> -1 then
       obind (Some (node_upd (e_nodes c) idx (\<lambda>n. n\<lparr>n_value := value\<rparr>))) (\<lambda>ns.
       obind (Some (move_to_head (c\<lparr>e_nodes := ns\<rparr>) idx)) (\<lambda>c. Some (Inr (True, c))))
     else obind (evict_or_alloc c) (\<lambda>(idx, c).
       if idx = -1 then Some (Inr (False, c)) else Some (fill_and_push c idx key value)))"

text \<open>What \<open>lru_dump\<close> prints: index, key and value from the head on.\<close>

partial_function (option) dump_loop :: "node_t list \<Rightarrow> int \<Rightarrow> (int \<times> 32 word \<times> 32 word) list res option" where
  "dump_loop ns i =
     (if i = -1 then Some (Inr [])
      else case arr_geti ns i of Inl e \<Rightarrow> Some (Inl e)
        | Inr n \<Rightarrow> obind (dump_loop ns (n_next n)) (\<lambda>out. Some (Inr ((i, n_key n, n_value n) # out))))"

declare dump_loop.simps [code]

definition lru_dump :: "lru_cache_t \<Rightarrow> (int \<times> 32 word \<times> 32 word) list res option" where
  "lru_dump c = dump_loop (e_nodes c) (e_head c)"

text \<open>The loop of \<open>main\<close> from key \<open>k\<close> on, \<open>n\<close> rounds, with the lookups it prints.\<close>

fun lru_main_loop :: "nat \<Rightarrow> 32 word \<Rightarrow> lru_cache_t \<Rightarrow> ((32 word \<times> 32 word option) list \<times> lru_cache_t) res option" where
  "lru_main_loop 0 k c = Some (Inr ([], c))"
| "lru_main_loop (Suc n) k c =
     obind (lru_put c k (k * 10)) (\<lambda>(b, c).
     if k mod 5 = 0 then
       obind (Some (lru_get c (k - 2))) (\<lambda>(v, c).
       obind (lru_main_loop n (k + 1) c) (\<lambda>(out, c). Some (Inr ((k - 2, v) # out, c))))
     else lru_main_loop n (k + 1) c)"

definition lru_simple_main :: "((32 word \<times> 32 word option) list \<times> (int \<times> 32 word \<times> 32 word) list) res option" where
  "lru_simple_main = obind (lru_main_loop 18 1 lru_init) (\<lambda>(out, c). obind (lru_dump c) (\<lambda>d. Some (Inr (out, d))))"

section \<open>Probe sequence and link fields\<close>

lemma and_ht_mask: "unat (w AND ht_mask) = unat w mod 32"
proof -
  have "w AND ht_mask = take_bit 5 w"
    by (simp add: ht_mask_def HT_SIZE_def take_bit_eq_mask mask_eq_exp_minus_1)
  then have "unat (w AND ht_mask) = take_bit 5 (unat w)" by (simp only: unsigned_take_bit_eq)
  then show ?thesis by (simp add: take_bit_eq_mod)
qed

definition ht_home :: "32 word \<Rightarrow> nat" where
  "ht_home key = unat (hash32 key AND ht_mask)"

interpretation ht: probe_sequence HT_SIZE ht_home ht_slot ht_next
proof
  fix k :: "32 word" and q i :: nat
  show "ht_home k < HT_SIZE" by (simp add: ht_home_def and_ht_mask HT_SIZE_def)
  have "(unat (hash32 k AND ht_mask) + q) mod 2 ^ 32 mod 32 = (unat (hash32 k AND ht_mask) + q) mod 32"
    by (rule mod_mod_cancel) simp
  then show "ht_slot k q = (ht_home k + q) mod HT_SIZE"
    unfolding ht_slot_def ht_home_def and_ht_mask [of "_ + _"] HT_SIZE_def unat_word_ariths(1) unat_of_nat
    by (simp add: mod_add_right_eq del: unsigned_and_eq)
  assume "i < HT_SIZE"
  then show "ht_next i = Suc i mod HT_SIZE"
    unfolding ht_next_def and_ht_mask by (simp add: HT_SIZE_def unat_word_ariths(1) unat_of_nat)
qed

interpretation el: link_fields n_prev n_next set_prev_idx set_next_idx
  by unfold_locales (simp_all add: set_prev_idx_def set_next_idx_def)

lemma set_idx_other [simp]:
  "n_key (set_prev_idx v n) = n_key n" "n_value (set_prev_idx v n) = n_value n" "n_used (set_prev_idx v n) = n_used n"
  "n_key (set_next_idx v n) = n_key n" "n_value (set_next_idx v n) = n_value n" "n_used (set_next_idx v n) = n_used n"
  by (simp_all add: set_prev_idx_def set_next_idx_def)

section \<open>The invariant\<close>

abbreviation e_key :: "lru_cache_t \<Rightarrow> int \<Rightarrow> 32 word" where "e_key c \<equiv> fld n_key 0 (e_nodes c)"
abbreviation e_val :: "lru_cache_t \<Rightarrow> int \<Rightarrow> 32 word" where "e_val c \<equiv> fld n_value 0 (e_nodes c)"
abbreviation e_used :: "lru_cache_t \<Rightarrow> int \<Rightarrow> bool" where "e_used c \<equiv> fld n_used False (e_nodes c)"
abbreviation e_nx :: "lru_cache_t \<Rightarrow> int \<Rightarrow> int" where "e_nx c \<equiv> fld n_next (-1) (e_nodes c)"
abbreviation e_pv :: "lru_cache_t \<Rightarrow> int \<Rightarrow> int" where "e_pv c \<equiv> fld n_prev (-1) (e_nodes c)"

text \<open>
  \<open>xs\<close> are the nodes of the list, most recent first, \<open>fs\<close> those of the free list, \<open>new\<close> the nodes that are in neither: none between
  operations, one while an entry is being inserted.
\<close>

definition e_rep :: "lru_cache_t \<Rightarrow> int list \<Rightarrow> int list \<Rightarrow> int list \<Rightarrow> bool" where
  "e_rep c new xs fs \<longleftrightarrow> length (e_nodes c) = CAPACITY \<and> ilist (e_pv c) (e_nx c) (e_head c) (e_tail c) xs
     \<and> nseg (e_nx c) fs \<and> e_free_head c = first_of fs (-1)
     \<and> distinct (new @ xs @ fs) \<and> set (new @ xs @ fs) = {0..<int CAPACITY} \<and> e_size c = int (length (new @ xs))
     \<and> ht.index_inv (e_key c) (e_ht c) \<and> entries (e_ht c) = set xs \<and> (\<forall>s\<in>set (new @ xs). e_used c s)"

definition e_items :: "lru_cache_t \<Rightarrow> (32 word \<times> 32 word) list" where
  "e_items c = map (\<lambda>s. (e_key c s, e_val c s)) (index_walk (e_nx c) CAPACITY (e_head c))"

definition e_inv :: "lru_cache_t \<Rightarrow> bool" where
  "e_inv c \<longleftrightarrow> (\<exists>xs fs. e_rep c [] xs fs)"

lemma e_rep_idx: "e_rep c new xs fs \<Longrightarrow> s \<in> set (new @ xs @ fs) \<longleftrightarrow> idx_ok (e_nodes c) s"
  by (auto simp: e_rep_def idx_ok_def)

lemma e_rep_length: "e_rep c new xs fs \<Longrightarrow> length new + length xs + length fs = CAPACITY"
proof -
  assume "e_rep c new xs fs"
  then have "card (set (new @ xs @ fs)) = length (new @ xs @ fs)" "set (new @ xs @ fs) = {0..<int CAPACITY}"
    using distinct_card unfolding e_rep_def by blast+
  then show ?thesis by simp
qed

lemma e_rep_items: "e_rep c new xs fs \<Longrightarrow> e_items c = map (\<lambda>s. (e_key c s, e_val c s)) xs"
  using ilist_walk e_rep_length [of c new xs fs] by (fastforce simp: e_items_def e_rep_def)

lemma e_rep_keys: "e_rep c new xs fs \<Longrightarrow> inj_on (e_key c) (set xs) \<and> distinct xs"
  by (auto simp: e_rep_def ht.index_inv_def)

lemma e_items_distinct: "e_rep c new xs fs \<Longrightarrow> distinct (map fst (e_items c)) \<and> length (e_items c) \<le> CAPACITY"
  using e_rep_keys [of c new xs fs] e_rep_length [of c new xs fs] by (simp add: e_rep_items distinct_map o_def)

lemma read_node_ok: "e_rep c new xs fs \<Longrightarrow> s \<in> entries (e_ht c) \<Longrightarrow> read_node (e_nodes c) s = Inr (True, e_key c s)"
  using e_rep_idx [of c new xs fs s] by (auto simp: e_rep_def read_node_def idx_ok_def fld_def)

lemma ht_find_hit: "e_rep c new xs fs \<Longrightarrow> s \<in> set xs \<Longrightarrow> ht_find c (e_key c s) = Inr s"
  unfolding ht_find_def by (rule ht.index_find_hit) (auto simp: e_rep_def intro: read_node_ok)

lemma ht_find_miss: "e_rep c new xs fs \<Longrightarrow> k \<notin> e_key c ` set xs \<Longrightarrow> ht_find c k = Inr (-1)"
  unfolding ht_find_def by (rule ht.index_find_miss [where kf = "e_key c"]) (auto simp: e_rep_def intro: read_node_ok)

section \<open>Moving a node to the head\<close>

lemma move_to_head_ok:
  assumes rep: "e_rep c new (ys @ x # zs) fs"
  obtains c' where "move_to_head c x = Inr c'" "e_rep c' new (x # ys @ zs) fs" "e_key c' = e_key c" "e_val c' = e_val c"
proof (cases "e_head c = x")
  case True
  then have "ys = []" using rep ilist_neighbours(3) by (fastforce simp: e_rep_def)
  then show thesis using that [of c] rep True by (simp add: move_to_head_def)
next
  case False
  let ?ns = "e_nodes c" and ?p = "e_pv c x" and ?n = "e_nx c x"
  have l: "ilist (e_pv c) (e_nx c) (e_head c) (e_tail c) (ys @ x # zs)" using rep by (simp add: e_rep_def)
  have ok: "\<forall>s\<in>set (ys @ x # zs). idx_ok ?ns s" using e_rep_idx [OF rep] by auto
  have x: "idx_ok ?ns x" using ok by simp
  note pn = el.list_indices [OF l ok]
  let ?u = "unlinked set_prev_idx set_next_idx ?ns ?p ?n" and ?t = "if e_tail c = x then ?p else e_tail c"
  have lu: "ilist (fld n_prev (-1) ?u) (fld n_next (-1) ?u) (e_head c) ?t (ys @ zs)" using el.unlink_list [OF l ok] False by simp
  have oku: "\<forall>s\<in>set (ys @ zs). idx_ok ?u s" "idx_ok ?u x" "x \<notin> set (ys @ zs)" using ok rep by (auto simp: e_rep_def)
  let ?q = "pushed set_prev_idx set_next_idx ?u x (e_head c)"
  let ?c = "c\<lparr>e_nodes := ?q, e_head := x, e_tail := (if ?t = -1 then x else ?t)\<rparr>"
  have h: "e_head c = -1 \<or> idx_ok ?u (e_head c)" "x \<noteq> e_head c"
    using ilist_ends_in [OF lu] oku(1) False by auto
  have lq: "ilist (e_pv ?c) (e_nx ?c) x (if ?t = -1 then x else ?t) (x # ys @ zs)" using el.push_list [OF lu oku(1,2,3)] by simp
  have "move_to_head c x = Inr ?c"
    using x False unlink_nodes_ok [OF pn] push_front_nodes_ok [OF oku(2) h(1)]
    by (simp add: move_to_head_def idx_ok_def fld_def Let_def)
  moreover have "e_key ?c = e_key c" "e_val ?c = e_val c" "e_used ?c = e_used c"
    using pn oku(2) h(1) by (simp_all add: fld_pushed fld_unlinked)
  moreover have "nseg (e_nx ?c) fs"
  proof (rule nseg_cong)
    show "nseg (e_nx c) fs" using rep by (simp add: e_rep_def)
    fix s assume s: "s \<in> set fs"
    have "?p \<noteq> s" using s rep ilist_neighbours(1) [OF l] last_of_in [of ys "-1"] by (cases "ys = []") (auto simp: e_rep_def)
    moreover have "x \<noteq> s" using s rep by (auto simp: e_rep_def)
    ultimately show "e_nx ?c s = e_nx c s"
      using el.links_pushed(1) [OF oku(2) h] el.links_unlinked(1) [OF pn] by simp
  qed
  ultimately show thesis using that [of ?c] rep lq by (auto simp: e_rep_def)
qed

section \<open>Lookup\<close>

lemma e_items_at:
  assumes "e_rep c new xs fs" "k \<in> fst ` set (e_items c)"
  obtains ys x zs where "xs = ys @ x # zs" "e_key c x = k"
    "e_items c = map (\<lambda>s. (e_key c s, e_val c s)) ys @ (k, e_val c x) # map (\<lambda>s. (e_key c s, e_val c s)) zs"
proof -
  from assms obtain x where "x \<in> set xs" "e_key c x = k" by (auto simp: e_rep_items)
  then show thesis using that e_rep_items [OF assms(1)] by (auto simp: in_set_conv_decomp)
qed

lemma lru_get_ok:
  assumes "e_inv c"
  shows "\<exists>c'. lru_get c k = Inr (map_of (e_items c) k, c') \<and> e_inv c' \<and> e_items c' = touch k (e_items c)"
proof -
  obtain xs fs where rep: "e_rep c [] xs fs" using assms by (auto simp: e_inv_def)
  show ?thesis
  proof (cases "k \<in> fst ` set (e_items c)")
    case False
    then have "k \<notin> e_key c ` set xs" using e_rep_items [OF rep] by force
    then show ?thesis using False ht_find_miss [OF rep] assms
      by (intro exI [of _ c]) (simp add: lru_get_def touch_def map_of_eq_None_iff [THEN iffD2])
  next
    case True
    obtain ys x zs where xs: "xs = ys @ x # zs" "e_key c x = k"
      and items: "e_items c = map (\<lambda>s. (e_key c s, e_val c s)) ys @ (k, e_val c x) # map (\<lambda>s. (e_key c s, e_val c s)) zs"
      using e_items_at [OF rep True] .
    obtain c' where c': "move_to_head c x = Inr c'" "e_rep c' [] (x # ys @ zs) fs" "e_key c' = e_key c" "e_val c' = e_val c"
      using move_to_head_ok rep xs by metis
    have x: "idx_ok (e_nodes c') x" using e_rep_idx [OF c'(2), of x] by simp
    then have "x \<noteq> -1" by (simp add: idx_ok_def)
    moreover have "n_value (e_nodes c' ! nat x) = e_val c x" using x unfolding c'(4) [symmetric] by (simp add: idx_ok_def fld_def)
    ultimately have "lru_get c k = Inr (Some (e_val c x), c')"
      using c'(1) x ht_find_hit [OF rep, of x] xs by (simp add: lru_get_def idx_ok_def)
    moreover note d = conjunct1 [OF e_items_distinct [OF rep], unfolded items]
    have "map_of (e_items c) k = Some (e_val c x)" "without k (e_items c) = map (\<lambda>s. (e_key c s, e_val c s)) (ys @ zs)"
      unfolding items using map_of_split [OF d] without_split [OF d] by simp_all
    moreover have "e_items c' = (k, e_val c x) # map (\<lambda>s. (e_key c s, e_val c s)) (ys @ zs)"
      using e_rep_items [OF c'(2)] c'(3,4) xs(2) by simp
    ultimately show ?thesis using c'(2) by (auto simp: touch_def e_inv_def)
  qed
qed

section \<open>Insertion\<close>

lemma e_rep_value:
  fixes v :: "32 word"
  assumes "e_rep c new xs fs" "x \<in> set xs"
  defines "c' \<equiv> c\<lparr>e_nodes := nset (e_nodes c) x (\<lambda>n. n\<lparr>n_value := v\<rparr>)\<rparr>"
  shows "e_rep c' new xs fs" "e_key c' = e_key c" "e_val c' = (e_val c)(x := v)"
proof -
  have x: "0 \<le> x" "x < int (length (e_nodes c))" using e_rep_idx [OF assms(1), of x] assms(2) by (auto simp: idx_ok_def)
  show "e_key c' = e_key c" "e_val c' = (e_val c)(x := v)" "e_rep c' new xs fs"
    using assms(1) x by (simp_all add: c'_def e_rep_def fld_nset_same fld_nset_const)
qed

text \<open>With all nodes in use, the last one is taken out of the list and out of the table.\<close>

lemma remove_tail_ok:
  assumes rep: "e_rep c [] (ys @ [x]) fs" and full: "int CAPACITY \<le> e_size c"
  obtains c' where "evict_or_alloc c = Some (Inr (x, c'))" "e_rep c' [x] ys fs" "e_key c' = e_key c" "e_val c' = e_val c"
proof -
  let ?ns = "e_nodes c" and ?p = "e_pv c x"
  have l: "ilist (e_pv c) (e_nx c) (e_head c) (e_tail c) (ys @ x # [])" using rep by (simp add: e_rep_def)
  have ok: "\<forall>s\<in>set (ys @ x # []). idx_ok ?ns s" using e_rep_idx [OF rep] by auto
  note nb = ilist_neighbours [OF l] and pn = el.list_indices [OF l ok]
  have x: "idx_ok ?ns x" "x \<noteq> -1" using ok by (auto simp: idx_ok_def)
  have nxx: "e_nx c x = -1" using nb(2) by simp
  let ?u = "unlinked set_prev_idx set_next_idx ?ns ?p (-1)"
  let ?v = "nset ?u x (\<lambda>n. n\<lparr>n_prev := -1, n_next := -1\<rparr>)"
  let ?c = "c\<lparr>e_nodes := ?v, e_tail := ?p, e_head := (if ?p = -1 then -1 else e_head c)\<rparr>"
  have xu: "0 \<le> x" "x < int (length ?u)" using x by (auto simp: idx_ok_def)
  have "node_upd ?ns ?p (set_next_idx (-1)) = Inr ?u" if "?p \<noteq> -1"
    using pn(1) that by (simp add: unlinked_def node_upd_idx)
  then have rt: "remove_tail c = Inr (x, ?c)"
    using x xu nb by (auto simp: remove_tail_def Let_def idx_ok_def fld_def unlinked_def simp del: rbind_eq_Inr)
  have "ilist (fld n_prev (-1) ?u) (fld n_next (-1) ?u) (if e_head c = x then -1 else e_head c) ?p ys"
    using el.unlink_list [OF l ok] nb(4) unfolding nxx by simp
  moreover have "(if e_head c = x then -1 else e_head c) = (if ?p = -1 then -1 else e_head c)" using nb by auto
  ultimately have lu: "ilist (fld n_prev (-1) ?u) (fld n_next (-1) ?u) (e_head ?c) (e_tail ?c) ys" by simp
  have xy: "x \<notin> set ys" "x \<notin> set fs" using rep by (auto simp: e_rep_def)
  have lv: "ilist (e_pv ?c) (e_nx ?c) (e_head ?c) (e_tail ?c) ys"
    by (rule ilist_cong [OF lu]) (use xy(1) xu in \<open>auto simp: fld_nset_const\<close>)
  have flds: "e_key ?c = e_key c" "e_val ?c = e_val c" "e_used ?c = e_used c"
    using xu pn(1) by (simp_all add: fld_nset_same fld_unlinked)
  have fs: "nseg (e_nx ?c) fs"
  proof (rule nseg_cong)
    show "nseg (e_nx c) fs" using rep by (simp add: e_rep_def)
    fix s assume s: "s \<in> set fs"
    have "?p \<noteq> s" using s rep nb(1) last_of_in [of ys "-1"] by (cases "ys = []") (auto simp: e_rep_def)
    then show "e_nx ?c s = e_nx c s"
      using s xy(2) xu el.links_unlinked(1) [of ?p ?ns "-1"] pn(1) by (auto simp: fld_nset_const)
  qed
  have inv: "ht.index_inv (e_key c) (e_ht c)" "entries (e_ht c) = set (ys @ [x])" using rep by (auto simp: e_rep_def)
  have rd: "read_node ?v s = Inr (True, e_key c s)" if "s \<in> entries (e_ht c)" for s
  proof -
    have "s \<in> set (ys @ [x])" using that inv(2) by simp
    then have "0 \<le> s" "s < int (length ?v)" "fld n_used False ?v s" "fld n_key 0 ?v s = e_key c s"
      using ok rep flds by (auto simp: idx_ok_def e_rep_def)
    then show ?thesis by (simp add: read_node_def fld_def)
  qed
  obtain t where t: "index_remove ht_slot ht_next HT_SIZE (read_node ?v) (e_ht c) (e_key c x) = Some (Inr (True, t))"
    "entries t = entries (e_ht c) - {x}" "ht.index_inv (e_key c) t"
    by (rule ht.index_remove_hit [OF inv(1), of x "read_node ?v"]) (use inv(2) rd in auto)
  have "?v ! nat x = (?u ! nat x)\<lparr>n_prev := -1, n_next := -1\<rparr>" using xu by (simp add: nset_def)
  moreover have "n_key (?u ! nat x) = e_key c x"
    using fun_cong [OF fld_unlinked [of n_key set_prev_idx set_next_idx ?p ?ns "-1" 0], of x] xu pn(1) by (simp add: fld_def)
  ultimately have "arr_geti ?v x = Inr (?v ! nat x) \<and> n_key (?v ! nat x) = e_key c x" using xu by simp
  then have "evict_or_alloc c = Some (Inr (x, ?c\<lparr>e_ht := t\<rparr>))"
    using rt t(1) x(2) full by (simp add: evict_or_alloc_def ht_remove_def)
  moreover have "e_rep (?c\<lparr>e_ht := t\<rparr>) [x] ys fs"
    using rep lv fs flds t(2,3) inv(2) xy by (auto simp: e_rep_def)
  ultimately show thesis using flds by (intro that [of "?c\<lparr>e_ht := t\<rparr>"]) simp_all
qed

text \<open>Otherwise a node comes from the free list.\<close>

lemma alloc_node_ok:
  assumes rep: "e_rep c [] xs (x # fs)" and room: "e_size c < int CAPACITY"
  obtains c' where "evict_or_alloc c = Some (Inr (x, c'))" "e_rep c' [x] xs fs" "e_key c' = e_key c" "e_val c' = e_val c"
proof -
  have ok: "idx_ok (e_nodes c) x" using e_rep_idx [OF rep, of x] by simp
  then have x: "0 \<le> x" "x < int (length (e_nodes c))" "x \<noteq> -1" by (auto simp: idx_ok_def)
  let ?ns = "nset (e_nodes c) x (\<lambda>n. n\<lparr>n_prev := -1, n_next := -1, n_used := True\<rparr>)"
  let ?c = "c\<lparr>e_free_head := n_next (e_nodes c ! nat x), e_nodes := ?ns, e_size := e_size c + 1\<rparr>"
  have f: "e_free_head c = x" "n_next (e_nodes c ! nat x) = first_of fs (-1)" "x \<notin> set xs" "x \<notin> set fs"
    using rep x by (auto simp: e_rep_def fld_def)
  have "evict_or_alloc c = Some (Inr (x, ?c))" using room f(1) x by (simp add: evict_or_alloc_def alloc_node_def Let_def)
  moreover have flds: "e_key ?c = e_key c" "e_val ?c = e_val c" "e_used ?c = (e_used c)(x := True)"
    "e_pv ?c = (e_pv c)(x := -1)" "e_nx ?c = (e_nx c)(x := -1)"
    using x by (simp_all add: fld_nset_same fld_nset_const)
  moreover have "ilist (e_pv ?c) (e_nx ?c) (e_head ?c) (e_tail ?c) xs"
    unfolding flds by (rule ilist_cong [of "e_pv c" "e_nx c"]) (use rep f(3) in \<open>auto simp: e_rep_def\<close>)
  moreover have "nseg (e_nx ?c) fs"
    unfolding flds by (rule nseg_cong [of "e_nx c"]) (use rep f(4) in \<open>auto simp: e_rep_def\<close>)
  ultimately show thesis using rep f(2) by (intro that [of ?c]) (auto simp: e_rep_def)
qed

lemma evict_or_alloc_ok:
  assumes rep: "e_rep c [] xs fs"
  obtains x xs' fs' c' where "evict_or_alloc c = Some (Inr (x, c'))" "e_rep c' [x] xs' fs'" "xs' = take (CAPACITY - 1) xs"
    "e_key c' = e_key c" "e_val c' = e_val c"
proof (cases "int CAPACITY \<le> e_size c")
  case True
  have len: "length xs = CAPACITY" using True rep e_rep_length [OF rep] by (auto simp: e_rep_def)
  then obtain ys x where xs: "xs = ys @ [x]" by (cases xs rule: rev_cases) (auto simp: CAPACITY_def)
  show thesis using remove_tail_ok [OF rep [unfolded xs] True] that len xs by (metis append_eq_conv_conj butlast_snoc diff_Suc_1 length_append_singleton)
next
  case False
  then obtain x fs' where fs: "fs = x # fs'" using rep e_rep_length [OF rep] by (cases fs) (auto simp: e_rep_def)
  have "take (CAPACITY - 1) xs = xs" using e_rep_length [OF rep] fs by simp
  then show thesis using alloc_node_ok [OF rep [unfolded fs]] False that by (metis not_le)
qed

lemma fill_and_push_ok:
  assumes rep: "e_rep c [x] xs fs" and k: "k \<notin> e_key c ` set xs"
  obtains c' where "fill_and_push c x k v = Inr (True, c')" "e_rep c' [] (x # xs) fs"
    "e_key c' = (e_key c)(x := k)" "e_val c' = (e_val c)(x := v)"
proof -
  have ok: "idx_ok (e_nodes c) x" "\<forall>s\<in>set xs. idx_ok (e_nodes c) s" using e_rep_idx [OF rep] by auto
  then have x: "0 \<le> x" "x < int (length (e_nodes c))" "x \<noteq> -1" by (auto simp: idx_ok_def)
  have out: "x \<notin> set xs" "x \<notin> set fs" using rep by (auto simp: e_rep_def)
  let ?ns = "nset (e_nodes c) x (\<lambda>n. n\<lparr>n_key := k, n_value := v, n_prev := -1, n_next := -1\<rparr>)"
  let ?kf = "fld n_key 0 ?ns"
  have flds: "?kf = (e_key c)(x := k)" "fld n_value 0 ?ns = (e_val c)(x := v)" "fld n_used False ?ns = e_used c"
    "fld n_prev (-1) ?ns = (e_pv c)(x := -1)" "fld n_next (-1) ?ns = (e_nx c)(x := -1)"
    using x by (simp_all add: fld_nset_same fld_nset_const)
  have inv: "ht.index_inv ?kf (e_ht c)"
    unfolding flds by (rule ht.index_inv_cong [of "e_key c"]) (use rep out in \<open>auto simp: e_rep_def\<close>)
  have ent: "entries (e_ht c) = set xs" using rep by (simp add: e_rep_def)
  have "card (set xs) + 2 \<le> HT_SIZE"
    using e_rep_length [OF rep] card_length [of xs] by (simp add: CAPACITY_def HT_SIZE_def)
  then obtain t where t: "index_insert ht_slot HT_SIZE (e_ht c) k x = Inr (True, t)" "entries t = insert x (set xs)" "ht.index_inv ?kf t"
    using ht.index_insert_ok [OF inv, of x] ent out x k by (auto simp: flds image_iff)
  have l: "ilist (fld n_prev (-1) ?ns) (fld n_next (-1) ?ns) (e_head c) (e_tail c) xs"
    unfolding flds by (rule ilist_cong [of "e_pv c" "e_nx c"]) (use rep out in \<open>auto simp: e_rep_def\<close>)
  have h: "e_head c = -1 \<or> idx_ok ?ns (e_head c)" "x \<noteq> e_head c" using ilist_ends_in [OF l] ok out x by auto
  let ?q = "pushed set_prev_idx set_next_idx ?ns x (e_head c)"
  let ?c = "c\<lparr>e_nodes := ?q, e_ht := t, e_head := x, e_tail := (if e_tail c = -1 then x else e_tail c)\<rparr>"
  have "?q = (if e_head c = -1 then ?ns else nset (nset ?ns x (set_next_idx (e_head c))) (e_head c) (set_prev_idx x))"
    using x by (simp add: pushed_def nset_def set_prev_idx_def set_next_idx_def Let_def)
  then have "fill_and_push c x k v = Inr (True, ?c)"
    using x t(1) h(1) by (auto simp: fill_and_push_def ht_insert_def node_upd_idx idx_ok_def simp del: rbind_eq_Inr)
  moreover have "ilist (e_pv ?c) (e_nx ?c) (e_head ?c) (e_tail ?c) (x # xs)" using el.push_list [OF l] ok out by simp
  moreover have "nseg (e_nx ?c) fs"
    by (rule nseg_cong [of "e_nx c"]) (use rep out el.links_pushed(1) [of ?ns x "e_head c"] ok(1) h in \<open>auto simp: e_rep_def flds\<close>)
  moreover have "e_key ?c = (e_key c)(x := k)" "e_val ?c = (e_val c)(x := v)" "e_used ?c = e_used c"
    using ok(1) h(1) by (simp_all add: fld_pushed flds)
  ultimately show thesis using rep t(2,3) by (intro that [of ?c]) (auto simp: e_rep_def flds)
qed

lemma lru_put_ok:
  assumes "e_inv c"
  shows "\<exists>c'. lru_put c k v = Some (Inr (True, c')) \<and> e_inv c' \<and> e_items c' = use CAPACITY k v (e_items c)"
proof -
  obtain xs fs where rep: "e_rep c [] xs fs" using assms by (auto simp: e_inv_def)
  show ?thesis
  proof (cases "k \<in> fst ` set (e_items c)")
    case True
    obtain ys x zs where xs: "xs = ys @ x # zs" "e_key c x = k"
      and items: "e_items c = map (\<lambda>s. (e_key c s, e_val c s)) ys @ (k, e_val c x) # map (\<lambda>s. (e_key c s, e_val c s)) zs"
      using e_items_at [OF rep True] .
    have x: "x \<in> set xs" "0 \<le> x" "x < int (length (e_nodes c))" "x \<noteq> -1" "x \<notin> set (ys @ zs)"
      using e_rep_idx [OF rep, of x] rep xs by (auto simp: idx_ok_def e_rep_def)
    let ?c = "c\<lparr>e_nodes := nset (e_nodes c) x (\<lambda>n. n\<lparr>n_value := v\<rparr>)\<rparr>"
    note up = e_rep_value [OF rep x(1), of v]
    obtain c' where c': "move_to_head ?c x = Inr c'" "e_rep c' [] (x # ys @ zs) fs" "e_key c' = e_key ?c" "e_val c' = e_val ?c"
      using move_to_head_ok up(1) xs(1) by metis
    have "lru_put c k v = Some (Inr (True, c'))"
      using c'(1) ht_find_hit [OF rep x(1)] xs(2) x by (simp add: lru_put_def)
    moreover have "without k (e_items c) = map (\<lambda>s. (e_key c s, e_val c s)) (ys @ zs)"
      unfolding items using without_split [OF conjunct1 [OF e_items_distinct [OF rep, unfolded items]]] by simp
    moreover have "e_items c' = (k, v) # map (\<lambda>s. (e_key c s, e_val c s)) (ys @ zs)"
      using e_rep_items [OF c'(2)] c'(3,4) up(2,3) xs(2) x(5) by (auto simp: fun_upd_def)
    moreover have "length (ys @ zs) \<le> CAPACITY - 1" using e_rep_length [OF rep] xs(1) by simp
    ultimately show ?thesis using c'(2) by (auto simp: use_def e_inv_def)
  next
    case False
    then have k: "k \<notin> e_key c ` set xs" using e_rep_items [OF rep] by force
    obtain x xs' fs' c1 where c1: "evict_or_alloc c = Some (Inr (x, c1))" "e_rep c1 [x] xs' fs'" "xs' = take (CAPACITY - 1) xs"
      "e_key c1 = e_key c" "e_val c1 = e_val c" using evict_or_alloc_ok [OF rep] .
    have "k \<notin> e_key c1 ` set xs'" using k c1(3,4) by (auto dest: in_set_takeD)
    then obtain c2 where c2: "fill_and_push c1 x k v = Inr (True, c2)" "e_rep c2 [] (x # xs') fs'"
      "e_key c2 = (e_key c)(x := k)" "e_val c2 = (e_val c)(x := v)"
      using fill_and_push_ok [OF c1(2)] c1(4,5) by metis
    have x: "x \<noteq> -1" "x \<notin> set xs'" using e_rep_idx [OF c1(2), of x] c1(2) by (auto simp: idx_ok_def e_rep_def)
    have "lru_put c k v = Some (Inr (True, c2))" using ht_find_miss [OF rep k] c1(1) c2(1) x by (simp add: lru_put_def)
    moreover have "e_items c2 = (k, v) # map (\<lambda>s. (e_key c s, e_val c s)) xs'"
      using e_rep_items [OF c2(2)] c2(3,4) x(2) by (auto simp: fun_upd_def)
    then have "e_items c2 = use CAPACITY k v (e_items c)"
      using False c1(3) e_rep_items [OF rep] by (simp add: use_def without_absent take_map)
    ultimately show ?thesis using c2(2) by (auto simp: e_inv_def)
  qed
qed

section \<open>Properties\<close>

lemma upt_16: "[0..<16] = [0, 1, 2, 3, 4, 5, 6, 7, 8, 9, 10, 11, 12, 13, 14, 15 :: nat]"
  by (simp add: upt_rec)

lemma lru_init_inv: "e_inv lru_init \<and> e_items lru_init = []"
proof -
  let ?fs = "map int [0..<16]"
  have "nseg (e_nx lru_init) ?fs"
    by (simp add: lru_init_def CAPACITY_def upt_16 fld_def)
  moreover have "set ?fs = {0..<int CAPACITY}" by (auto simp: CAPACITY_def image_int_atLeastLessThan)
  moreover have "e_free_head lru_init = first_of ?fs (-1)" by (simp add: lru_init_def upt_16)
  moreover have "ilist pv nx (e_head lru_init) (e_tail lru_init) []" for pv nx by (simp add: ilist_def lru_init_def)
  moreover have "entries (e_ht lru_init) = {}" by (auto simp: lru_init_def entries_def)
  ultimately have "e_rep lru_init [] [] ?fs"
    using ht.index_inv_empty [of "e_key lru_init"] by (simp add: e_rep_def lru_init_def distinct_map CAPACITY_def)
  then show ?thesis using e_rep_items by (fastforce simp: e_inv_def)
qed

definition lru_get_some :: "lru_cache_t \<Rightarrow> 32 word \<Rightarrow> (32 word option \<times> lru_cache_t) res option" where
  "lru_get_some c k = Some (lru_get c k)"

interpretation e_lru: lru_cache lru_get_some lru_put e_inv e_items CAPACITY "\<lambda>_. True" "\<lambda>_. True" "\<lambda>r. r"
proof
  show "0 < CAPACITY" by (simp add: CAPACITY_def)
  show "distinct (map fst (e_items s)) \<and> length (e_items s) \<le> CAPACITY" if "e_inv s" for s
    using that e_items_distinct by (auto simp: e_inv_def)
  show "\<exists>s'. lru_get_some s k = Some (Inr (map_of (e_items s) k, s')) \<and> e_inv s' \<and> e_items s' = touch k (e_items s)" if "e_inv s" for s k
    using lru_get_ok [OF that, of k] by (auto simp: lru_get_some_def)
  show "\<exists>s'. lru_put s k v = Some (Inr (True, s')) \<and> e_inv s' \<and> e_items s' = use CAPACITY k v (e_items s)" if "e_inv s" for s k v
    using lru_put_ok [OF that] .
qed

text \<open>
  Claim C5: the embedded cache is an LRU cache of 16 entries. Every reachable state satisfies the invariant; a lookup returns the value
  of its key and makes the entry the most recent one; an insertion always succeeds, ends, and keeps the 16 most recently used keys;
  no access leaves an array.
\<close>

theorem lru_simple_refines_lru:
  "e_inv lru_init \<and> e_items lru_init = [] \<and>
   (\<forall>c k v. e_inv c \<longrightarrow>
      (\<exists>c'. lru_get c k = Inr (map_of (e_items c) k, c') \<and> e_inv c' \<and> e_items c' = touch k (e_items c)) \<and>
      (\<exists>c'. lru_put c k v = Some (Inr (True, c')) \<and> e_inv c' \<and> e_items c' = use CAPACITY k v (e_items c)))"
  using lru_init_inv lru_get_ok lru_put_ok by blast

theorem lru_simple_refines_lru_witness:
  "\<exists>c'. lru_put lru_init 7 70 = Some (Inr (True, c')) \<and> e_inv c' \<and> e_items c' = [(7, 70)]"
proof -
  have init: "e_inv lru_init" "e_items lru_init = []" using lru_simple_refines_lru by blast+
  then have "\<exists>c'. lru_put lru_init 7 70 = Some (Inr (True, c')) \<and> e_inv c' \<and> e_items c' = use CAPACITY 7 70 (e_items lru_init)"
    using lru_simple_refines_lru by blast
  then show ?thesis using init by (simp add: use_def)
qed

text \<open>
  After any insertions into a fresh embedded cache, a lookup finds exactly the 16 most recently inserted distinct keys, each
  with the value inserted last for it.
\<close>

theorem lru_simple_keeps_most_recent:
  "\<exists>c c'. e_lru.put_all lru_init kvs = Some (Inr c) \<and>
     lru_get c k = Inr (if k \<in> fst ` set (take CAPACITY (recent kvs)) then map_of (rev kvs) k else None, c')"
proof -
  have "e_inv lru_init" "e_items lru_init = []" "\<forall>(k, v)\<in>set kvs. True \<and> True" "True" using lru_init_inv by auto
  from e_lru.puts_then_get [OF this(1-4), of k] show ?thesis unfolding lru_get_some_def option.inject by blast
qed

end
