(* ===== verification/Lru_Packet.thy ===== *)
theory Lru_Packet
  imports Linear_Probing Index_List Lru_Spec
begin

text \<open>
  \<open>lruCache/packet\<close>: an LRU cache of packets (\<open>lru_packet_cache.c\<close>) over an open-addressing hash table (\<open>hash.c\<close>). \<open>lru_peek\<close> looks an entry up and
  marks it as used, \<open>lru_get\<close> takes it out. The payload of a node is the list of its first \<open>len\<close> bytes: no operation reads beyond
  them. The output buffer of a lookup is a pair of its pointer (null or not) and the size pointer (null or the size).
\<close>

unbundle bit_operations_syntax

section \<open>The cache\<close>

definition P_CAPACITY :: nat where "P_CAPACITY = 64"
definition MAX_PACKET_SIZE :: nat where "MAX_PACKET_SIZE = 1536"
definition HASH_SIZE :: nat where "HASH_SIZE = 131"

record lru_node_t =
  p_key :: "32 word"
  p_data :: "8 word list"
  p_valid :: bool
  p_prev :: int
  p_next :: int

record pkt_cache =
  c_nodes :: "lru_node_t list"
  c_hash_table :: "int list"
  c_head :: int
  c_tail :: int
  c_free_count :: int
  c_size :: int
  c_free_list :: "int list"

section \<open>The hash table\<close>

definition hash_key :: "32 word \<Rightarrow> nat" where
  "hash_key k =
     (let x = k;
          x = (drop_bit 16 x XOR x) * 0x45d9f3b;
          x = (drop_bit 16 x XOR x) * 0x45d9f3b;
          x = drop_bit 16 x XOR x
      in unat (x mod of_nat HASH_SIZE))"

definition hash_clear :: "int list" where
  "hash_clear = replicate HASH_SIZE (-1)"

definition hash_slot :: "32 word \<Rightarrow> nat \<Rightarrow> nat" where
  "hash_slot key probe = (hash_key key + probe) mod HASH_SIZE"

definition hash_next_slot :: "nat \<Rightarrow> nat" where
  "hash_next_slot slot = (slot + 1) mod HASH_SIZE"

definition hash_find_index :: "int list \<Rightarrow> 32 word \<Rightarrow> int res" where
  "hash_find_index table key = rbind (arr_get table (hash_slot key 0)) (\<lambda>node_idx. Inr (if node_idx = -1 then -1 else int (hash_slot key 0)))"

definition read_pkt_node :: "lru_node_t list \<Rightarrow> int \<Rightarrow> (bool \<times> 32 word) res" where
  "read_pkt_node ns s = rbind (arr_geti ns s) (\<lambda>n. Inr (p_valid n, p_key n))"

definition hash_lookup_node :: "pkt_cache \<Rightarrow> 32 word \<Rightarrow> int res" where
  "hash_lookup_node c key = index_find hash_slot HASH_SIZE (read_pkt_node (c_nodes c)) (c_hash_table c) key"

definition hash_insert :: "pkt_cache \<Rightarrow> 32 word \<Rightarrow> int \<Rightarrow> (bool \<times> pkt_cache) res" where
  "hash_insert c key node_index =
     rbind (index_insert hash_slot HASH_SIZE (c_hash_table c) key node_index) (\<lambda>(b, t). Inr (b, c\<lparr>c_hash_table := t\<rparr>))"

definition hash_remove :: "pkt_cache \<Rightarrow> 32 word \<Rightarrow> (bool \<times> pkt_cache) res option" where
  "hash_remove c key =
     obind (index_remove hash_slot hash_next_slot HASH_SIZE (read_pkt_node (c_nodes c)) (c_hash_table c) key) (\<lambda>(b, t).
     Some (Inr (b, c\<lparr>c_hash_table := t\<rparr>)))"

section \<open>The cache operations\<close>

definition set_p_prev :: "int \<Rightarrow> lru_node_t \<Rightarrow> lru_node_t" where "set_p_prev v n = n\<lparr>p_prev := v\<rparr>"
definition set_p_next :: "int \<Rightarrow> lru_node_t \<Rightarrow> lru_node_t" where "set_p_next v n = n\<lparr>p_next := v\<rparr>"

definition pkt_init :: pkt_cache where
  "pkt_init = \<lparr>
     c_nodes = replicate P_CAPACITY \<lparr>p_key = 0, p_data = [], p_valid = False, p_prev = -1, p_next = -1\<rparr>,
     c_hash_table = hash_clear, c_head = -1, c_tail = -1, c_free_count = int P_CAPACITY, c_size = 0,
     c_free_list = map int [0..<P_CAPACITY]\<rparr>"

definition pkt_move_to_head :: "pkt_cache \<Rightarrow> int \<Rightarrow> pkt_cache res" where
  "pkt_move_to_head c idx =
     (if idx = c_head c then Inr c
      else rbind (arr_geti (c_nodes c) idx) (\<lambda>n.
        rbind (unlink_nodes set_p_prev set_p_next (c_nodes c) (p_prev n) (p_next n)) (\<lambda>ns.
        let t = (if idx = c_tail c then p_prev n else c_tail c) in
        rbind (push_front_nodes set_p_prev set_p_next ns idx (c_head c)) (\<lambda>ns.
        Inr (c\<lparr>c_nodes := ns, c_head := idx, c_tail := (if t = -1 then idx else t)\<rparr>)))))"

definition allocate_node :: "pkt_cache \<Rightarrow> (int \<times> pkt_cache) res option" where
  "allocate_node c =
     (if c_free_count c > 0 then
        obind (Some (arr_geti (c_free_list c) (c_free_count c - 1))) (\<lambda>i. Some (Inr (i, c\<lparr>c_free_count := c_free_count c - 1\<rparr>)))
      else let evict = c_tail c in
        if evict = -1 then Some (Inr (-1, c))
        else obind (Some (arr_geti (c_nodes c) evict)) (\<lambda>n.
          obind (hash_remove c (p_key n)) (\<lambda>(b, c).
          obind (Some (arr_geti (c_nodes c) evict)) (\<lambda>n. let p = p_prev n in
          obind (Some (if p \<noteq> -1 then node_upd (c_nodes c) p (set_p_next (-1)) else Inr (c_nodes c))) (\<lambda>ns.
          obind (Some (node_upd ns evict (\<lambda>n. n\<lparr>p_valid := False, p_prev := -1, p_next := -1\<rparr>))) (\<lambda>ns.
          Some (Inr (evict, c\<lparr>c_nodes := ns, c_tail := p, c_head := (if p = -1 then -1 else c_head c), c_size := c_size c - 1\<rparr>))))))))"

definition insert_packet :: "pkt_cache \<Rightarrow> int \<Rightarrow> 32 word \<Rightarrow> 8 word list \<Rightarrow> (bool \<times> pkt_cache) res" where
  "insert_packet c idx key data =
     rbind (node_upd (c_nodes c) idx (\<lambda>n. n\<lparr>p_key := key, p_data := data, p_valid := True, p_prev := -1, p_next := -1\<rparr>)) (\<lambda>ns.
     rbind (hash_insert (c\<lparr>c_nodes := ns\<rparr>) key idx) (\<lambda>(b, c).
     if \<not> b then
       rbind (node_upd (c_nodes c) idx (\<lambda>n. n\<lparr>p_valid := False\<rparr>)) (\<lambda>ns.
       rbind (arr_seti (c_free_list c) (c_free_count c) idx) (\<lambda>fl.
       Inr (False, c\<lparr>c_nodes := ns, c_free_list := fl, c_free_count := c_free_count c + 1\<rparr>)))
     else
       rbind (node_upd (c_nodes c) idx (set_p_next (c_head c))) (\<lambda>ns.
       rbind (if c_head c \<noteq> -1 then node_upd ns (c_head c) (set_p_prev idx) else Inr ns) (\<lambda>ns.
       Inr (True, c\<lparr>c_nodes := ns, c_head := idx, c_tail := (if c_tail c = -1 then idx else c_tail c), c_size := c_size c + 1\<rparr>)))))"

definition pkt_put :: "pkt_cache \<Rightarrow> 32 word \<Rightarrow> 8 word list \<Rightarrow> (bool \<times> pkt_cache) res option" where
  "pkt_put c key data =
     (if length data > MAX_PACKET_SIZE then Some (Inr (False, c))
      else obind (Some (hash_lookup_node c key)) (\<lambda>node_idx.
        if node_idx \<noteq> -1 then
          obind (Some (node_upd (c_nodes c) node_idx (\<lambda>n. n\<lparr>p_data := data\<rparr>))) (\<lambda>ns.
          obind (Some (pkt_move_to_head (c\<lparr>c_nodes := ns\<rparr>) node_idx)) (\<lambda>c. Some (Inr (True, c))))
        else obind (allocate_node c) (\<lambda>(idx, c).
          if idx < 0 then Some (Inr (False, c)) else Some (insert_packet c idx key data))))"

text \<open>
  The copy to the caller: \<open>None\<close> when the buffer is too small, otherwise the bytes copied and the length stored, each if its pointer
  is given.
\<close>

definition copy_out :: "lru_node_t \<Rightarrow> bool \<Rightarrow> nat option \<Rightarrow> (8 word list option \<times> nat option) option" where
  "copy_out n out out_len =
     (case out_len of
        Some room \<Rightarrow>
          if out then (if room < length (p_data n) then None else Some (Some (p_data n), Some (length (p_data n))))
          else Some (None, Some (length (p_data n)))
      | None \<Rightarrow> Some (None, None))"

definition detach :: "pkt_cache \<Rightarrow> int \<Rightarrow> pkt_cache res" where
  "detach c idx =
     rbind (arr_geti (c_nodes c) idx) (\<lambda>n.
     rbind (unlink_nodes set_p_prev set_p_next (c_nodes c) (p_prev n) (p_next n)) (\<lambda>ns.
     rbind (node_upd ns idx (\<lambda>n. n\<lparr>p_valid := False, p_prev := -1, p_next := -1\<rparr>)) (\<lambda>ns.
     rbind (arr_seti (c_free_list c) (c_free_count c) idx) (\<lambda>fl.
     Inr (c\<lparr>c_nodes := ns, c_head := (if idx = c_head c then p_next n else c_head c),
       c_tail := (if idx = c_tail c then p_prev n else c_tail c), c_free_list := fl, c_free_count := c_free_count c + 1,
       c_size := c_size c - 1\<rparr>)))))"

definition pkt_get :: "pkt_cache \<Rightarrow> 32 word \<Rightarrow> bool \<Rightarrow> nat option \<Rightarrow> ((8 word list option \<times> nat option) option \<times> pkt_cache) res option" where
  "pkt_get c key out out_len =
     obind (Some (hash_lookup_node c key)) (\<lambda>idx.
     if idx = -1 then Some (Inr (None, c))
     else obind (Some (arr_geti (c_nodes c) idx)) (\<lambda>n.
       case copy_out n out out_len of
         None \<Rightarrow> Some (Inr (None, c))
       | Some copied \<Rightarrow>
           obind (hash_remove c key) (\<lambda>(b, c).
           obind (Some (detach c idx)) (\<lambda>c. Some (Inr (Some copied, c))))))"

definition pkt_peek :: "pkt_cache \<Rightarrow> 32 word \<Rightarrow> bool \<Rightarrow> nat option \<Rightarrow> ((8 word list option \<times> nat option) option \<times> pkt_cache) res" where
  "pkt_peek c key out out_len =
     rbind (hash_lookup_node c key) (\<lambda>idx.
     if idx = -1 then Inr (None, c)
     else rbind (arr_geti (c_nodes c) idx) (\<lambda>n.
       case copy_out n out out_len of
         None \<Rightarrow> Inr (None, c)
       | Some copied \<Rightarrow> rbind (pkt_move_to_head c idx) (\<lambda>c. Inr (Some copied, c))))"

definition pkt_remove :: "pkt_cache \<Rightarrow> 32 word \<Rightarrow> (bool \<times> pkt_cache) res option" where
  "pkt_remove c key =
     obind (Some (hash_lookup_node c key)) (\<lambda>idx.
     if idx = -1 then Some (Inr (False, c))
     else obind (hash_remove c key) (\<lambda>(b, c). obind (Some (detach c idx)) (\<lambda>c. Some (Inr (True, c)))))"

section \<open>The demonstration\<close>

text \<open>What \<open>dump_cache_state\<close> prints: the size and the keys from the head on.\<close>

partial_function (option) dump_keys :: "lru_node_t list \<Rightarrow> int \<Rightarrow> 32 word list res option" where
  "dump_keys ns idx =
     (if idx = -1 then Some (Inr [])
      else case arr_geti ns idx of Inl e \<Rightarrow> Some (Inl e)
        | Inr n \<Rightarrow> obind (dump_keys ns (p_next n)) (\<lambda>out. Some (Inr (p_key n # out))))"

declare dump_keys.simps [code]

definition dump_cache_state :: "pkt_cache \<Rightarrow> (int \<times> 32 word list) res option" where
  "dump_cache_state c = obind (dump_keys (c_nodes c) (c_head c)) (\<lambda>ks. Some (Inr (c_size c, ks)))"

text \<open>The string ``P$i$'' with its terminating NUL, for one digit.\<close>

definition pkt_payload :: "nat \<Rightarrow> 8 word list" where
  "pkt_payload i = [0x50, 0x30 + of_nat i, 0]"

fun pkt_put_range :: "nat list \<Rightarrow> pkt_cache \<Rightarrow> pkt_cache res option" where
  "pkt_put_range [] c = Some (Inr c)"
| "pkt_put_range (i # is') c = obind (pkt_put c (of_nat i) (pkt_payload i)) (\<lambda>(b, c). pkt_put_range is' c)"

definition lru_packet_main :: "(int \<times> 32 word list) list res option" where
  "lru_packet_main =
     obind (pkt_put_range [1, 2, 3, 4, 5] pkt_init) (\<lambda>c. obind (dump_cache_state c) (\<lambda>d1.
     obind (Some (pkt_peek c 2 True (Some 64))) (\<lambda>(r, c). obind (dump_cache_state c) (\<lambda>d2.
     obind (pkt_put_range [6, 7, 8] c) (\<lambda>c. obind (dump_cache_state c) (\<lambda>d3.
     obind (pkt_get c 4 True (Some 64)) (\<lambda>(r, c). obind (dump_cache_state c) (\<lambda>d4.
     obind (pkt_put_range [9] c) (\<lambda>c. obind (dump_cache_state c) (\<lambda>d5.
     obind (pkt_get c 1 True (Some 64)) (\<lambda>(r, c). obind (dump_cache_state c) (\<lambda>d6.
     Some (Inr [d1, d2, d3, d4, d5, d6])))))))))))))"

section \<open>Probe sequence and link fields\<close>

interpretation ph: probe_sequence HASH_SIZE hash_key hash_slot hash_next_slot
  by unfold_locales (simp_all add: hash_key_def hash_slot_def hash_next_slot_def HASH_SIZE_def Let_def unat_mod_distrib)

interpretation pl: link_fields p_prev p_next set_p_prev set_p_next
  by unfold_locales (simp_all add: set_p_prev_def set_p_next_def)

lemma set_p_other [simp]:
  "p_key (set_p_prev v n) = p_key n" "p_data (set_p_prev v n) = p_data n" "p_valid (set_p_prev v n) = p_valid n"
  "p_key (set_p_next v n) = p_key n" "p_data (set_p_next v n) = p_data n" "p_valid (set_p_next v n) = p_valid n"
  by (simp_all add: set_p_prev_def set_p_next_def)

section \<open>The invariant\<close>

abbreviation pk :: "pkt_cache \<Rightarrow> int \<Rightarrow> 32 word" where "pk c \<equiv> fld p_key 0 (c_nodes c)"
abbreviation pd :: "pkt_cache \<Rightarrow> int \<Rightarrow> 8 word list" where "pd c \<equiv> fld p_data [] (c_nodes c)"
abbreviation pval :: "pkt_cache \<Rightarrow> int \<Rightarrow> bool" where "pval c \<equiv> fld p_valid False (c_nodes c)"
abbreviation pnx :: "pkt_cache \<Rightarrow> int \<Rightarrow> int" where "pnx c \<equiv> fld p_next (-1) (c_nodes c)"
abbreviation ppv :: "pkt_cache \<Rightarrow> int \<Rightarrow> int" where "ppv c \<equiv> fld p_prev (-1) (c_nodes c)"

text \<open>\<open>xs\<close>: the list, most recent first; \<open>fs\<close>: the used part of the free list array; \<open>new\<close>: a node in neither.\<close>

definition p_rep :: "pkt_cache \<Rightarrow> int list \<Rightarrow> int list \<Rightarrow> int list \<Rightarrow> bool" where
  "p_rep c new xs fs \<longleftrightarrow> length (c_nodes c) = P_CAPACITY \<and> ilist (ppv c) (pnx c) (c_head c) (c_tail c) xs
     \<and> length (c_free_list c) = P_CAPACITY \<and> c_free_count c = int (length fs) \<and> take (length fs) (c_free_list c) = fs
     \<and> distinct (new @ xs @ fs) \<and> set (new @ xs @ fs) = {0..<int P_CAPACITY} \<and> c_size c = int (length xs)
     \<and> ph.index_inv (pk c) (c_hash_table c) \<and> entries (c_hash_table c) = set xs
     \<and> (\<forall>s\<in>set xs. pval c s \<and> length (pd c s) \<le> MAX_PACKET_SIZE)"

definition p_items :: "pkt_cache \<Rightarrow> (32 word \<times> 8 word list) list" where
  "p_items c = map (\<lambda>s. (pk c s, pd c s)) (index_walk (pnx c) P_CAPACITY (c_head c))"

definition p_inv :: "pkt_cache \<Rightarrow> bool" where
  "p_inv c \<longleftrightarrow> (\<exists>xs fs. p_rep c [] xs fs)"

lemma p_rep_idx: "p_rep c new xs fs \<Longrightarrow> s \<in> set (new @ xs @ fs) \<longleftrightarrow> idx_ok (c_nodes c) s"
  by (auto simp: p_rep_def idx_ok_def)

lemma p_rep_length: "p_rep c new xs fs \<Longrightarrow> length new + length xs + length fs = P_CAPACITY"
proof -
  assume "p_rep c new xs fs"
  then have "card (set (new @ xs @ fs)) = length (new @ xs @ fs)" "set (new @ xs @ fs) = {0..<int P_CAPACITY}"
    using distinct_card unfolding p_rep_def by blast+
  then show ?thesis by simp
qed

lemma p_rep_items: "p_rep c new xs fs \<Longrightarrow> p_items c = map (\<lambda>s. (pk c s, pd c s)) xs"
  using ilist_walk p_rep_length [of c new xs fs] by (fastforce simp: p_items_def p_rep_def)

lemma p_items_distinct: "p_rep c new xs fs \<Longrightarrow> distinct (map fst (p_items c)) \<and> length (p_items c) \<le> P_CAPACITY"
  using p_rep_length [of c new xs fs] by (simp add: p_rep_items distinct_map o_def) (auto simp: p_rep_def ph.index_inv_def)

lemma read_pkt_node_ok: "p_rep c new xs fs \<Longrightarrow> s \<in> entries (c_hash_table c) \<Longrightarrow> read_pkt_node (c_nodes c) s = Inr (True, pk c s)"
  using p_rep_idx [of c new xs fs s] by (auto simp: p_rep_def read_pkt_node_def idx_ok_def fld_def)

lemma hash_lookup_hit: "p_rep c new xs fs \<Longrightarrow> s \<in> set xs \<Longrightarrow> hash_lookup_node c (pk c s) = Inr s"
  unfolding hash_lookup_node_def by (rule ph.index_find_hit) (auto simp: p_rep_def intro: read_pkt_node_ok)

lemma hash_lookup_miss: "p_rep c new xs fs \<Longrightarrow> k \<notin> pk c ` set xs \<Longrightarrow> hash_lookup_node c k = Inr (-1)"
  unfolding hash_lookup_node_def
  by (rule ph.index_find_miss [where kf = "pk c"]) (auto simp: p_rep_def intro: read_pkt_node_ok)

lemma hash_remove_ok:
  assumes rep: "p_rep c new xs fs" and x: "x \<in> set xs"
  obtains t where "hash_remove c (pk c x) = Some (Inr (True, c\<lparr>c_hash_table := t\<rparr>))" "entries t = set xs - {x}" "ph.index_inv (pk c) t"
proof -
  have inv: "ph.index_inv (pk c) (c_hash_table c)" "entries (c_hash_table c) = set xs" using rep by (auto simp: p_rep_def)
  obtain t where "index_remove hash_slot hash_next_slot HASH_SIZE (read_pkt_node (c_nodes c)) (c_hash_table c) (pk c x) = Some (Inr (True, t))"
    "entries t = entries (c_hash_table c) - {x}" "ph.index_inv (pk c) t"
    by (rule ph.index_remove_hit [OF inv(1), of x "read_pkt_node (c_nodes c)"]) (use x inv(2) read_pkt_node_ok [OF rep] in auto)
  then show thesis using that inv(2) by (simp add: hash_remove_def)
qed

section \<open>List updates\<close>

lemma pkt_move_to_head_ok:
  assumes rep: "p_rep c new (ys @ x # zs) fs"
  obtains c' where "pkt_move_to_head c x = Inr c'" "p_rep c' new (x # ys @ zs) fs" "pk c' = pk c" "pd c' = pd c"
proof (cases "c_head c = x")
  case True
  then have "ys = []" using rep ilist_neighbours(3) by (fastforce simp: p_rep_def)
  then show thesis using that [of c] rep True by (simp add: pkt_move_to_head_def)
next
  case False
  let ?ns = "c_nodes c" and ?p = "ppv c x" and ?n = "pnx c x"
  have l: "ilist (ppv c) (pnx c) (c_head c) (c_tail c) (ys @ x # zs)" using rep by (simp add: p_rep_def)
  have ok: "\<forall>s\<in>set (ys @ x # zs). idx_ok ?ns s" using p_rep_idx [OF rep] by auto
  note pn = pl.list_indices [OF l ok]
  let ?u = "unlinked set_p_prev set_p_next ?ns ?p ?n" and ?t = "if x = c_tail c then ?p else c_tail c"
  have lu: "ilist (fld p_prev (-1) ?u) (fld p_next (-1) ?u) (c_head c) ?t (ys @ zs)"
    using pl.unlink_list [OF l ok] False by (simp add: eq_commute [of x])
  have oku: "\<forall>s\<in>set (ys @ zs). idx_ok ?u s" "idx_ok ?u x" "x \<notin> set (ys @ zs)" using ok rep by (auto simp: p_rep_def)
  let ?q = "pushed set_p_prev set_p_next ?u x (c_head c)"
  let ?c = "c\<lparr>c_nodes := ?q, c_head := x, c_tail := (if ?t = -1 then x else ?t)\<rparr>"
  have h: "c_head c = -1 \<or> idx_ok ?u (c_head c)" "x \<noteq> c_head c" using ilist_ends_in [OF lu] oku(1) False by auto
  have "ilist (ppv ?c) (pnx ?c) x (if ?t = -1 then x else ?t) (x # ys @ zs)" using pl.push_list [OF lu oku(1,2,3)] by simp
  moreover have "pkt_move_to_head c x = Inr ?c"
    using oku(2) False unlink_nodes_ok [OF pn] push_front_nodes_ok [OF oku(2) h(1)]
    by (simp add: pkt_move_to_head_def idx_ok_def fld_def Let_def)
  moreover have "pk ?c = pk c" "pd ?c = pd c" "pval ?c = pval c" using pn oku(2) h(1) by (simp_all add: fld_pushed fld_unlinked)
  ultimately show thesis using that [of ?c] rep by (auto simp: p_rep_def)
qed

text \<open>Taking a node out of the table, out of the list and putting it on the free list.\<close>

lemma take_out_ok:
  assumes rep: "p_rep c [] (ys @ x # zs) fs"
  obtains c1 c2 where "hash_remove c (pk c x) = Some (Inr (True, c1))" "detach c1 x = Inr c2" "p_rep c2 [] (ys @ zs) (fs @ [x])"
    "pk c2 = pk c" "pd c2 = pd c"
proof -
  obtain t where t: "hash_remove c (pk c x) = Some (Inr (True, c\<lparr>c_hash_table := t\<rparr>))" "entries t = set (ys @ x # zs) - {x}" "ph.index_inv (pk c) t"
    using hash_remove_ok [OF rep, of x] by auto
  let ?ns = "c_nodes c" and ?p = "ppv c x" and ?n = "pnx c x"
  have l: "ilist (ppv c) (pnx c) (c_head c) (c_tail c) (ys @ x # zs)" using rep by (simp add: p_rep_def)
  have ok: "\<forall>s\<in>set (ys @ x # zs). idx_ok ?ns s" using p_rep_idx [OF rep] by auto
  note pn = pl.list_indices [OF l ok]
  let ?u = "unlinked set_p_prev set_p_next ?ns ?p ?n"
  let ?v = "nset ?u x (\<lambda>n. n\<lparr>p_valid := False, p_prev := -1, p_next := -1\<rparr>)"
  let ?h = "if x = c_head c then ?n else c_head c" and ?t = "if x = c_tail c then ?p else c_tail c"
  have x: "0 \<le> x" "x < int (length ?u)" "x \<notin> set (ys @ zs)" using ok rep by (auto simp: idx_ok_def p_rep_def)
  have lu: "ilist (fld p_prev (-1) ?u) (fld p_next (-1) ?u) ?h ?t (ys @ zs)"
    using pl.unlink_list [OF l ok] by (simp add: eq_commute [of x])
  have lv: "ilist (fld p_prev (-1) ?v) (fld p_next (-1) ?v) ?h ?t (ys @ zs)"
    by (rule ilist_cong [OF lu]) (use x in \<open>auto simp: fld_nset_const\<close>)
  have fl: "length fs < P_CAPACITY" "length (c_free_list c) = P_CAPACITY" "c_free_count c = int (length fs)"
    using p_rep_length [OF rep] rep by (auto simp: p_rep_def)
  let ?c = "c\<lparr>c_hash_table := t, c_nodes := ?v, c_head := ?h, c_tail := ?t, c_free_list := (c_free_list c)[length fs := x],
    c_free_count := int (length fs) + 1, c_size := c_size c - 1\<rparr>"
  have "detach (c\<lparr>c_hash_table := t\<rparr>) x = Inr ?c"
    using x fl unlink_nodes_ok [OF pn] by (simp add: detach_def fld_def)
  moreover have flds: "pk ?c = pk c" "pd ?c = pd c" "pval ?c = (pval c)(x := False)"
    using x pn by (simp_all add: fld_nset_same fld_nset_const [of _ _ p_valid _ False] fld_unlinked)
  moreover have "take (length (fs @ [x])) (c_free_list ?c) = fs @ [x]"
    using rep fl by (simp add: p_rep_def take_Suc_conv_app_nth)
  ultimately show thesis using rep lv t x
    by (intro that [of "c\<lparr>c_hash_table := t\<rparr>" ?c]) (auto simp: p_rep_def)
qed

section \<open>Allocation and insertion\<close>

lemma evict_last_ok:
  assumes rep: "p_rep c [] (ys @ [x]) []"
  obtains c' where "allocate_node c = Some (Inr (x, c'))" "p_rep c' [x] ys []" "pk c' = pk c" "pd c' = pd c"
proof -
  obtain t where t: "hash_remove c (pk c x) = Some (Inr (True, c\<lparr>c_hash_table := t\<rparr>))" "entries t = set (ys @ [x]) - {x}" "ph.index_inv (pk c) t"
    using hash_remove_ok [OF rep, of x] by auto
  let ?ns = "c_nodes c" and ?p = "ppv c x"
  have l: "ilist (ppv c) (pnx c) (c_head c) (c_tail c) (ys @ x # [])" using rep by (simp add: p_rep_def)
  have ok: "\<forall>s\<in>set (ys @ x # []). idx_ok ?ns s" using p_rep_idx [OF rep] by auto
  note nb = ilist_neighbours [OF l] and pn = pl.list_indices [OF l ok]
  have nxx: "pnx c x = -1" using nb(2) by simp
  let ?u = "unlinked set_p_prev set_p_next ?ns ?p (-1)"
  let ?v = "nset ?u x (\<lambda>n. n\<lparr>p_valid := False, p_prev := -1, p_next := -1\<rparr>)"
  have x: "0 \<le> x" "x < int (length ?u)" "x \<noteq> -1" "x \<notin> set ys" using ok rep by (auto simp: idx_ok_def p_rep_def)
  let ?c = "c\<lparr>c_hash_table := t, c_nodes := ?v, c_tail := ?p, c_head := (if ?p = -1 then -1 else c_head c), c_size := c_size c - 1\<rparr>"
  have up: "?p \<noteq> -1 \<Longrightarrow> node_upd ?ns ?p (set_p_next (-1)) = Inr ?u" "?p = -1 \<Longrightarrow> ?u = ?ns"
    using pn(1) by (auto simp: unlinked_def node_upd_idx)
  have nd: "arr_geti ?ns x = Inr (?ns ! nat x)" "p_key (?ns ! nat x) = pk c x" "p_prev (?ns ! nat x) = ?p"
    using x by (simp_all add: fld_def)
  have "allocate_node c = Some (Inr (x, ?c))"
    using rep nb(4) nd t(1) x up by (cases "?p = -1") (simp_all add: allocate_node_def p_rep_def Let_def)
  moreover have lu: "ilist (fld p_prev (-1) ?u) (fld p_next (-1) ?u) (if c_head c = x then -1 else c_head c) ?p ys"
    using pl.unlink_list [OF l ok] nb(4) unfolding nxx by simp
  have "(if c_head c = x then -1 else c_head c) = (if ?p = -1 then -1 else c_head c)" using nb by auto
  with lu have "ilist (ppv ?c) (pnx ?c) (c_head ?c) (c_tail ?c) ys"
    using x by (auto simp: fld_nset_const intro: ilist_cong)
  moreover have "pk ?c = pk c" "pd ?c = pd c" "pval ?c = (pval c)(x := False)"
    using x pn(1) by (simp_all add: fld_nset_same fld_nset_const [of _ _ p_valid _ False] fld_unlinked)
  ultimately show thesis using rep t x by (intro that [of ?c]) (auto simp: p_rep_def)
qed

lemma allocate_node_ok:
  assumes rep: "p_rep c [] xs fs"
  obtains x xs' fs' c' where "allocate_node c = Some (Inr (x, c'))" "p_rep c' [x] xs' fs'" "xs' = take (P_CAPACITY - 1) xs"
    "pk c' = pk c" "pd c' = pd c"
proof (cases fs rule: rev_cases)
  case Nil
  then have len: "length xs = P_CAPACITY" using p_rep_length [OF rep] by simp
  then obtain ys x where xs: "xs = ys @ [x]" by (cases xs rule: rev_cases) (auto simp: P_CAPACITY_def)
  have "take (P_CAPACITY - 1) xs = ys" using len xs by (metis append_eq_conv_conj diff_Suc_1 length_append_singleton)
  then show thesis using evict_last_ok [OF rep [unfolded xs Nil]] that by metis
next
  case (snoc gs x)
  let ?c = "c\<lparr>c_free_count := int (length gs)\<rparr>"
  have fl: "take (Suc (length gs)) (c_free_list c) = gs @ [x]" "length gs < length (c_free_list c)" "c_free_count c = int (length gs) + 1"
    using rep snoc p_rep_length [OF rep] by (auto simp: p_rep_def)
  have "take (length gs) (c_free_list c) = gs" "c_free_list c ! length gs = x"
    using fl(1,2) by (simp_all add: take_Suc_conv_app_nth)
  moreover from this have "allocate_node c = Some (Inr (x, ?c))" using fl by (simp add: allocate_node_def)
  moreover have "take (P_CAPACITY - 1) xs = xs" using p_rep_length [OF rep] snoc by simp
  ultimately show thesis using rep snoc by (intro that [of x ?c xs gs]) (auto simp: p_rep_def)
qed

lemma insert_packet_ok:
  assumes rep: "p_rep c [x] xs fs" and k: "k \<notin> pk c ` set xs" and len: "length data \<le> MAX_PACKET_SIZE"
  obtains c' where "insert_packet c x k data = Inr (True, c')" "p_rep c' [] (x # xs) fs"
    "pk c' = (pk c)(x := k)" "pd c' = (pd c)(x := data)"
proof -
  have ok: "idx_ok (c_nodes c) x" "\<forall>s\<in>set xs. idx_ok (c_nodes c) s" using p_rep_idx [OF rep] by auto
  then have x: "0 \<le> x" "x < int (length (c_nodes c))" "x \<noteq> -1" "x \<notin> set xs" using rep by (auto simp: idx_ok_def p_rep_def)
  let ?ns = "nset (c_nodes c) x (\<lambda>n. n\<lparr>p_key := k, p_data := data, p_valid := True, p_prev := -1, p_next := -1\<rparr>)"
  let ?kf = "fld p_key 0 ?ns"
  have flds: "?kf = (pk c)(x := k)" "fld p_data [] ?ns = (pd c)(x := data)" "fld p_valid False ?ns = (pval c)(x := True)"
    "fld p_prev (-1) ?ns = (ppv c)(x := -1)" "fld p_next (-1) ?ns = (pnx c)(x := -1)"
    using x by (simp_all add: fld_nset_same fld_nset_const)
  have inv: "ph.index_inv ?kf (c_hash_table c)"
    unfolding flds by (rule ph.index_inv_cong [of "pk c"]) (use rep x in \<open>auto simp: p_rep_def\<close>)
  have ent: "entries (c_hash_table c) = set xs" using rep by (simp add: p_rep_def)
  have "card (set xs) + 2 \<le> HASH_SIZE"
    using p_rep_length [OF rep] card_length [of xs] by (simp add: P_CAPACITY_def HASH_SIZE_def)
  then obtain t where t: "index_insert hash_slot HASH_SIZE (c_hash_table c) k x = Inr (True, t)" "entries t = insert x (set xs)" "ph.index_inv ?kf t"
    using ph.index_insert_ok [OF inv, of x] ent x k by (auto simp: flds image_iff)
  have l: "ilist (fld p_prev (-1) ?ns) (fld p_next (-1) ?ns) (c_head c) (c_tail c) xs"
    unfolding flds by (rule ilist_cong [of "ppv c" "pnx c"]) (use rep x in \<open>auto simp: p_rep_def\<close>)
  have h: "c_head c = -1 \<or> idx_ok ?ns (c_head c)" "x \<noteq> c_head c" using ilist_ends_in [OF l] ok x by auto
  let ?q = "pushed set_p_prev set_p_next ?ns x (c_head c)"
  let ?c = "c\<lparr>c_nodes := ?q, c_hash_table := t, c_head := x, c_tail := (if c_tail c = -1 then x else c_tail c), c_size := c_size c + 1\<rparr>"
  have "?q = (if c_head c = -1 then nset ?ns x (set_p_next (-1)) else nset (nset ?ns x (set_p_next (c_head c))) (c_head c) (set_p_prev x))"
    using x by (simp add: pushed_def nset_def set_p_prev_def set_p_next_def Let_def)
  then have "insert_packet c x k data = Inr (True, ?c)"
    using x t(1) h(1) by (auto simp: insert_packet_def hash_insert_def node_upd_idx idx_ok_def simp del: rbind_eq_Inr)
  moreover have "ilist (ppv ?c) (pnx ?c) (c_head ?c) (c_tail ?c) (x # xs)" using pl.push_list [OF l] ok x by simp
  moreover have "pk ?c = (pk c)(x := k)" "pd ?c = (pd c)(x := data)" "pval ?c = (pval c)(x := True)"
    using ok(1) h(1) by (simp_all add: fld_pushed flds)
  ultimately show thesis using rep t(2,3) len by (intro that [of ?c]) (auto simp: p_rep_def flds)
qed

section \<open>The operations\<close>

lemma p_items_at:
  assumes "p_rep c new xs fs" "k \<in> fst ` set (p_items c)"
  obtains ys x zs where "xs = ys @ x # zs" "pk c x = k" "hash_lookup_node c k = Inr x" "x \<noteq> -1" "idx_ok (c_nodes c) x"
    "map_of (p_items c) k = Some (pd c x)" "without k (p_items c) = map (\<lambda>s. (pk c s, pd c s)) (ys @ zs)"
proof -
  from assms obtain x where x: "x \<in> set xs" "pk c x = k" by (auto simp: p_rep_items)
  then obtain ys zs where xs: "xs = ys @ x # zs" by (auto simp: in_set_conv_decomp)
  have items: "p_items c = map (\<lambda>s. (pk c s, pd c s)) ys @ (k, pd c x) # map (\<lambda>s. (pk c s, pd c s)) zs"
    using p_rep_items [OF assms(1)] xs x(2) by simp
  note d = conjunct1 [OF p_items_distinct [OF assms(1)], unfolded items]
  show thesis
  proof (rule that [OF xs x(2)])
    show "hash_lookup_node c k = Inr x" using hash_lookup_hit [OF assms(1) x(1)] x(2) by simp
    show "idx_ok (c_nodes c) x" using p_rep_idx [OF assms(1), of x] x(1) by simp
    then show "x \<noteq> -1" by (simp add: idx_ok_def)
    show "map_of (p_items c) k = Some (pd c x)" "without k (p_items c) = map (\<lambda>s. (pk c s, pd c s)) (ys @ zs)"
      unfolding items using map_of_split [OF d] without_split [OF d] by simp_all
  qed
qed

lemma p_items_absent:
  assumes "p_rep c new xs fs" "k \<notin> fst ` set (p_items c)"
  shows "hash_lookup_node c k = Inr (-1)" "map_of (p_items c) k = None" "k \<notin> pk c ` set xs"
proof -
  show k: "k \<notin> pk c ` set xs" using assms p_rep_items [OF assms(1)] by force
  show "hash_lookup_node c k = Inr (-1)" using hash_lookup_miss [OF assms(1) k] .
  show "map_of (p_items c) k = None" using assms(2) by (simp add: map_of_eq_None_iff)
qed

text \<open>The copy that a lookup with the given pointers makes of an entry.\<close>

definition copy_of :: "bool \<Rightarrow> nat option \<Rightarrow> 8 word list \<Rightarrow> (8 word list option \<times> nat option) option" where
  "copy_of out out_len data =
     (case out_len of
        Some room \<Rightarrow> if out then (if room < length data then None else Some (Some data, Some (length data))) else Some (None, Some (length data))
      | None \<Rightarrow> Some (None, None))"

lemma copy_out_eq: "copy_out n out out_len = copy_of out out_len (p_data n)"
  by (simp add: copy_out_def copy_of_def split: option.splits)

lemma pd_nth: "idx_ok (c_nodes c) x \<Longrightarrow> arr_geti (c_nodes c) x = Inr (c_nodes c ! nat x) \<and> p_data (c_nodes c ! nat x) = pd c x"
  by (simp add: idx_ok_def fld_def)

lemma pkt_peek_ok:
  assumes "p_inv c"
  shows "\<exists>c'. pkt_peek c k out out_len = Inr (Option.bind (map_of (p_items c) k) (copy_of out out_len), c') \<and> p_inv c' \<and>
    p_items c' = (if Option.bind (map_of (p_items c) k) (copy_of out out_len) = None then p_items c else touch k (p_items c))"
proof -
  obtain xs fs where rep: "p_rep c [] xs fs" using assms by (auto simp: p_inv_def)
  show ?thesis
  proof (cases "k \<in> fst ` set (p_items c)")
    case False
    then show ?thesis using p_items_absent [OF rep False] assms by (intro exI [of _ c]) (simp add: pkt_peek_def)
  next
    case True
    obtain ys x zs where xs: "xs = ys @ x # zs" "pk c x = k" and f: "hash_lookup_node c k = Inr x" "x \<noteq> -1" "idx_ok (c_nodes c) x"
      "map_of (p_items c) k = Some (pd c x)" "without k (p_items c) = map (\<lambda>s. (pk c s, pd c s)) (ys @ zs)"
      using p_items_at [OF rep True] .
    obtain c' where c': "pkt_move_to_head c x = Inr c'" "p_rep c' [] (x # ys @ zs) fs" "pk c' = pk c" "pd c' = pd c"
      using pkt_move_to_head_ok rep xs(1) by metis
    have "p_items c' = touch k (p_items c)" using p_rep_items [OF c'(2)] c'(3,4) xs(2) f(4,5) by (simp add: touch_def)
    then show ?thesis using f c'(1,2) assms pd_nth [OF f(3)]
      by (cases "copy_of out out_len (pd c x)") (auto simp: pkt_peek_def copy_out_eq p_inv_def)
  qed
qed

lemma pkt_take_ok:
  assumes "p_inv c"
  shows "\<exists>c'. pkt_get c k out out_len = Some (Inr (Option.bind (map_of (p_items c) k) (copy_of out out_len), c')) \<and> p_inv c' \<and>
    p_items c' = (if Option.bind (map_of (p_items c) k) (copy_of out out_len) = None then p_items c else without k (p_items c))"
    "\<exists>c'. pkt_remove c k = Some (Inr (k \<in> fst ` set (p_items c), c')) \<and> p_inv c' \<and> p_items c' = without k (p_items c)"
proof -
  obtain xs fs where rep: "p_rep c [] xs fs" using assms by (auto simp: p_inv_def)
  have "(\<exists>c'. pkt_get c k out out_len = Some (Inr (Option.bind (map_of (p_items c) k) (copy_of out out_len), c')) \<and> p_inv c' \<and>
    p_items c' = (if Option.bind (map_of (p_items c) k) (copy_of out out_len) = None then p_items c else without k (p_items c))) \<and>
    (\<exists>c'. pkt_remove c k = Some (Inr (k \<in> fst ` set (p_items c), c')) \<and> p_inv c' \<and> p_items c' = without k (p_items c))"
  proof (cases "k \<in> fst ` set (p_items c)")
    case False
    then show ?thesis using p_items_absent [OF rep False] assms by (auto simp: pkt_get_def pkt_remove_def without_absent)
  next
    case True
    obtain ys x zs where xs: "xs = ys @ x # zs" "pk c x = k" and f: "hash_lookup_node c k = Inr x" "x \<noteq> -1" "idx_ok (c_nodes c) x"
      "map_of (p_items c) k = Some (pd c x)" "without k (p_items c) = map (\<lambda>s. (pk c s, pd c s)) (ys @ zs)"
      using p_items_at [OF rep True] .
    obtain c1 c2 where c: "hash_remove c k = Some (Inr (True, c1))" "detach c1 x = Inr c2" "p_rep c2 [] (ys @ zs) (fs @ [x])"
      "pk c2 = pk c" "pd c2 = pd c" using take_out_ok [OF rep [unfolded xs(1)]] xs(2) by metis
    have "p_items c2 = without k (p_items c)" using p_rep_items [OF c(3)] c(4,5) f(5) by simp
    then show ?thesis using f c(1-3) assms True pd_nth [OF f(3)]
      by (cases "copy_of out out_len (pd c x)") (auto simp: pkt_get_def pkt_remove_def copy_out_eq p_inv_def)
  qed
  then show "\<exists>c'. pkt_get c k out out_len = Some (Inr (Option.bind (map_of (p_items c) k) (copy_of out out_len), c')) \<and> p_inv c' \<and>
    p_items c' = (if Option.bind (map_of (p_items c) k) (copy_of out out_len) = None then p_items c else without k (p_items c))"
    "\<exists>c'. pkt_remove c k = Some (Inr (k \<in> fst ` set (p_items c), c')) \<and> p_inv c' \<and> p_items c' = without k (p_items c)" by blast+
qed

lemma pkt_put_ok:
  assumes "p_inv c" "length data \<le> MAX_PACKET_SIZE"
  shows "\<exists>c'. pkt_put c k data = Some (Inr (True, c')) \<and> p_inv c' \<and> p_items c' = use P_CAPACITY k data (p_items c)"
proof -
  obtain xs fs where rep: "p_rep c [] xs fs" using assms(1) by (auto simp: p_inv_def)
  show ?thesis
  proof (cases "k \<in> fst ` set (p_items c)")
    case True
    obtain ys x zs where xs: "xs = ys @ x # zs" "pk c x = k" and f: "hash_lookup_node c k = Inr x" "x \<noteq> -1" "idx_ok (c_nodes c) x"
      "map_of (p_items c) k = Some (pd c x)" "without k (p_items c) = map (\<lambda>s. (pk c s, pd c s)) (ys @ zs)"
      using p_items_at [OF rep True] .
    have x: "0 \<le> x" "x < int (length (c_nodes c))" "x \<notin> set (ys @ zs)" using f(3) rep xs by (auto simp: idx_ok_def p_rep_def)
    let ?c = "c\<lparr>c_nodes := nset (c_nodes c) x (\<lambda>n. n\<lparr>p_data := data\<rparr>)\<rparr>"
    have flds: "pk ?c = pk c" "pd ?c = (pd c)(x := data)" "p_rep ?c [] xs fs"
      using rep x assms(2) by (simp_all add: p_rep_def fld_nset_same fld_nset_const)
    obtain c' where c': "pkt_move_to_head ?c x = Inr c'" "p_rep c' [] (x # ys @ zs) fs" "pk c' = pk ?c" "pd c' = pd ?c"
      using pkt_move_to_head_ok flds(3) xs(1) by metis
    have "pkt_put c k data = Some (Inr (True, c'))" using c'(1) f x assms(2) by (simp add: pkt_put_def)
    moreover have "p_items c' = (k, data) # map (\<lambda>s. (pk c s, pd c s)) (ys @ zs)"
      using p_rep_items [OF c'(2)] c'(3,4) flds xs(2) x(3) by (auto simp: fun_upd_def)
    moreover have "length (ys @ zs) \<le> P_CAPACITY - 1" using p_rep_length [OF rep] xs(1) by simp
    ultimately show ?thesis using c'(2) f(5) by (auto simp: use_def p_inv_def)
  next
    case False
    note absent = p_items_absent [OF rep False]
    obtain x xs' fs' c1 where c1: "allocate_node c = Some (Inr (x, c1))" "p_rep c1 [x] xs' fs'" "xs' = take (P_CAPACITY - 1) xs"
      "pk c1 = pk c" "pd c1 = pd c" using allocate_node_ok [OF rep] .
    have "k \<notin> pk c1 ` set xs'" using absent(3) c1(3,4) by (auto dest: in_set_takeD)
    then obtain c2 where c2: "insert_packet c1 x k data = Inr (True, c2)" "p_rep c2 [] (x # xs') fs'"
      "pk c2 = (pk c)(x := k)" "pd c2 = (pd c)(x := data)"
      using insert_packet_ok [OF c1(2) _ assms(2)] c1(4,5) by metis
    have x: "0 \<le> x" "x \<notin> set xs'" using p_rep_idx [OF c1(2), of x] c1(2) by (auto simp: idx_ok_def p_rep_def)
    have "pkt_put c k data = Some (Inr (True, c2))" using absent(1) c1(1) c2(1) x assms(2) by (simp add: pkt_put_def)
    moreover have "p_items c2 = (k, data) # map (\<lambda>s. (pk c s, pd c s)) xs'"
      using p_rep_items [OF c2(2)] c2(3,4) x(2) by (auto simp: fun_upd_def)
    then have "p_items c2 = use P_CAPACITY k data (p_items c)"
      using False c1(3) p_rep_items [OF rep] by (simp add: use_def without_absent take_map)
    ultimately show ?thesis using c2(2) by (auto simp: p_inv_def)
  qed
qed

lemma pkt_init_inv: "p_inv pkt_init \<and> p_items pkt_init = []"
proof -
  let ?fs = "map int [0..<P_CAPACITY]"
  have "set ?fs = {0..<int P_CAPACITY}" by (auto simp: image_int_atLeastLessThan)
  moreover have "ilist pv nx (c_head pkt_init) (c_tail pkt_init) []" for pv nx by (simp add: ilist_def pkt_init_def)
  moreover have "entries (c_hash_table pkt_init) = {}" by (auto simp: pkt_init_def hash_clear_def entries_def)
  ultimately have "p_rep pkt_init [] [] ?fs"
    using ph.index_inv_empty [of "pk pkt_init"] by (simp add: p_rep_def pkt_init_def hash_clear_def distinct_map)
  then show ?thesis using p_rep_items by (fastforce simp: p_inv_def)
qed

lemma p_items_fit: "p_inv c \<Longrightarrow> map_of (p_items c) k = Some d \<Longrightarrow> length d \<le> MAX_PACKET_SIZE"
proof -
  assume "p_inv c" "map_of (p_items c) k = Some d"
  then obtain xs fs where rep: "p_rep c [] xs fs" and "(k, d) \<in> set (p_items c)" by (auto simp: p_inv_def dest: map_of_SomeD)
  then obtain s where "s \<in> set xs" "d = pd c s" by (auto simp: p_rep_items)
  with rep show ?thesis unfolding p_rep_def by blast
qed

text \<open>A look at an entry with a buffer that is large enough for every packet.\<close>

definition pkt_look :: "pkt_cache \<Rightarrow> 32 word \<Rightarrow> (8 word list option \<times> pkt_cache) res option" where
  "pkt_look c k = Some (rbind (pkt_peek c k True (Some MAX_PACKET_SIZE)) (\<lambda>(r, c). Inr (Option.bind r fst, c)))"

lemma pkt_look_ok:
  assumes "p_inv c"
  shows "\<exists>c'. pkt_look c k = Some (Inr (map_of (p_items c) k, c')) \<and> p_inv c' \<and> p_items c' = touch k (p_items c)"
proof -
  have copy: "Option.bind (map_of (p_items c) k) (copy_of True (Some MAX_PACKET_SIZE)) = map_option (\<lambda>d. (Some d, Some (length d))) (map_of (p_items c) k)"
    using p_items_fit [OF assms, of k] by (cases "map_of (p_items c) k") (auto simp: copy_of_def)
  obtain c' where "pkt_peek c k True (Some MAX_PACKET_SIZE) = Inr (map_option (\<lambda>d. (Some d, Some (length d))) (map_of (p_items c) k), c')" "p_inv c'"
    "p_items c' = (if map_of (p_items c) k = None then p_items c else touch k (p_items c))"
    using pkt_peek_ok [OF assms, of k True "Some MAX_PACKET_SIZE"] unfolding copy map_option_is_None by blast
  then show ?thesis by (intro exI [of _ c']) (cases "map_of (p_items c) k", simp_all add: pkt_look_def touch_def)
qed

interpretation p_lru: removable_lru_cache pkt_look pkt_put p_inv p_items P_CAPACITY "\<lambda>data. length data \<le> MAX_PACKET_SIZE" "\<lambda>_. True" "\<lambda>r. r" pkt_remove
proof
  show "0 < P_CAPACITY" by (simp add: P_CAPACITY_def)
  show "distinct (map fst (p_items s)) \<and> length (p_items s) \<le> P_CAPACITY" if "p_inv s" for s
    using that p_items_distinct by (auto simp: p_inv_def)
qed (use pkt_look_ok pkt_put_ok pkt_take_ok(2) in blast)+

section \<open>Properties\<close>

text \<open>
  Claim C9: the packet cache is an LRU cache of 64 packets. \<open>lru_put\<close> of a packet of at most 1536 bytes succeeds and keeps the 64 most
  recently used keys, a longer one is refused; \<open>lru_peek\<close> copies the packet and makes it the most recent, \<open>lru_get\<close> copies it and takes it
  out, both leave the cache unchanged when the key is absent or the buffer too small; \<open>lru_remove\<close> takes the entry out and tells
  whether it was there. No access leaves an array and every call returns.
\<close>

theorem pkt_cache_refines_lru:
  "p_inv pkt_init \<and> p_items pkt_init = [] \<and>
   (\<forall>c k data out out_len. p_inv c \<longrightarrow>
     (length data \<le> MAX_PACKET_SIZE \<longrightarrow>
        (\<exists>c'. pkt_put c k data = Some (Inr (True, c')) \<and> p_inv c' \<and> p_items c' = use P_CAPACITY k data (p_items c))) \<and>
     (MAX_PACKET_SIZE < length data \<longrightarrow> pkt_put c k data = Some (Inr (False, c))) \<and>
     (\<exists>c'. pkt_peek c k out out_len = Inr (Option.bind (map_of (p_items c) k) (copy_of out out_len), c') \<and> p_inv c' \<and>
        p_items c' = (if Option.bind (map_of (p_items c) k) (copy_of out out_len) = None then p_items c else touch k (p_items c))) \<and>
     (\<exists>c'. pkt_get c k out out_len = Some (Inr (Option.bind (map_of (p_items c) k) (copy_of out out_len), c')) \<and> p_inv c' \<and>
        p_items c' = (if Option.bind (map_of (p_items c) k) (copy_of out out_len) = None then p_items c else without k (p_items c))) \<and>
     (\<exists>c'. pkt_remove c k = Some (Inr (k \<in> fst ` set (p_items c), c')) \<and> p_inv c' \<and> p_items c' = without k (p_items c)))"
proof (intro conjI allI impI)
  show "p_inv pkt_init" "p_items pkt_init = []" using pkt_init_inv by blast+
qed (use pkt_put_ok pkt_peek_ok pkt_take_ok in \<open>auto simp: pkt_put_def\<close>)

theorem pkt_cache_refines_lru_witness:
  "\<exists>c'. pkt_put pkt_init 7 [1, 2] = Some (Inr (True, c')) \<and> p_inv c' \<and> p_items c' = [(7, [1, 2])]"
proof -
  have init: "p_inv pkt_init" "p_items pkt_init = []" using pkt_cache_refines_lru by blast+
  moreover have "length [1, 2 :: 8 word] \<le> MAX_PACKET_SIZE" by (simp add: MAX_PACKET_SIZE_def)
  ultimately have "\<exists>c'. pkt_put pkt_init 7 [1, 2] = Some (Inr (True, c')) \<and> p_inv c' \<and> p_items c' = use P_CAPACITY 7 [1, 2] (p_items pkt_init)"
    using pkt_cache_refines_lru by blast
  then show ?thesis using init by (simp add: use_def)
qed

text \<open>
  After any insertions of packets of at most 1536 bytes into a fresh packet cache, a look finds exactly the 64 most recently
  inserted distinct keys, each with the packet inserted last for it, and a removed key is gone.
\<close>

theorem pkt_cache_keeps_most_recent:
  assumes "\<forall>(k, data) \<in> set kvs. length data \<le> MAX_PACKET_SIZE"
  shows "\<exists>c c1 c2 c3. p_lru.put_all pkt_init kvs = Some (Inr c) \<and>
    pkt_look c k = Some (Inr (if k \<in> fst ` set (take P_CAPACITY (recent kvs)) then map_of (rev kvs) k else None, c1)) \<and>
    pkt_remove c k = Some (Inr (k \<in> fst ` set (p_items c), c2)) \<and> pkt_look c2 k = Some (Inr (None, c3))"
proof -
  have "p_inv pkt_init" "p_items pkt_init = []" using pkt_init_inv by auto
  from p_lru.puts_then_get [OF this, of kvs k] assms obtain c c1 where "p_lru.put_all pkt_init kvs = Some (Inr c)" "p_inv c"
    "pkt_look c k = Some (Inr (if k \<in> fst ` set (take P_CAPACITY (recent kvs)) then map_of (rev kvs) k else None, c1))" by blast
  then show ?thesis using p_lru.removed_is_gone by blast
qed

theorem pkt_cache_keeps_most_recent_witness:
  "\<exists>c c1. p_lru.put_all pkt_init [(1, [5]), (1, [6])] = Some (Inr c) \<and> pkt_look c 1 = Some (Inr (Some [6], c1))"
proof -
  have "\<forall>(k :: 32 word, data)\<in>set [(1, [5 :: 8 word]), (1, [6])]. length data \<le> MAX_PACKET_SIZE" by (simp add: MAX_PACKET_SIZE_def)
  from pkt_cache_keeps_most_recent [OF this, of 1] show ?thesis by (simp add: recent_def P_CAPACITY_def) blast
qed

end
