(* ===== verification/Palindromes.thy ===== *)
theory Palindromes
  imports Prelude "HOL-Library.Sublist"
begin

text \<open>
  Palindromic substrings: the longest one (\<open>pureStorage/longestPalindrome.cpp\<close>, by expansion around each centre and by brute force)
  and the number of them (\<open>pureStorage/countPalindromes.cpp\<close>). Indices are \<open>int\<close>s that may step to -1; they stay between -1 and the length
  of the string, so that on strings shorter than \<open>2 ^ 31\<close> no index overflows.
\<close>

section \<open>The programs\<close>

definition substr :: "string \<Rightarrow> int \<Rightarrow> int \<Rightarrow> string" where
  "substr s pos len = take (nat len) (drop (nat pos) s)"

function expandAroundCenter :: "string \<Rightarrow> int \<Rightarrow> int \<Rightarrow> int" where
  "expandAroundCenter s left right =
     (if left \<ge> 0 \<and> right < int (length s) \<and> s ! nat left = s ! nat right
      then expandAroundCenter s (left - 1) (right + 1)
      else right - left - 1)"
  by auto
termination by (relation "measure (\<lambda>(s, left, right). nat (left + 1))") auto

declare expandAroundCenter.simps [simp del]

text \<open>The loop of \<open>longestPalindrome\<close> over the centres from \<open>i\<close> on; \<open>n\<close> of them are left.\<close>

fun longest_loop :: "string \<Rightarrow> int \<Rightarrow> nat \<Rightarrow> int \<times> int \<Rightarrow> int \<times> int" where
  "longest_loop s i 0 (start, end') = (start, end')"
| "longest_loop s i (Suc n) (start, end') =
     (let len1 = expandAroundCenter s i i;
          len2 = expandAroundCenter s i (i + 1);
          len = max len1 len2
      in longest_loop s (i + 1) n
           (if len > end' - start + 1 then (i - (len - 1) div 2, i + len div 2) else (start, end')))"

definition longestPalindrome :: "string \<Rightarrow> string" where
  "longestPalindrome s =
     (if s = [] then ''''
      else let (start, end') = longest_loop s 0 (length s) (0, 0) in substr s start (end' - start + 1))"

function isPalindrome :: "string \<Rightarrow> int \<Rightarrow> int \<Rightarrow> bool" where
  "isPalindrome str left right =
     (if left < right then (if str ! nat left \<noteq> str ! nat right then False else isPalindrome str (left + 1) (right - 1))
      else True)"
  by auto
termination by (relation "measure (\<lambda>(s, left, right). nat (right - left))") auto

declare isPalindrome.simps [simp del]

text \<open>The two loops of the brute force, over \<open>j\<close> for one \<open>i\<close> and over \<open>i\<close>, on the pair of \<open>start\<close> and \<open>maxLength\<close>.\<close>

fun pal_inner :: "string \<Rightarrow> int \<Rightarrow> int \<Rightarrow> nat \<Rightarrow> int \<times> int \<Rightarrow> int \<times> int" where
  "pal_inner s i j 0 (start, maxLength) = (start, maxLength)"
| "pal_inner s i j (Suc k) (start, maxLength) =
     pal_inner s i (j + 1) k
       (if isPalindrome s i j then (if j - i + 1 > maxLength then (i, j - i + 1) else (start, maxLength)) else (start, maxLength))"

fun pal_outer :: "string \<Rightarrow> int \<Rightarrow> nat \<Rightarrow> int \<times> int \<Rightarrow> int \<times> int" where
  "pal_outer s i 0 acc = acc"
| "pal_outer s i (Suc k) acc = pal_outer s (i + 1) k (pal_inner s i i (Suc k) acc)"

definition longestPalindromeBruteForce :: "string \<Rightarrow> string" where
  "longestPalindromeBruteForce s =
     (if length s = 0 then ''''
      else let (start, maxLength) = pal_outer s 0 (length s) (0, 1) in substr s start (start + maxLength))"

definition longestPalindrome_main :: "string \<times> string" where
  "longestPalindrome_main = (longestPalindrome ''babad'', longestPalindromeBruteForce ''babad'')"

text \<open>The counting program keeps the palindromes it meets in the member \<open>result\<close>, which is passed along.\<close>

function expand :: "string \<Rightarrow> int \<Rightarrow> int \<Rightarrow> int \<Rightarrow> string list \<Rightarrow> int \<times> string list" where
  "expand s left right c result =
     (if left \<ge> 0 \<and> right < int (length s) \<and> s ! nat left = s ! nat right
      then expand s (left - 1) (right + 1) (c + 1) (result @ [substr s left (right - left + 1)])
      else (c, result))"
  by auto
termination by (relation "measure (\<lambda>(s, left, right, c, result). nat (left + 1))") auto

declare expand.simps [simp del]

fun count_loop :: "string \<Rightarrow> int \<Rightarrow> nat \<Rightarrow> int \<times> string list \<Rightarrow> int \<times> string list" where
  "count_loop s i 0 (count, result) = (count, result)"
| "count_loop s i (Suc n) (count, result) =
     (let (c1, result) = expand s i i 0 result;
          (c2, result) = expand s i (i + 1) 0 result
      in count_loop s (i + 1) n (count + c1 + c2, result))"

definition countPalindromes :: "string \<Rightarrow> string list \<Rightarrow> int \<times> string list" where
  "countPalindromes s result = count_loop s 0 (length s) (0, result)"

definition countPalindromes_main :: "int \<times> string list" where
  "countPalindromes_main = countPalindromes ''ababa'' []"

section \<open>Palindromic ranges of a string\<close>

definition pal :: "string \<Rightarrow> int \<Rightarrow> int \<Rightarrow> bool" where
  "pal s a b \<longleftrightarrow> 0 \<le> a \<and> b < int (length s) \<and> (\<forall>k. a \<le> k \<longrightarrow> k \<le> b \<longrightarrow> s ! nat k = s ! nat (a + b - k))"

lemma pal_extend: "pal s (l + 1) (r - 1) \<Longrightarrow> 0 \<le> l \<Longrightarrow> r < int (length s) \<Longrightarrow> s ! nat l = s ! nat r \<Longrightarrow> pal s l r"
proof -
  assume *: "pal s (l + 1) (r - 1)" "0 \<le> l" "r < int (length s)" "s ! nat l = s ! nat r"
  have "s ! nat k = s ! nat (l + r - k)" if k: "l \<le> k" "k \<le> r" for k
  proof (cases "k = l \<or> k = r")
    case False
    then have "l + 1 \<le> k" "k \<le> r - 1" using k by auto
    then have "s ! nat k = s ! nat ((l + 1) + (r - 1) - k)" using *(1) unfolding pal_def by blast
    moreover have "(l + 1) + (r - 1) - k = l + r - k" by simp
    ultimately show ?thesis by simp
  qed (use *(4) in auto)
  then show ?thesis unfolding pal_def using *(2,3) by blast
qed

lemma pal_contained:
  assumes "pal s a b" "a + b = l + r" "a \<le> l" "l \<le> b"
  shows "0 \<le> l \<and> r < int (length s) \<and> s ! nat l = s ! nat r"
proof -
  have "s ! nat l = s ! nat (a + b - l)" "0 \<le> a" "b < int (length s)" using assms unfolding pal_def by blast+
  moreover have "a + b - l = r" using assms(2) by simp
  ultimately show ?thesis using assms(2,3) by simp
qed

lemma pal_trivial: "0 \<le> a \<Longrightarrow> b < int (length s) \<Longrightarrow> b \<le> a \<Longrightarrow> pal s a b"
  by (auto simp: pal_def intro!: arg_cong [where f = "\<lambda>i. s ! nat i"])

lemma substr_pal:
  assumes "0 \<le> a" "b < int (length s)" "a \<le> b + 1"
  shows "pal s a b \<longleftrightarrow> rev (substr s a (b - a + 1)) = substr s a (b - a + 1)"
proof -
  let ?r = "substr s a (b - a + 1)"
  have len: "length ?r = nat (b - a + 1)" using assms by (simp add: substr_def)
  have nth: "?r ! i = s ! (nat a + i)" if "i < nat (b - a + 1)" for i using that assms by (simp add: substr_def)
  have idx: "nat a + (nat (b - a + 1) - Suc i) = nat (a + b - (a + int i))" "nat a + i = nat (a + int i)" if "i < nat (b - a + 1)" for i
    using that assms by auto
  have "rev ?r = ?r \<longleftrightarrow> (\<forall>i < nat (b - a + 1). s ! nat (a + int i) = s ! nat (a + b - (a + int i)))"
  proof -
    have "rev ?r = ?r \<longleftrightarrow> (\<forall>i < nat (b - a + 1). rev ?r ! i = ?r ! i)" unfolding list_eq_iff_nth_eq using len by simp
    also have "\<dots> \<longleftrightarrow> (\<forall>i < nat (b - a + 1). s ! nat (a + b - (a + int i)) = s ! nat (a + int i))"
    proof (intro all_cong)
      fix i assume i: "i < nat (b - a + 1)"
      then have "rev ?r ! i = ?r ! (nat (b - a + 1) - Suc i)" using len by (simp add: rev_nth)
      also have "\<dots> = s ! nat (a + b - (a + int i))" using i nth [of "nat (b - a + 1) - Suc i"] idx(1) [OF i] by simp
      finally show "rev ?r ! i = ?r ! i \<longleftrightarrow> s ! nat (a + b - (a + int i)) = s ! nat (a + int i)" using nth [OF i] idx(2) [OF i] by simp
    qed
    finally show ?thesis by metis
  qed
  also have "\<dots> \<longleftrightarrow> (\<forall>k. a \<le> k \<longrightarrow> k \<le> b \<longrightarrow> s ! nat k = s ! nat (a + b - k))"
  proof (intro iffI allI impI)
    fix k assume *: "\<forall>i < nat (b - a + 1). s ! nat (a + int i) = s ! nat (a + b - (a + int i))" "a \<le> k" "k \<le> b"
    then show "s ! nat k = s ! nat (a + b - k)" using *(1) [rule_format, of "nat (k - a)"] by simp
  next
    fix i assume *: "\<forall>k. a \<le> k \<longrightarrow> k \<le> b \<longrightarrow> s ! nat k = s ! nat (a + b - k)" "i < nat (b - a + 1)"
    have "a \<le> a + int i" "a + int i \<le> b" using *(2) by linarith+
    then show "s ! nat (a + int i) = s ! nat (a + b - (a + int i))" using *(1) by blast
  qed
  finally show ?thesis unfolding pal_def using assms(1,2) by blast
qed

lemma sublist_range:
  assumes "sublist q s" "q \<noteq> []"
  obtains a where "0 \<le> a" "a + int (length q) - 1 < int (length s)" "q = substr s a (int (length q))"
proof -
  obtain xs ys where "s = xs @ q @ ys" using assms(1) by (auto simp: sublist_def)
  then show thesis by (intro that [of "int (length xs)"]) (auto simp: substr_def)
qed

lemma sublist_substr: "sublist (substr s a n) s"
  unfolding substr_def by (metis sublist_drop sublist_take sublist_order.order_trans)

section \<open>Expansion\<close>

lemma expandAroundCenter_longest:
  assumes "pal s (l + 1) (r - 1)" "l \<le> r"
  obtains a b where "a + b = l + r" "b - a + 1 = expandAroundCenter s l r" "pal s a b" "r - l - 1 \<le> b - a + 1"
    "\<And>a' b'. pal s a' b' \<Longrightarrow> a' + b' = l + r \<Longrightarrow> a' \<le> b' \<Longrightarrow> b' - a' + 1 \<le> expandAroundCenter s l r"
  using assms
proof (induction s l r arbitrary: thesis rule: expandAroundCenter.induct)
  case (1 s l r)
  show ?case
  proof (cases "l \<ge> 0 \<and> r < int (length s) \<and> s ! nat l = s ! nat r")
    case True
    have ext: "pal s (l - 1 + 1) (r + 1 - 1)" using pal_extend [OF "1.prems"(2)] True by simp
    have eq: "expandAroundCenter s l r = expandAroundCenter s (l - 1) (r + 1)" using True by (subst expandAroundCenter.simps) simp
    show ?thesis
    proof (rule "1.IH" [OF True _ ext])
      show "l - 1 \<le> r + 1" using "1.prems"(3) by simp
      fix a b assume ab: "a + b = l - 1 + (r + 1)" "b - a + 1 = expandAroundCenter s (l - 1) (r + 1)" "pal s a b" "r + 1 - (l - 1) - 1 \<le> b - a + 1"
        "\<And>a' b'. pal s a' b' \<Longrightarrow> a' + b' = l - 1 + (r + 1) \<Longrightarrow> a' \<le> b' \<Longrightarrow> b' - a' + 1 \<le> expandAroundCenter s (l - 1) (r + 1)"
      show thesis by (rule "1.prems"(1) [of a b]) (use ab eq in auto)
    qed
  next
    case False
    have eq: "expandAroundCenter s l r = r - l - 1" using False by (subst expandAroundCenter.simps) auto
    have "b' - a' + 1 \<le> r - l - 1" if "pal s a' b'" "a' + b' = l + r" "a' \<le> b'" for a' b'
    proof (rule ccontr)
      assume "\<not> b' - a' + 1 \<le> r - l - 1"
      then have "a' \<le> l" "l \<le> b'" using that(2,3) "1.prems"(3) by linarith+
      then show False using pal_contained [OF that(1,2)] False by blast
    qed
    then show ?thesis using "1.prems" eq by (intro "1.prems"(1) [of "l + 1" "r - 1"]) auto
  qed
qed

section \<open>The longest palindrome\<close>

text \<open>What both programs look for: a palindromic range that no palindromic range with centre below \<open>i\<close> (on the left) exceeds.\<close>

lemma expand_odd: "0 \<le> i \<Longrightarrow> i < int (length s) \<Longrightarrow> pal s (i + 1) (i - 1)"
  by (simp add: pal_def)

lemma expand_even: "0 \<le> i \<Longrightarrow> i < int (length s) \<Longrightarrow> pal s (i + 1) (i + 1 - 1)"
  by (simp add: pal_def)

lemma longest_step:
  assumes i: "0 \<le> i" "i < int (length s)" and len: "len = max (expandAroundCenter s i i) (expandAroundCenter s i (i + 1))"
  shows "pal s (i - (len - 1) div 2) (i + len div 2)" "1 \<le> len" "i + len div 2 - (i - (len - 1) div 2) + 1 = len"
    "\<And>a b. pal s a b \<Longrightarrow> a \<le> b \<Longrightarrow> (a + b) div 2 = i \<Longrightarrow> b - a + 1 \<le> len"
proof -
  obtain a b where o: "a + b = i + i" "b - a + 1 = expandAroundCenter s i i" "pal s a b" "i - i - 1 \<le> b - a + 1"
    "\<And>a' b'. pal s a' b' \<Longrightarrow> a' + b' = i + i \<Longrightarrow> a' \<le> b' \<Longrightarrow> b' - a' + 1 \<le> expandAroundCenter s i i"
    using expandAroundCenter_longest [OF expand_odd [OF i]] by auto
  obtain c d where e: "c + d = i + (i + 1)" "d - c + 1 = expandAroundCenter s i (i + 1)" "pal s c d" "i + 1 - i - 1 \<le> d - c + 1"
    "\<And>a' b'. pal s a' b' \<Longrightarrow> a' + b' = i + (i + 1) \<Longrightarrow> a' \<le> b' \<Longrightarrow> b' - a' + 1 \<le> expandAroundCenter s i (i + 1)"
    using expandAroundCenter_longest [OF expand_even [OF i]] by auto
  have "pal s i i" using i by (simp add: pal_trivial)
  then have "1 \<le> expandAroundCenter s i i" using o(5) [of i i] by simp
  then show "1 \<le> len" using len by simp
  have "len = b - a + 1 \<and> i - (len - 1) div 2 = a \<and> i + len div 2 = b \<or> len = d - c + 1 \<and> i - (len - 1) div 2 = c \<and> i + len div 2 = d"
  proof (cases "expandAroundCenter s i (i + 1) \<le> expandAroundCenter s i i")
    case True
    then have "len = b - a + 1" using len o(2) by simp
    then show ?thesis using o(1) by (intro disjI1) presburger
  next
    case False
    then have "len = d - c + 1" using len e(2) by simp
    then show ?thesis using e(1) by (intro disjI2) presburger
  qed
  then show "pal s (i - (len - 1) div 2) (i + len div 2)" "i + len div 2 - (i - (len - 1) div 2) + 1 = len" using o(3) e(3) by auto
  fix a' b' assume ab: "pal s a' b'" "a' \<le> b'" "(a' + b') div 2 = i"
  then have "a' + b' = i + i \<or> a' + b' = i + (i + 1)" by presburger
  then show "b' - a' + 1 \<le> len" using o(5) [OF ab(1)] e(5) [OF ab(1)] ab(2) len by linarith
qed

lemma longest_loop_ok:
  assumes "longest_loop s i n (start, end') = (x, y)" "0 \<le> i" "i + int n = int (length s)" "pal s start end'" "start \<le> end'"
    "\<And>a b. pal s a b \<Longrightarrow> a \<le> b \<Longrightarrow> (a + b) div 2 < i \<Longrightarrow> b - a \<le> end' - start"
  shows "pal s x y \<and> x \<le> y \<and> (\<forall>a b. pal s a b \<longrightarrow> a \<le> b \<longrightarrow> b - a \<le> y - x)"
  using assms
proof (induction n arbitrary: i start end')
  case 0
  have "(a + b) div 2 < i" if "pal s a b" "a \<le> b" for a b
  proof -
    have "b < i" using that(1) "0.prems"(2,3) by (simp add: pal_def)
    then show ?thesis using that(2) by presburger
  qed
  then show ?case using 0 by auto
next
  case (Suc n)
  define len where "len = max (expandAroundCenter s i i) (expandAroundCenter s i (i + 1))"
  let ?x = "i - (len - 1) div 2" and ?y = "i + len div 2"
  have i: "i < int (length s)" using Suc.prems(2,3) by simp
  note step = longest_step [OF Suc.prems(2) i len_def]
  have below: "b - a \<le> max (end' - start) (len - 1)" if "pal s a b" "a \<le> b" "(a + b) div 2 < i + 1" for a b
    using step(4) [OF that(1,2)] Suc.prems(6) [OF that(1,2)] that(3) by fastforce
  have loop: "longest_loop s (i + 1) n (if len > end' - start + 1 then (?x, ?y) else (start, end')) = (x, y)"
    using Suc.prems(1) unfolding longest_loop.simps Let_def len_def .
  show ?case
  proof (cases "len > end' - start + 1")
    case True
    show ?thesis
    proof (rule Suc.IH)
      show "longest_loop s (i + 1) n (?x, ?y) = (x, y)" using loop True by simp
      show "b - a \<le> ?y - ?x" if "pal s a b" "a \<le> b" "(a + b) div 2 < i + 1" for a b using below [OF that] True step(3) by simp
    qed (use Suc.prems(2,3) step(1-3) in auto)
  next
    case False
    show ?thesis
    proof (rule Suc.IH)
      show "longest_loop s (i + 1) n (start, end') = (x, y)" using loop False by simp
      show "b - a \<le> end' - start" if "pal s a b" "a \<le> b" "(a + b) div 2 < i + 1" for a b using below [OF that] False by simp
    qed (use Suc.prems in auto)
  qed
qed

text \<open>A longest palindromic range is a longest palindromic substring.\<close>

lemma longest_range:
  assumes "pal s x y" "x \<le> y" "\<And>a b. pal s a b \<Longrightarrow> a \<le> b \<Longrightarrow> b - a \<le> y - x" "sublist q s" "rev q = q"
  shows "length q \<le> nat (y - x + 1)"
proof (cases "q = []")
  case False
  then obtain a where a: "0 \<le> a" "a + int (length q) - 1 < int (length s)" "q = substr s a (int (length q))"
    using sublist_range [OF assms(4)] by blast
  have "pal s a (a + int (length q) - 1)" using substr_pal [of a "a + int (length q) - 1" s] a assms(5) by simp
  then show ?thesis using assms(3) [of a "a + int (length q) - 1"] False by (cases q) auto
qed simp

lemma longestPalindrome_range:
  assumes "s \<noteq> []"
  obtains x y where "pal s x y" "x \<le> y" "\<And>a b. pal s a b \<Longrightarrow> a \<le> b \<Longrightarrow> b - a \<le> y - x" "longestPalindrome s = substr s x (y - x + 1)"
proof -
  obtain x y where xy: "longest_loop s 0 (length s) (0, 0) = (x, y)" by fastforce
  have "pal s 0 0" using assms by (simp add: pal_trivial)
  moreover have "b - a \<le> 0 - 0" if "pal s a b" "a \<le> b" "(a + b) div 2 < 0" for a b :: int using that by (simp add: pal_def)
  ultimately have "pal s x y \<and> x \<le> y \<and> (\<forall>a b. pal s a b \<longrightarrow> a \<le> b \<longrightarrow> b - a \<le> y - x)"
    by (intro longest_loop_ok [OF xy]) auto
  then show thesis using xy assms by (intro that [of x y]) (auto simp: longestPalindrome_def)
qed

section \<open>The brute force\<close>

lemma isPalindrome_pal: "0 \<le> a \<Longrightarrow> b < int (length s) \<Longrightarrow> isPalindrome s a b \<longleftrightarrow> pal s a b"
proof (induction s a b rule: isPalindrome.induct)
  case (1 s a b)
  show ?case
  proof (cases "a < b \<and> s ! nat a = s ! nat b")
    case True
    then have "isPalindrome s a b \<longleftrightarrow> pal s (a + 1) (b - 1)" using 1 by (subst isPalindrome.simps) simp
    moreover have "pal s (a + 1) (b - 1)" if "pal s a b"
      unfolding pal_def
    proof (intro conjI allI impI)
      fix k assume "a + 1 \<le> k" "k \<le> b - 1"
      then have "a \<le> k" "k \<le> b" by linarith+
      then have "s ! nat k = s ! nat (a + b - k)" using that unfolding pal_def by blast
      then show "s ! nat k = s ! nat (a + 1 + (b - 1) - k)" by simp
    qed (use "1.prems" in auto)
    ultimately show ?thesis using pal_extend [of s a b] "1.prems" True by blast
  next
    case False
    have "\<not> pal s a b" if "a < b" "s ! nat a \<noteq> s ! nat b" using that pal_contained [of s a b a b] by auto
    then show ?thesis using False "1.prems" pal_trivial [of a b s] by (subst isPalindrome.simps) auto
  qed
qed

lemma pal_inner_ok:
  assumes "pal_inner s i j k (start, m) = (x, y)" "0 \<le> i" "i \<le> j" "j + int k = int (length s)" "pal s start (start + m - 1)" "1 \<le> m"
    "\<And>a b. pal s a b \<Longrightarrow> a \<le> b \<Longrightarrow> a < i \<or> a = i \<and> b < j \<Longrightarrow> b - a + 1 \<le> m"
  shows "pal s x (x + y - 1) \<and> 1 \<le> y \<and> (\<forall>a b. pal s a b \<longrightarrow> a \<le> b \<longrightarrow> a \<le> i \<longrightarrow> b - a + 1 \<le> y)"
  using assms
proof (induction k arbitrary: j start m)
  case 0
  have "b < j" if "pal s a b" for a b using that "0.prems"(4) by (simp add: pal_def)
  then show ?case using 0 by (auto simp: order_le_less)
next
  case (Suc k)
  let ?new = "isPalindrome s i j \<and> j - i + 1 > m"
  have pal: "isPalindrome s i j \<longleftrightarrow> pal s i j" using Suc.prems(2,4) by (intro isPalindrome_pal) auto
  have loop: "pal_inner s i (j + 1) k (if ?new then (i, j - i + 1) else (start, m)) = (x, y)"
    using Suc.prems(1) by (cases "isPalindrome s i j"; cases "j - i + 1 > m") auto
  have upto: "a < i \<or> a = i \<and> b < j \<or> a = i \<and> b = j" if "a < i \<or> a = i \<and> b < j + 1" for a b :: int using that by auto
  show ?case
  proof (cases ?new)
    case True
    show ?thesis
    proof (rule Suc.IH)
      show "pal_inner s i (j + 1) k (i, j - i + 1) = (x, y)" using loop True by simp
      show "b - a + 1 \<le> j - i + 1" if "pal s a b" "a \<le> b" "a < i \<or> a = i \<and> b < j + 1" for a b
        using Suc.prems(7) [OF that(1,2)] upto [OF that(3)] True by fastforce
      show "pal s i (i + (j - i + 1) - 1)" using True pal by simp
    qed (use Suc.prems(2-4) in auto)
  next
    case False
    show ?thesis
    proof (rule Suc.IH)
      show "pal_inner s i (j + 1) k (start, m) = (x, y)" using loop unfolding if_not_P [OF False] .
      show "b - a + 1 \<le> m" if "pal s a b" "a \<le> b" "a < i \<or> a = i \<and> b < j + 1" for a b
        using Suc.prems(7) [OF that(1,2)] upto [OF that(3)] False pal that(1) by fastforce
    qed (use Suc.prems in auto)
  qed
qed

lemma pal_outer_ok:
  assumes "pal_outer s i k (start, m) = (x, y)" "0 \<le> i" "i + int k = int (length s)" "pal s start (start + m - 1)" "1 \<le> m"
    "\<And>a b. pal s a b \<Longrightarrow> a \<le> b \<Longrightarrow> a < i \<Longrightarrow> b - a + 1 \<le> m"
  shows "pal s x (x + y - 1) \<and> 1 \<le> y \<and> (\<forall>a b. pal s a b \<longrightarrow> a \<le> b \<longrightarrow> b - a + 1 \<le> y)"
  using assms
proof (induction k arbitrary: i start m)
  case 0
  have "a < i" if "pal s a b" "a \<le> b" for a b using that "0.prems"(3) by (simp add: pal_def)
  then show ?case using 0 by auto
next
  case (Suc k)
  obtain st' m' where in': "pal_inner s i i (Suc k) (start, m) = (st', m')" by fastforce
  have "pal s st' (st' + m' - 1) \<and> 1 \<le> m' \<and> (\<forall>a b. pal s a b \<longrightarrow> a \<le> b \<longrightarrow> a \<le> i \<longrightarrow> b - a + 1 \<le> m')"
    by (rule pal_inner_ok [OF in']) (use Suc.prems in auto)
  then show ?case using Suc.prems(1-3) in' by (intro Suc.IH [of "i + 1" st' m']) auto
qed

text \<open>
  \<open>longestPalindrome\<close> returns a palindromic substring and no palindromic substring is longer; the brute force finds
  such a palindrome of the same length too, but returns the substring of length \<open>start + maxLength\<close> from its start, which is that palindrome
  only when it starts at 0 or ends with the string.
\<close>

theorem longest_palindrome_correct:
  "sublist (longestPalindrome s) s \<and> rev (longestPalindrome s) = longestPalindrome s \<and>
   (\<forall>q. sublist q s \<longrightarrow> rev q = q \<longrightarrow> length q \<le> length (longestPalindrome s)) \<and>
   (s \<noteq> [] \<longrightarrow> (\<exists>b m. m = int (length (longestPalindrome s)) \<and> 0 \<le> b \<and> b + m \<le> int (length s) \<and> rev (substr s b m) = substr s b m \<and>
      longestPalindromeBruteForce s = substr s b (b + m) \<and>
      (longestPalindromeBruteForce s = substr s b m \<longleftrightarrow> b = 0 \<or> b + m = int (length s))))"
proof (cases "s = []")
  case True
  then show ?thesis by (simp add: longestPalindrome_def)
next
  case False
  obtain x y where xy: "pal s x y" "x \<le> y" "\<And>a b. pal s a b \<Longrightarrow> a \<le> b \<Longrightarrow> b - a \<le> y - x" "longestPalindrome s = substr s x (y - x + 1)"
    using longestPalindrome_range [OF False] by metis
  have range: "0 \<le> x" "y < int (length s)" using xy(1) by (simp_all add: pal_def)
  have len: "length (longestPalindrome s) = nat (y - x + 1)" unfolding xy(4) using range xy(2) by (simp add: substr_def)
  have p: "rev (longestPalindrome s) = longestPalindrome s" using substr_pal [of x y s] range xy by simp
  obtain b m where bm: "pal_outer s 0 (length s) (0, 1) = (b, m)" by fastforce
  have "pal s 0 (0 + 1 - 1)" using False by (simp add: pal_trivial)
  then have brute: "pal s b (b + m - 1) \<and> 1 \<le> m \<and> (\<forall>a b. pal s a b \<longrightarrow> a \<le> b \<longrightarrow> b - a + 1 \<le> m)"
    by (intro pal_outer_ok [OF bm]) (auto simp: pal_def)
  then have "y - x + 1 \<le> m" "b + m - 1 - b \<le> y - x" using xy(1,2) xy(3) [of b "b + m - 1"] by auto
  then have m: "m = int (length (longestPalindrome s))" using len xy(2) by simp
  have bounds: "0 \<le> b" "b + m \<le> int (length s)" using brute by (auto simp: pal_def)
  have rev: "rev (substr s b m) = substr s b m" using substr_pal [of b "b + m - 1" s] brute bounds by simp
  have res: "longestPalindromeBruteForce s = substr s b (b + m)" using False bm by (simp add: longestPalindromeBruteForce_def)
  have lens: "length (substr s b (b + m)) = nat (min (b + m) (int (length s) - b))" "length (substr s b m) = nat m"
    using bounds brute by (auto simp: substr_def min_def)
  have "substr s b (b + m) = substr s b m \<longleftrightarrow> b = 0 \<or> b + m = int (length s)"
  proof
    assume "substr s b (b + m) = substr s b m"
    then have "nat (min (b + m) (int (length s) - b)) = nat m" using lens by metis
    then show "b = 0 \<or> b + m = int (length s)" using bounds brute by linarith
  next
    assume "b = 0 \<or> b + m = int (length s)"
    then show "substr s b (b + m) = substr s b m"
    proof
      assume e: "b + m = int (length s)"
      then have "length (drop (nat b) s) \<le> nat (b + m)" "length (drop (nat b) s) \<le> nat m" using bounds by auto
      then show ?thesis by (simp add: substr_def)
    qed simp
  qed
  then show ?thesis using p sublist_substr longest_range [OF xy(1,2,3)] len m bounds rev res by (auto simp: xy(4))
qed

theorem longest_palindrome_correct_witness:
  "length ''aa'' \<le> length (longestPalindrome ''xaab'') \<and>
   (\<exists>b m. m = int (length (longestPalindrome ''xaab'')) \<and> longestPalindromeBruteForce ''xaab'' = substr ''xaab'' b (b + m))"
proof -
  have "sublist ''aa'' ''xaab''" by code_simp
  moreover have "rev ''aa'' = ''aa''" "''xaab'' \<noteq> []" by simp_all
  ultimately show ?thesis using longest_palindrome_correct [of "''xaab''"] by blast
qed

lemma longestPalindromeBruteForce_wrong: "longestPalindromeBruteForce ''xaab'' = ''aab''" "longestPalindrome ''xaab'' = ''aa''"
  by code_simp+

lemma longestPalindrome_main_output: "longestPalindrome_main = (''bab'', ''bab'')"
  by code_simp

section \<open>Counting\<close>

text \<open>The palindromic ranges with centre between the left index \<open>l\<close> and the right index \<open>r\<close> that start at or left of \<open>l\<close>.\<close>

definition pals_around :: "string \<Rightarrow> int \<Rightarrow> int \<Rightarrow> (int \<times> int) set" where
  "pals_around s l r = {(a, b). pal s a b \<and> a \<le> b \<and> a + b = l + r \<and> a \<le> l}"

definition palindromic_ranges :: "string \<Rightarrow> (int \<times> int) set" where
  "palindromic_ranges s = {(a, b). a \<le> b \<and> pal s a b}"

lemma finite_ranges: "finite (palindromic_ranges s)"
proof -
  have "palindromic_ranges s \<subseteq> {0..int (length s)} \<times> {0..int (length s)}" by (auto simp: palindromic_ranges_def pal_def)
  then show ?thesis by (rule finite_subset) simp
qed

lemma finite_around: "finite (pals_around s l r)"
  by (rule finite_subset [OF _ finite_ranges [of s]]) (auto simp: pals_around_def palindromic_ranges_def)

lemma expand_counts:
  assumes "pal s (l + 1) (r - 1)" "l \<le> r"
  shows "\<exists>ps. expand s l r c result = (c + int (card (pals_around s l r)), result @ map (\<lambda>(a, b). substr s a (b - a + 1)) ps) \<and>
    distinct ps \<and> set ps = pals_around s l r"
  using assms
proof (induction s l r c result rule: expand.induct)
  case (1 s l r c result)
  show ?case
  proof (cases "l \<ge> 0 \<and> r < int (length s) \<and> s ! nat l = s ! nat r")
    case True
    have ext: "pal s l r" using pal_extend [OF "1.prems"(1)] True by simp
    have around: "pals_around s l r = insert (l, r) (pals_around s (l - 1) (r + 1))" "(l, r) \<notin> pals_around s (l - 1) (r + 1)"
      using ext "1.prems"(2) by (auto simp: pals_around_def)
    have step: "expand s l r c result = expand s (l - 1) (r + 1) (c + 1) (result @ [substr s l (r - l + 1)])"
      using True by (subst expand.simps) simp
    obtain ps where ps: "expand s (l - 1) (r + 1) (c + 1) (result @ [substr s l (r - l + 1)]) =
        (c + 1 + int (card (pals_around s (l - 1) (r + 1))), (result @ [substr s l (r - l + 1)]) @ map (\<lambda>(a, b). substr s a (b - a + 1)) ps)"
      "distinct ps" "set ps = pals_around s (l - 1) (r + 1)"
      using "1.IH" [OF True] ext "1.prems"(2) by auto
    then show ?thesis using step around finite_around by (intro exI [of _ "(l, r) # ps"]) auto
  next
    case False
    have "pals_around s l r = {}"
    proof -
      have "False" if "pal s a b" "a \<le> b" "a + b = l + r" "a \<le> l" for a b
        using pal_contained [OF that(1,3,4)] that False "1.prems"(2) by auto
      then show ?thesis by (auto simp: pals_around_def)
    qed
    then show ?thesis using False by (subst expand.simps) auto
  qed
qed

lemma ranges_at_center:
  assumes "0 \<le> i"
  shows "{(a, b) \<in> palindromic_ranges s. (a + b) div 2 = i} = pals_around s i i \<union> pals_around s i (i + 1)"
    "pals_around s i i \<inter> pals_around s i (i + 1) = {}"
proof -
  have "a + b = i + i \<or> a + b = i + (i + 1) \<longleftrightarrow> (a + b) div 2 = i" for a b :: int by presburger
  moreover have "a \<le> i" if "a \<le> b" "(a + b) div 2 = i" for a b :: int using that by presburger
  ultimately show "{(a, b) \<in> palindromic_ranges s. (a + b) div 2 = i} = pals_around s i i \<union> pals_around s i (i + 1)"
    unfolding palindromic_ranges_def pals_around_def by fastforce
qed (auto simp: pals_around_def)

lemma count_loop_ok:
  assumes "0 \<le> i" "i + int n = int (length s)"
  shows "\<exists>ps. count_loop s i n (count, result) =
      (count + int (card {(a, b) \<in> palindromic_ranges s. i \<le> (a + b) div 2}), result @ map (\<lambda>(a, b). substr s a (b - a + 1)) ps) \<and>
    distinct ps \<and> set ps = {(a, b) \<in> palindromic_ranges s. i \<le> (a + b) div 2}"
  using assms
proof (induction n arbitrary: i count result)
  case 0
  have "\<not> i \<le> (a + b) div 2" if "pal s a b" "a \<le> b" for a b
  proof -
    have "b < i" using that(1) "0.prems" by (simp add: pal_def)
    then show ?thesis using that(2) by presburger
  qed
  then have "{(a, b) \<in> palindromic_ranges s. i \<le> (a + b) div 2} = {}" by (auto simp: palindromic_ranges_def)
  then show ?case by (simp only: count_loop.simps card.empty) simp
next
  case (Suc n)
  let ?f = "\<lambda>(a, b). substr s a (b - a + 1)" and ?A = "pals_around s i i" and ?B = "pals_around s i (i + 1)"
  let ?C = "\<lambda>i. {(a, b) \<in> palindromic_ranges s. i \<le> (a + b) div 2}"
  have i: "i < int (length s)" using Suc.prems by simp
  obtain ps where ps: "expand s i i 0 result = (int (card ?A), result @ map ?f ps)" "distinct ps" "set ps = ?A"
    using expand_counts [OF expand_odd [OF Suc.prems(1) i], of 0 result] by auto
  obtain qs where qs: "expand s i (i + 1) 0 (result @ map ?f ps) = (int (card ?B), (result @ map ?f ps) @ map ?f qs)" "distinct qs" "set qs = ?B"
    using expand_counts [OF expand_even [OF Suc.prems(1) i], of 0 "result @ map ?f ps"] by auto
  obtain rs where rs: "count_loop s (i + 1) n (count + int (card ?A) + int (card ?B), (result @ map ?f ps) @ map ?f qs) =
      (count + int (card ?A) + int (card ?B) + int (card (?C (i + 1))), ((result @ map ?f ps) @ map ?f qs) @ map ?f rs)"
    "distinct rs" "set rs = ?C (i + 1)"
    using Suc.IH [of "i + 1" "count + int (card ?A) + int (card ?B)" "(result @ map ?f ps) @ map ?f qs"] Suc.prems by auto
  have AB: "?A \<inter> ?B = {}" "?A \<union> ?B = {(a, b) \<in> palindromic_ranges s. (a + b) div 2 = i}" using ranges_at_center [OF Suc.prems(1)] by auto
  have C: "?C i = (?A \<union> ?B) \<union> ?C (i + 1)" "(?A \<union> ?B) \<inter> ?C (i + 1) = {}" unfolding AB(2) by auto
  have fin: "finite (?C (i + 1))" by (rule finite_subset [OF _ finite_ranges [of s]]) auto
  have card: "card (?C i) = card ?A + card ?B + card (?C (i + 1))"
    unfolding C(1) using card_Un_disjoint [OF _ fin C(2)] card_Un_disjoint [OF _ _ AB(1)] finite_around by simp
  have dist: "distinct (ps @ qs @ rs)" "set (ps @ qs @ rs) = ?C i" using ps(2,3) qs(2,3) rs(2,3) AB(1) C by auto
  have "count_loop s i (Suc n) (count, result) = (count + int (card (?C i)), result @ map ?f (ps @ qs @ rs))"
    using ps(1) qs(1) rs(1) card by simp
  then show ?case using dist by blast
qed

text \<open>
  \<open>countPalindromes\<close> returns the number of palindromic substrings, counted by their positions, and appends each of them once to
  the member \<open>result\<close>.
\<close>

theorem countPalindromes_correct:
  "\<exists>ps. countPalindromes s result = (int (card (palindromic_ranges s)), result @ map (\<lambda>(a, b). substr s a (b - a + 1)) ps) \<and>
    distinct ps \<and> set ps = palindromic_ranges s"
proof -
  have "{(a, b) \<in> palindromic_ranges s. 0 \<le> (a + b) div 2} = palindromic_ranges s" by (auto simp: palindromic_ranges_def pal_def)
  then show ?thesis using count_loop_ok [of 0 "length s" s 0 result] by (simp add: countPalindromes_def)
qed

lemma countPalindromes_main_output: "fst countPalindromes_main = 9"
  by code_simp

end
