(* ===== verification/Array_Scans.thy ===== *)
theory Array_Scans
  imports Prelude
begin

text \<open>
  Scans of an integer array: the longest run of consecutive values (\<open>pureStorage/longestConsecutiveSequence.cpp\<close>, with a hash set and by
  sorting) and the maximum of a bitonic array (\<open>arista/bitonicPoint.cpp\<close>, by a linear scan and by binary search). Signed overflow and
  accesses outside the array are errors.
\<close>

section \<open>The longest run of consecutive values\<close>

text \<open>The \<open>while\<close> loop: \<open>y\<close> runs to the first value that is not in the set.\<close>

function run_end :: "int list \<Rightarrow> int \<Rightarrow> int res" where
  "run_end set' y = (if List.member set' y then rbind (chk32 (y + 1)) (\<lambda>y'. run_end set' (y + 1)) else Inr y)"
  by auto
termination
proof (relation "measure (\<lambda>(xs, y). card {z \<in> set xs. y \<le> z})")
  fix xs and y :: int assume "List.member xs y"
  then have "y \<in> {z \<in> set xs. y \<le> z}" by (simp add: List.member_iff)
  moreover have "y \<notin> {z \<in> set xs. y + 1 \<le> z}" "{z \<in> set xs. y + 1 \<le> z} \<subseteq> {z \<in> set xs. y \<le> z}" by auto
  ultimately have "{z \<in> set xs. y + 1 \<le> z} \<subset> {z \<in> set xs. y \<le> z}" by blast
  then show "((xs, y + 1), (xs, y)) \<in> measure (\<lambda>(xs, y). card {z \<in> set xs. y \<le> z})" by (simp add: psubset_card_mono)
qed simp

declare run_end.simps [simp del]

fun consecutive_loop :: "int list \<Rightarrow> int list \<Rightarrow> int \<Rightarrow> int res" where
  "consecutive_loop set' [] max' = Inr max'"
| "consecutive_loop set' (num # nums) max' =
     rbind (chk32 (num - 1)) (\<lambda>prev.
       if List.member set' prev then consecutive_loop set' nums max'
       else rbind (chk32 (num + 1)) (\<lambda>y. rbind (run_end set' y) (\<lambda>y. rbind (chk32 (y - num)) (\<lambda>len.
              consecutive_loop set' nums (max max' len)))))"

text \<open>The hash set holds the values of the vector; only membership is asked of it.\<close>

definition longestConsecutive :: "int list \<Rightarrow> int res" where
  "longestConsecutive nums = consecutive_loop nums nums 0"

text \<open>The loop of the sorting version, on the rest of the sorted vector behind the element \<open>prev\<close>.\<close>

fun sorting_loop :: "int \<Rightarrow> int list \<Rightarrow> int \<Rightarrow> int \<Rightarrow> int res" where
  "sorting_loop prev [] max' count = Inr (max max' count)"
| "sorting_loop prev (num # nums) max' count =
     rbind (chk32 (prev + 1)) (\<lambda>next'.
       if num = next' then sorting_loop num nums max' (count + 1)
       else if num = prev then sorting_loop num nums max' count
       else sorting_loop num nums (max max' count) 1)"

definition longestConsecutiveSorting :: "int list \<Rightarrow> int res" where
  "longestConsecutiveSorting nums =
     (case sort nums of [] \<Rightarrow> Inr (max 0 1) | num # nums \<Rightarrow> sorting_loop num nums 0 1)"

definition longestConsecutive_main :: "int res \<times> int res" where
  "longestConsecutive_main = (longestConsecutive [100, 4, 200, 1, 3, 2], longestConsecutiveSorting [100, 4, 200, 1, 3, 2])"

text \<open>The reference: \<open>k\<close> is the length of a run in \<open>S\<close>, and the longest.\<close>

definition run_in :: "int set \<Rightarrow> int \<Rightarrow> int \<Rightarrow> bool" where
  "run_in S a k \<longleftrightarrow> 0 \<le> k \<and> {a..<a + k} \<subseteq> S"

definition longest_run :: "int set \<Rightarrow> int \<Rightarrow> bool" where
  "longest_run S k \<longleftrightarrow> (\<exists>a. run_in S a k) \<and> (\<forall>a j. run_in S a j \<longrightarrow> j \<le> k)"

lemma run_last: "run_in S a k \<Longrightarrow> 0 < k \<Longrightarrow> a + k - 1 \<in> S"
  unfolding run_in_def by (auto dest: subsetD [of _ _ "a + k - 1"])

lemma longest_run_unique: "longest_run S j \<Longrightarrow> longest_run S k \<Longrightarrow> j = k"
  unfolding longest_run_def by (meson antisym)

lemma run_end_ok:
  assumes "\<forall>x\<in>set xs. x < INT_MAX" "INT_MIN \<le> y"
  shows "\<exists>e. run_end xs y = Inr e \<and> y \<le> e \<and> e \<le> max y INT_MAX \<and> {y..<e} \<subseteq> set xs \<and> e \<notin> set xs"
  using assms
proof (induction xs y rule: run_end.induct)
  case (1 xs y)
  show ?case
  proof (cases "y \<in> set xs")
    case True
    then have y: "y + 1 \<le> INT_MAX" "INT_MIN \<le> y + 1" using "1.prems" by force+
    obtain e where e: "run_end xs (y + 1) = Inr e" "y + 1 \<le> e" "e \<le> max (y + 1) INT_MAX" "{y + 1..<e} \<subseteq> set xs" "e \<notin> set xs"
      using "1.IH" [of "y + 1"] True y "1.prems" by (auto simp: List.member_iff)
    have "run_end xs y = Inr e" using True y e(1) by (subst run_end.simps) (simp add: List.member_iff)
    moreover have "{y..<e} = insert y {y + 1..<e}" using e(2) by auto
    ultimately show ?thesis using e True y by (intro exI [of _ e]) auto
  next
    case False
    then show ?thesis by (subst run_end.simps) (simp add: List.member_iff)
  qed
qed

text \<open>A run starts at a value whose predecessor is missing.\<close>

lemma run_start:
  fixes S :: "int set"
  assumes "finite S" "{a..<a + k} \<subseteq> S" "0 < k"
  shows "\<exists>b\<le>a. {b..<a + k} \<subseteq> S \<and> b - 1 \<notin> S"
proof (rule ccontr)
  assume none: "\<not> ?thesis"
  have "{a - int n..<a + k} \<subseteq> S" for n
  proof (induction n)
    case (Suc n)
    then have "a - int n - 1 \<in> S" using none by (meson diff_left_mono diff_zero of_nat_0_le_iff dual_order.trans diff_le_eq le_add_same_cancel1)
    moreover have "{a - int (Suc n)..<a + k} \<subseteq> insert (a - int n - 1) {a - int n..<a + k}" by auto
    ultimately show ?case using Suc by blast
  qed (use assms in simp)
  then have "a - int n \<in> S" for n using subsetD [of "{a - int n..<a + k}" S "a - int n"] assms(3) by simp
  then have "range (\<lambda>n. a - int n) \<subseteq> S" by auto
  moreover have "infinite (range (\<lambda>n. a - int n))" by (simp add: infinite_UNIV_nat finite_image_iff inj_def)
  ultimately show False using assms(1) finite_subset by blast
qed

lemma consecutive_loop_ok:
  assumes "\<forall>x\<in>set xs. INT_MIN < x \<and> x < INT_MAX" "set nums \<subseteq> set xs" "0 \<le> m" "int (length xs) \<le> INT_MAX"
    "\<exists>a. run_in (set xs) a m"
  shows "\<exists>r. consecutive_loop xs nums m = Inr r \<and> m \<le> r \<and> (\<exists>a. run_in (set xs) a r) \<and>
    (\<forall>a j. run_in (set xs) a j \<longrightarrow> a \<in> set nums \<longrightarrow> a - 1 \<notin> set xs \<longrightarrow> j \<le> r)"
  using assms
proof (induction nums arbitrary: m)
  case (Cons num nums)
  have num: "num \<in> set xs" "INT_MIN < num" "num < INT_MAX" using Cons.prems(1,2) by auto
  show ?case
  proof (cases "num - 1 \<in> set xs")
    case True
    then have "consecutive_loop xs (num # nums) m = consecutive_loop xs nums m" using num by (simp add: List.member_iff)
    then show ?thesis using Cons True by auto
  next
    case False
    obtain e where e: "run_end xs (num + 1) = Inr e" "num + 1 \<le> e" "{num + 1..<e} \<subseteq> set xs" "e \<notin> set xs"
      using run_end_ok [of xs "num + 1"] Cons.prems(1) num(2) by force
    have "{num..<e} = insert num {num + 1..<e}" using e(2) by auto
    then have sub: "{num..<e} \<subseteq> set xs" using e(3) num(1) by simp
    have "e - num \<le> int (length xs)" using card_mono [OF finite_set sub] card_length [of xs] by simp
    then have step: "consecutive_loop xs (num # nums) m = consecutive_loop xs nums (max m (e - num))"
      using num False e Cons.prems(4) by (simp add: List.member_iff)
    have ex: "\<exists>a. run_in (set xs) a (max m (e - num))"
    proof (cases "m \<le> e - num")
      case True
      then show ?thesis using sub e(2) by (intro exI [of _ num]) (simp add: run_in_def)
    next
      case False
      then show ?thesis using Cons.prems(5) by (simp add: max_def)
    qed
    obtain r where r: "consecutive_loop xs nums (max m (e - num)) = Inr r" "max m (e - num) \<le> r" "\<exists>a. run_in (set xs) a r"
      "\<And>a j. run_in (set xs) a j \<Longrightarrow> a \<in> set nums \<Longrightarrow> a - 1 \<notin> set xs \<Longrightarrow> j \<le> r"
    proof -
      have "set nums \<subseteq> set xs" "0 \<le> max m (e - num)" using Cons.prems(2,3) by auto
      from Cons.IH [OF Cons.prems(1) this Cons.prems(4) ex] show thesis using that by blast
    qed
    have "j \<le> e - num" if "run_in (set xs) num j" for j
    proof (rule ccontr)
      assume "\<not> j \<le> e - num"
      then have "e \<in> {num..<num + j}" using e(2) by auto
      then show False using that e(4) by (auto simp: run_in_def)
    qed
    then show ?thesis using step r by (intro exI [of _ r]) force
  qed
qed simp

lemma longestConsecutive_ok:
  assumes "\<forall>x\<in>set nums. INT_MIN < x \<and> x < INT_MAX" "int (length nums) \<le> INT_MAX"
  shows "\<exists>r. longestConsecutive nums = Inr r \<and> longest_run (set nums) r"
proof -
  have "\<exists>a. run_in (set nums) a 0" by (simp add: run_in_def)
  then obtain r where r: "consecutive_loop nums nums 0 = Inr r" "0 \<le> r" "\<exists>a. run_in (set nums) a r"
    "\<And>a j. run_in (set nums) a j \<Longrightarrow> a \<in> set nums \<Longrightarrow> a - 1 \<notin> set nums \<Longrightarrow> j \<le> r"
    using consecutive_loop_ok [OF assms(1) order_refl _ assms(2), of 0] by auto
  have "j \<le> r" if j: "run_in (set nums) a j" for a j
  proof (cases "0 < j")
    case True
    obtain b where b: "b \<le> a" "{b..<a + j} \<subseteq> set nums" "b - 1 \<notin> set nums"
      using run_start [of "set nums" a j] j True by (auto simp: run_in_def)
    then have "a + j - b \<le> r" using True by (intro r(4)) (auto simp: run_in_def)
    then show ?thesis using b(1) by simp
  qed (use r(2) in simp)
  then show ?thesis using r by (auto simp: longestConsecutive_def longest_run_def)
qed

text \<open>The sorting version: \<open>P\<close> is the part of the vector that has been passed, \<open>prev\<close> its largest value.\<close>

lemma sorting_loop_ok:
  assumes "sorted (prev # nums)" "\<forall>x\<in>set (prev # nums). INT_MIN \<le> x \<and> x < INT_MAX"
    "\<forall>x\<in>P. x \<le> prev" "{prev - count + 1..prev} \<subseteq> P" "prev - count \<notin> P" "1 \<le> count" "0 \<le> m" "\<exists>a. run_in P a m"
    "\<And>a j. run_in P a j \<Longrightarrow> j \<le> max m count"
  shows "\<exists>r. sorting_loop prev nums m count = Inr r \<and> longest_run (P \<union> set nums) r"
  using assms
proof (induction nums arbitrary: prev P m count)
  case Nil
  have "run_in P (prev - count + 1) count" using Nil.prems(4,6) by (auto simp: run_in_def)
  then show ?case using Nil.prems(8,9) by (auto simp: longest_run_def max_def)
next
  case (Cons num nums)
  have le: "prev \<le> num" "prev < INT_MAX" "INT_MIN \<le> prev" using Cons.prems(1,2) by auto
  have tail: "sorted (num # nums)" "\<forall>x\<in>set (num # nums). INT_MIN \<le> x \<and> x < INT_MAX" using Cons.prems(1,2) by auto
  have un: "P \<union> set (num # nums) = insert num P \<union> set nums" by auto
  have top: "\<forall>x\<in>insert num P. x \<le> num" using Cons.prems(3) le(1) by auto
  have old: "run_in P a j" if "run_in (insert num P) a j" "num \<notin> {a..<a + j}" for a j using that by (auto simp: run_in_def)
  have prevP: "prev \<in> P" using Cons.prems(4,6) by auto
  consider "num = prev + 1" | "num = prev" | "prev + 1 < num" using le(1) by linarith
  then show ?case
  proof cases
    case 1
    have "prev - count \<notin> insert num P" using Cons.prems(5,6) 1 by auto
    have bound: "j \<le> max m (count + 1)" if r: "run_in (insert num P) a j" for a j
    proof (cases "num \<in> {a..<a + j}")
      case True
      have "num - (count + 1) \<notin> {a..<a + j}" using r Cons.prems(5,6) 1 by (auto simp: run_in_def)
      moreover have "a + j - 1 \<le> num"
      proof -
        have "a + j - 1 \<in> insert num P" using run_last [OF r] True by auto
        then show ?thesis using top by blast
      qed
      ultimately have "a + j - 1 = num" "num - (count + 1) < a" using True Cons.prems(6) by auto
      then show ?thesis by simp
    next
      case False
      then show ?thesis using Cons.prems(9) [OF old [OF r False]] by simp
    qed
    have "{num - (count + 1) + 1..num} \<subseteq> insert num P"
    proof
      fix z assume z: "z \<in> {num - (count + 1) + 1..num}"
      show "z \<in> insert num P"
      proof (cases "z = num")
        case False
        then have "z \<in> {prev - count + 1..prev}" using z 1 by auto
        then show ?thesis using Cons.prems(4) by blast
      qed simp
    qed
    then have "\<exists>r. sorting_loop num nums m (count + 1) = Inr r \<and> longest_run (insert num P \<union> set nums) r"
      using tail top Cons.prems(5-8) 1 bound
      by (intro Cons.IH) (auto simp: run_in_def)
    then show ?thesis using 1 le by (simp add: un)
  next
    case 2
    then have ins: "insert num P = P" using prevP by auto
    have "\<exists>r. sorting_loop num nums m count = Inr r \<and> longest_run (P \<union> set nums) r"
      using tail Cons.prems(3-9) 2 by (intro Cons.IH) auto
    then show ?thesis unfolding un ins using 2 le by simp
  next
    case 3
    have gap: "num - 1 \<notin> insert num P" using 3 Cons.prems(3) by auto
    have bound: "j \<le> max (max m count) 1" if r: "run_in (insert num P) a j" for a j
    proof (cases "num \<in> {a..<a + j}")
      case True
      have "num - 1 \<notin> {a..<a + j}" using r gap unfolding run_in_def by blast
      moreover have "a + j - 1 \<le> num"
      proof -
        have "a + j - 1 \<in> insert num P" using run_last [OF r] True by auto
        then show ?thesis using top by blast
      qed
      ultimately show ?thesis using True by auto
    next
      case False
      then show ?thesis using Cons.prems(9) [OF old [OF r False]] by simp
    qed
    have "run_in P (prev - count + 1) count" using Cons.prems(4,6) by (auto simp: run_in_def)
    then have "\<exists>a. run_in P a (max m count)" using Cons.prems(8) by (metis max_def)
    then have "\<exists>a. run_in (insert num P) a (max m count)" unfolding run_in_def by blast
    then have "\<exists>r. sorting_loop num nums (max m count) 1 = Inr r \<and> longest_run (insert num P \<union> set nums) r"
      using tail top gap bound Cons.prems(7) by (intro Cons.IH) auto
    then show ?thesis using 3 le by (simp add: un)
  qed
qed

text \<open>
  On a nonempty vector without \<open>INT_MIN\<close> and \<open>INT_MAX\<close> both functions return the length of the longest run of consecutive
  values, and no signed arithmetic overflows; on the empty vector the hash version returns 0 and the sorting version 1.
\<close>

theorem longest_consecutive_correct:
  assumes "\<forall>x\<in>set nums. INT_MIN < x \<and> x < INT_MAX" "int (length nums) \<le> INT_MAX" "nums \<noteq> []"
  shows "(\<exists>r. longestConsecutive nums = Inr r \<and> longestConsecutiveSorting nums = Inr r \<and> longest_run (set nums) r) \<and>
    longestConsecutive [] = Inr 0 \<and> longestConsecutiveSorting [] = Inr 1"
proof -
  obtain r where r: "longestConsecutive nums = Inr r" "longest_run (set nums) r" using longestConsecutive_ok [OF assms(1,2)] by blast
  obtain x xs where xs: "sort nums = x # xs" using assms(3) by (metis length_0_conv length_sort list.exhaust)
  have set: "set nums = insert x (set xs)" by (metis list.simps(15) set_sort xs)
  have bound: "j \<le> max 0 1" if "run_in {x} a j" for a j
  proof (rule ccontr)
    assume "\<not> j \<le> max 0 1"
    then have "{a, a + 1} \<subseteq> {a..<a + j}" by auto
    also have "\<dots> \<subseteq> {x}" using that by (simp add: run_in_def)
    finally show False by auto
  qed
  have run0: "run_in {x} x 0" by (simp add: run_in_def)
  have "\<exists>r. sorting_loop x xs 0 1 = Inr r \<and> longest_run ({x} \<union> set xs) r"
  proof (rule sorting_loop_ok)
    show "sorted (x # xs)" by (metis sorted_sort xs)
    show "\<forall>y\<in>set (x # xs). INT_MIN \<le> y \<and> y < INT_MAX" using assms(1) set by auto
  qed (use bound run0 in auto)
  then obtain q where q: "longestConsecutiveSorting nums = Inr q" "longest_run (set nums) q"
    by (auto simp: longestConsecutiveSorting_def xs set)
  then have "q = r" using r longest_run_unique by blast
  then show ?thesis using r q by (simp add: longestConsecutive_def longestConsecutiveSorting_def)
qed

theorem longest_consecutive_correct_witness:
  "\<exists>r. longestConsecutive [100, 4, 200, 1, 3, 2] = Inr r \<and> longestConsecutiveSorting [100, 4, 200, 1, 3, 2] = Inr r"
  using longest_consecutive_correct [of "[100, 4, 200, 1, 3, 2]"] by auto

lemma longestConsecutive_main_output: "longestConsecutive_main = (Inr 4, Inr 4)"
  by code_simp

section \<open>The maximum of a bitonic array\<close>

text \<open>\<open>n\<close> elements are left from index \<open>i\<close> on.\<close>

fun linear_loop :: "int list \<Rightarrow> nat \<Rightarrow> nat \<Rightarrow> int \<Rightarrow> int" where
  "linear_loop arr i 0 result = result"
| "linear_loop arr i (Suc n) result = (if arr ! i > arr ! (i - 1) then linear_loop arr (Suc i) n (arr ! i) else result)"

definition findMaximumLinear :: "int list \<Rightarrow> int res" where
  "findMaximumLinear arr = rbind (arr_get arr 0) (\<lambda>result. Inr (linear_loop arr 1 (length arr - 1) result))"

text \<open>
  The binary search. \<open>arr[mid + 1]\<close> is read only when \<open>arr[mid] > arr[mid - 1]\<close>; then the second condition of the code holds exactly when
  the first fails.
\<close>

function findMaximum_loop :: "int list \<Rightarrow> int \<Rightarrow> int \<Rightarrow> int res" where
  "findMaximum_loop arr l r =
     (if l \<le> r then
        let mid = l + (r - l) div 2 in
        rbind (arr_geti arr mid) (\<lambda>m. rbind (arr_geti arr (mid - 1)) (\<lambda>before.
          if m > before then
            rbind (arr_geti arr (mid + 1)) (\<lambda>after.
              if m > after then Inr m else findMaximum_loop arr (mid + 1) r)
          else findMaximum_loop arr l (mid - 1)))
      else Inr (-1))"
  by auto
termination by (relation "measure (\<lambda>(arr, l, r). nat (r - l + 1))") auto

declare findMaximum_loop.simps [simp del]

definition findMaximum :: "int list \<Rightarrow> int res" where
  "findMaximum arr = findMaximum_loop arr 0 (int (length arr) - 1)"

definition bitonicPoint_main :: "int res \<times> int res" where
  "bitonicPoint_main = (findMaximum [1, 2, 4, 5, 7, 8, 3], findMaximumLinear [1, 2, 4, 5, 7, 8, 3])"

text \<open>Strictly increasing up to index \<open>p\<close> and strictly decreasing behind it.\<close>

definition bitonic :: "int list \<Rightarrow> nat \<Rightarrow> bool" where
  "bitonic arr p \<longleftrightarrow> p < length arr \<and> (\<forall>i<p. arr ! i < arr ! Suc i) \<and> (\<forall>i. p \<le> i \<longrightarrow> Suc i < length arr \<longrightarrow> arr ! Suc i < arr ! i)"

lemma bitonic_max:
  assumes "bitonic arr p"
  shows "arr ! p = Max (set arr)"
proof (rule Max_eqI [symmetric])
  have up: "i \<le> p \<Longrightarrow> arr ! i \<le> arr ! p" for i
  proof (induction "p - i" arbitrary: i)
    case (Suc k)
    then have "arr ! Suc i \<le> arr ! p" "arr ! i < arr ! Suc i" using assms by (auto simp: bitonic_def)
    then show ?case by simp
  qed simp
  have down: "p + k < length arr \<Longrightarrow> arr ! (p + k) \<le> arr ! p" for k
  proof (induction k)
    case (Suc k)
    then have "arr ! Suc (p + k) < arr ! (p + k)" using assms by (simp add: bitonic_def)
    then show ?case using Suc by simp
  qed simp
  fix y assume "y \<in> set arr"
  then obtain i where i: "i < length arr" "y = arr ! i" by (auto simp: in_set_conv_nth)
  show "y \<le> arr ! p" using up [of i] down [of "i - p"] i by (cases "i \<le> p") auto
qed (use assms in \<open>auto simp: bitonic_def\<close>)

lemma linear_loop_ok:
  assumes "bitonic arr p" "0 < i" "i \<le> Suc p" "i + n = length arr"
  shows "linear_loop arr i n (arr ! (i - 1)) = arr ! p"
  using assms
proof (induction n arbitrary: i)
  case 0
  then have "i - 1 = p" by (auto simp: bitonic_def)
  then show ?case by simp
next
  case (Suc n)
  show ?case
  proof (cases "i = Suc p")
    case True
    then have "arr ! i < arr ! (i - 1)" using Suc.prems by (auto simp: bitonic_def)
    then show ?thesis using True by simp
  next
    case False
    then have "arr ! (i - 1) < arr ! i" using Suc.prems(1-3) by (auto simp: bitonic_def dest: spec [of _ "i - 1"])
    then show ?thesis using Suc.IH [of "Suc i"] Suc.prems False by simp
  qed
qed

lemma findMaximum_loop_ok:
  assumes "bitonic arr p" "0 \<le> l" "l \<le> int p" "int p \<le> r" "r < int (length arr)"
  shows "findMaximum_loop arr l r = Inr (arr ! p) \<or> findMaximum_loop arr l r = Inl OutOfBounds" (is ?A)
    "2 \<le> p \<Longrightarrow> p + 2 \<le> length arr \<Longrightarrow> findMaximum_loop arr l r = Inr (arr ! p)" (is "_ \<Longrightarrow> _ \<Longrightarrow> ?B")
proof -
  have "?A \<and> (2 \<le> p \<longrightarrow> p + 2 \<le> length arr \<longrightarrow> ?B)"
    using assms
  proof (induction arr l r rule: findMaximum_loop.induct)
    case (1 arr l r)
    define mid where "mid = l + (r - l) div 2"
    have mid: "l \<le> mid" "mid \<le> r" "0 \<le> mid" "mid < int (length arr)" using "1.prems" by (auto simp: mid_def)
    note bi = "1.prems"(1)
    have lr: "l \<le> r" using "1.prems" by simp
    show ?case
    proof (cases "mid = 0")
      case True
      then have "findMaximum_loop arr l r = Inl OutOfBounds"
        using "1.prems" mid by (subst findMaximum_loop.simps) (simp only: mid_def [symmetric] Let_def arr_geti_def, simp add: True)
      moreover have "r \<le> 1" using True "1.prems"(2) unfolding mid_def by presburger
      ultimately show ?thesis using "1.prems"(4) by simp
    next
      case False
      let ?m = "nat mid"
      have m: "mid = int ?m" "0 < ?m" "?m < length arr" using mid False by auto
      have get: "arr_geti arr mid = Inr (arr ! ?m)" "arr_geti arr (mid - 1) = Inr (arr ! (?m - 1))"
        using mid False by (simp_all add: nat_diff_distrib)
      have nxt: "arr_geti arr (mid + 1) = (if Suc ?m < length arr then Inr (arr ! Suc ?m) else Inl OutOfBounds)"
        using mid by (simp add: arr_geti_def arr_get_def nat_add_distrib)
      have unfold: "findMaximum_loop arr l r = (if arr ! ?m > arr ! (?m - 1) then
            rbind (arr_geti arr (mid + 1)) (\<lambda>after. if arr ! ?m > after then Inr (arr ! ?m) else findMaximum_loop arr (mid + 1) r)
          else findMaximum_loop arr l (mid - 1))"
        using "1.prems" get by (subst findMaximum_loop.simps) (simp add: mid_def [symmetric] Let_def)
      consider "?m < p" | "?m = p" | "p < ?m" by linarith
      then show ?thesis
      proof cases
        case 1
        then have up: "arr ! (?m - 1) < arr ! ?m" "arr ! ?m < arr ! Suc ?m" "Suc ?m < length arr"
          using bi m(2) by (auto simp: bitonic_def dest: spec [of _ "?m - 1"])
        have eq: "findMaximum_loop arr l r = findMaximum_loop arr (mid + 1) r" using unfold nxt up by simp
        have pre: "\<not> arr ! Suc ?m < arr ! ?m" "0 \<le> mid + 1" "mid + 1 \<le> int p" using up(2) mid 1 by auto
        have nxt': "arr_geti arr (mid + 1) = Inr (arr ! Suc ?m)" using nxt up(3) by simp
        show ?thesis unfolding eq
          by (rule "1.IH"(1) [OF lr mid_def get up(1) nxt' pre(1) bi pre(2,3) "1.prems"(4,5)])
      next
        case 2
        have up: "arr ! (p - 1) < arr ! p" using bi m(2) 2 by (auto simp: bitonic_def dest: spec [of _ "p - 1"])
        have down: "Suc p < length arr \<Longrightarrow> arr ! Suc p < arr ! p" using bi by (simp add: bitonic_def)
        show ?thesis using unfold nxt up down 2 by auto
      next
        case 3
        have "p \<le> ?m - 1" "Suc (?m - 1) < length arr" using m(2,3) 3 by auto
        then have "arr ! Suc (?m - 1) < arr ! (?m - 1)" using bi unfolding bitonic_def by blast
        then have dn: "\<not> arr ! ?m > arr ! (?m - 1)" using m(2) by simp
        have eq: "findMaximum_loop arr l r = findMaximum_loop arr l (mid - 1)" using unfold dn by simp
        have pre: "int p \<le> mid - 1" "mid - 1 < int (length arr)" using mid 3 by auto
        show ?thesis unfolding eq
          by (rule "1.IH"(2) [OF lr mid_def get dn bi "1.prems"(2,3) pre])
      qed
    qed
  qed
  then show ?A "2 \<le> p \<Longrightarrow> p + 2 \<le> length arr \<Longrightarrow> ?B" by blast+
qed

text \<open>
  On an array that increases strictly up to its peak \<open>p\<close> and decreases strictly behind it, the linear scan returns the maximum;
  the binary search returns the maximum when at least two elements are before the peak and one behind it, and in every other case returns the
  maximum or reads outside the array.
\<close>

theorem bitonic_maximum_correct:
  assumes "bitonic arr p"
  shows "findMaximumLinear arr = Inr (Max (set arr)) \<and>
    (findMaximum arr = Inr (Max (set arr)) \<or> findMaximum arr = Inl OutOfBounds) \<and>
    (2 \<le> p \<and> p + 2 \<le> length arr \<longrightarrow> findMaximum arr = Inr (Max (set arr)))"
proof -
  have p: "p < length arr" using assms by (simp add: bitonic_def)
  have "linear_loop arr 1 (length arr - 1) (arr ! 0) = arr ! p" using linear_loop_ok [OF assms, of 1 "length arr - 1"] p by simp
  then have "findMaximumLinear arr = Inr (Max (set arr))" using p by (auto simp: findMaximumLinear_def bitonic_max [OF assms] arr_get_def)
  moreover have "0 \<le> int p" "int p \<le> int (length arr) - 1" "int (length arr) - 1 < int (length arr)" using p by auto
  note search = findMaximum_loop_ok [OF assms order_refl this]
  ultimately show ?thesis using search unfolding findMaximum_def bitonic_max [OF assms] by blast
qed

lemma bitonic_reads_out_of_bounds:
  "findMaximum [1, 5, 4, 3, 2] = Inl OutOfBounds" "findMaximum [10, 20, 30, 40, 50] = Inl OutOfBounds" "findMaximum [120, 100, 80, 20, 0] = Inl OutOfBounds"
  by code_simp+

lemma bitonicPoint_main_output: "bitonicPoint_main = (Inr 8, Inr 8)"
  by code_simp

end
