(* ===== verification/Digit_Strings.thy ===== *)
theory Digit_Strings
  imports Prelude "HOL-Library.Char_ord" "HOL-Library.List_Lexorder" "HOL-Library.Multiset"
begin

text \<open>
  Programs on strings of digits: the next greater arrangement of the digits (\<open>arista/nextGreaterElement.cpp\<close>), and the removal of one
  digit to get the largest (\<open>arista/removeDigit.cpp\<close>) or the smallest number (\<open>arista/removeOneDigitToMin.cpp\<close> and its C version).
  Characters are compared by their codes; the strings of these programs are ASCII, where a signed and an unsigned \<open>char\<close> agree.
  \<open>std::string\<close> compares lexicographically, which is the order of \<open>List_Lexorder\<close>.
\<close>

section \<open>The next permutation\<close>

text \<open>The loop of \<open>nextGreaterElement\<close> that looks for the pivot, from index \<open>i\<close> down; \<open>None\<close> when the index runs below 0.\<close>

fun pivot_loop :: "string \<Rightarrow> nat \<Rightarrow> nat option" where
  "pivot_loop s 0 = (if s ! 0 \<ge> s ! 1 then None else Some 0)"
| "pivot_loop s (Suc i) = (if s ! Suc i \<ge> s ! Suc (Suc i) then pivot_loop s i else Some (Suc i))"

text \<open>The loop that looks for the digit to swap, from index \<open>j\<close> down; an index below 0 is out of bounds.\<close>

fun swap_loop :: "string \<Rightarrow> nat \<Rightarrow> nat \<Rightarrow> nat res" where
  "swap_loop s p 0 = (if s ! p \<ge> s ! 0 then Inl OutOfBounds else Inr 0)"
| "swap_loop s p (Suc j) = (if s ! p \<ge> s ! Suc j then swap_loop s p j else Inr (Suc j))"

definition swap_at :: "string \<Rightarrow> nat \<Rightarrow> nat \<Rightarrow> string" where
  "swap_at s i j = s[i := s ! j, j := s ! i]"

definition reverse_from :: "string \<Rightarrow> nat \<Rightarrow> string" where
  "reverse_from s i = take i s @ rev (drop i s)"

fun nat_digits :: "nat \<Rightarrow> string" where
  "nat_digits n = (if n < 10 then [char_of (48 + n)] else nat_digits (n div 10) @ [char_of (48 + n mod 10)])"

declare nat_digits.simps [simp del]

definition to_string :: "int \<Rightarrow> string" where
  "to_string n = (if n < 0 then CHR ''-'' # nat_digits (nat (- n)) else nat_digits (nat n))"

text \<open>\<open>stol\<close>: an optional minus sign and the digits that follow; it throws when there are none, or on a value outside \<open>long\<close>.\<close>

definition is_digit :: "char \<Rightarrow> bool" where
  "is_digit c \<longleftrightarrow> (48 :: nat) \<le> of_char c \<and> of_char c \<le> (57 :: nat)"

definition digit_value :: "char \<Rightarrow> nat" where
  "digit_value c = of_char c - 48"

definition digits_value :: "string \<Rightarrow> nat" where
  "digits_value s = foldl (\<lambda>v c. 10 * v + digit_value c) 0 s"

definition stol :: "string \<Rightarrow> int res" where
  "stol s =
     (let neg = (s \<noteq> [] \<and> hd s = CHR ''-'');
          ds = takeWhile is_digit (if neg then tl s else s);
          v = (if neg then - int (digits_value ds) else int (digits_value ds))
      in if ds = [] then Inl (Throw ''stol'')
         else if LLONG_MIN \<le> v \<and> v \<le> LLONG_MAX then Inr v else Inl (Throw ''stol''))"

definition nextGreaterElement :: "int \<Rightarrow> int res" where
  "nextGreaterElement n =
     (let digits = to_string n; len = length digits in
      if len < 2 then Inr (-1)
      else case pivot_loop digits (len - 2) of
        None \<Rightarrow> Inr (-1)
      | Some p \<Rightarrow>
          rbind (swap_loop digits p (len - 1)) (\<lambda>j.
          rbind (stol (reverse_from (swap_at digits p j) (p + 1))) (\<lambda>r.
          Inr (if r > INT_MAX then -1 else r))))"

text \<open>The loops of \<open>nextPermutation\<close>: the index of the descent, 0 when there is none, and the swap.\<close>

fun descent_loop :: "string \<Rightarrow> nat \<Rightarrow> nat" where
  "descent_loop s 0 = 0"
| "descent_loop s (Suc i) = (if s ! Suc i > s ! i then Suc i else descent_loop s i)"

text \<open>The index \<open>j\<close> counts down from \<open>i + k - 1\<close> to \<open>i\<close>.\<close>

fun swap_first :: "string \<Rightarrow> nat \<Rightarrow> nat \<Rightarrow> string" where
  "swap_first s i 0 = s"
| "swap_first s i (Suc k) = (if s ! (i - 1) < s ! (i + k) then swap_at s (i - 1) (i + k) else swap_first s i k)"

definition nextPermutation :: "string \<Rightarrow> string res" where
  "nextPermutation N =
     (if length N = 1 then Inr ''Not Possible''
      else if N = [] then Inl OutOfBounds
      else let i = descent_loop N (length N - 1) in
        if i = 0 then Inr ''Not Possible''
        else Inr (reverse_from (swap_first N i (length N - i)) i))"

definition nextGreaterElement_main :: "string res \<times> int res" where
  "nextGreaterElement_main = (nextPermutation ''218765'', nextGreaterElement 218765)"

section \<open>Removing a digit\<close>

definition without_at :: "'a list \<Rightarrow> nat \<Rightarrow> 'a list" where
  "without_at s i = take i s @ drop (Suc i) s"

fun removeDigit_loop :: "string \<Rightarrow> char \<Rightarrow> nat \<Rightarrow> nat \<Rightarrow> string \<Rightarrow> string" where
  "removeDigit_loop number digit i 0 maxResult = maxResult"
| "removeDigit_loop number digit i (Suc n) maxResult =
     (let candidateNumber = without_at number i;
          maxResult = (if number ! i = digit \<and> maxResult < candidateNumber then candidateNumber else maxResult)
      in removeDigit_loop number digit (Suc i) n maxResult)"

definition removeDigit :: "string \<Rightarrow> char \<Rightarrow> string" where
  "removeDigit number digit = removeDigit_loop number digit 0 (length number) ''0''"

definition removeDigit_main :: string where
  "removeDigit_main = removeDigit ''123151'' CHR ''1''"

text \<open>The loop of both versions of \<open>removeOneDigitToMin\<close>: the first digit that is larger than the next one, from index \<open>i\<close> on.\<close>

fun first_peak :: "string \<Rightarrow> nat \<Rightarrow> nat \<Rightarrow> nat option" where
  "first_peak num i 0 = None"
| "first_peak num i (Suc n) = (if num ! i > num ! Suc i then Some i else first_peak num (Suc i) n)"

definition removeOneDigitToMin :: "string \<Rightarrow> string" where
  "removeOneDigitToMin num =
     (let n = length num in
      if n \<le> 1 then ''0''
      else let num = (case first_peak num 0 (n - 1) of Some i \<Rightarrow> without_at num i | None \<Rightarrow> butlast num);
               stripped = dropWhile (\<lambda>c. c = CHR ''0'') num
           in if stripped = [] then ''0'' else stripped)"

definition removeOneDigitToMin_main :: string where
  "removeOneDigitToMin_main = removeOneDigitToMin ''14356''"

text \<open>
  The C version works in place in a buffer of \<open>cap\<close> bytes that holds the string and its NUL; only a string of at most one character
  can grow, to the two bytes of ``0''.
\<close>

fun strip_zeros :: "string \<Rightarrow> string" where
  "strip_zeros (c # d # s) = (if c = CHR ''0'' then strip_zeros (d # s) else c # d # s)"
| "strip_zeros s = s"

definition removeOneToMin :: "nat \<Rightarrow> string \<Rightarrow> string res" where
  "removeOneToMin cap num =
     (let n = length num in
      if n \<le> 1 then (if cap < 2 then Inl OutOfBounds else Inr ''0'')
      else Inr (strip_zeros (case first_peak num 0 (n - 1) of Some i \<Rightarrow> without_at num i | None \<Rightarrow> take (n - 1) num)))"

definition removeOneToMin_main :: "string res" where
  "removeOneToMin_main = removeOneToMin 100 ''14356''"

section \<open>Sorted lists are extreme permutations\<close>

lemma sorted_least:
  fixes xs :: "'a :: linorder list"
  shows "sorted xs \<Longrightarrow> mset ys = mset xs \<Longrightarrow> xs \<le> ys"
proof (induction xs arbitrary: ys)
  case (Cons x xs)
  then obtain y ys' where ys: "ys = y # ys'" by (cases ys) auto
  have "y \<in> set (x # xs)" using Cons.prems(2) ys by (metis list.set_intros(1) set_mset_mset)
  then have "x \<le> y" using Cons.prems(1) by auto
  moreover have "x = y \<Longrightarrow> xs \<le> ys'" using Cons by (auto simp: ys)
  ultimately show ?case by (auto simp: ys Cons_le_Cons)
qed simp

lemma descending_greatest:
  fixes xs :: "'a :: linorder list"
  shows "sorted_wrt (\<ge>) xs \<Longrightarrow> mset ys = mset xs \<Longrightarrow> ys \<le> xs"
proof (induction xs arbitrary: ys)
  case (Cons x xs)
  then obtain y ys' where ys: "ys = y # ys'" by (cases ys) auto
  have "y \<in> set (x # xs)" using Cons.prems(2) ys by (metis list.set_intros(1) set_mset_mset)
  then have "y \<le> x" using Cons.prems(1) by auto
  moreover have "x = y \<Longrightarrow> ys' \<le> xs" using Cons by (auto simp: ys)
  ultimately show ?case by (auto simp: ys Cons_le_Cons)
qed simp

lemma sorted_rev_descending: "sorted_wrt (\<ge>) xs \<longleftrightarrow> sorted (rev xs)" for xs :: "'a :: linorder list"
  by (simp add: sorted_wrt_rev)

text \<open>
  The next permutation: behind the last ascent \<open>a\<close> the digits descend; \<open>b\<close> is the last of them above \<open>a\<close>. Swapping the two and reversing
  the rest gives the least permutation above.
\<close>

lemma next_permutation_least:
  fixes a b :: "'a :: linorder"
  assumes desc: "sorted_wrt (\<ge>) (u @ b # w)" and ab: "a < b" and w: "\<forall>x\<in>set w. x \<le> a"
    and q: "mset q = mset (p @ a # u @ b # w)" "p @ a # u @ b # w < q"
  shows "p @ b # rev (u @ a # w) \<le> q"
  using q
proof (induction p arbitrary: q)
  case Nil
  then obtain c v where q: "q = c # v" by (cases q) auto
  have u: "\<forall>x\<in>set u. b \<le> x" using desc by (auto simp: sorted_wrt_append)
  have "c \<noteq> a"
  proof
    assume "c = a"
    then have "mset v = mset (u @ b # w)" "u @ b # w < v" using Nil q by (auto simp: Cons_less_Cons)
    then show False using descending_greatest [OF desc, of v] by simp
  qed
  then have "a < c" using Nil(2) q by (auto simp: Cons_less_Cons)
  moreover have "c \<in> set (a # u @ b # w)" using Nil(1) q by (metis append_Nil list.set_intros(1) set_mset_mset)
  ultimately have "b \<le> c" using u w by fastforce
  moreover have "rev (u @ a # w) \<le> v" if "c = b"
  proof (rule sorted_least)
    show "mset v = mset (rev (u @ a # w))" using Nil(1) q that by simp
    have "sorted_wrt (\<ge>) (u @ a # w)" using desc ab w u by (auto simp: sorted_wrt_append)
    then show "sorted (rev (u @ a # w))" by (simp add: sorted_rev_descending)
  qed
  ultimately show ?case using q by (auto simp: Cons_le_Cons)
next
  case (Cons x p)
  then obtain y v where q: "q = y # v" by (cases q) auto
  show ?case
  proof (cases "x = y")
    case True
    then show ?thesis using Cons q by (simp add: Cons_le_Cons Cons_less_Cons)
  next
    case False
    then show ?thesis using Cons.prems(2) q by (simp add: Cons_le_Cons Cons_less_Cons)
  qed
qed

lemma next_permutation_greater: "a < b \<Longrightarrow> p @ a # u @ b # w < p @ b # rev (u @ a # w)" for a b :: "'a :: linorder"
  by (induction p) (simp_all add: Cons_less_Cons)

section \<open>The loops find it\<close>

lemma descent_loop_zero: "descent_loop s n = 0 \<Longrightarrow> \<forall>i<n. s ! Suc i \<le> s ! i"
  by (induction n) (auto simp: less_Suc_eq not_less split: if_splits)

lemma descent_loop_pos:
  "descent_loop s n = Suc i \<Longrightarrow> i < n \<and> s ! i < s ! Suc i \<and> (\<forall>j. Suc i \<le> j \<longrightarrow> j < n \<longrightarrow> s ! Suc j \<le> s ! j)"
  by (induction n) (auto simp: less_Suc_eq not_less split: if_splits)

lemma descending_drop:
  fixes s :: "'a :: linorder list"
  assumes "\<And>j. i \<le> j \<Longrightarrow> Suc j < length s \<Longrightarrow> s ! Suc j \<le> s ! j"
  shows "sorted_wrt (\<ge>) (drop i s)"
proof -
  have "transp ((\<ge>) :: 'a \<Rightarrow> 'a \<Rightarrow> bool)" by (auto intro: transpI)
  from sorted_wrt_iff_nth_Suc_transp [OF this] show ?thesis using assms by auto
qed

lemma swap_first_finds:
  assumes "k0 < k" "s ! (i - 1) < s ! (i + k0)"
  shows "\<exists>d<k. swap_first s i k = swap_at s (i - 1) (i + d) \<and> s ! (i - 1) < s ! (i + d) \<and> (\<forall>e. d < e \<longrightarrow> e < k \<longrightarrow> s ! (i + e) \<le> s ! (i - 1))"
  using assms
proof (induction k)
  case (Suc k)
  show ?case
  proof (cases "s ! (i - 1) < s ! (i + k)")
    case False
    then have "k0 \<noteq> k" using Suc.prems(2) by auto
    then obtain d where d: "d < k" "swap_first s i k = swap_at s (i - 1) (i + d)" "s ! (i - 1) < s ! (i + d)"
      "\<forall>e. d < e \<longrightarrow> e < k \<longrightarrow> s ! (i + e) \<le> s ! (i - 1)" using Suc by auto
    then show ?thesis using False by (intro exI [of _ d]) (auto simp: less_Suc_eq not_less)
  qed auto
qed simp

text \<open>The string around a pivot at \<open>i\<close> and a swap partner at \<open>i + 1 + d\<close>.\<close>

lemma drop_at_pivot:
  assumes "Suc i + d < length s"
  shows "drop (Suc i) s = take d (drop (Suc i) s) @ s ! (Suc i + d) # drop (Suc i + Suc d) s"
proof -
  have "drop (Suc i) s = take d (drop (Suc i) s) @ drop d (drop (Suc i) s)" by (rule append_take_drop_id [symmetric])
  also have "drop d (drop (Suc i) s) = s ! (Suc i + d) # drop (Suc i + Suc d) s"
    using assms by (simp add: Cons_nth_drop_Suc add.commute)
  finally show ?thesis .
qed

lemma split_at_pivot:
  assumes "Suc i + d < length s"
  shows "s = take i s @ s ! i # take d (drop (Suc i) s) @ s ! (Suc i + d) # drop (Suc i + Suc d) s"
  using assms id_take_nth_drop [of i s] by (simp only: drop_at_pivot [OF assms, symmetric])

lemma swap_and_reverse:
  assumes "Suc i + d < length s"
  shows "reverse_from (swap_at s i (Suc i + d)) (Suc i) =
    take i s @ s ! (Suc i + d) # rev (take d (drop (Suc i) s) @ s ! i # drop (Suc i + Suc d) s)"
proof -
  let ?p = "take i s" and ?u = "take d (drop (Suc i) s)" and ?w = "drop (Suc i + Suc d) s"
  have len: "length ?p = i" "length ?u = d" using assms by auto
  have "swap_at s i (Suc i + d) = (?p @ s ! i # ?u @ s ! (Suc i + d) # ?w)[i := s ! (Suc i + d), Suc i + d := s ! i]"
    unfolding swap_at_def using split_at_pivot [OF assms] by metis
  also have "\<dots> = ?p @ s ! (Suc i + d) # ?u @ s ! i # ?w"
    using len by (simp add: list_update_append)
  finally show ?thesis using len by (simp add: reverse_from_def)
qed

text \<open>What both functions compute on a string: the index of the pivot and the result.\<close>

lemma next_permutation_cases:
  assumes "2 \<le> length s"
  obtains (Last) "descent_loop s (length s - 1) = 0" "\<And>q. mset q = mset s \<Longrightarrow> q \<le> s"
  | (Next) i r where "descent_loop s (length s - 1) = Suc i" "reverse_from (swap_first s (Suc i) (length s - Suc i)) (Suc i) = r"
      "mset r = mset s" "s < r" "\<And>q. mset q = mset s \<Longrightarrow> s < q \<Longrightarrow> r \<le> q"
proof (cases "descent_loop s (length s - 1)")
  case 0
  have "sorted_wrt (\<ge>) (drop 0 s)" by (rule descending_drop) (use descent_loop_zero [OF 0] in auto)
  then have "q \<le> s" if "mset q = mset s" for q using descending_greatest [of s q] that by simp
  then show thesis by (rule Last [OF 0])
next
  case (Suc i)
  note d = descent_loop_pos [OF Suc]
  have desc: "sorted_wrt (\<ge>) (drop (Suc i) s)" by (rule descending_drop) (use d in auto)
  have "0 < length s - Suc i" using d by (simp add: less_diff_conv)
  then obtain k where k: "k < length s - Suc i" "swap_first s (Suc i) (length s - Suc i) = swap_at s i (Suc i + k)" "s ! i < s ! (Suc i + k)"
    "\<forall>e. k < e \<longrightarrow> e < length s - Suc i \<longrightarrow> s ! (Suc i + e) \<le> s ! i"
    using swap_first_finds [of 0 "length s - Suc i" s "Suc i"] d by auto
  let ?u = "take k (drop (Suc i) s)" and ?b = "s ! (Suc i + k)" and ?w = "drop (Suc i + Suc k) s"
  have len: "Suc i + k < length s" using k(1) by simp
  note split = split_at_pivot [OF len]
  have "sorted_wrt (\<ge>) (?u @ ?b # ?w)" using desc by (simp only: drop_at_pivot [OF len, symmetric])
  moreover have "\<forall>x\<in>set ?w. x \<le> s ! i"
  proof
    fix x assume "x \<in> set ?w"
    then obtain e where "e < length ?w" "x = s ! (Suc i + (Suc k + e))" by (auto simp: in_set_conv_nth add.assoc)
    then show "x \<le> s ! i" using k(4) [rule_format, of "Suc k + e"] by auto
  qed
  ultimately have least: "take i s @ ?b # rev (?u @ s ! i # ?w) \<le> q" if "mset q = mset s" "s < q" for q
    using next_permutation_least [of ?u ?b ?w "s ! i" q "take i s"] k(3) that split by metis
  have "mset (take i s @ ?b # rev (?u @ s ! i # ?w)) = mset s" by (subst (6) split) simp
  moreover have "s < take i s @ ?b # rev (?u @ s ! i # ?w)"
    using next_permutation_greater [OF k(3), of "take i s" ?u ?w] split by metis
  ultimately show thesis using Next [OF Suc refl] least k(2) swap_and_reverse [OF len] by simp
qed

lemma pivot_descent: "pivot_loop s i = (case descent_loop s (Suc i) of 0 \<Rightarrow> None | Suc j \<Rightarrow> Some j)"
  by (induction i) (auto simp: not_less)

lemma swap_loops_agree:
  "k0 < k \<Longrightarrow> s ! p < s ! (Suc p + k0) \<Longrightarrow> \<exists>j. swap_loop s p (p + k) = Inr j \<and> swap_first s (Suc p) k = swap_at s p j"
proof (induction k)
  case (Suc k)
  then show ?case by (cases "s ! p < s ! (Suc p + k)"; cases "k0 = k") (auto simp: not_less)
qed simp

section \<open>Digit strings and numbers\<close>

definition digit_string :: "string \<Rightarrow> bool" where
  "digit_string s \<longleftrightarrow> (\<forall>c\<in>set s. is_digit c)"

lemma digit_value_less: "is_digit c \<Longrightarrow> digit_value c < 10"
  by (auto simp: is_digit_def digit_value_def)

lemma digit_value_mono: "is_digit c \<Longrightarrow> is_digit d \<Longrightarrow> c < d \<longleftrightarrow> digit_value c < digit_value d"
  by (auto simp: is_digit_def digit_value_def less_char_def)

lemma digits_value_snoc [simp]: "digits_value (s @ [c]) = 10 * digits_value s + digit_value c" "digits_value [] = 0"
  by (simp_all add: digits_value_def)

lemma digits_value_Cons: "digits_value (c # s) = digit_value c * 10 ^ length s + digits_value s"
  by (induction s rule: rev_induct) (simp_all add: digits_value_def algebra_simps)

lemma digits_value_less: "digit_string s \<Longrightarrow> digits_value s < 10 ^ length s"
proof (induction s rule: rev_induct)
  case (snoc c s)
  then show ?case using digit_value_less [of c] by (simp add: digit_string_def)
qed simp

text \<open>On strings of one length the lexicographic order is the numeric one.\<close>

lemma digits_value_mono:
  "digit_string s \<Longrightarrow> digit_string t \<Longrightarrow> length s = length t \<Longrightarrow> s < t \<longleftrightarrow> digits_value s < digits_value t"
proof (induction s arbitrary: t)
  case (Cons c s)
  then obtain d t' where t: "t = d # t'" by (cases t) auto
  have ds: "is_digit c" "is_digit d" "digit_string s" "digit_string t'" "length s = length t'"
    using Cons.prems by (auto simp: t digit_string_def)
  let ?P = "10 ^ length t' :: nat"
  have less: "digits_value s < ?P" "digits_value t' < ?P" using digits_value_less ds by metis+
  consider "digit_value c < digit_value d" | "digit_value c = digit_value d" | "digit_value d < digit_value c" by linarith
  then show ?case
  proof cases
    case 1
    then have "Suc (digit_value c) * ?P \<le> digit_value d * ?P" by (intro mult_le_mono1) simp
    then have "digits_value (c # s) < digits_value t" using less ds(5) by (simp add: t digits_value_Cons)
    moreover have "c < d" using 1 digit_value_mono ds by blast
    ultimately show ?thesis by (simp add: t Cons_less_Cons)
  next
    case 2
    then have "c = d" using digit_value_mono ds by (metis linorder_neq_iff)
    then show ?thesis using Cons.IH [of t'] ds by (simp add: t Cons_less_Cons digits_value_Cons)
  next
    case 3
    then have "Suc (digit_value d) * ?P \<le> digit_value c * ?P" by (intro mult_le_mono1) simp
    then have "\<not> digits_value (c # s) < digits_value t" using less ds(5) by (simp add: t digits_value_Cons)
    moreover have "\<not> c < d" "c \<noteq> d" using 3 digit_value_mono ds by auto
    ultimately show ?thesis by (simp add: t Cons_less_Cons)
  qed
qed simp

lemma char_of_digit: "n < 10 \<Longrightarrow> is_digit (char_of (48 + n)) \<and> digit_value (char_of (48 + n)) = n"
  by (simp add: is_digit_def digit_value_def of_char_of)

lemma nat_digits_ok: "digit_string (nat_digits n) \<and> digits_value (nat_digits n) = n \<and> nat_digits n \<noteq> []"
proof (induction n rule: nat_digits.induct)
  case (1 n)
  then show ?case using char_of_digit [of n] char_of_digit [of "n mod 10"] digits_value_snoc(1) [of "[]"]
    by (subst (1 2 3) nat_digits.simps) (auto simp: digit_string_def)
qed

lemma nat_digits_hd: "0 < n \<Longrightarrow> 0 < digit_value (hd (nat_digits n))"
proof (induction n rule: nat_digits.induct)
  case (1 n)
  then show ?case using char_of_digit [of n] nat_digits_ok [of "n div 10"]
    by (subst nat_digits.simps) (auto simp: hd_append)
qed

text \<open>A number is determined by a digit string without leading zero.\<close>

lemma nat_digits_inverse:
  "digit_string s \<Longrightarrow> s \<noteq> [] \<Longrightarrow> (1 < length s \<longrightarrow> 0 < digit_value (hd s)) \<Longrightarrow> nat_digits (digits_value s) = s"
proof (induction s rule: rev_induct)
  case (snoc c s)
  have c: "is_digit c" "digit_string s" using snoc.prems by (auto simp: digit_string_def)
  have cd: "char_of (48 + digit_value c) = c" using c(1) by (auto simp: is_digit_def digit_value_def)
  show ?case
  proof (cases "s = []")
    case True
    then show ?thesis using digit_value_less [OF c(1)] cd digits_value_snoc(1) [of "[]"] by (subst nat_digits.simps) simp
  next
    case False
    then have hd: "0 < digit_value (hd s)" using snoc.prems by (simp add: hd_append)
    obtain d s' where s: "s = d # s'" using False by (cases s) auto
    have "0 < digits_value s" using hd by (simp add: s digits_value_Cons)
    moreover have "nat_digits (digits_value s) = s" using snoc.IH c(2) False hd by simp
    ultimately show ?thesis using digit_value_less [OF c(1)] cd by (subst nat_digits.simps) simp
  qed
qed simp

lemma nat_digits_length: "n < 10 ^ Suc k \<Longrightarrow> length (nat_digits n) \<le> Suc k"
proof (induction k arbitrary: n)
  case 0
  then show ?case by (subst nat_digits.simps) simp
next
  case (Suc k)
  have "n div 10 < 10 ^ Suc k" using Suc.prems by (simp add: less_mult_imp_div_less)
  from Suc.IH [OF this] show ?case by (subst nat_digits.simps) simp
qed

lemma stol_digits:
  assumes "digit_string s" "s \<noteq> []" "length s \<le> 18"
  shows "stol s = Inr (int (digits_value s))"
proof -
  have "digits_value s < 10 ^ 18" using digits_value_less [OF assms(1)] power_increasing [OF assms(3), of "10 :: nat"] by linarith
  moreover have "hd s \<noteq> CHR ''-''" using assms(1,2) by (cases s) (auto simp: digit_string_def is_digit_def)
  moreover have tw: "takeWhile is_digit s = s" using assms(1) by (simp add: digit_string_def takeWhile_eq_all_conv [THEN iffD2])
  ultimately show ?thesis using assms(2) by (simp add: stol_def Let_def tw del: takeWhile_eq_all_conv)
qed

lemma digit_string_perm: "mset s = mset t \<Longrightarrow> digit_string s \<longleftrightarrow> digit_string t"
  unfolding digit_string_def by (metis set_mset_mset)

lemma perm_nonempty: "mset s = mset t \<Longrightarrow> t \<noteq> [] \<Longrightarrow> s \<noteq> []"
  by auto

section \<open>The next greater number\<close>

lemma nextGreater_string:
  assumes "2 \<le> length s"
  shows "(pivot_loop s (length s - 2) = None \<and> (\<forall>q. mset q = mset s \<longrightarrow> q \<le> s)) \<or>
    (\<exists>p j r. pivot_loop s (length s - 2) = Some p \<and> swap_loop s p (length s - 1) = Inr j \<and>
       reverse_from (swap_at s p j) (p + 1) = r \<and> mset r = mset s \<and> s < r \<and> (\<forall>q. mset q = mset s \<longrightarrow> s < q \<longrightarrow> r \<le> q))"
proof -
  have "Suc (length s - 2) = length s - 1" using assms by linarith
  then have pivot: "pivot_loop s (length s - 2) = (case descent_loop s (length s - 1) of 0 \<Rightarrow> None | Suc j \<Rightarrow> Some j)"
    using pivot_descent [of s "length s - 2"] by simp
  from assms show ?thesis
proof (cases rule: next_permutation_cases)
  case Last
  then show ?thesis using pivot by simp
next
  case (Next i r)
  have d: "i < length s - 1" "s ! i < s ! Suc i" using descent_loop_pos [OF Next(1)] by auto
  have "pivot_loop s (length s - 2) = Some i" using Next(1) pivot by simp
  moreover obtain j where "swap_loop s i (length s - 1) = Inr j" "swap_first s (Suc i) (length s - Suc i) = swap_at s i j"
    using swap_loops_agree [of 0 "length s - Suc i" s i] d by (auto simp: less_diff_conv)
  ultimately show ?thesis using Next by auto
qed
qed

text \<open>A digit string above a number's digits, of the same digits, is the digit string of a greater number.\<close>

lemma permuted_number:
  assumes "mset r = mset (nat_digits n)" "nat_digits n < r"
  shows "nat_digits (digits_value r) = r" "n < digits_value r"
proof -
  let ?s = "nat_digits n"
  have s: "digit_string ?s" "digits_value ?s = n" "?s \<noteq> []" using nat_digits_ok by auto
  have r: "digit_string r" "length r = length ?s" "r \<noteq> []"
    using digit_string_perm [OF assms(1)] s perm_nonempty [OF assms(1)] mset_eq_length [OF assms(1)] by blast+
  show less: "n < digits_value r" using digits_value_mono [OF s(1) r(1)] assms(2) r(2) s(2) by simp
  have "0 < digit_value (hd r)" if "1 < length r"
  proof -
    have "0 < n"
    proof (rule ccontr)
      assume "\<not> 0 < n"
      then have "length ?s = 1" by (subst nat_digits.simps) simp
      with that r(2) show False by simp
    qed
    then have hd: "0 < digit_value (hd ?s)" by (rule nat_digits_hd)
    obtain a s' b r' where "?s = a # s'" "r = b # r'" using s(3) r(3) by (metis neq_Nil_conv)
    moreover have "is_digit a" "is_digit b" using s(1) r(1) calculation by (auto simp: digit_string_def)
    ultimately show ?thesis using assms(2) hd digit_value_mono [of a b] by (auto simp: Cons_less_Cons)
  qed
  then show "nat_digits (digits_value r) = r" using nat_digits_inverse r by blast
qed

definition same_digits_above :: "int \<Rightarrow> int set" where
  "same_digits_above n = {m. n < m \<and> m \<le> INT_MAX \<and> mset (to_string m) = mset (to_string n)}"

lemma same_digits_above_iff:
  assumes "0 \<le> n"
  shows "m \<in> same_digits_above n \<longleftrightarrow> m \<le> INT_MAX \<and> 0 \<le> m \<and> mset (nat_digits (nat m)) = mset (nat_digits (nat n)) \<and> nat_digits (nat n) < nat_digits (nat m)"
proof -
  have "nat_digits (nat n) < nat_digits (nat m) \<longleftrightarrow> nat n < nat m" if "mset (nat_digits (nat m)) = mset (nat_digits (nat n))"
    using digits_value_mono [of "nat_digits (nat n)" "nat_digits (nat m)"] nat_digits_ok mset_eq_length [OF that] by simp
  then show ?thesis using assms by (auto simp: same_digits_above_def to_string_def)
qed

lemma nextGreaterElement_ok:
  assumes "0 \<le> n" "n \<le> INT_MAX"
  shows "\<exists>r. nextGreaterElement n = Inr r \<and>
    (if same_digits_above n = {} then r = -1 else r \<in> same_digits_above n \<and> (\<forall>m\<in>same_digits_above n. r \<le> m))"
proof -
  let ?s = "nat_digits (nat n)"
  have to: "to_string n = ?s" using assms(1) by (simp add: to_string_def)
  have s: "digit_string ?s" "?s \<noteq> []" "length ?s \<le> 10" using nat_digits_ok nat_digits_length [of "nat n" 9] assms by auto
  show ?thesis
  proof (cases "2 \<le> length ?s")
    case False
    have "same_digits_above n = {}"
    proof -
      obtain c where c: "?s = [c]" using False s(2) by (metis length_0_conv length_Suc_conv less_2_cases not_le)
      have "\<not> ?s < t" if "mset t = mset ?s" for t
        using that unfolding c by (metis less_irrefl mset_zero_iff mset.simps(2) mset_single_iff)
      then show ?thesis using same_digits_above_iff [OF assms(1)] by blast
    qed
    then show ?thesis using False by (simp add: nextGreaterElement_def to)
  next
    case True
    from nextGreater_string [OF True] show ?thesis
    proof (elim disjE exE conjE)
      assume "pivot_loop ?s (length ?s - 2) = None" "\<forall>q. mset q = mset ?s \<longrightarrow> q \<le> ?s"
      then have "same_digits_above n = {}" using same_digits_above_iff [OF assms(1)] by (auto simp: not_le [symmetric])
      then show ?thesis using True \<open>pivot_loop _ _ = None\<close> by (simp add: nextGreaterElement_def to)
    next
      fix p j r
      assume r: "pivot_loop ?s (length ?s - 2) = Some p" "swap_loop ?s p (length ?s - 1) = Inr j"
        "reverse_from (swap_at ?s p j) (p + 1) = r" "mset r = mset ?s" "?s < r" "\<forall>q. mset q = mset ?s \<longrightarrow> ?s < q \<longrightarrow> r \<le> q"
      let ?v = "int (digits_value r)"
      have rs: "digit_string r" "length r = length ?s" "r \<noteq> []" using digit_string_perm [OF r(4)] s perm_nonempty [OF r(4)] mset_eq_length [OF r(4)] by blast+
      have "stol r = Inr ?v" using stol_digits rs s(3) by simp
      then have res: "nextGreaterElement n = Inr (if ?v > INT_MAX then -1 else ?v)"
        using True r(1-3) by (simp add: nextGreaterElement_def to del: rbind_eq_Inr)
      have least: "?v \<le> m" if "m \<in> same_digits_above n" for m
      proof -
        have m: "0 \<le> m" "mset (nat_digits (nat m)) = mset ?s" "?s < nat_digits (nat m)" using that same_digits_above_iff [OF assms(1)] by auto
        then have "r \<le> nat_digits (nat m)" using r(6) by blast
        moreover have "length r = length (nat_digits (nat m))" using rs(2) mset_eq_length [OF m(2)] by simp
        ultimately have "digits_value r \<le> digits_value (nat_digits (nat m))"
          using digits_value_mono [of "nat_digits (nat m)" r] rs(1) nat_digits_ok by (metis not_less)
        then show ?thesis using nat_digits_ok [of "nat m"] m(1) by simp
      qed
      have "?v \<in> same_digits_above n" if "?v \<le> INT_MAX"
        using that permuted_number [OF r(4,5)] r(4,5) same_digits_above_iff [OF assms(1), of ?v] by simp
      then show ?thesis using res least by (cases "?v > INT_MAX") (force simp: same_digits_above_def)+
    qed
  qed
qed

text \<open>
  On every string of at least two characters \<open>nextPermutation\<close> returns the least rearrangement that is greater, and
  ``Not Possible'' when there is none; for every non-negative \<open>int\<close>, \<open>nextGreaterElement\<close> returns the least greater \<open>int\<close> with the same
  digits, and -1 when there is none.
\<close>

theorem next_permutation_correct:
  "(2 \<le> length s \<longrightarrow> (\<exists>r. nextPermutation s = Inr r \<and>
      (if \<exists>q. mset q = mset s \<and> s < q then mset r = mset s \<and> s < r \<and> (\<forall>q. mset q = mset s \<longrightarrow> s < q \<longrightarrow> r \<le> q)
       else r = ''Not Possible''))) \<and>
   (0 \<le> n \<longrightarrow> n \<le> INT_MAX \<longrightarrow> (\<exists>r. nextGreaterElement n = Inr r \<and>
      (if same_digits_above n = {} then r = -1 else r \<in> same_digits_above n \<and> (\<forall>m\<in>same_digits_above n. r \<le> m))))"
proof (intro conjI impI)
  assume len: "2 \<le> length s"
  then have ne: "length s \<noteq> 1" "s \<noteq> []" by auto
  from len show "\<exists>r. nextPermutation s = Inr r \<and>
      (if \<exists>q. mset q = mset s \<and> s < q then mset r = mset s \<and> s < r \<and> (\<forall>q. mset q = mset s \<longrightarrow> s < q \<longrightarrow> r \<le> q)
       else r = ''Not Possible'')"
  proof (cases rule: next_permutation_cases)
    case Last
    then have none: "\<not> (\<exists>q. mset q = mset s \<and> s < q)" by (auto simp: not_less)
    show ?thesis unfolding if_not_P [OF none] using Last(1) ne by (simp add: nextPermutation_def)
  next
    case (Next i r)
    then have some: "\<exists>q. mset q = mset s \<and> s < q" by auto
    show ?thesis unfolding if_P [OF some] using Next ne by (simp add: nextPermutation_def)
  qed
qed (rule nextGreaterElement_ok)

theorem next_permutation_correct_witness:
  "\<exists>r. nextPermutation ''21'' = Inr r \<and> (if \<exists>q. mset q = mset ''21'' \<and> ''21'' < q then mset r = mset ''21'' \<and> ''21'' < r \<and>
      (\<forall>q. mset q = mset ''21'' \<longrightarrow> ''21'' < q \<longrightarrow> r \<le> q) else r = ''Not Possible'')"
  using next_permutation_correct [of "''21''" 0] by simp

section \<open>The removal of a digit\<close>

lemma length_without_at: "i < length s \<Longrightarrow> length (without_at s i) = length s - 1"
  by (simp add: without_at_def)

lemma digit_string_without_at: "digit_string s \<Longrightarrow> digit_string (without_at s i)"
  unfolding digit_string_def without_at_def by (auto dest: in_set_takeD in_set_dropD)

text \<open>The loop keeps the largest of what it starts from and the candidates it passes.\<close>

lemma removeDigit_loop_ge: "acc \<le> removeDigit_loop s d i n acc"
proof (induction s d i n acc rule: removeDigit_loop.induct)
  case (2 s d i n acc)
  have "acc \<le> (if s ! i = d \<and> acc < without_at s i then without_at s i else acc)" by auto
  also have "\<dots> \<le> removeDigit_loop s d (Suc i) n (if s ! i = d \<and> acc < without_at s i then without_at s i else acc)"
    by (rule 2 [OF refl refl])
  finally show ?case by (simp add: Let_def)
qed simp

lemma removeDigit_loop_candidate:
  "i \<le> j \<Longrightarrow> j < i + n \<Longrightarrow> s ! j = d \<Longrightarrow> without_at s j \<le> removeDigit_loop s d i n acc"
proof (induction s d i n acc rule: removeDigit_loop.induct)
  case (2 s d i n acc)
  let ?acc = "if s ! i = d \<and> acc < without_at s i then without_at s i else acc"
  show ?case
  proof (cases "i = j")
    case True
    then have "without_at s j \<le> ?acc" using 2 by auto
    also have "\<dots> \<le> removeDigit_loop s d (Suc i) n ?acc" by (rule removeDigit_loop_ge)
    finally show ?thesis by (simp add: Let_def)
  next
    case False
    then have "without_at s j \<le> removeDigit_loop s d (Suc i) n ?acc"
      using "2.prems" by (intro "2.IH" [OF refl refl]) auto
    then show ?thesis by (simp add: Let_def)
  qed
qed simp

lemma removeDigit_loop_from:
  "removeDigit_loop s d i n acc = acc \<or> (\<exists>j. i \<le> j \<and> j < i + n \<and> s ! j = d \<and> removeDigit_loop s d i n acc = without_at s j)"
proof (induction s d i n acc rule: removeDigit_loop.induct)
  case (2 s d i n acc)
  let ?acc = "if s ! i = d \<and> acc < without_at s i then without_at s i else acc"
  have *: "removeDigit_loop s d i (Suc n) acc = removeDigit_loop s d (Suc i) n ?acc" by (simp add: Let_def)
  have "removeDigit_loop s d (Suc i) n ?acc = ?acc \<or>
    (\<exists>j. Suc i \<le> j \<and> j < Suc i + n \<and> s ! j = d \<and> removeDigit_loop s d (Suc i) n ?acc = without_at s j)"
    by (rule 2 [OF refl refl])
  then show ?case
  proof (elim disjE exE conjE)
    assume "removeDigit_loop s d (Suc i) n ?acc = ?acc"
    then show ?thesis unfolding * by (cases "s ! i = d \<and> acc < without_at s i") auto
  next
    fix j assume "Suc i \<le> j" "j < Suc i + n" "s ! j = d" "removeDigit_loop s d (Suc i) n ?acc = without_at s j"
    then show ?thesis unfolding * by (intro disjI2 exI [of _ j]) simp
  qed
qed simp

text \<open>A nonempty digit string is not below ``0''.\<close>

lemma zero_least: "digit_string s \<Longrightarrow> s \<noteq> [] \<Longrightarrow> ''0'' \<le> s"
proof (cases s)
  case (Cons c t)
  assume "digit_string s"
  then have c: "(48 :: nat) \<le> of_char c" by (simp add: Cons digit_string_def is_digit_def)
  have "c = CHR ''0'' \<or> (48 :: nat) \<noteq> of_char c" 
  proof (rule disjCI)
    assume "\<not> (48 :: nat) \<noteq> of_char c"
    then have "char_of (of_char c :: nat) = char_of (48 :: nat)" by simp
    moreover have "char_of (48 :: nat) = CHR ''0''" by code_simp
    ultimately show "c = CHR ''0''" by (simp only: char_of_char)
  qed
  then show ?thesis using c by (auto simp: Cons Cons_le_Cons less_char_def)
qed simp

text \<open>Removing the first peak gives the least string, and without a peak removing the last character does.\<close>

lemma without_at_simps [simp]: "without_at (c # s) 0 = s" "without_at (c # s) (Suc i) = c # without_at s i"
  by (simp_all add: without_at_def)

fun peak :: "'a :: linorder list \<Rightarrow> nat" where
  "peak (a # b # s) = (if a > b then 0 else Suc (peak (b # s)))"
| "peak s = 0"

lemma peak_least:
  fixes s :: "'a :: linorder list"
  shows "i < length s \<Longrightarrow> without_at s (peak s) \<le> without_at s i"
proof (induction s arbitrary: i rule: peak.induct)
  case (1 a b s)
  show ?case
  proof (cases i)
    case 0
    show ?thesis
    proof (cases "a > b")
      case True
      then show ?thesis by (simp add: 0)
    next
      case False
      then have "without_at (b # s) (peak (b # s)) \<le> without_at (b # s) 0" using "1.IH" [of 0] by simp
      then show ?thesis using False by (cases "a = b") (auto simp: 0 Cons_le_Cons)
    qed
  next
    case (Suc j)
    then show ?thesis using 1 by (cases "a > b") (auto simp: Cons_le_Cons)
  qed
qed auto

lemma first_peak_shift: "first_peak (a # s) (Suc i) n = map_option Suc (first_peak s i n)"
  by (induction s i n rule: first_peak.induct) auto

lemma first_peak_peak:
  "s \<noteq> [] \<Longrightarrow> (case first_peak s 0 (length s - 1) of Some i \<Rightarrow> without_at s i | None \<Rightarrow> butlast s) = without_at s (peak s)"
  by (induction s rule: peak.induct) (auto simp: first_peak_shift split: option.splits)

lemma strip_zeros_dropWhile:
  "s \<noteq> [] \<Longrightarrow> strip_zeros s = (let t = dropWhile (\<lambda>c. c = CHR ''0'') s in if t = [] then [last s] else t)"
  by (induction s rule: strip_zeros.induct) (auto simp: Let_def dropWhile_eq_Nil_conv)

lemma digits_value_mono_le:
  "digit_string s \<Longrightarrow> digit_string t \<Longrightarrow> length s = length t \<Longrightarrow> s \<le> t \<Longrightarrow> digits_value s \<le> digits_value t"
  using digits_value_mono [of t s] by (simp add: not_less [symmetric])

lemma digits_value_strip: "digits_value (dropWhile (\<lambda>c. c = CHR ''0'') s) = digits_value s"
  by (induction s) (simp_all add: digits_value_Cons digit_value_def)

lemma removeDigit_max:
  assumes "digit_string s" "2 \<le> length s" "s ! i = d" "i < length s"
  shows "\<exists>j<length s. s ! j = d \<and> removeDigit s d = without_at s j \<and>
    (\<forall>k<length s. s ! k = d \<longrightarrow> digits_value (without_at s k) \<le> digits_value (without_at s j))"
proof -
  let ?r = "removeDigit s d"
  have ge: "without_at s k \<le> ?r" if "k < length s" "s ! k = d" for k
    unfolding removeDigit_def using that by (intro removeDigit_loop_candidate) auto
  have "\<exists>j<length s. s ! j = d \<and> ?r = without_at s j"
  proof (cases "?r = ''0''")
    case True
    have "without_at s i \<noteq> []" using length_without_at [OF assms(4)] assms(2) by auto
    then have "''0'' \<le> without_at s i" using zero_least digit_string_without_at [OF assms(1)] by blast
    then have "?r = without_at s i" using ge [OF assms(4,3)] True by simp
    then show ?thesis using assms by blast
  next
    case False
    then show ?thesis using removeDigit_loop_from [of s d 0 "length s" "''0''"] by (auto simp: removeDigit_def)
  qed
  then obtain j where j: "j < length s" "s ! j = d" "?r = without_at s j" by blast
  have "digits_value (without_at s k) \<le> digits_value (without_at s j)" if "k < length s" "s ! k = d" for k
    using ge [OF that] j digit_string_without_at [OF assms(1)] length_without_at [OF that(1)] length_without_at [OF j(1)]
    by (intro digits_value_mono_le) auto
  then show ?thesis using j by blast
qed

lemma removeOneDigitToMin_value:
  assumes "digit_string s" "2 \<le> length s" "i < length s"
  shows "digits_value (removeOneDigitToMin s) \<le> digits_value (without_at s i)"
    "\<exists>j<length s. digits_value (removeOneDigitToMin s) = digits_value (without_at s j)"
proof -
  have ne: "s \<noteq> []" "\<not> length s \<le> 1" using assms(2) by auto
  have "peak s < length s" using ne(1) by (induction s rule: peak.induct) auto
  note peak = this
  have zero: "digits_value ''0'' = 0" by code_simp
  have val: "digits_value (removeOneDigitToMin s) = digits_value (without_at s (peak s))"
  proof (cases "dropWhile (\<lambda>c. c = CHR ''0'') (without_at s (peak s)) = []")
    case True
    then show ?thesis using ne zero digits_value_strip [of "without_at s (peak s)"]
      by (simp only: removeOneDigitToMin_def Let_def first_peak_peak [OF ne(1)] if_False digits_value_snoc if_True refl)
  next
    case False
    then show ?thesis using ne digits_value_strip [of "without_at s (peak s)"]
      by (simp only: removeOneDigitToMin_def Let_def first_peak_peak [OF ne(1)] if_False)
  qed
  show "digits_value (removeOneDigitToMin s) \<le> digits_value (without_at s i)"
    unfolding val using peak_least [OF assms(3)] digit_string_without_at [OF assms(1)] length_without_at [OF assms(3)] length_without_at [OF peak]
    by (intro digits_value_mono_le) auto
  show "\<exists>j<length s. digits_value (removeOneDigitToMin s) = digits_value (without_at s j)" using val peak by blast
qed

lemma removeOneToMin_same:
  assumes "2 \<le> cap"
  shows "removeOneToMin cap s = Inr (removeOneDigitToMin s)"
proof (cases "length s \<le> 1")
  case True
  then show ?thesis using assms by (simp add: removeOneToMin_def removeOneDigitToMin_def)
next
  case False
  then have ne: "s \<noteq> []" by auto
  let ?t = "without_at s (peak s)"
  have "peak s < length s" using ne by (induction s rule: peak.induct) auto
  then have "?t \<noteq> []" using length_without_at [of "peak s" s] False by auto
  then have "strip_zeros ?t = (let t = dropWhile (\<lambda>c. c = CHR ''0'') ?t in if t = [] then ''0'' else t)"
    unfolding strip_zeros_dropWhile [OF \<open>?t \<noteq> []\<close>] by (auto simp: Let_def dropWhile_eq_Nil_conv)
  then show ?thesis using False first_peak_peak [OF ne]
    by (simp add: removeOneToMin_def removeOneDigitToMin_def Let_def butlast_conv_take cong: option.case_cong)
qed

text \<open>
  On a string of at least two digits \<open>removeDigit\<close> returns what is left after removing one occurrence of the digit, the one
  whose removal leaves the largest number, and ``0'' when the digit does not occur; \<open>removeOneDigitToMin\<close> returns the smallest number
  that the removal of one digit can leave, without leading zeros; its C version returns the same in every buffer of two bytes or more.
\<close>

theorem remove_digit_optimal:
  assumes "digit_string s" "2 \<le> length s"
  shows "(d \<in> set s \<longrightarrow> (\<exists>j<length s. s ! j = d \<and> removeDigit s d = without_at s j \<and>
       (\<forall>k<length s. s ! k = d \<longrightarrow> digits_value (without_at s k) \<le> digits_value (without_at s j)))) \<and>
    (d \<notin> set s \<longrightarrow> removeDigit s d = ''0'') \<and>
    (\<exists>j<length s. digits_value (removeOneDigitToMin s) = digits_value (without_at s j)) \<and>
    (\<forall>i<length s. digits_value (removeOneDigitToMin s) \<le> digits_value (without_at s i)) \<and>
    (hd (removeOneDigitToMin s) = CHR ''0'' \<longrightarrow> removeOneDigitToMin s = ''0'') \<and>
    (2 \<le> cap \<longrightarrow> removeOneToMin cap s = Inr (removeOneDigitToMin s))"
proof (intro conjI impI allI)
  assume "d \<in> set s"
  then obtain i where "i < length s" "s ! i = d" by (auto simp: in_set_conv_nth)
  then show "\<exists>j<length s. s ! j = d \<and> removeDigit s d = without_at s j \<and>
       (\<forall>k<length s. s ! k = d \<longrightarrow> digits_value (without_at s k) \<le> digits_value (without_at s j))"
    using removeDigit_max assms by blast
next
  assume "d \<notin> set s"
  then show "removeDigit s d = ''0''" using removeDigit_loop_from [of s d 0 "length s" "''0''"] by (auto simp: removeDigit_def)
next
  show "\<exists>j<length s. digits_value (removeOneDigitToMin s) = digits_value (without_at s j)"
    by (rule removeOneDigitToMin_value(2) [OF assms, of 0]) (use assms(2) in auto)
next
  fix i assume "i < length s"
  then show "digits_value (removeOneDigitToMin s) \<le> digits_value (without_at s i)" by (rule removeOneDigitToMin_value [OF assms])
next
  assume "hd (removeOneDigitToMin s) = CHR ''0''"
  then show "removeOneDigitToMin s = ''0''"
    using hd_dropWhile [of "\<lambda>c. c = CHR ''0''"] by (auto simp: removeOneDigitToMin_def Let_def split: if_splits option.splits simp del: dropWhile_eq_Nil_conv)
next
  assume "2 \<le> cap"
  then show "removeOneToMin cap s = Inr (removeOneDigitToMin s)" by (rule removeOneToMin_same)
qed

theorem remove_digit_optimal_witness:
  "digit_string ''14356'' \<and> (\<exists>j<length ''14356''. ''14356'' ! j = CHR ''3'' \<and> removeDigit ''14356'' CHR ''3'' = without_at ''14356'' j) \<and>
   removeOneToMin 100 ''14356'' = Inr (removeOneDigitToMin ''14356'')"
proof -
  have ds: "digit_string ''14356''" by (simp add: digit_string_def is_digit_def)
  have "2 \<le> length ''14356''" "CHR ''3'' \<in> set ''14356''" "(2 :: nat) \<le> 100" by simp_all
  then show ?thesis using remove_digit_optimal [OF ds, of "CHR ''3''" 100] ds by blast
qed

lemma nextGreaterElement_negative: "nextGreaterElement (-321) = Inr 1"
  by code_simp

lemma digit_mains:
  "nextPermutation ''218765'' = Inr ''251678''" "removeDigit_main = ''23151''"
  "removeOneDigitToMin_main = ''1356''" "removeOneToMin_main = Inr ''1356''"
  by code_simp+

end
