(* ===== verification/Number_Programs.thy ===== *)
theory Number_Programs
  imports Digit_Strings "HOL-Library.Tree"
begin

text \<open>
  Small programs on numbers: the evaluation of sums of products (\<open>arithmeticString.cpp\<close>), the inversion of the significant bits
  of a number (\<open>invertBits.cpp\<close>), the unwrapping of timestamps (\<open>amazon/emergingDevices/rolloverTimeStamp.cpp\<close>), the toggling of an LED
  bit (\<open>amazon/emergingDevices/portMapSet.cpp\<close>) and the level of a key in a binary search tree (\<open>arista/findPosition.cpp\<close>).
\<close>

unbundle bit_operations_syntax

section \<open>Evaluation of sums of products\<close>

record eval_state =
  result :: int
  current_term :: int
  last_op :: char
  current_num :: int

definition eval_init :: eval_state where
  "eval_init = \<lparr>result = 0, current_term = 0, last_op = CHR ''+'', current_num = 0\<rparr>"

text \<open>The two branches on the last operator, the same in the loop and behind it.\<close>

definition apply_op :: "eval_state \<Rightarrow> eval_state res" where
  "apply_op st =
     (if last_op st = CHR ''+'' then
        rbind (chk64 (result st + current_term st)) (\<lambda>r. Inr (st\<lparr>result := r, current_term := current_num st\<rparr>))
      else if last_op st = CHR ''*'' then
        rbind (chk64 (current_term st * current_num st)) (\<lambda>p. Inr (st\<lparr>current_term := p\<rparr>))
      else Inr st)"

definition eval_char :: "eval_state \<Rightarrow> char \<Rightarrow> eval_state res" where
  "eval_char st c =
     (if is_digit c then
        rbind (chk64 (current_num st * 10)) (\<lambda>t. rbind (chk64 (t + int (digit_value c))) (\<lambda>n. Inr (st\<lparr>current_num := n\<rparr>)))
      else if c = CHR ''+'' \<or> c = CHR ''*'' then
        rbind (apply_op st) (\<lambda>st. Inr (st\<lparr>last_op := c, current_num := 0\<rparr>))
      else Inr st)"

fun eval_loop :: "eval_state \<Rightarrow> string \<Rightarrow> eval_state res" where
  "eval_loop st [] = Inr st"
| "eval_loop st (c # cs) = rbind (eval_char st c) (\<lambda>st. eval_loop st cs)"

definition evaluateExpression :: "string \<Rightarrow> int res" where
  "evaluateExpression expression =
     rbind (eval_loop eval_init expression) (\<lambda>st. rbind (apply_op st) (\<lambda>st. chk64 (result st + current_term st)))"

definition arithmeticString_main :: "int res list" where
  "arithmeticString_main = map evaluateExpression [''12 + 3 * 5'', ''10*20+30'', ''123*2+1'', ''9*80*7'']"

text \<open>The expressions: sums of products of decimal numbers, as text and as a value.\<close>

fun join :: "string \<Rightarrow> string list \<Rightarrow> string" where
  "join sep [] = []"
| "join sep [x] = x"
| "join sep (x # y # xs) = x @ sep @ join sep (y # xs)"

definition term_text :: "nat list \<Rightarrow> string" where
  "term_text ns = join ''*'' (map nat_digits ns)"

definition expr_text :: "nat list list \<Rightarrow> string" where
  "expr_text ts = join ''+'' (map term_text ts)"

definition expr_value :: "nat list list \<Rightarrow> nat" where
  "expr_value ts = sum_list (map prod_list ts)"

text \<open>A bound on every intermediate result; a factor 0 counts as 1, since the product before it is computed first.\<close>

definition expr_bound :: "nat list list \<Rightarrow> nat" where
  "expr_bound ts = sum_list (map (\<lambda>ns. prod_list (map (max 1) ns)) ts)"

lemma eval_loop_append: "eval_loop st (s @ t) = rbind (eval_loop st s) (\<lambda>st. eval_loop st t)"
  by (induction s arbitrary: st) (simp_all add: rbind_assoc)

text \<open>Characters other than digits and operators do not matter, in particular spaces.\<close>

lemma eval_loop_filter: "eval_loop st (filter (\<lambda>c. is_digit c \<or> c = CHR ''+'' \<or> c = CHR ''*'') s) = eval_loop st s"
  by (induction s arbitrary: st) (auto simp: eval_char_def)

lemma eval_digits:
  assumes "digit_string s" "0 \<le> current_num st" "(current_num st) * 10 ^ length s + int (digits_value s) \<le> LLONG_MAX"
  shows "eval_loop st s = Inr (st\<lparr>current_num := current_num st * 10 ^ length s + int (digits_value s)\<rparr>)"
  using assms
proof (induction s arbitrary: st)
  case (Cons c s)
  let ?n = "current_num st" and ?P = "10 ^ length s :: int"
  have c: "is_digit c" "digit_string s" using Cons.prems(1) by (auto simp: digit_string_def)
  have total: "(?n * 10 + int (digit_value c)) * ?P + int (digits_value s) \<le> LLONG_MAX"
    using Cons.prems(3) by (simp add: digits_value_Cons algebra_simps)
  have "?n * 10 + int (digit_value c) \<le> (?n * 10 + int (digit_value c)) * ?P"
    using mult_left_mono [of 1 ?P "?n * 10 + int (digit_value c)"] Cons.prems(2) by simp
  then have le: "?n * 10 + int (digit_value c) \<le> LLONG_MAX" using total by linarith
  then have step: "eval_char st c = Inr (st\<lparr>current_num := ?n * 10 + int (digit_value c)\<rparr>)"
    using c Cons.prems(2) by (simp add: eval_char_def)
  show ?case
    using Cons.IH [OF c(2), of "st\<lparr>current_num := ?n * 10 + int (digit_value c)\<rparr>"] Cons.prems(2) total
    by (simp add: step digits_value_Cons algebra_simps)
qed simp

lemma eval_number: "current_num st = 0 \<Longrightarrow> int n \<le> LLONG_MAX \<Longrightarrow> eval_loop st (nat_digits n) = Inr (st\<lparr>current_num := int n\<rparr>)"
  using eval_digits [of "nat_digits n" st] nat_digits_ok [of n] by simp

text \<open>
  Reading a product from a state that is at the start of a factor leaves a state whose pending operation completes the product.
  \<open>p\<close> is the product so far, \<open>1\<close> at the start of a term.
\<close>

definition flushed :: "eval_state \<Rightarrow> int \<Rightarrow> int \<Rightarrow> bool" where
  "flushed st r t \<longleftrightarrow> (\<exists>st'. apply_op st = Inr st' \<and> result st' = r \<and> current_term st' = t)"

lemma prod_max_ge: "prod_list ns \<le> prod_list (map (max 1) ns)" "1 \<le> prod_list (map (max 1) ns)" for ns :: "nat list"
proof -
  show "prod_list ns \<le> prod_list (map (max 1) ns)" by (induction ns) (auto intro: mult_le_mono)
  show "1 \<le> prod_list (map (max 1) ns)" by (induction ns) auto
qed

lemma eval_star:
  assumes "flushed st r t"
  shows "\<exists>st'. eval_char st CHR ''*'' = Inr st' \<and> result st' = r \<and> current_term st' = t \<and> last_op st' = CHR ''*'' \<and> current_num st' = 0"
  using assms by (auto simp: flushed_def eval_char_def is_digit_def)

lemma eval_plus:
  assumes "flushed st r t"
  shows "\<exists>st'. eval_char st CHR ''+'' = Inr st' \<and> result st' = r \<and> current_term st' = t \<and> last_op st' = CHR ''+'' \<and> current_num st' = 0"
  using assms by (auto simp: flushed_def eval_char_def is_digit_def)

lemma join_Cons: "xs \<noteq> [] \<Longrightarrow> join sep (x # xs) = x @ sep @ join sep xs"
  by (cases xs) auto

text \<open>A factor within a term, and the factors behind it; \<open>q\<close> bounds the product \<open>p\<close> so far.\<close>

lemma eval_factors:
  assumes "ns \<noteq> []" "last_op st = CHR ''*''" "current_num st = 0" "current_term st = int p"
    "p \<le> q" "1 \<le> q" "int (q * prod_list (map (max 1) ns)) \<le> LLONG_MAX"
  shows "\<exists>st'. eval_loop st (term_text ns) = Inr st' \<and> flushed st' (result st) (int (p * prod_list ns))"
  using assms
proof (induction ns arbitrary: st p q)
  case (Cons n ns)
  let ?B = "prod_list (map (max 1) ns)" and ?st = "st\<lparr>current_num := int n\<rparr>"
  have B: "1 \<le> ?B" by (rule prod_max_ge)
  have qn: "q * max 1 n \<le> q * max 1 n * ?B" using mult_le_mono2 [OF B, of "q * max 1 n"] by simp
  have "int (q * max 1 n * ?B) = int (q * prod_list (map (max 1) (n # ns)))" by simp
  then have all: "int (q * max 1 n) \<le> LLONG_MAX" using zle_int [THEN iffD2, OF qn] Cons.prems(7) by (simp only:)
  have "n \<le> q * max 1 n" using mult_le_mono [OF Cons.prems(6), of n "max 1 n"] by simp
  then have n: "int n \<le> LLONG_MAX" using all by (meson order_trans zle_int)
  have "p * n \<le> q * max 1 n" using mult_le_mono [OF Cons.prems(5), of n "max 1 n"] by simp
  then have pn: "int (p * n) \<le> LLONG_MAX" using all by (meson order_trans zle_int)
  have pn': "chk64 (int p * int n) = Inr (int p * int n)"
  proof (rule chk64_ok)
    show "LLONG_MIN \<le> int p * int n" by (rule order_trans [of _ 0]) simp_all
  qed (use pn in simp)
  have read: "eval_loop st (nat_digits n) = Inr ?st" using eval_number [OF Cons.prems(3) n] .
  have fl: "flushed ?st (result st) (int (p * n))" using Cons.prems(2,4) pn' by (simp add: flushed_def apply_op_def)
  show ?case
  proof (cases "ns = []")
    case True
    then show ?thesis using read fl by (simp add: term_text_def)
  next
    case False
    obtain st2 where st2: "eval_char ?st CHR ''*'' = Inr st2" "result st2 = result st" "current_term st2 = int (p * n)"
      "last_op st2 = CHR ''*''" "current_num st2 = 0" using eval_star [OF fl] by blast
    have "eval_loop st (term_text (n # ns)) = eval_loop st2 (term_text ns)"
      using read st2(1) False by (simp add: term_text_def join_Cons eval_loop_append)
    moreover have "\<exists>st'. eval_loop st2 (term_text ns) = Inr st' \<and> flushed st' (result st2) (int (p * n * prod_list ns))"
      using Cons.prems(5-7) st2 mult_le_mono [OF Cons.prems(5), of n "max 1 n"] mult_le_mono [OF Cons.prems(6), of 1 "max 1 n"]
      by (intro Cons.IH [of st2 "p * n" "q * max 1 n", OF False]) (simp_all add: mult.assoc)
    ultimately show ?thesis using st2(2) by (simp add: mult.assoc)
  qed
qed simp

text \<open>A term read at the start of the string or behind a plus.\<close>

lemma eval_term:
  assumes "ns \<noteq> []" "last_op st = CHR ''+''" "current_num st = 0" "0 \<le> result st" "0 \<le> current_term st"
    "result st + current_term st \<le> LLONG_MAX" "int (prod_list (map (max 1) ns)) \<le> LLONG_MAX"
  shows "\<exists>st'. eval_loop st (term_text ns) = Inr st' \<and> flushed st' (result st + current_term st) (int (prod_list ns))"
proof -
  obtain n ms where ns: "ns = n # ms" using assms(1) by (cases ns) auto
  let ?B = "prod_list (map (max 1) ms)" and ?st = "st\<lparr>current_num := int n\<rparr>"
  have "n \<le> max 1 n * 1" by simp
  also have "\<dots> \<le> max 1 n * ?B" by (rule mult_le_mono2 [OF prod_max_ge(2)])
  finally have "n \<le> prod_list (map (max 1) ns)" by (simp add: ns)
  then have "int n \<le> int (prod_list (map (max 1) ns))" by (rule zle_int [THEN iffD2])
  then have n: "int n \<le> LLONG_MAX" using assms(7) by (rule order_trans)
  have read: "eval_loop st (nat_digits n) = Inr ?st" using eval_number [OF assms(3) n] .
  have fl: "flushed ?st (result st + current_term st) (int n)" using assms(2,4-6) by (simp add: flushed_def apply_op_def)
  show ?thesis
  proof (cases "ms = []")
    case True
    then show ?thesis using read fl by (simp add: term_text_def ns)
  next
    case False
    obtain st2 where st2: "eval_char ?st CHR ''*'' = Inr st2" "result st2 = result st + current_term st" "current_term st2 = int n"
      "last_op st2 = CHR ''*''" "current_num st2 = 0" using eval_star [OF fl] by blast
    have "eval_loop st (term_text ns) = eval_loop st2 (term_text ms)"
      using read st2(1) False by (simp add: ns term_text_def join_Cons eval_loop_append)
    moreover have "\<exists>st'. eval_loop st2 (term_text ms) = Inr st' \<and> flushed st' (result st2) (int (n * prod_list ms))"
      using assms(7) st2 by (intro eval_factors [of ms st2 n "max 1 n", OF False]) (simp_all add: ns)
    ultimately show ?thesis using st2(2) by (simp add: ns)
  qed
qed

lemma eval_terms:
  assumes "ts \<noteq> []" "\<forall>ns\<in>set ts. ns \<noteq> []" "last_op st = CHR ''+''" "current_num st = 0" "0 \<le> result st" "0 \<le> current_term st"
    "result st + current_term st + int (expr_bound ts) \<le> LLONG_MAX"
  shows "\<exists>st' r t. eval_loop st (expr_text ts) = Inr st' \<and> flushed st' r t \<and> r + t = result st + current_term st + int (expr_value ts)"
  using assms
proof (induction ts arbitrary: st)
  case (Cons ns ts)
  have bound: "result st + current_term st + int (prod_list (map (max 1) ns)) + int (expr_bound ts) \<le> LLONG_MAX"
    using Cons.prems(7) by (simp add: expr_bound_def)
  have "\<exists>st'. eval_loop st (term_text ns) = Inr st' \<and> flushed st' (result st + current_term st) (int (prod_list ns))"
    using Cons.prems bound by (intro eval_term) auto
  then obtain st1 where st1: "eval_loop st (term_text ns) = Inr st1" "flushed st1 (result st + current_term st) (int (prod_list ns))" by blast
  show ?case
  proof (cases "ts = []")
    case True
    then show ?thesis using st1 by (auto simp: expr_text_def expr_value_def)
  next
    case False
    obtain st2 where st2: "eval_char st1 CHR ''+'' = Inr st2" "result st2 = result st + current_term st" "current_term st2 = int (prod_list ns)"
      "last_op st2 = CHR ''+''" "current_num st2 = 0" using eval_plus [OF st1(2)] by blast
    have le: "int (prod_list ns) \<le> int (prod_list (map (max 1) ns))" using prod_max_ge(1) [of ns] by simp
    have "\<exists>st' r t. eval_loop st2 (expr_text ts) = Inr st' \<and> flushed st' r t \<and> r + t = result st2 + current_term st2 + int (expr_value ts)"
      using Cons.prems(2,5,6) st2 bound le by (intro Cons.IH [OF False]) auto
    moreover have "eval_loop st (expr_text (ns # ts)) = eval_loop st2 (expr_text ts)"
      using st1(1) st2(1) False by (simp add: expr_text_def join_Cons eval_loop_append)
    ultimately show ?thesis using st2(2,3) by (simp add: expr_value_def add.assoc)
  qed
qed simp

lemma expr_value_le: "expr_value ts \<le> expr_bound ts"
  unfolding expr_value_def expr_bound_def by (intro sum_list_mono) (rule prod_max_ge)

text \<open>
  \<open>evaluateExpression\<close> returns the value of every sum of products of decimal numbers, with any characters other than
  digits and operators in between, when no product, with its factors 0 read as 1, and no sum of them exceeds \<open>long long\<close>.
\<close>

theorem evaluateExpression_correct:
  assumes "ts \<noteq> []" "\<forall>ns\<in>set ts. ns \<noteq> []" "int (expr_bound ts) \<le> LLONG_MAX"
    "filter (\<lambda>c. is_digit c \<or> c = CHR ''+'' \<or> c = CHR ''*'') s = expr_text ts"
  shows "evaluateExpression s = Inr (int (expr_value ts))"
proof -
  obtain st r t where st: "eval_loop eval_init s = Inr st" "flushed st r t" "r + t = int (expr_value ts)"
    using eval_terms [OF assms(1,2), of eval_init] assms(3) eval_loop_filter [of eval_init s] by (auto simp: eval_init_def assms(4))
  obtain st' where st': "apply_op st = Inr st'" "result st' = r" "current_term st' = t" using st(2) by (auto simp: flushed_def)
  have "int (expr_value ts) \<le> LLONG_MAX" using expr_value_le [of ts] assms(3) by linarith
  then show ?thesis using st(1,3) st' by (simp add: evaluateExpression_def del: rbind_eq_Inr)
qed

theorem evaluateExpression_correct_witness:
  "evaluateExpression ''12 + 3 * 5'' = Inr (int (expr_value [[12], [3, 5]])) \<and> expr_value [[12], [3, 5]] = 27"
proof -
  have "filter (\<lambda>c. is_digit c \<or> c = CHR ''+'' \<or> c = CHR ''*'') ''12 + 3 * 5'' = expr_text [[12], [3, 5]]" by code_simp
  moreover have "int (expr_bound [[12], [3, 5]]) \<le> LLONG_MAX" "expr_value [[12], [3, 5]] = 27" by (simp_all add: expr_bound_def expr_value_def)
  ultimately show ?thesis using evaluateExpression_correct [of "[[12], [3, 5]]"] by simp
qed

lemma arithmeticString_main_output: "arithmeticString_main = [Inr 27, Inr 230, Inr 247, Inr 5040]"
  by code_simp

section \<open>Inverting the significant bits\<close>

text \<open>
  The loop that counts the bits of \<open>n\<close>; \<open>n >> 1\<close> is an arithmetic shift, which keeps -1, so that on a negative number only the overflow
  of the counter ends it.
\<close>

function count_bits :: "int \<Rightarrow> int \<Rightarrow> int res" where
  "count_bits n bits = (if n \<noteq> 0 then rbind (chk32 (bits + 1)) (\<lambda>b. count_bits (n div 2) (bits + 1)) else Inr bits)"
  by auto
termination by (relation "measure (\<lambda>(n, bits). nat (INT_MAX - bits))") (auto simp: chk32_def split: if_splits)

declare count_bits.simps [simp del]

text \<open>\<open>1 << bits\<close> is computed modulo \<open>2 ^ 32\<close>: \<open>1 << 31\<close> is \<open>INT_MIN\<close>, and subtracting 1 from it overflows.\<close>

definition one_shifted :: "int \<Rightarrow> int" where
  "one_shifted bits = (if bits = 31 then INT_MIN else 2 ^ nat bits)"

definition invertBits :: "int \<Rightarrow> int res" where
  "invertBits num = rbind (count_bits num 0) (\<lambda>bits. rbind (chk32 (one_shifted bits - 1)) (\<lambda>mask. Inr (num XOR mask)))"

definition invertBits_main :: "int res" where
  "invertBits_main = invertBits 1365"

lemma count_bits_nonneg:
  assumes "0 \<le> n" "n < 2 ^ k" "0 \<le> bits" "bits + int k \<le> INT_MAX"
  shows "\<exists>j\<le>k. count_bits n bits = Inr (bits + int j) \<and> n < 2 ^ j \<and> (0 < n \<longrightarrow> 2 ^ j \<le> 2 * n) \<and> (n = 0 \<longrightarrow> j = 0)"
  using assms
proof (induction k arbitrary: n bits)
  case 0
  then show ?case by (simp add: count_bits.simps)
next
  case (Suc k)
  show ?case
  proof (cases "n = 0")
    case True
    then show ?thesis by (auto simp: count_bits.simps)
  next
    case False
    have step: "count_bits n bits = count_bits (n div 2) (bits + 1)"
      using False Suc.prems by (subst count_bits.simps) simp
    obtain j where j: "j \<le> k" "count_bits (n div 2) (bits + 1) = Inr (bits + 1 + int j)" "n div 2 < 2 ^ j" "0 < n div 2 \<longrightarrow> 2 ^ j \<le> 2 * (n div 2)"
    proof -
      define P :: int where "P = 2 ^ k"
      have "n < 2 * P" using Suc.prems(2) by (simp add: P_def)
      then have "n div 2 < P" by presburger
      then show thesis using Suc.IH [of "n div 2" "bits + 1"] Suc.prems(1,3,4) that by (auto simp: P_def)
    qed
    have "n < 2 ^ Suc j" using j(3) by simp
    moreover have "2 ^ Suc j \<le> 2 * n"
    proof (cases "0 < n div 2")
      case False
      then have "n div 2 = 0" "n = 1" using Suc.prems(1) \<open>n \<noteq> 0\<close> by linarith+
      moreover have "count_bits 0 (bits + 1) = Inr (bits + 1)" by (simp add: count_bits.simps)
      ultimately show ?thesis using j(2) by simp
    qed (use j(4) in simp)
    ultimately show ?thesis using step j False by (intro exI [of _ "Suc j"]) simp
  qed
qed

lemma count_bits_negative: "n < 0 \<Longrightarrow> INT_MIN \<le> bits \<Longrightarrow> count_bits n bits = Inl IntOverflow"
proof (induction n bits rule: count_bits.induct)
  case (1 n bits)
  show ?case
  proof (cases "bits + 1 \<le> INT_MAX")
    case True
    then have ok: "chk32 (bits + 1) = Inr (bits + 1)" using "1.prems" by simp
    have "count_bits (n div 2) (bits + 1) = Inl IntOverflow" using "1.prems" by (intro "1.IH" [OF _ ok]) auto
    then show ?thesis using ok "1.prems" by (subst count_bits.simps) simp
  next
    case False
    then show ?thesis using "1.prems" by (subst count_bits.simps) (simp add: chk32_def)
  qed
qed

lemma bits_outside: "0 \<le> n \<Longrightarrow> n < 2 ^ k \<Longrightarrow> k \<le> j \<Longrightarrow> \<not> bit n j" for n :: int
proof -
  assume "0 \<le> n" "n < 2 ^ k" "k \<le> j"
  then have "take_bit k n = n" by (simp add: take_bit_int_eq_self)
  then show "\<not> bit n j" using \<open>k \<le> j\<close> by (metis bit_take_bit_iff not_le)
qed

text \<open>
  For \<open>0 \<le> num < 2 ^ 30\<close>, \<open>invertBits\<close> flips exactly the bits up to the highest set one, so that the number and
  its image add up to \<open>2 ^ k - 1\<close>; from \<open>2 ^ 30\<close> on and for every negative number an \<open>int\<close> overflows.
\<close>

theorem invertBits_correct:
  assumes "INT_MIN \<le> num" "num \<le> INT_MAX"
  shows "(if 0 \<le> num \<and> num < 2 ^ 30
    then \<exists>k r. invertBits num = Inr r \<and> num < 2 ^ k \<and> (0 < num \<longrightarrow> 2 ^ k \<le> 2 * num) \<and> num + r = 2 ^ k - 1 \<and>
      (\<forall>j. bit r j \<longleftrightarrow> j < k \<and> \<not> bit num j)
    else invertBits num = Inl IntOverflow)"
proof (cases "0 \<le> num")
  case False
  then show ?thesis by (simp add: invertBits_def count_bits_negative)
next
  case True
  obtain k where k: "k \<le> 31" "count_bits num 0 = Inr (int k)" "num < 2 ^ k" "0 < num \<longrightarrow> 2 ^ k \<le> 2 * num" "num = 0 \<longrightarrow> k = 0"
    using count_bits_nonneg [of num 31 0] True assms by auto
  show ?thesis
  proof (cases "num < 2 ^ 30")
    case True
    have "k \<noteq> 31" using k(4,5) True \<open>0 \<le> num\<close> by (cases "num = 0") auto
    then have le: "k \<le> 30" using k(1) by simp
    have "(2 :: int) ^ k \<le> 2 ^ 30" using le by (intro power_increasing) auto
    have "chk32 (2 ^ k - 1) = Inr (2 ^ k - 1)"
    proof (rule chk32_ok)
      show "INT_MIN \<le> 2 ^ k - 1" by (rule order_trans [of _ 0]) simp_all
    qed (use \<open>2 ^ k \<le> 2 ^ 30\<close> in simp)
    then have res: "invertBits num = Inr (num XOR mask k)" using k(2) le by (simp add: invertBits_def one_shifted_def mask_eq_exp_minus_1)
    have bits: "bit (num XOR mask k) j \<longleftrightarrow> j < k \<and> \<not> bit num j" for j
      using bits_outside [OF \<open>0 \<le> num\<close> k(3)] by (auto simp: bit_xor_iff bit_mask_iff)
    have "num AND (num XOR mask k) = 0" by (rule bit_eqI) (auto simp: bit_and_iff bits)
    then have "num + (num XOR mask k) = num OR (num XOR mask k)" using plus_and_or [of num "num XOR mask k"] by linarith
    also have "\<dots> = mask k"
      by (rule bit_eqI) (use bits_outside [OF \<open>0 \<le> num\<close> k(3)] in \<open>auto simp: bit_or_iff bits bit_mask_iff not_le [symmetric]\<close>)
    finally have "num + (num XOR mask k) = 2 ^ k - 1" by (simp add: mask_eq_exp_minus_1)
    then show ?thesis using res k(3,4) bits \<open>0 \<le> num\<close> True by auto
  next
    case False
    have "k = 31"
    proof (rule ccontr)
      assume "k \<noteq> 31"
      then have "(2 :: int) ^ k \<le> 2 ^ 30" using k(1) by (intro power_increasing) auto
      then show False using k(3) False by linarith
    qed
    then show ?thesis using k(2) False by (simp add: invertBits_def one_shifted_def chk32_def)
  qed
qed

theorem invertBits_correct_witness:
  "\<exists>k r. invertBits 1365 = Inr r \<and> (\<forall>j. bit r j \<longleftrightarrow> j < k \<and> \<not> bit (1365 :: int) j)"
  using invertBits_correct [of 1365] by auto

lemma invertBits_main_output: "invertBits_main = Inr 682"
  by code_simp

section \<open>Unwrapping timestamps\<close>

record ts_state =
  storage :: "int list"
  previous :: int
  multiplier :: int

definition ts_init :: ts_state where
  "ts_init = \<lparr>storage = [], previous = -1, multiplier = 0\<rparr>"

abbreviation RANGE :: int where "RANGE \<equiv> 30"

definition processTimestamp :: "ts_state \<Rightarrow> int \<Rightarrow> ts_state res" where
  "processTimestamp st ts =
     rbind (if previous st \<noteq> -1 \<and> ts < previous st then chk64 (multiplier st + 1) else Inr (multiplier st)) (\<lambda>m.
     rbind (chk64 (m * RANGE)) (\<lambda>t. rbind (chk64 (ts + t)) (\<lambda>unwrapped.
     Inr \<lparr>storage = storage st @ [unwrapped], previous = ts, multiplier = m\<rparr>)))"

fun process_all :: "ts_state \<Rightarrow> int list \<Rightarrow> ts_state res" where
  "process_all st [] = Inr st"
| "process_all st (ts # tss) = rbind (processTimestamp st ts) (\<lambda>st. process_all st tss)"

definition rollover_main :: "int list res" where
  "rollover_main = rbind (process_all ts_init ([0..29] @ [0..4])) (\<lambda>st. Inr (storage st))"

lemma process_all_unwraps:
  assumes "previous st = t mod RANGE" "multiplier st = t div RANGE" "0 \<le> t"
    "successively (\<lambda>a b. a \<le> b \<and> b < a + RANGE) (t # ts)" "\<forall>x\<in>set (t # ts). x \<le> LLONG_MAX"
  shows "\<exists>st'. process_all st (map (\<lambda>x. x mod RANGE) ts) = Inr st' \<and> storage st' = storage st @ ts"
  using assms
proof (induction ts arbitrary: st t)
  case (Cons u ts)
  have u: "t \<le> u" "u < t + RANGE" "u \<le> LLONG_MAX" using Cons.prems(4,5) by auto
  have pos: "0 \<le> t mod RANGE" "0 \<le> u div RANGE" "0 \<le> u mod RANGE" using u Cons.prems(3) by auto
  have roll: "(if u mod RANGE < t mod RANGE then t div RANGE + 1 else t div RANGE) = u div RANGE"
  proof -
    have t: "t = RANGE * (t div RANGE) + t mod RANGE" "0 \<le> t mod RANGE" "t mod RANGE < RANGE" by simp_all
    have u': "u = RANGE * (u div RANGE) + u mod RANGE" "0 \<le> u mod RANGE" "u mod RANGE < RANGE" by simp_all
    show ?thesis
    proof (cases "u mod RANGE < t mod RANGE")
      case True
      then have "t div RANGE + 1 = u div RANGE" using t u' u by linarith
      then show ?thesis using True by simp
    next
      case False
      then have "t div RANGE = u div RANGE" using t u' u by linarith
      then show ?thesis using False by simp
    qed
  qed
  have split: "u mod RANGE + u div RANGE * RANGE = u" by simp
  have small: "u div RANGE * RANGE \<le> LLONG_MAX" "u div RANGE \<le> LLONG_MAX" using split pos u by linarith+
  have rolled: "t div RANGE + 1 = u div RANGE" if "u mod RANGE < t mod RANGE" using roll that by simp
  have kept: "t div RANGE = u div RANGE" if "\<not> u mod RANGE < t mod RANGE" using roll that by simp
  have m: "(if previous st \<noteq> -1 \<and> u mod RANGE < previous st then chk64 (multiplier st + 1) else Inr (multiplier st)) = Inr (u div RANGE)"
  proof (cases "u mod RANGE < t mod RANGE")
    case True
    then have "previous st \<noteq> -1 \<and> u mod RANGE < previous st" using pos(1) Cons.prems(1) by linarith
    then show ?thesis using chk64_ok [of "u div RANGE"] small pos rolled [OF True] Cons.prems(2) by simp
  next
    case False
    then show ?thesis using kept [OF False] Cons.prems(1,2) by simp
  qed
  have step: "processTimestamp st (u mod RANGE) = Inr \<lparr>storage = storage st @ [u], previous = u mod RANGE, multiplier = u div RANGE\<rparr>"
    unfolding processTimestamp_def m using small pos split u by simp
  show ?case
    using Cons.IH [of "\<lparr>storage = storage st @ [u], previous = u mod RANGE, multiplier = u div RANGE\<rparr>" u] Cons.prems u step by auto
qed simp

text \<open>
  When times that start below \<open>RANGE\<close>, do not decrease and advance by less than \<open>RANGE\<close> are given modulo \<open>RANGE\<close>, the
  processed timestamps are the times.
\<close>

theorem unwrap_timestamps:
  assumes "successively (\<lambda>a b. a \<le> b \<and> b < a + RANGE) (t # ts)" "0 \<le> t" "t < RANGE" "\<forall>x\<in>set (t # ts). x \<le> LLONG_MAX"
  shows "\<exists>st. process_all ts_init (map (\<lambda>x. x mod RANGE) (t # ts)) = Inr st \<and> storage st = t # ts"
proof -
  let ?st = "\<lparr>storage = [t], previous = t, multiplier = 0\<rparr>"
  have "processTimestamp ts_init (t mod RANGE) = Inr ?st" using assms(2,3) by (simp add: processTimestamp_def ts_init_def)
  moreover have "\<exists>st'. process_all ?st (map (\<lambda>x. x mod RANGE) ts) = Inr st' \<and> storage st' = storage ?st @ ts"
    using assms by (intro process_all_unwraps [of _ t]) auto
  ultimately show ?thesis by simp
qed

theorem unwrap_timestamps_witness:
  "\<exists>st. process_all ts_init (map (\<lambda>x. x mod RANGE) [28, 29, 31, 45, 62]) = Inr st \<and> storage st = [28, 29, 31, 45, 62]"
  using unwrap_timestamps [of 28 "[29, 31, 45, 62]"] by simp

text \<open>With the 5-bit counter of the comment the timestamps go back: 31 is followed by 30.\<close>

lemma five_bit_counter_goes_back: "rbind (process_all ts_init [30, 31, 0, 1]) (\<lambda>st. Inr (storage st)) = Inr [30, 31, 30, 31]"
  by code_simp

lemma rollover_main_output: "rollover_main = Inr [0..34]"
  by code_simp

section \<open>Toggling the LED\<close>

record led_state =
  lastValue :: "8 word"
  ioport :: "8 word"

definition toggleLedStatus :: "led_state \<Rightarrow> led_state" where
  "toggleLedStatus st = (let v = lastValue st XOR push_bit 3 1 in st\<lparr>lastValue := v, ioport := v\<rparr>)"

definition portMapSet_main :: "8 word \<Rightarrow> led_state" where
  "portMapSet_main port = toggleLedStatus \<lparr>lastValue = 0, ioport = port\<rparr>"

text \<open>While the port holds the value last written, each call flips bit 3 and keeps the others.\<close>

lemma led_bit: "n < 8 \<Longrightarrow> bit (push_bit n (1 :: 8 word)) i \<longleftrightarrow> i = n"
  by (auto simp: bit_exp_iff)

lemma toggleLedStatus_synced:
  assumes "ioport st = lastValue st"
  shows "ioport (toggleLedStatus st) = lastValue (toggleLedStatus st) \<and>
    (\<forall>i. bit (ioport (toggleLedStatus st)) i = (if i = 3 then \<not> bit (ioport st) i else bit (ioport st) i)) \<and>
    ioport (toggleLedStatus (toggleLedStatus st)) = ioport st"
proof -
  have "bit (ioport (toggleLedStatus st)) i = (if i = 3 then \<not> bit (ioport st) i else bit (ioport st) i)" for i
    using assms led_bit [of 3 i] by (auto simp: toggleLedStatus_def Let_def bit_xor_iff)
  then show ?thesis using assms by (simp add: toggleLedStatus_def Let_def xor.assoc)
qed

text \<open>The first call clears every other bit that was set in the port.\<close>

lemma toggleLedStatus_clobbers: "ioport (portMapSet_main 0xFF) = 0x08"
  by (simp add: portMapSet_main_def toggleLedStatus_def)

section \<open>The level of a key in a binary search tree\<close>

text \<open>The nodes are those of an \<open>int tree\<close>, with a \<open>Leaf\<close> for the null pointer; the loop follows one path down.\<close>

fun findPosition_loop :: "int tree \<Rightarrow> int \<Rightarrow> int \<Rightarrow> int" where
  "findPosition_loop Leaf key level = -1"
| "findPosition_loop (Node l data r) key level =
     (if key = data then level
      else if key < data then findPosition_loop l key (level + 1)
      else findPosition_loop r key (level + 1))"

definition findPosition :: "int tree \<Rightarrow> int \<Rightarrow> int" where
  "findPosition root key = findPosition_loop root key 1"

definition position_tree :: "int tree" where
  "position_tree =
     (let leaf = (\<lambda>x. Node Leaf x Leaf) in
      Node (Node (Node (Node (leaf 0) 1 Leaf) 2 Leaf) 3 (leaf 4)) 5 (Node (leaf 6) 7 (leaf 8)))"

definition findPosition_main :: int where
  "findPosition_main = findPosition position_tree 0"

fun keys_at :: "'a tree \<Rightarrow> nat \<Rightarrow> 'a set" where
  "keys_at Leaf d = {}"
| "keys_at (Node l x r) 0 = {x}"
| "keys_at (Node l x r) (Suc d) = keys_at l d \<union> keys_at r d"

lemma findPosition_loop_ok:
  "bst t \<Longrightarrow> (key \<in> set_tree t \<and> (\<exists>d<height t. findPosition_loop t key level = level + int d \<and> key \<in> keys_at t d)) \<or>
    (key \<notin> set_tree t \<and> findPosition_loop t key level = -1)"
proof (induction t key level rule: findPosition_loop.induct)
  case (2 l x r key level)
  consider "key = x" | "key < x" | "x < key" by linarith
  then show ?case
  proof cases
    case 1
    then show ?thesis by (auto intro!: exI [of _ 0])
  next
    case a: 2
    then have r: "key \<notin> set_tree r" using "2.prems" by auto
    from "2.IH"(1) a "2.prems" consider d where "key \<in> set_tree l" "d < height l" "findPosition_loop l key (level + 1) = level + 1 + int d" "key \<in> keys_at l d"
      | "key \<notin> set_tree l" "findPosition_loop l key (level + 1) = -1" by auto
    then show ?thesis
    proof cases
      case (1 d)
      then show ?thesis using a by (intro disjI1 conjI exI [of _ "Suc d"]) auto
    qed (use a r in auto)
  next
    case b: 3
    then have l: "key \<notin> set_tree l" using "2.prems" by auto
    from "2.IH"(2) b "2.prems" consider d where "key \<in> set_tree r" "d < height r" "findPosition_loop r key (level + 1) = level + 1 + int d" "key \<in> keys_at r d"
      | "key \<notin> set_tree r" "findPosition_loop r key (level + 1) = -1" by auto
    then show ?thesis
    proof cases
      case (1 d)
      then show ?thesis using b by (intro disjI1 conjI exI [of _ "Suc d"]) auto
    qed (use b l in auto)
  qed
qed simp

text \<open>On a binary search tree the position is the level of the key, counted from 1 at the root, and -1 for a key that is not there.\<close>

theorem findPosition_correct:
  assumes "bst t"
  shows "(key \<in> set_tree t \<longrightarrow> (\<exists>d<height t. findPosition t key = 1 + int d \<and> key \<in> keys_at t d)) \<and>
    (key \<notin> set_tree t \<longrightarrow> findPosition t key = -1)"
  using findPosition_loop_ok [OF assms, of key 1] by (auto simp: findPosition_def)

lemma findPosition_main_output: "findPosition_main = 5" "bst position_tree"
  by (code_simp, simp add: position_tree_def Let_def)

end
