(* ===== verification/Clone_List.thy ===== *)
theory Clone_List
  imports Linked_Heap
begin

text \<open>
  Copying a linked list whose nodes also carry a random pointer into the list (\<open>microsoft/cloneLinkedList.cpp\<close>): with a hash map from
  nodes to copies, and by weaving the copies into the list and taking them out again.
\<close>

section \<open>The program\<close>

record rnode =
  rdata :: int
  rnext :: ptr
  rrandom :: ptr

type_synonym rheap = "rnode heap"

definition new_rnode :: "int \<Rightarrow> rheap \<Rightarrow> addr \<times> rheap" where
  "new_rnode x h = new_obj \<lparr>rdata = x, rnext = None, rrandom = None\<rparr> h"

definition get_rnext :: "rheap \<Rightarrow> ptr \<Rightarrow> ptr res" where
  "get_rnext h p = rbind (load_obj h p) (\<lambda>nd. Inr (rnext nd))"

definition get_rrandom :: "rheap \<Rightarrow> ptr \<Rightarrow> ptr res" where
  "get_rrandom h p = rbind (load_obj h p) (\<lambda>nd. Inr (rrandom nd))"

definition get_rdata :: "rheap \<Rightarrow> ptr \<Rightarrow> int res" where
  "get_rdata h p = rbind (load_obj h p) (\<lambda>nd. Inr (rdata nd))"

definition set_rnext :: "rheap \<Rightarrow> ptr \<Rightarrow> ptr \<Rightarrow> rheap res" where
  "set_rnext h p q = rbind (load_obj h p) (\<lambda>nd. store_obj h p (nd\<lparr>rnext := q\<rparr>))"

definition set_rrandom :: "rheap \<Rightarrow> ptr \<Rightarrow> ptr \<Rightarrow> rheap res" where
  "set_rrandom h p q = rbind (load_obj h p) (\<lambda>nd. store_obj h p (nd\<lparr>rrandom := q\<rparr>))"

text \<open>The loops of \<open>cloneLinkedList2\<close>, one round each, on the store and the current pointers.\<close>

definition weave_body :: "rheap \<times> ptr \<Rightarrow> (rheap \<times> ptr) res" where
  "weave_body s = (case s of (h, cur) \<Rightarrow>
     rbind (get_rdata h cur) (\<lambda>x.
     let (temp, h) = new_rnode x h in
     rbind (get_rnext h cur) (\<lambda>n.
     rbind (set_rnext h (Some temp) n) (\<lambda>h.
     rbind (set_rnext h cur (Some temp)) (\<lambda>h.
     rbind (get_rnext h (Some temp)) (\<lambda>cur. Inr (h, cur)))))))"

definition random_body :: "rheap \<times> ptr \<Rightarrow> (rheap \<times> ptr) res" where
  "random_body s = (case s of (h, cur) \<Rightarrow>
     rbind (get_rrandom h cur) (\<lambda>r.
     rbind (if r \<noteq> None
            then rbind (get_rnext h cur) (\<lambda>c. rbind (get_rnext h r) (\<lambda>rc. set_rrandom h c rc))
            else Inr h) (\<lambda>h.
     rbind (get_rnext h cur) (\<lambda>c. rbind (get_rnext h c) (\<lambda>cur. Inr (h, cur))))))"

definition skip_next :: "rheap \<Rightarrow> ptr \<Rightarrow> rheap res" where
  "skip_next h p = rbind (get_rnext h p) (\<lambda>n. if n \<noteq> None then rbind (get_rnext h n) (\<lambda>nn. set_rnext h p nn) else set_rnext h p n)"

definition unweave_body :: "rheap \<times> ptr \<times> ptr \<Rightarrow> (rheap \<times> ptr \<times> ptr) res" where
  "unweave_body s = (case s of (h, original, copy) \<Rightarrow>
     rbind (skip_next h original) (\<lambda>h. rbind (skip_next h copy) (\<lambda>h.
     rbind (get_rnext h original) (\<lambda>original. rbind (get_rnext h copy) (\<lambda>copy. Inr (h, original, copy))))))"

definition cloneLinkedList2 :: "rheap \<Rightarrow> ptr \<Rightarrow> (ptr \<times> rheap) res option" where
  "cloneLinkedList2 h head =
     (if head = None then Some (Inr (None, h))
      else obind (res_while (\<lambda>(h, cur). cur \<noteq> None) weave_body (h, head)) (\<lambda>(h, _).
           obind (res_while (\<lambda>(h, cur). cur \<noteq> None) random_body (h, head)) (\<lambda>(h, _).
           obind (Some (get_rnext h head)) (\<lambda>copy.
           obind (res_while (\<lambda>(h, original, copy). original \<noteq> None \<and> copy \<noteq> None) unweave_body (h, head, copy)) (\<lambda>(h, _).
           Some (Inr (copy, h)))))))"

text \<open>\<open>operator[]\<close> of the hash map inserts a null pointer for a key that is not there.\<close>

type_synonym node_map = "ptr \<Rightarrow> ptr option"

definition mp_at :: "node_map \<Rightarrow> ptr \<Rightarrow> ptr \<times> node_map" where
  "mp_at mp k = (case mp k of Some v \<Rightarrow> (v, mp) | None \<Rightarrow> (None, mp(k \<mapsto> None)))"

definition copy_body :: "rheap \<times> node_map \<times> ptr \<Rightarrow> (rheap \<times> node_map \<times> ptr) res" where
  "copy_body s = (case s of (h, mp, cur) \<Rightarrow>
     rbind (get_rdata h cur) (\<lambda>x.
     let (node, h) = new_rnode x h; mp = mp(cur \<mapsto> Some node) in
     rbind (get_rnext h cur) (\<lambda>cur. Inr (h, mp, cur))))"

definition link_body :: "rheap \<times> node_map \<times> ptr \<Rightarrow> (rheap \<times> node_map \<times> ptr) res" where
  "link_body s = (case s of (h, mp, cur) \<Rightarrow>
     let (newNode, mp) = mp_at mp cur in
     rbind (get_rnext h cur) (\<lambda>n. let (v, mp) = mp_at mp n in
     rbind (set_rnext h newNode v) (\<lambda>h.
     rbind (get_rrandom h cur) (\<lambda>r. let (w, mp) = mp_at mp r in
     rbind (set_rrandom h newNode w) (\<lambda>h.
     rbind (get_rnext h cur) (\<lambda>cur. Inr (h, mp, cur)))))))"

definition cloneLinkedList :: "rheap \<Rightarrow> ptr \<Rightarrow> (ptr \<times> rheap) res option" where
  "cloneLinkedList h head =
     obind (res_while (\<lambda>(h, mp, cur). cur \<noteq> None) copy_body (h, Map.empty, head)) (\<lambda>(h, mp, _).
     obind (res_while (\<lambda>(h, mp, cur). cur \<noteq> None) link_body (h, mp, head)) (\<lambda>(h, mp, _).
     Some (Inr (fst (mp_at mp head), h))))"

text \<open>\<open>printList\<close> as the list of what it prints per node: the data, and the data of the random node or nothing for null.\<close>

definition print_body :: "rheap \<Rightarrow> (int \<times> int option) list \<times> ptr \<Rightarrow> ((int \<times> int option) list \<times> ptr) res" where
  "print_body h s = (case s of (out, head) \<Rightarrow>
     rbind (get_rdata h head) (\<lambda>x. rbind (get_rrandom h head) (\<lambda>r.
     rbind (if r \<noteq> None then rbind (get_rdata h r) (\<lambda>y. Inr (Some y)) else Inr None) (\<lambda>y.
     rbind (get_rnext h head) (\<lambda>n. Inr (out @ [(x, y)], n))))))"

definition printList :: "rheap \<Rightarrow> ptr \<Rightarrow> (int \<times> int option) list res option" where
  "printList h head = obind (res_while (\<lambda>(out, head). head \<noteq> None) (print_body h) ([], head)) (\<lambda>(out, _). Some (Inr out))"

definition clone_example :: rheap where
  "clone_example = \<lparr>cells = [0 \<mapsto> \<lparr>rdata = 1, rnext = Some 1, rrandom = Some 2\<rparr>,
     1 \<mapsto> \<lparr>rdata = 2, rnext = Some 2, rrandom = Some 0\<rparr>, 2 \<mapsto> \<lparr>rdata = 3, rnext = Some 3, rrandom = Some 4\<rparr>,
     3 \<mapsto> \<lparr>rdata = 4, rnext = Some 4, rrandom = Some 2\<rparr>, 4 \<mapsto> \<lparr>rdata = 5, rnext = None, rrandom = Some 1\<rparr>], brk = 5\<rparr>"

definition cloneLinkedList_main :: "((int \<times> int option) list \<times> (int \<times> int option) list) res option" where
  "cloneLinkedList_main =
     obind (printList clone_example (Some 0)) (\<lambda>out1.
     obind (cloneLinkedList clone_example (Some 0)) (\<lambda>(clonedList, h).
     obind (printList h clonedList) (\<lambda>out2. Some (Inr (out1, out2)))))"

section \<open>Lists with random pointers\<close>

text \<open>The nodes \<open>as\<close> from \<open>p\<close> on; \<open>nd i\<close> is the object at position \<open>i\<close>.\<close>

definition random_list :: "(addr \<Rightarrow> rnode option) \<Rightarrow> ptr \<Rightarrow> addr list \<Rightarrow> bool" where
  "random_list c p as \<longleftrightarrow> distinct as \<and> p = ptr_at as 0 \<and>
     (\<forall>i<length as. \<exists>nd. c (as ! i) = Some nd \<and> rnext nd = ptr_at as (Suc i) \<and> (\<forall>a. rrandom nd = Some a \<longrightarrow> a \<in> set as))"

text \<open>The copy of a pointer into the list, for copies at \<open>bs\<close>.\<close>

definition copied :: "addr list \<Rightarrow> addr list \<Rightarrow> ptr \<Rightarrow> ptr" where
  "copied as bs p = Option.bind p (map_of (zip as bs))"

definition copied_node :: "addr list \<Rightarrow> addr list \<Rightarrow> rnode \<Rightarrow> rnode" where
  "copied_node as bs nd = \<lparr>rdata = rdata nd, rnext = copied as bs (rnext nd), rrandom = copied as bs (rrandom nd)\<rparr>"

text \<open>The contract of both functions: fresh nodes \<open>bs\<close> hold the nodes \<open>as\<close> with every pointer replaced by its copy; nothing else changes.\<close>

definition is_clone :: "(addr \<Rightarrow> rnode option) \<Rightarrow> addr list \<Rightarrow> (addr \<Rightarrow> rnode option) \<Rightarrow> addr list \<Rightarrow> bool" where
  "is_clone c as c' bs \<longleftrightarrow> distinct bs \<and> length bs = length as \<and> (\<forall>b\<in>set bs. c b = None) \<and>
     (\<forall>i<length as. c' (bs ! i) = map_option (copied_node as bs) (c (as ! i))) \<and> (\<forall>a. a \<notin> set bs \<longrightarrow> c' a = c a)"

lemma copied_nth: "distinct as \<Longrightarrow> length bs = length as \<Longrightarrow> i < length as \<Longrightarrow> copied as bs (Some (as ! i)) = Some (bs ! i)"
  by (simp add: copied_def map_of_zip_nth)

lemma copied_ptr_at: "distinct as \<Longrightarrow> length bs = length as \<Longrightarrow> copied as bs (ptr_at as i) = ptr_at bs i"
  using copied_nth [of as bs i] by (auto simp: ptr_at_def) (simp add: copied_def)

section \<open>The store during the loops\<close>

text \<open>
  \<open>layout c as B h F G m\<close>: the originals are \<open>F\<close>, the \<open>m\<close> copies made so far are \<open>G\<close>, at the addresses from \<open>B\<close> on, and all other
  cells are as in \<open>c\<close>.
\<close>

definition layout :: "(addr \<Rightarrow> rnode option) \<Rightarrow> addr list \<Rightarrow> addr \<Rightarrow> rheap \<Rightarrow> (nat \<Rightarrow> rnode) \<Rightarrow> (nat \<Rightarrow> rnode) \<Rightarrow> nat \<Rightarrow> bool" where
  "layout c as B h F G m \<longleftrightarrow> distinct as \<and> (\<forall>a\<in>set as. a < B) \<and> brk h = B + m \<and>
     (\<forall>i<length as. cells h (as ! i) = Some (F i)) \<and> (\<forall>j<m. cells h (B + j) = Some (G j)) \<and>
     (\<forall>a. a \<notin> set as \<longrightarrow> a < B \<or> B + m \<le> a \<longrightarrow> cells h a = c a)"

lemma layout_eq:
  "layout c as B h F G m \<Longrightarrow> (\<And>i. i < length as \<Longrightarrow> F' i = F i) \<Longrightarrow> (\<And>j. j < m \<Longrightarrow> G' j = G j) \<Longrightarrow> layout c as B h F' G' m"
  by (simp add: layout_def)

lemma layout_original:
  assumes "layout c as B h F G m" "i < length as"
  shows "cells h (as ! i) = Some (F i)" "layout c as B (h\<lparr>cells := (cells h)(as ! i \<mapsto> nd)\<rparr>) (F(i := nd)) G m"
  using assms by (auto simp: layout_def nth_eq_iff_index_eq) (metis nth_mem not_add_less1)

lemma layout_copy:
  assumes "layout c as B h F G m" "j < m"
  shows "cells h (B + j) = Some (G j)" "layout c as B (h\<lparr>cells := (cells h)(B + j \<mapsto> nd)\<rparr>) F (G(j := nd)) m"
  using assms by (auto simp: layout_def) (metis nth_mem not_add_less1)

lemma layout_new:
  assumes "layout c as B h F G m" "new_rnode x h = (b, h')"
  shows "b = B + m" "layout c as B h' F (G(m := \<lparr>rdata = x, rnext = None, rrandom = None\<rparr>)) (Suc m)"
  using assms by (auto simp: layout_def new_rnode_def new_obj_def less_Suc_eq) (metis nth_mem not_add_less1 less_not_refl)

lemma rnode_access [simp]:
  assumes "cells h a = Some nd"
  shows "get_rnext h (Some a) = Inr (rnext nd)" "get_rrandom h (Some a) = Inr (rrandom nd)" "get_rdata h (Some a) = Inr (rdata nd)"
    "set_rnext h (Some a) q = Inr (h\<lparr>cells := (cells h)(a \<mapsto> nd\<lparr>rnext := q\<rparr>)\<rparr>)"
    "set_rrandom h (Some a) q = Inr (h\<lparr>cells := (cells h)(a \<mapsto> nd\<lparr>rrandom := q\<rparr>)\<rparr>)"
  using assms by (simp_all add: get_rnext_def get_rrandom_def get_rdata_def set_rnext_def set_rrandom_def)

text \<open>Rounds move the boundary between the positions already treated and the others.\<close>

lemma upd_boundary: "(\<lambda>i. if i < k then f i else g i)(k := f k) = (\<lambda>i. if i < Suc k then f i else g i)" for k :: nat
  by (auto simp: fun_eq_iff less_Suc_eq)

definition node_at :: "(addr \<Rightarrow> rnode option) \<Rightarrow> addr list \<Rightarrow> nat \<Rightarrow> rnode" where
  "node_at c as i = the (c (as ! i))"

definition woven :: "(addr \<Rightarrow> rnode option) \<Rightarrow> addr list \<Rightarrow> addr \<Rightarrow> nat \<Rightarrow> rnode" where
  "woven c as B i = (node_at c as i)\<lparr>rnext := Some (B + i)\<rparr>"

definition half_copy :: "(addr \<Rightarrow> rnode option) \<Rightarrow> addr list \<Rightarrow> nat \<Rightarrow> rnode" where
  "half_copy c as j = (node_at c as j)\<lparr>rrandom := None\<rparr>"

definition random_copy :: "(addr \<Rightarrow> rnode option) \<Rightarrow> addr list \<Rightarrow> addr \<Rightarrow> nat \<Rightarrow> rnode" where
  "random_copy c as B j = (node_at c as j)\<lparr>rrandom := copied as [B..<B + length as] (rrandom (node_at c as j))\<rparr>"

definition full_copy :: "(addr \<Rightarrow> rnode option) \<Rightarrow> addr list \<Rightarrow> addr \<Rightarrow> nat \<Rightarrow> rnode" where
  "full_copy c as B j = copied_node as [B..<B + length as] (node_at c as j)"

lemma random_listD:
  assumes "random_list c p as" "i < length as"
  shows "c (as ! i) = Some (node_at c as i)" "rnext (node_at c as i) = ptr_at as (Suc i)"
    "rrandom (node_at c as i) = Some a \<Longrightarrow> \<exists>j<length as. a = as ! j"
  using assms unfolding random_list_def node_at_def by (fastforce simp: in_set_conv_nth)+

lemma ptr_at_nth: "i < length as \<Longrightarrow> ptr_at as i = Some (as ! i)" "ptr_at as (length as) = None"
  by (simp_all add: ptr_at_def)

lemma copied_random:
  assumes "random_list c p as" "i < length as" "rrandom (node_at c as i) = Some a"
  shows "\<exists>j<length as. a = as ! j \<and> copied as [B..<B + length as] (Some a) = Some (B + j)"
proof -
  obtain j where j: "j < length as" "a = as ! j" using random_listD(3) [OF assms] by blast
  have "copied as [B..<B + length as] (Some (as ! j)) = Some ([B..<B + length as] ! j)"
    using assms(1) j(1) by (intro copied_nth) (auto simp: random_list_def)
  then show ?thesis using j by auto
qed

section \<open>Weaving\<close>

lemma weave_round:
  assumes rl: "random_list c p as" and k: "k < length as"
    and lay: "layout c as B h (\<lambda>i. if i < k then woven c as B i else node_at c as i) (half_copy c as) k"
  shows "\<exists>h'. weave_body (h, Some (as ! k)) = Inr (h', ptr_at as (Suc k)) \<and>
    layout c as B h' (\<lambda>i. if i < Suc k then woven c as B i else node_at c as i) (half_copy c as) (Suc k)"
proof -
  let ?F = "\<lambda>i. if i < k then woven c as B i else node_at c as i" and ?n = "node_at c as k"
  obtain b h1 where new: "new_rnode (rdata ?n) h = (b, h1)" by fastforce
  note l1 = layout_new [OF lay new]
  have orig: "cells h (as ! k) = Some ?n" using layout_original(1) [OF lay k] by simp
  have orig1: "cells h1 (as ! k) = Some ?n" using layout_original(1) [OF l1(2) k] by simp
  note copy1 = layout_copy(1) [OF l1(2) lessI]
  note l2 = layout_copy(2) [OF l1(2) lessI, of "\<lparr>rdata = rdata ?n, rnext = ptr_at as (Suc k), rrandom = None\<rparr>"]
  have half: "half_copy c as k = \<lparr>rdata = rdata ?n, rnext = ptr_at as (Suc k), rrandom = None\<rparr>"
    using random_listD(2) [OF rl k] by (simp add: half_copy_def)
  let ?h2 = "h1\<lparr>cells := (cells h1)(B + k \<mapsto> half_copy c as k)\<rparr>"
  have l2': "layout c as B ?h2 ?F (half_copy c as) (Suc k)" using l2 by (simp add: half [symmetric])
  have orig2: "cells ?h2 (as ! k) = Some ?n" using layout_original(1) [OF l2' k] by simp
  note l3 = layout_original(2) [OF l2' k, of "woven c as B k"]
  let ?h3 = "?h2\<lparr>cells := (cells ?h2)(as ! k \<mapsto> woven c as B k)\<rparr>"
  have l3': "layout c as B ?h3 (\<lambda>i. if i < Suc k then woven c as B i else node_at c as i) (half_copy c as) (Suc k)"
    using l3 unfolding upd_boundary .
  have copy3: "cells ?h3 (B + k) = Some (half_copy c as k)" using layout_copy(1) [OF l3' lessI] .
  have "set_rnext h1 (Some (B + k)) (ptr_at as (Suc k)) = Inr ?h2" using copy1 half by simp
  moreover have "set_rnext ?h2 (Some (as ! k)) (Some (B + k)) = Inr ?h3"
    using rnode_access(4) [OF orig2, of "Some (B + k)"] by (simp add: woven_def)
  moreover have "get_rnext ?h3 (Some (B + k)) = Inr (ptr_at as (Suc k))" using rnode_access(1) [OF copy3] half by simp
  ultimately have "weave_body (h, Some (as ! k)) = Inr (?h3, ptr_at as (Suc k))"
    unfolding weave_body_def using rnode_access(3) [OF orig] rnode_access(1) [OF orig1] random_listD(2) [OF rl k] new l1(1)
    by (simp del: rbind_eq_Inr fun_upd_apply)
  then show ?thesis using l3' by blast
qed

lemma random_round:
  assumes rl: "random_list c p as" and k: "k < length as"
    and lay: "layout c as B h (woven c as B) (\<lambda>j. if j < k then random_copy c as B j else half_copy c as j) (length as)"
  shows "\<exists>h'. random_body (h, Some (as ! k)) = Inr (h', ptr_at as (Suc k)) \<and>
    layout c as B h' (woven c as B) (\<lambda>j. if j < Suc k then random_copy c as B j else half_copy c as j) (length as)"
proof -
  let ?n = "node_at c as k" and ?G = "\<lambda>j. if j < Suc k then random_copy c as B j else half_copy c as j"
  have orig: "cells h (as ! i) = Some (woven c as B i)" if "i < length as" for i using layout_original(1) [OF lay that] .
  have copy: "cells h (B + k) = Some (half_copy c as k)" using layout_copy(1) [OF lay k] by simp
  have rcopy: "random_copy c as B k = (half_copy c as k)\<lparr>rrandom := copied as [B..<B + length as] (rrandom ?n)\<rparr>"
    by (simp add: random_copy_def half_copy_def)
  have next': "get_rnext h' (Some (as ! k)) = Inr (Some (B + k)) \<and> get_rnext h' (Some (B + k)) = Inr (ptr_at as (Suc k))"
    if "layout c as B h' (woven c as B) ?G (length as)" for h'
    using rnode_access(1) [OF layout_original(1) [OF that k]] rnode_access(1) [OF layout_copy(1) [OF that k]] random_listD(2) [OF rl k]
    by (simp add: woven_def random_copy_def)
  have rand: "get_rrandom h (Some (as ! k)) = Inr (rrandom ?n)" using rnode_access(2) [OF orig [OF k]] by (simp add: woven_def)
  show ?thesis
  proof (cases "rrandom ?n")
    case None
    then have "random_copy c as B k = half_copy c as k" by (simp add: rcopy copied_def half_copy_def)
    then have eq: "(\<lambda>j. if j < k then random_copy c as B j else half_copy c as j) = ?G" by (auto simp: fun_eq_iff less_Suc_eq)
    have lay': "layout c as B h (woven c as B) ?G (length as)" using lay unfolding eq .
    then have "random_body (h, Some (as ! k)) = Inr (h, ptr_at as (Suc k))"
      unfolding random_body_def using rand next' None by (simp del: rbind_eq_Inr)
    then show ?thesis using lay' by blast
  next
    case (Some a)
    obtain r where r: "r < length as" "a = as ! r" "copied as [B..<B + length as] (Some a) = Some (B + r)"
      using copied_random [OF rl k Some] by blast
    let ?h' = "h\<lparr>cells := (cells h)(B + k \<mapsto> random_copy c as B k)\<rparr>"
    have lay': "layout c as B ?h' (woven c as B) ?G (length as)"
      using layout_copy(2) [OF lay k, of "random_copy c as B k"] unfolding upd_boundary .
    have nexts: "get_rnext h (Some (as ! k)) = Inr (Some (B + k))" "get_rnext h (Some a) = Inr (Some (B + r))"
      using rnode_access(1) [OF orig [OF k]] rnode_access(1) [OF orig [OF r(1)]] r(2) by (simp_all add: woven_def)
    have "set_rrandom h (Some (B + k)) (Some (B + r)) = Inr ?h'" using rnode_access(5) [OF copy] rcopy Some r(3) by simp
    then have "random_body (h, Some (as ! k)) = Inr (?h', ptr_at as (Suc k))"
      unfolding random_body_def using rand next' [OF lay'] nexts Some by (simp del: rbind_eq_Inr fun_upd_apply)
    then show ?thesis using lay' by blast
  qed
qed

lemma unweave_round:
  assumes rl: "random_list c p as" and k: "k < length as"
    and lay: "layout c as B h (\<lambda>i. if i < k then node_at c as i else woven c as B i)
       (\<lambda>j. if j < k then full_copy c as B j else random_copy c as B j) (length as)"
  shows "\<exists>h'. unweave_body (h, Some (as ! k), Some (B + k)) = Inr (h', ptr_at as (Suc k), ptr_at [B..<B + length as] (Suc k)) \<and>
    layout c as B h' (\<lambda>i. if i < Suc k then node_at c as i else woven c as B i)
      (\<lambda>j. if j < Suc k then full_copy c as B j else random_copy c as B j) (length as)"
proof -
  let ?n = "node_at c as k" and ?F = "\<lambda>i. if i < Suc k then node_at c as i else woven c as B i"
    and ?G = "\<lambda>j. if j < Suc k then full_copy c as B j else random_copy c as B j"
  have dist: "distinct as" using rl by (simp add: random_list_def)
  have n: "rnext ?n = ptr_at as (Suc k)" by (rule random_listD(2) [OF rl k])
  have orig: "cells h (as ! k) = Some (woven c as B k)" using layout_original(1) [OF lay k] by simp
  have copy: "cells h (B + k) = Some (random_copy c as B k)" using layout_copy(1) [OF lay k] by simp
  let ?h1 = "h\<lparr>cells := (cells h)(as ! k \<mapsto> node_at c as k)\<rparr>"
  have l1: "layout c as B ?h1 ?F (\<lambda>j. if j < k then full_copy c as B j else random_copy c as B j) (length as)"
    using layout_original(2) [OF lay k, of "node_at c as k"] unfolding upd_boundary .
  have upd: "(woven c as B k)\<lparr>rnext := ptr_at as (Suc k)\<rparr> = ?n" using n by (cases ?n) (simp add: woven_def)
  have set1: "set_rnext h (Some (as ! k)) (ptr_at as (Suc k)) = Inr ?h1" using rnode_access(4) [OF orig, of "ptr_at as (Suc k)"] unfolding upd .
  have skip1: "skip_next h (Some (as ! k)) = Inr ?h1"
    unfolding skip_next_def using rnode_access(1) [OF orig] rnode_access(1) [OF copy] n set1 by (simp add: woven_def random_copy_def del: rbind_eq_Inr fun_upd_apply)
  have copy1: "cells ?h1 (B + k) = Some (random_copy c as B k)" using layout_copy(1) [OF l1 k] by simp
  let ?h2 = "?h1\<lparr>cells := (cells ?h1)(B + k \<mapsto> full_copy c as B k)\<rparr>"
  have l2: "layout c as B ?h2 ?F ?G (length as)" using layout_copy(2) [OF l1 k, of "full_copy c as B k"] unfolding upd_boundary .
  have bs: "copied as [B..<B + length as] (rnext ?n) = ptr_at [B..<B + length as] (Suc k)" unfolding n by (rule copied_ptr_at [OF dist]) simp
  have full: "(random_copy c as B k)\<lparr>rnext := ptr_at [B..<B + length as] (Suc k)\<rparr> = full_copy c as B k"
    using bs by (simp add: random_copy_def full_copy_def copied_node_def)
  have skip2: "skip_next ?h1 (Some (B + k)) = Inr ?h2"
  proof (cases "Suc k < length as")
    case True
    have "get_rnext ?h1 (Some (as ! Suc k)) = Inr (Some (B + Suc k))"
      using rnode_access(1) [OF layout_original(1) [OF l1 True]] by (simp add: woven_def)
    moreover have "ptr_at [B..<B + length as] (Suc k) = Some (B + Suc k)" "rnext ?n = Some (as ! Suc k)" using True n by (simp_all add: ptr_at_def)
    ultimately show ?thesis
      unfolding skip_next_def using rnode_access(1,4) [OF copy1] full by (simp add: random_copy_def del: rbind_eq_Inr fun_upd_apply)
  next
    case False
    then have "ptr_at [B..<B + length as] (Suc k) = None" "rnext ?n = None" using n by (simp_all add: ptr_at_def)
    then show ?thesis
      unfolding skip_next_def using rnode_access(1,4) [OF copy1] full by (simp add: random_copy_def del: rbind_eq_Inr fun_upd_apply)
  qed
  have "get_rnext ?h2 (Some (as ! k)) = Inr (ptr_at as (Suc k))" using rnode_access(1) [OF layout_original(1) [OF l2 k]] n by simp
  moreover have "get_rnext ?h2 (Some (B + k)) = Inr (ptr_at [B..<B + length as] (Suc k))"
    using rnode_access(1) [OF layout_copy(1) [OF l2 k]] bs by (simp add: full_copy_def copied_node_def)
  ultimately have "unweave_body (h, Some (as ! k), Some (B + k)) = Inr (?h2, ptr_at as (Suc k), ptr_at [B..<B + length as] (Suc k))"
    unfolding unweave_body_def using skip1 skip2 by (simp del: rbind_eq_Inr fun_upd_apply)
  then show ?thesis using l2 by blast
qed

lemma layout_start:
  assumes "heap_ok h" "random_list (cells h) p as"
  shows "layout (cells h) as (brk h) h (node_at (cells h) as) G 0"
  using assms random_listD(1) [OF assms(2)] heap_ok_less [OF assms(1)]
  by (auto simp: layout_def random_list_def in_set_conv_nth)

text \<open>The end of both functions: the originals are as before and the copies are full.\<close>

lemma layout_is_clone:
  assumes ok: "heap_ok h" and rl: "random_list (cells h) p as"
    and lay: "layout (cells h) as (brk h) h' F G (length as)"
    and F: "\<And>i. i < length as \<Longrightarrow> F i = node_at (cells h) as i" and G: "\<And>i. i < length as \<Longrightarrow> G i = full_copy (cells h) as (brk h) i"
  shows "is_clone (cells h) as (cells h') [brk h..<brk h + length as] \<and> heap_ok h'"
proof -
  let ?bs = "[brk h..<brk h + length as]"
  have orig: "cells h' (as ! i) = cells h (as ! i)" if "i < length as" for i
    using layout_original(1) [OF lay that] F [OF that] random_listD(1) [OF rl that] by simp
  have same: "cells h' a = cells h a" if "a \<notin> set ?bs" for a
  proof (cases "a \<in> set as")
    case True
    then show ?thesis using orig by (auto simp: in_set_conv_nth)
  next
    case False
    then show ?thesis using lay that unfolding layout_def by (auto simp: not_less)
  qed
  have copies: "cells h' (?bs ! i) = map_option (copied_node as ?bs) (cells h (as ! i))" if "i < length as" for i
    using layout_copy(1) [OF lay that] G [OF that] random_listD(1) [OF rl that] that by (simp add: full_copy_def)
  have fresh: "\<forall>b\<in>set ?bs. cells h b = None" using ok by (simp add: heap_ok_def)
  have "heap_ok h'" unfolding heap_ok_def
  proof (intro allI impI)
    fix a assume a: "brk h' \<le> a"
    then have "brk h + length as \<le> a" using lay by (simp add: layout_def)
    then show "cells h' a = None" using same [of a] ok by (simp add: heap_ok_def)
  qed
  then show ?thesis unfolding is_clone_def using same copies fresh by simp
qed

lemma weave_phase:
  assumes ok: "heap_ok h" and rl: "random_list (cells h) p as"
  obtains h1 where "res_while (\<lambda>(h, cur). cur \<noteq> None) weave_body (h, p) = Some (Inr (h1, None))"
    "layout (cells h) as (brk h) h1 (woven (cells h) as (brk h)) (half_copy (cells h) as) (length as)"
proof -
  let ?c = "cells h" and ?B = "brk h" and ?N = "length as"
  let ?W = "\<lambda>k (h', cur). layout ?c as ?B h' (\<lambda>i. if i < k then woven ?c as ?B i else node_at ?c as i) (half_copy ?c as) k \<and> cur = ptr_at as k"
  have "\<exists>s'. res_while (\<lambda>(h, cur). cur \<noteq> None) weave_body (h, p) = Some (Inr s') \<and> ?W ?N s'"
  proof (rule res_while_counted [where Inv = ?W and k = 0 and n = ?N])
    show "?W 0 (h, p)" using layout_start [OF ok rl, of "half_copy ?c as"] rl by (simp add: random_list_def)
  next
    fix k s assume k: "k < ?N" "?W k s"
    then show "(case s of (h, cur) \<Rightarrow> cur \<noteq> None) \<and> (\<exists>s'. weave_body s = Inr s' \<and> ?W (Suc k) s')"
      using weave_round [OF rl k(1)] by (fastforce simp: ptr_at_nth)
  qed (auto simp: ptr_at_nth)
  then obtain h1 where "res_while (\<lambda>(h, cur). cur \<noteq> None) weave_body (h, p) = Some (Inr (h1, ptr_at as ?N))" "?W ?N (h1, ptr_at as ?N)" by auto
  then show thesis by (intro that [of h1]) (auto simp: ptr_at_nth elim!: layout_eq)
qed

lemma random_phase:
  assumes rl: "random_list c p as" and lay: "layout c as B h1 (woven c as B) (half_copy c as) (length as)"
  obtains h2 where "res_while (\<lambda>(h, cur). cur \<noteq> None) random_body (h1, p) = Some (Inr (h2, None))"
    "layout c as B h2 (woven c as B) (random_copy c as B) (length as)"
proof -
  let ?N = "length as"
  let ?R = "\<lambda>k (h', cur). layout c as B h' (woven c as B) (\<lambda>j. if j < k then random_copy c as B j else half_copy c as j) ?N \<and> cur = ptr_at as k"
  have "\<exists>s'. res_while (\<lambda>(h, cur). cur \<noteq> None) random_body (h1, p) = Some (Inr s') \<and> ?R ?N s'"
  proof (rule res_while_counted [where Inv = ?R and k = 0 and n = ?N])
    show "?R 0 (h1, p)" using lay rl by (simp add: random_list_def)
  next
    fix k s assume k: "k < ?N" "?R k s"
    then show "(case s of (h, cur) \<Rightarrow> cur \<noteq> None) \<and> (\<exists>s'. random_body s = Inr s' \<and> ?R (Suc k) s')"
      using random_round [OF rl k(1)] by (fastforce simp: ptr_at_nth)
  qed (auto simp: ptr_at_nth)
  then obtain h2 where "res_while (\<lambda>(h, cur). cur \<noteq> None) random_body (h1, p) = Some (Inr (h2, ptr_at as ?N))" "?R ?N (h2, ptr_at as ?N)" by auto
  then show thesis by (intro that [of h2]) (auto simp: ptr_at_nth elim!: layout_eq)
qed

lemma unweave_phase:
  assumes rl: "random_list c p as" and lay: "layout c as B h2 (woven c as B) (random_copy c as B) (length as)"
  obtains h3 q where "res_while (\<lambda>(h, original, copy). original \<noteq> None \<and> copy \<noteq> None) unweave_body (h2, p, ptr_at [B..<B + length as] 0) = Some (Inr (h3, q))"
    "layout c as B h3 (node_at c as) (full_copy c as B) (length as)"
proof -
  let ?N = "length as" and ?bs = "[B..<B + length as]"
  let ?U = "\<lambda>k (h', original, copy). layout c as B h' (\<lambda>i. if i < k then node_at c as i else woven c as B i)
     (\<lambda>j. if j < k then full_copy c as B j else random_copy c as B j) ?N \<and> original = ptr_at as k \<and> copy = ptr_at ?bs k"
  have "\<exists>s'. res_while (\<lambda>(h, original, copy). original \<noteq> None \<and> copy \<noteq> None) unweave_body (h2, p, ptr_at ?bs 0) = Some (Inr s') \<and> ?U ?N s'"
  proof (rule res_while_counted [where Inv = ?U and k = 0 and n = ?N])
    show "?U 0 (h2, p, ptr_at ?bs 0)" using lay rl by (simp add: random_list_def)
  next
    fix k s assume k: "k < ?N" "?U k s"
    have "ptr_at ?bs k = Some (B + k)" using k(1) by (simp add: ptr_at_def)
    then show "(case s of (h, original, copy) \<Rightarrow> original \<noteq> None \<and> copy \<noteq> None) \<and> (\<exists>s'. unweave_body s = Inr s' \<and> ?U (Suc k) s')"
      using unweave_round [OF rl k(1)] k by (fastforce simp: ptr_at_nth)
  qed (auto simp: ptr_at_nth)
  then obtain h3 q where "res_while (\<lambda>(h, original, copy). original \<noteq> None \<and> copy \<noteq> None) unweave_body (h2, p, ptr_at ?bs 0) = Some (Inr (h3, q))"
    "?U ?N (h3, q)" by auto
  then show thesis by (intro that [of h3 q]) (auto elim!: layout_eq)
qed

lemma cloneLinkedList2_ok:
  assumes ok: "heap_ok h" and rl: "random_list (cells h) p as"
  shows "\<exists>h' bs. cloneLinkedList2 h p = Some (Inr (ptr_at bs 0, h')) \<and> is_clone (cells h) as (cells h') bs \<and> heap_ok h'"
proof (cases "as = []")
  case True
  then have "p = None" using rl by (simp add: random_list_def ptr_at_def)
  then show ?thesis using True ok by (intro exI [of _ h] exI [of _ "[]"]) (simp add: cloneLinkedList2_def is_clone_def ptr_at_def)
next
  case False
  let ?B = "brk h" and ?bs = "[brk h..<brk h + length as]"
  have N: "0 < length as" and p: "p = Some (as ! 0)" using False rl by (simp_all add: random_list_def ptr_at_def)
  obtain h1 where h1: "res_while (\<lambda>(h, cur). cur \<noteq> None) weave_body (h, p) = Some (Inr (h1, None))"
    "layout (cells h) as ?B h1 (woven (cells h) as ?B) (half_copy (cells h) as) (length as)" by (rule weave_phase [OF ok rl])
  obtain h2 where h2: "res_while (\<lambda>(h, cur). cur \<noteq> None) random_body (h1, p) = Some (Inr (h2, None))"
    "layout (cells h) as ?B h2 (woven (cells h) as ?B) (random_copy (cells h) as ?B) (length as)" by (rule random_phase [OF rl h1(2)])
  obtain h3 q where h3: "res_while (\<lambda>(h, original, copy). original \<noteq> None \<and> copy \<noteq> None) unweave_body (h2, p, ptr_at ?bs 0) = Some (Inr (h3, q))"
    "layout (cells h) as ?B h3 (node_at (cells h) as) (full_copy (cells h) as ?B) (length as)" by (rule unweave_phase [OF rl h2(2)])
  have copy: "get_rnext h2 p = Inr (ptr_at ?bs 0)"
    using rnode_access(1) [OF layout_original(1) [OF h2(2) N]] p N by (simp add: woven_def ptr_at_def)
  have "cloneLinkedList2 h p = Some (Inr (ptr_at ?bs 0, h3))" unfolding cloneLinkedList2_def using h1(1) h2(1) copy h3(1) p by simp
  moreover have "is_clone (cells h) as (cells h3) ?bs \<and> heap_ok h3" by (rule layout_is_clone [OF ok rl h3(2)]) auto
  ultimately show ?thesis by blast
qed

section \<open>Copying through the map\<close>

definition blank_copy :: "(addr \<Rightarrow> rnode option) \<Rightarrow> addr list \<Rightarrow> nat \<Rightarrow> rnode" where
  "blank_copy c as j = \<lparr>rdata = rdata (node_at c as j), rnext = None, rrandom = None\<rparr>"

definition node_map_ok :: "node_map \<Rightarrow> addr list \<Rightarrow> addr \<Rightarrow> nat \<Rightarrow> bool" where
  "node_map_ok mp as B k \<longleftrightarrow> (\<forall>j<k. mp (Some (as ! j)) = Some (Some (B + j))) \<and> (mp None = None \<or> mp None = Some None)"

lemma mp_at_copied:
  assumes "node_map_ok mp as B (length as)" "distinct as" "\<And>a. q = Some a \<Longrightarrow> a \<in> set as"
  shows "\<exists>mp'. mp_at mp q = (copied as [B..<B + length as] q, mp') \<and> node_map_ok mp' as B (length as)"
proof (cases q)
  case None
  then show ?thesis using assms(1) by (auto simp: mp_at_def copied_def node_map_ok_def)
next
  case (Some a)
  then obtain j where j: "j < length as" "a = as ! j" using assms(3) by (auto simp: in_set_conv_nth)
  have "copied as [B..<B + length as] (Some (as ! j)) = Some ([B..<B + length as] ! j)" by (rule copied_nth) (use assms(2) j in auto)
  then show ?thesis using assms(1) j Some by (auto simp: mp_at_def node_map_ok_def)
qed

lemma copy_round:
  assumes rl: "random_list c p as" and k: "k < length as" and lay: "layout c as B h (node_at c as) (blank_copy c as) k" and mp: "node_map_ok mp as B k"
  shows "\<exists>h' mp'. copy_body (h, mp, Some (as ! k)) = Inr (h', mp', ptr_at as (Suc k)) \<and>
    layout c as B h' (node_at c as) (blank_copy c as) (Suc k) \<and> node_map_ok mp' as B (Suc k)"
proof -
  let ?n = "node_at c as k"
  obtain b h1 where new: "new_rnode (rdata ?n) h = (b, h1)" by fastforce
  note l1 = layout_new [OF lay new]
  have "(blank_copy c as)(k := \<lparr>rdata = rdata ?n, rnext = None, rrandom = None\<rparr>) = blank_copy c as" by (auto simp: blank_copy_def)
  then have lay1: "layout c as B h1 (node_at c as) (blank_copy c as) (Suc k)" using l1(2) by (simp only:)
  have "distinct as" using rl by (simp add: random_list_def)
  then have "node_map_ok (mp(Some (as ! k) \<mapsto> Some (B + k))) as B (Suc k)"
    using mp k by (auto simp: node_map_ok_def less_Suc_eq nth_eq_iff_index_eq)
  moreover have "copy_body (h, mp, Some (as ! k)) = Inr (h1, mp(Some (as ! k) \<mapsto> Some (B + k)), ptr_at as (Suc k))"
    using rnode_access(3) [OF layout_original(1) [OF lay k]] rnode_access(1) [OF layout_original(1) [OF lay1 k]] new l1(1) random_listD(2) [OF rl k]
    by (simp add: copy_body_def del: rbind_eq_Inr)
  ultimately show ?thesis using lay1 by blast
qed

lemma link_round:
  assumes rl: "random_list c p as" and k: "k < length as"
    and lay: "layout c as B h (node_at c as) (\<lambda>j. if j < k then full_copy c as B j else blank_copy c as j) (length as)"
    and mp: "node_map_ok mp as B (length as)"
  shows "\<exists>h' mp'. link_body (h, mp, Some (as ! k)) = Inr (h', mp', ptr_at as (Suc k)) \<and>
    layout c as B h' (node_at c as) (\<lambda>j. if j < Suc k then full_copy c as B j else blank_copy c as j) (length as) \<and> node_map_ok mp' as B (length as)"
proof -
  let ?n = "node_at c as k" and ?bs = "[B..<B + length as]"
  have dist: "distinct as" using rl by (simp add: random_list_def)
  have bk: "copied as ?bs (Some (as ! k)) = Some (B + k)" using copied_nth [of as ?bs k] dist k by simp
  have nx: "\<And>a. rnext ?n = Some a \<Longrightarrow> a \<in> set as" using random_listD(2) [OF rl k] by (auto simp: ptr_at_def split: if_splits)
  have rn: "\<And>a. rrandom ?n = Some a \<Longrightarrow> a \<in> set as" using random_listD(3) [OF rl k] by auto
  obtain mp1 where mp1: "mp_at mp (Some (as ! k)) = (Some (B + k), mp1)" "node_map_ok mp1 as B (length as)"
    using mp_at_copied [OF mp dist, of "Some (as ! k)"] k bk by auto
  obtain mp2 where mp2: "mp_at mp1 (rnext ?n) = (copied as ?bs (rnext ?n), mp2)" "node_map_ok mp2 as B (length as)"
    using mp_at_copied [OF mp1(2) dist nx] by blast
  obtain mp3 where mp3: "mp_at mp2 (rrandom ?n) = (copied as ?bs (rrandom ?n), mp3)" "node_map_ok mp3 as B (length as)"
    using mp_at_copied [OF mp2(2) dist rn] by blast
  let ?nd1 = "(blank_copy c as k)\<lparr>rnext := copied as ?bs (rnext ?n)\<rparr>"
  let ?h1 = "h\<lparr>cells := (cells h)(B + k \<mapsto> ?nd1)\<rparr>"
  let ?h2 = "?h1\<lparr>cells := (cells ?h1)(B + k \<mapsto> full_copy c as B k)\<rparr>"
  let ?G = "\<lambda>j. if j < k then full_copy c as B j else blank_copy c as j"
  have copy: "cells h (B + k) = Some (blank_copy c as k)" using layout_copy(1) [OF lay k] by simp
  have l1: "layout c as B ?h1 (node_at c as) (?G(k := ?nd1)) (length as)" by (rule layout_copy(2) [OF lay k])
  have copy1: "cells ?h1 (B + k) = Some ?nd1" by simp
  have upd: "?nd1\<lparr>rrandom := copied as ?bs (rrandom ?n)\<rparr> = full_copy c as B k" by (simp add: blank_copy_def full_copy_def copied_node_def)
  have set2: "set_rrandom ?h1 (Some (B + k)) (copied as ?bs (rrandom ?n)) = Inr ?h2" using rnode_access(5) [OF copy1, of "copied as ?bs (rrandom ?n)"] unfolding upd .
  have l2: "layout c as B ?h2 (node_at c as) (\<lambda>j. if j < Suc k then full_copy c as B j else blank_copy c as j) (length as)"
    using layout_copy(2) [OF l1 k, of "full_copy c as B k"] unfolding fun_upd_upd upd_boundary .
  have "link_body (h, mp, Some (as ! k)) = Inr (?h2, mp3, ptr_at as (Suc k))"
    unfolding link_body_def
    using mp1(1) mp2(1) mp3(1) rnode_access(1) [OF layout_original(1) [OF lay k]] rnode_access(4) [OF copy, of "copied as ?bs (rnext ?n)"]
      rnode_access(2) [OF layout_original(1) [OF l1 k]] set2 rnode_access(1) [OF layout_original(1) [OF l2 k]] random_listD(2) [OF rl k]
    by (simp del: rbind_eq_Inr fun_upd_apply)
  then show ?thesis using l2 mp3(2) by blast
qed

lemma cloneLinkedList_ok:
  assumes ok: "heap_ok h" and rl: "random_list (cells h) p as"
  shows "\<exists>h' bs. cloneLinkedList h p = Some (Inr (ptr_at bs 0, h')) \<and> is_clone (cells h) as (cells h') bs \<and> heap_ok h'"
proof -
  let ?c = "cells h" and ?B = "brk h" and ?N = "length as" and ?bs = "[brk h..<brk h + length as]"
  have p: "p = ptr_at as 0" and dist: "distinct as" using rl by (simp_all add: random_list_def)
  let ?C = "\<lambda>k (h', mp, cur). layout ?c as ?B h' (node_at ?c as) (blank_copy ?c as) k \<and> node_map_ok mp as ?B k \<and> cur = ptr_at as k"
  have "\<exists>s'. res_while (\<lambda>(h, mp, cur). cur \<noteq> None) copy_body (h, Map.empty, p) = Some (Inr s') \<and> ?C ?N s'"
  proof (rule res_while_counted [where Inv = ?C and k = 0 and n = ?N])
    show "?C 0 (h, Map.empty, p)" using layout_start [OF ok rl, of "blank_copy ?c as"] p by (simp add: node_map_ok_def)
  next
    fix k s assume k: "k < ?N" "?C k s"
    then show "(case s of (h, mp, cur) \<Rightarrow> cur \<noteq> None) \<and> (\<exists>s'. copy_body s = Inr s' \<and> ?C (Suc k) s')"
      using copy_round [OF rl k(1)] by (fastforce simp: ptr_at_nth)
  qed (auto simp: ptr_at_nth)
  then obtain h1 mp1 where h1: "res_while (\<lambda>(h, mp, cur). cur \<noteq> None) copy_body (h, Map.empty, p) = Some (Inr (h1, mp1, ptr_at as ?N))"
    "?C ?N (h1, mp1, ptr_at as ?N)" by auto
  let ?L = "\<lambda>k (h', mp, cur). layout ?c as ?B h' (node_at ?c as) (\<lambda>j. if j < k then full_copy ?c as ?B j else blank_copy ?c as j) ?N \<and>
     node_map_ok mp as ?B ?N \<and> cur = ptr_at as k"
  have "\<exists>s'. res_while (\<lambda>(h, mp, cur). cur \<noteq> None) link_body (h1, mp1, p) = Some (Inr s') \<and> ?L ?N s'"
  proof (rule res_while_counted [where Inv = ?L and k = 0 and n = ?N])
    show "?L 0 (h1, mp1, p)" using h1(2) p by simp
  next
    fix k s assume k: "k < ?N" "?L k s"
    then show "(case s of (h, mp, cur) \<Rightarrow> cur \<noteq> None) \<and> (\<exists>s'. link_body s = Inr s' \<and> ?L (Suc k) s')"
      using link_round [OF rl k(1)] by (fastforce simp: ptr_at_nth)
  qed (auto simp: ptr_at_nth)
  then obtain h2 mp2 where h2: "res_while (\<lambda>(h, mp, cur). cur \<noteq> None) link_body (h1, mp1, p) = Some (Inr (h2, mp2, ptr_at as ?N))"
    "?L ?N (h2, mp2, ptr_at as ?N)" by auto
  have head: "fst (mp_at mp2 p) = ptr_at ?bs 0"
    using mp_at_copied [of mp2 as ?B p] h2(2) dist copied_ptr_at [OF dist, of ?bs 0] unfolding p by (auto simp: ptr_at_def split: if_splits)
  have lay: "layout ?c as ?B h2 (node_at ?c as) (full_copy ?c as ?B) ?N" using h2(2) by (auto elim!: layout_eq)
  have "cloneLinkedList h p = Some (Inr (ptr_at ?bs 0, h2))" unfolding cloneLinkedList_def using h1(1) h2(1) head by simp
  moreover have "is_clone ?c as (cells h2) ?bs \<and> heap_ok h2" by (rule layout_is_clone [OF ok rl lay]) auto
  ultimately show ?thesis by blast
qed

section \<open>Clones are lists that print the same\<close>

definition printed :: "(addr \<Rightarrow> rnode option) \<Rightarrow> addr list \<Rightarrow> (int \<times> int option) list" where
  "printed c as = map (\<lambda>a. (rdata (the (c a)), map_option (\<lambda>r. rdata (the (c r))) (rrandom (the (c a))))) as"

lemma printList_ok:
  assumes rl: "random_list (cells h) p as"
  shows "printList h p = Some (Inr (printed (cells h) as))"
proof -
  let ?I = "\<lambda>k (out, q). out = printed (cells h) (take k as) \<and> q = ptr_at as k"
  have "\<exists>s'. res_while (\<lambda>(out, head). head \<noteq> None) (print_body h) ([], p) = Some (Inr s') \<and> ?I (length as) s'"
  proof (rule res_while_counted [where Inv = ?I and k = 0 and n = "length as"])
    show "?I 0 ([], p)" using rl by (simp add: printed_def random_list_def)
  next
    fix k s assume k: "k < length as" "?I k s"
    let ?n = "node_at (cells h) as k"
    have cell: "cells h (as ! k) = Some ?n" by (rule random_listD(1) [OF rl k(1)])
    have "\<exists>nd. cells h r = Some nd" if "rrandom ?n = Some r" for r
      using random_listD(3) [OF rl k(1) that] random_listD(1) [OF rl] by auto
    then have rand: "rbind (get_rrandom h (Some (as ! k))) (\<lambda>r. if r \<noteq> None then rbind (get_rdata h r) (\<lambda>y. Inr (Some y)) else Inr None) =
        Inr (map_option (\<lambda>r. rdata (the (cells h r))) (rrandom ?n))"
      using rnode_access(2) [OF cell] rnode_access(3) by (cases "rrandom ?n") auto
    have "print_body h (printed (cells h) (take k as), Some (as ! k)) = Inr (printed (cells h) (take (Suc k) as), ptr_at as (Suc k))"
      using rand rnode_access(1-3) [OF cell] random_listD(2) [OF rl k(1)] k(1) cell
      by (simp add: print_body_def printed_def take_Suc_conv_app_nth del: rbind_eq_Inr)
    then show "(case s of (out, head) \<Rightarrow> head \<noteq> None) \<and> (\<exists>s'. print_body h s = Inr s' \<and> ?I (Suc k) s')"
      using k by (auto simp: ptr_at_nth)
  qed (auto simp: ptr_at_nth)
  then show ?thesis by (auto simp: printList_def)
qed

lemma clone_random_list:
  assumes rl: "random_list c p as" and cl: "is_clone c as c' bs"
  shows "random_list c' (ptr_at bs 0) bs" "random_list c' p as" "printed c' bs = printed c as"
proof -
  have dist: "distinct as" "p = ptr_at as 0" and bs: "distinct bs" "length bs = length as" using rl cl by (simp_all add: random_list_def is_clone_def)
  have cells: "c' (bs ! i) = Some (copied_node as bs (node_at c as i))" if "i < length as" for i
    using cl random_listD(1) [OF rl that] that by (simp add: is_clone_def)
  have rand: "\<exists>j<length as. a = as ! j \<and> copied as bs (Some a) = Some (bs ! j)" if "i < length as" "rrandom (node_at c as i) = Some a" for i a
    using random_listD(3) [OF rl that] copied_nth [OF dist(1) bs(2)] by auto
  have old: "c' a = c a" if "a \<in> set as" for a
  proof -
    have "c a \<noteq> None" using that random_listD(1) [OF rl] by (auto simp: in_set_conv_nth)
    moreover have "\<forall>b\<in>set bs. c b = None" "\<forall>a. a \<notin> set bs \<longrightarrow> c' a = c a" using cl unfolding is_clone_def by simp_all
    ultimately show ?thesis by metis
  qed
  have "\<exists>nd. c' (bs ! i) = Some nd \<and> rnext nd = ptr_at bs (Suc i) \<and> (\<forall>a. rrandom nd = Some a \<longrightarrow> a \<in> set bs)" if i: "i < length bs" for i
  proof (intro exI conjI allI impI)
    have i': "i < length as" using i bs by simp
    show "c' (bs ! i) = Some (copied_node as bs (node_at c as i))" by (rule cells [OF i'])
    show "rnext (copied_node as bs (node_at c as i)) = ptr_at bs (Suc i)"
      using random_listD(2) [OF rl i'] copied_ptr_at [OF dist(1) bs(2)] by (simp add: copied_node_def)
    fix a assume "rrandom (copied_node as bs (node_at c as i)) = Some a"
    then obtain r where "rrandom (node_at c as i) = Some r" "copied as bs (Some r) = Some a"
      by (cases "rrandom (node_at c as i)") (auto simp: copied_node_def copied_def)
    then show "a \<in> set bs" using rand [OF i'] bs by auto
  qed
  then show "random_list c' (ptr_at bs 0) bs" using bs by (simp add: random_list_def)
  show "random_list c' p as" using rl old by (simp add: random_list_def)
  have "(rdata (the (c' (bs ! i))), map_option (\<lambda>r. rdata (the (c' r))) (rrandom (the (c' (bs ! i))))) =
      (rdata (the (c (as ! i))), map_option (\<lambda>r. rdata (the (c r))) (rrandom (the (c (as ! i)))))" if i: "i < length as" for i
  proof (cases "rrandom (node_at c as i)")
    case None
    then show ?thesis using cells [OF i] random_listD(1) [OF rl i] by (simp add: copied_node_def copied_def)
  next
    case (Some r)
    then obtain j where j: "j < length as" "r = as ! j" "copied as bs (Some r) = Some (bs ! j)" using rand [OF i] by blast
    then show ?thesis using Some cells [OF i] cells [OF j(1)] random_listD(1) [OF rl i] random_listD(1) [OF rl j(1)]
      by (simp add: copied_node_def)
  qed
  then show "printed c' bs = printed c as" using bs(2) by (intro nth_equalityI) (auto simp: printed_def)
qed

text \<open>
  Claim C15: on every list whose random pointers stay in the list, both functions return the head of a list of fresh nodes that has
  the data of the original and in which every next and every random pointer leads to the copy of the original's target; the original and
  every other cell are unchanged, no null or dangling pointer is followed, and both lists print the same.
\<close>

theorem clone_versions_correct:
  assumes "heap_ok h" "random_list (cells h) p as" "f = cloneLinkedList \<or> f = cloneLinkedList2"
  shows "\<exists>h' bs. f h p = Some (Inr (ptr_at bs 0, h')) \<and> is_clone (cells h) as (cells h') bs \<and> heap_ok h' \<and>
    random_list (cells h') (ptr_at bs 0) bs \<and> random_list (cells h') p as \<and> printList h' (ptr_at bs 0) = printList h p"
proof -
  obtain h' bs where "f h p = Some (Inr (ptr_at bs 0, h'))" "is_clone (cells h) as (cells h') bs" "heap_ok h'"
    using assms cloneLinkedList_ok cloneLinkedList2_ok by blast
  then show ?thesis using clone_random_list [OF assms(2)] printList_ok assms(2) by metis
qed

lemma clone_example_ok: "heap_ok clone_example" "random_list (cells clone_example) (Some 0) [0, 1, 2, 3, 4]"
proof -
  show "heap_ok clone_example" by (simp add: heap_ok_def clone_example_def)
  show "random_list (cells clone_example) (Some 0) [0, 1, 2, 3, 4]"
    by (auto simp: random_list_def clone_example_def ptr_at_def less_Suc_eq numeral_eq_Suc)
qed

theorem clone_versions_correct_witness:
  "\<exists>h' bs. cloneLinkedList clone_example (Some 0) = Some (Inr (ptr_at bs 0, h')) \<and> is_clone (cells clone_example) [0, 1, 2, 3, 4] (cells h') bs"
  using clone_versions_correct [OF clone_example_ok, of cloneLinkedList] by blast

lemma cloneLinkedList_main_output:
  "cloneLinkedList_main = Some (Inr ([(1, Some 3), (2, Some 1), (3, Some 5), (4, Some 3), (5, Some 2)],
     [(1, Some 3), (2, Some 1), (3, Some 5), (4, Some 3), (5, Some 2)]))"
  by code_simp

end
