(* ===== verification/Work_Queue.thy ===== *)
theory Work_Queue
  imports Prelude "HOL-Library.Multiset"
begin

text \<open>
  Worker threads around a queue that is protected by a mutex and a condition variable, as in the thread pools and the
  blocking queues of the repository. What a program does while it holds the mutex is a value of \<open>monitor_ops\<close>, taken from its
  code; the threads, the sleepers of the condition variable and its notifications are the step relation \<open>ws_step\<close>, which all
  of these programs share. A notification is a step of its own behind the unlock, a sleeper may also wake up spuriously, and a thread
  that wakes up evaluates its predicate again.
\<close>

section \<open>The system\<close>

text \<open>
  The outcome of the critical section of a consumer: it sleeps on the condition variable, it learns that the queue is shut down and
  empty, or it takes an item.
\<close>

datatype 't popped = Sleep | Finished | Item 't

record ('q, 't) monitor_ops =
  op_push :: "'q \<Rightarrow> 't \<Rightarrow> 'q"
  op_pop :: "'q \<Rightarrow> 't popped \<times> 'q"
  op_shutdown :: "'q \<Rightarrow> 'q"

text \<open>A worker is about to lock the mutex, asleep, processing an item outside the mutex, or has returned.\<close>

datatype 't worker = Ready | Asleep | Running 't | Exited

text \<open>A producer has items left to push and may owe the notification of its last push.\<close>

record 't producer =
  todo :: "'t list"
  owes :: bool

text \<open>The thread that shuts the queue down: before, between the shutdown and \<open>notify_all\<close>, behind it, and when all workers are joined.\<close>

datatype phase = Open | Shut | Notified | Joined

record ('q, 't) wsys =
  mon :: 'q
  producers :: "'t producer list"
  workers :: "'t worker list"
  phase :: phase
  pushed :: "'t list"
  started :: "'t list"
  finished :: "'t list"

definition wake :: "'t worker \<Rightarrow> 't worker" where
  "wake w = (case w of Asleep \<Rightarrow> Ready | _ \<Rightarrow> w)"

text \<open>The flag tells the spurious wake-ups from the other steps.\<close>

inductive ws_step :: "('q, 't) monitor_ops \<Rightarrow> bool \<Rightarrow> ('q, 't) wsys \<Rightarrow> ('q, 't) wsys \<Rightarrow> bool" for ops where
  push: "p < length (producers s) \<Longrightarrow> \<not> owes (producers s ! p) \<Longrightarrow> todo (producers s ! p) = t # ts \<Longrightarrow>
    ws_step ops False s (s\<lparr>mon := op_push ops (mon s) t, producers := (producers s)[p := \<lparr>todo = ts, owes = True\<rparr>], pushed := pushed s @ [t]\<rparr>)"
| notify_one: "p < length (producers s) \<Longrightarrow> owes (producers s ! p) \<Longrightarrow> i < length (workers s) \<Longrightarrow> workers s ! i = Asleep \<Longrightarrow>
    ws_step ops False s (s\<lparr>producers := (producers s)[p := (producers s ! p)\<lparr>owes := False\<rparr>], workers := (workers s)[i := Ready]\<rparr>)"
| notify_nobody: "p < length (producers s) \<Longrightarrow> owes (producers s ! p) \<Longrightarrow> Asleep \<notin> set (workers s) \<Longrightarrow>
    ws_step ops False s (s\<lparr>producers := (producers s)[p := (producers s ! p)\<lparr>owes := False\<rparr>]\<rparr>)"
| sleep: "i < length (workers s) \<Longrightarrow> workers s ! i = Ready \<Longrightarrow> op_pop ops (mon s) = (Sleep, q) \<Longrightarrow>
    ws_step ops False s (s\<lparr>mon := q, workers := (workers s)[i := Asleep]\<rparr>)"
| take: "i < length (workers s) \<Longrightarrow> workers s ! i = Ready \<Longrightarrow> op_pop ops (mon s) = (Item t, q) \<Longrightarrow>
    ws_step ops False s (s\<lparr>mon := q, workers := (workers s)[i := Running t], started := started s @ [t]\<rparr>)"
| leave: "i < length (workers s) \<Longrightarrow> workers s ! i = Ready \<Longrightarrow> op_pop ops (mon s) = (Finished, q) \<Longrightarrow>
    ws_step ops False s (s\<lparr>mon := q, workers := (workers s)[i := Exited]\<rparr>)"
| run: "i < length (workers s) \<Longrightarrow> workers s ! i = Running t \<Longrightarrow>
    ws_step ops False s (s\<lparr>workers := (workers s)[i := Ready], finished := finished s @ [t]\<rparr>)"
| spurious: "i < length (workers s) \<Longrightarrow> workers s ! i = Asleep \<Longrightarrow>
    ws_step ops True s (s\<lparr>workers := (workers s)[i := Ready]\<rparr>)"
| shut: "phase s = Open \<Longrightarrow> (\<forall>p\<in>set (producers s). todo p = [] \<and> \<not> owes p) \<Longrightarrow>
    ws_step ops False s (s\<lparr>mon := op_shutdown ops (mon s), phase := Shut\<rparr>)"
| notify_all: "phase s = Shut \<Longrightarrow>
    ws_step ops False s (s\<lparr>workers := map wake (workers s), phase := Notified\<rparr>)"
| join: "phase s = Notified \<Longrightarrow> set (workers s) \<subseteq> {Exited} \<Longrightarrow>
    ws_step ops False s (s\<lparr>phase := Joined\<rparr>)"

definition ws_init :: "'q \<Rightarrow> 't list list \<Rightarrow> nat \<Rightarrow> ('q, 't) wsys" where
  "ws_init q scripts n = \<lparr>mon = q, producers = map (\<lambda>ts. \<lparr>todo = ts, owes = False\<rparr>) scripts, workers = replicate n Ready, phase = Open,
     pushed = [], started = [], finished = []\<rparr>"

inductive ws_reachable :: "('q, 't) monitor_ops \<Rightarrow> 'q \<Rightarrow> 't list list \<Rightarrow> nat \<Rightarrow> ('q, 't) wsys \<Rightarrow> bool" for ops q scripts n where
  init: "ws_reachable ops q scripts n (ws_init q scripts n)"
| step: "ws_reachable ops q scripts n s \<Longrightarrow> ws_step ops b s s' \<Longrightarrow> ws_reachable ops q scripts n s'"

section \<open>What is promised\<close>

fun running_items :: "'t worker list \<Rightarrow> 't list" where
  "running_items [] = []"
| "running_items (Running t # ws) = t # running_items ws"
| "running_items (_ # ws) = running_items ws"

definition awake :: "'t worker \<Rightarrow> bool" where
  "awake w \<longleftrightarrow> w = Ready \<or> (\<exists>t. w = Running t)"

text \<open>
  \<open>weight\<close> decreases with every step but the spurious wake-ups: an item in the queue and a running worker count 4, a worker that is
  ready 1, an item still to be pushed 8, a notification that is owed 2, and the shutdown enough to wake every worker.
\<close>

fun worker_weight :: "'t worker \<Rightarrow> nat" where
  "worker_weight Ready = 1"
| "worker_weight Asleep = 0"
| "worker_weight (Running t) = 4"
| "worker_weight Exited = 0"

definition producer_weight :: "'t producer \<Rightarrow> nat" where
  "producer_weight p = 8 * length (todo p) + (if owes p then 2 else 0)"

definition phase_weight :: "nat \<Rightarrow> phase \<Rightarrow> nat" where
  "phase_weight n ph = (case ph of Open \<Rightarrow> n + 3 | Shut \<Rightarrow> n + 2 | Notified \<Rightarrow> 1 | Joined \<Rightarrow> 0)"

definition weight :: "nat \<Rightarrow> ('q, 't) wsys \<Rightarrow> nat" where
  "weight queued s = 4 * queued + sum_list (map worker_weight (workers s)) + sum_list (map producer_weight (producers s)) +
     phase_weight (length (workers s)) (phase s)"

text \<open>
  The contract of such a program, for \<open>n\<close> workers and any scripts of the producers: in every reachable state the items taken, in order, followed by those in the
  queue are the items pushed, and each item taken is either being processed or finished; some step other than a spurious wake-up is possible until
  the workers are joined; every such step decreases a bounded weight, so that the system cannot run on without joining; an item in the queue never waits for sleeping workers only
  (unless a notification is still to come); and when the workers are joined, every item has been processed exactly once.
\<close>

definition runs_everything :: "('q, 't) monitor_ops \<Rightarrow> 'q \<Rightarrow> ('q \<Rightarrow> 't list) \<Rightarrow> nat \<Rightarrow> bool" where
  "runs_everything ops q items n \<longleftrightarrow> (\<forall>scripts s. ws_reachable ops q scripts n s \<longrightarrow>
     started s @ items (mon s) = pushed s \<and>
     mset (finished s) + mset (running_items (workers s)) = mset (started s) \<and>
     (phase s = Joined \<or> (\<exists>s'. ws_step ops False s s')) \<and>
     (\<forall>s'. ws_step ops False s s' \<longrightarrow> weight (length (items (mon s'))) s' < weight (length (items (mon s))) s) \<and>
     (items (mon s) \<noteq> [] \<longrightarrow> (\<exists>w\<in>set (workers s). awake w) \<or> (\<exists>p\<in>set (producers s). owes p)) \<and>
     (phase s = Joined \<longrightarrow> started s = pushed s \<and> mset (finished s) = mset (concat scripts)))"

section \<open>Replacing one worker or producer\<close>

lemma running_Cons: "running_items (w # ws) = running_items [w] @ running_items ws"
  by (cases w) auto

lemma running_update:
  "i < length ws \<Longrightarrow> mset (running_items (ws[i := w])) + mset (running_items [ws ! i]) = mset (running_items ws) + mset (running_items [w])"
proof (induction ws arbitrary: i)
  case (Cons v ws)
  then show ?case by (cases i) (auto simp: running_Cons [of _ ws] running_Cons [of _ "ws[_ := w]"] simp del: running_items.simps)
qed simp

lemma todo_update:
  "p < length ps \<Longrightarrow> mset (concat (map todo (ps[p := x]))) + mset (todo (ps ! p)) = mset (concat (map todo ps)) + mset (todo x)"
proof (induction ps arbitrary: p)
  case (Cons y ps)
  then show ?case by (cases p) auto
qed simp

lemma running_wake: "running_items (map wake ws) = running_items ws"
  by (induction ws rule: running_items.induct) (auto simp: wake_def)

lemma wake_weight: "sum_list (map worker_weight (map wake ws)) \<le> sum_list (map worker_weight ws) + length ws"
proof (induction ws)
  case (Cons w ws)
  then show ?case by (cases w) (auto simp: wake_def)
qed simp

lemma awakeI: "w \<noteq> Asleep \<Longrightarrow> w \<noteq> Exited \<Longrightarrow> awake w"
  by (cases w) (auto simp: awake_def)

lemma update_ex: "i < length xs \<Longrightarrow> P x \<Longrightarrow> \<exists>y\<in>set (xs[i := x]). P y"
  by (metis length_list_update nth_list_update_eq nth_mem)

lemma update_ex_other: "\<exists>y\<in>set xs. P y \<Longrightarrow> P (xs ! i) \<longrightarrow> P x \<Longrightarrow> i < length xs \<Longrightarrow> \<exists>y\<in>set (xs[i := x]). P y"
  by (metis in_set_conv_nth length_list_update nth_list_update)

lemma update_all: "\<forall>y\<in>set xs. P y \<Longrightarrow> P x \<Longrightarrow> \<forall>y\<in>set (xs[i := x]). P y"
  using set_update_subset_insert [of xs i x] by blast

section \<open>The interface\<close>

definition ws_inv :: "('q \<Rightarrow> 't list) \<Rightarrow> ('q \<Rightarrow> bool) \<Rightarrow> 't list list \<Rightarrow> nat \<Rightarrow> ('q, 't) wsys \<Rightarrow> bool" where
  "ws_inv items stopped scripts n s \<longleftrightarrow>
     started s @ items (mon s) = pushed s \<and>
     mset (finished s) + mset (running_items (workers s)) = mset (started s) \<and>
     (stopped (mon s) \<longleftrightarrow> phase s \<noteq> Open) \<and>
     (phase s \<noteq> Open \<longrightarrow> (\<forall>p\<in>set (producers s). todo p = [] \<and> \<not> owes p)) \<and>
     (Exited \<in> set (workers s) \<longrightarrow> items (mon s) = [] \<and> phase s \<noteq> Open) \<and>
     (items (mon s) \<noteq> [] \<longrightarrow> (\<exists>w\<in>set (workers s). awake w) \<or> (\<exists>p\<in>set (producers s). owes p)) \<and>
     (phase s = Notified \<or> phase s = Joined \<longrightarrow> Asleep \<notin> set (workers s)) \<and>
     (phase s = Joined \<longrightarrow> set (workers s) \<subseteq> {Exited}) \<and>
     mset (pushed s) + mset (concat (map todo (producers s))) = mset (concat scripts) \<and>
     length (workers s) = n"

locale work_monitor =
  fixes ops :: "('q, 't) monitor_ops" and items :: "'q \<Rightarrow> 't list" and stopped :: "'q \<Rightarrow> bool"
  assumes push_law: "items (op_push ops q t) = items q @ [t]" "stopped (op_push ops q t) = stopped q"
    and shutdown_law: "items (op_shutdown ops q) = items q" "stopped (op_shutdown ops q)"
    and pop_item: "items q = t # ts \<Longrightarrow> \<exists>q'. op_pop ops q = (Item t, q') \<and> items q' = ts \<and> stopped q' = stopped q"
    and pop_sleep: "items q = [] \<Longrightarrow> \<not> stopped q \<Longrightarrow> op_pop ops q = (Sleep, q)"
    and pop_finished: "items q = [] \<Longrightarrow> stopped q \<Longrightarrow> op_pop ops q = (Finished, q)"
begin

lemma pop_cases:
  assumes "op_pop ops q = (r, q')"
  obtains (Sleep) "r = Sleep" "q' = q" "items q = []" "\<not> stopped q"
  | (Finished) "r = Finished" "q' = q" "items q = []" "stopped q"
  | (Item) t where "r = Item t" "items q = t # items q'" "stopped q' = stopped q"
proof (cases "items q")
  case Nil
  then show thesis using assms pop_sleep [of q] pop_finished [of q] Sleep Finished by (cases "stopped q") auto
next
  case (Cons t ts)
  then show thesis using assms pop_item [OF Cons] Item by auto
qed

text \<open>The invariant is kept by every step: first the steps of the producers, then those of the workers, then the shutdown.\<close>

lemma push_inv:
  assumes "ws_inv items stopped scripts n s" "p < length (producers s)" "todo (producers s ! p) = t # ts"
  shows "ws_inv items stopped scripts n (s\<lparr>mon := op_push ops (mon s) t, producers := (producers s)[p := \<lparr>todo = ts, owes = True\<rparr>], pushed := pushed s @ [t]\<rparr>)"
proof -
  note inv = assms(1) [unfolded ws_inv_def]
  let ?ps = "(producers s)[p := \<lparr>todo = ts, owes = True\<rparr>]"
  have "producers s ! p \<in> set (producers s)" using assms(2) by simp
  then have "phase s = Open" using inv assms(3) by auto
  moreover have eq: "mset (concat (map todo (producers s))) = mset (concat (map todo ?ps)) + {#t#}"
    using todo_update [OF assms(2), of "\<lparr>todo = ts, owes = True\<rparr>"] assms(3) by simp
  have "mset (pushed s) + mset (concat (map todo (producers s))) = mset (concat scripts)" using inv by blast
  then have "mset (pushed s @ [t]) + mset (concat (map todo ?ps)) = mset (concat scripts)" unfolding eq by simp
  moreover have "\<exists>q\<in>set ?ps. owes q" by (rule update_ex [OF assms(2)]) simp
  ultimately show ?thesis using inv unfolding ws_inv_def by (simp add: push_law)
qed

lemma notify_inv:
  assumes "ws_inv items stopped scripts n s" "p < length (producers s)" "owes (producers s ! p)"
    and "ws = workers s \<and> Asleep \<notin> set (workers s) \<and> 0 < n \<or> (\<exists>i<length (workers s). workers s ! i = Asleep \<and> ws = (workers s)[i := Ready])"
  shows "ws_inv items stopped scripts n (s\<lparr>producers := (producers s)[p := (producers s ! p)\<lparr>owes := False\<rparr>], workers := ws\<rparr>)"
proof -
  note inv = assms(1) [unfolded ws_inv_def]
  have "producers s ! p \<in> set (producers s)" using assms(2) by simp
  then have op: "phase s = Open" using inv assms(3) by auto
  then have ex: "Exited \<notin> set (workers s)" using inv by auto
  have todo: "mset (concat (map todo ((producers s)[p := (producers s ! p)\<lparr>owes := False\<rparr>]))) = mset (concat (map todo (producers s)))"
    using todo_update [OF assms(2), of "(producers s ! p)\<lparr>owes := False\<rparr>"] by simp
  have ws: "(\<exists>w\<in>set ws. awake w) \<and> mset (running_items ws) = mset (running_items (workers s)) \<and> Exited \<notin> set ws \<and> length ws = n"
    using assms(4)
  proof (elim disjE exE conjE)
    assume a: "ws = workers s" "Asleep \<notin> set (workers s)" "0 < n"
    have "hd (workers s) \<in> set (workers s)" using a(3) inv by (intro hd_in_set) auto
    then have "awake (hd (workers s))" using a(2) ex by (intro awakeI) auto
    then show ?thesis using a \<open>hd (workers s) \<in> set (workers s)\<close> ex inv by auto
  next
    fix i assume i: "i < length (workers s)" "workers s ! i = Asleep" "ws = (workers s)[i := Ready]"
    have "\<exists>w\<in>set ws. awake w" unfolding i(3) by (rule update_ex [OF i(1)]) (simp add: awake_def)
    moreover have "mset (running_items ws) = mset (running_items (workers s))" using running_update [OF i(1), of Ready] i(2,3) by simp
    ultimately show ?thesis using i(3) ex inv set_update_subset_insert [of "workers s" i Ready] by auto
  qed
  show ?thesis using inv op todo ws unfolding ws_inv_def by simp
qed

lemma pop_inv:
  assumes "ws_inv items stopped scripts n s" "i < length (workers s)" "workers s ! i = Ready" "op_pop ops (mon s) = (r, q)"
    and s': "s' = s\<lparr>mon := q, workers := (workers s)[i := (case r of Sleep \<Rightarrow> Asleep | Finished \<Rightarrow> Exited | Item t \<Rightarrow> Running t)],
       started := (case r of Item t \<Rightarrow> started s @ [t] | _ \<Rightarrow> started s)\<rparr>"
  shows "ws_inv items stopped scripts n s'"
proof -
  note inv = assms(1) [unfolded ws_inv_def]
  have sub: "set ((workers s)[i := w]) \<subseteq> insert w (set (workers s))" for w by (rule set_update_subset_insert)
  have ready: "Ready \<in> set (workers s)" using assms(2,3) by (metis nth_mem)
  from assms(4) show ?thesis
  proof (cases rule: pop_cases)
    case Sleep
    have "mset (running_items ((workers s)[i := Asleep])) = mset (running_items (workers s))"
      using running_update [OF assms(2), of Asleep] assms(3) by simp
    moreover have "phase s = Open" using inv Sleep by simp
    ultimately show ?thesis using inv Sleep sub [of Asleep] unfolding s' ws_inv_def by auto
  next
    case Finished
    have "mset (running_items ((workers s)[i := Exited])) = mset (running_items (workers s))"
      using running_update [OF assms(2), of Exited] assms(3) by simp
    moreover have "phase s \<noteq> Open" using inv Finished by simp
    ultimately show ?thesis using inv Finished sub [of Exited] ready unfolding s' ws_inv_def by auto
  next
    case (Item t)
    have "mset (running_items ((workers s)[i := Running t])) = mset (running_items (workers s)) + {#t#}"
      using running_update [OF assms(2), of "Running t"] assms(3) by simp
    moreover have "\<exists>w\<in>set ((workers s)[i := Running t]). awake w" by (rule update_ex [OF assms(2)]) (simp add: awake_def)
    moreover have "Exited \<notin> set ((workers s)[i := Running t])" using inv Item sub [of "Running t"] by auto
    moreover have "phase s \<noteq> Joined" using inv ready by auto
    moreover have "phase s = Notified \<longrightarrow> Asleep \<notin> set ((workers s)[i := Running t])" using inv sub [of "Running t"] by auto
    ultimately show ?thesis using inv Item unfolding s' ws_inv_def by (simp add: ac_simps)
  qed
qed

lemma ready_inv:
  assumes "ws_inv items stopped scripts n s" "i < length (workers s)" "workers s ! i = Asleep \<and> out = [] \<or> (\<exists>t. workers s ! i = Running t \<and> out = [t])"
  shows "ws_inv items stopped scripts n (s\<lparr>workers := (workers s)[i := Ready], finished := finished s @ out\<rparr>)"
proof -
  note inv = assms(1) [unfolded ws_inv_def]
  have eq: "mset (running_items (workers s)) = mset (running_items ((workers s)[i := Ready])) + mset out"
    using running_update [OF assms(2), of Ready] assms(3) by auto
  have "mset (finished s) + mset (running_items (workers s)) = mset (started s)" using inv by blast
  then have "mset (finished s @ out) + mset (running_items ((workers s)[i := Ready])) = mset (started s)" unfolding eq by (simp add: ac_simps)
  moreover have "\<exists>w\<in>set ((workers s)[i := Ready]). awake w" by (rule update_ex [OF assms(2)]) (simp add: awake_def)
  moreover have "workers s ! i \<in> set (workers s)" using assms(2) by simp
  then have "phase s \<noteq> Joined" using inv assms(3) by auto
  ultimately show ?thesis using inv set_update_subset_insert [of "workers s" i Ready] unfolding ws_inv_def by auto
qed

lemma shutdown_inv:
  assumes "ws_inv items stopped scripts n s"
  shows "phase s = Open \<Longrightarrow> \<forall>p\<in>set (producers s). todo p = [] \<and> \<not> owes p \<Longrightarrow> ws_inv items stopped scripts n (s\<lparr>mon := op_shutdown ops (mon s), phase := Shut\<rparr>)"
    "phase s = Shut \<Longrightarrow> ws_inv items stopped scripts n (s\<lparr>workers := map wake (workers s), phase := Notified\<rparr>)"
    "phase s = Notified \<Longrightarrow> set (workers s) \<subseteq> {Exited} \<Longrightarrow> ws_inv items stopped scripts n (s\<lparr>phase := Joined\<rparr>)"
proof -
  note inv = assms [unfolded ws_inv_def]
  have wake: "wake w = Exited \<longleftrightarrow> w = Exited" "wake w \<noteq> Asleep" "awake w \<Longrightarrow> awake (wake w)" for w :: "'t worker"
    by (cases w; simp add: wake_def awake_def)+
  show "phase s = Open \<Longrightarrow> \<forall>p\<in>set (producers s). todo p = [] \<and> \<not> owes p \<Longrightarrow> ws_inv items stopped scripts n (s\<lparr>mon := op_shutdown ops (mon s), phase := Shut\<rparr>)"
    using inv by (simp add: ws_inv_def shutdown_law)
  show "phase s = Shut \<Longrightarrow> ws_inv items stopped scripts n (s\<lparr>workers := map wake (workers s), phase := Notified\<rparr>)"
    using inv wake by (auto simp: ws_inv_def running_wake image_iff) metis+
  show "phase s = Notified \<Longrightarrow> set (workers s) \<subseteq> {Exited} \<Longrightarrow> ws_inv items stopped scripts n (s\<lparr>phase := Joined\<rparr>)"
    using inv by (auto simp: ws_inv_def)
qed

lemma step_inv:
  assumes "ws_step ops b s s'" "ws_inv items stopped scripts n s" "0 < n"
  shows "ws_inv items stopped scripts n s'"
  using assms(1)
proof cases
  case (push p t ts)
  then show ?thesis using push_inv [OF assms(2)] by simp
next
  case (notify_one p i)
  then show ?thesis using notify_inv [OF assms(2), of p "(workers s)[i := Ready]"] by auto
next
  case (notify_nobody p)
  then show ?thesis using notify_inv [OF assms(2), of p "workers s"] assms(3) by simp
next
  case (sleep i q)
  then show ?thesis using pop_inv [OF assms(2), of i Sleep q] by simp
next
  case (take i t q)
  then show ?thesis using pop_inv [OF assms(2), of i "Item t" q] by simp
next
  case (leave i q)
  then show ?thesis using pop_inv [OF assms(2), of i Finished q] by simp
next
  case (run i t)
  then show ?thesis using ready_inv [OF assms(2), of i "[t]"] by simp
next
  case (spurious i)
  then show ?thesis using ready_inv [OF assms(2), of i "[]"] by simp
next
  case shut
  then show ?thesis using shutdown_inv(1) [OF assms(2)] by simp
next
  case notify_all
  then show ?thesis using shutdown_inv(2) [OF assms(2)] by simp
next
  case join
  then show ?thesis using shutdown_inv(3) [OF assms(2)] by simp
qed

lemma init_inv:
  assumes "items q = []" "\<not> stopped q"
  shows "ws_inv items stopped scripts n (ws_init q scripts n)"
proof -
  have "running_items (replicate n Ready) = []" by (induction n) auto
  moreover have "concat (map todo (map (\<lambda>ts. \<lparr>todo = ts, owes = False\<rparr>) scripts)) = concat scripts" by (simp add: comp_def)
  ultimately show ?thesis using assms by (auto simp: ws_inv_def ws_init_def)
qed

lemma reachable_inv:
  assumes "ws_reachable ops q scripts n s" "items q = []" "\<not> stopped q" "0 < n"
  shows "ws_inv items stopped scripts n s"
  using assms(1)
proof induction
  case init
  then show ?case by (rule init_inv [OF assms(2,3)])
next
  case (step s b s')
  then show ?case using step_inv assms(4) by blast
qed

text \<open>Until the workers are joined a step other than a spurious wake-up is possible.\<close>

lemma progress:
  assumes "ws_inv items stopped scripts n s" "phase s \<noteq> Joined"
  shows "\<exists>s'. ws_step ops False s s'"
proof -
  note inv = assms(1) [unfolded ws_inv_def]
  show ?thesis
  proof (cases "\<exists>i<length (workers s). awake (workers s ! i)")
    case True
    then obtain i where i: "i < length (workers s)" "awake (workers s ! i)" by blast
    show ?thesis
    proof (cases "workers s ! i = Ready")
      case True
      obtain r q where "op_pop ops (mon s) = (r, q)" by fastforce
      then show ?thesis using ws_step.sleep [OF i(1) True] ws_step.take [OF i(1) True] ws_step.leave [OF i(1) True] by (cases r) blast+
    next
      case False
      then obtain t where "workers s ! i = Running t" using i(2) by (auto simp: awake_def)
      then show ?thesis using ws_step.run [OF i(1)] by blast
    qed
  next
    case False
    then have rest: "w = Asleep \<or> w = Exited" if "w \<in> set (workers s)" for w using that awakeI [of w] by (metis in_set_conv_nth)
    show ?thesis
    proof (cases "\<forall>p\<in>set (producers s). todo p = [] \<and> \<not> owes p")
      case True
      have "set (workers s) \<subseteq> {Exited}" if "phase s = Notified" using rest inv that by auto
      then show ?thesis using assms(2) ws_step.shut [OF _ True] ws_step.notify_all ws_step.join by (cases "phase s") blast+
    next
      case False
      then obtain p where p: "p < length (producers s)" "todo (producers s ! p) \<noteq> [] \<or> owes (producers s ! p)" by (auto simp: in_set_conv_nth)
      show ?thesis
      proof (cases "owes (producers s ! p)")
        case True
        show ?thesis
        proof (cases "Asleep \<in> set (workers s)")
          case asleep: True
          then obtain i where "i < length (workers s)" "workers s ! i = Asleep" by (auto simp: in_set_conv_nth)
          then show ?thesis using ws_step.notify_one [OF p(1) True] by blast
        qed (use ws_step.notify_nobody [OF p(1) True] in blast)
      next
        case False
        then obtain t ts where "todo (producers s ! p) = t # ts" using p(2) by (cases "todo (producers s ! p)") auto
        then show ?thesis using ws_step.push [OF p(1) False] by blast
      qed
    qed
  qed
qed

text \<open>Every step but a spurious wake-up decreases the weight.\<close>

lemma step_weight:
  assumes "ws_step ops False s s'"
  shows "weight (length (items (mon s'))) s' < weight (length (items (mon s))) s"
  using assms
proof cases
  case (push p t ts)
  then show ?thesis using sum_list_update_nat [of p "producers s" producer_weight "\<lparr>todo = ts, owes = True\<rparr>"]
    by (simp add: weight_def push_law producer_weight_def)
next
  case (notify_one p i)
  then show ?thesis using sum_list_update_nat [of p "producers s" producer_weight "(producers s ! p)\<lparr>owes := False\<rparr>"]
      sum_list_update_nat [of i "workers s" worker_weight Ready]
    by (simp add: weight_def producer_weight_def)
next
  case (notify_nobody p)
  then show ?thesis using sum_list_update_nat [of p "producers s" producer_weight "(producers s ! p)\<lparr>owes := False\<rparr>"]
    by (simp add: weight_def producer_weight_def)
next
  case (sleep i q)
  then have "q = mon s" using pop_cases by blast
  then show ?thesis using sleep sum_list_update_nat [of i "workers s" worker_weight Asleep] by (simp add: weight_def)
next
  case (take i t q)
  then have "items (mon s) = t # items q" using pop_cases by blast
  then show ?thesis using take sum_list_update_nat [of i "workers s" worker_weight "Running t"] by (simp add: weight_def)
next
  case (leave i q)
  then have "q = mon s" using pop_cases by blast
  then show ?thesis using leave sum_list_update_nat [of i "workers s" worker_weight Exited] by (simp add: weight_def)
next
  case (run i t)
  then show ?thesis using sum_list_update_nat [of i "workers s" worker_weight Ready] by (simp add: weight_def)
next
  case shut
  then show ?thesis by (simp add: weight_def phase_weight_def shutdown_law)
next
  case notify_all
  then show ?thesis using wake_weight [of "workers s"] by (simp add: weight_def phase_weight_def)
next
  case join
  then show ?thesis by (simp add: weight_def phase_weight_def)
qed simp

theorem monitor_runs_everything:
  assumes "items q = []" "\<not> stopped q" "0 < n"
  shows "runs_everything ops q items n"
  unfolding runs_everything_def
proof (intro allI impI conjI)
  fix scripts s assume r: "ws_reachable ops q scripts n s"
  then have "ws_inv items stopped scripts n s" using reachable_inv assms by blast
  note inv = this and inv' = this [unfolded ws_inv_def]
  show "started s @ items (mon s) = pushed s" "mset (finished s) + mset (running_items (workers s)) = mset (started s)" using inv' by auto
  show "phase s = Joined \<or> (\<exists>s'. ws_step ops False s s')" using progress [OF inv] by blast
  show "weight (length (items (mon s'))) s' < weight (length (items (mon s))) s" if "ws_step ops False s s'" for s' using step_weight [OF that] .
  show "(\<exists>w\<in>set (workers s). awake w) \<or> (\<exists>p\<in>set (producers s). owes p)" if "items (mon s) \<noteq> []" using inv' that by blast
  assume j: "phase s = Joined"
  have ex: "\<And>w. w \<in> set (workers s) \<Longrightarrow> w = Exited" "length (workers s) = n" using inv' j by auto
  then have "Exited \<in> set (workers s)" using assms(3) by (metis length_greater_0_conv list.set_sel(1))
  then have empty: "items (mon s) = []" using inv' by blast
  then show "started s = pushed s" using inv' by simp
  have "running_items ws = []" if "\<And>w. w \<in> set ws \<Longrightarrow> w = Exited" for ws :: "'t worker list" using that by (induction ws rule: running_items.induct) auto
  then have "mset (finished s) = mset (pushed s)" using ex(1) inv' empty by auto
  moreover have "\<And>p. p \<in> set (producers s) \<Longrightarrow> todo p = []" using inv' j by simp
  then have none: "concat (map todo (producers s)) = []" by simp
  have "mset (pushed s) + mset (concat (map todo (producers s))) = mset (concat scripts)" using inv' by blast
  then have "mset (pushed s) = mset (concat scripts)" unfolding none by simp
  ultimately show "mset (finished s) = mset (concat scripts)" by simp
qed

end

end
