(* ===== verification/Thread_Pools.thy ===== *)
theory Thread_Pools
  imports Work_Queue Digit_Strings
begin

text \<open>
  The programs built on a shared queue of work: the blocking queue of \<open>threadPool/blockingQueueThreadPool.cpp\<close>, the three
  thread pools \<open>threadPool/main_w_function.cpp\<close>, \<open>main_w_functor.cpp\<close> and \<open>main_w_lambda.cpp\<close>, and the rate-limited logger
  \<open>pureStorage/rateLimiter.cpp\<close>. What each does under its mutex is translated here and interpreted as a \<open>work_monitor\<close>.
\<close>

section \<open>The blocking queue of integers\<close>

record BlockingQueue =
  internal_queue :: "int list"
  bq_done :: bool

definition BlockingQueue_new :: BlockingQueue where
  "BlockingQueue_new = \<lparr>internal_queue = [], bq_done = False\<rparr>"

definition BlockingQueue_push :: "BlockingQueue \<Rightarrow> int \<Rightarrow> BlockingQueue" where
  "BlockingQueue_push bq value = bq\<lparr>internal_queue := internal_queue bq @ [value]\<rparr>"

text \<open>\<open>pop\<close> under the mutex: the predicate of the wait, the test for the end, and the removal of the front.\<close>

definition BlockingQueue_pop :: "BlockingQueue \<Rightarrow> int popped \<times> BlockingQueue" where
  "BlockingQueue_pop bq =
     (if \<not> (internal_queue bq \<noteq> [] \<or> bq_done bq) then (Sleep, bq)
      else if internal_queue bq = [] \<and> bq_done bq then (Finished, bq)
      else (Item (hd (internal_queue bq)), bq\<lparr>internal_queue := tl (internal_queue bq)\<rparr>))"

definition BlockingQueue_shutdown :: "BlockingQueue \<Rightarrow> BlockingQueue" where
  "BlockingQueue_shutdown bq = bq\<lparr>bq_done := True\<rparr>"

definition bq_ops :: "(BlockingQueue, int) monitor_ops" where
  "bq_ops = \<lparr>op_push = BlockingQueue_push, op_pop = BlockingQueue_pop, op_shutdown = BlockingQueue_shutdown\<rparr>"

text \<open>\<open>main\<close>: three consumers, and the thread of \<open>main\<close> pushes 0 to 9 and shuts the queue down.\<close>

definition blockingQueue_main :: "(BlockingQueue, int) wsys" where
  "blockingQueue_main = ws_init BlockingQueue_new [[0..9]] 3"

interpretation bq: work_monitor bq_ops internal_queue bq_done
  by unfold_locales (auto simp: bq_ops_def BlockingQueue_push_def BlockingQueue_pop_def BlockingQueue_shutdown_def)

section \<open>The thread pools\<close>

record 't ThreadPool =
  tasks :: "'t list"
  stop :: bool

definition ThreadPool_new :: "'t ThreadPool" where
  "ThreadPool_new = \<lparr>tasks = [], stop = False\<rparr>"

text \<open>The number of workers the constructors start.\<close>

definition pool_threads :: "nat \<Rightarrow> nat" where
  "pool_threads numThreads = (if numThreads = 0 then 1 else numThreads)"

definition functor_threads :: "nat \<Rightarrow> nat" where
  "functor_threads numThreads = (if numThreads = 0 then 1 else numThreads)"

definition lambda_threads :: "nat \<Rightarrow> nat" where
  "lambda_threads numThreads = numThreads"

definition pool_enqueue :: "'t ThreadPool \<Rightarrow> 't \<Rightarrow> 't ThreadPool" where
  "pool_enqueue pool task = pool\<lparr>tasks := tasks pool @ [task]\<rparr>"

text \<open>\<open>workerThread\<close> from the lock to the unlock: the wait loop, the test for the end, and the fetching of the task.\<close>

definition workerThread :: "'t ThreadPool \<Rightarrow> 't popped \<times> 't ThreadPool" where
  "workerThread pool =
     (if \<not> stop pool \<and> tasks pool = [] then (Sleep, pool)
      else if stop pool \<and> tasks pool = [] then (Finished, pool)
      else (Item (hd (tasks pool)), pool\<lparr>tasks := tl (tasks pool)\<rparr>))"

definition pool_stop :: "'t ThreadPool \<Rightarrow> 't ThreadPool" where
  "pool_stop pool = pool\<lparr>stop := True\<rparr>"

definition pool_ops :: "('t ThreadPool, 't) monitor_ops" where
  "pool_ops = \<lparr>op_push = pool_enqueue, op_pop = workerThread, op_shutdown = pool_stop\<rparr>"

definition pool_function_main :: "(nat ThreadPool, nat) wsys" where
  "pool_function_main = ws_init ThreadPool_new [[0, 1, 2, 3]] (pool_threads 2)"

text \<open>The version with a functor.\<close>

definition functor_enqueue :: "'t ThreadPool \<Rightarrow> 't \<Rightarrow> 't ThreadPool" where
  "functor_enqueue pool task = pool\<lparr>tasks := tasks pool @ [task]\<rparr>"

definition functor_workerThread :: "'t ThreadPool \<Rightarrow> 't popped \<times> 't ThreadPool" where
  "functor_workerThread pool =
     (if \<not> stop pool \<and> tasks pool = [] then (Sleep, pool)
      else if stop pool \<and> tasks pool = [] then (Finished, pool)
      else (Item (hd (tasks pool)), pool\<lparr>tasks := tl (tasks pool)\<rparr>))"

definition functor_stop :: "'t ThreadPool \<Rightarrow> 't ThreadPool" where
  "functor_stop pool = pool\<lparr>stop := True\<rparr>"

definition functor_ops :: "('t ThreadPool, 't) monitor_ops" where
  "functor_ops = \<lparr>op_push = functor_enqueue, op_pop = functor_workerThread, op_shutdown = functor_stop\<rparr>"

definition pool_functor_main :: "(nat ThreadPool, nat) wsys" where
  "pool_functor_main = ws_init ThreadPool_new [[0, 1, 2, 3]] (functor_threads 2)"

text \<open>The version with lambdas waits with a predicate and starts as many workers as it is told.\<close>

definition lambda_enqueue :: "'t ThreadPool \<Rightarrow> 't \<Rightarrow> 't ThreadPool" where
  "lambda_enqueue pool task = pool\<lparr>tasks := tasks pool @ [task]\<rparr>"

definition lambda_worker :: "'t ThreadPool \<Rightarrow> 't popped \<times> 't ThreadPool" where
  "lambda_worker pool =
     (if \<not> (stop pool \<or> tasks pool \<noteq> []) then (Sleep, pool)
      else if stop pool \<and> tasks pool = [] then (Finished, pool)
      else (Item (hd (tasks pool)), pool\<lparr>tasks := tl (tasks pool)\<rparr>))"

definition lambda_stop :: "'t ThreadPool \<Rightarrow> 't ThreadPool" where
  "lambda_stop pool = pool\<lparr>stop := True\<rparr>"

definition lambda_ops :: "('t ThreadPool, 't) monitor_ops" where
  "lambda_ops = \<lparr>op_push = lambda_enqueue, op_pop = lambda_worker, op_shutdown = lambda_stop\<rparr>"

definition pool_lambda_main :: "(nat ThreadPool, nat) wsys" where
  "pool_lambda_main = ws_init ThreadPool_new [[0, 1, 2, 3]] (lambda_threads 2)"

interpretation pool: work_monitor pool_ops tasks stop
  by unfold_locales (auto simp: pool_ops_def pool_enqueue_def workerThread_def pool_stop_def)

interpretation functor_pool: work_monitor functor_ops tasks stop
  by unfold_locales (auto simp: functor_ops_def functor_enqueue_def functor_workerThread_def functor_stop_def)

interpretation lambda_pool: work_monitor lambda_ops tasks stop
  by unfold_locales (auto simp: lambda_ops_def lambda_enqueue_def lambda_worker_def lambda_stop_def)

section \<open>The rate-limited logger\<close>

text \<open>
  Time points of the steady clock are counted in nanoseconds. \<open>duration_cast\<close> rounds towards zero. The size of the deque is compared as
  an unsigned number, so that a negative limit counts as a huge one.
\<close>

record RateLimiter =
  max_requests :: int
  window_ms :: int
  logs :: "string \<Rightarrow> int list option"

definition RateLimiter_new :: "int \<Rightarrow> int \<Rightarrow> RateLimiter" where
  "RateLimiter_new maxReq w = \<lparr>max_requests = maxReq, window_ms = w, logs = Map.empty\<rparr>"

definition in_ms :: "int \<Rightarrow> int" where
  "in_ms d = (if 0 \<le> d then d div 1000000 else - ((- d) div 1000000))"

definition size_limit :: "int \<Rightarrow> int" where
  "size_limit m = (if m < 0 then m + 2 ^ 64 else m)"

definition allowRequest :: "RateLimiter \<Rightarrow> string \<Rightarrow> int \<Rightarrow> bool \<times> RateLimiter" where
  "allowRequest l key now =
     (let q = (case logs l key of Some q \<Rightarrow> q | None \<Rightarrow> []);
          q = dropWhile (\<lambda>t. in_ms (now - t) > window_ms l) q
      in if int (length q) < size_limit (max_requests l)
         then (True, l\<lparr>logs := (logs l)(key \<mapsto> q @ [now])\<rparr>)
         else (False, l\<lparr>logs := (logs l)(key \<mapsto> q)\<rparr>))"

record LogQueue =
  lq_items :: "string list"
  lq_stop :: bool

definition LogQueue_new :: LogQueue where
  "LogQueue_new = \<lparr>lq_items = [], lq_stop = False\<rparr>"

definition LogQueue_push :: "LogQueue \<Rightarrow> string \<Rightarrow> LogQueue" where
  "LogQueue_push bq msg = bq\<lparr>lq_items := lq_items bq @ [msg]\<rparr>"

definition LogQueue_pop :: "LogQueue \<Rightarrow> string popped \<times> LogQueue" where
  "LogQueue_pop bq =
     (if \<not> (lq_items bq \<noteq> [] \<or> lq_stop bq) then (Sleep, bq)
      else if lq_stop bq \<and> lq_items bq = [] then (Finished, bq)
      else (Item (hd (lq_items bq)), bq\<lparr>lq_items := tl (lq_items bq)\<rparr>))"

definition LogQueue_shutdown :: "LogQueue \<Rightarrow> LogQueue" where
  "LogQueue_shutdown bq = bq\<lparr>lq_stop := True\<rparr>"

definition log_ops :: "(LogQueue, string) monitor_ops" where
  "log_ops = \<lparr>op_push = LogQueue_push, op_pop = LogQueue_pop, op_shutdown = LogQueue_shutdown\<rparr>"

interpretation log_queue: work_monitor log_ops lq_items lq_stop
  by unfold_locales (auto simp: log_ops_def LogQueue_push_def LogQueue_pop_def LogQueue_shutdown_def)

text \<open>
  The producer with identity \<open>tid\<close>: \<open>nows\<close> are the clock readings of its calls. It returns the messages it pushes. The limiter is
  shared, but each producer uses a key of its own.
\<close>

fun producer_loop :: "nat \<Rightarrow> nat \<Rightarrow> int list \<Rightarrow> RateLimiter \<Rightarrow> string list \<times> RateLimiter" where
  "producer_loop tid i [] l = ([], l)"
| "producer_loop tid i (now # nows) l =
     (let msg = ''Thread '' @ nat_digits tid @ '' log '' @ nat_digits i;
          (ok, l) = allowRequest l (''user'' @ nat_digits tid) now;
          (msgs, l) = producer_loop tid (Suc i) nows l
      in (if ok then msg # msgs else msgs, l))"

definition rateLimiter_main :: "int list \<Rightarrow> int list \<Rightarrow> int list \<Rightarrow> (LogQueue, string) wsys" where
  "rateLimiter_main nows1 nows2 nows3 =
     (let l = RateLimiter_new 3 2000;
          (m1, l) = producer_loop 1 0 nows1 l;
          (m2, l) = producer_loop 2 0 nows2 l;
          (m3, l) = producer_loop 3 0 nows3 l
      in ws_init LogQueue_new [m1, m2, m3] 1)"

section \<open>What the pools promise\<close>

text \<open>
  Claim C3: the blocking queue, the three thread pools and the queue of the logger process every item exactly once and in
  the order of the pushes, without deadlock, without a lost wake-up and in bounded time, for every number of workers that the constructors start and
  any producers. The pool with lambdas needs at least one worker.
\<close>

theorem thread_pools_run_everything:
  "runs_everything pool_ops (ThreadPool_new :: 't ThreadPool) tasks (pool_threads n) \<and>
   runs_everything functor_ops (ThreadPool_new :: 't ThreadPool) tasks (functor_threads n) \<and>
   (0 < n \<longrightarrow> runs_everything lambda_ops (ThreadPool_new :: 't ThreadPool) tasks (lambda_threads n)) \<and>
   (0 < n \<longrightarrow> runs_everything bq_ops BlockingQueue_new internal_queue n) \<and>
   (0 < n \<longrightarrow> runs_everything log_ops LogQueue_new lq_items n)"
  by (simp add: pool.monitor_runs_everything functor_pool.monitor_runs_everything lambda_pool.monitor_runs_everything
      bq.monitor_runs_everything log_queue.monitor_runs_everything ThreadPool_new_def BlockingQueue_new_def LogQueue_new_def
      pool_threads_def functor_threads_def lambda_threads_def)

theorem thread_pools_run_everything_witness:
  "runs_everything bq_ops BlockingQueue_new internal_queue 3 \<and> runs_everything lambda_ops (ThreadPool_new :: nat ThreadPool) tasks (lambda_threads 3)"
  using thread_pools_run_everything [where 't = nat, of 3] by simp

text \<open>With no worker the pool with lambdas is joined at once and its tasks are never run.\<close>

lemma lambda_pool_without_workers:
  "\<exists>s. ws_reachable lambda_ops ThreadPool_new [[t]] (lambda_threads 0) s \<and> phase s = Joined \<and> pushed s = [t] \<and> finished s = []"
proof -
  let ?s0 = "ws_init ThreadPool_new [[t]] 0"
  note simps = ws_init_def ThreadPool_new_def lambda_ops_def lambda_enqueue_def lambda_stop_def
  have 1: "ws_step lambda_ops False ?s0 (?s0\<lparr>mon := op_push lambda_ops (mon ?s0) t, producers := [\<lparr>todo = [], owes = True\<rparr>], pushed := [t]\<rparr>)"
    (is "ws_step _ _ _ ?s1") using ws_step.push [of 0 ?s0 t "[]" lambda_ops] by (simp add: ws_init_def)
  have 2: "ws_step lambda_ops False ?s1 (?s1\<lparr>producers := [\<lparr>todo = [], owes = False\<rparr>]\<rparr>)"
    (is "ws_step _ _ _ ?s2") using ws_step.notify_nobody [of 0 ?s1 lambda_ops] by (simp add: ws_init_def)
  have 3: "ws_step lambda_ops False ?s2 (?s2\<lparr>mon := op_shutdown lambda_ops (mon ?s2), phase := Shut\<rparr>)"
    (is "ws_step _ _ _ ?s3") using ws_step.shut [of ?s2 lambda_ops] by (simp add: ws_init_def)
  have 4: "ws_step lambda_ops False ?s3 (?s3\<lparr>phase := Notified\<rparr>)"
    (is "ws_step _ _ _ ?s4") using ws_step.notify_all [of ?s3 lambda_ops] by (simp add: ws_init_def)
  have 5: "ws_step lambda_ops False ?s4 (?s4\<lparr>phase := Joined\<rparr>)"
    using ws_step.join [of ?s4 lambda_ops] by (simp add: ws_init_def)
  have "ws_reachable lambda_ops ThreadPool_new [[t]] 0 (?s4\<lparr>phase := Joined\<rparr>)"
    by (rule ws_reachable.step [OF ws_reachable.step [OF ws_reachable.step [OF ws_reachable.step [OF ws_reachable.step [OF ws_reachable.init 1] 2] 3] 4] 5])
  then show ?thesis unfolding lambda_threads_def by (intro exI [of _ "?s4\<lparr>phase := Joined\<rparr>"]) (simp add: ws_init_def)
qed

section \<open>The sliding window of the limiter\<close>

text \<open>The requests in the order in which they get the mutex, each with its key and its clock reading; and the admitted ones of a key.\<close>

fun run_requests :: "RateLimiter \<Rightarrow> (string \<times> int) list \<Rightarrow> bool list \<times> RateLimiter" where
  "run_requests l [] = ([], l)"
| "run_requests l ((key, now) # rs) =
     (let (ok, l) = allowRequest l key now; (oks, l) = run_requests l rs in (ok # oks, l))"

definition admitted :: "string \<Rightarrow> (string \<times> int) list \<Rightarrow> bool list \<Rightarrow> int list" where
  "admitted key rs oks = map (snd \<circ> fst) (filter (\<lambda>((k, _), ok). k = key \<and> ok) (zip rs oks))"

lemma in_ms_mono: "0 \<le> a \<Longrightarrow> a \<le> b \<Longrightarrow> in_ms a \<le> in_ms b"
  by (simp add: in_ms_def zdiv_mono1)

lemma sorted_append_last: "sorted (xs @ [y]) \<longleftrightarrow> sorted xs \<and> (\<forall>x\<in>set xs. x \<le> y)" for y :: int
  by (auto simp: sorted_append)

text \<open>
  The log of a key holds the youngest of its admitted requests: what is missing is older than the window. \<open>spaced\<close> is the promise: between a
  request and the one that comes \<open>m\<close> admitted requests later lies more than the window.
\<close>

definition spaced :: "nat \<Rightarrow> int \<Rightarrow> int list \<Rightarrow> bool" where
  "spaced m w adm \<longleftrightarrow> (\<forall>i. i + m < length adm \<longrightarrow> in_ms (adm ! (i + m) - adm ! i) > w)"

definition log_inv :: "nat \<Rightarrow> int \<Rightarrow> int \<Rightarrow> int list \<Rightarrow> int list \<Rightarrow> bool" where
  "log_inv m w now log adm \<longleftrightarrow> sorted adm \<and> (\<forall>a\<in>set adm. a \<le> now) \<and> spaced m w adm \<and>
     (\<exists>k\<le>length adm. log = drop k adm \<and> (\<forall>i<k. in_ms (now - adm ! i) > w))"

lemma log_inv_later:
  assumes "log_inv m w t log adm" "t \<le> now"
  shows "log_inv m w now log adm"
proof -
  have "in_ms (now - adm ! i) > w" if "in_ms (t - adm ! i) > w" "i < length adm" for i
  proof -
    have "adm ! i \<le> t" using assms(1) that(2) by (simp add: log_inv_def)
    then show ?thesis using in_ms_mono [of "t - adm ! i" "now - adm ! i"] assms(2) that(1) by simp
  qed
  moreover obtain k where k: "k \<le> length adm" "log = drop k adm" "\<forall>i<k. in_ms (t - adm ! i) > w" using assms by (auto simp: log_inv_def)
  ultimately have "\<forall>i<k. in_ms (now - adm ! i) > w" by simp
  then show ?thesis using assms k unfolding log_inv_def by (intro conjI exI [of _ k]) auto
qed

lemma dropWhile_old:
  assumes "log_inv m w now log adm"
  shows "log_inv m w now (dropWhile (\<lambda>t. in_ms (now - t) > w) log) adm"
    "\<forall>t\<in>set (dropWhile (\<lambda>t. in_ms (now - t) > w) log). in_ms (now - t) \<le> w"
proof -
  let ?old = "\<lambda>t. in_ms (now - t) > w"
  obtain k where k: "k \<le> length adm" "log = drop k adm" "\<forall>i<k. ?old (adm ! i)" using assms by (auto simp: log_inv_def)
  define d where "d = length (takeWhile ?old log)"
  have d: "dropWhile ?old log = drop (k + d) adm" "d \<le> length log"
    unfolding d_def k(2) dropWhile_eq_drop by (simp_all add: add.commute length_takeWhile_le [of ?old "drop k adm", simplified])
  have "?old (adm ! i)" if "i < k + d" for i
  proof (cases "i < k")
    case False
    then have "i - k < d" using that by simp
    then have "takeWhile ?old log ! (i - k) \<in> set (takeWhile ?old log)" unfolding d_def by (rule nth_mem)
    moreover have "takeWhile ?old log ! (i - k) = log ! (i - k)" using \<open>i - k < d\<close> unfolding d_def by (rule takeWhile_nth)
    ultimately have "?old (log ! (i - k))" by (metis set_takeWhileD)
    then show ?thesis using False k(2) \<open>i - k < d\<close> d(2) by simp
  qed (use k(3) in blast)
  then show "log_inv m w now (dropWhile ?old log) adm" using assms d k unfolding log_inv_def by (intro conjI exI [of _ "k + d"]) auto
  have sorted: "sorted (dropWhile ?old log)" unfolding d(1) using assms by (simp add: log_inv_def sorted_wrt_drop)
  show "\<forall>t\<in>set (dropWhile ?old log). in_ms (now - t) \<le> w"
  proof (cases "dropWhile ?old log")
    case (Cons t ts)
    then have "\<not> ?old t" by (metis dropWhile_eq_Cons_conv)
    moreover have "t \<le> u \<and> u \<le> now" if "u \<in> set (t # ts)" for u
    proof -
      have "u \<in> set adm" using that d(1) Cons by (metis in_set_dropD)
      then show ?thesis using sorted that assms unfolding Cons log_inv_def by auto
    qed
    moreover have "in_ms (now - u) \<le> in_ms (now - t)" if "t \<le> u \<and> u \<le> now" for u using that by (intro in_ms_mono) auto
    ultimately show ?thesis unfolding Cons by (meson leI order_trans)
  next
    case Nil
    show ?thesis unfolding Nil by simp
  qed
qed

lemma log_inv_admit:
  assumes "log_inv m w now log adm" "length log < m"
  shows "log_inv m w now (log @ [now]) (adm @ [now])"
proof -
  obtain k where k: "k \<le> length adm" "log = drop k adm" "\<forall>i<k. in_ms (now - adm ! i) > w" using assms by (auto simp: log_inv_def)
  have "in_ms ((adm @ [now]) ! (i + m) - (adm @ [now]) ! i) > w" if "i + m < length (adm @ [now])" for i
  proof (cases "i + m < length adm")
    case True
    then show ?thesis using assms(1) by (simp add: log_inv_def spaced_def nth_append)
  next
    case False
    then have "i + m = length adm" using that by simp
    moreover have "i < k" using calculation assms(2) k(1,2) by simp
    ultimately show ?thesis using k by (simp add: nth_append)
  qed
  then have "spaced m w (adm @ [now])" by (simp add: spaced_def)
  then show ?thesis using assms(1) k unfolding log_inv_def
    by (intro conjI exI [of _ k]) (auto simp: sorted_append_last nth_append)
qed

lemma allowRequest_log_inv:
  assumes "log_inv (nat (max_requests l)) (window_ms l) now (case logs l key of Some q \<Rightarrow> q | None \<Rightarrow> []) adm" "0 \<le> max_requests l"
    "allowRequest l key now = (ok, l')"
  shows "log_inv (nat (max_requests l)) (window_ms l) now (case logs l' key of Some q \<Rightarrow> q | None \<Rightarrow> []) (if ok then adm @ [now] else adm)"
    "ok \<longleftrightarrow> length (filter (\<lambda>a. in_ms (now - a) \<le> window_ms l) adm) < nat (max_requests l)"
    "max_requests l' = max_requests l" "window_ms l' = window_ms l" "k \<noteq> key \<Longrightarrow> logs l' k = logs l k"
proof -
  let ?m = "nat (max_requests l)" and ?w = "window_ms l" and ?q = "case logs l key of Some q \<Rightarrow> q | None \<Rightarrow> []"
  let ?d = "dropWhile (\<lambda>t. in_ms (now - t) > ?w) ?q"
  note inv = dropWhile_old [OF assms(1)]
  have ok: "ok \<longleftrightarrow> length ?d < ?m" and l': "l' = l\<lparr>logs := (logs l)(key \<mapsto> if ok then ?d @ [now] else ?d)\<rparr>"
    using assms(2,3) by (auto simp: allowRequest_def Let_def size_limit_def split: if_splits)
  show "log_inv ?m ?w now (case logs l' key of Some q \<Rightarrow> q | None \<Rightarrow> []) (if ok then adm @ [now] else adm)"
    using log_inv_admit [OF inv(1)] inv(1) ok unfolding l' by simp
  obtain k' where k': "k' \<le> length adm" "?d = drop k' adm" "\<forall>i<k'. in_ms (now - adm ! i) > ?w" using inv(1) unfolding log_inv_def by blast
  have "filter (\<lambda>a. in_ms (now - a) \<le> ?w) (take k' adm) = []" using k'(1,3) by (force simp: filter_empty_conv in_set_conv_nth)
  moreover have "filter (\<lambda>a. in_ms (now - a) \<le> ?w) (drop k' adm) = drop k' adm" using inv(2) unfolding k'(2) by (simp add: filter_id_conv)
  ultimately have "filter (\<lambda>a. in_ms (now - a) \<le> ?w) (take k' adm @ drop k' adm) = drop k' adm" unfolding filter_append by simp
  then show "ok \<longleftrightarrow> length (filter (\<lambda>a. in_ms (now - a) \<le> ?w) adm) < ?m" unfolding ok k'(2) by simp
  show "max_requests l' = max_requests l" "window_ms l' = window_ms l" "k \<noteq> key \<Longrightarrow> logs l' k = logs l k" by (simp_all add: l')
qed

lemma admitted_snoc: "length rs = length oks \<Longrightarrow>
    admitted k (rs @ [(key, now)]) (oks @ [ok]) = admitted k rs oks @ (if k = key \<and> ok then [now] else [])"
  by (simp add: admitted_def)

lemma run_requests_snoc:
  "run_requests l (rs @ [(key, now)]) =
     (let (oks, l1) = run_requests l rs; (ok, l2) = allowRequest l1 key now in (oks @ [ok], l2))"
  by (induction l rs rule: run_requests.induct) (auto simp: Let_def split: prod.splits)

lemma run_requests_inv:
  assumes "0 \<le> m" "sorted (map snd rs)" "\<forall>r\<in>set rs. snd r \<le> now" "run_requests (RateLimiter_new m w) rs = (oks, l)"
  shows "length oks = length rs \<and> max_requests l = m \<and> window_ms l = w \<and>
    (\<forall>k. log_inv (nat m) w now (case logs l k of Some q \<Rightarrow> q | None \<Rightarrow> []) (admitted k rs oks))"
  using assms(2-4)
proof (induction rs arbitrary: now oks l rule: rev_induct)
  case Nil
  then show ?case by (auto simp: RateLimiter_new_def log_inv_def admitted_def spaced_def)
next
  case (snoc r rs)
  obtain key t where r: "r = (key, t)" by fastforce
  obtain oks1 l1 where 1: "run_requests (RateLimiter_new m w) rs = (oks1, l1)" by fastforce
  obtain ok l2 where 2: "allowRequest l1 key t = (ok, l2)" by fastforce
  have res: "oks = oks1 @ [ok]" "l = l2" using snoc.prems(3) 1 2 by (simp_all add: r run_requests_snoc)
  have "length oks1 = length rs \<and> max_requests l1 = m \<and> window_ms l1 = w \<and>
    (\<forall>k. log_inv (nat m) w t (case logs l1 k of Some q \<Rightarrow> q | None \<Rightarrow> []) (admitted k rs oks1))"
    using snoc.prems(1) 1 by (intro snoc.IH) (auto simp: r sorted_append)
  then have len: "length oks1 = length rs" and lim: "max_requests l1 = m" "window_ms l1 = w"
    and inv: "\<And>k. log_inv (nat m) w t (case logs l1 k of Some q \<Rightarrow> q | None \<Rightarrow> []) (admitted k rs oks1)" by auto
  note step = allowRequest_log_inv [of l1 t key "admitted key rs oks1", unfolded lim, OF inv assms(1) 2]
  have "log_inv (nat m) w t (case logs l2 k of Some q \<Rightarrow> q | None \<Rightarrow> []) (admitted k (rs @ [r]) oks)" for k
  proof (cases "k = key")
    case True
    then show ?thesis using step(1) by (cases ok) (simp_all add: r res admitted_snoc len)
  next
    case False
    then show ?thesis using step(5) [OF False] inv [of k] by (simp add: r res admitted_snoc len)
  qed
  moreover have "t \<le> now" using snoc.prems(2) by (simp add: r)
  ultimately have "log_inv (nat m) w now (case logs l2 k of Some q \<Rightarrow> q | None \<Rightarrow> []) (admitted k (rs @ [r]) oks)" for k
    by (rule log_inv_later)
  then show ?case using res len step(3,4) by simp
qed

text \<open>
  Claim C16: when the requests get the mutex in the order of their clock readings, the limiter admits a request exactly when
  fewer than \<open>max_requests\<close> admitted requests of its key lie within the window, so that of the admitted requests of a key any one and
  the one \<open>max_requests\<close> later are more than the window apart; other keys do not matter.
\<close>

theorem rate_limiter_sliding_window:
  assumes "0 \<le> m" "sorted (map snd (rs @ [(key, now)]))" "run_requests (RateLimiter_new m w) (rs @ [(key, now)]) = (oks @ [ok], l)"
  shows "(ok \<longleftrightarrow> length (filter (\<lambda>a. in_ms (now - a) \<le> w) (admitted key rs oks)) < nat m) \<and>
    (\<forall>k. spaced (nat m) w (admitted k (rs @ [(key, now)]) (oks @ [ok])))"
proof -
  obtain oks1 l1 where 1: "run_requests (RateLimiter_new m w) rs = (oks1, l1)" by fastforce
  obtain ok1 l2 where 2: "allowRequest l1 key now = (ok1, l2)" by fastforce
  have res: "oks = oks1" "ok = ok1" using assms(3) 1 2 by (simp_all add: run_requests_snoc)
  have "\<forall>r\<in>set rs. snd r \<le> now" "sorted (map snd rs)" using assms(2) by (auto simp: sorted_append)
  then have inv: "max_requests l1 = m" "window_ms l1 = w"
      "log_inv (nat m) w now (case logs l1 key of Some q \<Rightarrow> q | None \<Rightarrow> []) (admitted key rs oks1)"
    using run_requests_inv [OF assms(1) _ _ 1, of now] by auto
  note step = allowRequest_log_inv [of l1 now key "admitted key rs oks1", unfolded inv(1,2), OF inv(3) assms(1) 2]
  have "\<forall>r\<in>set (rs @ [(key, now)]). snd r \<le> now" using \<open>\<forall>r\<in>set rs. snd r \<le> now\<close> by simp
  from run_requests_inv [OF assms(1,2) this assms(3)] have "spaced (nat m) w (admitted k (rs @ [(key, now)]) (oks @ [ok]))" for k
    unfolding log_inv_def by blast
  then show ?thesis using step(2) res by blast
qed

theorem rate_limiter_sliding_window_witness:
  "spaced 1 2 (admitted ''a'' ([(''a'', 0), (''b'', 0)] @ [(''a'', 3000000)]) ([True, True] @ [True]))"
proof -
  have run: "fst (run_requests (RateLimiter_new 1 2) ([(''a'', 0), (''b'', 0)] @ [(''a'', 3000000)])) = [True, True] @ [True]" by code_simp
  obtain l where "run_requests (RateLimiter_new 1 2) ([(''a'', 0), (''b'', 0)] @ [(''a'', 3000000)]) = ([True, True] @ [True], l)"
    using run by (metis prod.collapse)
  then show ?thesis using rate_limiter_sliding_window [of 1 "[(''a'', 0), (''b'', 0)]" "''a''" 3000000 2 "[True, True]" True] by simp
qed

end
