(* ===== verification/Mem_Apis.thy ===== *)
theory Mem_Apis
  imports Prelude
begin

text \<open>
  The memory functions of \<open>mem_apis/memset.c\<close> and \<open>mem_apis/memcpy.c\<close> on a memory of bytes: a pointer is the address of a byte, its
  index in the memory, and an access outside the memory is an error. The build is one with 64-bit pointers.
\<close>

unbundle bit_operations_syntax

type_synonym memory = "8 word list"

section \<open>Setting memory\<close>

fun set_bytes :: "memory \<Rightarrow> nat \<Rightarrow> 8 word \<Rightarrow> nat \<Rightarrow> memory res" where
  "set_bytes mem p v 0 = Inr mem"
| "set_bytes mem p v (Suc n) = rbind (arr_set mem p v) (\<lambda>mem. set_bytes mem (Suc p) v n)"

definition memset_naive :: "memory \<Rightarrow> nat \<Rightarrow> int \<Rightarrow> nat \<Rightarrow> memory res" where
  "memset_naive mem dst val n = set_bytes mem dst (word_of_int val) n"

definition word_pattern :: "8 word \<Rightarrow> 64 word" where
  "word_pattern v =
     (let pattern = ucast v;
          pattern = pattern OR push_bit 8 pattern;
          pattern = pattern OR push_bit 16 pattern
      in pattern OR push_bit 32 pattern)"

text \<open>The loop up to the first address that is a multiple of 8; it returns the memory, the pointer and the count that are left.\<close>

fun align_loop :: "memory \<Rightarrow> nat \<Rightarrow> 8 word \<Rightarrow> nat \<Rightarrow> (memory \<times> nat \<times> nat) res" where
  "align_loop mem p v 0 = Inr (mem, p, 0)"
| "align_loop mem p v (Suc n) =
     (if p AND (8 - 1) \<noteq> 0 then rbind (arr_set mem p v) (\<lambda>mem. align_loop mem (Suc p) v n) else Inr (mem, p, Suc n))"

text \<open>Writing a word at an address: byte \<open>k\<close> of the word, from the least significant on, goes to address \<open>p + k\<close>.\<close>

fun store_bytes :: "memory \<Rightarrow> nat \<Rightarrow> 8 word list \<Rightarrow> memory res" where
  "store_bytes mem p [] = Inr mem"
| "store_bytes mem p (b # bs) = rbind (arr_set mem p b) (\<lambda>mem. store_bytes mem (Suc p) bs)"

definition word_bytes :: "64 word \<Rightarrow> 8 word list" where
  "word_bytes w = map (\<lambda>k. ucast (drop_bit (8 * k) w)) [0..<8]"

function word_loop :: "memory \<Rightarrow> nat \<Rightarrow> 64 word \<Rightarrow> nat \<Rightarrow> (memory \<times> nat \<times> nat) res" where
  "word_loop mem wp pattern n =
     (if n \<ge> 8 then rbind (store_bytes mem wp (word_bytes pattern)) (\<lambda>mem. word_loop mem (wp + 8) pattern (n - 8))
      else Inr (mem, wp, n))"
  by auto
termination by (relation "measure (\<lambda>(mem, wp, pattern, n). n)") auto

declare word_loop.simps [simp del]

definition memset_fast :: "memory \<Rightarrow> nat \<Rightarrow> int \<Rightarrow> nat \<Rightarrow> memory res" where
  "memset_fast mem dst val n =
     (let v = word_of_int val; pattern = word_pattern v in
      rbind (align_loop mem dst v n) (\<lambda>(mem, p, n).
      rbind (word_loop mem p pattern n) (\<lambda>(mem, p, n).
      set_bytes mem p v n)))"

section \<open>Copying memory\<close>

text \<open>\<open>i\<close> counts up, with \<open>n\<close> bytes left; or down from \<open>i\<close>.\<close>

fun copy_up :: "memory \<Rightarrow> nat \<Rightarrow> nat \<Rightarrow> nat \<Rightarrow> nat \<Rightarrow> memory res" where
  "copy_up mem d s i 0 = Inr mem"
| "copy_up mem d s i (Suc n) =
     rbind (arr_get mem (s + i)) (\<lambda>b. rbind (arr_set mem (d + i) b) (\<lambda>mem. copy_up mem d s (Suc i) n))"

fun copy_down :: "memory \<Rightarrow> nat \<Rightarrow> nat \<Rightarrow> nat \<Rightarrow> memory res" where
  "copy_down mem d s 0 = Inr mem"
| "copy_down mem d s (Suc i) =
     rbind (arr_get mem (s + i)) (\<lambda>b. rbind (arr_set mem (d + i) b) (\<lambda>mem. copy_down mem d s i))"

definition robust_memcpy :: "memory \<Rightarrow> ptr \<Rightarrow> ptr \<Rightarrow> nat \<Rightarrow> (ptr \<times> memory) res" where
  "robust_memcpy mem dest src n =
     (case (dest, src) of
        (Some d, Some s) \<Rightarrow>
          rbind (if d < s then copy_up mem d s 0 n else if d > s then copy_down mem d s n else Inr mem) (\<lambda>mem. Inr (dest, mem))
      | _ \<Rightarrow> Inr (None, mem))"

definition simple_memcpy :: "memory \<Rightarrow> ptr \<Rightarrow> ptr \<Rightarrow> nat \<Rightarrow> (ptr \<times> memory) res" where
  "simple_memcpy mem dest src n =
     (case (dest, src) of
        (Some d, Some s) \<Rightarrow> rbind (copy_up mem d s 0 n) (\<lambda>mem. Inr (dest, mem))
      | _ \<Rightarrow> Inr (None, mem))"

definition memcpy_main :: "(memory \<times> memory) res" where
  "memcpy_main = rbind (robust_memcpy [97, 98, 99, 100, 101, 102, 103, 104, 105, 106] (Some 0) (Some 3) 5)
     (\<lambda>(_, arr). Inr (take 5 arr, drop 5 arr))"

section \<open>What they do\<close>

text \<open>The memory with the bytes \<open>bs\<close> at address \<open>p\<close>.\<close>

definition with_bytes :: "memory \<Rightarrow> nat \<Rightarrow> 8 word list \<Rightarrow> memory" where
  "with_bytes mem p bs = take p mem @ bs @ drop (p + length bs) mem"

lemma with_bytes_Nil [simp]: "with_bytes mem p [] = mem"
  by (simp add: with_bytes_def)

lemma length_with_bytes [simp]: "p + length bs \<le> length mem \<Longrightarrow> length (with_bytes mem p bs) = length mem"
  by (simp add: with_bytes_def)

lemma with_bytes_Cons: "p < length mem \<Longrightarrow> with_bytes (mem[p := b]) (Suc p) bs = with_bytes mem p (b # bs)"
  by (simp add: with_bytes_def take_Suc_conv_app_nth take_update_swap list_update_append)

lemma with_bytes_append:
  "p + length bs + length cs \<le> length mem \<Longrightarrow> with_bytes (with_bytes mem p bs) (p + length bs) cs = with_bytes mem p (bs @ cs)"
  by (simp add: with_bytes_def ac_simps)

lemma store_bytes_ok: "p + length bs \<le> length mem \<Longrightarrow> store_bytes mem p bs = Inr (with_bytes mem p bs)"
  by (induction mem p bs rule: store_bytes.induct) (auto simp: with_bytes_Cons)

lemma set_bytes_ok: "p + n \<le> length mem \<Longrightarrow> set_bytes mem p v n = Inr (with_bytes mem p (replicate n v))"
  by (induction mem p v n rule: set_bytes.induct) (auto simp: with_bytes_Cons)

text \<open>Each step of the pattern doubles the number of copies of the byte.\<close>

definition copies :: "8 word \<Rightarrow> nat \<Rightarrow> 64 word \<Rightarrow> bool" where
  "copies v m w \<longleftrightarrow> (\<forall>i. bit w i \<longleftrightarrow> i < m \<and> bit v (i mod 8))"

lemma copies_double:
  assumes "copies v m w" "8 dvd m" "2 * m \<le> 64"
  shows "copies v (2 * m) (w OR push_bit m w)"
  unfolding copies_def
proof
  fix i
  have w: "bit w k \<longleftrightarrow> k < m \<and> bit v (k mod 8)" for k using assms(1) by (simp add: copies_def)
  obtain q where q: "m = 8 * q" using assms(2) by (elim dvdE)
  show "bit (w OR push_bit m w) i \<longleftrightarrow> i < 2 * m \<and> bit v (i mod 8)"
  proof (cases "i < m")
    case True
    then show ?thesis by (simp add: bit_or_iff bit_push_bit_iff w)
  next
    case False
    then have "i = (i - m) + q * 8" using q by simp
    then have "(i - m) mod 8 = i mod 8" by (metis mod_mult_self1)
    then show ?thesis using False assms(3) by (auto simp: bit_or_iff bit_push_bit_iff w)
  qed
qed

lemma word_pattern_copies: "copies v 64 (word_pattern v)"
proof -
  have "i < 8" "i < 64" if "bit v i" for i using bit_imp_le_length [OF that] by simp_all
  then have "copies v 8 (ucast v)" by (auto simp: copies_def bit_ucast_iff)
  note c0 = this
  define w1 where "w1 = (ucast v :: 64 word) OR push_bit 8 (ucast v)"
  define w2 where "w2 = w1 OR push_bit 16 w1"
  have c1: "copies v 16 w1" using copies_double [OF c0] by (simp add: w1_def)
  have c2: "copies v 32 w2" using copies_double [OF c1] by (simp add: w2_def)
  have "word_pattern v = w2 OR push_bit 32 w2" by (simp only: word_pattern_def Let_def w1_def w2_def)
  then show ?thesis using copies_double [OF c2] by simp
qed

lemma word_bytes_pattern: "word_bytes (word_pattern v) = replicate 8 v"
proof (rule nth_equalityI)
  fix k assume "k < length (word_bytes (word_pattern v))"
  then have k: "k < 8" by (simp add: word_bytes_def)
  have "ucast (drop_bit (8 * k) (word_pattern v)) = v"
    by (rule bit_word_eqI) (use k word_pattern_copies [of v] in \<open>auto simp: bit_ucast_iff bit_drop_bit_eq copies_def\<close>)
  then show "word_bytes (word_pattern v) ! k = replicate 8 v ! k" using k by (simp add: word_bytes_def)
qed (simp add: word_bytes_def)

lemma align_loop_ok:
  "p + n \<le> length mem \<Longrightarrow> \<exists>k\<le>n. align_loop mem p v n = Inr (with_bytes mem p (replicate k v), p + k, n - k)"
proof (induction mem p v n rule: align_loop.induct)
  case (2 mem p v n)
  show ?case
  proof (cases "p AND (8 - 1) \<noteq> 0")
    case True
    have "\<exists>k\<le>n. align_loop (mem[p := v]) (Suc p) v n = Inr (with_bytes (mem[p := v]) (Suc p) (replicate k v), Suc p + k, n - k)"
      using 2 True by auto
    then show ?thesis using True "2.prems" by (auto simp: with_bytes_Cons intro: exI [of _ "Suc _"])
  next
    case False
    then show ?thesis by (intro exI [of _ 0]) simp
  qed
qed simp

lemma word_loop_ok:
  "p + n \<le> length mem \<Longrightarrow> \<exists>k\<le>n. word_loop mem p (word_pattern v) n = Inr (with_bytes mem p (replicate k v), p + k, n - k)"
proof (induction n arbitrary: mem p rule: less_induct)
  case (less n)
  show ?case
  proof (cases "n \<ge> 8")
    case True
    let ?mem = "with_bytes mem p (replicate 8 v)"
    have len: "length ?mem = length mem" using True less.prems by simp
    obtain k where k: "k \<le> n - 8" "word_loop ?mem (p + 8) (word_pattern v) (n - 8) = Inr (with_bytes ?mem (p + 8) (replicate k v), p + 8 + k, n - 8 - k)"
      using less.IH [of "n - 8" "p + 8" ?mem] True less.prems len by auto
    have "with_bytes ?mem (p + 8) (replicate k v) = with_bytes mem p (replicate (8 + k) v)"
      using with_bytes_append [of p "replicate 8 v" "replicate k v" mem] k(1) True less.prems by (simp only: length_replicate replicate_add)
    moreover have "store_bytes mem p (word_bytes (word_pattern v)) = Inr ?mem"
      unfolding word_bytes_pattern using True less.prems by (intro store_bytes_ok) simp
    ultimately show ?thesis using k True by (intro exI [of _ "8 + k"]) (subst word_loop.simps, simp add: add.assoc)
  next
    case False
    then show ?thesis by (intro exI [of _ 0]) (subst word_loop.simps, simp)
  qed
qed

lemma memset_fast_ok: "dst + n \<le> length mem \<Longrightarrow> memset_fast mem dst val n = Inr (with_bytes mem dst (replicate n (word_of_int val)))"
proof -
  assume len: "dst + n \<le> length mem"
  let ?v = "word_of_int val :: 8 word"
  obtain k where k: "k \<le> n" "align_loop mem dst ?v n = Inr (with_bytes mem dst (replicate k ?v), dst + k, n - k)"
    using align_loop_ok [OF len] by blast
  let ?mem = "with_bytes mem dst (replicate k ?v)"
  have "dst + k + (n - k) \<le> length ?mem" using len k(1) by simp
  from word_loop_ok [OF this] obtain j where j: "j \<le> n - k"
    "word_loop ?mem (dst + k) (word_pattern ?v) (n - k) = Inr (with_bytes ?mem (dst + k) (replicate j ?v), dst + k + j, n - k - j)" by blast
  have app: "with_bytes ?mem (dst + k) (replicate j ?v) = with_bytes mem dst (replicate (k + j) ?v)"
    using with_bytes_append [of dst "replicate k ?v" "replicate j ?v" mem] k j(1) len by (simp add: replicate_add)
  have "set_bytes (with_bytes mem dst (replicate (k + j) ?v)) (dst + k + j) ?v (n - k - j) =
      Inr (with_bytes (with_bytes mem dst (replicate (k + j) ?v)) (dst + (k + j)) (replicate (n - k - j) ?v))"
    using set_bytes_ok [of "dst + k + j" "n - k - j" "with_bytes mem dst (replicate (k + j) ?v)" ?v] k j(1) len by (simp add: add.assoc)
  also have "with_bytes (with_bytes mem dst (replicate (k + j) ?v)) (dst + (k + j)) (replicate (n - k - j) ?v) =
      with_bytes mem dst (replicate (k + j) ?v @ replicate (n - k - j) ?v)"
    using with_bytes_append [of dst "replicate (k + j) ?v" "replicate (n - k - j) ?v" mem] k j(1) len by simp
  also have "replicate (k + j) ?v @ replicate (n - k - j) ?v = replicate n ?v" using k j(1) by (simp add: replicate_add [symmetric])
  finally show ?thesis using k(2) j(2) app by (simp add: memset_fast_def Let_def del: rbind_eq_Inr)
qed

text \<open>
  Inside the memory the word-wise \<open>memset_fast\<close> does exactly what \<open>memset_naive\<close> does: it writes the low byte of the
  value to the \<open>n\<close> bytes at the address and changes nothing else, whatever the alignment of the address.
\<close>

theorem memset_versions_agree:
  assumes "dst + n \<le> length mem"
  shows "memset_fast mem dst val n = memset_naive mem dst val n \<and>
    memset_naive mem dst val n = Inr (take dst mem @ replicate n (word_of_int val) @ drop (dst + n) mem)"
  using memset_fast_ok [OF assms] set_bytes_ok [OF assms] by (simp add: memset_naive_def with_bytes_def)

theorem memset_versions_agree_witness:
  "memset_fast (replicate 20 0) 3 0xAA 14 = memset_naive (replicate 20 0) 3 0xAA 14"
  using memset_versions_agree [of 3 14 "replicate 20 0" "0xAA"] by simp

lemma copy_up_ok:
  "d + i + n \<le> length mem \<Longrightarrow> s + i + n \<le> length mem \<Longrightarrow> d \<le> s \<or> s + n \<le> d \<Longrightarrow>
   copy_up mem d s i n = Inr (with_bytes mem (d + i) (take n (drop (s + i) mem)))"
proof (induction mem d s i n rule: copy_up.induct)
  case (2 mem d s i n)
  let ?mem = "mem[d + i := mem ! (s + i)]"
  have rest: "take n (drop (s + Suc i) ?mem) = take n (drop (s + Suc i) mem)"
  proof (rule nth_equalityI)
    fix k assume "k < length (take n (drop (s + Suc i) ?mem))"
    then show "take n (drop (s + Suc i) ?mem) ! k = take n (drop (s + Suc i) mem) ! k" using "2.prems" by auto
  qed simp
  have "copy_up ?mem d s (Suc i) n = Inr (with_bytes ?mem (d + Suc i) (take n (drop (s + Suc i) ?mem)))"
    using "2.prems" by (intro "2.IH") auto
  also have "with_bytes ?mem (d + Suc i) (take n (drop (s + Suc i) ?mem)) = with_bytes mem (d + i) (mem ! (s + i) # take n (drop (s + Suc i) mem))"
    unfolding rest using with_bytes_Cons [of "d + i" mem "mem ! (s + i)"] "2.prems" by simp
  also have "mem ! (s + i) # take n (drop (s + Suc i) mem) = take (Suc n) (drop (s + i) mem)"
    using "2.prems"(2) Cons_nth_drop_Suc [of "s + i" mem, symmetric] by simp
  finally show ?case using "2.prems" by simp
qed simp

lemma copy_down_ok:
  "d + i \<le> length mem \<Longrightarrow> s < d \<Longrightarrow> copy_down mem d s i = Inr (with_bytes mem d (take i (drop s mem)))"
proof (induction mem d s i rule: copy_down.induct)
  case (2 mem d s i)
  let ?mem = "mem[d + i := mem ! (s + i)]"
  have rest: "take i (drop s ?mem) = take i (drop s mem)"
  proof (rule nth_equalityI)
    fix k assume "k < length (take i (drop s ?mem))"
    then show "take i (drop s ?mem) ! k = take i (drop s mem) ! k" using "2.prems" by auto
  qed simp
  have len: "length (take i (drop s mem)) = i" using "2.prems" by simp
  have "copy_down ?mem d s i = Inr (with_bytes ?mem d (take i (drop s ?mem)))" using "2.prems" by (intro "2.IH") auto
  also have "with_bytes ?mem d (take i (drop s ?mem)) = take d mem @ take i (drop s mem) @ mem ! (s + i) # drop (Suc (d + i)) mem"
    unfolding rest with_bytes_def len using "2.prems" by (simp add: drop_update_swap Cons_nth_drop_Suc [symmetric])
  also have "\<dots> = with_bytes mem d (take (Suc i) (drop s mem))"
    using "2.prems" by (simp add: with_bytes_def take_Suc_conv_app_nth)
  finally show ?case using "2.prems" by simp
qed simp

text \<open>
  \<open>robust_memcpy\<close> copies the \<open>n\<close> source bytes as they were before the call to the destination, however the two regions
  overlap, changes nothing else and returns the destination; \<open>simple_memcpy\<close> does so when the destination does not start inside the source
  region; a null pointer makes both return null and change nothing.
\<close>

theorem memcpy_correct:
  assumes "d + n \<le> length mem" "s + n \<le> length mem"
  shows "robust_memcpy mem (Some d) (Some s) n = Inr (Some d, take d mem @ take n (drop s mem) @ drop (d + n) mem) \<and>
    (d \<le> s \<or> s + n \<le> d \<longrightarrow> simple_memcpy mem (Some d) (Some s) n = robust_memcpy mem (Some d) (Some s) n) \<and>
    robust_memcpy mem None src n = Inr (None, mem) \<and> robust_memcpy mem dest None n = Inr (None, mem) \<and>
    simple_memcpy mem None src n = Inr (None, mem) \<and> simple_memcpy mem dest None n = Inr (None, mem)"
proof -
  have res: "with_bytes mem d (take n (drop s mem)) = take d mem @ take n (drop s mem) @ drop (d + n) mem" using assms(2) by (simp add: with_bytes_def)
  have same: "take d mem @ take n (drop d mem) @ drop (d + n) mem = mem" by (metis append_assoc append_take_drop_id take_add)
  have robust: "robust_memcpy mem (Some d) (Some s) n = Inr (Some d, take d mem @ take n (drop s mem) @ drop (d + n) mem)"
    using copy_up_ok [of d 0 n mem s] copy_down_ok [of d n mem s] assms res same by (auto simp: robust_memcpy_def)
  have "simple_memcpy mem (Some d) (Some s) n = robust_memcpy mem (Some d) (Some s) n" if "d \<le> s \<or> s + n \<le> d"
    unfolding robust using copy_up_ok [of d 0 n mem s] assms res that by (simp add: simple_memcpy_def)
  then show ?thesis using robust by (simp add: robust_memcpy_def simple_memcpy_def split: option.splits)
qed

theorem memcpy_correct_witness:
  "robust_memcpy [1, 2, 3, 4] (Some 1) (Some 0) 3 = Inr (Some 1, [1, 1, 2, 3])"
  using memcpy_correct [of 1 3 "[1, 2, 3, 4]" 0] by simp

lemma simple_memcpy_overlap: "simple_memcpy [1, 2, 3, 4] (Some 1) (Some 0) 3 = Inr (Some 1, [1, 1, 1, 1])"
  by (simp add: simple_memcpy_def numeral_eq_Suc)

lemma memcpy_main_output: "memcpy_main = Inr ([100, 101, 102, 103, 104], [102, 103, 104, 105, 106])"
  by (simp add: memcpy_main_def robust_memcpy_def numeral_eq_Suc)

section \<open>The benchmark of \<open>memset.c\<close>\<close>

text \<open>
  A run of \<open>benchmark\<close> on the static buffer, without the times: the function is called with \<open>0xAA\<close> and the size of the buffer, and the first byte is read. \<open>main\<close> runs the two
  functions and \<open>memset\<close> of the library, which writes the low byte of the value as they do.
\<close>

definition memset_std :: "memory \<Rightarrow> nat \<Rightarrow> int \<Rightarrow> nat \<Rightarrow> memory res" where
  "memset_std mem dst val n = (if dst + n \<le> length mem then Inr (take dst mem @ replicate n (word_of_int val) @ drop (dst + n) mem) else Inl OutOfBounds)"

definition benchmark :: "(memory \<Rightarrow> nat \<Rightarrow> int \<Rightarrow> nat \<Rightarrow> memory res) \<Rightarrow> memory \<Rightarrow> memory res" where
  "benchmark func buffer = rbind (func buffer 0 0xAA (length buffer)) (\<lambda>buffer. rbind (arr_get buffer 0) (\<lambda>_. Inr buffer))"

definition memset_main :: "memory \<Rightarrow> memory res" where
  "memset_main buffer = rbind (benchmark memset_naive buffer) (\<lambda>buffer. rbind (benchmark memset_fast buffer) (benchmark memset_std))"

lemma memset_benchmarks:
  assumes "buffer \<noteq> []" "f \<in> {memset_naive, memset_fast, memset_std}"
  shows "benchmark f buffer = Inr (replicate (length buffer) 0xAA)"
proof -
  have "f buffer 0 0xAA (length buffer) = Inr (replicate (length buffer) 0xAA)"
    using assms(2) memset_fast_ok [of 0 "length buffer" buffer "0xAA"] set_bytes_ok [of 0 "length buffer" buffer "0xAA"]
    by (auto simp: memset_naive_def memset_std_def with_bytes_def)
  then show ?thesis using assms(1) by (simp add: benchmark_def)
qed

lemma memset_main_fills: "buffer \<noteq> [] \<Longrightarrow> memset_main buffer = Inr (replicate (length buffer) 0xAA)"
  using memset_benchmarks [of buffer memset_naive] memset_benchmarks [of "replicate (length buffer) 0xAA" memset_fast]
    memset_benchmarks [of "replicate (length buffer) 0xAA" memset_std] by (simp add: memset_main_def)

end
