(* ===== verification/Timers.thy ===== *)
theory Timers
  imports Prelude
begin

text \<open>
  The software timers of \<open>timer/timer_pthread.cpp\<close>: five slots that a tick counts down, a queue of expired timers and a thread that
  calls their callbacks. Every function runs under one mutex, so that a call is one step. A callback is the number of its task, or none for
  the null pointer; calling it is an error then.
\<close>

record TimerTask =
  timer_enable :: bool
  periodic :: bool
  reload_timeout_value :: "32 word"
  curr_timeout_value :: "32 word"
  Callback :: "nat option"

record timers =
  TimerTasks :: "TimerTask list"
  Task_queue :: "nat list"

abbreviation MAX_TASK :: nat where "MAX_TASK \<equiv> 5"

text \<open>The globals start as zeros.\<close>

definition timers_zero :: timers where
  "timers_zero = \<lparr>TimerTasks = replicate MAX_TASK \<lparr>timer_enable = False, periodic = False, reload_timeout_value = 0,
     curr_timeout_value = 0, Callback = None\<rparr>, Task_queue = []\<rparr>"

text \<open>One slot in \<open>TimerInterruptFunction\<close>: whether it expires, and its new contents.\<close>

definition tick_slot :: "TimerTask \<Rightarrow> bool \<times> TimerTask" where
  "tick_slot t =
     (if timer_enable t then
        if curr_timeout_value t = 0 then
          (True, if \<not> periodic t then t\<lparr>timer_enable := False\<rparr> else t\<lparr>curr_timeout_value := reload_timeout_value t\<rparr>)
        else (False, t\<lparr>curr_timeout_value := curr_timeout_value t - 1\<rparr>)
      else (False, t))"

fun tick_loop :: "nat \<Rightarrow> TimerTask list \<Rightarrow> TimerTask list \<times> nat list" where
  "tick_loop timer_index [] = ([], [])"
| "tick_loop timer_index (t # ts) =
     (let (expired, t') = tick_slot t; (ts', q) = tick_loop (Suc timer_index) ts
      in (t' # ts', if expired then timer_index # q else q))"

definition TimerInterruptFunction :: "timers \<Rightarrow> timers" where
  "TimerInterruptFunction s = (let (ts, q) = tick_loop 0 (TimerTasks s) in s\<lparr>TimerTasks := ts, Task_queue := Task_queue s @ q\<rparr>)"

text \<open>The first slot that is not enabled; without one \<open>timerId\<close> is left unset.\<close>

fun free_slot :: "nat \<Rightarrow> TimerTask list \<Rightarrow> nat option" where
  "free_slot i [] = None"
| "free_slot i (t # ts) = (if \<not> timer_enable t then Some i else free_slot (Suc i) ts)"

definition timer_start :: "timers \<Rightarrow> nat \<Rightarrow> 32 word \<Rightarrow> bool \<Rightarrow> nat option \<times> timers" where
  "timer_start s pCallback timeout is_periodic =
     (case free_slot 0 (TimerTasks s) of
        None \<Rightarrow> (None, s)
      | Some i \<Rightarrow> (Some i, s\<lparr>TimerTasks := (TimerTasks s)[i := \<lparr>timer_enable = True, periodic = is_periodic,
          reload_timeout_value = timeout, curr_timeout_value = timeout, Callback = Some pCallback\<rparr>]\<rparr>))"

text \<open>The slot is read before \<open>timerId\<close> is compared with \<open>MAX_TASK\<close>.\<close>

definition timer_stop :: "timers \<Rightarrow> nat \<Rightarrow> timers res" where
  "timer_stop s timerId =
     rbind (arr_get (TimerTasks s) timerId) (\<lambda>t.
       if \<not> timer_enable t then Inr s
       else if timerId < MAX_TASK then
         Inr (s\<lparr>TimerTasks := (TimerTasks s)[timerId := \<lparr>timer_enable = False, periodic = False,
           reload_timeout_value = 0xFFFFFFFF, curr_timeout_value = 0xFFFFFFFF, Callback = None\<rparr>]\<rparr>)
       else Inr s)"

text \<open>One round of \<open>RunTasksThread\<close>: the callbacks of all queued timers, in order.\<close>

fun run_queue :: "TimerTask list \<Rightarrow> nat list \<Rightarrow> nat list res" where
  "run_queue ts [] = Inr []"
| "run_queue ts (i # q) =
     rbind (arr_get ts i) (\<lambda>t. case Callback t of None \<Rightarrow> Inl NullDeref
       | Some c \<Rightarrow> rbind (run_queue ts q) (\<lambda>out. Inr (c # out)))"

definition RunTasks :: "timers \<Rightarrow> (nat list \<times> timers) res" where
  "RunTasks s = rbind (run_queue (TimerTasks s) (Task_queue s)) (\<lambda>out. Inr (out, s\<lparr>Task_queue := []\<rparr>))"

fun stop_all :: "timers \<Rightarrow> nat list \<Rightarrow> timers res" where
  "stop_all s [] = Inr s"
| "stop_all s (i # is') = rbind (timer_stop s i) (\<lambda>s. stop_all s is')"

definition InitTimerTask :: "timers \<Rightarrow> timers res" where
  "InitTimerTask s = stop_all s [0..<MAX_TASK]"

text \<open>\<open>main\<close> up to its sleep, and \<open>n\<close> rounds of the interrupt thread, each followed by a round of the thread that runs the tasks.\<close>

definition timer_main_start :: "timers res" where
  "timer_main_start = rbind (InitTimerTask timers_zero) (\<lambda>s.
     let (_, s) = timer_start s 1 2 True; (_, s) = timer_start s 2 5 True; (_, s) = timer_start s 3 15 False in Inr s)"

fun timer_rounds :: "timers \<Rightarrow> nat \<Rightarrow> nat list list res" where
  "timer_rounds s 0 = Inr []"
| "timer_rounds s (Suc n) = rbind (RunTasks (TimerInterruptFunction s)) (\<lambda>(out, s). rbind (timer_rounds s n) (\<lambda>outs. Inr (out # outs)))"

section \<open>When timers expire\<close>

lemma tick_loop_nth:
  "i < length ts \<Longrightarrow> fst (tick_loop k ts) ! i = snd (tick_slot (ts ! i))" "length (fst (tick_loop k ts)) = length ts"
proof -
  show "i < length ts \<Longrightarrow> fst (tick_loop k ts) ! i = snd (tick_slot (ts ! i))"
    by (induction k ts arbitrary: i rule: tick_loop.induct) (auto simp: nth_Cons split: prod.splits nat.splits)
  show "length (fst (tick_loop k ts)) = length ts" by (induction k ts rule: tick_loop.induct) (auto split: prod.splits)
qed

lemma tick_loop_queue:
  "count_list (snd (tick_loop k ts)) j = (if k \<le> j \<and> j < k + length ts \<and> fst (tick_slot (ts ! (j - k))) then 1 else 0)"
proof (induction k ts rule: tick_loop.induct)
  case (2 k t ts)
  obtain e t' ts' q where eq: "tick_slot t = (e, t')" "tick_loop (Suc k) ts = (ts', q)" by fastforce
  show ?case
  proof (cases "j = k")
    case True
    then show ?thesis using 2 [OF eq(1) [symmetric] refl] eq by auto
  next
    case False
    then show ?thesis using 2 [OF eq(1) [symmetric] refl] eq by (auto simp: nth_Cons' Suc_diff_le Suc_le_eq)
  qed
qed simp

text \<open>One slot over \<open>k\<close> ticks: how often it has expired, and its contents.\<close>

fun slot_ticks :: "nat \<Rightarrow> TimerTask \<Rightarrow> nat \<times> TimerTask" where
  "slot_ticks 0 t = (0, t)"
| "slot_ticks (Suc k) t = (let (n, t) = slot_ticks k t; (e, t) = tick_slot t in (if e then Suc n else n, t))"

lemma interrupt_slot:
  assumes "i < length (TimerTasks s)"
  shows "length (TimerTasks ((TimerInterruptFunction ^^ k) s)) = length (TimerTasks s) \<and>
    TimerTasks ((TimerInterruptFunction ^^ k) s) ! i = snd (slot_ticks k (TimerTasks s ! i)) \<and>
    count_list (Task_queue ((TimerInterruptFunction ^^ k) s)) i = count_list (Task_queue s) i + fst (slot_ticks k (TimerTasks s ! i))"
proof (induction k)
  case (Suc k)
  define s1 where "s1 = (TimerInterruptFunction ^^ k) s"
  note IH = Suc [folded s1_def]
  obtain ts q where loop: "tick_loop 0 (TimerTasks s1) = (ts, q)" by fastforce
  obtain n t e t' where slot: "slot_ticks k (TimerTasks s ! i) = (n, t)" "tick_slot t = (e, t')" by fastforce
  have i: "i < length (TimerTasks s1)" and t: "TimerTasks s1 ! i = t" using assms IH slot by simp_all
  have "ts ! i = t'" "length ts = length (TimerTasks s1)"
    using tick_loop_nth(1) [OF i, of 0] tick_loop_nth(2) [of 0 "TimerTasks s1"] loop slot t by simp_all
  moreover have "count_list q i = (if e then 1 else 0)"
    using tick_loop_queue [of 0 "TimerTasks s1" i] loop i slot t by simp
  moreover have "(TimerInterruptFunction ^^ Suc k) s = s1\<lparr>TimerTasks := ts, Task_queue := Task_queue s1 @ q\<rparr>"
    using loop by (simp add: TimerInterruptFunction_def [of s1] s1_def [symmetric])
  ultimately show ?case using IH slot by simp
qed simp

lemma slot_periodic:
  assumes "timer_enable t" "periodic t" "curr_timeout_value t = reload_timeout_value t"
  shows "fst (slot_ticks k t) = k div Suc (unat (reload_timeout_value t)) \<and>
    snd (slot_ticks k t) = t\<lparr>curr_timeout_value := reload_timeout_value t - of_nat (k mod Suc (unat (reload_timeout_value t)))\<rparr>"
proof (induction k)
  case 0
  then show ?case using assms(3) by (cases t) simp
next
  case (Suc k)
  let ?R = "reload_timeout_value t" and ?m = "k mod Suc (unat (reload_timeout_value t))"
  have m: "?m \<le> unat ?R" using mod_less_divisor [of "Suc (unat ?R)" k] by linarith
  have curr: "unat (?R - of_nat ?m) = unat ?R - ?m"
  proof -
    have "?m < 2 ^ LENGTH(32)" by (rule le_less_trans [OF m unsigned_less])
    then have "unat (of_nat ?m :: 32 word) = ?m" unfolding unat_of_nat by (rule mod_less)
    then show ?thesis using m by (subst unat_sub) (auto simp: word_le_nat_alt)
  qed
  show ?case
  proof (cases "?m = unat ?R")
    case True
    then have "?R - of_nat ?m = 0" by simp
    then show ?thesis using Suc assms True by (cases t) (auto simp: tick_slot_def mod_Suc div_Suc split: prod.splits)
  next
    case False
    then have "?R - of_nat ?m \<noteq> 0" using curr m by (metis diff_is_0_eq le_antisym unat_0)
    then show ?thesis using Suc assms False by (cases t) (auto simp: tick_slot_def mod_Suc div_Suc algebra_simps split: prod.splits)
  qed
qed

lemma slot_oneshot:
  assumes "timer_enable t" "\<not> periodic t"
  shows "fst (slot_ticks k t) = (if k \<le> unat (curr_timeout_value t) then 0 else 1) \<and>
    timer_enable (snd (slot_ticks k t)) = (k \<le> unat (curr_timeout_value t)) \<and> \<not> periodic (snd (slot_ticks k t)) \<and>
    (k \<le> unat (curr_timeout_value t) \<longrightarrow> unat (curr_timeout_value (snd (slot_ticks k t))) = unat (curr_timeout_value t) - k)"
proof (induction k)
  case (Suc k)
  obtain n t' where t': "slot_ticks k t = (n, t')" by fastforce
  show ?case
  proof (cases "k < unat (curr_timeout_value t)")
    case True
    then have "unat (curr_timeout_value t') = unat (curr_timeout_value t) - k" "timer_enable t'" "n = 0" "\<not> periodic t'" using Suc t' by auto
    moreover from this have "curr_timeout_value t' \<noteq> 0" using True by auto
    ultimately show ?thesis using True t' by (simp add: tick_slot_def unat_minus_one)
  next
    case False
    show ?thesis
    proof (cases "k = unat (curr_timeout_value t)")
      case True
      then have "curr_timeout_value t' = 0" "timer_enable t'" "n = 0" "\<not> periodic t'" using Suc t' by (auto simp: unat_eq_zero)
      then show ?thesis using True t' by (simp add: tick_slot_def)
    next
      case False
      then show ?thesis using \<open>\<not> k < unat (curr_timeout_value t)\<close> Suc t' by (auto simp: tick_slot_def)
    qed
  qed
qed (use assms in simp)

lemma free_slot_Some: "free_slot k ts = Some i \<Longrightarrow> k \<le> i \<and> i < k + length ts \<and> \<not> timer_enable (ts ! (i - k)) \<and> (\<forall>j. k \<le> j \<and> j < i \<longrightarrow> timer_enable (ts ! (j - k)))"
proof (induction k ts rule: free_slot.induct)
  case (2 k t ts)
  then show ?case by (cases "timer_enable t") (auto simp: nth_Cons' Suc_le_eq)
qed simp

text \<open>
  \<open>timer_start\<close> takes the first slot that is not enabled and leaves the others alone; as long as only ticks happen, the timer
  of timeout \<open>T\<close> is queued once at tick \<open>T + 1\<close> and never again if it is not periodic, and at every multiple of \<open>T + 1\<close> ticks if it is.
  The messages of \<open>main\<close> announce periods of \<open>T\<close> seconds.
\<close>

theorem timers_expire:
  assumes "timer_start s cb timeout is_periodic = (Some i, s')"
  shows "i < length (TimerTasks s) \<and> \<not> timer_enable (TimerTasks s ! i) \<and> (\<forall>j<i. timer_enable (TimerTasks s ! j)) \<and>
    (\<forall>j<length (TimerTasks s). j \<noteq> i \<longrightarrow> TimerTasks s' ! j = TimerTasks s ! j) \<and>
    count_list (Task_queue ((TimerInterruptFunction ^^ k) s')) i = count_list (Task_queue s) i +
      (if is_periodic then k div Suc (unat timeout) else if unat timeout < k then 1 else 0)"
proof -
  have slot: "free_slot 0 (TimerTasks s) = Some i" and s': "s' = s\<lparr>TimerTasks := (TimerTasks s)[i := \<lparr>timer_enable = True, periodic = is_periodic,
          reload_timeout_value = timeout, curr_timeout_value = timeout, Callback = Some cb\<rparr>]\<rparr>"
    using assms by (auto simp: timer_start_def split: option.splits)
  have i: "i < length (TimerTasks s)" "\<not> timer_enable (TimerTasks s ! i)" "\<forall>j<i. timer_enable (TimerTasks s ! j)"
    using free_slot_Some [OF slot] by auto
  have t: "TimerTasks s' ! i = \<lparr>timer_enable = True, periodic = is_periodic, reload_timeout_value = timeout, curr_timeout_value = timeout, Callback = Some cb\<rparr>"
    using i(1) by (simp add: s')
  have "fst (slot_ticks k (TimerTasks s' ! i)) = (if is_periodic then k div Suc (unat timeout) else if unat timeout < k then 1 else 0)"
    using slot_periodic [of "TimerTasks s' ! i" k] slot_oneshot [of "TimerTasks s' ! i" k] by (cases is_periodic) (simp_all add: t)
  then show ?thesis using interrupt_slot [of i s' k] i by (simp add: s')
qed

theorem timers_expire_witness:
  "\<exists>i s'. timer_start timers_zero 1 2 True = (Some i, s') \<and> count_list (Task_queue ((TimerInterruptFunction ^^ 30) s')) i = 10"
proof -
  obtain s' where s': "timer_start timers_zero 1 2 True = (Some 0, s')" by (simp add: timer_start_def timers_zero_def numeral_eq_Suc)
  have "count_list (Task_queue ((TimerInterruptFunction ^^ 30) s')) 0 = count_list (Task_queue timers_zero) 0 + 30 div Suc (unat (2 :: 32 word))"
    using timers_expire [OF s', of 30] by simp
  then show ?thesis using s' by (auto simp: timers_zero_def)
qed

text \<open>In \<open>main\<close> the timer announced for every 2 seconds expires every third tick, the one for every 5 seconds every sixth.\<close>

lemma timer_main_output:
  "rbind timer_main_start (\<lambda>s. timer_rounds s 16) =
     Inr [[], [], [1], [], [], [1, 2], [], [], [1], [], [], [1, 2], [], [], [1], [3]]"
  by code_simp

text \<open>A timer that is stopped between its expiry and the run of the tasks is called through a null pointer.\<close>

lemma stopped_timer_called:
  "rbind (timer_stop (TimerInterruptFunction (snd (timer_start timers_zero 1 0 True))) 0) RunTasks = Inl NullDeref"
  by code_simp

lemma timer_stop_out_of_bounds: "timer_stop timers_zero 5 = Inl OutOfBounds"
  by code_simp

section \<open>The end of the program\<close>

text \<open>\<open>main\<close> after its sleep: the identifiers it was given are stopped; then the threads are cancelled.\<close>

definition timer_main_stop :: "timers \<Rightarrow> nat \<Rightarrow> nat \<Rightarrow> nat \<Rightarrow> timers res" where
  "timer_main_stop s timerId1 timerId2 timerId3 =
     rbind (timer_stop s timerId1) (\<lambda>s. rbind (timer_stop s timerId2) (\<lambda>s. timer_stop s timerId3))"

lemma timer_stop_disables:
  assumes "i < length (TimerTasks s)" "length (TimerTasks s) = MAX_TASK"
  shows "\<exists>s'. timer_stop s i = Inr s' \<and> length (TimerTasks s') = MAX_TASK \<and> Task_queue s' = Task_queue s \<and>
    (\<forall>j < MAX_TASK. timer_enable (TimerTasks s' ! j) \<longleftrightarrow> j \<noteq> i \<and> timer_enable (TimerTasks s ! j))"
  using assms by (auto simp: timer_stop_def nth_list_update)

text \<open>When the other slots are unused, no timer is enabled any more.\<close>

lemma timer_main_stop_ends:
  assumes "length (TimerTasks s) = MAX_TASK" "{i, j, k} \<subseteq> {0..<MAX_TASK}" "\<forall>n < MAX_TASK. timer_enable (TimerTasks s ! n) \<longrightarrow> n \<in> {i, j, k}"
  shows "\<exists>s'. timer_main_stop s i j k = Inr s' \<and> Task_queue s' = Task_queue s \<and> (\<forall>n < MAX_TASK. \<not> timer_enable (TimerTasks s' ! n))"
proof -
  obtain s1 where 1: "timer_stop s i = Inr s1" "length (TimerTasks s1) = MAX_TASK" "Task_queue s1 = Task_queue s"
    "\<forall>n < MAX_TASK. timer_enable (TimerTasks s1 ! n) \<longleftrightarrow> n \<noteq> i \<and> timer_enable (TimerTasks s ! n)"
    using timer_stop_disables [of i s] assms by auto
  obtain s2 where 2: "timer_stop s1 j = Inr s2" "length (TimerTasks s2) = MAX_TASK" "Task_queue s2 = Task_queue s1"
    "\<forall>n < MAX_TASK. timer_enable (TimerTasks s2 ! n) \<longleftrightarrow> n \<noteq> j \<and> timer_enable (TimerTasks s1 ! n)"
    using timer_stop_disables [of j s1] 1 assms by auto
  obtain s3 where 3: "timer_stop s2 k = Inr s3" "Task_queue s3 = Task_queue s2"
    "\<forall>n < MAX_TASK. timer_enable (TimerTasks s3 ! n) \<longleftrightarrow> n \<noteq> k \<and> timer_enable (TimerTasks s2 ! n)"
    using timer_stop_disables [of k s2] 2 assms by auto
  have "timer_main_stop s i j k = Inr s3" using 1(1) 2(1) 3(1) by (simp add: timer_main_stop_def)
  moreover have "\<not> timer_enable (TimerTasks s3 ! n)" if "n < MAX_TASK" for n using 1(4) 2(4) 3(3) assms(3) that by auto
  ultimately show ?thesis using 1(3) 2(3) 3(2) by auto
qed

end
