(* ===== verification/Leak_Detector.thy ===== *)
theory Leak_Detector
  imports Prelude
begin

text \<open>
  The memory leak detector \<open>memoryLeakDetector/detector.cpp\<close>: wrappers of the allocation functions that keep a list of the blocks in
  use. The allocator behind it is not part of the repository: the pointers that its functions return are arguments of the model, null being
  \<open>None\<close>, and so is whether it has room for the entries of the list. The mutex makes every call one step.
\<close>

section \<open>The detector\<close>

record mem_entry =
  entry_ptr :: addr
  entry_size :: "64 word"
  entry_file :: string
  entry_line :: int

type_synonym entries = "mem_entry list"

text \<open>\<open>room\<close>: the allocation of the entry succeeds; its result is used without a test.\<close>

definition add_entry :: "bool \<Rightarrow> entries \<Rightarrow> addr \<Rightarrow> 64 word \<Rightarrow> string \<Rightarrow> int \<Rightarrow> entries res" where
  "add_entry room es p size' file line =
     (if \<not> room then Inl NullDeref
      else Inr (\<lparr>entry_ptr = p, entry_size = size', entry_file = file, entry_line = line\<rparr> # es))"

text \<open>The walk along the list with a pointer to the link; \<open>None\<close> is the warning that nothing was found.\<close>

fun remove_entry :: "entries \<Rightarrow> addr \<Rightarrow> entries option" where
  "remove_entry [] p = None"
| "remove_entry (e # es) p = (if entry_ptr e = p then Some es else map_option (\<lambda>es. e # es) (remove_entry es p))"

definition report_leaks :: "entries \<Rightarrow> (64 word \<times> addr \<times> string \<times> int) list" where
  "report_leaks es = map (\<lambda>e. (entry_size e, entry_ptr e, entry_file e, entry_line e)) es"

definition my_malloc :: "bool \<Rightarrow> ptr \<Rightarrow> entries \<Rightarrow> 64 word \<Rightarrow> string \<Rightarrow> int \<Rightarrow> entries res" where
  "my_malloc room p es size' file line = (case p of None \<Rightarrow> Inr es | Some a \<Rightarrow> add_entry room es a size' file line)"

definition my_calloc :: "bool \<Rightarrow> ptr \<Rightarrow> entries \<Rightarrow> 64 word \<Rightarrow> 64 word \<Rightarrow> string \<Rightarrow> int \<Rightarrow> entries res" where
  "my_calloc room p es nmemb size' file line = (case p of None \<Rightarrow> Inr es | Some a \<Rightarrow> add_entry room es a (nmemb * size') file line)"

text \<open>\<open>my_realloc\<close> and \<open>my_free\<close> also return whether the warning was printed.\<close>

definition drop_entry :: "entries \<Rightarrow> addr \<Rightarrow> bool \<times> entries" where
  "drop_entry es a = (case remove_entry es a of None \<Rightarrow> (True, es) | Some es' \<Rightarrow> (False, es'))"

definition my_realloc :: "bool \<Rightarrow> ptr \<Rightarrow> entries \<Rightarrow> ptr \<Rightarrow> 64 word \<Rightarrow> string \<Rightarrow> int \<Rightarrow> (bool \<times> entries) res" where
  "my_realloc room new_ptr es p size' file line =
     (let (warned, es) = (case p of None \<Rightarrow> (False, es) | Some a \<Rightarrow> drop_entry es a)
      in case new_ptr of None \<Rightarrow> Inr (warned, es)
         | Some b \<Rightarrow> rbind (add_entry room es b size' file line) (\<lambda>es. Inr (warned, es)))"

definition my_free :: "entries \<Rightarrow> ptr \<Rightarrow> bool \<times> entries" where
  "my_free es p = (case p of None \<Rightarrow> (False, es) | Some a \<Rightarrow> drop_entry es a)"

text \<open>\<open>main\<close>, for the pointers that the allocator returns to its three calls.\<close>

definition detector_main :: "ptr \<Rightarrow> ptr \<Rightarrow> ptr \<Rightarrow> (64 word \<times> addr \<times> string \<times> int) list res" where
  "detector_main a b c =
     rbind (my_malloc True a [] 100 ''detector.cpp'' 139) (\<lambda>es.
     rbind (my_malloc True b es 200 ''detector.cpp'' 140) (\<lambda>es.
     let (_, es) = my_free es a in
     rbind (my_realloc True c es b 300 ''detector.cpp'' 144) (\<lambda>(_, es). Inr (report_leaks es))))"

section \<open>The blocks in use\<close>

text \<open>The calls of a program with the answers of the allocator.\<close>

datatype call =
    Malloc ptr "64 word" string int
  | Calloc ptr "64 word" "64 word" string int
  | Realloc ptr ptr "64 word" string int
  | Free ptr

text \<open>The detector on a call (\<open>Realloc new old\<close>): the warning flag and the new list.\<close>

fun detect :: "entries \<Rightarrow> call \<Rightarrow> (bool \<times> entries) res" where
  "detect es (Malloc p n f l) = rbind (my_malloc True p es n f l) (\<lambda>es. Inr (False, es))"
| "detect es (Calloc p k n f l) = rbind (my_calloc True p es k n f l) (\<lambda>es. Inr (False, es))"
| "detect es (Realloc new old n f l) = my_realloc True new es old n f l"
| "detect es (Free p) = Inr (my_free es p)"

fun detect_all :: "entries \<Rightarrow> call list \<Rightarrow> (bool list \<times> entries) res" where
  "detect_all es [] = Inr ([], es)"
| "detect_all es (c # cs) = rbind (detect es c) (\<lambda>(w, es). rbind (detect_all es cs) (\<lambda>(ws, es). Inr (w # ws, es)))"

text \<open>
  The reference: the blocks in use with the size and the place of their allocation. By the standard a failing \<open>realloc\<close> leaves the old
  block in use, and a null result of any function means that nothing was allocated.
\<close>

type_synonym blocks = "addr \<Rightarrow> (64 word \<times> string \<times> int) option"

definition put_block :: "blocks \<Rightarrow> ptr \<Rightarrow> 64 word \<times> string \<times> int \<Rightarrow> blocks" where
  "put_block m p b = (case p of None \<Rightarrow> m | Some a \<Rightarrow> m(a \<mapsto> b))"

definition del_block :: "blocks \<Rightarrow> ptr \<Rightarrow> blocks" where
  "del_block m p = (case p of None \<Rightarrow> m | Some a \<Rightarrow> m(a := None))"

fun in_use :: "blocks \<Rightarrow> call \<Rightarrow> blocks" where
  "in_use m (Malloc p n f l) = put_block m p (n, f, l)"
| "in_use m (Calloc p k n f l) = put_block m p (k * n, f, l)"
| "in_use m (Realloc new old n f l) = (if new = None then m else put_block (del_block m old) new (n, f, l))"
| "in_use m (Free p) = del_block m p"

text \<open>
  What the allocator and a correct program guarantee: a returned block is not in use otherwise, only null or blocks in use are
  freed or reallocated. \<open>realloc_ok\<close> adds that no reallocation of a block fails.
\<close>

definition fresh :: "blocks \<Rightarrow> ptr \<Rightarrow> bool" where
  "fresh m p \<longleftrightarrow> (\<forall>a. p = Some a \<longrightarrow> m a = None)"

definition used :: "blocks \<Rightarrow> ptr \<Rightarrow> bool" where
  "used m p \<longleftrightarrow> (\<forall>a. p = Some a \<longrightarrow> m a \<noteq> None)"

fun legal :: "blocks \<Rightarrow> call \<Rightarrow> bool" where
  "legal m (Malloc p n f l) = fresh m p"
| "legal m (Calloc p k n f l) = fresh m p"
| "legal m (Realloc new old n f l) = (used m old \<and> fresh (del_block m old) new)"
| "legal m (Free p) = used m p"

fun realloc_ok :: "call \<Rightarrow> bool" where
  "realloc_ok (Realloc None (Some a) n f l) = False"
| "realloc_ok _ = True"

fun legal_all :: "blocks \<Rightarrow> call list \<Rightarrow> bool" where
  "legal_all m [] = True"
| "legal_all m (c # cs) = (legal m c \<and> legal_all (in_use m c) cs)"

section \<open>The list is the set of blocks in use\<close>

definition tracks :: "entries \<Rightarrow> blocks \<Rightarrow> bool" where
  "tracks es m \<longleftrightarrow> distinct (map entry_ptr es) \<and> m = map_of (map (\<lambda>e. (entry_ptr e, entry_size e, entry_file e, entry_line e)) es)"

lemma tracks_dom: "tracks es m \<Longrightarrow> m a = None \<longleftrightarrow> a \<notin> entry_ptr ` set es"
  by (auto simp: tracks_def map_of_eq_None_iff comp_def image_image)

lemma tracks_add: "tracks es m \<Longrightarrow> m a = None \<Longrightarrow> tracks (\<lparr>entry_ptr = a, entry_size = n, entry_file = f, entry_line = l\<rparr> # es) (m(a \<mapsto> (n, f, l)))"
  using tracks_dom [of es m a] by (auto simp: tracks_def)

lemma remove_entry_tracks:
  "distinct (map entry_ptr es) \<Longrightarrow> a \<in> entry_ptr ` set es \<Longrightarrow> \<exists>es'. remove_entry es a = Some es' \<and> distinct (map entry_ptr es') \<and>
     set (map entry_ptr es') = set (map entry_ptr es) - {a} \<and>
     map_of (map (\<lambda>e. (entry_ptr e, entry_size e, entry_file e, entry_line e)) es') =
       (map_of (map (\<lambda>e. (entry_ptr e, entry_size e, entry_file e, entry_line e)) es))(a := None)"
proof (induction es)
  case (Cons e es)
  show ?case
  proof (cases "entry_ptr e = a")
    case True
    then have "map_of (map (\<lambda>e. (entry_ptr e, entry_size e, entry_file e, entry_line e)) es) a = None"
      using Cons.prems(1) by (auto simp: map_of_eq_None_iff comp_def)
    then show ?thesis using Cons.prems(1) True by (auto simp: fun_eq_iff)
  next
    case False
    then have pre: "distinct (map entry_ptr es)" "a \<in> entry_ptr ` set es" using Cons.prems by auto
    from Cons.IH [OF pre] obtain es' where es': "remove_entry es a = Some es'" "distinct (map entry_ptr es')" "set (map entry_ptr es') = set (map entry_ptr es) - {a}"
       "map_of (map (\<lambda>e. (entry_ptr e, entry_size e, entry_file e, entry_line e)) es') =
       (map_of (map (\<lambda>e. (entry_ptr e, entry_size e, entry_file e, entry_line e)) es))(a := None)" by blast
    then have "entry_ptr e \<notin> set (map entry_ptr es')" using Cons.prems(1) by auto
    then show ?thesis using False es' by (intro exI [of _ "e # es'"]) (auto simp: fun_upd_twist)
  qed
qed simp

lemma drop_entry_tracks:
  assumes "tracks es m" "m a \<noteq> None"
  shows "\<exists>es'. drop_entry es a = (False, es') \<and> tracks es' (m(a := None))"
proof -
  have "a \<in> entry_ptr ` set es" using tracks_dom [OF assms(1), of a] assms(2) by blast
  then show ?thesis using remove_entry_tracks [of es a] assms(1) by (auto simp: drop_entry_def tracks_def)
qed

lemma detect_tracks:
  assumes "tracks es m" "legal m c" "realloc_ok c"
  shows "\<exists>es'. detect es c = Inr (False, es') \<and> tracks es' (in_use m c)"
proof (cases c)
  case (Malloc p n f l)
  then show ?thesis using assms tracks_add
    by (cases p) (auto simp: my_malloc_def add_entry_def put_block_def fresh_def)
next
  case (Calloc p k n f l)
  then show ?thesis using assms tracks_add
    by (cases p) (auto simp: my_calloc_def add_entry_def put_block_def fresh_def)
next
  case (Realloc new old n f l)
  show ?thesis
  proof (cases old)
    case None
    then show ?thesis using Realloc assms tracks_add
      by (cases new) (auto simp: my_realloc_def add_entry_def put_block_def del_block_def fresh_def)
  next
    case (Some a)
    then have "m a \<noteq> None" using assms(2) Realloc by (simp add: used_def)
    from drop_entry_tracks [OF assms(1) this] obtain es' where es': "drop_entry es a = (False, es')" "tracks es' (m(a := None))" by blast
    obtain b where b: "new = Some b" using assms(3) Realloc Some by (cases new) auto
    have "(m(a := None)) b = None" using assms(2) Realloc Some b by (simp add: fresh_def del_block_def)
    then show ?thesis using Realloc Some b es' tracks_add [OF es'(2), of b n f l]
      by (simp add: my_realloc_def add_entry_def put_block_def del_block_def del: fun_upd_apply)
  qed
next
  case (Free p)
  then show ?thesis using assms drop_entry_tracks [OF assms(1)]
    by (cases p) (auto simp: my_free_def del_block_def used_def)
qed

text \<open>
  Claim C25: for every sequence of calls of a correct program in which no reallocation fails and the list entries can be allocated,
  the detector never warns, and its report lists exactly the blocks in use, each once, with its size and the place of its allocation.
\<close>

theorem report_lists_blocks_in_use:
  assumes "legal_all Map.empty cs" "\<forall>c\<in>set cs. realloc_ok c"
  shows "\<exists>ws es. detect_all [] cs = Inr (ws, es) \<and> True \<notin> set ws \<and> distinct (map (fst \<circ> snd) (report_leaks es)) \<and>
    (\<forall>n a f l. (n, a, f, l) \<in> set (report_leaks es) \<longleftrightarrow> foldl in_use Map.empty cs a = Some (n, f, l))"
proof -
  have *: "\<exists>ws es'. detect_all es cs = Inr (ws, es') \<and> True \<notin> set ws \<and> tracks es' (foldl in_use m cs)"
    if "tracks es m" "legal_all m cs" "\<forall>c\<in>set cs. realloc_ok c" for es m cs
    using that
  proof (induction cs arbitrary: es m)
    case (Cons c cs)
    obtain es1 where es1: "detect es c = Inr (False, es1)" "tracks es1 (in_use m c)" using detect_tracks [of es m c] Cons.prems by auto
    then obtain ws es' where "detect_all es1 cs = Inr (ws, es')" "True \<notin> set ws" "tracks es' (foldl in_use (in_use m c) cs)"
      using Cons.IH [OF es1(2)] Cons.prems by auto
    then show ?case using es1 by auto
  qed simp
  obtain ws es where es: "detect_all [] cs = Inr (ws, es)" "True \<notin> set ws" "tracks es (foldl in_use Map.empty cs)"
  proof -
    have "tracks [] Map.empty" by (simp add: tracks_def)
    from * [OF this assms] show thesis using that by blast
  qed
  have "(n, a, f, l) \<in> set (report_leaks es) \<longleftrightarrow> foldl in_use Map.empty cs a = Some (n, f, l)" for n a f l
  proof -
    have "map_of (map (\<lambda>e. (entry_ptr e, entry_size e, entry_file e, entry_line e)) es) a = Some (n, f, l) \<longleftrightarrow>
        (a, n, f, l) \<in> set (map (\<lambda>e. (entry_ptr e, entry_size e, entry_file e, entry_line e)) es)"
      using es(3) by (intro map_of_eq_Some_iff) (auto simp: tracks_def comp_def)
    then show ?thesis using es(3) by (auto simp: tracks_def report_leaks_def)
  qed
  moreover have "distinct (map (fst \<circ> snd) (report_leaks es))" using es(3) by (simp add: tracks_def report_leaks_def comp_def)
  ultimately show ?thesis using es by blast
qed

theorem report_lists_blocks_in_use_witness:
  "\<exists>ws es. detect_all [] [Malloc (Some 1) 100 ''f'' 1, Malloc (Some 2) 200 ''f'' 2, Free (Some 1), Realloc (Some 3) (Some 2) 300 ''f'' 3] = Inr (ws, es) \<and>
     True \<notin> set ws \<and> (300, 3, ''f'', 3) \<in> set (report_leaks es)"
proof -
  let ?cs = "[Malloc (Some 1) 100 ''f'' 1, Malloc (Some 2) 200 ''f'' 2, Free (Some 1), Realloc (Some 3) (Some 2) 300 ''f'' 3]"
  have "legal_all Map.empty ?cs" by (simp add: fresh_def used_def put_block_def del_block_def)
  moreover have "\<forall>c\<in>set ?cs. realloc_ok c" by simp
  moreover have "foldl in_use Map.empty ?cs 3 = Some (300, ''f'', 3)" by (simp add: put_block_def del_block_def)
  ultimately show ?thesis using report_lists_blocks_in_use [of ?cs] by blast
qed

text \<open>A reallocation that fails leaves its block in use, but the detector forgets it: the leak is not reported and freeing it warns.\<close>

lemma failed_realloc_forgets_block:
  "detect_all [] [Malloc (Some 1) 100 ''f'' 1, Realloc None (Some 1) 200 ''f'' 2] = Inr ([False, False], [])"
  "foldl in_use Map.empty [Malloc (Some 1) 100 ''f'' 1, Realloc None (Some 1) 200 ''f'' 2] 1 = Some (100, ''f'', 1)"
  "my_free [] (Some 1) = (True, [])"
  by (simp_all add: my_malloc_def my_realloc_def add_entry_def drop_entry_def put_block_def my_free_def)

lemma entry_allocation_unchecked: "my_malloc False (Some a) es n f l = Inl NullDeref"
  by (simp add: my_malloc_def add_entry_def)

lemma detector_main_output: "a \<noteq> b \<Longrightarrow> detector_main (Some a) (Some b) (Some c) = Inr [(300, c, ''detector.cpp'', 144)]"
  by (simp add: detector_main_def my_malloc_def my_free_def my_realloc_def add_entry_def drop_entry_def report_leaks_def)

end
