(* ===== verification/Semaphores.thy ===== *)
theory Semaphores
  imports Prelude
begin

text \<open>
  Threads that wait for a counter or a flag: the counting semaphore \<open>semaphore/countingSemaphore.c\<close> with its worker threads and the event
  of \<open>pureStorage/threadCallbackEventSync.cpp\<close>. A critical section is one step; a thread that waits on the condition variable sleeps until it
  is signalled or wakes up spuriously, and then evaluates its condition again.
\<close>

section \<open>The counting semaphore\<close>

definition sem_init_custom :: "int \<Rightarrow> int" where
  "sem_init_custom initial_value = initial_value"

text \<open>The critical section of \<open>sem_wait_custom\<close>: \<open>None\<close> when it waits, else the new count; and that of \<open>sem_post_custom\<close>.\<close>

definition sem_wait_custom :: "int \<Rightarrow> int option" where
  "sem_wait_custom count = (if count = 0 then None else Some (count - 1))"

definition sem_post_custom :: "int \<Rightarrow> int" where
  "sem_post_custom count = count + 1"

text \<open>A worker is about to lock the mutex in \<open>sem_wait_custom\<close>, asleep there, between the two calls, or has returned.\<close>

datatype sem_worker = SReady | SAsleep | SInside | SGone

record sem_sys =
  sem_count :: int
  sem_workers :: "sem_worker list"

definition sem_start :: "int \<Rightarrow> nat \<Rightarrow> sem_sys" where
  "sem_start initial_value n = \<lparr>sem_count = sem_init_custom initial_value, sem_workers = replicate n SReady\<rparr>"

inductive sem_step :: "bool \<Rightarrow> sem_sys \<Rightarrow> sem_sys \<Rightarrow> bool" where
  enter: "i < length (sem_workers s) \<Longrightarrow> sem_workers s ! i = SReady \<Longrightarrow> sem_wait_custom (sem_count s) = Some c \<Longrightarrow>
    sem_step False s \<lparr>sem_count = c, sem_workers = (sem_workers s)[i := SInside]\<rparr>"
| block: "i < length (sem_workers s) \<Longrightarrow> sem_workers s ! i = SReady \<Longrightarrow> sem_wait_custom (sem_count s) = None \<Longrightarrow>
    sem_step False s (s\<lparr>sem_workers := (sem_workers s)[i := SAsleep]\<rparr>)"
| post_wakes: "i < length (sem_workers s) \<Longrightarrow> sem_workers s ! i = SInside \<Longrightarrow> j < length (sem_workers s) \<Longrightarrow> sem_workers s ! j = SAsleep \<Longrightarrow>
    sem_step False s \<lparr>sem_count = sem_post_custom (sem_count s), sem_workers = (sem_workers s)[i := SGone, j := SReady]\<rparr>"
| post_alone: "i < length (sem_workers s) \<Longrightarrow> sem_workers s ! i = SInside \<Longrightarrow> SAsleep \<notin> set (sem_workers s) \<Longrightarrow>
    sem_step False s \<lparr>sem_count = sem_post_custom (sem_count s), sem_workers = (sem_workers s)[i := SGone]\<rparr>"
| spurious: "i < length (sem_workers s) \<Longrightarrow> sem_workers s ! i = SAsleep \<Longrightarrow>
    sem_step True s (s\<lparr>sem_workers := (sem_workers s)[i := SReady]\<rparr>)"

inductive sem_reachable :: "int \<Rightarrow> nat \<Rightarrow> sem_sys \<Rightarrow> bool" for c n where
  init: "sem_reachable c n (sem_start c n)"
| step: "sem_reachable c n s \<Longrightarrow> sem_step b s s' \<Longrightarrow> sem_reachable c n s'"

text \<open>\<open>main\<close>: five workers, of which two may be inside at a time.\<close>

definition countingSemaphore_main :: sem_sys where
  "countingSemaphore_main = sem_start 2 5"

text \<open>How many threads are in a state, and how the number changes with one of them.\<close>

definition many :: "'a \<Rightarrow> 'a list \<Rightarrow> int" where
  "many x xs = int (count_list xs x)"

lemma many_update:
  "i < length xs \<Longrightarrow> many x (xs[i := y]) = many x xs - (if xs ! i = x then 1 else 0) + (if y = x then 1 else 0)"
proof (induction xs arbitrary: i)
  case (Cons z xs)
  show ?case
  proof (cases i)
    case (Suc j)
    then show ?thesis using Cons.IH [of j] Cons.prems by (auto simp: many_def split: if_splits)
  qed (auto simp: many_def)
qed simp

lemma many_pos: "0 \<le> many x xs" "x \<in> set xs \<longleftrightarrow> 0 < many x xs"
  by (auto simp: many_def count_list_0_iff zero_less_iff_neq_zero)

lemma many_zero: "x \<notin> set xs \<longleftrightarrow> many x xs = 0"
  by (simp add: many_def count_list_0_iff)

definition sem_weight :: "sem_sys \<Rightarrow> int" where
  "sem_weight s = 3 * many SReady (sem_workers s) + 2 * many SAsleep (sem_workers s) + 2 * many SInside (sem_workers s)"

text \<open>A sleeper is never forgotten: while someone sleeps, there are at least as many ready threads as free places.\<close>

definition sem_inv :: "int \<Rightarrow> nat \<Rightarrow> sem_sys \<Rightarrow> bool" where
  "sem_inv c n s \<longleftrightarrow> 0 \<le> sem_count s \<and> sem_count s + many SInside (sem_workers s) = c \<and> length (sem_workers s) = n \<and>
     (0 < many SAsleep (sem_workers s) \<longrightarrow> sem_count s \<le> many SReady (sem_workers s))"

lemma sem_step_inv:
  assumes "sem_step b s s'" "sem_inv c n s"
  shows "sem_inv c n s'"
  using assms(1)
proof cases
  case (enter i d)
  then show ?thesis using assms(2) many_pos(1) [of SReady "sem_workers s"]
    by (auto simp: sem_inv_def sem_wait_custom_def many_update split: if_splits)
next
  case (block i)
  then show ?thesis using assms(2) many_pos(1) [of SReady "(sem_workers s)[i := SAsleep]"]
    by (auto simp: sem_inv_def sem_wait_custom_def many_update split: if_splits)
next
  case (post_wakes i j)
  then have "i \<noteq> j" by auto
  then show ?thesis using assms(2) post_wakes by (auto simp: sem_inv_def sem_post_custom_def many_update)
next
  case (post_alone i)
  then have "many SAsleep (sem_workers s) = 0" by (simp add: many_zero)
  then show ?thesis using assms(2) post_alone by (auto simp: sem_inv_def sem_post_custom_def many_update)
next
  case (spurious i)
  then show ?thesis using assms(2) many_pos(2) [of SAsleep "sem_workers s"] by (auto simp: sem_inv_def many_update)
qed

lemma sem_reachable_inv: "sem_reachable c n s \<Longrightarrow> 0 \<le> c \<Longrightarrow> sem_inv c n s"
proof (induction rule: sem_reachable.induct)
  case init
  have "many SInside (replicate n SReady) = 0" "many SAsleep (replicate n SReady) = 0" by (simp_all add: many_zero [symmetric])
  then show ?case using init by (simp add: sem_inv_def sem_start_def sem_init_custom_def)
next
  case (step s b s')
  then show ?case using sem_step_inv by blast
qed

lemma sem_step_weight: "sem_step False s s' \<Longrightarrow> sem_weight s' < sem_weight s"
proof (induction False s s' rule: sem_step.induct)
  case (post_wakes i s j)
  then have "i \<noteq> j" by auto
  then show ?case using post_wakes by (simp add: sem_weight_def many_update)
qed (auto simp: sem_weight_def many_update)

lemma sem_progress:
  assumes "sem_inv c n s" "0 < c" "\<not> set (sem_workers s) \<subseteq> {SGone}"
  shows "\<exists>s'. sem_step False s s'"
proof (cases "SReady \<in> set (sem_workers s)")
  case True
  then obtain i where "i < length (sem_workers s)" "sem_workers s ! i = SReady" by (auto simp: in_set_conv_nth)
  then show ?thesis using sem_step.enter [of i s] sem_step.block [of i s] by (cases "sem_wait_custom (sem_count s)") blast+
next
  case False
  have "SInside \<in> set (sem_workers s)"
  proof (rule ccontr)
    assume out: "SInside \<notin> set (sem_workers s)"
    obtain w where w: "w \<in> set (sem_workers s)" "w \<noteq> SGone" using assms(3) by blast
    then have "w = SAsleep" using False out by (metis sem_worker.exhaust)
    then have "SAsleep \<in> set (sem_workers s)" using w by simp
    then have "sem_count s \<le> 0" using assms(1) False many_pos(2) [of SAsleep] many_zero [of SReady] by (auto simp: sem_inv_def)
    then show False using assms(1,2) out many_zero [of SInside] by (auto simp: sem_inv_def)
  qed
  then obtain i where i: "i < length (sem_workers s)" "sem_workers s ! i = SInside" by (auto simp: in_set_conv_nth)
  show ?thesis
  proof (cases "SAsleep \<in> set (sem_workers s)")
    case True
    then obtain j where "j < length (sem_workers s)" "sem_workers s ! j = SAsleep" by (auto simp: in_set_conv_nth)
    then show ?thesis using sem_step.post_wakes [OF i] by blast
  qed (use sem_step.post_alone [OF i] in blast)
qed

text \<open>
  Claim C28: with an initial value \<open>c > 0\<close> at most \<open>c\<close> of the \<open>n\<close> workers are between \<open>sem_wait_custom\<close> and \<open>sem_post_custom\<close> in
  every reachable state, the count is the number of free places, some step other than a spurious wake-up is possible until all workers have returned,
  and every such step decreases a weight that is never negative: the workers cannot deadlock and all return.
\<close>

theorem semaphore_correct:
  assumes "sem_reachable c n s" "0 < c"
  shows "many SInside (sem_workers s) \<le> c \<and> sem_count s = c - many SInside (sem_workers s) \<and>
    (set (sem_workers s) \<subseteq> {SGone} \<or> (\<exists>s'. sem_step False s s')) \<and>
    0 \<le> sem_weight s \<and> (\<forall>s'. sem_step False s s' \<longrightarrow> sem_weight s' < sem_weight s)"
proof -
  have inv: "sem_inv c n s" using sem_reachable_inv [OF assms(1)] assms(2) by simp
  have "0 \<le> sem_weight s" using many_pos(1) [of _ "sem_workers s"] by (simp add: sem_weight_def)
  then show ?thesis using inv sem_progress [OF inv assms(2)] sem_step_weight by (auto simp: sem_inv_def)
qed

theorem semaphore_correct_witness: "many SInside (sem_workers countingSemaphore_main) \<le> 2 \<and> (\<exists>s'. sem_step False countingSemaphore_main s')"
proof -
  have "sem_reachable 2 5 countingSemaphore_main" unfolding countingSemaphore_main_def by (rule sem_reachable.init)
  moreover have "\<not> set (sem_workers countingSemaphore_main) \<subseteq> {SGone}" by (simp add: countingSemaphore_main_def sem_start_def)
  ultimately show ?thesis using semaphore_correct [of 2 5 countingSemaphore_main] by simp
qed

text \<open>With the initial value 0 all workers go to sleep for good.\<close>

lemma semaphore_zero_blocks: "\<exists>s. sem_reachable 0 1 s \<and> (\<nexists>s'. sem_step False s s') \<and> sem_workers s = [SAsleep]"
proof -
  let ?s = "(sem_start 0 1)\<lparr>sem_workers := [SAsleep]\<rparr>"
  have "sem_step False (sem_start 0 1) ?s"
    using sem_step.block [of 0 "sem_start 0 1"] by (simp add: sem_start_def sem_init_custom_def sem_wait_custom_def)
  then have "sem_reachable 0 1 ?s" by (rule sem_reachable.step [OF sem_reachable.init])
  moreover have "\<nexists>s'. sem_step False ?s s'" by (auto elim!: sem_step.cases simp: sem_start_def)
  ultimately show ?thesis by (intro exI [of _ ?s]) simp
qed

section \<open>Waiting for an event\<close>

text \<open>A user thread is about to lock the mutex in \<open>reg_cb\<close>, asleep there, or has executed its callback; the event thread sets the flag and then notifies.\<close>

datatype ev_user = UReady | UAsleep | UExecuted

datatype ev_handler = HRunning | HComplete | HNotified

record ev_sys =
  event_complete :: bool
  users :: "ev_user list"
  handler :: ev_handler

text \<open>The critical section of \<open>reg_cb\<close>, and the notification of all.\<close>

definition reg_cb :: "bool \<Rightarrow> ev_user" where
  "reg_cb complete = (if \<not> complete then UAsleep else UExecuted)"

definition ev_wake :: "ev_user \<Rightarrow> ev_user" where
  "ev_wake u = (if u = UAsleep then UReady else u)"

definition ev_start :: "nat \<Rightarrow> ev_sys" where
  "ev_start n = \<lparr>event_complete = False, users = replicate n UReady, handler = HRunning\<rparr>"

inductive ev_step :: "bool \<Rightarrow> ev_sys \<Rightarrow> ev_sys \<Rightarrow> bool" where
  call: "i < length (users s) \<Longrightarrow> users s ! i = UReady \<Longrightarrow>
    ev_step False s (s\<lparr>users := (users s)[i := reg_cb (event_complete s)]\<rparr>)"
| complete: "handler s = HRunning \<Longrightarrow> ev_step False s (s\<lparr>event_complete := True, handler := HComplete\<rparr>)"
| notify: "handler s = HComplete \<Longrightarrow> ev_step False s (s\<lparr>users := map ev_wake (users s), handler := HNotified\<rparr>)"
| wake_up: "i < length (users s) \<Longrightarrow> users s ! i = UAsleep \<Longrightarrow> ev_step True s (s\<lparr>users := (users s)[i := UReady]\<rparr>)"

inductive ev_reachable :: "nat \<Rightarrow> ev_sys \<Rightarrow> bool" for n where
  init: "ev_reachable n (ev_start n)"
| step: "ev_reachable n s \<Longrightarrow> ev_step b s s' \<Longrightarrow> ev_reachable n s'"

definition eventSync_main :: ev_sys where
  "eventSync_main = ev_start 3"

definition ev_weight :: "ev_sys \<Rightarrow> int" where
  "ev_weight s = many UReady (users s) +
     (case handler s of HRunning \<Rightarrow> int (length (users s)) + 2 | HComplete \<Rightarrow> int (length (users s)) + 1 | HNotified \<Rightarrow> 0)"

definition ev_inv :: "ev_sys \<Rightarrow> bool" where
  "ev_inv s \<longleftrightarrow> (event_complete s \<longleftrightarrow> handler s \<noteq> HRunning) \<and> (UExecuted \<in> set (users s) \<longrightarrow> event_complete s) \<and>
     (handler s = HNotified \<longrightarrow> UAsleep \<notin> set (users s))"

lemma ev_step_inv: "ev_step b s s' \<Longrightarrow> ev_inv s \<Longrightarrow> ev_inv s'"
proof (induction rule: ev_step.induct)
  case (call i s)
  then show ?case using set_update_subset_insert [of "users s" i "reg_cb (event_complete s)"]
    by (auto simp: ev_inv_def reg_cb_def split: if_splits)
next
  case (wake_up i s)
  then show ?case using set_update_subset_insert [of "users s" i UReady] by (auto simp: ev_inv_def)
qed (auto simp: ev_inv_def ev_wake_def split: if_splits)

lemma ev_reachable_inv: "ev_reachable n s \<Longrightarrow> ev_inv s"
proof (induction rule: ev_reachable.induct)
  case init
  show ?case by (simp add: ev_inv_def ev_start_def)
next
  case (step s b s')
  show ?case by (rule ev_step_inv [OF step(2,3)])
qed

lemma many_wake: "many UReady (map ev_wake us) \<le> int (length us)"
  unfolding many_def using count_le_length [of "map ev_wake us" UReady] by simp

lemma ev_step_weight: "ev_step False s s' \<Longrightarrow> ev_weight s' < ev_weight s"
proof (induction False s s' rule: ev_step.induct)
  case (notify s)
  then show ?case using many_wake [of "users s"] many_pos(1) [of UReady "users s"] by (simp add: ev_weight_def)
next
  case (call i s)
  then show ?case by (cases "handler s") (simp_all add: ev_weight_def many_update reg_cb_def)
qed (simp_all add: ev_weight_def)

text \<open>
  No user executes its callback before the event is complete; some step other than a spurious wake-up is possible until the event has been
  notified and every user has executed its callback, and every such step decreases a weight that is never negative.
\<close>

theorem event_sync_correct:
  assumes "ev_reachable n s"
  shows "(UExecuted \<in> set (users s) \<longrightarrow> event_complete s) \<and>
    (handler s = HNotified \<and> set (users s) \<subseteq> {UExecuted} \<or> (\<exists>s'. ev_step False s s')) \<and>
    0 \<le> ev_weight s \<and> (\<forall>s'. ev_step False s s' \<longrightarrow> ev_weight s' < ev_weight s)"
proof -
  have inv: "ev_inv s" by (rule ev_reachable_inv [OF assms])
  have "\<exists>s'. ev_step False s s'" if open': "\<not> (handler s = HNotified \<and> set (users s) \<subseteq> {UExecuted})"
  proof (cases "handler s")
    case HNotified
    then obtain u where u: "u \<in> set (users s)" "u \<noteq> UExecuted" using open' by blast
    have "UAsleep \<notin> set (users s)" using inv HNotified by (simp add: ev_inv_def)
    then have "u = UReady" using u by (metis ev_user.exhaust)
    then have "UReady \<in> set (users s)" using u by simp
    then show ?thesis using ev_step.call by (metis in_set_conv_nth)
  qed (use ev_step.complete ev_step.notify in blast)+
  moreover have "0 \<le> ev_weight s" using many_pos(1) [of UReady "users s"] by (cases "handler s") (simp_all add: ev_weight_def)
  ultimately show ?thesis using inv ev_step_weight by (auto simp: ev_inv_def)
qed

end
