(* ===== verification/Signal_Ring.thy ===== *)
theory Signal_Ring
  imports Circular_Buffer
begin

text \<open>
  The C version of the blocking circular buffer, \<open>circularQueue/circularBufferStaticProdCons.c\<close>, with its producer, its consumer and
  its handler of \<open>SIGINT\<close>. The handler takes no mutex: it may run between the test of a wait condition and the call that goes
  to sleep. The step relation therefore keeps the two apart; what happens between a lock and an unlock without a wait is one step. The struct has
  the fields of the C++ class, so its record is used; the two condition variables have one possible sleeper each.
\<close>

section \<open>The buffer\<close>

text \<open>\<open>mem\<close>: what \<open>malloc\<close> returns, the contents of the new memory or null.\<close>

definition cb_init :: "int list option \<Rightarrow> nat \<Rightarrow> int CircularBuffer option" where
  "cb_init mem capacity = (case mem of None \<Rightarrow> None
     | Some garbage \<Rightarrow> Some \<lparr>m_buffer = garbage, m_capacity = capacity, m_head = 0, m_tail = 0, m_size = 0\<rparr>)"

definition cb_destroy :: "int CircularBuffer \<Rightarrow> int CircularBuffer" where
  "cb_destroy cb = cb\<lparr>m_buffer := [], m_capacity := 0, m_size := 0\<rparr>"

definition cb_empty :: "int CircularBuffer \<Rightarrow> bool" where
  "cb_empty cb = (m_size cb = 0)"

definition cb_full :: "int CircularBuffer \<Rightarrow> bool" where
  "cb_full cb = (m_size cb = m_capacity cb)"

text \<open>\<open>cb_push\<close> and \<open>cb_pop\<close> behind their wait loops: the result false is \<open>None\<close>.\<close>

definition cb_push :: "bool \<Rightarrow> int CircularBuffer \<Rightarrow> int \<Rightarrow> int CircularBuffer option res" where
  "cb_push keep_running cb value =
     (if \<not> keep_running then Inr None
      else rbind (arr_set (m_buffer cb) (m_head cb) value) (\<lambda>b.
           rbind (umod (m_head cb + 1) (m_capacity cb)) (\<lambda>h.
           Inr (Some (cb\<lparr>m_buffer := b, m_head := h, m_size := m_size cb + 1\<rparr>)))))"

definition cb_pop :: "int CircularBuffer \<Rightarrow> (int \<times> int CircularBuffer) option res" where
  "cb_pop cb =
     (if cb_empty cb then Inr None
      else rbind (arr_get (m_buffer cb) (m_tail cb)) (\<lambda>v.
           rbind (umod (m_tail cb + 1) (m_capacity cb)) (\<lambda>t.
           Inr (Some (v, cb\<lparr>m_tail := t, m_size := m_size cb - 1\<rparr>)))))"

section \<open>The threads and the handler\<close>

text \<open>
  A thread is at the head of its loop, has locked the mutex and is about to test its wait condition, has found it true and still holds
  the mutex, sleeps, has been woken and waits for the mutex, or has returned.
\<close>

datatype place = AtLoop | Testing | Committed | Sleeping | Woken | Returned

record sig_sys =
  scb :: "int CircularBuffer"
  keep_running :: bool
  producer_at :: place
  produced :: int
  consumer_at :: place
  popped_values :: "int list"

definition holds_lock :: "place \<Rightarrow> bool" where
  "holds_lock p \<longleftrightarrow> p = Testing \<or> p = Committed"

definition signal :: "place \<Rightarrow> place" where
  "signal p = (if p = Sleeping then Woken else p)"

definition sig_start :: "int CircularBuffer \<Rightarrow> sig_sys" where
  "sig_start cb = \<lparr>scb = cb, keep_running = True, producer_at = AtLoop, produced = 0, consumer_at = AtLoop, popped_values = []\<rparr>"

text \<open>The actors of a step; \<open>Spurious\<close> is a wake-up without a signal. Incrementing the counter past \<open>INT_MAX\<close> is undefined and no step.\<close>

datatype sig_actor = Prod | Cons' | Handler | Spurious

inductive sig_step :: "sig_actor \<Rightarrow> sig_sys \<Rightarrow> sig_sys \<Rightarrow> bool" where
  p_enter: "producer_at s = AtLoop \<Longrightarrow> keep_running s \<Longrightarrow> produced s < INT_MAX \<Longrightarrow> \<not> holds_lock (consumer_at s) \<Longrightarrow>
    sig_step Prod s (s\<lparr>producer_at := Testing, produced := produced s + 1\<rparr>)"
| p_leave: "producer_at s = AtLoop \<Longrightarrow> \<not> keep_running s \<Longrightarrow> sig_step Prod s (s\<lparr>producer_at := Returned\<rparr>)"
| p_commit: "producer_at s = Testing \<Longrightarrow> cb_full (scb s) \<and> keep_running s \<Longrightarrow> sig_step Prod s (s\<lparr>producer_at := Committed\<rparr>)"
| p_push: "producer_at s = Testing \<Longrightarrow> \<not> (cb_full (scb s) \<and> keep_running s) \<Longrightarrow> cb_push (keep_running s) (scb s) (produced s) = Inr (Some cb) \<Longrightarrow>
    sig_step Prod s (s\<lparr>scb := cb, producer_at := AtLoop, consumer_at := signal (consumer_at s)\<rparr>)"
| p_fail: "producer_at s = Testing \<Longrightarrow> \<not> (cb_full (scb s) \<and> keep_running s) \<Longrightarrow> cb_push (keep_running s) (scb s) (produced s) = Inr None \<Longrightarrow>
    sig_step Prod s (s\<lparr>producer_at := Returned\<rparr>)"
| p_sleep: "producer_at s = Committed \<Longrightarrow> sig_step Prod s (s\<lparr>producer_at := Sleeping\<rparr>)"
| p_relock: "producer_at s = Woken \<Longrightarrow> \<not> holds_lock (consumer_at s) \<Longrightarrow> sig_step Prod s (s\<lparr>producer_at := Testing\<rparr>)"
| c_enter: "consumer_at s = AtLoop \<Longrightarrow> keep_running s \<Longrightarrow> \<not> holds_lock (producer_at s) \<Longrightarrow> sig_step Cons' s (s\<lparr>consumer_at := Testing\<rparr>)"
| c_leave: "consumer_at s = AtLoop \<Longrightarrow> \<not> keep_running s \<Longrightarrow> sig_step Cons' s (s\<lparr>consumer_at := Returned\<rparr>)"
| c_commit: "consumer_at s = Testing \<Longrightarrow> cb_empty (scb s) \<and> keep_running s \<Longrightarrow> sig_step Cons' s (s\<lparr>consumer_at := Committed\<rparr>)"
| c_pop: "consumer_at s = Testing \<Longrightarrow> \<not> (cb_empty (scb s) \<and> keep_running s) \<Longrightarrow> cb_pop (scb s) = Inr (Some (v, cb)) \<Longrightarrow>
    sig_step Cons' s (s\<lparr>scb := cb, consumer_at := AtLoop, popped_values := popped_values s @ [v], producer_at := signal (producer_at s)\<rparr>)"
| c_fail: "consumer_at s = Testing \<Longrightarrow> \<not> (cb_empty (scb s) \<and> keep_running s) \<Longrightarrow> cb_pop (scb s) = Inr None \<Longrightarrow>
    sig_step Cons' s (s\<lparr>consumer_at := Returned\<rparr>)"
| c_sleep: "consumer_at s = Committed \<Longrightarrow> sig_step Cons' s (s\<lparr>consumer_at := Sleeping\<rparr>)"
| c_relock: "consumer_at s = Woken \<Longrightarrow> \<not> holds_lock (producer_at s) \<Longrightarrow> sig_step Cons' s (s\<lparr>consumer_at := Testing\<rparr>)"
| handle_sigint: "sig_step Handler s (s\<lparr>keep_running := False, producer_at := signal (producer_at s), consumer_at := signal (consumer_at s)\<rparr>)"
| p_spurious: "producer_at s = Sleeping \<Longrightarrow> sig_step Spurious s (s\<lparr>producer_at := Woken\<rparr>)"
| c_spurious: "consumer_at s = Sleeping \<Longrightarrow> sig_step Spurious s (s\<lparr>consumer_at := Woken\<rparr>)"

inductive sig_reachable :: "int CircularBuffer \<Rightarrow> sig_sys \<Rightarrow> bool" for cb where
  init: "sig_reachable cb (sig_start cb)"
| step: "sig_reachable cb s \<Longrightarrow> sig_step a s s' \<Longrightarrow> sig_reachable cb s'"

text \<open>\<open>main\<close> starts the threads on a buffer of capacity 5.\<close>

definition sig_main :: "int list option \<Rightarrow> sig_sys option" where
  "sig_main mem = map_option sig_start (cb_init mem 5)"

section \<open>Order and bounds\<close>

lemma cb_push_returns:
  assumes "ring_inv cb" "\<not> (cb_full cb \<and> keep)"
  obtains (Stopped) "\<not> keep" "cb_push keep cb x = Inr None"
  | (Stored) cb' where "keep" "cb_push keep cb x = Inr (Some cb')" "ring_inv cb'" "m_capacity cb' = m_capacity cb" "ring_contents cb' = ring_contents cb @ [x]"
proof (cases keep)
  case True
  let ?cb' = "cb\<lparr>m_buffer := (m_buffer cb)[m_head cb := x], m_head := Suc (m_head cb) mod m_capacity cb, m_size := Suc (m_size cb)\<rparr>"
  have room: "m_size cb < m_capacity cb" using assms True by (auto simp: cb_full_def ring_inv_def)
  have "cb_push keep cb x = Inr (Some ?cb')" using True room ring_indices(1) [OF assms(1) room] by (simp add: cb_push_def)
  moreover have "ring_inv ?cb'" "ring_contents ?cb' = ring_contents cb @ [x]" using ring_store [OF assms(1) room, of ?cb' x] by simp_all
  ultimately show thesis using Stored [of ?cb'] True by simp
qed (use Stopped in \<open>simp add: cb_push_def\<close>)

lemma cb_pop_returns:
  assumes "ring_inv cb"
  obtains (Empty) "ring_contents cb = []" "cb_pop cb = Inr None"
  | (Taken) v cb' where "cb_pop cb = Inr (Some (v, cb'))" "ring_inv cb'" "m_capacity cb' = m_capacity cb" "ring_contents cb = v # ring_contents cb'"
proof (cases "ring_contents cb")
  case Nil
  then show thesis using Empty by (simp add: cb_pop_def cb_empty_def ring_contents_eq_Nil)
next
  case (Cons v vs)
  let ?cb' = "cb\<lparr>m_tail := Suc (m_tail cb) mod m_capacity cb, m_size := m_size cb - 1\<rparr>"
  have pos: "0 < m_size cb" using Cons by (metis list.distinct(1) neq0_conv ring_contents_eq_Nil)
  have adv: "ring_inv ?cb'" "ring_contents ?cb' = vs" "m_buffer cb ! m_tail cb = v" using ring_advance [OF assms Cons, of ?cb'] by simp_all
  then have "cb_pop cb = Inr (Some (v, ?cb'))"
    using pos ring_indices(2,3) [OF assms pos] by (simp add: cb_pop_def cb_empty_def)
  then show thesis using Taken [of v ?cb'] adv Cons by simp
qed

text \<open>
  The invariant: what was popped followed by what is in the ring are the numbers from 1 on, up to the one that the producer is about to push
  or has pushed last; the two threads do not hold the mutex at once.
\<close>

definition sig_inv :: "nat \<Rightarrow> sig_sys \<Rightarrow> bool" where
  "sig_inv c s \<longleftrightarrow> ring_inv (scb s) \<and> m_capacity (scb s) = c \<and> \<not> (holds_lock (producer_at s) \<and> holds_lock (consumer_at s)) \<and> 0 \<le> produced s \<and>
     (\<exists>n. popped_values s @ ring_contents (scb s) = [1..n] \<and> 0 \<le> n \<and>
       (producer_at s = AtLoop \<and> n = produced s \<or> producer_at s \<noteq> AtLoop \<and> n = produced s - 1 \<or> producer_at s = Returned \<and> n = produced s))"

lemma signal_place [simp]: "signal p = AtLoop \<longleftrightarrow> p = AtLoop" "signal p = Returned \<longleftrightarrow> p = Returned" "holds_lock (signal p) \<longleftrightarrow> holds_lock p"
  by (auto simp: signal_def holds_lock_def)

lemma holds_lock_simps [simp]: "holds_lock Testing" "holds_lock Committed" "\<not> holds_lock AtLoop" "\<not> holds_lock Sleeping" "\<not> holds_lock Woken" "\<not> holds_lock Returned"
  by (simp_all add: holds_lock_def)

lemma sig_step_inv:
  assumes "sig_step a s s'" "sig_inv c s"
  shows "sig_inv c s'"
  using assms(1)
proof cases
  case (p_push cb)
  have inv: "ring_inv (scb s)" using assms(2) by (simp add: sig_inv_def)
  obtain n where n: "popped_values s @ ring_contents (scb s) = [1..n]" "0 \<le> n" "n = produced s - 1" using assms(2) p_push by (auto simp: sig_inv_def)
  have "ring_inv cb \<and> m_capacity cb = m_capacity (scb s) \<and> ring_contents cb = ring_contents (scb s) @ [produced s]"
    by (rule cb_push_returns [OF inv p_push(4), of "produced s"]) (use p_push(5) in simp_all)
  moreover have "popped_values s @ ring_contents (scb s) @ [produced s] = [1..produced s]"
  proof -
    have "popped_values s @ ring_contents (scb s) @ [produced s] = [1..n] @ [produced s]" by (simp add: n(1) [symmetric])
    moreover have "produced s = n + 1" using n(3) by simp
    ultimately show ?thesis using upto_snoc [OF n(2)] by simp
  qed
  ultimately show ?thesis using assms(2) p_push n by (auto simp: sig_inv_def)
next
  case (c_pop v cb)
  have inv: "ring_inv (scb s)" using assms(2) by (simp add: sig_inv_def)
  have "ring_inv cb \<and> m_capacity cb = m_capacity (scb s) \<and> ring_contents (scb s) = v # ring_contents cb"
    by (rule cb_pop_returns [OF inv]) (use c_pop(5) in simp_all)
  then show ?thesis using assms(2) c_pop by (auto simp: sig_inv_def)
next
  case p_enter
  then show ?thesis using assms(2) by (auto simp: sig_inv_def)
next
  case p_fail
  then show ?thesis using assms(2) by (auto simp: sig_inv_def)
qed (use assms(2) in \<open>auto simp: sig_inv_def\<close>)

lemma sig_reachable_inv: "sig_reachable cb s \<Longrightarrow> ring_inv cb \<Longrightarrow> ring_contents cb = [] \<Longrightarrow> sig_inv (m_capacity cb) s"
proof (induction rule: sig_reachable.induct)
  case init
  then show ?case by (auto simp: sig_inv_def sig_start_def intro: exI [of _ 0])
next
  case (step s a s')
  then show ?case using sig_step_inv by blast
qed

text \<open>
  In every reachable state the values popped so far, followed by those in the ring, are the numbers 1, 2, 3, ... that the producer has pushed, in
  order and without a gap; a thread that tests its condition never leaves the array.
\<close>

theorem signal_ring_in_order:
  assumes "sig_reachable cb s" "cb_init (Some mem) c = Some cb" "length mem = c"
  shows "(\<exists>n. popped_values s @ ring_contents (scb s) = [1..n] \<and> produced s - 1 \<le> n \<and> n \<le> produced s) \<and>
    (\<not> (cb_full (scb s) \<and> keep_running s) \<longrightarrow> is_ok (cb_push (keep_running s) (scb s) x)) \<and> is_ok (cb_pop (scb s))"
proof -
  have "ring_inv cb" "ring_contents cb = []" using assms(2,3) by (auto simp: cb_init_def ring_inv_def ring_contents_def)
  then have inv: "sig_inv (m_capacity cb) s" by (rule sig_reachable_inv [OF assms(1)])
  then have ring: "ring_inv (scb s)" by (simp add: sig_inv_def)
  have "is_ok (cb_push (keep_running s) (scb s) x)" if room: "\<not> (cb_full (scb s) \<and> keep_running s)"
    by (rule cb_push_returns [OF ring room, of x]) (simp_all add: is_ok_iff)
  moreover have "is_ok (cb_pop (scb s))" by (rule cb_pop_returns [OF ring]) (simp_all add: is_ok_iff)
  ultimately show ?thesis using inv by (fastforce simp: sig_inv_def)
qed

text \<open>
  Claim C20: the interrupt can be lost. A reachable state of \<open>main\<close> has the interrupt handled, the producer returned and the
  consumer asleep, and no thread can take a step: the handler ran between the consumer's test and its going to sleep, so that its
  broadcast found nobody. Only a spurious wake-up or another interrupt ends the program.
\<close>

theorem interrupt_can_be_lost:
  "\<exists>cb s. cb_init (Some (replicate 5 0)) 5 = Some cb \<and> sig_reachable cb s \<and> \<not> keep_running s \<and> producer_at s = Returned \<and> consumer_at s = Sleeping \<and>
    (\<forall>s'. \<not> sig_step Prod s s' \<and> \<not> sig_step Cons' s s')"
proof -
  let ?cb = "\<lparr>m_buffer = replicate 5 0, m_capacity = 5, m_head = 0, m_tail = 0, m_size = 0\<rparr> :: int CircularBuffer"
  let ?s0 = "sig_start ?cb"
  let ?s1 = "?s0\<lparr>consumer_at := Testing\<rparr>"
  let ?s2 = "?s1\<lparr>consumer_at := Committed\<rparr>"
  let ?s3 = "?s2\<lparr>keep_running := False\<rparr>"
  let ?s4 = "?s3\<lparr>consumer_at := Sleeping\<rparr>"
  let ?s5 = "?s4\<lparr>producer_at := Returned\<rparr>"
  have r0: "sig_reachable ?cb ?s0" by (rule sig_reachable.init)
  have r1: "sig_reachable ?cb ?s1" by (rule sig_reachable.step [OF r0 sig_step.c_enter]) (simp_all add: sig_start_def)
  have r2: "sig_reachable ?cb ?s2" by (rule sig_reachable.step [OF r1 sig_step.c_commit]) (simp_all add: sig_start_def cb_empty_def)
  have "sig_step Handler ?s2 ?s3" using sig_step.handle_sigint [of ?s2] by (simp add: sig_start_def signal_def)
  then have r3: "sig_reachable ?cb ?s3" by (rule sig_reachable.step [OF r2])
  have r4: "sig_reachable ?cb ?s4" by (rule sig_reachable.step [OF r3 sig_step.c_sleep]) simp
  have r5: "sig_reachable ?cb ?s5" by (rule sig_reachable.step [OF r4 sig_step.p_leave]) (simp_all add: sig_start_def)
  have "\<not> sig_step Prod ?s5 s'" "\<not> sig_step Cons' ?s5 s'" for s' by (auto elim!: sig_step.cases)
  then show ?thesis using r5 by (intro exI [of _ ?cb] exI [of _ ?s5]) (simp add: cb_init_def)
qed

text \<open>The consumer also stops at once when the loop condition is false: what is still in the ring is never popped.\<close>

end
