(* ===== verification/Lru_Simple.thy ===== *)
theory Lru_Simple
  imports Lru_Spec Linked_Heap
begin

text \<open>
  The LRU cache of \<open>lruCache/simple/lruCacheSimple.c\<close>: a doubly linked list between two sentinels, most recently used first, and a
  table of 10000 node pointers indexed by the remainder of the key. The table has no chains and the key of a node is not compared, so that
  the cache is one of remainders: it is an LRU cache for the keys below 10000, and two keys with the same remainder are one.
\<close>

section \<open>The cache\<close>

record dnode =
  d_key :: int
  d_value :: int
  d_prev :: ptr
  d_next :: ptr

record LRUCache =
  ls_heap :: "dnode heap"
  ls_size :: int
  ls_capacity :: int
  ls_head :: ptr
  ls_tail :: ptr
  ls_hash :: "ptr list"

definition LS_CAPACITY :: int where "LS_CAPACITY = 3"

definition HASH_SLOTS :: nat where "HASH_SLOTS = 10000"

definition get_d_next :: "dnode heap \<Rightarrow> ptr \<Rightarrow> ptr res" where
  "get_d_next h p = rbind (load_obj h p) (\<lambda>n. Inr (d_next n))"

definition get_d_prev :: "dnode heap \<Rightarrow> ptr \<Rightarrow> ptr res" where
  "get_d_prev h p = rbind (load_obj h p) (\<lambda>n. Inr (d_prev n))"

definition set_d_next :: "dnode heap \<Rightarrow> ptr \<Rightarrow> ptr \<Rightarrow> dnode heap res" where
  "set_d_next h p q = rbind (load_obj h p) (\<lambda>n. store_obj h p (n\<lparr>d_next := q\<rparr>))"

definition set_d_prev :: "dnode heap \<Rightarrow> ptr \<Rightarrow> ptr \<Rightarrow> dnode heap res" where
  "set_d_prev h p q = rbind (load_obj h p) (\<lambda>n. store_obj h p (n\<lparr>d_prev := q\<rparr>))"

text \<open>\<open>junk\<close>: what \<open>malloc\<close> leaves in the fields that are not assigned.\<close>

definition createCache :: "dnode \<Rightarrow> int \<Rightarrow> LRUCache res" where
  "createCache junk capacity =
     (let (front, h) = new_obj junk empty_heap; (back, h) = new_obj junk h in
      rbind (set_d_next h (Some front) (Some back)) (\<lambda>h.
      rbind (set_d_prev h (Some back) (Some front)) (\<lambda>h.
      Inr \<lparr>ls_heap = h, ls_size = 0, ls_capacity = capacity, ls_head = Some front, ls_tail = Some back, ls_hash = replicate HASH_SLOTS None\<rparr>)))"

definition addNode :: "LRUCache \<Rightarrow> ptr \<Rightarrow> LRUCache res" where
  "addNode cache node =
     rbind (set_d_prev (ls_heap cache) node (ls_head cache)) (\<lambda>h.
     rbind (get_d_next h (ls_head cache)) (\<lambda>first.
     rbind (set_d_next h node first) (\<lambda>h.
     rbind (get_d_next h (ls_head cache)) (\<lambda>first.
     rbind (set_d_prev h first node) (\<lambda>h.
     rbind (set_d_next h (ls_head cache) node) (\<lambda>h. Inr (cache\<lparr>ls_heap := h\<rparr>)))))))"

definition removeNode :: "dnode heap \<Rightarrow> ptr \<Rightarrow> dnode heap res" where
  "removeNode h node =
     rbind (get_d_prev h node) (\<lambda>p. rbind (get_d_next h node) (\<lambda>q. rbind (set_d_next h p q) (\<lambda>h.
     rbind (get_d_next h node) (\<lambda>q. rbind (get_d_prev h node) (\<lambda>p. set_d_prev h q p)))))"

definition moveToHead :: "LRUCache \<Rightarrow> ptr \<Rightarrow> LRUCache res" where
  "moveToHead cache node = rbind (removeNode (ls_heap cache) node) (\<lambda>h. addNode (cache\<lparr>ls_heap := h\<rparr>) node)"

text \<open>\<open>key % 10000\<close> takes the sign of the key.\<close>

definition slot_index :: "int \<Rightarrow> int" where
  "slot_index key = (if 0 \<le> key then key mod int HASH_SLOTS else - ((- key) mod int HASH_SLOTS))"

definition lru_simple_get :: "LRUCache \<Rightarrow> int \<Rightarrow> (int \<times> LRUCache) res" where
  "lru_simple_get cache key =
     rbind (arr_geti (ls_hash cache) (slot_index key)) (\<lambda>node.
     if node \<noteq> None then
       rbind (moveToHead cache node) (\<lambda>cache.
       rbind (load_obj (ls_heap cache) node) (\<lambda>n. Inr (d_value n, cache)))
     else Inr (-1, cache))"

text \<open>The eviction at the end of \<open>put\<close>.\<close>

definition evict_lru :: "LRUCache \<Rightarrow> LRUCache res" where
  "evict_lru cache =
     rbind (get_d_prev (ls_heap cache) (ls_tail cache)) (\<lambda>lru.
     rbind (removeNode (ls_heap cache) lru) (\<lambda>h.
     rbind (load_obj h lru) (\<lambda>n.
     rbind (arr_seti (ls_hash cache) (slot_index (d_key n)) None) (\<lambda>table.
     rbind (delete_obj h lru) (\<lambda>h.
     rbind (chk32 (ls_size cache - 1)) (\<lambda>sz. Inr (cache\<lparr>ls_heap := h, ls_hash := table, ls_size := sz\<rparr>)))))))"

text \<open>A new node has its links written by \<open>addNode\<close> before they are read.\<close>

definition lru_simple_put :: "LRUCache \<Rightarrow> int \<Rightarrow> int \<Rightarrow> LRUCache res" where
  "lru_simple_put cache key value =
     rbind (arr_geti (ls_hash cache) (slot_index key)) (\<lambda>node.
     if node \<noteq> None then
       rbind (load_obj (ls_heap cache) node) (\<lambda>n.
       rbind (store_obj (ls_heap cache) node (n\<lparr>d_value := value\<rparr>)) (\<lambda>h. moveToHead (cache\<lparr>ls_heap := h\<rparr>) node))
     else
       (let (a, h) = new_obj \<lparr>d_key = key, d_value = value, d_prev = None, d_next = None\<rparr> (ls_heap cache) in
        rbind (arr_seti (ls_hash cache) (slot_index key) (Some a)) (\<lambda>table.
        rbind (addNode (cache\<lparr>ls_heap := h, ls_hash := table\<rparr>) (Some a)) (\<lambda>cache.
        rbind (chk32 (ls_size cache + 1)) (\<lambda>sz.
        let cache = cache\<lparr>ls_size := sz\<rparr> in
        if ls_size cache > ls_capacity cache then evict_lru cache else Inr cache)))))"

definition lruCacheSimple_main :: "dnode \<Rightarrow> int list res" where
  "lruCacheSimple_main junk =
     rbind (createCache junk LS_CAPACITY) (\<lambda>c.
     rbind (lru_simple_put c 1 100) (\<lambda>c. rbind (lru_simple_put c 2 200) (\<lambda>c. rbind (lru_simple_put c 3 300) (\<lambda>c.
     rbind (lru_simple_get c 1) (\<lambda>(v1, c).
     rbind (lru_simple_put c 4 400) (\<lambda>c.
     rbind (lru_simple_get c 2) (\<lambda>(v2, c). Inr [v1, v2])))))))"

section \<open>Doubly linked segments\<close>

text \<open>The links of a store as functions, and its payload: the key and the value of every allocated node.\<close>

definition nextof :: "dnode heap \<Rightarrow> addr \<Rightarrow> ptr" where
  "nextof h a = Option.bind (cells h a) d_next"

definition prevof :: "dnode heap \<Rightarrow> addr \<Rightarrow> ptr" where
  "prevof h a = Option.bind (cells h a) d_prev"

definition payload :: "dnode heap \<Rightarrow> addr \<Rightarrow> (int \<times> int) option" where
  "payload h a = map_option (\<lambda>n. (d_key n, d_value n)) (cells h a)"

fun dlink :: "(addr \<Rightarrow> ptr) \<Rightarrow> (addr \<Rightarrow> ptr) \<Rightarrow> addr list \<Rightarrow> bool" where
  "dlink nx pv (a # b # as) \<longleftrightarrow> nx a = Some b \<and> pv b = Some a \<and> dlink nx pv (b # as)"
| "dlink nx pv _ \<longleftrightarrow> True"

lemma dlink_append: "dlink nx pv (xs @ y # ys) \<longleftrightarrow> dlink nx pv (xs @ [y]) \<and> dlink nx pv (y # ys)"
  by (induction nx pv xs rule: dlink.induct) (auto simp: neq_Nil_conv)

lemma dlink_Cons: "dlink nx pv (a # as) \<longleftrightarrow> as = [] \<or> nx a = Some (hd as) \<and> pv (hd as) = Some a \<and> dlink nx pv as"
  by (cases as) auto

lemma dlink_snoc: "dlink nx pv (as @ [a]) \<longleftrightarrow> as = [] \<or> nx (last as) = Some a \<and> pv a = Some (last as) \<and> dlink nx pv as"
proof (cases as rule: rev_cases)
  case (snoc xs x)
  then show ?thesis using dlink_append [of nx pv xs x "[a]"] by auto
qed simp

lemma dlink_upd:
  "a \<notin> set (butlast as) \<Longrightarrow> dlink (nx(a := p)) pv as = dlink nx pv as"
  "a \<notin> set (tl as) \<Longrightarrow> dlink nx (pv(a := p)) as = dlink nx pv as"
  by (induction nx pv as rule: dlink.induct) auto

lemma dlink_upd_out: "a \<notin> set as \<Longrightarrow> dlink (nx(a := p)) pv as = dlink nx pv as"
  by (meson dlink_upd(1) in_set_butlastD)

text \<open>Taking a node out of a segment and putting one behind its first node, on the links alone.\<close>

lemma dlink_remove:
  assumes "dlink nx pv (xs @ p # a # q # ys)" "distinct (xs @ p # a # q # ys)"
  shows "dlink (nx(p := Some q)) (pv(q := Some p)) (xs @ p # q # ys)"
proof -
  have l: "dlink nx pv (xs @ [p])" "dlink nx pv (q # ys)"
    using assms(1) dlink_append [of nx pv xs p "a # q # ys"] by simp_all
  have "dlink (nx(p := Some q)) (pv(q := Some p)) (xs @ [p])"
    using l(1) assms(2) by (subst dlink_upd(1), simp, subst dlink_upd(2)) (cases xs; auto)+
  moreover have "dlink (nx(p := Some q)) (pv(q := Some p)) (q # ys)"
    using l(2) assms(2) by (simp add: dlink_upd_out dlink_upd(2))
  ultimately show ?thesis by (subst dlink_append) simp
qed

lemma dlink_add:
  assumes "dlink nx pv (z # q # ys)" "distinct (z # q # ys)" "a \<notin> set (z # q # ys)"
  shows "dlink (nx(a := Some q, z := Some a)) (pv(a := Some z, q := Some a)) (z # a # q # ys)"
proof -
  have "dlink (nx(a := Some q, z := Some a)) (pv(a := Some z, q := Some a)) (q # ys)"
    using assms by (simp add: dlink_upd_out dlink_upd(2))
  then show ?thesis using assms by auto
qed

fun walk_next :: "(addr \<Rightarrow> ptr) \<Rightarrow> nat \<Rightarrow> ptr \<Rightarrow> addr list" where
  "walk_next nx (Suc n) (Some a) = a # walk_next nx n (nx a)"
| "walk_next nx _ _ = []"

lemma walk_dlink: "dlink nx pv (a # as @ [b]) \<Longrightarrow> walk_next nx (length as) (nx a) = as"
  by (induction as arbitrary: a) auto

section \<open>The links after each operation\<close>

text \<open>The stores \<open>h\<close> and \<open>h'\<close> have the same nodes; \<open>h'\<close> has the links \<open>nx\<close> and \<open>pv\<close>.\<close>

definition relinks :: "dnode heap \<Rightarrow> (addr \<Rightarrow> ptr) \<Rightarrow> (addr \<Rightarrow> ptr) \<Rightarrow> dnode heap \<Rightarrow> bool" where
  "relinks h nx pv h' \<longleftrightarrow> nextof h' = nx \<and> prevof h' = pv \<and> payload h' = payload h \<and> brk h' = brk h"

lemma payload_cell: "payload h a \<noteq> None \<Longrightarrow> \<exists>n. cells h a = Some n"
  by (auto simp: payload_def)

lemma get_links [simp]:
  assumes "payload h a \<noteq> None"
  shows "get_d_next h (Some a) = Inr (nextof h a)" "get_d_prev h (Some a) = Inr (prevof h a)"
  using payload_cell [OF assms] by (auto simp: get_d_next_def get_d_prev_def nextof_def prevof_def)

lemma set_links:
  assumes "payload h a \<noteq> None"
  obtains (Next) h' where "set_d_next h (Some a) q = Inr h'" "relinks h ((nextof h)(a := q)) (prevof h) h'"
  using payload_cell [OF assms] by (auto simp: set_d_next_def relinks_def nextof_def prevof_def payload_def fun_eq_iff)

lemma set_back_links:
  assumes "payload h a \<noteq> None"
  obtains (Prev) h' where "set_d_prev h (Some a) q = Inr h'" "relinks h (nextof h) ((prevof h)(a := q)) h'"
  using payload_cell [OF assms] by (auto simp: set_d_prev_def relinks_def nextof_def prevof_def payload_def fun_eq_iff)

lemma removeNode_links:
  assumes "prevof h a = Some p" "nextof h a = Some q" "payload h a \<noteq> None" "payload h p \<noteq> None" "payload h q \<noteq> None" "a \<noteq> p"
  obtains h' where "removeNode h (Some a) = Inr h'" "relinks h ((nextof h)(p := Some q)) ((prevof h)(q := Some p)) h'"
proof -
  obtain h1 where 1: "set_d_next h (Some p) (Some q) = Inr h1" "relinks h ((nextof h)(p := Some q)) (prevof h) h1"
    using set_links assms(4) by blast
  then have pay: "payload h1 a \<noteq> None" "payload h1 q \<noteq> None" using assms by (simp_all add: relinks_def)
  obtain h2 where 2: "set_d_prev h1 (Some q) (Some p) = Inr h2" "relinks h1 (nextof h1) ((prevof h1)(q := Some p)) h2"
    using set_back_links pay(2) by blast
  have "removeNode h (Some a) = Inr h2" using 1 2(1) pay assms by (simp add: removeNode_def relinks_def)
  moreover have "relinks h ((nextof h)(p := Some q)) ((prevof h)(q := Some p)) h2" using 1(2) 2(2) by (simp add: relinks_def)
  ultimately show thesis by (rule that)
qed

lemma addNode_links:
  assumes "ls_head c = Some z" "nextof (ls_heap c) z = Some q" "payload (ls_heap c) a \<noteq> None" "payload (ls_heap c) z \<noteq> None"
    "payload (ls_heap c) q \<noteq> None" "a \<noteq> z"
  obtains h' where "addNode c (Some a) = Inr (c\<lparr>ls_heap := h'\<rparr>)"
    "relinks (ls_heap c) ((nextof (ls_heap c))(a := Some q, z := Some a)) ((prevof (ls_heap c))(a := Some z, q := Some a)) h'"
proof -
  let ?h = "ls_heap c"
  obtain h1 where 1: "set_d_prev ?h (Some a) (Some z) = Inr h1" "relinks ?h (nextof ?h) ((prevof ?h)(a := Some z)) h1"
    using set_back_links assms(3) by blast
  then obtain h2 where 2: "set_d_next h1 (Some a) (Some q) = Inr h2" "relinks h1 ((nextof h1)(a := Some q)) (prevof h1) h2"
    using set_links [of h1 a "Some q"] assms(3) by (auto simp: relinks_def)
  then obtain h3 where 3: "set_d_prev h2 (Some q) (Some a) = Inr h3" "relinks h2 (nextof h2) ((prevof h2)(q := Some a)) h3"
    using set_back_links [of h2 q "Some a"] assms(5) 1 by (auto simp: relinks_def)
  then obtain h4 where 4: "set_d_next h3 (Some z) (Some a) = Inr h4" "relinks h3 ((nextof h3)(z := Some a)) (prevof h3) h4"
    using set_links [of h3 z "Some a"] assms(4) 1 2 by (auto simp: relinks_def)
  have "addNode c (Some a) = Inr (c\<lparr>ls_heap := h4\<rparr>)"
    using 1 2 3 4 assms by (simp add: addNode_def relinks_def)
  moreover have "relinks ?h ((nextof ?h)(a := Some q, z := Some a)) ((prevof ?h)(a := Some z, q := Some a)) h4"
    using 1(2) 2(2) 3(2) 4(2) by (simp add: relinks_def)
  ultimately show thesis by (rule that)
qed

section \<open>The list between the sentinels\<close>

definition s_list :: "dnode heap \<Rightarrow> addr \<Rightarrow> addr list \<Rightarrow> addr \<Rightarrow> bool" where
  "s_list h z as t \<longleftrightarrow> heap_ok h \<and> dlink (nextof h) (prevof h) (z # as @ [t]) \<and> distinct (z # as @ [t]) \<and> (\<forall>a \<in> set (z # as @ [t]). payload h a \<noteq> None)"

lemma heap_ok_payload: "heap_ok h \<longleftrightarrow> (\<forall>a. brk h \<le> a \<longrightarrow> payload h a = None)"
  by (simp add: heap_ok_def payload_def)

lemma relinks_s_list:
  "relinks h nx pv h' \<Longrightarrow> s_list h' z as t \<longleftrightarrow> heap_ok h \<and> dlink nx pv (z # as @ [t]) \<and> distinct (z # as @ [t]) \<and> (\<forall>a \<in> set (z # as @ [t]). payload h a \<noteq> None)"
  by (simp add: s_list_def relinks_def heap_ok_payload)

lemma removeNode_list:
  assumes "s_list h z (xs @ a # ys) t"
  obtains h' where "removeNode h (Some a) = Inr h'" "s_list h' z (xs @ ys) t" "payload h' = payload h"
proof -
  obtain zs p where zs: "z # xs = zs @ [p]" by (metis list.distinct(1) rev_exhaust)
  obtain q ws where ws: "ys @ [t] = q # ws" by (cases "ys @ [t]") auto
  have list: "z # (xs @ a # ys) @ [t] = zs @ p # a # q # ws" using zs ws by (metis append.assoc append_Cons append_Nil)
  then have rest: "z # (xs @ ys) @ [t] = zs @ p # q # ws" using zs ws by (metis append.assoc append_Cons append_Nil)
  have d: "dlink (nextof h) (prevof h) (zs @ p # a # q # ws)" "distinct (zs @ p # a # q # ws)" "\<forall>x \<in> set (zs @ p # a # q # ws). payload h x \<noteq> None" "heap_ok h"
    using assms unfolding s_list_def list by simp_all
  have links: "nextof h a = Some q" "prevof h a = Some p" using d(1) dlink_append [of _ _ zs p "a # q # ws"] by auto
  obtain h' where h': "removeNode h (Some a) = Inr h'" "relinks h ((nextof h)(p := Some q)) ((prevof h)(q := Some p)) h'"
    using removeNode_links [OF links(2,1)] d(2,3) by auto
  have "s_list h' z (xs @ ys) t"
    unfolding relinks_s_list [OF h'(2)] rest using dlink_remove [OF d(1,2)] d(2-4) by auto
  then show thesis using that h' by (auto simp: relinks_def)
qed

lemma addNode_list:
  assumes "ls_head c = Some z" "s_list (ls_heap c) z as t" "payload (ls_heap c) a \<noteq> None" "a \<notin> set (z # as @ [t])"
  obtains h' where "addNode c (Some a) = Inr (c\<lparr>ls_heap := h'\<rparr>)" "s_list h' z (a # as) t" "payload h' = payload (ls_heap c)"
proof -
  obtain q ws where ws: "as @ [t] = q # ws" by (cases "as @ [t]") auto
  have d: "dlink (nextof (ls_heap c)) (prevof (ls_heap c)) (z # q # ws)" "distinct (z # q # ws)" "\<forall>x \<in> set (z # q # ws). payload (ls_heap c) x \<noteq> None"
    "heap_ok (ls_heap c)" using assms(2) unfolding s_list_def ws by simp_all
  have first: "nextof (ls_heap c) z = Some q" using d(1) by simp
  have new: "a \<notin> set (z # q # ws)" using assms(4) ws by (metis set_ConsD list.set_intros)
  obtain h' where h': "addNode c (Some a) = Inr (c\<lparr>ls_heap := h'\<rparr>)"
    "relinks (ls_heap c) ((nextof (ls_heap c))(a := Some q, z := Some a)) ((prevof (ls_heap c))(a := Some z, q := Some a)) h'"
    using addNode_links [OF assms(1) first assms(3)] d(3) new by auto
  have "s_list h' z (a # as) t"
    unfolding relinks_s_list [OF h'(2)] using dlink_add [OF d(1,2) new] d(2-4) new assms(3) ws by auto
  then show thesis using that h' by (auto simp: relinks_def)
qed

text \<open>Freeing a node that is not in the list.\<close>

lemma delete_list:
  assumes "s_list h z as t" "a \<notin> set (z # as @ [t])" "payload h a \<noteq> None"
  obtains h' where "delete_obj h (Some a) = Inr h'" "s_list h' z as t" "payload h' = (payload h)(a := None)"
proof -
  let ?h = "h\<lparr>cells := (cells h)(a := None)\<rparr>"
  obtain n where n: "cells h a = Some n" using payload_cell [OF assms(3)] by blast
  have f: "nextof ?h = (nextof h)(a := None)" "prevof ?h = (prevof h)(a := None)" "payload ?h = (payload h)(a := None)"
    by (simp_all add: nextof_def prevof_def payload_def fun_eq_iff)
  have "dlink (nextof ?h) (prevof ?h) (z # as @ [t])"
    using assms(1,2) unfolding f s_list_def by (subst dlink_upd_out, simp, subst dlink_upd(2)) auto
  then have "s_list ?h z as t" using assms unfolding s_list_def f by auto
  then show thesis using that n f by simp
qed

section \<open>The invariant\<close>

text \<open>An entry of the cache is the remainder of the key of a node with the value of the node.\<close>

definition s_entry :: "dnode heap \<Rightarrow> addr \<Rightarrow> int \<times> int" where
  "s_entry h a = (case payload h a of None \<Rightarrow> (0, 0) | Some (k, v) \<Rightarrow> (k mod int HASH_SLOTS, v))"

definition s_table :: "ptr list \<Rightarrow> dnode heap \<Rightarrow> addr list \<Rightarrow> bool" where
  "s_table table h as \<longleftrightarrow> length table = HASH_SLOTS \<and> (\<forall>a \<in> set as. \<exists>k v. payload h a = Some (k, v) \<and> 0 \<le> k) \<and>
     (\<forall>i a. i < HASH_SLOTS \<longrightarrow> table ! i = Some a \<longleftrightarrow> a \<in> set as \<and> fst (s_entry h a) = int i)"

definition s_rep :: "LRUCache \<Rightarrow> addr list \<Rightarrow> bool" where
  "s_rep c as \<longleftrightarrow> (\<exists>z t. ls_head c = Some z \<and> ls_tail c = Some t \<and> s_list (ls_heap c) z as t) \<and>
     ls_size c = int (length as) \<and> s_table (ls_hash c) (ls_heap c) as"

definition s_inv :: "nat \<Rightarrow> LRUCache \<Rightarrow> bool" where
  "s_inv n c \<longleftrightarrow> ls_capacity c = int n \<and> int n < INT_MAX \<and> (\<exists>as. s_rep c as \<and> length as \<le> n)"

definition s_items :: "LRUCache \<Rightarrow> (int \<times> int) list" where
  "s_items c = (case ls_head c of None \<Rightarrow> [] | Some z \<Rightarrow>
     map (s_entry (ls_heap c)) (walk_next (nextof (ls_heap c)) (nat (ls_size c)) (nextof (ls_heap c) z)))"

lemma s_items_rep: "s_rep c as \<Longrightarrow> s_items c = map (s_entry (ls_heap c)) as"
  by (auto simp: s_rep_def s_items_def s_list_def walk_dlink)

lemma s_entry_cong: "payload h' a = payload h a \<Longrightarrow> s_entry h' a = s_entry h a"
  by (simp add: s_entry_def)

lemma slot_index_nonneg:
  assumes "0 \<le> key"
  obtains i where "i < HASH_SLOTS" "slot_index key = int i" "key mod int HASH_SLOTS = int i"
proof
  show "nat (key mod int HASH_SLOTS) < HASH_SLOTS" by (simp add: HASH_SLOTS_def)
  show "slot_index key = int (nat (key mod int HASH_SLOTS))" "key mod int HASH_SLOTS = int (nat (key mod int HASH_SLOTS))"
    using assms by (simp_all add: slot_index_def HASH_SLOTS_def)
qed

lemma s_table_entry:
  assumes "s_table table h as" "a \<in> set as"
  obtains i k v where "i < HASH_SLOTS" "payload h a = Some (k, v)" "0 \<le> k" "s_entry h a = (int i, v)" "slot_index k = int i" "table ! i = Some a"
proof -
  obtain k v where kv: "payload h a = Some (k, v)" "0 \<le> k" using assms by (auto simp: s_table_def)
  obtain i where i: "i < HASH_SLOTS" "slot_index k = int i" "k mod int HASH_SLOTS = int i" by (rule slot_index_nonneg [OF kv(2)])
  have e: "s_entry h a = (int i, v)" using kv i by (simp add: s_entry_def)
  moreover have "table ! i = Some a" using assms i(1) e by (auto simp: s_table_def)
  ultimately show thesis using that kv i by blast
qed

lemma s_rep_distinct:
  assumes "s_rep c as"
  shows "distinct (map fst (map (s_entry (ls_heap c)) as))"
proof -
  have t: "s_table (ls_hash c) (ls_heap c) as" and d: "distinct as" using assms by (auto simp: s_rep_def s_list_def)
  have "inj_on (\<lambda>a. fst (s_entry (ls_heap c) a)) (set as)"
  proof (rule inj_onI)
    fix a b assume ab: "a \<in> set as" "b \<in> set as" "fst (s_entry (ls_heap c) a) = fst (s_entry (ls_heap c) b)"
    show "a = b"
      by (rule s_table_entry [OF t ab(1)], rule s_table_entry [OF t ab(2)]) (use ab(3) in simp)
  qed
  then show ?thesis using d by (simp add: distinct_map o_def)
qed

text \<open>The slot of a key tells whether the cache has the entry, and where.\<close>

lemma s_lookup:
  assumes "s_rep c as" "0 \<le> key"
  obtains (Absent) i where "i < HASH_SLOTS" "slot_index key = int i" "key mod int HASH_SLOTS = int i" "ls_hash c ! i = None"
    "key mod int HASH_SLOTS \<notin> fst ` set (s_items c)"
  | (Present) i xs a ys k v where "i < HASH_SLOTS" "slot_index key = int i" "key mod int HASH_SLOTS = int i" "ls_hash c ! i = Some a" "as = xs @ a # ys"
    "payload (ls_heap c) a = Some (k, v)" "s_entry (ls_heap c) a = (key mod int HASH_SLOTS, v)"
proof -
  obtain i where i: "i < HASH_SLOTS" "slot_index key = int i" "key mod int HASH_SLOTS = int i" by (rule slot_index_nonneg [OF assms(2)])
  have t: "s_table (ls_hash c) (ls_heap c) as" using assms by (simp add: s_rep_def)
  show thesis
  proof (cases "ls_hash c ! i")
    case None
    have "key mod int HASH_SLOTS \<notin> fst ` set (s_items c)"
    proof
      assume "key mod int HASH_SLOTS \<in> fst ` set (s_items c)"
      then obtain a where a: "a \<in> set as" "fst (s_entry (ls_heap c) a) = int i" using s_items_rep [OF assms(1)] i(3) by auto
      show False by (rule s_table_entry [OF t a(1)]) (use a(2) None in simp)
    qed
    then show thesis using Absent i None by blast
  next
    case (Some a)
    then have a: "a \<in> set as" "fst (s_entry (ls_heap c) a) = int i" using t i(1) by (auto simp: s_table_def)
    then obtain xs ys where "as = xs @ a # ys" by (auto simp: in_set_conv_decomp)
    moreover obtain k v where "payload (ls_heap c) a = Some (k, v)" "s_entry (ls_heap c) a = (key mod int HASH_SLOTS, v)"
      by (rule s_table_entry [OF t a(1)]) (use a(2) i(3) in simp)
    ultimately show thesis using Present i Some by blast
  qed
qed

section \<open>The operations\<close>

lemma s_table_set: "set as = set bs \<Longrightarrow> s_table table h as = s_table table h bs"
  by (simp add: s_table_def)

lemma s_table_payload: "payload h' = payload h \<Longrightarrow> s_table table h' as = s_table table h as"
  by (simp add: s_table_def s_entry_def)

lemma moveToHead_rep:
  assumes "s_rep c (xs @ a # ys)"
  obtains h' where "moveToHead c (Some a) = Inr (c\<lparr>ls_heap := h'\<rparr>)" "s_rep (c\<lparr>ls_heap := h'\<rparr>) (a # xs @ ys)" "payload h' = payload (ls_heap c)"
proof -
  obtain z t where zt: "ls_head c = Some z" "ls_tail c = Some t" "s_list (ls_heap c) z (xs @ a # ys) t" using assms by (auto simp: s_rep_def)
  obtain h1 where h1: "removeNode (ls_heap c) (Some a) = Inr h1" "s_list h1 z (xs @ ys) t" "payload h1 = payload (ls_heap c)"
    using removeNode_list [OF zt(3)] by blast
  obtain h2 where h2: "addNode (c\<lparr>ls_heap := h1\<rparr>) (Some a) = Inr (c\<lparr>ls_heap := h2\<rparr>)" "s_list h2 z (a # xs @ ys) t" "payload h2 = payload h1"
    using addNode_list [of "c\<lparr>ls_heap := h1\<rparr>" z "xs @ ys" t a] zt h1 by (auto simp: s_list_def)
  have "s_table (ls_hash c) (ls_heap c) (a # xs @ ys)" using assms s_table_set [of "a # xs @ ys" "xs @ a # ys"] by (auto simp: s_rep_def)
  then have "s_rep (c\<lparr>ls_heap := h2\<rparr>) (a # xs @ ys)"
    using assms zt h2 h1 s_table_payload [of h2 "ls_heap c"] by (simp add: s_rep_def)
  then show thesis using that [of h2] h1 h2 by (simp add: moveToHead_def)
qed

lemma evict_rep:
  assumes "s_rep c (as @ [l])" "int (length as) \<le> INT_MAX"
  obtains c' where "evict_lru c = Inr c'" "s_rep c' as" "ls_capacity c' = ls_capacity c" "map (s_entry (ls_heap c')) as = map (s_entry (ls_heap c)) as"
proof -
  obtain z t where zt: "ls_head c = Some z" "ls_tail c = Some t" "s_list (ls_heap c) z (as @ [l] @ []) t" and sz: "ls_size c = int (length as) + 1"
    and tab: "s_table (ls_hash c) (ls_heap c) (as @ [l])" using assms(1) by (auto simp: s_rep_def)
  have last: "get_d_prev (ls_heap c) (Some t) = Inr (Some l)"
    using zt(3) dlink_snoc [of _ _ "z # as @ [l]" t] by (auto simp: s_list_def)
  obtain h1 where h1: "removeNode (ls_heap c) (Some l) = Inr h1" "s_list h1 z as t" "payload h1 = payload (ls_heap c)"
    using removeNode_list [of _ z as l "[]" t] zt(3) by (metis append_Cons append_Nil append_Nil2)
  obtain i k v where i: "i < HASH_SLOTS" "payload (ls_heap c) l = Some (k, v)" "s_entry (ls_heap c) l = (int i, v)" "slot_index k = int i"
    by (rule s_table_entry [OF tab, of l]) auto
  have out: "l \<notin> set (z # as @ [t])" using zt(3) by (auto simp: s_list_def)
  obtain h2 where h2: "delete_obj h1 (Some l) = Inr h2" "s_list h2 z as t" "payload h2 = (payload h1)(l := None)"
    using delete_list [OF h1(2) out] h1(3) i(2) by auto
  obtain n where n: "load_obj h1 (Some l) = Inr n" "d_key n = k"
  proof -
    have "payload h1 l = Some (k, v)" using i(2) h1(3) by simp
    then show thesis using that by (auto simp: payload_def load_obj_def)
  qed
  have e: "s_entry h2 a = s_entry (ls_heap c) a" "payload h2 a = payload (ls_heap c) a" if "a \<noteq> l" for a
    using h2(3) h1(3) that by (simp_all add: s_entry_def)
  let ?t = "(ls_hash c)[i := None]"
  let ?c = "c\<lparr>ls_heap := h2, ls_hash := ?t, ls_size := int (length as)\<rparr>"
  have "s_table ?t h2 as"
    unfolding s_table_def
  proof (intro conjI ballI allI impI)
    show "length ?t = HASH_SLOTS" using tab by (simp add: s_table_def)
    show "\<exists>k v. payload h2 a = Some (k, v) \<and> 0 \<le> k" if "a \<in> set as" for a
    proof -
      have "a \<noteq> l" using that out by auto
      then show ?thesis using tab that e(2) by (simp add: s_table_def)
    qed
    show "?t ! j = Some a \<longleftrightarrow> a \<in> set as \<and> fst (s_entry h2 a) = int j" if j: "j < HASH_SLOTS" for j a
    proof (cases "j = i")
      case True
      have "fst (s_entry h2 a) \<noteq> int i" if "a \<in> set as" for a
      proof -
        have "a \<noteq> l" using that out by auto
        then show ?thesis using s_rep_distinct [OF assms(1)] that i(3) e(1) [of a] by (force simp: image_iff)
      qed
      then show ?thesis using True i(1) tab by (auto simp: s_table_def)
    next
      case False
      then show ?thesis using tab j i(3) out e(1) [of a] by (cases "a = l") (auto simp: s_table_def)
    qed
  qed
  then have "s_rep ?c as" using zt h2(2) by (auto simp: s_rep_def)
  moreover have "evict_lru c = Inr ?c"
    using last h1(1) h2(1) n i tab sz assms(2) zt(2) by (simp add: evict_lru_def s_table_def)
  moreover have "map (s_entry (ls_heap ?c)) as = map (s_entry (ls_heap c)) as" using out by (auto intro!: e(1))
  ultimately show thesis using that by simp
qed

lemma s_invI: "s_rep c as \<Longrightarrow> length as \<le> n \<Longrightarrow> ls_capacity c = int n \<Longrightarrow> int n < INT_MAX \<Longrightarrow> s_inv n c"
  by (auto simp: s_inv_def)

lemma s_invE:
  assumes "s_inv n c"
  obtains as where "s_rep c as" "length as \<le> n" "ls_capacity c = int n" "int n < INT_MAX" "s_items c = map (s_entry (ls_heap c)) as"
    "distinct (map fst (s_items c))" "length (s_items c) \<le> n"
  using assms s_items_rep s_rep_distinct by (fastforce simp: s_inv_def)

lemma lru_simple_get_ok:
  assumes "s_inv n c" "0 \<le> key"
  shows "\<exists>c'. lru_simple_get c key = Inr (case map_of (s_items c) (key mod int HASH_SLOTS) of None \<Rightarrow> -1 | Some v \<Rightarrow> v, c') \<and>
    s_inv n c' \<and> s_items c' = touch (key mod int HASH_SLOTS) (s_items c)"
proof -
  let ?k = "key mod int HASH_SLOTS"
  obtain as where as: "s_rep c as" "length as \<le> n" "ls_capacity c = int n" "int n < INT_MAX" "s_items c = map (s_entry (ls_heap c)) as"
    "distinct (map fst (s_items c))" using s_invE [OF assms(1)] by blast
  have len: "length (ls_hash c) = HASH_SLOTS" using as(1) by (simp add: s_rep_def s_table_def)
  show ?thesis
  proof (rule s_lookup [OF as(1) assms(2)])
    fix i assume i: "i < HASH_SLOTS" "slot_index key = int i" "ls_hash c ! i = None" "?k \<notin> fst ` set (s_items c)"
    then have "map_of (s_items c) ?k = None" by (simp add: map_of_eq_None_iff)
    moreover have "lru_simple_get c key = Inr (-1, c)" using i len by (simp add: lru_simple_get_def)
    ultimately show ?thesis using assms(1) by (simp add: touch_def)
  next
    fix i xs a ys k v assume a: "i < HASH_SLOTS" "slot_index key = int i" "ls_hash c ! i = Some a" "as = xs @ a # ys"
      "payload (ls_heap c) a = Some (k, v)" "s_entry (ls_heap c) a = (?k, v)"
    let ?e = "s_entry (ls_heap c)"
    obtain h' where h': "moveToHead c (Some a) = Inr (c\<lparr>ls_heap := h'\<rparr>)" "s_rep (c\<lparr>ls_heap := h'\<rparr>) (a # xs @ ys)" "payload h' = payload (ls_heap c)"
      using moveToHead_rep as(1) a(4) by metis
    have "payload h' a = Some (k, v)" using h'(3) a(5) by simp
    then obtain nd where nd: "load_obj h' (Some a) = Inr nd" "d_value nd = v" by (auto simp: payload_def load_obj_def)
    have get: "lru_simple_get c key = Inr (v, c\<lparr>ls_heap := h'\<rparr>)" using a(1-3) len h'(1) nd by (simp add: lru_simple_get_def)
    have its: "s_items c = map ?e xs @ (?k, v) # map ?e ys" using as(5) a(4,6) by simp
    have "s_items (c\<lparr>ls_heap := h'\<rparr>) = (?k, v) # map ?e xs @ map ?e ys"
      using s_items_rep [OF h'(2)] h'(3) a(6) by (simp add: s_entry_def)
    moreover have "touch ?k (s_items c) = (?k, v) # map ?e xs @ map ?e ys" "map_of (s_items c) ?k = Some v"
      using as(6) unfolding its touch_def by (simp_all only: map_of_split without_split option.case)
    moreover have "s_inv n (c\<lparr>ls_heap := h'\<rparr>)" using s_invI [OF h'(2)] as a(4) by simp
    ultimately show ?thesis using get by simp
  qed
qed

text \<open>A put of a remainder that is in the cache.\<close>

lemma put_present:
  assumes "s_rep c (xs @ a # ys)" "payload (ls_heap c) a = Some (k, v)"
  obtains c' where "rbind (load_obj (ls_heap c) (Some a)) (\<lambda>n. rbind (store_obj (ls_heap c) (Some a) (n\<lparr>d_value := value\<rparr>))
      (\<lambda>h. moveToHead (c\<lparr>ls_heap := h\<rparr>) (Some a))) = Inr c'"
    "s_rep c' (a # xs @ ys)" "ls_capacity c' = ls_capacity c" "s_items c' = (k mod int HASH_SLOTS, value) # map (s_entry (ls_heap c)) (xs @ ys)"
proof -
  obtain nd where nd: "cells (ls_heap c) a = Some nd" "d_key nd = k" using assms(2) by (auto simp: payload_def)
  let ?h = "(ls_heap c)\<lparr>cells := (cells (ls_heap c))(a \<mapsto> nd\<lparr>d_value := value\<rparr>)\<rparr>"
  have pay: "payload ?h = (payload (ls_heap c))(a := Some (k, value))" and rel: "nextof ?h = nextof (ls_heap c)" "prevof ?h = prevof (ls_heap c)" "brk ?h = brk (ls_heap c)"
    using nd by (simp_all add: payload_def nextof_def prevof_def fun_eq_iff)
  have e: "fst (s_entry ?h b) = fst (s_entry (ls_heap c) b)" "b \<noteq> a \<Longrightarrow> s_entry ?h b = s_entry (ls_heap c) b" for b
    using pay assms(2) by (simp_all add: s_entry_def)
  have "s_table (ls_hash c) ?h (xs @ a # ys)" using assms(1) pay assms(2) e(1) by (auto simp: s_rep_def s_table_def)
  moreover have "s_list ?h z bs t" if "s_list (ls_heap c) z bs t" for z bs t
    using that pay rel assms(2) by (auto simp: s_list_def heap_ok_payload)
  ultimately have rep: "s_rep (c\<lparr>ls_heap := ?h\<rparr>) (xs @ a # ys)" using assms(1) by (auto simp: s_rep_def)
  obtain h' where h': "moveToHead (c\<lparr>ls_heap := ?h\<rparr>) (Some a) = Inr (c\<lparr>ls_heap := h'\<rparr>)" "s_rep (c\<lparr>ls_heap := h'\<rparr>) (a # xs @ ys)" "payload h' = payload ?h"
    using moveToHead_rep [OF rep] by auto
  have "a \<notin> set (xs @ ys)" using assms(1) by (auto simp: s_rep_def s_list_def)
  then have "map (s_entry h') (xs @ ys) = map (s_entry (ls_heap c)) (xs @ ys)"
    using s_entry_cong [of h' _ "ls_heap c"] h'(3) pay by (auto intro!: s_entry_cong)
  moreover have "s_entry h' a = (k mod int HASH_SLOTS, value)" using h'(3) pay by (simp add: s_entry_def)
  ultimately have "s_items (c\<lparr>ls_heap := h'\<rparr>) = (k mod int HASH_SLOTS, value) # map (s_entry (ls_heap c)) (xs @ ys)"
    using s_items_rep [OF h'(2)] by simp
  then show thesis using that [of "c\<lparr>ls_heap := h'\<rparr>"] h' nd(1) by simp
qed

text \<open>A put of a new remainder: the node in front, before the eviction.\<close>

lemma put_absent:
  fixes w :: int
  assumes "s_rep c as" "0 \<le> key" "i < HASH_SLOTS" "slot_index key = int i" "key mod int HASH_SLOTS = int i" "ls_hash c ! i = None"
    and new: "int i \<notin> fst ` set (s_items c)"
  defines "a \<equiv> brk (ls_heap c)"
  defines "h \<equiv> snd (new_obj \<lparr>d_key = key, d_value = w, d_prev = None, d_next = None\<rparr> (ls_heap c))"
  defines "c1 \<equiv> c\<lparr>ls_heap := h, ls_hash := (ls_hash c)[i := Some a]\<rparr>"
  obtains h' where "addNode c1 (Some a) = Inr (c1\<lparr>ls_heap := h'\<rparr>)" "s_rep (c1\<lparr>ls_heap := h', ls_size := ls_size c + 1\<rparr>) (a # as)"
    "map (s_entry h') (a # as) = (int i, w) # map (s_entry (ls_heap c)) as"
proof -
  obtain z t where zt: "ls_head c = Some z" "ls_tail c = Some t" "s_list (ls_heap c) z as t" and sz: "ls_size c = int (length as)"
    and tab: "s_table (ls_hash c) (ls_heap c) as" using assms(1) by (auto simp: s_rep_def)
  have ok: "heap_ok (ls_heap c)" "payload (ls_heap c) a = None" using zt(3) by (auto simp: s_list_def heap_ok_payload a_def)
  have out: "a \<notin> set (z # as @ [t])" using zt(3) ok(2) unfolding s_list_def by blast
  have f: "nextof h = (nextof (ls_heap c))(a := None)" "prevof h = (prevof (ls_heap c))(a := None)" "payload h = (payload (ls_heap c))(a := Some (key, w))"
    by (simp_all add: h_def a_def new_obj_def nextof_def prevof_def payload_def fun_eq_iff)
  have "heap_ok h" using ok(1) by (simp add: h_def new_obj_def)
  moreover have "dlink (nextof h) (prevof h) (z # as @ [t])"
    using zt(3) out unfolding f s_list_def by (subst dlink_upd_out, simp, subst dlink_upd(2)) auto
  ultimately have "s_list h z as t" using zt(3) f(3) by (auto simp: s_list_def)
  then obtain h' where h': "addNode c1 (Some a) = Inr (c1\<lparr>ls_heap := h'\<rparr>)" "s_list h' z (a # as) t" "payload h' = payload h"
    using addNode_list [of c1 z as t a] zt(1) out f(3) by (auto simp: c1_def)
  have e: "s_entry h' a = (int i, w)" "b \<noteq> a \<Longrightarrow> s_entry h' b = s_entry (ls_heap c) b" for b
    using h'(3) f(3) assms(5) by (simp_all add: s_entry_def)
  have old: "\<forall>b \<in> set as. b \<noteq> a \<and> s_entry h' b = s_entry (ls_heap c) b \<and> payload h' b = payload (ls_heap c) b \<and> fst (s_entry (ls_heap c) b) \<noteq> int i"
  proof
    fix b assume b: "b \<in> set as"
    then have "b \<noteq> a" using out by auto
    then show "b \<noteq> a \<and> s_entry h' b = s_entry (ls_heap c) b \<and> payload h' b = payload (ls_heap c) b \<and> fst (s_entry (ls_heap c) b) \<noteq> int i"
      using e(2) h'(3) f(3) new s_items_rep [OF assms(1)] b by (force simp: image_iff)
  qed
  have "s_table ((ls_hash c)[i := Some a]) h' (a # as)"
    unfolding s_table_def
  proof (intro conjI ballI allI impI)
    show "length ((ls_hash c)[i := Some a]) = HASH_SLOTS" using tab by (simp add: s_table_def)
    show "\<exists>k v. payload h' b = Some (k, v) \<and> 0 \<le> k" if "b \<in> set (a # as)" for b
      using that tab old h'(3) f(3) assms(2) by (auto simp: s_table_def)
    show "(ls_hash c)[i := Some a] ! j = Some b \<longleftrightarrow> b \<in> set (a # as) \<and> fst (s_entry h' b) = int j" if j: "j < HASH_SLOTS" for j b
    proof (cases "j = i")
      case True
      then show ?thesis using tab assms(3) old e(1) by (auto simp: s_table_def)
    next
      case False
      then have "(ls_hash c)[i := Some a] ! j = ls_hash c ! j" "b = a \<Longrightarrow> fst (s_entry h' b) \<noteq> int j" using e(1) by simp_all
      moreover have "ls_hash c ! j = Some b \<longleftrightarrow> b \<in> set as \<and> fst (s_entry (ls_heap c) b) = int j" using tab j by (simp add: s_table_def)
      ultimately show ?thesis using old out by (cases "b = a") auto
    qed
  qed
  then have rep: "s_rep (c1\<lparr>ls_heap := h', ls_size := ls_size c + 1\<rparr>) (a # as)" using zt h'(2) sz by (auto simp: s_rep_def c1_def)
  have ents: "map (s_entry h') (a # as) = (int i, w) # map (s_entry (ls_heap c)) as" using e(1) old by simp
  show thesis by (rule that [OF h'(1) rep ents])
qed

lemma lru_simple_put_ok:
  assumes "s_inv n c" "0 \<le> key" "0 < n"
  shows "\<exists>c'. lru_simple_put c key w = Inr c' \<and> s_inv n c' \<and> s_items c' = use n (key mod int HASH_SLOTS) w (s_items c)"
proof -
  let ?k = "key mod int HASH_SLOTS"
  obtain as where as: "s_rep c as" "length as \<le> n" "ls_capacity c = int n" "int n < INT_MAX" "s_items c = map (s_entry (ls_heap c)) as"
    "distinct (map fst (s_items c))" using s_invE [OF assms(1)] by blast
  have len: "length (ls_hash c) = HASH_SLOTS" and sz: "ls_size c = int (length as)" using as(1) by (simp_all add: s_rep_def s_table_def)
  show ?thesis
  proof (rule s_lookup [OF as(1) assms(2)])
    fix i xs a ys k v assume a: "i < HASH_SLOTS" "slot_index key = int i" "ls_hash c ! i = Some a" "as = xs @ a # ys"
      "payload (ls_heap c) a = Some (k, v)" "s_entry (ls_heap c) a = (?k, v)"
    have k: "k mod int HASH_SLOTS = ?k" using a(5,6) by (simp add: s_entry_def)
    obtain c' where c': "lru_simple_put c key w = Inr c'" "s_rep c' (a # xs @ ys)" "ls_capacity c' = ls_capacity c"
      "s_items c' = (?k, w) # map (s_entry (ls_heap c)) (xs @ ys)"
      using put_present [OF as(1) [unfolded a(4)] a(5), of w] a(1-3) len k unfolding lru_simple_put_def by auto
    have "without ?k (s_items c) = map (s_entry (ls_heap c)) (xs @ ys)"
      using as(5,6) a(4,6) without_split [of "map (s_entry (ls_heap c)) xs" ?k v "map (s_entry (ls_heap c)) ys"] by simp
    then have "s_items c' = use n ?k w (s_items c)" using c'(4) as(2) a(4) by (simp add: use_def)
    then show ?thesis using c' s_invI [OF c'(2)] as a(4) by auto
  next
    fix i assume i: "i < HASH_SLOTS" "slot_index key = int i" "?k = int i" "ls_hash c ! i = None" "?k \<notin> fst ` set (s_items c)"
    let ?a = "brk (ls_heap c)"
    let ?h = "snd (new_obj \<lparr>d_key = key, d_value = w, d_prev = None, d_next = None\<rparr> (ls_heap c))"
    let ?c1 = "c\<lparr>ls_heap := ?h, ls_hash := (ls_hash c)[i := Some ?a]\<rparr>"
    obtain h' where h': "addNode ?c1 (Some ?a) = Inr (?c1\<lparr>ls_heap := h'\<rparr>)" "s_rep (?c1\<lparr>ls_heap := h', ls_size := ls_size c + 1\<rparr>) (?a # as)"
      "map (s_entry h') (?a # as) = (int i, w) # s_items c"
      using put_absent [OF as(1) assms(2) i(1-4), of w] i(3,5) as(5) by auto
    let ?c2 = "?c1\<lparr>ls_heap := h', ls_size := ls_size c + 1\<rparr>"
    have put: "lru_simple_put c key w = (if int n < int (length as) + 1 then evict_lru ?c2 else Inr ?c2)"
      using i h'(1) len sz as(2-4) by (simp add: lru_simple_put_def new_obj_def Let_def)
    have un: "without ?k (s_items c) = s_items c" using i(5) by (rule without_absent)
    show ?thesis
    proof (cases "length as = n")
      case True
      obtain bs l where bs: "?a # as = bs @ [l]" by (metis list.distinct(1) rev_exhaust)
      have lb: "length bs = n" using bs True by (metis length_append_singleton length_Cons nat.inject)
      obtain c' where c': "evict_lru ?c2 = Inr c'" "s_rep c' bs" "ls_capacity c' = ls_capacity ?c2" "map (s_entry (ls_heap c')) bs = map (s_entry (ls_heap ?c2)) bs"
        using evict_rep [of ?c2 bs l] h'(2) bs lb as(4) by auto
      have "s_items c' = take n (map (s_entry h') (?a # as))" using s_items_rep [OF c'(2)] c'(4) bs lb by simp
      then have "s_items c' = use n ?k w (s_items c)" using h'(3) un i(3) assms(3) by (cases n) (simp_all add: use_def)
      then show ?thesis using put True c' s_invI [OF c'(2)] lb as by auto
    next
      case False
      then have less: "length as < n" using as(2) by simp
      have "s_items ?c2 = use n ?k w (s_items c)" using s_items_rep [OF h'(2)] h'(3) un i(3) less as(5) by (simp add: use_def)
      then show ?thesis using put less s_invI [OF h'(2)] as by auto
    qed
  qed
qed

lemma createCache_inv:
  assumes "int n < INT_MAX"
  obtains c where "createCache junk (int n) = Inr c" "s_inv n c" "s_items c = []"
proof -
  let ?h = "\<lparr>cells = [0 \<mapsto> junk\<lparr>d_next := Some 1\<rparr>, 1 \<mapsto> junk\<lparr>d_prev := Some 0\<rparr>], brk = 2\<rparr>"
  let ?c = "\<lparr>ls_heap = ?h, ls_size = 0, ls_capacity = int n, ls_head = Some 0, ls_tail = Some 1, ls_hash = replicate HASH_SLOTS None\<rparr>"
  have "createCache junk (int n) = Inr ?c"
    by (simp add: createCache_def new_obj_def empty_heap_def set_d_next_def set_d_prev_def fun_eq_iff)
  moreover have rep: "s_rep ?c []"
    by (auto simp: s_rep_def s_list_def s_table_def heap_ok_def nextof_def prevof_def payload_def)
  moreover have "s_inv n ?c" using s_invI [OF rep] assms by simp
  moreover have "s_items ?c = []" using s_items_rep [OF rep] by simp
  ultimately show thesis using that by blast
qed

text \<open>The cache behind the interface: \<open>get\<close> returns the value, or -1 for a miss.\<close>

definition or_minus_one :: "int option \<Rightarrow> int" where
  "or_minus_one r = (case r of None \<Rightarrow> -1 | Some v \<Rightarrow> v)"

definition ls_get_op :: "LRUCache \<Rightarrow> int \<Rightarrow> (int \<times> LRUCache) res option" where
  "ls_get_op c key = Some (lru_simple_get c key)"

definition ls_put_op :: "LRUCache \<Rightarrow> int \<Rightarrow> int \<Rightarrow> (bool \<times> LRUCache) res option" where
  "ls_put_op c key v = Some (rbind (lru_simple_put c key v) (\<lambda>c'. Inr (True, c')))"

interpretation ls_lru: lru_cache ls_get_op ls_put_op "s_inv (nat LS_CAPACITY)" s_items "nat LS_CAPACITY" "\<lambda>_. True" "\<lambda>k. 0 \<le> k \<and> k < int HASH_SLOTS" or_minus_one
proof
  show "0 < nat LS_CAPACITY" by (simp add: LS_CAPACITY_def)
  show "distinct (map fst (s_items s)) \<and> length (s_items s) \<le> nat LS_CAPACITY" if "s_inv (nat LS_CAPACITY) s" for s
    using s_invE [OF that] by blast
  show "\<exists>s'. ls_get_op s k = Some (Inr (or_minus_one (map_of (s_items s) k), s')) \<and> s_inv (nat LS_CAPACITY) s' \<and> s_items s' = touch k (s_items s)"
    if "s_inv (nat LS_CAPACITY) s" "0 \<le> k \<and> k < int HASH_SLOTS" for s k
    using lru_simple_get_ok [OF that(1), of k] that(2) by (simp add: ls_get_op_def or_minus_one_def)
  show "\<exists>s'. ls_put_op s k v = Some (Inr (True, s')) \<and> s_inv (nat LS_CAPACITY) s' \<and> s_items s' = use (nat LS_CAPACITY) k v (s_items s)"
    if "s_inv (nat LS_CAPACITY) s" "0 \<le> k \<and> k < int HASH_SLOTS" for s k v
    using lru_simple_put_ok [OF that(1), of k v] that(2) by (auto simp: ls_put_op_def LS_CAPACITY_def)
qed

section \<open>Properties\<close>

text \<open>
  Claim C11: the pointer-based cache is an LRU cache over the remainders of its keys. A fresh cache of \<open>n\<close> entries satisfies the invariant; for every key that
  is not negative, \<open>get\<close> returns the value stored last under its remainder (-1 when there is none) and makes it the most recent entry, and \<open>put\<close> stores
  the value and keeps the \<open>n\<close> most recently used remainders, evicting and freeing the least recently used node. No pointer dangles and no index
  leaves the table.
\<close>

theorem lruCacheSimple_refines_lru:
  assumes "0 < n" "int n < INT_MAX"
  shows "(\<exists>c. createCache junk (int n) = Inr c \<and> s_inv n c \<and> s_items c = []) \<and>
    (\<forall>c key v. s_inv n c \<longrightarrow> 0 \<le> key \<longrightarrow>
      (\<exists>c'. lru_simple_get c key = Inr (case map_of (s_items c) (key mod 10000) of None \<Rightarrow> -1 | Some v \<Rightarrow> v, c') \<and>
         s_inv n c' \<and> s_items c' = touch (key mod 10000) (s_items c)) \<and>
      (\<exists>c'. lru_simple_put c key v = Inr c' \<and> s_inv n c' \<and> s_items c' = use n (key mod 10000) v (s_items c)))"
proof (intro conjI allI impI)
  show "\<exists>c. createCache junk (int n) = Inr c \<and> s_inv n c \<and> s_items c = []" using createCache_inv [OF assms(2)] by metis
qed (use lru_simple_get_ok lru_simple_put_ok assms(1) in \<open>force simp: HASH_SLOTS_def\<close>)+

theorem lruCacheSimple_refines_lru_witness:
  "\<exists>c c'. createCache undefined 3 = Inr c \<and> lru_simple_put c 10007 70 = Inr c' \<and> s_items c' = [(7, 70)]"
proof -
  have "0 < (3 :: nat)" "int 3 < INT_MAX" by simp_all
  note T = lruCacheSimple_refines_lru [OF this, of undefined]
  obtain c where c: "createCache undefined (int 3) = Inr c" "s_inv 3 c" "s_items c = []" using T by blast
  obtain c' where "lru_simple_put c 10007 70 = Inr c'" "s_items c' = use 3 (10007 mod 10000) 70 (s_items c)" using conjunct2 [OF T, rule_format, OF c(2), of 10007 70] by auto
  then show ?thesis using c by (simp add: use_def)
qed

text \<open>
  Two keys with the same remainder are one: a lookup of 10001 returns the value that was put for 1, and putting 10001 overwrites it. A negative key
  that is no multiple of 10000 indexes in front of the table.
\<close>

lemma lruCacheSimple_confuses_keys:
  "\<exists>c c1 c2. createCache junk 3 = Inr c \<and> lru_simple_put c 1 100 = Inr c1 \<and> lru_simple_get c1 10001 = Inr (100, c2)"
proof -
  obtain c where c: "createCache junk (int 3) = Inr c" "s_inv 3 c" "s_items c = []" using createCache_inv [of 3 junk] by auto
  obtain c1 where c1: "lru_simple_put c 1 100 = Inr c1" "s_inv 3 c1" "s_items c1 = [(1, 100)]"
    using lru_simple_put_ok [OF c(2), of 1 100] c(3) by (auto simp: use_def HASH_SLOTS_def)
  obtain c2 where "lru_simple_get c1 10001 = Inr (100, c2)"
    using lru_simple_get_ok [OF c1(2), of 10001] c1(3) by (auto simp: HASH_SLOTS_def)
  then show ?thesis using c(1) c1(1) by auto
qed

lemma lruCacheSimple_negative_key:
  assumes "key < 0" "key mod int HASH_SLOTS \<noteq> 0"
  shows "lru_simple_get c key = Inl OutOfBounds \<and> lru_simple_put c key v = Inl OutOfBounds"
proof -
  have "0 < (- key) mod int HASH_SLOTS" using assms(2) pos_mod_bound [of "int HASH_SLOTS" key] by (simp add: zmod_zminus1_eq_if HASH_SLOTS_def)
  then have "slot_index key < 0" using assms(1) by (simp add: slot_index_def)
  then show ?thesis by (simp add: lru_simple_get_def lru_simple_put_def arr_geti_def)
qed

lemma lruCacheSimple_main_output: "lruCacheSimple_main junk = Inr [100, -1]"
proof -
  obtain c where c: "createCache junk (int 3) = Inr c" "s_inv 3 c" "s_items c = []" using createCache_inv [of 3 junk] by auto
  obtain c1 where c1: "lru_simple_put c 1 100 = Inr c1" "s_inv 3 c1" "s_items c1 = [(1, 100)]"
    using lru_simple_put_ok [OF c(2), of 1 100] c(3) by (auto simp: use_def HASH_SLOTS_def)
  obtain c2 where c2: "lru_simple_put c1 2 200 = Inr c2" "s_inv 3 c2" "s_items c2 = [(2, 200), (1, 100)]"
    using lru_simple_put_ok [OF c1(2), of 2 200] c1(3) by (auto simp: use_def HASH_SLOTS_def)
  obtain c3 where c3: "lru_simple_put c2 3 300 = Inr c3" "s_inv 3 c3" "s_items c3 = [(3, 300), (2, 200), (1, 100)]"
    using lru_simple_put_ok [OF c2(2), of 3 300] c2(3) by (auto simp: use_def HASH_SLOTS_def)
  obtain c4 where c4: "lru_simple_get c3 1 = Inr (100, c4)" "s_inv 3 c4" "s_items c4 = [(1, 100), (3, 300), (2, 200)]"
    using lru_simple_get_ok [OF c3(2), of 1] c3(3) by (auto simp: touch_def HASH_SLOTS_def)
  obtain c5 where c5: "lru_simple_put c4 4 400 = Inr c5" "s_inv 3 c5" "s_items c5 = [(4, 400), (1, 100), (3, 300)]"
    using lru_simple_put_ok [OF c4(2), of 4 400] c4(3) by (auto simp: use_def HASH_SLOTS_def)
  obtain c6 where "lru_simple_get c5 2 = Inr (-1, c6)"
    using lru_simple_get_ok [OF c5(2), of 2] c5(3) by (auto simp: HASH_SLOTS_def)
  then show ?thesis using c(1) c1(1) c2(1) c3(1) c4(1) c5(1) by (simp add: lruCacheSimple_main_def LS_CAPACITY_def)
qed

end
