(* ===== verification/Squares.thy ===== *)
theory Squares
  imports Prelude "HOL-Library.Multiset"
begin

text \<open>
  The test whether four points are the corners of a square, \<open>pureStorage/isSquare.cpp\<close>: the six squared distances are sorted and
  compared. The specification is geometric: a corner, a side vector and the same vector turned by a right angle.
\<close>

section \<open>The program\<close>

record Point =
  px :: int
  py :: int

text \<open>The differences are computed as \<open>int\<close>, the products and the sum as \<open>long long\<close>.\<close>

definition distSq :: "Point \<Rightarrow> Point \<Rightarrow> int res" where
  "distSq p1 p2 =
     rbind (chk32 (px p1 - px p2)) (\<lambda>dx. rbind (chk64 (dx * dx)) (\<lambda>xx.
     rbind (chk32 (py p1 - py p2)) (\<lambda>dy. rbind (chk64 (dy * dy)) (\<lambda>yy. chk64 (xx + yy)))))"

definition square_test :: "int list \<Rightarrow> bool res" where
  "square_test d =
     (if d ! 0 > 0 \<and> d ! 0 = d ! 1 \<and> d ! 1 = d ! 2 \<and> d ! 2 = d ! 3 \<and> d ! 4 = d ! 5
      then rbind (chk64 (2 * d ! 0)) (\<lambda>x. Inr (d ! 4 = x)) else Inr False)"

text \<open>The result and the distances printed on the way.\<close>

definition isSquare :: "Point \<Rightarrow> Point \<Rightarrow> Point \<Rightarrow> Point \<Rightarrow> (bool \<times> int list) res" where
  "isSquare p1 p2 p3 p4 =
     rbind (distSq p1 p2) (\<lambda>d12. rbind (distSq p1 p3) (\<lambda>d13. rbind (distSq p1 p4) (\<lambda>d14.
     rbind (distSq p2 p3) (\<lambda>d23. rbind (distSq p2 p4) (\<lambda>d24. rbind (distSq p3 p4) (\<lambda>d34.
     let d = sort [d12, d13, d14, d23, d24, d34] in
     rbind (square_test d) (\<lambda>b. Inr (b, d))))))))"

definition isSquare_main :: "(bool \<times> int list) list res" where
  "isSquare_main =
     rbind (isSquare \<lparr>px = 0, py = 0\<rparr> \<lparr>px = 1, py = 1\<rparr> \<lparr>px = 1, py = 0\<rparr> \<lparr>px = 0, py = 1\<rparr>) (\<lambda>r1.
     rbind (isSquare \<lparr>px = 0, py = 0\<rparr> \<lparr>px = 1, py = 2\<rparr> \<lparr>px = 2, py = 1\<rparr> \<lparr>px = 0, py = 1\<rparr>) (\<lambda>r2. Inr [r1, r2]))"

section \<open>The geometry\<close>

definition dist2 :: "Point \<Rightarrow> Point \<Rightarrow> int" where
  "dist2 p q = (px p - px q)\<^sup>2 + (py p - py q)\<^sup>2"

text \<open>The corners of the square with corner \<open>a\<close> and side \<open>(ux, uy)\<close>, counter-clockwise.\<close>

definition square_at :: "Point \<Rightarrow> int \<Rightarrow> int \<Rightarrow> Point list" where
  "square_at a ux uy =
     [a, \<lparr>px = px a + ux, py = py a + uy\<rparr>, \<lparr>px = px a + ux - uy, py = py a + uy + ux\<rparr>, \<lparr>px = px a - uy, py = py a + ux\<rparr>]"

definition corners_of_square :: "Point list \<Rightarrow> bool" where
  "corners_of_square ps \<longleftrightarrow> (\<exists>a ux uy. (ux, uy) \<noteq> (0, 0) \<and> mset ps = mset (square_at a ux uy))"

lemma dist2_commute: "dist2 p q = dist2 q p"
  by (simp add: dist2_def power2_commute)

text \<open>All distances of a list of points, and that their multiset depends on the multiset of the points only.\<close>

fun pair_dists :: "Point list \<Rightarrow> int list" where
  "pair_dists [] = []"
| "pair_dists (p # ps) = map (dist2 p) ps @ pair_dists ps"

lemma pair_dists_move: "mset (pair_dists (xs @ p # ys)) = mset (pair_dists (p # xs @ ys))"
  by (induction xs) (simp_all add: dist2_commute ac_simps)

lemma pair_dists_cong: "mset ps = mset qs \<Longrightarrow> mset (pair_dists ps) = mset (pair_dists qs)"
proof (induction ps arbitrary: qs)
  case (Cons p ps)
  then have "p \<in> set qs" by (metis list.set_intros(1) set_mset_mset)
  then obtain xs ys where qs: "qs = xs @ p # ys" by (auto simp: in_set_conv_decomp)
  then have "mset ps = mset (xs @ ys)" using Cons.prems by simp
  then have "mset (pair_dists ps) = mset (pair_dists (xs @ ys))" "mset (map (dist2 p) ps) = mset (map (dist2 p) (xs @ ys))"
    using Cons.IH by (simp_all add: mset_map)
  then show ?case unfolding qs pair_dists_move by simp
qed simp

lemma pair_dists_square:
  assumes "mset ps = mset (square_at a ux uy)"
  shows "mset (pair_dists ps) = mset (replicate 4 (ux\<^sup>2 + uy\<^sup>2) @ replicate 2 (2 * (ux\<^sup>2 + uy\<^sup>2)))"
proof -
  have "pair_dists (square_at a ux uy) = [ux\<^sup>2 + uy\<^sup>2, 2 * (ux\<^sup>2 + uy\<^sup>2), ux\<^sup>2 + uy\<^sup>2, ux\<^sup>2 + uy\<^sup>2, 2 * (ux\<^sup>2 + uy\<^sup>2), ux\<^sup>2 + uy\<^sup>2]"
    by (simp add: square_at_def dist2_def power2_eq_square algebra_simps)
  then show ?thesis using pair_dists_cong [OF assms] by (simp add: numeral_eq_Suc)
qed

text \<open>Two vectors orthogonal to a third, not zero, are parallel.\<close>

lemma parallel:
  fixes ux uy vx vy wx wy :: int
  assumes "wx * ux + wy * uy = 0" "wx * vx + wy * vy = 0" "(wx, wy) \<noteq> (0, 0)"
  shows "ux * vy = uy * vx"
proof -
  have "wx * (ux * vy - uy * vx) = 0" "wy * (ux * vy - uy * vx) = 0" using assms(1,2) by algebra+
  then show ?thesis using assms(3) by auto
qed

lemma sum_squares_pos: "0 < x\<^sup>2 + y\<^sup>2 \<longleftrightarrow> (x, y) \<noteq> (0, 0)" for x y :: int
  by (metis Pair_inject sum_power2_gt_zero_iff)

lemma lagrange: "(ux * vx + uy * vy)\<^sup>2 + (ux * vy - uy * vx)\<^sup>2 = (ux\<^sup>2 + uy\<^sup>2) * (vx\<^sup>2 + vy\<^sup>2)" for ux uy vx vy :: int
  by (simp add: power2_eq_square algebra_simps)

text \<open>The long distances do not share a point.\<close>

lemma no_shared_diagonal:
  assumes "dist2 p q = 2 * s" "dist2 p r = 2 * s" "dist2 p o' = s" "dist2 q r = s" "dist2 q o' = s" "dist2 r o' = s"
  shows "s = 0"
proof (rule ccontr)
  define ux uy vx vy wx wy where "ux = px q - px o'" and "uy = py q - py o'" and "vx = px r - px o'" and "vy = py r - py o'" and "wx = px p - px o'" and "wy = py p - py o'"
  note defs = this
  assume "s \<noteq> 0"
  have sq: "ux\<^sup>2 + uy\<^sup>2 = s" "vx\<^sup>2 + vy\<^sup>2 = s" "wx\<^sup>2 + wy\<^sup>2 = s" using assms(3,5,6) by (simp_all add: dist2_def defs)
  have cross: "(wx - ux)\<^sup>2 + (wy - uy)\<^sup>2 = 2 * s" "(wx - vx)\<^sup>2 + (wy - vy)\<^sup>2 = 2 * s" "(ux - vx)\<^sup>2 + (uy - vy)\<^sup>2 = s"
    using assms(1,2,4) by (simp_all add: dist2_def defs algebra_simps)
  have "2 * (wx * ux + wy * uy) = 0" "2 * (wx * vx + wy * vy) = 0" "2 * (ux * vx + uy * vy) = s"
    using sq cross by (simp_all add: power2_diff algebra_simps)
  then have dot: "wx * ux + wy * uy = 0" "wx * vx + wy * vy = 0" "2 * (ux * vx + uy * vy) = s" by simp_all
  have "(wx, wy) \<noteq> (0, 0)" using sq(3) \<open>s \<noteq> 0\<close> by auto
  then have par: "ux * vy = uy * vx" using parallel [OF dot(1,2)] by blast
  have "(ux * vx + uy * vy)\<^sup>2 + (ux * vy - uy * vx)\<^sup>2 = s * s" using lagrange [of ux vx uy vy] sq by simp
  then have "4 * (s * s) = (2 * (ux * vx + uy * vy))\<^sup>2" using par by (simp add: power2_eq_square algebra_simps)
  then have "4 * (s * s) = s * s" unfolding dot(3) by (simp add: power2_eq_square)
  then show False using \<open>s \<noteq> 0\<close> by simp
qed

text \<open>Two orthogonal vectors of the same length: one is the other turned by a right angle, to the left or to the right.\<close>

lemma turned:
  fixes ux uy vx vy :: int
  assumes "ux * vx + uy * vy = 0" "ux\<^sup>2 + uy\<^sup>2 = s" "vx\<^sup>2 + vy\<^sup>2 = s"
  shows "(vx, vy) = (- uy, ux) \<or> (ux, uy) = (- vy, vx)"
proof -
  have "(ux * vy - uy * vx)\<^sup>2 = s\<^sup>2" using lagrange [of ux vx uy vy] assms by (simp add: power2_eq_square)
  then have "ux * vy - uy * vx = s \<or> ux * vy - uy * vx = - s" by (simp add: power2_eq_iff)
  moreover have "(vx + uy)\<^sup>2 + (vy - ux)\<^sup>2 = (ux\<^sup>2 + uy\<^sup>2) + (vx\<^sup>2 + vy\<^sup>2) - 2 * (ux * vy - uy * vx)"
    "(ux + vy)\<^sup>2 + (uy - vx)\<^sup>2 = (ux\<^sup>2 + uy\<^sup>2) + (vx\<^sup>2 + vy\<^sup>2) + 2 * (ux * vy - uy * vx)" by (simp_all add: power2_eq_square algebra_simps)
  ultimately have "(vx + uy)\<^sup>2 + (vy - ux)\<^sup>2 = 0 \<or> (ux + vy)\<^sup>2 + (uy - vx)\<^sup>2 = 0" using assms(2,3) by auto
  then show ?thesis by (auto simp: sum_power2_eq_zero_iff)
qed

lemma square_from_diagonals:
  assumes "dist2 p q = s" "dist2 q r = s" "dist2 r t = s" "dist2 p t = s" "dist2 p r = 2 * s" "dist2 q t = 2 * s" "s \<noteq> 0"
  shows "corners_of_square [p, q, r, t]"
proof -
  define ux uy vx vy wx wy where "ux = px q - px p" and "uy = py q - py p" and "vx = px t - px p" and "vy = py t - py p" and "wx = px r - px p" and "wy = py r - py p"
  note defs = this
  have sq: "ux\<^sup>2 + uy\<^sup>2 = s" "vx\<^sup>2 + vy\<^sup>2 = s" "wx\<^sup>2 + wy\<^sup>2 = 2 * s" using assms(1,4,5) by (simp_all add: dist2_def defs power2_commute)
  have cross: "(ux - vx)\<^sup>2 + (uy - vy)\<^sup>2 = 2 * s" "(wx - ux)\<^sup>2 + (wy - uy)\<^sup>2 = s" "(wx - vx)\<^sup>2 + (wy - vy)\<^sup>2 = s"
    using assms(2,3,6) by (simp_all add: dist2_def defs power2_commute algebra_simps)
  have "2 * (ux * vx + uy * vy) = 0" "2 * (wx * ux + wy * uy) = 2 * s" "2 * (wx * vx + wy * vy) = 2 * s"
    using sq cross by (simp_all add: power2_diff algebra_simps)
  then have dot: "ux * vx + uy * vy = 0" "wx * ux + wy * uy = s" "wx * vx + wy * vy = s" by simp_all
  have nz: "(ux, uy) \<noteq> (0, 0)" "(vx, vy) \<noteq> (0, 0)" using sq(1,2) assms(7) by auto
  have far: "wx = ux + vx \<and> wy = uy + vy"
  proof -
    have "(wx - ux - vx)\<^sup>2 + (wy - uy - vy)\<^sup>2 =
      (wx\<^sup>2 + wy\<^sup>2) + (ux\<^sup>2 + uy\<^sup>2) + (vx\<^sup>2 + vy\<^sup>2) - 2 * (wx * ux + wy * uy) - 2 * (wx * vx + wy * vy) + 2 * (ux * vx + uy * vy)"
      by (simp add: power2_eq_square algebra_simps)
    then have "(wx - ux - vx)\<^sup>2 + (wy - uy - vy)\<^sup>2 = 0" unfolding sq dot by simp
    then show ?thesis by (simp add: sum_power2_eq_zero_iff)
  qed
  from turned [OF dot(1) sq(1,2)] show ?thesis
  proof
    assume "(vx, vy) = (- uy, ux)"
    then have "[p, q, r, t] = square_at p ux uy" using far by (simp add: square_at_def defs algebra_simps Point.equality)
    then show ?thesis using nz(1) unfolding corners_of_square_def by metis
  next
    assume "(ux, uy) = (- vy, vx)"
    then have "[p, t, r, q] = square_at p vx vy" using far by (simp add: square_at_def defs algebra_simps Point.equality)
    then have "mset [p, q, r, t] = mset (square_at p vx vy)" by (metis add_mset_commute mset.simps(2))
    then show ?thesis using nz(2) unfolding corners_of_square_def by blast
  qed
qed

section \<open>The test\<close>

text \<open>What the comparisons of \<open>isSquare\<close> say of the unsorted distances.\<close>

definition square_dists :: "int list \<Rightarrow> int \<Rightarrow> bool" where
  "square_dists ds s \<longleftrightarrow> 0 < s \<and> mset ds = mset (replicate 4 s @ replicate 2 (2 * s))"

lemma sorted_test:
  assumes "length ds = 6" "d = sort ds"
  shows "d ! 0 > 0 \<and> d ! 0 = d ! 1 \<and> d ! 1 = d ! 2 \<and> d ! 2 = d ! 3 \<and> d ! 4 = d ! 5 \<and> d ! 4 = 2 * d ! 0 \<longleftrightarrow> (\<exists>s. square_dists ds s)"
proof
  assume test: "d ! 0 > 0 \<and> d ! 0 = d ! 1 \<and> d ! 1 = d ! 2 \<and> d ! 2 = d ! 3 \<and> d ! 4 = d ! 5 \<and> d ! 4 = 2 * d ! 0"
  have "length d = 6" using assms by simp
  then obtain a b c e f g where d: "d = [a, b, c, e, f, g]" by (auto simp: numeral_eq_Suc length_Suc_conv)
  have "mset ds = mset d" using assms(2) by simp
  then have "square_dists ds a" using test unfolding d by (auto simp: square_dists_def numeral_eq_Suc)
  then show "\<exists>s. square_dists ds s" ..
next
  assume "\<exists>s. square_dists ds s"
  then obtain s where s: "0 < s" "mset ds = mset (replicate 4 s @ replicate 2 (2 * s))" by (auto simp: square_dists_def)
  have "sort ds = replicate 4 s @ replicate 2 (2 * s)" using s by (intro properties_for_sort) (simp_all add: sorted_append)
  then have "d = [s, s, s, s, 2 * s, 2 * s]" using assms(2) by (simp add: numeral_eq_Suc)
  then show "d ! 0 > 0 \<and> d ! 0 = d ! 1 \<and> d ! 1 = d ! 2 \<and> d ! 2 = d ! 3 \<and> d ! 4 = d ! 5 \<and> d ! 4 = 2 * d ! 0" using s(1) by simp
qed

lemma square_dists_corners:
  assumes "square_dists (pair_dists [p1, p2, p3, p4]) s"
  shows "corners_of_square [p1, p2, p3, p4]"
proof -
  let ?ds = "pair_dists [p1, p2, p3, p4]"
  have s: "0 < s" "s \<noteq> 0" and m: "mset ?ds = mset (replicate 4 s @ replicate 2 (2 * s))" using assms by (auto simp: square_dists_def)
  have "set ?ds \<subseteq> {s, 2 * s}" using arg_cong [OF m, of set_mset] by (auto simp only: set_mset_mset set_append set_replicate_conv_if split: if_splits)
  then have two: "dist2 p1 p2 = s \<or> dist2 p1 p2 = 2 * s" "dist2 p1 p3 = s \<or> dist2 p1 p3 = 2 * s" "dist2 p1 p4 = s \<or> dist2 p1 p4 = 2 * s"
    "dist2 p2 p3 = s \<or> dist2 p2 p3 = 2 * s" "dist2 p2 p4 = s \<or> dist2 p2 p4 = 2 * s" "dist2 p3 p4 = s \<or> dist2 p3 p4 = 2 * s" by auto
  have "sum_list ?ds = sum_list (replicate 4 s @ replicate 2 (2 * s))" using arg_cong [OF m, of sum_mset] by (simp only: sum_mset_sum_list)
  then have total: "dist2 p1 p2 + dist2 p1 p3 + dist2 p1 p4 + dist2 p2 p3 + dist2 p2 p4 + dist2 p3 p4 = 8 * s" by (simp add: sum_list_replicate)
  have comm: "dist2 p2 p1 = dist2 p1 p2" "dist2 p3 p1 = dist2 p1 p3" "dist2 p4 p1 = dist2 p1 p4" "dist2 p3 p2 = dist2 p2 p3" "dist2 p4 p2 = dist2 p2 p4"
    "dist2 p4 p3 = dist2 p3 p4" by (rule dist2_commute)+
  note shared = notE [OF s(2) no_shared_diagonal [of p1 p3 s p4 p2]]
    notE [OF s(2) no_shared_diagonal [of p1 p2 s p4 p3]]
    notE [OF s(2) no_shared_diagonal [of p1 p2 s p3 p4]]
    notE [OF s(2) no_shared_diagonal [of p2 p3 s p4 p1]]
    notE [OF s(2) no_shared_diagonal [of p2 p1 s p4 p3]]
    notE [OF s(2) no_shared_diagonal [of p2 p1 s p3 p4]]
    notE [OF s(2) no_shared_diagonal [of p3 p2 s p4 p1]]
    notE [OF s(2) no_shared_diagonal [of p3 p1 s p4 p2]]
    notE [OF s(2) no_shared_diagonal [of p3 p1 s p2 p4]]
    notE [OF s(2) no_shared_diagonal [of p4 p2 s p3 p1]]
    notE [OF s(2) no_shared_diagonal [of p4 p1 s p3 p2]]
    notE [OF s(2) no_shared_diagonal [of p4 p1 s p2 p3]]
  have perm: "corners_of_square [p1, p3, p2, p4] \<longleftrightarrow> corners_of_square [p1, p2, p3, p4]" "corners_of_square [p1, p2, p4, p3] \<longleftrightarrow> corners_of_square [p1, p2, p3, p4]"
    by (simp_all add: corners_of_square_def add_mset_commute)
  note opposite = square_from_diagonals [of p1 p2 s p3 p4, OF _ _ _ _ _ _ s(2)] square_from_diagonals [of p1 p3 s p2 p4, OF _ _ _ _ _ _ s(2)] square_from_diagonals [of p1 p2 s p4 p3, OF _ _ _ _ _ _ s(2)]
  note cases = shared [unfolded comm] opposite [unfolded comm perm]
  show ?thesis using two total s(1) by (elim disjE) (linarith | (erule (5) cases))+
qed

lemma square_test_ok:
  assumes "length ds = 6" "\<forall>x \<in> set ds. 0 \<le> x \<and> x \<le> 2 ^ 61"
  shows "square_test (sort ds) = Inr (\<exists>s. square_dists ds s)"
proof -
  have "sort ds ! 0 \<in> set ds" using assms(1) by (metis length_sort nth_mem set_sort zero_less_numeral)
  then have "chk64 (2 * sort ds ! 0) = Inr (2 * sort ds ! 0)" using assms(2) by (intro chk64_ok) auto
  then show ?thesis unfolding square_test_def sorted_test [OF assms(1) refl, symmetric] by auto
qed

section \<open>Properties\<close>

definition small_point :: "Point \<Rightarrow> bool" where
  "small_point p \<longleftrightarrow> \<bar>px p\<bar> \<le> 2 ^ 29 \<and> \<bar>py p\<bar> \<le> 2 ^ 29"

lemma square_le:
  fixes x y :: int
  assumes "\<bar>x\<bar> \<le> 2 ^ 29" "\<bar>y\<bar> \<le> 2 ^ 29"
  shows "(x - y)\<^sup>2 \<le> 2 ^ 60"
proof -
  have "(2 :: int) ^ 30 = 2 * 2 ^ 29" by simp
  then have "\<bar>x - y\<bar> \<le> 2 ^ 30" using assms by linarith
  then have "\<bar>x - y\<bar>\<^sup>2 \<le> (2 ^ 30)\<^sup>2" by (intro power_mono) simp_all
  then show ?thesis by simp
qed

lemma distSq_ok:
  assumes "small_point p" "small_point q"
  shows "distSq p q = Inr (dist2 p q) \<and> 0 \<le> dist2 p q \<and> dist2 p q \<le> 2 ^ 61"
proof -
  have c: "\<bar>px p\<bar> \<le> 2 ^ 29" "\<bar>px q\<bar> \<le> 2 ^ 29" "\<bar>py p\<bar> \<le> 2 ^ 29" "\<bar>py q\<bar> \<le> 2 ^ 29" using assms by (simp_all add: small_point_def)
  have sq: "(px p - px q)\<^sup>2 \<le> 2 ^ 60" "(py p - py q)\<^sup>2 \<le> 2 ^ 60" using square_le c by blast+
  have "chk32 (px p - px q) = Inr (px p - px q)" "chk32 (py p - py q) = Inr (py p - py q)" using c by (intro chk32_ok; simp)+
  moreover have "chk64 ((px p - px q)\<^sup>2) = Inr ((px p - px q)\<^sup>2)" "chk64 ((py p - py q)\<^sup>2) = Inr ((py p - py q)\<^sup>2)"
    "chk64 ((px p - px q)\<^sup>2 + (py p - py q)\<^sup>2) = Inr ((px p - px q)\<^sup>2 + (py p - py q)\<^sup>2)"
    using sq by (auto intro!: chk64_ok intro: order_trans [of _ 0])
  ultimately show ?thesis using sq by (simp add: distSq_def dist2_def power2_eq_square)
qed

text \<open>
  For four points with coordinates up to 2^29 in absolute value, \<open>isSquare\<close> overflows nowhere and answers true exactly when the
  points are, in some order, the corners of a square with a side that is not zero: a corner, a side and the side turned by a right angle.
\<close>

theorem isSquare_correct:
  assumes "small_point p1" "small_point p2" "small_point p3" "small_point p4"
  shows "isSquare p1 p2 p3 p4 = Inr (corners_of_square [p1, p2, p3, p4], sort (pair_dists [p1, p2, p3, p4]))"
proof -
  let ?ds = "pair_dists [p1, p2, p3, p4]" and ?d = "sort (pair_dists [p1, p2, p3, p4])"
  note dist = distSq_ok [OF assms(1,2)] distSq_ok [OF assms(1,3)] distSq_ok [OF assms(1,4)] distSq_ok [OF assms(2,3)] distSq_ok [OF assms(2,4)] distSq_ok [OF assms(3,4)]
  have "square_test ?d = Inr (\<exists>s. square_dists ?ds s)" by (rule square_test_ok) (use dist in simp_all)
  then have "isSquare p1 p2 p3 p4 = Inr (\<exists>s. square_dists ?ds s, ?d)" using dist by (simp add: isSquare_def Let_def del: sort_key_simps)
  also have "(\<exists>s. square_dists ?ds s) \<longleftrightarrow> corners_of_square [p1, p2, p3, p4]"
    using square_dists_corners pair_dists_square sum_squares_pos unfolding square_dists_def corners_of_square_def by metis
  finally show ?thesis .
qed

theorem isSquare_correct_witness:
  "isSquare \<lparr>px = 0, py = 0\<rparr> \<lparr>px = 1, py = 1\<rparr> \<lparr>px = 1, py = 0\<rparr> \<lparr>px = 0, py = 1\<rparr> =
   Inr (corners_of_square [\<lparr>px = 0, py = 0\<rparr>, \<lparr>px = 1, py = 1\<rparr>, \<lparr>px = 1, py = 0\<rparr>, \<lparr>px = 0, py = 1\<rparr>], [1, 1, 1, 1, 2, 2])"
  using isSquare_correct [of "\<lparr>px = 0, py = 0\<rparr>" "\<lparr>px = 1, py = 1\<rparr>" "\<lparr>px = 1, py = 0\<rparr>" "\<lparr>px = 0, py = 1\<rparr>"]
  by (simp add: small_point_def dist2_def)

lemma isSquare_main_output: "isSquare_main = Inr [(True, [1, 1, 1, 1, 2, 2]), (False, [1, 2, 2, 4, 5, 5])]"
  by (simp add: isSquare_main_def isSquare_def square_test_def distSq_def chk32_def chk64_def Let_def)

end
