(* ===== verification/Packet_Dispatch.thy ===== *)
theory Packet_Dispatch
  imports Prelude
begin

text \<open>
  The packet handler, \<open>packetHandler/PacketHandler.h\<close> and \<open>PacketHandler.cpp\<close>: frames captured by libpcap are stripped of their Ethernet
  header, queued, and dispatched by the protocol field of their IP header to the TCP, UDP or ICMP handler, which prints the two
  first fields of the transport header. libpcap is a parameter: the frames it delivers, each with its length on the wire and its captured bytes.
\<close>

unbundle bit_operations_syntax

section \<open>Handlers and dispatcher\<close>

type_synonym byte = "8 word"

datatype proto_handler = TCPHandler | UDPHandler | ICMPHandler

datatype packet_line = TCP "16 word" "16 word" | UDP "16 word" "16 word" | ICMP int int

definition ntohs :: "byte \<Rightarrow> byte \<Rightarrow> 16 word" where
  "ntohs hi lo = push_bit 8 (ucast hi) OR ucast lo"

text \<open>A 16-bit field of a header that starts at \<open>off\<close>.\<close>

definition net16 :: "byte list \<Rightarrow> nat \<Rightarrow> 16 word res" where
  "net16 data off = rbind (arr_get data off) (\<lambda>hi. rbind (arr_get data (off + 1)) (\<lambda>lo. Inr (ntohs hi lo)))"

definition TCPHandler_handle :: "byte list \<Rightarrow> nat \<Rightarrow> packet_line res" where
  "TCPHandler_handle data off = rbind (net16 data off) (\<lambda>s. rbind (net16 data (off + 2)) (\<lambda>d. Inr (TCP s d)))"

definition UDPHandler_handle :: "byte list \<Rightarrow> nat \<Rightarrow> packet_line res" where
  "UDPHandler_handle data off = rbind (net16 data off) (\<lambda>s. rbind (net16 data (off + 2)) (\<lambda>d. Inr (UDP s d)))"

definition ICMPHandler_handle :: "byte list \<Rightarrow> nat \<Rightarrow> packet_line res" where
  "ICMPHandler_handle data off = rbind (arr_get data off) (\<lambda>t. rbind (arr_get data (off + 1)) (\<lambda>c. Inr (ICMP (uint t) (uint c))))"

fun handle :: "proto_handler \<Rightarrow> byte list \<Rightarrow> nat \<Rightarrow> packet_line res" where
  "handle TCPHandler = TCPHandler_handle"
| "handle UDPHandler = UDPHandler_handle"
| "handle ICMPHandler = ICMPHandler_handle"

definition Dispatcher_new :: "int \<Rightarrow> proto_handler option" where
  "Dispatcher_new = [6 \<mapsto> TCPHandler, 17 \<mapsto> UDPHandler, 1 \<mapsto> ICMPHandler]"

definition SIZEOF_IP :: nat where "SIZEOF_IP = 20"

text \<open>\<open>ip_hl\<close> is the low half of the first byte; the pointer is moved without a look at the length.\<close>

definition dispatch_packet :: "(int \<Rightarrow> proto_handler option) \<Rightarrow> byte list \<Rightarrow> packet_line option res" where
  "dispatch_packet handlers data =
     (if length data < SIZEOF_IP then Inr None
      else rbind (arr_get data 0) (\<lambda>b0. let ip_header_len = unat (b0 AND 15) * 4 in
           rbind (arr_get data 9) (\<lambda>protocol.
           case handlers (uint protocol) of None \<Rightarrow> Inr None
           | Some hdl \<Rightarrow> rbind (handle hdl data ip_header_len) (\<lambda>out. Inr (Some out)))))"

section \<open>Receiver and processor\<close>

text \<open>A frame: the length on the wire (\<open>header->len\<close>) and the captured bytes.\<close>

record frame =
  wire_len :: "32 word"
  captured :: "byte list"

text \<open>
  The receiver and its two threads: the packet the processor has taken out of the queue (\<open>in_hand\<close>), whether it sleeps on the condition variable, and whether the capture
  thread has released the mutex and not yet notified.
\<close>

record receiver =
  packet_queue :: "byte list list"
  running :: bool
  notifying :: bool
  asleep :: bool
  in_hand :: "byte list option"
  printed :: "packet_line option list"

definition PacketReceiver_new :: receiver where
  "PacketReceiver_new = \<lparr>packet_queue = [], running = True, notifying = False, asleep = False, in_hand = None, printed = []\<rparr>"

text \<open>The constructor exits the program when libpcap cannot open the interface; the destructor stops the processor.\<close>

definition PacketReceiver_open :: "bool \<Rightarrow> receiver option" where
  "PacketReceiver_open opened = (if opened then Some PacketReceiver_new else None)"

definition PacketReceiver_destroy :: "receiver \<Rightarrow> receiver" where
  "PacketReceiver_destroy r = r\<lparr>running := False\<rparr>"

text \<open>\<open>header->len - 14\<close> is computed on 32 unsigned bits; the copy reads that many bytes behind the Ethernet header.\<close>

definition strip_ethernet :: "frame \<Rightarrow> byte list res" where
  "strip_ethernet f = (let ip_len = unat (wire_len f - 14) in
     if ip_len + 14 \<le> length (captured f) \<or> ip_len = 0 then Inr (take ip_len (drop 14 (captured f))) else Inl OutOfBounds)"

definition pcap_callback :: "receiver \<Rightarrow> frame \<Rightarrow> receiver res" where
  "pcap_callback r f = rbind (strip_ethernet f) (\<lambda>pkt. Inr (r\<lparr>packet_queue := packet_queue r @ [pkt], notifying := True\<rparr>))"

definition notify_processor :: "receiver \<Rightarrow> receiver" where
  "notify_processor r = r\<lparr>notifying := False, asleep := False\<rparr>"

text \<open>A round of \<open>processor_loop\<close>: under the mutex it goes to sleep or takes a packet, which it dispatches after it has released the mutex.\<close>

definition processor_take :: "receiver \<Rightarrow> receiver" where
  "processor_take r = (case packet_queue r of [] \<Rightarrow> r\<lparr>asleep := True\<rparr> | packet # q \<Rightarrow> r\<lparr>packet_queue := q, in_hand := Some packet\<rparr>)"

definition processor_dispatch :: "receiver \<Rightarrow> byte list \<Rightarrow> receiver res" where
  "processor_dispatch r packet = rbind (dispatch_packet Dispatcher_new packet) (\<lambda>out. Inr (r\<lparr>in_hand := None, printed := printed r @ [out]\<rparr>))"

text \<open>The two threads; the flag marks a spurious wake-up.\<close>

inductive recv_step :: "bool \<Rightarrow> frame list \<times> receiver \<Rightarrow> (frame list \<times> receiver) res \<Rightarrow> bool" where
  deliver: "\<not> notifying r \<Longrightarrow> recv_step False (f # fs, r) (rbind (pcap_callback r f) (\<lambda>r'. Inr (fs, r')))"
| notify: "notifying r \<Longrightarrow> recv_step False (fs, r) (Inr (fs, notify_processor r))"
| take_packet: "running r \<Longrightarrow> \<not> asleep r \<Longrightarrow> in_hand r = None \<Longrightarrow> recv_step False (fs, r) (Inr (fs, processor_take r))"
| print_packet: "in_hand r = Some p \<Longrightarrow> recv_step False (fs, r) (rbind (processor_dispatch r p) (\<lambda>r'. Inr (fs, r')))"
| wake_up: "asleep r \<Longrightarrow> recv_step True (fs, r) (Inr (fs, r\<lparr>asleep := False\<rparr>))"

inductive recv_reachable :: "frame list \<Rightarrow> (frame list \<times> receiver) res \<Rightarrow> bool" for fs where
  init: "recv_reachable fs (Inr (fs, PacketReceiver_new))"
| step: "recv_reachable fs (Inr s) \<Longrightarrow> recv_step b s s' \<Longrightarrow> recv_reachable fs s'"

section \<open>Packets on the wire\<close>

text \<open>What a sender puts into the headers, after the RFCs: 16-bit fields with the high byte first, the header length in words in the first byte.\<close>

definition htons :: "16 word \<Rightarrow> byte list" where
  "htons w = [ucast (drop_bit 8 w), ucast w]"

fun transport :: "packet_line \<Rightarrow> byte list" where
  "transport (TCP s d) = htons s @ htons d"
| "transport (UDP s d) = htons s @ htons d"
| "transport (ICMP t c) = [word_of_int t, word_of_int c]"

fun ip_protocol :: "packet_line \<Rightarrow> byte" where
  "ip_protocol (TCP _ _) = 6"
| "ip_protocol (UDP _ _) = 17"
| "ip_protocol (ICMP _ _) = 1"

fun line_ok :: "packet_line \<Rightarrow> bool" where
  "line_ok (ICMP t c) \<longleftrightarrow> 0 \<le> t \<and> t < 256 \<and> 0 \<le> c \<and> c < 256"
| "line_ok _ \<longleftrightarrow> True"

definition ip_header :: "nat \<Rightarrow> byte \<Rightarrow> byte list \<Rightarrow> bool" where
  "ip_header hl protocol hdr \<longleftrightarrow> 5 \<le> hl \<and> hl < 16 \<and> length hdr = 4 * hl \<and> hdr ! 0 = 64 OR word_of_nat hl \<and> hdr ! 9 = protocol"

lemma ntohs_htons: "ntohs (ucast (drop_bit 8 w)) (ucast w) = w"
  by (rule bit_word_eqI) (auto simp: ntohs_def bit_simps)

lemma header_length: "hl < 16 \<Longrightarrow> unat ((64 OR word_of_nat hl) AND 15 :: byte) = hl"
proof -
  assume "hl < 16"
  then have "hl \<in> set [0..<16]" by simp
  moreover have "\<forall>n \<in> set [0..<16]. unat ((64 OR word_of_nat n) AND 15 :: byte) = n" by (simp add: upt_rec)
  ultimately show ?thesis by blast
qed

lemma net16_htons:
  "net16 (hdr @ htons a @ rest) (length hdr) = Inr a" "net16 (hdr @ htons a @ htons b @ rest) (length hdr + 2) = Inr b"
  by (simp_all add: net16_def htons_def nth_append ntohs_htons)

lemma handle_transport:
  assumes "line_ok l" "Dispatcher_new (uint (ip_protocol l)) = Some hdl"
  shows "handle hdl (hdr @ transport l @ rest) (length hdr) = Inr l"
proof (cases l)
  case (ICMP t c)
  then show ?thesis using assms by (simp add: Dispatcher_new_def ICMPHandler_handle_def nth_append uint_word_of_int_eq take_bit_int_eq_self)
qed (use assms net16_htons in \<open>auto simp: Dispatcher_new_def TCPHandler_handle_def UDPHandler_handle_def\<close>)

text \<open>What a packet makes the dispatcher print.\<close>

definition prints :: "byte list \<Rightarrow> packet_line \<Rightarrow> bool" where
  "prints p l \<longleftrightarrow> dispatch_packet Dispatcher_new p = Inr (Some l)"

lemma encoded_prints: "ip_header hl (ip_protocol l) hdr \<Longrightarrow> line_ok l \<Longrightarrow> prints (hdr @ transport l @ rest) l"
proof -
  assume h: "ip_header hl (ip_protocol l) hdr" and l: "line_ok l"
  have len: "length hdr = hl * 4" "5 \<le> hl" using h by (auto simp: ip_header_def)
  have b: "(hdr @ transport l @ rest) ! 0 = 64 OR word_of_nat hl" "(hdr @ transport l @ rest) ! 9 = ip_protocol l" "unat ((hdr @ transport l @ rest) ! 0 AND 15) = hl"
    using h header_length [of hl] by (auto simp: ip_header_def nth_append)
  have "\<exists>hdl. Dispatcher_new (uint (ip_protocol l)) = Some hdl" by (cases l) (auto simp: Dispatcher_new_def)
  then obtain hdl where hdl: "Dispatcher_new (uint (ip_protocol l)) = Some hdl" ..
  have "handle hdl (hdr @ transport l @ rest) (hl * 4) = Inr l" using handle_transport [OF l hdl, of hdr rest] len by simp
  then show ?thesis using len b hdl by (simp add: prints_def dispatch_packet_def SIZEOF_IP_def Let_def del: handle.simps)
qed

text \<open>
  The dispatcher prints what the sender wrote. For every IP header of five to fifteen words whose protocol field is that of the transport
  header behind it, \<open>dispatch_packet\<close> prints the two ports, or the type and the code, that were encoded, whatever the options of the header and
  the payload; a packet shorter than a header or of another protocol is ignored.
\<close>

theorem dispatch_round_trip:
  "(\<forall>hl hdr l rest. ip_header hl (ip_protocol l) hdr \<longrightarrow> line_ok l \<longrightarrow> dispatch_packet Dispatcher_new (hdr @ transport l @ rest) = Inr (Some l)) \<and>
   (\<forall>hl p hdr rest. ip_header hl p hdr \<longrightarrow> p \<notin> {1, 6, 17} \<longrightarrow> dispatch_packet Dispatcher_new (hdr @ rest) = Inr None) \<and>
   (\<forall>data. length data < 20 \<longrightarrow> dispatch_packet Dispatcher_new data = Inr None)"
proof (intro conjI allI impI)
  fix hl hdr l and rest :: "byte list" assume "ip_header hl (ip_protocol l) hdr" "line_ok l"
  then show "dispatch_packet Dispatcher_new (hdr @ transport l @ rest) = Inr (Some l)" using encoded_prints unfolding prints_def by blast
next
  fix hl p hdr and rest :: "byte list" assume h: "ip_header hl p hdr" and p: "p \<notin> {1, 6, 17}"
  have "Dispatcher_new (uint p) = None"
  proof -
    have "uint p \<noteq> uint (1 :: byte)" "uint p \<noteq> uint (6 :: byte)" "uint p \<noteq> uint (17 :: byte)" using p by (auto simp only: word_uint_eq_iff insert_iff)
    then show ?thesis by (simp add: Dispatcher_new_def)
  qed
  then show "dispatch_packet Dispatcher_new (hdr @ rest) = Inr None" using h by (simp add: dispatch_packet_def SIZEOF_IP_def ip_header_def nth_append Let_def)
qed (simp add: dispatch_packet_def SIZEOF_IP_def)

theorem dispatch_round_trip_witness:
  "dispatch_packet Dispatcher_new ([69, 0, 0, 40, 0, 0, 0, 0, 64, 6, 0, 0, 10, 0, 0, 1, 10, 0, 0, 2] @ transport (TCP 8080 443) @ []) = Inr (Some (TCP 8080 443))"
proof -
  have "ip_header 5 (ip_protocol (TCP 8080 443)) [69, 0, 0, 40, 0, 0, 0, 0, 64, 6, 0, 0, 10, 0, 0, 1, 10, 0, 0, 2]" by (simp add: ip_header_def)
  then show ?thesis using dispatch_round_trip by (meson line_ok.simps(2))
qed

section \<open>The pipeline\<close>

text \<open>A frame that was captured whole and carries a well-formed packet.\<close>

definition carries :: "frame \<Rightarrow> packet_line \<Rightarrow> bool" where
  "carries f l \<longleftrightarrow> line_ok l \<and> wire_len f = word_of_nat (length (captured f)) \<and> length (captured f) \<le> 65536 \<and>
     (\<exists>eth hl hdr rest. length eth = 14 \<and> ip_header hl (ip_protocol l) hdr \<and> captured f = eth @ hdr @ transport l @ rest)"

lemma carries_strip:
  assumes "carries f l"
  obtains p where "strip_ethernet f = Inr p" "prints p l"
proof -
  obtain eth hl hdr rest where f: "length eth = 14" "ip_header hl (ip_protocol l) hdr" "captured f = eth @ hdr @ transport l @ rest"
    "wire_len f = word_of_nat (length (captured f))" "length (captured f) \<le> 65536" "line_ok l"
    using assms by (auto simp: carries_def)
  let ?p = "hdr @ transport l @ rest"
  have "wire_len f - 14 = word_of_nat (length ?p)" using f(1,3,4) by simp
  then have "unat (wire_len f - 14) = length ?p" using f(1,3,5) by (simp add: unat_word_ariths unat_of_nat)
  then have "strip_ethernet f = Inr ?p" using f(1,3) by (simp add: strip_ethernet_def)
  then show thesis using that encoded_prints [OF f(2,6)] by blast
qed

definition held_packets :: "receiver \<Rightarrow> byte list list" where
  "held_packets r = (case in_hand r of None \<Rightarrow> [] | Some p \<Rightarrow> [p])"

definition pipeline_inv :: "packet_line list \<Rightarrow> frame list \<times> receiver \<Rightarrow> bool" where
  "pipeline_inv ls = (\<lambda>(fs, r). running r \<and> (asleep r \<longrightarrow> in_hand r = None \<and> (packet_queue r = [] \<or> notifying r)) \<and>
     (\<exists>qs rest. list_all2 prints (held_packets r @ packet_queue r) qs \<and> list_all2 carries fs rest \<and>
       (\<exists>ds. printed r = map Some ds \<and> ls = ds @ qs @ rest)))"

lemma pipeline_invI:
  "running r \<Longrightarrow> asleep r \<longrightarrow> in_hand r = None \<and> (packet_queue r = [] \<or> notifying r) \<Longrightarrow> list_all2 prints (held_packets r @ packet_queue r) qs \<Longrightarrow>
    list_all2 carries fs rest \<Longrightarrow> printed r = map Some ds \<Longrightarrow> pipeline_inv (ds @ qs @ rest) (fs, r)"
  unfolding pipeline_inv_def by blast

lemma pipeline_invE:
  assumes "pipeline_inv ls (fs, r)"
  obtains qs rest ds where "running r" "asleep r \<longrightarrow> in_hand r = None \<and> (packet_queue r = [] \<or> notifying r)"
    "list_all2 prints (held_packets r @ packet_queue r) qs" "list_all2 carries fs rest" "printed r = map Some ds" "ls = ds @ qs @ rest"
  using assms unfolding pipeline_inv_def by blast

lemma pipeline_inv_wakes:
  "pipeline_inv ls (fs, r) \<Longrightarrow> running r' = running r \<Longrightarrow> packet_queue r' = packet_queue r \<Longrightarrow> in_hand r' = in_hand r \<Longrightarrow>
    printed r' = printed r \<Longrightarrow> \<not> asleep r' \<Longrightarrow> pipeline_inv ls (fs, r')"
  by (simp add: pipeline_inv_def held_packets_def)

lemma pipeline_step:
  assumes "recv_step b s s'" "pipeline_inv ls s"
  shows "\<exists>t. s' = Inr t \<and> pipeline_inv ls t"
  using assms(1)
proof cases
  case (deliver r f fs)
  obtain qs rest ds where inv: "running r" "asleep r \<longrightarrow> in_hand r = None \<and> (packet_queue r = [] \<or> notifying r)"
    "list_all2 prints (held_packets r @ packet_queue r) qs" "list_all2 carries (f # fs) rest" "printed r = map Some ds" "ls = ds @ qs @ rest"
    using pipeline_invE [OF assms(2) [unfolded deliver(2)]] by blast
  then obtain l rest' where l: "rest = l # rest'" "carries f l" "list_all2 carries fs rest'" by (auto simp: list_all2_Cons1)
  obtain p where p: "strip_ethernet f = Inr p" "prints p l" by (rule carries_strip [OF l(2)])
  let ?r = "r\<lparr>packet_queue := packet_queue r @ [p], notifying := True\<rparr>"
  have "list_all2 prints ((held_packets r @ packet_queue r) @ [p]) (qs @ [l])" by (rule list_all2_appendI) (use inv(3) p(2) in simp_all)
  then have "pipeline_inv (ds @ (qs @ [l]) @ rest') (fs, ?r)" using inv l(3) by (intro pipeline_invI) (simp_all add: held_packets_def)
  then show ?thesis using inv(6) l(1) deliver(3) p(1) by (simp add: pcap_callback_def)
next
  case (notify r fs)
  have "pipeline_inv ls (fs, notify_processor r)"
    by (rule pipeline_inv_wakes [OF assms(2) [unfolded notify(2)]]) (simp_all add: notify_processor_def)
  then show ?thesis using notify(3) by simp
next
  case (take_packet r fs)
  have "pipeline_inv ls (fs, processor_take r)"
  proof (rule pipeline_invE [OF assms(2) [unfolded take_packet(2)]])
    fix qs rest ds
    assume "running r" "list_all2 prints (held_packets r @ packet_queue r) qs" "list_all2 carries fs rest" "printed r = map Some ds" "ls = ds @ qs @ rest"
    then show ?thesis using take_packet(5,6)
      by (cases "packet_queue r") (auto simp: processor_take_def held_packets_def intro: pipeline_invI [where qs = "[]", simplified] intro!: pipeline_invI)
  qed
  then show ?thesis using take_packet(3) by simp
next
  case (print_packet r p fs)
  obtain qs rest ds where inv: "running r" "asleep r \<longrightarrow> in_hand r = None \<and> (packet_queue r = [] \<or> notifying r)"
    "list_all2 prints (held_packets r @ packet_queue r) qs" "list_all2 carries fs rest" "printed r = map Some ds" "ls = ds @ qs @ rest"
    using pipeline_invE [OF assms(2) [unfolded print_packet(2)]] by blast
  then obtain l qs' where l: "qs = l # qs'" "prints p l" "list_all2 prints (packet_queue r) qs'"
    using print_packet(4) by (auto simp: held_packets_def list_all2_Cons1)
  let ?r = "r\<lparr>in_hand := None, printed := printed r @ [Some l]\<rparr>"
  have "processor_dispatch r p = Inr ?r" using l(2) by (simp add: processor_dispatch_def prints_def)
  moreover have "pipeline_inv ((ds @ [l]) @ qs' @ rest) (fs, ?r)" using inv l print_packet(4) by (intro pipeline_invI) (auto simp: held_packets_def)
  ultimately show ?thesis using inv(6) l(1) print_packet(3) by simp
next
  case (wake_up r fs)
  have "pipeline_inv ls (fs, r\<lparr>asleep := False\<rparr>)"
    by (rule pipeline_inv_wakes [OF assms(2) [unfolded wake_up(2)]]) simp_all
  then show ?thesis using wake_up(3) by simp
qed

text \<open>
  Claim C26: the receiver prints every packet once and in the order of arrival. When libpcap delivers frames that were captured whole and carry well-formed
  packets, then in every reachable state of the two threads what was printed, what the processor holds, what waits in the queue and what is still to come are
  together exactly the packets delivered, in order; no access leaves a packet, and no wake-up is lost: until all is printed one of the threads can go on.
\<close>

theorem receiver_prints_in_order:
  assumes "list_all2 carries frames ls" "recv_reachable frames s"
  shows "\<exists>fs r qs rest. s = Inr (fs, r) \<and> running r \<and> list_all2 prints (held_packets r @ packet_queue r) qs \<and> list_all2 carries fs rest \<and>
    printed r @ map Some (qs @ rest) = map Some ls \<and> (printed r \<noteq> map Some ls \<longrightarrow> (\<exists>s'. recv_step False (fs, r) s'))"
proof -
  have "\<exists>t. s = Inr t \<and> pipeline_inv ls t"
    using assms(2)
  proof (induction rule: recv_reachable.induct)
    case init
    then show ?case using assms(1) by (auto simp: pipeline_inv_def PacketReceiver_new_def held_packets_def)
  next
    case (step s b s')
    then show ?case using pipeline_step by auto
  qed
  then obtain fs r where t: "s = Inr (fs, r)" "pipeline_inv ls (fs, r)" by auto
  obtain qs rest ds where s: "running r" "asleep r \<longrightarrow> in_hand r = None \<and> (packet_queue r = [] \<or> notifying r)"
    "list_all2 prints (held_packets r @ packet_queue r) qs" "list_all2 carries fs rest" "printed r = map Some ds" "ls = ds @ qs @ rest"
    using pipeline_invE [OF t(2)] by blast
  have "\<exists>s'. recv_step False (fs, r) s'" if "printed r \<noteq> map Some ls"
  proof (cases "notifying r \<or> in_hand r \<noteq> None \<or> \<not> asleep r")
    case True
    then show ?thesis using recv_step.notify recv_step.print_packet recv_step.take_packet s(1) by blast
  next
    case False
    then have "packet_queue r = []" "held_packets r = []" using s(2) by (auto simp: held_packets_def)
    then have "fs \<noteq> []" using s(3-6) that by auto
    then show ?thesis using recv_step.deliver False by (metis neq_Nil_conv)
  qed
  then show ?thesis using s t(1) by (intro exI [of _ fs] exI [of _ r] exI [of _ qs] exI [of _ rest]) auto
qed

theorem receiver_prints_in_order_witness:
  "\<exists>r. recv_reachable [\<lparr>wire_len = 36, captured = replicate 14 0 @ [69] @ replicate 8 0 @ [1] @ replicate 10 0 @ transport (ICMP 8 0) @ []\<rparr>] (Inr ([], r)) \<and>
     packet_queue r = [] \<and> printed r = [Some (ICMP 8 0)]"
proof -
  let ?hdr = "[69] @ replicate 8 0 @ [1] @ replicate 10 0 :: byte list"
  let ?f = "\<lparr>wire_len = 36, captured = replicate 14 0 @ [69] @ replicate 8 0 @ [1] @ replicate 10 0 @ transport (ICMP 8 0) @ []\<rparr>"
  have hdr: "ip_header 5 (ip_protocol (ICMP 8 0)) ?hdr" by (simp add: ip_header_def nth_append)
  have "carries ?f (ICMP 8 0)"
    unfolding carries_def by (intro conjI exI [of _ "replicate 14 0"] exI [of _ 5] exI [of _ ?hdr] exI [of _ "[]"] hdr) (simp_all add: hdr)
  then have c: "list_all2 carries [?f] [ICMP 8 0]" by simp
  obtain p where p: "strip_ethernet ?f = Inr p" "prints p (ICMP 8 0)" using carries_strip \<open>carries ?f (ICMP 8 0)\<close> by blast
  let ?r1 = "PacketReceiver_new\<lparr>packet_queue := [p], notifying := True\<rparr>"
  let ?r2 = "?r1\<lparr>packet_queue := [], in_hand := Some p\<rparr>"
  let ?r3 = "?r2\<lparr>in_hand := None, printed := [Some (ICMP 8 0)]\<rparr>"
  have "recv_step False ([?f], PacketReceiver_new) (Inr ([], ?r1))"
    using recv_step.deliver [of PacketReceiver_new ?f "[]"] p(1) by (simp add: pcap_callback_def PacketReceiver_new_def)
  then have reach1: "recv_reachable [?f] (Inr ([], ?r1))" using recv_reachable.init recv_reachable.step by blast
  have "recv_step False ([], ?r1) (Inr ([], ?r2))"
    using recv_step.take_packet [of ?r1 "[]"] by (simp add: PacketReceiver_new_def processor_take_def)
  then have reach2: "recv_reachable [?f] (Inr ([], ?r2))" using reach1 recv_reachable.step by blast
  have "processor_dispatch ?r2 p = Inr ?r3" using p(2) by (simp add: processor_dispatch_def prints_def PacketReceiver_new_def)
  then have "recv_step False ([], ?r2) (Inr ([], ?r3))" using recv_step.print_packet [of ?r2 p "[]"] by simp
  then have reach3: "recv_reachable [?f] (Inr ([], ?r3))" using reach2 recv_reachable.step by blast
  have "map Some [ICMP 8 0] = printed ?r3 @ map Some []" using receiver_prints_in_order [OF c reach3] by (auto simp: PacketReceiver_new_def)
  then show ?thesis using reach3 by (intro exI [of _ ?r3]) (simp add: PacketReceiver_new_def)
qed

section \<open>Malformed packets\<close>

text \<open>
  The dispatcher trusts the header length: twenty bytes that announce a longer header or carry no ports make a handler read behind the packet; so does the
  callback when a frame is shorter than an Ethernet header or was captured in part. The processor never leaves its loop, so that
  \<open>start\<close> does not return.
\<close>

lemma dispatch_reads_behind_packet:
  assumes "length data = 20" "data ! 0 = 69" "data ! 9 = 6"
  shows "dispatch_packet Dispatcher_new data = Inl OutOfBounds"
  using assms by (simp add: dispatch_packet_def SIZEOF_IP_def Dispatcher_new_def TCPHandler_handle_def net16_def)

lemma short_frame_overread:
  assumes "length (captured f) < 14" "wire_len f = word_of_nat (length (captured f))"
  shows "pcap_callback r f = Inl OutOfBounds"
proof -
  have "unat (wire_len f - 14) = 2 ^ 32 - 14 + length (captured f)"
    using assms by (simp add: unat_sub_if' unat_of_nat)
  then show ?thesis using assms(1) by (simp add: pcap_callback_def strip_ethernet_def Let_def)
qed

lemma truncated_frame_overread:
  assumes "length (captured f) < unat (wire_len f)" "14 < unat (wire_len f)"
  shows "pcap_callback r f = Inl OutOfBounds"
proof -
  have "unat (wire_len f - 14) = unat (wire_len f) - 14" using assms(2) by (simp add: unat_sub_if')
  then show ?thesis using assms by (simp add: pcap_callback_def strip_ethernet_def Let_def)
qed

lemma running_preserved: "recv_step b (fs, r) (Inr (fs', r')) \<Longrightarrow> running r' = running r"
  by (erule recv_step.cases)
    (auto simp: pcap_callback_def notify_processor_def processor_take_def processor_dispatch_def rbind_eq_Inr dest!: sym [of "Inr _" "rbind _ _"] split: list.splits)

lemma processor_keeps_running:
  assumes "recv_reachable frames s" "s = Inr (fs, r)"
  shows "running r"
  using assms
proof (induction arbitrary: fs r rule: recv_reachable.induct)
  case (step s b s')
  obtain fs0 r0 where s: "s = (fs0, r0)" by (cases s)
  with step.IH have "running r0" by blast
  with running_preserved [of b fs0 r0 fs r] step.hyps(2) step.prems s show ?case by simp
qed (auto simp: PacketReceiver_new_def)

section \<open>The program\<close>

text \<open>
  \<open>main\<close>: \<open>argv\<close> are the arguments with the name of the program first, \<open>opens\<close> tells which interfaces libpcap can open. The result is the exit status of a program that gives up, or the
  receiver on which \<open>start\<close> runs the threads.
\<close>

definition packetHandler_main :: "(string \<Rightarrow> bool) \<Rightarrow> string list \<Rightarrow> int + receiver" where
  "packetHandler_main opens argv =
     (if length argv < 2 then Inl 1
      else (case PacketReceiver_open (opens (argv ! 1)) of None \<Rightarrow> Inl 1 | Some r \<Rightarrow> Inr r))"

lemma packetHandler_main_cases:
  "packetHandler_main opens argv = (if 2 \<le> length argv \<and> opens (argv ! 1) then Inr PacketReceiver_new else Inl 1)"
  by (simp add: packetHandler_main_def PacketReceiver_open_def)

text \<open>A receiver that is running prints the frames in order, from the start of the program.\<close>

lemma packetHandler_main_starts: "packetHandler_main opens argv = Inr r \<Longrightarrow> recv_reachable fs (Inr (fs, r))"
  by (auto simp: packetHandler_main_cases recv_reachable.init split: if_splits)

end
