(* ===== verification/Unbounded_Queues.thy ===== *)
theory Unbounded_Queues
  imports Prelude
begin

text \<open>
  The producers and consumers of \<open>concurrency/producerConsumer\<close> on an unbounded queue: \<open>mutex.cpp\<close>, whose consumers drain the queue once,
  \<open>mutex_cv.cpp\<close> and \<open>mutex_cv_refactor.cpp\<close>, whose consumers wait on a condition variable with a predicate, and \<open>producerConsumer.c\<close>, whose
  consumer waits without one. A critical section is one step; going to sleep releases the mutex in the same step.
\<close>

section \<open>The queue with a condition variable\<close>

definition ThreadSafeQueue_push :: "'a list \<Rightarrow> 'a \<Rightarrow> 'a list" where
  "ThreadSafeQueue_push q v = q @ [v]"

text \<open>\<open>pop\<close> under the mutex; \<open>None\<close> when its predicate is false and it waits.\<close>

definition ThreadSafeQueue_pop :: "'a list \<Rightarrow> ('a \<times> 'a list) option" where
  "ThreadSafeQueue_pop q = (case q of [] \<Rightarrow> None | v # q' \<Rightarrow> Some (v, q'))"

datatype consumer_state = Awake | Asleep

text \<open>
  \<open>counters\<close>: the loop variable \<open>i\<close> of each producer. The values carry the number of their producer, which tells apart equal integers of different
  producers; \<open>processed\<close> is what the consumers have taken, in order, and \<open>history\<close> what was pushed.
\<close>

record cv_sys =
  counters :: "nat list"
  shared :: "(nat \<times> nat) list"
  consumers :: "consumer_state list"
  processed :: "(nat \<times> nat) list"
  history :: "(nat \<times> nat) list"

definition cv_start :: "nat \<Rightarrow> nat \<Rightarrow> cv_sys" where
  "cv_start np nc = \<lparr>counters = replicate np 0, shared = [], consumers = replicate nc Awake, processed = [], history = []\<rparr>"

text \<open>\<open>limit\<close>: the number of values of a producer. The flag tells a spurious wake-up from a step of the program.\<close>

inductive cv_step :: "nat \<Rightarrow> bool \<Rightarrow> cv_sys \<Rightarrow> cv_sys \<Rightarrow> bool" for limit where
  push_wake: "p < length (counters s) \<Longrightarrow> counters s ! p < limit \<Longrightarrow> c < length (consumers s) \<Longrightarrow> consumers s ! c = Asleep \<Longrightarrow>
    cv_step limit False s (s\<lparr>counters := (counters s)[p := Suc (counters s ! p)], shared := ThreadSafeQueue_push (shared s) (p, counters s ! p),
      history := history s @ [(p, counters s ! p)], consumers := (consumers s)[c := Awake]\<rparr>)"
| push: "p < length (counters s) \<Longrightarrow> counters s ! p < limit \<Longrightarrow> Asleep \<notin> set (consumers s) \<Longrightarrow>
    cv_step limit False s (s\<lparr>counters := (counters s)[p := Suc (counters s ! p)], shared := ThreadSafeQueue_push (shared s) (p, counters s ! p),
      history := history s @ [(p, counters s ! p)]\<rparr>)"
| pop: "c < length (consumers s) \<Longrightarrow> consumers s ! c = Awake \<Longrightarrow> ThreadSafeQueue_pop (shared s) = Some (v, q) \<Longrightarrow>
    cv_step limit False s (s\<lparr>shared := q, processed := processed s @ [v]\<rparr>)"
| wait: "c < length (consumers s) \<Longrightarrow> consumers s ! c = Awake \<Longrightarrow> ThreadSafeQueue_pop (shared s) = None \<Longrightarrow>
    cv_step limit False s (s\<lparr>consumers := (consumers s)[c := Asleep]\<rparr>)"
| spurious: "c < length (consumers s) \<Longrightarrow> consumers s ! c = Asleep \<Longrightarrow> cv_step limit True s (s\<lparr>consumers := (consumers s)[c := Awake]\<rparr>)"

inductive cv_reachable :: "nat \<Rightarrow> nat \<Rightarrow> nat \<Rightarrow> cv_sys \<Rightarrow> bool" for np nc limit where
  init: "cv_reachable np nc limit (cv_start np nc)"
| step: "cv_reachable np nc limit s \<Longrightarrow> cv_step limit b s s' \<Longrightarrow> cv_reachable np nc limit s'"

text \<open>\<open>main\<close> starts two producers of 1000000 values and two consumers.\<close>

definition mutex_cv_main :: cv_sys where "mutex_cv_main = cv_start 2 2"

definition from_producer :: "nat \<Rightarrow> (nat \<times> nat) list \<Rightarrow> nat list" where
  "from_producer p vs = map snd (filter (\<lambda>v. fst v = p) vs)"

lemma from_producer_simps [simp]:
  "from_producer p [] = []" "from_producer p (xs @ ys) = from_producer p xs @ from_producer p ys"
  "from_producer p [(q, v)] = (if p = q then [v] else [])"
  by (auto simp: from_producer_def)

definition cv_inv :: "nat \<Rightarrow> nat \<Rightarrow> nat \<Rightarrow> cv_sys \<Rightarrow> bool" where
  "cv_inv np nc limit s \<longleftrightarrow> length (counters s) = np \<and> length (consumers s) = nc \<and> (\<forall>i \<in> set (counters s). i \<le> limit) \<and>
     processed s @ shared s = history s \<and> (\<forall>p < np. from_producer p (history s) = [0..<counters s ! p]) \<and>
     (\<forall>v \<in> set (history s). fst v < np) \<and> (shared s \<noteq> [] \<longrightarrow> nc = 0 \<or> Awake \<in> set (consumers s))"

lemma cv_step_inv: "cv_step limit b s s' \<Longrightarrow> cv_inv np nc limit s \<Longrightarrow> cv_inv np nc limit s'"
proof (induction rule: cv_step.induct)
  case (push_wake p s c)
  then show ?case
    by (auto simp: cv_inv_def ThreadSafeQueue_push_def nth_list_update set_update_memI append_assoc [symmetric] simp del: append_assoc
        dest: set_update_subset_insert [THEN subsetD])
next
  case (push p s)
  have "consumers s = [] \<or> Awake \<in> set (consumers s)" using push(3) by (metis consumer_state.exhaust list.set_intros(1) neq_Nil_conv)
  with push show ?case
    by (auto simp: cv_inv_def ThreadSafeQueue_push_def nth_list_update append_assoc [symmetric] simp del: append_assoc
        dest: set_update_subset_insert [THEN subsetD])
next
  case (pop c s v q)
  then show ?case by (auto simp: cv_inv_def ThreadSafeQueue_pop_def in_set_conv_nth split: list.splits)
next
  case (wait c s)
  then show ?case by (auto simp: cv_inv_def ThreadSafeQueue_pop_def split: list.splits)
next
  case (spurious c s)
  then show ?case by (auto simp: cv_inv_def set_update_memI)
qed

lemma cv_reachable_inv: "cv_reachable np nc limit s \<Longrightarrow> cv_inv np nc limit s"
proof (induction rule: cv_reachable.induct)
  case init
  then show ?case by (auto simp: cv_inv_def cv_start_def)
qed (rule cv_step_inv)

text \<open>What is left to do: every step of the program takes some of it away, whatever the schedule.\<close>

definition cv_weight :: "nat \<Rightarrow> cv_sys \<Rightarrow> nat" where
  "cv_weight limit s = 3 * sum_list (map (\<lambda>i. limit - i) (counters s)) + length (shared s) + sum_list (map (\<lambda>c. if c = Awake then 1 else 0) (consumers s))"

lemma cv_step_weight: "cv_step limit b s s' \<Longrightarrow> \<not> b \<Longrightarrow> cv_weight limit s' < cv_weight limit s"
proof (induction rule: cv_step.induct)
  case (push_wake p s c)
  then show ?case using sum_list_update_nat [of p "counters s" "\<lambda>i. limit - i" "Suc (counters s ! p)"] sum_list_update_nat [of c "consumers s" "\<lambda>c. if c = Awake then 1 else 0" Awake]
    by (simp add: cv_weight_def ThreadSafeQueue_push_def)
next
  case (push p s)
  then show ?case using sum_list_update_nat [of p "counters s" "\<lambda>i. limit - i" "Suc (counters s ! p)"]
    by (simp add: cv_weight_def ThreadSafeQueue_push_def)
next
  case (pop c s v q)
  then show ?case by (auto simp: cv_weight_def ThreadSafeQueue_pop_def split: list.splits)
next
  case (wait c s)
  then show ?case using sum_list_update_nat [of c "consumers s" "\<lambda>c. if c = Awake then 1 else 0" Asleep] by (simp add: cv_weight_def)
qed simp

lemma cv_progress:
  assumes "cv_inv np nc limit s" "0 < nc" "\<And>s'. \<not> cv_step limit False s s'"
  shows "set (counters s) \<subseteq> {limit} \<and> shared s = [] \<and> set (consumers s) = {Asleep}"
proof -
  have len: "length (consumers s) = nc" and le: "\<forall>i \<in> set (counters s). i \<le> limit" using assms(1) by (auto simp: cv_inv_def)
  have sleeping: "consumers s ! c = Asleep" if "c < nc" for c
  proof (rule ccontr)
    assume "consumers s ! c \<noteq> Asleep"
    then have "consumers s ! c = Awake" by (cases "consumers s ! c") auto
    then have c: "c < length (consumers s)" "consumers s ! c = Awake" using that len by simp_all
    show False
    proof (cases "ThreadSafeQueue_pop (shared s)")
      case None
      then show False using assms(3) cv_step.wait [OF c] by blast
    next
      case (Some r)
      then show False using assms(3) cv_step.pop [OF c, of "fst r" "snd r"] by auto
    qed
  qed
  then have all: "set (consumers s) = {Asleep}" using len assms(2) by (force simp: set_conv_nth)
  have "i = limit" if i: "i \<in> set (counters s)" for i
  proof (rule ccontr)
    assume "i \<noteq> limit"
    then obtain p where "p < length (counters s)" "counters s ! p < limit" using i le by (metis in_set_conv_nth le_neq_implies_less)
    then show False using assms(3) cv_step.push_wake [of p s limit 0] sleeping [of 0] len assms(2) by blast
  qed
  moreover have "shared s = []" using assms(1,2) all by (auto simp: cv_inv_def)
  ultimately show ?thesis using all by blast
qed

text \<open>
  Claim C21: the queue with a condition variable delivers everything. In every reachable state what the consumers have processed, followed by the queue, is what was
  pushed, in order, and the values of each producer are its counter's in order; every step of the program takes away from a finite amount of
  work, and when no step is possible all values have been pushed and processed and the consumers sleep for good: nothing is lost, and \<open>main\<close>
  never returns from joining them.
\<close>

theorem cv_queue_delivers:
  assumes "cv_reachable np nc limit s" "0 < nc"
  shows "processed s @ shared s = history s \<and> (\<forall>p < np. from_producer p (processed s @ shared s) = [0..<counters s ! p]) \<and>
    (\<forall>s'. cv_step limit False s s' \<longrightarrow> cv_weight limit s' < cv_weight limit s) \<and>
    ((\<nexists>s'. cv_step limit False s s') \<longleftrightarrow>
      (\<forall>p < np. from_producer p (processed s) = [0..<limit]) \<and> shared s = [] \<and> set (consumers s) = {Asleep})"
proof -
  have inv: "cv_inv np nc limit s" by (rule cv_reachable_inv [OF assms(1)])
  then have order: "processed s @ shared s = history s" "\<forall>p < np. from_producer p (processed s @ shared s) = [0..<counters s ! p]" and len: "length (counters s) = np"
    by (auto simp: cv_inv_def simp del: from_producer_simps)
  have stuck: "(\<forall>p < np. from_producer p (processed s) = [0..<limit]) \<and> shared s = [] \<and> set (consumers s) = {Asleep}" if "\<nexists>s'. cv_step limit False s s'"
  proof -
    have e: "set (counters s) \<subseteq> {limit}" "shared s = []" "set (consumers s) = {Asleep}" using cv_progress [OF inv assms(2)] that by blast+
    then have "counters s ! p = limit" if "p < np" for p using len that nth_mem by blast
    then show ?thesis using order(2) e by auto
  qed
  have "\<not> cv_step limit False s s'" if fin: "\<forall>p < np. from_producer p (processed s) = [0..<limit]" "shared s = []" "set (consumers s) = {Asleep}" for s'
  proof
    assume "cv_step limit False s s'"
    moreover have "counters s ! p = limit" if "p < np" for p using order(2) fin(1,2) that by (metis append_Nil2 diff_zero length_upt)
    moreover have "consumers s ! c = Asleep" if "c < length (consumers s)" for c using fin(3) nth_mem [OF that] by simp
    ultimately show False using len by (cases rule: cv_step.cases) auto
  qed
  then show ?thesis using order stuck cv_step_weight by blast
qed

theorem cv_queue_delivers_witness:
  "\<exists>s. cv_reachable 1 1 1 s \<and> cv_step 1 False (cv_start 1 1) s \<and> from_producer 0 (processed s @ shared s) = [0]"
proof -
  let ?s = "(cv_start 1 1)\<lparr>counters := [1], shared := [(0, 0)], history := [(0, 0)]\<rparr>"
  have st: "cv_step 1 False (cv_start 1 1) ?s"
    using cv_step.push [of 0 "cv_start 1 1" 1] by (simp add: cv_start_def ThreadSafeQueue_push_def)
  then have r: "cv_reachable 1 1 1 ?s" using cv_reachable.init cv_reachable.step by blast
  then have "from_producer 0 (processed ?s @ shared ?s) = [0..<counters ?s ! 0]" using cv_queue_delivers [OF r zero_less_one] by blast
  then show ?thesis using r st by (intro exI [of _ ?s]) (simp add: upt_rec)
qed

section \<open>Consumers that drain the queue once\<close>

text \<open>\<open>mutex.cpp\<close>: a consumer takes the mutex, empties the queue and returns.\<close>

fun drain_loop :: "'a list \<Rightarrow> 'a list \<Rightarrow> 'a list \<times> 'a list" where
  "drain_loop [] taken = (taken, [])"
| "drain_loop (v # q) taken = drain_loop q (taken @ [v])"

record mutex_sys =
  mx_counters :: "nat list"
  mx_queue :: "(nat \<times> nat) list"
  mx_left :: "bool list"
  mx_taken :: "(nat \<times> nat) list"

definition mutex_start :: "nat \<Rightarrow> nat \<Rightarrow> mutex_sys" where
  "mutex_start np nc = \<lparr>mx_counters = replicate np 0, mx_queue = [], mx_left = replicate nc False, mx_taken = []\<rparr>"

inductive mutex_step :: "nat \<Rightarrow> mutex_sys \<Rightarrow> mutex_sys \<Rightarrow> bool" for limit where
  mx_push: "p < length (mx_counters s) \<Longrightarrow> mx_counters s ! p < limit \<Longrightarrow>
    mutex_step limit s (s\<lparr>mx_counters := (mx_counters s)[p := Suc (mx_counters s ! p)], mx_queue := mx_queue s @ [(p, mx_counters s ! p)]\<rparr>)"
| mx_drain: "c < length (mx_left s) \<Longrightarrow> \<not> mx_left s ! c \<Longrightarrow> drain_loop (mx_queue s) (mx_taken s) = (vs, q) \<Longrightarrow>
    mutex_step limit s (s\<lparr>mx_queue := q, mx_taken := vs, mx_left := (mx_left s)[c := True]\<rparr>)"

inductive mutex_reachable :: "nat \<Rightarrow> nat \<Rightarrow> nat \<Rightarrow> mutex_sys \<Rightarrow> bool" for np nc limit where
  init: "mutex_reachable np nc limit (mutex_start np nc)"
| step: "mutex_reachable np nc limit s \<Longrightarrow> mutex_step limit s s' \<Longrightarrow> mutex_reachable np nc limit s'"

definition mutex_main :: mutex_sys where "mutex_main = mutex_start 2 2"

lemma drain_loop_all: "drain_loop q taken = (taken @ q, [])"
  by (induction q taken rule: drain_loop.induct) auto

text \<open>What was taken, followed by the queue, holds the values of every producer in order.\<close>

lemma mutex_order:
  assumes "mutex_reachable np nc limit s"
  shows "length (mx_counters s) = np \<and> (\<forall>p < np. from_producer p (mx_taken s @ mx_queue s) = [0..<mx_counters s ! p])"
  using assms
proof (induction rule: mutex_reachable.induct)
  case init
  then show ?case by (simp add: mutex_start_def)
next
  case (step s s')
  from step.hyps(2) step.IH show ?case by cases (auto simp: nth_list_update drain_loop_all)
qed

lemma mutex_pushes:
  assumes "mutex_reachable np nc limit s" "p < length (mx_counters s)" "mx_counters s ! p + k \<le> limit"
  shows "\<exists>s'. mutex_reachable np nc limit s' \<and> mx_counters s' = (mx_counters s)[p := mx_counters s ! p + k] \<and> mx_left s' = mx_left s \<and> mx_taken s' = mx_taken s"
  using assms(3)
proof (induction k)
  case 0
  then show ?case using assms(1) by (intro exI [of _ s]) simp
next
  case (Suc k)
  then obtain s' where s': "mutex_reachable np nc limit s'" "mx_counters s' = (mx_counters s)[p := mx_counters s ! p + k]" "mx_left s' = mx_left s" "mx_taken s' = mx_taken s"
    by auto
  have "mutex_step limit s' (s'\<lparr>mx_counters := (mx_counters s')[p := Suc (mx_counters s' ! p)], mx_queue := mx_queue s' @ [(p, mx_counters s' ! p)]\<rparr>)"
    using s'(2) assms(2) Suc.prems by (intro mutex_step.mx_push) simp_all
  from mutex_reachable.step [OF s'(1) this] show ?case using s' assms(2) by (intro exI) auto
qed

text \<open>The consumers may both run before the producers: the program then ends with every value still in the queue.\<close>

lemma mutex_main_leaves_values:
  "\<exists>s. mutex_reachable 2 2 limit s \<and> mx_counters s = [limit, limit] \<and> mx_left s = [True, True] \<and> mx_taken s = [] \<and>
     (\<forall>p < 2. from_producer p (mx_queue s) = [0..<limit])"
proof -
  let ?s0 = "mutex_start 2 2"
  let ?s1 = "?s0\<lparr>mx_left := [True, False]\<rparr>" and ?s2 = "?s0\<lparr>mx_left := [True, True]\<rparr>"
  have "mutex_step limit ?s0 ?s1" using mutex_step.mx_drain [of 0 ?s0 "[]" "[]" limit] by (simp add: mutex_start_def numeral_eq_Suc)
  then have "mutex_reachable 2 2 limit ?s1" using mutex_reachable.init mutex_reachable.step by blast
  moreover have "mutex_step limit ?s1 ?s2" using mutex_step.mx_drain [of 1 ?s1 "[]" "[]" limit] by (simp add: mutex_start_def numeral_eq_Suc)
  ultimately have 2: "mutex_reachable 2 2 limit ?s2" using mutex_reachable.step by blast
  obtain s3 where s3: "mutex_reachable 2 2 limit s3" "mx_counters s3 = [limit, 0]" "mx_left s3 = [True, True]" "mx_taken s3 = []"
    using mutex_pushes [OF 2, of 0 limit] by (auto simp: mutex_start_def numeral_eq_Suc)
  obtain s4 where s4: "mutex_reachable 2 2 limit s4" "mx_counters s4 = [limit, limit]" "mx_left s4 = [True, True]" "mx_taken s4 = []"
    using mutex_pushes [OF s3(1), of 1 limit] s3 by auto
  have "\<forall>p < 2. from_producer p (mx_queue s4) = [0..<limit]" using mutex_order [OF s4(1)] s4(2,4) by (auto simp: less_2_cases_iff nth_Cons')
  then show ?thesis using s4 by blast
qed

section \<open>A condition variable without a predicate\<close>

text \<open>
  \<open>producerConsumer.c\<close>: two producers and a consumer over a buffer of 24 characters. The consumer waits before every character and tests nothing; the
  producers test their counter before they take the mutex. \<open>made\<close> and \<open>taken\<close> are the globals \<open>i\<close> and \<open>j\<close>.
\<close>

definition PC_MAX :: nat where "PC_MAX = 50"
definition BUFLEN :: nat where "BUFLEN = 24"

definition source :: string where "source = ''hello world!''"

datatype pc_consumer = Starting | Waiting | Signalled | Returned

datatype pc_producer = AtTest | Entering | Left

record pcc_sys =
  pc_buffer :: string
  rCount :: nat
  wCount :: nat
  made :: nat
  taken :: nat
  pc_cons :: pc_consumer
  pc_prods :: "pc_producer list"
  eaten :: string

definition pcc_start :: pcc_sys where
  "pcc_start = \<lparr>pc_buffer = replicate BUFLEN (CHR 0x00), rCount = 0, wCount = 0, made = 0, taken = 0, pc_cons = Starting, pc_prods = [AtTest, AtTest], eaten = []\<rparr>"

text \<open>The critical section of a producer; \<open>strcpy(buffer, "")\<close> clears the first character.\<close>

definition produce_char :: "nat \<Rightarrow> pcc_sys \<Rightarrow> pcc_sys res" where
  "produce_char p s =
     rbind (arr_set (pc_buffer s) 0 (CHR 0x00)) (\<lambda>b.
     rbind (umod (wCount s) (length source)) (\<lambda>k.
     rbind (arr_get source k) (\<lambda>ch.
     rbind (arr_set b (wCount s) ch) (\<lambda>b.
     Inr (s\<lparr>pc_buffer := b, wCount := (wCount s + 1) mod BUFLEN, made := made s + 1, pc_prods := (pc_prods s)[p := AtTest],
       pc_cons := (if pc_cons s = Waiting then Signalled else pc_cons s)\<rparr>)))))"

text \<open>The loop test of the consumer, and what it does when it has been woken.\<close>

definition consumer_at_test :: "pcc_sys \<Rightarrow> pcc_sys" where
  "consumer_at_test s = s\<lparr>pc_cons := (if taken s < PC_MAX then Waiting else Returned)\<rparr>"

definition consume_char :: "pcc_sys \<Rightarrow> pcc_sys res" where
  "consume_char s = rbind (arr_get (pc_buffer s) (rCount s)) (\<lambda>ch.
     Inr (consumer_at_test (s\<lparr>eaten := eaten s @ [ch], rCount := (rCount s + 1) mod BUFLEN, taken := taken s + 1\<rparr>)))"

inductive pcc_step :: "bool \<Rightarrow> pcc_sys \<Rightarrow> pcc_sys res \<Rightarrow> bool" where
  p_test: "p < length (pc_prods s) \<Longrightarrow> pc_prods s ! p = AtTest \<Longrightarrow>
    pcc_step False s (Inr (s\<lparr>pc_prods := (pc_prods s)[p := if made s < PC_MAX then Entering else Left]\<rparr>))"
| p_body: "p < length (pc_prods s) \<Longrightarrow> pc_prods s ! p = Entering \<Longrightarrow> pcc_step False s (produce_char p s)"
| c_start: "pc_cons s = Starting \<Longrightarrow> pcc_step False s (Inr (consumer_at_test s))"
| c_take: "pc_cons s = Signalled \<Longrightarrow> pcc_step False s (consume_char s)"
| c_spurious: "pc_cons s = Waiting \<Longrightarrow> pcc_step True s (Inr (s\<lparr>pc_cons := Signalled\<rparr>))"

inductive pcc_reachable :: "pcc_sys res \<Rightarrow> bool" where
  init: "pcc_reachable (Inr pcc_start)"
| step: "pcc_reachable (Inr s) \<Longrightarrow> pcc_step b s r \<Longrightarrow> pcc_reachable r"

definition entering :: "pcc_sys \<Rightarrow> nat" where
  "entering s = sum_list (map (\<lambda>p. if p = Entering then 1 else 0) (pc_prods s))"

definition pcc_inv :: "pcc_sys \<Rightarrow> bool" where
  "pcc_inv s \<longleftrightarrow> length (pc_buffer s) = BUFLEN \<and> rCount s < BUFLEN \<and> wCount s < BUFLEN \<and> length (pc_prods s) = 2 \<and> made s + entering s \<le> PC_MAX + 1 \<and>
     taken s \<le> PC_MAX \<and> (pc_cons s = Waiting \<or> pc_cons s = Signalled \<longrightarrow> taken s < PC_MAX) \<and> length (eaten s) = taken s"

lemma entering_le: "entering s \<le> length (pc_prods s)" "p < length (pc_prods s) \<Longrightarrow> pc_prods s ! p \<noteq> Entering \<Longrightarrow> entering s < length (pc_prods s)"
proof -
  have le: "sum_list (map (\<lambda>p. if p = Entering then 1 else 0 :: nat) ps) \<le> length ps" for ps by (induction ps) auto
  then show "entering s \<le> length (pc_prods s)" by (simp add: entering_def)
  assume p: "p < length (pc_prods s)" "pc_prods s ! p \<noteq> Entering"
  have "sum_list (map (\<lambda>p. if p = Entering then 1 else 0 :: nat) ((pc_prods s)[p := Entering])) \<le> length (pc_prods s)" using le [of "(pc_prods s)[p := Entering]"] by simp
  then show "entering s < length (pc_prods s)"
    using p sum_list_update_nat [of p "pc_prods s" "\<lambda>p. if p = Entering then 1 else 0" Entering] by (simp add: entering_def)
qed

lemma pcc_step_inv:
  assumes "pcc_step b s r" "pcc_inv s"
  shows "\<exists>s'. r = Inr s' \<and> pcc_inv s'"
  using assms(1)
proof cases
  case (p_test p)
  let ?x = "if made s < PC_MAX then Entering else Left"
  have "entering (s\<lparr>pc_prods := (pc_prods s)[p := ?x]\<rparr>) = entering s + (if made s < PC_MAX then 1 else 0)"
    using sum_list_update_nat [of p "pc_prods s" "\<lambda>p. if p = Entering then 1 else 0" ?x] p_test by (auto simp: entering_def)
  moreover have "entering s < 2" using entering_le(2) [of p s] p_test assms(2) by (simp add: pcc_inv_def)
  ultimately show ?thesis using assms(2) p_test by (auto simp: pcc_inv_def)
next
  case (p_body p)
  have "entering s = entering (s\<lparr>pc_prods := (pc_prods s)[p := AtTest]\<rparr>) + 1"
    using sum_list_update_nat [of p "pc_prods s" "\<lambda>p. if p = Entering then 1 else 0" AtTest] p_body by (simp add: entering_def)
  moreover have "entering (s'\<lparr>pc_prods := ps\<rparr>) = entering (s\<lparr>pc_prods := ps\<rparr>)" for s' ps by (simp add: entering_def)
  ultimately have "made s + 1 + sum_list (map (\<lambda>p. if p = Entering then 1 else 0) ((pc_prods s)[p := AtTest])) \<le> PC_MAX + 1"
    using assms(2) by (simp add: pcc_inv_def entering_def)
  moreover have "source \<noteq> []" "wCount s mod length source < length source" by (simp_all add: source_def)
  ultimately show ?thesis using assms(2) p_body by (simp add: produce_char_def pcc_inv_def BUFLEN_def entering_def umod_def)
next
  case c_start
  then show ?thesis using assms(2) by (auto simp: consumer_at_test_def pcc_inv_def entering_def)
next
  case c_take
  then show ?thesis using assms(2) by (auto simp: consume_char_def consumer_at_test_def pcc_inv_def entering_def BUFLEN_def)
next
  case c_spurious
  then show ?thesis using assms(2) by (auto simp: pcc_inv_def entering_def)
qed

text \<open>No access leaves the buffer; the producers may overshoot their limit by one, because they test it outside the mutex.\<close>

lemma pcc_safe:
  assumes "pcc_reachable r"
  shows "\<exists>s. r = Inr s \<and> pcc_inv s \<and> made s \<le> PC_MAX + 1"
proof -
  have "\<exists>s. r = Inr s \<and> pcc_inv s"
    using assms
  proof (induction rule: pcc_reachable.induct)
    case init
    then show ?case by (simp add: pcc_inv_def pcc_start_def entering_def BUFLEN_def PC_MAX_def)
  next
    case (step s b r)
    then show ?case using pcc_step_inv by auto
  qed
  then show ?thesis by (auto simp: pcc_inv_def)
qed

text \<open>Rounds of the first producer before the consumer has started.\<close>

lemma pcc_rounds:
  assumes "k \<le> PC_MAX"
  shows "\<exists>s. pcc_reachable (Inr s) \<and> pcc_inv s \<and> made s = k \<and> taken s = 0 \<and> pc_cons s = Starting \<and> pc_prods s = [AtTest, AtTest]"
  using assms
proof (induction k)
  case 0
  then show ?case using pcc_reachable.init pcc_safe [OF pcc_reachable.init] by (intro exI [of _ pcc_start]) (simp add: pcc_start_def)
next
  case (Suc k)
  then obtain s where s: "pcc_reachable (Inr s)" "pcc_inv s" "made s = k" "taken s = 0" "pc_cons s = Starting" "pc_prods s = [AtTest, AtTest]" by auto
  let ?s1 = "s\<lparr>pc_prods := [Entering, AtTest]\<rparr>"
  have st1: "pcc_step False s (Inr ?s1)" using pcc_step.p_test [of 0 s] s Suc.prems by simp
  have st2: "pcc_step False ?s1 (produce_char 0 ?s1)" using pcc_step.p_body [of 0 ?s1] by simp
  have reach: "pcc_reachable (produce_char 0 ?s1)" by (rule pcc_reachable.step [OF pcc_reachable.step [OF s(1) st1] st2])
  then obtain s2 where s2: "produce_char 0 ?s1 = Inr s2" "pcc_inv s2" using pcc_safe by blast
  have "made s2 = Suc k \<and> taken s2 = 0 \<and> pc_cons s2 = Starting \<and> pc_prods s2 = [AtTest, AtTest]" using s2(1) s by (auto simp: produce_char_def)
  then show ?case using reach s2 by auto
qed

text \<open>
  A signal that finds no waiting consumer is lost. The producers may finish before the consumer waits for the first time: they have then made 51 characters, one
  too many, none was consumed, and the consumer waits for a signal that never comes.
\<close>

lemma unpredicated_wait_hangs:
  "\<exists>s. pcc_reachable (Inr s) \<and> made s = PC_MAX + 1 \<and> taken s = 0 \<and> pc_cons s = Waiting \<and> pc_prods s = [Left, Left] \<and> (\<nexists>r. pcc_step False s r)"
proof -
  have "49 \<le> PC_MAX" by (simp add: PC_MAX_def)
  then obtain s where s: "pcc_reachable (Inr s)" "made s = 49" "taken s = 0" "pc_cons s = Starting" "pc_prods s = [AtTest, AtTest]" using pcc_rounds by blast
  let ?s1 = "s\<lparr>pc_prods := [Entering, AtTest]\<rparr>" and ?s2 = "s\<lparr>pc_prods := [Entering, Entering]\<rparr>"
  have "pcc_step False s (Inr ?s1)" using pcc_step.p_test [of 0 s] s by (simp add: PC_MAX_def)
  then have r1: "pcc_reachable (Inr ?s1)" using s(1) pcc_reachable.step by blast
  have "pcc_step False ?s1 (Inr ?s2)" using pcc_step.p_test [of 1 ?s1] s by (simp add: PC_MAX_def)
  then have r2: "pcc_reachable (Inr ?s2)" using r1 pcc_reachable.step by blast
  have r3: "pcc_reachable (produce_char 0 ?s2)" using pcc_reachable.step [OF r2 pcc_step.p_body [of 0]] by simp
  then obtain s3 where s3: "produce_char 0 ?s2 = Inr s3" using pcc_safe by blast
  then have f3: "made s3 = 50" "taken s3 = 0" "pc_cons s3 = Starting" "pc_prods s3 = [AtTest, Entering]" using s by (auto simp: produce_char_def)
  have r4: "pcc_reachable (produce_char 1 s3)" using pcc_reachable.step [OF r3 [unfolded s3] pcc_step.p_body [of 1]] f3 by simp
  then obtain s4 where s4: "produce_char 1 s3 = Inr s4" using pcc_safe by blast
  then have f4: "made s4 = 51" "taken s4 = 0" "pc_cons s4 = Starting" "pc_prods s4 = [AtTest, AtTest]" using f3 by (auto simp: produce_char_def)
  let ?s5 = "s4\<lparr>pc_prods := [Left, AtTest]\<rparr>" and ?s6 = "s4\<lparr>pc_prods := [Left, Left]\<rparr>"
  have "pcc_step False s4 (Inr ?s5)" using pcc_step.p_test [of 0 s4] f4 by (simp add: PC_MAX_def)
  then have r5: "pcc_reachable (Inr ?s5)" using r4 s4 pcc_reachable.step by metis
  have "pcc_step False ?s5 (Inr ?s6)" using pcc_step.p_test [of 1 ?s5] f4 by (simp add: PC_MAX_def)
  then have r6: "pcc_reachable (Inr ?s6)" using r5 pcc_reachable.step by blast
  have r7: "pcc_reachable (Inr (consumer_at_test ?s6))" using pcc_reachable.step [OF r6 pcc_step.c_start] f4 by simp
  let ?s = "consumer_at_test ?s6"
  have f: "made ?s = PC_MAX + 1" "taken ?s = 0" "pc_cons ?s = Waiting" "pc_prods ?s = [Left, Left]" using f4 by (simp_all add: consumer_at_test_def PC_MAX_def)
  have "\<not> pcc_step False ?s r" for r
  proof
    assume "pcc_step False ?s r"
    then show False by cases (use f in \<open>auto simp: less_Suc_eq\<close>)
  qed
  then show ?thesis using r7 f by blast
qed

end
