(* ===== verification/Filters.thy ===== *)
theory Filters
  imports Prelude
begin

text \<open>
  Two filters of repeated data: \<open>microsoft/securityPosition/deduplication.cpp\<close>, which suppresses a message that was forwarded a short while ago, and
  \<open>systemDesign/sensorFilter.cpp\<close>, which drops a reading that has not changed enough. The clocks are arguments; \<open>std::hash\<close> is a parameter, a function
  of the message that is otherwise unspecified.
\<close>

section \<open>The message filter\<close>

record MessageFilter =
  cooldownSeconds :: int
  lastSeen :: "nat \<Rightarrow> int option"

definition MessageFilter_new :: "int \<Rightarrow> MessageFilter" where
  "MessageFilter_new cooldown = \<lparr>cooldownSeconds = cooldown, lastSeen = (\<lambda>_. None)\<rparr>"

text \<open>\<open>duration_cast\<close> from the nanoseconds of the clock to seconds cuts towards zero.\<close>

definition in_seconds :: "int \<Rightarrow> int" where
  "in_seconds d = (if 0 \<le> d then d div 1000000000 else - ((- d) div 1000000000))"

definition filter_msg :: "(string \<Rightarrow> nat) \<Rightarrow> MessageFilter \<Rightarrow> string \<Rightarrow> int \<Rightarrow> bool \<times> MessageFilter" where
  "filter_msg hash f msg now =
     (let h = hash msg in
      case lastSeen f h of
        None \<Rightarrow> (True, f\<lparr>lastSeen := (lastSeen f)(h \<mapsto> now)\<rparr>)
      | Some t \<Rightarrow> (let elapsed = in_seconds (now - t) in
          if cooldownSeconds f \<le> elapsed then (True, f\<lparr>lastSeen := (lastSeen f)(h \<mapsto> now)\<rparr>) else (False, f)))"

text \<open>A run over messages with the times of their arrival; \<open>main\<close> has one message a second.\<close>

fun filter_run :: "(string \<Rightarrow> nat) \<Rightarrow> MessageFilter \<Rightarrow> (string \<times> int) list \<Rightarrow> bool list \<times> MessageFilter" where
  "filter_run hash f [] = ([], f)"
| "filter_run hash f ((msg, now) # ms) = (let (b, f) = filter_msg hash f msg now; (bs, f) = filter_run hash f ms in (b # bs, f))"

definition deduplication_main :: "(string \<Rightarrow> nat) \<Rightarrow> int list \<Rightarrow> bool list" where
  "deduplication_main hash clock = fst (filter_run hash (MessageFilter_new 3)
     (zip [''msg1'', ''msg2'', ''msg3'', ''msg1'', ''msg1'', ''msg1'', ''msg4'', ''msg2'', ''msg3'', ''msg4''] clock))"

text \<open>The times at which a hash value was forwarded.\<close>

definition forwarded :: "(string \<Rightarrow> nat) \<Rightarrow> nat \<Rightarrow> (string \<times> int) list \<Rightarrow> bool list \<Rightarrow> int list" where
  "forwarded hash h ms bs = [t. ((msg, t), b) \<leftarrow> zip ms bs, b \<and> hash msg = h]"

lemma filter_run_snoc: "filter_run hash f (ms @ [(msg, now)]) =
    (let (bs, f) = filter_run hash f ms; (b, f) = filter_msg hash f msg now in (bs @ [b], f))"
  by (induction ms arbitrary: f) (auto simp: Let_def split: prod.splits)

lemma length_filter_run: "filter_run hash f ms = (bs, f') \<Longrightarrow> length bs = length ms"
  by (induction ms arbitrary: f bs f') (auto simp: Let_def split: prod.splits)

lemma forwarded_snoc:
  "length bs = length ms \<Longrightarrow> forwarded hash h (ms @ [(msg, t)]) (bs @ [b]) = forwarded hash h ms bs @ (if b \<and> hash msg = h then [t] else [])"
  by (simp add: forwarded_def)

lemma set_forwarded: "t \<in> set (forwarded hash h ms bs) \<longleftrightarrow> (\<exists>m. ((m, t), True) \<in> set (zip ms bs) \<and> hash m = h)"
  unfolding forwarded_def by force

lemma set_sent: "mt \<in> set (map fst (filter snd (zip ms bs))) \<longleftrightarrow> (mt, True) \<in> set (zip ms bs)"
  by force

lemma in_seconds_mono: "0 \<le> a \<Longrightarrow> a \<le> b \<Longrightarrow> in_seconds a \<le> in_seconds b"
  by (simp add: in_seconds_def zdiv_mono1)

text \<open>The map holds the last time each hash value was forwarded, and the times are in order.\<close>

lemma filter_run_inv:
  assumes "filter_run hash (MessageFilter_new c) ms = (bs, f)" "sorted (map snd ms)"
  shows "cooldownSeconds f = c \<and> (\<forall>h. lastSeen f h = (if forwarded hash h ms bs = [] then None else Some (last (forwarded hash h ms bs)))) \<and>
    (\<forall>h. sorted (forwarded hash h ms bs) \<and> set (forwarded hash h ms bs) \<subseteq> snd ` set ms)"
  using assms
proof (induction ms arbitrary: bs f rule: rev_induct)
  case Nil
  then show ?case by (auto simp: MessageFilter_new_def forwarded_def)
next
  case (snoc m ms)
  obtain msg now where m: "m = (msg, now)" by (cases m)
  obtain bs0 f0 where r0: "filter_run hash (MessageFilter_new c) ms = (bs0, f0)" by fastforce
  obtain b f1 where r1: "filter_msg hash f0 msg now = (b, f1)" by fastforce
  have bs: "bs = bs0 @ [b]" "f = f1" using snoc.prems(1) r0 r1 by (simp_all add: m filter_run_snoc)
  have IH: "cooldownSeconds f0 = c" "\<And>h. lastSeen f0 h = (if forwarded hash h ms bs0 = [] then None else Some (last (forwarded hash h ms bs0)))"
    "\<And>h. sorted (forwarded hash h ms bs0)" "\<And>h t. t \<in> set (forwarded hash h ms bs0) \<Longrightarrow> t \<in> snd ` set ms"
    using snoc.IH [OF r0] snoc.prems(2) by (auto simp: sorted_append)
  have f: "f1 = (if b then f0\<lparr>lastSeen := (lastSeen f0)(hash msg \<mapsto> now)\<rparr> else f0)"
    using r1 by (auto simp: filter_msg_def Let_def split: option.splits if_splits)
  have fw: "forwarded hash h (ms @ [m]) bs = forwarded hash h ms bs0 @ (if b \<and> hash msg = h then [now] else [])" for h
    using forwarded_snoc [OF length_filter_run [OF r0]] by (simp add: m bs)
  have "\<forall>t \<in> set (forwarded hash h ms bs0). t \<le> now" for h using IH(4) [of _ h] snoc.prems(2) by (fastforce simp: sorted_append m)
  then show ?case unfolding fw bs(2) f using IH by (auto simp: m sorted_append)
qed

text \<open>
  The message filter forwards a message exactly when no message with the same hash was forwarded less than the cooldown before. When the hash tells the
  messages apart, this is: a message is suppressed exactly when it was itself forwarded less than the cooldown before.
\<close>

theorem message_filter_correct:
  assumes "sorted (map snd (ms @ [(msg, now)]))" "filter_run hash (MessageFilter_new c) (ms @ [(msg, now)]) = (bs @ [b], f)"
    and "inj_on hash (insert msg (fst ` set ms))"
  shows "b \<longleftrightarrow> (\<forall>(m, t) \<in> set (map fst (filter snd (zip ms bs))). m = msg \<longrightarrow> c \<le> in_seconds (now - t))"
proof -
  obtain bs0 f0 where r0: "filter_run hash (MessageFilter_new c) ms = (bs0, f0)" by fastforce
  then have bs: "bs0 = bs" "fst (filter_msg hash f0 msg now) = b" using assms(2) by (auto simp: filter_run_snoc split: prod.splits)
  have s: "sorted (map snd ms)" "\<forall>m \<in> set ms. snd m \<le> now" using assms(1) by (auto simp: sorted_append)
  let ?F = "forwarded hash (hash msg) ms bs"
  have inv: "cooldownSeconds f0 = c" "lastSeen f0 (hash msg) = (if ?F = [] then None else Some (last ?F))" "sorted ?F" "set ?F \<subseteq> snd ` set ms"
    using filter_run_inv [OF r0 s(1)] bs(1) by blast+
  have "b \<longleftrightarrow> (\<forall>t \<in> set ?F. c \<le> in_seconds (now - t))"
  proof (cases ?F rule: rev_cases)
    case Nil
    then show ?thesis using bs(2) inv(2) by (auto simp: filter_msg_def Let_def)
  next
    case (snoc ts t)
    have t: "\<forall>u \<in> set ts. u \<le> t" "t \<le> now" using inv(3,4) s(2) snoc by (auto simp: sorted_append)
    have "b \<longleftrightarrow> c \<le> in_seconds (now - t)" using bs(2) inv(1,2) snoc by (auto simp: filter_msg_def Let_def split: if_splits)
    moreover have "in_seconds (now - t) \<le> in_seconds (now - u)" if "u \<in> set ts" for u using in_seconds_mono [of "now - t" "now - u"] t that by auto
    ultimately show ?thesis using snoc by fastforce
  qed
  also have "(\<forall>t \<in> set ?F. c \<le> in_seconds (now - t)) \<longleftrightarrow> (\<forall>(m, t) \<in> set (map fst (filter snd (zip ms bs))). m = msg \<longrightarrow> c \<le> in_seconds (now - t))"
  proof -
    have "hash m = hash msg \<longleftrightarrow> m = msg" if "((m, t), x) \<in> set (zip ms bs)" for m t x
    proof -
      have "m \<in> fst ` set ms" using set_zip_leftD [OF that] by force
      then show ?thesis using inj_onD [OF assms(3), of m msg] by auto
    qed
    then show ?thesis unfolding set_forwarded Ball_def set_sent by blast
  qed
  finally show ?thesis .
qed

theorem message_filter_correct_witness:
  "fst (filter_run length (MessageFilter_new 3) ([(''a'', 0), (''bb'', 1000000000)] @ [(''a'', 2000000000)])) = [True, True] @ [False]"
proof -
  have run: "fst (filter_run length (MessageFilter_new 3) ([(''a'', 0), (''bb'', 1000000000)] @ [(''a'', 2000000000)])) = [True, True] @ [b] \<Longrightarrow> b = False" for b
  proof -
    assume "fst (filter_run length (MessageFilter_new 3) ([(''a'', 0), (''bb'', 1000000000)] @ [(''a'', 2000000000)])) = [True, True] @ [b]"
    then obtain f where "filter_run length (MessageFilter_new 3) ([(''a'', 0), (''bb'', 1000000000)] @ [(''a'', 2000000000)]) = ([True, True] @ [b], f)"
      by (metis prod.collapse)
    from message_filter_correct [OF _ this] show "b = False" by (simp add: in_seconds_def)
  qed
  obtain b where "fst (filter_run length (MessageFilter_new 3) ([(''a'', 0), (''bb'', 1000000000)] @ [(''a'', 2000000000)])) = [True, True] @ [b]"
    by (simp add: filter_msg_def MessageFilter_new_def Let_def in_seconds_def) blast
  then show ?thesis using run by simp
qed

text \<open>Only the hash is stored: a message is suppressed when another one with the same hash was just forwarded.\<close>

lemma hash_collision_suppresses:
  assumes "hash m1 = hash m2" "0 < c"
  shows "fst (filter_run hash (MessageFilter_new c) [(m1, t), (m2, t)]) = [True, False]"
  using assms by (simp add: filter_msg_def MessageFilter_new_def Let_def in_seconds_def)

lemma deduplication_main_output:
  assumes "distinct (map hash [''msg1'', ''msg2'', ''msg3'', ''msg4''])"
  shows "deduplication_main hash (map (\<lambda>s. s * 1000000000) [0, 1, 2, 3, 4, 5, 6, 7, 8, 9]) = [True, True, True, True, False, False, True, True, True, True]"
  using assms by (simp add: deduplication_main_def filter_msg_def MessageFilter_new_def Let_def in_seconds_def)

section \<open>The sensor filter\<close>

text \<open>\<open>significant v w\<close> is the outcome of \<open>std::abs(v - w) >= threshold\<close> in the arithmetic of \<open>double\<close>.\<close>

record 'd SensorFilter =
  lastValue :: 'd
  significant :: "'d \<Rightarrow> 'd \<Rightarrow> bool"
  heartbeatIntervalMs :: int
  lastSentTime :: int

definition SensorFilter_new :: "'d \<Rightarrow> ('d \<Rightarrow> 'd \<Rightarrow> bool) \<Rightarrow> int \<Rightarrow> 'd SensorFilter" where
  "SensorFilter_new zero sig heartbeat = \<lparr>lastValue = zero, significant = sig, heartbeatIntervalMs = heartbeat, lastSentTime = 0\<rparr>"

definition shouldUpdate :: "'d SensorFilter \<Rightarrow> int \<Rightarrow> 'd \<Rightarrow> bool \<times> 'd SensorFilter" where
  "shouldUpdate f now newValue =
     (let significanceTrigger = significant f newValue (lastValue f); heartbeatTrigger = heartbeatIntervalMs f \<le> now - lastSentTime f in
      if significanceTrigger \<or> heartbeatTrigger then (True, f\<lparr>lastValue := newValue, lastSentTime := now\<rparr>) else (False, f))"

fun sensor_run :: "'d SensorFilter \<Rightarrow> (int \<times> 'd) list \<Rightarrow> bool list \<times> 'd SensorFilter" where
  "sensor_run f [] = ([], f)"
| "sensor_run f ((now, v) # rs) = (let (b, f) = shouldUpdate f now v; (bs, f) = sensor_run f rs in (b # bs, f))"

text \<open>\<open>main\<close> for the readings as \<open>double\<close> values and the times of the calls.\<close>

definition sensorFilter_main :: "'d \<Rightarrow> ('d \<Rightarrow> 'd \<Rightarrow> bool) \<Rightarrow> int list \<Rightarrow> 'd list \<Rightarrow> bool list" where
  "sensorFilter_main zero sig clock readings = fst (sensor_run (SensorFilter_new zero sig 5000) (zip clock readings))"

text \<open>What has been sent, most recent first, and what a receiver of the sent readings knows of the current one.\<close>

fun last_sent :: "int \<times> 'd \<Rightarrow> (int \<times> 'd) list \<Rightarrow> bool list \<Rightarrow> int \<times> 'd" where
  "last_sent r (q # rs) (b # bs) = last_sent (if b then q else r) rs bs"
| "last_sent r _ _ = r"

lemma sensor_run_inv:
  assumes "sensor_run f rs = (bs, f')"
  shows "(lastSentTime f', lastValue f') = last_sent (lastSentTime f, lastValue f) rs bs \<and> significant f' = significant f \<and> heartbeatIntervalMs f' = heartbeatIntervalMs f \<and>
    length bs = length rs"
  using assms
proof (induction f rs arbitrary: bs rule: sensor_run.induct)
  case (2 f now v rs)
  then show ?case by (auto simp: shouldUpdate_def Let_def split: prod.splits if_splits)
qed simp

lemma sensor_run_snoc: "sensor_run f (rs @ [(now, v)]) = (let (bs, f) = sensor_run f rs; (b, f) = shouldUpdate f now v in (bs @ [b], f))"
  by (induction f rs rule: sensor_run.induct) (auto simp: Let_def split: prod.splits)

text \<open>
  A reading is collapsed exactly when it does not differ significantly from the last reading sent and that was sent less than the heartbeat interval
  ago: a receiver is never further than the threshold from the current reading and never longer without news than the interval.
\<close>

theorem sensor_filter_correct:
  assumes "sensor_run f (rs @ [(now, v)]) = (bs @ [b], f')"
  shows "b \<longleftrightarrow> (case last_sent (lastSentTime f, lastValue f) rs bs of (t, w) \<Rightarrow> significant f v w \<or> heartbeatIntervalMs f \<le> now - t)"
proof -
  obtain bs0 f0 where r0: "sensor_run f rs = (bs0, f0)" by fastforce
  then have "bs0 = bs" "fst (shouldUpdate f0 now v) = b" using assms by (auto simp: sensor_run_snoc split: prod.splits)
  then show ?thesis using sensor_run_inv [OF r0] by (auto simp: shouldUpdate_def Let_def split: prod.splits if_splits)
qed

end
