(* ===== verification/Design_Patterns.thy ===== *)
theory Design_Patterns
  imports Prelude
begin

text \<open>
  The programs of \<open>designPatterns\<close>: the product filters of \<open>openClosed.cpp\<close> (over values) and \<open>openClosed_original.cpp\<close> (over pointers, once with one method per
  criterion and once with specifications that are combined), and the journals of \<open>SingleResponsibility.cpp\<close> and \<open>SingleResponsibility_original.cpp\<close>.
\<close>

section \<open>Products\<close>

datatype Color = red | green | blue
datatype Size = small | medium | large

record Product =
  prod_name :: string
  prod_color :: Color
  prod_size :: Size

text \<open>The filters over values: each loop appends the products that fit.\<close>

fun filter_by_color :: "Product list \<Rightarrow> Color \<Rightarrow> Product list \<Rightarrow> Product list" where
  "filter_by_color [] c items = items"
| "filter_by_color (i # products) c items = filter_by_color products c (if prod_color i = c then items @ [i] else items)"

fun filter_by_size :: "Product list \<Rightarrow> Size \<Rightarrow> Product list \<Rightarrow> Product list" where
  "filter_by_size [] s items = items"
| "filter_by_size (i # products) s items = filter_by_size products s (if prod_size i = s then items @ [i] else items)"

fun filter_by_color_and_size :: "Product list \<Rightarrow> Color \<Rightarrow> Size \<Rightarrow> Product list \<Rightarrow> Product list" where
  "filter_by_color_and_size [] c s items = items"
| "filter_by_color_and_size (i # products) c s items =
     filter_by_color_and_size products c s (if prod_color i = c \<and> prod_size i = s then items @ [i] else items)"

definition apple :: Product where "apple = \<lparr>prod_name = ''Apple'', prod_color = green, prod_size = small\<rparr>"
definition tree :: Product where "tree = \<lparr>prod_name = ''Tree'', prod_color = green, prod_size = large\<rparr>"
definition house :: Product where "house = \<lparr>prod_name = ''House'', prod_color = blue, prod_size = large\<rparr>"

definition openClosed_main :: "string list" where
  "openClosed_main = (let items = [apple, tree, house] in
     map prod_name (filter_by_color items green []) @ map prod_name (filter_by_size items large []) @
     map prod_name (filter_by_color_and_size items green large []))"

section \<open>Filters over pointers\<close>

type_synonym store = "addr \<Rightarrow> Product option"

fun by_color :: "store \<Rightarrow> ptr list \<Rightarrow> Color \<Rightarrow> ptr list \<Rightarrow> ptr list res" where
  "by_color h [] color result = Inr result"
| "by_color h (i # items) color result = rbind (deref h i) (\<lambda>p. by_color h items color (if prod_color p = color then result @ [i] else result))"

fun by_size :: "store \<Rightarrow> ptr list \<Rightarrow> Size \<Rightarrow> ptr list \<Rightarrow> ptr list res" where
  "by_size h [] sz result = Inr result"
| "by_size h (i # items) sz result = rbind (deref h i) (\<lambda>p. by_size h items sz (if prod_size p = sz then result @ [i] else result))"

fun by_size_and_color :: "store \<Rightarrow> ptr list \<Rightarrow> Size \<Rightarrow> Color \<Rightarrow> ptr list \<Rightarrow> ptr list res" where
  "by_size_and_color h [] sz color result = Inr result"
| "by_size_and_color h (i # items) sz color result =
     rbind (deref h i) (\<lambda>p. by_size_and_color h items sz color (if prod_size p = sz \<and> prod_color p = color then result @ [i] else result))"

text \<open>The class hierarchy of specifications; \<open>operator&&\<close> builds an \<open>AndSpecification\<close>.\<close>

datatype Specification = ColorSpecification Color | SizeSpecification Size | AndSpecification Specification Specification

fun is_satisfied :: "store \<Rightarrow> Specification \<Rightarrow> ptr \<Rightarrow> bool res" where
  "is_satisfied h (ColorSpecification color) item = rbind (deref h item) (\<lambda>p. Inr (prod_color p = color))"
| "is_satisfied h (SizeSpecification sz) item = rbind (deref h item) (\<lambda>p. Inr (prod_size p = sz))"
| "is_satisfied h (AndSpecification first second) item =
     rbind (is_satisfied h first item) (\<lambda>b. if b then is_satisfied h second item else Inr False)"

fun BetterFilter :: "store \<Rightarrow> ptr list \<Rightarrow> Specification \<Rightarrow> ptr list \<Rightarrow> ptr list res" where
  "BetterFilter h [] spec result = Inr result"
| "BetterFilter h (p # items) spec result = rbind (is_satisfied h spec p) (\<lambda>b. BetterFilter h items spec (if b then result @ [p] else result))"

definition openClosed_original_main :: "(ptr list \<times> ptr list) res" where
  "openClosed_original_main =
     (let h = [0 \<mapsto> apple, 1 \<mapsto> tree, 2 \<mapsto> house]; all = [Some 0, Some 1, Some 2] in
      rbind (BetterFilter h all (ColorSpecification green) []) (\<lambda>green_things.
      rbind (BetterFilter h all (AndSpecification (ColorSpecification green) (SizeSpecification large)) []) (\<lambda>green_and_large.
      Inr (green_things, green_and_large))))"

text \<open>What a specification says of a product.\<close>

fun satisfies :: "Specification \<Rightarrow> Product \<Rightarrow> bool" where
  "satisfies (ColorSpecification color) p \<longleftrightarrow> prod_color p = color"
| "satisfies (SizeSpecification sz) p \<longleftrightarrow> prod_size p = sz"
| "satisfies (AndSpecification first second) p \<longleftrightarrow> satisfies first p \<and> satisfies second p"

definition pointee :: "store \<Rightarrow> ptr \<Rightarrow> Product" where
  "pointee h p = the (h (the p))"

definition valid :: "store \<Rightarrow> ptr list \<Rightarrow> bool" where
  "valid h ps \<longleftrightarrow> (\<forall>p \<in> set ps. \<exists>a. p = Some a \<and> h a \<noteq> None)"

lemma valid_simps [simp]: "valid h []" "valid h (p # ps) \<longleftrightarrow> (\<exists>a x. p = Some a \<and> h a = Some x) \<and> valid h ps"
  by (auto simp: valid_def)

lemma value_filters:
  "filter_by_color ps c items = items @ filter (\<lambda>p. prod_color p = c) ps"
  "filter_by_size ps s items = items @ filter (\<lambda>p. prod_size p = s) ps"
  "filter_by_color_and_size ps c s items = items @ filter (\<lambda>p. prod_color p = c \<and> prod_size p = s) ps"
  by (induction ps arbitrary: items) auto

lemma is_satisfied_ok: "h a = Some x \<Longrightarrow> is_satisfied h spec (Some a) = Inr (satisfies spec x)"
  by (induction spec) auto

lemma BetterFilter_ok: "valid h ps \<Longrightarrow> BetterFilter h ps spec result = Inr (result @ filter (\<lambda>p. satisfies spec (pointee h p)) ps)"
proof (induction ps arbitrary: result)
  case (Cons p ps)
  then obtain a x where a: "p = Some a" "h a = Some x" "valid h ps" by auto
  then show ?case using Cons.IH by (simp add: is_satisfied_ok pointee_def)
qed simp

lemma pointer_filters:
  assumes "valid h ps"
  shows "by_color h ps c result = Inr (result @ filter (\<lambda>p. prod_color (pointee h p) = c) ps)"
    and "by_size h ps s result = Inr (result @ filter (\<lambda>p. prod_size (pointee h p) = s) ps)"
    and "by_size_and_color h ps s c result = Inr (result @ filter (\<lambda>p. prod_size (pointee h p) = s \<and> prod_color (pointee h p) = c) ps)"
proof -
  show "by_color h ps c result = Inr (result @ filter (\<lambda>p. prod_color (pointee h p) = c) ps)"
    using assms by (induction ps arbitrary: result) (auto simp: pointee_def)
  show "by_size h ps s result = Inr (result @ filter (\<lambda>p. prod_size (pointee h p) = s) ps)"
    using assms by (induction ps arbitrary: result) (auto simp: pointee_def)
  show "by_size_and_color h ps s c result = Inr (result @ filter (\<lambda>p. prod_size (pointee h p) = s \<and> prod_color (pointee h p) = c) ps)"
    using assms by (induction ps arbitrary: result) (auto simp: pointee_def)
qed

text \<open>
  The open-closed version, the one with a method per criterion and the one over values agree: the combined specification gives the pointers that
  \<open>by_size_and_color\<close> gives and that filtering by one criterion after the other gives, in the order of the input, and the products
  behind them are those that the filter over values returns.
\<close>

theorem product_filters_agree:
  assumes "valid h ps"
  shows "BetterFilter h ps (AndSpecification (ColorSpecification c) (SizeSpecification s)) [] = by_size_and_color h ps s c [] \<and>
    rbind (by_color h ps c []) (\<lambda>qs. by_size h qs s []) = by_size_and_color h ps s c [] \<and>
    BetterFilter h ps (ColorSpecification c) [] = by_color h ps c [] \<and> BetterFilter h ps (SizeSpecification s) [] = by_size h ps s [] \<and>
    (\<exists>qs. by_size_and_color h ps s c [] = Inr qs \<and> map (pointee h) qs = filter_by_color_and_size (map (pointee h) ps) c s [])"
proof -
  have "valid h (filter P ps)" for P using assms by (auto simp: valid_def)
  then show ?thesis using assms by (auto simp: BetterFilter_ok pointer_filters value_filters filter_map o_def conj_commute intro!: filter_cong)
qed

lemma openClosed_mains:
  "openClosed_main = [''Apple'', ''Tree'', ''Tree'', ''House'', ''Tree'']" "openClosed_original_main = Inr ([Some 0, Some 1], [Some 1])"
  by (simp_all add: openClosed_main_def openClosed_original_main_def apple_def tree_def house_def)

section \<open>Journals\<close>

record Journal =
  title :: string
  entries :: "string list"

type_synonym files = "string \<Rightarrow> string option"

definition Journal_new :: "string \<Rightarrow> Journal" where
  "Journal_new t = \<lparr>title = t, entries = []\<rparr>"

definition Journal_add :: "Journal \<Rightarrow> string \<Rightarrow> Journal" where
  "Journal_add j entry = j\<lparr>entries := entries j @ [entry]\<rparr>"

text \<open>The loop that writes the entries, each with a newline.\<close>

fun write_lines :: "string \<Rightarrow> string list \<Rightarrow> string" where
  "write_lines out [] = out"
| "write_lines out (s # ss) = write_lines (out @ s @ [CHR 0x0A]) ss"

text \<open>\<open>ofstream\<close> truncates the file; \<open>opens\<close> tells whether it could be opened, the code does not look.\<close>

definition Journal_save :: "bool \<Rightarrow> files \<Rightarrow> Journal \<Rightarrow> string \<Rightarrow> files" where
  "Journal_save opens fs j filename = (if opens then fs(filename \<mapsto> write_lines [] (entries j)) else fs)"

definition PersistenceManager_save :: "bool \<Rightarrow> files \<Rightarrow> Journal \<Rightarrow> string \<Rightarrow> files" where
  "PersistenceManager_save opens fs j filename = (if opens then fs(filename \<mapsto> write_lines [] (entries j)) else fs)"

definition journal_add_entry :: "Journal \<Rightarrow> string \<Rightarrow> Journal" where
  "journal_add_entry j entry = j\<lparr>entries := entries j @ [entry]\<rparr>"

definition show_journal :: "Journal \<Rightarrow> string" where
  "show_journal j = write_lines (''Title: '' @ title j @ [CHR 0x0A]) (entries j)"

definition journal_save :: "bool \<Rightarrow> files \<Rightarrow> Journal \<Rightarrow> string \<Rightarrow> files" where
  "journal_save opens fs j file_name = (if opens then fs(file_name \<mapsto> write_lines [] (entries j)) else fs)"

text \<open>\<open>persist::save\<close> also prints a line.\<close>

definition persist_save :: "bool \<Rightarrow> files \<Rightarrow> Journal \<Rightarrow> string \<Rightarrow> string \<times> files" where
  "persist_save opens fs j file_name =
     (''Saving '' @ file_name @ [CHR 0x0A], if opens then fs(file_name \<mapsto> write_lines [] (entries j)) else fs)"

definition SingleResponsibility_original_main :: "bool \<Rightarrow> files \<Rightarrow> files" where
  "SingleResponsibility_original_main opens fs =
     (let j = Journal_add (Journal_add (Journal_new ''Dear Diary'') ''I ate a bug'') ''I cried today'' in PersistenceManager_save opens fs j ''diary.txt'')"

definition SingleResponsibility_main :: "bool \<Rightarrow> files \<Rightarrow> string \<times> files" where
  "SingleResponsibility_main opens fs =
     (let j = journal_add_entry (journal_add_entry (journal_add_entry (Journal_new ''DearDiary'') ''Entry 1'') ''Entry 2'') ''Entry 3'';
          shown = show_journal j;
          (line, fs) = persist_save opens fs j (''/Users/ppadmoh/workspace/C++/patterns/'' @ title j @ ''.txt'') in
      (shown @ line, fs))"

text \<open>Reading the lines of a file back.\<close>

fun read_lines :: "string \<Rightarrow> string \<Rightarrow> string list" where
  "read_lines acc [] = []"
| "read_lines acc (c # cs) = (if c = CHR 0x0A then acc # read_lines [] cs else read_lines (acc @ [c]) cs)"

lemma write_lines_append: "write_lines out ss = out @ concat (map (\<lambda>s. s @ [CHR 0x0A]) ss)"
  by (induction ss arbitrary: out) auto

lemma read_lines_line: "CHR 0x0A \<notin> set s \<Longrightarrow> read_lines acc (s @ CHR 0x0A # cs) = (acc @ s) # read_lines [] cs"
  by (induction s arbitrary: acc) auto

lemma read_write: "\<forall>s \<in> set ss. CHR 0x0A \<notin> set s \<Longrightarrow> read_lines [] (concat (map (\<lambda>s. s @ [CHR 0x0A]) ss)) = ss"
  by (induction ss) (simp_all add: read_lines_line)

text \<open>Entries without a newline come back from a saved journal as they were added; all the ways to save write the same file.\<close>

theorem journal_round_trip:
  assumes "\<forall>e \<in> set es. CHR 0x0A \<notin> set e"
  shows "\<exists>text. PersistenceManager_save True fs (foldl Journal_add (Journal_new t) es) f f = Some text \<and> read_lines [] text = es \<and>
    Journal_save opens fs j f = PersistenceManager_save opens fs j f \<and> journal_save opens fs j f = Journal_save opens fs j f \<and>
    snd (persist_save opens fs j f) = Journal_save opens fs j f"
proof -
  have "entries (foldl Journal_add j es) = entries j @ es" for j es by (induction es arbitrary: j) (auto simp: Journal_add_def)
  then show ?thesis using read_write [OF assms]
    by (simp add: PersistenceManager_save_def Journal_save_def journal_save_def persist_save_def Journal_new_def write_lines_append)
qed

end
