(* ===== verification/Event_Manager.thy ===== *)
theory Event_Manager
  imports Prelude
begin

text \<open>
  The event manager of \<open>pureStorage/interview.cpp\<close>: callbacks registered for an event run when it is triggered, or at once when it already was. Both
  operations do their work on the two maps under one mutex, so that a concurrent run is a sequence of critical sections; a callback that is to run is
  started in a thread of its own after the section. The model gives the callbacks each operation starts.
\<close>

section \<open>The manager\<close>

datatype EventType = DATA_READY | ERROR

record 'c EventManager =
  em_callbacks :: "EventType \<Rightarrow> 'c list option"
  em_fired :: "EventType \<Rightarrow> bool option"

definition EventManager_new :: "'c EventManager" where
  "EventManager_new = \<lparr>em_callbacks = (\<lambda>_. None), em_fired = (\<lambda>_. None)\<rparr>"

text \<open>\<open>operator[]\<close> of the maps inserts a default value for a missing key.\<close>

definition fired_at :: "'c EventManager \<Rightarrow> EventType \<Rightarrow> bool" where
  "fired_at m t = (case em_fired m t of None \<Rightarrow> False | Some b \<Rightarrow> b)"

definition callbacks_at :: "'c EventManager \<Rightarrow> EventType \<Rightarrow> 'c list" where
  "callbacks_at m t = (case em_callbacks m t of None \<Rightarrow> [] | Some cs \<Rightarrow> cs)"

definition registerCallback :: "'c EventManager \<Rightarrow> EventType \<Rightarrow> 'c \<Rightarrow> 'c list \<times> 'c EventManager" where
  "registerCallback m type cb =
     (let alreadyFired = fired_at m type; m = m\<lparr>em_fired := (em_fired m)(type \<mapsto> alreadyFired)\<rparr> in
      if alreadyFired then ([cb], m)
      else ([], m\<lparr>em_callbacks := (em_callbacks m)(type \<mapsto> callbacks_at m type @ [cb])\<rparr>))"

definition triggerEvent :: "'c EventManager \<Rightarrow> EventType \<Rightarrow> 'c list \<times> 'c EventManager" where
  "triggerEvent m type =
     (let m = m\<lparr>em_fired := (em_fired m)(type \<mapsto> True)\<rparr>;
          local = (case em_callbacks m type of None \<Rightarrow> [] | Some cs \<Rightarrow> cs) in (local, m))"

datatype 'c em_op = Register EventType 'c | Trigger EventType

fun em_op_run :: "'c EventManager \<Rightarrow> 'c em_op \<Rightarrow> 'c list \<times> 'c EventManager" where
  "em_op_run m (Register t c) = registerCallback m t c"
| "em_op_run m (Trigger t) = triggerEvent m t"

fun em_run :: "'c EventManager \<Rightarrow> 'c em_op list \<Rightarrow> 'c list \<times> 'c EventManager" where
  "em_run m [] = ([], m)"
| "em_run m (x # xs) = (let (out, m) = em_op_run m x; (outs, m) = em_run m xs in (out @ outs, m))"

definition interview_main :: "string list" where
  "interview_main = fst (em_run EventManager_new
     [Trigger DATA_READY, Register DATA_READY ''Callback fired immediately because event already happened''])"

section \<open>How often a callback runs\<close>

lemma maps_new [simp]: "callbacks_at EventManager_new t = []" "\<not> fired_at EventManager_new t"
  by (simp_all add: EventManager_new_def callbacks_at_def fired_at_def)

lemma maps_register [simp]:
  "fired_at (snd (registerCallback m t c)) t' = fired_at m t'"
  "callbacks_at (snd (registerCallback m t c)) t' = callbacks_at m t' @ (if t' = t \<and> \<not> fired_at m t then [c] else [])"
  "fst (registerCallback m t c) = (if fired_at m t then [c] else [])"
  by (auto simp: registerCallback_def fired_at_def callbacks_at_def Let_def split: option.splits)

lemma maps_trigger [simp]:
  "fired_at (snd (triggerEvent m t)) t' \<longleftrightarrow> t' = t \<or> fired_at m t'"
  "callbacks_at (snd (triggerEvent m t)) t' = callbacks_at m t'"
  "fst (triggerEvent m t) = callbacks_at m t"
  by (auto simp: triggerEvent_def fired_at_def callbacks_at_def Let_def split: option.splits)

lemma em_run_Cons [simp]: "fst (em_run m (x # xs)) = fst (em_op_run m x) @ fst (em_run (snd (em_op_run m x)) xs)"
  "snd (em_run m (x # xs)) = snd (em_run (snd (em_op_run m x)) xs)"
  by (simp_all add: Let_def split: prod.splits)

declare em_run.simps(2) [simp del]

lemma em_run_append:
  "fst (em_run m (xs @ ys)) = fst (em_run m xs) @ fst (em_run (snd (em_run m xs)) ys)" "snd (em_run m (xs @ ys)) = snd (em_run (snd (em_run m xs)) ys)"
  by (induction xs arbitrary: m) auto

lemma fired_after: "fired_at (snd (em_run m xs)) t \<longleftrightarrow> fired_at m t \<or> Trigger t \<in> set xs"
proof (induction xs arbitrary: m)
  case (Cons x xs)
  then show ?case by (cases x) auto
qed simp

definition registers :: "'c em_op list \<Rightarrow> 'c \<Rightarrow> bool" where
  "registers xs c \<longleftrightarrow> (\<exists>t. Register t c \<in> set xs)"

text \<open>The runs of a callback that the operations do not register: one for every trigger of an event it waits for.\<close>

definition runs_of :: "'c \<Rightarrow> 'c EventManager \<Rightarrow> 'c em_op \<Rightarrow> nat" where
  "runs_of c m x = (case x of Trigger t \<Rightarrow> count_list (callbacks_at m t) c | Register t c' \<Rightarrow> 0)"

lemma em_run_counts:
  assumes "\<not> registers xs c"
  shows "count_list (fst (em_run m xs)) c = sum_list (map (runs_of c m) xs) \<and> (\<forall>t. count_list (callbacks_at (snd (em_run m xs)) t) c = count_list (callbacks_at m t) c)"
  using assms
proof (induction xs arbitrary: m)
  case (Cons x xs)
  let ?m = "snd (em_op_run m x)"
  have same: "count_list (callbacks_at ?m t) c = count_list (callbacks_at m t) c" for t using Cons.prems by (cases x) (auto simp: registers_def)
  then have "runs_of c ?m = runs_of c m" by (auto simp: runs_of_def fun_eq_iff split: em_op.splits)
  moreover have "count_list (fst (em_op_run m x)) c = runs_of c m x" using Cons.prems by (cases x) (auto simp: registers_def runs_of_def)
  moreover have "\<not> registers xs c" using Cons.prems by (auto simp: registers_def)
  ultimately show ?case using Cons.IH [of ?m] same by simp
qed simp

text \<open>
  A callback that is registered once runs once when its event was triggered before, and otherwise once for every later trigger of its event,
  whatever else is registered and triggered before, between and after. In particular it runs exactly once when the event is triggered
  exactly once, before or after the registration.
\<close>

theorem callback_runs:
  assumes "\<not> registers xs c" "\<not> registers ys c"
  shows "count_list (fst (em_run EventManager_new (xs @ Register t c # ys))) c = (if Trigger t \<in> set xs then 1 else count_list ys (Trigger t)) \<and>
    (count_list (xs @ ys) (Trigger t) = 1 \<longrightarrow> count_list (fst (em_run EventManager_new (xs @ Register t c # ys))) c = 1)"
proof -
  let ?m0 = "EventManager_new" and ?m1 = "snd (em_run EventManager_new xs)"
  have before: "count_list (fst (em_run ?m0 xs)) c = 0" "\<And>u. count_list (callbacks_at ?m1 u) c = 0"
  proof -
    have "runs_of c ?m0 = (\<lambda>_. 0)" by (auto simp: runs_of_def fun_eq_iff split: em_op.splits)
    then show "count_list (fst (em_run ?m0 xs)) c = 0" "\<And>u. count_list (callbacks_at ?m1 u) c = 0" using em_run_counts [OF assms(1), of ?m0] by simp_all
  qed
  have fired: "fired_at ?m1 t \<longleftrightarrow> Trigger t \<in> set xs" using fired_after [of ?m0 xs t] by simp
  let ?m2 = "snd (registerCallback ?m1 t c)"
  have "count_list (fst (em_run ?m2 ys)) c = (if Trigger t \<in> set xs then 0 else count_list ys (Trigger t))"
  proof -
    have "runs_of c ?m2 = (\<lambda>x. if x = Trigger t \<and> Trigger t \<notin> set xs then 1 else 0)"
      using before(2) fired by (auto simp: runs_of_def fun_eq_iff split: em_op.splits)
    moreover have "sum_list (map (\<lambda>x. if x = y \<and> P then 1 else 0) zs) = (if P then count_list zs y else 0)" for y P and zs :: "'a em_op list" by (induction zs) auto
    ultimately show ?thesis using em_run_counts [OF assms(2), of ?m2] by simp
  qed
  then have runs: "count_list (fst (em_run ?m0 (xs @ Register t c # ys))) c = (if Trigger t \<in> set xs then 1 else count_list ys (Trigger t))"
    using before(1) fired by (simp add: em_run_append)
  then show ?thesis by (auto simp: count_list_0_iff)
qed

theorem callback_runs_witness: "count_list (fst (em_run EventManager_new ([Trigger DATA_READY] @ Register DATA_READY ''cb'' # []))) ''cb'' = 1"
  using callback_runs [of "[Trigger DATA_READY]" "''cb''" "[]" DATA_READY] by (simp add: registers_def)

text \<open>A second trigger runs the callbacks again: they are not taken out of the map.\<close>

lemma triggered_twice: "fst (em_run EventManager_new [Register t c, Trigger t, Trigger t]) = [c, c]"
  by simp

lemma interview_main_output: "interview_main = [''Callback fired immediately because event already happened'']"
  by (simp add: interview_main_def)

end
