(* ===== verification/Singletons.thy ===== *)
theory Singletons
  imports Prelude
begin

text \<open>
  The three singletons of \<open>singleton\<close>: with a mutex and explicit destruction (\<open>singleton_manual_thread_safe.cpp\<close>), without protection
  (\<open>singleton_no_thread_safe.cpp\<close>) and with a static local variable (\<open>singleton_modern_thread_safe.cpp\<close>), each used by any number of threads (the programs start
  ten). The state has the static pointer, the instances that are alive and the place of every thread; a critical section is one step, an
  unprotected read or write is one of its own.
\<close>

section \<open>State\<close>

datatype sg_place = Begin | SawNull | Unlocked | Holds ptr | Ended

record sg_sys =
  sg_ptr :: ptr
  sg_alive :: "addr set"
  sg_next :: addr
  sg_threads :: "sg_place list"

definition sg_start :: "nat \<Rightarrow> sg_sys" where
  "sg_start n = \<lparr>sg_ptr = None, sg_alive = {}, sg_next = 0, sg_threads = replicate n Begin\<rparr>"

definition sg_goto :: "nat \<Rightarrow> sg_place \<Rightarrow> sg_sys \<Rightarrow> sg_sys" where
  "sg_goto i p s = s\<lparr>sg_threads := (sg_threads s)[i := p]\<rparr>"

text \<open>\<open>ptr = new Singleton()\<close>\<close>

definition sg_new :: "sg_sys \<Rightarrow> sg_sys" where
  "sg_new s = s\<lparr>sg_ptr := Some (sg_next s), sg_alive := insert (sg_next s) (sg_alive s), sg_next := Suc (sg_next s)\<rparr>"

section \<open>The version with a mutex\<close>

text \<open>The critical sections; deleting an instance that is not alive is an error.\<close>

definition CreateInstance :: "sg_sys \<Rightarrow> sg_sys" where
  "CreateInstance s = (if sg_ptr s = None then sg_new s else s)"

definition DestroyInstance :: "sg_sys \<Rightarrow> sg_sys res" where
  "DestroyInstance s = (case sg_ptr s of None \<Rightarrow> Inr s
     | Some a \<Rightarrow> (if a \<in> sg_alive s then Inr (s\<lparr>sg_alive := sg_alive s - {a}, sg_ptr := None\<rparr>) else Inl DanglingPtr))"

text \<open>\<open>work\<close>: \<open>return ptr\<close> reads the pointer after the mutex was released.\<close>

inductive manual_step :: "sg_sys \<Rightarrow> sg_sys res \<Rightarrow> bool" where
  create: "i < length (sg_threads s) \<Longrightarrow> sg_threads s ! i = Begin \<Longrightarrow> manual_step s (Inr (sg_goto i Unlocked (CreateInstance s)))"
| return: "i < length (sg_threads s) \<Longrightarrow> sg_threads s ! i = Unlocked \<Longrightarrow> manual_step s (Inr (sg_goto i (Holds (sg_ptr s)) s))"
| destroy: "i < length (sg_threads s) \<Longrightarrow> sg_threads s ! i = Holds p \<Longrightarrow> manual_step s (rbind (DestroyInstance s) (\<lambda>s. Inr (sg_goto i Ended s)))"

inductive manual_reachable :: "nat \<Rightarrow> sg_sys res \<Rightarrow> bool" for n where
  init: "manual_reachable n (Inr (sg_start n))"
| step: "manual_reachable n (Inr s) \<Longrightarrow> manual_step s r \<Longrightarrow> manual_reachable n r"

section \<open>The version without protection\<close>

text \<open>\<open>DestroyInstance\<close> of this version, which the program does not call, as one thread alone executes it.\<close>

definition unlocked_DestroyInstance :: "sg_sys \<Rightarrow> sg_sys res" where
  "unlocked_DestroyInstance s =
     rbind (case sg_ptr s of None \<Rightarrow> Inr s
            | Some a \<Rightarrow> (if a \<in> sg_alive s then Inr (s\<lparr>sg_alive := sg_alive s - {a}\<rparr>) else Inl DanglingPtr)) (\<lambda>s. Inr (s\<lparr>sg_ptr := None\<rparr>))"

inductive racy_step :: "sg_sys \<Rightarrow> sg_sys \<Rightarrow> bool" where
  saw_null: "i < length (sg_threads s) \<Longrightarrow> sg_threads s ! i = Begin \<Longrightarrow> sg_ptr s = None \<Longrightarrow> racy_step s (sg_goto i SawNull s)"
| saw_instance: "i < length (sg_threads s) \<Longrightarrow> sg_threads s ! i = Begin \<Longrightarrow> sg_ptr s \<noteq> None \<Longrightarrow> racy_step s (sg_goto i Unlocked s)"
| construct: "i < length (sg_threads s) \<Longrightarrow> sg_threads s ! i = SawNull \<Longrightarrow> racy_step s (sg_goto i Unlocked (sg_new s))"
| return: "i < length (sg_threads s) \<Longrightarrow> sg_threads s ! i = Unlocked \<Longrightarrow> racy_step s (sg_goto i (Holds (sg_ptr s)) s)"

inductive racy_reachable :: "nat \<Rightarrow> sg_sys \<Rightarrow> bool" for n where
  init: "racy_reachable n (sg_start n)"
| step: "racy_reachable n s \<Longrightarrow> racy_step s s' \<Longrightarrow> racy_reachable n s'"

section \<open>The version with a static local variable\<close>

text \<open>The language initialises the variable once, in the first call; it is destroyed when the program ends.\<close>

definition GetInstance :: "sg_sys \<Rightarrow> ptr \<times> sg_sys" where
  "GetInstance s = (let s = (if sg_ptr s = None then sg_new s else s) in (sg_ptr s, s))"

inductive modern_step :: "sg_sys \<Rightarrow> sg_sys \<Rightarrow> bool" where
  get: "i < length (sg_threads s) \<Longrightarrow> sg_threads s ! i = Begin \<Longrightarrow> GetInstance s = (p, s') \<Longrightarrow> modern_step s (sg_goto i (Holds p) s')"

inductive modern_reachable :: "nat \<Rightarrow> sg_sys \<Rightarrow> bool" for n where
  init: "modern_reachable n (sg_start n)"
| step: "modern_reachable n s \<Longrightarrow> modern_step s s' \<Longrightarrow> modern_reachable n s'"

section \<open>One instance at a time\<close>

definition sg_inv :: "sg_sys \<Rightarrow> bool" where
  "sg_inv s \<longleftrightarrow> sg_alive s = set_option (sg_ptr s) \<and> (\<forall>a \<in> sg_alive s. a < sg_next s)"

lemma sg_fields [simp]:
  "sg_ptr (sg_goto i p s) = sg_ptr s" "sg_alive (sg_goto i p s) = sg_alive s" "sg_next (sg_goto i p s) = sg_next s"
  "sg_threads (sg_goto i p s) = (sg_threads s)[i := p]" "sg_threads (sg_new s) = sg_threads s" "sg_ptr (sg_new s) = Some (sg_next s)"
  "sg_alive (sg_new s) = insert (sg_next s) (sg_alive s)" "sg_next (sg_new s) = Suc (sg_next s)"
  by (simp_all add: sg_goto_def sg_new_def)

lemma manual_step_inv: "manual_step s r \<Longrightarrow> sg_inv s \<Longrightarrow> \<exists>s'. r = Inr s' \<and> sg_inv s'"
  by (induction rule: manual_step.induct) (auto simp: sg_inv_def CreateInstance_def DestroyInstance_def split: option.splits)

lemma manual_reachable_inv: "manual_reachable n r \<Longrightarrow> \<exists>s. r = Inr s \<and> sg_inv s"
proof (induction rule: manual_reachable.induct)
  case init
  then show ?case by (simp add: sg_inv_def sg_start_def)
next
  case (step s r)
  then show ?case using manual_step_inv by auto
qed

lemma modern_reachable_inv:
  assumes "modern_reachable n s"
  shows "sg_inv s \<and> sg_next s \<le> 1 \<and> (sg_next s = 0 \<longleftrightarrow> sg_ptr s = None) \<and> (\<forall>p \<in> set (sg_threads s). p = Begin \<or> p = Holds (sg_ptr s) \<and> sg_ptr s \<noteq> None)"
  using assms
proof (induction rule: modern_reachable.induct)
  case init
  then show ?case by (simp add: sg_inv_def sg_start_def)
next
  case (step s s')
  from step.hyps(2) show ?case
  proof cases
    case (get i p t)
    then show ?thesis using step.IH
      by (cases "sg_ptr s") (auto simp: GetInstance_def Let_def sg_inv_def dest!: set_update_subset_insert [THEN subsetD])
  qed
qed

text \<open>
  The protected singletons keep one instance. In every state of the version with a mutex the pointer is null and no instance is alive, or the
  instance it points to is the only one alive; no instance is deleted twice. The version with a static variable constructs one
  instance in all and every thread gets a reference to it.
\<close>

theorem singletons_keep_one_instance:
  "(\<forall>r. manual_reachable n r \<longrightarrow> (\<exists>s. r = Inr s \<and> sg_alive s = set_option (sg_ptr s))) \<and>
   (\<forall>s. modern_reachable n s \<longrightarrow> sg_alive s = set_option (sg_ptr s) \<and> sg_next s \<le> 1 \<and>
      (\<forall>p \<in> set (sg_threads s). p = Begin \<or> p = Holds (sg_ptr s) \<and> sg_ptr s \<noteq> None))"
  using manual_reachable_inv modern_reachable_inv unfolding sg_inv_def by metis

theorem singletons_keep_one_instance_witness:
  "\<exists>s. manual_reachable 2 (Inr s) \<and> sg_alive s = {0} \<and> sg_threads s = [Unlocked, Begin]"
proof -
  let ?s = "sg_goto 0 Unlocked (CreateInstance (sg_start 2))"
  have "manual_step (sg_start 2) (Inr ?s)" by (rule manual_step.create) (simp_all add: sg_start_def)
  then have r: "manual_reachable 2 (Inr ?s)" using manual_reachable.init manual_reachable.step by blast
  then have "sg_alive ?s = set_option (sg_ptr ?s)" using singletons_keep_one_instance [of 2] by blast
  then show ?thesis using r by (intro exI [of _ ?s]) (simp add: CreateInstance_def sg_start_def numeral_eq_Suc)
qed

lemma unlocked_DestroyInstance_eq: "sg_inv s \<Longrightarrow> unlocked_DestroyInstance s = DestroyInstance s"
  by (auto simp: unlocked_DestroyInstance_def DestroyInstance_def sg_inv_def split: option.splits)

section \<open>What goes wrong\<close>

text \<open>Without protection two threads both see the null pointer and both construct: two instances, one of them out of reach.\<close>

lemma racy_singleton_two_instances:
  "\<exists>s. racy_reachable 2 s \<and> sg_alive s = {0, 1} \<and> sg_ptr s = Some 1 \<and> sg_threads s = [Unlocked, Unlocked]"
proof -
  let ?s0 = "sg_start 2"
  let ?s1 = "sg_goto 0 SawNull ?s0"
  let ?s2 = "sg_goto 1 SawNull ?s1"
  let ?s3 = "sg_goto 0 Unlocked (sg_new ?s2)"
  let ?s4 = "sg_goto 1 Unlocked (sg_new ?s3)"
  have "racy_step ?s0 ?s1" by (rule racy_step.saw_null) (simp_all add: sg_start_def)
  then have 1: "racy_reachable 2 ?s1" using racy_reachable.init racy_reachable.step by blast
  have "racy_step ?s1 ?s2" by (rule racy_step.saw_null) (simp_all add: sg_start_def)
  then have 2: "racy_reachable 2 ?s2" using 1 racy_reachable.step by blast
  have "racy_step ?s2 ?s3" by (rule racy_step.construct) (simp_all add: sg_start_def)
  then have 3: "racy_reachable 2 ?s3" using 2 racy_reachable.step by blast
  have "racy_step ?s3 ?s4" by (rule racy_step.construct) (simp_all add: sg_start_def)
  then have "racy_reachable 2 ?s4" using 3 racy_reachable.step by blast
  then show ?thesis by (intro exI [of _ ?s4]) (auto simp: sg_start_def numeral_eq_Suc)
qed

text \<open>With the mutex a thread may still get a null pointer, because \<open>return ptr\<close> reads it after another thread has destroyed the instance, or keep a pointer to an
  instance that another thread deletes.\<close>

lemma manual_singleton_hands_out_bad_pointers:
  "\<exists>s. manual_reachable 2 (Inr s) \<and> sg_threads s = [Ended, Holds None]" "\<exists>s. manual_reachable 2 (Inr s) \<and> sg_threads s = [Ended, Holds (Some 0)] \<and> 0 \<notin> sg_alive s"
proof -
  let ?s1 = "sg_goto 0 Unlocked (CreateInstance (sg_start 2))"
  let ?s2 = "sg_goto 1 Unlocked (CreateInstance ?s1)"
  let ?s3 = "sg_goto 0 (Holds (Some 0)) ?s2"
  note simps = sg_start_def CreateInstance_def numeral_eq_Suc
  have "manual_step (sg_start 2) (Inr ?s1)" by (rule manual_step.create) (simp_all add: simps)
  then have 1: "manual_reachable 2 (Inr ?s1)" using manual_reachable.init manual_reachable.step by blast
  have "manual_step ?s1 (Inr ?s2)" by (rule manual_step.create) (simp_all add: simps)
  then have 2: "manual_reachable 2 (Inr ?s2)" using 1 manual_reachable.step by blast
  have "manual_step ?s2 (Inr ?s3)" using manual_step.return [of 0 ?s2] by (simp add: simps)
  then have 3: "manual_reachable 2 (Inr ?s3)" using 2 manual_reachable.step by blast
  let ?destroy = "\<lambda>s. s\<lparr>sg_alive := {}, sg_ptr := None, sg_threads := (sg_threads s)[0 := Ended]\<rparr>"
  have d: "manual_step s (Inr (?destroy s))" if "sg_threads s = [Holds p, q]" "sg_ptr s = Some a" "sg_alive s = {a}" for s p q a
    using manual_step.destroy [of 0 s p] that by (simp add: DestroyInstance_def sg_goto_def)
  have "manual_step ?s3 (Inr (?destroy ?s3))" by (rule d) (simp_all add: simps)
  then have 4: "manual_reachable 2 (Inr (?destroy ?s3))" using 3 manual_reachable.step by blast
  have "manual_step (?destroy ?s3) (Inr (sg_goto 1 (Holds None) (?destroy ?s3)))" using manual_step.return [of 1 "?destroy ?s3"] by (simp add: simps)
  then have "manual_reachable 2 (Inr (sg_goto 1 (Holds None) (?destroy ?s3)))" using 4 manual_reachable.step by blast
  then show "\<exists>s. manual_reachable 2 (Inr s) \<and> sg_threads s = [Ended, Holds None]"
    by (intro exI [of _ "sg_goto 1 (Holds None) (?destroy ?s3)"]) (simp add: simps)
  let ?s5 = "sg_goto 1 (Holds (Some 0)) ?s3"
  have "manual_step ?s3 (Inr ?s5)" using manual_step.return [of 1 ?s3] by (simp add: simps)
  then have 5: "manual_reachable 2 (Inr ?s5)" using 3 manual_reachable.step by blast
  have "manual_step ?s5 (Inr (?destroy ?s5))" by (rule d) (simp_all add: simps)
  then have "manual_reachable 2 (Inr (?destroy ?s5))" using 5 manual_reachable.step by blast
  then show "\<exists>s. manual_reachable 2 (Inr s) \<and> sg_threads s = [Ended, Holds (Some 0)] \<and> 0 \<notin> sg_alive s"
    by (intro exI [of _ "?destroy ?s5"]) (simp add: simps)
qed

section \<open>The programs\<close>

text \<open>\<open>main\<close> of each program starts ten threads and joins them.\<close>

definition racy_main :: sg_sys where "racy_main = sg_start 10"
definition modern_main :: sg_sys where "modern_main = sg_start 10"

lemma modern_step_work:
  "modern_step s s' \<Longrightarrow> length (sg_threads s') = length (sg_threads s) \<and> length (filter ((=) Begin) (sg_threads s')) < length (filter ((=) Begin) (sg_threads s))"
proof (induction rule: modern_step.induct)
  case (get i s p s')
  have "sg_threads s' = sg_threads s" using get(3) by (auto simp: GetInstance_def Let_def split: if_splits)
  moreover have "length (filter ((=) Begin) (xs[i := Holds p])) < length (filter ((=) Begin) xs)" if "i < length xs" "xs ! i = Begin" for xs
    using that
  proof (induction xs arbitrary: i)
    case (Cons a xs)
    then show ?case by (cases i) auto
  qed simp
  ultimately show ?case using get(1,2) by simp
qed

text \<open>With the static variable the threads all end, one instance has been constructed, and every thread got it.\<close>

lemma modern_main_ends:
  assumes "modern_reachable 10 s" "\<nexists>s'. modern_step s s'"
  shows "sg_next s = 1 \<and> sg_threads s = replicate 10 (Holds (sg_ptr s)) \<and> sg_ptr s \<noteq> None"
proof -
  note inv = modern_reachable_inv [OF assms(1)]
  have len: "length (sg_threads s) = 10"
    using assms(1) by (induction rule: modern_reachable.induct) (auto simp: sg_start_def dest: modern_step_work)
  have "sg_threads s ! i \<noteq> Begin" if "i < 10" for i
    using modern_step.get [of i s "fst (GetInstance s)" "snd (GetInstance s)"] that len assms(2) by auto
  then have "\<forall>p \<in> set (sg_threads s). p = Holds (sg_ptr s) \<and> sg_ptr s \<noteq> None" using inv len by (metis in_set_conv_nth)
  moreover have "sg_threads s ! 0 \<in> set (sg_threads s)" using len by simp
  ultimately show ?thesis using inv len by (auto simp: replicate_length_same [symmetric] intro!: replicate_eqI)
qed

end
