(* ===== verification/Netlink.thy ===== *)
theory Netlink
  imports Prelude
begin

text \<open>
  The netlink listener of \<open>pollMechanisms/epoll/hostapd.c\<close>: \<open>handle_netlink\<close> receives datagrams into one buffer of 4096 bytes and walks over the messages in
  each with the macros \<open>NLMSG_OK\<close> and \<open>NLMSG_NEXT\<close> of the kernel's headers. The datagrams are a parameter. Header fields are little-endian, as on the machines the
  program is written for.
\<close>

section \<open>Headers\<close>

type_synonym octet = "8 word"

definition NL_BUF :: nat where "NL_BUF = 4096"

definition HDRLEN :: nat where "HDRLEN = 16"

definition le16 :: "octet list \<Rightarrow> nat \<Rightarrow> nat res" where
  "le16 buf off = rbind (arr_get buf off) (\<lambda>b0. rbind (arr_get buf (off + 1)) (\<lambda>b1. Inr (unat b0 + 256 * unat b1)))"

definition le32 :: "octet list \<Rightarrow> nat \<Rightarrow> nat res" where
  "le32 buf off = rbind (le16 buf off) (\<lambda>lo. rbind (le16 buf (off + 2)) (\<lambda>hi. Inr (lo + 65536 * hi)))"

text \<open>\<open>NLMSG_ALIGN\<close> on 32 unsigned bits.\<close>

definition NLMSG_ALIGN :: "nat \<Rightarrow> nat" where
  "NLMSG_ALIGN n = (n + 3) mod 2 ^ 32 div 4 * 4"

text \<open>The call passes \<open>(size_t)len\<close>, so that a negative length is a huge one.\<close>

definition NLMSG_OK :: "octet list \<Rightarrow> nat \<Rightarrow> int \<Rightarrow> bool res" where
  "NLMSG_OK buf off len = (let u = nat (len mod 2 ^ 64) in
     if u < HDRLEN then Inr False else rbind (le32 buf off) (\<lambda>l. Inr (HDRLEN \<le> l \<and> l \<le> u)))"

datatype nl_line = NEWLINK | DELLINK | NEWADDR | DELADDR | OtherType nat nat | ErrorMessage | RecvFailed

definition nl_print :: "nat \<Rightarrow> nat \<Rightarrow> nl_line" where
  "nl_print type len =
     (if type = 2 then ErrorMessage else if type = 16 then NEWLINK else if type = 17 then DELLINK else if type = 20 then NEWADDR
      else if type = 21 then DELADDR else OtherType type len)"

section \<open>The walk over the messages\<close>

partial_function (option) nl_loop :: "octet list \<Rightarrow> nat \<Rightarrow> int \<Rightarrow> nl_line list \<Rightarrow> nl_line list res option" where
  "nl_loop buf off len out =
     obind (Some (NLMSG_OK buf off len)) (\<lambda>ok.
     if \<not> ok then Some (Inr out)
     else obind (Some (le32 buf off)) (\<lambda>l. obind (Some (le16 buf (off + 4))) (\<lambda>type.
       if type = 3 then Some (Inr out)
       else nl_loop buf (off + NLMSG_ALIGN l) (len - int (NLMSG_ALIGN l)) (out @ [nl_print type l]))))"

declare nl_loop.simps [code]

text \<open>A datagram overwrites the front of the buffer; \<open>recv\<close> cuts it to the size of the buffer.\<close>

definition nl_recv :: "octet list \<Rightarrow> octet list \<Rightarrow> octet list \<times> int" where
  "nl_recv buf dgram = (let d = take NL_BUF dgram in (d @ drop (length d) buf, int (length d)))"

text \<open>What \<open>recv\<close> answers: datagrams, or \<open>None\<close> for an error that is reported; when there is no answer left it fails with \<open>EAGAIN\<close>.\<close>

fun handle_netlink :: "octet list \<Rightarrow> octet list option list \<Rightarrow> nl_line list \<Rightarrow> nl_line list res option" where
  "handle_netlink buf [] out = Some (Inr out)"
| "handle_netlink buf (None # ds) out = Some (Inr (out @ [RecvFailed]))"
| "handle_netlink buf (Some dgram # ds) out =
     (if dgram = [] then Some (Inr out)
      else let (buf, len) = nl_recv buf dgram in obind (nl_loop buf 0 len out) (\<lambda>out. handle_netlink buf ds out))"

section \<open>Batches of messages\<close>

definition nl_le_bytes :: "nat \<Rightarrow> nat \<Rightarrow> octet list" where
  "nl_le_bytes n v = map (\<lambda>i. word_of_nat (v div 256 ^ i)) [0..<n]"

text \<open>A message: its type, the other fields of its header and its payload; on the wire it is padded to a multiple of four bytes.\<close>

record nl_msg =
  nl_type :: nat
  nl_fields :: "octet list"
  nl_payload :: "octet list"

definition nl_len :: "nl_msg \<Rightarrow> nat" where
  "nl_len m = HDRLEN + length (nl_payload m)"

definition nl_encode :: "nl_msg \<Rightarrow> octet list" where
  "nl_encode m = nl_le_bytes 4 (nl_len m) @ nl_le_bytes 2 (nl_type m) @ nl_fields m @ nl_payload m @ replicate (NLMSG_ALIGN (nl_len m) - nl_len m) 0"

definition nl_msg_ok :: "nl_msg \<Rightarrow> bool" where
  "nl_msg_ok m \<longleftrightarrow> nl_type m < 65536 \<and> length (nl_fields m) = 10 \<and> nl_len m \<le> NL_BUF"

text \<open>
  What is to be printed: a line for each message in front of the first \<open>NLMSG_DONE\<close>, which ends the datagram. The numbers of the types are those of
  \<open>linux/netlink.h\<close> and \<open>linux/rtnetlink.h\<close>; a message of another type is printed with its type and its length.
\<close>

abbreviation NLMSG_DONE :: nat where "NLMSG_DONE \<equiv> 3"

definition nl_known :: "(nat \<times> nl_line) list" where
  "nl_known = [(2, ErrorMessage), (16, NEWLINK), (17, DELLINK), (20, NEWADDR), (21, DELADDR)]"

definition nl_line_of :: "nl_msg \<Rightarrow> nl_line" where
  "nl_line_of m = (case map_of nl_known (nl_type m) of Some l \<Rightarrow> l | None \<Rightarrow> OtherType (nl_type m) (nl_len m))"

definition nl_prints :: "nl_msg list \<Rightarrow> nl_line list" where
  "nl_prints ms = map nl_line_of (takeWhile (\<lambda>m. nl_type m \<noteq> NLMSG_DONE) ms)"

lemma nl_print_line: "nl_print (nl_type m) (nl_len m) = nl_line_of m"
  by (simp add: nl_print_def nl_line_of_def nl_known_def)

lemma nl_le_bytes_numeral: "nl_le_bytes 2 v = [word_of_nat v, word_of_nat (v div 256)]"
  "nl_le_bytes 4 v = [word_of_nat v, word_of_nat (v div 256), word_of_nat (v div 65536), word_of_nat (v div 16777216)]"
  by (simp_all add: nl_le_bytes_def upt_rec)

lemma unat_octet: "unat (word_of_nat n :: octet) = n mod 256"
  by (simp add: unat_of_nat)

lemma le16_at:
  assumes "off + 2 \<le> length buf" "buf ! off = word_of_nat v" "buf ! (off + 1) = word_of_nat (v div 256)" "v < 65536"
  shows "le16 buf off = Inr v"
proof -
  have "v mod 256 + 256 * (v div 256 mod 256) = v" using assms(4) by (simp add: mod_less) 
  then show ?thesis using assms by (simp add: le16_def unat_octet)
qed

lemma align_props: "n \<le> 4096 \<Longrightarrow> n \<le> NLMSG_ALIGN n \<and> NLMSG_ALIGN n \<le> n + 3"
  by (simp add: NLMSG_ALIGN_def)

lemma length_encode: "nl_msg_ok m \<Longrightarrow> length (nl_encode m) = NLMSG_ALIGN (nl_len m)"
proof -
  assume "nl_msg_ok m"
  then have "length (nl_fields m) = 10" "nl_len m \<le> NLMSG_ALIGN (nl_len m)" using align_props [of "nl_len m"] by (simp_all add: nl_msg_ok_def NL_BUF_def)
  moreover have "length (nl_encode m) = 6 + length (nl_fields m) + length (nl_payload m) + (NLMSG_ALIGN (nl_len m) - nl_len m)"
    by (simp add: nl_encode_def nl_le_bytes_numeral)
  ultimately show ?thesis unfolding nl_len_def HDRLEN_def by linarith
qed

text \<open>Reading the header of a message that starts at \<open>off\<close>.\<close>

lemma header_at:
  assumes "nl_msg_ok m" "drop off buf = nl_encode m @ rest"
  shows "le32 buf off = Inr (nl_len m)" "le16 buf (off + 4) = Inr (nl_type m)"
proof -
  let ?hd = "nl_le_bytes 4 (nl_len m) @ nl_le_bytes 2 (nl_type m)"
  have d: "drop off buf = ?hd @ nl_fields m @ nl_payload m @ replicate (NLMSG_ALIGN (nl_len m) - nl_len m) 0 @ rest"
    using assms(2) by (simp add: nl_encode_def)
  have "length (drop off buf) \<ge> 6" unfolding d by (simp add: nl_le_bytes_numeral)
  then have len: "off + 6 \<le> length buf" by simp
  have nth: "buf ! (off + i) = ?hd ! i" if "i < 6" for i
  proof -
    have "buf ! (off + i) = drop off buf ! i" using len by simp
    also have "\<dots> = ?hd ! i" unfolding d using that by (subst nth_append) (simp add: nl_le_bytes_numeral)
    finally show ?thesis .
  qed
  have at: "buf ! off = word_of_nat (nl_len m)" "buf ! (off + 1) = word_of_nat (nl_len m div 256)" "buf ! (off + 2) = word_of_nat (nl_len m div 65536)"
    "buf ! (off + 3) = word_of_nat (nl_len m div 16777216)" "buf ! (off + 4) = word_of_nat (nl_type m)" "buf ! (off + 5) = word_of_nat (nl_type m div 256)"
    using nth [of 0] nth [of 1] nth [of 2] nth [of 3] nth [of 4] nth [of 5] by (simp_all add: nl_le_bytes_numeral)
  have small: "nl_len m \<le> 4096" "nl_type m < 65536" using assms(1) by (simp_all add: nl_msg_ok_def NL_BUF_def)
  have "le16 buf off = Inr (nl_len m)" using at len small by (intro le16_at) simp_all
  moreover have "le16 buf (off + 2) = Inr 0"
  proof (rule le16_at)
    have "off + 2 + 1 = off + 3" by simp
    then show "buf ! (off + 2 + 1) = word_of_nat (0 div 256)" using at(4) small(1) by (simp only:) simp
  qed (use at(3) len small(1) in simp_all)
  ultimately show "le32 buf off = Inr (nl_len m)" by (simp add: le32_def)
  show "le16 buf (off + 4) = Inr (nl_type m)"
  proof (rule le16_at)
    have "off + 4 + 1 = off + 5" by simp
    then show "buf ! (off + 4 + 1) = word_of_nat (nl_type m div 256)" using at(6) by (simp only:)
  qed (use at(5) len small(2) in simp_all)
qed

lemma nl_loop_batch:
  assumes "\<forall>m \<in> set ms. nl_msg_ok m" "drop off buf = concat (map nl_encode ms) @ rest" "length (concat (map nl_encode ms)) \<le> NL_BUF"
  shows "nl_loop buf off (int (length (concat (map nl_encode ms)))) out = Some (Inr (out @ nl_prints ms))"
  using assms
proof (induction ms arbitrary: off out)
  case Nil
  then show ?case by (subst nl_loop.simps) (simp add: NLMSG_OK_def HDRLEN_def nl_prints_def)
next
  case (Cons m ms)
  let ?len = "length (concat (map nl_encode ms))"
  have m: "nl_msg_ok m" "drop off buf = nl_encode m @ (concat (map nl_encode ms) @ rest)" using Cons.prems by simp_all
  note hdr = header_at [OF m]
  have al: "nl_len m \<le> NLMSG_ALIGN (nl_len m)" "length (nl_encode m) = NLMSG_ALIGN (nl_len m)" "HDRLEN \<le> nl_len m"
    using align_props [of "nl_len m"] length_encode [OF m(1)] m(1) by (simp_all add: nl_msg_ok_def NL_BUF_def nl_len_def)
  have tot: "NLMSG_ALIGN (nl_len m) + ?len \<le> 4096" using Cons.prems(3) al(2) by (simp add: NL_BUF_def)
  have "nat (int (NLMSG_ALIGN (nl_len m) + ?len) mod 2 ^ 64) = NLMSG_ALIGN (nl_len m) + ?len" 
  proof -
    have "int (NLMSG_ALIGN (nl_len m) + ?len) mod 2 ^ 64 = int (NLMSG_ALIGN (nl_len m) + ?len)" using tot by (intro mod_pos_pos_trivial) (linarith, simp)
    then show ?thesis by (simp only: nat_int)
  qed
  then have ok: "NLMSG_OK buf off (int (NLMSG_ALIGN (nl_len m) + ?len)) = Inr True"
    unfolding NLMSG_OK_def Let_def using hdr(1) al by (simp only: rbind.simps if_False) simp
  show ?case
  proof (cases "nl_type m = 3")
    case True
    then show ?thesis using ok hdr al(2) by (subst nl_loop.simps) (simp add: nl_prints_def)
  next
    case False
    have "drop (off + NLMSG_ALIGN (nl_len m)) buf = concat (map nl_encode ms) @ rest"
      using m(2) al(2) by (metis (no_types, lifting) append_eq_conv_conj drop_drop add.commute)
    then have "nl_loop buf (off + NLMSG_ALIGN (nl_len m)) (int ?len) (out @ [nl_print (nl_type m) (nl_len m)]) = Some (Inr ((out @ [nl_print (nl_type m) (nl_len m)]) @ nl_prints ms))"
      using Cons.prems tot by (intro Cons.IH) (simp_all add: NL_BUF_def)
    then show ?thesis using ok hdr al(2) False by (subst nl_loop.simps) (simp add: nl_prints_def nl_print_line)
  qed
qed

section \<open>Properties\<close>

definition nl_batch :: "nl_msg list \<Rightarrow> octet list" where
  "nl_batch ms = concat (map nl_encode ms)"

definition nl_batch_ok :: "nl_msg list \<Rightarrow> bool" where
  "nl_batch_ok ms \<longleftrightarrow> ms \<noteq> [] \<and> list_all nl_msg_ok ms \<and> length (nl_batch ms) \<le> NL_BUF"

text \<open>The datagrams that are well-formed, and what \<open>recv\<close> answers after them.\<close>

lemma handle_netlink_batches:
  assumes "list_all nl_batch_ok batches" "length buf = NL_BUF"
  shows "\<exists>buf'. length buf' = NL_BUF \<and>
    handle_netlink buf (map (Some \<circ> nl_batch) batches @ ds) out = handle_netlink buf' ds (out @ concat (map nl_prints batches))"
  using assms
proof (induction batches arbitrary: buf out)
  case (Cons ms batches)
  let ?d = "nl_batch ms"
  have ok: "list_all nl_msg_ok ms" "length ?d \<le> NL_BUF" "ms \<noteq> []" using Cons.prems by (simp_all add: nl_batch_ok_def)
  obtain m ms' where m: "ms = m # ms'" using ok(3) by (cases ms) auto
  have "nl_le_bytes 4 (nl_len m) \<noteq> []" by (simp add: nl_le_bytes_numeral)
  then have ne: "?d \<noteq> []" by (simp add: nl_batch_def m nl_encode_def)
  have recv: "nl_recv buf ?d = (?d @ drop (length ?d) buf, int (length ?d))" using ok(2) by (simp add: nl_recv_def Let_def)
  have "nl_loop (?d @ drop (length ?d) buf) 0 (int (length ?d)) out = Some (Inr (out @ nl_prints ms))"
    unfolding nl_batch_def by (rule nl_loop_batch) (use ok in \<open>simp_all add: nl_batch_def list_all_iff\<close>)
  moreover have "\<exists>buf'. length buf' = NL_BUF \<and> handle_netlink (?d @ drop (length ?d) buf) (map (Some \<circ> nl_batch) batches @ ds) (out @ nl_prints ms) =
      handle_netlink buf' ds ((out @ nl_prints ms) @ concat (map nl_prints batches))"
    using Cons.prems ok(2) by (intro Cons.IH) simp_all
  ultimately show ?case using ne recv by (simp add: comp_def)
qed auto

text \<open>
  Claim C35: \<open>handle_netlink\<close> prints the messages of every datagram, in order, up to \<open>NLMSG_DONE\<close>. For datagrams that fit the buffer and hold messages padded to four
  bytes, the walk returns, reads nothing outside the buffer and prints for each message in front of the first one that ends a dump the line of its type, whatever an earlier
  datagram left in the buffer; an error of \<open>recv\<close> is reported behind them.
\<close>

theorem handle_netlink_prints_all:
  assumes "list_all nl_batch_ok batches" "length buf = NL_BUF"
  shows "handle_netlink buf (map (Some \<circ> nl_batch) batches) out = Some (Inr (out @ concat (map nl_prints batches))) \<and>
    handle_netlink buf (map (Some \<circ> nl_batch) batches @ None # ds) out = Some (Inr (out @ concat (map nl_prints batches) @ [RecvFailed]))"
  using handle_netlink_batches [OF assms, of "[]"] handle_netlink_batches [OF assms, of "None # ds"] by simp

theorem handle_netlink_prints_all_witness:
  "handle_netlink (replicate 4096 7) (map (Some \<circ> nl_batch) [[\<lparr>nl_type = 16, nl_fields = replicate 10 0, nl_payload = [1]\<rparr>, \<lparr>nl_type = 21, nl_fields = replicate 10 0, nl_payload = []\<rparr>,
     \<lparr>nl_type = 3, nl_fields = replicate 10 0, nl_payload = []\<rparr>]]) [] = Some (Inr [NEWLINK, DELADDR])"
proof -
  have "list_all nl_batch_ok [[\<lparr>nl_type = 16, nl_fields = replicate 10 0, nl_payload = [1]\<rparr>, \<lparr>nl_type = 21, nl_fields = replicate 10 0, nl_payload = []\<rparr>,
      \<lparr>nl_type = 3, nl_fields = replicate 10 0, nl_payload = []\<rparr>]]"
    by (simp add: nl_batch_ok_def nl_batch_def nl_msg_ok_def nl_len_def nl_encode_def HDRLEN_def NL_BUF_def nl_le_bytes_numeral NLMSG_ALIGN_def)
  from handle_netlink_prints_all [OF this, of "replicate 4096 7" "[]"] show ?thesis by (simp add: NL_BUF_def nl_prints_def nl_line_of_def nl_known_def)
qed

text \<open>
  A datagram whose last message is not padded makes the remaining length negative; the cast to \<open>size_t\<close> turns it into a huge one and the walk goes on behind
  the datagram. Here 17 bytes with one message are received, and a second message is printed from what was in the buffer before.
\<close>

lemma unpadded_datagram_overrun:
  "nl_loop ([17, 0, 0, 0, 16, 0] @ replicate 11 0 @ [0, 0, 0] @ [16, 0, 0, 0, 17, 0] @ replicate 10 0 @ replicate 100 0) 0 17 [] = Some (Inr [NEWLINK, DELLINK])"
proof -
  let ?b = "[17, 0, 0, 0, 16, 0] @ replicate 11 0 @ [0, 0, 0] @ [16, 0, 0, 0, 17, 0] @ replicate 10 0 @ replicate 100 0 :: octet list"
  note simps = NLMSG_OK_def le32_def le16_def HDRLEN_def nth_append Let_def NLMSG_ALIGN_def nl_print_def
  have 1: "NLMSG_OK ?b 0 17 = Inr True" "le32 ?b 0 = Inr 17" "le16 ?b 4 = Inr 16" by (simp_all add: simps)
  have 2: "NLMSG_OK ?b 20 (- 3) = Inr True" "le32 ?b 20 = Inr 16" "le16 ?b 24 = Inr 17" by (simp_all add: simps)
  have 3: "NLMSG_OK ?b 36 (- 19) = Inr False" by (simp add: simps)
  have "nl_loop ?b 36 (- 19) [NEWLINK, DELLINK] = Some (Inr [NEWLINK, DELLINK])" using 3 by (subst nl_loop.simps) simp
  then have "nl_loop ?b 20 (- 3) [NEWLINK] = Some (Inr [NEWLINK, DELLINK])" using 2 by (subst nl_loop.simps) (simp add: NLMSG_ALIGN_def nl_print_def)
  then show ?thesis using 1 by (subst nl_loop.simps) (simp add: NLMSG_ALIGN_def nl_print_def)
qed

end
