(* ===== verification/Epoll_Server.thy ===== *)
theory Epoll_Server
  imports Netlink
begin

text \<open>
  The event loop of \<open>pollMechanisms/epoll/hostapd.c\<close>: a netlink socket, a listening Unix socket with its clients, a timer and a signal descriptor behind one
  epoll instance. The operating system is a record: the open, watched and non-blocking descriptors, whether the path of the socket exists, and the answers it will
  give: which calls fail, which connections arrive, what \<open>read\<close> and \<open>recv\<close> deliver, and
  what the stack held where the buffer for netlink messages lies. When no answer is left a call on a non-blocking descriptor fails with \<open>EAGAIN\<close> and a \<open>read\<close> on a client that stayed
  blocking does not return, which blocks the server. The choice of a new
  descriptor is the parameter \<open>alloc\<close>, of which the proofs use that it is not negative and not in use. What \<open>epoll_wait\<close> reports is a list of lists of events; when it
  is used up the server stays in the call.
\<close>

section \<open>The operating system\<close>

datatype errno = EAGAIN | EINTR | OtherErrno

datatype srv_line =
  Perror string | NetlinkLine nl_line | AcceptedClient int | ClientRead int "octet list" | ClientClosed int | TimerFired nat | SignalReceived nat
  | Started int int int int | ShuttingDown

record kern =
  fds :: "int set"
  watched :: "int set"
  nonblock :: "int set"
  sockfile :: bool
  fails :: "bool list"
  accepts :: "errno option list"
  reads :: "(errno + octet list) list"
  dgrams :: "octet list option list list"
  stack_buf :: "octet list"
  log :: "srv_line list"

type_synonym alloc = "int set \<Rightarrow> int"


definition say :: "srv_line \<Rightarrow> kern \<Rightarrow> kern" where
  "say l k = k\<lparr>log := log k @ [l]\<rparr>"

text \<open>A call that only succeeds or fails.\<close>

definition sys_call :: "kern \<Rightarrow> bool \<times> kern" where
  "sys_call k = (case fails k of [] \<Rightarrow> (True, k) | b # bs \<Rightarrow> (\<not> b, k\<lparr>fails := bs\<rparr>))"

definition sys_fd :: "alloc \<Rightarrow> bool \<Rightarrow> kern \<Rightarrow> int \<times> kern" where
  "sys_fd alloc nb k = (let f = alloc (fds k) in (f, k\<lparr>fds := insert f (fds k), nonblock := if nb then insert f (nonblock k) else nonblock k - {f}\<rparr>))"

definition sys_open :: "alloc \<Rightarrow> bool \<Rightarrow> kern \<Rightarrow> int \<times> kern" where
  "sys_open alloc nb k = (let (ok, k) = sys_call k in if ok then sys_fd alloc nb k else (-1, k))"

definition sys_close :: "int \<Rightarrow> kern \<Rightarrow> kern" where
  "sys_close fd k = k\<lparr>fds := fds k - {fd}, watched := watched k - {fd}, nonblock := nonblock k - {fd}\<rparr>"

definition sys_unlink :: "kern \<Rightarrow> kern" where
  "sys_unlink k = k\<lparr>sockfile := False\<rparr>"

definition epoll_ctl_add :: "int \<Rightarrow> kern \<Rightarrow> bool \<times> kern" where
  "epoll_ctl_add fd k = (let (ok, k) = sys_call k in (ok, if ok then k\<lparr>watched := insert fd (watched k)\<rparr> else k))"

definition sys_read :: "nat \<Rightarrow> kern \<Rightarrow> (errno + octet list) \<times> kern" where
  "sys_read n k = (case reads k of [] \<Rightarrow> (Inl EAGAIN, k) | r # rs \<Rightarrow> (map_sum id (take n) r, k\<lparr>reads := rs\<rparr>))"

section \<open>Setting up\<close>

definition make_nonblocking :: "int \<Rightarrow> kern \<Rightarrow> int \<times> kern" where
  "make_nonblocking fd k =
     (let (ok, k) = sys_call k in
      if \<not> ok then (-1, k)
      else let (ok, k) = sys_call k in if ok then (0, k\<lparr>nonblock := insert fd (nonblock k)\<rparr>) else (-1, k))"

definition setup_netlink_socket :: "alloc \<Rightarrow> kern \<Rightarrow> int \<times> kern" where
  "setup_netlink_socket alloc k =
     (let (nl, k) = sys_open alloc False k in
      if nl < 0 then (-1, say (Perror ''socket(AF_NETLINK)'') k)
      else let (ok, k) = sys_call k in
      if \<not> ok then (-1, sys_close nl (say (Perror ''bind(netlink)'') k))
      else let (r, k) = make_nonblocking nl k in
      if r < 0 then (-1, sys_close nl (say (Perror ''make_nonblocking(netlink)'') k))
      else (nl, k))"

definition setup_unix_socket :: "alloc \<Rightarrow> kern \<Rightarrow> int \<times> kern" where
  "setup_unix_socket alloc k =
     (let (us, k) = sys_open alloc False k in
      if us < 0 then (-1, say (Perror ''socket(AF_UNIX)'') k)
      else let k = sys_unlink k; (ok, k) = sys_call k in
      if \<not> ok then (-1, sys_close us (say (Perror ''bind(unix)'') k))
      else let k = k\<lparr>sockfile := True\<rparr>; (ok, k) = sys_call k in
      if \<not> ok then (-1, sys_close us (say (Perror ''listen(unix)'') k))
      else let (r, k) = make_nonblocking us k in
      if r < 0 then (-1, sys_close us (say (Perror ''make_nonblocking(unix)'') k))
      else (us, k))"

definition setup_timerfd :: "alloc \<Rightarrow> kern \<Rightarrow> int \<times> kern" where
  "setup_timerfd alloc k =
     (let (tfd, k) = sys_open alloc True k in
      if tfd < 0 then (-1, say (Perror ''timerfd_create'') k)
      else let (ok, k) = sys_call k in
      if \<not> ok then (-1, sys_close tfd (say (Perror ''timerfd_settime'') k))
      else (tfd, k))"

definition setup_signalfd :: "alloc \<Rightarrow> kern \<Rightarrow> int \<times> kern" where
  "setup_signalfd alloc k =
     (let (ok, k) = sys_call k in
      if \<not> ok then (-1, say (Perror ''sigprocmask'') k)
      else let (sfd, k) = sys_open alloc True k in
      if sfd < 0 then (-1, say (Perror ''signalfd'') k)
      else (sfd, k))"

section \<open>Handlers\<close>

lemma sys_call_keeps:
  assumes "sys_call k = (ok, k')"
  shows "fds k' = fds k" "watched k' = watched k" "nonblock k' = nonblock k" "sockfile k' = sockfile k" "accepts k' = accepts k" "reads k' = reads k" "log k' = log k"
    "dgrams k' = dgrams k" "stack_buf k' = stack_buf k"
  using assms by (auto simp: sys_call_def split: list.splits)

lemma make_nonblocking_keeps:
  assumes "make_nonblocking fd k = (r, k')"
  shows "fds k' = fds k" "watched k' = watched k" "sockfile k' = sockfile k" "accepts k' = accepts k" "reads k' = reads k" "log k' = log k" 
    "nonblock k' = (if r < 0 then nonblock k else insert fd (nonblock k))" "dgrams k' = dgrams k" "stack_buf k' = stack_buf k"
  using assms by (auto simp: make_nonblocking_def sys_call_keeps split: prod.splits if_splits)

lemma epoll_ctl_add_keeps:
  assumes "epoll_ctl_add fd k = (ok, k')"
  shows "fds k' = fds k" "watched k' = (if ok then insert fd (watched k) else watched k)" "nonblock k' = nonblock k" "sockfile k' = sockfile k"
    "accepts k' = accepts k" "reads k' = reads k" "log k' = log k" "dgrams k' = dgrams k" "stack_buf k' = stack_buf k"
  using assms by (auto simp: epoll_ctl_add_def sys_call_keeps split: prod.splits if_splits)

text \<open>\<open>accept\<close> until it fails; the result of \<open>make_nonblocking\<close> is not looked at.\<close>

function handle_unix_listener :: "alloc \<Rightarrow> kern \<Rightarrow> kern" where
  "handle_unix_listener alloc k =
     (case accepts k of
        [] \<Rightarrow> k
      | Some e # as \<Rightarrow> (let k = k\<lparr>accepts := as\<rparr> in if e = EAGAIN then k else say (Perror ''accept'') k)
      | None # as \<Rightarrow>
          let (c, k) = sys_fd alloc False (k\<lparr>accepts := as\<rparr>);
              (r, k) = make_nonblocking c k;
              (ok, k) = epoll_ctl_add c k
          in handle_unix_listener alloc (if \<not> ok then sys_close c (say (Perror ''epoll_ctl add client'') k) else say (AcceptedClient c) k))"
  by pat_completeness auto
termination
  by (relation "measure (\<lambda>(alloc, k). length (accepts k))")
    (auto simp: sys_fd_def say_def sys_close_def Let_def epoll_ctl_add_keeps make_nonblocking_keeps dest!: sym [where t = "epoll_ctl_add _ _"] sym [where t = "make_nonblocking _ _"] split: if_splits)

declare handle_unix_listener.simps [simp del]

text \<open>
  Whether the handler returns, and the state. It reads until there is nothing to read: then \<open>read\<close> fails with \<open>EAGAIN\<close> on a non-blocking descriptor, and blocks on another
  one.
\<close>

function handle_unix_client :: "int \<Rightarrow> kern \<Rightarrow> bool \<times> kern" where
  "handle_unix_client fd k =
     (case reads k of
        [] \<Rightarrow> (fd \<in> nonblock k, k)
      | r # rs \<Rightarrow>
          (case map_sum id (take 512) r of
             Inr bs \<Rightarrow>
               if bs \<noteq> [] then handle_unix_client fd (say (ClientRead fd bs) (k\<lparr>reads := rs\<rparr>))
               else (True, sys_close fd (say (ClientClosed fd) (k\<lparr>reads := rs\<rparr>)))
           | Inl e \<Rightarrow>
               if e = EAGAIN then (fd \<in> nonblock k, k\<lparr>reads := rs\<rparr>)
               else (True, sys_close fd (say (Perror ''read(unix client)'') (k\<lparr>reads := rs\<rparr>)))))"
  by pat_completeness auto
termination
  by (relation "measure (\<lambda>(fd, k). length (reads k))") (auto simp: say_def)

declare handle_unix_client.simps [simp del]

definition le_nat :: "octet list \<Rightarrow> nat" where
  "le_nat bs = foldr (\<lambda>b a. unat b + 256 * a) bs 0"

definition handle_timer :: "kern \<Rightarrow> kern" where
  "handle_timer k =
     (let (r, k) = sys_read 8 k in
      case r of Inr bs \<Rightarrow> if length bs = 8 then say (TimerFired (le_nat bs)) k else k | Inl e \<Rightarrow> k)"

text \<open>The result tells whether the loop ends; a \<open>signalfd_siginfo\<close> has 128 bytes and starts with the number of the signal.\<close>

definition handle_signal :: "kern \<Rightarrow> bool \<times> kern" where
  "handle_signal k =
     (let (r, k) = sys_read 128 k in
      case r of Inr bs \<Rightarrow> if length bs = 128 then (True, say (SignalReceived (le_nat (take 4 bs))) k) else (False, k) | Inl e \<Rightarrow> (False, k))"

definition handle_netlink_fd :: "kern \<Rightarrow> kern res option" where
  "handle_netlink_fd k =
     (case dgrams k of
        [] \<Rightarrow> Some (Inr k)
      | ds # dss \<Rightarrow> obind (handle_netlink (stack_buf k) ds []) (\<lambda>ls. Some (Inr (k\<lparr>dgrams := dss, log := log k @ map NetlinkLine ls\<rparr>))))"

section \<open>The loop\<close>

definition EPOLL_MAX_EVENTS :: nat where "EPOLL_MAX_EVENTS = 10"

record srv =
  s_ep :: int
  s_nl :: int
  s_us :: int
  s_t :: int
  s_s :: int

definition is_readable :: "32 word \<Rightarrow> bool" where
  "is_readable evts \<longleftrightarrow> bit evts 0 \<or> bit evts 4 \<or> bit evts 3"

text \<open>After the events of one \<open>epoll_wait\<close> the loop goes on, or ends because a signal arrived; or the server is blocked in a \<open>read\<close> on a client.\<close>

datatype dispatched = Continue | Stop | BlockedOn int

fun dispatch :: "alloc \<Rightarrow> srv \<Rightarrow> (int \<times> 32 word) list \<Rightarrow> kern \<Rightarrow> (dispatched \<times> kern) res option" where
  "dispatch alloc s [] k = Some (Inr (Continue, k))"
| "dispatch alloc s ((fd, evts) # es) k =
     (if fd = s_nl s then obind (handle_netlink_fd k) (\<lambda>k. dispatch alloc s es k)
      else if fd = s_us s then dispatch alloc s es (handle_unix_listener alloc k)
      else if fd = s_t s then dispatch alloc s es (handle_timer k)
      else if fd = s_s s then (let (stop, k) = handle_signal k in if stop then Some (Inr (Stop, k)) else dispatch alloc s es k)
      else if is_readable evts then
        (let (returned, k) = handle_unix_client fd k in if returned then dispatch alloc s es k else Some (Inr (BlockedOn fd, k)))
      else dispatch alloc s es k)"

text \<open>\<open>epoll_wait\<close> reports each watched descriptor at most once.\<close>

definition epoll_wait :: "(int \<times> 32 word) list \<Rightarrow> kern \<Rightarrow> (int \<times> 32 word) list" where
  "epoll_wait es k = take EPOLL_MAX_EVENTS (map (\<lambda>fd. (fd, the (map_of es fd))) (filter (\<lambda>fd. fd \<in> watched k) (remdups (map fst es))))"

datatype outcome = Waiting | Exit int | Blocked int

definition shut_down :: "srv \<Rightarrow> kern \<Rightarrow> kern" where
  "shut_down s k =
     sys_close (s_ep s) (sys_close (s_s s) (sys_close (s_t s) (sys_unlink (sys_close (s_us s) (sys_close (s_nl s) (say ShuttingDown k))))))"

fun server_loop :: "alloc \<Rightarrow> srv \<Rightarrow> (errno + (int \<times> 32 word) list) list \<Rightarrow> kern \<Rightarrow> (outcome \<times> kern) res option" where
  "server_loop alloc s [] k = Some (Inr (Waiting, k))"
| "server_loop alloc s (Inl e # ws) k =
     (if e = EINTR then server_loop alloc s ws k else Some (Inr (Exit 0, shut_down s (say (Perror ''epoll_wait'') k))))"
| "server_loop alloc s (Inr es # ws) k =
     obind (dispatch alloc s (epoll_wait es k) k) (\<lambda>(d, k).
       case d of Continue \<Rightarrow> server_loop alloc s ws k
       | Stop \<Rightarrow> Some (Inr (Exit 0, shut_down s k))
       | BlockedOn fd \<Rightarrow> Some (Inr (Blocked fd, k)))"

definition register :: "int \<Rightarrow> kern \<Rightarrow> kern" where
  "register fd k = snd (epoll_ctl_add fd k)"

definition server_main :: "alloc \<Rightarrow> (errno + (int \<times> 32 word) list) list \<Rightarrow> kern \<Rightarrow> (outcome \<times> kern) res option" where
  "server_main alloc ws k =
     (let (epfd, k) = sys_open alloc False k in
      if epfd < 0 then Some (Inr (Exit 1, say (Perror ''epoll_create1'') k))
      else let (nl, k) = setup_netlink_socket alloc k in
      if nl < 0 then Some (Inr (Exit 1, k))
      else let (us, k) = setup_unix_socket alloc k in
      if us < 0 then Some (Inr (Exit 1, sys_close nl k))
      else let (tfd, k) = setup_timerfd alloc k in
      if tfd < 0 then Some (Inr (Exit 1, sys_close us (sys_close nl k)))
      else let (sfd, k) = setup_signalfd alloc k in
      if sfd < 0 then Some (Inr (Exit 1, sys_close tfd (sys_close us (sys_close nl k))))
      else let k = say (Started nl us tfd sfd) (register sfd (register tfd (register us (register nl k))))
      in server_loop alloc \<lparr>s_ep = epfd, s_nl = nl, s_us = us, s_t = tfd, s_s = sfd\<rparr> ws k)"

section \<open>Descriptors\<close>



text \<open>An operating system in which no call that only succeeds or fails is going to fail.\<close>

definition calm :: "kern \<Rightarrow> bool" where
  "calm k \<longleftrightarrow> True \<notin> set (fails k)"

lemma calm_simps [simp]:
  "calm (k\<lparr>fds := A\<rparr>) = calm k" "calm (k\<lparr>watched := A\<rparr>) = calm k" "calm (k\<lparr>nonblock := A\<rparr>) = calm k" "calm (k\<lparr>sockfile := b\<rparr>) = calm k"
  "calm (k\<lparr>accepts := a\<rparr>) = calm k" "calm (k\<lparr>reads := r\<rparr>) = calm k" "calm (k\<lparr>log := l\<rparr>) = calm k" "calm (k\<lparr>dgrams := d\<rparr>) = calm k"
  "calm (say x k) = calm k" "calm (sys_close fd k) = calm k" "calm (sys_unlink k) = calm k"
  by (simp_all add: calm_def say_def sys_close_def sys_unlink_def)



















section \<open>The invariant of the loop\<close>

definition srv_fds :: "srv \<Rightarrow> int set" where
  "srv_fds s = {s_ep s, s_nl s, s_us s, s_t s, s_s s}"

text \<open>
  The netlink datagrams still to come are well-formed: each call of \<open>handle_netlink\<close> receives batches of padded messages that fit its buffer, until there is no
  more, or \<open>recv\<close> fails or delivers nothing.
\<close>

definition answers_ok :: "octet list option list \<Rightarrow> bool" where
  "answers_ok ds \<longleftrightarrow> (\<exists>bs tail. ds = map (Some \<circ> nl_batch) bs @ tail \<and> list_all nl_batch_ok bs \<and> (tail = [] \<or> hd tail \<in> {None, Some []}))"

definition dgrams_ok :: "kern \<Rightarrow> bool" where
  "dgrams_ok k \<longleftrightarrow> list_all answers_ok (dgrams k) \<and> length (stack_buf k) = NL_BUF"

text \<open>
  \<open>F\<close> are the descriptors open before the program starts; the others are the server's own and those of its clients, which epoll watches. In a calm operating system
  all clients are non-blocking; \<open>b\<close> tells whether it was calm from the start.
\<close>

definition srv_inv :: "bool \<Rightarrow> int set \<Rightarrow> srv \<Rightarrow> kern \<Rightarrow> bool" where
  "srv_inv b F s k \<longleftrightarrow> finite (fds k) \<and> fds k = F \<union> srv_fds s \<union> watched k \<and> watched k \<inter> insert (s_ep s) F = {} \<and> F \<inter> srv_fds s = {} \<and>
     dgrams_ok k \<and> (b \<longrightarrow> calm k \<and> watched k - srv_fds s \<subseteq> nonblock k)"

lemma ep_in_srv_fds [simp]: "s_ep s \<in> srv_fds s"
  by (simp add: srv_fds_def)





lemma srv_inv_answers [simp]:
  "srv_inv b F s (k\<lparr>accepts := a\<rparr>) = srv_inv b F s k" "srv_inv b F s (k\<lparr>reads := r\<rparr>) = srv_inv b F s k"
  by (simp_all add: srv_inv_def dgrams_ok_def)















section \<open>Properties\<close>









text \<open>One choice of the operating system: the descriptor after the highest in use.\<close>

definition quiet_kern :: kern where
  "quiet_kern = \<lparr>fds = {0, 1, 2}, watched = {}, nonblock = {}, sockfile = True, fails = [], accepts = [], reads = [], dgrams = [], stack_buf = replicate NL_BUF 0, log = []\<rparr>"

definition next_fd :: alloc where
  "next_fd A = (if A = {} then 0 else max 0 (Max A + 1))"


lemma next_fd_insert: "finite A \<Longrightarrow> A \<noteq> {} \<Longrightarrow> next_fd (insert x A) = max 0 (max x (Max A) + 1)"
  by (simp add: next_fd_def)

lemmas run_simps = server_main_def setup_netlink_socket_def setup_unix_socket_def setup_timerfd_def setup_signalfd_def sys_open_def sys_call_def sys_fd_def
  make_nonblocking_def register_def epoll_ctl_add_def sys_unlink_def say_def sys_close_def quiet_kern_def shut_down_def epoll_wait_def EPOLL_MAX_EVENTS_def next_fd_def

text \<open>A failure after \<open>epoll_create1\<close> leaves the epoll instance open.\<close>

lemma setup_failure_leaks_epoll:
  "\<exists>k'. server_main next_fd [] (quiet_kern\<lparr>fails := [False, True]\<rparr>) = Some (Inr (Exit 1, k')) \<and> fds k' = {0, 1, 2, 3}"
  by (simp add: run_simps insert_commute)



text \<open>
  A client whose \<open>make_nonblocking\<close> fails is registered all the same: \<open>handle_unix_client\<close> reads until there is nothing more, which blocks the server.
\<close>

lemma blocking_client_blocks_server:
  "\<exists>k'. server_main next_fd [Inr [(5, 1)], Inr [(8, 1)]] (quiet_kern\<lparr>accepts := [None], fails := replicate 18 False @ [True], reads := [Inr [104]]\<rparr>) =
     Some (Inr (Blocked 8, k'))"
  by (simp add: run_simps numeral_eq_Suc handle_unix_listener.simps handle_unix_client.simps is_readable_def)

end
