(* ===== verification/Pipe_Demos.thy ===== *)
theory Pipe_Demos
  imports Prelude "HOL-Library.Multiset"
begin

text \<open>
  The demonstrations of \<open>poll\<close>, \<open>epoll\<close> and \<open>select\<close> under \<open>pollMechanisms\<close>: child processes write single bytes into pipes, the parent waits once and reads a byte
  from every pipe that is ready. A pipe is the list of its unread bytes. The writers' steps are interleaved arbitrarily with one another, and the parent's call returns
  after an arbitrary part of them. A child's part of a trace is the list of its writes, pairs of a pipe and a byte. Clocks and timing output are left out.
\<close>

section \<open>Interleavings\<close>

inductive interleaved :: "'a list list \<Rightarrow> 'a list \<Rightarrow> bool" where
  finished: "list_all (\<lambda>p. p = []) ps \<Longrightarrow> interleaved ps []"
| step: "i < length ps \<Longrightarrow> ps ! i = x # xs \<Longrightarrow> interleaved (ps[i := xs]) tr \<Longrightarrow> interleaved ps (x # tr)"

lemma mset_concat_update:
  "i < length ps \<Longrightarrow> ps ! i = x # xs \<Longrightarrow> mset (concat ps) = add_mset x (mset (concat (ps[i := xs])))"
  by (induction ps arbitrary: i) (auto simp: nth_Cons' split: nat.splits if_splits)

lemma interleaved_mset: "interleaved ps tr \<Longrightarrow> mset tr = mset (concat ps)"
proof (induction rule: interleaved.induct)
  case (finished ps)
  then show ?case by (induction ps) auto
next
  case (step i ps x xs tr)
  then show ?case using mset_concat_update [of i ps x xs] by simp
qed

section \<open>Writers\<close>

type_synonym pipes = "nat list list"

text \<open>\<open>N\<close> pipes and \<open>M\<close> writers, from the arguments of the program.\<close>

definition arg_or :: "int \<Rightarrow> int option \<Rightarrow> nat" where
  "arg_or d a = nat (let v = (case a of None \<Rightarrow> d | Some v \<Rightarrow> v) in if v \<le> 0 then d else v)"

text \<open>Writer \<open>w\<close> writes \<open>base + w % m\<close> to its share of the pipes.\<close>

definition writer_prog :: "nat \<Rightarrow> nat \<Rightarrow> nat \<Rightarrow> nat \<Rightarrow> nat \<Rightarrow> (nat \<times> nat) list res" where
  "writer_prog base m N M w =
     (if INT_MAX < int (w * N) \<or> INT_MAX < int ((w + 1) * N) then Inl IntOverflow
      else Inr (map (\<lambda>i. (i, base + w mod m)) [(w * N) div M..<((w + 1) * N) div M]))"

definition pipe_write :: "nat \<times> nat \<Rightarrow> pipes \<Rightarrow> pipes res" where
  "pipe_write = (\<lambda>(i, c) ps. rbind (arr_get ps i) (\<lambda>p. arr_set ps i (p @ [c])))"

fun run_writes :: "(nat \<times> nat) list \<Rightarrow> pipes \<Rightarrow> pipes res" where
  "run_writes [] ps = Inr ps"
| "run_writes (w # ws) ps = rbind (pipe_write w ps) (\<lambda>ps. run_writes ws ps)"

section \<open>Readers\<close>

text \<open>Reading a byte of an empty pipe blocks, since the parent holds the writing ends: the result is \<open>None\<close>.\<close>

definition pipe_read :: "nat \<Rightarrow> pipes \<Rightarrow> (nat \<times> pipes) option" where
  "pipe_read i ps = (if i < length ps then (case ps ! i of [] \<Rightarrow> None | c # p \<Rightarrow> Some (c, ps[i := p])) else None)"

definition poll_revents :: "pipes \<Rightarrow> bool list" where
  "poll_revents ps = map (\<lambda>p. p \<noteq> []) ps"

definition poll_rv :: "bool list \<Rightarrow> nat" where
  "poll_rv rvs = length (filter (\<lambda>b. b) rvs)"

text \<open>The loop of \<open>poll.c\<close> over the descriptors, which stops when it has seen as many as \<open>poll\<close> counted.\<close>

function poll_read :: "nat \<Rightarrow> bool list \<Rightarrow> nat \<Rightarrow> nat \<Rightarrow> nat \<Rightarrow> pipes \<Rightarrow> (nat \<times> nat) list \<Rightarrow> ((nat \<times> nat) list \<times> pipes) option" where
  "poll_read N rvs rv i seen ps out =
     (if i < N \<and> seen < rv then
        (if rvs ! i then (case pipe_read i ps of None \<Rightarrow> None | Some (b, ps) \<Rightarrow> poll_read N rvs rv (i + 1) (seen + 1) ps (out @ [(i, b)]))
         else poll_read N rvs rv (i + 1) seen ps out)
      else Some (out, ps))"
  by pat_completeness auto
termination
  by (relation "measure (\<lambda>(N, rvs, rv, i, seen, ps, out). N - i)") auto

declare poll_read.simps [simp del]

text \<open>The loop of \<open>epoll.c\<close> over the events.\<close>

fun epoll_read :: "nat list \<Rightarrow> pipes \<Rightarrow> (nat \<times> nat) list \<Rightarrow> ((nat \<times> nat) list \<times> pipes) option" where
  "epoll_read [] ps out = Some (out, ps)"
| "epoll_read (i # es) ps out = (case pipe_read i ps of None \<Rightarrow> None | Some (b, ps) \<Rightarrow> epoll_read es ps (out @ [(i, b)]))"

section \<open>The programs\<close>

text \<open>
  The parent with the first pipe and the first fork that fail, whether the waiting call fails, the writes made before it returns, and what it reports. The result is
  the exit code, the bytes read by pipe, and the pipes.
\<close>

record demo_os =
  bad_pipe :: "nat option"
  bad_fork :: "nat option"
  wait_fails :: bool
  before :: "(nat \<times> nat) list"

type_synonym demo_result = "(int \<times> (nat \<times> nat) list \<times> pipes) option res"

definition fails_below :: "nat \<Rightarrow> nat option \<Rightarrow> bool" where
  "fails_below n f = (case f of None \<Rightarrow> False | Some i \<Rightarrow> i < n)"

definition poll_main :: "int option \<Rightarrow> int option \<Rightarrow> demo_os \<Rightarrow> demo_result" where
  "poll_main argN argM os =
     (let N = arg_or 1000 argN; M = arg_or 10 argM in
      if fails_below N (bad_pipe os) \<or> fails_below M (bad_fork os) then Inr (Some (1, [], []))
      else rbind (run_writes (before os) (replicate N [])) (\<lambda>ps.
        if wait_fails os then Inr (Some (0, [], ps))
        else let rvs = poll_revents ps in Inr (map_option (\<lambda>(out, ps). (0, out, ps)) (poll_read N rvs (poll_rv rvs) 0 0 ps []))))"

text \<open>The events that \<open>epoll_wait\<close> reports are the ready pipes in some order; the array has room for all. \<open>bad_ctl\<close> is the first registration that fails.\<close>

definition epoll_main :: "int option \<Rightarrow> int option \<Rightarrow> bool \<Rightarrow> nat option \<Rightarrow> nat list \<Rightarrow> demo_os \<Rightarrow> demo_result" where
  "epoll_main argN argM bad_create bad_ctl events os =
     (let N = arg_or 1000 argN; M = arg_or 10 argM in
      if fails_below N (bad_pipe os) \<or> bad_create \<or> fails_below N bad_ctl \<or> fails_below M (bad_fork os) then Inr (Some (1, [], []))
      else rbind (run_writes (before os) (replicate N [])) (\<lambda>ps.
        if wait_fails os then Inr (Some (0, [], ps))
        else Inr (map_option (\<lambda>(out, ps). (0, out, ps)) (epoll_read events ps []))))"

section \<open>Shares of the writers\<close>

text \<open>The writer that a pipe belongs to.\<close>

definition owner :: "nat \<Rightarrow> nat \<Rightarrow> nat \<Rightarrow> nat" where
  "owner N M i = ((i + 1) * M - 1) div N"

lemma owner_share:
  assumes "0 < N" "0 < M" "(w * N) div M \<le> i" "i < ((w + 1) * N) div M"
  shows "owner N M i = w"
proof -
  have "w * N < (i + 1) * M" using assms(2,3) by (simp add: div_less_iff_less_mult flip: less_Suc_eq_le)
  moreover have "(i + 1) * M \<le> (w + 1) * N" using assms(2,4) by (simp add: less_eq_div_iff_mult_less_eq flip: Suc_le_eq)
  ultimately have "w * N \<le> (i + 1) * M - 1" "(i + 1) * M - 1 < (w + 1) * N" by linarith+
  then show ?thesis unfolding owner_def by (intro div_nat_eqI) (simp_all add: mult.commute)
qed

lemma writer_prog_owner:
  assumes "0 < N" "0 < M" "w < M" "int (M * N) \<le> INT_MAX"
  shows "writer_prog base m N M w = Inr (map (\<lambda>i. (i, base + owner N M i mod m)) [(w * N) div M..<((w + 1) * N) div M])"
proof -
  have small: "int x \<le> INT_MAX" if "x \<le> M * N" for x
    by (rule order_trans [OF of_nat_mono [OF that] assms(4)])
  have "w * N \<le> M * N" "(w + 1) * N \<le> M * N" using assms(3) by (intro mult_le_mono1; simp)+
  then have "int (w * N) \<le> INT_MAX" "int ((w + 1) * N) \<le> INT_MAX" using small by blast+
  moreover have "map (\<lambda>i. (i, base + w mod m)) [(w * N) div M..<((w + 1) * N) div M] = map (\<lambda>i. (i, base + owner N M i mod m)) [(w * N) div M..<((w + 1) * N) div M]"
    using owner_share [OF assms(1,2), of w] by (intro map_cong) simp_all
  ultimately show ?thesis by (simp only: writer_prog_def not_less [symmetric]) simp
qed

lemma concat_shares:
  assumes "mono s" "s 0 = (0 :: nat)"
  shows "concat (map (\<lambda>w. map f [s w..<s (Suc w)]) [0..<M]) = map f [0..<s M]"
proof (induction M)
  case (Suc M)
  have "[0..<s (Suc M)] = [0..<s M] @ [s M..<s (Suc M)]"
    using monoD [OF assms(1), of M "Suc M"] by (metis le_add_diff_inverse le_SucI order_refl upt_add_eq_append zero_le)
  then show ?case using Suc by simp
qed (simp add: assms(2))

lemma writers_cover:
  assumes "0 < N" "0 < M"
  shows "concat (map (\<lambda>w. map f [(w * N) div M..<((w + 1) * N) div M]) [0..<M]) = map f [0..<N]"
proof -
  have "mono (\<lambda>w. (w * N) div M)" by (intro monoI div_le_mono mult_le_mono1)
  from concat_shares [OF this, of f M] show ?thesis using assms by simp
qed

section \<open>Pipes after some writes\<close>

definition written :: "nat \<Rightarrow> (nat \<times> nat) list \<Rightarrow> nat list" where
  "written i ws = map snd (filter (\<lambda>w. fst w = i) ws)"

lemma run_writes_eq:
  "\<forall>w \<in> set ws. fst w < length ps \<Longrightarrow> run_writes ws ps = Inr (map (\<lambda>i. ps ! i @ written i ws) [0..<length ps])"
proof (induction ws arbitrary: ps)
  case Nil
  then show ?case by (simp add: written_def map_nth)
next
  case (Cons w ws)
  obtain i c where w: "w = (i, c)" by fastforce
  then have "pipe_write w ps = Inr (ps[i := ps ! i @ [c]])" using Cons.prems by (simp add: pipe_write_def)
  moreover have "map (\<lambda>j. ps[i := ps ! i @ [c]] ! j @ written j ws) [0..<length ps] = map (\<lambda>j. ps ! j @ written j (w # ws)) [0..<length ps]"
    using w by (auto simp: written_def nth_list_update)
  ultimately show ?case using Cons by simp
qed

lemma written_append: "written i (xs @ ys) = written i xs @ written i ys"
  by (simp add: written_def)

text \<open>A complete trace: every pipe is written once.\<close>

lemma written_complete:
  assumes "mset tr = mset (map (\<lambda>i. (i, f i)) [0..<N])"
  shows "written i tr = (if i < N then [f i] else [])" "w \<in> set tr \<Longrightarrow> fst w < N"
proof -
  have "filter_mset (\<lambda>w. fst w = i) (mset (map (\<lambda>i. (i, f i)) [0..<N])) = (if i < N then {#(i, f i)#} else {#})"
    by (induction N) auto
  then have "mset (filter (\<lambda>w. fst w = i) tr) = (if i < N then {#(i, f i)#} else {#})" using assms by (simp add: mset_filter)
  then have "filter (\<lambda>w. fst w = i) tr = (if i < N then [(i, f i)] else [])" by (simp del: mset_filter split: if_splits)
  then show "written i tr = (if i < N then [f i] else [])" by (simp add: written_def)
  have "set tr = set (map (\<lambda>i. (i, f i)) [0..<N])" using assms by (rule mset_eq_setD)
  then show "w \<in> set tr \<Longrightarrow> fst w < N" by auto
qed

lemma written_part:
  assumes "mset (xs @ ys) = mset (map (\<lambda>i. (i, f i)) [0..<N])" "i < N"
  shows "written i xs = (if i \<in> fst ` set xs then [f i] else [])" "written i ys = (if i \<in> fst ` set xs then [] else [f i])"
proof -
  have app: "written i xs @ written i ys = [f i]" using written_complete(1) [OF assms(1), of i] assms(2) by (simp add: written_append)
  moreover have "written i xs = [] \<longleftrightarrow> i \<notin> fst ` set xs" by (auto simp: written_def filter_empty_conv)
  ultimately show "written i xs = (if i \<in> fst ` set xs then [f i] else [])" "written i ys = (if i \<in> fst ` set xs then [] else [f i])"
    by (auto simp: append_eq_Cons_conv)
qed

section \<open>What the readers read\<close>

lemma epoll_read_ready:
  "distinct es \<Longrightarrow> \<forall>i \<in> set es. i < length ps \<and> ps ! i = [f i] \<Longrightarrow>
   epoll_read es ps out = Some (out @ map (\<lambda>i. (i, f i)) es, map (\<lambda>i. if i \<in> set es then [] else ps ! i) [0..<length ps])"
proof (induction es arbitrary: ps out)
  case Nil
  then show ?case by (simp add: map_nth)
next
  case (Cons i es)
  have "map (\<lambda>j. if j \<in> set es then [] else ps[i := []] ! j) [0..<length ps] = map (\<lambda>j. if j \<in> set (i # es) then [] else ps ! j) [0..<length ps]"
    by (auto simp: nth_list_update)
  moreover have "\<forall>j \<in> set es. j < length (ps[i := []]) \<and> ps[i := []] ! j = [f j]" using Cons.prems by (auto simp: nth_list_update)
  ultimately show ?case using Cons by (simp add: pipe_read_def)
qed

lemma epoll_read_all_ready:
  assumes "distinct es" "set es = {i. i < N \<and> R i}"
  shows "epoll_read es (map (\<lambda>i. if R i then [f i] else []) [0..<N]) [] = Some (map (\<lambda>i. (i, f i)) es, replicate N [])"
proof -
  let ?ps = "map (\<lambda>i. if R i then [f i] else []) [0..<N]"
  have "map (\<lambda>i. if i \<in> set es then [] else ?ps ! i) [0..<length ?ps] = replicate N []"
    by (rule nth_equalityI) (simp_all add: assms(2))
  moreover have "\<forall>i \<in> set es. i < length ?ps \<and> ?ps ! i = [f i]" by (simp add: assms(2))
  note epoll_read_ready [OF assms(1) this, of "[]"]
  ultimately show ?thesis by simp
qed

text \<open>Stopping after as many as were counted leaves none out: the loop of \<open>poll.c\<close> reads what one over the ready descriptors reads.\<close>

lemma poll_read_epoll_read:
  assumes "length rvs = N" "seen + length (filter (\<lambda>j. rvs ! j) [i..<N]) = rv" "i \<le> N"
  shows "poll_read N rvs rv i seen ps out = epoll_read (filter (\<lambda>j. rvs ! j) [i..<N]) ps out"
  using assms
proof (induction N rvs rv i seen ps out rule: poll_read.induct)
  case (1 N rvs rv i seen ps out)
  show ?case
  proof (cases "i < N \<and> seen < rv")
    case True
    then have "[i..<N] = i # [i + 1..<N]" by (simp add: upt_conv_Cons)
    then show ?thesis using True 1 by (subst poll_read.simps) (auto split: option.splits)
  next
    case False
    then have "filter (\<lambda>j. rvs ! j) [i..<N] = []" using 1(4) by (cases "i < N") auto
    then show ?thesis using False by (subst poll_read.simps) (auto simp only: epoll_read.simps if_False)
  qed
qed

section \<open>Properties\<close>

definition writer_byte :: "nat \<Rightarrow> nat \<Rightarrow> nat \<Rightarrow> nat \<Rightarrow> nat \<Rightarrow> nat" where
  "writer_byte base m N M i = base + owner N M i mod m"

text \<open>The writers' programs, none of which overflows, run in an interleaving of which the first part precedes the return of the parent's call.\<close>

definition demo_trace :: "nat \<Rightarrow> nat \<Rightarrow> nat \<Rightarrow> nat \<Rightarrow> (nat \<times> nat) list \<Rightarrow> (nat \<times> nat) list \<Rightarrow> bool" where
  "demo_trace base m N M bef aft \<longleftrightarrow>
     (\<exists>progs. list_all2 (\<lambda>w p. writer_prog base m N M w = Inr p) [0..<M] progs \<and> interleaved progs (bef @ aft))"

lemma demo_trace_mset:
  assumes "demo_trace base m N M bef aft" "0 < N" "0 < M" "int (M * N) \<le> INT_MAX"
  shows "mset (bef @ aft) = mset (map (\<lambda>i. (i, writer_byte base m N M i)) [0..<N])"
proof -
  obtain progs where p: "list_all2 (\<lambda>w p. writer_prog base m N M w = Inr p) [0..<M] progs" "interleaved progs (bef @ aft)"
    using assms(1) by (auto simp: demo_trace_def)
  have "progs = map (\<lambda>w. map (\<lambda>i. (i, writer_byte base m N M i)) [(w * N) div M..<((w + 1) * N) div M]) [0..<M]"
  proof (rule nth_equalityI)
    show len: "length progs = length (map (\<lambda>w. map (\<lambda>i. (i, writer_byte base m N M i)) [(w * N) div M..<((w + 1) * N) div M]) [0..<M])"
      using list_all2_lengthD [OF p(1)] by simp
    fix w
    assume "w < length progs"
    then show "progs ! w = map (\<lambda>w. map (\<lambda>i. (i, writer_byte base m N M i)) [(w * N) div M..<((w + 1) * N) div M]) [0..<M] ! w"
      using list_all2_nthD2 [OF p(1)] writer_prog_owner [OF assms(2,3) _ assms(4), of w base m] len by (simp add: writer_byte_def)
  qed
  then have "concat progs = map (\<lambda>i. (i, writer_byte base m N M i)) [0..<N]" using writers_cover [OF assms(2,3)] by simp
  then show ?thesis using interleaved_mset [OF p(2)] by simp
qed

definition ready_pipes :: "nat \<Rightarrow> (nat \<times> nat) list \<Rightarrow> nat list" where
  "ready_pipes N bef = filter (\<lambda>i. i \<in> fst ` set bef) [0..<N]"

lemma run_writes_before:
  assumes "mset (bef @ aft) = mset (map (\<lambda>i. (i, f i)) [0..<N])"
  shows "run_writes bef (replicate N []) = Inr (map (\<lambda>i. if i \<in> fst ` set bef then [f i] else []) [0..<N])"
    "run_writes aft (replicate N []) = Inr (map (\<lambda>i. if i \<in> fst ` set bef then [] else [f i]) [0..<N])"
  using written_complete(2) [OF assms] written_part [OF assms] by (simp_all add: run_writes_eq)

text \<open>
  For any interleaving of the writers and any moment at which \<open>poll\<close> returns, \<open>poll.c\<close> reads, without blocking, exactly the bytes written so far, each from
  its pipe and with the value of the writer the pipe belongs to, although its loop stops after the number \<open>poll\<close> counted; and afterwards every other pipe gets its
  one byte, which nobody reads. Every pipe belongs to one writer, for all numbers of pipes and writers whose product is an \<open>int\<close>.
\<close>

theorem poll_demo_reads_ready:
  assumes "N = arg_or 1000 argN" "M = arg_or 10 argM" "int (M * N) \<le> INT_MAX" "demo_trace 97 26 N M bef aft"
  shows "\<exists>ps. poll_main argN argM \<lparr>bad_pipe = None, bad_fork = None, wait_fails = False, before = bef\<rparr> =
      Inr (Some (0, map (\<lambda>i. (i, writer_byte 97 26 N M i)) (ready_pipes N bef), ps)) \<and>
    ps = replicate N [] \<and> run_writes aft ps = Inr (map (\<lambda>i. if i \<in> set (ready_pipes N bef) then [] else [writer_byte 97 26 N M i]) [0..<N])"
proof -
  let ?f = "writer_byte 97 26 N M"
  have pos: "0 < N" "0 < M" using assms(1,2) by (auto simp: arg_or_def Let_def split: option.splits)
  note ms = demo_trace_mset [OF assms(4) pos assms(3)]
  let ?ps = "map (\<lambda>i. if i \<in> fst ` set bef then [?f i] else []) [0..<N]"
  have rdy: "filter (\<lambda>j. poll_revents ?ps ! j) [0..<N] = ready_pipes N bef"
    unfolding ready_pipes_def poll_revents_def by (rule filter_cong) (simp_all split: if_splits)
  have rv: "poll_rv (poll_revents ?ps) = length (ready_pipes N bef)"
    by (simp add: poll_rv_def poll_revents_def ready_pipes_def filter_map comp_def if_distrib cong: filter_cong)
  have "poll_read N (poll_revents ?ps) (poll_rv (poll_revents ?ps)) 0 0 ?ps [] = epoll_read (ready_pipes N bef) ?ps []"
    using poll_read_epoll_read [of "poll_revents ?ps" N 0 0 "poll_rv (poll_revents ?ps)" ?ps "[]"] rdy rv by (simp add: poll_revents_def)
  also have "\<dots> = Some (map (\<lambda>i. (i, ?f i)) (ready_pipes N bef), replicate N [])"
    by (rule epoll_read_all_ready) (auto simp: ready_pipes_def)
  finally show ?thesis using run_writes_before [OF ms] assms(1,2)
    by (auto simp: poll_main_def fails_below_def Let_def ready_pipes_def)
qed

text \<open>The smallest traffic: two pipes, one writer, and \<open>poll\<close> returns between its two writes.\<close>

lemma small_trace: "demo_trace 97 26 2 1 [(0, 97)] [(1, 97)]"
proof -
  have "writer_prog 97 26 2 1 0 = Inr [(0, 97), (1, 97)]" by (simp add: writer_prog_def upt_rec)
  moreover have "interleaved [[(0, 97), (1, 97)]] ([(0 :: nat, 97 :: nat)] @ [(1, 97)])"
    by (simp, rule interleaved.step [of 0], simp, simp, rule interleaved.step [of 0], simp, simp, rule interleaved.finished) simp
  ultimately show ?thesis unfolding demo_trace_def by (intro exI [of _ "[[(0, 97), (1, 97)]]"]) (simp add: upt_rec)
qed

theorem poll_demo_reads_ready_witness:
  "\<exists>ps. poll_main (Some 2) (Some 1) \<lparr>bad_pipe = None, bad_fork = None, wait_fails = False, before = [(0, 97)]\<rparr> = Inr (Some (0, [(0, 97)], ps)) \<and> ps = [[], []] \<and>
    run_writes [(1, 97)] ps = Inr [[], [97]]"
  using poll_demo_reads_ready [of 2 "Some 2" 1 "Some 1", OF _ _ _ small_trace]
  by (simp add: arg_or_def ready_pipes_def writer_byte_def owner_def upt_rec numeral_2_eq_2)

text \<open>\<open>epoll.c\<close> likewise reads every ready pipe once, in the order of the events.\<close>

lemma epoll_demo_reads_ready:
  assumes "N = arg_or 1000 argN" "M = arg_or 10 argM" "int (M * N) \<le> INT_MAX" "demo_trace 48 10 N M bef aft"
    "distinct events" "set events = set (ready_pipes N bef)"
  shows "epoll_main argN argM False None events \<lparr>bad_pipe = None, bad_fork = None, wait_fails = False, before = bef\<rparr> =
      Inr (Some (0, map (\<lambda>i. (i, writer_byte 48 10 N M i)) events, replicate N []))"
proof -
  let ?f = "writer_byte 48 10 N M"
  have pos: "0 < N" "0 < M" using assms(1,2) by (auto simp: arg_or_def Let_def split: option.splits)
  note ms = demo_trace_mset [OF assms(4) pos assms(3)]
  let ?ps = "map (\<lambda>i. if i \<in> fst ` set bef then [?f i] else []) [0..<N]"
  have "epoll_read events ?ps [] = Some (map (\<lambda>i. (i, ?f i)) events, replicate N [])"
    using assms(5) by (rule epoll_read_all_ready) (auto simp: assms(6) ready_pipes_def)
  then show ?thesis using run_writes_before(1) [OF ms] assms(1,2) by (simp add: epoll_main_def fails_below_def Let_def)
qed

text \<open>With more than \<open>INT_MAX\<close> pairs of writers and pipes the product in the shares overflows.\<close>

lemma writer_prog_overflow: "writer_prog 97 26 1000000 3000 2999 = Inl IntOverflow"
  by (simp add: writer_prog_def)

section \<open>The program with select\<close>

text \<open>A pipe is now its unread bytes and whether the child still holds the writing end; the parent closes its own before it waits.\<close>

type_synonym spipe = "nat list \<times> bool"

definition select_count :: "int option \<Rightarrow> nat" where
  "select_count arg = (case arg of None \<Rightarrow> 3 | Some v \<Rightarrow> if v = 3 \<or> v = 5 then nat v else 3)"

datatype child_step = Write nat bool | Close nat

text \<open>The child writes to every pipe, whether or not a write succeeds, and closes it.\<close>

definition select_child :: "nat \<Rightarrow> (nat \<Rightarrow> bool) \<Rightarrow> child_step list" where
  "select_child N ok = concat (map (\<lambda>i. [Write i (ok i), Close i]) [0..<N])"

fun child_run :: "child_step list \<Rightarrow> spipe list \<Rightarrow> spipe list" where
  "child_run [] ps = ps"
| "child_run (Write i ok # ws) ps = child_run ws (if ok then ps[i := (fst (ps ! i) @ [65 + i], snd (ps ! i))] else ps)"
| "child_run (Close i # ws) ps = child_run ws (ps[i := (fst (ps ! i), False)])"

definition select_maxfd :: "int list \<Rightarrow> int" where
  "select_maxfd rds = foldl (\<lambda>m fd. if m < fd then fd else m) 0 rds"

text \<open>\<open>select\<close> looks at the descriptors below its first argument; a pipe is ready when a read would not block.\<close>

definition select_ready :: "int list \<Rightarrow> spipe list \<Rightarrow> nat \<Rightarrow> bool" where
  "select_ready rds ps i \<longleftrightarrow> rds ! i < select_maxfd rds + 1 \<and> (fst (ps ! i) \<noteq> [] \<or> \<not> snd (ps ! i))"

text \<open>A line of output is the descriptor, the byte or a question mark, and the number of bytes read.\<close>

definition select_read :: "int list \<Rightarrow> spipe list \<Rightarrow> (int \<times> nat \<times> nat) list" where
  "select_read rds ps =
     map (\<lambda>i. case fst (ps ! i) of c # _ \<Rightarrow> (rds ! i, c, 1) | [] \<Rightarrow> (rds ! i, 63, 0)) (filter (select_ready rds ps) [0..<length ps])"

text \<open>\<open>select\<close> returns after the first \<open>t\<close> steps of the child; the result is the exit code and the lines.\<close>

definition select_main :: "int option \<Rightarrow> int list \<Rightarrow> (nat \<Rightarrow> bool) \<Rightarrow> nat option \<Rightarrow> bool \<Rightarrow> bool \<Rightarrow> nat \<Rightarrow> int \<times> (int \<times> nat \<times> nat) list" where
  "select_main arg rds ok pipe_fails fork_fails select_fails t =
     (let N = select_count arg in
      if fails_below N pipe_fails \<or> fork_fails then (1, [])
      else if select_fails then (0, [])
      else (0, select_read rds (child_run (take t (select_child N ok)) (replicate N ([], True)))))"

lemma select_maxfd_ge: "fd \<in> set rds \<Longrightarrow> fd \<le> select_maxfd rds"
proof -
  have "m \<le> foldl (\<lambda>m fd. if m < fd then fd else m) m rds \<and> (\<forall>fd \<in> set rds. fd \<le> foldl (\<lambda>m fd. if m < fd then fd else m) m rds)" for m :: int
  proof (induction rds arbitrary: m)
    case (Cons fd rds)
    show ?case using Cons.IH [of fd] Cons.IH [of m] by (cases "m < fd") simp_all
  qed simp
  then show "fd \<in> set rds \<Longrightarrow> fd \<le> select_maxfd rds" by (simp add: select_maxfd_def)
qed

lemma child_run_append: "child_run (xs @ ys) ps = child_run ys (child_run xs ps)"
  by (induction xs ps rule: child_run.induct) simp_all

lemma select_child_nth:
  "t < 2 * N \<Longrightarrow> length (select_child N ok) = 2 * N \<and> select_child N ok ! t = (if even t then Write (t div 2) (ok (t div 2)) else Close (t div 2))"
proof (induction N)
  case (Suc N)
  have app: "select_child (Suc N) ok = select_child N ok @ [Write N (ok N), Close N]" by (simp add: select_child_def)
  have len: "length (select_child N ok) = 2 * N" by (simp add: select_child_def length_concat comp_def sum_list_triv)
  show ?case
  proof (cases "t < 2 * N")
    case True
    then show ?thesis using Suc.IH len app by (simp add: nth_append)
  next
    case False
    then have "t = 2 * N \<or> t = 2 * N + 1" using Suc.prems by arith
    then show ?thesis using len app by (auto simp: nth_append)
  qed
qed simp

lemma child_run_take:
  assumes "t \<le> 2 * N"
  shows "child_run (take t (select_child N ok)) (replicate N ([], True)) = map (\<lambda>i. (if 2 * i < t \<and> ok i then [65 + i] else [], \<not> 2 * i + 1 < t)) [0..<N]"
  using assms
proof (induction t)
  case 0
  then show ?case by (auto intro: nth_equalityI)
next
  case (Suc t)
  have "take (Suc t) (select_child N ok) = take t (select_child N ok) @ [select_child N ok ! t]"
    using select_child_nth [of t N ok] Suc.prems by (simp add: take_Suc_conv_app_nth)
  moreover have half: "2 * x < Suc (2 * b) \<longleftrightarrow> x < b \<or> x = b" for x b :: nat by arith
  ultimately show ?case using Suc select_child_nth [of t N ok]
    by (auto simp: child_run_append nth_list_update half elim!: evenE oddE intro!: nth_equalityI)
qed

text \<open>
  Whenever \<open>select\<close> returns, the program prints a line for just the pipes the child has written or closed: the byte if the write succeeded, and a question mark otherwise.
\<close>

lemma select_demo_output:
  assumes "N = select_count arg" "length rds = N" "t \<le> 2 * N"
  shows "select_main arg rds ok None False False t = (0,
    map (\<lambda>i. if ok i then (rds ! i, 65 + i, 1) else (rds ! i, 63, 0)) (filter (\<lambda>i. 2 * i < t \<and> ok i \<or> 2 * i + 1 < t) [0..<N]))"
proof -
  let ?ps = "map (\<lambda>i. (if 2 * i < t \<and> ok i then [65 + i] else [], \<not> 2 * i + 1 < t)) [0..<N]"
  have "select_ready rds ?ps i = (2 * i < t \<and> ok i \<or> 2 * i + 1 < t)" if "i < N" for i
    using that select_maxfd_ge [of "rds ! i" rds] assms(2) by (auto simp: select_ready_def)
  then have "filter (select_ready rds ?ps) [0..<N] = filter (\<lambda>i. 2 * i < t \<and> ok i \<or> 2 * i + 1 < t) [0..<N]" by (intro filter_cong) simp_all
  then show ?thesis unfolding select_main_def Let_def assms(1) [symmetric] child_run_take [OF assms(3)]
    by (auto simp: select_read_def fails_below_def)
qed

end
