(* ===== verification/Cat_Files.thy ===== *)
theory Cat_Files
  imports Prelude
begin

text \<open>
  \<open>pollMechanisms/io_uring/cat_io_uring.c\<close>: copying files to \<open>/dev/null\<close> with \<open>read\<close> and \<open>write\<close>, and with an io_uring. The operating system's choices are part of the
  state: how many bytes each \<open>read\<close> and \<open>write\<close> moves and which of them fail; for the ring, which reads complete when, and how many bytes each delivers. A file is the
  list of its bytes. The timing of the runs is left out.
\<close>

section \<open>Copying with read and write\<close>

definition BLOCK_SIZE :: nat where "BLOCK_SIZE = 65536"

datatype io_error = Interrupted | HardError

type_synonym content = "8 word list"

record cat_io =
  rd_ans :: "(io_error + nat) list"
  wr_ans :: "(io_error + nat) list"
  copied :: content
  perrors :: "string list"

text \<open>
  \<open>read\<close> of up to a block: an answer \<open>Inr m\<close> allows \<open>m\<close> bytes, at least one unless the file is at its end. With no answer left all that fits is read.
  The result is the bytes read and the rest of the file.
\<close>

definition cat_read :: "content \<Rightarrow> cat_io \<Rightarrow> (io_error + content \<times> content) \<times> cat_io" where
  "cat_read rest io =
     (case rd_ans io of
        [] \<Rightarrow> (Inr (take BLOCK_SIZE rest, drop BLOCK_SIZE rest), io)
      | Inl e # as \<Rightarrow> (Inl e, io\<lparr>rd_ans := as\<rparr>)
      | Inr m # as \<Rightarrow> let n = min BLOCK_SIZE (max 1 m) in (Inr (take n rest, drop n rest), io\<lparr>rd_ans := as\<rparr>))"

definition cat_write :: "content \<Rightarrow> cat_io \<Rightarrow> (io_error + nat) \<times> cat_io" where
  "cat_write bs io =
     (case wr_ans io of
        [] \<Rightarrow> (Inr (length bs), io\<lparr>copied := copied io @ bs\<rparr>)
      | Inl e # as \<Rightarrow> (Inl e, io\<lparr>wr_ans := as\<rparr>)
      | Inr m # as \<Rightarrow> (Inr (min m (length bs)), io\<lparr>wr_ans := as, copied := copied io @ take m bs\<rparr>))"

text \<open>The loop that writes a buffer; \<open>False\<close> is the exit after a failed write.\<close>

function write_all :: "content \<Rightarrow> nat \<Rightarrow> cat_io \<Rightarrow> bool \<times> cat_io" where
  "write_all buf off io =
     (if off < length buf then
        (case cat_write (drop off buf) io of
           (Inl Interrupted, io) \<Rightarrow> write_all buf off io
         | (Inl HardError, io) \<Rightarrow> (False, io\<lparr>perrors := perrors io @ [''write'']\<rparr>)
         | (Inr w, io) \<Rightarrow> write_all buf (off + w) io)
      else (True, io))"
  by pat_completeness auto
termination
  by (relation "measures [\<lambda>(buf, off, io). length (wr_ans io), \<lambda>(buf, off, io). length buf - off]")
    (auto simp: cat_write_def split: list.splits sum.splits)

declare write_all.simps [simp del]

lemma cat_read_parts: "cat_read rest io = (Inr (buf, rest'), io') \<Longrightarrow> buf @ rest' = rest \<and> (buf = [] \<longrightarrow> rest = []) \<and> copied io' = copied io \<and> wr_ans io' = wr_ans io"
  by (auto simp: cat_read_def BLOCK_SIZE_def Let_def split: list.splits sum.splits)

function copy_file :: "content \<Rightarrow> cat_io \<Rightarrow> bool \<times> cat_io" where
  "copy_file rest io =
     (case cat_read rest io of
        (Inl e, io) \<Rightarrow> (True, io\<lparr>perrors := perrors io @ [''read'']\<rparr>)
      | (Inr (buf, rest'), io) \<Rightarrow>
          if buf = [] then (True, io)
          else let (ok, io) = write_all buf 0 io in if \<not> ok then (False, io) else copy_file rest' io)"
  by pat_completeness auto
termination
proof (relation "measure (\<lambda>(rest, io). length rest)")
  fix rest io x io1 y buf rest' ok io2
  assume "(x, io1) = cat_read rest io" "x = Inr y" "(buf, rest') = y" "buf \<noteq> []"
  then have "buf @ rest' = rest" using cat_read_parts [of rest io buf rest' io1] by simp
  then show "((rest', io2), (rest, io)) \<in> measure (\<lambda>(rest, io). length rest)" using \<open>buf \<noteq> []\<close> by auto
qed simp

declare copy_file.simps [simp del]

text \<open>\<open>cat_traditional_multi\<close> over the files; a file that cannot be opened is \<open>None\<close>. The result is whether the function returns, rather than ending the program.\<close>

fun cat_files :: "content option list \<Rightarrow> cat_io \<Rightarrow> bool \<times> cat_io" where
  "cat_files [] io = (True, io)"
| "cat_files (None # fs) io = (False, io\<lparr>perrors := perrors io @ [''open'']\<rparr>)"
| "cat_files (Some f # fs) io = (let (ok, io) = copy_file f io in if \<not> ok then (False, io) else cat_files fs io)"

definition cat_traditional_multi :: "bool \<Rightarrow> bool \<Rightarrow> content option list \<Rightarrow> cat_io \<Rightarrow> bool \<times> cat_io" where
  "cat_traditional_multi devnull_ok malloc_ok fs io =
     (if \<not> devnull_ok then (False, io\<lparr>perrors := perrors io @ [''open /dev/null'']\<rparr>)
      else if \<not> malloc_ok then (False, io\<lparr>perrors := perrors io @ [''malloc'']\<rparr>)
      else cat_files fs io)"

text \<open>\<open>cat_traditional\<close> does not look at what \<open>write\<close> returns.\<close>

function cat_simple_loop :: "content \<Rightarrow> cat_io \<Rightarrow> cat_io" where
  "cat_simple_loop rest io =
     (case cat_read rest io of
        (Inl e, io) \<Rightarrow> io
      | (Inr (buf, rest'), io) \<Rightarrow> if buf = [] then io else cat_simple_loop rest' (snd (cat_write buf io)))"
  by pat_completeness auto
termination
proof (relation "measure (\<lambda>(rest, io). length rest)")
  fix rest io x io1 y buf rest'
  assume "(x, io1) = cat_read rest io" "x = Inr y" "(buf, rest') = y" "buf \<noteq> []"
  then have "buf @ rest' = rest" using cat_read_parts [of rest io buf rest' io1] by simp
  then show "((rest', snd (cat_write buf io1)), (rest, io)) \<in> measure (\<lambda>(rest, io). length rest)" using \<open>buf \<noteq> []\<close> by auto
qed simp

declare cat_simple_loop.simps [simp del]

definition cat_traditional :: "content option \<Rightarrow> cat_io \<Rightarrow> bool \<times> cat_io" where
  "cat_traditional f io =
     (case f of None \<Rightarrow> (False, io\<lparr>perrors := perrors io @ [''open'']\<rparr>) | Some f \<Rightarrow> (True, cat_simple_loop f io))"

section \<open>Copying with a ring: one read per file and round\<close>

definition QUEUE_DEPTH :: nat where "QUEUE_DEPTH = 128"

record io_task =
  t_open :: bool
  t_offset :: nat
  t_buf :: content

text \<open>
  Reads in flight are pairs of a file and an offset. A completion event names a read in flight by its position and the number of bytes the kernel allows; it puts the
  bytes into the buffer of the file and queues an entry with the file and the number of bytes. What is written is recorded with the file it comes from.
\<close>

record uring =
  tasks :: "io_task list"
  in_flight :: "(nat \<times> nat) list"
  cqes :: "(nat \<times> nat) list"
  active :: int
  ring_out :: "(nat \<times> content) list"

text \<open>The loop that submits; it stops when the ring has no free entry.\<close>

fun submit_reads :: "nat \<Rightarrow> nat \<Rightarrow> nat \<Rightarrow> nat \<Rightarrow> uring \<Rightarrow> uring" where
  "submit_reads bs i 0 free u = u"
| "submit_reads bs i (Suc n) free u =
     (if \<not> t_open (tasks u ! i) then submit_reads bs (i + 1) n free u
      else if free = 0 then u
      else submit_reads bs (i + 1) n (free - 1)
        (u\<lparr>in_flight := in_flight u @ [(i, t_offset (tasks u ! i))], tasks := (tasks u)[i := (tasks u ! i)\<lparr>t_offset := t_offset (tasks u ! i) + bs\<rparr>]\<rparr>))"

definition kernel_complete :: "nat \<Rightarrow> content list \<Rightarrow> nat \<times> nat \<Rightarrow> uring \<Rightarrow> uring" where
  "kernel_complete bs files c u =
     (let (j, cap) = c in
      if j < length (in_flight u) then
        let (i, off) = in_flight u ! j;
            got = take (min bs cap) (drop off (files ! i))
        in u\<lparr>in_flight := take j (in_flight u) @ drop (j + 1) (in_flight u), cqes := cqes u @ [(i, length got)],
             tasks := (tasks u)[i := (tasks u ! i)\<lparr>t_buf := got @ drop (length got) (t_buf (tasks u ! i))\<rparr>]\<rparr>
      else u)"

text \<open>The loop that collects: it takes the entries that are there, at most as many as there are files.\<close>

fun collect :: "nat \<Rightarrow> uring \<Rightarrow> uring" where
  "collect 0 u = u"
| "collect (Suc n) u =
     (case cqes u of
        [] \<Rightarrow> u
      | (i, res) # cs \<Rightarrow>
          let u = u\<lparr>cqes := cs\<rparr> in
          collect n (if 0 < res then u\<lparr>ring_out := ring_out u @ [(i, take res (t_buf (tasks u ! i)))]\<rparr>
                     else u\<lparr>tasks := (tasks u)[i := (tasks u ! i)\<lparr>t_open := False\<rparr>], active := active u - 1\<rparr>))"

definition ring_round :: "nat \<Rightarrow> content list \<Rightarrow> (nat \<times> nat) list \<Rightarrow> uring \<Rightarrow> uring" where
  "ring_round bs files events u =
     collect (length files) (fold (kernel_complete bs files) events (submit_reads bs 0 (length files) QUEUE_DEPTH u))"

text \<open>The outer loop, with the completions of each round; it does not end as long as there are rounds and active files.\<close>

fun ring_loop :: "nat \<Rightarrow> content list \<Rightarrow> (nat \<times> nat) list list \<Rightarrow> uring \<Rightarrow> uring option" where
  "ring_loop bs files rounds u =
     (if active u \<le> 0 then Some u
      else case rounds of [] \<Rightarrow> None | ev # evs \<Rightarrow> ring_loop bs files evs (ring_round bs files ev u))"

declare ring_loop.simps [simp del]

definition ring_start :: "nat \<Rightarrow> content list \<Rightarrow> uring" where
  "ring_start bs files =
     \<lparr>tasks = replicate (length files) \<lparr>t_open = True, t_offset = 0, t_buf = replicate bs 0\<rparr>, in_flight = [], cqes = [], active = int (length files), ring_out = []\<rparr>"

text \<open>A file that cannot be opened ends the program with the code 1.\<close>

definition cat_io_uring_multi :: "content option list \<Rightarrow> (nat \<times> nat) list list \<Rightarrow> int + uring option" where
  "cat_io_uring_multi fs rounds =
     (if None \<in> set fs then Inl 1 else let files = map the fs in Inr (ring_loop BLOCK_SIZE files rounds (ring_start BLOCK_SIZE files)))"

section \<open>Copying one file with batches of reads\<close>

text \<open>A batch reads \<open>QUEUE_DEPTH\<close> blocks; the completions arrive in the order of the kernel, and the collection ends at the first that delivers nothing.
  A read delivers what the file has in its block.\<close>

fun collect_batch :: "(nat \<times> content) list \<Rightarrow> nat \<Rightarrow> content \<Rightarrow> nat \<times> content" where
  "collect_batch [] completed out = (completed, out)"
| "collect_batch ((i, got) # cs) completed out = (if got = [] then (completed, out) else collect_batch cs (completed + 1) (out @ got))"

definition batch_reads :: "nat \<Rightarrow> nat \<Rightarrow> content \<Rightarrow> nat \<Rightarrow> content list" where
  "batch_reads bs depth f off = map (\<lambda>i. take bs (drop (off + i * bs) f)) [0..<depth]"

lemma collect_batch_some: "collect_batch cs c out = (c', out') \<Longrightarrow> c < c' \<Longrightarrow> \<exists>i got. (i, got) \<in> set cs \<and> got \<noteq> []"
  by (cases "(cs, c, out)" rule: collect_batch.cases) (auto split: if_splits)

text \<open>\<open>ord\<close> gives the order in which the reads of a batch complete.\<close>

function uring_batches :: "nat \<Rightarrow> nat \<Rightarrow> (nat \<Rightarrow> nat list) \<Rightarrow> content \<Rightarrow> nat \<Rightarrow> nat \<Rightarrow> content \<Rightarrow> content" where
  "uring_batches bs depth ord f b off out =
     (let reads = batch_reads bs depth f off;
          (completed, out) = collect_batch (map (\<lambda>i. (i, reads ! i)) (filter (\<lambda>i. i < depth) (ord b))) 0 out
      in if depth = 0 \<or> bs = 0 \<or> completed < depth then out else uring_batches bs depth ord f (b + 1) (off + depth * bs) out)"
  by pat_completeness auto
termination
proof (relation "measure (\<lambda>(bs, depth, ord, f, b, off, out). length f - off)")
  fix bs depth b off :: nat and ord f out reads x completed out'
  assume a: "reads = batch_reads bs depth f off" "x = collect_batch (map (\<lambda>i. (i, reads ! i)) (filter (\<lambda>i. i < depth) (ord b))) 0 out"
    "(completed, out') = x" "\<not> (depth = 0 \<or> bs = 0 \<or> completed < depth)"
  then obtain i where "i < depth" "reads ! i \<noteq> []"
    using collect_batch_some [of "map (\<lambda>i. (i, reads ! i)) (filter (\<lambda>i. i < depth) (ord b))" 0 out completed out'] by auto
  then have "off < length f" using a(1) by (simp add: batch_reads_def)
  moreover have "0 < depth * bs" using a(4) by simp
  ultimately have "length f - (off + depth * bs) < length f - off" by (intro diff_less_mono2) simp_all
  then show "((bs, depth, ord, f, b + 1, off + depth * bs, out'), bs, depth, ord, f, b, off, out) \<in> measure (\<lambda>(bs, depth, ord, f, b, off, out). length f - off)"
    by simp
qed simp

declare uring_batches.simps [simp del]

definition cat_io_uring :: "content option \<Rightarrow> (nat \<Rightarrow> nat list) \<Rightarrow> int + content" where
  "cat_io_uring f ord = (case f of None \<Rightarrow> Inl 1 | Some f \<Rightarrow> Inr (uring_batches BLOCK_SIZE QUEUE_DEPTH ord f 0 0 []))"

section \<open>Lemmas\<close>

definition io_soft :: "cat_io \<Rightarrow> bool" where
  "io_soft io \<longleftrightarrow> list_all (\<lambda>a. \<not> isl a) (rd_ans io) \<and> list_all (\<lambda>a. a \<noteq> Inl HardError) (wr_ans io)"

lemma write_all_soft:
  assumes "io_soft io" "off \<le> length buf"
  shows "\<exists>io'. write_all buf off io = (True, io') \<and> io_soft io' \<and> copied io' = copied io @ drop off buf"
  using assms
proof (induction buf off io rule: write_all.induct)
  case (1 buf off io)
  show ?case
  proof (cases "off < length buf")
    case True
    obtain r io1 where w: "cat_write (drop off buf) io = (r, io1)" by fastforce
    show ?thesis
    proof (cases r)
      case (Inl e)
      then have "e = Interrupted" "io_soft io1" "copied io1 = copied io"
        using w 1(3) by (cases e; auto simp: cat_write_def io_soft_def split: list.splits sum.splits)+
      then show ?thesis using 1(1) [OF True w [symmetric]] 1(4) Inl True w by (subst write_all.simps) simp
    next
      case (Inr n)
      then have n: "n \<le> length buf - off" "io_soft io1" "copied io1 = copied io @ take n (drop off buf)"
        using w 1(3) by (auto simp: cat_write_def io_soft_def min_def split: list.splits sum.splits if_splits)
      moreover have "take n (drop off buf) @ drop (off + n) buf = drop off buf" by (metis add.commute append_take_drop_id drop_drop)
      ultimately show ?thesis using 1(2) [OF True w [symmetric] Inr] True w Inr by (subst write_all.simps) simp
    qed
  next
    case False
    then show ?thesis using 1 by (subst write_all.simps) simp
  qed
qed

lemma copy_file_soft:
  assumes "io_soft io"
  shows "\<exists>io'. copy_file rest io = (True, io') \<and> io_soft io' \<and> copied io' = copied io @ rest"
  using assms
proof (induction rest io rule: copy_file.induct)
  case (1 rest io)
  obtain r io1 where r: "cat_read rest io = (r, io1)" by fastforce
  then obtain buf rest' where b: "r = Inr (buf, rest')" and s: "io_soft io1"
    using 1(2) by (auto simp: cat_read_def io_soft_def Let_def split: list.splits sum.splits)
  have p: "buf @ rest' = rest" "buf = [] \<longrightarrow> rest = []" "copied io1 = copied io" using cat_read_parts [of rest io buf rest' io1] r b by simp_all
  obtain io2 where w: "write_all buf 0 io1 = (True, io2)" "io_soft io2" "copied io2 = copied io1 @ buf" using write_all_soft [OF s, of 0 buf] by auto
  show ?case
  proof (cases "buf = []")
    case False
    then show ?thesis using 1(1) [OF r [symmetric] b refl _ w(1) [symmetric]] r b w p by (subst copy_file.simps) auto
  qed (use r b p s in \<open>subst copy_file.simps, simp\<close>)
qed

section \<open>Properties of the plain copies\<close>

lemma cat_multi_copies_aux:
  assumes "io_soft io"
  shows "\<exists>io'. cat_traditional_multi True True (map Some fs) io = (True, io') \<and> copied io' = copied io @ concat fs"
proof -
  have "\<exists>io'. cat_files (map Some fs) io = (True, io') \<and> copied io' = copied io @ concat fs" using assms
  proof (induction fs arbitrary: io)
    case (Cons f fs)
    obtain io1 where "copy_file f io = (True, io1)" "io_soft io1" "copied io1 = copied io @ f" using copy_file_soft [OF Cons.prems, of f] by auto
    then show ?case using Cons.IH [of io1] by auto
  qed simp
  then show ?thesis by (simp add: cat_traditional_multi_def)
qed

text \<open>
  Claim C36: \<open>cat_traditional_multi\<close> copies its files exactly, one after the other, however the operating system splits the reads and writes and however often a write is
  interrupted, as long as no call fails for good.
\<close>

theorem cat_multi_copies:
  assumes "io_soft io"
  shows "\<exists>io'. cat_traditional_multi True True (map Some fs) io = (True, io') \<and> copied io' = copied io @ concat fs"
  using assms by (rule cat_multi_copies_aux)

theorem cat_multi_copies_witness:
  "\<exists>io'. cat_traditional_multi True True (map Some [[1, 2, 3], [4]]) \<lparr>rd_ans = [Inr 2, Inr 0], wr_ans = [Inl Interrupted, Inr 1, Inr 0], copied = [], perrors = []\<rparr> = (True, io') \<and>
    copied io' = [1, 2, 3, 4]"
  using cat_multi_copies [of "\<lparr>rd_ans = [Inr 2, Inr 0], wr_ans = [Inl Interrupted, Inr 1, Inr 0], copied = [], perrors = []\<rparr>" "[[1, 2, 3], [4]]"]
  by (simp add: io_soft_def)

text \<open>\<open>cat_traditional\<close> loses what a short write leaves over, and an interrupted write loses a block.\<close>

lemma cat_traditional_loses:
  "copied (snd (cat_traditional (Some [1, 2, 3]) \<lparr>rd_ans = [], wr_ans = [Inr 1], copied = [], perrors = []\<rparr>)) = [1]"
  by (simp add: cat_traditional_def cat_simple_loop.simps cat_read_def cat_write_def BLOCK_SIZE_def)

section \<open>Properties of the copies with a ring\<close>

lemma collect_in_order:
  assumes "j \<le> depth"
  shows "\<exists>c'. collect_batch (map (\<lambda>i. (i, take bs (drop (off + i * bs) f))) [j..<depth]) c out = (c', out @ take ((depth - j) * bs) (drop (off + j * bs) f)) \<and>
    (c' < c + (depth - j) \<longrightarrow> 0 < bs \<longrightarrow> length f < off + depth * bs)"
  using assms
proof (induction "depth - j" arbitrary: j c out)
  case 0
  then show ?case by simp
next
  case (Suc n)
  then have j: "j < depth" "[j..<depth] = j # [Suc j..<depth]" "n = depth - Suc j" by (simp_all add: upt_conv_Cons)
  let ?got = "take bs (drop (off + j * bs) f)"
  show ?case
  proof (cases "?got = []")
    case True
    have "bs + j * bs \<le> depth * bs" using mult_le_mono1 [of "Suc j" depth bs] j(1) by simp
    then show ?thesis using True j by (auto intro!: exI [of _ c])
  next
    case False
    have "(depth - j) * bs = bs + (depth - Suc j) * bs" using j(1) by (metis Suc_diff_Suc mult_Suc)
    then have "take ((depth - j) * bs) (drop (off + j * bs) f) = ?got @ take ((depth - Suc j) * bs) (drop (off + Suc j * bs) f)"
      by (simp add: take_add add.commute add.left_commute)
    moreover obtain c' where "collect_batch (map (\<lambda>i. (i, take bs (drop (off + i * bs) f))) [Suc j..<depth]) (c + 1) (out @ ?got) =
        (c', (out @ ?got) @ take ((depth - Suc j) * bs) (drop (off + Suc j * bs) f)) \<and> (c' < c + 1 + (depth - Suc j) \<longrightarrow> 0 < bs \<longrightarrow> length f < off + depth * bs)"
      using Suc.hyps(1) [OF j(3), of "c + 1" "out @ ?got"] j(1) by auto
    ultimately show ?thesis using False j by (auto intro!: exI [of _ c'])
  qed
qed

lemma uring_batches_in_order:
  assumes "ord = (\<lambda>b. [0..<depth])" "0 < depth" "0 < bs"
  shows "uring_batches bs depth ord f b off out = out @ drop off f"
  using assms
proof (induction bs depth ord f b off out rule: uring_batches.induct)
  case (1 bs depth ord f b off out)
  let ?cs = "map (\<lambda>i. (i, batch_reads bs depth f off ! i)) (filter (\<lambda>i. i < depth) (ord b))"
  have "?cs = map (\<lambda>i. (i, take bs (drop (off + i * bs) f))) [0..<depth]"
    using 1(2) by (auto simp: batch_reads_def filter_id_conv)
  then obtain c where c: "collect_batch ?cs 0 out = (c, out @ take (depth * bs) (drop off f))" "c < depth \<longrightarrow> length f < off + depth * bs"
    using collect_in_order [of 0 depth bs off f 0 out] 1(4) by auto
  show ?case
  proof (cases "c < depth")
    case True
    then show ?thesis using c by (subst uring_batches.simps) (simp add: Let_def)
  next
    case False
    have "uring_batches bs depth ord f (b + 1) (off + depth * bs) (out @ take (depth * bs) (drop off f)) = (out @ take (depth * bs) (drop off f)) @ drop (off + depth * bs) f"
      using 1(1) [OF refl c(1) [symmetric]] False 1(2-4) by simp
    moreover have "take (depth * bs) (drop off f) @ drop (off + depth * bs) f = drop off f" by (metis add.commute append_take_drop_id drop_drop)
    ultimately show ?thesis using c(1) False 1(3,4) by (subst uring_batches.simps) (simp add: Let_def)
  qed
qed

text \<open>When the reads of each batch complete in the order of their submission, \<open>cat_io_uring\<close> copies the file exactly.\<close>

theorem cat_io_uring_in_order: "cat_io_uring (Some f) (\<lambda>b. [0..<QUEUE_DEPTH]) = Inr f"
  by (simp add: cat_io_uring_def uring_batches_in_order QUEUE_DEPTH_def BLOCK_SIZE_def)

text \<open>
  Completions may come in another order. If the read behind the end of the file comes first, the rest of the batch is dropped and nothing is copied; if two reads are
  swapped, so are their blocks in the copy. Stated for blocks of two bytes and two reads in flight.
\<close>

lemma cat_io_uring_out_of_order:
  "uring_batches 2 2 (\<lambda>b. [1, 0]) [1, 2] 0 0 [] = []" "uring_batches 2 2 (\<lambda>b. [1, 0]) [1, 2, 3, 4] 0 0 [] = [3, 4, 1, 2]"
  by (simp_all add: uring_batches.simps batch_reads_def upt_rec Let_def)

subsection \<open>A round in which every read completes at once\<close>

definition bump :: "nat \<Rightarrow> io_task \<Rightarrow> io_task" where
  "bump bs t = (if t_open t then t\<lparr>t_offset := t_offset t + bs\<rparr> else t)"

definition open_reads :: "io_task list \<Rightarrow> nat \<Rightarrow> (nat \<times> nat) list" where
  "open_reads ts i = map (\<lambda>j. (j, t_offset (ts ! j))) (filter (\<lambda>j. t_open (ts ! j)) [i..<length ts])"

lemma submit_reads_eq:
  assumes "i + n = length (tasks u)" "n \<le> free"
  shows "submit_reads bs i n free u = u\<lparr>in_flight := in_flight u @ open_reads (tasks u) i, tasks := take i (tasks u) @ map (bump bs) (drop i (tasks u))\<rparr>"
  using assms
proof (induction n arbitrary: i free u)
  case 0
  then show ?case by (simp add: open_reads_def)
next
  case (Suc n)
  let ?t = "tasks u ! i" and ?us = "(tasks u)[i := bump bs (tasks u ! i)]"
  have i: "i < length (tasks u)" using Suc.prems(1) by simp
  have split: "take (Suc i) ?us @ map (bump bs) (drop (Suc i) ?us) = take i (tasks u) @ map (bump bs) (drop i (tasks u))"
    using i by (simp add: take_Suc_conv_app_nth Cons_nth_drop_Suc [OF i, symmetric])
  have reads: "open_reads (tasks u) i = (if t_open ?t then [(i, t_offset ?t)] else []) @ open_reads ?us (Suc i)"
    using i by (auto simp: open_reads_def upt_conv_Cons intro!: map_cong filter_cong)
  show ?case
  proof (cases "t_open ?t")
    case True
    then have "?us = (tasks u)[i := ?t\<lparr>t_offset := t_offset ?t + bs\<rparr>]" by (simp add: bump_def)
    then show ?thesis using Suc.IH [of "i + 1" "u\<lparr>in_flight := in_flight u @ [(i, t_offset ?t)], tasks := ?us\<rparr>" "free - 1"] Suc.prems True split reads by simp
  next
    case False
    then have "?us = tasks u" by (simp add: bump_def)
    then show ?thesis using Suc.IH [of "i + 1" u free] Suc.prems False split reads by simp
  qed
qed

definition read_got :: "nat \<Rightarrow> content list \<Rightarrow> nat \<times> nat \<Rightarrow> content" where
  "read_got bs files = (\<lambda>(i, off). take bs (drop off (files ! i)))"

definition set_buf :: "content \<Rightarrow> io_task \<Rightarrow> io_task" where
  "set_buf c t = t\<lparr>t_buf := c @ drop (length c) (t_buf t)\<rparr>"

text \<open>The tasks after the reads \<open>rs\<close> have completed.\<close>

definition filled :: "nat \<Rightarrow> content list \<Rightarrow> (nat \<times> nat) list \<Rightarrow> io_task list \<Rightarrow> io_task list" where
  "filled bs files rs ts = fold (\<lambda>r ts. ts[fst r := set_buf (read_got bs files r) (ts ! fst r)]) rs ts"

lemma kernel_complete_all:
  "length (in_flight u) \<le> m \<Longrightarrow> fold (kernel_complete bs files) (replicate m (0, bs)) u =
    u\<lparr>in_flight := [], cqes := cqes u @ map (\<lambda>r. (fst r, length (read_got bs files r))) (in_flight u), tasks := filled bs files (in_flight u) (tasks u)\<rparr>"
proof (induction m arbitrary: u)
  case 0
  then show ?case by (simp add: filled_def)
next
  case (Suc m)
  show ?case
  proof (cases "in_flight u")
    case Nil
    then have "kernel_complete bs files (0, bs) u = u" by (simp add: kernel_complete_def)
    then show ?thesis using Suc.IH [of u] Nil by simp
  next
    case (Cons r rs)
    obtain i off where r: "r = (i, off)" by fastforce
    have "kernel_complete bs files (0, bs) u = u\<lparr>in_flight := rs, cqes := cqes u @ [(i, length (read_got bs files r))], tasks := (tasks u)[i := set_buf (read_got bs files r) (tasks u ! i)]\<rparr>"
      using Cons r by (simp add: kernel_complete_def read_got_def set_buf_def Let_def)
    then show ?thesis using Suc.IH [of "u\<lparr>in_flight := rs, cqes := cqes u @ [(i, length (read_got bs files r))], tasks := (tasks u)[i := set_buf (read_got bs files r) (tasks u ! i)]\<rparr>"] Suc.prems Cons r
      by (simp add: filled_def)
  qed
qed

lemma update_keeps: "g x = g (ts ! j) \<Longrightarrow> g (ts[j := x] ! i) = g (ts ! i)"
  by (cases "i = j"; cases "j < length ts") (simp_all add: list_update_beyond)

lemma length_filled [simp]: "length (filled bs files rs ts) = length ts"
  by (induction rs arbitrary: ts) (simp_all add: filled_def)

lemma filled_other: "i \<notin> fst ` set rs \<Longrightarrow> filled bs files rs ts ! i = ts ! i"
  by (induction rs arbitrary: ts) (simp_all add: filled_def)

lemma filled_keeps: "t_open (filled bs files rs ts ! i) = t_open (ts ! i)" "t_offset (filled bs files rs ts ! i) = t_offset (ts ! i)"
  by (induction rs arbitrary: ts) (simp_all add: filled_def set_buf_def update_keeps [where g = t_open] update_keeps [where g = t_offset])

lemma filled_buf:
  "distinct (map fst rs) \<Longrightarrow> r \<in> set rs \<Longrightarrow> fst r < length ts \<Longrightarrow> take (length (read_got bs files r)) (t_buf (filled bs files rs ts ! fst r)) = read_got bs files r"
proof (induction rs arbitrary: ts)
  case (Cons q rs)
  let ?ts = "ts[fst q := set_buf (read_got bs files q) (ts ! fst q)]"
  have fill: "filled bs files (q # rs) ts = filled bs files rs ?ts" by (simp add: filled_def)
  show ?case
  proof (cases "r = q")
    case True
    have "filled bs files rs ?ts ! fst q = ?ts ! fst q" using Cons.prems(1) by (intro filled_other) simp
    then show ?thesis using True Cons.prems(3) fill by (simp add: set_buf_def)
  next
    case False
    then show ?thesis using Cons fill by simp
  qed
qed simp

text \<open>The tasks after the collection: those whose read delivered nothing are closed.\<close>

definition closed :: "nat \<Rightarrow> content list \<Rightarrow> (nat \<times> nat) list \<Rightarrow> io_task list \<Rightarrow> io_task list" where
  "closed bs files rs ts = fold (\<lambda>r ts. if read_got bs files r = [] then ts[fst r := (ts ! fst r)\<lparr>t_open := False\<rparr>] else ts) rs ts"

lemma length_closed [simp]: "length (closed bs files rs ts) = length ts"
  by (induction rs arbitrary: ts) (simp_all add: closed_def)

lemma closed_nth:
  "i < length ts \<Longrightarrow> t_open (closed bs files rs ts ! i) = (t_open (ts ! i) \<and> (\<forall>r \<in> set rs. fst r = i \<longrightarrow> read_got bs files r \<noteq> []))"
  "i < length ts \<Longrightarrow> t_offset (closed bs files rs ts ! i) = t_offset (ts ! i)"
proof (induction rs arbitrary: ts)
  case (Cons q rs)
  {
    case 1
    then show ?case using Cons(1) [of "if read_got bs files q = [] then ts[fst q := (ts ! fst q)\<lparr>t_open := False\<rparr>] else ts"]
      by (cases "read_got bs files q = []"; cases "i = fst q") (auto simp: closed_def)
  next
    case 2
    then show ?case using Cons(2) [of "if read_got bs files q = [] then ts[fst q := (ts ! fst q)\<lparr>t_open := False\<rparr>] else ts"]
      by (cases "read_got bs files q = []"; cases "i = fst q") (auto simp: closed_def)
  }
qed (simp_all add: closed_def)

lemma collect_all:
  assumes "cqes u = map (\<lambda>r. (fst r, length (read_got bs files r))) rs" "length rs \<le> n" "\<forall>r \<in> set rs. take (length (read_got bs files r)) (t_buf (tasks u ! fst r)) = read_got bs files r"
  shows "collect n u = u\<lparr>cqes := [], ring_out := ring_out u @ map (\<lambda>r. (fst r, read_got bs files r)) (filter (\<lambda>r. read_got bs files r \<noteq> []) rs),
    tasks := closed bs files rs (tasks u), active := active u - int (length (filter (\<lambda>r. read_got bs files r = []) rs))\<rparr>"
  using assms
proof (induction rs arbitrary: n u)
  case Nil
  then show ?case by (cases n) (simp_all add: closed_def)
next
  case (Cons r rs)
  then obtain m where n: "n = Suc m" by (cases n) auto
  show ?case
  proof (cases "read_got bs files r = []")
    case True
    have "\<forall>q \<in> set rs. take (length (read_got bs files q)) (t_buf ((tasks u)[fst r := (tasks u ! fst r)\<lparr>t_open := False\<rparr>] ! fst q)) = read_got bs files q"
      using Cons.prems(3) by (simp add: update_keeps [where g = t_buf])
    then show ?thesis
      using Cons.IH [of "u\<lparr>cqes := map (\<lambda>r. (fst r, length (read_got bs files r))) rs, tasks := (tasks u)[fst r := (tasks u ! fst r)\<lparr>t_open := False\<rparr>], active := active u - 1\<rparr>" m]
        Cons.prems n True by (simp add: closed_def)
  next
    case False
    then show ?thesis
      using Cons.IH [of "u\<lparr>cqes := map (\<lambda>r. (fst r, length (read_got bs files r))) rs, ring_out := ring_out u @ [(fst r, read_got bs files r)]\<rparr>" m] Cons.prems n
      by (simp add: closed_def)
  qed
qed

subsection \<open>All rounds\<close>

text \<open>Whether a file is still open before round \<open>r\<close>.\<close>

definition live :: "nat \<Rightarrow> nat \<Rightarrow> content \<Rightarrow> bool" where
  "live bs r f \<longleftrightarrow> r = 0 \<or> (r - 1) * bs < length f"

definition file_out :: "nat \<Rightarrow> uring \<Rightarrow> content" where
  "file_out i u = concat (map snd (filter (\<lambda>w. fst w = i) (ring_out u)))"

definition uring_inv :: "nat \<Rightarrow> content list \<Rightarrow> nat \<Rightarrow> uring \<Rightarrow> bool" where
  "uring_inv bs files r u \<longleftrightarrow>
     length (tasks u) = length files \<and> in_flight u = [] \<and> cqes u = [] \<and> active u = int (length (filter (\<lambda>i. live bs r (files ! i)) [0..<length files])) \<and>
     (\<forall>i < length files. t_open (tasks u ! i) = live bs r (files ! i) \<and> (t_open (tasks u ! i) \<longrightarrow> t_offset (tasks u ! i) = r * bs) \<and>
        file_out i u = take (r * bs) (files ! i))"

lemma live_Suc: "live bs (Suc r) f \<longleftrightarrow> r * bs < length f"
  by (simp add: live_def)

lemma live_Suc_imp: "live bs (Suc r) f \<Longrightarrow> live bs r f"
  by (cases r) (auto simp: live_def)

lemma not_live_take: "\<not> live bs r f \<Longrightarrow> take (Suc r * bs) f = take (r * bs) f"
  by (cases r) (auto simp: live_def)

lemma not_live_all: "\<not> live bs r f \<Longrightarrow> take (r * bs) f = f"
proof -
  assume "\<not> live bs r f"
  then have "length f \<le> (r - 1) * bs" by (simp add: live_def)
  also have "\<dots> \<le> r * bs" by (intro mult_le_mono1) simp
  finally show ?thesis by simp
qed

lemma uring_inv_start: "uring_inv bs files 0 (ring_start bs files)"
  by (simp add: uring_inv_def ring_start_def live_def file_out_def)

lemma pick_one: "distinct xs \<Longrightarrow> filter (\<lambda>j. j = i) xs = (if i \<in> set xs then [i] else [])"
  by (induction xs) auto

lemma ring_round_eq:
  assumes inv: "uring_inv bs files r u" and "length files \<le> QUEUE_DEPTH" and L: "L = filter (\<lambda>i. live bs r (files ! i)) [0..<length files]"
    and rs: "rs = map (\<lambda>i. (i, r * bs)) L"
  shows "ring_round bs files (replicate (length files) (0, bs)) u =
    u\<lparr>in_flight := [], cqes := [], ring_out := ring_out u @ map (\<lambda>q. (fst q, read_got bs files q)) (filter (\<lambda>q. read_got bs files q \<noteq> []) rs),
      tasks := closed bs files rs (filled bs files rs (map (bump bs) (tasks u))), active := active u - int (length (filter (\<lambda>q. read_got bs files q = []) rs))\<rparr>"
proof -
  let ?n = "length files" and ?ts = "map (bump bs) (tasks u)"
  note i = inv [unfolded uring_inv_def]
  have "open_reads (tasks u) 0 = rs" using i unfolding L rs by (auto simp: open_reads_def intro!: map_cong filter_cong)
  then have sub: "submit_reads bs 0 ?n QUEUE_DEPTH u = u\<lparr>in_flight := rs, tasks := ?ts\<rparr>"
    using submit_reads_eq [of 0 ?n u QUEUE_DEPTH bs] i assms(2) by simp
  have len: "length rs \<le> ?n" unfolding L rs using length_filter_le [of _ "[0..<?n]"] by (metis length_map length_upt minus_nat.diff_0)
  have ker: "fold (kernel_complete bs files) (replicate ?n (0, bs)) (u\<lparr>in_flight := rs, tasks := ?ts\<rparr>) =
      u\<lparr>in_flight := [], cqes := map (\<lambda>q. (fst q, length (read_got bs files q))) rs, tasks := filled bs files rs ?ts\<rparr>"
    using kernel_complete_all [of "u\<lparr>in_flight := rs, tasks := ?ts\<rparr>" ?n bs files] len i by simp
  have "distinct (map fst rs)" "\<forall>q \<in> set rs. fst q < length ?ts" using i by (auto simp: L rs comp_def)
  then have "\<forall>q \<in> set rs. take (length (read_got bs files q)) (t_buf (filled bs files rs ?ts ! fst q)) = read_got bs files q"
    using filled_buf [of rs _ ?ts bs files] by blast
  then show ?thesis unfolding ring_round_def sub ker
    using collect_all [of "u\<lparr>in_flight := [], cqes := map (\<lambda>q. (fst q, length (read_got bs files q))) rs, tasks := filled bs files rs ?ts\<rparr>" bs files rs ?n] len by simp
qed

lemma ring_round_inv:
  assumes inv: "uring_inv bs files r u" and "0 < bs" "length files \<le> QUEUE_DEPTH"
  shows "uring_inv bs files (Suc r) (ring_round bs files (replicate (length files) (0, bs)) u)"
proof -
  define L where "L = filter (\<lambda>i. live bs r (files ! i)) [0..<length files]"
  define rs where "rs = map (\<lambda>i. (i, r * bs)) L"
  note i = inv [unfolded uring_inv_def]
  let ?G = "\<lambda>i. take bs (drop (r * bs) (files ! i))" and ?U = "ring_round bs files (replicate (length files) (0, bs)) u"
  note U = ring_round_eq [OF inv assms(3) L_def rs_def]
  have empty: "?G i = [] \<longleftrightarrow> \<not> live bs (Suc r) (files ! i)" for i using assms(2) by (auto simp: live_Suc)
  have g: "read_got bs files (i, r * bs) = ?G i" for i by (simp add: read_got_def)
  have "filter (\<lambda>i. live bs (Suc r) (files ! i)) [0..<length files] = filter (\<lambda>i. ?G i \<noteq> []) L"
    unfolding L_def filter_filter empty using live_Suc_imp by (intro filter_cong) auto
  moreover have "length (filter (\<lambda>q. read_got bs files q = []) rs) = length (filter (\<lambda>i. \<not> ?G i \<noteq> []) L)" by (simp add: rs_def filter_map comp_def g)
  ultimately have act: "active ?U = int (length (filter (\<lambda>i. live bs (Suc r) (files ! i)) [0..<length files]))"
    using i sum_length_filter_compl [of "\<lambda>i. ?G i \<noteq> []" L] unfolding U by (simp add: L_def)
  have opn: "t_open (tasks ?U ! i) = live bs (Suc r) (files ! i)" "t_open (tasks ?U ! i) \<longrightarrow> t_offset (tasks ?U ! i) = Suc r * bs" if "i < length files" for i
  proof -
    let ?fs = "filled bs files rs (map (bump bs) (tasks u))"
    have ti: "i < length ?fs" "t_open (?fs ! i) = live bs r (files ! i)" "live bs r (files ! i) \<longrightarrow> t_offset (?fs ! i) = Suc r * bs"
      using i that by (simp_all add: filled_keeps bump_def)
    have "(\<forall>q \<in> set rs. fst q = i \<longrightarrow> read_got bs files q \<noteq> []) \<longleftrightarrow> (live bs r (files ! i) \<longrightarrow> live bs (Suc r) (files ! i))"
      using that empty [of i] g [of i] by (auto simp: rs_def L_def)
    then show o: "t_open (tasks ?U ! i) = live bs (Suc r) (files ! i)"
      unfolding U using closed_nth(1) [OF ti(1), of bs files rs] ti(2) live_Suc_imp [of bs r "files ! i"] by auto
    show "t_open (tasks ?U ! i) \<longrightarrow> t_offset (tasks ?U ! i) = Suc r * bs"
      unfolding o unfolding U using closed_nth(2) [OF ti(1), of bs files rs] ti(3) live_Suc_imp [of bs r "files ! i"] by simp
  qed
  have out: "file_out i ?U = take (Suc r * bs) (files ! i)" if "i < length files" for i
  proof -
    have "filter (\<lambda>w. fst w = i) (map (\<lambda>q. (fst q, read_got bs files q)) (filter (\<lambda>q. read_got bs files q \<noteq> []) rs)) = map (\<lambda>j. (j, ?G j)) (filter (\<lambda>j. j = i) (filter (\<lambda>j. ?G j \<noteq> []) L))"
      by (simp add: rs_def filter_map comp_def g)
    also have "\<dots> = (if live bs r (files ! i) \<and> ?G i \<noteq> [] then [(i, ?G i)] else [])"
      using that by (subst pick_one) (auto simp: L_def)
    finally have "file_out i ?U = take (r * bs) (files ! i) @ (if live bs r (files ! i) then ?G i else [])"
      unfolding U using i that by (simp add: file_out_def)
    then show ?thesis using not_live_take [of bs r "files ! i"] take_add [of "r * bs" bs "files ! i"] by (simp add: add.commute)
  qed
  show ?thesis unfolding uring_inv_def using act opn out i by (simp add: U)
qed

lemma ring_loop_prompt:
  assumes "0 < bs" "length files \<le> QUEUE_DEPTH" "uring_inv bs files r u" "\<forall>f \<in> set files. length f \<le> (r + k - 1) * bs" "0 < r + k"
  shows "\<exists>u'. ring_loop bs files (replicate k (replicate (length files) (0, bs))) u = Some u' \<and> (\<forall>i < length files. file_out i u' = files ! i)"
  using assms(3-5)
proof (induction k arbitrary: r u)
  case 0
  have "\<not> live bs r f" if "f \<in> set files" for f using 0 that by (auto simp: live_def)
  then have "filter (\<lambda>i. live bs r (files ! i)) [0..<length files] = []" by simp
  then have "active u = 0" using 0(1) by (simp add: uring_inv_def)
  moreover have "take (r * bs) (files ! i) = files ! i" if "i < length files" for i
    using not_live_all \<open>\<And>f. f \<in> set files \<Longrightarrow> \<not> live bs r f\<close> that by simp
  ultimately show ?case using 0(1) by (subst ring_loop.simps) (simp add: uring_inv_def)
next
  case (Suc k)
  show ?case
  proof (cases "active u \<le> 0")
    case True
    then have "\<not> live bs r (files ! i)" if "i < length files" for i
      using Suc.prems(1) that by (auto simp: uring_inv_def filter_empty_conv)
    then have "file_out i u = files ! i" if "i < length files" for i
      using Suc.prems(1) that not_live_all by (simp add: uring_inv_def)
    then show ?thesis using True by (subst ring_loop.simps) simp
  next
    case False
    have "\<forall>f \<in> set files. length f \<le> (Suc r + k - 1) * bs" using Suc.prems(2) by simp
    from Suc.IH [OF ring_round_inv [OF Suc.prems(1) assms(1,2)] this] False show ?thesis by (subst ring_loop.simps) simp
  qed
qed

lemma cat_io_uring_multi_aux:
  assumes "length files \<le> QUEUE_DEPTH" "\<forall>f \<in> set files. length f \<le> k * BLOCK_SIZE"
  shows "\<exists>u. cat_io_uring_multi (map Some files) (replicate (Suc k) (replicate (length files) (0, BLOCK_SIZE))) = Inr (Some u) \<and>
    (\<forall>i < length files. file_out i u = files ! i)"
proof -
  have "(0 :: nat) < BLOCK_SIZE" by (simp add: BLOCK_SIZE_def)
  from ring_loop_prompt [OF this assms(1) uring_inv_start, of "Suc k"] assms(2) show ?thesis
    by (auto simp: cat_io_uring_multi_def comp_def)
qed

text \<open>
  \<open>cat_io_uring_multi\<close> copies every file exactly and ends when each round's reads have completed, in order and in full, by the time the program looks for them,
  for up to \<open>QUEUE_DEPTH\<close> files.
\<close>

theorem cat_io_uring_multi_prompt:
  assumes "length files \<le> QUEUE_DEPTH" "\<forall>f \<in> set files. length f \<le> k * BLOCK_SIZE"
  shows "\<exists>u. cat_io_uring_multi (map Some files) (replicate (Suc k) (replicate (length files) (0, BLOCK_SIZE))) = Inr (Some u) \<and>
    (\<forall>i < length files. file_out i u = files ! i)"
  using assms by (rule cat_io_uring_multi_aux)

theorem cat_io_uring_multi_prompt_witness:
  "\<exists>u. cat_io_uring_multi (map Some [[1, 2], [3]]) (replicate (Suc 1) (replicate (length [[1, 2], [3 :: 8 word]]) (0, BLOCK_SIZE))) = Inr (Some u) \<and>
    (\<forall>i < length [[1, 2], [3 :: 8 word]]. file_out i u = [[1, 2], [3]] ! i)"
  by (rule cat_io_uring_multi_prompt) (simp_all add: QUEUE_DEPTH_def BLOCK_SIZE_def)

text \<open>
  The program does not wait for its reads. When those of a round complete late, the next round reads on, and the entries for two reads behind the end of one file count it
  out twice: here the second file is never copied, although the loop ends as if both were. A read that delivers fewer bytes than a block leaves a gap, since the offset
  moves on by a whole block. Both are stated for blocks of one or two bytes.
\<close>

lemma late_completions_lose_file:
  "\<exists>u. ring_loop 1 [[], [7]] [[], [(0, 1), (1, 1)]] (ring_start 1 [[], [7]]) = Some u \<and> ring_out u = []"
  by (simp add: ring_loop.simps ring_start_def ring_round_def numeral_2_eq_2 QUEUE_DEPTH_def kernel_complete_def)

lemma short_read_leaves_gap:
  "\<exists>u. ring_loop 2 [[1, 2]] [[(0, 1)], [(0, 2)]] (ring_start 2 [[1, 2]]) = Some u \<and> ring_out u = [(0, [1])]"
  by (simp add: ring_loop.simps ring_start_def ring_round_def numeral_2_eq_2 QUEUE_DEPTH_def kernel_complete_def)

section \<open>The program\<close>

text \<open>
  \<open>main\<close>: without a file name it prints its usage; otherwise it copies the files with both functions, one after the other, and returns 0 whatever they report. \<open>argv\<close> are the contents
  of the files named on the command line, \<open>rounds\<close> what the ring completes; the times it prints are left out.
\<close>

definition cat_main :: "bool \<Rightarrow> bool \<Rightarrow> content option list \<Rightarrow> cat_io \<Rightarrow> (nat \<times> nat) list list \<Rightarrow> int \<times> ((bool \<times> cat_io) \<times> (int + uring option)) option" where
  "cat_main devnull_ok malloc_ok argv io rounds =
     (if argv = [] then (1, None) else (0, Some (cat_traditional_multi devnull_ok malloc_ok argv io, cat_io_uring_multi argv rounds)))"

lemma cat_main_usage: "cat_main d m [] io rounds = (1, None)"
  by (simp add: cat_main_def)

text \<open>Both ways copy the same bytes of every file when the reads of a round complete within it and the writes are at most interrupted.\<close>

lemma cat_main_agrees:
  assumes "files \<noteq> []" "io_soft io" "copied io = []" "length files \<le> QUEUE_DEPTH" "\<forall>f \<in> set files. length f \<le> k * BLOCK_SIZE"
  shows "\<exists>io' u. cat_main True True (map Some files) io (replicate (Suc k) (replicate (length files) (0, BLOCK_SIZE))) = (0, Some ((True, io'), Inr (Some u))) \<and>
    copied io' = concat (map (\<lambda>i. file_out i u) [0..<length files])"
proof -
  obtain io' where io': "cat_traditional_multi True True (map Some files) io = (True, io')" "copied io' = concat files"
    using cat_multi_copies_aux [OF assms(2), of files] assms(3) by auto
  obtain u where u: "cat_io_uring_multi (map Some files) (replicate (Suc k) (replicate (length files) (0, BLOCK_SIZE))) = Inr (Some u)"
    "\<forall>i < length files. file_out i u = files ! i" using cat_io_uring_multi_aux [OF assms(4,5)] by blast
  have "map (\<lambda>i. file_out i u) [0..<length files] = files" using u(2) by (intro nth_equalityI) auto
  then show ?thesis using io' u(1) assms(1) by (auto simp: cat_main_def)
qed

end
