(* ===== verification/Packet_Ring_Threads.thy ===== *)
theory Packet_Ring_Threads
  imports Packet_Ring_C Signal_Ring "HOL-Library.Sublist"
begin

text \<open>
  The threads around the three packet rings. In \<open>circularQueue/cQueuePacketsStatic.c\<close> the producer never waits and overwrites the oldest packet, the consumer waits
  while the ring is empty, and the handler of \<open>SIGINT\<close> signals the condition without taking the mutex. As in \<open>Signal_Ring\<close> the consumer's test of the wait condition and its
  going to sleep are two steps, between which the handler may run. \<open>cQueuePacketsDynamic.cpp\<close> and \<open>cQueuePacketsDynamic.c\<close> enqueue and dequeue ten packets each; in the C
  version \<open>main\<close> ends the consumer's waiting, again without the mutex.
\<close>

section \<open>What a ring that overwrites passes on\<close>

text \<open>The ring holds the end of what was sent; what was received is a subsequence of what was sent before.\<close>

definition passes_on :: "'a list \<Rightarrow> 'a list \<Rightarrow> 'a list \<Rightarrow> bool" where
  "passes_on sent cont received \<longleftrightarrow> (\<exists>j \<le> length sent. cont = drop j sent \<and> subseq received (take j sent))"

lemma passes_on_push: "passes_on sent cont received \<Longrightarrow> passes_on (sent @ [p]) (keep_last n (cont @ [p])) received"
proof -
  assume "passes_on sent cont received"
  then obtain j where j: "j \<le> length sent" "cont = drop j sent" "subseq received (take j sent)" by (auto simp: passes_on_def)
  let ?k = "length (cont @ [p]) - n"
  have "cont @ [p] = drop j (sent @ [p])" using j(1,2) by simp
  then have "keep_last n (cont @ [p]) = drop (j + ?k) (sent @ [p])" by (simp only: keep_last_def drop_drop add.commute)
  moreover have "take (j + ?k) (sent @ [p]) = take j sent @ take ?k (drop j (sent @ [p]))" using j(1) by (simp only: take_add) simp
  then have "subseq received (take (j + ?k) (sent @ [p]))" using j(3) by (simp only: list_emb_prefix)
  moreover have "j + ?k \<le> length (sent @ [p])" using j(1,2) by simp
  ultimately show ?thesis unfolding passes_on_def by blast
qed

lemma passes_on_pop: "passes_on sent (q # qs) received \<Longrightarrow> passes_on sent qs (received @ [q])"
proof -
  assume "passes_on sent (q # qs) received"
  then obtain j where j: "q # qs = drop j sent" "subseq received (take j sent)" by (auto simp: passes_on_def)
  then have lt: "j < length sent" by (metis drop_all linorder_not_le list.distinct(1))
  then have "q = sent ! j" "qs = drop (Suc j) sent" using j(1) Cons_nth_drop_Suc [OF lt] by (metis list.inject)+
  moreover have "subseq (received @ [sent ! j]) (take (Suc j) sent)" using j(2) lt by (simp add: take_Suc_conv_app_nth)
  ultimately show ?thesis unfolding passes_on_def using lt by (intro exI [of _ "Suc j"]) simp
qed

lemma passes_on_subseq:
  assumes "passes_on sent cont received"
  shows "subseq (received @ cont) sent" "suffix cont sent"
proof -
  obtain j where j: "cont = drop j sent" "subseq received (take j sent)" using assms by (auto simp: passes_on_def)
  have "subseq (received @ drop j sent) (take j sent @ drop j sent)" using j(2) by (intro list_emb_append_mono) simp_all
  then show "subseq (received @ cont) sent" using j(1) by simp
  show "suffix cont sent" using j(1) by (simp add: suffix_drop)
qed

section \<open>The static ring: threads and handler\<close>

datatype producer_place = PLoop | PPush | PExit

text \<open>\<open>sent\<close> and \<open>received\<close> are the packets enqueued and dequeued so far; the consumer is at one of the places of \<open>Signal_Ring\<close>.\<close>

record st_sys =
  g_buffer :: StaticBuffer
  g_running :: bool
  st_producer :: producer_place
  packet_id :: int
  st_consumer :: place
  sent :: "packet list"
  received :: "packet list"

definition packet_payload :: "int \<Rightarrow> byte list" where
  "packet_payload n = map (\<lambda>j. word_of_int (n * 10 + int j)) [0..<8]"

definition st_start :: "static_packet list \<Rightarrow> st_sys" where
  "st_start raw = \<lparr>g_buffer = packet_buffer_init raw, g_running = True, st_producer = PLoop, packet_id = 0, st_consumer = AtLoop, sent = [], received = []\<rparr>"

definition must_wait :: "st_sys \<Rightarrow> bool" where
  "must_wait s \<longleftrightarrow> sb_head (g_buffer s) = sb_tail (g_buffer s) \<and> \<not> sb_is_full (g_buffer s) \<and> g_running s"

text \<open>
  The product in the payload and the increment of the counter are undefined beyond \<open>INT_MAX\<close>, and no step. The time stamp of a packet is whatever the clock shows.
\<close>

inductive st_step :: "sig_actor \<Rightarrow> st_sys \<Rightarrow> st_sys \<Rightarrow> bool" where
  p_test: "st_producer s = PLoop \<Longrightarrow> g_running s \<Longrightarrow> packet_id s * 10 + 7 \<le> INT_MAX \<Longrightarrow> st_step Prod s (s\<lparr>st_producer := PPush\<rparr>)"
| p_exit: "st_producer s = PLoop \<Longrightarrow> \<not> g_running s \<Longrightarrow> st_step Prod s (s\<lparr>st_producer := PExit\<rparr>)"
| p_push: "st_producer s = PPush \<Longrightarrow> \<not> holds_lock (st_consumer s) \<Longrightarrow>
    packet_buffer_push (g_buffer s) (packet_payload (packet_id s)) 8 now = Inr (ret, b) \<Longrightarrow>
    st_step Prod s (s\<lparr>g_buffer := b, st_producer := PLoop, packet_id := packet_id s + 1,
      st_consumer := (if ret = 0 then signal (st_consumer s) else st_consumer s),
      sent := (if ret = 0 then sent s @ [\<lparr>p_data = packet_payload (packet_id s), p_timestamp = now\<rparr>] else sent s)\<rparr>)"
| c_enter: "st_consumer s = AtLoop \<Longrightarrow> g_running s \<Longrightarrow> st_step Cons' s (s\<lparr>st_consumer := Testing\<rparr>)"
| c_exit: "st_consumer s = AtLoop \<Longrightarrow> \<not> g_running s \<Longrightarrow> st_step Cons' s (s\<lparr>st_consumer := Returned\<rparr>)"
| c_commit: "st_consumer s = Testing \<Longrightarrow> must_wait s \<Longrightarrow> st_step Cons' s (s\<lparr>st_consumer := Committed\<rparr>)"
| c_sleep: "st_consumer s = Committed \<Longrightarrow> st_step Cons' s (s\<lparr>st_consumer := Sleeping\<rparr>)"
| c_relock: "st_consumer s = Woken \<Longrightarrow> st_step Cons' s (s\<lparr>st_consumer := Testing\<rparr>)"
| c_pop: "st_consumer s = Testing \<Longrightarrow> \<not> must_wait s \<Longrightarrow> packet_buffer_pop (g_running s) (g_buffer s) = Some (Inr (Some p, b)) \<Longrightarrow>
    st_step Cons' s (s\<lparr>g_buffer := b, st_consumer := AtLoop, received := received s @ [sp_packet p]\<rparr>)"
| c_stop: "st_consumer s = Testing \<Longrightarrow> \<not> must_wait s \<Longrightarrow> packet_buffer_pop (g_running s) (g_buffer s) = Some (Inr (None, b)) \<Longrightarrow>
    st_step Cons' s (s\<lparr>g_buffer := b, st_consumer := AtLoop\<rparr>)"
| signal_handler: "st_step Handler s (s\<lparr>g_running := False, st_consumer := signal (st_consumer s)\<rparr>)"
| spurious: "st_consumer s = Sleeping \<Longrightarrow> st_step Spurious s (s\<lparr>st_consumer := Woken\<rparr>)"

inductive st_reachable :: "static_packet list \<Rightarrow> st_sys \<Rightarrow> bool" for raw where
  init: "st_reachable raw (st_start raw)"
| step: "st_reachable raw s \<Longrightarrow> st_step a s s' \<Longrightarrow> st_reachable raw s'"

inductive_cases prod_stepE: "st_step Prod s s'"
inductive_cases cons_stepE: "st_step Cons' s s'"

section \<open>What the consumer receives\<close>

definition st_inv :: "st_sys \<Rightarrow> bool" where
  "st_inv s \<longleftrightarrow> SB_inv (g_buffer s) \<and> passes_on (sent s) (SB_contents (g_buffer s)) (received s)"

lemma length_packet_payload [simp]: "length (packet_payload n) = 8"
  by (simp add: packet_payload_def)

lemma st_step_inv: "st_step a s s' \<Longrightarrow> st_inv s \<Longrightarrow> st_inv s'"
proof (induction rule: st_step.induct)
  case (p_push s now ret b)
  have inv: "SB_inv (g_buffer s)" using p_push.prems by (simp add: st_inv_def)
  from packet_buffer_push_ok [OF inv, of "packet_payload (packet_id s)" now] p_push show ?case
    by (auto simp: st_inv_def intro: passes_on_push)
next
  case (c_pop s p b)
  have inv: "SB_inv (g_buffer s)" using c_pop.prems by (simp add: st_inv_def)
  have run: "g_running s" using c_pop(3) by (auto simp: packet_buffer_pop_def split: if_splits)
  then have "SB_contents (g_buffer s) \<noteq> []" using packet_buffer_pop_empty [OF inv] c_pop(3) by simp
  then obtain q qs where c: "SB_contents (g_buffer s) = q # qs" by (meson neq_Nil_conv)
  from packet_buffer_pop_front [OF inv c] c_pop(3) run have b: "sp_packet p = q" "SB_inv b" "SB_contents b = qs" by auto
  then show ?case using c_pop.prems c by (auto simp: st_inv_def intro: passes_on_pop)
qed (auto simp: st_inv_def packet_buffer_pop_def split: if_splits)

lemma st_start_inv:
  assumes "length raw = BUFFER_CAPACITY" "list_all (\<lambda>p. length (sp_data p) = MAX_PACKET_SIZE) raw"
  shows "st_inv (st_start raw)"
  using assms by (simp add: st_inv_def st_start_def SB_inv_def packet_buffer_init_def idx_inv_def SB_contents_def SB_count_def ring_count_def passes_on_def)

definition st_storage_ok :: "static_packet list \<Rightarrow> bool" where
  "st_storage_ok raw \<longleftrightarrow> length raw = BUFFER_CAPACITY \<and> list_all (\<lambda>p. length (sp_data p) = MAX_PACKET_SIZE) raw"

lemma st_reachable_inv: "st_reachable raw s \<Longrightarrow> st_storage_ok raw \<Longrightarrow> st_inv s"
proof (induction rule: st_reachable.induct)
  case init
  then show ?case using st_start_inv by (simp add: st_storage_ok_def)
next
  case (step s a s')
  then show ?case using st_step_inv by blast
qed

text \<open>
  Claim C34: in every reachable state the packets the consumer received, followed by those in the ring, are a subsequence of those the producer enqueued, so that none is
  invented, repeated or reordered; the ring holds the newest, and whatever a thread does next stays inside the array.
\<close>

theorem static_ring_threads_in_order:
  assumes "st_reachable raw s" "st_storage_ok raw"
  shows "subseq (received s @ SB_contents (g_buffer s)) (sent s) \<and> suffix (SB_contents (g_buffer s)) (sent s) \<and>
    (\<exists>b. packet_buffer_push (g_buffer s) (packet_payload (packet_id s)) 8 now = Inr (0, b)) \<and>
    (\<not> must_wait s \<longrightarrow> (\<exists>r. packet_buffer_pop (g_running s) (g_buffer s) = Some (Inr r)))"
proof -
  have inv: "SB_inv (g_buffer s)" and p: "passes_on (sent s) (SB_contents (g_buffer s)) (received s)"
    using st_reachable_inv [OF assms] by (simp_all add: st_inv_def)
  note passes_on_subseq [OF p]
  moreover have "\<exists>b. packet_buffer_push (g_buffer s) (packet_payload (packet_id s)) 8 now = Inr (0, b)"
    using packet_buffer_push_ok [OF inv, of "packet_payload (packet_id s)" now] by auto
  moreover have "sb_tail (g_buffer s) < length (sb_buffer (g_buffer s))" using inv by (simp add: SB_inv_def idx_inv_def)
  then have "\<not> must_wait s \<longrightarrow> (\<exists>r. packet_buffer_pop (g_running s) (g_buffer s) = Some (Inr r))" by (auto simp: must_wait_def packet_buffer_pop_def)
  ultimately show ?thesis by blast
qed

theorem static_ring_threads_in_order_witness:
  "\<exists>b. packet_buffer_push (packet_buffer_init (replicate 8 \<lparr>sp_data = replicate 1024 0, sp_size = 0, sp_timestamp = 0\<rparr>)) (packet_payload 0) 8 5 = Inr (0, b)"
  using static_ring_threads_in_order [OF st_reachable.init, of "replicate 8 \<lparr>sp_data = replicate 1024 0, sp_size = 0, sp_timestamp = 0\<rparr>" 5]
  by (simp add: st_storage_ok_def st_start_def list_all_length)

text \<open>
  The interrupt can be lost here, too: the handler runs between the consumer's test and its sleep, its signal finds nobody, and the producer exits.
\<close>

lemma static_ring_interrupt_lost:
  "\<exists>s. st_reachable raw s \<and> \<not> g_running s \<and> st_producer s = PExit \<and> st_consumer s = Sleeping \<and> (\<forall>s'. \<not> st_step Prod s s' \<and> \<not> st_step Cons' s s')"
proof -
  let ?s0 = "st_start raw"
  let ?s1 = "?s0\<lparr>st_consumer := Testing\<rparr>"
  let ?s2 = "?s1\<lparr>st_consumer := Committed\<rparr>"
  let ?s3 = "?s2\<lparr>g_running := False\<rparr>"
  let ?s4 = "?s3\<lparr>st_consumer := Sleeping\<rparr>"
  let ?s5 = "?s4\<lparr>st_producer := PExit\<rparr>"
  have r1: "st_reachable raw ?s1" by (rule st_reachable.step [OF st_reachable.init st_step.c_enter]) (simp_all add: st_start_def)
  have r2: "st_reachable raw ?s2" by (rule st_reachable.step [OF r1 st_step.c_commit]) (simp_all add: st_start_def must_wait_def packet_buffer_init_def)
  have "st_step Handler ?s2 ?s3" using st_step.signal_handler [of ?s2] by (simp add: st_start_def signal_def)
  then have r3: "st_reachable raw ?s3" by (rule st_reachable.step [OF r2])
  have r4: "st_reachable raw ?s4" by (rule st_reachable.step [OF r3 st_step.c_sleep]) simp
  have r5: "st_reachable raw ?s5" by (rule st_reachable.step [OF r4 st_step.p_exit]) (simp_all add: st_start_def)
  have "\<not> st_step Prod ?s5 s'" "\<not> st_step Cons' ?s5 s'" for s' by (auto elim!: prod_stepE cons_stepE)
  then show ?thesis using r5 by (intro exI [of _ ?s5]) simp
qed

section \<open>The dynamic ring in C++: ten packets each way\<close>

record dyn_sys =
  d_buffer :: PacketBuffer
  d_produced :: nat
  d_consumed :: nat
  d_asleep :: bool
  d_sent :: "packet list"
  d_received :: "packet list"

definition dyn_data :: "nat \<Rightarrow> byte list" where
  "dyn_data i = [of_nat i, of_nat (i + 1)]"

definition dyn_start :: dyn_sys where
  "dyn_start = \<lparr>d_buffer = PB_new 5, d_produced = 0, d_consumed = 0, d_asleep = False, d_sent = [], d_received = []\<rparr>"

text \<open>
  A consumer whose dequeue has to wait goes to sleep (\<open>d_asleep\<close>) and tests again when an enqueue notifies it, or after a spurious wake-up. A null pointer
  or an empty packet would be dereferenced; neither occurs.
\<close>

inductive dyn_step :: "sig_actor \<Rightarrow> dyn_sys \<Rightarrow> dyn_sys \<Rightarrow> bool" where
  dyn_produce: "d_produced s < 10 \<Longrightarrow> PB_enqueue (d_buffer s) (dyn_data (d_produced s)) now = Inr b \<Longrightarrow>
    dyn_step Prod s (s\<lparr>d_buffer := b, d_produced := d_produced s + 1, d_asleep := False, d_sent := d_sent s @ [Packet_new (dyn_data (d_produced s)) now]\<rparr>)"
| dyn_consume: "d_consumed s < 10 \<Longrightarrow> \<not> d_asleep s \<Longrightarrow> PB_dequeue (d_buffer s) = Some (Inr (Some p, b)) \<Longrightarrow>
    dyn_step Cons' s (s\<lparr>d_buffer := b, d_consumed := d_consumed s + 1, d_received := d_received s @ [p]\<rparr>)"
| dyn_wait: "d_consumed s < 10 \<Longrightarrow> \<not> d_asleep s \<Longrightarrow> PB_dequeue (d_buffer s) = None \<Longrightarrow> dyn_step Cons' s (s\<lparr>d_asleep := True\<rparr>)"
| dyn_wake: "d_asleep s \<Longrightarrow> dyn_step Spurious s (s\<lparr>d_asleep := False\<rparr>)"

inductive dyn_reachable :: "dyn_sys \<Rightarrow> bool" where
  init: "dyn_reachable dyn_start"
| step: "dyn_reachable s \<Longrightarrow> dyn_step a s s' \<Longrightarrow> dyn_reachable s'"

definition dyn_inv :: "dyn_sys \<Rightarrow> bool" where
  "dyn_inv s \<longleftrightarrow> PB_inv (d_buffer s) \<and> pb_capacity (d_buffer s) = 5 \<and> passes_on (d_sent s) (PB_contents (d_buffer s)) (d_received s) \<and>
     length (d_sent s) = d_produced s \<and> length (d_received s) = d_consumed s \<and> d_produced s \<le> 10 \<and> d_consumed s \<le> 10 \<and>
     (d_asleep s \<longrightarrow> PB_contents (d_buffer s) = [])"

lemma dyn_step_inv: "dyn_step a s s' \<Longrightarrow> dyn_inv s \<Longrightarrow> dyn_inv s'"
proof (induction rule: dyn_step.induct)
  case (dyn_produce s now b)
  then have inv: "PB_inv (d_buffer s)" by (simp add: dyn_inv_def)
  from PB_enqueue_keeps [OF inv, of "dyn_data (d_produced s)" now] dyn_produce show ?case by (auto simp: dyn_inv_def intro: passes_on_push)
next
  case (dyn_consume s p b)
  then have inv: "PB_inv (d_buffer s)" by (simp add: dyn_inv_def)
  then have "PB_contents (d_buffer s) \<noteq> []" using PB_dequeue_empty dyn_consume(3) by fastforce
  then obtain q qs where c: "PB_contents (d_buffer s) = q # qs" by (meson neq_Nil_conv)
  from PB_dequeue_front [OF inv c] dyn_consume c show ?case by (auto simp: dyn_inv_def intro: passes_on_pop)
next
  case (dyn_wait s)
  then have inv: "PB_inv (d_buffer s)" by (simp add: dyn_inv_def)
  have "PB_contents (d_buffer s) = []"
  proof (cases "PB_contents (d_buffer s)")
    case (Cons q qs)
    then show ?thesis using PB_dequeue_front [OF inv Cons] dyn_wait(3) by auto
  qed
  then show ?case using dyn_wait by (simp add: dyn_inv_def)
qed (auto simp: dyn_inv_def)

lemma dyn_reachable_inv: "dyn_reachable s \<Longrightarrow> dyn_inv s"
proof (induction rule: dyn_reachable.induct)
  case init
  then show ?case using PB_new_inv [of 5] by (simp add: dyn_inv_def dyn_start_def passes_on_def PB_new_def)
next
  case (step s a s')
  then show ?case using dyn_step_inv by blast
qed

text \<open>
  Claim C37: the consumer of the dynamic ring gets the packets in the order in which they were sent. No wake-up is lost: when no thread can go on (but for a
  spurious wake-up) the producer has sent all ten, and the consumer has received all ten in order or sleeps with the ring empty, after the producer has overwritten a packet.
\<close>

theorem dynamic_ring_ends:
  assumes "dyn_reachable s"
  shows "subseq (d_received s @ PB_contents (d_buffer s)) (d_sent s) \<and>
    ((\<forall>s'. \<not> dyn_step Prod s s' \<and> \<not> dyn_step Cons' s s') \<longrightarrow>
      d_produced s = 10 \<and> (d_consumed s = 10 \<and> d_received s = d_sent s \<or> d_consumed s < 10 \<and> d_asleep s \<and> PB_contents (d_buffer s) = []))"
proof -
  have inv: "dyn_inv s" using dyn_reachable_inv [OF assms] .
  note sub = passes_on_subseq(1) [of "d_sent s" "PB_contents (d_buffer s)" "d_received s"]
  have "d_produced s = 10 \<and> (d_consumed s = 10 \<and> d_received s = d_sent s \<or> d_consumed s < 10 \<and> d_asleep s \<and> PB_contents (d_buffer s) = [])"
    if stuck: "\<forall>s'. \<not> dyn_step Prod s s' \<and> \<not> dyn_step Cons' s s'"
  proof -
    obtain b where "PB_enqueue (d_buffer s) (dyn_data (d_produced s)) 0 = Inr b"
      using PB_enqueue_keeps [of "d_buffer s" "dyn_data (d_produced s)" 0] inv by (auto simp: dyn_inv_def)
    then have p: "d_produced s = 10"
      using stuck dyn_step.dyn_produce [of s 0 b] inv by (cases "d_produced s < 10") (auto simp: dyn_inv_def)
    show ?thesis
    proof (cases "d_consumed s = 10")
      case True
      have "subseq (d_received s) (d_received s @ PB_contents (d_buffer s))" by (rule list_emb_prefix) simp
      then have "subseq (d_received s) (d_sent s)" using sub inv by (auto simp: dyn_inv_def intro: subseq_order.trans)
      moreover have "length (d_received s) = length (d_sent s)" using True p inv by (simp add: dyn_inv_def)
      ultimately show ?thesis using p True subseq_same_length by blast
    next
      case False
      then have "d_consumed s < 10" using inv by (simp add: dyn_inv_def)
      moreover have "d_asleep s"
      proof (rule ccontr)
        assume awake: "\<not> d_asleep s"
        show False
        proof (cases "PB_contents (d_buffer s)")
          case Nil
          then have "PB_dequeue (d_buffer s) = None" using PB_dequeue_empty inv by (simp add: dyn_inv_def)
          then show False using stuck dyn_step.dyn_wait [of s] \<open>d_consumed s < 10\<close> awake by blast
        next
          case (Cons q qs)
          with PB_dequeue_front [of "d_buffer s" q qs] inv obtain b where "PB_dequeue (d_buffer s) = Some (Inr (Some q, b))" by (auto simp: dyn_inv_def)
          then show False using stuck dyn_step.dyn_consume [of s q b] \<open>d_consumed s < 10\<close> awake by blast
        qed
      qed
      moreover from this have "PB_contents (d_buffer s) = []" using inv by (simp add: dyn_inv_def)
      ultimately show ?thesis using p by simp
    qed
  qed
  then show ?thesis using sub inv by (auto simp: dyn_inv_def)
qed

lemma dyn_push_only: "n \<le> 10 \<Longrightarrow> \<exists>s. dyn_reachable s \<and> d_produced s = n \<and> d_consumed s = 0 \<and> \<not> d_asleep s"
proof (induction n)
  case 0
  show ?case by (rule exI [of _ dyn_start]) (simp add: dyn_reachable.init, simp add: dyn_start_def)
next
  case (Suc n)
  then obtain s where s: "dyn_reachable s" "d_produced s = n" "d_consumed s = 0" "\<not> d_asleep s" by auto
  obtain b where b: "PB_enqueue (d_buffer s) (dyn_data (d_produced s)) 0 = Inr b"
    using PB_enqueue_keeps [of "d_buffer s" "dyn_data (d_produced s)" 0] dyn_reachable_inv [OF s(1)] by (auto simp: dyn_inv_def)
  let ?t = "s\<lparr>d_buffer := b, d_produced := d_produced s + 1, d_asleep := False, d_sent := d_sent s @ [Packet_new (dyn_data (d_produced s)) 0]\<rparr>"
  have "dyn_reachable ?t" using s b Suc.prems by (intro dyn_reachable.step [OF s(1) dyn_produce]) auto
  then show ?case using s by (intro exI [of _ ?t]) simp
qed

lemma dyn_drain:
  "dyn_reachable s \<Longrightarrow> \<not> d_asleep s \<Longrightarrow> d_consumed s + length (PB_contents (d_buffer s)) < 10 \<Longrightarrow>
   \<exists>s'. dyn_reachable s' \<and> d_produced s' = d_produced s \<and> d_consumed s' < 10 \<and> \<not> d_asleep s' \<and> PB_contents (d_buffer s') = []"
proof (induction "PB_contents (d_buffer s)" arbitrary: s)
  case Nil
  then show ?case by auto
next
  case (Cons q qs)
  have inv: "PB_inv (d_buffer s)" using dyn_reachable_inv [OF Cons.prems(1)] by (simp add: dyn_inv_def)
  from PB_dequeue_front [OF inv Cons.hyps(2) [symmetric]] obtain b where b: "PB_dequeue (d_buffer s) = Some (Inr (Some q, b))" "PB_contents b = qs" by auto
  let ?s = "s\<lparr>d_buffer := b, d_consumed := d_consumed s + 1, d_received := d_received s @ [q]\<rparr>"
  have len: "length (PB_contents (d_buffer s)) = Suc (length qs)" using Cons.hyps(2) by (metis length_Cons)
  then have "dyn_reachable ?s" using Cons.prems b by (intro dyn_reachable.step [OF Cons.prems(1) dyn_consume]) auto
  with Cons.hyps(1) [of ?s] Cons.prems(2,3) b(2) len show ?case by auto
qed

text \<open>The producer may send all ten packets before the consumer runs: five are overwritten, and the consumer waits for the sixth.\<close>

lemma dynamic_ring_can_hang: "\<exists>s. dyn_reachable s \<and> d_consumed s < 10 \<and> d_asleep s \<and> (\<forall>s'. \<not> dyn_step Prod s s' \<and> \<not> dyn_step Cons' s s')"
proof -
  obtain s where s: "dyn_reachable s" "d_produced s = 10" "d_consumed s = 0" "\<not> d_asleep s" using dyn_push_only [of 10] by auto
  have "length (PB_contents (d_buffer s)) \<le> 5"
    using dyn_reachable_inv [OF s(1)] ring_count_le [of 5 "pb_head (d_buffer s)" "pb_tail (d_buffer s)" "pb_isFull (d_buffer s)"]
    by (auto simp: dyn_inv_def PB_inv_def PB_count_def)
  with dyn_drain [OF s(1,4)] s obtain s' where s': "dyn_reachable s'" "d_produced s' = 10" "d_consumed s' < 10" "\<not> d_asleep s'" "PB_contents (d_buffer s') = []" by auto
  then have "PB_dequeue (d_buffer s') = None" using dyn_reachable_inv [OF s'(1)] PB_dequeue_empty by (simp add: dyn_inv_def)
  then have "dyn_reachable (s'\<lparr>d_asleep := True\<rparr>)" using s' by (intro dyn_reachable.step [OF s'(1) dyn_wait])
  then show ?thesis using s' by (intro exI [of _ "s'\<lparr>d_asleep := True\<rparr>"]) (auto elim: dyn_step.cases)
qed

text \<open>There the theorem says what has happened.\<close>

theorem dynamic_ring_ends_witness:
  "\<exists>s. dyn_reachable s \<and> (\<forall>s'. \<not> dyn_step Prod s s' \<and> \<not> dyn_step Cons' s s') \<and> d_produced s = 10 \<and> d_consumed s < 10 \<and>
    d_asleep s \<and> PB_contents (d_buffer s) = [] \<and> subseq (d_received s) (d_sent s)"
proof -
  obtain s where s: "dyn_reachable s" "d_consumed s < 10" "d_asleep s" "\<forall>s'. \<not> dyn_step Prod s s' \<and> \<not> dyn_step Cons' s s'"
    using dynamic_ring_can_hang by blast
  with dynamic_ring_ends [OF s(1)] show ?thesis by auto
qed

section \<open>The dynamic ring in C\<close>

datatype main_place = MJoinProducer | MSignal | MJoinConsumer

record dync_sys =
  c_buffer :: DynBuffer
  c_produced :: nat
  c_place :: place
  c_consumed :: nat
  c_main :: main_place
  c_sent :: "packet list"
  c_received :: "packet list"

definition dync_start :: dync_sys where
  "dync_start = \<lparr>c_buffer = create_buffer 5, c_produced = 0, c_place = AtLoop, c_consumed = 0, c_main = MJoinProducer, c_sent = [], c_received = []\<rparr>"

text \<open>\<open>malloc\<close> succeeds; the consumer frees the packets it gets.\<close>

inductive dync_step :: "sig_actor \<Rightarrow> dync_sys \<Rightarrow> dync_sys \<Rightarrow> bool" where
  produce: "c_produced s < 10 \<Longrightarrow> \<not> holds_lock (c_place s) \<Longrightarrow> DB_enqueue True (c_buffer s) (dyn_data (c_produced s)) 2 now = Inr b \<Longrightarrow>
    dync_step Prod s (s\<lparr>c_buffer := b, c_produced := c_produced s + 1, c_place := signal (c_place s),
      c_sent := c_sent s @ [Packet_new (dyn_data (c_produced s)) now]\<rparr>)"
| enter: "c_place s = AtLoop \<Longrightarrow> c_consumed s < 10 \<Longrightarrow> dync_step Cons' s (s\<lparr>c_place := Testing\<rparr>)"
| leave: "c_place s = AtLoop \<Longrightarrow> c_consumed s = 10 \<Longrightarrow> dync_step Cons' s (s\<lparr>c_place := Returned\<rparr>)"
| commit: "c_place s = Testing \<Longrightarrow> DB_dequeue (c_buffer s) = None \<Longrightarrow> dync_step Cons' s (s\<lparr>c_place := Committed\<rparr>)"
| sleep: "c_place s = Committed \<Longrightarrow> dync_step Cons' s (s\<lparr>c_place := Sleeping\<rparr>)"
| relock: "c_place s = Woken \<Longrightarrow> dync_step Cons' s (s\<lparr>c_place := Testing\<rparr>)"
| take: "c_place s = Testing \<Longrightarrow> DB_dequeue (c_buffer s) = Some (Inr (Some p, b)) \<Longrightarrow>
    dync_step Cons' s (s\<lparr>c_buffer := b, c_place := AtLoop, c_consumed := c_consumed s + 1, c_received := c_received s @ [p]\<rparr>)"
| no_packet: "c_place s = Testing \<Longrightarrow> DB_dequeue (c_buffer s) = Some (Inr (None, b)) \<Longrightarrow>
    dync_step Cons' s (s\<lparr>c_buffer := b, c_place := AtLoop, c_consumed := c_consumed s + 1\<rparr>)"
| stop: "c_main s = MJoinProducer \<Longrightarrow> c_produced s = 10 \<Longrightarrow> dync_step Handler s (s\<lparr>c_buffer := DB_shutdown (c_buffer s), c_main := MSignal\<rparr>)"
| wake: "c_main s = MSignal \<Longrightarrow> dync_step Handler s (s\<lparr>c_place := signal (c_place s), c_main := MJoinConsumer\<rparr>)"
| wake_up: "c_place s = Sleeping \<Longrightarrow> dync_step Spurious s (s\<lparr>c_place := Woken\<rparr>)"

inductive dync_reachable :: "dync_sys \<Rightarrow> bool" where
  init: "dync_reachable dync_start"
| step: "dync_reachable s \<Longrightarrow> dync_step a s s' \<Longrightarrow> dync_reachable s'"

text \<open>The ring as a C++ ring, and the invariant.\<close>

definition pb_view :: "DynBuffer \<Rightarrow> PacketBuffer" where
  "pb_view b = \<lparr>pb_buffer = db_buffer b, pb_head = db_head b, pb_tail = db_tail b, pb_capacity = db_capacity b, pb_isFull = db_is_full b\<rparr>"

definition dync_inv :: "dync_sys \<Rightarrow> bool" where
  "dync_inv s \<longleftrightarrow> PB_inv (pb_view (c_buffer s)) \<and> passes_on (c_sent s) (PB_contents (pb_view (c_buffer s))) (c_received s) \<and>
     (c_main s = MJoinProducer \<longleftrightarrow> db_running (c_buffer s)) \<and> (c_produced s < 10 \<longrightarrow> c_main s = MJoinProducer)"

lemma DB_rel_view: "DB_rel b p \<longleftrightarrow> db_running b \<and> p = pb_view b"
  by (simp add: DB_rel_def pb_view_def)

lemma DB_dequeue_view:
  assumes "PB_inv (pb_view b)" "DB_dequeue b = Some (Inr (r, b'))"
  obtains (Stopped) "\<not> db_running b" "r = None" "b' = b"
  | (Front) q where "db_running b" "db_running b'" "r = Some q" "PB_contents (pb_view b) = q # PB_contents (pb_view b')" "PB_inv (pb_view b')"
proof (cases "db_running b")
  case True
  then have rel: "DB_rel b (pb_view b)" by (simp add: DB_rel_view)
  have "PB_contents (pb_view b) \<noteq> []" using PB_dequeue_empty [OF assms(1)] DB_rel_dequeue [OF rel] assms(2) by auto
  then obtain q qs where c: "PB_contents (pb_view b) = q # qs" by (meson neq_Nil_conv)
  from PB_dequeue_front [OF assms(1) c] DB_rel_dequeue [OF rel] assms(2) c True show thesis by (intro Front [of q]) (auto simp: DB_rel_view)
next
  case False
  then have "r = None" "b' = b" using assms(2) by (simp_all add: DB_dequeue_def)
  with False show thesis by (rule Stopped)
qed

lemma dync_step_inv: "dync_step a s s' \<Longrightarrow> dync_inv s \<Longrightarrow> dync_inv s'"
proof (induction rule: dync_step.induct)
  case (produce s now b)
  have rel: "DB_rel (c_buffer s) (pb_view (c_buffer s))" and inv: "PB_inv (pb_view (c_buffer s))" using produce by (auto simp: dync_inv_def DB_rel_view)
  have two: "length (dyn_data (c_produced s)) = 2" by (simp add: dyn_data_def)
  from DB_rel_enqueue [OF rel inv, of "dyn_data (c_produced s)" now] PB_enqueue_keeps [OF inv, of "dyn_data (c_produced s)" now] produce two show ?case
    by (auto simp: dync_inv_def DB_rel_view intro: passes_on_push)
next
  case (take s p b)
  have "PB_inv (pb_view (c_buffer s))" using take by (simp add: dync_inv_def)
  from this take(2) show ?case
    by (cases rule: DB_dequeue_view) (use take in \<open>auto simp: dync_inv_def intro: passes_on_pop\<close>)
next
  case (no_packet s b)
  have "PB_inv (pb_view (c_buffer s))" using no_packet by (simp add: dync_inv_def)
  from this no_packet(2) show ?case by (cases rule: DB_dequeue_view) (use no_packet in \<open>auto simp: dync_inv_def\<close>)
next
  case (stop s)
  then show ?case by (auto simp: dync_inv_def DB_shutdown_def pb_view_def)
qed (auto simp: dync_inv_def)

lemma dync_reachable_inv: "dync_reachable s \<Longrightarrow> dync_inv s"
proof (induction rule: dync_reachable.induct)
  case init
  have "pb_view (create_buffer 5) = PB_new 5" by (simp add: pb_view_def create_buffer_def PB_new_def)
  then show ?case using PB_new_inv [of 5] by (simp add: dync_inv_def dync_start_def passes_on_def create_buffer_def)
next
  case (step s a s')
  then show ?case using dync_step_inv by blast
qed

text \<open>The order is kept in the C version as well.\<close>

lemma dync_in_order: "dync_reachable s \<Longrightarrow> subseq (c_received s @ PB_contents (pb_view (c_buffer s))) (c_sent s)"
  using dync_reachable_inv passes_on_subseq(1) by (auto simp: dync_inv_def)

text \<open>
  Once \<open>main\<close> has set \<open>running\<close> to 0 the consumer gets no packet any more, although the ring may hold some: they are freed by \<open>destroy_buffer\<close> unread.
\<close>

lemma shutdown_drops_packets: "DB_dequeue (DB_shutdown b) = Some (Inr (None, DB_shutdown b))"
  by (simp add: DB_dequeue_def DB_shutdown_def)

end
