(* ===== verification/Lockfree_Threads.thy ===== *)
theory Lockfree_Threads
  imports Lockfree_Ring
begin

text \<open>
  The threads of \<open>amazon/emergingDevices/producerConsumer.cpp\<close> on the broadcast ring: one producer, two consumers, and \<open>main\<close>, which stops them. A call of \<open>produce\<close> is
  two steps, the store of the sample and the publication of the index; a call of \<open>consume\<close> is three, the loads of the two indices, the copy of the sample and the store of the
  read index. The copy of a sample is one step, although it is not atomic: in the runs of the theorem below no store can fall into it. The sleeps only delay.
\<close>

section \<open>The threads\<close>

datatype prod_stage = PIdle | PStored | PEnded

datatype 'f cons_stage = CIdle | CLoaded "64 word" | CCopied "64 word" "'f Sample" | CEnded

record 'f br_sys =
  ring :: "'f RingBuffer"
  running :: bool
  prod :: prod_stage
  counter :: "64 word"
  cons :: "nat \<Rightarrow> 'f cons_stage"
  samples_got :: "nat \<Rightarrow> 'f Sample list"

text \<open>\<open>to_float\<close> stands for the conversion of the counter to \<open>float\<close>.\<close>

definition sample_of :: "(64 word \<Rightarrow> 'f) \<Rightarrow> 64 word \<Rightarrow> 'f Sample" where
  "sample_of to_float n = \<lparr>timestamp = n, val = to_float n\<rparr>"

definition br_start :: "'f Sample \<Rightarrow> 'f br_sys" where
  "br_start dflt = \<lparr>ring = RingBuffer_new dflt, running = True, prod = PIdle, counter = 0, cons = (\<lambda>_. CIdle), samples_got = (\<lambda>_. [])\<rparr>"

text \<open>The first part of \<open>consume\<close>: where to read, or \<open>None\<close> when there is nothing new.\<close>

definition consume_load :: "nat \<Rightarrow> 'f RingBuffer \<Rightarrow> 64 word option" where
  "consume_load c rb =
     (let r = readIndex rb ! c; w = writeIndex rb in
      if w \<le> r then None else Some (if 1024 < w - r then w - 1024 else r))"

datatype br_actor = Producer | Consumer nat | Main

inductive br_step :: "(64 word \<Rightarrow> 'f) \<Rightarrow> br_actor \<Rightarrow> 'f br_sys \<Rightarrow> 'f br_sys \<Rightarrow> bool" for to_float where
  store: "prod s = PIdle \<Longrightarrow> running s \<Longrightarrow> produce_store (sample_of to_float (counter s)) (ring s) = Inr rb \<Longrightarrow>
    br_step to_float Producer s (s\<lparr>ring := rb, prod := PStored\<rparr>)"
| publish: "prod s = PStored \<Longrightarrow> br_step to_float Producer s (s\<lparr>ring := produce_publish (ring s), prod := PIdle, counter := counter s + 1\<rparr>)"
| prod_end: "prod s = PIdle \<Longrightarrow> \<not> running s \<Longrightarrow> br_step to_float Producer s (s\<lparr>prod := PEnded\<rparr>)"
| nothing_new: "c < NUM_CONSUMERS \<Longrightarrow> cons s c = CIdle \<Longrightarrow> running s \<Longrightarrow> consume_load c (ring s) = None \<Longrightarrow> br_step to_float (Consumer c) s s"
| load: "c < NUM_CONSUMERS \<Longrightarrow> cons s c = CIdle \<Longrightarrow> running s \<Longrightarrow> consume_load c (ring s) = Some r \<Longrightarrow>
    br_step to_float (Consumer c) s (s\<lparr>cons := (cons s)(c := CLoaded r)\<rparr>)"
| copy: "c < NUM_CONSUMERS \<Longrightarrow> cons s c = CLoaded r \<Longrightarrow> arr_get (rb_buffer (ring s)) (slot_of r) = Inr x \<Longrightarrow>
    br_step to_float (Consumer c) s (s\<lparr>cons := (cons s)(c := CCopied r x)\<rparr>)"
| got: "c < NUM_CONSUMERS \<Longrightarrow> cons s c = CCopied r x \<Longrightarrow> arr_set (readIndex (ring s)) c (r + 1) = Inr ri \<Longrightarrow>
    br_step to_float (Consumer c) s (s\<lparr>ring := (ring s)\<lparr>readIndex := ri\<rparr>, cons := (cons s)(c := CIdle), samples_got := (samples_got s)(c := samples_got s c @ [x])\<rparr>)"
| cons_end: "c < NUM_CONSUMERS \<Longrightarrow> cons s c = CIdle \<Longrightarrow> \<not> running s \<Longrightarrow> br_step to_float (Consumer c) s (s\<lparr>cons := (cons s)(c := CEnded)\<rparr>)"
| halt: "br_step to_float Main s (s\<lparr>running := False\<rparr>)"

section \<open>Runs in which no consumer falls a whole ring behind\<close>

text \<open>Before a store every consumer has finished with the slot that is overwritten, and the index does not wrap.\<close>

definition paced :: "'f br_sys \<Rightarrow> bool" where
  "paced s \<longleftrightarrow> prod s = PIdle \<longrightarrow> unat (writeIndex (ring s)) + 1 < 2 ^ 64 \<and>
     (\<forall>c < NUM_CONSUMERS. unat (writeIndex (ring s)) < unat (readIndex (ring s) ! c) + BUFFER_SIZE)"

inductive paced_run :: "(64 word \<Rightarrow> 'f) \<Rightarrow> 'f Sample \<Rightarrow> 'f br_sys \<Rightarrow> bool" for to_float dflt where
  init: "paced_run to_float dflt (br_start dflt)"
| step: "paced_run to_float dflt s \<Longrightarrow> br_step to_float a s s' \<Longrightarrow> (a = Producer \<Longrightarrow> paced s) \<Longrightarrow> paced_run to_float dflt s'"

definition nth_sample :: "(64 word \<Rightarrow> 'f) \<Rightarrow> nat \<Rightarrow> 'f Sample" where
  "nth_sample to_float i = sample_of to_float (of_nat i)"

text \<open>The invariant: \<open>n\<close> samples are published, \<open>m\<close> are stored; consumer \<open>c\<close> has the first \<open>readIndex c\<close> of them.\<close>

definition cons_ok :: "(64 word \<Rightarrow> 'f) \<Rightarrow> nat \<Rightarrow> nat \<Rightarrow> 'f cons_stage \<Rightarrow> bool" where
  "cons_ok to_float n r st = (case st of CIdle \<Rightarrow> True | CLoaded p \<Rightarrow> unat p = r \<and> r < n | CCopied p x \<Rightarrow> unat p = r \<and> r < n \<and> x = nth_sample to_float r | CEnded \<Rightarrow> True)"

definition ring_ok :: "(64 word \<Rightarrow> 'f) \<Rightarrow> nat \<Rightarrow> nat \<Rightarrow> 'f RingBuffer \<Rightarrow> bool" where
  "ring_ok to_float n m rb \<longleftrightarrow> length (rb_buffer rb) = BUFFER_SIZE \<and> length (readIndex rb) = NUM_CONSUMERS \<and> unat (writeIndex rb) = n \<and>
     (\<forall>i < m. m \<le> i + BUFFER_SIZE \<longrightarrow> rb_buffer rb ! (i mod BUFFER_SIZE) = nth_sample to_float i)"

definition reader_ok :: "(64 word \<Rightarrow> 'f) \<Rightarrow> nat \<Rightarrow> nat \<Rightarrow> 'f br_sys \<Rightarrow> nat \<Rightarrow> bool" where
  "reader_ok to_float n m s c \<longleftrightarrow>
     (let r = unat (readIndex (ring s) ! c) in
      r \<le> n \<and> m \<le> r + BUFFER_SIZE \<and> samples_got s c = map (nth_sample to_float) [0..<r] \<and> cons_ok to_float n r (cons s c))"

definition br_inv :: "(64 word \<Rightarrow> 'f) \<Rightarrow> 'f br_sys \<Rightarrow> bool" where
  "br_inv to_float s \<longleftrightarrow>
     (\<exists>n m. m = (if prod s = PStored then n + 1 else n) \<and> m < 2 ^ 64 \<and> counter s = of_nat n \<and> ring_ok to_float n m (ring s) \<and>
       (\<forall>c < NUM_CONSUMERS. reader_ok to_float n m s c))"

lemma ring_ok_store:
  assumes "ring_ok to_float n n rb" "produce_store (nth_sample to_float n) rb = Inr rb'"
  shows "ring_ok to_float n (n + 1) rb'" "readIndex rb' = readIndex rb"
proof -
  have b: "length (rb_buffer rb) = BUFFER_SIZE" "unat (writeIndex rb) = n" using assms(1) by (simp_all add: ring_ok_def)
  then have rb': "rb' = rb\<lparr>rb_buffer := (rb_buffer rb)[n mod BUFFER_SIZE := nth_sample to_float n]\<rparr>"
    using assms(2) by (simp add: produce_store_def slot_of_mod)
  have "(rb_buffer rb)[n mod BUFFER_SIZE := nth_sample to_float n] ! (i mod BUFFER_SIZE) = nth_sample to_float i" if "i < n + 1" "n + 1 \<le> i + BUFFER_SIZE" for i
  proof (cases "i = n")
    case False
    then have "i mod BUFFER_SIZE \<noteq> n mod BUFFER_SIZE" using that ring_index_neq [of 0 "n - i" BUFFER_SIZE i] by simp
    then show ?thesis using assms(1) that False by (simp add: ring_ok_def)
  qed (use b in simp)
  then show "ring_ok to_float n (n + 1) rb'" using assms(1) by (simp add: ring_ok_def rb')
  show "readIndex rb' = readIndex rb" by (simp add: rb')
qed

lemma ring_ok_publish:
  assumes "ring_ok to_float n (n + 1) rb" "n + 1 < 2 ^ 64"
  shows "ring_ok to_float (n + 1) (n + 1) (produce_publish rb)"
  using assms by (auto simp: ring_ok_def produce_publish_def unat_word_ariths)

lemma consume_load_eq:
  assumes "ring_ok to_float n m rb" "c < NUM_CONSUMERS" "r = unat (readIndex rb ! c)" "n \<le> r + BUFFER_SIZE" "consume_load c rb = Some p"
  shows "unat p = r" "r < n"
proof -
  have lt: "r < n" using assms by (auto simp: consume_load_def Let_def word_le_nat_alt ring_ok_def split: if_splits)
  then have le: "readIndex rb ! c \<le> writeIndex rb" using assms(1,3) by (simp add: word_le_nat_alt ring_ok_def)
  have "unat (writeIndex rb - readIndex rb ! c) = n - r" using unat_sub [OF le] assms(1,3) by (simp add: ring_ok_def)
  then have "\<not> 1024 < writeIndex rb - readIndex rb ! c" using assms(4) by (simp add: word_less_nat_alt)
  then show "unat p = r" using assms(3,5) by (auto simp: consume_load_def Let_def split: if_splits)
  show "r < n" by (fact lt)
qed

lemma cons_ok_mono: "cons_ok to_float n r st \<Longrightarrow> n \<le> n' \<Longrightarrow> cons_ok to_float n' r st"
  by (auto simp: cons_ok_def split: cons_stage.splits)

lemma reader_ok_cong: "readIndex (ring s') ! c = readIndex (ring s) ! c \<Longrightarrow> samples_got s' c = samples_got s c \<Longrightarrow> cons s' c = cons s c \<Longrightarrow>
    reader_ok to_float n m s' c = reader_ok to_float n m s c"
  by (simp add: reader_ok_def)

lemma br_producer_inv:
  assumes "br_step to_float Producer s s'" "br_inv to_float s" "paced s"
  shows "br_inv to_float s'"
proof -
  obtain n m where m: "m = (if prod s = PStored then n + 1 else n)" "m < 2 ^ 64" "counter s = of_nat n" and rg: "ring_ok to_float n m (ring s)"
    and rd: "\<And>c. c < NUM_CONSUMERS \<Longrightarrow> reader_ok to_float n m s c" using assms(2) unfolding br_inv_def by blast
  have w: "unat (writeIndex (ring s)) = n" using rg by (simp add: ring_ok_def)
  from assms(1) show ?thesis
  proof cases
    case (store rb)
    have "m = n" using m(1) store by simp
    have "sample_of to_float (counter s) = nth_sample to_float n" using m(3) by (simp add: nth_sample_def)
    with store ring_ok_store [of to_float n "ring s" rb] rg \<open>m = n\<close> have rb: "ring_ok to_float n (n + 1) rb" "readIndex rb = readIndex (ring s)" by simp_all
    have pc: "n + 1 < 2 ^ 64" "\<And>c. c < NUM_CONSUMERS \<Longrightarrow> n < unat (readIndex (ring s) ! c) + BUFFER_SIZE" using assms(3) store w by (simp_all add: paced_def)
    have "reader_ok to_float n (n + 1) s' c" if "c < NUM_CONSUMERS" for c using rd [OF that] pc(2) [OF that] store rb(2) by (simp add: reader_ok_def Let_def)
    then show ?thesis unfolding br_inv_def using store rb pc(1) m(3) by (intro exI [of _ n] exI [of _ "n + 1"]) simp
  next
    case publish
    then have mm: "m = n + 1" using m(1) by simp
    have "reader_ok to_float (n + 1) (n + 1) s' c" if "c < NUM_CONSUMERS" for c
      using rd [OF that] publish mm by (auto simp: reader_ok_def Let_def produce_publish_def intro: cons_ok_mono)
    then show ?thesis unfolding br_inv_def using publish mm m ring_ok_publish [of to_float n "ring s"] rg by (intro exI [of _ "n + 1"] exI [of _ "n + 1"]) simp
  qed (use m rg rd in \<open>auto simp: br_inv_def reader_ok_def\<close>)
qed

lemma br_consumer_inv:
  assumes "br_step to_float a s s'" "br_inv to_float s" "a \<noteq> Producer"
  shows "br_inv to_float s'"
proof -
  obtain n m where m: "m = (if prod s = PStored then n + 1 else n)" "m < 2 ^ 64" "counter s = of_nat n" and rg: "ring_ok to_float n m (ring s)"
    and rd: "\<And>c. c < NUM_CONSUMERS \<Longrightarrow> reader_ok to_float n m s c" using assms(2) unfolding br_inv_def by blast
  have w: "unat (writeIndex (ring s)) = n" using rg by (simp add: ring_ok_def)
  from assms(1) show ?thesis
  proof cases
    case (load c p)
    have "reader_ok to_float n m s c" using rd load by simp
    then have p: "unat p = unat (readIndex (ring s) ! c)" "unat (readIndex (ring s) ! c) < n"
      using consume_load_eq [OF rg load(3) refl _ load(6)] m(1) by (auto simp: reader_ok_def Let_def split: if_splits)
    have "reader_ok to_float n m s' d" if "d < NUM_CONSUMERS" for d
      using rd [OF that] p load by (cases "d = c") (simp_all add: reader_ok_def Let_def cons_ok_def)
    then show ?thesis unfolding br_inv_def using load m rg by (intro exI [of _ n] exI [of _ m]) simp
  next
    case (copy c p x)
    have c: "unat p = unat (readIndex (ring s) ! c)" "unat (readIndex (ring s) ! c) < n" "m \<le> unat (readIndex (ring s) ! c) + BUFFER_SIZE"
      using rd [OF copy(3)] copy by (simp_all add: reader_ok_def Let_def cons_ok_def)
    then have "x = nth_sample to_float (unat (readIndex (ring s) ! c))" using copy rg m(1) by (auto simp: ring_ok_def slot_of_mod)
    then have "reader_ok to_float n m s' d" if "d < NUM_CONSUMERS" for d
      using rd [OF that] c copy by (cases "d = c") (simp_all add: reader_ok_def Let_def cons_ok_def)
    then show ?thesis unfolding br_inv_def using copy m rg by (intro exI [of _ n] exI [of _ m]) simp
  next
    case (got c p x ri)
    have c: "unat p = unat (readIndex (ring s) ! c)" "unat (readIndex (ring s) ! c) < n" "x = nth_sample to_float (unat (readIndex (ring s) ! c))"
      using rd [OF got(3)] got by (simp_all add: reader_ok_def Let_def cons_ok_def)
    have ri: "ri = (readIndex (ring s))[c := p + 1]" "length (readIndex (ring s)) = NUM_CONSUMERS" using got rg by (auto simp: ring_ok_def)
    have "n < 2 ^ 64" using m by (simp split: if_splits)
    then have "unat (p + 1) = Suc (unat (readIndex (ring s) ! c))" using c(1,2) by (simp add: unat_word_ariths)
    then have "reader_ok to_float n m s' d" if "d < NUM_CONSUMERS" for d
      using rd [OF that] c ri got that by (cases "d = c") (simp_all add: reader_ok_def Let_def cons_ok_def)
    moreover have "ring_ok to_float n m ((ring s)\<lparr>readIndex := ri\<rparr>)" using rg ri by (simp add: ring_ok_def)
    ultimately show ?thesis unfolding br_inv_def using got m by (intro exI [of _ n] exI [of _ m]) simp
  next
    case (cons_end c)
    have "reader_ok to_float n m s' d" if "d < NUM_CONSUMERS" for d
      using rd [OF that] cons_end by (cases "d = c") (simp_all add: reader_ok_def Let_def cons_ok_def)
    then show ?thesis unfolding br_inv_def using cons_end m rg by (intro exI [of _ n] exI [of _ m]) simp
  qed (use assms(3) m rg rd in \<open>auto simp: br_inv_def reader_ok_def\<close>)
qed

lemma paced_run_inv: "paced_run to_float dflt s \<Longrightarrow> br_inv to_float s"
proof (induction rule: paced_run.induct)
  case init
  show ?case by (auto simp: br_inv_def br_start_def ring_ok_def reader_ok_def cons_ok_def RingBuffer_new_def)
next
  case (step s a s')
  then show ?case using br_producer_inv br_consumer_inv by metis
qed

text \<open>
  Claim C22: as long as the producer does not store a sample before every consumer has finished with the one it overwrites, each consumer receives every sample exactly once
  and in order, in every interleaving of the threads: what consumer \<open>c\<close> got are the samples \<open>0, 1, ...\<close> up to its read index, and no access leaves the arrays.
\<close>

theorem broadcast_in_order:
  assumes "paced_run to_float dflt s" "c < NUM_CONSUMERS"
  shows "samples_got s c = map (\<lambda>i. \<lparr>timestamp = of_nat i, val = to_float (of_nat i)\<rparr>) [0..<unat (readIndex (ring s) ! c)] \<and>
    readIndex (ring s) ! c \<le> writeIndex (ring s) \<and> is_ok (produce_store x (ring s)) \<and> is_ok (consume c (ring s))"
proof -
  obtain n m where rg: "ring_ok to_float n m (ring s)" and rd: "reader_ok to_float n m s c"
    using paced_run_inv [OF assms(1)] assms(2) unfolding br_inv_def by blast
  have "nth_sample to_float = (\<lambda>i. \<lparr>timestamp = of_nat i, val = to_float (of_nat i)\<rparr>)" by (simp add: nth_sample_def sample_of_def fun_eq_iff)
  moreover have "is_ok (produce_store x (ring s))" using rg by (simp add: ring_ok_def produce_store_def)
  moreover have "is_ok (consume c (ring s))"
    using consume_reads [of "ring s" c n "unat (readIndex (ring s) ! c)"] rg assms(2) by (simp add: ring_ok_def)
  ultimately show ?thesis using rd rg by (simp add: reader_ok_def ring_ok_def Let_def word_le_nat_alt)
qed

lemma first_sample_delivered:
  "\<exists>s. paced_run (\<lambda>_. True) \<lparr>timestamp = 0, val = False\<rparr> s \<and> readIndex (ring s) = [1, 0]"
proof -
  let ?d = "\<lparr>timestamp = 0, val = False\<rparr> :: bool Sample" and ?x = "\<lparr>timestamp = 0, val = True\<rparr> :: bool Sample" and ?f = "\<lambda>_. True"
  let ?s0 = "br_start ?d"
  let ?s1 = "?s0\<lparr>ring := (ring ?s0)\<lparr>rb_buffer := (replicate BUFFER_SIZE ?d)[0 := ?x]\<rparr>, prod := PStored\<rparr>"
  let ?s2 = "?s1\<lparr>ring := produce_publish (ring ?s1), prod := PIdle, counter := counter ?s1 + 1\<rparr>"
  let ?s3 = "?s2\<lparr>cons := (cons ?s2)(0 := CLoaded 0)\<rparr>"
  let ?s4 = "?s3\<lparr>cons := (cons ?s3)(0 := CCopied 0 ?x)\<rparr>"
  let ?s5 = "?s4\<lparr>ring := (ring ?s4)\<lparr>readIndex := [1, 0]\<rparr>, cons := (cons ?s4)(0 := CIdle), samples_got := (samples_got ?s4)(0 := samples_got ?s4 0 @ [?x])\<rparr>"
  note simps = br_start_def RingBuffer_new_def paced_def slot_of_def produce_store_def produce_publish_def sample_of_def consume_load_def less_2_cases_iff
  have r1: "paced_run ?f ?d ?s1" by (rule paced_run.step [OF paced_run.init br_step.store]) (simp_all add: simps)
  have r2: "paced_run ?f ?d ?s2" by (rule paced_run.step [OF r1 br_step.publish]) (simp_all add: simps)
  have r3: "paced_run ?f ?d ?s3" by (rule paced_run.step [OF r2 br_step.load]) (simp_all add: simps)
  have r4: "paced_run ?f ?d ?s4" by (rule paced_run.step [OF r3 br_step.copy]) (simp_all add: simps)
  have "paced_run ?f ?d ?s5" by (rule paced_run.step [OF r4 br_step.got]) (simp_all add: simps numeral_2_eq_2)
  then show ?thesis by (intro exI [of _ ?s5]) simp
qed

theorem broadcast_in_order_witness:
  "\<exists>s. paced_run (\<lambda>_. True) \<lparr>timestamp = 0, val = False\<rparr> s \<and> samples_got s 0 = [\<lparr>timestamp = 0, val = True\<rparr>] \<and> is_ok (consume 0 (ring s))"
proof -
  obtain s where s: "paced_run (\<lambda>_. True) \<lparr>timestamp = 0, val = False\<rparr> s" "readIndex (ring s) = [1, 0]" using first_sample_delivered by blast
  from broadcast_in_order [OF s(1), of 0] s show ?thesis by (intro exI [of _ s]) simp
qed

end
