(* ===== verification/List_Mains.thy ===== *)
theory List_Mains
  imports List_Intersection List_Loops
begin

text \<open>
  The \<open>main\<close> functions of the list programs \<open>pureStorage/mergeLinkedList.cpp\<close>, \<open>pureStorage/middleNodeLinkedList.cpp\<close>, \<open>packetHandler/intersectionOfLinkedLists.cpp\<close> and
  \<open>pureStorage/detectLoopLinkedList.cpp\<close>: the lists they build with \<open>new\<close>, the calls, and what they print.
\<close>

section \<open>Building lists\<close>

text \<open>\<open>prev->next = new ListNode(v)\<close> for every value; the result is the last node.\<close>

fun extend_list :: "lheap \<Rightarrow> ptr \<Rightarrow> int list \<Rightarrow> (ptr \<times> lheap) res" where
  "extend_list h prev [] = Inr (prev, h)"
| "extend_list h prev (v # vs) = (let (a, h) = new_node v h in rbind (set_next h prev (Some a)) (\<lambda>h. extend_list h (Some a) vs))"

definition build_list :: "lheap \<Rightarrow> int \<Rightarrow> int list \<Rightarrow> (ptr \<times> ptr \<times> lheap) res" where
  "build_list h v vs = (let (a, h) = new_node v h in rbind (extend_list h (Some a) vs) (\<lambda>(prev, h). Inr (Some a, prev, h)))"

section \<open>The programs\<close>

definition mergeLinkedList_main :: "int list res option" where
  "mergeLinkedList_main =
     obind (Some (build_list empty_heap 1 [3, 5])) (\<lambda>(l1, _, h).
     obind (Some (build_list h 2 [4, 6])) (\<lambda>(l2, _, h).
     obind (mergeTwoListsRecursive h l1 l2) (\<lambda>(merged, h).
     print_loop h merged [])))"

definition middleNode_main :: "(int \<times> lheap) res option" where
  "middleNode_main =
     obind (Some (build_list empty_heap 1 [2, 3, 4, 5])) (\<lambda>(head, _, h).
     obind (middleNode h head) (\<lambda>middle.
     obind (Some (get_val h middle)) (\<lambda>v.
     obind (destroy_loop h head) (\<lambda>h. Some (Inr (v, h))))))"

text \<open>A search prints the value of the node found, or that there is none.\<close>

definition found_value :: "lheap \<Rightarrow> ptr \<Rightarrow> int option res" where
  "found_value h p = (if p = None then Inr None else rbind (get_val h p) (\<lambda>v. Inr (Some v)))"

definition intersection_report :: "lheap \<Rightarrow> ptr \<Rightarrow> ptr \<Rightarrow> int option list res option" where
  "intersection_report h headA headB =
     obind (getIntersectionNode h headA headB) (\<lambda>p. obind (Some (found_value h p)) (\<lambda>v1.
     obind (getIntersectionNodeBruteForce h headA headB) (\<lambda>p. obind (Some (found_value h p)) (\<lambda>v2.
     obind (getIntersectionNodeUsingHashing h headA headB) (\<lambda>p. obind (Some (found_value h p)) (\<lambda>v3.
     Some (Inr [v1, v2, v3])))))))"

text \<open>The common part is built first; both lists are then linked to it.\<close>

definition intersection_main :: "int option list res option" where
  "intersection_main =
     obind (Some (build_list empty_heap 8 [4, 5])) (\<lambda>(common, _, h).
     obind (Some (build_list h 4 [1, 2])) (\<lambda>(headA, lastA, h).
     obind (Some (set_next h lastA common)) (\<lambda>h.
     obind (Some (build_list h 5 [0, 1])) (\<lambda>(headB, lastB, h).
     obind (Some (set_next h lastB common)) (\<lambda>h.
     intersection_report h headA headB)))))"

record loop_report =
  has_loop :: bool
  loop_start :: "int option"
  loop_fixed :: bool
  loop_after :: bool

definition detectLoop_main :: "loop_report res option" where
  "detectLoop_main =
     obind (Some (build_list empty_heap 1 [2, 3, 4])) (\<lambda>(head, prev, h).
     obind (Some (get_next h head)) (\<lambda>second.
     obind (Some (set_next h prev second)) (\<lambda>h.
     obind (detectLoop h head) (\<lambda>hasLoop.
     obind (if hasLoop then obind (startOfLoop h head) (\<lambda>p. Some (found_value h p)) else Some (Inr None)) (\<lambda>start.
     obind (if hasLoop then fixLoop h head else Some (Inr (False, h))) (\<lambda>(fixed, h).
     obind (detectLoop h head) (\<lambda>again.
     Some (Inr \<lparr>has_loop = hasLoop, loop_start = start, loop_fixed = fixed, loop_after = again\<rparr>))))))))"

section \<open>What they print\<close>

declare mergeTwoListsRecursive.simps [code] middle_loop.simps [code] intersection_loop.simps [code] brute_inner.simps [code] brute_outer.simps [code]
  collect_nodes.simps [code] hash_search.simps [code]

lemma mergeLinkedList_main_prints: "mergeLinkedList_main = Some (Inr [1, 2, 3, 4, 5, 6])"
  by code_simp

text \<open>The middle node is the third, and every node is released.\<close>

lemma middleNode_main_prints: "map_option (map_sum id (\<lambda>(v, h). (v, map (cells h) [0..<5]))) middleNode_main = Some (Inr (3, replicate 5 None))"
  by code_simp

lemma intersection_report_value:
  assumes "lpath (cells h) a xs None" "lpath (cells h) b ys None" "first_common xs ys = Some c" "cells h c = Some nd"
  shows "intersection_report h a b = Some (Inr [Some (node_val nd), Some (node_val nd), Some (node_val nd)])"
  using searches_first_common [OF assms(1,2)] assms(3,4) by (simp add: intersection_report_def found_value_def)

lemma intersection_main_prints: "intersection_main = Some (Inr [Some 8, Some 8, Some 8])"
  by (simp add: intersection_main_def build_list_def new_node_def new_obj_def empty_heap_def,
      subst intersection_report_value [where xs = "[3, 4, 5, 0, 1, 2]" and ys = "[6, 7, 8, 0, 1, 2]" and c = 0 and nd = "\<lparr>node_val = 8, node_next = Some 1\<rparr>"])
    (simp_all add: first_common_def)

lemma detectLoop_main_prints: "detectLoop_main = Some (Inr \<lparr>has_loop = True, loop_start = Some 2, loop_fixed = True, loop_after = False\<rparr>)"
  by code_simp

end
