(* ===== verification/Equivalences.thy ===== *)
theory Equivalences
  imports Circular_Buffer Array_Containers Linked_Queues Packet_Ring_C Lru_Embedded Lru_Packet Lru_Simple
begin

text \<open>
  The repository implements the same container several times: four queues, three stacks, three packet rings and three caches. Here
  are the facts that compare the queues and the stacks through the interfaces they share: what each answers to a sequence of calls that stays within its capacity, pops of
  the empty container included. The theorems are in \<open>Spec2Isabelle\<close>.
\<close>

section \<open>Space for further values\<close>

lemma queue_push_rear: "queue_push q x = Some q' \<Longrightarrow> q_rear q' = q_rear q + 1 \<and> q_capacity q' = q_capacity q"
  by (auto simp: queue_push_def queue_enqueue_def Let_def arr_seti_def split: sum.splits if_splits)

lemma queue_pop_rear: "queue_inv q \<Longrightarrow> queue_pop q = Some (x, q') \<Longrightarrow> q_rear q' \<le> q_rear q \<and> q_capacity q' = q_capacity q"
  by (auto simp: queue_pop_def queue_isEmpty_def queue_dequeue_def queue_inv_def arr_geti_def split: sum.splits if_splits)

interpretation linear_space: spacious_fifo queue_push queue_pop queue_contents queue_inv queue_room "Some (-1)"
  "\<lambda>q. nat (q_capacity q - q_rear q - 1)"
  by unfold_locales (auto simp: queue_room_def dest!: queue_push_rear dest: queue_pop_rear)

section \<open>Answers within the capacity\<close>

text \<open>
  Each container against the unbounded list that answers \<open>-1\<close> when it is empty. The circular buffer throws there instead: its answers are compared with \<open>-1\<close> for the
  exception.
\<close>

definition queue_answers :: "int qop list \<Rightarrow> int qout list" where
  "queue_answers ops = fst (run_ops (list_enq None) (list_pop (Some (-1))) ops [])"

definition stack_answers :: "int qop list \<Rightarrow> int qout list" where
  "stack_answers ops = fst (run_ops list_cons (list_pop (Some (-1))) ops [])"

lemma circular_answers:
  assumes "most_stored 0 ops \<le> c"
  shows "map (or_answer (-1)) (fst (run_ops (\<lambda>b x. ok_of (CircularBuffer_push b x)) (\<lambda>b. ok_of (CircularBuffer_pop b)) ops (CircularBuffer_new d c))) =
    queue_answers ops"
proof -
  have "run_ops (list_enq (Some c)) (list_pop (Some (-1))) ops [] = run_ops (list_enq None) (list_pop (Some (-1))) ops []"
    using assms by (intro run_within_capacity) (simp add: within_def)
  moreover have "fst (run_ops (list_enq (Some c)) list_take ops []) =
      fst (run_ops (\<lambda>b x. ok_of (CircularBuffer_push b x)) (\<lambda>b. ok_of (CircularBuffer_pop b)) ops (CircularBuffer_new d c))"
    using static_ring.refines_list [of "CircularBuffer_new d c" c ops] by (simp add: CircularBuffer_new_inv)
  ultimately show ?thesis using run_or_answer [of "list_enq (Some c)" "-1" ops "[]"] by (simp add: queue_answers_def)
qed

lemma linear_answers:
  assumes "length (pushed_vals ops) \<le> length junk"
  shows "fst (run_ops queue_push queue_pop ops (queueInit junk)) = queue_answers ops"
  using linear_space.refines_unbounded [OF queueInit_inv(1), of ops junk] assms queueInit_inv(2) by (simp add: queueInit_def queue_answers_def)

lemma linked_answers: "heap_ok h \<Longrightarrow> fst (run_ops LQ_push LQ_pop ops (createQueue h)) = queue_answers ops"
  using linked_queue.refines_list [of "createQueue h" ops] createQueue_inv [of h] by (simp add: queue_answers_def)

lemma thread_safe_answers: "fst (run_ops TSQ_push_op TSQ_pop_op ops (ThreadSafeQueue_new empty_heap)) = queue_answers ops"
  using thread_safe_queue.refines_list [OF TSQ_new_inv(1), of ops] TSQ_new_inv(2) by (simp add: queue_answers_def)

lemma array_stack_answers:
  assumes "most_stored 0 ops \<le> length junk" "2 * int (length junk) \<le> INT_MAX"
  shows "fst (run_ops stack_push_op stack_pop_op ops (stackInit junk)) = stack_answers ops"
proof -
  note rep = stack_rep_init [OF assms(2)]
  then have "sc_contents (stackInit junk) = []" by (rule stack_rep_contents)
  then show ?thesis using array_stack.stack_refines_list [of "length junk" "stackInit junk" ops] rep assms(1) by (simp add: stack_answers_def within_def)
qed

lemma vector_answers: "most_stored 0 ops \<le> 2 ^ 31 \<Longrightarrow> fst (run_ops Stack_push_op Stack_pop_op ops Stack_new) = stack_answers ops"
  using vector_stack.stack_refines_list [of Stack_new ops]
  by (simp add: Stack_inv_def Stack_contents_def Stack_new_def stack_answers_def within_def)

lemma linked_stack_answers: "fst (run_ops TSS_push_op TSS_pop_op ops (ThreadSafeStack_new empty_heap)) = stack_answers ops"
  using linked_stack.stack_refines_list [of "ThreadSafeStack_new empty_heap" ops] TSS_new_inv by (simp add: stack_answers_def within_def)

end
