(* ===== verification/C_Demos.thy ===== *)
theory C_Demos
  imports Prelude
begin

text \<open>
  The small programs on what C lays out: pointers to an array and into it (\<open>arista/sizeof.c\<close>, \<open>arista/pointer_types.c\<close>, \<open>arista/interview1/cQuestion.c\<close>),
  \<open>container_of\<close> (\<open>arista/container_of.c\<close>), two compiler built-ins (\<open>builtinFunctions.c\<close>), a program with a shared library (\<open>memoryLayout\<close>) and the string length of
  \<open>microsoft/cQuestion.c\<close>. Sizes and alignments are those of the LP64 machines the programs are written for; the address of an object is an argument.
\<close>

section \<open>Typed pointers\<close>

datatype ctype = CChar | CInt | CPtr | CArr ctype nat

fun c_sizeof :: "ctype \<Rightarrow> nat" where
  "c_sizeof CChar = 1"
| "c_sizeof CInt = 4"
| "c_sizeof CPtr = 8"
| "c_sizeof (CArr t n) = n * c_sizeof t"

record cptr =
  c_addr :: int
  c_pointee :: ctype

text \<open>\<open>&x\<close>, \<open>p + k\<close>, \<open>p - q\<close>, a cast, and the decay of an array to the pointer to its first element.\<close>

definition addr_of :: "int \<Rightarrow> ctype \<Rightarrow> cptr" where
  "addr_of a t = \<lparr>c_addr = a, c_pointee = t\<rparr>"

definition ptr_add :: "cptr \<Rightarrow> int \<Rightarrow> cptr" where
  "ptr_add p k = p\<lparr>c_addr := c_addr p + k * int (c_sizeof (c_pointee p))\<rparr>"

definition ptr_diff :: "cptr \<Rightarrow> cptr \<Rightarrow> int" where
  "ptr_diff p q = (c_addr p - c_addr q) div int (c_sizeof (c_pointee p))"

definition ptr_cast :: "ctype \<Rightarrow> cptr \<Rightarrow> cptr" where
  "ptr_cast t p = p\<lparr>c_pointee := t\<rparr>"

fun decay :: "cptr \<Rightarrow> cptr" where
  "decay p = (case c_pointee p of CArr t n \<Rightarrow> p\<lparr>c_pointee := t\<rparr> | _ \<Rightarrow> p)"

text \<open>An \<open>int\<close> array in memory, and a read through a pointer.\<close>

definition int_array :: "int \<Rightarrow> int list \<Rightarrow> int \<rightharpoonup> int" where
  "int_array a vs p = (if a \<le> p \<and> p < a + 4 * int (length vs) \<and> (p - a) mod 4 = 0 then Some (vs ! nat ((p - a) div 4)) else None)"

definition load_int :: "(int \<rightharpoonup> int) \<Rightarrow> cptr \<Rightarrow> int res" where
  "load_int m p = (case m (c_addr p) of None \<Rightarrow> Inl OutOfBounds | Some v \<Rightarrow> Inr v)"

text \<open>The programs: the addresses they print, then the numbers.\<close>

definition arr5 :: ctype where "arr5 = CArr CInt 5"

definition sizeof_main :: "int \<Rightarrow> int list \<times> int \<times> nat" where
  "sizeof_main a =
     (let p = addr_of a arr5; arr = decay p in
      ([c_addr p, c_addr arr, c_addr (ptr_add arr 1), c_addr (ptr_add p 1), c_addr (decay (ptr_add p 1))],
       ptr_diff (decay (ptr_add p 1)) arr, c_sizeof CPtr))"

definition pointer_types_main :: "int \<Rightarrow> int list \<times> int" where
  "pointer_types_main a =
     (let p = addr_of a arr5; arr = decay p in
      ([c_addr arr, c_addr p, c_addr (ptr_add arr 1), c_addr (ptr_add p 1)],
       ptr_diff (ptr_cast CChar (ptr_add p 1)) (ptr_cast CChar arr)))"

definition interview1_main :: "int \<Rightarrow> (int \<times> int) res" where
  "interview1_main addr =
     (let m = int_array addr [1, 2, 3, 4, 5]; a = addr_of addr arr5; ptr = ptr_cast CInt (ptr_add a 1) in
      rbind (load_int m (ptr_add (decay a) 1)) (\<lambda>x.
      rbind (load_int m (ptr_add ptr (-1))) (\<lambda>y. Inr (x, y))))"

lemmas ptr_simps = addr_of_def ptr_add_def ptr_diff_def ptr_cast_def arr5_def Let_def

text \<open>The difference of the pointer behind an array and its first element is its length, whatever the element type is.\<close>

lemma array_length_by_pointers:
  "0 < c_sizeof t \<Longrightarrow> ptr_diff (decay (ptr_add (addr_of a (CArr t n)) 1)) (decay (addr_of a (CArr t n))) = int n"
  by (simp add: ptr_simps)

text \<open>The element in front of the pointer behind the array is the last one.\<close>

lemma load_int_array: "i < length vs \<Longrightarrow> load_int (int_array a vs) (addr_of (a + 4 * int i) CInt) = Inr (vs ! i)"
  by (simp add: load_int_def int_array_def addr_of_def)

lemma last_by_pointers:
  assumes "vs \<noteq> []"
  shows "load_int (int_array a vs) (ptr_add (ptr_cast CInt (ptr_add (addr_of a (CArr CInt (length vs))) 1)) (-1)) = Inr (last vs)"
proof -
  have "ptr_add (ptr_cast CInt (ptr_add (addr_of a (CArr CInt (length vs))) 1)) (-1) = addr_of (a + 4 * int (length vs - 1)) CInt"
    using assms by (cases vs) (simp_all add: ptr_simps)
  then show ?thesis using load_int_array [of "length vs - 1" vs a] assms by (simp add: last_conv_nth)
qed

lemma pointer_mains:
  "sizeof_main a = ([a, a, a + 4, a + 20, a + 20], 5, 8)"
  "pointer_types_main a = ([a, a, a + 4, a + 20], 20)"
  "interview1_main a = Inr (2, 5)"
  by (simp_all add: sizeof_main_def pointer_types_main_def interview1_main_def ptr_simps load_int_def int_array_def)

section \<open>Structure layout and \<open>container_of\<close>\<close>

text \<open>A member is its size and its alignment; each member starts at the next multiple of its alignment.\<close>

definition align_up :: "nat \<Rightarrow> nat \<Rightarrow> nat" where
  "align_up a n = (n + a - 1) div a * a"

fun offsets_from :: "nat \<Rightarrow> (nat \<times> nat) list \<Rightarrow> nat list" where
  "offsets_from n [] = []"
| "offsets_from n ((sz, al) # ms) = (let p = align_up al n in p # offsets_from (p + sz) ms)"

definition offsetof :: "(nat \<times> nat) list \<Rightarrow> nat \<Rightarrow> nat" where
  "offsetof ms i = offsets_from 0 ms ! i"

definition container_of :: "64 word \<Rightarrow> (nat \<times> nat) list \<Rightarrow> nat \<Rightarrow> 64 word" where
  "container_of mptr ms i = mptr - of_nat (offsetof ms i)"

text \<open>\<open>struct student\<close>: a name of 20 characters and three integers; \<open>marks\<close> is the fourth member.\<close>

definition student :: "(nat \<times> nat) list" where
  "student = [(20, 1), (4, 4), (4, 4), (4, 4)]"

definition container_of_main :: "64 word \<Rightarrow> string list" where
  "container_of_main stu =
     (let pMarks = stu + of_nat (offsetof student 3) in
      if container_of pMarks student 3 = stu then [''Successfully retrieved struct address using container_of!''] else [])"

lemma align_up_props:
  assumes "0 < a"
  shows "n \<le> align_up a n" "a dvd align_up a n" "align_up a n < n + a"
proof -
  have "(n + a - 1) div a * a + (n + a - 1) mod a = n + a - 1" by simp
  moreover have "(n + a - 1) mod a < a" using assms by simp
  ultimately show "n \<le> align_up a n" "align_up a n < n + a" using assms unfolding align_up_def by linarith+
  show "a dvd align_up a n" by (simp add: align_up_def)
qed

lemma length_offsets [simp]: "length (offsets_from n ms) = length ms"
  by (induction n ms rule: offsets_from.induct) (simp_all add: Let_def)

lemma offsets_ge: "list_all (\<lambda>m. 0 < snd m) ms \<Longrightarrow> p \<in> set (offsets_from n ms) \<Longrightarrow> n \<le> p"
proof (induction n ms rule: offsets_from.induct)
  case (2 n sz al ms)
  then show ?case using align_up_props(1) [of al n] by (fastforce simp: Let_def)
qed simp

text \<open>Every member is aligned, and the members do not overlap.\<close>

lemma member_aligned: "list_all (\<lambda>m. 0 < snd m) ms \<Longrightarrow> i < length ms \<Longrightarrow> snd (ms ! i) dvd offsets_from n ms ! i"
  by (induction n ms arbitrary: i rule: offsets_from.induct) (auto simp: Let_def nth_Cons' align_up_props(2))

lemma members_disjoint:
  "list_all (\<lambda>m. 0 < snd m) ms \<Longrightarrow> i < j \<Longrightarrow> j < length ms \<Longrightarrow> offsets_from n ms ! i + fst (ms ! i) \<le> offsets_from n ms ! j"
proof (induction n ms arbitrary: i j rule: offsets_from.induct)
  case (2 n sz al ms)
  obtain j' where j: "j = Suc j'" using "2.prems" by (cases j) auto
  show ?case
  proof (cases i)
    case 0
    have "offsets_from (align_up al n + sz) ms ! j' \<in> set (offsets_from (align_up al n + sz) ms)" using "2.prems" j by simp
    with offsets_ge [of ms] "2.prems" j 0 show ?thesis by (fastforce simp: Let_def)
  qed (use 2 j in \<open>simp add: Let_def\<close>)
qed simp

text \<open>\<open>container_of\<close> leads from a member back to the structure, for every layout and wherever the structure is; \<open>main\<close> prints its message.\<close>

lemma container_of_round_trip: "container_of (base + of_nat (offsetof ms i)) ms i = base"
  by (simp add: container_of_def)

lemma student_layout: "map (offsetof student) [0..<4] = [0, 20, 24, 28]"
  by code_simp

lemma container_of_main_prints: "container_of_main stu = [''Successfully retrieved struct address using container_of!'']"
  by (simp add: container_of_main_def container_of_round_trip)

section \<open>Compiler built-ins (\<open>builtinFunctions.c\<close>)\<close>

text \<open>\<open>__builtin_clz\<close> has no defined result for 0.\<close>

definition builtin_clz :: "32 word \<Rightarrow> nat option" where
  "builtin_clz x = (if x = 0 then None else Some (length (takeWhile Not (map (bit x) (rev [0..<32])))))"

definition builtin_popcountl :: "64 word \<Rightarrow> nat" where
  "builtin_popcountl x = length (filter (bit x) [0..<64])"

definition builtinFunctions_main :: "nat option \<times> nat" where
  "builtinFunctions_main = (builtin_clz 0xF000000, builtin_popcountl 42)"

lemma popcount_counts_bits: "builtin_popcountl x = card {i. bit x i}"
proof -
  have "{i. bit x i} = set (filter (bit x) [0..<64])" using bit_imp_le_length [of x] by auto
  then show ?thesis using distinct_card [of "filter (bit x) [0..<64]"] by (simp add: builtin_popcountl_def)
qed

lemma takeWhile_rev_upt:
  assumes "P m" "m < n" "\<And>i. m < i \<Longrightarrow> i < n \<Longrightarrow> \<not> P i"
  shows "takeWhile Not (map P (rev [0..<n])) = replicate (n - 1 - m) False"
  using assms
proof (induction n)
  case (Suc n)
  show ?case
  proof (cases "m = n")
    case False
    then have "m < n" "\<not> P n" using Suc.prems by auto
    moreover from this have "n - m = Suc (n - 1 - m)" by simp
    ultimately show ?thesis using Suc.IH Suc.prems by simp
  qed (use Suc.prems in simp)
qed simp

text \<open>The result is the number of zero bits above the highest set bit.\<close>

lemma clz_highest_bit:
  assumes "bit x m" "\<And>i. m < i \<Longrightarrow> \<not> bit x i"
  shows "builtin_clz x = Some (31 - m)"
proof -
  have "m < 32" "x \<noteq> 0" using assms(1) bit_imp_le_length [of x m] by auto
  then show ?thesis using takeWhile_rev_upt [of "bit x" m 32] assms by (simp add: builtin_clz_def)
qed

lemma builtinFunctions_main_prints: "builtinFunctions_main = (Some 4, 3)"
  by code_simp

section \<open>A program with a shared library (\<open>memoryLayout\<close>)\<close>

record shared_lib =
  lib_global_init :: int
  lib_global_uninit :: int
  lib_name :: string
  call_count :: int

definition lib_loaded :: shared_lib where
  "lib_loaded = \<lparr>lib_global_init = 42, lib_global_uninit = 0, lib_name = ''MyLib'', call_count = 0\<rparr>"

definition library_api :: "shared_lib \<Rightarrow> shared_lib res" where
  "library_api l = rbind (chk32 (call_count l + 1)) (\<lambda>n. Inr (l\<lparr>call_count := n\<rparr>))"

text \<open>\<open>main\<close> does not test what \<open>malloc\<close> returns: \<open>None\<close> is a failure, otherwise the four integers of the fresh block.\<close>

definition memoryLayout_main :: "int list option \<Rightarrow> (int list \<times> shared_lib) res" where
  "memoryLayout_main dynamic =
     (case dynamic of None \<Rightarrow> Inl NullDeref
      | Some blk \<Rightarrow>
          rbind (arr_seti blk 0 0) (\<lambda>blk.
          rbind (arr_geti blk 0) (\<lambda>d.
          rbind (library_api lib_loaded) (\<lambda>l. Inr ([5, 100, d], l)))))"

lemma memoryLayout_main_prints:
  "length blk = 4 \<Longrightarrow> memoryLayout_main (Some blk) = Inr ([5, 100, 0], lib_loaded\<lparr>call_count := 1\<rparr>)"
  "memoryLayout_main None = Inl NullDeref"
  by (auto simp: memoryLayout_main_def library_api_def arr_seti_def arr_geti_def lib_loaded_def)

section \<open>The length of a string (\<open>microsoft/cQuestion.c\<close>)\<close>

text \<open>\<open>None\<close> is the null pointer; \<open>MAX_SIZE\<close> is 1024. The loop counts from -1.\<close>

function count_up :: "int \<Rightarrow> int \<Rightarrow> int" where
  "count_up limit counter = (if counter < limit then count_up limit (counter + 1) else counter)"
  by pat_completeness auto
termination by (relation "measure (\<lambda>(limit, counter). nat (limit - counter))") auto

declare count_up.simps [simp del]

definition findlength :: "string option \<Rightarrow> int" where
  "findlength s = (case s of None \<Rightarrow> 0 | Some cs \<Rightarrow> count_up (min (int (length cs)) 1024) (-1))"

lemma count_up_reaches: "counter \<le> limit \<Longrightarrow> count_up limit counter = limit"
  by (induction limit counter rule: count_up.induct) (subst count_up.simps, auto)

lemma findlength_correct: "findlength (Some cs) = min (int (length cs)) 1024" "findlength None = 0"
  by (simp_all add: findlength_def count_up_reaches)

end
