(* ===== verification/Refactored_Queue.thy ===== *)
theory Refactored_Queue
  imports Unbounded_Queues "HOL-Library.Multiset"
begin

text \<open>
  The threads of \<open>concurrency/producerConsumer/mutex_cv_refactor.cpp\<close>. Its consumers print a value after \<open>pop\<close> has released the mutex, so taking and printing
  are two steps. Forgetting the values in hand gives the system of \<open>mutex_cv.cpp\<close> (\<open>Unbounded_Queues\<close>): a simulation, by which all that is proved there carries over.
\<close>

section \<open>The threads\<close>

text \<open>\<open>in_hand\<close>: the value that a consumer has taken and not yet printed; \<open>console\<close>: the printed values.\<close>

record rf_sys = cv_sys +
  in_hand :: "(nat \<times> nat) option list"
  console :: "(nat \<times> nat) list"

definition rf_start :: "nat \<Rightarrow> nat \<Rightarrow> rf_sys" where
  "rf_start np nc = cv_sys.extend (cv_start np nc) \<lparr>in_hand = replicate nc None, console = []\<rparr>"

text \<open>\<open>main\<close>: two producers of 1000000 values and two consumers.\<close>

definition mutex_cv_refactor_main :: rf_sys where "mutex_cv_refactor_main = rf_start 2 2"

inductive rf_step :: "nat \<Rightarrow> bool \<Rightarrow> rf_sys \<Rightarrow> rf_sys \<Rightarrow> bool" for limit where
  produce_wake: "p < length (counters s) \<Longrightarrow> counters s ! p < limit \<Longrightarrow> c < length (consumers s) \<Longrightarrow> consumers s ! c = Asleep \<Longrightarrow>
    rf_step limit False s (s\<lparr>counters := (counters s)[p := Suc (counters s ! p)], shared := ThreadSafeQueue_push (shared s) (p, counters s ! p),
      history := history s @ [(p, counters s ! p)], consumers := (consumers s)[c := Awake]\<rparr>)"
| produce: "p < length (counters s) \<Longrightarrow> counters s ! p < limit \<Longrightarrow> Asleep \<notin> set (consumers s) \<Longrightarrow>
    rf_step limit False s (s\<lparr>counters := (counters s)[p := Suc (counters s ! p)], shared := ThreadSafeQueue_push (shared s) (p, counters s ! p),
      history := history s @ [(p, counters s ! p)]\<rparr>)"
| take_value: "c < length (consumers s) \<Longrightarrow> consumers s ! c = Awake \<Longrightarrow> in_hand s ! c = None \<Longrightarrow> ThreadSafeQueue_pop (shared s) = Some (v, q) \<Longrightarrow>
    rf_step limit False s (s\<lparr>shared := q, processed := processed s @ [v], in_hand := (in_hand s)[c := Some v]\<rparr>)"
| go_to_sleep: "c < length (consumers s) \<Longrightarrow> consumers s ! c = Awake \<Longrightarrow> in_hand s ! c = None \<Longrightarrow> ThreadSafeQueue_pop (shared s) = None \<Longrightarrow>
    rf_step limit False s (s\<lparr>consumers := (consumers s)[c := Asleep]\<rparr>)"
| print_value: "c < length (in_hand s) \<Longrightarrow> in_hand s ! c = Some v \<Longrightarrow>
    rf_step limit False s (s\<lparr>in_hand := (in_hand s)[c := None], console := console s @ [v]\<rparr>)"
| wake_up: "c < length (consumers s) \<Longrightarrow> consumers s ! c = Asleep \<Longrightarrow> rf_step limit True s (s\<lparr>consumers := (consumers s)[c := Awake]\<rparr>)"

inductive rf_reachable :: "nat \<Rightarrow> nat \<Rightarrow> nat \<Rightarrow> rf_sys \<Rightarrow> bool" for np nc limit where
  init: "rf_reachable np nc limit (rf_start np nc)"
| step: "rf_reachable np nc limit s \<Longrightarrow> rf_step limit b s s' \<Longrightarrow> rf_reachable np nc limit s'"

section \<open>The simulation\<close>

abbreviation queue_part :: "rf_sys \<Rightarrow> cv_sys" where
  "queue_part \<equiv> cv_sys.truncate"

lemma queue_part_fields [simp]:
  "counters (queue_part s) = counters s" "shared (queue_part s) = shared s" "consumers (queue_part s) = consumers s"
  "processed (queue_part s) = processed s" "history (queue_part s) = history s"
  by (simp_all add: cv_sys.truncate_def)

lemma rf_start_fields [simp]:
  "queue_part (rf_start np nc) = cv_start np nc" "in_hand (rf_start np nc) = replicate nc None" "console (rf_start np nc) = []"
  by (simp_all add: rf_start_def cv_sys.truncate_def cv_sys.extend_def)

lemma rf_step_simulates: "rf_step limit b s s' \<Longrightarrow> cv_step limit b (queue_part s) (queue_part s') \<or> queue_part s' = queue_part s"
proof (induction rule: rf_step.induct)
  case (produce_wake p s c)
  then show ?case using cv_step.push_wake [of p "queue_part s" limit c] by (simp add: cv_sys.truncate_def)
next
  case (produce p s)
  then show ?case using cv_step.push [of p "queue_part s" limit] by (simp add: cv_sys.truncate_def)
next
  case (take_value c s v q)
  then show ?case using cv_step.pop [of c "queue_part s" v q limit] by (simp add: cv_sys.truncate_def)
next
  case (go_to_sleep c s)
  then show ?case using cv_step.wait [of c "queue_part s" limit] by (simp add: cv_sys.truncate_def)
next
  case (wake_up c s)
  then show ?case using cv_step.spurious [of c "queue_part s" limit] by (simp add: cv_sys.truncate_def)
qed (simp add: cv_sys.truncate_def)

lemma rf_simulation: "rf_reachable np nc limit s \<Longrightarrow> cv_reachable np nc limit (queue_part s)"
proof (induction rule: rf_reachable.induct)
  case init
  then show ?case by (simp add: cv_reachable.init)
next
  case (step s b s')
  then show ?case using rf_step_simulates [OF step.hyps(2)] cv_reachable.step by metis
qed

section \<open>Nothing is lost in hand\<close>

definition held :: "rf_sys \<Rightarrow> (nat \<times> nat) list" where
  "held s = concat (map (\<lambda>h. case h of None \<Rightarrow> [] | Some v \<Rightarrow> [v]) (in_hand s))"

lemma held_update:
  assumes "c < length hs"
  shows "mset (concat (map f (hs[c := h]))) + mset (f (hs ! c)) = mset (concat (map f hs)) + mset (f h)"
  using assms
proof (induction hs arbitrary: c)
  case (Cons a hs)
  then show ?case by (cases c) (simp_all add: ac_simps)
qed simp

lemma held_take:
  "c < length hs \<Longrightarrow> hs ! c = None \<Longrightarrow> mset (concat (map (\<lambda>h. case h of None \<Rightarrow> [] | Some v \<Rightarrow> [v]) (hs[c := Some v]))) =
    add_mset v (mset (concat (map (\<lambda>h. case h of None \<Rightarrow> [] | Some v \<Rightarrow> [v]) hs)))"
  using held_update [of c hs "\<lambda>h. case h of None \<Rightarrow> [] | Some v \<Rightarrow> [v]" "Some v"] by simp

lemma held_print:
  "c < length hs \<Longrightarrow> hs ! c = Some v \<Longrightarrow> mset (concat (map (\<lambda>h. case h of None \<Rightarrow> [] | Some v \<Rightarrow> [v]) hs)) =
    add_mset v (mset (concat (map (\<lambda>h. case h of None \<Rightarrow> [] | Some v \<Rightarrow> [v]) (hs[c := None]))))"
  using held_update [of c hs "\<lambda>h. case h of None \<Rightarrow> [] | Some v \<Rightarrow> [v]" None] by simp

definition rf_inv :: "rf_sys \<Rightarrow> bool" where
  "rf_inv s \<longleftrightarrow> length (in_hand s) = length (consumers s) \<and> mset (console s) + mset (held s) = mset (processed s) \<and>
     (\<forall>c < length (consumers s). consumers s ! c = Asleep \<longrightarrow> in_hand s ! c = None)"

lemma rf_step_inv: "rf_step limit b s s' \<Longrightarrow> rf_inv s \<Longrightarrow> rf_inv s'"
proof (induction rule: rf_step.induct)
  case (take_value c s v q)
  then show ?case by (auto simp: rf_inv_def held_def held_take nth_list_update)
next
  case (print_value c s v)
  then show ?case using held_print [of c "in_hand s" v] by (auto simp: rf_inv_def held_def nth_list_update)
qed (auto simp: rf_inv_def held_def nth_list_update)

lemma rf_reachable_inv: "rf_reachable np nc limit s \<Longrightarrow> rf_inv s"
proof (induction rule: rf_reachable.induct)
  case init
  have "consumers (rf_start np nc) = replicate nc Awake" "processed (rf_start np nc) = []"
    by (simp_all add: rf_start_def cv_start_def cv_sys.extend_def)
  then show ?case by (simp add: rf_inv_def held_def)
qed (rule rf_step_inv)

text \<open>A step of the queue takes a unit of the work of \<open>mutex_cv.cpp\<close> away, and printing the value in hand half a unit.\<close>

definition rf_weight :: "nat \<Rightarrow> rf_sys \<Rightarrow> nat" where
  "rf_weight limit s = 2 * cv_weight limit (queue_part s) + length (held s)"

lemma rf_step_weight:
  assumes "rf_step limit b s s'" "rf_inv s" "\<not> b"
  shows "rf_weight limit s' < rf_weight limit s"
  using assms
proof (induction rule: rf_step.induct)
  case (take_value c s v q)
  have "mset (held (s\<lparr>shared := q, processed := processed s @ [v], in_hand := (in_hand s)[c := Some v]\<rparr>)) = add_mset v (mset (held s))"
    using take_value by (simp add: rf_inv_def held_def held_take)
  then have "length (held (s\<lparr>shared := q, processed := processed s @ [v], in_hand := (in_hand s)[c := Some v]\<rparr>)) = Suc (length (held s))"
    by (metis size_add_mset size_mset)
  moreover have "length (shared s) = Suc (length q)" using take_value(4) by (auto simp: ThreadSafeQueue_pop_def split: list.splits)
  ultimately show ?case by (simp add: rf_weight_def cv_weight_def)
next
  case (print_value c s v)
  then have "mset (held s) = add_mset v (mset (held (s\<lparr>in_hand := (in_hand s)[c := None], console := console s @ [v]\<rparr>)))"
    using held_print [of c "in_hand s" v] by (simp add: held_def)
  then have "length (held s) = Suc (length (held (s\<lparr>in_hand := (in_hand s)[c := None], console := console s @ [v]\<rparr>)))"
    by (metis size_add_mset size_mset)
  then show ?case by (simp add: rf_weight_def cv_weight_def)
next
  case (produce_wake p s c)
  then show ?case using cv_step_weight [OF cv_step.push_wake [of p "queue_part s" limit c]] by (simp add: rf_weight_def held_def cv_weight_def)
next
  case (produce p s)
  then show ?case using cv_step_weight [OF cv_step.push [of p "queue_part s" limit]] by (simp add: rf_weight_def held_def cv_weight_def)
next
  case (go_to_sleep c s)
  then show ?case using cv_step_weight [OF cv_step.wait [of c "queue_part s" limit]] by (simp add: rf_weight_def held_def cv_weight_def)
qed simp

text \<open>When nothing is in hand, every step of the queue is a step of the threads.\<close>

lemma rf_lifts:
  assumes "cv_step limit False (queue_part s) t" "rf_inv s" "held s = []"
  shows "\<exists>s'. rf_step limit False s s'"
proof -
  have none: "in_hand s ! c = None" if "c < length (consumers s)" for c
  proof (rule ccontr)
    assume "in_hand s ! c \<noteq> None"
    then obtain v where "in_hand s ! c = Some v" by auto
    moreover have "in_hand s ! c \<in> set (in_hand s)" using that assms(2) by (simp add: rf_inv_def)
    ultimately show False using assms(3) by (force simp: held_def)
  qed
  from assms(1) show ?thesis
  proof cases
    case (push_wake p c)
    then show ?thesis using rf_step.produce_wake [of p s limit c] by auto
  next
    case (push p)
    then show ?thesis using rf_step.produce [of p s limit] by auto
  next
    case (pop c v q)
    then show ?thesis using rf_step.take_value [of c s v q limit] none [of c] by auto
  next
    case (wait c)
    then show ?thesis using rf_step.go_to_sleep [of c s limit] none [of c] by auto
  qed simp
qed

lemma rf_held_prints:
  assumes "held s \<noteq> []"
  shows "\<exists>s'. rf_step limit False s s'"
proof -
  obtain c v where "c < length (in_hand s)" "in_hand s ! c = Some v"
    using assms by (auto simp: held_def in_set_conv_nth split: option.splits)
  then show ?thesis using rf_step.print_value by blast
qed

lemma rf_queue_delivers_aux:
  assumes "rf_reachable np nc limit s" "0 < nc" "\<nexists>s'. rf_step limit False s s'"
  shows "mset (console s) = mset (history s) \<and> (\<forall>p < np. from_producer p (history s) = [0..<limit]) \<and> set (consumers s) = {Asleep}"
proof -
  have inv: "rf_inv s" and cinv: "cv_inv np nc limit (queue_part s)"
    using rf_reachable_inv [OF assms(1)] cv_reachable_inv [OF rf_simulation [OF assms(1)]] by simp_all
  have h: "held s = []" using rf_held_prints assms(3) by blast
  have "\<And>t. \<not> cv_step limit False (queue_part s) t" using rf_lifts [OF _ inv h] assms(3) by blast
  from cv_progress [OF cinv assms(2) this] have e: "set (counters s) \<subseteq> {limit}" "shared s = []" "set (consumers s) = {Asleep}" by simp_all
  have len: "length (counters s) = np" "processed s = history s" "\<forall>p < np. from_producer p (history s) = [0..<counters s ! p]"
    using cinv e(2) by (auto simp: cv_inv_def)
  then have "counters s ! p = limit" if "p < np" for p using e(1) that nth_mem by blast
  with len inv e h show ?thesis by (auto simp: rf_inv_def)
qed

text \<open>
  Claim C23: the refactored program prints every value once. It is simulated by the program with the condition variable in the threads; in every reachable state the values printed
  and in hand are those taken from the queue, each as often; every step takes away from a finite amount of work, and when no step is
  possible the consumers sleep and have printed exactly the values of all producers.
\<close>

theorem refactored_queue_prints_everything:
  assumes "rf_reachable np nc limit s" "0 < nc"
  shows "cv_reachable np nc limit (queue_part s) \<and> mset (console s) + mset (held s) = mset (processed s) \<and>
    (\<forall>s'. rf_step limit False s s' \<longrightarrow> rf_weight limit s' < rf_weight limit s) \<and>
    ((\<nexists>s'. rf_step limit False s s') \<longrightarrow>
      mset (console s) = mset (history s) \<and> (\<forall>p < np. from_producer p (history s) = [0..<limit]) \<and> set (consumers s) = {Asleep})"
proof -
  have inv: "rf_inv s" by (rule rf_reachable_inv [OF assms(1)])
  then have "mset (console s) + mset (held s) = mset (processed s)" by (simp add: rf_inv_def)
  with rf_simulation [OF assms(1)] rf_step_weight [OF _ inv] rf_queue_delivers_aux [OF assms] show ?thesis by blast
qed

theorem refactored_queue_prints_everything_witness:
  "\<exists>s. rf_reachable 1 1 1 s \<and> console s = [(0, 0)] \<and> mset (console s) + mset (held s) = mset (processed s)"
proof -
  let ?s1 = "(rf_start 1 1)\<lparr>counters := [1], shared := [(0, 0)], history := [(0, 0)]\<rparr>"
  let ?s2 = "?s1\<lparr>shared := [], processed := [(0, 0)], in_hand := [Some (0, 0)]\<rparr>"
  let ?s3 = "?s2\<lparr>in_hand := [None], console := [(0, 0)]\<rparr>"
  note start = rf_start_def cv_start_def cv_sys.extend_def
  have "rf_step 1 False (rf_start 1 1) ?s1" using rf_step.produce [of 0 "rf_start 1 1" 1] by (simp add: start ThreadSafeQueue_push_def)
  then have "rf_reachable 1 1 1 ?s1" using rf_reachable.init rf_reachable.step by blast
  moreover have "rf_step 1 False ?s1 ?s2" using rf_step.take_value [of 0 ?s1 "(0, 0)" "[]" 1] by (simp add: start ThreadSafeQueue_pop_def)
  moreover have "rf_step 1 False ?s2 ?s3" using rf_step.print_value [of 0 ?s2 "(0, 0)" 1] by (simp add: start)
  ultimately have r: "rf_reachable 1 1 1 ?s3" using rf_reachable.step by blast
  then show ?thesis using refactored_queue_prints_everything [OF r zero_less_one] by (intro exI [of _ ?s3]) simp
qed

end
