(* ===== verification/Spec2Isabelle.thy ===== *)
theory Spec2Isabelle
  imports Producer_Consumer Packet_Ring_C Lockfree_Ring Array_Containers Linked_Queues Lockfree_Stack List_Loops Memory_Pool Memory_Pool_DLL
    Randomized_Set Tries Max_Xor Dns_Cache Uuid Fragmentation Lru_Embedded Lru_Packet
    Palindromes Array_Scans Number_Programs Clone_List Thread_Pools
    Mem_Apis Timers Leak_Detector Semaphores Signal_Ring Lru_Simple Squares Packet_Dispatch Unbounded_Queues
    Filters Design_Patterns Event_Manager Singletons Epoll_Server Pipe_Demos Cat_Files Packet_Ring_Threads Lockfree_Threads List_Mains Equivalences
    C_Demos Refactored_Queue
begin

text \<open>
  \<^bold>\<open>A verification library for the programs of the repository.\<close>

  The repository is a collection of about a hundred self-contained C and C++ programs: containers and caches, memory pools, programs with
  threads, network and protocol code, and algorithm exercises. The programs do not call each other; what they share are data structures (rings, linked
  lists, hash tables, queues with a condition variable) that several of them implement each in its own way. The library therefore has one theory per
  structure or group of programs, and states what variants of one structure have in common once, as a locale that every variant interprets.

  \<^bold>\<open>Conventions.\<close> A C struct or C++ class is a record, an enum or a class hierarchy a datatype, a function or method a HOL function of the same name where
  HOL has no constant of that name (otherwise with the name of its class or file in front). State is passed explicitly. Code that can throw or run into
  undefined behaviour returns \<open>'a res\<close>, that is \<open>err + 'a\<close>: an exception is \<open>Throw\<close> with its text, and reading or writing out of bounds, following a
  null or freed pointer, signed overflow and division by zero are values too, so that their absence is a theorem and not an assumption. Loops over data are
  recursive functions; loops that need not end are \<open>partial_function (option)\<close> or \<open>res_while\<close>, with \<open>None\<close> for a run that does not return, and their
  theorems state that they return. No definition uses fuel, except the two that read a finished list off the store (\<open>follow\<close>, \<open>walk_next\<close>), where the fuel is
  the number of cells. Linked structures live in an explicit store (\<open>Linked_Heap\<close>), so that aliasing, leaks and double frees can be stated. Integers are words where
  the code relies on their width, and otherwise integers with the range checks \<open>chk32\<close> and \<open>chk64\<close> where an overflow can happen. Threads are
  inductive step relations: a critical section is one step, an access without a lock is a step of its own, a wait on a condition variable is
  going to sleep, being woken (also spuriously) and taking the mutex again; the properties hold for all interleavings. A \<open>main\<close> is modelled by what it
  prints. Clocks, random numbers, hash functions of the standard library, sockets, libpcap, the answers of the operating system and the contents of fresh memory are arguments.

  \<^bold>\<open>Foundations.\<close> \<open>Prelude\<close> (results, checked accesses, integers, ring windows, counted loops), \<open>Queue_Interfaces\<close> (locales \<open>fifo\<close>, \<open>list_fifo\<close>,
  \<open>spacious_fifo\<close>, \<open>lifo\<close>, \<open>overwrite_ring\<close>), \<open>Linked_Heap\<close> (the store, paths of nodes), \<open>Index_List\<close> (lists threaded through an array by indices, locale \<open>link_fields\<close>),
  \<open>Linear_Probing\<close> (open addressing with backward reinsertion, locale \<open>probe_sequence\<close>), \<open>Lru_Spec\<close> (locales \<open>lru_cache\<close>, \<open>removable_lru_cache\<close>),
  \<open>Pool_Spec\<close> (block lists, locale \<open>pool_allocator\<close>), \<open>Work_Queue\<close> (threads around a monitor, locale \<open>work_monitor\<close>).

  \<^bold>\<open>Rings, queues and stacks.\<close>
  \<^item> \<open>Circular_Buffer\<close>: \<open>circularQueue/circularBufferStatic.cpp\<close>; refines the bounded list queue (interprets \<open>list_fifo\<close>), fails only with its exceptions.
  \<^item> \<open>Producer_Consumer\<close>: \<open>circularQueue/circularBufferStaticProdCons.cpp\<close>; no value lost or reordered, no deadlock, everything drained at shutdown.
  \<^item> \<open>Signal_Ring\<close>: the C version \<open>circularBufferStaticProdCons.c\<close> with its signal handler; values in order, and a lost interrupt.
  \<^item> \<open>Packet_Ring\<close>, \<open>Packet_Ring_C\<close>: \<open>cQueuePacketsDynamic.cpp\<close>, \<open>cQueuePacketsDynamic.c\<close>, \<open>cQueuePacketsStatic.c\<close>; overwriting rings keep the latest packets
    (interpret \<open>overwrite_ring\<close>), the C and the C++ ring agree, ownership of the packets. \<open>Packet_Ring_Threads\<close>: the threads of the three programs; packets in order, when the
    consumer waits for ever, and a lost interrupt.
  \<^item> \<open>Lockfree_Ring\<close>: \<open>amazon/emergingDevices/producerConsumer.cpp\<close>; what a consumer receives, with 64-bit indices, and the overrun race.
    \<open>Lockfree_Threads\<close>: its threads; every sample once and in order while no consumer falls a whole ring behind.
  \<^item> \<open>Array_Containers\<close>: \<open>queue/queue.c\<close>, \<open>stack/stack.cpp\<close>, \<open>stack/stack.c\<close>. \<open>Linked_Queues\<close>: \<open>queue/queueUsingLinkedList.c\<close>,
    \<open>threadPool/threadSafeQueue.cpp\<close>, \<open>threadPool/threadPoolStack.cpp\<close> (interpret \<open>fifo\<close>, \<open>lifo\<close>, \<open>list_fifo\<close>, whose parameter \<open>none\<close> is the answer of the code to a pop of the empty container).
  \<^item> \<open>Lockfree_Stack\<close>: \<open>threadPool/lockFreeStack.cpp\<close> at the level of its atomic operations.
  \<^item> \<open>Equivalences\<close> and the theorems at the end of this theory: the queues, the stacks, the packet rings and (below) the caches are interchangeable
    within their capacity.

  \<^bold>\<open>Lists, caches and tables.\<close>
  \<^item> \<open>Linked_Lists\<close>, \<open>List_Intersection\<close>, \<open>List_Loops\<close>, \<open>Clone_List\<close>: \<open>arista/deleteNode.cpp\<close>, \<open>pureStorage/mergeLinkedList.cpp\<close>, \<open>middleNodeLinkedList.cpp\<close>,
    \<open>packetHandler/intersectionOfLinkedLists.cpp\<close>, \<open>pureStorage/detectLoopLinkedList.cpp\<close>, \<open>microsoft/cloneLinkedList.cpp\<close>; total correctness of each version
    against a specification on lists; \<open>List_Mains\<close> runs their examples.
  \<^item> \<open>Lru_Embedded\<close>, \<open>Lru_Packet\<close>, \<open>Lru_Simple\<close>: \<open>lruCache/simple/lruCacheWithHashing.c\<close>, \<open>lruCache/packet\<close>, \<open>lruCache/simple/lruCacheSimple.c\<close>; each refines the list of
    recently used entries (interpret \<open>lru_cache\<close>).
  \<^item> \<open>Randomized_Set\<close>: \<open>pureStorage/getRandom.cpp\<close>. \<open>Tries\<close>: \<open>trie/trie.cpp\<close>, \<open>dnsCache/dnsCacheTrie.cpp\<close>, \<open>routingTable.cpp\<close> (interpret \<open>string_map\<close>).
    \<open>Dns_Cache\<close>: \<open>dnsCache/dnsCacheHashMap.cpp\<close>, with its records on the heap; lookups, resolution of CNAMEs, and a cleanup that frees every record once. \<open>Max_Xor\<close>: \<open>maxXOR/main.cpp\<close>.
  \<^item> \<open>Memory_Pool\<close>, \<open>Memory_Pool_DLL\<close>: \<open>memorypool\<close>; allocations are disjoint and inside the pool, freeing everything restores it, constant-time merging equals full coalescing
    (interpret \<open>pool_allocator\<close>). \<open>Leak_Detector\<close>: \<open>memoryLeakDetector/detector.cpp\<close>. \<open>Mem_Apis\<close>: \<open>mem_apis\<close>.

  \<^bold>\<open>Threads.\<close>
  \<^item> \<open>Thread_Pools\<close>: \<open>threadPool/blockingQueueThreadPool.cpp\<close>, the three \<open>main_w_*.cpp\<close>, \<open>pureStorage/rateLimiter.cpp\<close> (interpret \<open>work_monitor\<close>); everything runs once, in
    order, without lost wake-ups and in bounded time; the sliding window of the limiter.
  \<^item> \<open>Unbounded_Queues\<close>, \<open>Refactored_Queue\<close>: \<open>concurrency/producerConsumer\<close>; the refactored program is simulated by the original. \<open>Semaphores\<close>: \<open>semaphore/countingSemaphore.c\<close>, \<open>pureStorage/threadCallbackEventSync.cpp\<close>.
    \<open>Timers\<close>: \<open>timer/timer_pthread.cpp\<close>; when a timer expires, which is one tick after what its messages say. \<open>Event_Manager\<close>: \<open>pureStorage/interview.cpp\<close>. \<open>Singletons\<close>: \<open>singleton\<close>.

  \<^bold>\<open>Protocols and I/O.\<close>
  \<^item> \<open>Fragmentation\<close>: \<open>arista/interview1/packetFragmentation.cpp\<close>; reassembly in any order. \<open>Uuid\<close>: \<open>bl-ble\<close>. \<open>Packet_Dispatch\<close>: \<open>packetHandler/PacketHandler.cpp\<close>; packets printed once
    and in order. \<open>Netlink\<close>, \<open>Epoll_Server\<close>: \<open>pollMechanisms/epoll/hostapd.c\<close> over a record of the operating system and its answers; every message of a datagram up to
    its end marker is printed by its type, and the descriptors that are open in every outcome, a server blocked by a client included (locale \<open>descriptor_source\<close> for the functions that set one up). \<open>Pipe_Demos\<close>: \<open>pollMechanisms/poll/poll.c\<close>,
    \<open>epoll/epoll.c\<close>, \<open>select/select.c\<close>; what the parent reads for every interleaving of the writers. \<open>Cat_Files\<close>: \<open>pollMechanisms/io_uring/cat_io_uring.c\<close>; exact copies for
    short and interrupted calls, and the orders of completion for which the ring copies exactly or loses data.

  \<^bold>\<open>Algorithms.\<close>
  \<^item> \<open>Digit_Strings\<close>, \<open>Palindromes\<close>, \<open>Array_Scans\<close>, \<open>Number_Programs\<close>, \<open>Squares\<close>: the exercises under \<open>arista\<close>, \<open>pureStorage\<close>, \<open>amazon\<close> and the top directory, each against a
    declarative specification. \<open>Filters\<close>: \<open>microsoft/securityPosition/deduplication.cpp\<close>, \<open>systemDesign/sensorFilter.cpp\<close>. \<open>Design_Patterns\<close>: \<open>designPatterns\<close>.
  \<^item> \<open>C_Demos\<close>: the small programs on pointers, layout and built-ins of C; pointer arithmetic on arrays of any type, members that are aligned and disjoint in every structure,
    and \<open>container_of\<close> as the inverse of taking a member's address.

  \<^bold>\<open>What modelling showed.\<close> Where the code does not do what it means to, the theory of the program has a lemma that exhibits it: among others the array stack
  that never notices it is full, the read of an unpublished sample in the broadcast ring, the use after free in the lock-free stack, keys confused by the pointer-based cache, the brute-force
  palindrome search, lost wake-ups and loops that never end in the programs with threads, reads behind truncated packets, a consumer that waits for overwritten packets, and files
  lost by the copy with an io_uring.

  \<^bold>\<open>Not modelled.\<close> Left out: \<open>stackOverflowDetect.c\<close> prints the distance of addresses in two stack frames, which the language does not define; of
  \<open>microsoft/cQuestion.c\<close>, a collection of notes that is not a C program, only \<open>findlength\<close> is modelled; \<open>getmedian.cpp\<close>, \<open>hashMap.cpp\<close> and \<open>semaphore/binarySemaphore.c\<close> are
  unfinished or empty. In modelled files the statements that only print labels, sleep or measure time are not part of the model, nor are joins of threads, whose effect is that the
  properties speak of the states in which no step is possible any more.
\<close>

section \<open>Properties that span components\<close>

text \<open>
  Claim C31. The queues and the stacks are interchangeable for a client that never has more than \<open>c\<close> values stored, where \<open>2 * c\<close> is an \<open>int\<close>: the circular buffer
  of capacity \<open>c\<close>, the linked queue and the thread-safe queue answer every sequence of calls alike, and so does the linear array queue of capacity \<open>c\<close> if the client stores
  at most \<open>c\<close> values altogether; and the array stack of capacity \<open>c\<close>, the vector stack and the thread-safe linked stack answer alike. A pop of the empty container answers
  \<open>-1\<close> in all but the circular buffer, which throws.
\<close>

theorem containers_interchangeable:
  assumes "most_stored 0 ops \<le> length junk" and "2 * int (length junk) \<le> INT_MAX" and "heap_ok h"
  shows "map (or_answer (-1)) (fst (run_ops (\<lambda>b x. ok_of (CircularBuffer_push b x)) (\<lambda>b. ok_of (CircularBuffer_pop b)) ops (CircularBuffer_new d (length junk)))) =
      fst (run_ops LQ_push LQ_pop ops (createQueue h)) \<and>
    fst (run_ops TSQ_push_op TSQ_pop_op ops (ThreadSafeQueue_new empty_heap)) = fst (run_ops LQ_push LQ_pop ops (createQueue h)) \<and>
    (length (pushed_vals ops) \<le> length junk \<longrightarrow>
      fst (run_ops queue_push queue_pop ops (queueInit junk)) = fst (run_ops LQ_push LQ_pop ops (createQueue h))) \<and>
    fst (run_ops stack_push_op stack_pop_op ops (stackInit junk)) = fst (run_ops Stack_push_op Stack_pop_op ops Stack_new) \<and>
    fst (run_ops TSS_push_op TSS_pop_op ops (ThreadSafeStack_new empty_heap)) = fst (run_ops Stack_push_op Stack_pop_op ops Stack_new)"
proof -
  have "most_stored 0 ops \<le> 2 ^ 31" using assms(1,2) by simp
  note vector = vector_answers [OF this]
  show ?thesis
    unfolding linked_answers [OF assms(3)] thread_safe_answers array_stack_answers [OF assms(1,2)] vector linked_stack_answers
      circular_answers [OF assms(1)]
    using linear_answers [of ops junk] by simp
qed

theorem containers_interchangeable_witness:
  "fst (run_ops queue_push queue_pop [Push 4, Push 5, Pop, Pop, Pop] (queueInit [0, 0])) =
   fst (run_ops LQ_push LQ_pop [Push 4, Push 5, Pop, Pop, Pop] (createQueue empty_heap)) \<and>
   fst (run_ops stack_push_op stack_pop_op [Push 4, Push 5, Pop, Pop, Pop] (stackInit [0, 0])) =
   fst (run_ops Stack_push_op Stack_pop_op [Push 4, Push 5, Pop, Pop, Pop] Stack_new)"
proof -
  have "most_stored 0 [Push 4, Push 5, Pop, Pop, Pop :: int qop] \<le> length [0, 0 :: int]" "2 * int (length [0, 0 :: int]) \<le> INT_MAX"
    "length (pushed_vals [Push 4, Push 5, Pop, Pop, Pop :: int qop]) \<le> length [0, 0 :: int]" by simp_all
  with containers_interchangeable [OF this(1,2) heap_ok_empty] show ?thesis by blast
qed

text \<open>
  Claim C29. The three packet rings are interchangeable: on fresh rings of the same positive capacity, any sequence of enqueues and dequeues gets
  the same answers from the C and the C++ dynamic ring, those of a list that drops its oldest packet, although the two update a full ring in a
  different order; the static C ring of eight packets answers like a dynamic ring of capacity eight for payloads of at most 1024 bytes.
\<close>

theorem packet_rings_interchangeable:
  assumes "0 < c"
  shows "fst (run_ops DB_enq DB_deq ops (create_buffer c)) = fst (run_ops (list_ring c) list_take ops []) \<and>
    fst (run_ops PB_enq PB_deq ops (PB_new c)) = fst (run_ops (list_ring c) list_take ops []) \<and>
    (c = BUFFER_CAPACITY \<and> list_all (\<lambda>p. length (packet.p_data p) \<le> Packet_Ring_C.MAX_PACKET_SIZE) (pushed_vals ops) \<longrightarrow>
      fst (run_ops SB_enq SB_deq ops (packet_buffer_init zero_packets)) = fst (run_ops DB_enq DB_deq ops (create_buffer c)))"
proof -
  have pb: "fst (run_ops PB_enq PB_deq ops (PB_new c)) = fst (run_ops (list_ring c) list_take ops [])"
    using pb_ring.refines_list_ring [of "PB_new c" c ops] PB_new_inv [OF assms] by (simp add: PB_new_def list_all_iff)
  have db: "fst (run_ops DB_enq DB_deq ops (create_buffer c)) = fst (run_ops PB_enq PB_deq ops (PB_new c))"
    using DB_run_agrees [OF DB_rel_create] PB_new_inv [OF assms] by blast
  have "SB_contents (packet_buffer_init zero_packets) = []"
    by (simp add: SB_contents_def SB_count_def ring_count_def packet_buffer_init_def)
  then have "list_all (\<lambda>p. length (packet.p_data p) \<le> Packet_Ring_C.MAX_PACKET_SIZE) (pushed_vals ops) \<Longrightarrow>
      fst (run_ops SB_enq SB_deq ops (packet_buffer_init zero_packets)) = fst (run_ops (list_ring BUFFER_CAPACITY) list_take ops [])"
    using sb_ring.refines_list_ring [OF packet_buffer_init_inv, of ops] by simp
  with pb db show ?thesis by metis
qed

theorem packet_rings_interchangeable_witness:
  "fst (run_ops SB_enq SB_deq [Push (Packet_new [1] 0), Pop, Pop] (packet_buffer_init zero_packets)) =
   fst (run_ops DB_enq DB_deq [Push (Packet_new [1] 0), Pop, Pop] (create_buffer BUFFER_CAPACITY))"
  using packet_rings_interchangeable [of BUFFER_CAPACITY "[Push (Packet_new [1] 0), Pop, Pop]"] by (simp add: Packet_new_def)

text \<open>
  Claim C30. While the keys in use fit into a cache it is transparent: for any sequence of lookups and insertions over at most 16 keys the embedded
  cache, over at most 64 keys the packet cache (packets of at most 1536 bytes) and over at most 3 keys from 0 to 9999 the pointer-based cache of
  capacity 3 answers every lookup as a map that never forgets; the last answers \<open>-1\<close> for a key that was never put.
\<close>

theorem caches_transparent:
  fixes ops :: "(32 word, 32 word) cache_op list" and pops :: "(32 word, 8 word list) cache_op list" and sops :: "(int, int) cache_op list"
  shows "(card (op_key ` set ops) \<le> CAPACITY \<longrightarrow> cache_run lru_get_some lru_put ops lru_init = Some (Inr (map_run ops (\<lambda>_. None)))) \<and>
    (card (op_key ` set pops) \<le> P_CAPACITY \<and> (\<forall>a \<in> set pops. \<forall>d \<in> op_vals a. length d \<le> Lru_Packet.MAX_PACKET_SIZE) \<longrightarrow>
      cache_run pkt_look pkt_put pops pkt_init = Some (Inr (map_run pops (\<lambda>_. None)))) \<and>
    (card (op_key ` set sops) \<le> nat LS_CAPACITY \<and> op_key ` set sops \<subseteq> {0..<int HASH_SLOTS} \<longrightarrow>
      (\<exists>c. createCache junk LS_CAPACITY = Inr c \<and> cache_run ls_get_op ls_put_op sops c = Some (Inr (map or_minus_one (map_run sops (\<lambda>_. None))))))"
proof (intro conjI impI)
  assume a: "card (op_key ` set ops) \<le> CAPACITY"
  then show "cache_run lru_get_some lru_put ops lru_init = Some (Inr (map_run ops (\<lambda>_. None)))"
    using lru_init_inv e_lru.working_set_fits [of lru_init ops] by simp
next
  assume "card (op_key ` set pops) \<le> P_CAPACITY \<and> (\<forall>a \<in> set pops. \<forall>d \<in> op_vals a. length d \<le> Lru_Packet.MAX_PACKET_SIZE)"
  then show "cache_run pkt_look pkt_put pops pkt_init = Some (Inr (map_run pops (\<lambda>_. None)))"
    using pkt_init_inv p_lru.working_set_fits [of pkt_init pops] by simp
next
  assume s: "card (op_key ` set sops) \<le> nat LS_CAPACITY \<and> op_key ` set sops \<subseteq> {0..<int HASH_SLOTS}"
  have "int (nat LS_CAPACITY) < INT_MAX" "int (nat LS_CAPACITY) = LS_CAPACITY" by (simp_all add: LS_CAPACITY_def)
  then obtain c where c: "createCache junk LS_CAPACITY = Inr c" "s_inv (nat LS_CAPACITY) c" "s_items c = []" using createCache_inv by metis
  have "cache_run ls_get_op ls_put_op sops c = Some (Inr (map or_minus_one (map_run sops (\<lambda>_. None))))"
    using s by (intro ls_lru.working_set_fits [OF c(2,3)]) (auto simp: image_subset_iff)
  with c(1) show "\<exists>c. createCache junk LS_CAPACITY = Inr c \<and> cache_run ls_get_op ls_put_op sops c = Some (Inr (map or_minus_one (map_run sops (\<lambda>_. None))))"
    by blast
qed

theorem caches_transparent_witness:
  "cache_run lru_get_some lru_put [Put 1 10, Put 2 20, Get 1, Put 1 11, Get 1, Get 3] lru_init = Some (Inr [Some 10, Some 11, None]) \<and>
   (\<exists>c. createCache \<lparr>d_key = 0, d_value = 0, d_prev = None, d_next = None\<rparr> LS_CAPACITY = Inr c \<and>
     cache_run ls_get_op ls_put_op [Put 1 10, Get 1, Get 2] c = Some (Inr [10, -1]))"
  using caches_transparent [of "[Put 1 10, Put 2 20, Get 1, Put 1 11, Get 1, Get 3]" "[]" "[Put 1 10, Get 1, Get 2]" "\<lparr>d_key = 0, d_value = 0, d_prev = None, d_next = None\<rparr>"]
  by (simp add: CAPACITY_def LS_CAPACITY_def HASH_SLOTS_def card_insert_if or_minus_one_def)

end
